(* ===== verification/Prelude.thy ===== *)
theory Prelude
  imports Main "HOL-Library.Word"
begin

text \<open>
  Definitions and lemmas every component of the development shares: the machine integers of
  the C and C++ sources, the little-endian view of a byte buffer, and list facts for buffers
  that are edited in place. C \<open>int\<close> values that the code never lets overflow are
  \<open>int\<close>; a conversion to \<open>unsigned\<close> is written \<open>u32\<close>, so the wrap-around is
  visible where the source compares a signed with an unsigned operand.
\<close>

section \<open>Machine integers\<close>

type_synonym byte = "8 word"

named_theorems c_int \<open>conversions of C integers that are exact in range\<close>

definition u32 :: "int \<Rightarrow> int" where
  "u32 x = x mod 4294967296"

definition u16 :: "int \<Rightarrow> int" where
  "u16 x = x mod 65536"

definition s32 :: "int \<Rightarrow> int" where
  "s32 x = (x + 2147483648) mod 4294967296 - 2147483648"

lemma u32_id [c_int]: "0 \<le> x \<Longrightarrow> x < 4294967296 \<Longrightarrow> u32 x = x"
  by (simp add: u32_def)

lemma u16_id [c_int]: "0 \<le> x \<Longrightarrow> x < 65536 \<Longrightarrow> u16 x = x"
  by (simp add: u16_def)

lemma s32_id [c_int]: "- 2147483648 \<le> x \<Longrightarrow> x < 2147483648 \<Longrightarrow> s32 x = x"
  by (simp add: s32_def)

lemma u32_bounds: "0 \<le> u32 x" "u32 x < 4294967296"
  by (simp_all add: u32_def)

lemma u16_bounds: "0 \<le> u16 x" "u16 x < 65536"
  by (simp_all add: u16_def)

section \<open>Little-endian fields of a byte buffer\<close>

text \<open>The sources read packed struct fields straight from the receive buffer on x86.\<close>

fun le_nat :: "byte list \<Rightarrow> nat" where
  "le_nat [] = 0"
| "le_nat (b # bs) = unat b + 256 * le_nat bs"

fun to_le :: "nat \<Rightarrow> nat \<Rightarrow> byte list" where
  "to_le 0 n = []"
| "to_le (Suc k) n = word_of_nat (n mod 256) # to_le k (n div 256)"

lemma length_to_le [simp]: "length (to_le k n) = k"
  by (induction k arbitrary: n) auto

lemma unat_byte_of_nat: "unat (word_of_nat (n mod 256) :: byte) = n mod 256"
  by (simp add: unat_of_nat)

lemma le_nat_to_le: "le_nat (to_le k n) = n mod 256 ^ k"
proof (induction k arbitrary: n)
  case 0
  show ?case by simp
next
  case (Suc k)
  have "le_nat (to_le (Suc k) n) = n mod 256 + 256 * ((n div 256) mod 256 ^ k)"
    by (simp add: Suc.IH unat_byte_of_nat del: unat_of_nat of_nat_mod)
  also have "\<dots> = n mod 256 ^ Suc k"
    by (simp add: mod_mult2_eq)
  finally show ?case .
qed

lemma to_le_inj:
  assumes "to_le k m = to_le k n" "m < 256 ^ k" "n < 256 ^ k"
  shows "m = n"
proof -
  have "m mod 256 ^ k = n mod 256 ^ k"
    using assms(1) le_nat_to_le [of k m] le_nat_to_le [of k n] by metis
  with assms(2,3) show ?thesis by simp
qed

lemma to_le_le_nat: "to_le (length bs) (le_nat bs) = bs"
proof (induction bs)
  case (Cons b bs)
  have "unat b < 256" using unsigned_less [of b] by simp
  with Cons show ?case by simp
qed simp

lemma le_nat_take: "le_nat (take n bs) = le_nat bs mod 256 ^ n"
proof (induction n arbitrary: bs)
  case (Suc n)
  show ?case
  proof (cases bs)
    case (Cons b cs)
    have "unat b < 256" using unsigned_less [of b] by simp
    then have "(unat b + 256 * le_nat cs) mod (256 * 256 ^ n) = unat b + 256 * (le_nat cs mod 256 ^ n)"
      by (simp add: mod_mult2_eq)
    with Suc [of cs] Cons show ?thesis by simp
  qed simp
qed simp

lemma le_nat_bound: "le_nat bs < 256 ^ length bs"
proof (induction bs)
  case Nil
  show ?case by simp
next
  case (Cons b bs)
  have "unat b < 256" using unsigned_less [of b] by simp
  with Cons show ?case by simp
qed

definition rd_le :: "nat \<Rightarrow> nat \<Rightarrow> byte list \<Rightarrow> nat" where
  "rd_le off k bs = le_nat (take k (drop off bs))"

lemma rd_le_bound: "rd_le off k bs < 256 ^ k"
proof -
  have "rd_le off k bs < 256 ^ length (take k (drop off bs))"
    unfolding rd_le_def by (rule le_nat_bound)
  also have "\<dots> \<le> (256::nat) ^ k" by (rule power_increasing) auto
  finally show ?thesis .
qed

lemma rd_le_append: "off + k \<le> length bs \<Longrightarrow> rd_le off k (bs @ cs) = rd_le off k bs"
  by (simp add: rd_le_def)

text \<open>Fields of a packed struct written one after the other and read back by their offset.\<close>

named_theorems layout \<open>reading fields back from the bytes a struct was written to\<close>

lemma rd_le_here [layout]: "rd_le 0 k (to_le k n @ r) = n mod 256 ^ k"
  by (simp add: rd_le_def le_nat_to_le)

lemma rd_le_last [layout]: "rd_le 0 k (to_le k n) = n mod 256 ^ k"
  using rd_le_here [of k n "[]"] by simp

lemma rd_le_skip [layout]: "length p \<le> off \<Longrightarrow> rd_le off k (p @ r) = rd_le (off - length p) k r"
  by (simp add: rd_le_def)

lemma rd_le_drop [layout]: "rd_le off k (drop d bs) = rd_le (d + off) k bs"
  by (simp add: rd_le_def add.commute)

lemma rd_le_concat:
  "i < length ns \<Longrightarrow> rd_le (k * i) k (concat (map (to_le k) ns) @ r) = ns ! i mod 256 ^ k"
proof (induction ns arbitrary: i)
  case (Cons n ns)
  show ?case
  proof (cases i)
    case 0
    then show ?thesis by (simp add: layout)
  next
    case (Suc j)
    with Cons show ?thesis by (simp add: layout)
  qed
qed simp

lemma length_concat_to_le [simp]: "length (concat (map (to_le k) ns)) = k * length ns"
  by (induction ns) auto

end
