(* ===== verification/Channel.thy ===== *)
theory Channel
  imports Prelude
begin

text \<open>
  What the processes of a server rely on between them: a channel that accepts or rejects an item, and hands
  items out in the order it accepted them. A rejected push and a pop on an empty channel change nothing the peer
  can see.
\<close>

locale channel =
  fixes push :: "'q \<Rightarrow> 'a \<Rightarrow> bool \<times> 'q"
    and pop :: "'q \<Rightarrow> 'a option \<times> 'q"
    and contents :: "'q \<Rightarrow> 'a list \<Rightarrow> bool"
    and ok :: "'a \<Rightarrow> bool"
  assumes push_accept: "contents q xs \<Longrightarrow> ok x \<Longrightarrow> push q x = (True, q') \<Longrightarrow> contents q' (xs @ [x])"
    and push_reject: "contents q xs \<Longrightarrow> ok x \<Longrightarrow> push q x = (False, q') \<Longrightarrow> contents q' xs"
    and pop_empty: "contents q [] \<Longrightarrow> \<exists>q'. pop q = (None, q') \<and> contents q' []"
    and pop_first: "contents q (x # xs) \<Longrightarrow> \<exists>q'. pop q = (Some x, q') \<and> contents q' xs"
begin

text \<open>Pushing a batch, as far as the channel accepts it, and the consumer's drain loop.\<close>

fun push_all :: "'q \<Rightarrow> 'a list \<Rightarrow> 'a list \<times> 'q" where
  "push_all q [] = ([], q)"
| "push_all q (x # xs) =
     (case push q x of (acc, q') \<Rightarrow>
        if acc then (case push_all q' xs of (ys, q'') \<Rightarrow> (x # ys, q''))
        else push_all q' xs)"

fun drain :: "nat \<Rightarrow> 'q \<Rightarrow> 'a list \<times> 'q" where
  "drain 0 q = ([], q)"
| "drain (Suc n) q =
     (case pop q of
        (None, q') \<Rightarrow> ([], q')
      | (Some x, q') \<Rightarrow> (case drain n q' of (ys, q'') \<Rightarrow> (x # ys, q'')))"

lemma push_all_contents:
  "contents q xs \<Longrightarrow> \<forall>x \<in> set ys. ok x \<Longrightarrow> push_all q ys = (acc, q') \<Longrightarrow>
   contents q' (xs @ acc) \<and> set acc \<subseteq> set ys"
proof (induction ys arbitrary: q xs acc q')
  case Nil
  then show ?case by simp
next
  case (Cons y ys)
  obtain a q1 where p: "push q y = (a, q1)" by fastforce
  show ?case
  proof (cases a)
    case True
    with Cons.prems p have c: "contents q1 (xs @ [y])" using push_accept by auto
    obtain acc1 q2 where r: "push_all q1 ys = (acc1, q2)" by fastforce
    with Cons.IH [OF c] Cons.prems have "contents q2 (xs @ y # acc1) \<and> set acc1 \<subseteq> set ys" by simp
    with Cons.prems p r True show ?thesis by auto
  next
    case False
    with Cons.prems p have "contents q1 xs" using push_reject by auto
    with Cons p False show ?thesis by fastforce
  qed
qed

lemma drain_contents:
  "contents q xs \<Longrightarrow> length xs < n \<Longrightarrow> fst (drain n q) = xs \<and> contents (snd (drain n q)) []"
proof (induction xs arbitrary: q n)
  case Nil
  then obtain m where "n = Suc m" by (cases n) auto
  with Nil pop_empty [of q] show ?case by auto
next
  case (Cons x xs)
  then obtain m q' where m: "n = Suc m" "pop q = (Some x, q')" "contents q' xs"
    using pop_first by (cases n) force+
  with Cons.IH [of q' m] Cons.prems show ?case by (auto split: prod.splits)
qed

lemma transfer:
  assumes "contents q []" "\<forall>x \<in> set ys. ok x" "push_all q ys = (acc, q1)" "length acc < n"
  shows "fst (drain n q1) = acc"
  using push_all_contents [OF assms(1-3)] drain_contents [of q1 acc n] assms(4) by simp

end

end
