(* ===== verification/Shmq.thy ===== *)
theory Shmq
  imports Channel
begin

text \<open>
  The shared-memory ring queue of the server framework
  (\<^verbatim>\<open>feed/timestamp_serv/lib/serverbench-1.1.0/src/shmq.c\<close>, \<^verbatim>\<open>shmq.h\<close>): one producer and
  one consumer process exchange variable-length blocks. Offsets are the code's byte offsets
  from \<open>q->addr\<close>. The shared memory is modelled as the blocks that lie intact in it, by
  start offset: writing a block destroys every block it overlaps, and reading an offset
  where no intact block starts has no defined result (\<open>None\<close>). That no call ever does so is
  part of what is proved. \<open>FIFO\<close> order, exact contents and the block counter are proved
  against a list.
\<close>

section \<open>Blocks and the queue\<close>

datatype blk_type = DAT_BLOCK | PAD_BLOCK | FIN_BLOCK

record skinfo =
  sockfd :: int
  sk_type :: int
  recvtm :: int
  sendtm :: int
  local_ip :: int
  local_port :: int
  remote_ip :: int
  remote_port :: int

record shm_block =
  blk_id :: int
  blk_len :: int
  blk_typ :: blk_type
  blk_sk :: skinfo
  blk_accept_fd :: int

text \<open>Sizes of the packed structs: 12 bytes of \<open>shm_head_t\<close>, 8 + 4 + 1 + 40 + 2 bytes of
  \<open>shm_block\<close>, of which \<open>skinfo_t\<close> is 40 with its alignment.\<close>

definition shm_head_sz :: int where
  "shm_head_sz = 12"

definition shm_block_sz :: int where
  "shm_block_sz = 55"

type_synonym slot = "shm_block \<times> byte list"

record shm_queue =
  q_head :: int
  q_tail :: int
  q_blk_cnt :: int
  q_mem :: "int \<Rightarrow> slot option"
  q_length :: int

text \<open>The bytes a slot occupies: a padding block is only a header.\<close>

definition slot_size :: "slot \<Rightarrow> int" where
  "slot_size s = (if blk_typ (fst s) = PAD_BLOCK then shm_block_sz else blk_len (fst s))"

definition put_slot :: "int \<Rightarrow> slot \<Rightarrow> (int \<Rightarrow> slot option) \<Rightarrow> (int \<Rightarrow> slot option)" where
  "put_slot off s m =
     (\<lambda>p. if p = off then Some s
          else case m p of
            None \<Rightarrow> None
          | Some t \<Rightarrow>
              if p < off + slot_size s \<and> off < p + slot_size t then None else Some t)"

definition do_shmq_create :: "int \<Rightarrow> shm_queue" where
  "do_shmq_create len =
     \<lparr>q_head = shm_head_sz, q_tail = shm_head_sz, q_blk_cnt = 0, q_mem = (\<lambda>_. None),
      q_length = len\<rparr>"

section \<open>Aligning head and tail at the end of the memory\<close>

definition align_queue_tail :: "shm_queue \<Rightarrow> shm_queue option" where
  "align_queue_tail q =
     (if q_head q \<ge> q_tail q then Some q
      else if u32 (q_length q - q_tail q) < shm_block_sz then Some (q\<lparr>q_tail := shm_head_sz\<rparr>)
      else case q_mem q (q_tail q) of
          None \<Rightarrow> None
        | Some s \<Rightarrow>
            if blk_typ (fst s) = PAD_BLOCK then Some (q\<lparr>q_tail := shm_head_sz\<rparr>) else Some q)"

definition pad_slot :: "int \<Rightarrow> slot" where
  "pad_slot surplus =
     (\<lparr>blk_id = 0, blk_len = surplus, blk_typ = PAD_BLOCK,
       blk_sk = \<lparr>sockfd = 0, sk_type = 0, recvtm = 0, sendtm = 0, local_ip = 0, local_port = 0,
                 remote_ip = 0, remote_port = 0\<rparr>,
       blk_accept_fd = 0\<rparr>, [])"

text \<open>The result is the C return value (\<open>0\<close> or \<open>-1\<close>) and the new queue. In the branch
  the source calls ``bug'' it only logs.\<close>

definition align_queue_head :: "shm_queue \<Rightarrow> shm_block \<Rightarrow> int \<times> shm_queue" where
  "align_queue_head q mb =
     (let tail_pos = q_tail q; head_pos = q_head q;
          surplus = q_length q - head_pos
      in if u32 surplus < blk_len mb then
           if tail_pos = shm_head_sz then (-1, q)
           else if q_tail q > head_pos then (0, q)
           else if surplus < shm_block_sz then (0, q\<lparr>q_head := shm_head_sz\<rparr>)
           else (0, q\<lparr>q_mem := put_slot head_pos (pad_slot surplus) (q_mem q),
                      q_head := shm_head_sz\<rparr>)
         else (0, q))"

section \<open>Waiting, pop and push\<close>

text \<open>
  A call that may sleep does so while nothing changes; \<open>Sleep\<close> is the state in which it
  sleeps. It wakes in the loop it slept in, whose remaining code is the call started again.
  \<open>stop\<close> is the daemon's stop flag, \<open>sleep\<close> the \<open>SLEEP_MASK\<close> bit of \<open>flag\<close>. The
  semaphore of \<open>LOCKED_MASK\<close> only serialises callers of the same side.
\<close>

datatype 'a wait = Ready 'a | Fail 'a | Sleep 'a

definition give_up :: "bool \<Rightarrow> bool \<Rightarrow> 'a \<Rightarrow> 'a wait" where
  "give_up stop sleep q = (if \<not> stop \<and> sleep then Sleep q else Fail q)"

definition pop_wait :: "bool \<Rightarrow> bool \<Rightarrow> shm_queue \<Rightarrow> shm_queue wait option" where
  "pop_wait stop sleep q =
     (case align_queue_tail q of
        None \<Rightarrow> None
      | Some q1 \<Rightarrow>
          if q_tail q1 = q_head q1 then Some (give_up stop sleep q1)
          else case align_queue_tail q1 of
              None \<Rightarrow> None
            | Some q2 \<Rightarrow>
                if q_tail q2 = q_head q2 then Some (give_up stop sleep q2)
                else Some (Ready q2))"

definition queue_full :: "shm_queue \<Rightarrow> shm_block \<Rightarrow> bool" where
  "queue_full q mb \<longleftrightarrow>
     q_tail q > q_head q \<and> q_tail q < u32 (q_head q + blk_len mb + 1)"

definition push_wait :: "bool \<Rightarrow> bool \<Rightarrow> shm_queue \<Rightarrow> shm_block \<Rightarrow> shm_queue wait" where
  "push_wait stop sleep q mb =
     (case align_queue_head q mb of (r, q1) \<Rightarrow>
        if r = -1 then Fail q1
        else if queue_full q1 mb then give_up stop sleep q1
        else case align_queue_head q1 mb of (r2, q2) \<Rightarrow>
            if r2 = -1 then Fail q2
            else if queue_full q2 mb then give_up stop sleep q2
            else Ready q2)"

text \<open>
  The outcome of an operation: its return code, the popped block when there is one, and the
  queue; \<open>None\<close> when the call is still asleep. \<open>shmq_pop\<close> copies the block at the tail
  before it moves the tail; \<open>malloc_ok\<close> says whether the copy could be allocated. The code
  tests \<open>mb\<close> instead of \<open>*mb\<close>, so a failed allocation is not noticed and the copy goes
  through a null pointer: no defined result.
\<close>

datatype 'r op_result = Returned int 'r shm_queue | Asleep shm_queue

definition shmq_pop :: "bool \<Rightarrow> bool \<Rightarrow> bool \<Rightarrow> shm_queue \<Rightarrow> slot option op_result option" where
  "shmq_pop malloc_ok stop sleep q =
     (case pop_wait stop sleep q of
        None \<Rightarrow> None
      | Some (Fail q1) \<Rightarrow> Some (Returned (-1) None q1)
      | Some (Sleep q1) \<Rightarrow> Some (Asleep q1)
      | Some (Ready q1) \<Rightarrow>
          (case q_mem q1 (q_tail q1) of
             None \<Rightarrow> None
           | Some cur_mb \<Rightarrow>
               if \<not> malloc_ok then None
               else Some (Returned 0 (Some cur_mb)
                      (q1\<lparr>q_blk_cnt := q_blk_cnt q1 - 1,
                          q_tail := q_tail q1 + blk_len (fst cur_mb)\<rparr>))))"

definition shmq_push ::
  "bool \<Rightarrow> bool \<Rightarrow> shm_queue \<Rightarrow> shm_block \<Rightarrow> byte list \<Rightarrow> unit op_result" where
  "shmq_push stop sleep q mb data =
     (case push_wait stop sleep q mb of
        Fail q1 \<Rightarrow> Returned (-1) () q1
      | Sleep q1 \<Rightarrow> Asleep q1
      | Ready q1 \<Rightarrow>
          Returned 0 ()
            (q1\<lparr>q_mem := put_slot (q_head q1)
                  (mb, if blk_len mb > shm_block_sz
                       then take (nat (blk_len mb - shm_block_sz)) data else [])
                  (q_mem q1),
                q_blk_cnt := q_blk_cnt q1 + 1,
                q_head := q_head q1 + blk_len mb\<rparr>))"

section \<open>What the memory holds\<close>

text \<open>A block the framework passes: not padding, at least a header, data of the announced
  size, and short enough that the 32-bit sums of the code are exact.\<close>

definition block_ok :: "slot \<Rightarrow> bool" where
  "block_ok s \<longleftrightarrow>
     blk_typ (fst s) \<noteq> PAD_BLOCK \<and> shm_block_sz \<le> blk_len (fst s) \<and>
     blk_len (fst s) \<le> 2 ^ 30 \<and> int (length (snd s)) = blk_len (fst s) - shm_block_sz"

fun chain :: "(int \<Rightarrow> slot option) \<Rightarrow> int \<Rightarrow> slot list \<Rightarrow> int \<Rightarrow> bool" where
  "chain m a [] b = (a = b)"
| "chain m a (s # ss) b = (m a = Some s \<and> block_ok s \<and> chain m (a + blk_len (fst s)) ss b)"

definition end_mark :: "(int \<Rightarrow> slot option) \<Rightarrow> int \<Rightarrow> int \<Rightarrow> bool" where
  "end_mark m len e \<longleftrightarrow>
     e \<le> len \<and>
     (len - e < shm_block_sz \<or>
      (case m e of None \<Rightarrow> False | Some s \<Rightarrow> blk_typ (fst s) = PAD_BLOCK))"

definition geometry :: "shm_queue \<Rightarrow> bool" where
  "geometry q \<longleftrightarrow>
     shm_head_sz \<le> q_head q \<and> q_head q \<le> q_length q \<and>
     shm_head_sz \<le> q_tail q \<and> q_tail q \<le> q_length q \<and> q_length q \<le> 2 ^ 30"

text \<open>\<open>holds q bs\<close>: the queue holds exactly the blocks \<open>bs\<close>, oldest first, either in one
  run from tail to head, or wrapped: a run from the tail up to an end mark, then a run from
  the start of the memory to the head.\<close>

definition linear :: "shm_queue \<Rightarrow> slot list \<Rightarrow> bool" where
  "linear q bs \<longleftrightarrow> q_tail q \<le> q_head q \<and> chain (q_mem q) (q_tail q) bs (q_head q)"

definition wrapped :: "shm_queue \<Rightarrow> slot list \<Rightarrow> bool" where
  "wrapped q bs \<longleftrightarrow>
     q_head q < q_tail q \<and>
     (\<exists>bs1 bs2 e. bs = bs1 @ bs2 \<and> chain (q_mem q) (q_tail q) bs1 e \<and>
        end_mark (q_mem q) (q_length q) e \<and> chain (q_mem q) shm_head_sz bs2 (q_head q))"

definition holds :: "shm_queue \<Rightarrow> slot list \<Rightarrow> bool" where
  "holds q bs \<longleftrightarrow>
     geometry q \<and> q_blk_cnt q = int (length bs) \<and> (linear q bs \<or> wrapped q bs)"

subsection \<open>Chains of blocks\<close>

lemma block_ok_size [simp]: "block_ok s \<Longrightarrow> slot_size s = blk_len (fst s)"
  by (simp add: block_ok_def slot_size_def)

lemma block_ok_len: "block_ok s \<Longrightarrow> 55 \<le> blk_len (fst s) \<and> blk_len (fst s) \<le> 1073741824"
  by (simp add: block_ok_def shm_block_sz_def)

lemma chain_le: "chain m a bs b \<Longrightarrow> a \<le> b"
proof (induction bs arbitrary: a)
  case Nil
  then show ?case by simp
next
  case (Cons s bs)
  then have "a + blk_len (fst s) \<le> b" and "55 \<le> blk_len (fst s)"
    by (auto dest: block_ok_len)
  then show ?case by simp
qed

lemma chain_append: "chain m a (bs @ cs) c \<longleftrightarrow> (\<exists>b. chain m a bs b \<and> chain m b cs c)"
  by (induction bs arbitrary: a) auto

lemma chain_empty: "chain m a bs a \<Longrightarrow> bs = []"
proof (cases bs)
  case (Cons s cs)
  assume "chain m a bs a"
  with Cons have "a + blk_len (fst s) \<le> a" and "55 \<le> blk_len (fst s)"
    by (auto dest: block_ok_len chain_le)
  then show ?thesis by simp
qed

lemma put_slot_same [simp]: "put_slot off s m off = Some s"
  by (simp add: put_slot_def)

lemma put_slot_other:
  "m p = Some t \<Longrightarrow> p \<noteq> off \<Longrightarrow> off + slot_size s \<le> p \<or> p + slot_size t \<le> off \<Longrightarrow>
   put_slot off s m p = Some t"
  by (auto simp: put_slot_def)

lemma chain_put_after: "chain m a bs b \<Longrightarrow> b \<le> off \<Longrightarrow> chain (put_slot off s m) a bs b"
proof (induction bs arbitrary: a)
  case Nil
  then show ?case by simp
next
  case (Cons t bs)
  then have ok: "block_ok t" "m a = Some t" and rest: "chain m (a + blk_len (fst t)) bs b"
    by auto
  from chain_le [OF rest] block_ok_len [OF ok(1)] Cons.prems(2)
  have "a \<noteq> off" and "a + slot_size t \<le> off" using ok by auto
  with ok have "put_slot off s m a = Some t" by (auto intro: put_slot_other)
  with ok Cons.IH [OF rest Cons.prems(2)] show ?case by simp
qed

lemma chain_put_before:
  "chain m a bs b \<Longrightarrow> off + slot_size s \<le> a \<Longrightarrow> 0 < slot_size s \<Longrightarrow>
   chain (put_slot off s m) a bs b"
proof (induction bs arbitrary: a)
  case Nil
  then show ?case by simp
next
  case (Cons t bs)
  then have ok: "block_ok t" "m a = Some t" by auto
  have "put_slot off s m a = Some t"
    using ok Cons.prems by (intro put_slot_other) auto
  moreover have "chain (put_slot off s m) (a + blk_len (fst t)) bs b"
    using Cons block_ok_len [OF ok(1)] by (intro Cons.IH) auto
  ultimately show ?case using ok by simp
qed

lemma end_mark_put_before:
  "end_mark m len e \<Longrightarrow> off + slot_size s \<le> e \<Longrightarrow> 0 < slot_size s \<Longrightarrow>
   end_mark (put_slot off s m) len e"
  by (auto simp: end_mark_def put_slot_def split: option.splits)

subsection \<open>Aligning keeps the contents\<close>

lemma block_ok_not_pad: "block_ok s \<Longrightarrow> blk_typ (fst s) \<noteq> PAD_BLOCK"
  by (simp add: block_ok_def)

text \<open>After \<open>align_queue_tail\<close> the tail is at the oldest block, or the queue is empty and
  tail and head coincide; aligning again changes nothing.\<close>

definition at_front :: "shm_queue \<Rightarrow> slot list \<Rightarrow> bool" where
  "at_front q bs \<longleftrightarrow>
     align_queue_tail q = Some q \<and> (q_tail q = q_head q \<longleftrightarrow> bs = []) \<and>
     (bs \<noteq> [] \<longrightarrow> q_mem q (q_tail q) = Some (hd bs) \<and> block_ok (hd bs))"

lemma linear_at_front:
  assumes "linear q bs"
  shows "at_front q bs"
proof (cases bs)
  case Nil
  with assms show ?thesis by (simp add: linear_def at_front_def align_queue_tail_def)
next
  case (Cons s cs)
  with assms have "chain (q_mem q) (q_tail q + blk_len (fst s)) cs (q_head q)" "block_ok s"
    by (auto simp: linear_def)
  then have "q_tail q \<noteq> q_head q" by (auto dest!: chain_le block_ok_len)
  with assms Cons show ?thesis by (simp add: linear_def at_front_def align_queue_tail_def)
qed

lemma wrapped_front:
  assumes "geometry q" "q_head q < q_tail q" "chain (q_mem q) (q_tail q) (s # cs) e"
    "end_mark (q_mem q) (q_length q) e"
  shows "align_queue_tail q = Some q"
proof -
  have s: "q_mem q (q_tail q) = Some s" "block_ok s"
    and "chain (q_mem q) (q_tail q + blk_len (fst s)) cs e"
    using assms(3) by auto
  then have "q_tail q + 55 \<le> e" by (auto dest!: chain_le block_ok_len)
  with assms(1,4) have "\<not> u32 (q_length q - q_tail q) < shm_block_sz"
    by (simp add: c_int geometry_def end_mark_def shm_block_sz_def shm_head_sz_def)
  with s assms(2) show ?thesis by (simp add: align_queue_tail_def block_ok_not_pad)
qed

lemma align_queue_tail_holds:
  assumes "holds q bs"
  obtains q1 where "align_queue_tail q = Some q1" "holds q1 bs" "at_front q1 bs"
    "q_head q1 = q_head q" "q_length q1 = q_length q"
proof (cases "linear q bs")
  case True
  with assms that [of q] linear_at_front [OF True] show ?thesis by (auto simp: at_front_def)
next
  case False
  with assms have "wrapped q bs" and g: "geometry q" by (auto simp: holds_def)
  then obtain bs1 bs2 e where w: "bs = bs1 @ bs2" "chain (q_mem q) (q_tail q) bs1 e"
      "end_mark (q_mem q) (q_length q) e" "chain (q_mem q) shm_head_sz bs2 (q_head q)"
      "q_head q < q_tail q"
    by (auto simp: wrapped_def)
  show ?thesis
  proof (cases bs1)
    case Nil
    let ?q1 = "q\<lparr>q_tail := shm_head_sz\<rparr>"
    from w(2) Nil have "e = q_tail q" by simp
    with w(3,5) g have "align_queue_tail q = Some ?q1"
      by (auto simp: align_queue_tail_def end_mark_def geometry_def c_int shm_head_sz_def
            split: option.splits)
    moreover have "linear ?q1 bs" using w(1,4) Nil g by (simp add: linear_def geometry_def)
    moreover have "holds ?q1 bs"
      using \<open>linear ?q1 bs\<close> g assms by (simp add: holds_def geometry_def)
    ultimately show ?thesis using that [of ?q1] linear_at_front [of ?q1 bs] by simp
  next
    case (Cons s cs)
    from w(2) Cons have "chain (q_mem q) (q_tail q) (s # cs) e" by simp
    then have "align_queue_tail q = Some q" by (rule wrapped_front [OF g w(5) _ w(3)])
    moreover have "at_front q bs" using w Cons calculation by (simp add: at_front_def)
    ultimately show ?thesis using that [of q] assms by simp
  qed
qed

lemma pop_wait_holds:
  assumes "holds q bs"
  obtains q1 where "holds q1 bs" "at_front q1 bs" "q_head q1 = q_head q"
    "q_length q1 = q_length q"
    "pop_wait stop sleep q = Some (if bs = [] then give_up stop sleep q1 else Ready q1)"
proof -
  obtain q1 where q1: "align_queue_tail q = Some q1" "holds q1 bs" "at_front q1 bs"
      "q_head q1 = q_head q" "q_length q1 = q_length q"
    using align_queue_tail_holds [OF assms] .
  then have "align_queue_tail q1 = Some q1" "q_tail q1 = q_head q1 \<longleftrightarrow> bs = []"
    by (auto simp: at_front_def)
  with q1 have "pop_wait stop sleep q = Some (if bs = [] then give_up stop sleep q1 else Ready q1)"
    by (simp add: pop_wait_def)
  with q1 that show ?thesis by blast
qed

section \<open>Pop returns the oldest block\<close>

lemma pop_front_holds:
  assumes "holds q (b # bs)" "at_front q (b # bs)"
  shows "holds (q\<lparr>q_blk_cnt := q_blk_cnt q - 1, q_tail := q_tail q + blk_len (fst b)\<rparr>) bs"
    (is "holds ?q bs")
proof (cases "linear q (b # bs)")
  case True
  then have c: "chain (q_mem q) (q_tail q + blk_len (fst b)) bs (q_head q)" "block_ok b"
    by (auto simp: linear_def)
  have "linear ?q bs" using c chain_le [OF c(1)] by (simp add: linear_def)
  moreover have "geometry ?q"
    using assms(1) chain_le [OF c(1)] block_ok_len [OF c(2)] by (simp add: holds_def geometry_def)
  ultimately show ?thesis using assms(1) by (simp add: holds_def)
next
  case False
  with assms(1) have "wrapped q (b # bs)" and g: "geometry q" by (auto simp: holds_def)
  then obtain bs1 bs2 e where w: "b # bs = bs1 @ bs2" "chain (q_mem q) (q_tail q) bs1 e"
      "end_mark (q_mem q) (q_length q) e" "chain (q_mem q) shm_head_sz bs2 (q_head q)"
      "q_head q < q_tail q"
    by (auto simp: wrapped_def)
  have "bs1 \<noteq> []"
  proof
    assume "bs1 = []"
    with w(2,3,5) g have "align_queue_tail q = Some (q\<lparr>q_tail := shm_head_sz\<rparr>)"
      by (auto simp: align_queue_tail_def end_mark_def geometry_def c_int shm_head_sz_def
            split: option.splits)
    with assms(2) have "q_tail q = shm_head_sz"
      by (metis at_front_def option.inject shm_queue.select_convs(2) shm_queue.surjective
          shm_queue.update_convs(2))
    with w(5) g show False by (simp add: geometry_def)
  qed
  with w(1) obtain cs where cs: "bs1 = b # cs" "bs = cs @ bs2" by (auto simp: Cons_eq_append_conv)
  with w(2) have c: "chain (q_mem q) (q_tail q + blk_len (fst b)) cs e" "block_ok b" by auto
  have "wrapped ?q bs"
    using w(3,4,5) c cs(2) block_ok_len [OF c(2)] by (auto simp: wrapped_def)
  moreover have "geometry ?q"
    using g chain_le [OF c(1)] block_ok_len [OF c(2)] w(3)
    by (simp add: geometry_def end_mark_def)
  ultimately show ?thesis using assms(1) by (simp add: holds_def)
qed

lemma shmq_pop_Nil:
  assumes "holds q []"
  obtains q1 where "holds q1 []"
    "shmq_pop m stop sleep q =
       Some (if \<not> stop \<and> sleep then Asleep q1 else Returned (-1) None q1)"
    "q_tail q1 = q_head q1" "q_head q1 = q_head q" "q_length q1 = q_length q"
proof -
  obtain q1 where "holds q1 []" "at_front q1 []" "q_head q1 = q_head q" "q_length q1 = q_length q"
      "pop_wait stop sleep q = Some (give_up stop sleep q1)"
    using pop_wait_holds [OF assms, of stop sleep] by auto
  with that [of q1] show ?thesis by (auto simp: shmq_pop_def give_up_def at_front_def)
qed

lemma shmq_pop_Cons:
  assumes "holds q (b # bs)"
  obtains q1 where "holds q1 bs" "shmq_pop True stop sleep q = Some (Returned 0 (Some b) q1)"
    "q_length q1 = q_length q"
proof -
  obtain q1 where q1: "holds q1 (b # bs)" "at_front q1 (b # bs)" "q_length q1 = q_length q"
      "pop_wait stop sleep q = Some (Ready q1)"
    using pop_wait_holds [OF assms, of stop sleep] by auto
  let ?q = "q1\<lparr>q_blk_cnt := q_blk_cnt q1 - 1, q_tail := q_tail q1 + blk_len (fst b)\<rparr>"
  have "shmq_pop True stop sleep q = Some (Returned 0 (Some b) ?q)"
    using q1(2,4) by (simp add: shmq_pop_def at_front_def)
  moreover have "holds ?q bs" by (rule pop_front_holds [OF q1(1,2)])
  ultimately show ?thesis using that [of ?q] q1(3) by simp
qed

section \<open>Push appends the block\<close>

lemma slot_size_pad [simp]: "slot_size (pad_slot n) = 55"
  by (simp add: slot_size_def pad_slot_def shm_block_sz_def)

lemma pad_slot_typ [simp]: "blk_typ (fst (pad_slot n)) = PAD_BLOCK"
  by (simp add: pad_slot_def)

definition len_ok :: "shm_block \<Rightarrow> bool" where
  "len_ok mb \<longleftrightarrow> shm_block_sz \<le> blk_len mb \<and> blk_len mb \<le> 2 ^ 30"

text \<open>There is room at the head for \<open>mb\<close>, without touching a block still in the queue.\<close>

definition fits :: "shm_queue \<Rightarrow> slot list \<Rightarrow> shm_block \<Rightarrow> bool" where
  "fits q bs mb \<longleftrightarrow>
     linear q bs \<and> q_head q + blk_len mb \<le> q_length q \<or>
     wrapped q bs \<and> q_head q + blk_len mb < q_tail q"

lemma wrap_head:
  assumes "linear q bs" "geometry q" "q_tail q \<noteq> shm_head_sz"
    "q_length q - q_head q < shm_block_sz \<and> m = q_mem q \<or>
     shm_block_sz \<le> q_length q - q_head q \<and>
     m = put_slot (q_head q) (pad_slot (q_length q - q_head q)) (q_mem q)"
  shows "wrapped (q\<lparr>q_mem := m, q_head := shm_head_sz\<rparr>) bs"
proof -
  have "chain m (q_tail q) bs (q_head q)"
    using assms(1,4) by (auto simp: linear_def intro: chain_put_after)
  moreover have "end_mark m (q_length q) (q_head q)"
    using assms(2,4) by (auto simp: end_mark_def geometry_def)
  ultimately have "\<exists>e. bs = bs @ [] \<and> chain m (q_tail q) bs e \<and> end_mark m (q_length q) e \<and>
      chain m shm_head_sz [] shm_head_sz"
    by auto
  then have "\<exists>bs1 bs2 e. bs = bs1 @ bs2 \<and> chain m (q_tail q) bs1 e \<and>
      end_mark m (q_length q) e \<and> chain m shm_head_sz bs2 shm_head_sz"
    by blast
  with assms(2,3) show ?thesis by (simp add: wrapped_def geometry_def)
qed

lemma align_queue_head_cases:
  assumes "holds q bs" "len_ok mb"
  obtains (full) "align_queue_head q mb = (-1, q)" "linear q bs" "q_tail q = shm_head_sz"
      "q_length q - q_head q < blk_len mb"
  | (wrap) q1 where "align_queue_head q mb = (0, q1)" "linear q bs" "wrapped q1 bs"
      "q_head q1 = shm_head_sz" "q_tail q1 = q_tail q" "q_length q1 = q_length q"
      "q_blk_cnt q1 = q_blk_cnt q" "q_length q - q_head q < blk_len mb"
  | (linear_room) "align_queue_head q mb = (0, q)" "linear q bs"
      "blk_len mb \<le> q_length q - q_head q"
  | (wrapped_already) "align_queue_head q mb = (0, q)" "wrapped q bs"
proof -
  from assms(1) have g: "geometry q" and lw: "linear q bs \<or> wrapped q bs"
    by (auto simp: holds_def)
  let ?s = "q_length q - q_head q"
  have s: "u32 ?s = ?s" using g by (intro u32_id) (auto simp: geometry_def shm_head_sz_def)
  show thesis
  proof (cases "wrapped q bs")
    case True
    then have "q_head q < q_tail q" by (simp add: wrapped_def)
    moreover from this g have "q_tail q \<noteq> shm_head_sz" by (simp add: geometry_def)
    ultimately have "align_queue_head q mb = (0, q)" by (simp add: align_queue_head_def Let_def)
    then show ?thesis using True by (rule wrapped_already)
  next
    case False
    with lw have l: "linear q bs" and th: "\<not> q_tail q > q_head q"
      by (auto simp: linear_def)
    show ?thesis
    proof (cases "?s < blk_len mb")
      case False
      then show ?thesis using l s by (intro linear_room) (auto simp: align_queue_head_def)
    next
      case less: True
      show ?thesis
      proof (cases "q_tail q = shm_head_sz")
        case True
        with less s l show ?thesis by (intro full) (auto simp: align_queue_head_def)
      next
        case ne: False
        define m where "m = (if ?s < shm_block_sz then q_mem q
                             else put_slot (q_head q) (pad_slot ?s) (q_mem q))"
        let ?q1 = "q\<lparr>q_mem := m, q_head := shm_head_sz\<rparr>"
        have "align_queue_head q mb = (0, ?q1)"
          using less s ne th by (auto simp: align_queue_head_def m_def Let_def)
        moreover have "wrapped ?q1 bs"
          by (rule wrap_head [OF l g ne]) (auto simp: m_def)
        ultimately show ?thesis using l less by (intro wrap [of ?q1]) auto
      qed
    qed
  qed
qed

lemma align_queue_head_holds:
  assumes "holds q bs" "len_ok mb" "align_queue_head q mb = (r, q1)"
  shows "holds q1 bs" "q_length q1 = q_length q" "q_tail q1 = q_tail q" "r = -1 \<or> r = 0"
  using assms(1,2)
  by (cases rule: align_queue_head_cases;
      use assms in \<open>auto simp: holds_def geometry_def\<close>)+

lemma not_full_fits:
  assumes "holds q bs" "len_ok mb" "align_queue_head q mb = (0, q1)" "\<not> queue_full q1 mb"
  shows "fits q1 bs mb"
proof -
  have h1: "holds q1 bs" using align_queue_head_holds(1) [OF assms(1-3)] .
  have wf: "fits q1 bs mb" if "wrapped q1 bs"
  proof -
    have "q_head q1 < q_tail q1" using that by (simp add: wrapped_def)
    moreover have "u32 (q_head q1 + blk_len mb + 1) = q_head q1 + blk_len mb + 1"
      using h1 assms(2)
      by (intro u32_id) (auto simp: holds_def geometry_def len_ok_def shm_head_sz_def
          shm_block_sz_def)
    ultimately show ?thesis using assms(4) that by (auto simp: queue_full_def fits_def)
  qed
  from assms(1,2) show ?thesis
    by (cases rule: align_queue_head_cases)
       (use assms(3) wf in \<open>auto simp: fits_def\<close>)
qed

lemma write_holds:
  assumes "holds q bs" "fits q bs (fst s)" "block_ok s"
  shows "holds (q\<lparr>q_mem := put_slot (q_head q) s (q_mem q), q_blk_cnt := q_blk_cnt q + 1,
                 q_head := q_head q + blk_len (fst s)\<rparr>) (bs @ [s])" (is "holds ?q _")
proof -
  let ?m = "put_slot (q_head q) s (q_mem q)" and ?h = "q_head q + blk_len (fst s)"
  have sz: "slot_size s = blk_len (fst s)" and l55: "55 \<le> blk_len (fst s)"
    using assms(3) block_ok_len by auto
  have last: "chain ?m (q_head q) [s] ?h" using assms(3) by simp
  have g: "geometry q" using assms(1) by (simp add: holds_def)
  from assms(2) have "(linear ?q (bs @ [s]) \<or> wrapped ?q (bs @ [s])) \<and> ?h \<le> q_length q"
    unfolding fits_def
  proof (elim disjE conjE)
    assume l: "linear q bs" and r: "?h \<le> q_length q"
    from l have "chain ?m (q_tail q) bs (q_head q)"
      by (auto simp: linear_def intro: chain_put_after)
    with last have "chain ?m (q_tail q) (bs @ [s]) ?h" by (auto simp: chain_append)
    with l l55 r show ?thesis by (simp add: linear_def)
  next
    assume w: "wrapped q bs" and r: "?h < q_tail q"
    then obtain bs1 bs2 e where b: "bs = bs1 @ bs2" "chain (q_mem q) (q_tail q) bs1 e"
      "end_mark (q_mem q) (q_length q) e" "chain (q_mem q) shm_head_sz bs2 (q_head q)"
      by (auto simp: wrapped_def)
    have "chain ?m (q_tail q) bs1 e"
      using b(2) r sz l55 by (intro chain_put_before) auto
    moreover have "end_mark ?m (q_length q) e"
      using b(3) r sz l55 chain_le [OF b(2)] by (intro end_mark_put_before) auto
    moreover have "chain ?m shm_head_sz (bs2 @ [s]) ?h"
      using b(4) last by (auto simp: chain_append intro: chain_put_after)
    ultimately have "wrapped ?q (bs @ [s])"
      using r b(1) by (auto simp: wrapped_def)
    moreover have "?h \<le> q_length q" using r g by (simp add: geometry_def)
    ultimately show ?thesis by simp
  qed
  with assms(1) l55 show ?thesis by (simp add: holds_def geometry_def)
qed

lemma push_wait_holds:
  assumes "holds q bs" "len_ok mb"
  shows "case push_wait stop sleep q mb of
      Ready q1 \<Rightarrow> holds q1 bs \<and> fits q1 bs mb \<and> q_length q1 = q_length q \<and> q_tail q1 = q_tail q
    | Fail q1 \<Rightarrow> holds q1 bs \<and> q_length q1 = q_length q \<and> q_tail q1 = q_tail q
    | Sleep q1 \<Rightarrow> holds q1 bs \<and> q_length q1 = q_length q \<and> q_tail q1 = q_tail q"
proof -
  obtain r q1 where a1: "align_queue_head q mb = (r, q1)" by fastforce
  note h1 = align_queue_head_holds [OF assms a1]
  obtain r2 q2 where a2: "align_queue_head q1 mb = (r2, q2)" by fastforce
  note h2 = align_queue_head_holds [OF h1(1) assms(2) a2]
  have "fits q2 bs mb" if "r2 = 0" "\<not> queue_full q2 mb"
    using not_full_fits [OF h1(1) assms(2)] a2 that by simp
  with a1 a2 h1 h2 show ?thesis by (auto simp: push_wait_def give_up_def)
qed

lemma shmq_push_holds:
  assumes "holds q bs" "block_ok b"
  shows "case shmq_push stop sleep q (fst b) (snd b) of
      Returned r _ q1 \<Rightarrow>
        (r = 0 \<and> holds q1 (bs @ [b]) \<or> r = -1 \<and> holds q1 bs) \<and> q_length q1 = q_length q
    | Asleep q1 \<Rightarrow> holds q1 bs \<and> q_length q1 = q_length q"
proof -
  have lo: "len_ok (fst b)" using assms(2) by (simp add: len_ok_def block_ok_def)
  have dat: "(if blk_len (fst b) > shm_block_sz
      then take (nat (blk_len (fst b) - shm_block_sz)) (snd b) else []) = snd b"
    using assms(2) by (cases "snd b") (auto simp: block_ok_def)
  show ?thesis
  proof (cases "push_wait stop sleep q (fst b)")
    case (Ready q1)
    with push_wait_holds [OF assms(1) lo, of stop sleep]
    have "holds q1 bs" "fits q1 bs (fst b)" "q_length q1 = q_length q" by auto
    with write_holds [OF _ _ assms(2), of q1 bs] dat Ready show ?thesis
      by (simp add: shmq_push_def)
  qed (use push_wait_holds [OF assms(1) lo, of stop sleep] in
       \<open>simp_all add: shmq_push_def\<close>)
qed

section \<open>The channel\<close>

text \<open>The non-blocking calls (\<open>flag\<close> 0), as the connection process makes them.\<close>

definition push_now :: "shm_queue \<Rightarrow> slot \<Rightarrow> bool \<times> shm_queue" where
  "push_now q b =
     (case shmq_push False False q (fst b) (snd b) of
        Returned r _ q' \<Rightarrow> (r = 0, q')
      | Asleep q' \<Rightarrow> (False, q'))"

definition pop_now :: "shm_queue \<Rightarrow> slot option \<times> shm_queue" where
  "pop_now q =
     (case shmq_pop True False False q of
        Some (Returned r b q') \<Rightarrow> (b, q')
      | _ \<Rightarrow> (None, q))"

interpretation shmq: channel push_now pop_now holds block_ok
proof (unfold_locales, goal_cases)
  case (1 q xs x q')
  with shmq_push_holds [of q xs x False False] show ?case
    by (auto simp: push_now_def split: op_result.splits)
next
  case (2 q xs x q')
  with shmq_push_holds [of q xs x False False] show ?case
    by (auto simp: push_now_def split: op_result.splits)
next
  case (3 q)
  obtain q1 where "holds q1 []" "shmq_pop True False False q = Some (Returned (-1) None q1)"
    using shmq_pop_Nil [OF 3, of True False False] by auto
  then show ?case by (simp add: pop_now_def)
next
  case (4 q x xs)
  obtain q1 where "holds q1 xs" "shmq_pop True False False q = Some (Returned 0 (Some x) q1)"
    using shmq_pop_Cons [OF 4, of False False] by auto
  then show ?case by (simp add: pop_now_def)
qed

section \<open>Runs of producer and consumer\<close>

text \<open>
  Any interleaving of calls from both sides, sleeping or not: \<open>shm_run len q sent recv\<close> says
  that the queue of \<open>len\<close> bytes can be in state \<open>q\<close> after the producers' accepted blocks
  \<open>sent\<close> and the consumers' popped blocks \<open>recv\<close>.
\<close>

inductive shm_run :: "int \<Rightarrow> shm_queue \<Rightarrow> slot list \<Rightarrow> slot list \<Rightarrow> bool" for len where
  start: "shm_run len (do_shmq_create len) [] []"
| push_accepted: "shm_run len q sent recv \<Longrightarrow> block_ok b \<Longrightarrow>
     shmq_push stop sleep q (fst b) (snd b) = Returned 0 () q' \<Longrightarrow>
     shm_run len q' (sent @ [b]) recv"
| push_rejected: "shm_run len q sent recv \<Longrightarrow> block_ok b \<Longrightarrow>
     shmq_push stop sleep q (fst b) (snd b) = Returned (-1) () q' \<Longrightarrow>
     shm_run len q' sent recv"
| push_asleep: "shm_run len q sent recv \<Longrightarrow> block_ok b \<Longrightarrow>
     shmq_push stop sleep q (fst b) (snd b) = Asleep q' \<Longrightarrow>
     shm_run len q' sent recv"
| popped: "shm_run len q sent recv \<Longrightarrow>
     shmq_pop True stop sleep q = Some (Returned 0 (Some b) q') \<Longrightarrow>
     shm_run len q' sent (recv @ [b])"
| pop_nothing: "shm_run len q sent recv \<Longrightarrow>
     shmq_pop True stop sleep q = Some (Returned (-1) None q') \<Longrightarrow>
     shm_run len q' sent recv"
| pop_asleep: "shm_run len q sent recv \<Longrightarrow>
     shmq_pop True stop sleep q = Some (Asleep q') \<Longrightarrow>
     shm_run len q' sent recv"

lemma create_holds:
  "shm_head_sz \<le> len \<Longrightarrow> len \<le> 2 ^ 30 \<Longrightarrow> holds (do_shmq_create len) []"
  by (simp add: do_shmq_create_def holds_def geometry_def linear_def)

lemma pop_cases:
  assumes "holds q bs" "shmq_pop True stop sleep q = Some r"
  shows "(\<exists>q1. holds q1 [] \<and> bs = [] \<and> (r = Asleep q1 \<or> r = Returned (-1) None q1)) \<or>
         (\<exists>b cs q1. bs = b # cs \<and> holds q1 cs \<and> r = Returned 0 (Some b) q1)"
proof (cases bs)
  case Nil
  with assms(1) have "holds q []" by simp
  then obtain q1 where "holds q1 []" "shmq_pop True stop sleep q =
       Some (if \<not> stop \<and> sleep then Asleep q1 else Returned (-1) None q1)"
    using shmq_pop_Nil [of q True stop sleep] by metis
  with assms(2) Nil show ?thesis by auto
next
  case (Cons b cs)
  with assms(1) have "holds q (b # cs)" by simp
  then obtain q1 where "holds q1 cs" "shmq_pop True stop sleep q = Some (Returned 0 (Some b) q1)"
    using shmq_pop_Cons [of q b cs stop sleep] by metis
  with assms(2) Cons show ?thesis by auto
qed

lemma shm_run_holds:
  assumes "shm_run len q sent recv" "shm_head_sz \<le> len" "len \<le> 2 ^ 30"
  shows "\<exists>bs. sent = recv @ bs \<and> holds q bs"
  using assms(1)
proof (induction rule: shm_run.induct)
  case start
  then show ?case using create_holds [OF assms(2,3)] by auto
next
  case (push_accepted q sent recv b stop sleep q')
  then obtain bs where "sent = recv @ bs" "holds q bs" by blast
  with shmq_push_holds [of q bs b stop sleep] push_accepted show ?case by auto
next
  case (push_rejected q sent recv b stop sleep q')
  then obtain bs where "sent = recv @ bs" "holds q bs" by blast
  with shmq_push_holds [of q bs b stop sleep] push_rejected show ?case by auto
next
  case (push_asleep q sent recv b stop sleep q')
  then obtain bs where "sent = recv @ bs" "holds q bs" by blast
  with shmq_push_holds [of q bs b stop sleep] push_asleep show ?case by auto
next
  case (popped q sent recv stop sleep b q')
  then obtain bs where "sent = recv @ bs" "holds q bs" by blast
  with pop_cases [OF _ popped(2)] show ?case by auto
next
  case (pop_nothing q sent recv stop sleep q')
  then obtain bs where "sent = recv @ bs" "holds q bs" by blast
  with pop_cases [OF _ pop_nothing(2)] show ?case by auto
next
  case (pop_asleep q sent recv stop sleep q')
  then obtain bs where "sent = recv @ bs" "holds q bs" by blast
  with pop_cases [OF _ pop_asleep(2)] show ?case by auto
qed

lemma push_fail_wrapped:
  assumes "holds q []" "len_ok mb" "shm_head_sz + blk_len mb \<le> q_length q"
    "push_wait stop sleep q mb = Fail q1"
  shows "q_head q1 < q_tail q1"
proof -
  have not_full: "fst (align_queue_head p mb) \<noteq> -1"
    if "holds p []" "q_length p = q_length q" for p
  proof
    assume "fst (align_queue_head p mb) = -1"
    with that(1) assms(2) show False
    proof (cases rule: align_queue_head_cases)
      case full
      then have "q_tail p = q_head p" by (simp add: linear_def)
      with full assms(3) that(2) show False by simp
    qed simp_all
  qed
  obtain r p where a1: "align_queue_head q mb = (r, p)" by fastforce
  note h1 = align_queue_head_holds [OF assms(1,2) a1]
  obtain r2 p2 where a2: "align_queue_head p mb = (r2, p2)" by fastforce
  note h2 = align_queue_head_holds [OF h1(1) assms(2) a2]
  have "r \<noteq> -1" "r2 \<noteq> -1"
    using not_full [OF assms(1)] not_full [OF h1(1)] a1 a2 h1(2) by auto
  with assms(4) a1 a2 show ?thesis
    by (auto simp: push_wait_def give_up_def queue_full_def split: if_splits)
qed

section \<open>The properties of the queue\<close>

text \<open>C40: In every interleaving of producer and consumer calls on a queue of at least 12 and
  at most \<open>2 ^ 30\<close> bytes, what the consumer got is exactly a prefix of what the producer got
  accepted, block by block with its header and data, the counter is the number of blocks
  still in the queue, no call reads memory without an intact block, and the next pop returns
  the oldest of them or, when there is none, \<open>-1\<close> (or sleeps when asked to).\<close>

theorem shmq_fifo:
  assumes "shm_run len q sent recv" "shm_head_sz \<le> len" "len \<le> 2 ^ 30"
  shows "\<exists>bs. sent = recv @ bs \<and> q_blk_cnt q = int (length bs) \<and>
    (case bs of
       [] \<Rightarrow> \<exists>q'. shmq_pop True stop sleep q =
                 Some (if \<not> stop \<and> sleep then Asleep q' else Returned (-1) None q')
     | b # _ \<Rightarrow> \<exists>q'. shmq_pop True stop sleep q = Some (Returned 0 (Some b) q'))"
proof -
  obtain bs where bs: "sent = recv @ bs" "holds q bs" using shm_run_holds [OF assms] by blast
  show ?thesis
  proof (cases bs)
    case Nil
    with bs(2) obtain q1 where "shmq_pop True stop sleep q =
        Some (if \<not> stop \<and> sleep then Asleep q1 else Returned (-1) None q1)"
      using shmq_pop_Nil [of q True stop sleep] by metis
    with bs Nil show ?thesis by (auto simp: holds_def)
  next
    case (Cons b cs)
    with bs(2) obtain q1 where "shmq_pop True stop sleep q = Some (Returned 0 (Some b) q1)"
      using shmq_pop_Cons [of q b cs stop sleep] by metis
    with bs Cons show ?thesis by (auto simp: holds_def)
  qed
qed

definition demo_block :: "int \<Rightarrow> nat \<Rightarrow> slot" where
  "demo_block i n =
     (\<lparr>blk_id = i, blk_len = shm_block_sz + int n, blk_typ = DAT_BLOCK,
       blk_sk = \<lparr>sockfd = 5, sk_type = 1, recvtm = 0, sendtm = 0, local_ip = 0, local_port = 0,
                 remote_ip = 0, remote_port = 0\<rparr>,
       blk_accept_fd = 3\<rparr>, replicate n 7)"

lemma demo_block_ok: "n \<le> 1000 \<Longrightarrow> block_ok (demo_block i n)"
  by (simp add: block_ok_def demo_block_def shm_block_sz_def)

lemma demo_push:
  "shmq_push False False (do_shmq_create 300) (fst (demo_block 1 10)) (snd (demo_block 1 10)) =
   Returned 0 ()
     (snd (push_now (do_shmq_create 300) (demo_block 1 10)))"
  by (simp add: shmq_push_def push_wait_def align_queue_head_def do_shmq_create_def
      demo_block_def shm_head_sz_def shm_block_sz_def u32_def queue_full_def push_now_def Let_def)

theorem shmq_fifo_witness:
  "\<exists>bs. [demo_block 1 10] = [] @ bs \<and>
     q_blk_cnt (snd (push_now (do_shmq_create 300) (demo_block 1 10))) = int (length bs) \<and>
     (case bs of
        [] \<Rightarrow> \<exists>q'. shmq_pop True False True
                   (snd (push_now (do_shmq_create 300) (demo_block 1 10))) =
                 Some (if \<not> False \<and> True then Asleep q' else Returned (-1) None q')
      | b # _ \<Rightarrow> \<exists>q'. shmq_pop True False True
                   (snd (push_now (do_shmq_create 300) (demo_block 1 10))) =
                 Some (Returned 0 (Some b) q'))"
proof -
  have "shm_run 300 (snd (push_now (do_shmq_create 300) (demo_block 1 10))) [demo_block 1 10] []"
    using shm_run.push_accepted [OF shm_run.start demo_block_ok demo_push] by simp
  then show ?thesis by (rule shmq_fifo) (simp_all add: shm_head_sz_def)
qed

text \<open>An empty queue never refuses a block that fits into it for good: when the producer's
  call fails because the free space is split by the end of the memory, one poll of the
  consumer (which finds nothing) is enough for the same call to succeed.\<close>

lemma shmq_empty_accepts:
  assumes "holds q []" "block_ok b" "shm_head_sz + blk_len (fst b) \<le> q_length q"
    and "shmq_push stop sleep q (fst b) (snd b) = Returned (-1) () q1"
    and "shmq_pop True stop False q1 = Some (Returned (-1) None q2)"
  shows "\<exists>q3. shmq_push stop sleep q2 (fst b) (snd b) = Returned 0 () q3 \<and> holds q3 [b]"
proof -
  have lo: "len_ok (fst b)" using assms(2) by (simp add: len_ok_def block_ok_def)
  have h1: "holds q1 []" "q_length q1 = q_length q"
    using shmq_push_holds [OF assms(1,2), of stop sleep] assms(4) by auto
  have pw: "push_wait stop sleep q (fst b) = Fail q1"
    using assms(4) by (simp add: shmq_push_def split: wait.splits)
  then have "q_head q1 < q_tail q1" by (rule push_fail_wrapped [OF assms(1) lo assms(3)])
  then have "q_head q1 = shm_head_sz"
    using h1(1) by (auto simp: holds_def linear_def wrapped_def)
  moreover obtain q' where "holds q' []" "shmq_pop True stop False q1 = Some (Returned (-1) None q')"
      "q_tail q' = q_head q'" "q_head q' = q_head q1" "q_length q' = q_length q1"
    using shmq_pop_Nil [OF h1(1), of True stop False] by auto
  ultimately have h2: "holds q2 []" "q_tail q2 = shm_head_sz" "q_head q2 = shm_head_sz"
      "q_length q2 = q_length q"
    using assms(5) h1(2) by auto
  have "u32 (q_length q2 - q_head q2) = q_length q2 - q_head q2"
    using h2(1) by (intro u32_id) (auto simp: holds_def geometry_def shm_head_sz_def)
  with h2 assms(3) have "align_queue_head q2 (fst b) = (0, q2)" "\<not> queue_full q2 (fst b)"
    by (auto simp: align_queue_head_def queue_full_def Let_def)
  then have "push_wait stop sleep q2 (fst b) = Ready q2" by (simp add: push_wait_def)
  then have "\<exists>q3. shmq_push stop sleep q2 (fst b) (snd b) = Returned 0 () q3"
    by (simp add: shmq_push_def)
  with shmq_push_holds [OF h2(1) assms(2), of stop sleep] show ?thesis by auto
qed

definition demo_split :: shm_queue where
  "demo_split = (do_shmq_create 300)\<lparr>q_head := 150, q_tail := 150\<rparr>"

lemma demo_split_holds: "holds demo_split []"
  by (simp add: demo_split_def do_shmq_create_def holds_def geometry_def linear_def
      shm_head_sz_def)

definition demo_full :: shm_queue where
  "demo_full =
     demo_split\<lparr>q_mem := put_slot 150 (pad_slot 150) (\<lambda>_. None), q_head := shm_head_sz\<rparr>"

lemma demo_split_push:
  "shmq_push False False demo_split (fst (demo_block 2 200)) (snd (demo_block 2 200)) =
   Returned (-1) () demo_full"
  by (simp add: shmq_push_def push_wait_def align_queue_head_def do_shmq_create_def demo_full_def
      demo_block_def shm_head_sz_def shm_block_sz_def u32_def queue_full_def demo_split_def
      give_up_def Let_def)

lemma demo_full_pop:
  "shmq_pop True False False demo_full =
   Some (Returned (-1) None (demo_full\<lparr>q_tail := shm_head_sz\<rparr>))"
  by (simp add: shmq_pop_def pop_wait_def align_queue_tail_def demo_full_def demo_split_def
      do_shmq_create_def shm_head_sz_def shm_block_sz_def u32_def give_up_def)

lemma shmq_empty_accepts_witness:
  "\<exists>q3. shmq_push False False (demo_full\<lparr>q_tail := shm_head_sz\<rparr>)
          (fst (demo_block 2 200)) (snd (demo_block 2 200)) = Returned 0 () q3 \<and>
        holds q3 [demo_block 2 200]"
  by (rule shmq_empty_accepts [OF demo_split_holds demo_block_ok _ demo_split_push demo_full_pop])
     (simp_all add: demo_block_def demo_split_def do_shmq_create_def shm_head_sz_def
       shm_block_sz_def)

end
