(* ===== verification/Framer.thy ===== *)
theory Framer
  imports Prelude
begin

text \<open>
  Cutting a byte stream into messages. Every service loaded into the server framework gives
  a \<open>handle_input\<close> that looks at the bytes received so far and answers the length of the
  first message, 0 when it cannot tell yet, or an invalid length
  (\<^verbatim>\<open>benchapi.h\<close>, \<open>dll_func_t\<close>; the framework's use of it is in \<^verbatim>\<open>net.c\<close>). This theory holds
  the reference cutting of a whole stream and the interface: what the framework needs of a
  \<open>handle_input\<close> so that the cutting does not depend on how the stream was chunked.
\<close>

definition RCVBUFMAX :: int where
  "RCVBUFMAX = 8388608"

datatype frame_end = Incomplete (pending: "byte list") | Rejected (pending: "byte list")

function frames :: "(byte list \<Rightarrow> int) \<Rightarrow> byte list \<Rightarrow> byte list list \<times> frame_end" where
  "frames h bs =
     (if bs = [] then ([], Incomplete [])
      else if h bs < 0 \<or> h bs > RCVBUFMAX then ([], Rejected bs)
      else if h bs = 0 \<or> int (length bs) < h bs then ([], Incomplete bs)
      else case frames h (drop (nat (h bs)) bs) of
          (ms, e) \<Rightarrow> (take (nat (h bs)) bs # ms, e))"
  by pat_completeness auto
termination
  by (relation "measure (\<lambda>(h, bs). length bs)") auto

declare frames.simps [simp del]

lemma frames_Nil [simp]: "frames h [] = ([], Incomplete [])"
  by (simp add: frames.simps)

text \<open>The three ways the first message can turn out.\<close>

lemma frames_rejected:
  "bs \<noteq> [] \<Longrightarrow> h bs < 0 \<or> h bs > RCVBUFMAX \<Longrightarrow> frames h bs = ([], Rejected bs)"
  by (subst frames.simps) simp

lemma frames_incomplete:
  "bs = [] \<or> h bs = 0 \<or> h bs \<le> RCVBUFMAX \<and> int (length bs) < h bs \<Longrightarrow>
   frames h bs = ([], Incomplete bs)"
  by (subst frames.simps) (auto simp: RCVBUFMAX_def)

lemma frames_message:
  "0 < h bs \<Longrightarrow> h bs \<le> RCVBUFMAX \<Longrightarrow> h bs \<le> int (length bs) \<Longrightarrow>
   frames h bs = (take (nat (h bs)) bs # fst (frames h (drop (nat (h bs)) bs)),
                  snd (frames h (drop (nat (h bs)) bs)))"
  by (subst frames.simps) (auto simp: case_prod_beta)

lemma frames_cases:
  obtains (rejected) "bs \<noteq> []" "h bs < 0 \<or> h bs > RCVBUFMAX" "frames h bs = ([], Rejected bs)"
  | (incomplete) "bs = [] \<or> h bs = 0 \<or> h bs \<le> RCVBUFMAX \<and> int (length bs) < h bs"
      "frames h bs = ([], Incomplete bs)"
  | (message) "0 < h bs" "h bs \<le> RCVBUFMAX" "h bs \<le> int (length bs)" "bs \<noteq> []"
      "frames h bs = (take (nat (h bs)) bs # fst (frames h (drop (nat (h bs)) bs)),
                      snd (frames h (drop (nat (h bs)) bs)))"
proof -
  consider "bs \<noteq> []" "h bs < 0 \<or> h bs > RCVBUFMAX"
    | "bs = [] \<or> h bs = 0 \<or> h bs \<le> RCVBUFMAX \<and> int (length bs) < h bs"
    | "0 < h bs" "h bs \<le> RCVBUFMAX" "h bs \<le> int (length bs)" "bs \<noteq> []"
    by (cases "bs = []") linarith+
  then show thesis
    using that frames_rejected frames_incomplete frames_message by cases metis+
qed

lemma frames_induct [case_names step]:
  assumes "\<And>bs. (0 < h bs \<Longrightarrow> h bs \<le> int (length bs) \<Longrightarrow> P (drop (nat (h bs)) bs)) \<Longrightarrow> P bs"
  shows "P bs"
proof (induction "length bs" arbitrary: bs rule: less_induct)
  case less
  show ?case
  proof (rule assms)
    assume "0 < h bs" "h bs \<le> int (length bs)"
    then show "P (drop (nat (h bs)) bs)" by (intro less) simp
  qed
qed

lemma frames_concat: "concat (fst (frames h bs)) @ pending (snd (frames h bs)) = bs"
proof (induction bs rule: frames_induct [where h = h])
  case (step bs)
  show ?case by (cases h bs rule: frames_cases) (use step in auto)
qed

lemma frames_incomplete_idem:
  "snd (frames h bs) = Incomplete r \<Longrightarrow> frames h r = ([], Incomplete r)"
proof (induction bs rule: frames_induct [where h = h])
  case (step bs)
  show ?case by (cases h bs rule: frames_cases) (use step in auto)
qed

locale framer =
  fixes h :: "byte list \<Rightarrow> int"
  assumes stable: "h bs \<noteq> 0 \<Longrightarrow> h (bs @ cs) = h bs"
begin

lemma frames_append:
  "snd (frames h bs) = Incomplete r \<Longrightarrow>
   frames h (bs @ cs) = (fst (frames h bs) @ fst (frames h (r @ cs)), snd (frames h (r @ cs)))"
proof (induction bs rule: frames_induct [where h = h])
  case (step bs)
  show ?case
  proof (cases h bs rule: frames_cases)
    case message
    then have "h (bs @ cs) = h bs" by (intro stable) simp
    then show ?thesis
      using message step frames_message [of h "bs @ cs"] by simp
  qed (use step in auto)
qed

lemma frames_rejected_append:
  "snd (frames h bs) = Rejected r \<Longrightarrow> frames h (bs @ cs) = (fst (frames h bs), Rejected (r @ cs))"
proof (induction bs rule: frames_induct [where h = h])
  case (step bs)
  show ?case
  proof (cases h bs rule: frames_cases)
    case rejected
    then have "h (bs @ cs) = h bs" by (intro stable) (auto simp: RCVBUFMAX_def)
    then show ?thesis using rejected step frames_rejected [of "bs @ cs" h] by simp
  next
    case message
    then have "h (bs @ cs) = h bs" by (intro stable) simp
    then show ?thesis
      using message step frames_message [of h "bs @ cs"] by simp
  qed (use step in auto)
qed

text \<open>Feeding a stream chunk by chunk, keeping the bytes of the unfinished message.\<close>

fun feed :: "byte list \<Rightarrow> byte list list \<Rightarrow> byte list list \<times> frame_end" where
  "feed r [] = ([], Incomplete r)"
| "feed r (c # cs) =
     (case frames h (r @ c) of
        (ms, Incomplete r') \<Rightarrow> (case feed r' cs of (ms', e) \<Rightarrow> (ms @ ms', e))
      | (ms, Rejected r') \<Rightarrow> (ms, Rejected r'))"

lemma feed_frames:
  "frames h r = ([], Incomplete r) \<Longrightarrow>
   fst (feed r cs) = fst (frames h (r @ concat cs)) \<and>
   (\<forall>r'. snd (feed r cs) = Incomplete r' \<longrightarrow> snd (frames h (r @ concat cs)) = Incomplete r')"
proof (induction cs arbitrary: r)
  case Nil
  then show ?case by simp
next
  case (Cons c cs)
  show ?case
  proof (cases "snd (frames h (r @ c))")
    case (Incomplete r1)
    then have "frames h r1 = ([], Incomplete r1)" by (rule frames_incomplete_idem)
    from Cons.IH [OF this] frames_append [OF Incomplete, of "concat cs"] Incomplete show ?thesis
      by (auto split: prod.splits)
  next
    case (Rejected r1)
    from frames_rejected_append [OF this, of "concat cs"] Rejected show ?thesis
      by (auto split: prod.splits)
  qed
qed

end

end
