(* ===== verification/Conn.thy ===== *)
theory Conn
  imports Shmq Framer
begin

text \<open>
  The connection table of the server framework's connection process: the socket wrappers of
  \<^verbatim>\<open>tcp.c\<close> and the handlers of \<^verbatim>\<open>net.c\<close> that act on one table entry
  (\<^verbatim>\<open>do_add_conn\<close>, \<^verbatim>\<open>do_open_conn\<close>, \<^verbatim>\<open>do_close_conn\<close>, \<^verbatim>\<open>do_read_conn\<close>,
  \<^verbatim>\<open>do_write_conn\<close>, \<^verbatim>\<open>do_check_conn\<close>). What the kernel answers to a system call is an
  argument: a list of answers to the calls of one loop. A result \<open>None\<close> is an access
  outside the memory the code owns. The fields \<open>wire_in\<close> and \<open>wire_out\<close> are not variables
  of the program: they record, per connection id, the bytes the kernel delivered and the bytes
  it accepted; \<open>dgrams\<close> records the datagrams sent.
\<close>

section \<open>Socket wrappers\<close>

text \<open>One answer to \<open>recv\<close> and to \<open>send\<close>. \<open>RxErr\<close> and \<open>TxErr\<close> are errors other than
  \<open>EINTR\<close> (and, for \<open>send\<close>, \<open>EAGAIN\<close>). When no answer is left the call would block.\<close>

datatype rx = RxData "byte list" | RxEof | RxIntr | RxErr

datatype tx = TxSent nat | TxIntr | TxAgain | TxErr

fun safe_tcp_recv :: "rx list \<Rightarrow> nat \<Rightarrow> int \<times> byte list" where
  "safe_tcp_recv [] bufsize = (-1, [])"
| "safe_tcp_recv (RxData bs # rs) bufsize =
     (int (length (take bufsize bs)), take bufsize bs)"
| "safe_tcp_recv (RxEof # rs) bufsize = (0, [])"
| "safe_tcp_recv (RxIntr # rs) bufsize = safe_tcp_recv rs bufsize"
| "safe_tcp_recv (RxErr # rs) bufsize = (-1, [])"

text \<open>The return value and the bytes that reached the kernel, which are some even when the
  call fails half way.\<close>

fun safe_tcp_send_n :: "tx list \<Rightarrow> byte list \<Rightarrow> int \<times> byte list" where
  "safe_tcp_send_n ts [] = (0, [])"
| "safe_tcp_send_n [] (b # bs) = (0, [])"
| "safe_tcp_send_n (TxSent n # ts) (b # bs) =
     (if n = 0 then (-1, [])
      else case safe_tcp_send_n ts (drop n (b # bs)) of
          (r, sent) \<Rightarrow> (if r < 0 then r else int (length (take n (b # bs))) + r,
                       take n (b # bs) @ sent))"
| "safe_tcp_send_n (TxIntr # ts) (b # bs) = safe_tcp_send_n ts (b # bs)"
| "safe_tcp_send_n (TxAgain # ts) (b # bs) = (0, [])"
| "safe_tcp_send_n (TxErr # ts) (b # bs) = (-1, [])"

lemma safe_tcp_recv_data:
  "safe_tcp_recv rs n = (r, bs) \<Longrightarrow> length bs \<le> n \<and> (0 < r \<longrightarrow> r = int (length bs)) \<and> (r \<le> 0 \<longrightarrow> bs = [])"
  by (induction rs n rule: safe_tcp_recv.induct) (auto simp: min_def split: if_splits)

lemma safe_tcp_send_n_sent:
  "safe_tcp_send_n ts bs = (r, sent) \<Longrightarrow>
   (\<exists>rest. bs = sent @ rest) \<and> (r = -1 \<or> r = int (length sent))"
proof (induction ts bs arbitrary: r sent rule: safe_tcp_send_n.induct)
  case (3 n ts b bs)
  show ?case
  proof (cases "n = 0")
    case False
    define L where "L = b # bs"
    obtain r' s' where s: "safe_tcp_send_n ts (drop n L) = (r', s')" by fastforce
    with 3(1) False obtain rest where rest: "drop n L = s' @ rest"
      "r' = -1 \<or> r' = int (length s')" by (auto simp: L_def)
    have "L = (take n L @ s') @ rest"
      using rest(1) append_take_drop_id [of n L] by simp
    moreover have "sent = take n L @ s'"
      "r = (if r' < 0 then r' else int (length (take n L)) + r')"
      using 3(2) False s by (auto simp: L_def simp del: length_take)
    ultimately show ?thesis using rest(2) by (auto simp: L_def simp del: length_take)
  qed (use 3 in auto)
qed auto

section \<open>The connection table\<close>

text \<open>Memory blocks of the heap: bytes are written in place, \<open>malloc\<close> gives a block whose
  content is never read before it is written.\<close>

definition wr :: "nat \<Rightarrow> byte list \<Rightarrow> byte list \<Rightarrow> byte list" where
  "wr off bs mem = take off mem @ bs @ drop (off + length bs) mem"

definition rd :: "nat \<Rightarrow> nat \<Rightarrow> byte list \<Rightarrow> byte list" where
  "rd off n mem = take n (drop off mem)"

definition malloc_mem :: "nat \<Rightarrow> byte list" where
  "malloc_mem n = replicate n 0"

definition realloc_mem :: "byte list \<Rightarrow> nat \<Rightarrow> byte list" where
  "realloc_mem mem n = take n mem @ replicate (n - length mem) 0"

text \<open>\<open>recvptr\<close> is an offset into the allocated block \<open>rcvmem\<close>; \<open>sendptr\<close> is only ever the
  start of its block, or null.\<close>

record conn_buf =
  sndbufsz :: nat
  rcvbufsz :: nat
  rcvprotlen :: int
  recvlen :: nat
  sendlen :: nat
  recvptr :: nat
  rcvmem :: "byte list"
  sendptr :: "byte list option"

datatype cn_mask = CN_VALID | CN_LISTEN | CN_PIPE | CN_UDP | CN_FIN

record fdinfo =
  fd_id :: int
  accept_fd :: int
  cb :: conn_buf
  sk :: skinfo
  timeout :: int
  flag :: "cn_mask set"

record net =
  fdinfo :: "int \<Rightarrow> fdinfo"
  maxfd :: int
  next_id :: int
  recvq :: shm_queue
  wire_in :: "int \<Rightarrow> byte list"
  wire_out :: "int \<Rightarrow> byte list"
  dgrams :: "((int \<times> int) \<times> byte list) list"

definition zero_sk :: skinfo where
  "zero_sk = \<lparr>sockfd = 0, sk_type = 0, recvtm = 0, sendtm = 0, local_ip = 0, local_port = 0,
              remote_ip = 0, remote_port = 0\<rparr>"

definition zero_cb :: conn_buf where
  "zero_cb = \<lparr>sndbufsz = 0, rcvbufsz = 0, rcvprotlen = 0, recvlen = 0, sendlen = 0,
              recvptr = 0, rcvmem = [], sendptr = None\<rparr>"

definition zero_fdinfo :: fdinfo where
  "zero_fdinfo = \<lparr>fd_id = 0, accept_fd = 0, cb = zero_cb, sk = zero_sk, timeout = 0,
                  flag = {}\<rparr>"

abbreviation at :: "net \<Rightarrow> int \<Rightarrow> fdinfo" where
  "at n fd \<equiv> fdinfo n fd"

definition upd :: "int \<Rightarrow> (fdinfo \<Rightarrow> fdinfo) \<Rightarrow> net \<Rightarrow> net" where
  "upd fd f n = n\<lparr>fdinfo := (fdinfo n)(fd := f (fdinfo n fd))\<rparr>"

definition on_wire :: "int \<Rightarrow> byte list \<Rightarrow> net \<Rightarrow> net" where
  "on_wire i bs n = n\<lparr>wire_out := (wire_out n)(i := wire_out n i @ bs)\<rparr>"

definition off_wire :: "int \<Rightarrow> byte list \<Rightarrow> net \<Rightarrow> net" where
  "off_wire i bs n = n\<lparr>wire_in := (wire_in n)(i := wire_in n i @ bs)\<rparr>"

text \<open>\<open>addr\<close> is an address and port in network byte order, as \<open>sockaddr_in\<close> holds them. The
  numbering of connections never repeats.\<close>

definition make_id :: "net \<Rightarrow> int \<times> net" where
  "make_id n = (next_id n, n\<lparr>next_id := next_id n + 1\<rparr>)"

definition do_add_conn ::
  "net \<Rightarrow> int \<Rightarrow> cn_mask set \<Rightarrow> int \<times> int \<Rightarrow> (int \<times> int) option \<Rightarrow> int \<Rightarrow> net" where
  "do_add_conn n fd fl local peer tmo =
     (let n1 = upd fd (\<lambda>_. zero_fdinfo) n;
          n2 = upd fd (\<lambda>f. f\<lparr>sk := (sk f)\<lparr>sockfd := fd\<rparr>, flag := insert CN_VALID fl\<rparr>) n1;
          n3 = (if CN_PIPE \<notin> fl
                then upd fd (\<lambda>f. f\<lparr>sk := (sk f)\<lparr>local_ip := fst local, local_port := snd local\<rparr>,
                                   timeout := tmo\<rparr>) n2
                else n2);
          n4 = (case peer of
                  None \<Rightarrow> n3
                | Some (ip, port) \<Rightarrow>
                    upd fd (\<lambda>f. f\<lparr>sk := (sk f)\<lparr>remote_ip := ip, remote_port := port\<rparr>\<rparr>) n3);
          (i, n5) = make_id n4;
          n6 = upd fd (\<lambda>f. f\<lparr>fd_id := i\<rparr>) n5
      in n6\<lparr>maxfd := maxfd n6 + 1\<rparr>)"

text \<open>\<open>free\<close> of a pointer that \<open>malloc\<close> did not return is undefined.\<close>

definition free_cb :: "conn_buf \<Rightarrow> conn_buf option" where
  "free_cb p = (if rcvbufsz p \<noteq> 0 \<and> recvptr p \<noteq> 0 then None else Some zero_cb)"

definition do_close_conn :: "net \<Rightarrow> int \<Rightarrow> net option" where
  "do_close_conn n fd =
     (if CN_LISTEN \<in> flag (at n fd) \<or> CN_VALID \<notin> flag (at n fd) then Some n
      else case free_cb (cb (at n fd)) of
          None \<Rightarrow> None
        | Some p \<Rightarrow>
            let n1 = upd fd (\<lambda>f. f\<lparr>cb := p\<rparr>) n;
                n2 = upd fd (\<lambda>_. zero_fdinfo) n1
            in Some (n2\<lparr>maxfd := maxfd n2 - 1\<rparr>))"

text \<open>\<open>accept\<close> answers the new descriptor and the peer's address, or a value that is not
  positive. \<open>now\<close> is the time stamp counter.\<close>

definition do_open_conn :: "net \<Rightarrow> int \<Rightarrow> int \<times> int \<times> int \<Rightarrow> int \<Rightarrow> int \<times> net" where
  "do_open_conn n fd acc now =
     (case acc of (newfd, ip, port) \<Rightarrow>
        if newfd > 0 then
          let local = (local_ip (sk (at n fd)), local_port (sk (at n fd)));
              n1 = do_add_conn n newfd {} local (Some (ip, port)) (timeout (at n fd));
              n2 = upd newfd (\<lambda>f. f\<lparr>sk := (sk f)\<lparr>sendtm := 0\<rparr>, accept_fd := fd\<rparr>) n1;
              n3 = upd newfd (\<lambda>f. f\<lparr>sk := (sk f)\<lparr>recvtm := now\<rparr>\<rparr>) n2
          in (newfd, n3)
        else (newfd, n))"

text \<open>A null \<open>sendptr\<close> makes the kernel answer \<open>EFAULT\<close>.\<close>

definition pending_out :: "conn_buf \<Rightarrow> byte list" where
  "pending_out c = (case sendptr c of None \<Rightarrow> [] | Some m \<Rightarrow> rd 0 (sendlen c) m)"

definition send_pending :: "tx list \<Rightarrow> conn_buf \<Rightarrow> int \<times> byte list" where
  "send_pending ts c =
     (if sendptr c = None \<and> sendlen c > 0 then (-1, [])
      else safe_tcp_send_n ts (pending_out c))"

text \<open>Moving the unsent rest to the front of the send buffer.\<close>

definition shift_out :: "nat \<Rightarrow> conn_buf \<Rightarrow> conn_buf" where
  "shift_out k c =
     c\<lparr>sendptr := (case sendptr c of
                     None \<Rightarrow> None
                   | Some m \<Rightarrow> Some (wr 0 (rd k (sendlen c - k) m) m)),
       sendlen := sendlen c - k\<rparr>"

definition do_write_conn :: "net \<Rightarrow> int \<Rightarrow> tx list \<Rightarrow> int \<Rightarrow> int \<times> net" where
  "do_write_conn n fd ts now =
     (let c = cb (at n fd);
          (send_bytes, sent) = send_pending ts c;
          n1 = on_wire (fd_id (at n fd)) sent n
      in if send_bytes > 0 then
           (send_bytes,
            upd fd (\<lambda>f. f\<lparr>cb := (if send_bytes = int (sendlen c) then c\<lparr>sendlen := 0\<rparr>
                                 else shift_out (nat send_bytes) c),
                          sk := (sk f)\<lparr>sendtm := now\<rparr>\<rparr>) n1)
         else (send_bytes, n1))"

text \<open>\<open>bufsz\<close> is the configured \<open>rcvbufsz\<close>, \<open>alloc_ok\<close> whether \<open>malloc\<close> or \<open>realloc\<close>
  succeeds. The kernel writes behind the bytes already received; a write past the end of the
  block is undefined.\<close>

definition do_read_conn ::
  "nat \<Rightarrow> bool \<Rightarrow> net \<Rightarrow> int \<Rightarrow> rx list \<Rightarrow> int \<Rightarrow> (int \<times> net) option" where
  "do_read_conn bufsz alloc_ok n fd rs now =
     (let c = cb (at n fd);
          buffer =
            (if rcvbufsz c = 0 then
               if rcvprotlen c \<noteq> 0 then None
               else if \<not> alloc_ok then Some None
               else Some (Some (c\<lparr>recvptr := 0, rcvmem := malloc_mem bufsz, rcvbufsz := bufsz\<rparr>))
             else if int (rcvbufsz c) < rcvprotlen c then
               if recvptr c \<noteq> 0 then None
               else if \<not> alloc_ok then Some None
               else Some (Some (c\<lparr>rcvmem := realloc_mem (rcvmem c) (nat (rcvprotlen c)),
                                  rcvbufsz := nat (rcvprotlen c)\<rparr>))
             else Some (Some c))
      in case buffer of
           None \<Rightarrow> None
         | Some None \<Rightarrow> Some (-1, n)
         | Some (Some c1) \<Rightarrow>
             (case safe_tcp_recv rs (rcvbufsz c1 - recvlen c1) of (recv_bytes, bs) \<Rightarrow>
                if recvptr c1 + recvlen c1 + length bs > length (rcvmem c1) then None
                else if recv_bytes > 0 then
                  Some (recv_bytes,
                    upd fd (\<lambda>f. f\<lparr>cb := c1\<lparr>rcvmem := wr (recvptr c1 + recvlen c1) bs (rcvmem c1),
                                         recvlen := recvlen c1 + length bs\<rparr>,
                                  sk := (sk f)\<lparr>recvtm := now\<rparr>\<rparr>)
                      (off_wire (fd_id (at n fd)) bs n))
                else Some (recv_bytes, upd fd (\<lambda>f. f\<lparr>cb := c1\<rparr>) n)))"

definition check_timeout :: "int \<Rightarrow> int \<Rightarrow> int \<Rightarrow> int" where
  "check_timeout current_tsc stamp def =
     (if def = 0 then 0 else if current_tsc - stamp > def then -1 else 0)"

definition do_check_conn :: "int \<Rightarrow> net \<Rightarrow> int \<Rightarrow> net option" where
  "do_check_conn current_tsc n fd =
     (let f = at n fd
      in if CN_FIN \<in> flag f \<and> sendlen (cb f) = 0 then do_close_conn n fd
         else if CN_LISTEN \<notin> flag f \<and> timeout f > 0 then
           let stamp = (if recvtm (sk f) > sendtm (sk f) then recvtm (sk f) else sendtm (sk f))
           in if check_timeout current_tsc stamp (timeout f) \<noteq> 0 then do_close_conn n fd
              else Some n
         else Some n)"

section \<open>Facts about table updates\<close>

lemma upd_sel [simp]:
  "at (upd fd f n) x = (if x = fd then f (at n fd) else at n x)"
  "maxfd (upd fd f n) = maxfd n" "next_id (upd fd f n) = next_id n"
  "recvq (upd fd f n) = recvq n" "wire_in (upd fd f n) = wire_in n"
  "wire_out (upd fd f n) = wire_out n"
  by (auto simp: upd_def)

lemma on_wire_sel [simp]:
  "fdinfo (on_wire i bs n) = fdinfo n" "maxfd (on_wire i bs n) = maxfd n"
  "next_id (on_wire i bs n) = next_id n" "recvq (on_wire i bs n) = recvq n"
  "wire_in (on_wire i bs n) = wire_in n"
  "wire_out (on_wire i bs n) = (wire_out n)(i := wire_out n i @ bs)"
  by (auto simp: on_wire_def)

lemma off_wire_sel [simp]:
  "fdinfo (off_wire i bs n) = fdinfo n" "maxfd (off_wire i bs n) = maxfd n"
  "next_id (off_wire i bs n) = next_id n" "recvq (off_wire i bs n) = recvq n"
  "wire_out (off_wire i bs n) = wire_out n"
  "wire_in (off_wire i bs n) = (wire_in n)(i := wire_in n i @ bs)"
  by (auto simp: off_wire_def)

lemma wr_length [simp]: "off + length bs \<le> length mem \<Longrightarrow> length (wr off bs mem) = length mem"
  by (simp add: wr_def)

lemma rd_wr_after: "off + length bs \<le> length mem \<Longrightarrow> base \<le> off \<Longrightarrow>
    rd base (off - base + length bs) (wr off bs mem) = rd base (off - base) mem @ bs"
  by (cases bs) (simp_all add: rd_def wr_def min_def take_drop)

lemma rd_length [simp]: "off + n \<le> length mem \<Longrightarrow> length (rd off n mem) = n"
  by (simp add: rd_def)

lemma rd_wr_front: "length bs \<le> length mem \<Longrightarrow> rd 0 (length bs) (wr 0 bs mem) = bs"
  by (simp add: rd_def wr_def)

lemma rd_zero [simp]: "rd off 0 mem = []"
  by (simp add: rd_def)

lemma drop_rd: "drop k (rd off n mem) = rd (off + k) (n - k) mem"
  by (simp add: rd_def drop_take add.commute)

lemma take_rd: "k \<le> n \<Longrightarrow> take k (rd off n mem) = rd off k mem"
  by (simp add: rd_def min_def)

lemma rd_realloc: "n \<le> length mem \<Longrightarrow> length mem \<le> m \<Longrightarrow> rd 0 n (realloc_mem mem m) = rd 0 n mem"
  by (simp add: rd_def realloc_mem_def)

lemma realloc_length [simp]: "length (realloc_mem mem m) = m"
  by (simp add: realloc_mem_def)

lemma malloc_length [simp]: "length (malloc_mem m) = m"
  by (simp add: malloc_mem_def)

section \<open>Opening and closing\<close>

lemma do_add_conn_sel:
  "maxfd (do_add_conn n fd fl l p t) = maxfd n + 1"
  "next_id (do_add_conn n fd fl l p t) = next_id n + 1"
  "recvq (do_add_conn n fd fl l p t) = recvq n"
  "wire_in (do_add_conn n fd fl l p t) = wire_in n"
  "wire_out (do_add_conn n fd fl l p t) = wire_out n"
  "x \<noteq> fd \<Longrightarrow> at (do_add_conn n fd fl l p t) x = at n x"
  "fd_id (at (do_add_conn n fd fl l p t) fd) = next_id n"
  "cb (at (do_add_conn n fd fl l p t) fd) = zero_cb"
  "flag (at (do_add_conn n fd fl l p t) fd) = insert CN_VALID fl"
  by (auto simp: do_add_conn_def make_id_def Let_def zero_fdinfo_def split: option.splits prod.splits)

lemmas do_add_conn_simps [simp] = do_add_conn_sel

lemma do_open_conn_sel:
  assumes "do_open_conn n fd acc now = (newfd, n1)" "newfd > 0"
  shows "maxfd n1 = maxfd n + 1" "next_id n1 = next_id n + 1" "recvq n1 = recvq n"
    "wire_in n1 = wire_in n" "wire_out n1 = wire_out n" "x \<noteq> newfd \<Longrightarrow> at n1 x = at n x"
    "fd_id (at n1 newfd) = next_id n" "cb (at n1 newfd) = zero_cb" "flag (at n1 newfd) = {CN_VALID}"
    "accept_fd (at n1 newfd) = fd"
  using assms by (auto simp: do_open_conn_def Let_def split: prod.splits if_splits)

text \<open>What closing does: nothing to a listener or a free entry, otherwise the entry is cleared.\<close>

definition closable :: "net \<Rightarrow> int \<Rightarrow> bool" where
  "closable n fd \<longleftrightarrow> CN_LISTEN \<notin> flag (at n fd) \<and> CN_VALID \<in> flag (at n fd)"

definition closed :: "net \<Rightarrow> int \<Rightarrow> net" where
  "closed n fd =
     (if closable n fd
      then n\<lparr>fdinfo := (fdinfo n)(fd := zero_fdinfo), maxfd := maxfd n - 1\<rparr> else n)"

lemma do_close_conn_closed:
  "rcvbufsz (cb (at n fd)) = 0 \<or> recvptr (cb (at n fd)) = 0 \<Longrightarrow>
   do_close_conn n fd = Some (closed n fd)"
  by (auto simp: do_close_conn_def free_cb_def Let_def upd_def closed_def closable_def)

lemma closed_sel [simp]:
  "next_id (closed n fd) = next_id n" "recvq (closed n fd) = recvq n"
  "wire_in (closed n fd) = wire_in n" "wire_out (closed n fd) = wire_out n"
  "at (closed n fd) x = (if x = fd \<and> closable n fd then zero_fdinfo else at n x)"
  by (auto simp: closed_def)

lemma zero_fdinfo_sel [simp]:
  "fd_id zero_fdinfo = 0" "cb zero_fdinfo = zero_cb" "flag zero_fdinfo = {}"
  by (simp_all add: zero_fdinfo_def)

lemma zero_cb_sel [simp]:
  "sndbufsz zero_cb = 0" "rcvbufsz zero_cb = 0" "rcvprotlen zero_cb = 0" "recvlen zero_cb = 0"
  "sendlen zero_cb = 0" "recvptr zero_cb = 0" "rcvmem zero_cb = []" "sendptr zero_cb = None"
  by (simp_all add: zero_cb_def)

end
