(* ===== verification/NetIn.thy ===== *)
theory NetIn
  imports Conn
begin

text \<open>
  The receiving side of the connection process (\<^verbatim>\<open>net.c\<close>: \<^verbatim>\<open>run_once\<close>, \<^verbatim>\<open>udp_recv\<close>):
  reading a connection, cutting the buffer into messages with the service's
  \<^verbatim>\<open>handle_input\<close>, and handing each message to the workers through the receive queue. Proved:
  the blocks handed over are the messages of the whole stream, however it was chunked.
\<close>

section \<open>Cutting the receive buffer\<close>

type_synonym handle_input = "byte list \<Rightarrow> skinfo \<Rightarrow> int"

definition rcv_view :: "conn_buf \<Rightarrow> byte list" where
  "rcv_view c = rd (recvptr c) (recvlen c) (rcvmem c)"

definition data_block :: "fdinfo \<Rightarrow> int \<Rightarrow> shm_block" where
  "data_block f len =
     \<lparr>blk_id = fd_id f, blk_len = len + shm_block_sz, blk_typ = DAT_BLOCK, blk_sk = sk f,
      blk_accept_fd = accept_fd f\<rparr>"

datatype parse_end = Parsed | Invalid | Too_big | Queue_full

text \<open>The loop at the label \<open>parse_again\<close>; each round takes at least one byte.\<close>

function parse_again ::
  "handle_input \<Rightarrow> fdinfo \<Rightarrow> conn_buf \<Rightarrow> shm_queue \<Rightarrow> parse_end \<times> conn_buf \<times> shm_queue" where
  "parse_again h f c q =
     (let prot = (if rcvprotlen c = 0 then h (rcv_view c) (sk f) else rcvprotlen c);
          c1 = c\<lparr>rcvprotlen := prot\<rparr>
      in if prot < 0 \<or> prot > RCVBUFMAX then (Invalid, c1, q)
         else if prot = 0 then
           (if recvlen c1 = rcvbufsz c1 then (Too_big, c1, q) else (Parsed, c1, q))
         else if int (recvlen c1) \<ge> prot then
           (case push_now q (data_block f prot, rd (recvptr c1) (nat prot) (rcvmem c1)) of
              (False, q1) \<Rightarrow> (Queue_full, c1, q1)
            | (True, q1) \<Rightarrow>
                let c2 = c1\<lparr>recvptr := (if int (recvlen c1) > prot then recvptr c1 + nat prot
                                       else recvptr c1),
                            recvlen := recvlen c1 - nat prot,
                            rcvprotlen := 0\<rparr>
                in if recvlen c2 > 0 then parse_again h f c2 q1 else (Parsed, c2, q1))
         else (Parsed, c1, q))"
  by pat_completeness auto
termination
  by (relation "measure (\<lambda>(h, f, c, q). recvlen c)") (auto simp: Let_def split: if_splits)

declare parse_again.simps [simp del]

text \<open>Where the parse loop leaves through its end, the rest of the data moves to the front.\<close>

definition rewind :: "nat \<Rightarrow> conn_buf \<Rightarrow> conn_buf" where
  "rewind saved c =
     (if recvptr c \<noteq> saved then
        c\<lparr>rcvmem := (if recvlen c \<noteq> 0
                     then wr saved (rd (recvptr c) (recvlen c) (rcvmem c)) (rcvmem c)
                     else rcvmem c),
          recvptr := saved\<rparr>
      else c)"

definition set_cb :: "int \<Rightarrow> conn_buf \<Rightarrow> net \<Rightarrow> net" where
  "set_cb fd c = upd fd (\<lambda>f. f\<lparr>cb := c\<rparr>)"

text \<open>The two parts of \<^verbatim>\<open>run_once\<close> for a TCP connection: the read, and the parsing.\<close>

definition run_parse :: "handle_input \<Rightarrow> net \<Rightarrow> int \<Rightarrow> (int \<times> net) option" where
  "run_parse h n fd =
     (let saved = recvptr (cb (at n fd))
      in case parse_again h (at n fd) (cb (at n fd)) (recvq n) of
           (Parsed, c, q) \<Rightarrow> Some (0, set_cb fd (rewind saved c) (n\<lparr>recvq := q\<rparr>))
         | (Queue_full, c, q) \<Rightarrow> Some (-1, set_cb fd c (n\<lparr>recvq := q\<rparr>))
         | (_, c, q) \<Rightarrow>
             (case do_close_conn (set_cb fd (c\<lparr>recvptr := saved\<rparr>) (n\<lparr>recvq := q\<rparr>)) fd of
                None \<Rightarrow> None
              | Some n1 \<Rightarrow> Some (-1, n1)))"

definition run_recv ::
  "handle_input \<Rightarrow> nat \<Rightarrow> bool \<Rightarrow> net \<Rightarrow> int \<Rightarrow> rx list \<Rightarrow> int \<Rightarrow> (int \<times> net) option" where
  "run_recv h bufsz alloc_ok n fd rs now =
     (case do_read_conn bufsz alloc_ok n fd rs now of
        None \<Rightarrow> None
      | Some (r, n1) \<Rightarrow>
          if r \<le> 0 then
            (case do_close_conn n1 fd of None \<Rightarrow> None | Some n2 \<Rightarrow> Some (-1, n2))
          else run_parse h n1 fd)"

section \<open>Accepting and datagrams\<close>

text \<open>
  \<open>handle_open\<close> (optional) answers a return code, a greeting to send to the client and its
  length. The greeting's buffer belongs to the connection afterwards. When only part of the
  greeting is sent, the code lowers \<open>sendlen\<close> but leaves the bytes where they are.
\<close>

type_synonym handle_open = "skinfo \<Rightarrow> int \<times> byte list \<times> int"

definition run_accept ::
  "handle_open option \<Rightarrow> net \<Rightarrow> int \<Rightarrow> int \<times> int \<times> int \<Rightarrow> tx list \<Rightarrow> int \<Rightarrow> (int \<times> net) option"
where
  "run_accept ho n fd acc ts now =
     (case do_open_conn n fd acc now of
        (newfd, n1) \<Rightarrow>
          if newfd > 0 then
            (case ho of
               None \<Rightarrow> Some (0, n1)
             | Some greeter \<Rightarrow>
                 (case greeter (sk (at n1 newfd)) of
                    (r, greet, len) \<Rightarrow>
                      if r = -1 \<or> len < 0 \<or> len > RCVBUFMAX then
                        (case do_close_conn n1 newfd of
                           None \<Rightarrow> None
                         | Some n2 \<Rightarrow> Some (-1, n2))
                      else if len > 0 then
                        if nat len > length greet then None
                        else
                        (let n2 = upd newfd (\<lambda>f. f\<lparr>cb := (cb f)\<lparr>sendptr := Some greet,
                                    sendlen := nat len, sndbufsz := nat len\<rparr>\<rparr>) n1;
                             (send_bytes, sent) = safe_tcp_send_n ts (rd 0 (nat len) greet);
                             n3 = on_wire (fd_id (at n2 newfd)) sent n2
                         in if send_bytes = -1 then
                              (case do_close_conn n3 fd of
                                 None \<Rightarrow> None
                               | Some n4 \<Rightarrow> Some (-1, n4))
                            else Some (0, upd newfd (\<lambda>f. f\<lparr>cb := (cb f)\<lparr>
                                    sendlen := nat len - nat send_bytes\<rparr>\<rparr>) n3))
                      else Some (0, n1)))
          else Some (-1, n))"

text \<open>A datagram longer than the buffer is cut by the kernel, but \<open>MSG_TRUNC\<close> makes
  \<open>recvfrom\<close> answer its full length, which is then used to read the buffer.\<close>

definition udp_recv ::
  "handle_input \<Rightarrow> nat \<Rightarrow> bool \<Rightarrow> net \<Rightarrow> int \<Rightarrow> ((int \<times> int) \<times> byte list) option \<Rightarrow> int \<Rightarrow>
   (int \<times> net) option" where
  "udp_recv h bufsz alloc_ok n fd dgram now =
     (let c = cb (at n fd)
      in if rcvbufsz c = 0 \<and> \<not> alloc_ok then Some (-1, n)
         else
           let c1 = (if rcvbufsz c = 0
                     then c\<lparr>recvptr := 0, rcvmem := malloc_mem bufsz, rcvbufsz := bufsz\<rparr> else c)
           in case dgram of
                None \<Rightarrow> Some (-1, set_cb fd c1 n)
              | Some ((ip, port), bs) \<Rightarrow>
                  if bs = [] then Some (-1, set_cb fd c1 n)
                  else
                    let c2 = c1\<lparr>rcvmem := wr 0 (take (rcvbufsz c1) bs) (rcvmem c1)\<rparr>;
                        n1 = set_cb fd c2 n;
                        s = (sk (at n1 fd))\<lparr>remote_port := port, remote_ip := ip\<rparr>;
                        udp_len = length bs
                    in if udp_len > length (rcvmem c2) then None
                       else if h (rd 0 udp_len (rcvmem c2)) s \<noteq> int udp_len then Some (-1, n1)
                       else
                         (case push_now (recvq n1)
                             (data_block (at n1 fd\<lparr>sk := s\<lparr>recvtm := now\<rparr>\<rparr>) (int udp_len),
                              rd 0 udp_len (rcvmem c2)) of
                            (False, q) \<Rightarrow> Some (-1, n1\<lparr>recvq := q\<rparr>)
                          | (True, q) \<Rightarrow>
                              Some (0, set_cb fd (c2\<lparr>recvlen := 0, rcvprotlen := 0\<rparr>)
                                         (n1\<lparr>recvq := q\<rparr>))))"

text \<open>
  The kernel's answers for one descriptor during one round: to \<open>accept\<close>, \<open>recvfrom\<close>,
  \<open>recv\<close>, and to the \<open>send\<close>s of a greeting; the reading of the time stamp counter.
  The loop over 100 datagrams ends after the first: the condition that should break it is
  followed by a semicolon.
\<close>

record answers =
  a_accept :: "int \<times> int \<times> int"
  a_dgram :: "((int \<times> int) \<times> byte list) option"
  a_recv :: "rx list"
  a_send :: "tx list"
  a_alloc :: bool
  a_now :: int

definition run_once ::
  "handle_input \<Rightarrow> handle_open option \<Rightarrow> nat \<Rightarrow> net \<Rightarrow> int \<Rightarrow> answers \<Rightarrow> (int \<times> net) option" where
  "run_once h ho bufsz n fd a =
     (if CN_UDP \<in> flag (at n fd) then
        (case udp_recv h bufsz (a_alloc a) n fd (a_dgram a) (a_now a) of
           None \<Rightarrow> None
         | Some (_, n1) \<Rightarrow> Some (0, n1))
      else if CN_LISTEN \<in> flag (at n fd) then
        run_accept ho n fd (a_accept a) (a_send a) (a_now a)
      else run_recv h bufsz (a_alloc a) n fd (a_recv a) (a_now a))"

section \<open>What the receive path keeps\<close>

definition msg_block :: "fdinfo \<Rightarrow> byte list \<Rightarrow> slot" where
  "msg_block f m = (data_block f (int (length m)), m)"

definition rcv_ok :: "(byte list \<Rightarrow> int) \<Rightarrow> conn_buf \<Rightarrow> bool" where
  "rcv_ok h c \<longleftrightarrow>
     length (rcvmem c) = rcvbufsz c \<and> recvptr c + recvlen c \<le> rcvbufsz c \<and>
     (rcvprotlen c = 0 \<or> recvlen c > 0 \<and> rcvprotlen c = h (rcv_view c))"

text \<open>Between two rounds: the buffer starts at its block's start, holds one unfinished message,
  and has room for more (so that a read is never mistaken for the end of the stream).\<close>

definition conn_ok :: "(byte list \<Rightarrow> int) \<Rightarrow> conn_buf \<Rightarrow> bool" where
  "conn_ok h c \<longleftrightarrow>
     rcv_ok h c \<and> recvptr c = 0 \<and> frames h (rcv_view c) = ([], Incomplete (rcv_view c)) \<and>
     (rcvbufsz c = 0 \<or> recvlen c < rcvbufsz c \<or> int (recvlen c) < rcvprotlen c)"

lemma rcv_view_length [simp]: "rcv_ok h c \<Longrightarrow> length (rcv_view c) = recvlen c"
  by (simp add: rcv_ok_def rcv_view_def)

lemma msg_block_ok: "0 < length m \<Longrightarrow> int (length m) \<le> RCVBUFMAX \<Longrightarrow> block_ok (msg_block f m)"
  by (simp add: msg_block_def data_block_def block_ok_def shm_block_sz_def RCVBUFMAX_def)

definition parse_post ::
  "(byte list \<Rightarrow> int) \<Rightarrow> fdinfo \<Rightarrow> conn_buf \<Rightarrow> slot list \<Rightarrow> parse_end \<Rightarrow> conn_buf \<Rightarrow> shm_queue \<Rightarrow> bool"
where
  "parse_post h f c bs r c' q' \<longleftrightarrow>
     rcvmem c' = rcvmem c \<and> rcvbufsz c' = rcvbufsz c \<and> sndbufsz c' = sndbufsz c \<and>
     sendlen c' = sendlen c \<and> sendptr c' = sendptr c \<and>
     (case r of
        Parsed \<Rightarrow> rcv_ok h c' \<and> snd (frames h (rcv_view c)) = Incomplete (rcv_view c') \<and>
          (recvlen c' < rcvbufsz c' \<or> int (recvlen c') < rcvprotlen c')
      | Invalid \<Rightarrow> snd (frames h (rcv_view c)) = Rejected (rcv_view c')
      | Too_big \<Rightarrow> snd (frames h (rcv_view c)) = Incomplete (rcv_view c') \<and>
          recvlen c' = rcvbufsz c'
      | Queue_full \<Rightarrow> True) \<and>
     (\<exists>k. holds q' (bs @ map (msg_block f) (take k (fst (frames h (rcv_view c))))) \<and>
        (if r = Queue_full then k < length (fst (frames h (rcv_view c)))
         else k = length (fst (frames h (rcv_view c)))))"

text \<open>The three ways one round of the loop can go, with the current message length.\<close>

definition prot_of :: "(byte list \<Rightarrow> int) \<Rightarrow> conn_buf \<Rightarrow> int" where
  "prot_of h c = (if rcvprotlen c = 0 then h (rcv_view c) else rcvprotlen c)"

lemma prot_of_eq: "rcv_ok h c \<Longrightarrow> prot_of h c = h (rcv_view c)"
  by (auto simp: prot_of_def rcv_ok_def)

lemma parse_again_invalid:
  "prot_of h c < 0 \<or> prot_of h c > RCVBUFMAX \<Longrightarrow>
   parse_again (\<lambda>b _. h b) f c q = (Invalid, c\<lparr>rcvprotlen := prot_of h c\<rparr>, q)"
  by (subst parse_again.simps) (auto simp: Let_def prot_of_def)

lemma parse_again_unknown:
  "prot_of h c = 0 \<Longrightarrow>
   parse_again (\<lambda>b _. h b) f c q =
     (if recvlen c = rcvbufsz c then Too_big else Parsed, c\<lparr>rcvprotlen := 0\<rparr>, q)"
  by (subst parse_again.simps) (auto simp: Let_def prot_of_def RCVBUFMAX_def)

lemma parse_again_short:
  "0 < prot_of h c \<Longrightarrow> prot_of h c \<le> RCVBUFMAX \<Longrightarrow> int (recvlen c) < prot_of h c \<Longrightarrow>
   parse_again (\<lambda>b _. h b) f c q = (Parsed, c\<lparr>rcvprotlen := prot_of h c\<rparr>, q)"
  by (subst parse_again.simps) (auto simp: Let_def prot_of_def RCVBUFMAX_def)

definition next_msg :: "(byte list \<Rightarrow> int) \<Rightarrow> conn_buf \<Rightarrow> conn_buf" where
  "next_msg h c =
     c\<lparr>recvptr := (if int (recvlen c) > prot_of h c then recvptr c + nat (prot_of h c)
                  else recvptr c),
       recvlen := recvlen c - nat (prot_of h c), rcvprotlen := 0\<rparr>"

lemma parse_again_message:
  assumes "0 < prot_of h c" "prot_of h c \<le> RCVBUFMAX" "prot_of h c \<le> int (recvlen c)"
    "push_now q (data_block f (prot_of h c), rd (recvptr c) (nat (prot_of h c)) (rcvmem c)) =
       (acc, q1)"
  shows "parse_again (\<lambda>b _. h b) f c q =
     (if \<not> acc then (Queue_full, c\<lparr>rcvprotlen := prot_of h c\<rparr>, q1)
      else if recvlen (next_msg h c) > 0 then parse_again (\<lambda>b _. h b) f (next_msg h c) q1
      else (Parsed, next_msg h c, q1))"
  using assms
  by (subst parse_again.simps) (auto simp: Let_def prot_of_def next_msg_def RCVBUFMAX_def split: bool.splits)

lemma next_msg_view:
  assumes "rcv_ok h c" "0 < h (rcv_view c)" "h (rcv_view c) \<le> int (recvlen c)"
  shows "rcv_view (next_msg h c) = drop (nat (h (rcv_view c))) (rcv_view c)"
    and "rcv_ok h (next_msg h c)"
proof -
  have p: "prot_of h c = h (rcv_view c)" using assms(1) by (rule prot_of_eq)
  have d: "drop (nat (h (rcv_view c))) (rcv_view c) =
      rd (recvptr c + nat (h (rcv_view c))) (recvlen c - nat (h (rcv_view c))) (rcvmem c)"
    by (simp add: rcv_view_def drop_rd)
  show "rcv_view (next_msg h c) = drop (nat (h (rcv_view c))) (rcv_view c)"
    unfolding d using assms(3) p by (simp add: rcv_view_def next_msg_def)
  show "rcv_ok h (next_msg h c)"
    using assms p by (auto simp: rcv_ok_def next_msg_def)
qed

lemma parse_again_post:
  assumes "rcv_ok h c" "0 < recvlen c" "holds q bs" "parse_again (\<lambda>b _. h b) f c q = (r, c', q')"
  shows "parse_post h f c bs r c' q'"
  using assms
proof (induction "recvlen c" arbitrary: c q bs rule: less_induct)
  case less
  note p = prot_of_eq [OF less.prems(1)]
  have len: "length (rcv_view c) = recvlen c" using less.prems(1) by simp
  show ?case
  proof (cases h "rcv_view c" rule: frames_cases)
    case rejected
    then show ?thesis using parse_again_invalid [of h c f q] less.prems p
      by (auto simp: parse_post_def rcv_view_def)
  next
    case incomplete
    have view [simp]: "rcv_view (c\<lparr>rcvprotlen := x\<rparr>) = rcv_view c" for x
      by (simp add: rcv_view_def)
    have bounds: "h (rcv_view c) = 0 \<or> h (rcv_view c) \<le> RCVBUFMAX \<and> int (recvlen c) < h (rcv_view c)"
      using incomplete(1) len less.prems(2) by auto
    then show ?thesis
    proof
      assume "h (rcv_view c) = 0"
      then show ?thesis using parse_again_unknown [of h c f q] less.prems p incomplete
        by (auto simp: parse_post_def rcv_ok_def split: if_splits)
    next
      assume "h (rcv_view c) \<le> RCVBUFMAX \<and> int (recvlen c) < h (rcv_view c)"
      then show ?thesis using parse_again_short [of h c f q] less.prems p incomplete
        by (auto simp: parse_post_def rcv_ok_def)
    qed
  next
    case message
    define m where "m = take (nat (h (rcv_view c))) (rcv_view c)"
    have m: "int (length m) = h (rcv_view c)" "0 < length m"
      using message len by (auto simp: m_def)
    have rd: "rd (recvptr c) (nat (prot_of h c)) (rcvmem c) = m"
      using message len p by (simp add: m_def rcv_view_def take_rd)
    have blk: "(data_block f (prot_of h c), rd (recvptr c) (nat (prot_of h c)) (rcvmem c)) =
        msg_block f m"
      using rd m p by (simp add: msg_block_def)
    obtain acc q1 where push: "push_now q (msg_block f m) = (acc, q1)" by fastforce
    have ok: "block_ok (msg_block f m)" using m message by (intro msg_block_ok) auto
    have run: "parse_again (\<lambda>b _. h b) f c q =
     (if \<not> acc then (Queue_full, c\<lparr>rcvprotlen := prot_of h c\<rparr>, q1)
      else if recvlen (next_msg h c) > 0 then parse_again (\<lambda>b _. h b) f (next_msg h c) q1
      else (Parsed, next_msg h c, q1))"
      using message len p push blk by (intro parse_again_message) auto
    note nxt = next_msg_view [OF less.prems(1) message(1)]
    have view: "rcv_view (next_msg h c) = drop (nat (h (rcv_view c))) (rcv_view c)"
      and okn: "rcv_ok h (next_msg h c)" using nxt message(3) len by auto
    have fr: "frames h (rcv_view c) =
        (m # fst (frames h (rcv_view (next_msg h c))), snd (frames h (rcv_view (next_msg h c))))"
      using message(5) view by (simp add: m_def)
    show ?thesis
    proof (cases acc)
      case False
      with shmq.push_reject [OF less.prems(3) ok] push run less.prems(4) fr show ?thesis
        by (auto simp: parse_post_def intro!: exI [where x = 0])
    next
      case True
      have q1: "holds q1 (bs @ [msg_block f m])"
        using shmq.push_accept [OF less.prems(3) ok] push True by simp
      show ?thesis
      proof (cases "recvlen (next_msg h c) > 0")
        case True2: True
        have "recvlen (next_msg h c) < recvlen c"
          using message len p by (auto simp: next_msg_def)
        from less.hyps [OF this okn True2 q1] run True True2 less.prems(4)
        have post: "parse_post h f (next_msg h c) (bs @ [msg_block f m]) r c' q'" by simp
        have same: "rcvmem (next_msg h c) = rcvmem c" "rcvbufsz (next_msg h c) = rcvbufsz c"
          "sndbufsz (next_msg h c) = sndbufsz c" "sendlen (next_msg h c) = sendlen c"
          "sendptr (next_msg h c) = sendptr c"
          by (simp_all add: next_msg_def)
        from post obtain k where k: "holds q' ((bs @ [msg_block f m]) @
              map (msg_block f) (take k (fst (frames h (rcv_view (next_msg h c))))))"
            "if r = Queue_full then k < length (fst (frames h (rcv_view (next_msg h c))))
             else k = length (fst (frames h (rcv_view (next_msg h c))))"
          unfolding parse_post_def by blast
        have "holds q' (bs @ map (msg_block f) (take (Suc k) (fst (frames h (rcv_view c)))))"
          using k(1) fr by simp
        moreover have "if r = Queue_full then Suc k < length (fst (frames h (rcv_view c)))
             else Suc k = length (fst (frames h (rcv_view c)))"
          using k(2) fr by simp
        ultimately have "\<exists>k. holds q' (bs @ map (msg_block f) (take k (fst (frames h (rcv_view c))))) \<and>
            (if r = Queue_full then k < length (fst (frames h (rcv_view c)))
             else k = length (fst (frames h (rcv_view c))))" by blast
        moreover have "snd (frames h (rcv_view c)) = snd (frames h (rcv_view (next_msg h c)))"
          by (subst fr) simp
        ultimately show ?thesis using post same unfolding parse_post_def by (cases r) auto
      next
        case False
        have z: "recvlen (next_msg h c) = 0" using False by simp
        then have "rcv_view (next_msg h c) = []" by (simp add: rcv_view_def)
        moreover have "0 < rcvbufsz c" using less.prems(1,2) by (auto simp: rcv_ok_def)
        moreover have "r = Parsed" "c' = next_msg h c" "q' = q1"
          using run True False less.prems(4) by auto
        ultimately show ?thesis using q1 okn fr z
          by (auto simp: parse_post_def next_msg_def intro!: exI [where x = 1])
      qed
    qed
  qed
qed

section \<open>One read of a connection\<close>

text \<open>The buffer \<^verbatim>\<open>do_read_conn\<close> prepares has room: \<^verbatim>\<open>recv\<close> is never asked for 0 bytes.\<close>

definition read_buf :: "nat \<Rightarrow> conn_buf \<Rightarrow> conn_buf" where
  "read_buf bufsz c =
     (if rcvbufsz c = 0 then c\<lparr>recvptr := 0, rcvmem := malloc_mem bufsz, rcvbufsz := bufsz\<rparr>
      else if int (rcvbufsz c) < rcvprotlen c
      then c\<lparr>rcvmem := realloc_mem (rcvmem c) (nat (rcvprotlen c)), rcvbufsz := nat (rcvprotlen c)\<rparr>
      else c)"

lemma read_buf_ok:
  assumes "conn_ok h c" "0 < bufsz"
  shows "rcv_ok h (read_buf bufsz c)" "recvptr (read_buf bufsz c) = 0"
    "rcv_view (read_buf bufsz c) = rcv_view c" "recvlen (read_buf bufsz c) = recvlen c"
    "rcvprotlen (read_buf bufsz c) = rcvprotlen c"
    "recvlen c < rcvbufsz (read_buf bufsz c)"
proof -
  have v: "rcv_view (read_buf bufsz c) = rcv_view c"
    using assms by (auto simp: conn_ok_def rcv_ok_def read_buf_def rcv_view_def rd_realloc)
  then show "rcv_view (read_buf bufsz c) = rcv_view c" .
  show "recvptr (read_buf bufsz c) = 0" "recvlen (read_buf bufsz c) = recvlen c"
    "rcvprotlen (read_buf bufsz c) = rcvprotlen c"
    using assms by (auto simp: conn_ok_def read_buf_def)
  show "recvlen c < rcvbufsz (read_buf bufsz c)"
    using assms by (auto simp: conn_ok_def rcv_ok_def read_buf_def)
  show "rcv_ok h (read_buf bufsz c)"
    unfolding rcv_ok_def v using assms by (auto simp: conn_ok_def rcv_ok_def read_buf_def)
qed

definition filled :: "byte list \<Rightarrow> conn_buf \<Rightarrow> conn_buf" where
  "filled bs c = c\<lparr>rcvmem := wr (recvptr c + recvlen c) bs (rcvmem c), recvlen := recvlen c + length bs\<rparr>"

lemma do_read_conn_ok:
  assumes "conn_ok h (cb (at n fd))" "0 < bufsz"
    and "safe_tcp_recv rs (rcvbufsz (read_buf bufsz (cb (at n fd))) - recvlen (cb (at n fd))) = (r, bs)"
  shows "do_read_conn bufsz alloc n fd rs now =
     (if \<not> alloc \<and> (rcvbufsz (cb (at n fd)) = 0 \<or>
                      int (rcvbufsz (cb (at n fd))) < rcvprotlen (cb (at n fd)))
      then Some (-1, n)
      else Some (r, if r > 0 then
          upd fd (\<lambda>f. f\<lparr>cb := filled bs (read_buf bufsz (cb (at n fd))),
                        sk := (sk f)\<lparr>recvtm := now\<rparr>\<rparr>) (off_wire (fd_id (at n fd)) bs n)
        else upd fd (\<lambda>f. f\<lparr>cb := read_buf bufsz (cb (at n fd))\<rparr>) n))"
proof -
  let ?c = "cb (at n fd)" and ?c1 = "read_buf bufsz (cb (at n fd))"
  note rb = read_buf_ok [OF assms(1,2)]
  have "recvptr ?c1 + recvlen ?c1 + length bs \<le> length (rcvmem ?c1)"
    using rb safe_tcp_recv_data [OF assms(3)] unfolding rcv_ok_def by linarith
  moreover have "rcvbufsz ?c = 0 \<Longrightarrow> rcvprotlen ?c = 0"
    using assms(1) by (auto simp: conn_ok_def rcv_ok_def)
  ultimately show ?thesis using assms rb
    by (auto simp: do_read_conn_def Let_def read_buf_def filled_def conn_ok_def split: if_splits)
qed

lemma filled_ok:
  assumes "framer h" "rcv_ok h c" "recvptr c = 0" "recvlen c + length bs \<le> rcvbufsz c"
    "rcvprotlen c \<noteq> 0 \<longrightarrow> recvlen c > 0"
  shows "rcv_ok h (filled bs c)" "rcv_view (filled bs c) = rcv_view c @ bs"
    "recvptr (filled bs c) = 0" "recvlen (filled bs c) = recvlen c + length bs"
    "rcvbufsz (filled bs c) = rcvbufsz c"
proof -
  have v: "rcv_view (filled bs c) = rcv_view c @ bs"
    using assms rd_wr_after [of "recvlen c" bs "rcvmem c" 0]
    by (simp add: filled_def rcv_view_def rcv_ok_def)
  then show "rcv_view (filled bs c) = rcv_view c @ bs" .
  show "rcv_ok h (filled bs c)"
  proof -
    have "h (rcv_view c @ bs) = h (rcv_view c)" if "rcvprotlen c \<noteq> 0"
      using that assms(1,2) by (intro framer.stable) (auto simp: rcv_ok_def)
    then show ?thesis unfolding rcv_ok_def v using assms(2-5)
      by (auto simp: filled_def rcv_ok_def)
  qed
qed (use assms in \<open>simp_all add: filled_def\<close>)

lemma rewind_ok:
  assumes "rcv_ok h c"
  shows "rcv_ok h (rewind 0 c)" "rcv_view (rewind 0 c) = rcv_view c" "recvptr (rewind 0 c) = 0"
    "recvlen (rewind 0 c) = recvlen c" "rcvbufsz (rewind 0 c) = rcvbufsz c"
    "rcvprotlen (rewind 0 c) = rcvprotlen c"
proof -
  have l: "length (rd (recvptr c) (recvlen c) (rcvmem c)) = recvlen c"
    using assms by (simp add: rcv_ok_def)
  show v: "rcv_view (rewind 0 c) = rcv_view c"
    using l rd_wr_front [of "rd (recvptr c) (recvlen c) (rcvmem c)" "rcvmem c"] assms
    by (auto simp: rewind_def rcv_view_def rcv_ok_def)
  show "rcv_ok h (rewind 0 c)"
    unfolding rcv_ok_def v using assms by (auto simp: rewind_def rcv_ok_def)
qed (simp_all add: rewind_def)

section \<open>The receive invariant of the whole table\<close>

definition tcp_conn :: "net \<Rightarrow> int \<Rightarrow> bool" where
  "tcp_conn n fd \<longleftrightarrow>
     CN_VALID \<in> flag (at n fd) \<and> CN_LISTEN \<notin> flag (at n fd) \<and> CN_UDP \<notin> flag (at n fd) \<and>
     CN_PIPE \<notin> flag (at n fd)"

text \<open>Connection ids are never reused, so an id names at most one open connection.\<close>

definition ids_ok :: "net \<Rightarrow> bool" where
  "ids_ok n \<longleftrightarrow>
     (\<forall>fd. CN_VALID \<in> flag (at n fd) \<longrightarrow> fd_id (at n fd) < next_id n) \<and>
     (\<forall>fd fd'. CN_VALID \<in> flag (at n fd) \<longrightarrow> CN_VALID \<in> flag (at n fd') \<longrightarrow>
        fd_id (at n fd) = fd_id (at n fd') \<longrightarrow> fd = fd') \<and>
     (\<forall>i \<ge> next_id n. wire_in n i = [] \<and> wire_out n i = [])"

text \<open>\<open>blks\<close> are all blocks pushed so far: for every connection, open or closed, exactly the
  messages of the bytes received on it.\<close>

definition sent_for :: "int \<Rightarrow> slot list \<Rightarrow> byte list list" where
  "sent_for i blks = map snd (filter (\<lambda>b. blk_id (fst b) = i) blks)"

definition in_ok :: "(byte list \<Rightarrow> int) \<Rightarrow> net \<Rightarrow> slot list \<Rightarrow> bool" where
  "in_ok h n blks \<longleftrightarrow>
     ids_ok n \<and>
     (\<forall>i. sent_for i blks = fst (frames h (wire_in n i))) \<and>
     (\<forall>fd. tcp_conn n fd \<longrightarrow> conn_ok h (cb (at n fd)) \<and>
        snd (frames h (wire_in n (fd_id (at n fd)))) = Incomplete (rcv_view (cb (at n fd))))"

text \<open>What an operation of the receiving side leaves alone.\<close>

definition same_out :: "fdinfo \<Rightarrow> fdinfo \<Rightarrow> bool" where
  "same_out f f' \<longleftrightarrow>
     fd_id f' = fd_id f \<and> accept_fd f' = accept_fd f \<and> flag f' = flag f \<and>
     timeout f' = timeout f \<and>
     sndbufsz (cb f') = sndbufsz (cb f) \<and> sendlen (cb f') = sendlen (cb f) \<and>
     sendptr (cb f') = sendptr (cb f)"

lemma same_out_refl [simp]: "same_out f f"
  by (simp add: same_out_def)

lemma rewind_frame [simp]:
  "sndbufsz (rewind s c) = sndbufsz c" "sendlen (rewind s c) = sendlen c"
  "sendptr (rewind s c) = sendptr c"
  by (simp_all add: rewind_def)

lemma set_cb_sel [simp]:
  "at (set_cb fd c n) x = (if x = fd then (at n fd)\<lparr>cb := c\<rparr> else at n x)"
  "maxfd (set_cb fd c n) = maxfd n" "next_id (set_cb fd c n) = next_id n"
  "recvq (set_cb fd c n) = recvq n" "wire_in (set_cb fd c n) = wire_in n"
  "wire_out (set_cb fd c n) = wire_out n"
  by (simp_all add: set_cb_def)

lemma closed_set_cb [simp]: "closable n fd \<Longrightarrow> closed (set_cb fd c n) fd = closed n fd"
  by (auto simp: closed_def closable_def set_cb_def upd_def)

lemma closable_recvq [simp]: "closable (n\<lparr>recvq := q\<rparr>) fd = closable n fd"
  by (simp add: closable_def)

lemma closable_set_cb [simp]: "closable (set_cb fd c n) x = closable n x"
  by (simp add: closable_def)

lemma run_parse_cases:
  assumes "parse_again h (at n fd) (cb (at n fd)) (recvq n) = (pr, c, q)"
    "recvptr (cb (at n fd)) = 0" "closable n fd"
  shows "run_parse h n fd =
     Some (case pr of
        Parsed \<Rightarrow> (0, set_cb fd (rewind 0 c) (n\<lparr>recvq := q\<rparr>))
      | Queue_full \<Rightarrow> (-1, set_cb fd c (n\<lparr>recvq := q\<rparr>))
      | _ \<Rightarrow> (-1, closed (n\<lparr>recvq := q\<rparr>) fd))"
proof -
  have "do_close_conn (set_cb fd (c\<lparr>recvptr := 0\<rparr>) (n\<lparr>recvq := q\<rparr>)) fd =
      Some (closed (n\<lparr>recvq := q\<rparr>) fd)"
    using do_close_conn_closed [of "set_cb fd (c\<lparr>recvptr := 0\<rparr>) (n\<lparr>recvq := q\<rparr>)" fd] assms(3) by simp
  then show ?thesis using assms by (cases pr) (auto simp: run_parse_def)
qed

text \<open>The outcome of one round on the connection \<open>f\<close>: its entry and the queue afterwards.
  \<open>V\<close> is what was buffered together with what was received. The round is stuck when the
  queue refused a message: then the entry stays as the loop left it.\<close>

definition stuck :: "int \<Rightarrow> fdinfo \<Rightarrow> bool" where
  "stuck r f' \<longleftrightarrow> r = -1 \<and> CN_VALID \<in> flag f'"

definition delivered ::
  "(byte list \<Rightarrow> int) \<Rightarrow> int \<Rightarrow> byte list \<Rightarrow> slot list \<Rightarrow> int \<Rightarrow> fdinfo \<Rightarrow> shm_queue \<Rightarrow> bool" where
  "delivered h i V bs r f' q' \<longleftrightarrow>
     (\<exists>new. holds q' (bs @ new) \<and> (\<forall>b \<in> set new. blk_id (fst b) = i) \<and>
        (\<not> stuck r f' \<longrightarrow> map snd new = fst (frames h V)))"

definition entry_post :: "(byte list \<Rightarrow> int) \<Rightarrow> fdinfo \<Rightarrow> byte list \<Rightarrow> int \<Rightarrow> fdinfo \<Rightarrow> int \<Rightarrow> bool" where
  "entry_post h f V r f' dm \<longleftrightarrow>
     f' = zero_fdinfo \<and> r = -1 \<and> dm = 1 \<or>
     same_out f f' \<and> dm = 0 \<and>
     (stuck r f' \<or> conn_ok h (cb f') \<and> snd (frames h V) = Incomplete (rcv_view (cb f')))"

definition with_entry :: "net \<Rightarrow> int \<Rightarrow> fdinfo \<Rightarrow> int \<Rightarrow> shm_queue \<Rightarrow> net" where
  "with_entry n fd f dm q =
     n\<lparr>fdinfo := (fdinfo n)(fd := f), maxfd := maxfd n - dm, recvq := q\<rparr>"

lemma set_cb_with_entry: "set_cb fd c (n\<lparr>recvq := q\<rparr>) = with_entry n fd ((at n fd)\<lparr>cb := c\<rparr>) 0 q"
  by (simp add: set_cb_def with_entry_def upd_def)

lemma closed_with_entry:
  "closable n fd \<Longrightarrow> closed (n\<lparr>recvq := q\<rparr>) fd = with_entry n fd zero_fdinfo 1 q"
  by (simp add: closed_def with_entry_def)

lemma deliveredI:
  "holds q' (bs @ map (msg_block f) ms) \<Longrightarrow> (\<not> stuck r f' \<Longrightarrow> ms = fst (frames h V)) \<Longrightarrow>
   delivered h (fd_id f) V bs r f' q'"
  unfolding delivered_def
  by (rule exI [where x = "map (msg_block f) ms"])
     (auto simp: msg_block_def data_block_def comp_def)

lemma sent_for_append [simp]: "sent_for i (xs @ ys) = sent_for i xs @ sent_for i ys"
  by (simp add: sent_for_def)

lemma sent_for_own: "\<forall>b \<in> set bs. blk_id (fst b) = i \<Longrightarrow>
    sent_for j bs = (if j = i then map snd bs else [])"
  by (auto simp: sent_for_def filter_id_conv filter_empty_conv)

lemma same_out_cb:
  "sndbufsz c = sndbufsz (cb f) \<Longrightarrow> sendlen c = sendlen (cb f) \<Longrightarrow> sendptr c = sendptr (cb f) \<Longrightarrow>
   same_out f (f\<lparr>cb := c\<rparr>)"
  by (simp add: same_out_def)

lemma run_parse_post:
  assumes "rcv_ok h (cb (at n fd))" "recvptr (cb (at n fd)) = 0" "0 < recvlen (cb (at n fd))"
    "holds (recvq n) bs" "closable n fd"
  shows "\<exists>r f' dm q'. run_parse (\<lambda>b _. h b) n fd = Some (r, with_entry n fd f' dm q') \<and>
     entry_post h (at n fd) (rcv_view (cb (at n fd))) r f' dm \<and>
     delivered h (fd_id (at n fd)) (rcv_view (cb (at n fd))) bs r f' q'"
proof -
  define f V where "f = at n fd" and "V = rcv_view (cb f)"
  obtain pr c q where pa: "parse_again (\<lambda>b _. h b) f (cb f) (recvq n) = (pr, c, q)"
    by (cases "parse_again (\<lambda>b _. h b) f (cb f) (recvq n)") auto
  have post: "parse_post h f (cb f) bs pr c q"
    using parse_again_post [OF _ _ assms(4) pa] assms(1,3) by (simp add: f_def)
  then obtain k where k: "holds q (bs @ map (msg_block f) (take k (fst (frames h V))))"
      "if pr = Queue_full then k < length (fst (frames h V)) else k = length (fst (frames h V))"
    unfolding parse_post_def V_def by blast
  have dlv: "delivered h (fd_id f) V bs r f' q" if "\<not> stuck r f' \<Longrightarrow> pr \<noteq> Queue_full" for r f'
    using that k(2) by (intro deliveredI [OF k(1)]) auto
  have so: "same_out f (f\<lparr>cb := c\<rparr>)" "same_out f (f\<lparr>cb := rewind 0 c\<rparr>)"
    using post by (auto simp: same_out_def parse_post_def)
  note rp = run_parse_cases [OF pa [unfolded f_def] assms(2,5)]
  have valid: "CN_VALID \<in> flag f" using assms(5) by (simp add: closable_def f_def)
  have "\<exists>r f' dm. run_parse (\<lambda>b _. h b) n fd = Some (r, with_entry n fd f' dm q) \<and>
      entry_post h f V r f' dm \<and> delivered h (fd_id f) V bs r f' q"
  proof (cases pr)
    case Parsed
    from post Parsed have ok: "rcv_ok h c" and inc: "snd (frames h V) = Incomplete (rcv_view c)"
      and room: "recvlen c < rcvbufsz c \<or> int (recvlen c) < rcvprotlen c"
      by (auto simp: parse_post_def V_def)
    have "conn_ok h (rewind 0 c)"
      using rewind_ok [OF ok] frames_incomplete_idem [OF inc] room by (auto simp: conn_ok_def)
    then have "entry_post h f V 0 (f\<lparr>cb := rewind 0 c\<rparr>) 0"
      using so inc rewind_ok [OF ok] by (simp add: entry_post_def)
    moreover have "run_parse (\<lambda>b _. h b) n fd =
        Some (0, with_entry n fd (f\<lparr>cb := rewind 0 c\<rparr>) 0 q)"
      using rp Parsed by (simp add: set_cb_with_entry f_def)
    ultimately show ?thesis using dlv [of 0 "f\<lparr>cb := rewind 0 c\<rparr>"] Parsed by auto
  next
    case Queue_full
    have "entry_post h f V (-1) (f\<lparr>cb := c\<rparr>) 0" "stuck (-1) (f\<lparr>cb := c\<rparr>)"
      using so valid by (simp_all add: entry_post_def stuck_def)
    moreover have "run_parse (\<lambda>b _. h b) n fd = Some (-1, with_entry n fd (f\<lparr>cb := c\<rparr>) 0 q)"
      using rp Queue_full by (simp add: set_cb_with_entry f_def)
    ultimately show ?thesis using dlv [of "-1" "f\<lparr>cb := c\<rparr>"] by auto
  next
    case Invalid
    with rp have "run_parse (\<lambda>b _. h b) n fd = Some (-1, with_entry n fd zero_fdinfo 1 q)"
      by (simp add: closed_with_entry [OF assms(5)])
    with dlv [of "-1" zero_fdinfo] Invalid show ?thesis by (auto simp: entry_post_def)
  next
    case Too_big
    with rp have "run_parse (\<lambda>b _. h b) n fd = Some (-1, with_entry n fd zero_fdinfo 1 q)"
      by (simp add: closed_with_entry [OF assms(5)])
    with dlv [of "-1" zero_fdinfo] Too_big show ?thesis by (auto simp: entry_post_def)
  qed
  then show ?thesis unfolding f_def V_def by blast
qed

lemma in_ok_step:
  assumes "framer h" "in_ok h n blks" "tcp_conn n fd"
    and n': "fdinfo n' = (fdinfo n)(fd := f')" "next_id n' = next_id n" "wire_out n' = wire_out n"
      "wire_in n' = (wire_in n)(fd_id (at n fd) := wire_in n (fd_id (at n fd)) @ got)"
    and f': "f' = zero_fdinfo \<or> same_out (at n fd) f' \<and> conn_ok h (cb f') \<and>
        snd (frames h (rcv_view (cb (at n fd)) @ got)) = Incomplete (rcv_view (cb f'))"
    and new: "\<forall>b \<in> set new. blk_id (fst b) = fd_id (at n fd)"
      "map snd new = fst (frames h (rcv_view (cb (at n fd)) @ got))"
  shows "in_ok h n' (blks @ new)"
proof -
  define i where "i = fd_id (at n fd)"
  have ids: "ids_ok n" and valid: "CN_VALID \<in> flag (at n fd)"
    using assms(2,3) by (simp_all add: in_ok_def tcp_conn_def)
  have inc: "snd (frames h (wire_in n i)) = Incomplete (rcv_view (cb (at n fd)))"
    using assms(2,3) by (simp add: in_ok_def i_def)
  note fr = framer.frames_append [OF assms(1) inc, of got]
  have w: "wire_in n' = (wire_in n)(i := wire_in n i @ got)" using n'(4) by (simp add: i_def)
  have flag: "CN_VALID \<in> flag (at n' x) \<Longrightarrow>
      CN_VALID \<in> flag (at n x) \<and> fd_id (at n' x) = fd_id (at n x)" for x
    using f' n'(1) by (cases "x = fd") (auto simp: same_out_def)
  have "i < next_id n" using ids valid by (simp add: ids_ok_def i_def)
  then have ids': "ids_ok n'"
    using ids flag unfolding ids_ok_def n'(2,3) w by (auto simp: fun_upd_apply)
  have sent: "sent_for j (blks @ new) = fst (frames h (wire_in n' j))" for j
  proof -
    have "sent_for j blks = fst (frames h (wire_in n j))" using assms(2) by (simp add: in_ok_def)
    then show ?thesis using fr sent_for_own [OF new(1), of j] new(2) w by (auto simp: i_def)
  qed
  have conn: "conn_ok h (cb (at n' x)) \<and>
      snd (frames h (wire_in n' (fd_id (at n' x)))) = Incomplete (rcv_view (cb (at n' x)))"
    if t: "tcp_conn n' x" for x
  proof (cases "x = fd")
    case True
    with t n'(1) have "f' \<noteq> zero_fdinfo" by (auto simp: tcp_conn_def)
    with f' True n'(1) w fr show ?thesis by (auto simp: same_out_def i_def)
  next
    case False
    with t n'(1) have tx: "tcp_conn n x" "at n' x = at n x" by (auto simp: tcp_conn_def)
    with False ids valid have "fd_id (at n x) \<noteq> i"
      unfolding ids_ok_def i_def tcp_conn_def by blast
    with tx assms(2) w show ?thesis by (simp add: in_ok_def)
  qed
  show ?thesis unfolding in_ok_def using ids' sent conn by blast
qed

lemma tcp_conn_closable: "tcp_conn n fd \<Longrightarrow> closable n fd"
  by (simp add: tcp_conn_def closable_def)

text \<open>What a round does to the table: at most the one entry, which is cleared or keeps its
  sending side.\<close>

definition touches :: "net \<Rightarrow> int \<Rightarrow> int \<Rightarrow> net \<Rightarrow> bool" where
  "touches n fd r n' \<longleftrightarrow>
     (\<exists>f' dm got. fdinfo n' = (fdinfo n)(fd := f') \<and> maxfd n' = maxfd n - dm \<and>
        next_id n' = next_id n \<and> wire_out n' = wire_out n \<and>
        wire_in n' = (wire_in n)(fd_id (at n fd) := wire_in n (fd_id (at n fd)) @ got) \<and>
        (f' = zero_fdinfo \<and> r = -1 \<and> dm = 1 \<or> same_out (at n fd) f' \<and> dm = 0))"

lemma run_recv_post:
  assumes "framer h" "in_ok h n (gone @ bs)" "holds (recvq n) bs" "tcp_conn n fd" "0 < bufsz"
  shows "\<exists>r n' new. run_recv (\<lambda>b _. h b) bufsz alloc n fd rs now = Some (r, n') \<and>
     touches n fd r n' \<and> holds (recvq n') (bs @ new) \<and>
     (\<not> stuck r (at n' fd) \<longrightarrow> in_ok h n' (gone @ bs @ new))"
proof -
  define c c1 where "c = cb (at n fd)" and "c1 = read_buf bufsz c"
  have ok: "conn_ok h c" using assms(2,4) by (simp add: in_ok_def c_def)
  note rb = read_buf_ok [OF ok assms(5), folded c1_def]
  obtain r0 got where rx: "safe_tcp_recv rs (rcvbufsz c1 - recvlen c) = (r0, got)" by fastforce
  note rd = do_read_conn_ok [OF ok [unfolded c_def] assms(5) rx [unfolded c1_def c_def],
      of alloc now, folded c_def, folded c1_def]
  note data = safe_tcp_recv_data [OF rx]
  show ?thesis
  proof (cases "r0 > 0 \<and> \<not> (\<not> alloc \<and> (rcvbufsz c = 0 \<or> int (rcvbufsz c) < rcvprotlen c))")
    case False
    obtain r1 c2 where r1: "do_read_conn bufsz alloc n fd rs now = Some (r1, set_cb fd c2 n)"
      "r1 \<le> 0" "recvptr c2 = 0"
    proof -
      consider "do_read_conn bufsz alloc n fd rs now = Some (-1, n)"
        | "do_read_conn bufsz alloc n fd rs now = Some (r0, set_cb fd c1 n)" "r0 \<le> 0"
        using rd False by (auto simp: set_cb_def split: if_splits)
      then show thesis
      proof cases
        case 1
        have "set_cb fd c n = n" by (simp add: set_cb_def upd_def c_def)
        with 1 that [of "-1" c] ok show ?thesis by (simp add: conn_ok_def)
      next
        case 2
        with that rb show ?thesis by blast
      qed
    qed
    have cl: "do_close_conn (set_cb fd c2 n) fd = Some (closed n fd)"
      using do_close_conn_closed [of "set_cb fd c2 n" fd] r1(3) tcp_conn_closable [OF assms(4)]
      by simp
    have cn: "closed n fd = with_entry n fd zero_fdinfo 1 (recvq n)"
      using closed_with_entry [OF tcp_conn_closable [OF assms(4)], of "recvq n"] by simp
    have "in_ok h (closed n fd) ((gone @ bs) @ [])"
      by (rule in_ok_step [OF assms(1,2,4), where got = "[]" and f' = zero_fdinfo])
         (use ok in \<open>auto simp: cn with_entry_def conn_ok_def c_def\<close>)
    moreover have "touches n fd (-1) (closed n fd)"
      unfolding touches_def
      by (intro exI [where x = zero_fdinfo] exI [where x = 1] exI [where x = "[]"])
         (auto simp: cn with_entry_def)
    ultimately show ?thesis using r1(1,2) cl assms(3)
      by (intro exI [where x = "-1"] exI [where x = "closed n fd"] exI [where x = "[]"])
         (simp add: run_recv_def)
  next
    case True
    define n1 where "n1 = upd fd (\<lambda>f. f\<lparr>cb := filled got c1, sk := (sk f)\<lparr>recvtm := now\<rparr>\<rparr>)
        (off_wire (fd_id (at n fd)) got n)"
    have r1: "do_read_conn bufsz alloc n fd rs now = Some (r0, n1)"
      using rd True by (simp add: n1_def)
    have len: "recvlen c1 + length got \<le> rcvbufsz c1" using data rb(4,6) by linarith
    have "rcvprotlen c1 \<noteq> 0 \<longrightarrow> recvlen c1 > 0" using ok rb by (auto simp: conn_ok_def rcv_ok_def)
    note fl = filled_ok [OF assms(1) rb(1,2) len this]
    have n1: "at n1 fd = (at n fd)\<lparr>cb := filled got c1, sk := (sk (at n fd))\<lparr>recvtm := now\<rparr>\<rparr>"
      "recvq n1 = recvq n" by (simp_all add: n1_def)
    have "0 < length got" using True data by auto
    then obtain r f' dm q' where rp: "run_parse (\<lambda>b _. h b) n1 fd = Some (r, with_entry n1 fd f' dm q')"
      and ep: "entry_post h (at n1 fd) (rcv_view (cb (at n1 fd))) r f' dm"
      and dl: "delivered h (fd_id (at n1 fd)) (rcv_view (cb (at n1 fd))) bs r f' q'"
      using run_parse_post [of h n1 fd bs] fl n1 assms(3) tcp_conn_closable [OF assms(4)]
      by (auto simp: closable_def)
    have view: "rcv_view (cb (at n1 fd)) = rcv_view c @ got" using n1 fl rb by simp
    have frame: "sndbufsz c1 = sndbufsz c \<and> sendlen c1 = sendlen c \<and> sendptr c1 = sendptr c"
      by (simp add: c1_def read_buf_def)
    have so: "same_out (at n fd) f'" if "same_out (at n1 fd) f'"
      using that frame by (simp add: same_out_def n1 filled_def c_def)
    from dl obtain new where new: "holds q' (bs @ new)" "\<forall>b \<in> set new. blk_id (fst b) = fd_id (at n fd)"
      "\<not> stuck r f' \<longrightarrow> map snd new = fst (frames h (rcv_view c @ got))"
      unfolding delivered_def view by (auto simp: n1)
    have n': "fdinfo (with_entry n1 fd f' dm q') = (fdinfo n)(fd := f')"
      "next_id (with_entry n1 fd f' dm q') = next_id n"
      "wire_out (with_entry n1 fd f' dm q') = wire_out n" "recvq (with_entry n1 fd f' dm q') = q'"
      "wire_in (with_entry n1 fd f' dm q') =
         (wire_in n)(fd_id (at n fd) := wire_in n (fd_id (at n fd)) @ got)"
      "maxfd (with_entry n1 fd f' dm q') = maxfd n - dm"
      by (auto simp: with_entry_def n1_def upd_def off_wire_def)
    have t: "touches n fd r (with_entry n1 fd f' dm q')"
      using ep so n' unfolding touches_def entry_post_def by blast
    have "in_ok h (with_entry n1 fd f' dm q') ((gone @ bs) @ new)" if "\<not> stuck r f'"
      by (rule in_ok_step [OF assms(1,2,4) n'(1,2,3,5)])
         (use ep so new that view in \<open>auto simp: entry_post_def c_def\<close>)
    then show ?thesis using r1 rp True t new(1) n'
      by (intro exI [where x = r] exI [where x = "with_entry n1 fd f' dm q'"] exI [where x = new])
         (simp add: run_recv_def)
  qed
qed

section \<open>Accepting a connection\<close>

definition fresh_entry :: "net \<Rightarrow> fdinfo \<Rightarrow> bool" where
  "fresh_entry n f \<longleftrightarrow>
     flag f = {CN_VALID} \<and> fd_id f = next_id n \<and> rcvbufsz (cb f) = 0 \<and> rcvprotlen (cb f) = 0 \<and>
     recvlen (cb f) = 0 \<and> recvptr (cb f) = 0 \<and> rcvmem (cb f) = []"

definition opens :: "net \<Rightarrow> int \<Rightarrow> net \<Rightarrow> bool" where
  "opens n fd n' \<longleftrightarrow>
     (\<exists>f' dm sent. fdinfo n' = (fdinfo n)(fd := f') \<and> maxfd n' = maxfd n + dm \<and>
        recvq n' = recvq n \<and> next_id n' = next_id n + 1 \<and> wire_in n' = wire_in n \<and>
        wire_out n' = (wire_out n)(next_id n := wire_out n (next_id n) @ sent) \<and>
        (f' = zero_fdinfo \<and> dm = 0 \<or> fresh_entry n f' \<and> dm = 1))"

lemma fresh_entry_conn_ok: "fresh_entry n f \<Longrightarrow> conn_ok h (cb f)" "fresh_entry n f \<Longrightarrow> rcv_view (cb f) = []"
  by (simp_all add: fresh_entry_def conn_ok_def rcv_ok_def rcv_view_def)

lemma in_ok_opens:
  assumes "in_ok h n blks" "opens n fd n'" "CN_VALID \<notin> flag (at n fd)"
  shows "in_ok h n' blks"
proof -
  obtain f' dm sent where n': "fdinfo n' = (fdinfo n)(fd := f')" "next_id n' = next_id n + 1"
    "wire_in n' = wire_in n" "wire_out n' = (wire_out n)(next_id n := wire_out n (next_id n) @ sent)"
    and f': "f' = zero_fdinfo \<or> fresh_entry n f'"
    using assms(2) unfolding opens_def by blast
  have ids: "ids_ok n" using assms(1) by (simp add: in_ok_def)
  have lt: "CN_VALID \<in> flag (at n x) \<Longrightarrow> fd_id (at n x) < next_id n" for x
    using ids by (simp add: ids_ok_def)
  have valid: "x = fd \<and> fd_id (at n' x) = next_id n \<or>
      x \<noteq> fd \<and> CN_VALID \<in> flag (at n x) \<and> fd_id (at n' x) = fd_id (at n x)"
    if "CN_VALID \<in> flag (at n' x)" for x
    using that f' n'(1) by (cases "x = fd") (auto simp: fresh_entry_def)
  have "fd_id (at n' x) < next_id n'" if "CN_VALID \<in> flag (at n' x)" for x
    using valid [OF that] lt [of x] n'(2) by auto
  moreover have "x = y"
    if "CN_VALID \<in> flag (at n' x)" "CN_VALID \<in> flag (at n' y)" "fd_id (at n' x) = fd_id (at n' y)" for x y
    using valid [OF that(1)] valid [OF that(2)] that(3) lt [of x] lt [of y] ids
    unfolding ids_ok_def by auto
  moreover have "\<forall>i \<ge> next_id n'. wire_in n' i = [] \<and> wire_out n' i = []"
    using ids by (simp add: n' ids_ok_def)
  ultimately have "ids_ok n'" unfolding ids_ok_def by blast
  moreover have "conn_ok h (cb (at n' x)) \<and>
      snd (frames h (wire_in n' (fd_id (at n' x)))) = Incomplete (rcv_view (cb (at n' x)))"
    if t: "tcp_conn n' x" for x
  proof (cases "x = fd")
    case True
    with t n'(1) have "f' \<noteq> zero_fdinfo" by (auto simp: tcp_conn_def)
    with f' have fr: "fresh_entry n f'" by simp
    have "wire_in n (next_id n) = []" using ids by (simp add: ids_ok_def)
    with fr True n'(1,3) fresh_entry_conn_ok(1) [OF fr, of h] fresh_entry_conn_ok(2) [OF fr]
    show ?thesis by (simp add: fresh_entry_def)
  next
    case False
    with t n' assms(1) show ?thesis by (simp add: in_ok_def tcp_conn_def)
  qed
  ultimately show ?thesis using assms(1) n'(3) by (simp add: in_ok_def)
qed

text \<open>Whatever a greeting is, a round on a listener opens at most the one connection.\<close>

lemma run_accept_post:
  assumes "run_accept ho n fd acc ts now = Some (r, n')" "CN_LISTEN \<in> flag (at n fd)"
    "fd \<noteq> fst acc"
  shows "n' = n \<or> opens n (fst acc) n'"
proof -
  obtain newfd n1 where op: "do_open_conn n fd acc now = (newfd, n1)" by fastforce
  show ?thesis
  proof (cases "newfd > 0")
    case False
    with assms(1) op show ?thesis by (simp add: run_accept_def)
  next
    case True
    note o = do_open_conn_sel [OF op True]
    have newfd: "newfd = fst acc" using op by (auto simp: do_open_conn_def Let_def split: prod.splits if_splits)
    have tab: "(fdinfo n1)(newfd := f) = (fdinfo n)(newfd := f)" for f
      using o(6) by auto
    have tab1: "fdinfo n1 = (fdinfo n)(newfd := at n1 newfd)"
      using tab [of "at n1 newfd"] by simp
    have opened: "opens n newfd m" if "fdinfo m = (fdinfo n1)(newfd := f)" "fresh_entry n f"
        "maxfd m = maxfd n1" "recvq m = recvq n1" "next_id m = next_id n1" "wire_in m = wire_in n1"
        "wire_out m = (wire_out n1)(next_id n := wire_out n1 (next_id n) @ sent)" for m f sent
      unfolding opens_def using that o tab
      by (intro exI [where x = f] exI [where x = 1] exI [where x = sent]) simp
    have fresh: "fresh_entry n (at n1 newfd)" using o by (simp add: fresh_entry_def)
    have fresh': "fresh_entry n (at n1 newfd\<lparr>cb := (cb (at n1 newfd))\<lparr>sendptr := sp, sendlen := sl,
        sndbufsz := sb\<rparr>\<rparr>)" for sp sl sb
      using fresh by (simp add: fresh_entry_def)
    have plain: "opens n newfd n1"
      using opened [of n1 "at n1 newfd" "[]"] fresh by (simp add: fun_upd_idem)
    have shut: "do_close_conn n1 newfd = Some (closed n1 newfd)" "opens n newfd (closed n1 newfd)"
    proof -
      show "do_close_conn n1 newfd = Some (closed n1 newfd)"
        by (rule do_close_conn_closed) (simp add: o)
      have "closable n1 newfd" using o by (simp add: closable_def)
      then show "opens n newfd (closed n1 newfd)"
        unfolding opens_def using o tab
        by (intro exI [where x = zero_fdinfo] exI [where x = 0] exI [where x = "[]"])
           (simp add: closed_def)
    qed
    show ?thesis
    proof (cases ho)
      case None
      with assms(1) op True plain newfd show ?thesis by (simp add: run_accept_def)
    next
      case (Some greeter)
      obtain r0 greet len where g: "greeter (sk (at n1 newfd)) = (r0, greet, len)"
        by (cases "greeter (sk (at n1 newfd))") auto
      show ?thesis
      proof (cases "r0 = -1 \<or> len < 0 \<or> len > RCVBUFMAX \<or> len = 0")
        case t: True
        with assms(1) op True Some g shut plain newfd show ?thesis
          by (auto simp: run_accept_def split: if_splits)
      next
        case False
        obtain sb sent where st: "safe_tcp_send_n ts (rd 0 (nat len) greet) = (sb, sent)" by fastforce
        define n2 where "n2 = on_wire (next_id n) sent (upd newfd (\<lambda>f. f\<lparr>cb := (cb f)\<lparr>sendptr := Some greet,
            sendlen := nat len, sndbufsz := nat len\<rparr>\<rparr>) n1)"
        define n3 where "n3 = upd newfd (\<lambda>f. f\<lparr>cb := (cb f)\<lparr>sendlen := nat len - nat sb\<rparr>\<rparr>) n2"
        have "at n2 fd = at n fd"
          using assms(3) newfd o(6) [of fd] by (simp add: n2_def)
        then have "do_close_conn n2 fd = Some n2"
          using assms(2) by (simp add: do_close_conn_def)
        with assms(1) op True Some g False st have "n' = n2 \<or> n' = n3"
          by (auto simp: run_accept_def n2_def n3_def Let_def o split: if_splits)
        moreover have "opens n newfd n2"
          by (rule opened [OF _ fresh' [where sp = "Some greet" and sl = "nat len" and sb = "nat len"]])
             (auto simp: n2_def upd_def on_wire_def)
        moreover have "opens n newfd n3"
          by (rule opened [OF _ fresh' [where sp = "Some greet" and sl = "nat len - nat sb" and sb = "nat len"]])
             (auto simp: n3_def n2_def upd_def on_wire_def)
        ultimately show ?thesis using newfd by auto
      qed
    qed
  qed
qed

end
