(* ===== verification/NetOut.thy ===== *)
theory NetOut
  imports NetIn
begin

text \<open>
  The sending side of the connection process (\<^verbatim>\<open>net.c\<close>: \<^verbatim>\<open>schedule_output\<close>,
  \<^verbatim>\<open>send_udp_block\<close>, and the sweep of \<^verbatim>\<open>net_loop\<close> that flushes, closes and times out).
  Proved: what the kernel got on a connection, followed by what is still in its send buffer,
  is exactly the data of the blocks scheduled for it, in order.
\<close>

definition MAXFDS :: int where
  "MAXFDS = 100000"

section \<open>Scheduling a block\<close>

definition send_udp_block :: "net \<Rightarrow> slot \<Rightarrow> bool \<Rightarrow> int \<times> net" where
  "send_udp_block n s sendto_ok =
     (let data_len = blk_len (fst s) - shm_block_sz
      in if data_len = 0 then (0, n)
         else if data_len < 0 \<or> data_len > RCVBUFMAX then (-1, n)
         else if \<not> sendto_ok then (-1, n)
         else (0, n\<lparr>dgrams := dgrams n @
                [((remote_ip (blk_sk (fst s)), remote_port (blk_sk (fst s))), snd s)]\<rparr>))"

text \<open>First what an earlier block left in the buffer: \<open>None\<close> when the send failed.\<close>

definition linger_send :: "net \<Rightarrow> int \<Rightarrow> tx list \<Rightarrow> bool \<times> net" where
  "linger_send n fd ts =
     (let c = cb (at n fd)
      in if sendlen c > 0 then
           (let (send_bytes, sent) = send_pending ts c;
                n1 = on_wire (fd_id (at n fd)) sent n
            in if send_bytes < 0 then (False, n1)
               else if send_bytes \<le> int (sendlen c) \<and> send_bytes > 0
               then (True, set_cb fd (shift_out (nat send_bytes) c) n1)
               else (True, n1))
         else (True, n))"

text \<open>The block's data, sent directly when nothing is waiting before it.\<close>

definition block_send :: "net \<Rightarrow> int \<Rightarrow> byte list \<Rightarrow> tx list \<Rightarrow> int \<times> net" where
  "block_send n fd data ts =
     (if sendlen (cb (at n fd)) = 0 \<and> length data > 0 then
        (let (send_bytes, sent) = safe_tcp_send_n ts data
         in (send_bytes, on_wire (fd_id (at n fd)) sent n))
      else (0, n))"

text \<open>The unsent rest goes to the end of the send buffer, which grows when it must.\<close>

definition merge_buffer :: "bool \<Rightarrow> byte list \<Rightarrow> conn_buf \<Rightarrow> (int \<times> conn_buf) option" where
  "merge_buffer alloc_ok rest c =
     (let need = sendlen c + length rest;
          grown =
            (if sndbufsz c = 0 then
               if \<not> alloc_ok then Inl (c\<lparr>sendptr := None\<rparr>)
               else Inr (c\<lparr>sendptr := Some (malloc_mem (length rest)), sndbufsz := length rest\<rparr>)
             else if sndbufsz c < need then
               if \<not> alloc_ok then Inl (c\<lparr>sendptr := None\<rparr>)
               else Inr (c\<lparr>sendptr :=
                             (case sendptr c of
                                None \<Rightarrow> Some (malloc_mem need)
                              | Some m \<Rightarrow> Some (realloc_mem m need)),
                           sndbufsz := need\<rparr>)
             else Inr c)
      in case grown of
           Inl c1 \<Rightarrow> Some (-1, c1)
         | Inr c1 \<Rightarrow>
             (case sendptr c1 of
                None \<Rightarrow> None
              | Some m \<Rightarrow>
                  if sendlen c1 + length rest > length m then None
                  else Some (0, c1\<lparr>sendptr := Some (wr (sendlen c1) rest m),
                                   sendlen := sendlen c1 + length rest\<rparr>)))"

definition close_failed :: "net \<Rightarrow> int \<Rightarrow> (int \<times> net) option" where
  "close_failed n fd =
     (case do_close_conn n fd of None \<Rightarrow> None | Some n1 \<Rightarrow> Some (-1, n1))"

text \<open>\<open>ts\<close> and \<open>ts'\<close> are the kernel's answers to the two batches of \<open>send\<close> calls.\<close>

definition schedule_output ::
  "bool \<Rightarrow> net \<Rightarrow> slot \<Rightarrow> tx list \<Rightarrow> tx list \<Rightarrow> bool \<Rightarrow> (int \<times> net) option" where
  "schedule_output alloc_ok n s ts ts' sendto_ok =
     (let mb = fst s; fd = sockfd (blk_sk mb)
      in if blk_typ mb = PAD_BLOCK \<or> fd \<ge> MAXFDS then Some (-1, n)
         else if CN_VALID \<notin> flag (at n fd) \<or> blk_id mb \<noteq> fd_id (at n fd) then Some (-1, n)
         else
           let n1 = (if blk_typ mb = FIN_BLOCK \<and> CN_LISTEN \<notin> flag (at n fd)
                     then upd fd (\<lambda>f. f\<lparr>flag := insert CN_FIN (flag f)\<rparr>) n else n)
           in if CN_UDP \<in> flag (at n1 fd) then Some (send_udp_block n1 s sendto_ok)
              else
                case linger_send n1 fd ts of
                  (False, n2) \<Rightarrow> close_failed n2 fd
                | (True, n2) \<Rightarrow>
                    (case block_send n2 fd (snd s) ts' of (send_bytes, n3) \<Rightarrow>
                       if send_bytes < 0 then close_failed n3 fd
                       else if int (length (snd s)) > send_bytes then
                         (case merge_buffer alloc_ok (drop (nat send_bytes) (snd s)) (cb (at n3 fd)) of
                            None \<Rightarrow> None
                          | Some (r, c) \<Rightarrow> Some (r, set_cb fd c n3))
                       else Some (0, n3)))"

section \<open>The sweep over the table\<close>

text \<open>
  After the events of a round every live entry is visited: \<open>j\<close> counts the visited ones, and
  the walk runs until \<open>j\<close> reaches \<open>maxfd\<close>, which closing a connection lowers. Reading the
  table past its \<open>MAXFDS\<close> entries is undefined.
\<close>

definition visit :: "int \<Rightarrow> (int \<Rightarrow> tx list) \<Rightarrow> (int \<Rightarrow> int) \<Rightarrow> net \<Rightarrow> int \<Rightarrow> net option" where
  "visit current_tsc tx now n pos =
     (if CN_LISTEN \<notin> flag (at n pos) \<and> CN_PIPE \<notin> flag (at n pos) then
        if sendlen (cb (at n pos)) > 0 then
          (case do_write_conn n pos (tx pos) (now pos) of (r, n1) \<Rightarrow>
             if r = -1 then do_close_conn n1 pos else do_check_conn current_tsc n1 pos)
        else do_check_conn current_tsc n pos
      else Some n)"

function sweep ::
  "int \<Rightarrow> (int \<Rightarrow> tx list) \<Rightarrow> (int \<Rightarrow> int) \<Rightarrow> int \<Rightarrow> int \<Rightarrow> net \<Rightarrow> net option" where
  "sweep current_tsc tx now pos j n =
     (if j \<ge> maxfd n then Some n
      else if pos \<ge> MAXFDS then None
      else if CN_VALID \<notin> flag (at n pos) then sweep current_tsc tx now (pos + 1) j n
      else case visit current_tsc tx now n pos of
          None \<Rightarrow> None
        | Some n1 \<Rightarrow> sweep current_tsc tx now (pos + 1) (j + 1) n1)"
  by pat_completeness auto
termination
  by (relation "measure (\<lambda>(c, tx, now, pos, j, n). nat (MAXFDS - pos))") auto

declare sweep.simps [simp del]

section \<open>A round of the connection process\<close>

datatype ep_event = Ep_in | Ep_hup_err | Ep_none

text \<open>One event of the round: the pipe only wakes the loop, a connection being finished
  reads no more, an error closes.\<close>

definition on_event ::
  "handle_input \<Rightarrow> handle_open option \<Rightarrow> nat \<Rightarrow> (int \<Rightarrow> answers) \<Rightarrow> net \<Rightarrow> int \<times> ep_event \<Rightarrow> net option"
where
  "on_event h ho bufsz env n ev =
     (case ev of (fd, e) \<Rightarrow>
        if CN_PIPE \<in> flag (at n fd) then Some n
        else if CN_FIN \<in> flag (at n fd) then Some n
        else if e = Ep_hup_err then do_close_conn n fd
        else if e = Ep_in then
          (case run_once h ho bufsz n fd (env fd) of None \<Rightarrow> None | Some (_, n1) \<Rightarrow> Some n1)
        else Some n)"

fun on_events ::
  "handle_input \<Rightarrow> handle_open option \<Rightarrow> nat \<Rightarrow> (int \<Rightarrow> answers) \<Rightarrow> net \<Rightarrow> (int \<times> ep_event) list \<Rightarrow>
   net option" where
  "on_events h ho bufsz env n [] = Some n"
| "on_events h ho bufsz env n (ev # evs) =
     (case on_event h ho bufsz env n ev of
        None \<Rightarrow> None
      | Some n1 \<Rightarrow> on_events h ho bufsz env n1 evs)"

definition net_loop ::
  "handle_input \<Rightarrow> handle_open option \<Rightarrow> nat \<Rightarrow> int \<Rightarrow> (int \<Rightarrow> answers) \<Rightarrow> net \<Rightarrow>
   (int \<times> ep_event) list \<Rightarrow> net option" where
  "net_loop h ho bufsz current_tsc env n evs =
     (case on_events h ho bufsz env n evs of
        None \<Rightarrow> None
      | Some n1 \<Rightarrow> sweep current_tsc (\<lambda>fd. a_send (env fd)) (\<lambda>fd. a_now (env fd)) 0 0 n1)"

text \<open>The replies waiting in the send queue are scheduled before the events are handled
  (\<^verbatim>\<open>conn_loop\<close> in \<^verbatim>\<open>dispatcher.c\<close>). \<open>answers\<close> holds what the kernel answers for each block;
  it bounds the loop, which ends when the queue is empty.\<close>

fun drain_sendq ::
  "(bool \<times> tx list \<times> tx list \<times> bool) list \<Rightarrow> shm_queue \<Rightarrow> net \<Rightarrow> (shm_queue \<times> net) option" where
  "drain_sendq [] q n = Some (q, n)"
| "drain_sendq ((alloc, ts, ts', dg) # as) q n =
     (case pop_now q of
        (None, q1) \<Rightarrow> Some (q1, n)
      | (Some s, q1) \<Rightarrow>
          (case schedule_output alloc n s ts ts' dg of
             None \<Rightarrow> None
           | Some (_, n1) \<Rightarrow> drain_sendq as q1 n1))"

definition conn_round ::
  "handle_input \<Rightarrow> handle_open option \<Rightarrow> nat \<Rightarrow> int \<Rightarrow> (int \<Rightarrow> answers) \<Rightarrow>
   (bool \<times> tx list \<times> tx list \<times> bool) list \<Rightarrow> (int \<times> ep_event) list \<Rightarrow> shm_queue \<Rightarrow> net \<Rightarrow>
   (shm_queue \<times> net) option" where
  "conn_round h ho bufsz current_tsc env sched evs q n =
     (case drain_sendq sched q n of
        None \<Rightarrow> None
      | Some (q1, n1) \<Rightarrow>
          (case net_loop h ho bufsz current_tsc env n1 evs of
             None \<Rightarrow> None
           | Some n2 \<Rightarrow> Some (q1, n2)))"

section \<open>The send buffer\<close>

definition out_buf_ok :: "conn_buf \<Rightarrow> bool" where
  "out_buf_ok c \<longleftrightarrow>
     (case sendptr c of
        None \<Rightarrow> sndbufsz c = 0 \<and> sendlen c = 0
      | Some m \<Rightarrow> length m = sndbufsz c \<and> sendlen c \<le> sndbufsz c \<and> 0 < sndbufsz c)"

definition same_rcv :: "conn_buf \<Rightarrow> conn_buf \<Rightarrow> bool" where
  "same_rcv c c' \<longleftrightarrow>
     rcvbufsz c' = rcvbufsz c \<and> rcvprotlen c' = rcvprotlen c \<and> recvlen c' = recvlen c \<and>
     recvptr c' = recvptr c \<and> rcvmem c' = rcvmem c"

lemma same_rcv_refl [simp]: "same_rcv c c"
  by (simp add: same_rcv_def)

lemma same_rcv_trans: "same_rcv a b \<Longrightarrow> same_rcv b c \<Longrightarrow> same_rcv a c"
  by (simp add: same_rcv_def)

lemma pending_out_length [simp]: "out_buf_ok c \<Longrightarrow> length (pending_out c) = sendlen c"
  by (auto simp: out_buf_ok_def pending_out_def split: option.splits)

lemma send_pending_eq: "out_buf_ok c \<Longrightarrow> send_pending ts c = safe_tcp_send_n ts (pending_out c)"
  by (auto simp: out_buf_ok_def send_pending_def split: option.splits)

lemma pending_out_Nil: "sendlen c = 0 \<Longrightarrow> pending_out c = []"
  by (auto simp: pending_out_def split: option.splits)

lemma shift_out_ok:
  assumes "out_buf_ok c" "k \<le> sendlen c"
  shows "out_buf_ok (shift_out k c)" "pending_out (shift_out k c) = drop k (pending_out c)"
    "same_rcv c (shift_out k c)"
proof -
  show "out_buf_ok (shift_out k c)" "same_rcv c (shift_out k c)"
    using assms by (auto simp: out_buf_ok_def shift_out_def same_rcv_def split: option.splits)
  show "pending_out (shift_out k c) = drop k (pending_out c)"
  proof (cases "sendptr c")
    case None
    then show ?thesis by (simp add: shift_out_def pending_out_def)
  next
    case (Some m)
    with assms have "length (rd k (sendlen c - k) m) = sendlen c - k" "sendlen c - k \<le> length m"
      by (auto simp: out_buf_ok_def intro!: rd_length)
    with rd_wr_front [of "rd k (sendlen c - k) m" m] Some assms show ?thesis
      by (simp add: shift_out_def pending_out_def drop_rd out_buf_ok_def)
  qed
qed

lemma merge_buffer_ok:
  assumes "out_buf_ok c" "rest \<noteq> []"
  shows "\<exists>c'. merge_buffer True rest c = Some (0, c') \<and> out_buf_ok c' \<and>
     pending_out c' = pending_out c @ rest \<and> same_rcv c c'"
proof -
  have put: "out_buf_ok c'" "pending_out c' = rd 0 (sendlen c) m @ rest"
    if "sendlen c + length rest \<le> length m" "sendptr c' = Some (wr (sendlen c) rest m)"
      "sndbufsz c' = length m" "sendlen c' = sendlen c + length rest" for m c'
    using that rd_wr_after [of "sendlen c" rest m 0] assms(2)
    by (auto simp: out_buf_ok_def pending_out_def)
  show ?thesis
  proof (cases "sendptr c")
    case None
    with assms have c: "sndbufsz c = 0" "sendlen c = 0" by (auto simp: out_buf_ok_def)
    define c' where "c' = c\<lparr>sendptr := Some (wr 0 rest (malloc_mem (length rest))),
        sndbufsz := length rest, sendlen := length rest\<rparr>"
    have "merge_buffer True rest c = Some (0, c')"
      using None c by (simp add: merge_buffer_def Let_def c'_def)
    moreover have "out_buf_ok c'" "pending_out c' = pending_out c @ rest"
      using put [of "malloc_mem (length rest)" c'] None c by (simp_all add: c'_def pending_out_def)
    ultimately show ?thesis by (auto simp: same_rcv_def c'_def)
  next
    case (Some m)
    with assms(1) have c: "length m = sndbufsz c" "sendlen c \<le> sndbufsz c" "0 < sndbufsz c"
      by (auto simp: out_buf_ok_def)
    show ?thesis
    proof (cases "sndbufsz c < sendlen c + length rest")
      case True
      define m1 where "m1 = realloc_mem m (sendlen c + length rest)"
      define c' where "c' = c\<lparr>sendptr := Some (wr (sendlen c) rest m1),
          sndbufsz := sendlen c + length rest, sendlen := sendlen c + length rest\<rparr>"
      have "merge_buffer True rest c = Some (0, c')"
        using Some c True by (simp add: merge_buffer_def Let_def c'_def m1_def)
      moreover have "rd 0 (sendlen c) m1 = rd 0 (sendlen c) m"
        using c True by (simp add: m1_def rd_realloc)
      then have "out_buf_ok c'" "pending_out c' = pending_out c @ rest"
        using put [of m1 c'] Some by (simp_all add: c'_def pending_out_def m1_def)
      ultimately show ?thesis by (auto simp: same_rcv_def c'_def)
    next
      case False
      define c' where "c' = c\<lparr>sendptr := Some (wr (sendlen c) rest m), sendlen := sendlen c + length rest\<rparr>"
      have "merge_buffer True rest c = Some (0, c')"
        using Some c False by (simp add: merge_buffer_def Let_def c'_def)
      moreover have "out_buf_ok c'" "pending_out c' = pending_out c @ rest"
        using put [of m c'] Some c False by (simp_all add: c'_def pending_out_def)
      ultimately show ?thesis by (auto simp: same_rcv_def c'_def)
    qed
  qed
qed

section \<open>What a sending step does to its connection\<close>

definition same_in :: "fdinfo \<Rightarrow> fdinfo \<Rightarrow> bool" where
  "same_in f f' \<longleftrightarrow>
     fd_id f' = fd_id f \<and> accept_fd f' = accept_fd f \<and> timeout f' = timeout f \<and>
     (flag f' = flag f \<or> flag f' = insert CN_FIN (flag f)) \<and> same_rcv (cb f) (cb f')"

text \<open>\<open>sends n fd data n'\<close>: the step adds \<open>data\<close> to the outgoing stream of \<open>fd\<close>. Unless it
  closes the connection, the bytes given to the kernel and those left in the buffer are
  together the bytes that were waiting and the new data, in order.\<close>

definition sends :: "net \<Rightarrow> int \<Rightarrow> byte list \<Rightarrow> net \<Rightarrow> bool" where
  "sends n fd data n' \<longleftrightarrow>
     (\<exists>f' dm sent. fdinfo n' = (fdinfo n)(fd := f') \<and> maxfd n' = maxfd n - dm \<and>
        recvq n' = recvq n \<and> next_id n' = next_id n \<and> wire_in n' = wire_in n \<and>
        wire_out n' = (wire_out n)(fd_id (at n fd) := wire_out n (fd_id (at n fd)) @ sent) \<and>
        (f' = zero_fdinfo \<and> dm = 1 \<and> (\<exists>rest. sent @ rest = pending_out (cb (at n fd)) @ data) \<or>
         dm = 0 \<and> same_in (at n fd) f' \<and> out_buf_ok (cb f') \<and>
         sent @ pending_out (cb f') = pending_out (cb (at n fd)) @ data))"

lemma sends_open:
  assumes "fdinfo n' = (fdinfo n)(fd := f')" "maxfd n' = maxfd n" "recvq n' = recvq n"
    "next_id n' = next_id n" "wire_in n' = wire_in n"
    "wire_out n' = (wire_out n)(fd_id (at n fd) := wire_out n (fd_id (at n fd)) @ sent)"
    "same_in (at n fd) f'" "out_buf_ok (cb f')"
    "sent @ pending_out (cb f') = pending_out (cb (at n fd)) @ data"
  shows "sends n fd data n'"
  unfolding sends_def using assms
  by (intro exI [where x = f'] exI [where x = 0] exI [where x = sent]) simp

lemma sends_closed:
  assumes "fdinfo n' = (fdinfo n)(fd := zero_fdinfo)" "maxfd n' = maxfd n - 1" "recvq n' = recvq n"
    "next_id n' = next_id n" "wire_in n' = wire_in n"
    "wire_out n' = (wire_out n)(fd_id (at n fd) := wire_out n (fd_id (at n fd)) @ sent)"
    "sent @ rest = pending_out (cb (at n fd)) @ data"
  shows "sends n fd data n'"
  unfolding sends_def using assms
  by (intro exI [where x = zero_fdinfo] exI [where x = 1] exI [where x = sent]) auto

lemma sends_refl: "out_buf_ok (cb (at n fd)) \<Longrightarrow> sends n fd [] n"
  by (rule sends_open [where sent = "[]" and f' = "at n fd"])
     (auto simp: same_in_def fun_upd_idem)

lemma rcv_free: "conn_ok h c \<Longrightarrow> rcvbufsz c = 0 \<or> recvptr c = 0"
  by (simp add: conn_ok_def)

text \<open>Closing after some bytes went out.\<close>

lemma close_sends:
  assumes "fdinfo n1 = (fdinfo n)(fd := f1)" "maxfd n1 = maxfd n" "recvq n1 = recvq n"
    "next_id n1 = next_id n" "wire_in n1 = wire_in n"
    "wire_out n1 = (wire_out n)(fd_id (at n fd) := wire_out n (fd_id (at n fd)) @ sent)"
    "sent @ rest = pending_out (cb (at n fd)) @ data"
    "same_in (at n fd) f1" "tcp_conn n fd" "recvptr (cb (at n fd)) = 0"
  shows "\<exists>n'. do_close_conn n1 fd = Some n' \<and> sends n fd data n' \<and> CN_VALID \<notin> flag (at n' fd)"
proof -
  have cl: "closable n1 fd"
    using assms(1,8,9) by (auto simp: closable_def tcp_conn_def same_in_def)
  have "do_close_conn n1 fd = Some (closed n1 fd)"
    using assms(1,8,10) by (intro do_close_conn_closed) (simp add: same_in_def same_rcv_def)
  moreover have "sends n fd data (closed n1 fd)"
    by (rule sends_closed [where sent = sent and rest = rest])
       (use assms cl in \<open>auto simp: closed_def\<close>)
  ultimately show ?thesis using cl by (auto simp: closed_def)
qed

text \<open>Flushing part of the buffer.\<close>

lemma flush_cases:
  assumes "out_buf_ok c" "send_pending ts c = (r, sent)"
  obtains (failed) rest where "r = -1" "sent @ rest = pending_out c"
  | (partial) "r = int (length sent)" "length sent \<le> sendlen c"
      "sent @ drop (length sent) (pending_out c) = pending_out c"
proof -
  obtain rest where rest: "pending_out c = sent @ rest" "r = -1 \<or> r = int (length sent)"
    using safe_tcp_send_n_sent [of ts "pending_out c"] assms send_pending_eq by metis
  moreover have "length sent \<le> sendlen c"
    using rest(1) pending_out_length [OF assms(1)] by (metis length_append le_add1)
  ultimately show thesis using that by auto
qed

lemma do_write_conn_post:
  assumes "out_buf_ok (cb (at n fd))" "do_write_conn n fd ts now = (r, n1)"
  shows "\<exists>f1 sent rest. fdinfo n1 = (fdinfo n)(fd := f1) \<and> maxfd n1 = maxfd n \<and> recvq n1 = recvq n \<and>
    next_id n1 = next_id n \<and> wire_in n1 = wire_in n \<and>
    wire_out n1 = (wire_out n)(fd_id (at n fd) := wire_out n (fd_id (at n fd)) @ sent) \<and>
    same_in (at n fd) f1 \<and> sent @ rest = pending_out (cb (at n fd)) \<and>
    (r \<noteq> -1 \<longrightarrow> out_buf_ok (cb f1) \<and> rest = pending_out (cb f1))"
proof -
  let ?c = "cb (at n fd)"
  obtain r0 sent where s: "send_pending ts ?c = (r0, sent)" by fastforce
  from assms(2) s have r: "r = r0" and n1: "n1 = (if r0 > 0 then
      upd fd (\<lambda>f. f\<lparr>cb := (if r0 = int (sendlen ?c) then ?c\<lparr>sendlen := 0\<rparr> else shift_out (nat r0) ?c),
                    sk := (sk f)\<lparr>sendtm := now\<rparr>\<rparr>) (on_wire (fd_id (at n fd)) sent n)
      else on_wire (fd_id (at n fd)) sent n)"
    by (auto simp: do_write_conn_def Let_def split: if_splits)
  from assms(1) s show ?thesis
  proof (cases rule: flush_cases)
    case (failed rest)
    with n1 r show ?thesis
      by (intro exI [where x = "at n fd"] exI [where x = sent] exI [where x = rest])
         (auto simp: same_in_def fun_upd_idem)
  next
    case partial
    show ?thesis
    proof (cases "r0 > 0")
      case False
      with partial n1 assms(1) show ?thesis
        by (intro exI [where x = "at n fd"] exI [where x = sent] exI [where x = "pending_out ?c"])
           (auto simp: same_in_def fun_upd_idem)
    next
      case True
      define c1 where "c1 = (if r0 = int (sendlen ?c) then ?c\<lparr>sendlen := 0\<rparr> else shift_out (nat r0) ?c)"
      have all: "pending_out (?c\<lparr>sendlen := 0\<rparr>) = []" "out_buf_ok (?c\<lparr>sendlen := 0\<rparr>)"
        using assms(1) by (auto simp: pending_out_def out_buf_ok_def split: option.splits)
      have c1: "out_buf_ok c1" "pending_out c1 = drop (length sent) (pending_out ?c)" "same_rcv ?c c1"
        using shift_out_ok [OF assms(1) partial(2)] partial(1,2) all
          pending_out_length [OF assms(1)] by (auto simp: c1_def same_rcv_def)
      show ?thesis using True n1 partial(1,3) c1
        by (intro exI [where x = "(at n fd)\<lparr>cb := c1, sk := (sk (at n fd))\<lparr>sendtm := now\<rparr>\<rparr>"]
              exI [where x = sent] exI [where x = "drop (length sent) (pending_out ?c)"])
           (auto simp: upd_def on_wire_def same_in_def c1_def)
    qed
  qed
qed

lemma do_check_conn_cases:
  "rcvbufsz (cb (at n fd)) = 0 \<or> recvptr (cb (at n fd)) = 0 \<Longrightarrow>
   do_check_conn tsc n fd = Some n \<or> do_check_conn tsc n fd = Some (closed n fd)"
  using do_close_conn_closed [of n fd] by (auto simp: do_check_conn_def Let_def)

lemma visit_post:
  assumes "tcp_conn n pos" "out_buf_ok (cb (at n pos))" "recvptr (cb (at n pos)) = 0"
  shows "\<exists>n'. visit tsc tx now n pos = Some n' \<and> sends n pos [] n'"
proof -
  have plain: "CN_LISTEN \<notin> flag (at n pos)" "CN_PIPE \<notin> flag (at n pos)"
    using assms(1) by (simp_all add: tcp_conn_def)
  have step: "\<exists>n'. do_check_conn tsc n1 pos = Some n' \<and> sends n pos [] n'"
    if n1: "fdinfo n1 = (fdinfo n)(pos := f1)" "maxfd n1 = maxfd n" "recvq n1 = recvq n"
      "next_id n1 = next_id n" "wire_in n1 = wire_in n"
      "wire_out n1 = (wire_out n)(fd_id (at n pos) := wire_out n (fd_id (at n pos)) @ sent)"
      "sent @ rest = pending_out (cb (at n pos))" "same_in (at n pos) f1" "out_buf_ok (cb f1)"
      "rest = pending_out (cb f1)" for n1 f1 sent rest
  proof -
    have "rcvbufsz (cb (at n1 pos)) = 0 \<or> recvptr (cb (at n1 pos)) = 0"
      using n1(1,8) assms(3) by (simp add: same_in_def same_rcv_def)
    from do_check_conn_cases [OF this, of tsc] show ?thesis
    proof
      assume "do_check_conn tsc n1 pos = Some n1"
      moreover have "sends n pos [] n1"
        by (rule sends_open [OF n1(1-6,8,9)]) (use n1 in auto)
      ultimately show ?thesis by blast
    next
      assume d: "do_check_conn tsc n1 pos = Some (closed n1 pos)"
      have "do_close_conn n1 pos = Some (closed n1 pos)"
        using n1(1,8) assms(3) by (intro do_close_conn_closed) (simp add: same_in_def same_rcv_def)
      moreover obtain n' where "do_close_conn n1 pos = Some n'" "sends n pos [] n'"
        using close_sends [OF n1(1-6), of rest "[]"] n1(7,8) assms(1,3) by auto
      ultimately show ?thesis using d by auto
    qed
  qed
  show ?thesis
  proof (cases "sendlen (cb (at n pos)) > 0")
    case False
    then show ?thesis
      using step [of n "at n pos" "[]" "pending_out (cb (at n pos))"] assms(2) plain
      by (simp add: visit_def same_in_def fun_upd_idem)
  next
    case True
    obtain r n1 where w: "do_write_conn n pos (tx pos) (now pos) = (r, n1)" by fastforce
    obtain f1 sent rest where n1: "fdinfo n1 = (fdinfo n)(pos := f1)" "maxfd n1 = maxfd n"
      "recvq n1 = recvq n" "next_id n1 = next_id n" "wire_in n1 = wire_in n"
      "wire_out n1 = (wire_out n)(fd_id (at n pos) := wire_out n (fd_id (at n pos)) @ sent)"
      "same_in (at n pos) f1" "sent @ rest = pending_out (cb (at n pos))"
      "r \<noteq> -1 \<longrightarrow> out_buf_ok (cb f1) \<and> rest = pending_out (cb f1)"
      using do_write_conn_post [OF assms(2) w] by blast
    show ?thesis
    proof (cases "r = -1")
      case True2: True
      obtain n' where "do_close_conn n1 pos = Some n'" "sends n pos [] n'"
        using close_sends [OF n1(1-6), of rest "[]"] n1(7,8) assms(1,3) by auto
      with True True2 w plain show ?thesis by (auto simp: visit_def)
    next
      case False
      with step [OF n1(1-6,8,7)] n1(9) True w plain show ?thesis by (auto simp: visit_def)
    qed
  qed
qed

text \<open>A block for an open TCP connection, memory permitting.\<close>

lemma linger_send_post:
  assumes "out_buf_ok (cb (at n fd))" "linger_send n fd ts = (ok, n1)"
  shows "\<exists>f1 sent rest. fdinfo n1 = (fdinfo n)(fd := f1) \<and> maxfd n1 = maxfd n \<and> recvq n1 = recvq n \<and>
    next_id n1 = next_id n \<and> wire_in n1 = wire_in n \<and>
    wire_out n1 = (wire_out n)(fd_id (at n fd) := wire_out n (fd_id (at n fd)) @ sent) \<and>
    same_in (at n fd) f1 \<and> sent @ rest = pending_out (cb (at n fd)) \<and>
    (ok \<longrightarrow> out_buf_ok (cb f1) \<and> rest = pending_out (cb f1))"
proof (cases "sendlen (cb (at n fd)) > 0")
  case False
  with assms show ?thesis
    by (intro exI [where x = "at n fd"] exI [where x = "[]"] exI [where x = "pending_out (cb (at n fd))"])
       (auto simp: linger_send_def Let_def same_in_def fun_upd_idem split: if_splits)
next
  case True
  let ?c = "cb (at n fd)"
  obtain r sent where s: "send_pending ts ?c = (r, sent)" by fastforce
  from assms(1) s show ?thesis
  proof (cases rule: flush_cases)
    case (failed rest)
    with assms(2) True s show ?thesis
      by (intro exI [where x = "at n fd"] exI [where x = sent] exI [where x = rest])
         (auto simp: linger_send_def same_in_def fun_upd_idem)
  next
    case partial
    define c1 where "c1 = (if r > 0 then shift_out (nat r) ?c else ?c)"
    have "ok \<and> n1 = set_cb fd c1 (on_wire (fd_id (at n fd)) sent n)"
      using assms(2) True s partial
      by (auto simp: linger_send_def c1_def set_cb_def upd_def on_wire_def split: if_splits)
    moreover have "out_buf_ok c1" "pending_out c1 = drop (length sent) (pending_out ?c)" "same_rcv ?c c1"
      using shift_out_ok [OF assms(1) partial(2)] partial(1) assms(1) by (auto simp: c1_def)
    ultimately show ?thesis using partial(3)
      by (intro exI [where x = "(at n fd)\<lparr>cb := c1\<rparr>"] exI [where x = sent]
            exI [where x = "drop (length sent) (pending_out ?c)"])
         (auto simp: set_cb_def upd_def same_in_def on_wire_def)
  qed
qed

lemma upd_id: "upd fd f n = n\<lparr>fdinfo := (fdinfo n)(fd := f (at n fd))\<rparr>"
  by (simp add: upd_def)

lemma schedule_output_post:
  assumes "tcp_conn n fd" "fd = sockfd (blk_sk (fst s))" "fd < MAXFDS" "blk_id (fst s) = fd_id (at n fd)"
    "blk_typ (fst s) \<noteq> PAD_BLOCK" "out_buf_ok (cb (at n fd))" "recvptr (cb (at n fd)) = 0"
  shows "\<exists>r n'. schedule_output True n s ts ts' dg = Some (r, n') \<and> sends n fd (snd s) n'"
proof -
  define n1 where "n1 = (if blk_typ (fst s) = FIN_BLOCK \<and> CN_LISTEN \<notin> flag (at n fd)
                     then upd fd (\<lambda>f. f\<lparr>flag := insert CN_FIN (flag f)\<rparr>) n else n)"
  define g where "g = at n1 fd"
  have n1: "fdinfo n1 = (fdinfo n)(fd := g)" "maxfd n1 = maxfd n" "recvq n1 = recvq n"
    "next_id n1 = next_id n" "wire_in n1 = wire_in n" "wire_out n1 = wire_out n"
    and g: "same_in (at n fd) g" "cb g = cb (at n fd)" "fd_id g = fd_id (at n fd)"
    by (auto simp: n1_def g_def upd_def same_in_def fun_upd_idem)
  have udp: "CN_UDP \<notin> flag (at n1 fd)"
    using assms(1) by (auto simp: n1_def tcp_conn_def)
  obtain ok n2 where l: "linger_send n1 fd ts = (ok, n2)" by fastforce
  have ob: "out_buf_ok (cb (at n1 fd))" using assms(6) g by (simp add: g_def)
  obtain f2 sent rest where n2: "fdinfo n2 = (fdinfo n1)(fd := f2)" "maxfd n2 = maxfd n1"
      "recvq n2 = recvq n1" "next_id n2 = next_id n1" "wire_in n2 = wire_in n1"
      "wire_out n2 = (wire_out n1)(fd_id g := wire_out n1 (fd_id g) @ sent)"
      "same_in g f2" "sent @ rest = pending_out (cb g)"
      "ok \<longrightarrow> out_buf_ok (cb f2) \<and> rest = pending_out (cb f2)"
    using linger_send_post [OF ob l] unfolding g_def by blast
  have f2: "same_in (at n fd) f2"
    using g(1) n2(7) by (auto simp: same_in_def intro: same_rcv_trans)
  have at2: "at n2 fd = f2" using n2(1) by simp
  have sched: "schedule_output True n s ts ts' dg =
      (if \<not> ok then close_failed n2 fd
       else case block_send n2 fd (snd s) ts' of (send_bytes, n3) \<Rightarrow>
         if send_bytes < 0 then close_failed n3 fd
         else if int (length (snd s)) > send_bytes then
           (case merge_buffer True (drop (nat send_bytes) (snd s)) (cb (at n3 fd)) of
              None \<Rightarrow> None
            | Some (r, c) \<Rightarrow> Some (r, set_cb fd c n3))
         else Some (0, n3))"
    using assms(1-5) udp l
    by (auto simp: schedule_output_def Let_def n1_def tcp_conn_def split: if_splits)
  have closing: "\<exists>r n'. close_failed m fd = Some (r, n') \<and> sends n fd (snd s) n'"
    if m: "fdinfo m = (fdinfo n)(fd := f2)" "maxfd m = maxfd n" "recvq m = recvq n"
      "next_id m = next_id n" "wire_in m = wire_in n"
      "wire_out m = (wire_out n)(fd_id (at n fd) := wire_out n (fd_id (at n fd)) @ sn)"
      "sn @ rs = pending_out (cb (at n fd)) @ snd s" for m sn rs
    using close_sends [OF m f2 assms(1,7)] by (auto simp: close_failed_def)
  show ?thesis
  proof (cases ok)
    case False
    then show ?thesis
      using sched closing [of n2 sent "rest @ snd s"] n1 n2 g by (simp add: fun_upd_upd)
  next
    case True
    have n2': "fdinfo n2 = (fdinfo n)(fd := f2)" "maxfd n2 = maxfd n" "recvq n2 = recvq n"
      "next_id n2 = next_id n" "wire_in n2 = wire_in n"
      "wire_out n2 = (wire_out n)(fd_id (at n fd) := wire_out n (fd_id (at n fd)) @ sent)"
      "out_buf_ok (cb f2)" "sent @ pending_out (cb f2) = pending_out (cb (at n fd))"
      using n1 n2 g True by (simp_all add: fun_upd_upd)
    have id2: "fd_id f2 = fd_id (at n fd)" using f2 by (simp add: same_in_def)
    obtain sb n3 where b: "block_send n2 fd (snd s) ts' = (sb, n3)" by fastforce
    obtain sent2 where n3: "n3 = on_wire (fd_id f2) sent2 n2" "\<exists>rest2. snd s = sent2 @ rest2"
      "sb = -1 \<or> sb = int (length sent2)" "sendlen (cb f2) > 0 \<longrightarrow> sent2 = [] \<and> sb = 0"
    proof (cases "sendlen (cb f2) = 0 \<and> length (snd s) > 0")
      case True
      obtain r sn where sn: "safe_tcp_send_n ts' (snd s) = (r, sn)" by fastforce
      with True b at2 have "sb = r" "n3 = on_wire (fd_id f2) sn n2"
        by (simp_all add: block_send_def)
      with safe_tcp_send_n_sent [OF sn] True show thesis by (intro that [of sn]) auto
    next
      case False
      with b at2 have "sb = 0" "n3 = n2" by (auto simp: block_send_def)
      then show thesis by (intro that [of "[]"]) (auto simp: on_wire_def)
    qed
    have w3: "fdinfo n3 = (fdinfo n)(fd := f2)" "maxfd n3 = maxfd n" "recvq n3 = recvq n"
      "next_id n3 = next_id n" "wire_in n3 = wire_in n"
      "wire_out n3 = (wire_out n)(fd_id (at n fd) := wire_out n (fd_id (at n fd)) @ sent @ sent2)"
      using n3(1) n2' id2 by (auto simp: on_wire_def)
    obtain rest2 where rest2: "snd s = sent2 @ rest2" using n3(2) by blast
    have order: "(sent @ sent2) @ pending_out (cb f2) @ rest2 = pending_out (cb (at n fd)) @ snd s"
      using n2'(8) n3(4) rest2 pending_out_Nil [of "cb f2"] by (cases "sendlen (cb f2) > 0") auto
    show ?thesis
    proof (cases "sb < 0")
      case True2: True
      then show ?thesis
        using sched True b closing [OF w3, of "pending_out (cb f2) @ rest2"] order by auto
    next
      case False
      then have sb: "sb = int (length sent2)" using n3(3) by auto
      show ?thesis
      proof (cases "rest2 = []")
        case True2: True
        have "sends n fd (snd s) n3"
          by (rule sends_open [OF w3 f2 n2'(7)]) (use order True2 in simp)
        then show ?thesis using sched True b False sb rest2 True2 by auto
      next
        case False2: False
        obtain c where c: "merge_buffer True rest2 (cb f2) = Some (0, c)" "out_buf_ok c"
          "pending_out c = pending_out (cb f2) @ rest2" "same_rcv (cb f2) c"
          using merge_buffer_ok [OF n2'(7) False2] by blast
        have "sends n fd (snd s) (set_cb fd c n3)"
          by (rule sends_open [where f' = "f2\<lparr>cb := c\<rparr>" and sent = "sent @ sent2"])
             (use w3 c f2 order in \<open>auto simp: set_cb_def upd_def same_in_def intro: same_rcv_trans\<close>)
        moreover have "at n3 fd = f2" "drop (nat sb) (snd s) = rest2"
          using w3 sb rest2 by simp_all
        ultimately show ?thesis using sched True b False sb c(1) rest2 False2 by auto
      qed
    qed
  qed
qed

end
