(* ===== verification/NetRun.thy ===== *)
theory NetRun
  imports NetOut "HOL-Library.Sublist"
begin

text \<open>
  Whole runs of the connection process: any order of socket events, scheduled replies, sweeps
  over the table and consumers taking requests, over any number of connections. The invariants
  of the receiving side (\<open>NetIn\<close>) and of the sending side (\<open>NetOut\<close>) hold together in
  every state, which gives the end-to-end statements about both directions of every stream,
  and the end of the sweep inside the table.
\<close>

section \<open>Start\<close>

definition net_init :: "shm_queue \<Rightarrow> net" where
  "net_init q =
     \<lparr>fdinfo = (\<lambda>_. zero_fdinfo), maxfd = 0, next_id = 0, recvq = q, wire_in = (\<lambda>_. []),
      wire_out = (\<lambda>_. []), dgrams = []\<rparr>"

text \<open>\<^verbatim>\<open>net_start\<close> for a socket that was bound: \<open>accept_fd\<close> is set before \<^verbatim>\<open>do_add_conn\<close>
  clears the entry, so it stays 0.\<close>

definition net_start :: "net \<Rightarrow> int \<Rightarrow> bool \<Rightarrow> int \<times> int \<Rightarrow> int \<Rightarrow> net" where
  "net_start n listenfd udp servaddr tmo =
     do_add_conn (upd listenfd (\<lambda>f. f\<lparr>accept_fd := listenfd\<rparr>) n) listenfd
       (if udp then {CN_LISTEN, CN_UDP} else {CN_LISTEN}) servaddr None tmo"

section \<open>Invariants\<close>

definition live :: "net \<Rightarrow> int set" where
  "live n = {fd. CN_VALID \<in> flag (at n fd)}"

definition table_ok :: "net \<Rightarrow> bool" where
  "table_ok n \<longleftrightarrow> live n \<subseteq> {0..<MAXFDS} \<and> maxfd n = int (card (live n)) \<and>
     (\<forall>fd \<in> live n. CN_UDP \<notin> flag (at n fd) \<and>
        (CN_LISTEN \<in> flag (at n fd) \<or> CN_PIPE \<in> flag (at n fd) \<or> tcp_conn n fd))"

definition out_ok :: "net \<Rightarrow> (int \<Rightarrow> byte list) \<Rightarrow> bool" where
  "out_ok n acc \<longleftrightarrow>
     (\<forall>fd. tcp_conn n fd \<longrightarrow> out_buf_ok (cb (at n fd)) \<and>
        acc (fd_id (at n fd)) = wire_out n (fd_id (at n fd)) @ pending_out (cb (at n fd))) \<and>
     (\<forall>i. prefix (wire_out n i) (acc i)) \<and> (\<forall>i \<ge> next_id n. acc i = [])"

lemma live_finite: "table_ok n \<Longrightarrow> finite (live n)"
  unfolding table_ok_def using finite_subset by blast

lemma table_ok_change:
  assumes "table_ok n" "fdinfo n' = (fdinfo n)(fd := f')" "fd \<in> live n" "tcp_conn n fd"
    "maxfd n' = maxfd n - dm"
    "f' = zero_fdinfo \<and> dm = 1 \<or> (flag f' = flag (at n fd) \<or> flag f' = insert CN_FIN (flag (at n fd))) \<and> dm = 0"
  shows "table_ok n'"
proof (cases "f' = zero_fdinfo \<and> dm = 1")
  case True
  with assms(2) have l: "live n' = live n - {fd}" by (auto simp: live_def)
  then have "int (card (live n')) = int (card (live n)) - 1"
    using card_Suc_Diff1 [OF live_finite [OF assms(1)] assms(3)] by simp
  moreover have "\<forall>x \<in> live n'. at n' x = at n x" using l assms(2) by auto
  ultimately show ?thesis using assms(1,5) l True by (auto simp: table_ok_def tcp_conn_def)
next
  case False
  with assms have f': "flag f' = flag (at n fd) \<or> flag f' = insert CN_FIN (flag (at n fd))" "dm = 0"
    by auto
  then have l: "live n' = live n" using assms(2,3) by (auto simp: live_def)
  have "tcp_conn n' fd" using assms(2,4) f' by (auto simp: tcp_conn_def)
  with assms(1,2,5) l f'(2) show ?thesis by (auto simp: table_ok_def tcp_conn_def)
qed

lemma table_ok_new:
  assumes "table_ok n" "fdinfo n' = (fdinfo n)(fd := f')" "fd \<notin> live n" "0 \<le> fd" "fd < MAXFDS"
    "maxfd n' = maxfd n + dm"
    "f' = zero_fdinfo \<and> dm = 0 \<or> CN_VALID \<in> flag f' \<and> dm = 1 \<and> CN_UDP \<notin> flag f' \<and>
       (CN_LISTEN \<in> flag f' \<or> CN_PIPE \<in> flag f' \<or> flag f' = {CN_VALID})"
  shows "table_ok n'"
proof (cases "f' = zero_fdinfo \<and> dm = 0")
  case True
  with assms(2,3) have l: "live n' = live n" by (auto simp: live_def)
  moreover have "\<forall>x \<in> live n. at n' x = at n x" using assms(2,3) by auto
  ultimately show ?thesis using assms(1,6) True by (auto simp: table_ok_def tcp_conn_def)
next
  case False
  with assms have f': "CN_VALID \<in> flag f'" "dm = 1" "CN_UDP \<notin> flag f'"
    "CN_LISTEN \<in> flag f' \<or> CN_PIPE \<in> flag f' \<or> flag f' = {CN_VALID}" by auto
  with assms(2,3) have l: "live n' = insert fd (live n)" by (auto simp: live_def)
  then have "card (live n') = Suc (card (live n))"
    using assms(3) live_finite [OF assms(1)] by simp
  moreover have "\<forall>x \<in> live n. at n' x = at n x" using assms(2,3) by auto
  moreover have "CN_UDP \<notin> flag (at n' fd)"
    "CN_LISTEN \<in> flag (at n' fd) \<or> CN_PIPE \<in> flag (at n' fd) \<or> tcp_conn n' fd"
    using f' assms(2) by (auto simp: tcp_conn_def)
  ultimately show ?thesis using assms(1,4,5,6) l f'(2) by (auto simp: table_ok_def tcp_conn_def)
qed

subsection \<open>Receiving steps and the sending side\<close>

lemma same_rcv_conn:
  "same_rcv c c' \<Longrightarrow> rcv_view c' = rcv_view c" "same_rcv c c' \<Longrightarrow> conn_ok h c' = conn_ok h c"
  unfolding same_rcv_def conn_ok_def rcv_ok_def rcv_view_def by simp_all

lemma same_out_buf:
  assumes "same_out f f'"
  shows "out_buf_ok (cb f') = out_buf_ok (cb f)" "pending_out (cb f') = pending_out (cb f)"
  using assms unfolding same_out_def out_buf_ok_def pending_out_def
  by (simp_all split: option.split)

lemma out_ok_touches:
  assumes "out_ok n acc" "touches n fd r n'" "tcp_conn n fd"
  shows "out_ok n' acc"
proof -
  obtain f' where n': "fdinfo n' = (fdinfo n)(fd := f')" "next_id n' = next_id n" "wire_out n' = wire_out n"
    and f': "f' = zero_fdinfo \<or> same_out (at n fd) f'"
    using assms(2) unfolding touches_def by blast
  have "out_buf_ok (cb (at n' x)) \<and>
      acc (fd_id (at n' x)) = wire_out n' (fd_id (at n' x)) @ pending_out (cb (at n' x))"
    if t: "tcp_conn n' x" for x
  proof (cases "x = fd")
    case True
    with t n' have "f' \<noteq> zero_fdinfo" by (auto simp: tcp_conn_def)
    with f' have so: "same_out (at n fd) f'" by simp
    have "out_buf_ok (cb (at n fd)) \<and>
        acc (fd_id (at n fd)) = wire_out n (fd_id (at n fd)) @ pending_out (cb (at n fd))"
      using assms(1,3) by (simp add: out_ok_def)
    then show ?thesis using same_out_buf [OF so] so True n' by (simp add: same_out_def)
  next
    case False
    with t n' assms(1) show ?thesis by (simp add: out_ok_def tcp_conn_def)
  qed
  then show ?thesis using assms(1) n' unfolding out_ok_def by simp
qed

lemma out_ok_opens:
  assumes "out_ok n acc" "opens n fd n'" "wire_out n' = wire_out n" "cb (at n' fd) = zero_cb"
    "ids_ok n"
  shows "out_ok n' acc"
proof -
  obtain f' where n': "fdinfo n' = (fdinfo n)(fd := f')" "next_id n' = next_id n + 1"
    and f': "f' = zero_fdinfo \<or> fresh_entry n f'"
    using assms(2) unfolding opens_def by blast
  have "out_buf_ok (cb (at n' x)) \<and>
      acc (fd_id (at n' x)) = wire_out n' (fd_id (at n' x)) @ pending_out (cb (at n' x))"
    if t: "tcp_conn n' x" for x
  proof (cases "x = fd")
    case True
    with t n' have "f' \<noteq> zero_fdinfo" by (auto simp: tcp_conn_def)
    with f' have "fd_id f' = next_id n" by (simp add: fresh_entry_def)
    then show ?thesis using True n' assms(1,3,4,5)
      by (simp add: out_buf_ok_def pending_out_def out_ok_def ids_ok_def)
  next
    case False
    with t n' assms(1,3) show ?thesis by (simp add: out_ok_def tcp_conn_def)
  qed
  then show ?thesis using assms(1,3) n' unfolding out_ok_def by simp
qed

subsection \<open>Sending steps\<close>

lemma out_ok_sends:
  assumes "out_ok n acc" "sends n fd data n'" "tcp_conn n fd" "ids_ok n"
  shows "out_ok n' (acc(fd_id (at n fd) := acc (fd_id (at n fd)) @ data))"
proof -
  define i where "i = fd_id (at n fd)"
  obtain f' sent where n': "fdinfo n' = (fdinfo n)(fd := f')" "next_id n' = next_id n"
      "wire_out n' = (wire_out n)(i := wire_out n i @ sent)"
    and f': "f' = zero_fdinfo \<and> (\<exists>rest. sent @ rest = pending_out (cb (at n fd)) @ data) \<or>
        same_in (at n fd) f' \<and> out_buf_ok (cb f') \<and>
        sent @ pending_out (cb f') = pending_out (cb (at n fd)) @ data"
    using assms(2) unfolding sends_def i_def by blast
  have acc: "acc i = wire_out n i @ pending_out (cb (at n fd))"
    using assms(1,3) by (simp add: out_ok_def i_def)
  have lt: "i < next_id n" using assms(3,4) by (simp add: ids_ok_def tcp_conn_def i_def)
  obtain rest where rest: "sent @ rest = pending_out (cb (at n fd)) @ data" using f' by blast
  have "out_buf_ok (cb (at n' x)) \<and> (acc(i := acc i @ data)) (fd_id (at n' x)) =
      wire_out n' (fd_id (at n' x)) @ pending_out (cb (at n' x))"
    if t: "tcp_conn n' x" for x
  proof (cases "x = fd")
    case True
    with t n' have "f' \<noteq> zero_fdinfo" by (auto simp: tcp_conn_def)
    with f' True n' acc show ?thesis by (auto simp: same_in_def i_def)
  next
    case False
    with t n' have tx: "tcp_conn n x" "at n' x = at n x" by (auto simp: tcp_conn_def)
    with False assms(3,4) have "fd_id (at n x) \<noteq> i"
      unfolding ids_ok_def i_def tcp_conn_def by blast
    with tx assms(1) n' show ?thesis by (simp add: out_ok_def)
  qed
  moreover have "prefix (wire_out n' j) ((acc(i := acc i @ data)) j)" for j
  proof (cases "j = i")
    case True
    then have "(acc(i := acc i @ data)) j = (wire_out n i @ sent) @ rest" using acc rest by simp
    then show ?thesis using n'(3) True by (simp only: fun_upd_same) (metis prefixI)
  qed (use assms(1) n'(3) in \<open>simp add: out_ok_def\<close>)
  ultimately show ?thesis using assms(1) lt n'(2) unfolding out_ok_def i_def [symmetric]
    by simp
qed

lemma in_ok_sends:
  assumes "in_ok h n blks" "sends n fd data n'" "tcp_conn n fd"
  shows "in_ok h n' blks"
proof -
  obtain f' sent where n': "fdinfo n' = (fdinfo n)(fd := f')" "next_id n' = next_id n"
      "wire_in n' = wire_in n"
      "wire_out n' = (wire_out n)(fd_id (at n fd) := wire_out n (fd_id (at n fd)) @ sent)"
    and f': "f' = zero_fdinfo \<or> same_in (at n fd) f'"
    using assms(2) unfolding sends_def by blast
  have ids: "ids_ok n" using assms(1) by (simp add: in_ok_def)
  have valid: "CN_VALID \<in> flag (at n' x) \<Longrightarrow> CN_VALID \<in> flag (at n x) \<and> fd_id (at n' x) = fd_id (at n x)" for x
    using f' n'(1) by (cases "x = fd") (auto simp: same_in_def)
  have lt: "fd_id (at n fd) < next_id n" using assms(3) ids by (simp add: ids_ok_def tcp_conn_def)
  have "ids_ok n'"
    using ids valid lt unfolding ids_ok_def n'(2-4) by auto
  moreover have "conn_ok h (cb (at n' x)) \<and>
      snd (frames h (wire_in n' (fd_id (at n' x)))) = Incomplete (rcv_view (cb (at n' x)))"
    if t: "tcp_conn n' x" for x
  proof (cases "x = fd")
    case True
    with t n' have "f' \<noteq> zero_fdinfo" by (auto simp: tcp_conn_def)
    with f' have si: "same_in (at n fd) f'" by simp
    have "conn_ok h (cb (at n fd)) \<and>
        snd (frames h (wire_in n (fd_id (at n fd)))) = Incomplete (rcv_view (cb (at n fd)))"
      using assms(1,3) by (simp add: in_ok_def)
    moreover have "same_rcv (cb (at n fd)) (cb f')" using si by (simp add: same_in_def)
    ultimately show ?thesis using si True n' same_rcv_conn [of "cb (at n fd)" "cb f'"]
      by (simp add: same_in_def)
  next
    case False
    with t n' assms(1) show ?thesis by (simp add: in_ok_def tcp_conn_def)
  qed
  ultimately show ?thesis using assms(1) n' unfolding in_ok_def by simp
qed

subsection \<open>Accepting without a greeting\<close>

text \<open>The services of the repository define a \<^verbatim>\<open>handle_open\<close> that sends nothing.\<close>

definition no_greeting :: "handle_open option \<Rightarrow> bool" where
  "no_greeting ho \<longleftrightarrow> (\<forall>g s. ho = Some g \<longrightarrow> snd (snd (g s)) \<le> 0)"

lemma run_accept_plain:
  assumes "no_greeting ho" "CN_LISTEN \<in> flag (at n fd)" "fd \<noteq> fst acc"
  shows "\<exists>r n'. run_accept ho n fd acc ts now = Some (r, n') \<and>
     (n' = n \<or> opens n (fst acc) n' \<and> wire_out n' = wire_out n \<and> cb (at n' (fst acc)) = zero_cb)"
proof -
  obtain newfd n1 where op: "do_open_conn n fd acc now = (newfd, n1)" by fastforce
  show ?thesis
  proof (cases "newfd > 0")
    case False
    with op show ?thesis by (simp add: run_accept_def)
  next
    case True
    note o = do_open_conn_sel [OF op True]
    have newfd: "newfd = fst acc" using op by (auto simp: do_open_conn_def Let_def split: prod.splits if_splits)
    have shut: "do_close_conn n1 newfd = Some (closed n1 newfd)"
      by (rule do_close_conn_closed) (simp add: o)
    have "run_accept ho n fd acc ts now = Some (0, n1) \<or>
        run_accept ho n fd acc ts now = Some (-1, closed n1 newfd)"
    proof (cases ho)
      case None
      with op True show ?thesis by (simp add: run_accept_def)
    next
      case (Some g)
      obtain r0 greet len where g: "g (sk (at n1 newfd)) = (r0, greet, len)"
        by (cases "g (sk (at n1 newfd))") auto
      then have "len \<le> 0" using assms(1) Some by (metis no_greeting_def snd_conv)
      with op True Some g shut show ?thesis by (auto simp: run_accept_def)
    qed
    then obtain r n' where r: "run_accept ho n fd acc ts now = Some (r, n')"
      "n' = n1 \<or> n' = closed n1 newfd" by blast
    from run_accept_post [OF r(1) assms(2,3)] have "n' = n \<or> opens n (fst acc) n'" .
    moreover have "wire_out n' = wire_out n" "cb (at n' newfd) = zero_cb"
      using r(2) o by auto
    ultimately show ?thesis using r(1) newfd by auto
  qed
qed

section \<open>The invariant of the whole table\<close>

text \<open>Listeners and the pipe have ids as well; nothing is ever received under them.\<close>

definition idle_ok :: "net \<Rightarrow> bool" where
  "idle_ok n \<longleftrightarrow> (\<forall>fd \<in> live n. \<not> tcp_conn n fd \<longrightarrow> wire_in n (fd_id (at n fd)) = [])"

definition net_ok ::
  "(byte list \<Rightarrow> int) \<Rightarrow> net \<Rightarrow> slot list \<Rightarrow> slot list \<Rightarrow> (int \<Rightarrow> byte list) \<Rightarrow> bool" where
  "net_ok h n gone bs acc \<longleftrightarrow>
     in_ok h n (gone @ bs) \<and> holds (recvq n) bs \<and> out_ok n acc \<and> table_ok n \<and> idle_ok n"

lemma net_ok_conn:
  assumes "net_ok h n gone bs acc" "tcp_conn n fd"
  shows "conn_ok h (cb (at n fd))" "out_buf_ok (cb (at n fd))" "recvptr (cb (at n fd)) = 0"
    "fd \<in> live n" "0 \<le> fd" "fd < MAXFDS" "ids_ok n"
  using assms unfolding net_ok_def in_ok_def out_ok_def table_ok_def conn_ok_def live_def tcp_conn_def
  by auto

lemma idle_ok_change:
  assumes "idle_ok n" "ids_ok n" "fdinfo n' = (fdinfo n)(fd := f')" "tcp_conn n fd"
    "f' = zero_fdinfo \<or> flag f' = flag (at n fd) \<or> flag f' = insert CN_FIN (flag (at n fd))"
    "\<And>i. i \<noteq> fd_id (at n fd) \<Longrightarrow> wire_in n' i = wire_in n i"
  shows "idle_ok n'"
  unfolding idle_ok_def
proof (intro ballI impI)
  fix x assume x: "x \<in> live n'" "\<not> tcp_conn n' x"
  have "x \<noteq> fd"
  proof
    assume "x = fd"
    with x assms(3) have "CN_VALID \<in> flag f'" by (simp add: live_def)
    with assms(5) have "flag f' = flag (at n fd) \<or> flag f' = insert CN_FIN (flag (at n fd))" by auto
    with x(2) \<open>x = fd\<close> assms(3,4) show False by (auto simp: tcp_conn_def)
  qed
  with x assms(3) have "x \<in> live n" "\<not> tcp_conn n x" "at n' x = at n x"
    by (auto simp: live_def tcp_conn_def)
  moreover from this have "fd_id (at n x) \<noteq> fd_id (at n fd)"
    using assms(2,4) \<open>x \<noteq> fd\<close> unfolding ids_ok_def live_def tcp_conn_def by blast
  ultimately show "wire_in n' (fd_id (at n' x)) = []" using assms(1,6) by (simp add: idle_ok_def)
qed

lemma idle_ok_new:
  assumes "idle_ok n" "fdinfo n' = (fdinfo n)(fd := f')" "wire_in n' = wire_in n"
    "CN_VALID \<in> flag f' \<Longrightarrow> wire_in n (fd_id f') = []"
  shows "idle_ok n'"
  using assms unfolding idle_ok_def live_def tcp_conn_def by auto

lemma net_ok_sends:
  assumes "net_ok h n gone bs acc" "sends n fd data n'" "tcp_conn n fd"
  shows "net_ok h n' gone bs (acc(fd_id (at n fd) := acc (fd_id (at n fd)) @ data))"
proof -
  note c = net_ok_conn [OF assms(1,3)]
  obtain f' dm where "fdinfo n' = (fdinfo n)(fd := f')" "maxfd n' = maxfd n - dm" "recvq n' = recvq n"
    "wire_in n' = wire_in n"
    "f' = zero_fdinfo \<and> dm = 1 \<or> (flag f' = flag (at n fd) \<or> flag f' = insert CN_FIN (flag (at n fd))) \<and> dm = 0"
    using assms(2) unfolding sends_def same_in_def by blast
  then have "table_ok n'" "recvq n' = recvq n" "idle_ok n'"
    using table_ok_change [of n n' fd f' dm] idle_ok_change [of n n' fd f'] assms(1,3) c(4,7)
    by (auto simp: net_ok_def)
  then show ?thesis
    using assms out_ok_sends [of n acc fd data n'] in_ok_sends [of h n "gone @ bs" fd data n'] c(7)
    by (simp add: net_ok_def)
qed

text \<open>A listening socket or the wake-up pipe is added to the table.\<close>

lemma net_ok_listen:
  assumes "net_ok h n gone bs acc" "fd \<notin> live n" "0 \<le> fd" "fd < MAXFDS"
    "fl = {CN_LISTEN} \<or> fl = {CN_PIPE}"
    "at n0 = (at n)(fd := f0)" "next_id n0 = next_id n" "maxfd n0 = maxfd n" "recvq n0 = recvq n"
    "wire_in n0 = wire_in n" "wire_out n0 = wire_out n"
  shows "net_ok h (do_add_conn n0 fd fl l p t) gone bs acc"
proof -
  let ?n = "do_add_conn n0 fd fl l p t"
  have at: "fdinfo ?n = (fdinfo n)(fd := at ?n fd)"
    using assms(6) do_add_conn_sel(6) [of _ fd n0 fl l p t] by (intro ext) simp
  have valid: "CN_VALID \<in> flag (at ?n x) \<Longrightarrow> x = fd \<or> x \<noteq> fd \<and> CN_VALID \<in> flag (at n x) \<and> at ?n x = at n x" for x
    using at by (metis fun_upd_apply)
  have ids: "ids_ok n" using assms(1) by (simp add: net_ok_def in_ok_def)
  have lt: "CN_VALID \<in> flag (at n x) \<Longrightarrow> fd_id (at n x) < next_id n" for x
    using ids by (simp add: ids_ok_def)
  have tcp: "tcp_conn ?n x \<Longrightarrow> tcp_conn n x \<and> at ?n x = at n x" for x
    using valid [of x] assms(5) by (auto simp: tcp_conn_def)
  have "fd_id (at ?n x) < next_id ?n" if "CN_VALID \<in> flag (at ?n x)" for x
    using valid [OF that] lt [of x] assms(7) by auto
  moreover have "x = y" if "CN_VALID \<in> flag (at ?n x)" "CN_VALID \<in> flag (at ?n y)"
      "fd_id (at ?n x) = fd_id (at ?n y)" for x y
    using valid [OF that(1)] valid [OF that(2)] that(3) lt [of x] lt [of y] ids assms(7)
    unfolding ids_ok_def by auto
  moreover have "\<forall>i \<ge> next_id ?n. wire_in ?n i = [] \<and> wire_out ?n i = []"
    using ids assms(7,10,11) by (simp add: ids_ok_def)
  ultimately have ids': "ids_ok ?n" unfolding ids_ok_def by blast
  have "table_ok ?n"
    by (rule table_ok_new [OF _ at assms(2-4), where dm = 1])
       (use assms in \<open>auto simp: net_ok_def\<close>)
  moreover have "in_ok h ?n (gone @ bs)"
    using assms(1,10) ids' tcp unfolding in_ok_def net_ok_def by simp
  moreover have "out_ok ?n acc"
    using assms(1,7,11) tcp unfolding out_ok_def net_ok_def by simp
  moreover have "idle_ok ?n"
    by (rule idle_ok_new [OF _ at]) (use assms ids in \<open>auto simp: net_ok_def ids_ok_def\<close>)
  ultimately show ?thesis using assms(1,9) by (simp add: net_ok_def)
qed

section \<open>Events and sweeps keep the invariant\<close>

text \<open>A round is refused when the receive queue did not take a message.\<close>

definition refused :: "handle_input \<Rightarrow> handle_open option \<Rightarrow> nat \<Rightarrow> net \<Rightarrow> int \<Rightarrow> answers \<Rightarrow> bool" where
  "refused h ho bufsz n fd a \<longleftrightarrow>
     (case run_once h ho bufsz n fd a of
        None \<Rightarrow> False
      | Some (r, n') \<Rightarrow> CN_LISTEN \<notin> flag (at n fd) \<and> stuck r (at n' fd))"

text \<open>What \<^verbatim>\<open>accept\<close> may answer: nothing, or a descriptor below the limit that the process
  asked for (\<^verbatim>\<open>RLIMIT_NOFILE\<close>, \<^verbatim>\<open>daemon.c\<close>) and that is not open.\<close>

definition accept_ok :: "net \<Rightarrow> answers \<Rightarrow> bool" where
  "accept_ok n a \<longleftrightarrow>
     fst (a_accept a) \<le> 0 \<or> fst (a_accept a) < MAXFDS \<and> fst (a_accept a) \<notin> live n"

lemma net_ok_hup:
  assumes "net_ok h n gone bs acc" "fd \<in> live n" "CN_PIPE \<notin> flag (at n fd)"
  shows "\<exists>n'. do_close_conn n fd = Some n' \<and> net_ok h n' gone bs acc"
proof (cases "CN_LISTEN \<in> flag (at n fd)")
  case True
  with assms(1) show ?thesis by (auto simp: do_close_conn_def)
next
  case False
  with assms have t: "tcp_conn n fd" by (auto simp: net_ok_def table_ok_def)
  have "\<exists>n'. do_close_conn n fd = Some n' \<and> sends n fd [] n' \<and> CN_VALID \<notin> flag (at n' fd)"
    by (rule close_sends [where ?f1.0 = "at n fd" and sent = "[]"])
       (use t net_ok_conn [OF assms(1) t] in \<open>auto simp: same_in_def fun_upd_idem\<close>)
  then obtain n' where n': "do_close_conn n fd = Some n'" "sends n fd [] n'" by blast
  with net_ok_sends [OF assms(1) n'(2) t] show ?thesis by auto
qed

lemma net_ok_recv:
  assumes "net_ok h n gone bs acc" "framer h" "0 < bufsz" "tcp_conn n fd"
  shows "\<exists>r n'. run_recv (\<lambda>b _. h b) bufsz alloc n fd rs now = Some (r, n') \<and>
     (\<not> stuck r (at n' fd) \<longrightarrow> (\<exists>new. net_ok h n' gone (bs @ new) acc))"
proof -
  obtain r n' new where r: "run_recv (\<lambda>b _. h b) bufsz alloc n fd rs now = Some (r, n')"
     "touches n fd r n'" "holds (recvq n') (bs @ new)"
     "\<not> stuck r (at n' fd) \<longrightarrow> in_ok h n' (gone @ bs @ new)"
    using run_recv_post [OF assms(2) _ _ assms(4,3), of gone bs alloc rs now] assms(1)
    unfolding net_ok_def by blast
  note c = net_ok_conn [OF assms(1,4)]
  obtain f' dm where t: "fdinfo n' = (fdinfo n)(fd := f')" "maxfd n' = maxfd n - dm"
    "\<And>i. i \<noteq> fd_id (at n fd) \<Longrightarrow> wire_in n' i = wire_in n i"
    "f' = zero_fdinfo \<and> dm = 1 \<or> flag f' = flag (at n fd) \<and> dm = 0"
    using r(2) unfolding touches_def same_out_def by (metis fun_upd_other)
  have "table_ok n'"
    using table_ok_change [OF _ t(1) c(4) assms(4) t(2)] t(4) assms(1) by (auto simp: net_ok_def)
  moreover have "idle_ok n'"
    using idle_ok_change [OF _ c(7) t(1) assms(4) _ t(3)] t(4) assms(1) by (auto simp: net_ok_def)
  moreover have "out_ok n' acc"
    using out_ok_touches [OF _ r(2) assms(4)] assms(1) by (simp add: net_ok_def)
  ultimately show ?thesis using r by (auto simp: net_ok_def)
qed

lemma net_ok_accept:
  assumes "net_ok h n gone bs acc" "no_greeting ho" "CN_LISTEN \<in> flag (at n fd)" "fd \<in> live n"
    "accept_ok n a"
  shows "\<exists>r n'. run_accept ho n fd (a_accept a) ts now = Some (r, n') \<and> net_ok h n' gone bs acc"
proof (cases "fst (a_accept a) \<le> 0")
  case True
  then show ?thesis using assms(1)
    by (auto simp: run_accept_def do_open_conn_def Let_def split: prod.splits)
next
  case False
  define w where "w = fst (a_accept a)"
  have w: "0 < w" "w < MAXFDS" "w \<notin> live n" "fd \<noteq> w"
    using False assms(4,5) by (auto simp: w_def accept_ok_def)
  obtain r n' where r: "run_accept ho n fd (a_accept a) ts now = Some (r, n')"
    "n' = n \<or> opens n w n' \<and> wire_out n' = wire_out n \<and> cb (at n' w) = zero_cb"
    using run_accept_plain [OF assms(2,3), of "a_accept a" ts now] w(4) by (auto simp: w_def)
  from r(2) show ?thesis
  proof
    assume o: "opens n w n' \<and> wire_out n' = wire_out n \<and> cb (at n' w) = zero_cb"
    obtain f' dm where n': "fdinfo n' = (fdinfo n)(w := f')" "maxfd n' = maxfd n + dm" "recvq n' = recvq n"
      "wire_in n' = wire_in n" "f' = zero_fdinfo \<and> dm = 0 \<or> fresh_entry n f' \<and> dm = 1"
      using o unfolding opens_def by blast
    have ids: "ids_ok n" using assms(1) by (simp add: net_ok_def in_ok_def)
    have nv: "CN_VALID \<notin> flag (at n w)" using w(3) by (simp add: live_def)
    have "table_ok n'"
      by (rule table_ok_new [OF _ n'(1) w(3) _ w(2) n'(2)])
         (use n'(5) assms(1) w(1) in \<open>auto simp: net_ok_def fresh_entry_def\<close>)
    moreover have "idle_ok n'"
      by (rule idle_ok_new [OF _ n'(1,4)])
         (use n'(5) assms(1) ids in \<open>auto simp: net_ok_def fresh_entry_def ids_ok_def\<close>)
    moreover have "in_ok h n' (gone @ bs)" "out_ok n' acc"
      using in_ok_opens [OF _ _ nv] out_ok_opens [of n acc w n'] o assms(1) ids
      by (auto simp: net_ok_def)
    ultimately show ?thesis using r(1) n'(3) assms(1) by (auto simp: net_ok_def)
  qed (use r(1) assms(1) in auto)
qed

lemma net_ok_event:
  assumes "net_ok h n gone bs acc" "framer h" "0 < bufsz" "no_greeting ho" "fd \<in> live n"
    "accept_ok n (env fd)"
  shows "\<exists>n'. on_event (\<lambda>b _. h b) ho bufsz env n (fd, e) = Some n' \<and>
     (\<not> refused (\<lambda>b _. h b) ho bufsz n fd (env fd) \<longrightarrow> (\<exists>new. net_ok h n' gone (bs @ new) acc))"
proof (cases "CN_PIPE \<in> flag (at n fd) \<or> CN_FIN \<in> flag (at n fd) \<or> e = Ep_none")
  case True
  then have "on_event (\<lambda>b _. h b) ho bufsz env n (fd, e) = Some n"
    by (auto simp: on_event_def)
  with assms(1) show ?thesis by (auto intro: exI [where x = "[]"])
next
  case False
  then have plain: "CN_PIPE \<notin> flag (at n fd)" "CN_FIN \<notin> flag (at n fd)" by auto
  have udp: "CN_UDP \<notin> flag (at n fd)" using assms(1,5) by (auto simp: net_ok_def table_ok_def)
  show ?thesis
  proof (cases "e = Ep_hup_err")
    case True
    obtain n' where "do_close_conn n fd = Some n'" "net_ok h n' gone (bs @ []) acc"
      using net_ok_hup [OF assms(1,5) plain(1)] by auto
    with plain True show ?thesis by (auto simp: on_event_def simp del: append_Nil2)
  next
    case False2: False
    with False have e: "e = Ep_in" by (cases e) auto
    show ?thesis
    proof (cases "CN_LISTEN \<in> flag (at n fd)")
      case True
      obtain r n' where "run_accept ho n fd (a_accept (env fd)) (a_send (env fd)) (a_now (env fd)) = Some (r, n')"
          "net_ok h n' gone (bs @ []) acc"
        using net_ok_accept [OF assms(1,4) True assms(5,6), of "a_send (env fd)" "a_now (env fd)"]
        by auto
      with e plain True udp show ?thesis
        by (auto simp: on_event_def run_once_def simp del: append_Nil2)
    next
      case False
      with assms plain have t: "tcp_conn n fd" by (auto simp: net_ok_def table_ok_def)
      obtain r n' where r: "run_recv (\<lambda>b _. h b) bufsz (a_alloc (env fd)) n fd (a_recv (env fd)) (a_now (env fd)) = Some (r, n')"
          "\<not> stuck r (at n' fd) \<longrightarrow> (\<exists>new. net_ok h n' gone (bs @ new) acc)"
        using net_ok_recv [OF assms(1-3) t] by blast
      then have "run_once (\<lambda>b _. h b) ho bufsz n fd (env fd) = Some (r, n')"
        using False udp by (simp add: run_once_def)
      with r e plain False show ?thesis by (auto simp: on_event_def refused_def)
    qed
  qed
qed

lemma net_ok_visit:
  assumes "net_ok h n gone bs acc" "pos \<in> live n"
  shows "\<exists>n'. visit tsc tx now n pos = Some n' \<and> net_ok h n' gone bs acc \<and>
     live n' \<subseteq> live n \<and> (\<forall>x. x \<noteq> pos \<longrightarrow> at n' x = at n x) \<and>
     maxfd n' \<le> maxfd n"
proof (cases "tcp_conn n pos")
  case False
  with assms have "CN_LISTEN \<in> flag (at n pos) \<or> CN_PIPE \<in> flag (at n pos)"
    by (auto simp: net_ok_def table_ok_def)
  with assms(1) show ?thesis by (auto simp: visit_def)
next
  case True
  note c = net_ok_conn [OF assms(1) True]
  obtain n' where n': "visit tsc tx now n pos = Some n'" "sends n pos [] n'"
    using visit_post [OF True c(2,3)] by blast
  have "net_ok h n' gone bs acc" using net_ok_sends [OF assms(1) n'(2) True] by simp
  moreover obtain f' dm where "fdinfo n' = (fdinfo n)(pos := f')" "maxfd n' = maxfd n - dm" "dm = 0 \<or> dm = 1"
    using n'(2) unfolding sends_def by blast
  moreover have "live n' \<subseteq> live n" using calculation(2) assms(2) by (auto simp: live_def split: if_splits)
  ultimately show ?thesis using n'(1) by auto
qed

text \<open>While the sweep has entries to count, it has live entries before it.\<close>

lemma sweep_ok:
  assumes "net_ok h n gone bs acc" "maxfd n - j \<le> int (card {fd \<in> live n. pos \<le> fd})" "0 \<le> pos"
  shows "\<exists>n'. sweep tsc tx now pos j n = Some n' \<and> net_ok h n' gone bs acc"
  using assms
proof (induction tsc tx now pos j n rule: sweep.induct)
  case (1 tsc tx now pos j n)
  have fin: "finite {fd \<in> live n. pos \<le> fd}" "live n \<subseteq> {0..<MAXFDS}"
    using 1(3) live_finite [of n] by (auto simp: net_ok_def table_ok_def)
  show ?case
  proof (cases "j \<ge> maxfd n")
    case True
    with 1(3) show ?thesis by (subst sweep.simps) auto
  next
    case False
    then have "{fd \<in> live n. pos \<le> fd} \<noteq> {}" using 1(4) by (intro notI) simp
    then have pos: "\<not> pos \<ge> MAXFDS" using fin(2) by force
    show ?thesis
    proof (cases "CN_VALID \<in> flag (at n pos)")
      case nv: False
      then have "{fd \<in> live n. pos + 1 \<le> fd} = {fd \<in> live n. pos \<le> fd}"
        by (auto simp: live_def) (metis order_le_less zless_imp_add1_zle)
      with 1 False pos nv have "\<exists>n'. sweep tsc tx now (pos + 1) j n = Some n' \<and> net_ok h n' gone bs acc"
        by simp
      then show ?thesis using False pos nv by (subst sweep.simps) simp
    next
      case v: True
      then have lv: "pos \<in> live n" by (simp add: live_def)
      obtain n1 where n1: "visit tsc tx now n pos = Some n1" "net_ok h n1 gone bs acc" "live n1 \<subseteq> live n"
        "\<forall>x. x \<noteq> pos \<longrightarrow> at n1 x = at n x" "maxfd n1 \<le> maxfd n"
        using net_ok_visit [OF 1(3) lv] by blast
      have eq: "{fd \<in> live n1. pos + 1 \<le> fd} = {fd \<in> live n. pos \<le> fd} - {pos}"
      proof (rule set_eqI)
        fix x show "x \<in> {fd \<in> live n1. pos + 1 \<le> fd} \<longleftrightarrow> x \<in> {fd \<in> live n. pos \<le> fd} - {pos}"
          using n1(4) by (cases "x = pos") (auto simp: live_def)
      qed
      have "int (card {fd \<in> live n1. pos + 1 \<le> fd}) = int (card {fd \<in> live n. pos \<le> fd}) - 1"
        unfolding eq using card_Suc_Diff1 [OF fin(1), of pos] lv by simp
      then have "maxfd n1 - (j + 1) \<le> int (card {fd \<in> live n1. pos + 1 \<le> fd})"
        using 1(4) n1(5) by simp
      moreover have "0 \<le> pos + 1" using 1(5) by simp
      ultimately have "\<exists>n'. sweep tsc tx now (pos + 1) (j + 1) n1 = Some n' \<and> net_ok h n' gone bs acc"
        using 1(2) [OF False pos _ n1(1) n1(2)] v by simp
      then show ?thesis using False pos v n1(1) by (subst sweep.simps) simp
    qed
  qed
qed

lemma net_ok_sweep:
  "net_ok h n gone bs acc \<Longrightarrow> \<exists>n'. sweep tsc tx now 0 0 n = Some n' \<and> net_ok h n' gone bs acc"
proof (rule sweep_ok)
  assume ok: "net_ok h n gone bs acc"
  have "{fd \<in> live n. 0 \<le> fd} = live n" using ok by (auto simp: net_ok_def table_ok_def)
  then show "maxfd n - 0 \<le> int (card {fd \<in> live n. 0 \<le> fd})"
    using ok by (simp add: net_ok_def table_ok_def)
qed auto

section \<open>Runs\<close>

text \<open>A reply finds its connection when the descriptor is still that connection's.\<close>

definition hits :: "net \<Rightarrow> slot \<Rightarrow> bool" where
  "hits n s \<longleftrightarrow>
     blk_typ (fst s) \<noteq> PAD_BLOCK \<and> sockfd (blk_sk (fst s)) < MAXFDS \<and>
     CN_VALID \<in> flag (at n (sockfd (blk_sk (fst s)))) \<and>
     blk_id (fst s) = fd_id (at n (sockfd (blk_sk (fst s))))"

definition credit :: "net \<Rightarrow> slot \<Rightarrow> (int \<Rightarrow> byte list) \<Rightarrow> int \<Rightarrow> byte list" where
  "credit n s acc =
     (if hits n s then acc(blk_id (fst s) := acc (blk_id (fst s)) @ snd s) else acc)"

text \<open>
  \<open>conn_run h ho bufsz q0 n gone acc\<close>: the process can be in state \<open>n\<close>, the workers having
  taken the blocks \<open>gone\<close> from the receive queue, and \<open>acc i\<close> being the data of the replies
  that found connection \<open>i\<close> open. Replies carry the id of a request that was taken.
\<close>

inductive conn_run ::
  "(byte list \<Rightarrow> int) \<Rightarrow> handle_open option \<Rightarrow> nat \<Rightarrow> shm_queue \<Rightarrow>
   net \<Rightarrow> slot list \<Rightarrow> (int \<Rightarrow> byte list) \<Rightarrow> bool"
  for h ho bufsz q0 where
  start: "conn_run h ho bufsz q0 (net_init q0) [] (\<lambda>_. [])"
| listen: "conn_run h ho bufsz q0 n gone acc \<Longrightarrow> fd \<notin> live n \<Longrightarrow> 0 \<le> fd \<Longrightarrow> fd < MAXFDS \<Longrightarrow>
     conn_run h ho bufsz q0 (net_start n fd False addr tmo) gone acc"
| pipe: "conn_run h ho bufsz q0 n gone acc \<Longrightarrow> fd \<notin> live n \<Longrightarrow> 0 \<le> fd \<Longrightarrow> fd < MAXFDS \<Longrightarrow>
     conn_run h ho bufsz q0 (do_add_conn n fd {CN_PIPE} (0, 0) None 0) gone acc"
| event: "conn_run h ho bufsz q0 n gone acc \<Longrightarrow> fd \<in> live n \<Longrightarrow> accept_ok n (env fd) \<Longrightarrow>
     \<not> refused (\<lambda>b _. h b) ho bufsz n fd (env fd) \<Longrightarrow>
     on_event (\<lambda>b _. h b) ho bufsz env n (fd, e) = Some n' \<Longrightarrow>
     conn_run h ho bufsz q0 n' gone acc"
| reply: "conn_run h ho bufsz q0 n gone acc \<Longrightarrow>
     \<exists>b \<in> set gone. blk_id (fst s) = blk_id (fst b) \<Longrightarrow>
     schedule_output True n s ts ts' dg = Some (r, n') \<Longrightarrow>
     conn_run h ho bufsz q0 n' gone (credit n s acc)"
| sweep: "conn_run h ho bufsz q0 n gone acc \<Longrightarrow> sweep tsc tx now 0 0 n = Some n' \<Longrightarrow>
     conn_run h ho bufsz q0 n' gone acc"
| take_block: "conn_run h ho bufsz q0 n gone acc \<Longrightarrow> pop_now (recvq n) = (Some b, q') \<Longrightarrow>
     conn_run h ho bufsz q0 (n\<lparr>recvq := q'\<rparr>) (gone @ [b]) acc"

lemma net_ok_start:
  assumes "holds q []"
  shows "net_ok h (net_init q) [] [] (\<lambda>_. [])"
  using assms
  by (auto simp: net_ok_def net_init_def in_ok_def ids_ok_def out_ok_def table_ok_def idle_ok_def
      live_def tcp_conn_def sent_for_def)

lemma schedule_output_misses:
  "\<not> hits n s \<Longrightarrow> schedule_output alloc n s ts ts' dg = Some (-1, n)"
  by (auto simp: schedule_output_def hits_def Let_def)

lemma taken_id_conn:
  assumes "net_ok h n gone bs acc" "b \<in> set gone" "fd \<in> live n" "blk_id (fst b) = fd_id (at n fd)"
  shows "tcp_conn n fd"
proof (rule ccontr)
  assume "\<not> tcp_conn n fd"
  with assms have "wire_in n (blk_id (fst b)) = []" by (simp add: net_ok_def idle_ok_def)
  with assms(1) have "sent_for (blk_id (fst b)) (gone @ bs) = []" by (simp add: net_ok_def in_ok_def)
  with assms(2) show False by (auto simp: sent_for_def filter_empty_conv)
qed

lemma net_ok_reply:
  assumes "net_ok h n gone bs acc" "\<exists>b \<in> set gone. blk_id (fst s) = blk_id (fst b)"
  shows "\<exists>r n'. schedule_output True n s ts ts' dg = Some (r, n') \<and> net_ok h n' gone bs (credit n s acc)"
proof (cases "hits n s")
  case False
  with assms(1) schedule_output_misses show ?thesis by (simp add: credit_def)
next
  case True
  define fd where "fd = sockfd (blk_sk (fst s))"
  have h: "blk_typ (fst s) \<noteq> PAD_BLOCK" "fd < MAXFDS" "fd \<in> live n" "blk_id (fst s) = fd_id (at n fd)"
    using True by (simp_all add: hits_def fd_def live_def)
  obtain b where "b \<in> set gone" "blk_id (fst b) = fd_id (at n fd)" using assms(2) h(4) by auto
  then have t: "tcp_conn n fd" using taken_id_conn [OF assms(1)] h(3) by blast
  note c = net_ok_conn [OF assms(1) t]
  obtain r n' where "schedule_output True n s ts ts' dg = Some (r, n')" "sends n fd (snd s) n'"
    using schedule_output_post [OF t fd_def h(2,4,1) c(2,3)] by blast
  with net_ok_sends [OF assms(1) _ t] True h(4) show ?thesis by (auto simp: credit_def)
qed

lemma recvq_irrelevant:
  "tcp_conn (n\<lparr>recvq := q\<rparr>) = tcp_conn n" "live (n\<lparr>recvq := q\<rparr>) = live n"
  "ids_ok (n\<lparr>recvq := q\<rparr>) = ids_ok n"
  by (auto simp: fun_eq_iff tcp_conn_def live_def ids_ok_def)

lemma net_ok_take:
  assumes "net_ok h n gone bs acc" "pop_now (recvq n) = (Some b, q')"
  shows "\<exists>cs. net_ok h (n\<lparr>recvq := q'\<rparr>) (gone @ [b]) cs acc"
proof -
  have q: "holds (recvq n) bs" using assms(1) by (simp add: net_ok_def)
  have "bs \<noteq> []" using shmq.pop_empty [of "recvq n"] q assms(2) by auto
  then obtain c cs where bs: "bs = c # cs" by (cases bs) auto
  with shmq.pop_first [of "recvq n" c cs] q assms(2) have "b = c" "holds q' cs" by auto
  with assms(1) bs have "net_ok h (n\<lparr>recvq := q'\<rparr>) (gone @ [b]) cs acc"
    by (simp add: net_ok_def in_ok_def out_ok_def table_ok_def idle_ok_def recvq_irrelevant)
  then show ?thesis ..
qed

text \<open>Every reachable state satisfies the invariant.\<close>

lemma conn_run_ok:
  assumes "conn_run h ho bufsz q0 n gone acc" "framer h" "0 < bufsz" "no_greeting ho" "holds q0 []"
  shows "\<exists>bs. net_ok h n gone bs acc"
  using assms(1)
proof (induction rule: conn_run.induct)
  case start
  show ?case using net_ok_start [OF assms(5)] by blast
next
  case (listen n gone acc fd addr tmo)
  then obtain bs where "net_ok h n gone bs acc" by blast
  then have "net_ok h (net_start n fd False addr tmo) gone bs acc"
    unfolding net_start_def using listen(2-4)
    by (intro net_ok_listen [where ?f0.0 = "(at n fd)\<lparr>accept_fd := fd\<rparr>"]) (auto simp: upd_def)
  then show ?case ..
next
  case (pipe n gone acc fd)
  then obtain bs where "net_ok h n gone bs acc" by blast
  then have "net_ok h (do_add_conn n fd {CN_PIPE} (0, 0) None 0) gone bs acc"
    using pipe(2-4) by (intro net_ok_listen [where ?f0.0 = "at n fd"]) auto
  then show ?case ..
next
  case (event n gone acc fd env e n')
  then obtain bs where "net_ok h n gone bs acc" by blast
  from net_ok_event [OF this assms(2-4) event(2), of env e] event(3-5) show ?case by auto
next
  case (reply n gone acc s ts ts' dg r n')
  then obtain bs where "net_ok h n gone bs acc" by blast
  from net_ok_reply [OF this reply(2), of ts ts' dg] reply(3) show ?case by auto
next
  case (sweep n gone acc tsc tx now n')
  then obtain bs where "net_ok h n gone bs acc" by blast
  from net_ok_sweep [OF this, of tsc tx now] sweep(2) show ?case by auto
next
  case (take_block n gone acc b q')
  then obtain bs where "net_ok h n gone bs acc" by blast
  from net_ok_take [OF this take_block(2)] show ?case .
qed

section \<open>An example run\<close>

text \<open>A service whose messages start with their length in one byte.\<close>

definition len_byte :: "byte list \<Rightarrow> int" where
  "len_byte bs = (case bs of [] \<Rightarrow> 0 | b # _ \<Rightarrow> int (unat b))"

lemma framer_len_byte: "framer len_byte"
  by unfold_locales (auto simp: len_byte_def split: list.splits)

definition demo_env :: "int \<Rightarrow> byte list \<Rightarrow> int \<Rightarrow> answers" where
  "demo_env newfd bs fd =
     \<lparr>a_accept = (newfd, 16, 1024), a_dgram = None, a_recv = [RxData bs], a_send = [TxSent 1],
      a_alloc = True, a_now = 5\<rparr>"

definition demo_n1 :: net where
  "demo_n1 = net_start (net_init (do_shmq_create 400)) 3 False (1, 80) 0"

definition demo_n2 :: net where
  "demo_n2 = the (on_event (\<lambda>b _. len_byte b) None 8 (demo_env 5 []) demo_n1 (3, Ep_in))"

definition demo_n3 :: net where
  "demo_n3 = the (on_event (\<lambda>b _. len_byte b) None 8 (demo_env 0 [2, 9, 3]) demo_n2 (5, Ep_in))"

definition demo_request :: slot where
  "demo_request = the (fst (pop_now (recvq demo_n3)))"

definition demo_n4 :: net where
  "demo_n4 = demo_n3\<lparr>recvq := snd (pop_now (recvq demo_n3))\<rparr>"

definition demo_reply :: slot where
  "demo_reply = ((fst demo_request)\<lparr>blk_typ := FIN_BLOCK, blk_len := shm_block_sz + 2\<rparr>, [7, 8])"

definition demo_n5 :: net where
  "demo_n5 = snd (the (schedule_output True demo_n4 demo_reply [] [TxSent 1] False))"

lemma demo_holds: "holds (do_shmq_create 400) []"
  by (rule create_holds) (simp_all add: shm_head_sz_def)

lemma demo_facts:
  "CN_VALID \<in> flag (at demo_n1 3)" "CN_VALID \<notin> flag (at demo_n1 5)"
  "CN_VALID \<in> flag (at demo_n2 5)"
  "\<not> refused (\<lambda>b _. len_byte b) None 8 demo_n1 3 (demo_env 5 [] 3)"
  "\<not> refused (\<lambda>b _. len_byte b) None 8 demo_n2 5 (demo_env 0 [2, 9, 3] 5)"
  by code_simp+

lemma demo_blocks:
  "fst (pop_now (recvq demo_n3)) \<noteq> None" "snd demo_request = [2, 9]" "hits demo_n4 demo_reply"
  "fd_id (at demo_n4 5) = 1" "blk_id (fst demo_request) = 1"
  by code_simp+

lemma demo_wires:
  "wire_in demo_n5 1 = [2, 9, 3]" "wire_out demo_n5 1 = [7]" "pending_out (cb (at demo_n5 5)) = [8]"
  "CN_FIN \<in> flag (at demo_n5 5)" "CN_VALID \<in> flag (at demo_n5 5)" "timeout (at demo_n5 5) = 0"
  "fst (do_write_conn demo_n5 5 [TxSent 1] 9) = 1" "CN_LISTEN \<notin> flag (at demo_n5 5)"
  "CN_UDP \<notin> flag (at demo_n5 5)" "CN_PIPE \<notin> flag (at demo_n5 5)"
  by code_simp+

lemma demo_run_taken:
  "conn_run len_byte None 8 (do_shmq_create 400) demo_n4 [demo_request] (\<lambda>_. [])"
proof -
  let ?R = "conn_run len_byte None 8 (do_shmq_create 400)"
  have ok: "\<exists>bs. net_ok len_byte n gone bs acc" if "?R n gone acc" for n gone acc
    using conn_run_ok [OF that framer_len_byte _ _ demo_holds] by (simp add: no_greeting_def)
  have r1: "?R demo_n1 [] (\<lambda>_. [])"
    unfolding demo_n1_def
    by (intro conn_run.listen conn_run.start) (auto simp: live_def net_init_def MAXFDS_def)
  have l1: "3 \<in> live demo_n1" "accept_ok demo_n1 (demo_env 5 [] 3)"
    using demo_facts by (simp_all add: live_def accept_ok_def demo_env_def MAXFDS_def)
  obtain m2 where m2: "on_event (\<lambda>b _. len_byte b) None 8 (demo_env 5 []) demo_n1 (3, Ep_in) = Some m2"
    using ok [OF r1] net_ok_event [OF _ framer_len_byte, of demo_n1 "[]" _ "\<lambda>_. []" 8 None 3 "demo_env 5 []" Ep_in] l1
    by (auto simp: no_greeting_def)
  have r2: "?R demo_n2 [] (\<lambda>_. [])"
    using conn_run.event [where env = "demo_env 5 []", OF r1 l1 demo_facts(4), of Ep_in] m2 by (simp add: demo_n2_def)
  have l2: "5 \<in> live demo_n2" "accept_ok demo_n2 (demo_env 0 [2, 9, 3] 5)"
    using demo_facts by (simp_all add: live_def accept_ok_def demo_env_def)
  obtain m3 where m3: "on_event (\<lambda>b _. len_byte b) None 8 (demo_env 0 [2, 9, 3]) demo_n2 (5, Ep_in) = Some m3"
    using ok [OF r2] net_ok_event [OF _ framer_len_byte, of demo_n2 "[]" _ "\<lambda>_. []" 8 None 5 "demo_env 0 [2, 9, 3]" Ep_in] l2
    by (auto simp: no_greeting_def)
  have r3: "?R demo_n3 [] (\<lambda>_. [])"
    using conn_run.event [where env = "demo_env 0 [2, 9, 3]", OF r2 l2 demo_facts(5), of Ep_in] m3 by (simp add: demo_n3_def)
  have pop: "pop_now (recvq demo_n3) = (Some demo_request, snd (pop_now (recvq demo_n3)))"
    using demo_blocks(1) by (auto simp: demo_request_def prod_eq_iff)
  show ?thesis
    using conn_run.take_block [OF r3 pop] by (simp add: demo_n4_def)
qed

lemma demo_run:
  "conn_run len_byte None 8 (do_shmq_create 400) demo_n5 [demo_request]
     ((\<lambda>_. [])(1 := [7, 8]))"
proof -
  note r4 = demo_run_taken
  have id: "\<exists>b \<in> set [demo_request]. blk_id (fst demo_reply) = blk_id (fst b)"
    by (simp add: demo_reply_def)
  obtain bs where bs: "net_ok len_byte demo_n4 [demo_request] bs (\<lambda>_. [])"
    using conn_run_ok [OF r4 framer_len_byte _ _ demo_holds] by (auto simp: no_greeting_def)
  obtain r m5 where m5: "schedule_output True demo_n4 demo_reply [] [TxSent 1] False = Some (r, m5)"
    using net_ok_reply [OF bs id] by blast
  have "credit demo_n4 demo_reply (\<lambda>_. []) = (\<lambda>_. [])(1 := [7, 8])"
    using demo_blocks(3,5) by (simp add: credit_def demo_reply_def)
  then show ?thesis
    using conn_run.reply [OF r4 id m5] m5 by (simp add: demo_n5_def)
qed

section \<open>The properties of the connection process\<close>



text \<open>C16: In every run, what the kernel accepted on a connection is a prefix of the reply data
  addressed to it while it was open, never anything meant for another connection; as long as
  it is open the rest is exactly what waits in its send buffer.\<close>

theorem conn_run_replies:
  assumes "conn_run h ho bufsz q0 n gone acc" "framer h" "0 < bufsz" "no_greeting ho" "holds q0 []"
  shows "(\<forall>i. prefix (wire_out n i) (acc i)) \<and>
    (\<forall>fd. tcp_conn n fd \<longrightarrow>
       acc (fd_id (at n fd)) = wire_out n (fd_id (at n fd)) @ pending_out (cb (at n fd)))"
  using conn_run_ok [OF assms] by (auto simp: net_ok_def out_ok_def)

theorem conn_run_replies_witness:
  "prefix (wire_out demo_n5 1) [7, 8] \<and>
   [7, 8] = wire_out demo_n5 (fd_id (at demo_n5 5)) @ pending_out (cb (at demo_n5 5))"
proof -
  have t: "tcp_conn demo_n5 5" using demo_wires by (simp add: tcp_conn_def)
  have "fd_id (at demo_n5 5) = 1" by code_simp
  with conn_run_replies [OF demo_run framer_len_byte _ _ demo_holds] t show ?thesis
    by (auto simp: no_greeting_def dest: spec [where x = 1])
qed



text \<open>A connection marked to be finished (and without an idle limit) is closed by the sweep
  exactly when all the reply data addressed to it has been given to the kernel.\<close>

lemma fin_closes_when_flushed:
  assumes "conn_run h ho bufsz q0 n gone acc" "framer h" "0 < bufsz" "no_greeting ho" "holds q0 []"
    "tcp_conn n fd" "CN_FIN \<in> flag (at n fd)" "timeout (at n fd) = 0"
    "fst (do_write_conn n fd (tx fd) (now fd)) \<noteq> -1" "visit tsc tx now n fd = Some n'"
  shows "fd \<notin> live n' \<longleftrightarrow> wire_out n' (fd_id (at n fd)) = acc (fd_id (at n fd))"
proof -
  obtain bs where ok: "net_ok h n gone bs acc" using conn_run_ok [OF assms(1-5)] by blast
  note c = net_ok_conn [OF ok assms(6)]
  obtain r n1 where w: "do_write_conn n fd (tx fd) (now fd) = (r, n1)" by fastforce
  define n2 where "n2 = (if sendlen (cb (at n fd)) > 0 then n1 else n)"
  have acc: "acc (fd_id (at n fd)) = wire_out n (fd_id (at n fd)) @ pending_out (cb (at n fd))"
    using ok assms(6) by (simp add: net_ok_def out_ok_def)
  obtain f2 where n2: "at n2 fd = f2" "same_in (at n fd) f2" "out_buf_ok (cb f2)"
      "acc (fd_id (at n fd)) = wire_out n2 (fd_id (at n fd)) @ pending_out (cb f2)"
  proof (cases "sendlen (cb (at n fd)) > 0")
    case True
    with do_write_conn_post [OF c(2) w] assms(9) w acc show thesis
      by (intro that [of "at n1 fd"]) (auto simp: n2_def)
  next
    case False
    with c(2) acc show thesis by (intro that [of "at n fd"]) (simp_all add: n2_def same_in_def)
  qed
  have vis: "visit tsc tx now n fd = do_check_conn tsc n2 fd"
    using assms(6,9) w by (auto simp: visit_def n2_def tcp_conn_def)
  have fl: "CN_FIN \<in> flag f2" "CN_LISTEN \<notin> flag f2" "CN_VALID \<in> flag f2" "timeout f2 = 0"
    using n2(2) assms(6-8) by (auto simp: same_in_def tcp_conn_def)
  have cl: "do_close_conn n2 fd = Some (closed n2 fd)"
    using n2(1,2) c(3) by (intro do_close_conn_closed) (simp add: same_in_def same_rcv_def)
  have len: "sendlen (cb f2) = 0 \<longleftrightarrow> pending_out (cb f2) = []"
    using pending_out_length [OF n2(3)] by auto
  show ?thesis
  proof (cases "sendlen (cb f2) = 0")
    case True
    then have "n' = closed n2 fd" using assms(10) vis cl fl n2(1) by (simp add: do_check_conn_def)
    then show ?thesis using True fl n2 len by (simp add: live_def closable_def)
  next
    case False
    then have "n' = n2" using assms(10) vis fl n2(1) by (simp add: do_check_conn_def)
    then show ?thesis using False fl n2 len by (simp add: live_def)
  qed
qed

definition demo_n6 :: net where
  "demo_n6 = the (visit 0 (\<lambda>_. [TxSent 1]) (\<lambda>_. 9) demo_n5 5)"

lemma fin_closes_when_flushed_witness:
  "5 \<notin> live demo_n6 \<longleftrightarrow> wire_out demo_n6 (fd_id (at demo_n5 5)) = ((\<lambda>_. [])(1 := [7, 8])) (fd_id (at demo_n5 5))"
proof (rule fin_closes_when_flushed [OF demo_run framer_len_byte _ _ demo_holds])
  show "visit 0 (\<lambda>_. [TxSent 1]) (\<lambda>_. 9) demo_n5 5 = Some demo_n6"
  proof -
    have "visit 0 (\<lambda>_. [TxSent 1]) (\<lambda>_. 9) demo_n5 5 \<noteq> None" by code_simp
    then show ?thesis by (auto simp: demo_n6_def)
  qed
qed (use demo_wires in \<open>simp_all add: no_greeting_def tcp_conn_def\<close>)

end
