(* ===== verification/NetUdp.thy ===== *)
theory NetUdp
  imports NetRun
begin

text \<open>
  Two behaviours of \<^verbatim>\<open>net.c\<close> outside the runs of \<open>NetRun\<close>: the datagram path
  (\<^verbatim>\<open>udp_recv\<close>), and what becomes of a connection when the receive queue refuses one of its
  messages.
\<close>

section \<open>Datagrams\<close>

definition dgram_block :: "fdinfo \<Rightarrow> int \<times> int \<Rightarrow> int \<Rightarrow> byte list \<Rightarrow> slot" where
  "dgram_block f peer now bs =
     (data_block (f\<lparr>sk := (sk f)\<lparr>remote_ip := fst peer, remote_port := snd peer, recvtm := now\<rparr>\<rparr>)
        (int (length bs)), bs)"

definition udp_buf :: "nat \<Rightarrow> conn_buf \<Rightarrow> nat" where
  "udp_buf bufsz c = (if rcvbufsz c = 0 then bufsz else rcvbufsz c)"

lemma dgram_block_ok:
  "0 < length bs \<Longrightarrow> int (length bs) \<le> RCVBUFMAX \<Longrightarrow> block_ok (dgram_block f p now bs)"
  by (simp add: dgram_block_def data_block_def block_ok_def shm_block_sz_def RCVBUFMAX_def)

text \<open>A datagram that fits the receive buffer becomes exactly one request block, with the
  datagram as its data and its sender as the address to answer to, if the service takes it
  whole and the queue has room; otherwise the queue's content does not change.\<close>

theorem udp_recv_block:
  assumes "length (rcvmem (cb (at n fd))) = rcvbufsz (cb (at n fd))"
    "bs \<noteq> []" "length bs \<le> udp_buf bufsz (cb (at n fd))" "int (length bs) \<le> RCVBUFMAX"
    "holds (recvq n) waiting"
  shows "\<exists>r n'. udp_recv h bufsz True n fd (Some (peer, bs)) now = Some (r, n') \<and>
     (if r = 0
      then h bs ((sk (at n fd))\<lparr>remote_ip := fst peer, remote_port := snd peer\<rparr>) = int (length bs) \<and>
           holds (recvq n') (waiting @ [dgram_block (at n fd) peer now bs])
      else holds (recvq n') waiting)"
proof -
  define c where "c = cb (at n fd)"
  define c1 where "c1 = (if rcvbufsz c = 0
      then c\<lparr>recvptr := 0, rcvmem := malloc_mem bufsz, rcvbufsz := bufsz\<rparr> else c)"
  define c2 where "c2 = c1\<lparr>rcvmem := wr 0 bs (rcvmem c1)\<rparr>"
  define s where "s = (sk (at n fd))\<lparr>remote_ip := fst peer, remote_port := snd peer\<rparr>"
  obtain ip port where peer: "peer = (ip, port)" by fastforce
  have len: "length bs \<le> length (rcvmem c1)" "length (rcvmem c1) = rcvbufsz c1"
    using assms(1,3) by (auto simp: c1_def udp_buf_def c_def)
  have rd: "rd 0 (length bs) (rcvmem c2) = bs" "length (rcvmem c2) = rcvbufsz c1"
    using len rd_wr_front [of bs "rcvmem c1"] by (simp_all add: c2_def)
  obtain acc q where push: "push_now (recvq n) (dgram_block (at n fd) peer now bs) = (acc, q)"
    by fastforce
  have blk: "(data_block ((at (set_cb fd c2 n) fd)\<lparr>sk := s\<lparr>recvtm := now\<rparr>\<rparr>) (int (length bs)), bs) =
      dgram_block (at n fd) peer now bs"
    by (simp add: dgram_block_def data_block_def s_def)
  have run: "udp_recv h bufsz True n fd (Some (peer, bs)) now =
     (if h bs s \<noteq> int (length bs) then Some (-1, set_cb fd c2 n)
      else if \<not> acc then Some (-1, (set_cb fd c2 n)\<lparr>recvq := q\<rparr>)
      else Some (0, set_cb fd (c2\<lparr>recvlen := 0, rcvprotlen := 0\<rparr>) ((set_cb fd c2 n)\<lparr>recvq := q\<rparr>)))"
  proof -
    have s': "(sk (at n fd))\<lparr>remote_port := port, remote_ip := ip\<rparr> = s"
      by (simp add: s_def peer)
    have "take (rcvbufsz c1) bs = bs" using len by simp
    then show ?thesis
      using push blk rd assms(2) len
      by (simp add: udp_recv_def Let_def c_def [symmetric] c1_def [symmetric] c2_def [symmetric] s' peer
          split: bool.splits)
  qed
  have ok: "block_ok (dgram_block (at n fd) peer now bs)"
    using assms(2,4) by (intro dgram_block_ok) auto
  show ?thesis
    using run shmq.push_accept [OF assms(5) ok] shmq.push_reject [OF assms(5) ok] push assms(5)
    by (auto simp: s_def)
qed

definition demo_udp :: net where
  "demo_udp = net_start (net_init (do_shmq_create 400)) 4 True (1, 53) 0"

theorem udp_recv_block_witness:
  "\<exists>r n'. udp_recv (\<lambda>b _. int (length b)) 8 True demo_udp 4 (Some ((9, 8), [1, 2, 3])) 7 = Some (r, n') \<and>
     (if r = 0
      then int (length [1, 2, 3::byte]) = int (length [1, 2, 3::byte]) \<and>
           holds (recvq n') ([] @ [dgram_block (at demo_udp 4) (9, 8) 7 [1, 2, 3]])
      else holds (recvq n') [])"
proof (rule udp_recv_block)
  show "holds (recvq demo_udp) []"
    using demo_holds by (simp add: demo_udp_def net_start_def net_init_def)
qed (simp_all add: demo_udp_def net_start_def udp_buf_def RCVBUFMAX_def)

text \<open>A longer datagram is read past the end of the buffer.\<close>

theorem udp_recv_overlong:
  assumes "length (rcvmem (cb (at n fd))) = rcvbufsz (cb (at n fd))"
    "udp_buf bufsz (cb (at n fd)) < length bs" "bs \<noteq> []"
  shows "udp_recv h bufsz True n fd (Some (peer, bs)) now = None"
proof -
  obtain ip port where "peer = (ip, port)" by fastforce
  then show ?thesis
    using assms by (auto simp: udp_recv_def Let_def udp_buf_def)
qed

section \<open>A refused message\<close>

text \<open>
  A queue with room for one block, a read that brings two messages: the second push fails in
  the middle of the parse loop, and the connection stays open with its buffer pointer behind
  the first message. The next full read writes past the end of the buffer.
\<close>

definition small_n1 :: net where
  "small_n1 = net_start (net_init (do_shmq_create 72)) 3 False (1, 80) 0"

definition small_n2 :: net where
  "small_n2 = the (on_event (\<lambda>b _. len_byte b) None 8 (demo_env 5 []) small_n1 (3, Ep_in))"

definition small_n3 :: net where
  "small_n3 = the (on_event (\<lambda>b _. len_byte b) None 8 (demo_env 0 [2, 9, 2, 9]) small_n2 (5, Ep_in))"

theorem refused_message_overflows:
  "CN_VALID \<in> flag (at small_n3 5) \<and> recvptr (cb (at small_n3 5)) = 2 \<and>
   on_event (\<lambda>b _. len_byte b) None 8 (demo_env 0 (replicate 8 1)) small_n3 (5, Ep_in) = None"
  by (intro conjI; code_simp)

end
