(* ===== verification/Worker.thy ===== *)
theory Worker
  imports NetRun
begin

text \<open>
  The worker process (\<^verbatim>\<open>worker.c\<close>, \<^verbatim>\<open>worker_run\<close>): it takes a request block from the receive
  queue, drops it when it waited too long, calls the service's \<^verbatim>\<open>handle_process\<close> and pushes
  the reply, under the request's connection id, to the send queue. Proved: replies are the
  service's answers to the requests in order and are addressed to the request's connection.
\<close>

section \<open>One request\<close>

text \<open>\<open>handle_process\<close> answers a return code, the reply's bytes and their number.\<close>

type_synonym handle_process = "byte list \<Rightarrow> skinfo \<Rightarrow> int \<times> byte list \<times> int"

definition SHM_BLOCK_LEN_MAX :: int where
  "SHM_BLOCK_LEN_MAX = 8388608"

text \<open>The block the worker pushes for a request, if any.\<close>

definition reply_block :: "handle_process \<Rightarrow> slot \<Rightarrow> slot option" where
  "reply_block hp s =
     (case hp (snd s) (blk_sk (fst s)) of
        (ret_code, user_data, sndlen) \<Rightarrow>
          if ret_code = -1 then
            Some ((fst s)\<lparr>blk_typ := FIN_BLOCK, blk_len := shm_block_sz\<rparr>, [])
          else if sndlen > SHM_BLOCK_LEN_MAX then None
          else if sndlen > 0 then
            Some ((fst s)\<lparr>blk_len := sndlen + shm_block_sz,
                         blk_typ := (if ret_code = 1 then FIN_BLOCK else DAT_BLOCK)\<rparr>,
                  user_data)
          else None)"

text \<open>
  What became of one turn of the loop: nothing to do (or asleep waiting for a request), a
  request without a reply, a reply in the queue, a reply the queue refused (the worker does
  not look at the result), or a worker asleep in the push.
\<close>

datatype turn = Idle | Silent | Replied slot | Lost slot | Blocked slot

definition push_reply :: "shm_queue \<Rightarrow> slot \<Rightarrow> turn \<times> shm_queue" where
  "push_reply sendq s =
     (case shmq_push False True sendq (fst s) (snd s) of
        Returned r _ q \<Rightarrow> (if r = 0 then Replied s else Lost s, q)
      | Asleep q \<Rightarrow> (Blocked s, q))"

definition worker_turn ::
  "handle_process \<Rightarrow> int \<Rightarrow> int \<Rightarrow> shm_queue \<Rightarrow> shm_queue \<Rightarrow>
   (turn \<times> shm_queue \<times> shm_queue) option" where
  "worker_turn hp current_tsc mb_timeout rq0 sq0 =
     (case shmq_pop True False True rq0 of
        None \<Rightarrow> None
      | Some (Asleep rq) \<Rightarrow> Some (Idle, rq, sq0)
      | Some (Returned r None rq) \<Rightarrow> Some (Idle, rq, sq0)
      | Some (Returned r (Some s) rq) \<Rightarrow>
          if check_timeout current_tsc (recvtm (blk_sk (fst s))) mb_timeout \<noteq> 0
          then Some (Silent, rq, sq0)
          else (case reply_block hp s of
                  None \<Rightarrow> Some (Silent, rq, sq0)
                | Some t \<Rightarrow> (case push_reply sq0 t of (turn, sq) \<Rightarrow> Some (turn, rq, sq))))"

text \<open>The loop for a given number of turns, each with its clock; it pauses when a push sleeps.\<close>

fun worker_run ::
  "handle_process \<Rightarrow> int \<Rightarrow> int list \<Rightarrow> shm_queue \<Rightarrow> shm_queue \<Rightarrow>
   (turn list \<times> shm_queue \<times> shm_queue) option" where
  "worker_run hp mb_timeout [] rq sq = Some ([], rq, sq)"
| "worker_run hp mb_timeout (now # nows) rq sq =
     (case worker_turn hp now mb_timeout rq sq of
        None \<Rightarrow> None
      | Some (Blocked t, rq1, sq1) \<Rightarrow> Some ([Blocked t], rq1, sq1)
      | Some (turn, rq1, sq1) \<Rightarrow>
          (case worker_run hp mb_timeout nows rq1 sq1 of
             None \<Rightarrow> None
           | Some (turns, rq2, sq2) \<Rightarrow> Some (turn # turns, rq2, sq2)))"

section \<open>Replies and their address\<close>

text \<open>What the framework asks of a service: the announced length is the length of the data.\<close>

definition process_ok :: "handle_process \<Rightarrow> bool" where
  "process_ok hp \<longleftrightarrow>
     (\<forall>d s. case hp d s of (r, out, len) \<Rightarrow> r \<noteq> -1 \<longrightarrow> 0 < len \<longrightarrow> int (length out) = len)"

definition expected :: "handle_process \<Rightarrow> int \<Rightarrow> int \<times> slot \<Rightarrow> slot option" where
  "expected hp mb_timeout ns =
     (if check_timeout (fst ns) (recvtm (blk_sk (fst (snd ns)))) mb_timeout \<noteq> 0 then None
      else reply_block hp (snd ns))"

fun outcome :: "turn \<Rightarrow> slot option" where
  "outcome (Replied t) = Some t"
| "outcome (Lost t) = Some t"
| "outcome (Blocked t) = Some t"
| "outcome _ = None"

fun in_queue :: "turn \<Rightarrow> slot option" where
  "in_queue (Replied t) = Some t"
| "in_queue _ = None"

lemma reply_block_ok:
  assumes "process_ok hp" "reply_block hp s = Some t"
  shows "block_ok t" "blk_id (fst t) = blk_id (fst s)" "blk_sk (fst t) = blk_sk (fst s)"
    "blk_accept_fd (fst t) = blk_accept_fd (fst s)"
proof -
  obtain r out len where h: "hp (snd s) (blk_sk (fst s)) = (r, out, len)"
    by (cases "hp (snd s) (blk_sk (fst s))") auto
  with assms(1) have "r \<noteq> -1 \<longrightarrow> 0 < len \<longrightarrow> int (length out) = len"
    unfolding process_ok_def by (metis (mono_tags, lifting) case_prod_conv)
  with assms(2) h show "block_ok t" "blk_id (fst t) = blk_id (fst s)"
    "blk_sk (fst t) = blk_sk (fst s)" "blk_accept_fd (fst t) = blk_accept_fd (fst s)"
    by (auto simp: reply_block_def block_ok_def shm_block_sz_def SHM_BLOCK_LEN_MAX_def
        split: if_splits)
qed

lemma push_reply_holds:
  assumes "holds sq ys" "block_ok t" "push_reply sq t = (turn, sq1)"
  shows "outcome turn = Some t \<and> holds sq1 (ys @ (case in_queue turn of None \<Rightarrow> [] | Some u \<Rightarrow> [u]))"
  using shmq_push_holds [OF assms(1,2), of False True] assms(3)
  by (auto simp: push_reply_def split: op_result.splits if_splits)

lemma worker_turn_empty:
  assumes "holds rq []" "holds sq ys"
  shows "\<exists>rq1. worker_turn hp now to rq sq = Some (Idle, rq1, sq) \<and> holds rq1 []"
proof -
  obtain q1 where "holds q1 []" "shmq_pop True False True rq = Some (Asleep q1)"
    using shmq_pop_Nil [OF assms(1), of True False True] by auto
  then show ?thesis by (auto simp: worker_turn_def)
qed

lemma worker_turn_request:
  assumes "process_ok hp" "holds rq (s # ss)" "holds sq ys"
  shows "\<exists>turn rq1 sq1. worker_turn hp now to rq sq = Some (turn, rq1, sq1) \<and> turn \<noteq> Idle \<and>
     holds rq1 ss \<and> outcome turn = expected hp to (now, s) \<and>
     holds sq1 (ys @ (case in_queue turn of None \<Rightarrow> [] | Some u \<Rightarrow> [u]))"
proof -
  obtain rq1 where pop: "holds rq1 ss" "shmq_pop True False True rq = Some (Returned 0 (Some s) rq1)"
    using shmq_pop_Cons [OF assms(2), of False True] by auto
  show ?thesis
  proof (cases "expected hp to (now, s)")
    case None
    with pop assms(3) show ?thesis
      by (auto simp: worker_turn_def expected_def split: if_splits)
  next
    case (Some t)
    then have t: "reply_block hp s = Some t"
      "check_timeout now (recvtm (blk_sk (fst s))) to = 0"
      by (auto simp: expected_def split: if_splits)
    obtain turn sq1 where p: "push_reply sq t = (turn, sq1)" by fastforce
    with push_reply_holds [OF assms(3) reply_block_ok(1) [OF assms(1) t(1)] p] pop t Some
    show ?thesis by (auto simp: worker_turn_def)
  qed
qed

section \<open>The properties of the worker\<close>

text \<open>C27: A worker that takes the waiting requests in turn gives each the reply its service
  computes for it, or none when the request is too old or the service has nothing to say; what
  enters the send queue are those replies in the order of the requests, less the ones the
  queue refused.\<close>

theorem worker_run_replies:
  assumes "process_ok hp" "holds rq (reqs @ rest)" "holds sq ys" "length nows = length reqs"
    "worker_run hp to nows rq sq = Some (turns, rq', sq')" "\<forall>t. Blocked t \<notin> set turns"
  shows "map outcome turns = map (expected hp to) (zip nows reqs) \<and> holds rq' rest \<and>
     holds sq' (ys @ List.map_filter in_queue turns)"
  using assms(2-6)
proof (induction nows arbitrary: rq sq ys reqs turns)
  case Nil
  then show ?case by (simp add: List.map_filter_simps)
next
  case (Cons now nows)
  then obtain s ss where reqs: "reqs = s # ss" by (cases reqs) auto
  obtain turn rq1 sq1 where t: "worker_turn hp now to rq sq = Some (turn, rq1, sq1)"
     "holds rq1 (ss @ rest)" "outcome turn = expected hp to (now, s)"
     "holds sq1 (ys @ (case in_queue turn of None \<Rightarrow> [] | Some u \<Rightarrow> [u]))"
    using worker_turn_request [OF assms(1), of rq s "ss @ rest" sq ys now to] Cons.prems reqs
    by auto
  have nb: "turn \<noteq> Blocked u" for u
  proof
    assume "turn = Blocked u"
    with Cons.prems(4) t(1) have "turns = [Blocked u]" by simp
    with Cons.prems(5) show False by simp
  qed
  then obtain turns1 where r: "worker_run hp to nows rq1 sq1 = Some (turns1, rq', sq')"
    "turns = turn # turns1"
    using Cons.prems(4) t(1) nb by (cases turn) (auto split: option.splits)
  have "map outcome turns1 = map (expected hp to) (zip nows ss) \<and> holds rq' rest \<and>
     holds sq' ((ys @ (case in_queue turn of None \<Rightarrow> [] | Some u \<Rightarrow> [u])) @
       List.map_filter in_queue turns1)"
    using Cons.IH [OF t(2,4) _ r(1)] Cons.prems(3,5) reqs r(2) by auto
  then show ?case using reqs r(2) t(3)
    by (auto simp: List.map_filter_simps split: option.splits)
qed

text \<open>The echo service, one request waiting.\<close>

definition echo :: handle_process where
  "echo d s = (0, d, int (length d))"

lemma echo_ok: "process_ok echo"
  by (simp add: process_ok_def echo_def)

definition demo_rq :: shm_queue where
  "demo_rq = snd (push_now (do_shmq_create 400) (demo_block 1 2))"

lemma demo_rq_holds: "holds demo_rq ([demo_block 1 2] @ [])"
proof -
  have "push_now (do_shmq_create 400) (demo_block 1 2) = (True, demo_rq)"
    unfolding demo_rq_def by (simp add: prod_eq_iff) code_simp
  then show ?thesis
    using shmq.push_accept [OF demo_holds demo_block_ok [of 2 1]] by simp
qed

lemma demo_turns:
  "fst (the (worker_run echo 0 [9] demo_rq (do_shmq_create 400))) = [Replied (demo_block 1 2)]"
  "worker_run echo 0 [9] demo_rq (do_shmq_create 400) \<noteq> None"
  by code_simp+

theorem worker_run_replies_witness:
  "\<exists>rq' sq'. worker_run echo 0 [9] demo_rq (do_shmq_create 400) = Some ([Replied (demo_block 1 2)], rq', sq') \<and>
     map outcome [Replied (demo_block 1 2)] = map (expected echo 0) (zip [9] [demo_block 1 2]) \<and>
     holds rq' [] \<and> holds sq' ([] @ List.map_filter in_queue [Replied (demo_block 1 2)])"
proof -
  obtain rq' sq' where r: "worker_run echo 0 [9] demo_rq (do_shmq_create 400) = Some ([Replied (demo_block 1 2)], rq', sq')"
    using demo_turns by (cases "worker_run echo 0 [9] demo_rq (do_shmq_create 400)") auto
  have "map outcome [Replied (demo_block 1 2)] = map (expected echo 0) (zip [9] [demo_block 1 2]) \<and>
     holds rq' [] \<and> holds sq' ([] @ List.map_filter in_queue [Replied (demo_block 1 2)])"
    by (rule worker_run_replies [OF echo_ok demo_rq_holds demo_holds _ r]) simp_all
  with r show ?thesis by blast
qed

text \<open>C19: A reply can only reach the connection its request came from: it carries the request's
  connection id, and scheduling it changes nothing at all unless the descriptor is at that
  moment held by the connection of that id; then it changes no other entry and no other
  connection's stream.\<close>

theorem reply_reaches_its_connection:
  assumes "conn_run h ho bufsz q0 n gone acc" "framer h" "0 < bufsz" "no_greeting ho" "holds q0 []"
    "process_ok hp" "req \<in> set gone" "reply_block hp req = Some s"
    "schedule_output True n s ts ts' dg = Some (r, n')"
  shows "(\<forall>fd. fd_id (at n fd) \<noteq> blk_id (fst req) \<longrightarrow> at n' fd = at n fd) \<and>
     (\<forall>i. i \<noteq> blk_id (fst req) \<longrightarrow> wire_out n' i = wire_out n i) \<and>
     (CN_VALID \<in> flag (at n (sockfd (blk_sk (fst req)))) \<longrightarrow>
        fd_id (at n (sockfd (blk_sk (fst req)))) \<noteq> blk_id (fst req) \<longrightarrow> n' = n)"
proof -
  obtain bs where ok: "net_ok h n gone bs acc" using conn_run_ok [OF assms(1-5)] by blast
  note r = reply_block_ok [OF assms(6,8)]
  define fd where "fd = sockfd (blk_sk (fst s))"
  show ?thesis
  proof (cases "hits n s")
    case False
    with schedule_output_misses [OF False] assms(9) show ?thesis by auto
  next
    case True
    then have hit: "blk_typ (fst s) \<noteq> PAD_BLOCK" "fd < MAXFDS" "fd \<in> live n" "blk_id (fst s) = fd_id (at n fd)"
      by (simp_all add: hits_def fd_def live_def)
    then have t: "tcp_conn n fd" using taken_id_conn [OF ok assms(7)] r(2) by simp
    note c = net_ok_conn [OF ok t]
    have "sends n fd (snd s) n'"
      using schedule_output_post [OF t fd_def hit(2,4,1) c(2,3), of ts ts' dg] assms(9) by auto
    then obtain f' sent where n': "fdinfo n' = (fdinfo n)(fd := f')"
      "wire_out n' = (wire_out n)(fd_id (at n fd) := wire_out n (fd_id (at n fd)) @ sent)"
      unfolding sends_def by blast
    with hit(4) r(2,3) show ?thesis unfolding fd_def by auto
  qed
qed

lemma demo_reply_hits:
  "reply_block echo demo_request = Some (demo_request)" "hits demo_n4 demo_request"
  by code_simp+

theorem reply_reaches_its_connection_witness:
  "\<exists>r n'. schedule_output True demo_n4 demo_request [] [TxSent 1] False = Some (r, n') \<and>
     at n' 3 = at demo_n4 3 \<and> wire_out n' 0 = wire_out demo_n4 0"
proof -
  obtain bs where ok: "net_ok len_byte demo_n4 [demo_request] bs (\<lambda>_. [])"
    using conn_run_ok [OF demo_run_taken framer_len_byte _ _ demo_holds] by (auto simp: no_greeting_def)
  obtain r n' where s: "schedule_output True demo_n4 demo_request [] [TxSent 1] False = Some (r, n')"
    using net_ok_reply [OF ok, of demo_request "[]" "[TxSent 1]" False] by auto
  have "fd_id (at demo_n4 3) = 0" "blk_id (fst demo_request) = 1" by code_simp+
  then show ?thesis
    using reply_reaches_its_connection
        [OF demo_run_taken framer_len_byte _ _ demo_holds echo_ok _ demo_reply_hits(1) s] s
    by (auto simp: no_greeting_def)
qed

end
