(* ===== verification/Decimal.thy ===== *)
theory Decimal
  imports Prelude
begin

text \<open>
  Numbers as text: \<^verbatim>\<open>printf\<close> with \<^verbatim>\<open>%u\<close> and \<^verbatim>\<open>%d\<close>, \<^verbatim>\<open>atoi\<close>, and the character classes the sources use.
\<close>

section \<open>Unsigned numbers\<close>

text \<open>\<^verbatim>\<open>snprintf ("%u")\<close> and \<^verbatim>\<open>atoi\<close>.\<close>

definition digit :: "nat \<Rightarrow> char" where
  "digit d = char_of (48 + d)"

fun dec :: "nat \<Rightarrow> string" where
  "dec n = (if n < 10 then [digit n] else dec (n div 10) @ [digit (n mod 10)])"

declare dec.simps [simp del]

definition is_digit :: "char \<Rightarrow> bool" where
  "is_digit c \<longleftrightarrow> 48 \<le> (of_char c :: nat) \<and> (of_char c :: nat) \<le> 57"

definition dec_value :: "string \<Rightarrow> nat" where
  "dec_value s = foldl (\<lambda>n c. n * 10 + (of_char c - 48)) 0 s"

text \<open>\<^verbatim>\<open>atoi\<close> on the keys of the service, which start with a digit: the value of the leading
  digits, cut to an \<open>int\<close>.\<close>

definition atoi :: "string \<Rightarrow> int" where
  "atoi s = s32 (int (dec_value (takeWhile is_digit s)))"

lemma of_char_digit: "d < 10 \<Longrightarrow> (of_char (digit d) :: nat) = 48 + d"
  by (simp add: digit_def)

lemma is_digit_digit: "d < 10 \<Longrightarrow> is_digit (digit d)"
  by (simp add: is_digit_def of_char_digit)

lemma dec_digits: "c \<in> set (dec n) \<Longrightarrow> is_digit c"
proof (induction n rule: dec.induct)
  case (1 n)
  then show ?case by (subst (asm) dec.simps) (auto simp: is_digit_digit split: if_splits)
qed

lemma dec_value_dec: "dec_value (dec n) = n"
proof (induction n rule: dec.induct)
  case (1 n)
  then show ?case
    by (subst dec.simps) (auto simp: dec_value_def of_char_digit)
qed

lemma atoi_dec: "atoi (dec n @ rest) = s32 (int n)" if "rest = [] \<or> \<not> is_digit (hd rest)"
proof -
  have "takeWhile is_digit (dec n @ rest) = dec n"
    using that dec_digits by (cases rest) (auto simp: takeWhile_append)
  then show ?thesis by (simp add: atoi_def dec_value_dec)
qed

lemma dec_inj: "dec a = dec b \<Longrightarrow> a = b"
  by (metis dec_value_dec)

section \<open>Signed numbers\<close>

text \<open>\<^verbatim>\<open>isspace\<close> in the C locale.\<close>

definition c_isspace :: "char \<Rightarrow> bool" where
  "c_isspace c \<longleftrightarrow> (of_char c :: nat) = 32 \<or> 9 \<le> (of_char c :: nat) \<and> (of_char c :: nat) \<le> 13"

definition sdec :: "int \<Rightarrow> string" where
  "sdec x = (if x < 0 then CHR ''-'' # dec (nat (- x)) else dec (nat x))"

text \<open>\<^verbatim>\<open>atoi\<close> of glibc: \<^verbatim>\<open>strtol\<close>, which stays within \<open>long\<close>, cut to an \<open>int\<close>.\<close>

definition clamp64 :: "int \<Rightarrow> int" where
  "clamp64 x = max (- 9223372036854775808) (min 9223372036854775807 x)"

definition c_atoi :: "string \<Rightarrow> int" where
  "c_atoi s =
     (case dropWhile c_isspace s of
        [] \<Rightarrow> 0
      | c # cs \<Rightarrow>
          let neg = (c = CHR ''-''); ds = (if neg \<or> c = CHR ''+'' then cs else c # cs);
              v = int (dec_value (takeWhile is_digit ds))
          in s32 (clamp64 (if neg then - v else v)))"

lemma dec_nonempty: "dec n \<noteq> []"
  by (subst dec.simps) simp

lemma digit_not_space: "is_digit c \<Longrightarrow> \<not> c_isspace c \<and> c \<noteq> CHR ''-'' \<and> c \<noteq> CHR ''+''"
  by (auto simp: is_digit_def c_isspace_def)

lemma dec_hd: obtains c cs where "dec n = c # cs" "is_digit c"
  using dec_nonempty [of n] dec_digits [of _ n] by (cases "dec n") auto

lemma takeWhile_dec: "rest = [] \<or> \<not> is_digit (hd rest) \<Longrightarrow> takeWhile is_digit (dec n @ rest) = dec n"
  using dec_digits by (cases rest) (auto simp: takeWhile_append)

lemma c_atoi_dec:
  assumes "rest = [] \<or> \<not> is_digit (hd rest)" "n < 9223372036854775808"
  shows "c_atoi (dec n @ rest) = s32 (int n)" "c_atoi (CHR ''-'' # dec n @ rest) = s32 (- int n)"
proof -
  have t: "dec_value (takeWhile is_digit (dec n @ rest)) = n"
    using takeWhile_dec [OF assms(1)] by (simp add: dec_value_dec)
  obtain c cs where c: "dec n = c # cs" "is_digit c" by (rule dec_hd)
  note d = digit_not_space [OF c(2)]
  have "c_atoi (dec n @ rest) = s32 (clamp64 (int (dec_value (takeWhile is_digit (dec n @ rest)))))"
    using d by (simp add: c_atoi_def c(1) Let_def)
  with t assms(2) show "c_atoi (dec n @ rest) = s32 (int n)" by (simp add: clamp64_def)
  have "\<not> c_isspace (CHR ''-'')" by (simp add: c_isspace_def)
  then have "c_atoi (CHR ''-'' # dec n @ rest) = s32 (clamp64 (- int (dec_value (takeWhile is_digit (dec n @ rest)))))"
    by (simp add: c_atoi_def Let_def)
  with t assms(2) show "c_atoi (CHR ''-'' # dec n @ rest) = s32 (- int n)" by (simp add: clamp64_def)
qed

lemma c_atoi_sdec:
  assumes "rest = [] \<or> \<not> is_digit (hd rest)" "- 2147483648 \<le> x" "x < 2147483648"
  shows "c_atoi (sdec x @ rest) = x"
  using c_atoi_dec [OF assms(1), of "nat \<bar>x\<bar>"] assms(2,3)
  by (cases "x < 0") (simp_all add: sdec_def c_int)

lemma sdec_chars: "c \<in> set (sdec x) \<Longrightarrow> is_digit c \<or> c = CHR ''-''"
  by (auto simp: sdec_def dest: dec_digits split: if_splits)

lemma sdec_nonempty: "sdec x \<noteq> []"
  by (simp add: sdec_def dec_nonempty)

lemma length_dec: "n < 10 ^ k \<Longrightarrow> 0 < k \<Longrightarrow> length (dec n) \<le> k"
proof (induction k arbitrary: n)
  case (Suc k)
  show ?case
  proof (cases "n < 10")
    case True
    then show ?thesis by (subst dec.simps) simp
  next
    case False
    then have "0 < k" "n div 10 < 10 ^ k" using Suc.prems(1) by (cases k; simp)+
    with Suc.IH [of "n div 10"] False show ?thesis by (subst dec.simps) simp
  qed
qed simp

end
