(* ===== verification/Box.thy ===== *)
theory Box
  imports Decimal
begin

text \<open>
  What the two feed boxes of the outbox service share (\<^verbatim>\<open>feed/outbox_serv/src\<close>): the array
  routines on a box that is kept newest first, memcached as a parameter with the laws the
  service relies on, the cache of storage replies by owner, and the abstract view: a cached
  box is a prefix of the owner's full feed list.
\<close>

section \<open>Routines on a box\<close>

text \<open>\<open>same\<close> says which fields identify an entry, \<open>tm\<close> is its time. The loop inserts in
  front of the first entry that is not newer, or behind the last entry; it does nothing to an
  empty array.\<close>

definition box_exists :: "('f \<Rightarrow> 'f \<Rightarrow> bool) \<Rightarrow> 'f \<Rightarrow> 'f list \<Rightarrow> bool" where
  "box_exists same x box = (\<exists>y \<in> set box. same y x)"

fun box_insert :: "('f \<Rightarrow> nat) \<Rightarrow> 'f \<Rightarrow> 'f list \<Rightarrow> 'f list" where
  "box_insert tm x [] = []"
| "box_insert tm x (y # ys) =
     (if tm y \<le> tm x then x # y # ys
      else if ys = [] then [y, x]
      else y # box_insert tm x ys)"

fun box_remove :: "('f \<Rightarrow> 'f \<Rightarrow> bool) \<Rightarrow> 'f \<Rightarrow> 'f list \<Rightarrow> 'f list" where
  "box_remove same x [] = []"
| "box_remove same x (y # ys) = (if same y x then ys else y # box_remove same x ys)"

section \<open>The abstract feed list\<close>

definition newest_first :: "('f \<Rightarrow> nat) \<Rightarrow> 'f list \<Rightarrow> bool" where
  "newest_first tm xs = sorted_wrt (\<lambda>a b. tm b \<le> tm a) xs"

fun feed_insert :: "('f \<Rightarrow> nat) \<Rightarrow> 'f \<Rightarrow> 'f list \<Rightarrow> 'f list" where
  "feed_insert tm x [] = [x]"
| "feed_insert tm x (y # ys) = (if tm y \<le> tm x then x # y # ys else y # feed_insert tm x ys)"

lemma box_insert_feed_insert: "box \<noteq> [] \<Longrightarrow> box_insert tm x box = feed_insert tm x box"
proof (induction box)
  case (Cons y ys)
  then show ?case by (cases ys) auto
qed simp

lemma set_feed_insert [simp]: "set (feed_insert tm x xs) = insert x (set xs)"
  by (induction xs) auto

lemma length_feed_insert [simp]: "length (feed_insert tm x xs) = Suc (length xs)"
  by (induction xs) auto

lemma feed_insert_newest_first: "newest_first tm xs \<Longrightarrow> newest_first tm (feed_insert tm x xs)"
proof (induction xs)
  case (Cons y ys)
  then show ?case by (auto simp: newest_first_def)
qed (simp add: newest_first_def)

lemma set_box_remove: "set (box_remove same x xs) \<subseteq> set xs"
  by (induction xs) auto

lemma box_remove_newest_first: "newest_first tm xs \<Longrightarrow> newest_first tm (box_remove same x xs)"
proof (induction xs)
  case (Cons y ys)
  then show ?case using set_box_remove [of same x ys] by (auto simp: newest_first_def)
qed (simp add: newest_first_def)

lemma take_newest_first: "newest_first tm xs \<Longrightarrow> newest_first tm (take k xs)"
  unfolding newest_first_def by (rule sorted_wrt_take)

text \<open>A cached box shows the first entries of the full list, at most \<open>m\<close> of them.\<close>

definition shows_prefix :: "nat \<Rightarrow> 'f list \<Rightarrow> 'f list \<Rightarrow> bool" where
  "shows_prefix m box full \<longleftrightarrow> (\<exists>k \<le> m. box = take k full)"

lemma take_feed_insert_newer:
  "k \<le> length full \<Longrightarrow> 0 < k \<Longrightarrow> tm (full ! (k - 1)) \<le> tm x \<Longrightarrow>
   feed_insert tm x (take k full) = take (Suc k) (feed_insert tm x full)"
proof (induction full arbitrary: k)
  case (Cons y ys)
  then obtain k' where k: "k = Suc k'" by (cases k) auto
  show ?case
  proof (cases "tm y \<le> tm x")
    case False
    with Cons.prems k have "0 < k'" "tm (ys ! (k' - 1)) \<le> tm x" "k' \<le> length ys"
      by (auto simp: nth_Cons split: nat.splits)
    with Cons.IH [of k'] k False show ?thesis by simp
  qed (simp add: k)
qed simp

lemma take_feed_insert_all:
  "length full \<le> k \<Longrightarrow> feed_insert tm x (take k full) = take (Suc k) (feed_insert tm x full)"
  by simp

text \<open>The entry must not be older than the oldest cached one, unless the cache shows the whole
  list: otherwise there may be entries between that the cache lacks.\<close>

definition fits_after :: "('f \<Rightarrow> nat) \<Rightarrow> 'f \<Rightarrow> 'f list \<Rightarrow> 'f list \<Rightarrow> bool" where
  "fits_after tm x box full \<longleftrightarrow> box = full \<or> tm (last box) \<le> tm x"

lemma box_insert_prefix:
  assumes "shows_prefix m box full" "box \<noteq> []" "fits_after tm x box full"
  shows "shows_prefix m (take m (box_insert tm x box)) (feed_insert tm x full)"
proof -
  obtain k where k: "k \<le> m" "box = take k full" using assms(1) by (auto simp: shows_prefix_def)
  define j where "j = min k (length full)"
  have j: "box = take j full" "j \<le> length full" "0 < j" "j \<le> m"
    using k assms(2) by (auto simp: j_def min_def)
  have "feed_insert tm x box = take (Suc j) (feed_insert tm x full)"
  proof (cases "j = length full")
    case True
    then show ?thesis using j(1) by simp
  next
    case False
    then have "box \<noteq> full" using j(1,2) by (metis length_take min.absorb2)
    moreover have "last box = full ! (j - 1)"
      using j assms(2) by (simp add: last_conv_nth)
    ultimately show ?thesis
      using take_feed_insert_newer [OF j(2,3)] assms(3) j(1) by (simp add: fits_after_def)
  qed
  then have "take m (box_insert tm x box) = take (min m (Suc j)) (feed_insert tm x full)"
    using box_insert_feed_insert [OF assms(2)] by simp
  then show ?thesis unfolding shows_prefix_def by (intro exI [where x = "min m (Suc j)"]) simp
qed

lemma box_remove_take:
  "\<exists>j \<le> k. box_remove same x (take k full) = take j (box_remove same x full)"
proof (induction full arbitrary: k)
  case (Cons y ys)
  show ?case
  proof (cases k)
    case (Suc k')
    show ?thesis
    proof (cases "same y x")
      case True
      with Suc show ?thesis by (intro exI [where x = k']) simp
    next
      case False
      obtain j where "j \<le> k'" "box_remove same x (take k' ys) = take j (box_remove same x ys)"
        using Cons.IH by blast
      with False Suc show ?thesis by (intro exI [where x = "Suc j"]) simp
    qed
  qed (intro exI [where x = 0], simp)
qed (intro exI [where x = 0], simp)

lemma box_remove_prefix:
  "shows_prefix m box full \<Longrightarrow> shows_prefix m (box_remove same x box) (box_remove same x full)"
  unfolding shows_prefix_def using box_remove_take by (metis le_trans)

lemma shows_prefix_take: "shows_prefix m box full \<Longrightarrow> shows_prefix m (take j box) full"
  unfolding shows_prefix_def by (metis take_take min.cobounded2 le_trans min.commute)

section \<open>memcached\<close>

text \<open>
  The client library is a parameter: its calls on a server state \<open>'m\<close>, with values typed as
  the arrays the service stores. \<open>Failed\<close> stands for every error. The laws are those of a
  cache: an entry is the last value stored under its key or gone, and an entry of another
  key is at most dropped.
\<close>

datatype 'f get_reply = Found "'f list" | Not_found | Failed

record ('m, 'f) memcached =
  mc_get :: "'m \<Rightarrow> string \<Rightarrow> 'f get_reply"
  mc_set :: "'m \<Rightarrow> string \<Rightarrow> 'f list \<Rightarrow> bool \<times> 'm"
  mc_del :: "'m \<Rightarrow> string \<Rightarrow> bool \<times> 'm"
  mc_mget :: "'m \<Rightarrow> string list \<Rightarrow> (string \<times> 'f list) list option"

definition kept :: "'a option \<Rightarrow> 'a option \<Rightarrow> bool" where
  "kept old new \<longleftrightarrow> new = old \<or> new = None"

definition memcached_ok :: "('m, 'f) memcached \<Rightarrow> ('m \<Rightarrow> string \<Rightarrow> 'f list option) \<Rightarrow> bool" where
  "memcached_ok mc C \<longleftrightarrow>
     (\<forall>m k xs. mc_get mc m k = Found xs \<longrightarrow> C m k = Some xs) \<and>
     (\<forall>m k. mc_get mc m k = Not_found \<longrightarrow> C m k = None) \<and>
     (\<forall>m k xs ok m'. mc_set mc m k xs = (ok, m') \<longrightarrow>
        (\<forall>k'. k' \<noteq> k \<longrightarrow> kept (C m k') (C m' k')) \<and>
        (kept (Some xs) (C m' k) \<or> \<not> ok \<and> kept (C m k) (C m' k))) \<and>
     (\<forall>m k ok m'. mc_del mc m k = (ok, m') \<longrightarrow>
        (\<forall>k'. k' \<noteq> k \<longrightarrow> kept (C m k') (C m' k')) \<and>
        (if ok then C m' k = None else kept (C m k) (C m' k))) \<and>
     (\<forall>m ks rs. mc_mget mc m ks = Some rs \<longrightarrow>
        distinct (map fst rs) \<and> (\<forall>(k, xs) \<in> set rs. k \<in> set ks \<and> C m k = Some xs))"

lemma memcached_ok_get: "memcached_ok mc C \<Longrightarrow> mc_get mc m k = Found xs \<Longrightarrow> C m k = Some xs"
  by (simp add: memcached_ok_def)

lemma memcached_ok_miss: "memcached_ok mc C \<Longrightarrow> mc_get mc m k = Not_found \<Longrightarrow> C m k = None"
  by (simp add: memcached_ok_def)

lemma memcached_ok_set:
  "memcached_ok mc C \<Longrightarrow> mc_set mc m k xs = (ok, m') \<Longrightarrow>
   (\<forall>k'. k' \<noteq> k \<longrightarrow> kept (C m k') (C m' k')) \<and>
   (kept (Some xs) (C m' k) \<or> \<not> ok \<and> kept (C m k) (C m' k))"
  unfolding memcached_ok_def by blast

lemma memcached_ok_del:
  "memcached_ok mc C \<Longrightarrow> mc_del mc m k = (ok, m') \<Longrightarrow>
   (\<forall>k'. k' \<noteq> k \<longrightarrow> kept (C m k') (C m' k')) \<and>
   (if ok then C m' k = None else kept (C m k) (C m' k))"
  unfolding memcached_ok_def by blast

lemma memcached_ok_mget:
  "memcached_ok mc C \<Longrightarrow> mc_mget mc m ks = Some rs \<Longrightarrow>
   distinct (map fst rs) \<and> (\<forall>(k, xs) \<in> set rs. k \<in> set ks \<and> C m k = Some xs)"
  unfolding memcached_ok_def by blast

text \<open>A map is a memcached that forgets nothing.\<close>

definition map_memcached :: "(string \<Rightarrow> 'f list option, 'f) memcached" where
  "map_memcached =
     \<lparr>mc_get = (\<lambda>m k. case m k of None \<Rightarrow> Not_found | Some xs \<Rightarrow> Found xs),
      mc_set = (\<lambda>m k xs. (True, m(k := Some xs))),
      mc_del = (\<lambda>m k. (True, m(k := None))),
      mc_mget = (\<lambda>m ks. Some (List.map_filter
                   (\<lambda>k. map_option (\<lambda>xs. (k, xs)) (m k)) (remdups ks)))\<rparr>"

lemma map_filter_keys: "map fst (List.map_filter (\<lambda>k. map_option (\<lambda>xs. (k, xs)) (m k)) ks) =
    filter (\<lambda>k. m k \<noteq> None) ks"
  by (induction ks) (auto simp: List.map_filter_simps split: option.splits)

lemma map_filter_set: "set (List.map_filter (\<lambda>k. map_option (\<lambda>xs. (k, xs)) (m k)) ks) =
    {(k, xs). k \<in> set ks \<and> m k = Some xs}"
  by (induction ks) (auto simp: List.map_filter_simps split: option.splits)

lemma map_memcached_ok: "memcached_ok map_memcached (\<lambda>m. m)"
proof -
  have "distinct (map fst rs) \<and> (\<forall>(k, xs) \<in> set rs. k \<in> set ks \<and> m k = Some xs)"
    if "mc_mget map_memcached m ks = Some rs" for m ks and rs :: "(string \<times> 'a list) list"
    using that by (auto simp: map_memcached_def map_filter_keys map_filter_set)
  then show ?thesis
    unfolding memcached_ok_def by (auto simp: map_memcached_def kept_def split: option.splits)
qed

section \<open>Keys\<close>

definition outbox_key :: "nat \<Rightarrow> string" where
  "outbox_key uid = dec uid"

definition poutbox_key :: "nat \<Rightarrow> string" where
  "poutbox_key uid = dec uid @ ''_p''"

lemma keys_inj: "outbox_key a = outbox_key b \<Longrightarrow> a = b" "poutbox_key a = poutbox_key b \<Longrightarrow> a = b"
  by (auto simp: outbox_key_def poutbox_key_def dest: dec_inj)

lemma keys_apart: "outbox_key a \<noteq> poutbox_key b"
proof
  assume "outbox_key a = poutbox_key b"
  then have "CHR ''p'' \<in> set (dec a)" by (simp add: outbox_key_def poutbox_key_def)
  then have "is_digit (CHR ''p'')" by (rule dec_digits)
  then show False by (simp add: is_digit_def)
qed

lemma atoi_keys: "atoi (outbox_key a) = s32 (int a)" "atoi (poutbox_key a) = s32 (int a)"
  using atoi_dec [of "[]" a] atoi_dec [of "''_p''" a]
  by (simp_all add: outbox_key_def poutbox_key_def is_digit_def)

end
