(* ===== verification/BoxCache.thy ===== *)
theory BoxCache
  imports Box
begin

text \<open>
  The part of \<^verbatim>\<open>c_outbox\<close> and \<^verbatim>\<open>c_poutbox\<close> that is the same in both: fetching one cached
  box, storing and deleting it, and answering a request for many boxes from memcached and,
  for the keys it does not have, from the storage server. The functions take what differs:
  the key of a user, the owner of a feed, and the request entry sent to the storage server.
\<close>

section \<open>State and single boxes\<close>

definition MAX_UID_NUM :: nat where
  "MAX_UID_NUM = 100"

record 'm box_state =
  m_memc :: 'm
  m_hit :: int
  m_miss :: int
  m_fd :: int

text \<open>\<open>Inl r\<close> is the return value 0 (nothing cached) or -1.\<close>

definition get_memc_box ::
  "('m, 'f) memcached \<Rightarrow> nat \<Rightarrow> 'm \<Rightarrow> string \<Rightarrow> int + 'f list" where
  "get_memc_box mc m_size m k =
     (case mc_get mc m k of
        Not_found \<Rightarrow> Inl 0
      | Failed \<Rightarrow> Inl (-1)
      | Found xs \<Rightarrow>
          let ret_num = (if length xs > m_size then m_size else length xs)
          in if ret_num = 0 then Inl 0 else Inr (take ret_num xs))"

definition set_memc_box ::
  "('m, 'f) memcached \<Rightarrow> string \<Rightarrow> 'f list \<Rightarrow> 'm box_state \<Rightarrow> int \<times> 'm box_state" where
  "set_memc_box mc k box st =
     (case mc_set mc (m_memc st) k box of (ok, m') \<Rightarrow>
        (if ok then 0 else -1, st\<lparr>m_memc := m'\<rparr>))"

definition del_memc_box ::
  "('m, 'f) memcached \<Rightarrow> string \<Rightarrow> 'm box_state \<Rightarrow> int \<times> 'm box_state" where
  "del_memc_box mc k st =
     (case mc_del mc (m_memc st) k of (ok, m') \<Rightarrow>
        (if ok then 0 else -1, st\<lparr>m_memc := m'\<rparr>))"

text \<open>The end of every change: the box is cut to \<open>m_size\<close> and stored back.\<close>

definition store_box ::
  "('m, 'f) memcached \<Rightarrow> nat \<Rightarrow> string \<Rightarrow> 'f list \<Rightarrow> 'm box_state \<Rightarrow> int \<times> 'm box_state" where
  "store_box mc m_size k box st = set_memc_box mc k (take m_size box) st"

definition store_or_delete_box ::
  "('m, 'f) memcached \<Rightarrow> nat \<Rightarrow> string \<Rightarrow> 'f list \<Rightarrow> 'm box_state \<Rightarrow> int \<times> 'm box_state" where
  "store_or_delete_box mc m_size k box st =
     (if take m_size box = [] then del_memc_box mc k st
      else set_memc_box mc k (take m_size box) st)"

section \<open>Many boxes\<close>

text \<open>The keys still wanted are a list; each fetched result takes the first key with the number
  its key string starts with out of it. When there is none, \<^verbatim>\<open>erase\<close> gets the end of the list:
  undefined.\<close>

fun erase_key :: "int \<Rightarrow> nat list \<Rightarrow> nat list option" where
  "erase_key k [] = None"
| "erase_key k (u # us) =
     (if k = s32 (int u) then Some us
      else case erase_key k us of None \<Rightarrow> None | Some vs \<Rightarrow> Some (u # vs))"

fun get_memc_result ::
  "nat \<Rightarrow> (string \<times> 'f list) list \<Rightarrow> nat list \<Rightarrow> ('f list \<times> nat list) option" where
  "get_memc_result m_size [] keys = Some ([], keys)"
| "get_memc_result m_size ((k, xs) # rs) keys =
     (case erase_key (atoi k) keys of
        None \<Rightarrow> None
      | Some keys1 \<Rightarrow>
          (case get_memc_result m_size rs keys1 of
             None \<Rightarrow> None
           | Some (ys, keys2) \<Rightarrow>
               Some (take (if length xs > m_size then m_size else length xs) xs @ ys, keys2)))"

text \<open>Result: the number of fetched entries (or -1), the entries, the keys not found.\<close>

definition get_memc_boxes ::
  "('m, 'f) memcached \<Rightarrow> nat \<Rightarrow> (nat \<Rightarrow> string) \<Rightarrow> nat list \<Rightarrow> 'm box_state \<Rightarrow>
   (int \<times> 'f list \<times> nat list \<times> 'm box_state) option" where
  "get_memc_boxes mc m_size key keys st =
     (if length keys < 1 \<or> length keys > MAX_UID_NUM then Some (-1, [], keys, st)
      else case mc_mget mc (m_memc st) (map key keys) of
          None \<Rightarrow> Some (0, [], keys, st)
        | Some rs \<Rightarrow>
            (case get_memc_result m_size rs keys of
               None \<Rightarrow> None
             | Some (xs, miss) \<Rightarrow>
                 Some (int (length xs), xs, miss,
                       st\<lparr>m_hit := m_hit st + (int (length keys) - int (length miss))\<rparr>)))"

text \<open>The storage server: \<^verbatim>\<open>open_conn\<close>'s result, and the answer to a request (result code and
  feeds) or \<open>None\<close> when the exchange failed.\<close>

record ('r, 'f) storage =
  s_open :: int
  s_rqst :: "'r list \<Rightarrow> (int \<times> 'f list) option"

text \<open>The loop over the answer stores each run of feeds of one owner under that owner's key;
  a failure to store is only logged.\<close>

fun cache_runs ::
  "('m, 'f) memcached \<Rightarrow> (nat \<Rightarrow> string) \<Rightarrow> ('f \<Rightarrow> nat) \<Rightarrow> 'f list \<Rightarrow> 'f list \<Rightarrow>
   'm box_state \<Rightarrow> 'm box_state" where
  "cache_runs mc key own run [] st = snd (set_memc_box mc (key (own (hd run))) run st)"
| "cache_runs mc key own run (x # xs) st =
     (if own x \<noteq> own (last run)
      then cache_runs mc key own [x] xs (snd (set_memc_box mc (key (own (hd run))) run st))
      else cache_runs mc key own (run @ [x]) xs st)"

definition get_stor_boxes ::
  "('m, 'f) memcached \<Rightarrow> (nat \<Rightarrow> string) \<Rightarrow> ('f \<Rightarrow> nat) \<Rightarrow> (nat \<Rightarrow> 'r) \<Rightarrow> ('r, 'f) storage \<Rightarrow>
   nat list \<Rightarrow> 'm box_state \<Rightarrow> int \<times> 'f list \<times> 'm box_state" where
  "get_stor_boxes mc key own entry stor keys st =
     (if keys = [] then (0, [], st)
      else
        let st1 = st\<lparr>m_miss := m_miss st + int (length keys)\<rparr>;
            st2 = (if m_fd st1 = -1 then st1\<lparr>m_fd := s_open stor\<rparr> else st1)
        in if m_fd st2 = -1 then (-1, [], st2)
           else case s_rqst stor (map entry keys) of
               None \<Rightarrow> (-1, [], st2\<lparr>m_fd := -1\<rparr>)
             | Some (ret, feeds) \<Rightarrow>
                 if ret \<noteq> 0 then (-1, [], st2)
                 else (case feeds of
                         [] \<Rightarrow> (0, [], st2)
                       | f # fs \<Rightarrow> (int (length feeds), feeds, cache_runs mc key own [f] fs st2)))"

definition get_boxes ::
  "('m, 'f) memcached \<Rightarrow> nat \<Rightarrow> (nat \<Rightarrow> string) \<Rightarrow> ('f \<Rightarrow> nat) \<Rightarrow> (nat \<Rightarrow> 'r) \<Rightarrow> ('r, 'f) storage \<Rightarrow>
   nat list \<Rightarrow> 'm box_state \<Rightarrow> (int \<times> 'f list \<times> 'm box_state) option" where
  "get_boxes mc m_size key own entry stor uids st =
     (case get_memc_boxes mc m_size key uids st of
        None \<Rightarrow> None
      | Some (r, xs, keys, st1) \<Rightarrow>
          if r < 0 then Some (-1, [], st1)
          else (case get_stor_boxes mc key own entry stor keys st1 of
                  (r2, ys, st2) \<Rightarrow>
                    if r2 < 0 then Some (-1, [], st2) else Some (0, xs @ ys, st2)))"

definition box_status :: "'m box_state \<Rightarrow> int \<times> int \<times> 'm box_state" where
  "box_status st = (m_hit st, m_miss st, st\<lparr>m_hit := 0, m_miss := 0\<rparr>)"

section \<open>Coherence with the full feed lists\<close>

text \<open>Every cached box shows the newest feeds of its owner.\<close>

definition coherent ::
  "('m \<Rightarrow> string \<Rightarrow> 'f list option) \<Rightarrow> nat \<Rightarrow> (nat \<Rightarrow> string) \<Rightarrow> (nat \<Rightarrow> 'f list) \<Rightarrow> 'm \<Rightarrow> bool" where
  "coherent C m_size key feeds m \<longleftrightarrow>
     (\<forall>u box. C m (key u) = Some box \<longrightarrow> shows_prefix m_size box (feeds u))"

lemma coherentD: "coherent C sz key feeds m \<Longrightarrow> C m (key u) = Some box \<Longrightarrow> shows_prefix sz box (feeds u)"
  by (simp add: coherent_def)

lemma keptD: "kept a b \<Longrightarrow> b = Some x \<Longrightarrow> a = Some x"
  by (auto simp: kept_def)

text \<open>What the lookup of one box tells about the cache.\<close>

lemma shows_prefix_length: "shows_prefix sz xs full \<Longrightarrow> take sz xs = xs"
  by (auto simp: shows_prefix_def)

lemma get_memc_box_Inr:
  assumes "memcached_ok mc C" "coherent C sz key feeds m" "get_memc_box mc sz m (key u) = Inr box"
  shows "C m (key u) = Some box" "shows_prefix sz box (feeds u)" "box \<noteq> []"
proof -
  obtain xs where xs: "mc_get mc m (key u) = Found xs" "box = take sz xs" "box \<noteq> []"
    using assms(3)
    by (auto simp: get_memc_box_def Let_def min_def split: get_reply.splits if_splits)
       (metis list.size(3) not_less_zero)
  have c: "C m (key u) = Some xs" using memcached_ok_get [OF assms(1) xs(1)] .
  then have "shows_prefix sz xs (feeds u)" using coherentD [OF assms(2)] by blast
  with c xs(2,3) shows_prefix_length
  show "C m (key u) = Some box" "shows_prefix sz box (feeds u)" "box \<noteq> []" by force+
qed

lemma get_memc_box_Inl:
  assumes "memcached_ok mc C" "coherent C sz key feeds m" "get_memc_box mc sz m (key u) = Inl 0"
  shows "C m (key u) = None \<or> C m (key u) = Some []"
proof (cases "mc_get mc m (key u)")
  case (Found xs)
  then have c: "C m (key u) = Some xs" using memcached_ok_get [OF assms(1)] by blast
  then have "take sz xs = xs" using coherentD [OF assms(2)] shows_prefix_length by blast
  moreover have "take sz xs = []"
    using assms(3) Found by (auto simp: get_memc_box_def Let_def split: if_splits)
  ultimately show ?thesis using c by simp
next
  case Not_found
  then show ?thesis using memcached_ok_miss [OF assms(1)] by blast
qed (use assms(3) in \<open>simp add: get_memc_box_def\<close>)

lemma get_memc_box_Inl_coherent:
  assumes "memcached_ok mc C" "coherent C sz key feeds m" "inj key"
    "get_memc_box mc sz m (key u) = Inl 0"
  shows "coherent C sz key (feeds(u := full)) m"
proof -
  have "shows_prefix sz [] full" by (auto simp: shows_prefix_def intro!: exI [where x = 0])
  then show ?thesis
    using get_memc_box_Inl [OF assms(1,2,4)] assms(2) by (auto simp: coherent_def)
qed

lemma set_memc_box_coherent:
  assumes "memcached_ok mc C" "inj key"
    "\<And>v b. v \<noteq> u \<Longrightarrow> C (m_memc st) (key v) = Some b \<Longrightarrow> shows_prefix sz b (feeds' v)"
    "shows_prefix sz box (feeds' u)" "set_memc_box mc (key u) box st = (r, st')"
    "r = 0 \<or> (\<forall>b. C (m_memc st) (key u) = Some b \<longrightarrow> shows_prefix sz b (feeds' u))"
  shows "coherent C sz key feeds' (m_memc st')"
  unfolding coherent_def
proof (intro allI impI)
  fix v b assume b: "C (m_memc st') (key v) = Some b"
  obtain ok m' where s: "mc_set mc (m_memc st) (key u) box = (ok, m')" "st' = st\<lparr>m_memc := m'\<rparr>"
    "r = (if ok then 0 else -1)"
    using assms(5) by (auto simp: set_memc_box_def split: prod.splits)
  note law = memcached_ok_set [OF assms(1) s(1)]
  show "shows_prefix sz b (feeds' v)"
  proof (cases "v = u")
    case True
    with law b s(2) have "box = b \<or> (\<not> ok \<and> C (m_memc st) (key u) = Some b)"
      by (auto dest: keptD simp: kept_def)
    with assms(4,6) s(3) True show ?thesis by auto
  next
    case False
    with assms(2) have "key v \<noteq> key u" by (auto dest: injD)
    with law b s(2) have "C (m_memc st) (key v) = Some b" by (auto dest: keptD)
    with assms(3) False show ?thesis by blast
  qed
qed

lemma del_memc_box_coherent:
  assumes "memcached_ok mc C" "inj key"
    "\<And>v b. v \<noteq> u \<Longrightarrow> C (m_memc st) (key v) = Some b \<Longrightarrow> shows_prefix sz b (feeds' v)"
    "del_memc_box mc (key u) st = (0, st')"
  shows "coherent C sz key feeds' (m_memc st')"
  unfolding coherent_def
proof (intro allI impI)
  fix v b assume b: "C (m_memc st') (key v) = Some b"
  obtain m' where s: "mc_del mc (m_memc st) (key u) = (True, m')" "st' = st\<lparr>m_memc := m'\<rparr>"
    using assms(4) by (auto simp: del_memc_box_def split: prod.splits if_splits)
  note law = memcached_ok_del [OF assms(1) s(1)]
  show "shows_prefix sz b (feeds' v)"
  proof (cases "v = u")
    case False
    with assms(2) have "key v \<noteq> key u" by (auto dest: injD)
    with law b s(2) have "C (m_memc st) (key v) = Some b" by (auto dest: keptD)
    with assms(3) False show ?thesis by blast
  qed (use law b s(2) in auto)
qed

text \<open>Storing a changed box of \<open>u\<close>, when the box shows the changed list.\<close>

lemma store_box_coherent:
  assumes "memcached_ok mc C" "inj key" "coherent C sz key feeds (m_memc st)"
    "shows_prefix sz (take sz box) full" "store_box mc sz (key u) box st = (0, st')"
  shows "coherent C sz key (feeds(u := full)) (m_memc st')"
  by (rule set_memc_box_coherent [OF assms(1,2) _ _ assms(5) [unfolded store_box_def]])
     (use assms(3,4) in \<open>auto dest: coherentD\<close>)

lemma store_or_delete_box_coherent:
  assumes "memcached_ok mc C" "inj key" "coherent C sz key feeds (m_memc st)"
    "shows_prefix sz (take sz box) full" "store_or_delete_box mc sz (key u) box st = (0, st')"
  shows "coherent C sz key (feeds(u := full)) (m_memc st')"
proof (cases "take sz box = []")
  case True
  with assms(5) have "del_memc_box mc (key u) st = (0, st')" by (simp add: store_or_delete_box_def)
  then show ?thesis
    by (rule del_memc_box_coherent [OF assms(1,2), rotated]) (use assms(3) in \<open>auto dest: coherentD\<close>)
next
  case False
  with assms(5) have "store_box mc sz (key u) box st = (0, st')"
    by (simp add: store_or_delete_box_def store_box_def)
  then show ?thesis by (rule store_box_coherent [OF assms(1-4)])
qed

section \<open>Answering for many users\<close>

lemma erase_key_mset:
  "erase_key k us = Some vs \<Longrightarrow> \<exists>u \<in> set us. s32 (int u) = k \<and> length us = Suc (length vs) \<and>
     set us \<subseteq> insert u (set vs) \<and> set vs \<subseteq> set us"
proof (induction us arbitrary: vs)
  case (Cons u us)
  then show ?case by (fastforce split: if_splits option.splits)
qed simp

lemma s32_inj: "a < 4294967296 \<Longrightarrow> b < 4294967296 \<Longrightarrow> s32 (int a) = s32 (int b) \<Longrightarrow> a = b"
proof -
  assume a: "a < 4294967296" "b < 4294967296" "s32 (int a) = s32 (int b)"
  have "(int a + 2147483648) mod 4294967296 = (int b + 2147483648) mod 4294967296"
    using a(3) by (simp add: s32_def)
  then have "int a mod 4294967296 = int b mod 4294967296"
    by (metis (no_types, opaque_lifting) add_diff_cancel_right' mod_diff_left_eq)
  then show "a = b" using a(1,2) by simp
qed

lemma erase_key_member:
  assumes "\<forall>v \<in> set us. v < 4294967296" "u \<in> set us" "distinct us"
  shows "erase_key (s32 (int u)) us = Some (remove1 u us)"
  using assms
proof (induction us)
  case (Cons v vs)
  then show ?case
    using s32_inj [of u v] by auto
qed simp

text \<open>With laws for memcached, every result is one of the wanted keys, so nothing is undefined:
  what is returned are the found boxes, each cut to the box size, and the keys that had none.\<close>

lemma get_memc_result_ok:
  assumes "\<forall>v \<in> set us. v < 4294967296" "distinct us" "distinct (map fst rs)"
    "\<forall>(k, xs) \<in> set rs. \<exists>u \<in> set us. k = key u" "\<forall>u. atoi (key u) = s32 (int u)" "inj key"
  shows "\<exists>hits. get_memc_result sz rs us =
      Some (concat (map (\<lambda>r. take sz (snd r)) rs), filter (\<lambda>u. u \<notin> set hits) us) \<and>
      map key hits = map fst rs \<and> set hits \<subseteq> set us"
  using assms(1-4)
proof (induction rs arbitrary: us)
  case Nil
  then show ?case by (intro exI [where x = "[]"]) simp
next
  case (Cons r rs)
  obtain k xs where r: "r = (k, xs)" by fastforce
  obtain u where u: "u \<in> set us" "k = key u" using Cons.prems(4) r by auto
  have e: "erase_key (atoi k) us = Some (remove1 u us)"
    using erase_key_member [OF Cons.prems(1) u(1) Cons.prems(2)] assms(5) u(2) by simp
  have "\<forall>(k', xs) \<in> set rs. \<exists>v \<in> set (remove1 u us). k' = key v"
  proof (clarify)
    fix k' ys assume "(k', ys) \<in> set rs"
    then obtain v where v: "v \<in> set us" "k' = key v" "k' \<in> set (map fst rs)"
      using Cons.prems(4) by force
    then have "v \<noteq> u" using Cons.prems(3) r u(2) by auto
    with v Cons.prems(2) show "\<exists>v \<in> set (remove1 u us). k' = key v" by auto
  qed
  moreover have "\<forall>v \<in> set (remove1 u us). v < 4294967296" "distinct (remove1 u us)"
    "distinct (map fst rs)"
    using Cons.prems(1-3) set_remove1_subset [of u us] by auto
  ultimately obtain hits where h: "get_memc_result sz rs (remove1 u us) =
      Some (concat (map (\<lambda>r. take sz (snd r)) rs), filter (\<lambda>v. v \<notin> set hits) (remove1 u us))"
      "map key hits = map fst rs" "set hits \<subseteq> set (remove1 u us)"
    using Cons.IH [of "remove1 u us"] by blast
  have "filter (\<lambda>v. v \<notin> set hits) (remove1 u us) = filter (\<lambda>v. v \<notin> set (u # hits)) us"
    using Cons.prems(2) by (auto simp: distinct_remove1_removeAll removeAll_filter_not_eq
        filter_filter intro: filter_cong)
  moreover have "take (if length xs > sz then sz else length xs) xs = take sz xs" by simp
  ultimately show ?case using e h u r Cons.prems(2) set_remove1_subset [of u us]
    by (intro exI [where x = "u # hits"]) auto
qed

text \<open>The reply of the storage server that the service counts on: for each wanted key in turn,
  the newest \<open>m_size\<close> feeds of that user.\<close>

definition full_reply :: "nat \<Rightarrow> (nat \<Rightarrow> 'f list) \<Rightarrow> nat list \<Rightarrow> 'f list" where
  "full_reply m_size feeds us = concat (map (\<lambda>u. take m_size (feeds u)) us)"

definition owned :: "('f \<Rightarrow> nat) \<Rightarrow> (nat \<Rightarrow> 'f list) \<Rightarrow> bool" where
  "owned own feeds \<longleftrightarrow> (\<forall>u. \<forall>f \<in> set (feeds u). own f = u)"

lemma set_memc_box_any:
  assumes "memcached_ok mc C" "inj key" "coherent C sz key feeds (m_memc st)"
    "shows_prefix sz box (feeds u)"
  shows "coherent C sz key feeds (m_memc (snd (set_memc_box mc (key u) box st)))"
  using set_memc_box_coherent [OF assms(1,2), of u st sz feeds box "fst (set_memc_box mc (key u) box st)"
      "snd (set_memc_box mc (key u) box st)"] assms(3,4)
  by (auto dest: coherentD)

lemma cache_runs_coherent:
  assumes "memcached_ok mc C" "inj key" "owned own feeds"
    "coherent C sz key feeds (m_memc st)" "distinct (u # us)"
    "run @ rest = take sz (feeds u)" "run \<noteq> []"
  shows "coherent C sz key feeds (m_memc (cache_runs mc key own run (rest @ full_reply sz feeds us) st))"
  using assms(4-7)
proof (induction us arbitrary: u run rest st)
  case Nil
  have all: "\<forall>f \<in> set (take sz (feeds u)). own f = u"
    using assms(3) by (auto simp: owned_def dest: in_set_takeD)
  have run: "cache_runs mc key own run rest st = snd (set_memc_box mc (key u) (run @ rest) st)"
    if "run \<noteq> []" "\<forall>f \<in> set (run @ rest). own f = u" for run rest
    using that
  proof (induction rest arbitrary: run)
    case (Cons x xs)
    then show ?case by (simp add: last_in_set)
  qed (simp add: hd_in_set)
  have "shows_prefix sz (run @ rest) (feeds u)"
    using Nil.prems(3) by (auto simp: shows_prefix_def)
  with run [of run rest] Nil.prems all set_memc_box_any [OF assms(1,2)]
  show ?case by (simp add: full_reply_def)
next
  case (Cons v vs)
  have all: "\<forall>f \<in> set (take sz (feeds w)). own f = w" for w
    using assms(3) by (auto simp: owned_def dest: in_set_takeD)
  have own: "\<forall>f \<in> set (run @ rest). own f = u" using Cons.prems(3) all by auto
  show ?case
  proof (cases "take sz (feeds v)")
    case Nil
    then have "full_reply sz feeds (v # vs) = full_reply sz feeds vs" by (simp add: full_reply_def)
    then show ?thesis using Cons.IH [OF Cons.prems(1) _ Cons.prems(3,4)] Cons.prems(2) by simp
  next
    case f: (Cons f fs)
    have fr: "full_reply sz feeds (v # vs) = f # fs @ full_reply sz feeds vs"
      using f by (simp add: full_reply_def)
    have step: "cache_runs mc key own run (rest @ f # tail) st =
        cache_runs mc key own [f] tail (snd (set_memc_box mc (key u) (run @ rest) st))"
      if "run \<noteq> []" "\<forall>x \<in> set (run @ rest). own x = u" for run rest tail
      using that
    proof (induction rest arbitrary: run)
      case Nil
      have "own f = v" using all [of v] f by simp
      moreover have "own (last run) = u" "own (hd run) = u" using Nil by auto
      moreover have "u \<noteq> v" using Cons.prems(2) by auto
      ultimately show ?case by simp
    next
      case (Cons x xs)
      then show ?case by (simp add: last_in_set)
    qed
    have "shows_prefix sz (run @ rest) (feeds u)"
      using Cons.prems(3) by (auto simp: shows_prefix_def)
    then have "coherent C sz key feeds (m_memc (snd (set_memc_box mc (key u) (run @ rest) st)))"
      using set_memc_box_any [OF assms(1,2) Cons.prems(1)] by blast
    with Cons.IH [of "snd (set_memc_box mc (key u) (run @ rest) st)" v "[f]" fs] Cons.prems(2) f
    show ?thesis unfolding fr step [OF Cons.prems(4) own] by simp
  qed
qed

text \<open>Storing a full reply keeps the cache coherent.\<close>

lemma full_reply_runs:
  assumes "memcached_ok mc C" "inj key" "owned own feeds" "coherent C sz key feeds (m_memc st)"
    "distinct us" "full_reply sz feeds us = f # fs"
  shows "coherent C sz key feeds (m_memc (cache_runs mc key own [f] fs st))"
  using assms(5,6)
proof (induction us)
  case (Cons u us)
  show ?case
  proof (cases "take sz (feeds u)")
    case Nil
    with Cons show ?thesis by (simp add: full_reply_def)
  next
    case f: (Cons g gs)
    then have "g = f" "fs = gs @ full_reply sz feeds us"
      using Cons.prems(2) by (auto simp: full_reply_def)
    with cache_runs_coherent [OF assms(1-4), of u us "[f]" gs] Cons.prems(1) f
    show ?thesis by simp
  qed
qed (simp add: full_reply_def)

definition key_ok :: "(nat \<Rightarrow> string) \<Rightarrow> bool" where
  "key_ok key \<longleftrightarrow> inj key \<and> (\<forall>u. atoi (key u) = s32 (int u))"

lemma keys_ok: "key_ok outbox_key" "key_ok poutbox_key"
  using keys_inj atoi_keys by (auto simp: key_ok_def inj_def)

definition storage_ok ::
  "(nat \<Rightarrow> 'r) \<Rightarrow> nat \<Rightarrow> (nat \<Rightarrow> 'f list) \<Rightarrow> ('r, 'f) storage \<Rightarrow> bool" where
  "storage_ok entry m_size feeds stor \<longleftrightarrow>
     s_open stor \<noteq> -1 \<and>
     (\<forall>us. s_rqst stor (map entry us) = Some (0, full_reply m_size feeds us))"

lemma get_stor_boxes_ok:
  assumes "memcached_ok mc C" "inj key" "owned own feeds" "coherent C sz key feeds (m_memc st)"
    "distinct us" "storage_ok entry sz feeds stor"
  shows "\<exists>st'. get_stor_boxes mc key own entry stor us st =
       (int (length (full_reply sz feeds us)), full_reply sz feeds us, st') \<and>
     coherent C sz key feeds (m_memc st')"
proof (cases "us = []")
  case True
  with assms(4) show ?thesis by (simp add: get_stor_boxes_def full_reply_def)
next
  case False
  define st1 where "st1 = st\<lparr>m_miss := m_miss st + int (length us)\<rparr>"
  define st2 where "st2 = (if m_fd st1 = -1 then st1\<lparr>m_fd := s_open stor\<rparr> else st1)"
  have st2: "m_memc st2 = m_memc st" "m_fd st2 \<noteq> -1"
    using assms(6) by (auto simp: st2_def st1_def storage_ok_def)
  have "get_stor_boxes mc key own entry stor us st =
     (case full_reply sz feeds us of [] \<Rightarrow> (0, [], st2)
      | f # fs \<Rightarrow> (int (length (full_reply sz feeds us)), full_reply sz feeds us,
                   cache_runs mc key own [f] fs st2))"
    using False st2(2) assms(6)
    by (auto simp: get_stor_boxes_def Let_def st1_def [symmetric] st2_def storage_ok_def split: list.split)
  then show ?thesis
    using full_reply_runs [OF assms(1-3) _ assms(5), of sz st2] assms(4) st2(1)
    by (cases "full_reply sz feeds us") auto
qed

lemma get_boxes_ok:
  assumes "memcached_ok mc C" "key_ok key" "owned own feeds" "coherent C sz key feeds (m_memc st)"
    "distinct us" "\<forall>v \<in> set us. v < 4294967296" "us \<noteq> []" "length us \<le> MAX_UID_NUM"
    "storage_ok entry sz feeds stor"
  shows "\<exists>hits boxes st'. get_boxes mc sz key own entry stor us st =
       Some (0, concat boxes @ full_reply sz feeds (filter (\<lambda>u. u \<notin> set hits) us), st') \<and>
     coherent C sz key feeds (m_memc st') \<and> set hits \<subseteq> set us \<and>
     list_all2 (\<lambda>u box. shows_prefix sz box (feeds u)) hits boxes"
proof -
  have inj: "inj key" and at: "\<forall>u. atoi (key u) = s32 (int u)" using assms(2) by (simp_all add: key_ok_def)
  obtain hits boxes st1 where g: "get_memc_boxes mc sz key us st =
      Some (int (length (concat boxes)), concat boxes, filter (\<lambda>u. u \<notin> set hits) us, st1)"
    "m_memc st1 = m_memc st" "set hits \<subseteq> set us"
    "list_all2 (\<lambda>u box. shows_prefix sz box (feeds u)) hits boxes"
  proof (cases "mc_mget mc (m_memc st) (map key us)")
    case None
    with assms(7,8) show thesis
      by (intro that [of "[]" "[]" st]) (auto simp: get_memc_boxes_def MAX_UID_NUM_def Suc_le_eq)
  next
    case (Some rs)
    note law = memcached_ok_mget [OF assms(1) Some]
    then have "\<forall>(k, xs) \<in> set rs. \<exists>u \<in> set us. k = key u" by fastforce
    then obtain hits where h: "get_memc_result sz rs us =
        Some (concat (map (\<lambda>r. take sz (snd r)) rs), filter (\<lambda>u. u \<notin> set hits) us)"
      "map key hits = map fst rs" "set hits \<subseteq> set us"
      using get_memc_result_ok [OF assms(6,5) _ _ at inj, of rs sz] law by blast
    have "list_all2 (\<lambda>u r. C (m_memc st) (key u) = Some (snd r)) hits rs"
    proof (rule list_all2_all_nthI)
      show len: "length hits = length rs" using h(2) by (metis length_map)
      fix n assume n: "n < length hits"
      have "key (hits ! n) = fst (rs ! n)" using h(2) n len by (metis nth_map)
      moreover have "rs ! n \<in> set rs" using n len by simp
      ultimately show "C (m_memc st) (key (hits ! n)) = Some (snd (rs ! n))"
        using law by (metis (mono_tags, lifting) case_prod_beta)
    qed
    then have "list_all2 (\<lambda>u box. shows_prefix sz box (feeds u)) hits (map (\<lambda>r. take sz (snd r)) rs)"
      using assms(4) by (auto simp: list_all2_map2 elim!: list_all2_mono
          intro: shows_prefix_take coherentD)
    with h assms(7,8) Some show thesis
      by (intro that [of "map (\<lambda>r. take sz (snd r)) rs" hits "st\<lparr>m_hit := m_hit st +
             (int (length us) - int (length (filter (\<lambda>u. u \<notin> set hits) us)))\<rparr>"])
         (auto simp: get_memc_boxes_def MAX_UID_NUM_def Suc_le_eq)
  qed
  obtain st2 where "get_stor_boxes mc key own entry stor (filter (\<lambda>u. u \<notin> set hits) us) st1 =
       (int (length (full_reply sz feeds (filter (\<lambda>u. u \<notin> set hits) us))),
        full_reply sz feeds (filter (\<lambda>u. u \<notin> set hits) us), st2)"
     "coherent C sz key feeds (m_memc st2)"
    using get_stor_boxes_ok [OF assms(1) inj assms(3) _ _ assms(9),
        of st1 "filter (\<lambda>u. u \<notin> set hits) us"] assms(4,5) g(2) by auto
  with g show ?thesis
    by (intro exI [where x = hits] exI [where x = boxes] exI [where x = st2]) (simp add: get_boxes_def)
qed

end
