(* ===== verification/FeedId.thy ===== *)
theory FeedId
  imports Prelude
begin

text \<open>
  The identification of a feed and its packed form (\<^verbatim>\<open>feedid.h\<close>), which the outbox and the storage
  service share.
\<close>

record feedid =
  fid_mimi :: nat
  fid_cmd_id :: nat
  fid_app_id :: nat
  fid_timestamp :: nat
  fid_magic :: nat

definition feedid_sz :: nat where "feedid_sz = 22"

definition rd_feedid :: "byte list \<Rightarrow> feedid" where
  "rd_feedid bs =
     \<lparr>fid_mimi = rd_le 0 4 bs, fid_cmd_id = rd_le 4 2 bs, fid_app_id = rd_le 6 4 bs,
      fid_timestamp = rd_le 10 4 bs, fid_magic = rd_le 14 8 bs\<rparr>"

definition wr_feedid :: "feedid \<Rightarrow> byte list" where
  "wr_feedid f =
     to_le 4 (fid_mimi f) @ to_le 2 (fid_cmd_id f) @ to_le 4 (fid_app_id f) @
     to_le 4 (fid_timestamp f) @ to_le 8 (fid_magic f)"

text \<open>The fields fit their width.\<close>

definition feedid_ok :: "feedid \<Rightarrow> bool" where
  "feedid_ok f \<longleftrightarrow> fid_mimi f < 2 ^ 32 \<and> fid_cmd_id f < 2 ^ 16 \<and> fid_app_id f < 2 ^ 32 \<and>
     fid_timestamp f < 2 ^ 32 \<and> fid_magic f < 2 ^ 64"

lemma length_wr_feedid [simp]: "length (wr_feedid f) = feedid_sz"
  by (simp add: wr_feedid_def feedid_sz_def)

lemma rd_wr_feedid: "feedid_ok f \<Longrightarrow> rd_feedid (wr_feedid f @ r) = f"
  by (cases f) (simp add: rd_feedid_def wr_feedid_def feedid_ok_def layout)

lemma rd_feedid_ok: "feedid_ok (rd_feedid bs)"
  using rd_le_bound [of 0 4 bs] rd_le_bound [of 4 2 bs] rd_le_bound [of 6 4 bs] rd_le_bound [of 10 4 bs]
    rd_le_bound [of 14 8 bs]
  by (simp add: feedid_ok_def rd_feedid_def)

end
