(* ===== verification/Outbox.thy ===== *)
theory Outbox
  imports BoxCache FeedId
begin

text \<open>
  The feed box of a user (\<^verbatim>\<open>outbox/outbox.cpp\<close>, class \<^verbatim>\<open>c_outbox\<close>): the newest feeds of
  each user, cached in memcached and filled from the storage server. Proved: every operation
  that reports success leaves each cached box a prefix of its owner's full feed list, newest
  first, and a request for many boxes is answered from such boxes and the storage server.
\<close>

section \<open>Feeds and the local box\<close>

text \<open>Looking a feed up ignores the application, removing it does not look at the user.\<close>

definition same_exists :: "feedid \<Rightarrow> feedid \<Rightarrow> bool" where
  "same_exists a b \<longleftrightarrow>
     fid_mimi a = fid_mimi b \<and> fid_cmd_id a = fid_cmd_id b \<and> fid_magic a = fid_magic b \<and>
     fid_timestamp a = fid_timestamp b"

definition same_remove :: "feedid \<Rightarrow> feedid \<Rightarrow> bool" where
  "same_remove a b \<longleftrightarrow>
     fid_cmd_id a = fid_cmd_id b \<and> fid_app_id a = fid_app_id b \<and> fid_magic a = fid_magic b \<and>
     fid_timestamp a = fid_timestamp b"

definition local_outbox_exists :: "feedid \<Rightarrow> feedid list \<Rightarrow> int" where
  "local_outbox_exists f box = (if box_exists same_exists f box then 1 else 0)"

definition local_outbox_insert :: "feedid \<Rightarrow> feedid list \<Rightarrow> feedid list" where
  "local_outbox_insert f box = box_insert fid_timestamp f box"

definition local_outbox_remove :: "feedid \<Rightarrow> feedid list \<Rightarrow> feedid list" where
  "local_outbox_remove f box = box_remove same_remove f box"

section \<open>Operations\<close>

text \<open>When the lookup finds no box (\<open>Inl r\<close>) there is nothing to change and its result is
  returned.\<close>

definition outbox_insert ::
  "('m, feedid) memcached \<Rightarrow> nat \<Rightarrow> feedid \<Rightarrow> 'm box_state \<Rightarrow> int \<times> 'm box_state" where
  "outbox_insert mc m_size f st =
     (let key = outbox_key (fid_mimi f)
      in case get_memc_box mc m_size (m_memc st) key of
           Inl r \<Rightarrow> (r, st)
         | Inr box \<Rightarrow>
             let box1 = (if local_outbox_exists f box = 0 then local_outbox_insert f box else box)
             in store_box mc m_size key box1 st)"

definition outbox_update ::
  "('m, feedid) memcached \<Rightarrow> nat \<Rightarrow> feedid \<Rightarrow> feedid \<Rightarrow> 'm box_state \<Rightarrow> int \<times> 'm box_state" where
  "outbox_update mc m_size new old st =
     (if fid_mimi new \<noteq> fid_mimi old then (-1, st)
      else if fid_timestamp new < fid_timestamp old then (-1, st)
      else if same_exists new old then (0, st)
      else
        let key = outbox_key (fid_mimi new)
        in case get_memc_box mc m_size (m_memc st) key of
             Inl r \<Rightarrow> (r, st)
           | Inr box \<Rightarrow>
               let box1 = (if local_outbox_exists new box = 0
                           then local_outbox_remove old (local_outbox_insert new box)
                           else local_outbox_remove old box)
               in store_box mc m_size key box1 st)"

definition outbox_del ::
  "('m, feedid) memcached \<Rightarrow> nat \<Rightarrow> feedid \<Rightarrow> 'm box_state \<Rightarrow> int \<times> 'm box_state" where
  "outbox_del mc m_size f st =
     (let key = outbox_key (fid_mimi f)
      in case get_memc_box mc m_size (m_memc st) key of
           Inl r \<Rightarrow> (r, st)
         | Inr box \<Rightarrow> store_or_delete_box mc m_size key (local_outbox_remove f box) st)"

record indexn_pkg =
  ix_mimi :: nat
  ix_flag :: nat
  ix_cmd_id :: nat
  ix_app_id :: nat
  ix_starttime :: nat
  ix_prev_num :: nat

definition outbox_entry :: "nat \<Rightarrow> nat \<Rightarrow> nat \<Rightarrow> indexn_pkg" where
  "outbox_entry m_size now uid =
     \<lparr>ix_mimi = uid, ix_flag = 0, ix_cmd_id = 0, ix_app_id = 0, ix_starttime = now,
      ix_prev_num = m_size mod 65536\<rparr>"

definition outbox_get ::
  "('m, feedid) memcached \<Rightarrow> nat \<Rightarrow> nat \<Rightarrow> (indexn_pkg, feedid) storage \<Rightarrow> nat list \<Rightarrow>
   'm box_state \<Rightarrow> (int \<times> feedid list \<times> 'm box_state) option" where
  "outbox_get mc m_size now stor uids st =
     get_boxes mc m_size outbox_key fid_mimi (outbox_entry m_size now) stor uids st"

section \<open>Coherence\<close>

abbreviation outbox_coherent ::
  "('m \<Rightarrow> string \<Rightarrow> feedid list option) \<Rightarrow> nat \<Rightarrow> (nat \<Rightarrow> feedid list) \<Rightarrow> 'm box_state \<Rightarrow> bool" where
  "outbox_coherent C m_size feeds st \<equiv> coherent C m_size outbox_key feeds (m_memc st)"

text \<open>A new feed goes in front of what is not newer; the cached box must not be older where it
  ends, or hold the whole list.\<close>

definition cached_fit ::
  "('m \<Rightarrow> string \<Rightarrow> feedid list option) \<Rightarrow> (nat \<Rightarrow> feedid list) \<Rightarrow> feedid \<Rightarrow>
   'm box_state \<Rightarrow> bool" where
  "cached_fit C feeds f st \<longleftrightarrow>
     (case C (m_memc st) (outbox_key (fid_mimi f)) of
        None \<Rightarrow> True
      | Some box \<Rightarrow> fits_after fid_timestamp f box (feeds (fid_mimi f)))"

lemma outbox_key_inj: "inj outbox_key"
  using keys_ok by (simp add: key_ok_def)

lemma local_exists_0: "\<forall>g \<in> set full. \<not> same_exists g f \<Longrightarrow> shows_prefix m box full \<Longrightarrow>
    local_outbox_exists f box = 0"
  by (auto simp: local_outbox_exists_def box_exists_def shows_prefix_def dest: in_set_takeD)

lemma local_insert_shows:
  assumes "shows_prefix m box full" "box \<noteq> []" "fits_after fid_timestamp f box full"
  shows "shows_prefix (Suc m) (local_outbox_insert f box) (feed_insert fid_timestamp f full)"
proof -
  have l: "length box \<le> m" using assms(1) by (auto simp: shows_prefix_def)
  have "shows_prefix (Suc m) box full" using assms(1) by (auto simp: shows_prefix_def intro: le_SucI)
  from box_insert_prefix [OF this assms(2,3)] l show ?thesis
    by (simp add: local_outbox_insert_def box_insert_feed_insert [OF assms(2)])
qed

lemma shows_prefix_cut: "shows_prefix n box full \<Longrightarrow> shows_prefix m (take m box) full"
  by (auto simp: shows_prefix_def) (metis min.cobounded1)

section \<open>The properties of the outbox\<close>


text \<open>A successful update, which replaces an old feed of the user by a new, not older one,
  keeps every cached box a view of its owner's newest feeds.\<close>

lemma outbox_update_coherent:
  assumes "memcached_ok mc C" "outbox_coherent C m_size feeds st"
    "\<forall>g \<in> set (feeds (fid_mimi new)). \<not> same_exists g new" "cached_fit C feeds new st"
    "\<not> same_exists new old" "outbox_update mc m_size new old st = (0, st')"
  shows "fid_mimi old = fid_mimi new \<and> fid_timestamp old \<le> fid_timestamp new \<and>
    outbox_coherent C m_size
      (feeds(fid_mimi new := box_remove same_remove old
         (feed_insert fid_timestamp new (feeds (fid_mimi new))))) st'"
proof -
  have g: "fid_mimi old = fid_mimi new" "fid_timestamp old \<le> fid_timestamp new"
    using assms(6) by (auto simp: outbox_update_def split: if_splits)
  show ?thesis
  proof (cases "get_memc_box mc m_size (m_memc st) (outbox_key (fid_mimi new))")
    case (Inl r)
    with assms(5,6) g have "r = 0" "st' = st" by (simp_all add: outbox_update_def)
    with get_memc_box_Inl_coherent [OF assms(1,2) outbox_key_inj] Inl g show ?thesis by simp
  next
    case (Inr box)
    note b = get_memc_box_Inr [OF assms(1,2) Inr]
    have fit: "fits_after fid_timestamp new box (feeds (fid_mimi new))"
      using assms(4) b(1) by (simp add: cached_fit_def)
    have st: "store_box mc m_size (outbox_key (fid_mimi new))
        (local_outbox_remove old (local_outbox_insert new box)) st = (0, st')"
      using assms(5,6) g Inr local_exists_0 [OF assms(3) b(2)] by (simp add: outbox_update_def)
    have "shows_prefix (Suc m_size) (local_outbox_remove old (local_outbox_insert new box))
        (box_remove same_remove old (feed_insert fid_timestamp new (feeds (fid_mimi new))))"
      unfolding local_outbox_remove_def
      by (rule box_remove_prefix [OF local_insert_shows [OF b(2,3) fit]])
    then have "outbox_coherent C m_size
        (feeds(fid_mimi new := box_remove same_remove old
           (feed_insert fid_timestamp new (feeds (fid_mimi new))))) st'"
      by (rule store_box_coherent [OF assms(1) outbox_key_inj assms(2) shows_prefix_cut st])
    with g show ?thesis by simp
  qed
qed

text \<open>A successful delete keeps every cached box a view of its owner's newest feeds; a box
  that becomes empty leaves the cache.\<close>

theorem outbox_del_coherent:
  assumes "memcached_ok mc C" "outbox_coherent C m_size feeds st"
    "outbox_del mc m_size f st = (0, st')"
  shows "outbox_coherent C m_size
    (feeds(fid_mimi f := box_remove same_remove f (feeds (fid_mimi f)))) st'"
proof (cases "get_memc_box mc m_size (m_memc st) (outbox_key (fid_mimi f))")
  case (Inl r)
  with assms(3) have "r = 0" "st' = st" by (simp_all add: outbox_del_def)
  with get_memc_box_Inl_coherent [OF assms(1,2) outbox_key_inj] Inl show ?thesis by simp
next
  case (Inr box)
  note b = get_memc_box_Inr [OF assms(1,2) Inr]
  have st: "store_or_delete_box mc m_size (outbox_key (fid_mimi f)) (local_outbox_remove f box) st = (0, st')"
    using assms(3) Inr by (simp add: outbox_del_def)
  have "shows_prefix m_size (local_outbox_remove f box) (box_remove same_remove f (feeds (fid_mimi f)))"
    unfolding local_outbox_remove_def by (rule box_remove_prefix [OF b(2)])
  then show ?thesis
    by (rule store_or_delete_box_coherent [OF assms(1) outbox_key_inj assms(2) shows_prefix_cut st])
qed

text \<open>C33: A request for the boxes of up to 100 different users succeeds when the storage server
  answers: it returns, for the users with a cached box, a view of their newest feeds, and
  after those the newest feeds of all the others, no user left out or answered twice; the
  boxes it stores on the way keep the cache coherent.\<close>

theorem outbox_get_answers:
  assumes "memcached_ok mc C" "owned fid_mimi feeds" "outbox_coherent C m_size feeds st"
    "distinct uids" "\<forall>v \<in> set uids. v < 4294967296" "uids \<noteq> []" "length uids \<le> MAX_UID_NUM"
    "storage_ok (outbox_entry m_size now) m_size feeds stor"
  shows "\<exists>hits boxes st'. outbox_get mc m_size now stor uids st =
       Some (0, concat boxes @
         concat (map (\<lambda>u. take m_size (feeds u)) (filter (\<lambda>u. u \<notin> set hits) uids)), st') \<and>
     outbox_coherent C m_size feeds st' \<and> set hits \<subseteq> set uids \<and>
     list_all2 (\<lambda>u box. shows_prefix m_size box (feeds u)) hits boxes"
  using get_boxes_ok [OF assms(1) keys_ok(1) assms(2-8)]
  by (simp add: outbox_get_def full_reply_def)

section \<open>Examples\<close>

definition demo_feed :: "nat \<Rightarrow> nat \<Rightarrow> feedid" where
  "demo_feed u t = \<lparr>fid_mimi = u, fid_cmd_id = 1, fid_app_id = 1, fid_timestamp = t, fid_magic = t\<rparr>"

definition demo_feeds :: "nat \<Rightarrow> feedid list" where
  "demo_feeds u = (if u = 7 then [demo_feed 7 20, demo_feed 7 10] else [demo_feed u 5])"

definition demo_cache :: "(string \<Rightarrow> feedid list option) box_state" where
  "demo_cache = \<lparr>m_memc = [outbox_key 7 \<mapsto> [demo_feed 7 20]], m_hit = 0, m_miss = 0, m_fd = -1\<rparr>"

lemma demo_cache_coherent: "outbox_coherent (\<lambda>m. m) 2 demo_feeds demo_cache"
proof -
  have "shows_prefix 2 [demo_feed 7 20] (demo_feeds 7)"
    unfolding shows_prefix_def by (rule exI [where x = 1]) (simp add: demo_feeds_def)
  then show ?thesis
    by (auto simp: coherent_def demo_cache_def dest: keys_inj(1) split: if_splits)
qed

definition demo_stor :: "(indexn_pkg, feedid) storage" where
  "demo_stor = \<lparr>s_open = 3, s_rqst = (\<lambda>es. Some (0, full_reply 2 demo_feeds (map ix_mimi es)))\<rparr>"

lemma demo_owned: "owned fid_mimi demo_feeds"
  by (auto simp: owned_def demo_feeds_def demo_feed_def)

lemma demo_new: "\<forall>g \<in> set (demo_feeds 7). \<not> same_exists g (demo_feed 7 30)"
  by (simp add: demo_feeds_def same_exists_def demo_feed_def)

lemma demo_fit: "cached_fit (\<lambda>m. m) demo_feeds (demo_feed 7 30) demo_cache"
  by (simp add: cached_fit_def demo_cache_def demo_feed_def fits_after_def)

lemmas demo_eval = outbox_insert_def outbox_update_def outbox_del_def demo_cache_def demo_feed_def
  map_memcached_def get_memc_box_def store_box_def set_memc_box_def store_or_delete_box_def
  del_memc_box_def local_outbox_exists_def local_outbox_insert_def local_outbox_remove_def
  box_exists_def same_exists_def same_remove_def Let_def


lemma outbox_update_coherent_witness:
  "fid_timestamp (demo_feed 7 20) \<le> fid_timestamp (demo_feed 7 30) \<and>
   outbox_coherent (\<lambda>m. m) 2
     (demo_feeds(7 := box_remove same_remove (demo_feed 7 20)
        (feed_insert fid_timestamp (demo_feed 7 30) (demo_feeds 7))))
     (demo_cache\<lparr>m_memc := [outbox_key 7 \<mapsto> [demo_feed 7 30]]\<rparr>)"
proof -
  have u: "outbox_update map_memcached 2 (demo_feed 7 30) (demo_feed 7 20) demo_cache =
      (0, demo_cache\<lparr>m_memc := [outbox_key 7 \<mapsto> [demo_feed 7 30]]\<rparr>)"
    by (simp add: demo_eval)
  have "\<not> same_exists (demo_feed 7 30) (demo_feed 7 20)"
    by (simp add: same_exists_def demo_feed_def)
  from outbox_update_coherent [OF map_memcached_ok demo_cache_coherent _ demo_fit this u] demo_new
  show ?thesis by (simp add: demo_feed_def)
qed

theorem outbox_del_coherent_witness:
  "outbox_coherent (\<lambda>m. m) 2
     (demo_feeds(7 := box_remove same_remove (demo_feed 7 20) (demo_feeds 7)))
     (demo_cache\<lparr>m_memc := Map.empty\<rparr>)"
proof -
  have "outbox_del map_memcached 2 (demo_feed 7 20) demo_cache =
      (0, demo_cache\<lparr>m_memc := Map.empty\<rparr>)"
    by (simp add: demo_eval)
  from outbox_del_coherent [OF map_memcached_ok demo_cache_coherent this]
  show ?thesis by (simp add: demo_feed_def)
qed

lemma demo_stor_ok: "storage_ok (outbox_entry 2 100) 2 demo_feeds demo_stor"
  by (simp add: storage_ok_def demo_stor_def outbox_entry_def comp_def)

theorem outbox_get_answers_witness:
  "\<exists>hits boxes st'. outbox_get map_memcached 2 100 demo_stor [7, 9] demo_cache =
       Some (0, concat boxes @
         concat (map (\<lambda>u. take 2 (demo_feeds u)) (filter (\<lambda>u. u \<notin> set hits) [7, 9])), st') \<and>
     outbox_coherent (\<lambda>m. m) 2 demo_feeds st' \<and> set hits \<subseteq> set [7, 9] \<and>
     list_all2 (\<lambda>u box. shows_prefix 2 box (demo_feeds u)) hits boxes"
  by (rule outbox_get_answers [OF map_memcached_ok _ demo_cache_coherent _ _ _ _ demo_stor_ok])
     (auto simp: owned_def demo_feeds_def demo_feed_def MAX_UID_NUM_def)

end
