(* ===== verification/Poutbox.thy ===== *)
theory Poutbox
  imports Outbox
begin

text \<open>
  The box of passive feeds of a user (\<^verbatim>\<open>poutbox/poutbox.cpp\<close>, class \<^verbatim>\<open>c_poutbox\<close>): feeds
  others sent to the user, ordered by the time they were last active. An entry that is active
  again moves to its new place. It shares the cache routines with \<open>Outbox\<close> and uses keys of
  its own.
\<close>

section \<open>Passive feeds and the local box\<close>

record apfeedid =
  p_src_fid :: feedid
  p_sender_id :: nat
  p_target_id :: nat
  p_magic :: nat
  p_atime :: nat

text \<open>All fields but the time identify an entry.\<close>

definition same_pfeed :: "apfeedid \<Rightarrow> apfeedid \<Rightarrow> bool" where
  "same_pfeed a b \<longleftrightarrow>
     fid_mimi (p_src_fid a) = fid_mimi (p_src_fid b) \<and>
     fid_cmd_id (p_src_fid a) = fid_cmd_id (p_src_fid b) \<and>
     fid_app_id (p_src_fid a) = fid_app_id (p_src_fid b) \<and>
     fid_timestamp (p_src_fid a) = fid_timestamp (p_src_fid b) \<and>
     fid_magic (p_src_fid a) = fid_magic (p_src_fid b) \<and>
     p_sender_id a = p_sender_id b \<and> p_target_id a = p_target_id b \<and> p_magic a = p_magic b"

definition local_poutbox_exists :: "apfeedid \<Rightarrow> apfeedid list \<Rightarrow> int" where
  "local_poutbox_exists f box = (if box_exists same_pfeed f box then 1 else 0)"

definition local_poutbox_insert :: "apfeedid \<Rightarrow> apfeedid list \<Rightarrow> apfeedid list" where
  "local_poutbox_insert f box = box_insert p_atime f box"

definition local_poutbox_remove :: "apfeedid \<Rightarrow> apfeedid list \<Rightarrow> apfeedid list" where
  "local_poutbox_remove f box = box_remove same_pfeed f box"

section \<open>Operations\<close>

definition get_memc_poutbox ::
  "('m, apfeedid) memcached \<Rightarrow> nat \<Rightarrow> 'm \<Rightarrow> string \<Rightarrow> int + apfeedid list" where
  "get_memc_poutbox = get_memc_box"

definition poutbox_insert ::
  "('m, apfeedid) memcached \<Rightarrow> nat \<Rightarrow> apfeedid \<Rightarrow> 'm box_state \<Rightarrow> int \<times> 'm box_state" where
  "poutbox_insert mc m_size f st =
     (let key = poutbox_key (p_target_id f)
      in case get_memc_poutbox mc m_size (m_memc st) key of
           Inl r \<Rightarrow> (r, st)
         | Inr box \<Rightarrow>
             let box1 = (if local_poutbox_exists f box = 0 then local_poutbox_insert f box
                         else local_poutbox_insert f (local_poutbox_remove f box))
             in store_box mc m_size key box1 st)"

definition poutbox_update ::
  "('m, apfeedid) memcached \<Rightarrow> nat \<Rightarrow> apfeedid \<Rightarrow> apfeedid \<Rightarrow> 'm box_state \<Rightarrow> int \<times> 'm box_state" where
  "poutbox_update mc m_size new old st =
     (if p_atime new < p_atime old then (-1, st)
      else if p_target_id new \<noteq> p_target_id old then (-1, st)
      else
        let key = poutbox_key (p_target_id new)
        in case get_memc_poutbox mc m_size (m_memc st) key of
             Inl r \<Rightarrow> (r, st)
           | Inr box \<Rightarrow>
               let box1 = (if local_poutbox_exists new box = 0
                           then local_poutbox_insert new (local_poutbox_remove old box)
                           else local_poutbox_insert new
                                  (local_poutbox_remove new (local_poutbox_remove old box)))
               in store_box mc m_size key box1 st)"

definition poutbox_del ::
  "('m, apfeedid) memcached \<Rightarrow> nat \<Rightarrow> apfeedid \<Rightarrow> 'm box_state \<Rightarrow> int \<times> 'm box_state" where
  "poutbox_del mc m_size f st =
     (let key = poutbox_key (p_target_id f)
      in case get_memc_poutbox mc m_size (m_memc st) key of
           Inl r \<Rightarrow> (r, st)
         | Inr box \<Rightarrow> store_or_delete_box mc m_size key (local_poutbox_remove f box) st)"

record indexn_p_pkg =
  ixp_mimi :: nat
  ixp_starttime :: nat
  ixp_prev_num :: nat

definition poutbox_entry :: "nat \<Rightarrow> nat \<Rightarrow> nat \<Rightarrow> indexn_p_pkg" where
  "poutbox_entry m_size now uid =
     \<lparr>ixp_mimi = uid, ixp_starttime = now, ixp_prev_num = m_size\<rparr>"

definition get_memc_poutboxes ::
  "('m, apfeedid) memcached \<Rightarrow> nat \<Rightarrow> nat list \<Rightarrow> 'm box_state \<Rightarrow>
   (int \<times> apfeedid list \<times> nat list \<times> 'm box_state) option" where
  "get_memc_poutboxes mc m_size = get_memc_boxes mc m_size poutbox_key"

definition get_stor_poutbox ::
  "('m, apfeedid) memcached \<Rightarrow> nat \<Rightarrow> nat \<Rightarrow> (indexn_p_pkg, apfeedid) storage \<Rightarrow>
   nat list \<Rightarrow> 'm box_state \<Rightarrow> int \<times> apfeedid list \<times> 'm box_state" where
  "get_stor_poutbox mc m_size now = get_stor_boxes mc poutbox_key p_target_id (poutbox_entry m_size now)"

definition poutbox_get ::
  "('m, apfeedid) memcached \<Rightarrow> nat \<Rightarrow> nat \<Rightarrow> (indexn_p_pkg, apfeedid) storage \<Rightarrow> nat list \<Rightarrow>
   'm box_state \<Rightarrow> (int \<times> apfeedid list \<times> 'm box_state) option" where
  "poutbox_get mc m_size now stor uids st =
     (case get_memc_poutboxes mc m_size uids st of
        None \<Rightarrow> None
      | Some (r, xs, keys, st1) \<Rightarrow>
          if r < 0 then Some (-1, [], st1)
          else (case get_stor_poutbox mc m_size now stor keys st1 of
                  (r2, ys, st2) \<Rightarrow>
                    if r2 < 0 then Some (-1, [], st2) else Some (0, xs @ ys, st2)))"

section \<open>Coherence\<close>

abbreviation poutbox_coherent ::
  "('m \<Rightarrow> string \<Rightarrow> apfeedid list option) \<Rightarrow> nat \<Rightarrow> (nat \<Rightarrow> apfeedid list) \<Rightarrow> 'm box_state \<Rightarrow> bool" where
  "poutbox_coherent C m_size feeds st \<equiv> coherent C m_size poutbox_key feeds (m_memc st)"

lemma poutbox_key_inj: "inj poutbox_key"
  using keys_ok by (simp add: key_ok_def)

text \<open>The full list when an entry is (again) active: it is taken out and put in by its time.\<close>

definition refresh :: "apfeedid \<Rightarrow> apfeedid list \<Rightarrow> apfeedid list" where
  "refresh f full = feed_insert p_atime f (box_remove same_pfeed f full)"

definition pcached_fit ::
  "('m \<Rightarrow> string \<Rightarrow> apfeedid list option) \<Rightarrow> (nat \<Rightarrow> apfeedid list) \<Rightarrow> apfeedid \<Rightarrow>
   (apfeedid list \<Rightarrow> apfeedid list) \<Rightarrow> 'm box_state \<Rightarrow> bool" where
  "pcached_fit C feeds f g st \<longleftrightarrow>
     (case C (m_memc st) (poutbox_key (p_target_id f)) of
        None \<Rightarrow> True
      | Some box \<Rightarrow> fits_after p_atime f (box_remove same_pfeed f (g box))
                      (box_remove same_pfeed f (g (feeds (p_target_id f)))))"

lemma box_remove_absent: "\<not> box_exists same f box \<Longrightarrow> box_remove same f box = box"
  by (induction box) (auto simp: box_exists_def)

lemma box_insert_shows:
  assumes "shows_prefix m box full" "fits_after p_atime f box full"
  shows "shows_prefix m (take m (box_insert p_atime f box)) (feed_insert p_atime f full)"
proof (cases "box = []")
  case True
  then show ?thesis by (auto simp: shows_prefix_def intro!: exI [where x = 0])
next
  case False
  from box_insert_prefix [OF assms(1) False assms(2)] show ?thesis .
qed

section \<open>The properties of the passive box\<close>


text \<open>A successful update takes the old entry out and puts the new one in by its time, in the
  owner's list as in the cached view of it.\<close>

theorem poutbox_update_coherent:
  assumes "memcached_ok mc C" "poutbox_coherent C m_size feeds st"
    "pcached_fit C feeds new (box_remove same_pfeed old) st"
    "poutbox_update mc m_size new old st = (0, st')"
  shows "p_target_id old = p_target_id new \<and> p_atime old \<le> p_atime new \<and>
    poutbox_coherent C m_size (feeds(p_target_id new :=
      refresh new (box_remove same_pfeed old (feeds (p_target_id new))))) st'"
proof -
  have g: "p_target_id old = p_target_id new" "p_atime old \<le> p_atime new"
    using assms(4) by (auto simp: poutbox_update_def split: if_splits)
  show ?thesis
  proof (cases "get_memc_box mc m_size (m_memc st) (poutbox_key (p_target_id new))")
    case (Inl r)
    with assms(4) g have "r = 0" "st' = st" by (simp_all add: poutbox_update_def get_memc_poutbox_def)
    with get_memc_box_Inl_coherent [OF assms(1,2) poutbox_key_inj] Inl g show ?thesis by simp
  next
    case (Inr box)
    note b = get_memc_box_Inr [OF assms(1,2) Inr]
    let ?old = "box_remove same_pfeed old box"
    let ?box = "box_remove same_pfeed new ?old"
    have fit: "fits_after p_atime new ?box
        (box_remove same_pfeed new (box_remove same_pfeed old (feeds (p_target_id new))))"
      using assms(3) b(1) by (simp add: pcached_fit_def)
    have "?box = ?old" if "\<not> box_exists same_pfeed new box"
      using that set_box_remove [of same_pfeed old box]
      by (intro box_remove_absent) (auto simp: box_exists_def)
    then have st: "store_box mc m_size (poutbox_key (p_target_id new)) (box_insert p_atime new ?box) st = (0, st')"
      using assms(4) Inr g
      by (auto simp: poutbox_update_def get_memc_poutbox_def local_poutbox_exists_def
          local_poutbox_insert_def local_poutbox_remove_def Let_def split: if_splits)
    have "poutbox_coherent C m_size (feeds(p_target_id new :=
      refresh new (box_remove same_pfeed old (feeds (p_target_id new))))) st'"
      unfolding refresh_def
      by (rule store_box_coherent [OF assms(1) poutbox_key_inj assms(2)
            box_insert_shows [OF box_remove_prefix [OF box_remove_prefix [OF b(2)]] fit] st])
    with g show ?thesis by simp
  qed
qed

text \<open>A request for the passive boxes of up to 100 different users is answered completely from
  the cached views and, for the users without one, from the storage server, and keeps the
  cache coherent. Operations on passive boxes and on feed boxes use different keys, so
  neither disturbs the other's cache.\<close>

lemma poutbox_get_answers:
  assumes "memcached_ok mc C" "owned p_target_id feeds" "poutbox_coherent C m_size feeds st"
    "distinct uids" "\<forall>v \<in> set uids. v < 4294967296" "uids \<noteq> []" "length uids \<le> MAX_UID_NUM"
    "storage_ok (poutbox_entry m_size now) m_size feeds stor"
  shows "(\<exists>hits boxes st'. poutbox_get mc m_size now stor uids st =
       Some (0, concat boxes @
         concat (map (\<lambda>u. take m_size (feeds u)) (filter (\<lambda>u. u \<notin> set hits) uids)), st') \<and>
     poutbox_coherent C m_size feeds st' \<and> set hits \<subseteq> set uids \<and>
     list_all2 (\<lambda>u box. shows_prefix m_size box (feeds u)) hits boxes) \<and>
     (\<forall>a b. poutbox_key a \<noteq> outbox_key b)"
proof -
  have "poutbox_get mc m_size now stor uids st =
      get_boxes mc m_size poutbox_key p_target_id (poutbox_entry m_size now) stor uids st"
    unfolding poutbox_get_def get_boxes_def get_memc_poutboxes_def get_stor_poutbox_def ..
  with get_boxes_ok [OF assms(1) keys_ok(2) assms(2-8)] keys_apart show ?thesis
    by (auto simp: full_reply_def eq_commute [of "poutbox_key _"])
qed

section \<open>A box of one entry\<close>

text \<open>
  An entry that is alone in its box and becomes active again is lost from the cache: it is
  removed first, and the insertion loop does nothing on an empty array. The box is stored
  empty, which a later request takes for a hit without feeds.
\<close>

lemma poutbox_single_lost:
  assumes "get_memc_poutbox mc m_size (m_memc st) (poutbox_key (p_target_id f)) = Inr [g]"
    "same_pfeed g f"
  shows "poutbox_insert mc m_size f st = store_box mc m_size (poutbox_key (p_target_id f)) [] st"
  using assms
  by (simp add: poutbox_insert_def local_poutbox_exists_def box_exists_def
      local_poutbox_insert_def local_poutbox_remove_def)

section \<open>Examples\<close>

definition demo_pfeed :: "nat \<Rightarrow> nat \<Rightarrow> nat \<Rightarrow> apfeedid" where
  "demo_pfeed u s t = \<lparr>p_src_fid = demo_feed u 1, p_sender_id = s, p_target_id = u, p_magic = 0,
                       p_atime = t\<rparr>"

definition demo_pfeeds :: "nat \<Rightarrow> apfeedid list" where
  "demo_pfeeds u = (if u = 7 then [demo_pfeed 7 1 20, demo_pfeed 7 2 10] else [demo_pfeed u 1 5])"

definition demo_pcache :: "(string \<Rightarrow> apfeedid list option) box_state" where
  "demo_pcache = \<lparr>m_memc = [poutbox_key 7 \<mapsto> [demo_pfeed 7 1 20, demo_pfeed 7 2 10]], m_hit = 0,
                  m_miss = 0, m_fd = 4\<rparr>"

lemma demo_pcache_coherent: "poutbox_coherent (\<lambda>m. m) 2 demo_pfeeds demo_pcache"
proof -
  have "shows_prefix 2 [demo_pfeed 7 1 20, demo_pfeed 7 2 10] (demo_pfeeds 7)"
    unfolding shows_prefix_def by (rule exI [where x = 2]) (simp add: demo_pfeeds_def)
  then show ?thesis
    by (auto simp: coherent_def demo_pcache_def dest: keys_inj(2) split: if_splits)
qed

lemmas demo_peval = poutbox_insert_def poutbox_update_def demo_pcache_def demo_pfeed_def demo_feed_def
  map_memcached_def get_memc_poutbox_def get_memc_box_def store_box_def set_memc_box_def
  local_poutbox_exists_def local_poutbox_insert_def local_poutbox_remove_def
  box_exists_def same_pfeed_def Let_def


theorem poutbox_update_coherent_witness:
  "p_target_id (demo_pfeed 7 1 20) = p_target_id (demo_pfeed 7 3 40) \<and>
   p_atime (demo_pfeed 7 1 20) \<le> p_atime (demo_pfeed 7 3 40) \<and>
   poutbox_coherent (\<lambda>m. m) 2
     (demo_pfeeds(7 := refresh (demo_pfeed 7 3 40)
        (box_remove same_pfeed (demo_pfeed 7 1 20) (demo_pfeeds 7))))
     (demo_pcache\<lparr>m_memc := [poutbox_key 7 \<mapsto> [demo_pfeed 7 3 40, demo_pfeed 7 2 10]]\<rparr>)"
proof -
  have u: "poutbox_update map_memcached 2 (demo_pfeed 7 3 40) (demo_pfeed 7 1 20) demo_pcache =
      (0, demo_pcache\<lparr>m_memc := [poutbox_key 7 \<mapsto> [demo_pfeed 7 3 40, demo_pfeed 7 2 10]]\<rparr>)"
    by (simp add: demo_peval)
  have fit: "pcached_fit (\<lambda>m. m) demo_pfeeds (demo_pfeed 7 3 40)
      (box_remove same_pfeed (demo_pfeed 7 1 20)) demo_pcache"
    by (simp add: pcached_fit_def demo_pcache_def demo_pfeeds_def demo_pfeed_def fits_after_def)
  from poutbox_update_coherent [OF map_memcached_ok demo_pcache_coherent fit u]
  show ?thesis by (simp add: demo_pfeed_def)
qed

definition demo_pstor :: "(indexn_p_pkg, apfeedid) storage" where
  "demo_pstor = \<lparr>s_open = 3, s_rqst = (\<lambda>es. Some (0, full_reply 2 demo_pfeeds (map ixp_mimi es)))\<rparr>"

lemma demo_pstor_ok: "storage_ok (poutbox_entry 2 100) 2 demo_pfeeds demo_pstor"
  by (simp add: storage_ok_def demo_pstor_def poutbox_entry_def comp_def)

lemma poutbox_get_answers_witness:
  "(\<exists>hits boxes st'. poutbox_get map_memcached 2 100 demo_pstor [7, 9] demo_pcache =
       Some (0, concat boxes @
         concat (map (\<lambda>u. take 2 (demo_pfeeds u)) (filter (\<lambda>u. u \<notin> set hits) [7, 9])), st') \<and>
     poutbox_coherent (\<lambda>m. m) 2 demo_pfeeds st' \<and> set hits \<subseteq> set [7, 9] \<and>
     list_all2 (\<lambda>u box. shows_prefix 2 box (demo_pfeeds u)) hits boxes) \<and>
     (\<forall>a b. poutbox_key a \<noteq> outbox_key b)"
  by (rule poutbox_get_answers [OF map_memcached_ok _ demo_pcache_coherent _ _ _ _ demo_pstor_ok])
     (auto simp: owned_def demo_pfeeds_def demo_pfeed_def MAX_UID_NUM_def)

end
