(* ===== verification/OutboxServ.thy ===== *)
theory OutboxServ
  imports Poutbox Framer
begin

text \<open>
  The outbox service (\<^verbatim>\<open>outbox_serv/src/outbox_so.cpp\<close>): how it cuts its input into requests,
  decodes a request, dispatches it to the feed box or the passive box and encodes the answer,
  and its periodic report. Integers of the packed structs of \<^verbatim>\<open>outbox_proto.h\<close> are read and
  written in little-endian order. Proved: a stream of well-formed requests is cut at the
  requests, and the handler of bytes implements the handler of decoded requests.
\<close>

section \<open>Wire format\<close>

definition apfeedid_sz :: nat where "apfeedid_sz = 38"
definition request_sz :: nat where "request_sz = 6"

definition FEED_ID_UPDATE :: nat where "FEED_ID_UPDATE = 0xFFF1"
definition FEED_ID_INSERT :: nat where "FEED_ID_INSERT = 0xFFF2"
definition FEED_ID_DEL :: nat where "FEED_ID_DEL = 0xFFF3"
definition FEED_ID_GET :: nat where "FEED_ID_GET = 0xFFF4"
definition PFEED_ID_UPDATE :: nat where "PFEED_ID_UPDATE = 0xFFF5"
definition PFEED_ID_INSERT :: nat where "PFEED_ID_INSERT = 0xFFF6"
definition PFEED_ID_DEL :: nat where "PFEED_ID_DEL = 0xFFF7"
definition PFEED_ID_GET :: nat where "PFEED_ID_GET = 0xFFF8"

lemmas op_codes = FEED_ID_UPDATE_def FEED_ID_INSERT_def FEED_ID_DEL_def FEED_ID_GET_def
  PFEED_ID_UPDATE_def PFEED_ID_INSERT_def PFEED_ID_DEL_def PFEED_ID_GET_def

lemmas sizes = feedid_sz_def apfeedid_sz_def request_sz_def

definition rd_apfeedid :: "byte list \<Rightarrow> apfeedid" where
  "rd_apfeedid bs =
     \<lparr>p_src_fid = rd_feedid bs, p_sender_id = rd_le 22 4 bs, p_target_id = rd_le 26 4 bs,
      p_magic = rd_le 30 4 bs, p_atime = rd_le 34 4 bs\<rparr>"

definition wr_apfeedid :: "apfeedid \<Rightarrow> byte list" where
  "wr_apfeedid f =
     wr_feedid (p_src_fid f) @ to_le 4 (p_sender_id f) @ to_le 4 (p_target_id f) @
     to_le 4 (p_magic f) @ to_le 4 (p_atime f)"

definition rd_uids :: "nat \<Rightarrow> byte list \<Rightarrow> nat list" where
  "rd_uids n bs = map (\<lambda>i. rd_le (4 * i) 4 bs) [0..<n]"

text \<open>The fields fit their width.\<close>

definition apfeedid_ok :: "apfeedid \<Rightarrow> bool" where
  "apfeedid_ok f \<longleftrightarrow> feedid_ok (p_src_fid f) \<and> p_sender_id f < 2 ^ 32 \<and> p_target_id f < 2 ^ 32 \<and>
     p_magic f < 2 ^ 32 \<and> p_atime f < 2 ^ 32"

lemma length_wr_apfeedid [simp]: "length (wr_apfeedid g) = apfeedid_sz"
  by (simp add: wr_apfeedid_def sizes)

lemma rd_wr_apfeedid: "apfeedid_ok f \<Longrightarrow> rd_apfeedid (wr_apfeedid f @ r) = f"
  by (cases f) (simp add: rd_apfeedid_def wr_apfeedid_def apfeedid_ok_def layout rd_wr_feedid sizes)

lemma rd_wr_uids:
  "\<forall>u \<in> set us. u < 2 ^ 32 \<Longrightarrow> rd_uids (length us) (concat (map (to_le 4) us) @ r) = us"
  by (rule nth_equalityI) (simp_all add: rd_uids_def rd_le_concat)

section \<open>Cutting the input: handle_input\<close>

text \<open>
  \<open>None\<close>: the operation code is read although fewer than six bytes were received. The length is
  compared as a signed and as an unsigned number, and the result is the length as an \<^verbatim>\<open>int\<close>.
\<close>

definition rqst_len :: "byte list \<Rightarrow> nat" where
  "rqst_len bs = rd_le 0 4 bs"

definition rqst_op :: "byte list \<Rightarrow> nat" where
  "rqst_op bs = rd_le 4 2 bs"

definition outbox_input :: "byte list \<Rightarrow> int option" where
  "outbox_input bs =
     (let len = rqst_len bs; op_code = rqst_op bs
      in if length bs < 4 then Some 0
         else if s32 (int len) > int (length bs) then Some 0
         else if length bs < 6 then None
         else if op_code = FEED_ID_INSERT \<or> op_code = FEED_ID_DEL then
           (if len \<noteq> request_sz + feedid_sz then Some (-1) else Some (s32 (int len)))
         else if op_code = FEED_ID_UPDATE then
           (if len \<noteq> request_sz + feedid_sz * 2 then Some (-1) else Some (s32 (int len)))
         else if op_code = PFEED_ID_INSERT \<or> op_code = PFEED_ID_DEL then
           (if len \<noteq> request_sz + apfeedid_sz then Some (-1) else Some (s32 (int len)))
         else if op_code = PFEED_ID_UPDATE then
           (if len \<noteq> request_sz + apfeedid_sz * 2 then Some (-1) else Some (s32 (int len)))
         else if op_code = FEED_ID_GET \<or> op_code = PFEED_ID_GET then Some (s32 (int len))
         else Some (-1))"

section \<open>Answering a request: handle_process\<close>

record ('m, 'n) outbox_serv =
  os_box :: "'m box_state"
  os_pbox :: "'n box_state"
  os_last_log :: nat

text \<open>What the service is configured with and calls: the two memcached clients, the sizes of the
  boxes, and the storage server (asked for feeds and for passive feeds).\<close>

record ('m, 'n) outbox_env =
  oe_mc :: "('m, feedid) memcached"
  oe_pmc :: "('n, apfeedid) memcached"
  oe_size :: nat
  oe_psize :: nat
  oe_stor :: "(indexn_pkg, feedid) storage"
  oe_pstor :: "(indexn_p_pkg, apfeedid) storage"

definition response :: "int \<Rightarrow> byte list \<Rightarrow> byte list" where
  "response result data = to_le 4 (6 + length data) @ to_le 2 (nat (u16 result)) @ data"

text \<open>The number of user ids: the subtraction is done in 64 bits, so a length below six wraps
  around and the quotient, cut to an \<^verbatim>\<open>int\<close>, is negative. With a negative number
  the loop over the ids never meets its end: undefined.\<close>

definition key_num :: "nat \<Rightarrow> int" where
  "key_num len = s32 (((s32 (int len) - 6) mod 2 ^ 64) div 4)"

definition within :: "nat \<Rightarrow> byte list \<Rightarrow> 'a option \<Rightarrow> 'a option" where
  "within n bs x = (if n \<le> length bs then x else None)"

definition answer :: "('s \<Rightarrow> 't) \<Rightarrow> int \<times> 's \<Rightarrow> (int \<times> byte list \<times> 't) option" where
  "answer f p = (case p of (r, st) \<Rightarrow> Some (0, response r [], f st))"

definition answer_get ::
  "('f \<Rightarrow> byte list) \<Rightarrow> ('s \<Rightarrow> 't) \<Rightarrow> (int \<times> 'f list \<times> 's) option \<Rightarrow> (int \<times> byte list \<times> 't) option" where
  "answer_get wr f q =
     (case q of
        None \<Rightarrow> None
      | Some (r, xs, st) \<Rightarrow> Some (0, response r (concat (map wr xs)), f st))"

definition outbox_process ::
  "('m, 'n) outbox_env \<Rightarrow> nat \<Rightarrow> byte list \<Rightarrow> ('m, 'n) outbox_serv \<Rightarrow>
   (int \<times> byte list \<times> ('m, 'n) outbox_serv) option" where
  "outbox_process env now bs s =
     (let op_code = rqst_op bs; d = drop 6 bs;
          box = (\<lambda>b. s\<lparr>os_box := b\<rparr>); pbox = (\<lambda>b. s\<lparr>os_pbox := b\<rparr>);
          n = key_num (rqst_len bs)
      in within 6 bs
        (if op_code = FEED_ID_INSERT then
           within 28 bs (answer box (outbox_insert (oe_mc env) (oe_size env) (rd_feedid d) (os_box s)))
         else if op_code = FEED_ID_UPDATE then
           within 50 bs (answer box (outbox_update (oe_mc env) (oe_size env) (rd_feedid d)
                                       (rd_feedid (drop 22 d)) (os_box s)))
         else if op_code = FEED_ID_DEL then
           within 28 bs (answer box (outbox_del (oe_mc env) (oe_size env) (rd_feedid d) (os_box s)))
         else if op_code = FEED_ID_GET then
           (if n > int MAX_UID_NUM then Some (-1, [], s)
            else if n < 0 then None
            else within (6 + 4 * nat n) bs (answer_get wr_feedid box
                   (outbox_get (oe_mc env) (oe_size env) now (oe_stor env) (rd_uids (nat n) d)
                      (os_box s))))
         else if op_code = PFEED_ID_INSERT then
           within 44 bs (answer pbox (poutbox_insert (oe_pmc env) (oe_psize env) (rd_apfeedid d)
                                        (os_pbox s)))
         else if op_code = PFEED_ID_UPDATE then
           within 82 bs (answer pbox (poutbox_update (oe_pmc env) (oe_psize env) (rd_apfeedid d)
                                        (rd_apfeedid (drop 38 d)) (os_pbox s)))
         else if op_code = PFEED_ID_DEL then
           within 44 bs (answer pbox (poutbox_del (oe_pmc env) (oe_psize env) (rd_apfeedid d)
                                        (os_pbox s)))
         else if op_code = PFEED_ID_GET then
           (if n > int MAX_UID_NUM then Some (-1, [], s)
            else if n < 0 then None
            else within (6 + 4 * nat n) bs (answer_get wr_apfeedid pbox
                   (poutbox_get (oe_pmc env) (oe_psize env) now (oe_pstor env) (rd_uids (nat n) d)
                      (os_pbox s))))
         else Some (-1, [], s)))"

section \<open>The periodic report: handle_schedule\<close>

definition LOG_INTERVAL :: nat where "LOG_INTERVAL = 60"

text \<open>The report (hits and misses of the boxes, of the passive boxes), when one is due.\<close>

definition outbox_schedule ::
  "nat \<Rightarrow> ('m, 'n) outbox_serv \<Rightarrow> (int \<times> int \<times> int \<times> int) option \<times> ('m, 'n) outbox_serv" where
  "outbox_schedule now s =
     (if int now - int (os_last_log s) < int LOG_INTERVAL then (None, s)
      else case box_status (os_box s) of
        (h, ms, b) \<Rightarrow> (case box_status (os_pbox s) of
          (ph, pm, pb) \<Rightarrow> (Some (h, ms, ph, pm),
                           s\<lparr>os_box := b, os_pbox := pb, os_last_log := now\<rparr>)))"

section \<open>Requests as the clients mean them\<close>

datatype request =
    RqInsert feedid | RqUpdate feedid feedid | RqDel feedid | RqGet "nat list"
  | RqPInsert apfeedid | RqPUpdate apfeedid apfeedid | RqPDel apfeedid | RqPGet "nat list"

fun rq_op :: "request \<Rightarrow> nat" where
  "rq_op (RqInsert f) = FEED_ID_INSERT"
| "rq_op (RqUpdate f g) = FEED_ID_UPDATE"
| "rq_op (RqDel f) = FEED_ID_DEL"
| "rq_op (RqGet us) = FEED_ID_GET"
| "rq_op (RqPInsert f) = PFEED_ID_INSERT"
| "rq_op (RqPUpdate f g) = PFEED_ID_UPDATE"
| "rq_op (RqPDel f) = PFEED_ID_DEL"
| "rq_op (RqPGet us) = PFEED_ID_GET"

fun rq_body :: "request \<Rightarrow> byte list" where
  "rq_body (RqInsert f) = wr_feedid f"
| "rq_body (RqUpdate f g) = wr_feedid f @ wr_feedid g"
| "rq_body (RqDel f) = wr_feedid f"
| "rq_body (RqGet us) = concat (map (to_le 4) us)"
| "rq_body (RqPInsert f) = wr_apfeedid f"
| "rq_body (RqPUpdate f g) = wr_apfeedid f @ wr_apfeedid g"
| "rq_body (RqPDel f) = wr_apfeedid f"
| "rq_body (RqPGet us) = concat (map (to_le 4) us)"

definition wr_request :: "request \<Rightarrow> byte list" where
  "wr_request r = to_le 4 (6 + length (rq_body r)) @ to_le 2 (rq_op r) @ rq_body r"

definition uids_ok :: "nat list \<Rightarrow> bool" where
  "uids_ok us \<longleftrightarrow> (\<forall>u \<in> set us. u < 2 ^ 32) \<and> 6 + 4 * length us \<le> 8388608"

fun request_ok :: "request \<Rightarrow> bool" where
  "request_ok (RqInsert f) = feedid_ok f"
| "request_ok (RqUpdate f g) = (feedid_ok f \<and> feedid_ok g)"
| "request_ok (RqDel f) = feedid_ok f"
| "request_ok (RqGet us) = uids_ok us"
| "request_ok (RqPInsert f) = apfeedid_ok f"
| "request_ok (RqPUpdate f g) = (apfeedid_ok f \<and> apfeedid_ok g)"
| "request_ok (RqPDel f) = apfeedid_ok f"
| "request_ok (RqPGet us) = uids_ok us"

datatype reply = Result int | Feeds int "feedid list" | PFeeds int "apfeedid list" | Refused

fun wr_reply :: "reply \<Rightarrow> int \<times> byte list" where
  "wr_reply (Result r) = (0, response r [])"
| "wr_reply (Feeds r fs) = (0, response r (concat (map wr_feedid fs)))"
| "wr_reply (PFeeds r fs) = (0, response r (concat (map wr_apfeedid fs)))"
| "wr_reply Refused = (-1, [])"

text \<open>What the service does for a request: the operation of the box it is for.\<close>

fun serve ::
  "('m, 'n) outbox_env \<Rightarrow> nat \<Rightarrow> request \<Rightarrow> ('m, 'n) outbox_serv \<Rightarrow>
   (reply \<times> ('m, 'n) outbox_serv) option" where
  "serve env now (RqInsert f) s =
     (case outbox_insert (oe_mc env) (oe_size env) f (os_box s) of
        (r, b) \<Rightarrow> Some (Result r, s\<lparr>os_box := b\<rparr>))"
| "serve env now (RqUpdate f g) s =
     (case outbox_update (oe_mc env) (oe_size env) f g (os_box s) of
        (r, b) \<Rightarrow> Some (Result r, s\<lparr>os_box := b\<rparr>))"
| "serve env now (RqDel f) s =
     (case outbox_del (oe_mc env) (oe_size env) f (os_box s) of
        (r, b) \<Rightarrow> Some (Result r, s\<lparr>os_box := b\<rparr>))"
| "serve env now (RqGet us) s =
     (if length us > MAX_UID_NUM then Some (Refused, s)
      else map_option (\<lambda>(r, xs, b). (Feeds r xs, s\<lparr>os_box := b\<rparr>))
             (outbox_get (oe_mc env) (oe_size env) now (oe_stor env) us (os_box s)))"
| "serve env now (RqPInsert f) s =
     (case poutbox_insert (oe_pmc env) (oe_psize env) f (os_pbox s) of
        (r, b) \<Rightarrow> Some (Result r, s\<lparr>os_pbox := b\<rparr>))"
| "serve env now (RqPUpdate f g) s =
     (case poutbox_update (oe_pmc env) (oe_psize env) f g (os_pbox s) of
        (r, b) \<Rightarrow> Some (Result r, s\<lparr>os_pbox := b\<rparr>))"
| "serve env now (RqPDel f) s =
     (case poutbox_del (oe_pmc env) (oe_psize env) f (os_pbox s) of
        (r, b) \<Rightarrow> Some (Result r, s\<lparr>os_pbox := b\<rparr>))"
| "serve env now (RqPGet us) s =
     (if length us > MAX_UID_NUM then Some (Refused, s)
      else map_option (\<lambda>(r, xs, b). (PFeeds r xs, s\<lparr>os_pbox := b\<rparr>))
             (poutbox_get (oe_pmc env) (oe_psize env) now (oe_pstor env) us (os_pbox s)))"

section \<open>A written request is cut and decoded as it was meant\<close>

lemma rq_op_bound: "rq_op r < 65536"
  by (cases r) (simp_all add: op_codes)

lemma rq_body_bound: "request_ok r \<Longrightarrow> 6 + length (rq_body r) \<le> 8388608"
  by (cases r) (simp_all add: uids_ok_def sizes)

lemma wr_request_head:
  assumes "request_ok r"
  shows "rqst_len (wr_request r @ cs) = 6 + length (rq_body r)" "rqst_op (wr_request r @ cs) = rq_op r"
    "drop 6 (wr_request r @ cs) = rq_body r @ cs" "length (wr_request r) = 6 + length (rq_body r)"
    "key_num (rqst_len (wr_request r @ cs)) = int (length (rq_body r) div 4)"
proof -
  have b: "6 + length (rq_body r) < 256 ^ 4" using rq_body_bound [OF assms] by simp
  show l: "rqst_len (wr_request r @ cs) = 6 + length (rq_body r)"
    using b by (simp add: rqst_len_def wr_request_def layout)
  show "rqst_op (wr_request r @ cs) = rq_op r"
    using rq_op_bound [of r] by (simp add: rqst_op_def wr_request_def layout)
  show "drop 6 (wr_request r @ cs) = rq_body r @ cs" "length (wr_request r) = 6 + length (rq_body r)"
    by (simp_all add: wr_request_def)
  have "int (length (rq_body r)) < 8388608" using rq_body_bound [OF assms] by linarith
  then show "key_num (rqst_len (wr_request r @ cs)) = int (length (rq_body r) div 4)"
    unfolding l by (simp add: key_num_def s32_def zdiv_int)
qed

lemma outbox_input_request:
  assumes "request_ok r"
  shows "outbox_input (wr_request r @ cs) = Some (int (length (wr_request r)))"
proof -
  note h = wr_request_head [OF assms]
  have s: "s32 (int (6 + length (rq_body r))) = int (length (wr_request r))"
    using rq_body_bound [OF assms] h(4) by (simp add: s32_id)
  show ?thesis unfolding outbox_input_def h(1,2) Let_def s
    using h(4) by (cases r) (simp_all add: op_codes sizes)
qed

lemma outbox_input_prefix:
  assumes "request_ok r" "k < length (wr_request r)"
  shows "outbox_input (take k (wr_request r)) = Some 0"
proof (cases "k < 4")
  case True
  then show ?thesis by (simp add: outbox_input_def Let_def min_def)
next
  case False
  have "wr_request r = take k (wr_request r) @ drop k (wr_request r)" by simp
  moreover have "length (take k (wr_request r)) = k" using assms(2) by simp
  ultimately have "rqst_len (take k (wr_request r)) = rqst_len (wr_request r)"
    using False rd_le_append [of 0 4 "take k (wr_request r)" "drop k (wr_request r)"]
    by (simp add: rqst_len_def)
  also have "\<dots> = length (wr_request r)" 
    using wr_request_head(1) [OF assms(1), of "[]"] wr_request_head(4) [OF assms(1)] by simp
  finally have l: "rqst_len (take k (wr_request r)) = length (wr_request r)" .
  have "s32 (int (length (wr_request r))) = int (length (wr_request r))"
    using rq_body_bound [OF assms(1)] wr_request_head(4) [OF assms(1)] by (simp add: s32_id)
  with l assms(2) False show ?thesis by (simp add: outbox_input_def Let_def)
qed

text \<open>Well-formed requests written one after the other are cut into exactly these requests,
  and while one is incomplete the service waits for the rest, whatever was received so far.\<close>

lemma outbox_cuts_requests:
  assumes "\<forall>r \<in> set rs. request_ok r"
  shows "frames (\<lambda>bs. the (outbox_input bs)) (concat (map wr_request rs)) =
      (map wr_request rs, Incomplete []) \<and>
    (\<forall>r k. r \<in> set rs \<longrightarrow> k < length (wr_request r) \<longrightarrow> outbox_input (take k (wr_request r)) = Some 0)"
proof (intro conjI allI impI)
  show "frames (\<lambda>bs. the (outbox_input bs)) (concat (map wr_request rs)) =
      (map wr_request rs, Incomplete [])"
    using assms
  proof (induction rs)
    case (Cons r rs)
    let ?h = "\<lambda>bs. the (outbox_input bs)"
    have ok: "request_ok r" using Cons.prems by simp
    have i: "?h (wr_request r @ concat (map wr_request rs)) = int (length (wr_request r))"
      by (simp add: outbox_input_request [OF ok])
    have "int (length (wr_request r)) \<le> RCVBUFMAX" "0 < length (wr_request r)"
      using rq_body_bound [OF ok] wr_request_head(4) [OF ok] by (simp_all add: RCVBUFMAX_def)
    with i frames_message [of ?h "wr_request r @ concat (map wr_request rs)"] Cons
    show ?case by simp
  qed simp
next
  fix r k
  assume "r \<in> set rs" "k < length (wr_request r)"
  with assms show "outbox_input (take k (wr_request r)) = Some 0" by (blast intro: outbox_input_prefix)
qed

lemma outbox_process_request:
  assumes "request_ok r"
  shows "outbox_process env now (wr_request r) s =
    map_option (\<lambda>(rep, s'). (fst (wr_reply rep), snd (wr_reply rep), s')) (serve env now r s)"
proof -
  note h = wr_request_head(1,2,3,5) [OF assms, of "[]", simplified]
  note p = outbox_process_def Let_def within_def answer_def answer_get_def op_codes sizes
  note f = rd_wr_feedid [of _ "[]", simplified] rd_wr_feedid rd_wr_apfeedid [of _ "[]", simplified] rd_wr_apfeedid
  note u = rd_wr_uids [of _ "[]", simplified]
  show ?thesis
    using assms h wr_request_head(4) [OF assms] by (cases r) (auto simp: p f u uids_ok_def split: prod.splits option.splits)
qed

text \<open>C38: The handler of bytes implements the handler of decoded requests: for a written request it
  does the operation that was meant and answers the encoding of its result. In particular it
  reads nothing outside the request, and requests for more than 100 users are refused.\<close>

theorem outbox_process_serves:
  assumes "request_ok r"
  shows "outbox_process env now (wr_request r) s =
    map_option (\<lambda>(rep, s'). (fst (wr_reply rep), snd (wr_reply rep), s')) (serve env now r s)"
  by (rule outbox_process_request [OF assms])

section \<open>The counters of hits and misses\<close>

abbreviation lookups :: "'m box_state \<Rightarrow> int" where
  "lookups b \<equiv> m_hit b + m_miss b"

definition counted :: "nat list \<Rightarrow> int" where
  "counted us = (if us = [] \<or> length us > MAX_UID_NUM then 0 else int (length us))"

lemma set_del_memc_counters:
  "lookups (snd (set_memc_box mc k box st)) = lookups st"
  "lookups (snd (del_memc_box mc k st)) = lookups st"
  by (simp_all add: set_memc_box_def del_memc_box_def split: prod.split)

lemma store_counters [simp]:
  "store_box mc sz k box st = (r, st') \<Longrightarrow> lookups st' = lookups st"
  "store_or_delete_box mc sz k box st = (r, st') \<Longrightarrow> lookups st' = lookups st"
  by (metis snd_conv set_del_memc_counters store_box_def)
     (metis snd_conv set_del_memc_counters store_or_delete_box_def)

lemma cache_runs_counters: "lookups (cache_runs mc key own run xs st) = lookups st"
  by (induction mc key own run xs st rule: cache_runs.induct) (simp_all add: set_del_memc_counters)

lemma get_stor_boxes_counters:
  "get_stor_boxes mc key own entry stor keys st = (r, xs, st') \<Longrightarrow>
   lookups st' = lookups st + int (length keys)"
  by (auto simp: get_stor_boxes_def Let_def cache_runs_counters
      split: if_splits option.splits list.splits prod.splits)

lemma get_boxes_counters:
  assumes "get_boxes mc sz key own entry stor us st = Some (r, xs, st')"
  shows "lookups st' = lookups st + counted us"
proof -
  obtain r1 ys keys st1 where m: "get_memc_boxes mc sz key us st = Some (r1, ys, keys, st1)"
    using assms by (auto simp: get_boxes_def split: option.splits)
  show ?thesis
  proof (cases "us = [] \<or> length us > MAX_UID_NUM")
    case True
    with m have "r1 = -1" "st1 = st" by (auto simp: get_memc_boxes_def Suc_le_eq)
    with assms m True show ?thesis by (simp add: get_boxes_def counted_def)
  next
    case False
    with m have c: "0 \<le> r1" "lookups st1 + int (length keys) = lookups st + int (length us)"
      by (auto simp: get_memc_boxes_def Suc_le_eq split: option.splits)
    obtain r2 zs st2 where s: "get_stor_boxes mc key own entry stor keys st1 = (r2, zs, st2)"
      by (metis prod_cases3)
    from get_stor_boxes_counters [OF s] c(2) have "lookups st2 = lookups st + int (length us)" by simp
    moreover have "st' = st2" using assms m s c(1) by (auto simp: get_boxes_def split: if_splits)
    ultimately show ?thesis using False by (simp add: counted_def)
  qed
qed

lemma outbox_op_counters:
  "outbox_insert mc sz f st = (r, st') \<Longrightarrow> lookups st' = lookups st"
  "outbox_update mc sz f g st = (r, st') \<Longrightarrow> lookups st' = lookups st"
  "outbox_del mc sz f st = (r, st') \<Longrightarrow> lookups st' = lookups st"
  by (auto simp: outbox_insert_def outbox_update_def outbox_del_def Let_def split: sum.splits if_splits)

lemma poutbox_op_counters:
  "poutbox_insert mc sz p st = (r, st') \<Longrightarrow> lookups st' = lookups st"
  "poutbox_update mc sz p q st = (r, st') \<Longrightarrow> lookups st' = lookups st"
  "poutbox_del mc sz p st = (r, st') \<Longrightarrow> lookups st' = lookups st"
  by (auto simp: poutbox_insert_def poutbox_update_def poutbox_del_def get_memc_poutbox_def Let_def
      split: sum.splits if_splits)

lemma outbox_get_counters:
  "outbox_get mc sz now stor us st = Some (r, xs, st') \<Longrightarrow> lookups st' = lookups st + counted us"
  unfolding outbox_get_def by (rule get_boxes_counters)

lemma poutbox_get_counters:
  "poutbox_get mc sz now stor us st = Some (r, ys, st') \<Longrightarrow> lookups st' = lookups st + counted us"
  unfolding poutbox_get_def get_memc_poutboxes_def get_stor_poutbox_def
  by (rule get_boxes_counters) (simp add: get_boxes_def)

text \<open>A worker's life: at each time it serves a request or wakes up for the report.\<close>

datatype outbox_event = Request request | Wake

type_synonym report = "int \<times> int \<times> int \<times> int"

fun outbox_run ::
  "('m, 'n) outbox_env \<Rightarrow> (nat \<times> outbox_event) list \<Rightarrow> ('m, 'n) outbox_serv \<Rightarrow>
   (report list \<times> ('m, 'n) outbox_serv) option" where
  "outbox_run env [] s = Some ([], s)"
| "outbox_run env ((now, Request r) # es) s =
     (case outbox_process env now (wr_request r) s of
        None \<Rightarrow> None
      | Some (_, _, s1) \<Rightarrow> outbox_run env es s1)"
| "outbox_run env ((now, Wake) # es) s =
     (case outbox_schedule now s of
        (rep, s1) \<Rightarrow>
          (case outbox_run env es s1 of
             None \<Rightarrow> None
           | Some (reps, s2) \<Rightarrow> Some ((case rep of None \<Rightarrow> [] | Some x \<Rightarrow> [x]) @ reps, s2)))"

fun asked :: "outbox_event \<Rightarrow> int" where
  "asked (Request (RqGet us)) = counted us"
| "asked _ = 0"

fun passked :: "outbox_event \<Rightarrow> int" where
  "passked (Request (RqPGet us)) = counted us"
| "passked _ = 0"

fun in_report :: "report \<Rightarrow> int" where
  "in_report (h, m, ph, pm) = h + m"

fun pin_report :: "report \<Rightarrow> int" where
  "pin_report (h, m, ph, pm) = ph + pm"

lemma serve_counters:
  assumes "serve env now r s = Some (rep, s')"
  shows "lookups (os_box s') = lookups (os_box s) + asked (Request r)"
    "lookups (os_pbox s') = lookups (os_pbox s) + passked (Request r)"
proof -
  have z: "counted us = 0" if "length us > MAX_UID_NUM" for us
    using that by (simp add: counted_def)
  show "lookups (os_box s') = lookups (os_box s) + asked (Request r)"
    using assms by (cases r) (auto simp: z outbox_op_counters dest: outbox_get_counters split: prod.splits if_splits)
  show "lookups (os_pbox s') = lookups (os_pbox s) + passked (Request r)"
    using assms by (cases r) (auto simp: z poutbox_op_counters dest: poutbox_get_counters split: prod.splits if_splits)
qed

lemma schedule_counters:
  assumes "outbox_schedule now s = (rep, s')"
  shows "lookups (os_box s') + (case rep of None \<Rightarrow> 0 | Some x \<Rightarrow> in_report x) = lookups (os_box s)"
    "lookups (os_pbox s') + (case rep of None \<Rightarrow> 0 | Some x \<Rightarrow> pin_report x) = lookups (os_pbox s)"
  using assms by (auto simp: outbox_schedule_def box_status_def split: if_splits)

text \<open>No lookup is lost from the statistics: the hits and misses of all reports and of the
  counters at the end add up to the users asked for, for each of the two boxes, also when the
  storage server fails.\<close>

theorem outbox_counts_every_lookup:
  assumes "\<forall>r. Request r \<in> snd ` set es \<longrightarrow> request_ok r" "outbox_run env es s = Some (reps, s')"
  shows "sum_list (map in_report reps) + lookups (os_box s') =
      lookups (os_box s) + (\<Sum>e\<leftarrow>es. asked (snd e)) \<and>
    sum_list (map pin_report reps) + lookups (os_pbox s') =
      lookups (os_pbox s) + (\<Sum>e\<leftarrow>es. passked (snd e))"
  using assms
proof (induction env es s arbitrary: reps rule: outbox_run.induct)
  case (2 env now r es s)
  then have ok: "request_ok r" by simp
  obtain rep s1 where s1: "serve env now r s = Some (rep, s1)"
    using 2(3) by (cases "serve env now r s") (auto simp: outbox_process_request [OF ok])
  then have p: "outbox_process env now (wr_request r) s =
      Some (fst (wr_reply rep), snd (wr_reply rep), s1)"
    by (simp add: outbox_process_request [OF ok])
  with 2(2,3) have "sum_list (map in_report reps) + lookups (os_box s') =
      lookups (os_box s1) + (\<Sum>e\<leftarrow>es. asked (snd e)) \<and>
    sum_list (map pin_report reps) + lookups (os_pbox s') =
      lookups (os_pbox s1) + (\<Sum>e\<leftarrow>es. passked (snd e))"
    by (intro 2(1) [OF p refl refl]) auto
  with serve_counters [OF s1] show ?case by simp
next
  case (3 env now es s)
  obtain rep s1 where w: "outbox_schedule now s = (rep, s1)" by force
  with 3(3) obtain reps1 where r: "outbox_run env es s1 = Some (reps1, s')"
      "reps = (case rep of None \<Rightarrow> [] | Some x \<Rightarrow> [x]) @ reps1"
    by (auto split: option.splits)
  with 3(2) have "sum_list (map in_report reps1) + lookups (os_box s') =
      lookups (os_box s1) + (\<Sum>e\<leftarrow>es. asked (snd e)) \<and>
    sum_list (map pin_report reps1) + lookups (os_pbox s') =
      lookups (os_pbox s1) + (\<Sum>e\<leftarrow>es. passked (snd e))"
    by (intro 3(1) [OF w [symmetric]]) auto
  with schedule_counters [OF w] r(2) show ?case by (cases rep) auto
qed simp

section \<open>Examples\<close>

definition demo_rqs :: "request list" where
  "demo_rqs = [RqInsert (demo_feed 7 30), RqGet [7, 9], RqPDel (demo_pfeed 7 1 20)]"

definition demo_env :: "(string \<Rightarrow> feedid list option, string \<Rightarrow> apfeedid list option) outbox_env" where
  "demo_env = \<lparr>oe_mc = map_memcached, oe_pmc = map_memcached, oe_size = 2, oe_psize = 2,
               oe_stor = demo_stor, oe_pstor = demo_pstor\<rparr>"

definition demo_serv :: "(string \<Rightarrow> feedid list option, string \<Rightarrow> apfeedid list option) outbox_serv" where
  "demo_serv = \<lparr>os_box = demo_cache, os_pbox = demo_pcache, os_last_log = 0\<rparr>"

lemma demo_rqs_ok: "\<forall>r \<in> set demo_rqs. request_ok r"
  by (simp add: demo_rqs_def demo_feed_def demo_pfeed_def feedid_ok_def apfeedid_ok_def uids_ok_def)

lemma outbox_cuts_requests_witness:
  "frames (\<lambda>bs. the (outbox_input bs)) (concat (map wr_request demo_rqs)) =
      (map wr_request demo_rqs, Incomplete []) \<and>
    outbox_input (take 13 (wr_request (RqGet [7, 9]))) = Some 0"
proof -
  note t = outbox_cuts_requests [OF demo_rqs_ok]
  have "13 < length (wr_request (RqGet [7, 9]))" "RqGet [7, 9] \<in> set demo_rqs"
    by (simp_all add: wr_request_def demo_rqs_def)
  with t show ?thesis by blast
qed

theorem outbox_process_serves_witness:
  "outbox_process demo_env 100 (wr_request (RqInsert (demo_feed 7 30))) demo_serv =
    map_option (\<lambda>(rep, s'). (fst (wr_reply rep), snd (wr_reply rep), s'))
      (serve demo_env 100 (RqInsert (demo_feed 7 30)) demo_serv)"
  using demo_rqs_ok by (intro outbox_process_serves) (simp add: demo_rqs_def)

definition demo_events :: "(nat \<times> outbox_event) list" where
  "demo_events = [(100, Request (RqGet [7, 9])), (200, Wake)]"

theorem outbox_counts_every_lookup_witness:
  "\<exists>reps s'. outbox_run demo_env demo_events demo_serv = Some (reps, s') \<and>
    sum_list (map in_report reps) + lookups (os_box s') = 2"
proof -
  obtain xs b where g: "outbox_get map_memcached 2 100 demo_stor [7, 9] demo_cache = Some (0, xs, b)"
    using get_boxes_ok [OF map_memcached_ok keys_ok(1) demo_owned demo_cache_coherent _ _ _ _ demo_stor_ok,
        of "[7, 9]"]
    by (auto simp: outbox_get_def MAX_UID_NUM_def)
  have ok: "request_ok (RqGet [7, 9])" by (simp add: uids_ok_def)
  obtain s1 where "outbox_process demo_env 100 (wr_request (RqGet [7, 9])) demo_serv = Some (0, snd (wr_reply (Feeds 0 xs)), s1)"
    using g by (simp add: outbox_process_request [OF ok] MAX_UID_NUM_def demo_env_def demo_serv_def)
  then obtain reps s' where r: "outbox_run demo_env demo_events demo_serv = Some (reps, s')"
    by (cases "outbox_schedule 200 s1") (auto simp: demo_events_def)
  have "\<forall>r. Request r \<in> snd ` set demo_events \<longrightarrow> request_ok r"
    using ok by (simp add: demo_events_def)
  from outbox_counts_every_lookup [OF this r] r show ?thesis
    by (auto simp: demo_events_def demo_serv_def demo_cache_def counted_def MAX_UID_NUM_def)
qed

end
