(* ===== verification/ListHead.thy ===== *)
theory ListHead
  imports Main
begin

text \<open>
  The doubly linked circular list of the timestamp service (\<^verbatim>\<open>utils/list.h\<close>). List nodes are
  addresses, their two pointers are a heap that the operations update in the order of the
  code; 0 is the null pointer. Proved: on a well-linked ring every operation does what the
  corresponding operation on lists does, and leaves disjoint rings alone.
\<close>

section \<open>Nodes and operations\<close>

record links =
  nxt :: "nat \<Rightarrow> nat"
  prv :: "nat \<Rightarrow> nat"

definition set_nxt :: "nat \<Rightarrow> nat \<Rightarrow> links \<Rightarrow> links" where
  "set_nxt a b h = h\<lparr>nxt := (nxt h)(a := b)\<rparr>"

definition set_prv :: "nat \<Rightarrow> nat \<Rightarrow> links \<Rightarrow> links" where
  "set_prv a b h = h\<lparr>prv := (prv h)(a := b)\<rparr>"

lemma nxt_simps [simp]:
  "nxt (set_nxt a b h) = (nxt h)(a := b)" "nxt (set_prv a b h) = nxt h"
  "prv (set_prv a b h) = (prv h)(a := b)" "prv (set_nxt a b h) = prv h"
  by (simp_all add: set_nxt_def set_prv_def)

definition init_list_head :: "nat \<Rightarrow> links \<Rightarrow> links" where
  "init_list_head p h = set_prv p p (set_nxt p p h)"

definition list_add_between :: "nat \<Rightarrow> nat \<Rightarrow> nat \<Rightarrow> links \<Rightarrow> links" where
  "list_add_between new prev next h =
     set_nxt prev new (set_prv new prev (set_nxt new next (set_prv next new h)))"

definition list_add :: "nat \<Rightarrow> nat \<Rightarrow> links \<Rightarrow> links" where
  "list_add new head h = list_add_between new head (nxt h head) h"

definition list_add_tail :: "nat \<Rightarrow> nat \<Rightarrow> links \<Rightarrow> links" where
  "list_add_tail new head h = list_add_between new (prv h head) head h"

definition list_del_between :: "nat \<Rightarrow> nat \<Rightarrow> links \<Rightarrow> links" where
  "list_del_between prev next h = set_nxt prev next (set_prv next prev h)"

definition list_del :: "nat \<Rightarrow> links \<Rightarrow> links" where
  "list_del entry h =
     set_prv entry 0 (set_nxt entry 0 (list_del_between (prv h entry) (nxt h entry) h))"

definition list_del_init :: "nat \<Rightarrow> links \<Rightarrow> links" where
  "list_del_init entry h = init_list_head entry (list_del_between (prv h entry) (nxt h entry) h)"

definition list_move :: "nat \<Rightarrow> nat \<Rightarrow> links \<Rightarrow> links" where
  "list_move entry head h = list_add entry head (list_del_between (prv h entry) (nxt h entry) h)"

definition list_move_tail :: "nat \<Rightarrow> nat \<Rightarrow> links \<Rightarrow> links" where
  "list_move_tail entry head h =
     list_add_tail entry head (list_del_between (prv h entry) (nxt h entry) h)"

definition list_empty :: "nat \<Rightarrow> links \<Rightarrow> bool" where
  "list_empty head h \<longleftrightarrow> nxt h head = head"

definition list_splice_at :: "nat \<Rightarrow> nat \<Rightarrow> links \<Rightarrow> links" where
  "list_splice_at ls head h =
     (let first = nxt h ls; lst = prv h ls; at = nxt h head
      in set_prv at lst (set_nxt lst at (set_nxt head first (set_prv first head h))))"

definition list_splice :: "nat \<Rightarrow> nat \<Rightarrow> links \<Rightarrow> links" where
  "list_splice ls head h = (if list_empty ls h then h else list_splice_at ls head h)"

definition list_splice_init :: "nat \<Rightarrow> nat \<Rightarrow> links \<Rightarrow> links" where
  "list_splice_init ls head h =
     (if list_empty ls h then h else init_list_head ls (list_splice_at ls head h))"

text \<open>The nodes a loop \<^verbatim>\<open>list_for_each\<close> visits; it runs until it is back at the head, so it is given
  a number of steps it may take.\<close>

fun list_for_each :: "nat \<Rightarrow> nat \<Rightarrow> nat \<Rightarrow> links \<Rightarrow> nat list option" where
  "list_for_each 0 pos head h = None"
| "list_for_each (Suc k) pos head h =
     (if pos = head then Some []
      else map_option (\<lambda>xs. pos # xs) (list_for_each k (nxt h pos) head h))"

section \<open>Rings\<close>

fun linkchain :: "links \<Rightarrow> nat list \<Rightarrow> bool" where
  "linkchain h (a # b # ps) \<longleftrightarrow> nxt h a = b \<and> prv h b = a \<and> linkchain h (b # ps)"
| "linkchain h _ \<longleftrightarrow> True"

definition ring :: "links \<Rightarrow> nat \<Rightarrow> nat list \<Rightarrow> bool" where
  "ring h head xs \<longleftrightarrow> linkchain h (head # xs @ [head]) \<and> distinct (head # xs) \<and> 0 \<notin> set (head # xs)"

lemma linkchain_cong:
  "\<forall>a \<in> set (butlast ps). nxt h a = nxt g a \<Longrightarrow> \<forall>b \<in> set (tl ps). prv h b = prv g b \<Longrightarrow>
   linkchain h ps = linkchain g ps"
  by (induction h ps rule: linkchain.induct) auto

lemma linkchain_append: "linkchain h (us @ p # vs) \<longleftrightarrow> linkchain h (us @ [p]) \<and> linkchain h (p # vs)"
  by (induction h us rule: linkchain.induct) (cases vs; simp)+

lemma set_tlD: "x \<in> set (tl xs) \<Longrightarrow> x \<in> set xs"
  by (cases xs) auto

lemma linkchain_insert:
  assumes "linkchain h (us @ p # n # vs)" "distinct (us @ p # butlast (n # vs))"
    "distinct (tl (us @ [p]) @ n # vs)" "new \<notin> set (us @ p # n # vs)"
  shows "linkchain (list_add_between new p n h) (us @ p # new # n # vs)"
proof -
  let ?g = "list_add_between new p n h"
  have c: "linkchain h (us @ [p])" "linkchain h (n # vs)"
    using assms(1) linkchain_append [of h us p "n # vs"] by simp_all
  have "linkchain ?g (us @ [p])"
    using c(1) assms(2-4) by (subst linkchain_cong [of _ _ h]) (auto simp: list_add_between_def dest: set_tlD)
  moreover have "linkchain ?g (n # vs)"
    using c(2) assms(2-4) by (subst linkchain_cong [of _ _ h]) (auto simp: list_add_between_def dest: in_set_butlastD)
  moreover have "nxt ?g p = new" "prv ?g new = p" "nxt ?g new = n" "prv ?g n = new"
    using assms(4) by (auto simp: list_add_between_def)
  ultimately show ?thesis by (subst linkchain_append) simp
qed

lemma linkchain_remove:
  assumes "linkchain h (us @ p # e # n # vs)" "distinct (us @ p # e # butlast (n # vs))"
    "distinct (tl (us @ [p]) @ e # n # vs)"
  shows "linkchain (list_del_between p n h) (us @ p # n # vs)" "prv h e = p" "nxt h e = n"
proof -
  let ?g = "list_del_between p n h"
  have c: "linkchain h (us @ [p])" "linkchain h (n # vs)" "prv h e = p" "nxt h e = n"
    using assms(1) linkchain_append [of h us p "e # n # vs"] by simp_all
  have "linkchain ?g (us @ [p])"
    using c(1) assms(2-3) by (subst linkchain_cong [of _ _ h]) (auto simp: list_del_between_def)
  moreover have "linkchain ?g (n # vs)"
    using c(2) assms(2-3) by (subst linkchain_cong [of _ _ h]) (auto simp: list_del_between_def)
  moreover have "nxt ?g p = n" "prv ?g n = p" by (auto simp: list_del_between_def)
  ultimately show "linkchain ?g (us @ p # n # vs)" by (subst linkchain_append) simp
  show "prv h e = p" "nxt h e = n" by fact+
qed

text \<open>Writing to nodes outside a ring does not change it.\<close>

definition touches :: "nat set \<Rightarrow> links \<Rightarrow> links \<Rightarrow> bool" where
  "touches S g h \<longleftrightarrow> (\<forall>a. a \<notin> S \<longrightarrow> nxt g a = nxt h a \<and> prv g a = prv h a)"

lemma ring_frame:
  assumes "touches S g h" "S \<inter> set (head # xs) = {}" "ring h head xs"
  shows "ring g head xs"
proof -
  have "nxt g a = nxt h a \<and> prv g a = prv h a" if "a \<in> set (head # xs)" for a
    using assms(1,2) that by (auto simp: touches_def)
  then have "linkchain g (head # xs @ [head]) = linkchain h (head # xs @ [head])"
    by (intro linkchain_cong) (auto dest: in_set_butlastD)
  then show ?thesis using assms(3) by (simp add: ring_def)
qed

lemma ring_ends:
  assumes "ring h head xs"
  shows "nxt h head = (if xs = [] then head else hd xs)" "prv h head = (if xs = [] then head else last xs)"
proof -
  from assms show "nxt h head = (if xs = [] then head else hd xs)"
    by (cases xs) (auto simp: ring_def)
  from assms show "prv h head = (if xs = [] then head else last xs)"
  proof (cases xs rule: rev_cases)
    case (snoc ys y)
    with assms have "linkchain h ((head # ys) @ y # [head])" by (simp add: ring_def)
    then have "linkchain h (y # [head])" using linkchain_append by blast
    then show ?thesis using snoc by simp
  qed (auto simp: ring_def)
qed

lemma ring_init: "p \<noteq> 0 \<Longrightarrow> ring (init_list_head p h) p []"
  by (simp add: ring_def init_list_head_def)

lemma ring_empty: "ring h head xs \<Longrightarrow> list_empty head h \<longleftrightarrow> xs = []"
  using ring_ends(1) [of h head xs] by (cases xs) (auto simp: list_empty_def ring_def)

lemma ring_insert:
  assumes "ring h head (us @ vs)" "new \<notin> set (head # us @ vs)" "new \<noteq> 0"
  shows "ring (list_add_between new (last (head # us)) (hd (vs @ [head])) h) head (us @ new # vs)"
proof -
  obtain ps p where p: "head # us = ps @ [p]" by (metis append_butlast_last_id list.distinct(1))
  obtain n ns where n: "vs @ [head] = n # ns" by (cases "vs @ [head]") auto
  have c: "linkchain h (ps @ p # n # ns)" using assms(1) p n by (simp add: ring_def) (metis append.assoc append_Cons append_Nil)
  have d: "distinct (ps @ p # butlast (n # ns))" "distinct (tl (ps @ [p]) @ n # ns)"
    "new \<notin> set (ps @ p # n # ns)"
  proof -
    have "ps @ p # butlast (n # ns) = head # us @ vs"
      using p n by (metis append.assoc append_Cons append_Nil butlast_snoc)
    then show "distinct (ps @ p # butlast (n # ns))" using assms(1) by (simp add: ring_def)
    have "tl (ps @ [p]) @ n # ns = us @ vs @ [head]" using p n by (metis list.sel(3))
    then show "distinct (tl (ps @ [p]) @ n # ns)" using assms(1) by (auto simp: ring_def)
    have "ps @ p # n # ns = head # us @ vs @ [head]" using p n by (metis append.assoc append_Cons append_Nil)
    then show "new \<notin> set (ps @ p # n # ns)" using assms(2) by auto
  qed
  have "linkchain (list_add_between new p n h) (ps @ p # new # n # ns)"
    by (rule linkchain_insert [OF c d])
  moreover have "ps @ p # new # n # ns = head # (us @ new # vs) @ [head]"
    using p n by (metis append.assoc append_Cons append_Nil)
  moreover have "last (head # us) = p" "hd (vs @ [head]) = n" using p n by (simp_all del: last.simps)
  ultimately show ?thesis using assms by (auto simp: ring_def)
qed

lemma ring_remove:
  assumes "ring h head (us @ e # vs)"
  shows "ring (list_del_between (prv h e) (nxt h e) h) head (us @ vs)"
    "prv h e \<in> set (head # us @ vs)" "nxt h e \<in> set (head # us @ vs)"
proof -
  obtain ps p where p: "head # us = ps @ [p]" by (metis append_butlast_last_id list.distinct(1))
  obtain n ns where n: "vs @ [head] = n # ns" by (cases "vs @ [head]") auto
  have c: "linkchain h (ps @ p # e # n # ns)" using assms p n by (simp add: ring_def) (metis append.assoc append_Cons append_Nil)
  have d: "distinct (ps @ p # e # butlast (n # ns))" "distinct (tl (ps @ [p]) @ e # n # ns)"
  proof -
    have "ps @ p # e # butlast (n # ns) = head # us @ e # vs"
      using p n by (metis append.assoc append_Cons append_Nil butlast_snoc)
    then show "distinct (ps @ p # e # butlast (n # ns))" using assms by (simp add: ring_def)
    have "tl (ps @ [p]) @ e # n # ns = us @ e # vs @ [head]" using p n by (metis list.sel(3))
    then show "distinct (tl (ps @ [p]) @ e # n # ns)" using assms by (auto simp: ring_def)
  qed
  note r = linkchain_remove [OF c d]
  have "ps @ p # n # ns = head # (us @ vs) @ [head]"
    using p n by (metis append.assoc append_Cons append_Nil)
  then show "ring (list_del_between (prv h e) (nxt h e) h) head (us @ vs)"
    using r assms by (auto simp: ring_def)
  have "p \<in> set (head # us)" "n \<in> set (vs @ [head])" unfolding p n by auto
  then show "prv h e \<in> set (head # us @ vs)" "nxt h e \<in> set (head # us @ vs)" using r(2,3) by auto
qed

section \<open>Operations on rings\<close>

lemma touches_between:
  "{new, p, n} \<subseteq> S \<Longrightarrow> touches S (list_add_between new p n h) h"
  "{p, n} \<subseteq> S \<Longrightarrow> touches S (list_del_between p n h) h"
  by (auto simp: touches_def list_add_between_def list_del_between_def)

lemma ring_add:
  assumes "ring h head xs" "new \<notin> set (head # xs)" "new \<noteq> 0"
  shows "ring (list_add new head h) head (new # xs)" "touches (set (new # head # xs)) (list_add new head h) h"
proof -
  have n: "hd (xs @ [head]) = nxt h head" using ring_ends(1) [OF assms(1)] by (cases xs) auto
  from ring_insert [of h head "[]" xs, OF _ _ assms(3)] assms(1,2) n
  show "ring (list_add new head h) head (new # xs)" by (simp add: list_add_def)
  show "touches (set (new # head # xs)) (list_add new head h) h"
    unfolding list_add_def using ring_ends(1) [OF assms(1)] by (intro touches_between) auto
qed

lemma ring_add_tail:
  assumes "ring h head xs" "new \<notin> set (head # xs)" "new \<noteq> 0"
  shows "ring (list_add_tail new head h) head (xs @ [new])"
    "touches (set (new # head # xs)) (list_add_tail new head h) h"
proof -
  have n: "last (head # xs) = prv h head" using ring_ends(2) [OF assms(1)] by (cases xs) auto
  from ring_insert [of h head xs "[]", OF _ _ assms(3)] assms(1,2) n
  show "ring (list_add_tail new head h) head (xs @ [new])" by (simp add: list_add_tail_def del: last.simps)
  show "touches (set (new # head # xs)) (list_add_tail new head h) h"
    unfolding list_add_tail_def using ring_ends(2) [OF assms(1)] by (intro touches_between) auto
qed

lemma ring_unlink:
  assumes "ring h head xs" "e \<in> set xs"
  shows "ring (list_del_between (prv h e) (nxt h e) h) head (remove1 e xs)" "e \<noteq> head" "e \<noteq> 0"
    "e \<notin> set (remove1 e xs)" "set (remove1 e xs) = set xs - {e}"
    "touches (set (head # xs)) (list_del_between (prv h e) (nxt h e) h) h"
proof -
  obtain us vs where xs: "xs = us @ e # vs" using assms(2) by (meson split_list)
  have d: "distinct (head # us @ e # vs)" "0 \<notin> set (head # xs)" using assms(1) xs by (auto simp: ring_def)
  then have r: "remove1 e xs = us @ vs" by (simp add: xs remove1_append)
  note u = ring_remove [of h head us e vs]
  show "ring (list_del_between (prv h e) (nxt h e) h) head (remove1 e xs)"
    using u(1) assms(1) r xs by simp
  show "e \<noteq> head" "e \<noteq> 0" "e \<notin> set (remove1 e xs)" "set (remove1 e xs) = set xs - {e}"
    using d r xs by auto
  show "touches (set (head # xs)) (list_del_between (prv h e) (nxt h e) h) h"
    using u(2,3) assms(1) xs by (intro touches_between) auto
qed

lemma ring_del:
  assumes "ring h head xs" "e \<in> set xs"
  shows "ring (list_del e h) head (remove1 e xs)" "touches (set (head # xs)) (list_del e h) h"
proof -
  let ?g = "list_del_between (prv h e) (nxt h e) h"
  have "touches {e} (list_del e h) ?g" by (simp add: touches_def list_del_def)
  with ring_unlink [OF assms] show "ring (list_del e h) head (remove1 e xs)"
    by (intro ring_frame [of "{e}" "list_del e h" ?g]) auto
  from ring_unlink(6) [OF assms] assms(2) show "touches (set (head # xs)) (list_del e h) h"
    by (auto simp: touches_def list_del_def)
qed

lemma ring_del_init:
  assumes "ring h head xs" "e \<in> set xs"
  shows "ring (list_del_init e h) head (remove1 e xs)" "ring (list_del_init e h) e []"
proof -
  let ?g = "list_del_between (prv h e) (nxt h e) h"
  have "touches {e} (list_del_init e h) ?g" by (simp add: touches_def list_del_init_def init_list_head_def)
  with ring_unlink [OF assms] show "ring (list_del_init e h) head (remove1 e xs)"
    by (intro ring_frame [of "{e}" "list_del_init e h" ?g]) auto
  show "ring (list_del_init e h) e []"
    unfolding list_del_init_def using ring_unlink(3) [OF assms] by (rule ring_init)
qed

lemma ring_move:
  assumes "ring h head xs" "e \<in> set xs"
  shows "ring (list_move e head h) head (e # remove1 e xs)" "touches (set (head # xs)) (list_move e head h) h"
    "ring (list_move_tail e head h) head (remove1 e xs @ [e])"
proof -
  let ?g = "list_del_between (prv h e) (nxt h e) h"
  note u = ring_unlink [OF assms]
  have e: "e \<notin> set (head # remove1 e xs)" using u by auto
  from ring_add [OF u(1) e u(3)]
  show "ring (list_move e head h) head (e # remove1 e xs)" by (simp add: list_move_def)
  from ring_add(2) [OF u(1) e u(3)] u(5,6) assms(2)
  show "touches (set (head # xs)) (list_move e head h) h" by (auto simp: list_move_def touches_def)
  from ring_add_tail(1) [OF u(1) e u(3)]
  show "ring (list_move_tail e head h) head (remove1 e xs @ [e])" by (simp add: list_move_tail_def)
qed

lemma ring_splice:
  assumes "ring h ls ys" "ring h head xs" "set (ls # ys) \<inter> set (head # xs) = {}"
  shows "ring (list_splice ls head h) head (ys @ xs)"
    "ring (list_splice_init ls head h) head (ys @ xs)" "ring (list_splice_init ls head h) ls []"
proof -
  let ?g = "list_splice_at ls head h"
  have main: "ring ?g head (ys @ xs)" if ne: "ys \<noteq> []"
  proof -
    obtain y zs where y: "ys = y # zs" using ne by (cases ys) auto
    obtain ws z where z: "ys = ws @ [z]" using ne by (cases ys rule: rev_cases) auto
    obtain n ns where n: "xs @ [head] = n # ns" by (cases "xs @ [head]") auto
    have e: "nxt h ls = y" "prv h ls = z" "nxt h head = n"
    proof -
      show "nxt h ls = y" using ring_ends(1) [OF assms(1)] y by simp
      show "prv h ls = z" using ring_ends(2) [OF assms(1)] z by simp
      show "nxt h head = n" using ring_ends(1) [OF assms(2)] n by (cases xs) simp_all
    qed
    have g: "?g = set_prv n z (set_nxt z n (set_nxt head y (set_prv y head h)))"
      by (simp add: list_splice_at_def e)
    have dis: "distinct (ls # ys)" "distinct (head # xs)" using assms(1,2) by (auto simp: ring_def)
    have "linkchain h (ls # ys @ [ls])" "linkchain h (head # xs @ [head])" using assms(1,2) by (auto simp: ring_def)
    then have c: "linkchain h ys" "linkchain h (n # ns)"
    proof -
      have "linkchain h ((ls # ws) @ z # [ls])" using assms(1) z by (simp add: ring_def)
      then have "linkchain h (ls # ys)" using linkchain_append z by (metis append_Cons)
      then show "linkchain h ys" using y by simp
      show "linkchain h (n # ns)" using assms(2) n by (simp add: ring_def)
    qed
    have in_n: "n \<in> set (head # xs)" using n by (cases xs) auto
    have ns: "set ns \<subseteq> insert head (set xs)" using n by (cases xs) auto
    have nns: "n \<notin> set ns" using n dis(2) by (cases xs) auto
    have bl: "butlast (n # ns) = xs" using n by (metis butlast_snoc)
    have zy: "z \<in> set ys" "y \<in> set ys" "butlast ys = ws" "tl ys = zs" by (simp add: z, simp add: y, simp add: z, simp add: y)
    have zz: "z \<notin> set ws" "y \<notin> set zs" using dis(1) z y by (metis distinct.simps(2) distinct_append not_distinct_conv_prefix) (metis dis(1) distinct.simps(2) y)
    have far: "n \<notin> set ys" "head \<notin> set ys" "z \<notin> set (n # ns)" "y \<notin> set (n # ns)"
      using assms(3) in_n ns zy(1,2) by auto
    have hx: "head \<notin> set xs" using dis(2) by simp
    have "linkchain ?g ys"
    proof (subst linkchain_cong [of ys ?g h])
      show "\<forall>a \<in> set (butlast ys). nxt ?g a = nxt h a"
        using zz(1) far(2) unfolding g zy(3) by (auto simp: z)
      show "\<forall>b \<in> set (tl ys). prv ?g b = prv h b"
        using zz(2) far(1) unfolding g zy(4) by (auto simp: y)
    qed fact
    moreover have "linkchain ?g (n # ns)"
    proof (subst linkchain_cong [of "n # ns" ?g h])
      show "\<forall>a \<in> set (butlast (n # ns)). nxt ?g a = nxt h a"
        using hx far(3) ns in_n assms(3) zy(1) unfolding g bl by auto
      show "\<forall>b \<in> set (tl (n # ns)). prv ?g b = prv h b"
        using nns far(4) unfolding g by auto
    qed fact
    moreover have "nxt ?g head = y" "prv ?g y = head" "nxt ?g z = n" "prv ?g n = z"
      unfolding g using far zy(1,2) by auto
    ultimately have "linkchain ?g (head # ws @ z # n # ns)"
      using y z linkchain_append [of ?g "head # ws" z "n # ns"] by (cases ws) auto
    then show ?thesis using assms n z by (auto simp: ring_def)
  qed
  have e: "list_empty ls h \<longleftrightarrow> ys = []" by (rule ring_empty [OF assms(1)])
  show "ring (list_splice ls head h) head (ys @ xs)"
    using main assms(2) e by (auto simp: list_splice_def)
  show "ring (list_splice_init ls head h) head (ys @ xs)"
  proof (cases "ys = []")
    case False
    have "touches {ls} (init_list_head ls ?g) ?g" by (simp add: touches_def init_list_head_def)
    moreover have "{ls} \<inter> set (head # ys @ xs) = {}" using assms(1,3) by (auto simp: ring_def)
    ultimately have "ring (init_list_head ls ?g) head (ys @ xs)"
      using main [OF False] by (rule ring_frame)
    with False e show ?thesis by (simp add: list_splice_init_def)
  qed (use assms(2) e in \<open>simp add: list_splice_init_def\<close>)
  have "ls \<noteq> 0" using assms(1) by (auto simp: ring_def)
  then show "ring (list_splice_init ls head h) ls []"
    using assms(1) e by (auto simp: list_splice_init_def intro: ring_init)
qed

lemma for_each_linkchain:
  "linkchain h (pos # ps @ [head]) \<Longrightarrow> head \<notin> set (pos # ps) \<Longrightarrow>
   list_for_each (Suc (length (pos # ps)) + k) pos head h = Some (pos # ps)"
proof (induction ps arbitrary: pos)
  case (Cons p ps)
  then have "list_for_each (Suc (length (p # ps)) + k) p head h = Some (p # ps)"
    by (intro Cons.IH) auto
  with Cons.prems show ?case by simp
qed simp

lemma ring_for_each:
  assumes "ring h head xs" "length xs < k"
  shows "list_for_each k (nxt h head) head h = Some xs"
proof -
  obtain j where k: "k = Suc (length xs) + j" using assms(2) by (metis Suc_leI le_iff_add)
  show ?thesis
  proof (cases xs)
    case (Cons p ps)
    with assms(1) have "linkchain h (p # ps @ [head])" "head \<notin> set (p # ps)" "nxt h head = p"
      by (auto simp: ring_def)
    then show ?thesis unfolding k Cons using for_each_linkchain [of h p ps head j] by simp
  qed (use assms ring_ends(1) [OF assms(1)] k in simp)
qed

section \<open>The interface of a list kept by recency\<close>

text \<open>
  What a cache asks of such a list: \<open>holds s xs\<close> says which entries it has, the latest used one
  first; entries can be put in front, moved to the front, and taken out, and the oldest is
  known.
\<close>

locale recency =
  fixes holds :: "'s \<Rightarrow> 'a list \<Rightarrow> bool"
    and good :: "'a \<Rightarrow> bool"
    and push :: "'a \<Rightarrow> 's \<Rightarrow> 's"
    and touch :: "'a \<Rightarrow> 's \<Rightarrow> 's"
    and drop_entry :: "'a \<Rightarrow> 's \<Rightarrow> 's"
    and oldest :: "'s \<Rightarrow> 'a"
  assumes push: "holds s xs \<Longrightarrow> good a \<Longrightarrow> a \<notin> set xs \<Longrightarrow> holds (push a s) (a # xs)"
    and touch: "holds s xs \<Longrightarrow> a \<in> set xs \<Longrightarrow> holds (touch a s) (a # remove1 a xs)"
    and drop_entry: "holds s xs \<Longrightarrow> a \<in> set xs \<Longrightarrow> holds (drop_entry a s) (remove1 a xs)"
    and oldest: "holds s xs \<Longrightarrow> xs \<noteq> [] \<Longrightarrow> oldest s = last xs"
    and distinct: "holds s xs \<Longrightarrow> distinct xs"
    and good: "holds s xs \<Longrightarrow> a \<in> set xs \<Longrightarrow> good a"
begin

definition use_entry :: "'a list \<Rightarrow> 'a \<Rightarrow> 's \<Rightarrow> 's" where
  "use_entry xs a s = (if a \<in> set xs then touch a s else push a s)"

text \<open>After any uses the list is the history without repetitions, the latest use first.\<close>

fun uses :: "'a list \<Rightarrow> 's \<Rightarrow> 'a list \<Rightarrow> 's" where
  "uses xs s [] = s"
| "uses xs s (a # as) = uses (a # remove1 a xs) (use_entry xs a s) as"

fun history :: "'a list \<Rightarrow> 'a list \<Rightarrow> 'a list" where
  "history xs [] = xs"
| "history xs (a # as) = history (a # remove1 a xs) as"

lemma holds_uses: "holds s xs \<Longrightarrow> \<forall>a \<in> set as. good a \<Longrightarrow> holds (uses xs s as) (history xs as)"
proof (induction as arbitrary: xs s)
  case (Cons a as)
  have "holds (use_entry xs a s) (a # remove1 a xs)"
    using Cons.prems push touch by (auto simp: use_entry_def remove1_idem)
  with Cons show ?case by simp
qed simp

lemma holds_evict:
  assumes "holds s xs" "xs \<noteq> []"
  shows "holds (drop_entry (oldest s) s) (butlast xs)"
proof -
  obtain ys y where xs: "xs = ys @ [y]" using assms(2) by (cases xs rule: rev_cases) auto
  then have "y \<notin> set ys" using distinct [OF assms(1)] by simp
  then have "remove1 y xs = ys" by (simp add: xs remove1_append)
  with drop_entry [OF assms(1), of y] oldest [OF assms] show ?thesis by (simp add: xs)
qed

end

interpretation lru: recency "\<lambda>h xs. ring h head xs" "\<lambda>a. a \<noteq> 0 \<and> a \<noteq> head" "\<lambda>a. list_add a head"
    "\<lambda>a. list_move a head" list_del "\<lambda>h. prv h head" for head
proof unfold_locales
  fix h xs a
  show "ring h head xs \<Longrightarrow> a \<noteq> 0 \<and> a \<noteq> head \<Longrightarrow> a \<notin> set xs \<Longrightarrow> ring (list_add a head h) head (a # xs)"
    by (rule ring_add(1)) auto
  show "ring h head xs \<Longrightarrow> a \<in> set xs \<Longrightarrow> a \<noteq> 0 \<and> a \<noteq> head"
    unfolding ring_def by (metis distinct.simps(2) list.set_intros(2))
qed (auto simp: ring_move ring_del ring_ends, auto simp: ring_def)

section \<open>The properties of the list\<close>

text \<open>On a well-linked ring the operations of \<^verbatim>\<open>list.h\<close> are the operations on lists: put in front or
  at the end, take out, move to the front or to the end, test for empty, visit all.\<close>

theorem list_operations:
  assumes "ring h head xs" "new \<notin> set (head # xs)" "new \<noteq> 0" "e \<in> set xs"
  shows "ring (list_add new head h) head (new # xs) \<and>
    ring (list_add_tail new head h) head (xs @ [new]) \<and>
    ring (list_del e h) head (remove1 e xs) \<and>
    ring (list_del_init e h) head (remove1 e xs) \<and> ring (list_del_init e h) e [] \<and>
    ring (list_move e head h) head (e # remove1 e xs) \<and>
    ring (list_move_tail e head h) head (remove1 e xs @ [e]) \<and>
    \<not> list_empty head h \<and>
    list_for_each (Suc (length xs)) (nxt h head) head h = Some xs"
  using ring_add(1) [OF assms(1-3)] ring_add_tail(1) [OF assms(1-3)] ring_del(1) [OF assms(1,4)]
    ring_del_init [OF assms(1,4)] ring_move [OF assms(1,4)] ring_empty [OF assms(1)]
    ring_for_each [OF assms(1), of "Suc (length xs)"] assms(4)
  by auto

text \<open>Splicing a ring into a disjoint one puts its entries in front, in their order, and a re-initialised
  source is empty; an operation on one ring leaves every disjoint ring as it was.\<close>

theorem list_splice_and_frame:
  assumes "ring h ls ys" "ring h head xs" "set (ls # ys) \<inter> set (head # xs) = {}" "e \<in> set xs"
  shows "ring (list_splice ls head h) head (ys @ xs) \<and>
    ring (list_splice_init ls head h) head (ys @ xs) \<and> ring (list_splice_init ls head h) ls [] \<and>
    ring (list_del e h) ls ys \<and> ring (list_move e head h) ls ys"
proof -
  have d: "set (head # xs) \<inter> set (ls # ys) = {}" using assms(3) by blast
  from ring_frame [OF ring_del(2) [OF assms(2,4)] d assms(1)]
    ring_frame [OF ring_move(2) [OF assms(2,4)] d assms(1)] ring_splice [OF assms(1-3)]
  show ?thesis by blast
qed

section \<open>Examples\<close>

definition demo_links :: links where
  "demo_links = list_add 4 1 (list_add 3 1 (list_add 6 5 (init_list_head 5 (init_list_head 1
     \<lparr>nxt = \<lambda>_. 0, prv = \<lambda>_. 0\<rparr>))))"

lemma demo_links_rings: "ring demo_links 1 [4, 3]" "ring demo_links 5 [6]"
  by (simp_all add: ring_def demo_links_def list_add_def list_add_between_def init_list_head_def)

theorem list_operations_witness:
  "ring (list_add 7 1 demo_links) 1 [7, 4, 3] \<and> ring (list_move 3 1 demo_links) 1 [3, 4] \<and>
   ring (list_del 3 demo_links) 1 [4] \<and> list_for_each 3 (nxt demo_links 1) 1 demo_links = Some [4, 3]"
  using list_operations [OF demo_links_rings(1), of 7 3] by (simp add: numeral_eq_Suc)

theorem list_splice_and_frame_witness:
  "ring (list_splice_init 5 1 demo_links) 1 [6, 4, 3] \<and> ring (list_splice_init 5 1 demo_links) 5 [] \<and>
   ring (list_del 3 demo_links) 5 [6]"
  using list_splice_and_frame [OF demo_links_rings(2,1), of 3] by simp

end
