(* ===== verification/Rbtree.thy ===== *)
theory Rbtree
  imports Main
begin

text \<open>
  The red-black tree of the timestamp service (\<^verbatim>\<open>utils/rbtree.h\<close>, \<^verbatim>\<open>utils/rbtree.cpp\<close>). The code
  walks up from a node by parent pointers; here a position in a tree is the subtree at the
  node together with the path to the root, innermost parent first, so each loop of the code is
  a recursion over the path. A null pointer that would be followed makes the result \<open>None\<close>.
  Proved: insertion and deletion keep the tree a red-black tree, never follow a null pointer,
  and change the sequence of its entries as intended; the search finds an entry exactly when
  there is one; \<open>rb_next\<close> and \<open>rb_prev\<close> step through the entries in order.
\<close>

section \<open>Trees and positions\<close>

datatype color = Red | Black

datatype 'a tree = Tip | Br color "'a tree" 'a "'a tree"

datatype 'a side = LeftOf color 'a "'a tree" | RightOf color "'a tree" 'a

type_synonym 'a path = "'a side list"

fun red :: "'a tree \<Rightarrow> bool" where
  "red (Br Red l x r) = True"
| "red _ = False"

fun paint :: "color \<Rightarrow> 'a tree \<Rightarrow> 'a tree" where
  "paint c Tip = Tip"
| "paint c (Br d l x r) = Br c l x r"

fun plug :: "'a tree \<Rightarrow> 'a side \<Rightarrow> 'a tree" where
  "plug t (LeftOf c x s) = Br c t x s"
| "plug t (RightOf c s x) = Br c s x t"

fun side_color :: "'a side \<Rightarrow> color" where
  "side_color (LeftOf c x s) = c"
| "side_color (RightOf c s x) = c"

text \<open>The whole tree around a position.\<close>

fun rebuild :: "'a tree \<Rightarrow> 'a path \<Rightarrow> 'a tree" where
  "rebuild t [] = t"
| "rebuild t (f # fs) = rebuild (plug t f) fs"

fun rotate_left :: "'a tree \<Rightarrow> 'a tree" where
  "rotate_left (Br c a x (Br d b y e)) = Br d (Br c a x b) y e"
| "rotate_left t = t"

fun rotate_right :: "'a tree \<Rightarrow> 'a tree" where
  "rotate_right (Br c (Br d a x b) y e) = Br d a x (Br c b y e)"
| "rotate_right t = t"

section \<open>rb_insert_color\<close>

text \<open>After a rotation the loop ends, because the parent of its node is then black.\<close>

fun rb_insert_color :: "'a tree \<Rightarrow> 'a path \<Rightarrow> 'a tree option" where
  "rb_insert_color node [] = Some (paint Black node)"
| "rb_insert_color node (p # fs) =
     (if side_color p = Black then Some (paint Black (rebuild node (p # fs)))
      else case fs of
          [] \<Rightarrow> None
        | LeftOf gc g uncle # gs \<Rightarrow>
            if red uncle
            then rb_insert_color (Br Red (paint Black (plug node p)) g (paint Black uncle)) gs
            else
              let parent = (case p of RightOf _ _ _ \<Rightarrow> rotate_left (plug node p) | _ \<Rightarrow> plug node p)
              in Some (paint Black (rebuild (rotate_right (Br Red (paint Black parent) g uncle)) gs))
        | RightOf gc uncle g # gs \<Rightarrow>
            if red uncle
            then rb_insert_color (Br Red (paint Black uncle) g (paint Black (plug node p))) gs
            else
              let parent = (case p of LeftOf _ _ _ \<Rightarrow> rotate_right (plug node p) | _ \<Rightarrow> plug node p)
              in Some (paint Black (rebuild (rotate_left (Br Red uncle g (paint Black parent))) gs)))"

section \<open>rb_erase\<close>

text \<open>
  The cases of \<^verbatim>\<open>__rb_erase_color\<close> with a black sibling \<open>other\<close>: the new subtree at the parent and
  whether the loop goes on with the parent as its node.
\<close>

fun erase_left :: "'a tree \<Rightarrow> color \<Rightarrow> 'a \<Rightarrow> 'a tree \<Rightarrow> ('a tree \<times> bool) option" where
  "erase_left node pc p Tip = None"
| "erase_left node pc p (Br oc ol x orr) =
     (if \<not> red ol \<and> \<not> red orr then Some (Br pc node p (Br Red ol x orr), True)
      else
        let other = (if \<not> red orr then rotate_right (Br Red (paint Black ol) x orr) else Br oc ol x orr)
        in case other of
             Tip \<Rightarrow> None
           | Br _ a y b \<Rightarrow> Some (rotate_left (Br Black node p (Br pc a y (paint Black b))), False))"

fun erase_right :: "'a tree \<Rightarrow> color \<Rightarrow> 'a \<Rightarrow> 'a tree \<Rightarrow> ('a tree \<times> bool) option" where
  "erase_right node pc p Tip = None"
| "erase_right node pc p (Br oc ol x orr) =
     (if \<not> red ol \<and> \<not> red orr then Some (Br pc (Br Red ol x orr) p node, True)
      else
        let other = (if \<not> red ol then rotate_left (Br Red ol x (paint Black orr)) else Br oc ol x orr)
        in case other of
             Tip \<Rightarrow> None
           | Br _ a y b \<Rightarrow> Some (rotate_right (Br Black (Br pc (paint Black a) y b) p node), False))"

text \<open>With a red sibling the parent is rotated below it and is red afterwards, so the loop
  ends when it would go on with the parent.\<close>

fun rb_erase_color :: "'a tree \<Rightarrow> 'a path \<Rightarrow> 'a tree option" where
  "rb_erase_color node [] = Some (paint Black node)"
| "rb_erase_color node (LeftOf pc p other # fs) =
     (if red node then Some (rebuild (paint Black node) (LeftOf pc p other # fs))
      else case other of
          Tip \<Rightarrow> None
        | Br Red ol x orr \<Rightarrow>
            (case erase_left node Red p ol of
               None \<Rightarrow> None
             | Some (t, go_on) \<Rightarrow>
                 Some (if go_on then rebuild (paint Black t) (LeftOf Black x orr # fs)
                       else paint Black (rebuild t (LeftOf Black x orr # fs))))
        | Br Black ol x orr \<Rightarrow>
            (case erase_left node pc p other of
               None \<Rightarrow> None
             | Some (t, go_on) \<Rightarrow>
                 if go_on then rb_erase_color t fs else Some (paint Black (rebuild t fs))))"
| "rb_erase_color node (RightOf pc other p # fs) =
     (if red node then Some (rebuild (paint Black node) (RightOf pc other p # fs))
      else case other of
          Tip \<Rightarrow> None
        | Br Red ol x orr \<Rightarrow>
            (case erase_right node Red p orr of
               None \<Rightarrow> None
             | Some (t, go_on) \<Rightarrow>
                 Some (if go_on then rebuild (paint Black t) (RightOf Black ol x # fs)
                       else paint Black (rebuild t (RightOf Black ol x # fs))))
        | Br Black ol x orr \<Rightarrow>
            (case erase_right node pc p other of
               None \<Rightarrow> None
             | Some (t, go_on) \<Rightarrow>
                 if go_on then rb_erase_color t fs else Some (paint Black (rebuild t fs))))"

text \<open>The leftmost node of a subtree: its colour, entry, right child and path.\<close>

fun leftmost :: "'a tree \<Rightarrow> 'a path \<Rightarrow> (color \<times> 'a \<times> 'a tree \<times> 'a path) option" where
  "leftmost Tip fs = None"
| "leftmost (Br c Tip x r) fs = Some (c, x, r, fs)"
| "leftmost (Br c (Br d a y b) x r) fs = leftmost (Br d a y b) (LeftOf c x r # fs)"

text \<open>A node with two children is replaced, with its colour and children, by its successor.\<close>

fun rb_erase :: "'a tree \<Rightarrow> 'a path \<Rightarrow> 'a tree option" where
  "rb_erase Tip fs = None"
| "rb_erase (Br color l x r) fs =
     (if l = Tip then
        (if color = Black then rb_erase_color r fs else Some (rebuild r fs))
      else if r = Tip then
        (if color = Black then rb_erase_color l fs else Some (rebuild l fs))
      else case leftmost r [] of
          None \<Rightarrow> None
        | Some (c, y, child, ps) \<Rightarrow>
            if c = Black then rb_erase_color child (ps @ RightOf color l y # fs)
            else Some (rebuild child (ps @ RightOf color l y # fs)))"

section \<open>Search and iteration\<close>

text \<open>The descent of a search: the position of the key, or of the empty place where it belongs.\<close>

fun rb_descend :: "('a \<Rightarrow> nat) \<Rightarrow> nat \<Rightarrow> 'a tree \<Rightarrow> 'a path \<Rightarrow> 'a tree \<times> 'a path" where
  "rb_descend key k Tip fs = (Tip, fs)"
| "rb_descend key k (Br c l x r) fs =
     (if k < key x then rb_descend key k l (LeftOf c x r # fs)
      else if k > key x then rb_descend key k r (RightOf c l x # fs)
      else (Br c l x r, fs))"

fun rb_first :: "'a tree \<Rightarrow> 'a option" where
  "rb_first Tip = None"
| "rb_first (Br c l x r) = (if l = Tip then Some x else rb_first l)"

fun rb_last :: "'a tree \<Rightarrow> 'a option" where
  "rb_last Tip = None"
| "rb_last (Br c l x r) = (if r = Tip then Some x else rb_last r)"

fun climb_left :: "'a path \<Rightarrow> 'a option" where
  "climb_left [] = None"
| "climb_left (RightOf c l x # fs) = climb_left fs"
| "climb_left (LeftOf c x r # fs) = Some x"

fun climb_right :: "'a path \<Rightarrow> 'a option" where
  "climb_right [] = None"
| "climb_right (LeftOf c x r # fs) = climb_right fs"
| "climb_right (RightOf c l x # fs) = Some x"

fun rb_next :: "'a tree \<Rightarrow> 'a path \<Rightarrow> 'a option" where
  "rb_next Tip fs = None"
| "rb_next (Br c l x r) fs = (if r \<noteq> Tip then rb_first r else climb_left fs)"

fun rb_prev :: "'a tree \<Rightarrow> 'a path \<Rightarrow> 'a option" where
  "rb_prev Tip fs = None"
| "rb_prev (Br c l x r) fs = (if l \<noteq> Tip then rb_last l else climb_right fs)"

fun rb_replace_node :: "'a \<Rightarrow> 'a tree \<Rightarrow> 'a path \<Rightarrow> 'a tree option" where
  "rb_replace_node y Tip fs = None"
| "rb_replace_node y (Br c l x r) fs = Some (rebuild (Br c l y r) fs)"

section \<open>The sequence of entries\<close>

fun inorder :: "'a tree \<Rightarrow> 'a list" where
  "inorder Tip = []"
| "inorder (Br c l x r) = inorder l @ x # inorder r"

fun before :: "'a path \<Rightarrow> 'a list" where
  "before [] = []"
| "before (LeftOf c x r # fs) = before fs"
| "before (RightOf c l x # fs) = before fs @ inorder l @ [x]"

fun after :: "'a path \<Rightarrow> 'a list" where
  "after [] = []"
| "after (LeftOf c x r # fs) = x # inorder r @ after fs"
| "after (RightOf c l x # fs) = after fs"

lemma inorder_rebuild [simp]: "inorder (rebuild t fs) = before fs @ inorder t @ after fs"
proof (induction fs arbitrary: t)
  case (Cons f fs)
  then show ?case by (cases f) auto
qed simp

lemma before_append [simp]: "before (fs @ gs) = before gs @ before fs"
proof (induction fs)
  case (Cons f fs)
  then show ?case by (cases f) auto
qed simp

lemma after_append [simp]: "after (fs @ gs) = after fs @ after gs"
proof (induction fs)
  case (Cons f fs)
  then show ?case by (cases f) auto
qed simp

lemma inorder_paint [simp]: "inorder (paint c t) = inorder t"
  by (cases t) auto

lemma inorder_rotate [simp]: "inorder (rotate_left t) = inorder t" "inorder (rotate_right t) = inorder t"
  by (induction t rule: rotate_left.induct; simp) (induction t rule: rotate_right.induct; simp)

lemma inorder_plug: "inorder (plug t f) = before [f] @ inorder t @ after [f]"
  by (cases f) auto

lemma insert_color_inorder:
  "rb_insert_color node fs = Some t \<Longrightarrow> inorder t = before fs @ inorder node @ after fs"
proof (induction node fs arbitrary: t rule: rb_insert_color.induct)
  case (2 node p fs)
  show ?case
  proof (cases "side_color p = Black")
    case True
    with 2(3) show ?thesis by (cases p) auto
  next
    case False
    then obtain g gs where g: "fs = g # gs" using 2(3) by (cases fs) auto
    show ?thesis using 2 False g
      by (cases g; cases p) (auto simp: Let_def split: if_splits)
  qed
qed auto

lemma rotate_inorder_parts:
  "rotate_left t = Br c a x b \<Longrightarrow> inorder a @ x # inorder b = inorder t"
  "rotate_right t = Br c a x b \<Longrightarrow> inorder a @ x # inorder b = inorder t"
  by (metis inorder.simps(2) inorder_rotate)+

lemma erase_side_inorder:
  "erase_left node pc p other = Some (t, go_on) \<Longrightarrow> inorder t = inorder node @ p # inorder other"
  "erase_right node pc p other = Some (t, go_on) \<Longrightarrow> inorder t = inorder other @ p # inorder node"
  by (cases other; auto simp: Let_def split: if_splits tree.splits dest: rotate_inorder_parts)+

lemma erase_color_inorder:
  "rb_erase_color node fs = Some t \<Longrightarrow> inorder t = before fs @ inorder node @ after fs"
  by (induction node fs arbitrary: t rule: rb_erase_color.induct)
     (auto dest!: erase_side_inorder simp del: erase_left.simps erase_right.simps
      split: if_splits tree.splits color.splits option.splits)

lemma leftmost_inorder:
  "leftmost t fs = Some (c, y, r, ps) \<Longrightarrow>
   before ps @ y # inorder r @ after ps = before fs @ inorder t @ after fs \<and> before ps = before fs"
  by (induction t fs rule: leftmost.induct) auto

lemma erase_inorder:
  "rb_erase (Br c l x r) fs = Some t \<Longrightarrow> inorder t = before fs @ inorder l @ inorder r @ after fs"
  using leftmost_inorder [of r "[]"] by (fastforce simp: erase_color_inorder split: if_splits option.splits)

section \<open>Red-black trees\<close>

text \<open>\<open>balanced n t\<close>: every path to the bottom of \<open>t\<close> has \<open>n\<close> black nodes, and a red node has no
  red child.\<close>

fun balanced :: "nat \<Rightarrow> 'a tree \<Rightarrow> bool" where
  "balanced n Tip \<longleftrightarrow> n = 0"
| "balanced n (Br Red l x r) \<longleftrightarrow> balanced n l \<and> balanced n r \<and> \<not> red l \<and> \<not> red r"
| "balanced n (Br Black l x r) \<longleftrightarrow> 0 < n \<and> balanced (n - 1) l \<and> balanced (n - 1) r"

definition rb_tree :: "'a tree \<Rightarrow> bool" where
  "rb_tree t \<longleftrightarrow> \<not> red t \<and> (\<exists>n. balanced n t)"

text \<open>What a path asks of the subtree at its end: its black height, and, below a red parent, that
  it is not red.\<close>

definition takes_red :: "'a path \<Rightarrow> bool" where
  "takes_red fs \<longleftrightarrow> (case fs of [] \<Rightarrow> False | f # _ \<Rightarrow> side_color f = Black)"

fun sibling :: "'a side \<Rightarrow> 'a tree" where
  "sibling (LeftOf c x s) = s"
| "sibling (RightOf c s x) = s"

fun fits :: "nat \<Rightarrow> 'a path \<Rightarrow> bool" where
  "fits n [] = True"
| "fits n (f # fs) \<longleftrightarrow>
     balanced n (sibling f) \<and>
     (if side_color f = Black then fits (Suc n) fs
      else \<not> red (sibling f) \<and> takes_red fs \<and> fits n fs)"

lemma rb_Tip [simp]: "rb_tree Tip"
  by (simp add: rb_tree_def)

lemma balanced_paint_Black:
  "balanced n t \<Longrightarrow> balanced (if red t then Suc n else n) (paint Black t)"
  by (induction n t rule: balanced.induct) auto

lemma not_red_paint [simp]: "\<not> red (paint Black t)"
  by (cases t) auto

lemma paint_Black_id: "\<not> red t \<Longrightarrow> paint Black t = t"
  by (cases t rule: red.cases) auto

lemma red_plug [simp]: "red (plug t f) \<longleftrightarrow> side_color f = Red"
  by (cases f; cases "side_color f") auto

lemma balanced_plug:
  "balanced n t \<Longrightarrow> balanced n (sibling f) \<Longrightarrow> side_color f = Red \<Longrightarrow> \<not> red t \<Longrightarrow> \<not> red (sibling f) \<Longrightarrow>
   balanced n (plug t f)"
  "balanced n t \<Longrightarrow> balanced n (sibling f) \<Longrightarrow> side_color f = Black \<Longrightarrow> balanced (Suc n) (plug t f)"
  "balanced n t \<Longrightarrow> balanced n (sibling f) \<Longrightarrow> balanced (Suc n) (paint Black (plug t f))"
  by (cases f; auto)+

text \<open>A subtree that meets the demands of its path gives a red-black tree, and the other way round.\<close>

lemma rebuild_rb:
  "balanced n t \<Longrightarrow> fits n fs \<Longrightarrow> (red t \<Longrightarrow> takes_red fs) \<Longrightarrow> rb_tree (rebuild t fs)"
proof (induction fs arbitrary: n t)
  case Nil
  then show ?case by (auto simp: rb_tree_def takes_red_def)
next
  case (Cons f fs)
  show ?case
  proof (cases "side_color f")
    case Red
    with Cons.prems have "\<not> red t" by (auto simp: takes_red_def)
    with Red Cons.prems show ?thesis by (auto intro!: Cons.IH [of n] balanced_plug)
  next
    case Black
    with Cons.prems show ?thesis by (auto intro!: Cons.IH [of "Suc n"] balanced_plug)
  qed
qed

lemma rb_position:
  "rb_tree (rebuild t fs) \<Longrightarrow> \<exists>n. balanced n t \<and> fits n fs \<and> (red t \<longrightarrow> takes_red fs)"
proof (induction fs arbitrary: t)
  case Nil
  then show ?case by (auto simp: rb_tree_def)
next
  case (Cons f fs)
  then obtain n where n: "balanced n (plug t f)" "fits n fs" "side_color f = Red \<longrightarrow> takes_red fs"
    by fastforce
  show ?case
  proof (cases "side_color f")
    case Red
    with n show ?thesis by (intro exI [of _ n]) (cases f; auto simp: takes_red_def)
  next
    case Black
    with n show ?thesis by (intro exI [of _ "n - 1"]) (cases f; auto simp: takes_red_def)
  qed
qed

lemma rb_paint: "rb_tree t \<Longrightarrow> paint Black t = t"
  by (simp add: rb_tree_def paint_Black_id)

lemma rebuild_paint_rb:
  "balanced n t \<Longrightarrow> fits n fs \<Longrightarrow> (red t \<Longrightarrow> takes_red fs) \<Longrightarrow> rb_tree (paint Black (rebuild t fs))"
  using rb_paint rebuild_rb by metis

section \<open>Insertion keeps the tree red-black\<close>

lemma balanced_red_Suc: "red t \<Longrightarrow> balanced n t \<Longrightarrow> balanced (Suc n) (paint Black t)"
  using balanced_paint_Black [of n t] by simp

lemma takes_red_fits: "takes_red fs \<Longrightarrow> fits n fs \<Longrightarrow> \<exists>f gs. fs = f # gs \<and> side_color f = Black \<and>
    balanced n (sibling f) \<and> fits (Suc n) gs"
  by (cases fs) (auto simp: takes_red_def)

lemma insert_color_rb:
  "balanced n node \<Longrightarrow> red node \<Longrightarrow> fits n fs \<Longrightarrow>
   \<exists>t. rb_insert_color node fs = Some t \<and> rb_tree t"
proof (induction node fs arbitrary: n rule: rb_insert_color.induct)
  case (1 node)
  then show ?case using balanced_red_Suc by (auto simp: rb_tree_def)
next
  case (2 node p fs)
  show ?case
  proof (cases "side_color p")
    case Black
    then have "rb_tree (rebuild node (p # fs))"
      using 2(3-5) by (intro rebuild_rb [of n]) (auto simp: takes_red_def)
    with Black show ?thesis using rb_paint by fastforce
  next
    case Red
    with 2(5) have p: "balanced n (sibling p)" "\<not> red (sibling p)" "takes_red fs" "fits n fs" by auto
    then obtain g gs where g: "fs = g # gs" "side_color g = Black" "balanced n (sibling g)"
        "fits (Suc n) gs"
      using takes_red_fits by blast
    have b: "balanced (Suc n) (paint Black (plug node p))"
      using 2(3) p by (intro balanced_plug)
    show ?thesis
    proof (cases g)
      case (LeftOf gc x uncle)
      show ?thesis
      proof (cases "red uncle")
        case True
        have "balanced (Suc n) (paint Black uncle)"
          using True g(3) LeftOf balanced_red_Suc by simp
        then show ?thesis
          using 2(1) [OF _ g(1) LeftOf True, of "Suc n"] b g True LeftOf Red by simp
      next
        case False
        show ?thesis
          using False Red g p LeftOf 2(3,4)
          by (cases p; cases node rule: red.cases)
             (auto simp: Let_def intro!: rebuild_paint_rb [of "Suc n"])
      qed
    next
      case (RightOf gc uncle x)
      show ?thesis
      proof (cases "red uncle")
        case True
        have "balanced (Suc n) (paint Black uncle)"
          using True g(3) RightOf balanced_red_Suc by simp
        then show ?thesis
          using 2(2) [OF _ g(1) RightOf True, of "Suc n"] b g True RightOf Red by simp
      next
        case False
        show ?thesis
          using False Red g p RightOf 2(3,4)
          by (cases p; cases node rule: red.cases)
             (auto simp: Let_def intro!: rebuild_paint_rb [of "Suc n"])
      qed
    qed
  qed
qed

section \<open>Deletion keeps the tree red-black\<close>

text \<open>The node's subtree is one black node short.\<close>

lemma erase_left_balanced:
  assumes "balanced n node" "\<not> red node" "balanced (Suc n) other" "\<not> red other"
  shows "\<exists>t go_on. erase_left node pc p other = Some (t, go_on) \<and>
    (if go_on then (if pc = Red then balanced (Suc n) (paint Black t) \<and> red t else balanced (Suc n) t \<and> \<not> red t)
     else (if pc = Red then balanced (Suc n) t else balanced (Suc (Suc n)) t) \<and> (red t \<longrightarrow> pc = Red))"
proof -
  obtain ol x orr where o: "other = Br Black ol x orr" "balanced n ol" "balanced n orr"
    using assms(3,4) by (cases other rule: red.cases) auto
  show ?thesis
    using assms(1,2) o(2,3) unfolding o(1)
    by (cases pc; cases ol rule: red.cases; cases orr rule: red.cases) (auto simp: Let_def)
qed

lemma erase_right_balanced:
  assumes "balanced n node" "\<not> red node" "balanced (Suc n) other" "\<not> red other"
  shows "\<exists>t go_on. erase_right node pc p other = Some (t, go_on) \<and>
    (if go_on then (if pc = Red then balanced (Suc n) (paint Black t) \<and> red t else balanced (Suc n) t \<and> \<not> red t)
     else (if pc = Red then balanced (Suc n) t else balanced (Suc (Suc n)) t) \<and> (red t \<longrightarrow> pc = Red))"
proof -
  obtain ol x orr where o: "other = Br Black ol x orr" "balanced n ol" "balanced n orr"
    using assms(3,4) by (cases other rule: red.cases) auto
  show ?thesis
    using assms(1,2) o(2,3) unfolding o(1)
    by (cases pc; cases ol rule: red.cases; cases orr rule: red.cases) (auto simp: Let_def)
qed

definition short_by_one :: "nat \<Rightarrow> 'a tree \<Rightarrow> bool" where
  "short_by_one n t \<longleftrightarrow> (if red t then balanced (Suc n) (paint Black t) else balanced n t)"

lemma short_rebuild:
  "short_by_one n node \<Longrightarrow> red node \<Longrightarrow> fits (Suc n) fs \<Longrightarrow> rb_tree (rebuild (paint Black node) fs)"
  by (rule rebuild_rb [of "Suc n"]) (simp_all add: short_by_one_def)

lemma erase_color_left:
  assumes "\<And>m t. short_by_one m t \<Longrightarrow> fits (Suc m) fs \<Longrightarrow> \<exists>u. rb_erase_color t fs = Some u \<and> rb_tree u"
    "short_by_one n node" "fits (Suc n) (LeftOf pc p other # fs)"
  shows "\<exists>u. rb_erase_color node (LeftOf pc p other # fs) = Some u \<and> rb_tree u"
proof (cases "red node")
  case True
  from short_rebuild [OF assms(2) True assms(3)] True show ?thesis by simp
next
  case False
  then have n: "balanced n node" using assms(2) by (simp add: short_by_one_def)
  have o: "balanced (Suc n) other" using assms(3) by simp
  show ?thesis
  proof (cases other)
    case Tip
    with o show ?thesis by simp
  next
    case (Br oc ol x orr)
    show ?thesis
    proof (cases oc)
      case Red
      with Br assms(3) have pc: "pc = Black" "fits (Suc (Suc n)) fs" by (cases pc; simp)+
      have ol: "balanced (Suc n) ol" "balanced (Suc n) orr" "\<not> red ol" "\<not> red orr" using o Br Red by auto
      obtain t go_on where t: "erase_left node Red p ol = Some (t, go_on)"
          "if go_on then balanced (Suc n) (paint Black t) \<and> red t else balanced (Suc n) t"
        using erase_left_balanced [OF n False, of ol Red p] ol by auto
      have f: "fits (Suc n) (LeftOf Black x orr # fs)" using ol pc by simp
      have "rb_tree (rebuild (paint Black t) (LeftOf Black x orr # fs))" if go_on
        using t(2) that f by (intro rebuild_rb [of "Suc n"]) simp_all
      moreover have "rb_tree (paint Black (rebuild t (LeftOf Black x orr # fs)))" if "\<not> go_on"
        using t(2) that f by (intro rebuild_paint_rb [of "Suc n"]) (simp_all add: takes_red_def)
      ultimately show ?thesis using False Br Red t(1) by (cases go_on) simp_all
    next
      case Black
      then have nr: "\<not> red other" using Br by simp
      obtain t go_on where t: "erase_left node pc p other = Some (t, go_on)"
          "if go_on then (if pc = Red then balanced (Suc n) (paint Black t) \<and> red t else balanced (Suc n) t \<and> \<not> red t)
           else (if pc = Red then balanced (Suc n) t else balanced (Suc (Suc n)) t) \<and> (red t \<longrightarrow> pc = Red)"
        using erase_left_balanced [OF n False o nr, of pc p] by auto
      define m where "m = (if pc = Red then n else Suc n)"
      have m: "fits (Suc m) fs" "pc = Red \<Longrightarrow> takes_red fs"
        using assms(3) by (cases pc; simp add: m_def)+
      have "\<exists>u. rb_erase_color t fs = Some u \<and> rb_tree u" if go_on
        using t(2) that m(1) by (intro assms(1) [of m]) (auto simp: m_def short_by_one_def split: if_splits)
      moreover have "rb_tree (paint Black (rebuild t fs))" if "\<not> go_on"
        using t(2) that m by (intro rebuild_paint_rb [of "Suc m"]) (auto simp: m_def split: if_splits)
      ultimately show ?thesis using False Br Black t(1) by (cases go_on) auto
    qed
  qed
qed

lemma erase_color_right:
  assumes "\<And>m t. short_by_one m t \<Longrightarrow> fits (Suc m) fs \<Longrightarrow> \<exists>u. rb_erase_color t fs = Some u \<and> rb_tree u"
    "short_by_one n node" "fits (Suc n) (RightOf pc other p # fs)"
  shows "\<exists>u. rb_erase_color node (RightOf pc other p # fs) = Some u \<and> rb_tree u"
proof (cases "red node")
  case True
  from short_rebuild [OF assms(2) True assms(3)] True show ?thesis by simp
next
  case False
  then have n: "balanced n node" using assms(2) by (simp add: short_by_one_def)
  have o: "balanced (Suc n) other" using assms(3) by simp
  show ?thesis
  proof (cases other)
    case Tip
    with o show ?thesis by simp
  next
    case (Br oc ol x orr)
    show ?thesis
    proof (cases oc)
      case Red
      with Br assms(3) have pc: "pc = Black" "fits (Suc (Suc n)) fs" by (cases pc; simp)+
      have ol: "balanced (Suc n) ol" "balanced (Suc n) orr" "\<not> red ol" "\<not> red orr" using o Br Red by auto
      obtain t go_on where t: "erase_right node Red p orr = Some (t, go_on)"
          "if go_on then balanced (Suc n) (paint Black t) \<and> red t else balanced (Suc n) t"
        using erase_right_balanced [OF n False, of orr Red p] ol by auto
      have f: "fits (Suc n) (RightOf Black ol x # fs)" using ol pc by simp
      have "rb_tree (rebuild (paint Black t) (RightOf Black ol x # fs))" if go_on
        using t(2) that f by (intro rebuild_rb [of "Suc n"]) simp_all
      moreover have "rb_tree (paint Black (rebuild t (RightOf Black ol x # fs)))" if "\<not> go_on"
        using t(2) that f by (intro rebuild_paint_rb [of "Suc n"]) (simp_all add: takes_red_def)
      ultimately show ?thesis using False Br Red t(1) by (cases go_on) simp_all
    next
      case Black
      then have nr: "\<not> red other" using Br by simp
      obtain t go_on where t: "erase_right node pc p other = Some (t, go_on)"
          "if go_on then (if pc = Red then balanced (Suc n) (paint Black t) \<and> red t else balanced (Suc n) t \<and> \<not> red t)
           else (if pc = Red then balanced (Suc n) t else balanced (Suc (Suc n)) t) \<and> (red t \<longrightarrow> pc = Red)"
        using erase_right_balanced [OF n False o nr, of pc p] by auto
      define m where "m = (if pc = Red then n else Suc n)"
      have m: "fits (Suc m) fs" "pc = Red \<Longrightarrow> takes_red fs"
        using assms(3) by (cases pc; simp add: m_def)+
      have "\<exists>u. rb_erase_color t fs = Some u \<and> rb_tree u" if go_on
        using t(2) that m(1) by (intro assms(1) [of m]) (auto simp: m_def short_by_one_def split: if_splits)
      moreover have "rb_tree (paint Black (rebuild t fs))" if "\<not> go_on"
        using t(2) that m by (intro rebuild_paint_rb [of "Suc m"]) (auto simp: m_def split: if_splits)
      ultimately show ?thesis using False Br Black t(1) by (cases go_on) auto
    qed
  qed
qed

lemma erase_color_rb:
  "short_by_one n node \<Longrightarrow> fits (Suc n) fs \<Longrightarrow> \<exists>t. rb_erase_color node fs = Some t \<and> rb_tree t"
proof (induction fs arbitrary: n node)
  case Nil
  then show ?case
    by (auto simp: rb_tree_def short_by_one_def paint_Black_id split: if_splits)
next
  case (Cons f fs)
  show ?case
  proof (cases f)
    case (LeftOf pc p other)
    show ?thesis unfolding LeftOf
      by (rule erase_color_left [OF Cons.IH]) (use Cons.prems LeftOf in auto)
  next
    case (RightOf pc other p)
    show ?thesis unfolding RightOf
      by (rule erase_color_right [OF Cons.IH]) (use Cons.prems RightOf in auto)
  qed
qed

lemma balanced_short: "balanced n t \<Longrightarrow> short_by_one n t"
  by (simp add: short_by_one_def balanced_red_Suc)

lemma leftmost_append:
  "leftmost t ps = Some (c, y, child, qs) \<Longrightarrow> leftmost t (ps @ fs) = Some (c, y, child, qs @ fs)"
  by (induction t ps rule: leftmost.induct) auto

lemma leftmost_fits:
  "t \<noteq> Tip \<Longrightarrow> balanced n t \<Longrightarrow> fits n fs \<Longrightarrow> (red t \<Longrightarrow> takes_red fs) \<Longrightarrow>
   \<exists>c y child ps m. leftmost t fs = Some (c, y, child, ps) \<and> balanced m (Br c Tip y child) \<and>
     fits m ps \<and> (c = Red \<longrightarrow> takes_red ps)"
proof (induction t fs arbitrary: n rule: leftmost.induct)
  case (2 c x r fs)
  then show ?case by (cases c) auto
next
  case (3 c d a y b x r fs)
  then have "\<exists>c' y' child ps m. leftmost (Br d a y b) (LeftOf c x r # fs) = Some (c', y', child, ps) \<and>
      balanced m (Br c' Tip y' child) \<and> fits m ps \<and> (c' = Red \<longrightarrow> takes_red ps)"
    by (intro 3(1) [of "if c = Black then n - 1 else n"]; cases c) (auto simp: takes_red_def)
  then show ?case by simp
qed simp

lemma leftmost_Some: "t \<noteq> Tip \<Longrightarrow> \<exists>c y child ps. leftmost t fs = Some (c, y, child, ps)"
  by (induction t fs rule: leftmost.induct) auto

lemma remove_child_rb:
  assumes "balanced n (Br c l x r)" "fits n fs" "c = Red \<longrightarrow> takes_red fs" "t = l \<or> t = r"
  shows "\<exists>u. (if c = Black then rb_erase_color t fs else Some (rebuild t fs)) = Some u \<and> rb_tree u"
proof (cases c)
  case Red
  with assms have "rb_tree (rebuild t fs)" by (intro rebuild_rb [of n]) auto
  with Red show ?thesis by simp
next
  case Black
  with assms have "short_by_one (n - 1) t" "fits (Suc (n - 1)) fs"
    by (auto intro!: balanced_short)
  from erase_color_rb [OF this] Black show ?thesis by simp
qed

lemma erase_rb:
  assumes "rb_tree (rebuild (Br color l x r) fs)"
  shows "\<exists>t. rb_erase (Br color l x r) fs = Some t \<and> rb_tree t"
proof -
  obtain n where n: "balanced n (Br color l x r)" "fits n fs" "color = Red \<longrightarrow> takes_red fs"
    using rb_position [OF assms] by (cases color) auto
  show ?thesis
  proof (cases "l = Tip \<or> r = Tip")
    case True
    then show ?thesis using remove_child_rb [OF n] by auto
  next
    case False
    define m where "m = (if color = Black then n - 1 else n)"
    have m: "balanced m l" "balanced m r" "0 < n \<or> color = Red" "color = Red \<longrightarrow> \<not> red l \<and> \<not> red r"
      using n(1) by (cases color; simp add: m_def)+
    have f: "fits m (RightOf color l z # fs)" "red r \<longrightarrow> takes_red (RightOf color l z # fs)" for z
      using n m by (cases color; simp add: m_def takes_red_def)+
    obtain c y child ps where p: "leftmost r [] = Some (c, y, child, ps)"
      using leftmost_Some [of r "[]"] False by auto
    let ?ps = "ps @ RightOf color l y # fs"
    have "leftmost r (RightOf color l y # fs) = Some (c, y, child, ?ps)"
      using leftmost_append [OF p, of "RightOf color l y # fs"] by simp
    then obtain k where "balanced k (Br c Tip y child)" "fits k ?ps" "c = Red \<longrightarrow> takes_red ?ps"
      using leftmost_fits [OF _ m(2) f(1), of y] f(2) [of y] False by fastforce
    from remove_child_rb [OF this, of child] p False show ?thesis by auto
  qed
qed

section \<open>Search and iteration follow the order\<close>

definition ordered :: "('a \<Rightarrow> nat) \<Rightarrow> 'a tree \<Rightarrow> bool" where
  "ordered key t \<longleftrightarrow> sorted_wrt (\<lambda>x y. key x < key y) (inorder t)"

lemma descend_rebuild:
  "rb_descend key k t fs = (u, gs) \<Longrightarrow> rebuild u gs = rebuild t fs"
  by (induction t arbitrary: fs) (auto split: if_splits)

lemma descend_between:
  assumes "rb_descend key k t fs = (u, gs)" "\<forall>x \<in> set (before fs). key x < k" "\<forall>x \<in> set (after fs). k < key x"
    "sorted_wrt (\<lambda>x y. key x < key y) (inorder t)"
  shows "(\<forall>x \<in> set (before gs). key x < k) \<and> (\<forall>x \<in> set (after gs). k < key x) \<and>
    (case u of Tip \<Rightarrow> True | Br c l x r \<Rightarrow> key x = k)"
  using assms
proof (induction t arbitrary: fs)
  case (Br c l x r)
  consider "k < key x" | "key x < k" | "k = key x" by linarith
  then show ?case
  proof cases
    case 1
    have "\<forall>y \<in> set (after (LeftOf c x r # fs)). k < key y"
      using 1 Br.prems(3,4) by (auto simp: sorted_wrt_append)
    with 1 Br.IH(1) [of "LeftOf c x r # fs"] Br.prems show ?thesis by (simp add: sorted_wrt_append)
  next
    case 2
    have "\<forall>y \<in> set (before (RightOf c l x # fs)). key y < k"
      using 2 Br.prems(2,4) by (auto simp: sorted_wrt_append)
    with 2 Br.IH(2) [of "RightOf c l x # fs"] Br.prems show ?thesis by (simp add: sorted_wrt_append)
  next
    case 3
    with Br.prems show ?thesis by auto
  qed
qed simp

lemma inorder_Nil [simp]: "inorder t = [] \<longleftrightarrow> t = Tip"
  by (cases t) auto

lemma rb_first_inorder: "rb_first t = (if t = Tip then None else Some (hd (inorder t)))"
  by (induction t) auto

lemma rb_last_inorder: "rb_last t = (if t = Tip then None else Some (last (inorder t)))"
  by (induction t) auto

lemma climb_left_after: "climb_left fs = (case after fs of [] \<Rightarrow> None | x # xs \<Rightarrow> Some x)"
  by (induction fs rule: climb_left.induct) auto

lemma climb_right_before: "climb_right fs = (if before fs = [] then None else Some (last (before fs)))"
  by (induction fs rule: climb_right.induct) auto

section \<open>Linking and erasing as wholes\<close>

lemma rb_link_ok:
  assumes "rb_tree t" "ordered key t" "rb_descend key (key x) t [] = (Tip, fs)"
  shows "\<exists>u. rb_insert_color (Br Red Tip x Tip) fs = Some u \<and> rb_tree u \<and> ordered key u \<and>
    set (inorder u) = insert x (set (inorder t))"
proof -
  have t: "inorder t = before fs @ after fs"
    using arg_cong [OF descend_rebuild [OF assms(3)], of inorder] by simp
  obtain n where n: "balanced n (Tip :: 'a tree)" "fits n fs"
    using rb_position [of Tip fs] descend_rebuild [OF assms(3)] assms(1) by auto
  have "balanced n (Br Red Tip x Tip)" using n(1) by simp
  from insert_color_rb [OF this _ n(2)]
  obtain u where u: "rb_insert_color (Br Red Tip x Tip) fs = Some u" "rb_tree u" by auto
  have i: "inorder u = before fs @ x # after fs" using insert_color_inorder [OF u(1)] by simp
  have "(\<forall>y \<in> set (before fs). key y < key x) \<and> (\<forall>y \<in> set (after fs). key x < key y)"
    using descend_between [OF assms(3)] assms(2) by (auto simp: ordered_def)
  then have "ordered key u" using assms(2) by (auto simp: ordered_def i t sorted_wrt_append)
  with u i t show ?thesis by auto
qed

lemma rb_erase_ok:
  assumes "rb_tree (rebuild (Br c l x r) fs)"
  shows "\<exists>u. rb_erase (Br c l x r) fs = Some u \<and> rb_tree u \<and>
    inorder u = before fs @ inorder l @ inorder r @ after fs \<and>
    (ordered key (rebuild (Br c l x r) fs) \<longrightarrow>
       ordered key u \<and> set (inorder u) = set (inorder (rebuild (Br c l x r) fs)) - {x})"
proof -
  obtain u where u: "rb_erase (Br c l x r) fs = Some u" "rb_tree u" using erase_rb [OF assms] by auto
  note i = erase_inorder [OF u(1)]
  have "ordered key u \<and> set (inorder u) = set (inorder (rebuild (Br c l x r) fs)) - {x}"
    if o: "ordered key (rebuild (Br c l x r) fs)"
    using o by (fastforce simp: ordered_def i sorted_wrt_append)
  with u i show ?thesis by blast
qed

text \<open>A search finds the entry with the key, or there is none.\<close>

lemma descend_Tip:
  assumes "ordered key t" "rb_descend key k t [] = (Tip, fs)" "x \<in> set (inorder t)"
  shows "key x \<noteq> k"
proof -
  have "inorder t = before fs @ after fs"
    using arg_cong [OF descend_rebuild [OF assms(2)], of inorder] by simp
  then have "x \<in> set (before fs) \<or> x \<in> set (after fs)" using assms(3) by simp
  with descend_between [OF assms(2)] assms(1) show ?thesis by (auto simp: ordered_def)
qed

lemma descend_Br:
  assumes "ordered key t" "rb_descend key k t [] = (Br c l x r, fs)"
  shows "x \<in> set (inorder t)" "key x = k"
proof -
  have "inorder t = before fs @ (inorder l @ x # inorder r) @ after fs"
    using arg_cong [OF descend_rebuild [OF assms(2)], of inorder] by simp
  then show "x \<in> set (inorder t)" by simp
  from descend_between [OF assms(2)] assms(1) show "key x = k" by (simp add: ordered_def)
qed

lemma sorted_inj: "sorted_wrt (\<lambda>x y. key x < (key y :: nat)) xs \<Longrightarrow> inj_on key (set xs)"
  by (induction xs) auto

lemma ordered_inj: "ordered key t \<Longrightarrow> inj_on key (set (inorder t))"
  unfolding ordered_def by (rule sorted_inj)

lemma ordered_cong:
  "\<forall>x \<in> set (inorder t). key x = key' x \<Longrightarrow> ordered key t \<Longrightarrow> ordered key' t"
  unfolding ordered_def by (erule sorted_wrt_mono_rel [rotated]) auto

text \<open>The position of a node known by its address.\<close>

fun locate :: "'a \<Rightarrow> 'a tree \<Rightarrow> 'a path \<Rightarrow> ('a tree \<times> 'a path) option" where
  "locate a Tip fs = None"
| "locate a (Br c l x r) fs =
     (if x = a then Some (Br c l x r, fs)
      else case locate a l (LeftOf c x r # fs) of
          None \<Rightarrow> locate a r (RightOf c l x # fs)
        | Some p \<Rightarrow> Some p)"

lemma locate_Some:
  "locate a t fs = Some (u, gs) \<Longrightarrow> rebuild u gs = rebuild t fs \<and> (\<exists>c l r. u = Br c l a r)"
  by (induction a t fs arbitrary: u gs rule: locate.induct) (auto split: if_splits option.splits)

lemma locate_in: "a \<in> set (inorder t) \<Longrightarrow> \<exists>u gs. locate a t fs = Some (u, gs)"
  by (induction a t fs rule: locate.induct) (auto split: option.splits)

section \<open>The properties of the tree\<close>

text \<open>C8: Linking a new red node where a search ended and rebalancing never follows a null pointer and
  gives a red-black tree with the new entry in its place of the order.\<close>

theorem rb_insert_correct:
  assumes "rb_tree t" "ordered key t" "rb_descend key (key x) t [] = (Tip, fs)"
  shows "\<exists>u. rb_insert_color (Br Red Tip x Tip) fs = Some u \<and> rb_tree u \<and> ordered key u \<and>
    set (inorder u) = insert x (set (inorder t))"
  by (rule rb_link_ok [OF assms])

text \<open>C10: Erasing a node never follows a null pointer and gives a red-black tree with exactly the other
  entries, in order.\<close>

theorem rb_erase_correct:
  assumes "rb_tree (rebuild (Br c l x r) fs)"
  shows "\<exists>u. rb_erase (Br c l x r) fs = Some u \<and> rb_tree u \<and>
    inorder u = before fs @ inorder l @ inorder r @ after fs \<and>
    (ordered key (rebuild (Br c l x r) fs) \<longrightarrow>
       ordered key u \<and> set (inorder u) = set (inorder (rebuild (Br c l x r) fs)) - {x})"
  by (rule rb_erase_ok [OF assms])

text \<open>\<open>rb_next\<close> and \<open>rb_prev\<close> give the neighbours of an entry in the order, \<open>rb_first\<close> and
  \<open>rb_last\<close> its ends, and \<open>rb_replace_node\<close> changes one entry and nothing else.\<close>

theorem rb_iterates_inorder:
  assumes "inorder (rebuild (Br c l x r) fs) = xs"
  shows "rb_next (Br c l x r) fs =
      (let n = Suc (length (before fs @ inorder l)) in if n < length xs then Some (xs ! n) else None) \<and>
    rb_prev (Br c l x r) fs =
      (let n = length (before fs @ inorder l) in if n = 0 then None else Some (xs ! (n - 1))) \<and>
    xs ! length (before fs @ inorder l) = x \<and>
    rb_first (rebuild (Br c l x r) fs) = Some (hd xs) \<and> rb_last (rebuild (Br c l x r) fs) = Some (last xs) \<and>
    map_option inorder (rb_replace_node y (Br c l x r) fs) =
      Some (xs[length (before fs @ inorder l) := y])"
proof -
  define A B where "A = before fs @ inorder l" and "B = inorder r @ after fs"
  have xs: "xs = A @ x # B" using assms by (simp add: A_def B_def)
  have "inorder (rebuild (Br c l x r) fs) \<noteq> []" unfolding assms xs by simp
  then have ne: "rebuild (Br c l x r) fs \<noteq> Tip" by (metis inorder.simps(1))
  have "rb_next (Br c l x r) fs = (if B = [] then None else Some (hd B))"
    by (auto simp: B_def rb_first_inorder climb_left_after split: list.splits)
  then have "rb_next (Br c l x r) fs =
      (let n = Suc (length A) in if n < length xs then Some (xs ! n) else None)"
    by (cases B) (simp_all add: xs nth_append)
  moreover have "rb_prev (Br c l x r) fs = (if A = [] then None else Some (last A))"
    by (auto simp: A_def rb_last_inorder climb_right_before)
  then have "rb_prev (Br c l x r) fs =
      (let n = length A in if n = 0 then None else Some (xs ! (n - 1)))"
    by (simp add: xs nth_append last_conv_nth)
  moreover have "map_option inorder (rb_replace_node y (Br c l x r) fs) = Some (xs[length A := y])"
    by (simp add: xs A_def B_def del: append_assoc) (simp add: list_update_append)
  moreover have "xs ! length A = x" by (simp add: xs)
  moreover have "rb_first (rebuild (Br c l x r) fs) = Some (hd xs)"
    "rb_last (rebuild (Br c l x r) fs) = Some (last xs)"
    using ne assms by (simp_all add: rb_first_inorder rb_last_inorder)
  ultimately show ?thesis unfolding A_def by blast
qed

section \<open>Examples\<close>

definition demo_tree :: "nat tree" where
  "demo_tree = Br Black (Br Black Tip 10 Tip) 20 (Br Black Tip 30 (Br Red Tip 40 Tip))"

lemma demo_tree_ok: "rb_tree demo_tree" "ordered id demo_tree"
proof -
  have "balanced 2 demo_tree" by (simp add: demo_tree_def)
  then show "rb_tree demo_tree" unfolding rb_tree_def by (auto simp: demo_tree_def)
  show "ordered id demo_tree" by (simp add: ordered_def demo_tree_def)
qed

theorem rb_insert_correct_witness:
  "\<exists>u. rb_insert_color (Br Red Tip 35 Tip)
      [LeftOf Red 40 Tip, RightOf Black Tip 30, RightOf Black (Br Black Tip 10 Tip) 20] = Some u \<and>
    rb_tree u \<and> ordered id u \<and> set (inorder u) = {10, 20, 30, 35, 40}"
proof -
  have d: "rb_descend id (id 35) demo_tree [] =
      (Tip, [LeftOf Red 40 Tip, RightOf Black Tip 30, RightOf Black (Br Black Tip 10 Tip) 20])"
    by (simp add: demo_tree_def)
  from rb_insert_correct [OF demo_tree_ok d] show ?thesis by (simp add: demo_tree_def insert_commute)
qed

theorem rb_erase_correct_witness:
  "\<exists>u. rb_erase (Br Black Tip 10 Tip) [LeftOf Black 20 (Br Black Tip 30 (Br Red Tip 40 Tip))] = Some u \<and>
    rb_tree u \<and> inorder u = [20, 30, 40] \<and> ordered id u"
proof -
  have "rebuild (Br Black Tip 10 Tip) [LeftOf Black 20 (Br Black Tip 30 (Br Red Tip 40 Tip))] = demo_tree"
    by (simp add: demo_tree_def)
  with demo_tree_ok rb_erase_correct [of Black Tip 10 Tip "[LeftOf Black 20 (Br Black Tip 30 (Br Red Tip 40 Tip))]" id]
  show ?thesis by auto
qed

theorem rb_iterates_inorder_witness:
  "rb_next (Br Red Tip (40::nat) Tip) [RightOf Black Tip 30] = None \<and>
   rb_prev (Br Red Tip (40::nat) Tip) [RightOf Black Tip 30] = Some 30 \<and>
   map_option inorder (rb_replace_node 41 (Br Red Tip (40::nat) Tip) [RightOf Black Tip 30]) = Some [30, 41]"
  using rb_iterates_inorder [of Red Tip "40::nat" Tip "[RightOf Black Tip 30]" "[30, 40]" 41]
  by (simp add: Let_def)

end
