(* ===== verification/Mempool.thy ===== *)
theory Mempool
  imports Main
begin

text \<open>
  The memory pool of the timestamp service (\<^verbatim>\<open>utils/mempool.cpp\<close>). Memory is a map from the
  addresses of words to words; the pool keeps in it the links of its chunks (first word of a
  chunk) and of its free items (first word of an item). What \<^verbatim>\<open>malloc\<close> returns is a
  parameter of the operations that may call it. Proved for every sequence of allocations,
  frees and writes of the clients to their items: items in use never overlap, and the
  reference count is their number; the destruction gives every chunk back once.
\<close>

section \<open>The pool\<close>

definition WORD_SIZE :: nat where "WORD_SIZE = 8"
definition DEFAULT_ALLOC_SIZE :: nat where "DEFAULT_ALLOC_SIZE = 100"

record mempool =
  item_size :: nat
  alloc_size :: nat
  total_alloc_item :: nat
  reuse_ptr :: nat
  alloc_ptr :: nat
  alloc_pool_pos :: nat
  ref_count :: int
  mem :: "nat \<Rightarrow> nat"

definition round_up :: "nat \<Rightarrow> nat \<Rightarrow> nat" where
  "round_up n unit = (if n mod unit \<noteq> 0 then n + unit - n mod unit else n)"

definition mempool_create :: "nat \<Rightarrow> nat \<Rightarrow> nat \<Rightarrow> nat option \<Rightarrow> (nat \<Rightarrow> nat) \<Rightarrow> mempool option" where
  "mempool_create item_sz alloc_sz pagesize malloc m =
     (let isz = round_up (if item_sz < WORD_SIZE then WORD_SIZE else item_sz) WORD_SIZE;
          a1 = (if alloc_sz \<le> isz * DEFAULT_ALLOC_SIZE + WORD_SIZE
                then isz * DEFAULT_ALLOC_SIZE + WORD_SIZE else alloc_sz);
          a2 = (if a1 \<le> DEFAULT_ALLOC_SIZE * pagesize then DEFAULT_ALLOC_SIZE * pagesize else a1);
          a3 = round_up a2 pagesize
      in case malloc of
           None \<Rightarrow> None
         | Some c \<Rightarrow> Some \<lparr>item_size = isz, alloc_size = a3,
                           total_alloc_item = (a3 - WORD_SIZE) div isz, reuse_ptr = 0,
                           alloc_ptr = c, alloc_pool_pos = 0, ref_count = 0, mem = m(c := 0)\<rparr>)"

definition mempool_inc_refcount :: "mempool \<Rightarrow> mempool" where
  "mempool_inc_refcount p = p\<lparr>ref_count := ref_count p + 1\<rparr>"

definition mempool_alloc :: "nat option \<Rightarrow> mempool \<Rightarrow> nat option \<times> mempool" where
  "mempool_alloc malloc pool =
     (if reuse_ptr pool \<noteq> 0 then
        (let p = reuse_ptr pool
         in (Some p, mempool_inc_refcount (pool\<lparr>reuse_ptr := mem pool p\<rparr>)))
      else
        let grown = (if alloc_pool_pos pool = total_alloc_item pool then
                       (case malloc of
                          None \<Rightarrow> None
                        | Some c \<Rightarrow> Some (pool\<lparr>mem := (mem pool)(c := alloc_ptr pool),
                                             alloc_ptr := c, alloc_pool_pos := 0\<rparr>))
                     else Some pool)
        in case grown of
             None \<Rightarrow> (None, pool)
           | Some q \<Rightarrow>
               (Some (alloc_ptr q + WORD_SIZE + item_size q * alloc_pool_pos q),
                mempool_inc_refcount (q\<lparr>alloc_pool_pos := alloc_pool_pos q + 1\<rparr>)))"

text \<open>\<^verbatim>\<open>memset (p, 0, sizeof (pool->item_size))\<close> clears the first word only.\<close>

definition mempool_calloc :: "nat option \<Rightarrow> mempool \<Rightarrow> nat option \<times> mempool" where
  "mempool_calloc malloc pool =
     (case mempool_alloc malloc pool of
        (None, q) \<Rightarrow> (None, q)
      | (Some p, q) \<Rightarrow> (Some p, q\<lparr>mem := (mem q)(p := 0)\<rparr>))"

definition mempool_free :: "mempool \<Rightarrow> nat \<Rightarrow> mempool" where
  "mempool_free pool data =
     pool\<lparr>mem := (mem pool)(data := reuse_ptr pool), reuse_ptr := data,
          ref_count := ref_count pool - 1\<rparr>"

text \<open>The chunks given back, in order; the loop follows the links to the end, so it is given a
  number of steps it may take.\<close>

fun free_chunks :: "nat \<Rightarrow> (nat \<Rightarrow> nat) \<Rightarrow> nat \<Rightarrow> nat list option" where
  "free_chunks 0 m c = None"
| "free_chunks (Suc k) m c =
     (if c = 0 then Some [] else map_option (\<lambda>cs. c # cs) (free_chunks k m (m c)))"

definition mempool_destroy :: "nat \<Rightarrow> mempool \<Rightarrow> nat list option" where
  "mempool_destroy k pool = (if ref_count pool \<le> 0 then free_chunks k (mem pool) (alloc_ptr pool) else Some [])"

section \<open>Links and items\<close>

fun linked :: "(nat \<Rightarrow> nat) \<Rightarrow> nat \<Rightarrow> nat list \<Rightarrow> bool" where
  "linked m p [] \<longleftrightarrow> p = 0"
| "linked m p (a # as) \<longleftrightarrow> p = a \<and> a \<noteq> 0 \<and> linked m (m a) as"

lemma linked_cong: "\<forall>a \<in> set as. m a = m' a \<Longrightarrow> linked m p as = linked m' p as"
  by (induction as arbitrary: p) auto

definition item :: "mempool \<Rightarrow> nat \<Rightarrow> nat \<Rightarrow> nat" where
  "item p c i = c + WORD_SIZE + item_size p * i"

text \<open>The items handed out so far: all of the older chunks, the first ones of the newest.\<close>

definition handed :: "mempool \<Rightarrow> nat list \<Rightarrow> nat set" where
  "handed p cs = (case cs of [] \<Rightarrow> {}
     | c # ds \<Rightarrow> {item p c i | i. i < alloc_pool_pos p} \<union>
                 {item p d i | d i. d \<in> set ds \<and> i < total_alloc_item p})"

lemma handed_cong:
  "item_size p = item_size q \<Longrightarrow> alloc_pool_pos p = alloc_pool_pos q \<Longrightarrow>
   total_alloc_item p = total_alloc_item q \<Longrightarrow> handed p cs = handed q cs"
  by (cases cs) (simp_all add: handed_def item_def)

definition apart :: "nat \<Rightarrow> nat \<Rightarrow> nat \<Rightarrow> bool" where
  "apart n a b \<longleftrightarrow> a + n \<le> b \<or> b + n \<le> a"

fun all_apart :: "nat \<Rightarrow> nat list \<Rightarrow> bool" where
  "all_apart n [] \<longleftrightarrow> True"
| "all_apart n (a # as) \<longleftrightarrow> (\<forall>b \<in> set as. apart n a b) \<and> all_apart n as"

text \<open>The chunks \<open>cs\<close>, the free items \<open>fs\<close> and the items in use \<open>live\<close>.\<close>

definition pool_ok :: "mempool \<Rightarrow> nat list \<Rightarrow> nat list \<Rightarrow> nat set \<Rightarrow> bool" where
  "pool_ok p cs fs live \<longleftrightarrow>
     WORD_SIZE \<le> item_size p \<and>
     WORD_SIZE + item_size p * total_alloc_item p \<le> alloc_size p \<and> 0 < total_alloc_item p \<and>
     alloc_pool_pos p \<le> total_alloc_item p \<and> cs \<noteq> [] \<and>
     linked (mem p) (alloc_ptr p) cs \<and> all_apart (alloc_size p) cs \<and>
     linked (mem p) (reuse_ptr p) fs \<and> distinct fs \<and> finite live \<and>
     set fs \<inter> live = {} \<and> set fs \<union> live = handed p cs \<and> ref_count p = int (card live)"

lemma all_apart_pair: "all_apart n cs \<Longrightarrow> c \<in> set cs \<Longrightarrow> d \<in> set cs \<Longrightarrow> c \<noteq> d \<Longrightarrow> apart n c d"
  by (induction cs) (auto simp: apart_def)

lemma item_in_chunk:
  assumes "WORD_SIZE + item_size p * total_alloc_item p \<le> alloc_size p" "i < total_alloc_item p"
  shows "c + WORD_SIZE \<le> item p c i" "item p c i + item_size p \<le> c + alloc_size p"
proof -
  have "item_size p * Suc i \<le> item_size p * total_alloc_item p" using assms(2) by (intro mult_le_mono2) simp
  with assms(1) show "c + WORD_SIZE \<le> item p c i" "item p c i + item_size p \<le> c + alloc_size p"
    by (simp_all add: item_def)
qed

lemma items_apart:
  assumes "WORD_SIZE + item_size p * total_alloc_item p \<le> alloc_size p"
    "c = d \<or> apart (alloc_size p) c d" "i < total_alloc_item p" "j < total_alloc_item p"
    "item p c i \<noteq> item p d j"
  shows "apart (item_size p) (item p c i) (item p d j)"
proof (cases "c = d")
  case True
  then have "i \<noteq> j" using assms(5) by auto
  then have "i < j \<or> j < i" by linarith
  then have "item_size p * Suc i \<le> item_size p * j \<or> item_size p * Suc j \<le> item_size p * i"
    by (metis Suc_leI mult_le_mono2)
  with True show ?thesis by (auto simp: apart_def item_def)
next
  case False
  with assms(2) item_in_chunk [OF assms(1,3), of c] item_in_chunk [OF assms(1,4), of d]
  show ?thesis by (auto simp: apart_def)
qed

lemma handed_item:
  assumes "alloc_pool_pos p \<le> total_alloc_item p" "a \<in> handed p cs"
  obtains c i where "c \<in> set cs" "i < total_alloc_item p" "a = item p c i"
proof -
  obtain c ds where cs: "cs = c # ds" using assms(2) by (cases cs) (auto simp: handed_def)
  with assms(2) consider i where "i < alloc_pool_pos p" "a = item p c i"
    | d i where "d \<in> set ds" "i < total_alloc_item p" "a = item p d i"
    by (auto simp: handed_def)
  then show thesis
  proof cases
    case 1
    with cs assms(1) show thesis by (intro that [of c i]) auto
  next
    case 2
    with cs show thesis by (intro that [of d i]) auto
  qed
qed

lemma handed_apart:
  assumes "pool_ok p cs fs live" "a \<in> handed p cs" "b \<in> handed p cs" "a \<noteq> b"
  shows "apart (item_size p) a b"
proof -
  have l: "alloc_pool_pos p \<le> total_alloc_item p" "WORD_SIZE + item_size p * total_alloc_item p \<le> alloc_size p"
      "all_apart (alloc_size p) cs"
    using assms(1) by (auto simp: pool_ok_def)
  obtain c i d j where *: "c \<in> set cs" "i < total_alloc_item p" "a = item p c i"
      "d \<in> set cs" "j < total_alloc_item p" "b = item p d j"
    using handed_item [OF l(1) assms(2)] handed_item [OF l(1) assms(3)] by metis
  have "c = d \<or> apart (alloc_size p) c d" using all_apart_pair [OF l(3) *(1,4)] by blast
  from items_apart [OF l(2) this *(2,5)] assms(4) *(3,6) show ?thesis by simp
qed

lemma handed_header:
  assumes "pool_ok p cs fs live" "a \<in> handed p cs" "c \<in> set cs" "a \<le> w" "w < a + item_size p"
  shows "w \<noteq> c" "a \<noteq> 0"
proof -
  have l: "alloc_pool_pos p \<le> total_alloc_item p" "WORD_SIZE + item_size p * total_alloc_item p \<le> alloc_size p"
      "all_apart (alloc_size p) cs" "WORD_SIZE \<le> item_size p"
    using assms(1) by (auto simp: pool_ok_def)
  obtain d i where *: "d \<in> set cs" "i < total_alloc_item p" "a = item p d i"
    using handed_item [OF l(1) assms(2)] by metis
  note i = item_in_chunk [OF l(2) *(2), of d]
  show "w \<noteq> c"
  proof (cases "c = d")
    case True
    then show ?thesis using i * assms(4) by (simp add: WORD_SIZE_def)
  next
    case False
    with all_apart_pair [OF l(3) assms(3) *(1)] i * assms(4,5) l(4) show ?thesis
      by (auto simp: apart_def WORD_SIZE_def)
  qed
  show "a \<noteq> 0" using i * by (simp add: WORD_SIZE_def)
qed

section \<open>The operations keep the pool well-formed\<close>

lemma create_ok:
  assumes "mempool_create isz asz page (Some c) m = Some p" "c \<noteq> 0" "0 < page"
  shows "pool_ok p [c] [] {}"
proof -
  have up: "n \<le> round_up n u" if "0 < u" for n u
    using that mod_less_divisor [OF that, of n] by (auto simp: round_up_def Let_def le_diff_conv)
  define i where "i = round_up (if isz < WORD_SIZE then WORD_SIZE else isz) WORD_SIZE"
  define a1 where "a1 = (if asz \<le> i * DEFAULT_ALLOC_SIZE + WORD_SIZE then i * DEFAULT_ALLOC_SIZE + WORD_SIZE else asz)"
  define a2 where "a2 = (if a1 \<le> DEFAULT_ALLOC_SIZE * page then DEFAULT_ALLOC_SIZE * page else a1)"
  define a3 where "a3 = round_up a2 page"
  have "mempool_create isz asz page (Some c) m = Some \<lparr>item_size = i, alloc_size = a3,
      total_alloc_item = (a3 - WORD_SIZE) div i, reuse_ptr = 0, alloc_ptr = c, alloc_pool_pos = 0,
      ref_count = 0, mem = m(c := 0)\<rparr>"
    by (simp only: mempool_create_def Let_def i_def a1_def a2_def a3_def option.case)
  with assms(1) have p: "p = \<lparr>item_size = i, alloc_size = a3,
      total_alloc_item = (a3 - WORD_SIZE) div i, reuse_ptr = 0, alloc_ptr = c, alloc_pool_pos = 0,
      ref_count = 0, mem = m(c := 0)\<rparr>" by (simp only: option.inject)
  have i: "WORD_SIZE \<le> i" "0 < i"
    using up [of WORD_SIZE "if isz < WORD_SIZE then WORD_SIZE else isz"]
    by (auto simp: i_def WORD_SIZE_def split: if_splits)
  have "i * 100 + WORD_SIZE \<le> a1" by (simp add: a1_def DEFAULT_ALLOC_SIZE_def)
  moreover have "a1 \<le> a2" "a2 \<le> a3" using up [OF assms(3), of a2] by (simp_all add: a2_def a3_def)
  ultimately have a: "i + WORD_SIZE \<le> a3" by simp
  then have t: "0 < (a3 - WORD_SIZE) div i" using i by (simp add: div_greater_zero_iff)
  have "i * ((a3 - WORD_SIZE) div i) \<le> a3 - WORD_SIZE" by simp
  with a have s: "WORD_SIZE + i * ((a3 - WORD_SIZE) div i) \<le> a3" by linarith
  show ?thesis unfolding p using i t s assms(2) by (simp add: pool_ok_def handed_def)
qed

lemma take_ok:
  assumes "pool_ok p cs fs live" "alloc_pool_pos p < total_alloc_item p" "alloc_ptr p \<noteq> 0"
  defines "a \<equiv> alloc_ptr p + WORD_SIZE + item_size p * alloc_pool_pos p"
  defines "q \<equiv> mempool_inc_refcount (p\<lparr>alloc_pool_pos := alloc_pool_pos p + 1\<rparr>)"
  shows "pool_ok q cs fs (insert a live)" "a \<notin> live"
proof -
  obtain c ds where cs: "cs = c # ds" "alloc_ptr p = c"
    using assms(1) by (cases cs) (auto simp: pool_ok_def)
  have a: "a = item p c (alloc_pool_pos p)" by (simp add: a_def item_def cs)
  have l: "WORD_SIZE + item_size p * total_alloc_item p \<le> alloc_size p" "all_apart (alloc_size p) (c # ds)"
      "WORD_SIZE \<le> item_size p"
    using assms(1) cs by (auto simp: pool_ok_def)
  have "a \<notin> handed p cs"
  proof
    assume "a \<in> handed p cs"
    then consider i where "i < alloc_pool_pos p" "a = item p c i"
      | d i where "d \<in> set ds" "i < total_alloc_item p" "a = item p d i"
      by (auto simp: handed_def cs)
    then show False
    proof cases
      case 1
      with a l(3) show False by (simp add: item_def WORD_SIZE_def)
    next
      case 2
      then have "apart (alloc_size p) c d" using l(2) by simp
      with 2 a item_in_chunk [OF l(1) 2(2), of d] item_in_chunk [OF l(1) assms(2), of c] l(3)
      show False by (auto simp: apart_def WORD_SIZE_def)
    qed
  qed
  moreover have "handed q cs = insert a (handed p cs)"
    by (auto simp: handed_def cs q_def mempool_inc_refcount_def item_def a less_Suc_eq)
  ultimately show "pool_ok q cs fs (insert a live)" "a \<notin> live"
    using assms(1,2) by (auto simp: pool_ok_def q_def mempool_inc_refcount_def)
qed

text \<open>A fresh chunk: not null, and apart from the chunks there are.\<close>

definition fresh_chunk :: "mempool \<Rightarrow> nat list \<Rightarrow> nat \<Rightarrow> bool" where
  "fresh_chunk p cs c \<longleftrightarrow> c \<noteq> 0 \<and> (\<forall>d \<in> set cs. apart (alloc_size p) c d)"

lemma grow_ok:
  assumes "pool_ok p cs fs live" "alloc_pool_pos p = total_alloc_item p" "fresh_chunk p cs c"
  shows "pool_ok (p\<lparr>mem := (mem p)(c := alloc_ptr p), alloc_ptr := c, alloc_pool_pos := 0\<rparr>) (c # cs) fs live"
proof -
  let ?q = "p\<lparr>mem := (mem p)(c := alloc_ptr p), alloc_ptr := c, alloc_pool_pos := 0\<rparr>"
  have l: "WORD_SIZE + item_size p * total_alloc_item p \<le> alloc_size p" "WORD_SIZE \<le> item_size p"
      "set fs \<union> live = handed p cs" "alloc_pool_pos p \<le> total_alloc_item p"
    using assms(1) by (auto simp: pool_ok_def)
  have "c \<notin> set cs" using assms(3) l(1) by (auto simp: fresh_chunk_def apart_def WORD_SIZE_def)
  moreover have "c \<notin> set fs"
  proof
    assume "c \<in> set fs"
    then obtain d i where *: "d \<in> set cs" "i < total_alloc_item p" "c = item p d i"
      using handed_item [OF l(4)] l(3) by blast
    with item_in_chunk [OF l(1) *(2), of d] assms(3) l(2) show False
      by (auto simp: fresh_chunk_def apart_def WORD_SIZE_def)
  qed
  moreover have "handed ?q (c # cs) = handed p cs"
    using assms(1,2) by (cases cs) (auto simp: handed_def item_def pool_ok_def)
  moreover have "linked (mem ?q) p' as = linked (mem p) p' as" if "c \<notin> set as" for p' as
    using that by (intro linked_cong) auto
  ultimately show ?thesis using assms by (auto simp: pool_ok_def fresh_chunk_def)
qed

lemma alloc_ok:
  assumes "pool_ok p cs fs live" "mempool_alloc malloc p = (Some a, q)"
    "\<And>c. malloc = Some c \<Longrightarrow> fresh_chunk p cs c"
  shows "\<exists>ds gs. pool_ok q ds gs (insert a live) \<and> a \<notin> live \<and>
    ds = (if reuse_ptr p = 0 \<and> alloc_pool_pos p = total_alloc_item p then the malloc # cs else cs)"
proof (cases "reuse_ptr p = 0")
  case False
  then obtain f gs where f: "fs = f # gs" "reuse_ptr p = f"
    using assms(1) by (cases fs) (auto simp: pool_ok_def)
  with assms(2) False have "a = f" "q = mempool_inc_refcount (p\<lparr>reuse_ptr := mem p f\<rparr>)"
    by (auto simp: mempool_alloc_def Let_def)
  moreover have "handed q cs = handed p cs" if "q = mempool_inc_refcount (p\<lparr>reuse_ptr := mem p f\<rparr>)"
    using that by (intro handed_cong) (simp_all add: mempool_inc_refcount_def)
  ultimately have "pool_ok q cs gs (insert a live)" "a \<notin> live"
    using assms(1) f by (auto simp: pool_ok_def mempool_inc_refcount_def)
  with False show ?thesis by auto
next
  case True
  show ?thesis
  proof (cases "alloc_pool_pos p = total_alloc_item p")
    case False
    then have l: "alloc_pool_pos p < total_alloc_item p" "alloc_ptr p \<noteq> 0"
      using assms(1) by (auto simp: pool_ok_def neq_Nil_conv)
    from take_ok [OF assms(1) l] True False assms(2) show ?thesis
      by (auto simp: mempool_alloc_def)
  next
    case full: True
    with True assms(2) obtain c where c: "malloc = Some c"
      by (auto simp: mempool_alloc_def Let_def split: option.splits)
    note g = grow_ok [OF assms(1) full assms(3) [OF c]]
    have "0 < total_alloc_item p" "c \<noteq> 0"
      using assms(1) assms(3) [OF c] by (auto simp: pool_ok_def fresh_chunk_def)
    with take_ok [OF g] True full c assms(2) show ?thesis
      by (auto simp: mempool_alloc_def)
  qed
qed

lemma write_ok:
  assumes "pool_ok p cs fs live" "a \<in> live" "a \<le> w" "w < a + item_size p"
  shows "pool_ok (p\<lparr>mem := (mem p)(w := v)\<rparr>) cs fs live"
proof -
  let ?q = "p\<lparr>mem := (mem p)(w := v)\<rparr>"
  have h: "a \<in> handed p cs" "set fs \<subseteq> handed p cs" "a \<notin> set fs"
    using assms(1,2) by (auto simp: pool_ok_def)
  have "w \<notin> set cs" using handed_header(1) [OF assms(1) h(1) _ assms(3,4)] by blast
  moreover have "w \<notin> set fs"
  proof
    assume w: "w \<in> set fs"
    then have "w \<in> handed p cs" "w \<noteq> a" using h by auto
    with handed_apart [OF assms(1) h(1)] assms(3,4) show False by (fastforce simp: apart_def)
  qed
  moreover have "linked (mem ?q) p' as = linked (mem p) p' as" if "w \<notin> set as" for p' as
    using that by (intro linked_cong) auto
  moreover have "handed ?q cs = handed p cs" by (rule handed_cong) simp_all
  ultimately show ?thesis using assms(1) by (simp add: pool_ok_def)
qed

lemma free_ok:
  assumes "pool_ok p cs fs live" "a \<in> live"
  shows "pool_ok (mempool_free p a) cs (a # fs) (live - {a})"
proof -
  have h: "a \<in> handed p cs" "a \<notin> set fs" "cs \<noteq> []" "WORD_SIZE \<le> item_size p"
    using assms(1,2) by (auto simp: pool_ok_def)
  then obtain c where "c \<in> set cs" by (cases cs) auto
  have nz: "a \<noteq> 0" using handed_header(2) [OF assms(1) h(1) \<open>c \<in> set cs\<close>, of a] h(4) by (simp add: WORD_SIZE_def)
  have w: "pool_ok (p\<lparr>mem := (mem p)(a := reuse_ptr p)\<rparr>) cs fs live"
    using h(4) by (intro write_ok [OF assms]) (auto simp: WORD_SIZE_def)
  have c: "0 < card live" using assms by (auto simp: pool_ok_def card_gt_0_iff)
  have "handed (mempool_free p a) cs = handed p cs"
    by (rule handed_cong) (simp_all add: mempool_free_def)
  moreover have "handed (p\<lparr>mem := (mem p)(a := reuse_ptr p)\<rparr>) cs = handed p cs"
    by (rule handed_cong) simp_all
  ultimately show ?thesis using w nz h c assms(2)
    by (auto simp: pool_ok_def mempool_free_def of_nat_diff)
qed

section \<open>A pool and its clients\<close>

text \<open>The pool, its chunks and the items in use, through any sequence of allocations (with and
  without clearing), frees of items in use, and writes of the clients inside their items.\<close>

inductive pool_run :: "mempool \<Rightarrow> nat list \<Rightarrow> nat set \<Rightarrow> bool" where
  start: "mempool_create isz asz page (Some c) m = Some p \<Longrightarrow> c \<noteq> 0 \<Longrightarrow> 0 < page \<Longrightarrow>
    pool_run p [c] {}"
| alloc: "pool_run p cs live \<Longrightarrow> (\<And>c. malloc = Some c \<Longrightarrow> fresh_chunk p cs c) \<Longrightarrow>
    mempool_alloc malloc p = (Some a, q) \<Longrightarrow>
    pool_run q (if reuse_ptr p = 0 \<and> alloc_pool_pos p = total_alloc_item p then the malloc # cs else cs)
      (insert a live)"
| calloc: "pool_run p cs live \<Longrightarrow> (\<And>c. malloc = Some c \<Longrightarrow> fresh_chunk p cs c) \<Longrightarrow>
    mempool_calloc malloc p = (Some a, q) \<Longrightarrow>
    pool_run q (if reuse_ptr p = 0 \<and> alloc_pool_pos p = total_alloc_item p then the malloc # cs else cs)
      (insert a live)"
| no_memory: "pool_run p cs live \<Longrightarrow> mempool_alloc malloc p = (None, q) \<Longrightarrow> pool_run q cs live"
| free: "pool_run p cs live \<Longrightarrow> a \<in> live \<Longrightarrow> pool_run (mempool_free p a) cs (live - {a})"
| client_write: "pool_run p cs live \<Longrightarrow> a \<in> live \<Longrightarrow> a \<le> w \<Longrightarrow> w < a + item_size p \<Longrightarrow>
    pool_run (p\<lparr>mem := (mem p)(w := v)\<rparr>) cs live"

lemma alloc_None: "mempool_alloc malloc p = (None, q) \<Longrightarrow> q = p"
  by (auto simp: mempool_alloc_def Let_def split: if_splits option.splits)

lemma alloc_None_malloc: "mempool_alloc malloc p = (None, q) \<Longrightarrow> malloc = None"
  by (auto simp: mempool_alloc_def Let_def split: if_splits option.splits)

lemma pool_run_ok: "pool_run p cs live \<Longrightarrow> \<exists>fs. pool_ok p cs fs live"
proof (induction rule: pool_run.induct)
  case (start isz asz page c m p)
  then show ?case using create_ok by blast
next
  case (alloc p cs live malloc a q)
  from alloc.IH obtain fs where "pool_ok p cs fs live" by blast
  from alloc_ok [OF this alloc(3,2)] show ?case by auto
next
  case (calloc p cs live malloc a q)
  then obtain fs q1 where q: "pool_ok p cs fs live" "mempool_alloc malloc p = (Some a, q1)"
      "q = q1\<lparr>mem := (mem q1)(a := 0)\<rparr>"
    by (auto simp: mempool_calloc_def split: prod.splits option.splits)
  with alloc_ok [OF q(1,2)] calloc(2) obtain gs where
    g: "pool_ok q1 (if reuse_ptr p = 0 \<and> alloc_pool_pos p = total_alloc_item p then the malloc # cs else cs)
        gs (insert a live)"
    by blast
  have "a < a + item_size q1" using g by (auto simp: pool_ok_def WORD_SIZE_def)
  from write_ok [OF g _ _ this, of 0] q(3) show ?case by auto
next
  case (no_memory p cs live malloc q)
  then show ?case using alloc_None by blast
next
  case (free p cs live a)
  then show ?case using free_ok by blast
next
  case (client_write p cs live a w v)
  then show ?case using write_ok by blast
qed

text \<open>C18: Items in use never overlap each other nor the pool's own words, whatever the clients write into
  their items, and the reference count is their number.\<close>

theorem mempool_items_apart:
  assumes "pool_run p cs live"
  shows "(\<forall>a b. a \<in> live \<and> b \<in> live \<and> a \<noteq> b \<longrightarrow> apart (item_size p) a b) \<and>
    (\<forall>a. a \<in> live \<longrightarrow> (\<exists>c \<in> set cs. c + WORD_SIZE \<le> a \<and> a + item_size p \<le> c + alloc_size p)) \<and>
    ref_count p = int (card live) \<and> finite live"
proof -
  obtain fs where ok: "pool_ok p cs fs live" using pool_run_ok [OF assms] ..
  then have h: "live \<subseteq> handed p cs" "alloc_pool_pos p \<le> total_alloc_item p"
      "WORD_SIZE + item_size p * total_alloc_item p \<le> alloc_size p"
    by (auto simp: pool_ok_def)
  have "\<exists>c \<in> set cs. c + WORD_SIZE \<le> a \<and> a + item_size p \<le> c + alloc_size p" if "a \<in> live" for a
  proof -
    obtain c i where "c \<in> set cs" "i < total_alloc_item p" "a = item p c i"
      using handed_item [OF h(2)] h(1) \<open>a \<in> live\<close> by blast
    with item_in_chunk [OF h(3), of i c] show ?thesis by auto
  qed
  with handed_apart [OF ok] h(1) ok show ?thesis by (auto simp: pool_ok_def)
qed

lemma free_chunks_linked: "linked m c cs \<Longrightarrow> length cs < k \<Longrightarrow> free_chunks k m c = Some cs"
proof (induction cs arbitrary: c k)
  case Nil
  then show ?case by (cases k) auto
next
  case (Cons d cs)
  then show ?case by (cases k) auto
qed

lemma pool_ok_destroy:
  assumes "pool_ok p cs fs live" "length cs < k"
  shows "mempool_destroy k p = Some (if live = {} then cs else []) \<and> distinct cs"
proof -
  have l: "linked (mem p) (alloc_ptr p) cs" "ref_count p = int (card live)" "finite live"
      "all_apart (alloc_size p) cs" "0 < alloc_size p"
    using assms(1) by (auto simp: pool_ok_def WORD_SIZE_def)
  have "distinct cs"
    using l(4,5) by (induction cs) (auto simp: apart_def)
  with free_chunks_linked [OF l(1) assms(2)] l(2,3) show ?thesis
    by (auto simp: mempool_destroy_def)
qed

text \<open>The destruction of a pool without items in use gives back each of its chunks once, and ends; with
  items in use it gives back nothing.\<close>

theorem mempool_destroy_frees_all:
  assumes "pool_run p cs live" "length cs < k"
  shows "mempool_destroy k p = Some (if live = {} then cs else []) \<and> distinct cs"
  using pool_run_ok [OF assms(1)] pool_ok_destroy assms(2) by blast

section \<open>Examples\<close>

definition demo_pool :: mempool where
  "demo_pool = the (mempool_create 20 1000 4096 (Some 65536) (\<lambda>_. 7))"

lemma demo_pool_run: "pool_run (snd (mempool_calloc None demo_pool)) [65536] {65544}"
proof -
  have d: "demo_pool = \<lparr>item_size = 24, alloc_size = 409600, total_alloc_item = 17066, reuse_ptr = 0,
      alloc_ptr = 65536, alloc_pool_pos = 0, ref_count = 0, mem = (\<lambda>_. 7)(65536 := 0)\<rparr>"
    by (simp add: demo_pool_def mempool_create_def Let_def round_up_def WORD_SIZE_def DEFAULT_ALLOC_SIZE_def)
  have c: "mempool_create 20 1000 4096 (Some 65536) (\<lambda>_. 7) = Some demo_pool"
    by (simp add: demo_pool_def mempool_create_def Let_def)
  note f = arg_cong [OF d, of reuse_ptr, simplified] arg_cong [OF d, of alloc_pool_pos, simplified]
    arg_cong [OF d, of alloc_ptr, simplified] arg_cong [OF d, of total_alloc_item, simplified]
  have s: "pool_run demo_pool [65536] {}" by (rule pool_run.start [OF c]) simp_all
  have "mempool_calloc None demo_pool = (Some 65544, snd (mempool_calloc None demo_pool))"
    using f by (simp add: mempool_calloc_def mempool_alloc_def WORD_SIZE_def)
  from pool_run.calloc [OF s _ this] f show ?thesis by simp
qed

theorem mempool_items_apart_witness:
  "ref_count (snd (mempool_calloc None demo_pool)) = 1"
  using mempool_items_apart [OF demo_pool_run] by simp

theorem mempool_destroy_frees_all_witness:
  "mempool_destroy 2 (mempool_free (snd (mempool_calloc None demo_pool)) 65544) = Some [65536] \<and>
   mempool_destroy 2 (snd (mempool_calloc None demo_pool)) = Some []"
proof -
  from pool_run.free [OF demo_pool_run]
  have f: "pool_run (mempool_free (snd (mempool_calloc None demo_pool)) 65544) [65536] {}" by simp
  from mempool_destroy_frees_all [OF f, of 2] mempool_destroy_frees_all [OF demo_pool_run, of 2]
  show ?thesis by simp
qed

end
