(* ===== verification/TmCache.thy ===== *)
theory TmCache
  imports ListHead Rbtree Mempool
begin

text \<open>
  The cache of the timestamp service (\<^verbatim>\<open>timestamp_cache.cpp\<close>): nodes from the memory pool, found
  by user through the red-black tree and kept in the order of their last use by the circular
  list; a full cache gives up the node used longest ago. The links and fields of a node lie in
  its item of the pool, the words of the pool itself do not (\<open>mempool_items_apart\<close>), so they
  are kept in maps of their own. Proved: the operations implement a bounded list of pairs in
  the order of last use, and no pointer is followed that is not a node's.
\<close>

section \<open>State\<close>

record tm_node =
  tn_userid :: nat
  tn_timestamp :: nat

record tm_cache =
  tc_head :: nat
  tc_links :: links
  tc_tree :: "nat tree"
  tc_nodes :: "nat \<Rightarrow> tm_node"
  current_node_num :: nat
  max_node_num :: nat
  tc_pool :: mempool

definition tc_key :: "tm_cache \<Rightarrow> nat \<Rightarrow> nat" where
  "tc_key c a = tn_userid (tc_nodes c a)"

text \<open>\<open>node_sz\<close> is \<^verbatim>\<open>sizeof(tm_cache_node_t)\<close>: two list pointers, three words of the tree node, and two
  32-bit fields.\<close>

definition node_sz :: nat where "node_sz = 48"

definition tm_cache_create ::
  "nat \<Rightarrow> nat \<Rightarrow> nat option \<Rightarrow> (nat \<Rightarrow> nat) \<Rightarrow> nat \<Rightarrow> tm_cache option" where
  "tm_cache_create page head malloc m max_num =
     (case mempool_create node_sz (max_num * node_sz) page malloc m of
        None \<Rightarrow> None
      | Some pool \<Rightarrow>
          Some \<lparr>tc_head = head, tc_links = init_list_head head \<lparr>nxt = \<lambda>_. 0, prv = \<lambda>_. 0\<rparr>,
                tc_tree = Tip, tc_nodes = \<lambda>_. \<lparr>tn_userid = 0, tn_timestamp = 0\<rparr>,
                current_node_num = 0, max_node_num = max_num, tc_pool = pool\<rparr>)"

lemma tc_key_simps [simp]:
  "tc_key (c\<lparr>tc_links := h\<rparr>) = tc_key c" "tc_key (c\<lparr>tc_tree := t\<rparr>) = tc_key c"
  "tc_key (c\<lparr>tc_pool := p\<rparr>) = tc_key c" "tc_key (c\<lparr>current_node_num := n\<rparr>) = tc_key c"
  by (simp_all add: tc_key_def fun_eq_iff)

section \<open>Operations\<close>

definition tm_cache_search :: "nat \<Rightarrow> tm_cache \<Rightarrow> nat option \<times> tm_cache" where
  "tm_cache_search userid c =
     (case rb_descend (tc_key c) userid (tc_tree c) [] of
        (Tip, _) \<Rightarrow> (None, c)
      | (Br _ _ a _, _) \<Rightarrow> (Some a, c\<lparr>tc_links := list_move a (tc_head c) (tc_links c)\<rparr>))"

text \<open>The node at the end of the list is unlinked and given back. When the list is empty its end is
  the list head, which is no node: undefined.\<close>

definition tc_evict :: "tm_cache \<Rightarrow> tm_cache option" where
  "tc_evict c =
     (let lastn = prv (tc_links c) (tc_head c)
      in case locate lastn (tc_tree c) [] of
           None \<Rightarrow> None
         | Some (u, fs) \<Rightarrow>
             (case rb_erase u fs of
                None \<Rightarrow> None
              | Some t \<Rightarrow>
                  Some (c\<lparr>tc_links := list_del lastn (tc_links c), tc_tree := t,
                          tc_pool := mempool_free (tc_pool c) lastn,
                          current_node_num := current_node_num c - 1\<rparr>)))"

text \<open>What follows once there is room: the user's node is updated and moved to the front, or the new
  node is linked.\<close>

definition tc_store :: "nat \<Rightarrow> nat \<Rightarrow> nat \<Rightarrow> tm_cache \<Rightarrow> (nat \<times> tm_cache) option" where
  "tc_store new userid ts c =
     (case rb_descend (tc_key c) userid (tc_tree c) [] of
        (Br _ _ a _, _) \<Rightarrow>
          Some (a, c\<lparr>tc_nodes := (tc_nodes c)(a := (tc_nodes c a)\<lparr>tn_timestamp := ts\<rparr>),
                     tc_links := list_move a (tc_head c) (tc_links c),
                     tc_pool := mempool_free (tc_pool c) new\<rparr>)
      | (Tip, fs) \<Rightarrow>
          (case rb_insert_color (Br Red Tip new Tip) fs of
             None \<Rightarrow> None
           | Some t \<Rightarrow>
               Some (new, c\<lparr>tc_tree := t, tc_links := list_add new (tc_head c) (tc_links c),
                            current_node_num := current_node_num c + 1\<rparr>)))"

definition tm_cache_insert ::
  "nat option \<Rightarrow> nat \<Rightarrow> nat \<Rightarrow> tm_cache \<Rightarrow> (nat option \<times> tm_cache) option" where
  "tm_cache_insert malloc userid ts c =
     (case mempool_calloc malloc (tc_pool c) of
        (None, pool) \<Rightarrow> Some (None, c\<lparr>tc_pool := pool\<rparr>)
      | (Some new, pool) \<Rightarrow>
          let c1 = c\<lparr>tc_pool := pool,
                     tc_nodes := (tc_nodes c)(new := \<lparr>tn_userid = userid, tn_timestamp = ts\<rparr>),
                     tc_links := init_list_head new (tc_links c)\<rparr>
          in case (if current_node_num c1 \<ge> max_node_num c1 then tc_evict c1 else Some c1) of
               None \<Rightarrow> None
             | Some c2 \<Rightarrow>
                 (case tc_store new userid ts c2 of
                    None \<Rightarrow> None
                  | Some (a, c3) \<Rightarrow> Some (Some a, c3)))"

text \<open>The test of the argument is the wrong way round: a cache is refused, and the null pointer is
  followed (\<open>None\<close>).\<close>

definition tm_cache_delete :: "tm_cache option \<Rightarrow> nat \<Rightarrow> (int \<times> tm_cache) option" where
  "tm_cache_delete p_head userid = (case p_head of Some c \<Rightarrow> Some (-1, c) | None \<Rightarrow> None)"

text \<open>The loop of the destruction keeps a copy of the entry it unlinks, and goes on from the copy.\<close>

fun tc_free_nodes :: "nat \<Rightarrow> nat \<Rightarrow> tm_cache \<Rightarrow> tm_cache option" where
  "tc_free_nodes 0 p c = None"
| "tc_free_nodes (Suc k) p c =
     (if p = tc_head c then Some c
      else
        let next = nxt (tc_links c) p
        in tc_free_nodes k next (c\<lparr>tc_links := list_del p (tc_links c),
                                   tc_pool := mempool_free (tc_pool c) p\<rparr>))"

definition tm_cache_destroy :: "nat \<Rightarrow> tm_cache \<Rightarrow> nat list option" where
  "tm_cache_destroy k c =
     (case tc_free_nodes k (nxt (tc_links c) (tc_head c)) c of
        None \<Rightarrow> None
      | Some c1 \<Rightarrow> mempool_destroy k (tc_pool c1))"

section \<open>What the cache promises\<close>

text \<open>A list of users and timestamps, the latest used first.\<close>

definition lru_find :: "nat \<Rightarrow> (nat \<times> nat) list \<Rightarrow> nat option \<times> (nat \<times> nat) list" where
  "lru_find k al =
     (case map_of al k of
        None \<Rightarrow> (None, al)
      | Some v \<Rightarrow> (Some v, (k, v) # filter (\<lambda>e. fst e \<noteq> k) al))"

text \<open>Room is made before it is known whether the user has an entry already.\<close>

definition lru_store :: "nat \<Rightarrow> nat \<Rightarrow> nat \<Rightarrow> (nat \<times> nat) list \<Rightarrow> (nat \<times> nat) list" where
  "lru_store max_num k v al =
     (k, v) # filter (\<lambda>e. fst e \<noteq> k) (if length al \<ge> max_num then butlast al else al)"

definition tc_entry :: "tm_cache \<Rightarrow> nat \<Rightarrow> nat \<times> nat" where
  "tc_entry c a = (tn_userid (tc_nodes c a), tn_timestamp (tc_nodes c a))"

section \<open>The invariant\<close>

definition head_out :: "tm_cache \<Rightarrow> nat \<Rightarrow> bool" where
  "head_out c d \<longleftrightarrow> tc_head c < d \<or> d + alloc_size (tc_pool c) \<le> tc_head c"

text \<open>\<open>xs\<close> are the nodes, the latest used first; \<open>live\<close> the items in use; \<open>cs\<close> the chunks.\<close>

definition tc_inv :: "tm_cache \<Rightarrow> nat list \<Rightarrow> nat list \<Rightarrow> nat set \<Rightarrow> bool" where
  "tc_inv c cs xs live \<longleftrightarrow>
     (\<exists>fs. pool_ok (tc_pool c) cs fs live) \<and> (\<forall>d \<in> set cs. head_out c d) \<and>
     ring (tc_links c) (tc_head c) xs \<and> rb_tree (tc_tree c) \<and> ordered (tc_key c) (tc_tree c) \<and>
     set (inorder (tc_tree c)) = set xs \<and> set xs \<subseteq> live \<and> current_node_num c = length xs"

definition cache_ok :: "tm_cache \<Rightarrow> nat list \<Rightarrow> nat list \<Rightarrow> bool" where
  "cache_ok c cs xs \<longleftrightarrow> tc_inv c cs xs (set xs) \<and> 0 < max_node_num c \<and> length xs \<le> max_node_num c"

definition cache_malloc_ok :: "tm_cache \<Rightarrow> nat list \<Rightarrow> nat option \<Rightarrow> bool" where
  "cache_malloc_ok c cs malloc \<longleftrightarrow>
     (\<forall>d. malloc = Some d \<longrightarrow> fresh_chunk (tc_pool c) cs d \<and> head_out c d)"

lemma live_not_head:
  assumes "tc_inv c cs xs live" "a \<in> live"
  shows "a \<noteq> tc_head c" "a \<noteq> 0"
proof -
  obtain fs where p: "pool_ok (tc_pool c) cs fs live" and h: "\<forall>d \<in> set cs. head_out c d"
    using assms(1) by (auto simp: tc_inv_def)
  then have a: "a \<in> handed (tc_pool c) cs" "alloc_pool_pos (tc_pool c) \<le> total_alloc_item (tc_pool c)"
      "WORD_SIZE + item_size (tc_pool c) * total_alloc_item (tc_pool c) \<le> alloc_size (tc_pool c)"
      "WORD_SIZE \<le> item_size (tc_pool c)"
    using assms(2) by (auto simp: pool_ok_def)
  obtain d i where d: "d \<in> set cs" "i < total_alloc_item (tc_pool c)" "a = item (tc_pool c) d i"
    using handed_item [OF a(2,1)] by metis
  from item_in_chunk [OF a(3) d(2), of d] h d(1,3) a(4)
  show "a \<noteq> tc_head c" "a \<noteq> 0" by (auto simp: head_out_def WORD_SIZE_def)
qed

lemma tc_keys_inj: "tc_inv c cs xs live \<Longrightarrow> inj_on (tc_key c) (set xs)"
  using ordered_inj by (fastforce simp: tc_inv_def)

section \<open>The steps keep the invariant\<close>

lemma map_of_keys:
  "inj_on f (set xs) \<Longrightarrow> a \<in> set xs \<Longrightarrow> map_of (map (\<lambda>b. (f b, g b)) xs) (f a) = Some (g a)"
  by (induction xs) (auto simp: inj_on_def)

lemma map_of_no_key:
  "\<forall>a \<in> set xs. f a \<noteq> k \<Longrightarrow> map_of (map (\<lambda>b. (f b, g b)) xs) k = None"
  by (induction xs) auto

lemma tc_entry_eq: "tc_entry c = (\<lambda>a. (tc_key c a, tn_timestamp (tc_nodes c a)))"
  by (simp add: tc_entry_def tc_key_def fun_eq_iff)

lemma without_key:
  assumes "distinct xs" "inj_on f (set xs)" "a \<in> set xs"
  shows "filter (\<lambda>e. fst e \<noteq> f a) (map (\<lambda>b. (f b, g b)) xs) = map (\<lambda>b. (f b, g b)) (remove1 a xs)"
proof -
  have "filter (\<lambda>b. f b \<noteq> f a) xs = filter (\<lambda>b. a \<noteq> b) xs"
    using assms(2,3) by (intro filter_cong) (auto simp: inj_on_def)
  then show ?thesis
    by (simp add: filter_map comp_def distinct_remove1_removeAll [OF assms(1)] removeAll_filter_not_eq)
qed

lemma without_absent_key:
  "\<forall>a \<in> set xs. f a \<noteq> k \<Longrightarrow>
   filter (\<lambda>e. fst e \<noteq> k) (map (\<lambda>b. (f b, g b)) xs) = map (\<lambda>b. (f b, g b)) xs"
  by (induction xs) auto

lemma search_step:
  assumes "tc_inv c cs xs live" "tm_cache_search k c = (r, c')"
  shows "\<exists>ys. tc_inv c' cs ys live \<and> set ys = set xs \<and> length ys = length xs \<and>
    lru_find k (map (tc_entry c) xs) =
      (map_option (\<lambda>a. tn_timestamp (tc_nodes c' a)) r, map (tc_entry c') ys) \<and>
    max_node_num c' = max_node_num c \<and> tc_pool c' = tc_pool c \<and> tc_nodes c' = tc_nodes c \<and>
    tc_head c' = tc_head c"
proof -
  note i = assms(1) [unfolded tc_inv_def]
  have ring: "ring (tc_links c) (tc_head c) xs" and d: "distinct xs" using i by (auto simp: ring_def)
  note inj = tc_keys_inj [OF assms(1)]
  obtain u fs where u: "rb_descend (tc_key c) k (tc_tree c) [] = (u, fs)" by force
  show ?thesis
  proof (cases u)
    case Tip
    then have "\<forall>a \<in> set xs. tc_key c a \<noteq> k" using i u descend_Tip by metis
    with Tip u assms show ?thesis
      by (intro exI [of _ xs]) (auto simp: tm_cache_search_def lru_find_def tc_entry_eq map_of_no_key)
  next
    case (Br cl l a rr)
    then have a: "a \<in> set xs" "tc_key c a = k" using i u descend_Br by metis+
    have c': "r = Some a" "c' = c\<lparr>tc_links := list_move a (tc_head c) (tc_links c)\<rparr>"
      using assms(2) u Br by (auto simp: tm_cache_search_def)
    let ?ys = "a # remove1 a xs"
    have e: "tc_entry c' = tc_entry c" by (simp add: tc_entry_def c' fun_eq_iff)
    have "set ?ys = set xs" using a(1) d by auto
    moreover have "length ?ys = length xs" using length_pos_if_in_set [OF a(1)] a(1) by (simp add: length_remove1)
    moreover have "tc_inv c' cs ?ys live"
      using i ring_move(1) [OF ring a(1)] calculation
      by (auto simp: tc_inv_def c' tc_key_def head_out_def)
    moreover have "lru_find k (map (tc_entry c) xs) =
        (map_option (\<lambda>a. tn_timestamp (tc_nodes c' a)) r, map (tc_entry c') ?ys)"
      unfolding e using map_of_keys [OF inj a(1), of "\<lambda>b. tn_timestamp (tc_nodes c b)"]
        without_key [OF d inj a(1), of "\<lambda>b. tn_timestamp (tc_nodes c b)"] a(2)
      by (simp add: lru_find_def tc_entry_eq c')
    ultimately show ?thesis using c' by (intro exI [of _ ?ys]) simp
  qed
qed

lemma new_node_step:
  fixes k v :: nat
  assumes "tc_inv c cs xs live" "cache_malloc_ok c cs malloc"
    "mempool_calloc malloc (tc_pool c) = (Some new, pool)"
  defines "c1 \<equiv> c\<lparr>tc_pool := pool,
      tc_nodes := (tc_nodes c)(new := \<lparr>tn_userid = k, tn_timestamp = v\<rparr>),
      tc_links := init_list_head new (tc_links c)\<rparr>"
  shows "\<exists>ds. tc_inv c1 ds xs (insert new live) \<and> length ds \<le> Suc (length cs)" "new \<notin> live"
    "map (tc_entry c1) xs = map (tc_entry c) xs" "tc_key c1 new = k" "tc_entry c1 new = (k, v)"
proof -
  obtain fs where p: "pool_ok (tc_pool c) cs fs live" using assms(1) by (auto simp: tc_inv_def)
  obtain q where q: "mempool_alloc malloc (tc_pool c) = (Some new, q)" "pool = q\<lparr>mem := (mem q)(new := 0)\<rparr>"
    using assms(3) by (auto simp: mempool_calloc_def split: prod.splits option.splits)
  have m: "fresh_chunk (tc_pool c) cs d" if "malloc = Some d" for d
    using assms(2) that by (simp add: cache_malloc_ok_def)
  obtain ds gs where a: "pool_ok q ds gs (insert new live)" "new \<notin> live"
      "ds = (if reuse_ptr (tc_pool c) = 0 \<and> alloc_pool_pos (tc_pool c) = total_alloc_item (tc_pool c)
             then the malloc # cs else cs)"
    using alloc_ok [OF p q(1) m] by blast
  show "new \<notin> live" by fact
  have sz: "alloc_size q = alloc_size (tc_pool c)"
    using q(1) by (auto simp: mempool_alloc_def mempool_inc_refcount_def Let_def split: if_splits option.splits)
  have some: "\<exists>d. malloc = Some d" if "reuse_ptr (tc_pool c) = 0" "alloc_pool_pos (tc_pool c) = total_alloc_item (tc_pool c)"
    using q(1) that by (auto simp: mempool_alloc_def split: option.splits)
  have ho: "\<forall>d \<in> set ds. head_out c d"
    using a(3) assms(1,2) some by (auto simp: tc_inv_def cache_malloc_ok_def)
  have pool: "pool_ok pool ds gs (insert new live)"
    unfolding q(2) using a(1) by (intro write_ok [where a = new]) (auto simp: pool_ok_def WORD_SIZE_def)
  have x: "new \<notin> set xs" using assms(1) a(2) by (auto simp: tc_inv_def)
  have "new \<noteq> tc_head c" "new \<noteq> 0"
  proof -
    let ?c = "c\<lparr>tc_pool := pool\<rparr>"
    have o: "\<forall>d \<in> set ds. head_out ?c d" using ho sz q(2) by (simp add: head_out_def)
    have "tc_inv ?c ds xs (insert new live)"
      using assms(1) pool o by (auto simp: tc_inv_def)
    from live_not_head [OF this, of new] show "new \<noteq> tc_head c" "new \<noteq> 0" by simp_all
  qed
  then have e: "{new} \<inter> set (tc_head c # xs) = {}" using x by auto
  have t: "touches {new} (init_list_head new (tc_links c)) (tc_links c)"
    by (simp add: touches_def init_list_head_def)
  have "ring (tc_links c) (tc_head c) xs" using assms(1) by (simp add: tc_inv_def)
  from ring_frame [OF t e this]
  have "ring (init_list_head new (tc_links c)) (tc_head c) xs" .
  moreover have "ordered (tc_key c1) (tc_tree c)"
  proof (rule ordered_cong)
    show "\<forall>a \<in> set (inorder (tc_tree c)). tc_key c a = tc_key c1 a"
      using assms(1) x by (auto simp: tc_inv_def c1_def tc_key_def)
    show "ordered (tc_key c) (tc_tree c)" using assms(1) by (auto simp: tc_inv_def)
  qed
  moreover have "\<forall>d \<in> set ds. head_out c1 d" using ho sz q(2) by (simp add: head_out_def c1_def)
  moreover have "length ds \<le> Suc (length cs)" using a(3) by simp
  ultimately show "\<exists>ds. tc_inv c1 ds xs (insert new live) \<and> length ds \<le> Suc (length cs)"
    using assms(1) pool by (intro exI [of _ ds]) (auto simp: tc_inv_def c1_def)
  show "map (tc_entry c1) xs = map (tc_entry c) xs"
    using x by (auto simp: tc_entry_def c1_def)
  show "tc_key c1 new = k" "tc_entry c1 new = (k, v)" by (simp_all add: tc_key_def tc_entry_def c1_def)
qed

lemma tc_entry_simps [simp]:
  "tc_entry (c\<lparr>tc_links := h\<rparr>) = tc_entry c" "tc_entry (c\<lparr>tc_tree := t\<rparr>) = tc_entry c"
  "tc_entry (c\<lparr>tc_pool := p\<rparr>) = tc_entry c" "tc_entry (c\<lparr>current_node_num := n\<rparr>) = tc_entry c"
  by (simp_all add: tc_entry_def fun_eq_iff)

lemma evict_step:
  assumes "tc_inv c cs xs live" "xs \<noteq> []"
  shows "\<exists>c'. tc_evict c = Some c' \<and> tc_inv c' cs (butlast xs) (live - {last xs}) \<and>
    tc_nodes c' = tc_nodes c \<and> max_node_num c' = max_node_num c \<and> tc_head c' = tc_head c"
proof -
  let ?a = "last xs"
  note i = assms(1) [unfolded tc_inv_def]
  have ring: "ring (tc_links c) (tc_head c) xs" using i by blast
  have a: "?a \<in> set xs" using assms(2) by simp
  have p: "prv (tc_links c) (tc_head c) = ?a" using lru.oldest [OF ring assms(2)] .
  have ring': "ring (list_del ?a (tc_links c)) (tc_head c) (butlast xs)"
    using lru.holds_evict [OF ring assms(2)] p by simp
  obtain u fs where u: "locate ?a (tc_tree c) [] = Some (u, fs)"
    using locate_in [of ?a "tc_tree c" "[]"] a i by auto
  then obtain cl l r where b: "u = Br cl l ?a r" "rebuild (Br cl l ?a r) fs = tc_tree c"
    using locate_Some [OF u] by auto
  obtain t where t: "rb_erase u fs = Some t" "rb_tree t" "ordered (tc_key c) t"
      "set (inorder t) = set (inorder (tc_tree c)) - {?a}"
    using rb_erase_ok [of cl l ?a r fs "tc_key c"] i b by auto
  obtain gs where pool: "pool_ok (tc_pool c) cs gs live" using i by blast
  have l: "?a \<in> live" using i a by auto
  have pool': "pool_ok (mempool_free (tc_pool c) ?a) cs (?a # gs) (live - {?a})"
    by (rule free_ok [OF pool l])
  have d: "set (butlast xs) = set xs - {?a}"
    using ring assms(2) by (auto simp: ring_def dest: in_set_butlastD)
      (metis append_butlast_last_id in_set_conv_decomp distinct_append not_distinct_conv_prefix,
       metis append_butlast_last_id rotate1.simps(2) set_ConsD set_rotate1)
  have s: "alloc_size (mempool_free (tc_pool c) ?a) = alloc_size (tc_pool c)" by (simp add: mempool_free_def)
  show ?thesis
    using i t u p ring' pool' d s assms(2)
    by (auto simp: tc_evict_def Let_def tc_inv_def head_out_def)
qed

lemma store_step:
  assumes "tc_inv c cs xs (insert new (set xs))" "new \<notin> set xs" "tc_entry c new = (k, v)"
  shows "\<exists>a c' ys. tc_store new k v c = Some (a, c') \<and> tc_inv c' cs ys (set ys) \<and>
    map (tc_entry c') ys = (k, v) # filter (\<lambda>e. fst e \<noteq> k) (map (tc_entry c) xs) \<and>
    tc_entry c' a = (k, v) \<and> max_node_num c' = max_node_num c \<and> tc_head c' = tc_head c"
proof -
  note i = assms(1) [unfolded tc_inv_def]
  have ring: "ring (tc_links c) (tc_head c) xs" and d: "distinct xs" using i by (auto simp: ring_def)
  note inj = tc_keys_inj [OF assms(1)]
  have key: "tc_key c new = k" using assms(3) by (simp add: tc_key_def tc_entry_def)
  obtain u fs where u: "rb_descend (tc_key c) k (tc_tree c) [] = (u, fs)" by force
  show ?thesis
  proof (cases u)
    case Tip
    have absent: "\<forall>a \<in> set xs. tc_key c a \<noteq> k" using Tip i u descend_Tip by metis
    obtain t where t: "rb_insert_color (Br Red Tip new Tip) fs = Some t" "rb_tree t"
        "ordered (tc_key c) t" "set (inorder t) = insert new (set xs)"
      using rb_link_ok [of "tc_tree c" "tc_key c" new fs] i u Tip key by auto
    have n: "new \<noteq> 0" "new \<noteq> tc_head c" using live_not_head [OF assms(1), of new] by auto
    then have r: "ring (list_add new (tc_head c) (tc_links c)) (tc_head c) (new # xs)"
      using assms(2) by (intro lru.push [OF ring]) auto
    let ?c = "c\<lparr>tc_tree := t, tc_links := list_add new (tc_head c) (tc_links c),
                current_node_num := current_node_num c + 1\<rparr>"
    have "tc_store new k v c = Some (new, ?c)" using u Tip t(1) by (simp add: tc_store_def)
    moreover have "tc_inv ?c cs (new # xs) (set (new # xs))"
      using i t r by (simp add: tc_inv_def head_out_def)
    moreover have "map (tc_entry ?c) (new # xs) = (k, v) # filter (\<lambda>e. fst e \<noteq> k) (map (tc_entry c) xs)"
      using assms(3) without_absent_key [OF absent, of "\<lambda>a. tn_timestamp (tc_nodes c a)"]
      by (simp add: tc_entry_eq)
    ultimately show ?thesis using assms(3) by (intro exI [of _ new] exI [of _ ?c] exI [of _ "new # xs"]) simp
  next
    case (Br cl l a rr)
    have a: "a \<in> set xs" "tc_key c a = k" using Br i u descend_Br by metis+
    let ?h = "list_move a (tc_head c) (tc_links c)"
    let ?c = "c\<lparr>tc_nodes := (tc_nodes c)(a := (tc_nodes c a)\<lparr>tn_timestamp := v\<rparr>),
                tc_links := ?h, tc_pool := mempool_free (tc_pool c) new\<rparr>"
    let ?ys = "a # remove1 a xs"
    have st: "tc_store new k v c = Some (a, ?c)" using u Br by (simp add: tc_store_def)
    have kc: "tc_key ?c = tc_key c" by (simp add: tc_key_def fun_eq_iff)
    obtain gs where pool: "pool_ok (tc_pool c) cs gs (insert new (set xs))" using i by blast
    have live: "insert new (set xs) - {new} = set xs" using assms(2) by auto
    have pool': "pool_ok (mempool_free (tc_pool c) new) cs (new # gs) (set xs)"
      using free_ok [OF pool, of new] live by simp
    have ys: "set ?ys = set xs" using a(1) d by auto
    have len: "length ?ys = length xs" using length_pos_if_in_set [OF a(1)] a(1) by (simp add: length_remove1)
    have sz: "alloc_size (mempool_free (tc_pool c) new) = alloc_size (tc_pool c)" by (simp add: mempool_free_def)
    have "\<exists>fs. pool_ok (tc_pool ?c) cs fs (set ?ys)" using pool' ys by auto
    moreover have "ordered (tc_key ?c) (tc_tree ?c)" unfolding kc using i by simp
    moreover have "ring (tc_links ?c) (tc_head ?c) ?ys" using lru.touch [OF ring a(1)] by simp
    ultimately have inv: "tc_inv ?c cs ?ys (set ?ys)"
      using i ys len sz by (simp add: tc_inv_def head_out_def)
    have ea: "tc_entry ?c a = (k, v)" using a(2) by (simp add: tc_entry_def tc_key_def)
    have "a \<notin> set (remove1 a xs)" using d by simp
    then have "map (tc_entry ?c) (remove1 a xs) = map (tc_entry c) (remove1 a xs)"
      by (auto simp: tc_entry_def)
    then have "map (tc_entry ?c) ?ys = (k, v) # filter (\<lambda>e. fst e \<noteq> k) (map (tc_entry c) xs)"
      using ea without_key [OF d inj a(1), of "\<lambda>b. tn_timestamp (tc_nodes c b)"] a(2)
      by (simp add: tc_entry_eq)
    with st inv ea show ?thesis by (intro exI [of _ a] exI [of _ ?c] exI [of _ ?ys]) simp
  qed
qed

lemma insert_step:
  assumes "cache_ok c cs xs" "cache_malloc_ok c cs malloc"
  shows "\<exists>r c' ds ys. tm_cache_insert malloc k v c = Some (r, c') \<and> cache_ok c' ds ys \<and>
    (case r of
       None \<Rightarrow> ys = xs \<and> map (tc_entry c') ys = map (tc_entry c) xs
     | Some a \<Rightarrow> tc_entry c' a = (k, v) \<and>
         map (tc_entry c') ys = lru_store (max_node_num c) k v (map (tc_entry c) xs)) \<and>
    max_node_num c' = max_node_num c \<and> tc_head c' = tc_head c \<and>
    (r = None \<longrightarrow> malloc = None) \<and> length ds \<le> Suc (length cs)"
proof -
  have inv: "tc_inv c cs xs (set xs)" and m: "0 < max_node_num c" "length xs \<le> max_node_num c"
    using assms(1) by (auto simp: cache_ok_def)
  obtain r pool where p: "mempool_calloc malloc (tc_pool c) = (r, pool)" by force
  show ?thesis
  proof (cases r)
    case None
    then have "mempool_alloc malloc (tc_pool c) = (None, pool)"
      using p by (auto simp: mempool_calloc_def split: prod.splits option.splits)
    then have "pool = tc_pool c" "malloc = None" by (rule alloc_None, rule alloc_None_malloc)
    with None p assms(1) show ?thesis
      by (intro exI [of _ None] exI [of _ c] exI [of _ cs] exI [of _ xs]) (simp add: tm_cache_insert_def)
  next
    case (Some new)
    define c1 where "c1 = c\<lparr>tc_pool := pool,
      tc_nodes := (tc_nodes c)(new := \<lparr>tn_userid = k, tn_timestamp = v\<rparr>),
      tc_links := init_list_head new (tc_links c)\<rparr>"
    note pre = inv assms(2) p [unfolded Some]
    note n = new_node_step(1) [OF pre, of k v, folded c1_def] new_node_step(2) [OF pre]
      new_node_step(3,4,5) [OF pre, of k v, folded c1_def]
    obtain ds where ds: "tc_inv c1 ds xs (insert new (set xs))" "length ds \<le> Suc (length cs)"
      using n(1) by blast
    have c1: "max_node_num c1 = max_node_num c" "current_node_num c1 = length xs" "tc_head c1 = tc_head c"
      using inv by (simp_all add: c1_def tc_inv_def)
    let ?zs = "if max_node_num c \<le> length xs then butlast xs else xs"
    have "\<exists>c2. (if current_node_num c1 \<ge> max_node_num c1 then tc_evict c1 else Some c1) = Some c2 \<and>
      tc_inv c2 ds ?zs (insert new (set ?zs)) \<and> tc_nodes c2 = tc_nodes c1 \<and>
      max_node_num c2 = max_node_num c \<and> tc_head c2 = tc_head c"
    proof (cases "max_node_num c \<le> length xs")
      case True
      then have ne: "xs \<noteq> []" using m by auto
      have d: "distinct xs" using inv by (auto simp: tc_inv_def ring_def)
      have "insert new (set xs) - {last xs} = insert new (set (butlast xs))"
      proof -
        obtain ws w where "xs = ws @ [w]" using ne by (cases xs rule: rev_cases) auto
        with d n(2) show ?thesis by auto
      qed
      with evict_step [OF ds(1) ne] True c1 show ?thesis by auto
    qed (use ds c1 in auto)
    then obtain c2 where c2: "(if current_node_num c1 \<ge> max_node_num c1 then tc_evict c1 else Some c1) = Some c2"
      "tc_inv c2 ds ?zs (insert new (set ?zs))" "tc_nodes c2 = tc_nodes c1" "max_node_num c2 = max_node_num c"
      "tc_head c2 = tc_head c"
      by blast
    have e2: "tc_entry c2 = tc_entry c1" using c2(3) by (simp add: tc_entry_def fun_eq_iff)
    have z: "new \<notin> set ?zs" using n(2) by (auto dest: in_set_butlastD)
    have kv: "tc_entry c2 new = (k, v)" using n(5) e2 by simp
    obtain a c3 ys where c3: "tc_store new k v c2 = Some (a, c3)" "tc_inv c3 ds ys (set ys)"
        "map (tc_entry c3) ys = (k, v) # filter (\<lambda>e. fst e \<noteq> k) (map (tc_entry c2) ?zs)"
        "tc_entry c3 a = (k, v)" "max_node_num c3 = max_node_num c2" "tc_head c3 = tc_head c2"
      using store_step [OF c2(2) z kv] by (elim exE conjE) (rule that)
    have ez: "map (tc_entry c2) ?zs = (if max_node_num c \<le> length xs then butlast (map (tc_entry c) xs)
        else map (tc_entry c) xs)"
      using n(3) by (simp add: e2 map_butlast del: map_eq_conv)
    have r: "tm_cache_insert malloc k v c = Some (Some a, c3)"
      unfolding tm_cache_insert_def p Some
      by (simp only: prod.case option.case Let_def c1_def [symmetric] c2(1) c3(1))
    have "length ys = length (map (tc_entry c3) ys)" by simp
    also have "\<dots> \<le> Suc (length ?zs)" unfolding c3(3)
      using length_filter_le [of "\<lambda>e. fst e \<noteq> k" "map (tc_entry c2) ?zs"] by simp
    also have "\<dots> \<le> max_node_num c" using m by auto
    finally have "cache_ok c3 ds ys" using c3(2,5) c2(4) m(1) by (simp add: cache_ok_def)
    moreover have "map (tc_entry c3) ys = lru_store (max_node_num c) k v (map (tc_entry c) xs)"
      unfolding c3(3) ez by (simp add: lru_store_def)
    ultimately show ?thesis using r c3(4-6) c2(4,5) ds(2)
      by (intro exI [of _ "Some a"] exI [of _ c3] exI [of _ ds] exI [of _ ys]) simp
  qed
qed

section \<open>The properties of the cache\<close>

text \<open>C6: A search finds exactly the entry the list of last uses has for the user, and makes it the
  latest used one.\<close>

theorem tm_cache_search_finds:
  assumes "cache_ok c cs xs" "tm_cache_search k c = (r, c')"
  shows "\<exists>ys. cache_ok c' cs ys \<and>
    lru_find k (map (tc_entry c) xs) =
      (map_option (\<lambda>a. tn_timestamp (tc_nodes c' a)) r, map (tc_entry c') ys)"
proof -
  have "tc_inv c cs xs (set xs)" using assms(1) by (simp add: cache_ok_def)
  from search_step [OF this assms(2)] obtain ys where ys: "tc_inv c' cs ys (set xs)" "set ys = set xs"
    "length ys = length xs" "max_node_num c' = max_node_num c"
    "lru_find k (map (tc_entry c) xs) =
      (map_option (\<lambda>a. tn_timestamp (tc_nodes c' a)) r, map (tc_entry c') ys)"
    by blast
  with assms(1) show ?thesis by (intro exI [of _ ys]) (simp add: cache_ok_def)
qed

text \<open>C5: An insert stores the value for the user as the latest used entry, and gives up the oldest entry of
  a full cache; no operation on the list, the tree or the pool goes wrong, and the cache never holds
  more than its maximum. Only when there is no memory it leaves the cache as it was.\<close>

theorem tm_cache_insert_stores:
  assumes "cache_ok c cs xs" "cache_malloc_ok c cs malloc"
  shows "\<exists>r c' ds ys. tm_cache_insert malloc k v c = Some (r, c') \<and> cache_ok c' ds ys \<and>
    (case r of
       None \<Rightarrow> malloc = None \<and> map (tc_entry c') ys = map (tc_entry c) xs
     | Some a \<Rightarrow> tc_entry c' a = (k, v) \<and>
         map (tc_entry c') ys = lru_store (max_node_num c) k v (map (tc_entry c) xs))"
  using insert_step [OF assms, of k v] by (fastforce split: option.splits)

section \<open>Destruction\<close>

lemma free_nodes_step:
  assumes "ring (tc_links c) (tc_head c) xs" "pool_ok (tc_pool c) cs fs (set xs)" "length xs < k"
  shows "\<exists>c' gs. tc_free_nodes k (nxt (tc_links c) (tc_head c)) c = Some c' \<and> pool_ok (tc_pool c') cs gs {}"
  using assms
proof (induction xs arbitrary: c k fs)
  case Nil
  then show ?case using ring_ends(1) [OF Nil.prems(1)] by (cases k) auto
next
  case (Cons x xs)
  then obtain j where j: "k = Suc j" "length xs < j" by (cases k) auto
  note r = Cons.prems(1)
  have x: "nxt (tc_links c) (tc_head c) = x" "x \<noteq> tc_head c" "x \<notin> set xs"
      "nxt (tc_links c) x = (if xs = [] then tc_head c else hd xs)"
    using r by (cases xs; auto simp: ring_def)+
  let ?c = "c\<lparr>tc_links := list_del x (tc_links c), tc_pool := mempool_free (tc_pool c) x\<rparr>"
  have ring: "ring (tc_links ?c) (tc_head ?c) xs" using ring_del(1) [OF r, of x] by simp
  have "pool_ok (mempool_free (tc_pool c) x) cs (x # fs) (set (x # xs) - {x})"
    by (rule free_ok [OF Cons.prems(2)]) simp
  then have pool: "pool_ok (tc_pool ?c) cs (x # fs) (set xs)" using x(3) by simp
  have "nxt (tc_links ?c) (tc_head ?c) = nxt (tc_links c) x"
    using ring_ends(1) [OF ring] x(4) by simp
  with Cons.IH [OF ring pool j(2)] x(1,2) j(1) show ?case by (simp add: Let_def)
qed

text \<open>C39: The destruction ends and gives every chunk of the pool back once.\<close>

theorem tm_cache_destroy_frees_all:
  assumes "cache_ok c cs xs" "length xs < k" "length cs < k"
  shows "tm_cache_destroy k c = Some cs \<and> distinct cs"
proof -
  obtain fs where "ring (tc_links c) (tc_head c) xs" "pool_ok (tc_pool c) cs fs (set xs)"
    using assms(1) by (auto simp: cache_ok_def tc_inv_def)
  from free_nodes_step [OF this assms(2)] obtain c' gs where
    c': "tc_free_nodes k (nxt (tc_links c) (tc_head c)) c = Some c'" "pool_ok (tc_pool c') cs gs {}"
    by blast
  from pool_ok_destroy [OF c'(2) assms(3)] c'(1) show ?thesis by (simp add: tm_cache_destroy_def)
qed

text \<open>The deletion never deletes: it refuses every cache, and follows the null pointer.\<close>

lemma tm_cache_delete_refuses: "tm_cache_delete (Some c) k = Some (-1, c)" "tm_cache_delete None k = None"
  by (simp_all add: tm_cache_delete_def)

section \<open>A new cache\<close>

lemma create_cache_ok:
  assumes "tm_cache_create page head (Some d) m n = Some c" "d \<noteq> 0" "0 < page" "0 < n" "head \<noteq> 0"
    "head_out c d"
  shows "cache_ok c [d] []"
proof -
  obtain pool where p: "mempool_create node_sz (n * node_sz) page (Some d) m = Some pool"
      "tc_pool c = pool" "tc_links c = init_list_head head \<lparr>nxt = \<lambda>_. 0, prv = \<lambda>_. 0\<rparr>"
      "tc_head c = head" "tc_tree c = Tip" "current_node_num c = 0" "max_node_num c = n"
    using assms(1) by (auto simp: tm_cache_create_def split: option.splits)
  have "pool_ok pool [d] [] {}" by (rule create_ok [OF p(1) assms(2,3)])
  then show ?thesis
    using p assms(4-6) ring_init [OF assms(5)] by (auto simp: cache_ok_def tc_inv_def ordered_def)
qed

section \<open>The cache as an interface\<close>

text \<open>What a server in front of a store relies on. \<open>w\<close> is what the cache holds beside its entries (its
  memory); entries that agree with the store still do after each operation. Storing gives the
  cache up to being stale only when it may fail for want of memory.\<close>

definition agrees :: "(nat \<Rightarrow> nat option) \<Rightarrow> (nat \<times> nat) list \<Rightarrow> bool" where
  "agrees S al \<longleftrightarrow> (\<forall>(k, v) \<in> set al. S k = Some v)"

lemma agrees_find: "agrees S al \<Longrightarrow> agrees S (snd (lru_find k al))"
  "agrees S al \<Longrightarrow> fst (lru_find k al) = Some v \<Longrightarrow> S k = Some v"
  by (auto simp: agrees_def lru_find_def dest: map_of_SomeD split: option.splits)

lemma agrees_store: "agrees S al \<Longrightarrow> agrees (S(k \<mapsto> v)) (lru_store n k v al)"
  by (auto simp: agrees_def lru_store_def dest: in_set_butlastD)

locale lru_contract =
  fixes ok :: "'c \<Rightarrow> 'w \<Rightarrow> (nat \<times> nat) list \<Rightarrow> bool"
    and look :: "nat \<Rightarrow> 'c \<Rightarrow> nat option \<times> 'c"
    and put :: "'m option \<Rightarrow> nat \<Rightarrow> nat \<Rightarrow> 'c \<Rightarrow> (nat option \<times> 'c) option"
    and mem_ok :: "'c \<Rightarrow> 'w \<Rightarrow> 'm option \<Rightarrow> bool"
  assumes look: "ok c w al \<Longrightarrow> look k c = (r, c') \<Longrightarrow>
      r = fst (lru_find k al) \<and> ok c' w (snd (lru_find k al)) \<and> (mem_ok c w m \<longrightarrow> mem_ok c' w m)"
    and put: "ok c w al \<Longrightarrow> mem_ok c w m \<Longrightarrow>
      \<exists>r c' w' n. put m k v c = Some (r, c') \<and> (r = None \<longrightarrow> m = None) \<and>
        ok c' w' (if r = None then al else lru_store n k v al)"
begin

definition coherent_with :: "(nat \<Rightarrow> nat option) \<Rightarrow> 'c \<Rightarrow> 'w \<Rightarrow> bool" where
  "coherent_with S c w \<longleftrightarrow> (\<exists>al. ok c w al \<and> agrees S al)"

lemma look_coherent:
  assumes "coherent_with S c w" "look k c = (r, c')"
  shows "coherent_with S c' w \<and> (\<forall>v. r = Some v \<longrightarrow> S k = Some v) \<and> (mem_ok c w m \<longrightarrow> mem_ok c' w m)"
proof -
  obtain al where "ok c w al" "agrees S al" using assms(1) by (auto simp: coherent_with_def)
  with look [OF this(1) assms(2)] show ?thesis
    by (auto simp: coherent_with_def intro: agrees_find)
qed

lemma put_coherent:
  assumes "coherent_with S c w" "mem_ok c w m" "m \<noteq> None \<or> S k = Some v"
  shows "\<exists>r c' w'. put m k v c = Some (r, c') \<and> coherent_with (S(k \<mapsto> v)) c' w'"
proof -
  obtain al where al: "ok c w al" "agrees S al" using assms(1) by (auto simp: coherent_with_def)
  from put [OF al(1) assms(2), of k v] obtain r c' w' n where p: "put m k v c = Some (r, c')"
      "r = None \<longrightarrow> m = None" "ok c' w' (if r = None then al else lru_store n k v al)"
    by blast
  have "agrees (S(k \<mapsto> v)) (if r = None then al else lru_store n k v al)"
    using p(2) assms(3) al(2) agrees_store [OF al(2)] fun_upd_triv [of S k] by (cases r) auto
  with p show ?thesis by (auto simp: coherent_with_def)
qed

end

definition tm_look :: "nat \<Rightarrow> tm_cache \<Rightarrow> nat option \<times> tm_cache" where
  "tm_look k c = (case tm_cache_search k c of
     (r, c') \<Rightarrow> (map_option (\<lambda>a. tn_timestamp (tc_nodes c' a)) r, c'))"

definition tm_entries :: "tm_cache \<Rightarrow> nat list \<Rightarrow> (nat \<times> nat) list \<Rightarrow> bool" where
  "tm_entries c cs al \<longleftrightarrow> (\<exists>xs. cache_ok c cs xs \<and> al = map (tc_entry c) xs)"

interpretation tm_lru: lru_contract tm_entries tm_look tm_cache_insert cache_malloc_ok
proof
  fix c c' :: tm_cache and w al k r m
  assume a: "tm_entries c w al" "tm_look k c = (r, c')"
  then obtain xs where xs: "cache_ok c w xs" "al = map (tc_entry c) xs" by (auto simp: tm_entries_def)
  obtain q where q: "tm_cache_search k c = (q, c')" "r = map_option (\<lambda>a. tn_timestamp (tc_nodes c' a)) q"
    using a(2) by (auto simp: tm_look_def split: prod.splits)
  have "tc_inv c w xs (set xs)" using xs(1) by (simp add: cache_ok_def)
  from search_step [OF this q(1)] obtain ys where ys: "tc_inv c' w ys (set xs)" "set ys = set xs"
    "length ys = length xs" "max_node_num c' = max_node_num c"
    "lru_find k al = (r, map (tc_entry c') ys)" "tc_pool c' = tc_pool c" "tc_head c' = tc_head c"
    unfolding xs(2) q(2) by blast
  have "cache_ok c' w ys" using xs(1) ys(1-4) by (simp add: cache_ok_def)
  with ys(5-7) show "r = fst (lru_find k al) \<and> tm_entries c' w (snd (lru_find k al)) \<and>
      (cache_malloc_ok c w m \<longrightarrow> cache_malloc_ok c' w m)"
    by (auto simp: tm_entries_def cache_malloc_ok_def head_out_def)
next
  fix c :: tm_cache and w al m k v
  assume a: "tm_entries c w al" "cache_malloc_ok c w m"
  then obtain xs where xs: "cache_ok c w xs" "al = map (tc_entry c) xs" by (auto simp: tm_entries_def)
  obtain r c' ds ys where s: "tm_cache_insert m k v c = Some (r, c')" "cache_ok c' ds ys"
    "case r of None \<Rightarrow> ys = xs \<and> map (tc_entry c') ys = map (tc_entry c) xs
     | Some a \<Rightarrow> tc_entry c' a = (k, v) \<and>
         map (tc_entry c') ys = lru_store (max_node_num c) k v (map (tc_entry c) xs)"
    "r = None \<longrightarrow> m = None"
    using insert_step [OF xs(1) a(2), of k v] by (elim exE conjE) (rule that)
  have "tm_entries c' ds (if r = None then al else lru_store (max_node_num c) k v al)"
  proof (cases r)
    case None
    then have "ys = xs" "map (tc_entry c') ys = map (tc_entry c) xs"
      using s(3) by auto
    with None s(2) xs(2) show ?thesis unfolding tm_entries_def by metis
  next
    case (Some a)
    with s(2,3) xs(2) show ?thesis unfolding tm_entries_def by (intro exI [of _ ys]) simp
  qed
  with s(1,4) show "\<exists>r c' w' n. tm_cache_insert m k v c = Some (r, c') \<and> (r = None \<longrightarrow> m = None) \<and>
        tm_entries c' w' (if r = None then al else lru_store n k v al)"
    by blast
qed

section \<open>Examples\<close>

definition demo_tm :: tm_cache where
  "demo_tm = the (tm_cache_create 4096 8 (Some 65536) (\<lambda>_. 7) 2)"

definition demo_tm1 :: tm_cache where
  "demo_tm1 = snd (the (tm_cache_insert None 7 100 demo_tm))"

lemma demo_tm_ok: "cache_ok demo_tm [65536] []" "max_node_num demo_tm = 2"
proof -
  have c: "tm_cache_create 4096 8 (Some 65536) (\<lambda>_. 7) 2 = Some demo_tm"
    by (simp add: demo_tm_def tm_cache_create_def mempool_create_def Let_def)
  obtain pool where "mempool_create node_sz (2 * node_sz) 4096 (Some 65536) (\<lambda>_. 7) = Some pool"
    by (simp add: mempool_create_def Let_def)
  then have "tc_head demo_tm = 8" "max_node_num demo_tm = 2"
    by (simp_all add: demo_tm_def tm_cache_create_def)
  with create_cache_ok [OF c] show "cache_ok demo_tm [65536] []" "max_node_num demo_tm = 2"
    by (simp_all add: head_out_def)
qed

lemma no_malloc: "cache_malloc_ok c cs None"
  by (simp add: cache_malloc_ok_def)

lemma demo_tm1_ok: "\<exists>cs xs. cache_ok demo_tm1 cs xs \<and> length cs < 9 \<and> length xs < 9 \<and>
    map (tc_entry demo_tm1) xs = [(7, 100)]"
proof -
  have pool: "tc_pool demo_tm = \<lparr>item_size = 48, alloc_size = 409600, total_alloc_item = 8533,
      reuse_ptr = 0, alloc_ptr = 65536, alloc_pool_pos = 0, ref_count = 0, mem = (\<lambda>_. 7)(65536 := 0)\<rparr>"
    by (simp add: demo_tm_def tm_cache_create_def mempool_create_def Let_def round_up_def WORD_SIZE_def
        DEFAULT_ALLOC_SIZE_def node_sz_def)
  obtain p where a: "mempool_calloc None (tc_pool demo_tm) = (Some 65544, p)"
    by (simp add: pool mempool_calloc_def mempool_alloc_def WORD_SIZE_def)
  obtain r c' ds ys where i: "tm_cache_insert None 7 100 demo_tm = Some (r, c')" "cache_ok c' ds ys"
      "case r of None \<Rightarrow> ys = [] \<and> map (tc_entry c') ys = map (tc_entry demo_tm) []
       | Some a \<Rightarrow> tc_entry c' a = (7, 100) \<and>
           map (tc_entry c') ys = lru_store (max_node_num demo_tm) 7 100 (map (tc_entry demo_tm) [])"
      "length ds \<le> Suc (length [65536::nat])"
    using insert_step [OF demo_tm_ok(1) no_malloc, of 7 100] by (elim exE conjE) (rule that)
  have c': "c' = demo_tm1" by (simp add: demo_tm1_def i(1))
  have "r \<noteq> None"
    using i(1) a by (auto simp: tm_cache_insert_def Let_def split: option.splits)
  then have ys: "map (tc_entry demo_tm1) ys = [(7, 100)]"
    using i(3) by (auto simp: c' lru_store_def demo_tm_ok(2))
  then have "length ys = 1" using length_map [of "tc_entry demo_tm1" ys] by simp
  with i(2,4) ys show ?thesis unfolding c' by (intro exI [of _ ds] exI [of _ ys]) simp
qed

theorem tm_cache_insert_stores_witness:
  "\<exists>r c' ds ys. tm_cache_insert None 7 100 demo_tm = Some (r, c') \<and> cache_ok c' ds ys \<and>
    (case r of
       None \<Rightarrow> None = (None :: nat option) \<and> map (tc_entry c') ys = map (tc_entry demo_tm) []
     | Some a \<Rightarrow> tc_entry c' a = (7, 100) \<and>
         map (tc_entry c') ys = lru_store (max_node_num demo_tm) 7 100 (map (tc_entry demo_tm) []))"
  by (rule tm_cache_insert_stores [OF demo_tm_ok(1) no_malloc])

theorem tm_cache_search_finds_witness:
  "\<exists>cs ys. cache_ok (snd (tm_cache_search 7 demo_tm1)) cs ys \<and>
    map_option (\<lambda>a. tn_timestamp (tc_nodes (snd (tm_cache_search 7 demo_tm1)) a))
      (fst (tm_cache_search 7 demo_tm1)) = Some 100"
proof -
  obtain cs xs where x: "cache_ok demo_tm1 cs xs" "map (tc_entry demo_tm1) xs = [(7, 100)]"
    using demo_tm1_ok by auto
  obtain r c' where r: "tm_cache_search 7 demo_tm1 = (r, c')" by force
  obtain ys where "cache_ok c' cs ys"
      "lru_find 7 [(7, 100)] = (map_option (\<lambda>a. tn_timestamp (tc_nodes c' a)) r, map (tc_entry c') ys)"
    using tm_cache_search_finds [OF x(1) r] unfolding x(2) by (elim exE conjE) (rule that)
  moreover have "fst (lru_find 7 [(7, 100)]) = Some 100" by (simp add: lru_find_def)
  ultimately have "cache_ok c' cs ys" "map_option (\<lambda>a. tn_timestamp (tc_nodes c' a)) r = Some 100"
    by simp_all
  with r show ?thesis by (intro exI [of _ cs] exI [of _ ys]) (simp del: map_option_eq_Some)
qed

theorem tm_cache_destroy_frees_all_witness:
  "\<exists>cs. tm_cache_destroy 9 demo_tm1 = Some cs \<and> distinct cs"
proof -
  obtain cs xs where x: "cache_ok demo_tm1 cs xs" "length xs < 9" "length cs < 9"
    using demo_tm1_ok by blast
  from tm_cache_destroy_frees_all [OF x] show ?thesis by blast
qed

end
