(* ===== verification/Uvalue.thy ===== *)
theory Uvalue
  imports Prelude "HOL-Library.AList"
begin

text \<open>
  The key-value files of the timestamp service (\<^verbatim>\<open>uvalue/c_uvalue.cpp\<close>, class \<^verbatim>\<open>c_uvalue\<close>): a thin
  layer over Berkeley DB with its own error state, and the merging of two files. Berkeley DB
  is a parameter: the operations on a file, with their return codes. What it documents of
  them is \<open>bdb_ok\<close>. Proved: what each operation does to the contents of the file, what a merge
  computes, and that every failure is recorded and, for a single operation, changes nothing.
\<close>

section \<open>Berkeley DB\<close>

datatype db_ret = DB_OK | DB_NOTFOUND | DB_KEYEXIST | DB_ERR int

text \<open>A cursor over a file delivers entries and then a code (\<open>DB_NOTFOUND\<close> at the end of the file).
  Storing with \<open>True\<close> does not overwrite.\<close>

record 'd bdb =
  bd_get :: "'d \<Rightarrow> byte list \<Rightarrow> db_ret \<times> byte list"
  bd_put :: "'d \<Rightarrow> byte list \<Rightarrow> byte list \<Rightarrow> bool \<Rightarrow> db_ret \<times> 'd"
  bd_del :: "'d \<Rightarrow> byte list \<Rightarrow> db_ret \<times> 'd"
  bd_scan :: "'d \<Rightarrow> (byte list \<times> byte list) list \<times> db_ret"

definition bdb_ok :: "'d bdb \<Rightarrow> ('d \<Rightarrow> byte list \<Rightarrow> byte list option) \<Rightarrow> bool" where
  "bdb_ok db C \<longleftrightarrow>
     (\<forall>d k r v. bd_get db d k = (r, v) \<longrightarrow>
        (r = DB_OK \<longrightarrow> C d k = Some v) \<and> (r = DB_NOTFOUND \<longrightarrow> C d k = None)) \<and>
     (\<forall>d k v n r d'. bd_put db d k v n = (r, d') \<longrightarrow>
        (if r = DB_OK then C d' = (C d)(k \<mapsto> v) \<and> (n \<longrightarrow> C d k = None) else C d' = C d) \<and>
        (r = DB_KEYEXIST \<longrightarrow> n \<and> C d k \<noteq> None)) \<and>
     (\<forall>d k r d'. bd_del db d k = (r, d') \<longrightarrow>
        (if r = DB_OK then C d' = (C d)(k := None) else C d' = C d)) \<and>
     (\<forall>d es r. bd_scan db d = (es, r) \<longrightarrow> r \<noteq> DB_OK \<and> distinct (map fst es) \<and>
        (\<forall>k v. (k, v) \<in> set es \<longrightarrow> C d k = Some v) \<and>
        (r = DB_NOTFOUND \<longrightarrow> C d = map_of es))"

section \<open>The object\<close>

definition MAX_BUFFER :: nat where "MAX_BUFFER = 4096 * 1024"

record 'd uvalue =
  m_pdb :: 'd
  m_errno :: db_ret
  m_myerrno :: int
  m_init :: bool

type_synonym value_opcode = "byte list \<Rightarrow> byte list \<Rightarrow> nat \<Rightarrow> byte list option"

definition fail :: "int \<Rightarrow> db_ret \<Rightarrow> 'd uvalue \<Rightarrow> int \<times> 'd uvalue" where
  "fail my e u = (-1, u\<lparr>m_myerrno := my, m_errno := e\<rparr>)"

text \<open>\<^verbatim>\<open>put\<close>, \<^verbatim>\<open>del\<close> and what follows them everywhere.\<close>

definition uv_put :: "'d bdb \<Rightarrow> byte list \<Rightarrow> byte list \<Rightarrow> bool \<Rightarrow> 'd uvalue \<Rightarrow> int \<times> 'd uvalue" where
  "uv_put db k v no_over u =
     (case bd_put db (m_pdb u) k v no_over of
        (r, d) \<Rightarrow> if r \<noteq> DB_OK then fail 0 r (u\<lparr>m_pdb := d\<rparr>) else (0, u\<lparr>m_pdb := d\<rparr>))"

definition uv_insert :: "'d bdb \<Rightarrow> byte list \<Rightarrow> byte list \<Rightarrow> 'd uvalue \<Rightarrow> int \<times> 'd uvalue" where
  "uv_insert db k v u = (if \<not> m_init u then fail 8 DB_OK u else uv_put db k v True u)"

definition uv_replace ::
  "'d bdb \<Rightarrow> byte list \<Rightarrow> byte list \<Rightarrow> byte list \<Rightarrow> value_opcode option \<Rightarrow> 'd uvalue \<Rightarrow> int \<times> 'd uvalue" where
  "uv_replace db k old v opc u =
     (case opc of
        None \<Rightarrow> uv_put db k v False u
      | Some f \<Rightarrow>
          (case f old v MAX_BUFFER of
             None \<Rightarrow> fail 1 DB_OK u
           | Some x \<Rightarrow> uv_put db k x False u))"

definition uv_update ::
  "'d bdb \<Rightarrow> byte list \<Rightarrow> byte list \<Rightarrow> value_opcode option \<Rightarrow> 'd uvalue \<Rightarrow> int \<times> 'd uvalue" where
  "uv_update db k v opc u =
     (if \<not> m_init u then fail 8 DB_OK u
      else case bd_get db (m_pdb u) k of
          (DB_OK, old) \<Rightarrow> uv_replace db k old v opc u
        | (r, _) \<Rightarrow> fail 0 r u)"

definition uv_set ::
  "'d bdb \<Rightarrow> byte list \<Rightarrow> byte list \<Rightarrow> value_opcode option \<Rightarrow> 'd uvalue \<Rightarrow> int \<times> 'd uvalue" where
  "uv_set db k v opc u =
     (if \<not> m_init u then fail 8 DB_OK u
      else case bd_get db (m_pdb u) k of
          (DB_NOTFOUND, _) \<Rightarrow> uv_put db k v False u
        | (DB_OK, old) \<Rightarrow> uv_replace db k old v opc u
        | (r, _) \<Rightarrow> fail 0 r u)"

text \<open>The result: return code, the bytes written to the buffer (if there is one), the new value of the
  size argument (if there is one).\<close>

definition uv_get ::
  "'d bdb \<Rightarrow> byte list \<Rightarrow> bool \<Rightarrow> nat option \<Rightarrow> 'd uvalue \<Rightarrow>
   (int \<times> byte list \<times> nat option) \<times> 'd uvalue" where
  "uv_get db k has_buf bsize u =
     (if \<not> m_init u then ((-1, [], bsize), snd (fail 8 DB_OK u))
      else case bd_get db (m_pdb u) k of
          (DB_NOTFOUND, _) \<Rightarrow> ((1, [], bsize), u)
        | (DB_OK, dat) \<Rightarrow>
            (case bsize of
               None \<Rightarrow> ((0, [], None), u)
             | Some n \<Rightarrow>
                 ((0, if has_buf then take (if length dat > n then n else length dat) dat else [],
                   Some (length dat)), u))
        | (r, _) \<Rightarrow> ((-1, [], bsize), snd (fail 0 r u)))"

definition uv_del :: "'d bdb \<Rightarrow> byte list \<Rightarrow> 'd uvalue \<Rightarrow> int \<times> 'd uvalue" where
  "uv_del db k u =
     (if \<not> m_init u then fail 8 DB_OK u
      else case bd_del db (m_pdb u) k of
          (r, d) \<Rightarrow> if r \<noteq> DB_OK then fail 0 r (u\<lparr>m_pdb := d\<rparr>) else (0, u\<lparr>m_pdb := d\<rparr>))"

fun is_zero :: "byte list \<Rightarrow> bool" where
  "is_zero [] = True"
| "is_zero (b # bs) = (if b \<noteq> 0 then False else is_zero bs)"

text \<open>The count is written (\<open>Some\<close>) only when the file is not empty.\<close>

definition uv_get_key_count :: "'d bdb \<Rightarrow> bool \<Rightarrow> 'd uvalue \<Rightarrow> (int \<times> nat option) \<times> 'd uvalue" where
  "uv_get_key_count db skip_zero u =
     (if \<not> m_init u then ((-1, None), snd (fail 8 DB_OK u))
      else case bd_scan db (m_pdb u) of
          ([], r) \<Rightarrow> if r = DB_NOTFOUND then ((0, None), u) else ((-1, None), snd (fail 0 r u))
        | (es, r) \<Rightarrow>
            let count = length (filter (\<lambda>e. \<not> (skip_zero \<and> is_zero (snd e))) es)
            in if r \<noteq> DB_NOTFOUND then ((-1, None), snd (fail 0 r u)) else ((0, Some count), u))"

text \<open>The callback has a state of its own; it stops the traversal with a result other than 0.\<close>

fun uv_visit ::
  "(byte list \<Rightarrow> byte list \<Rightarrow> 'u \<Rightarrow> int \<times> 'u) \<Rightarrow> (byte list \<times> byte list) list \<Rightarrow> 'u \<Rightarrow> bool \<times> 'u" where
  "uv_visit cb [] s = (True, s)"
| "uv_visit cb ((k, v) # es) s =
     (case cb k v s of (r, s1) \<Rightarrow> if r \<noteq> 0 then (False, s1) else uv_visit cb es s1)"

definition uv_traverse ::
  "'d bdb \<Rightarrow> (byte list \<Rightarrow> byte list \<Rightarrow> 'u \<Rightarrow> int \<times> 'u) \<Rightarrow> 'u \<Rightarrow> 'd uvalue \<Rightarrow> (int \<times> 'd uvalue) \<times> 'u" where
  "uv_traverse db cb s u =
     (if \<not> m_init u then (fail 8 DB_OK u, s)
      else case bd_scan db (m_pdb u) of
          (es, r) \<Rightarrow>
            (case uv_visit cb es s of
               (False, s1) \<Rightarrow> (fail 3 DB_OK u, s1)
             | (True, s1) \<Rightarrow> ((if r \<noteq> DB_NOTFOUND then fail 0 r u else (0, u)), s1)))"

section \<open>Merging with another file\<close>

datatype key_opcode = INTERSECT | EXCEPT | UNION | Other_opcode

text \<open>The loops over the entries of a cursor; \<open>r\<close> is the code at its end. The result tells whether the
  loop ended well. A null \<open>value_opcode\<close> is called when two values meet: \<open>None\<close>.\<close>

definition mfail :: "int \<Rightarrow> db_ret \<Rightarrow> 'd uvalue \<Rightarrow> (bool \<times> 'd uvalue) option" where
  "mfail my e u = Some (False, snd (fail my e u))"

fun uv_intersect ::
  "'d bdb \<Rightarrow> value_opcode option \<Rightarrow> 'd \<Rightarrow> db_ret \<Rightarrow> (byte list \<times> byte list) list \<Rightarrow> 'd uvalue \<Rightarrow>
   (bool \<times> 'd uvalue) option" where
  "uv_intersect db opc other r [] u = (if r \<noteq> DB_NOTFOUND then mfail 0 r u else Some (True, u))"
| "uv_intersect db opc other r ((k, v) # es) u =
     (case bd_get db other k of
        (DB_OK, w) \<Rightarrow>
          (case opc of
             None \<Rightarrow> None
           | Some f \<Rightarrow>
               (case f v w MAX_BUFFER of
                  None \<Rightarrow> mfail 5 DB_OK u
                | Some x \<Rightarrow>
                    (case bd_put db (m_pdb u) k x False of
                       (DB_OK, d) \<Rightarrow> uv_intersect db opc other r es (u\<lparr>m_pdb := d\<rparr>)
                     | (e, d) \<Rightarrow> mfail 0 e (u\<lparr>m_pdb := d\<rparr>))))
      | (DB_NOTFOUND, _) \<Rightarrow>
          (case bd_del db (m_pdb u) k of
             (DB_OK, d) \<Rightarrow> uv_intersect db opc other r es (u\<lparr>m_pdb := d\<rparr>)
           | (e, d) \<Rightarrow> mfail 0 e (u\<lparr>m_pdb := d\<rparr>))
      | (e, _) \<Rightarrow> mfail 0 e u)"

fun uv_except ::
  "'d bdb \<Rightarrow> 'd \<Rightarrow> db_ret \<Rightarrow> (byte list \<times> byte list) list \<Rightarrow> 'd uvalue \<Rightarrow> (bool \<times> 'd uvalue) option" where
  "uv_except db other r [] u = (if r \<noteq> DB_NOTFOUND then mfail 0 r u else Some (True, u))"
| "uv_except db other r ((k, v) # es) u =
     (case bd_get db other k of
        (DB_OK, w) \<Rightarrow>
          (case bd_del db (m_pdb u) k of
             (DB_OK, d) \<Rightarrow> uv_except db other r es (u\<lparr>m_pdb := d\<rparr>)
           | (e, d) \<Rightarrow> mfail 0 e (u\<lparr>m_pdb := d\<rparr>))
      | (DB_NOTFOUND, _) \<Rightarrow> uv_except db other r es u
      | (e, _) \<Rightarrow> mfail 0 e u)"

fun uv_union ::
  "'d bdb \<Rightarrow> value_opcode option \<Rightarrow> db_ret \<Rightarrow> (byte list \<times> byte list) list \<Rightarrow> 'd uvalue \<Rightarrow>
   (bool \<times> 'd uvalue) option" where
  "uv_union db opc r [] u = (if r \<noteq> DB_NOTFOUND then mfail 0 r u else Some (True, u))"
| "uv_union db opc r ((k, w) # es) u =
     (case bd_get db (m_pdb u) k of
        (DB_OK, v) \<Rightarrow>
          (case opc of
             None \<Rightarrow> None
           | Some f \<Rightarrow>
               (case f v w MAX_BUFFER of
                  None \<Rightarrow> mfail 6 DB_OK u
                | Some x \<Rightarrow>
                    (case bd_put db (m_pdb u) k x False of
                       (DB_OK, d) \<Rightarrow> uv_union db opc r es (u\<lparr>m_pdb := d\<rparr>)
                     | (e, d) \<Rightarrow> mfail 0 e (u\<lparr>m_pdb := d\<rparr>))))
      | (DB_NOTFOUND, _) \<Rightarrow>
          (case bd_put db (m_pdb u) k w False of
             (DB_OK, d) \<Rightarrow> uv_union db opc r es (u\<lparr>m_pdb := d\<rparr>)
           | (e, d) \<Rightarrow> mfail 0 e (u\<lparr>m_pdb := d\<rparr>))
      | (e, _) \<Rightarrow> mfail 0 e u)"

text \<open>The other file is opened by name: \<open>Inl\<close> the code of a failure.\<close>

definition uv_merge ::
  "'d bdb \<Rightarrow> db_ret + 'd \<Rightarrow> key_opcode \<Rightarrow> value_opcode option \<Rightarrow> 'd uvalue \<Rightarrow> (int \<times> 'd uvalue) option" where
  "uv_merge db opened kop opc u =
     (if \<not> m_init u then Some (fail 8 DB_OK u)
      else case opened of
          Inl e \<Rightarrow> Some (fail 0 e u)
        | Inr other \<Rightarrow>
            map_option (\<lambda>(ok, u'). (if ok then 0 else -1, u'))
              (case kop of
                 INTERSECT \<Rightarrow> (case bd_scan db (m_pdb u) of (es, r) \<Rightarrow> uv_intersect db opc other r es u)
               | EXCEPT \<Rightarrow> (case bd_scan db (m_pdb u) of (es, r) \<Rightarrow> uv_except db other r es u)
               | UNION \<Rightarrow> (case bd_scan db other of (es, r) \<Rightarrow> uv_union db opc r es u)
               | Other_opcode \<Rightarrow> mfail 4 DB_OK u))"

text \<open>The text for the last error; \<open>strerror\<close> is Berkeley DB's.\<close>

definition uv_get_last_errstr :: "(db_ret \<Rightarrow> string) \<Rightarrow> 'd uvalue \<Rightarrow> string" where
  "uv_get_last_errstr strerror u =
     (if m_myerrno u = 1 then ''set function: value_opcode error''
      else if m_myerrno u = 3 then ''traverse function: cb_traverse error''
      else if m_myerrno u = 4 then ''merge function: opcode is invalid''
      else if m_myerrno u = 5 then ''merge function: [INTERSECT] value_opcode error''
      else if m_myerrno u = 6 then ''merge function: [UNION] value_opcode error''
      else if m_myerrno u = 7 then ''init have run''
      else if m_myerrno u = 8 then ''uninit before call''
      else if m_myerrno u = 10 then ''ucount get_ucount return error''
      else strerror (m_errno u))"

definition uv_uninit :: "'d uvalue \<Rightarrow> int \<times> 'd uvalue" where
  "uv_uninit u = (0, u\<lparr>m_init := False\<rparr>)"

text \<open>\<open>created\<close> and \<open>opened\<close> are the codes of \<^verbatim>\<open>db_create\<close> and \<^verbatim>\<open>open\<close>; neither tree nor hash asked for
  leaves the type of the file undefined, and a name of 1024 characters or more overflows.\<close>

definition uv_open ::
  "nat \<Rightarrow> bool \<Rightarrow> bool \<Rightarrow> db_ret \<Rightarrow> db_ret \<times> 'd \<Rightarrow> 'd uvalue \<Rightarrow> (int \<times> 'd uvalue) option" where
  "uv_open name_len btree hash created opened u =
     (if m_init u then Some (1, u\<lparr>m_myerrno := 7, m_errno := DB_OK\<rparr>)
      else if 1024 \<le> name_len then None
      else if created \<noteq> DB_OK then
        Some (-1, snd (uv_uninit (u\<lparr>m_myerrno := 0, m_errno := created\<rparr>)))
      else if \<not> btree \<and> \<not> hash then None
      else if fst opened \<noteq> DB_OK then
        Some (-1, snd (uv_uninit (u\<lparr>m_myerrno := 0, m_errno := fst opened\<rparr>)))
      else Some (0, u\<lparr>m_pdb := snd opened, m_init := True\<rparr>))"

section \<open>What single operations do to the contents\<close>

lemma bdb_get:
  "bdb_ok db C \<Longrightarrow> bd_get db d k = (DB_OK, v) \<Longrightarrow> C d k = Some v"
  "bdb_ok db C \<Longrightarrow> bd_get db d k = (DB_NOTFOUND, v) \<Longrightarrow> C d k = None"
  by (auto simp: bdb_ok_def)

lemma bdb_put:
  "bdb_ok db C \<Longrightarrow> bd_put db d k v n = (DB_OK, d') \<Longrightarrow> C d' = (C d)(k \<mapsto> v) \<and> (n \<longrightarrow> C d k = None)"
  "bdb_ok db C \<Longrightarrow> bd_put db d k v n = (r, d') \<Longrightarrow> r \<noteq> DB_OK \<Longrightarrow> C d' = C d"
  unfolding bdb_ok_def by (metis (full_types))+

lemma bdb_del:
  "bdb_ok db C \<Longrightarrow> bd_del db d k = (DB_OK, d') \<Longrightarrow> C d' = (C d)(k := None)"
  "bdb_ok db C \<Longrightarrow> bd_del db d k = (r, d') \<Longrightarrow> r \<noteq> DB_OK \<Longrightarrow> C d' = C d"
  unfolding bdb_ok_def by (metis (full_types))+

lemma bdb_scan:
  assumes "bdb_ok db C" "bd_scan db d = (es, r)"
  shows "distinct (map fst es)" "r = DB_NOTFOUND \<Longrightarrow> C d = map_of es"
proof -
  have "\<forall>d es r. bd_scan db d = (es, r) \<longrightarrow> r \<noteq> DB_OK \<and> distinct (map fst es) \<and>
        (\<forall>k v. (k, v) \<in> set es \<longrightarrow> C d k = Some v) \<and> (r = DB_NOTFOUND \<longrightarrow> C d = map_of es)"
    using assms(1) unfolding bdb_ok_def by (elim conjE)
  from this [rule_format, OF assms(2)]
  show "distinct (map fst es)" "r = DB_NOTFOUND \<Longrightarrow> C d = map_of es" by auto
qed

text \<open>An operation that returns 0 does \<open>f\<close> to the contents; one that returns -1 changes nothing and
  records an error.\<close>

definition does ::
  "('d \<Rightarrow> byte list \<Rightarrow> byte list option) \<Rightarrow> 'd uvalue \<Rightarrow> int \<times> 'd uvalue \<Rightarrow>
   ((byte list \<Rightarrow> byte list option) \<Rightarrow> (byte list \<Rightarrow> byte list option) \<Rightarrow> bool) \<Rightarrow> bool" where
  "does C u p R \<longleftrightarrow> m_init (snd p) = m_init u \<and>
     (fst p = 0 \<and> m_init u \<and> R (C (m_pdb u)) (C (m_pdb (snd p))) \<or>
      fst p = -1 \<and> C (m_pdb (snd p)) = C (m_pdb u) \<and>
        (m_errno (snd p) \<noteq> DB_OK \<or> m_myerrno (snd p) \<noteq> 0))"

lemma does_put:
  assumes "bdb_ok db C" "m_init u" "(no_over \<Longrightarrow> C (m_pdb u) k = None) \<Longrightarrow>
    R (C (m_pdb u)) ((C (m_pdb u))(k \<mapsto> v))"
  shows "does C u (uv_put db k v no_over u) R"
proof -
  obtain r d where p: "bd_put db (m_pdb u) k v no_over = (r, d)" by force
  with bdb_put [OF assms(1)] assms(2,3) show ?thesis
    by (cases "r = DB_OK") (auto simp: does_def uv_put_def fail_def)
qed

lemma does_fail: "my \<noteq> 0 \<or> e \<noteq> DB_OK \<Longrightarrow> does C u (fail my e u) R"
  by (auto simp: does_def fail_def)

definition new_value :: "value_opcode option \<Rightarrow> byte list \<Rightarrow> byte list \<Rightarrow> byte list option" where
  "new_value opc old v = (case opc of None \<Rightarrow> Some v | Some f \<Rightarrow> f old v MAX_BUFFER)"

lemma does_replace:
  assumes "bdb_ok db C" "m_init u" "\<And>x. new_value opc old v = Some x \<Longrightarrow> R (C (m_pdb u)) ((C (m_pdb u))(k \<mapsto> x))"
  shows "does C u (uv_replace db k old v opc u) R"
  using assms
  by (auto simp: uv_replace_def new_value_def intro!: does_put does_fail split: option.splits)

text \<open>C26: The single operations on a file: an insert stores a new key only, an update changes an existing
  one only, a set does either, a delete removes the key; an operation that fails changes nothing and
  leaves an error for \<open>get_last_errstr\<close>.\<close>

theorem uvalue_operations:
  assumes "bdb_ok db C"
  shows "does C u (uv_insert db k v u) (\<lambda>m m'. m k = None \<and> m' = m(k \<mapsto> v)) \<and>
    does C u (uv_update db k v opc u)
      (\<lambda>m m'. \<exists>old x. m k = Some old \<and> new_value opc old v = Some x \<and> m' = m(k \<mapsto> x)) \<and>
    does C u (uv_set db k v opc u)
      (\<lambda>m m'. case m k of None \<Rightarrow> m' = m(k \<mapsto> v)
                | Some old \<Rightarrow> (\<exists>x. new_value opc old v = Some x \<and> m' = m(k \<mapsto> x))) \<and>
    does C u (uv_del db k u) (\<lambda>m m'. m' = m(k := None))"
proof (cases "m_init u")
  case False
  then show ?thesis
    by (simp add: uv_insert_def uv_update_def uv_set_def uv_del_def does_fail)
next
  case True
  obtain r old where g: "bd_get db (m_pdb u) k = (r, old)" by force
  note get = bdb_get [OF assms, of "m_pdb u" k old]
  have "does C u (uv_insert db k v u) (\<lambda>m m'. m k = None \<and> m' = m(k \<mapsto> v))"
    using True by (auto simp: uv_insert_def intro: does_put [OF assms])
  moreover have "does C u (uv_update db k v opc u)
      (\<lambda>m m'. \<exists>old x. m k = Some old \<and> new_value opc old v = Some x \<and> m' = m(k \<mapsto> x))"
    using True g get by (cases r) (auto simp: uv_update_def intro!: does_replace [OF assms] does_fail)
  moreover have "does C u (uv_set db k v opc u)
      (\<lambda>m m'. case m k of None \<Rightarrow> m' = m(k \<mapsto> v)
                | Some old \<Rightarrow> (\<exists>x. new_value opc old v = Some x \<and> m' = m(k \<mapsto> x)))"
    using True g get
    by (cases r) (auto simp: uv_set_def intro!: does_put [OF assms] does_replace [OF assms] does_fail)
  moreover have "does C u (uv_del db k u) (\<lambda>m m'. m' = m(k := None))"
  proof -
    obtain e d where p: "bd_del db (m_pdb u) k = (e, d)" by force
    with bdb_del [OF assms] True show ?thesis
      by (cases "e = DB_OK") (auto simp: does_def uv_del_def fail_def)
  qed
  ultimately show ?thesis by blast
qed

section \<open>What a merge computes\<close>

definition merged ::
  "key_opcode \<Rightarrow> value_opcode option \<Rightarrow> (byte list \<Rightarrow> byte list option) \<Rightarrow> (byte list \<Rightarrow> byte list option) \<Rightarrow>
   byte list \<Rightarrow> byte list option" where
  "merged kop opc m n k =
     (case kop of
        INTERSECT \<Rightarrow> (case (m k, n k) of (Some v, Some w) \<Rightarrow> the opc v w MAX_BUFFER | _ \<Rightarrow> None)
      | EXCEPT \<Rightarrow> (if n k = None then m k else None)
      | UNION \<Rightarrow> (case (m k, n k) of
            (Some v, Some w) \<Rightarrow> the opc v w MAX_BUFFER
          | (None, w) \<Rightarrow> w
          | (v, None) \<Rightarrow> v)
      | Other_opcode \<Rightarrow> m k)"

lemma intersect_contents:
  assumes "bdb_ok db C"
  shows "uv_intersect db opc other r es u = Some (True, u') \<Longrightarrow> distinct (map fst es) \<Longrightarrow>
    (\<forall>k v. (k, v) \<in> set es \<longrightarrow> C (m_pdb u) k = Some v) \<Longrightarrow>
    r = DB_NOTFOUND \<and> m_init u' = m_init u \<and>
    C (m_pdb u') = (\<lambda>k. if k \<in> fst ` set es then merged INTERSECT opc (C (m_pdb u)) (C other) k
                        else C (m_pdb u) k)"
proof (induction es arbitrary: u)
  case Nil
  then show ?case by (auto simp: mfail_def split: if_splits)
next
  case (Cons e es)
  obtain k v where e: "e = (k, v)" by (cases e)
  obtain q w where g: "bd_get db other k = (q, w)" by force
  note get = bdb_get [OF assms, of other k w]
  have fresh: "k \<notin> fst ` set es" using Cons.prems(2) e by simp
  consider f x d where "q = DB_OK" "opc = Some f" "f v w MAX_BUFFER = Some x"
      "bd_put db (m_pdb u) k x False = (DB_OK, d)" "uv_intersect db opc other r es (u\<lparr>m_pdb := d\<rparr>) = Some (True, u')"
    | d where "q = DB_NOTFOUND" "bd_del db (m_pdb u) k = (DB_OK, d)"
      "uv_intersect db opc other r es (u\<lparr>m_pdb := d\<rparr>) = Some (True, u')"
    using Cons.prems(1) e g
    by (auto simp: mfail_def split: db_ret.splits option.splits prod.splits)
  then show ?case
  proof cases
    case 1
    then have c: "C d = (C (m_pdb u))(k \<mapsto> x)" using bdb_put(1) [OF assms] by blast
    have p: "\<forall>k' v'. (k', v') \<in> set es \<longrightarrow> C (m_pdb (u\<lparr>m_pdb := d\<rparr>)) k' = Some v'"
      using Cons.prems(3) fresh c by force
    from Cons.IH [OF 1(5) _ p] Cons.prems(2,3) 1 c e g get fresh show ?thesis
      by (auto simp: merged_def fun_eq_iff)
  next
    case 2
    then have c: "C d = (C (m_pdb u))(k := None)" using bdb_del(1) [OF assms] by blast
    have p: "\<forall>k' v'. (k', v') \<in> set es \<longrightarrow> C (m_pdb (u\<lparr>m_pdb := d\<rparr>)) k' = Some v'"
      using Cons.prems(3) fresh c by force
    from Cons.IH [OF 2(3) _ p] Cons.prems(2,3) 2 c e g get fresh show ?thesis
      by (auto simp: merged_def fun_eq_iff split: option.splits)
  qed
qed

lemma except_contents:
  assumes "bdb_ok db C"
  shows "uv_except db other r es u = Some (True, u') \<Longrightarrow> distinct (map fst es) \<Longrightarrow>
    r = DB_NOTFOUND \<and> m_init u' = m_init u \<and>
    C (m_pdb u') = (\<lambda>k. if k \<in> fst ` set es then merged EXCEPT opc (C (m_pdb u)) (C other) k
                        else C (m_pdb u) k)"
proof (induction es arbitrary: u)
  case Nil
  then show ?case by (auto simp: mfail_def split: if_splits)
next
  case (Cons e es)
  obtain k v where e: "e = (k, v)" by (cases e)
  obtain q w where g: "bd_get db other k = (q, w)" by force
  note get = bdb_get [OF assms, of other k w]
  have fresh: "k \<notin> fst ` set es" using Cons.prems(2) e by simp
  consider d where "q = DB_OK" "bd_del db (m_pdb u) k = (DB_OK, d)"
      "uv_except db other r es (u\<lparr>m_pdb := d\<rparr>) = Some (True, u')"
    | "q = DB_NOTFOUND" "uv_except db other r es u = Some (True, u')"
    using Cons.prems(1) e g
    by (auto simp: mfail_def split: db_ret.splits prod.splits)
  then show ?case
  proof cases
    case 1
    then have c: "C d = (C (m_pdb u))(k := None)" using bdb_del(1) [OF assms] by blast
    from Cons.IH [OF 1(3)] Cons.prems(2) 1 c e g get fresh show ?thesis
      by (auto simp: merged_def fun_eq_iff)
  next
    case 2
    from Cons.IH [OF 2(2)] Cons.prems(2) 2 e g get fresh show ?thesis
      by (auto simp: merged_def fun_eq_iff)
  qed
qed

lemma union_contents:
  assumes "bdb_ok db C"
  shows "uv_union db opc r es u = Some (True, u') \<Longrightarrow> distinct (map fst es) \<Longrightarrow>
    r = DB_NOTFOUND \<and> m_init u' = m_init u \<and>
    C (m_pdb u') = merged UNION opc (C (m_pdb u)) (map_of es)"
proof (induction es arbitrary: u)
  case Nil
  then show ?case by (auto simp: mfail_def merged_def fun_eq_iff split: if_splits option.splits)
next
  case (Cons e es)
  obtain k w where e: "e = (k, w)" by (cases e)
  obtain q v where g: "bd_get db (m_pdb u) k = (q, v)" by force
  note get = bdb_get [OF assms, of "m_pdb u" k v]
  have fresh: "map_of es k = None" using Cons.prems(2) e by (simp add: map_of_eq_None_iff)
  consider f x d where "q = DB_OK" "opc = Some f" "f v w MAX_BUFFER = Some x"
      "bd_put db (m_pdb u) k x False = (DB_OK, d)" "uv_union db opc r es (u\<lparr>m_pdb := d\<rparr>) = Some (True, u')"
    | d where "q = DB_NOTFOUND" "bd_put db (m_pdb u) k w False = (DB_OK, d)"
      "uv_union db opc r es (u\<lparr>m_pdb := d\<rparr>) = Some (True, u')"
    using Cons.prems(1) e g
    by (auto simp: mfail_def split: db_ret.splits option.splits prod.splits)
  then show ?case
  proof cases
    case 1
    then have c: "C d = (C (m_pdb u))(k \<mapsto> x)" using bdb_put(1) [OF assms] by blast
    from Cons.IH [OF 1(5)] Cons.prems(2) 1 c e g get fresh show ?thesis
      by (auto simp: merged_def fun_eq_iff split: option.splits)
  next
    case 2
    then have c: "C d = (C (m_pdb u))(k \<mapsto> w)" using bdb_put(1) [OF assms] by blast
    from Cons.IH [OF 2(3)] Cons.prems(2) 2 c e g get fresh show ?thesis
      by (auto simp: merged_def fun_eq_iff split: option.splits)
  qed
qed

text \<open>A merge that succeeds leaves in the file the intersection, the difference or the union of
  the keys of both files, with the values of a key both have combined.\<close>

lemma uvalue_merge_result:
  assumes "bdb_ok db C" "uv_merge db (Inr other) kop opc u = Some (0, u')"
  shows "C (m_pdb u') = merged kop opc (C (m_pdb u)) (C other) \<and> m_init u'"
proof -
  obtain es r where s: "bd_scan db (m_pdb u) = (es, r)" by force
  obtain fs q where t: "bd_scan db other = (fs, q)" by force
  note S = bdb_scan [OF assms(1) s] and T = bdb_scan [OF assms(1) t]
  have i: "m_init u" using assms(2) by (auto simp: uv_merge_def fail_def split: if_splits)
  have dom: "k \<in> fst ` set es" if "C (m_pdb u) k \<noteq> None" "r = DB_NOTFOUND" for k
    using S(2) that by (metis map_of_eq_None_iff)
  have val: "\<forall>k v. (k, v) \<in> set es \<longrightarrow> C (m_pdb u) k = Some v"
    using assms(1) s unfolding bdb_ok_def by blast
  show ?thesis
  proof (cases kop)
    case INTERSECT
    then have "uv_intersect db opc other r es u = Some (True, u')"
      using assms(2) i s by (auto simp: uv_merge_def split: if_splits)
    note c = intersect_contents [OF assms(1) this S(1) val]
    have "C (m_pdb u') k = merged kop opc (C (m_pdb u)) (C other) k" for k
      using c dom [of k] INTERSECT by (cases "k \<in> fst ` set es") (auto simp: merged_def split: option.splits)
    with c i show ?thesis by (simp add: fun_eq_iff)
  next
    case EXCEPT
    then have "uv_except db other r es u = Some (True, u')"
      using assms(2) i s by (auto simp: uv_merge_def split: if_splits)
    note c = except_contents [OF assms(1) this S(1), of opc]
    have "C (m_pdb u') k = merged kop opc (C (m_pdb u)) (C other) k" for k
      using c dom [of k] EXCEPT by (cases "k \<in> fst ` set es") (auto simp: merged_def)
    with c i show ?thesis by (simp add: fun_eq_iff)
  next
    case UNION
    then have "uv_union db opc q fs u = Some (True, u')"
      using assms(2) i t by (auto simp: uv_merge_def split: if_splits)
    from union_contents [OF assms(1) this T(1)] T(2) i UNION show ?thesis by simp
  next
    case Other_opcode
    with assms(2) i show ?thesis by (auto simp: uv_merge_def mfail_def)
  qed
qed

section \<open>Failures\<close>

definition explained :: "'d uvalue \<Rightarrow> bool" where
  "explained u \<longleftrightarrow> m_myerrno u = 0 \<and> m_errno u \<noteq> DB_OK \<or> m_errno u = DB_OK \<and> m_myerrno u \<in> {1, 3, 4, 5, 6, 7, 8}"

lemma explained_fail:
  "fail my e u = (c, u') \<Longrightarrow> (if my = 0 then e \<noteq> DB_OK else e = DB_OK \<and> my \<in> {1, 3, 4, 5, 6, 7, 8}) \<Longrightarrow>
   c = -1 \<and> explained u'"
  by (auto simp: fail_def explained_def split: if_splits)

definition tells :: "int \<Rightarrow> 'd uvalue \<Rightarrow> bool" where
  "tells c u \<longleftrightarrow> c = 0 \<or> c = 1 \<or> c = -1 \<and> explained u"

lemma tells_simps [simp]: "tells 0 u" "tells 1 u" "tells (-1) u = explained u"
  by (simp_all add: tells_def)

lemma tells_fail [simp]:
  "explained (snd (fail my e u)) \<longleftrightarrow> my = 0 \<and> e \<noteq> DB_OK \<or> e = DB_OK \<and> my \<in> {1, 3, 4, 5, 6, 7, 8}"
  "fst (fail my e u) = -1"
  by (auto simp: fail_def explained_def)

lemma tells_put: "uv_put db k v n u = (c, u') \<Longrightarrow> tells c u'"
  by (auto simp: uv_put_def fail_def explained_def split: prod.splits if_splits)

lemma tells_replace: "uv_replace db k old v opc u = (c, u') \<Longrightarrow> tells c u'"
  by (auto simp: uv_replace_def fail_def explained_def dest!: tells_put split: option.splits)

lemma explained_intersect:
  "r \<noteq> DB_OK \<Longrightarrow> uv_intersect db opc other r es u = Some (False, u') \<Longrightarrow> explained u'"
  by (induction es arbitrary: u)
    (auto simp: mfail_def fail_def explained_def split: if_splits db_ret.splits option.splits prod.splits)

lemma explained_except:
  "r \<noteq> DB_OK \<Longrightarrow> uv_except db other r es u = Some (False, u') \<Longrightarrow> explained u'"
  by (induction es arbitrary: u)
    (auto simp: mfail_def fail_def explained_def split: if_splits db_ret.splits option.splits prod.splits)

lemma explained_union:
  "r \<noteq> DB_OK \<Longrightarrow> uv_union db opc r es u = Some (False, u') \<Longrightarrow> explained u'"
  by (induction es arbitrary: u)
    (auto simp: mfail_def fail_def explained_def split: if_splits db_ret.splits option.splits prod.splits)

lemma merge_None:
  "uv_intersect db opc other r es u = None \<Longrightarrow> opc = None"
  "uv_union db opc r es u = None \<Longrightarrow> opc = None"
  by (induction es arbitrary: u)
    (auto simp: mfail_def split: if_splits db_ret.splits option.splits prod.splits)

lemma except_total: "uv_except db other r es u \<noteq> None"
  by (induction es arbitrary: u) (auto simp: mfail_def split: db_ret.splits prod.splits)

lemma tells_merge:
  assumes "bdb_ok db C" "opened \<noteq> Inl DB_OK" "uv_merge db opened kop opc u = Some (c, u')"
  shows "tells c u'"
proof -
  have scan: "bd_scan db d = (es, r) \<Longrightarrow> r \<noteq> DB_OK" for d es r
    using assms(1) unfolding bdb_ok_def by blast
  show ?thesis
  proof (cases "m_init u \<and> (\<exists>other. opened = Inr other)")
    case False
    with assms(2,3) show ?thesis
      by (auto simp: uv_merge_def fail_def explained_def split: if_splits sum.splits)
  next
    case True
    then obtain other where i: "m_init u" "opened = Inr other" by blast
    obtain es r where s: "bd_scan db (m_pdb u) = (es, r)" by force
    obtain fs q where t: "bd_scan db other = (fs, q)" by force
    show ?thesis
      using assms(3) i s t scan [OF s] scan [OF t]
      by (cases kop)
        (auto simp: uv_merge_def mfail_def
          intro: explained_intersect [of r] explained_except [of r] explained_union [of q] split: if_splits)
  qed
qed

text \<open>Whatever operation fails, the caller learns why: every return value other than 0 and 1 is -1
  and leaves either a code of Berkeley DB or one of the class's own codes, which \<open>get_last_errstr\<close> has a
  text for; and no merge is undefined unless its value callback is null.\<close>

lemma uvalue_failures_explained:
  assumes "bdb_ok db C" "opened \<noteq> Inl DB_OK"
  shows "(uv_insert db k v u = (c, u') \<or> uv_update db k v opc u = (c, u') \<or>
     uv_set db k v opc u = (c, u') \<or> uv_del db k u = (c, u') \<or>
     (\<exists>b s. uv_get db k hb bs u = ((c, b, s), u')) \<or>
     (\<exists>n. uv_get_key_count db sk u = ((c, n), u')) \<or>
     (\<exists>s'. uv_traverse db cb s u = ((c, u'), s')) \<or>
     uv_merge db opened kop opc u = Some (c, u') \<longrightarrow> tells c u') \<and>
   (uv_merge db opened kop opc u = None \<longrightarrow> opc = None)"
proof -
  have scan: "bd_scan db d = (es, r) \<Longrightarrow> r \<noteq> DB_OK" for d es r
    using assms(1) unfolding bdb_ok_def by blast
  have "uv_insert db k v u = (c, u') \<Longrightarrow> tells c u'"
    by (auto simp: uv_insert_def fail_def explained_def dest!: tells_put split: if_splits)
  moreover have "uv_update db k v opc u = (c, u') \<Longrightarrow> tells c u'"
    by (auto simp: uv_update_def fail_def explained_def dest!: tells_replace
        split: if_splits db_ret.splits prod.splits)
  moreover have "uv_set db k v opc u = (c, u') \<Longrightarrow> tells c u'"
    by (auto simp: uv_set_def fail_def explained_def dest!: tells_put tells_replace
        split: if_splits db_ret.splits prod.splits)
  moreover have "uv_del db k u = (c, u') \<Longrightarrow> tells c u'"
    by (auto simp: uv_del_def fail_def explained_def split: if_splits prod.splits)
  moreover have "uv_get db k hb bs u = ((c, b, s), u') \<Longrightarrow> tells c u'" for b s
    by (auto simp: uv_get_def split: if_splits db_ret.splits prod.splits option.splits)
  moreover have "uv_get_key_count db sk u = ((c, n), u') \<Longrightarrow> tells c u'" for n
    by (auto simp: uv_get_key_count_def Let_def dest: scan
        split: if_splits prod.splits list.splits)
  moreover have "uv_traverse db cb s u = ((c, u'), s') \<Longrightarrow> tells c u'" for s'
    by (auto simp: uv_traverse_def fail_def explained_def dest: scan
        split: if_splits prod.splits bool.splits)
  moreover have "uv_merge db opened kop opc u = None \<Longrightarrow> opc = None"
    by (cases kop) (auto simp: uv_merge_def mfail_def except_total dest: merge_None split: if_splits prod.splits sum.splits)
  ultimately show ?thesis using tells_merge [OF assms] by blast
qed

section \<open>A file that is a map\<close>

text \<open>An association list answers as Berkeley DB does; the properties hold of it.\<close>

definition map_bdb :: "(byte list \<times> byte list) list bdb" where
  "map_bdb =
     \<lparr>bd_get = (\<lambda>d k. case map_of d k of None \<Rightarrow> (DB_NOTFOUND, []) | Some v \<Rightarrow> (DB_OK, v)),
      bd_put = (\<lambda>d k v n.
        if n \<and> map_of d k \<noteq> None then (DB_KEYEXIST, d) else (DB_OK, AList.update k v d)),
      bd_del = (\<lambda>d k. if map_of d k = None then (DB_NOTFOUND, d) else (DB_OK, AList.delete k d)),
      bd_scan = (\<lambda>d. (AList.clearjunk d, DB_NOTFOUND))\<rparr>"

lemma map_bdb_ok: "bdb_ok map_bdb map_of"
proof -
  have g: "bd_get map_bdb d k = (r, v) \<Longrightarrow>
     (r = DB_OK \<longrightarrow> map_of d k = Some v) \<and> (r = DB_NOTFOUND \<longrightarrow> map_of d k = None)" for d k r v
    by (auto simp: map_bdb_def split: option.splits)
  have p: "bd_put map_bdb d k v n = (r, d') \<Longrightarrow>
     (if r = DB_OK then map_of d' = (map_of d)(k \<mapsto> v) \<and> (n \<longrightarrow> map_of d k = None) else map_of d' = map_of d) \<and>
     (r = DB_KEYEXIST \<longrightarrow> n \<and> map_of d k \<noteq> None)" for d k v n r d'
    by (cases n; cases "map_of d k") (auto simp: map_bdb_def update_conv')
  have d: "bd_del map_bdb d k = (r, d') \<Longrightarrow>
     (if r = DB_OK then map_of d' = (map_of d)(k := None) else map_of d' = map_of d)" for d k r d'
    by (cases "map_of d k = None") (auto simp: map_bdb_def delete_conv')
  have s: "bd_scan map_bdb d = (es, r) \<Longrightarrow> r \<noteq> DB_OK \<and> distinct (map fst es) \<and>
     (\<forall>k v. (k, v) \<in> set es \<longrightarrow> map_of d k = Some v) \<and> (r = DB_NOTFOUND \<longrightarrow> map_of d = map_of es)" for d es r
  proof -
    assume "bd_scan map_bdb d = (es, r)"
    then have "es = AList.clearjunk d" "r = DB_NOTFOUND" by (simp_all add: map_bdb_def)
    moreover have "map_of (AList.clearjunk d) = map_of d" by (rule map_of_clearjunk)
    ultimately show ?thesis
      using distinct_clearjunk [of d] map_of_is_SomeI [of "AList.clearjunk d"] by auto
  qed
  show ?thesis unfolding bdb_ok_def using g p d s by blast
qed

definition demo_file :: "(byte list \<times> byte list) list uvalue" where
  "demo_file = \<lparr>m_pdb = [([1], [10]), ([2], [20])], m_errno = DB_OK, m_myerrno = 0, m_init = True\<rparr>"

lemma uvalue_operations_witness:
  "does map_of demo_file (uv_insert map_bdb [2] [5] demo_file) (\<lambda>m m'. m [2] = None \<and> m' = m([2] \<mapsto> [5])) \<and>
   fst (uv_insert map_bdb [2] [5] demo_file) = -1 \<and>
   fst (uv_set map_bdb [2] [5] None demo_file) = 0"
  using conjunct1 [OF uvalue_operations [OF map_bdb_ok, of demo_file "[2]" "[5]" None]]
  by (simp add: demo_file_def map_bdb_def uv_insert_def uv_set_def uv_put_def uv_replace_def fail_def)

lemma uvalue_merge_result_witness:
  "\<exists>u'. uv_merge map_bdb (Inr [([2], [7]), ([3], [8])]) UNION (Some (\<lambda>a b n. Some (a @ b))) demo_file = Some (0, u') \<and>
     m_init u' \<and> map_of (m_pdb u') [2] = Some [20, 7] \<and> map_of (m_pdb u') [3] = Some [8]"
proof -
  have "map_option fst (uv_merge map_bdb (Inr [([2], [7]), ([3], [8])]) UNION
      (Some (\<lambda>a b n. Some (a @ b))) demo_file) = Some 0"
    by (simp add: uv_merge_def demo_file_def map_bdb_def)
  then obtain u' where u:
    "uv_merge map_bdb (Inr [([2], [7]), ([3], [8])]) UNION (Some (\<lambda>a b n. Some (a @ b))) demo_file = Some (0, u')" by auto
  note r = uvalue_merge_result [OF map_bdb_ok u]
  have "map_of (m_pdb u') [2] = Some [20, 7]" "map_of (m_pdb u') [3] = Some [8]"
    by (simp_all add: conjunct1 [OF r] merged_def demo_file_def)
  with u conjunct2 [OF r] show ?thesis by blast
qed

lemma uvalue_failures_explained_witness:
  "uv_insert map_bdb [2] [5] demo_file = (-1, demo_file\<lparr>m_errno := DB_KEYEXIST\<rparr>) \<and>
   tells (-1) (demo_file\<lparr>m_errno := DB_KEYEXIST\<rparr>)"
proof -
  have r: "uv_insert map_bdb [2] [5] demo_file = (-1, demo_file\<lparr>m_errno := DB_KEYEXIST\<rparr>)"
    by (simp add: demo_file_def map_bdb_def uv_insert_def uv_put_def fail_def)
  moreover have "tells (-1) (demo_file\<lparr>m_errno := DB_KEYEXIST\<rparr>)"
    by (rule mp [OF conjunct1 [OF uvalue_failures_explained [OF map_bdb_ok, where opened = "Inr []"
      and k = "[2]" and v = "[5]" and u = demo_file and kop = UNION and opc = None and hb = True and
      bs = None and sk = False and cb = "\<lambda>k v s. (0, s)" and s = "()"]]]) (simp, rule disjI1, rule r)
  ultimately show ?thesis ..
qed

end
