(* ===== verification/TmServ.thy ===== *)
theory TmServ
  imports Framer TmCache Uvalue
begin

text \<open>
  The timestamp service (\<^verbatim>\<open>feed/timestamp_serv/src/server.cpp\<close>, \<^verbatim>\<open>cmd_handler.cpp\<close>, \<^verbatim>\<open>proto.h\<close>): one
  timestamp for each user, in files chosen by the user id, behind the cache. Proved: the
  framing of its messages, and that what it answers is what a plain map from users to
  timestamps answers, as long as Berkeley DB does not fail and there is memory for the cache.
\<close>

section \<open>Messages\<close>

record pkg_header =
  ph_len :: nat
  ph_seq :: nat
  ph_cmd :: nat
  ph_status :: nat
  ph_userid :: nat

definition header_size :: nat where "header_size = 18"
definition TM_MAX_BUF_LEN :: int where "TM_MAX_BUF_LEN = 4096"

definition TIMESTAMP_GET_CMD_ID :: nat where "TIMESTAMP_GET_CMD_ID = 8193"
definition TIMESTAMP_SET_CMD_ID :: nat where "TIMESTAMP_SET_CMD_ID = 8194"
definition SYS_DB_ERR :: nat where "SYS_DB_ERR = 1002"
definition SYS_PKG_ILLEGAL :: nat where "SYS_PKG_ILLEGAL = 1006"
definition SYS_CMDID_NOFIND :: nat where "SYS_CMDID_NOFIND = 1007"
definition SYS_USERID_NOFIND :: nat where "SYS_USERID_NOFIND = 1014"

definition read_header :: "byte list \<Rightarrow> pkg_header" where
  "read_header bs =
     \<lparr>ph_len = rd_le 0 4 bs, ph_seq = rd_le 4 4 bs, ph_cmd = rd_le 8 2 bs,
      ph_status = rd_le 10 4 bs, ph_userid = rd_le 14 4 bs\<rparr>"

definition header_bytes :: "pkg_header \<Rightarrow> byte list" where
  "header_bytes h =
     to_le 4 (ph_len h) @ to_le 4 (ph_seq h) @ to_le 2 (ph_cmd h) @ to_le 4 (ph_status h) @
     to_le 4 (ph_userid h)"

text \<open>The order of the keys in the files: a difference of unsigned numbers as an \<open>int\<close>.\<close>

definition userid_compare_func :: "32 word \<Rightarrow> 32 word \<Rightarrow> int" where
  "userid_compare_func a b = sint (a - b)"

definition handle_input :: "byte list \<Rightarrow> int" where
  "handle_input bs =
     (if length bs < 4 then 0
      else let pkg_len = int (rd_le 0 4 bs)
           in if pkg_len > TM_MAX_BUF_LEN then -1 else pkg_len)"

interpretation tm_input: framer handle_input
  by unfold_locales (auto simp: handle_input_def Let_def rd_le_append)

section \<open>The service\<close>

record 'd tm_serv =
  g_db_vec :: "'d uvalue option list"
  g_tm_cache :: tm_cache

text \<open>A reply is the header of the request with another length, and the bytes after it.\<close>

definition reply_bytes :: "pkg_header \<Rightarrow> byte list \<Rightarrow> byte list" where
  "reply_bytes h body = header_bytes (h\<lparr>ph_len := header_size + length body\<rparr>) @ body"

text \<open>The remainder by the number of files: with none the program divides by zero.\<close>

definition db_index :: "nat \<Rightarrow> 'd tm_serv \<Rightarrow> nat option" where
  "db_index userid st =
     (if g_db_vec st = [] then None else Some (userid mod length (g_db_vec st)))"

text \<open>A record shorter than four bytes fills \<open>value\<close>, which starts as 0, in part.\<close>

definition value_of_bytes :: "byte list \<Rightarrow> nat" where
  "value_of_bytes bs = le_nat (bs @ drop (length bs) (replicate 4 0))"

definition get_timestamp ::
  "'d bdb \<Rightarrow> nat option \<Rightarrow> byte list \<Rightarrow> 'd tm_serv \<Rightarrow> (byte list \<times> 'd tm_serv) option" where
  "get_timestamp db malloc m st =
     (let h = read_header m
      in case tm_cache_search (ph_userid h) (g_tm_cache st) of
           (Some a, c) \<Rightarrow>
             Some (reply_bytes h (to_le 4 (tn_timestamp (tc_nodes c a))), st\<lparr>g_tm_cache := c\<rparr>)
         | (None, c) \<Rightarrow>
             (case db_index (ph_userid h) st of
                None \<Rightarrow> None
              | Some i \<Rightarrow>
                  (case g_db_vec st ! i of
                     None \<Rightarrow> Some (reply_bytes (h\<lparr>ph_status := SYS_DB_ERR\<rparr>) [], st\<lparr>g_tm_cache := c\<rparr>)
                   | Some u \<Rightarrow>
                       (case uv_get db (to_le 4 (ph_userid h)) True (Some 4) u of
                          ((rt, dat, n), u') \<Rightarrow>
                            let st1 = st\<lparr>g_db_vec := (g_db_vec st)[i := Some u'], g_tm_cache := c\<rparr>
                            in if rt = -1 then
                                 Some (reply_bytes (h\<lparr>ph_status := SYS_DB_ERR\<rparr>) [], st1)
                               else if rt = 1 then
                                 Some (reply_bytes (h\<lparr>ph_status := SYS_USERID_NOFIND\<rparr>) [], st1)
                               else
                                 (case tm_cache_insert malloc (ph_userid h) (value_of_bytes dat) c of
                                    None \<Rightarrow> None
                                  | Some (r, c') \<Rightarrow>
                                      Some (reply_bytes h (to_le 4 (value_of_bytes dat)),
                                            st1\<lparr>g_tm_cache := c'\<rparr>))))))"

definition set_timestamp ::
  "'d bdb \<Rightarrow> nat option \<Rightarrow> byte list \<Rightarrow> 'd tm_serv \<Rightarrow> (byte list \<times> 'd tm_serv) option" where
  "set_timestamp db malloc m st =
     (let h = read_header m; timestamp = take 4 (drop header_size m)
      in case db_index (ph_userid h) st of
           None \<Rightarrow> None
         | Some i \<Rightarrow>
             (case g_db_vec st ! i of
                None \<Rightarrow> Some (reply_bytes (h\<lparr>ph_status := SYS_DB_ERR\<rparr>) [], st)
              | Some u \<Rightarrow>
                  (case uv_set db (to_le 4 (ph_userid h)) timestamp None u of
                     (rt, u') \<Rightarrow>
                       let st1 = st\<lparr>g_db_vec := (g_db_vec st)[i := Some u']\<rparr>
                       in if rt = -1 then
                            Some (reply_bytes (h\<lparr>ph_status := SYS_DB_ERR\<rparr>) [], st1)
                          else
                            (case tm_cache_insert malloc (ph_userid h) (le_nat timestamp) (g_tm_cache st) of
                               None \<Rightarrow> None
                             | Some (r, c') \<Rightarrow> Some (reply_bytes h [], st1\<lparr>g_tm_cache := c'\<rparr>)))))"

text \<open>A message shorter than the header is read past its end (\<open>None\<close>).\<close>

definition handle_process ::
  "'d bdb \<Rightarrow> nat option \<Rightarrow> byte list \<Rightarrow> 'd tm_serv \<Rightarrow> (byte list \<times> 'd tm_serv) option" where
  "handle_process db malloc m st =
     (if length m < header_size then None
      else
        let h = read_header m
        in if length m \<noteq> ph_len h then Some (reply_bytes (h\<lparr>ph_status := SYS_PKG_ILLEGAL\<rparr>) [], st)
           else if ph_cmd h = TIMESTAMP_GET_CMD_ID then
             if ph_len h \<noteq> header_size then Some (reply_bytes (h\<lparr>ph_status := SYS_PKG_ILLEGAL\<rparr>) [], st)
             else get_timestamp db malloc m st
           else if ph_cmd h = TIMESTAMP_SET_CMD_ID then
             if ph_len h \<noteq> header_size + 4 then Some (reply_bytes (h\<lparr>ph_status := SYS_PKG_ILLEGAL\<rparr>) [], st)
             else set_timestamp db malloc m st
           else Some (reply_bytes (h\<lparr>ph_status := SYS_CMDID_NOFIND\<rparr>) [], st))"

section \<open>Start and end\<close>

definition new_uvalue :: "'d \<Rightarrow> 'd uvalue" where
  "new_uvalue d = \<lparr>m_pdb = d, m_errno = DB_OK, m_myerrno = 0, m_init = False\<rparr>"

text \<open>A name has \<open>digits i + 11\<close> characters after the directory.\<close>

fun digits :: "nat \<Rightarrow> nat" where
  "digits n = (if n < 10 then 1 else Suc (digits (n div 10)))"

declare digits.simps [simp del]

text \<open>The files \<open>i, \<dots>, i + n - 1\<close>: \<open>created i\<close> tells that the object could be allocated, \<open>opened i\<close> what
  \<^verbatim>\<open>db_create\<close> and \<open>open\<close> give. The result is the return code so far and the vector.\<close>

fun open_dbs ::
  "nat \<Rightarrow> 'd \<Rightarrow> (nat \<Rightarrow> bool) \<Rightarrow> (nat \<Rightarrow> db_ret \<times> db_ret \<times> 'd) \<Rightarrow> nat \<Rightarrow> nat \<Rightarrow> 'd uvalue option list \<Rightarrow>
   (int \<times> 'd uvalue option list) option" where
  "open_dbs path_len d0 created opened i 0 vec = Some (0, vec)"
| "open_dbs path_len d0 created opened i (Suc n) vec =
     (if \<not> created i then Some (-1, vec)
      else case opened i of (c, o1) \<Rightarrow>
        (case uv_open (path_len + 11 + digits i) True False c o1 (new_uvalue d0) of
           None \<Rightarrow> None
         | Some (r, u) \<Rightarrow>
             if r \<noteq> 0 then Some (-1, vec)
             else open_dbs path_len d0 created opened (Suc i) n (vec @ [Some u])))"

definition handle_init ::
  "bool \<Rightarrow> int \<Rightarrow> bool \<Rightarrow> bool \<Rightarrow> nat option \<Rightarrow> int \<Rightarrow> 'd \<Rightarrow> (nat \<Rightarrow> bool) \<Rightarrow>
   (nat \<Rightarrow> db_ret \<times> db_ret \<times> 'd) \<Rightarrow> nat \<Rightarrow> nat \<Rightarrow> nat option \<Rightarrow> (nat \<Rightarrow> nat) \<Rightarrow>
   (int \<times> 'd uvalue option list \<times> tm_cache option) option" where
  "handle_init work argc ini_created ini_read path_len db_num d0 created opened page head malloc mem0 =
     (if \<not> work then Some (0, [], None)
      else if argc \<noteq> 4 \<or> \<not> ini_created \<or> \<not> ini_read then Some (-1, [], None)
      else case path_len of
          None \<Rightarrow> Some (-1, [], None)
        | Some l \<Rightarrow>
            (case open_dbs l d0 created opened 0 (nat db_num) [] of
               None \<Rightarrow> None
             | Some (r, vec) \<Rightarrow>
                 if r \<noteq> 0 then Some (-1, vec, None)
                 else (case tm_cache_create page head malloc mem0 300000 of None \<Rightarrow> Some (-1, vec, None) | Some c \<Rightarrow> Some (0, vec, Some c))))"

text \<open>Every file is closed; the memory of the cache is given back chunk by chunk.\<close>

fun close_dbs :: "'d uvalue option list \<Rightarrow> ('d uvalue list) option" where
  "close_dbs [] = Some []"
| "close_dbs (None # us) = None"
| "close_dbs (Some u # us) = map_option (Cons (snd (uv_uninit u))) (close_dbs us)"

definition handle_fini :: "bool \<Rightarrow> nat \<Rightarrow> 'd tm_serv \<Rightarrow> ('d uvalue list \<times> nat list) option" where
  "handle_fini work k st =
     (if \<not> work then Some ([], [])
      else case close_dbs (g_db_vec st) of
          None \<Rightarrow> None
        | Some us \<Rightarrow> map_option (\<lambda>chunks. (us, chunks)) (tm_cache_destroy k (g_tm_cache st)))"

section \<open>The order of the keys\<close>

text \<open>The comparison of the keys of a file tells the order of two user ids exactly when they are less
  than two to the 31 apart (or the first is smaller by just that); beyond, the difference wraps around
  and the larger id counts as the smaller.\<close>

lemma userid_compare_exact:
  "sgn (userid_compare_func a b) = sgn (uint a - uint b) \<longleftrightarrow>
     - (2 ^ 31) \<le> uint a - uint b \<and> uint a - uint b < 2 ^ 31"
proof -
  define d where "d = uint a - uint b"
  have "uint a < 4294967296" "uint b < 4294967296" "0 \<le> uint a" "0 \<le> uint b"
    using unsigned_less [of a, where 'a = int] unsigned_less [of b, where 'a = int] by simp_all
  then have r: "- 4294967296 < d" "d < 4294967296" unfolding d_def by linarith+
  have "sint (a - b) = signed_take_bit 31 (uint (a - b))" by (subst sint_uint) simp
  also have "uint (a - b) = d mod 4294967296" unfolding d_def by (simp only: uint_word_ariths) simp
  also have "signed_take_bit 31 (d mod 4294967296) = (d + 2147483648) mod 4294967296 - 2147483648"
    by (simp only: signed_take_bit_eq_take_bit_shift take_bit_eq_mod) (simp add: mod_simps)
  finally have s: "userid_compare_func a b = (d + 2147483648) mod 4294967296 - 2147483648"
    by (simp add: userid_compare_func_def)
  consider "d < - 2147483648" | "- 2147483648 \<le> d" "d < 2147483648" | "2147483648 \<le> d" by linarith
  then show ?thesis
  proof cases
    case 1
    then have "(d + 2147483648) mod 4294967296 = d + 2147483648 + 4294967296"
      using r by (subst mod_add_self2 [symmetric], intro mod_pos_pos_trivial) simp_all
    with s 1 r show ?thesis by (simp add: d_def [symmetric] sgn_if)
  next
    case 2
    then have "(d + 2147483648) mod 4294967296 = d + 2147483648" by simp
    with s 2 show ?thesis by (simp add: d_def [symmetric])
  next
    case 3
    then have "(d + 2147483648) mod 4294967296 = d + 2147483648 - 4294967296"
      using r by (subst minus_mod_self2 [symmetric], intro mod_pos_pos_trivial) simp_all
    with s 3 r show ?thesis by (simp add: d_def [symmetric] sgn_if)
  qed
qed

section \<open>What the service promises\<close>

text \<open>A map from users to timestamps, and the answers it gives.\<close>

definition tm_spec :: "byte list \<Rightarrow> (nat \<Rightarrow> nat option) \<Rightarrow> byte list \<times> (nat \<Rightarrow> nat option)" where
  "tm_spec m S =
     (let h = read_header m;
          err = \<lambda>code. (reply_bytes (h\<lparr>ph_status := code\<rparr>) [], S)
      in if length m \<noteq> ph_len h then err SYS_PKG_ILLEGAL
         else if ph_cmd h = TIMESTAMP_GET_CMD_ID then
           if ph_len h \<noteq> 18 then err SYS_PKG_ILLEGAL
           else (case S (ph_userid h) of
                   None \<Rightarrow> err SYS_USERID_NOFIND
                 | Some ts \<Rightarrow> (reply_bytes h (to_le 4 ts), S))
         else if ph_cmd h = TIMESTAMP_SET_CMD_ID then
           if ph_len h \<noteq> 22 then err SYS_PKG_ILLEGAL
           else (reply_bytes h [], S(ph_userid h \<mapsto> rd_le 18 4 m))
         else err SYS_CMDID_NOFIND)"

definition db_failed :: "byte list \<Rightarrow> byte list" where
  "db_failed m = reply_bytes (read_header m\<lparr>ph_status := SYS_DB_ERR\<rparr>) []"

definition reliable :: "'d bdb \<Rightarrow> bool" where
  "reliable db \<longleftrightarrow> (\<forall>d k. fst (bd_get db d k) \<in> {DB_OK, DB_NOTFOUND}) \<and>
     (\<forall>d k v. fst (bd_put db d k v False) = DB_OK)"

text \<open>What is stored for a user; the file it is in is chosen by the id.\<close>

definition stored :: "('d \<Rightarrow> byte list \<Rightarrow> byte list option) \<Rightarrow> 'd uvalue option list \<Rightarrow> nat \<Rightarrow> nat option" where
  "stored C vec k =
     (if k < 4294967296
      then map_option le_nat (C (m_pdb (the (vec ! (k mod length vec)))) (to_le 4 k)) else None)"

definition dbs_ok :: "('d \<Rightarrow> byte list \<Rightarrow> byte list option) \<Rightarrow> 'd uvalue option list \<Rightarrow> bool" where
  "dbs_ok C vec \<longleftrightarrow> vec \<noteq> [] \<and>
     (\<forall>i < length vec. \<exists>u. vec ! i = Some u \<and> m_init u \<and>
        (\<forall>k v. C (m_pdb u) k = Some v \<longrightarrow> length v = 4))"

definition serv_ok ::
  "('d \<Rightarrow> byte list \<Rightarrow> byte list option) \<Rightarrow> nat list \<Rightarrow> (nat \<Rightarrow> nat option) \<Rightarrow> 'd tm_serv \<Rightarrow> bool" where
  "serv_ok C cs S st \<longleftrightarrow> dbs_ok C (g_db_vec st) \<and> stored C (g_db_vec st) = S \<and>
     tm_lru.coherent_with S (g_tm_cache st) cs"

lemma user_bound: "ph_userid (read_header m) < 4294967296"
  using rd_le_bound [of 14 4 m] by (simp add: read_header_def)

lemma dbs_okD:
  assumes "dbs_ok C vec"
  obtains u where "vec ! (k mod length vec) = Some u" "k mod length vec < length vec" "m_init u"
    "\<And>key v. C (m_pdb u) key = Some v \<Longrightarrow> length v = 4"
    "k < 4294967296 \<Longrightarrow> stored C vec k = map_option le_nat (C (m_pdb u) (to_le 4 k))"
proof -
  have i: "k mod length vec < length vec" using assms by (simp add: dbs_ok_def)
  with assms obtain u where u: "vec ! (k mod length vec) = Some u" "m_init u"
      "\<forall>key v. C (m_pdb u) key = Some v \<longrightarrow> length v = 4"
    unfolding dbs_ok_def by blast
  show thesis by (rule that [OF u(1) i u(2)]) (use u in \<open>auto simp: stored_def\<close>)
qed

text \<open>One file is replaced by one whose contents are the same but for the user's record.\<close>

lemma update_file:
  assumes "dbs_ok C vec" "vec ! (k mod length vec) = Some u" "m_init u'" "k < 4294967296"
  shows "C (m_pdb u') = C (m_pdb u) \<Longrightarrow>
      dbs_ok C (vec[k mod length vec := Some u']) \<and>
      stored C (vec[k mod length vec := Some u']) = stored C vec"
    and "C (m_pdb u') = (C (m_pdb u))(to_le 4 k \<mapsto> v) \<Longrightarrow> length v = 4 \<Longrightarrow>
      dbs_ok C (vec[k mod length vec := Some u']) \<and>
      stored C (vec[k mod length vec := Some u']) = (stored C vec)(k \<mapsto> le_nat v)"
proof -
  have i: "k mod length vec < length vec" using assms(1) by (simp add: dbs_ok_def)
  have len: "C (m_pdb u) key = Some v \<Longrightarrow> length v = 4" for key v
    using assms(1,2) i unfolding dbs_ok_def by (metis option.inject)
  have inj: "x < 4294967296 \<Longrightarrow> to_le 4 x = to_le 4 k \<Longrightarrow> x = k" for x
    using to_le_inj [of 4 x k] assms(4) by simp
  show "dbs_ok C (vec[k mod length vec := Some u']) \<and>
      stored C (vec[k mod length vec := Some u']) = stored C vec" if "C (m_pdb u') = C (m_pdb u)"
    using assms i len that
    by (auto simp: dbs_ok_def stored_def nth_list_update fun_eq_iff)
  show "dbs_ok C (vec[k mod length vec := Some u']) \<and>
      stored C (vec[k mod length vec := Some u']) = (stored C vec)(k \<mapsto> le_nat v)"
    if "C (m_pdb u') = (C (m_pdb u))(to_le 4 k \<mapsto> v)" "length v = 4"
    using assms i len that
    by (auto simp: dbs_ok_def stored_def nth_list_update fun_eq_iff dest: inj)
qed

section \<open>The service keeps the promise\<close>

text \<open>The message answered as \<open>tm_spec\<close> says, or a failure of Berkeley DB reported and nothing changed.\<close>

definition answers ::
  "'d bdb \<Rightarrow> ('d \<Rightarrow> byte list \<Rightarrow> byte list option) \<Rightarrow> (nat \<Rightarrow> nat option) \<Rightarrow> byte list \<Rightarrow>
   (byte list \<times> 'd tm_serv) option \<Rightarrow> bool" where
  "answers db C S m out \<longleftrightarrow>
     (\<exists>reply st' cs'. out = Some (reply, st') \<and>
        (serv_ok C cs' (snd (tm_spec m S)) st' \<and> reply = fst (tm_spec m S) \<or>
         \<not> reliable db \<and> serv_ok C cs' S st' \<and> reply = db_failed m))"

lemma value_of_record: "length v = 4 \<Longrightarrow> value_of_bytes v = le_nat v \<and> to_le 4 (le_nat v) = v"
  using to_le_le_nat [of v] by (simp add: value_of_bytes_def)

lemma get_answers:
  assumes "bdb_ok db C" "serv_ok C cs S st" "cache_malloc_ok (g_tm_cache st) cs malloc"
    "length m = ph_len (read_header m)" "ph_cmd (read_header m) = TIMESTAMP_GET_CMD_ID"
    "ph_len (read_header m) = 18"
  shows "answers db C S m (get_timestamp db malloc m st)"
proof -
  define h k where "h = read_header m" and "k = ph_userid h"
  have k: "k < 4294967296" using user_bound by (simp add: h_def k_def)
  obtain q c where s: "tm_cache_search k (g_tm_cache st) = (q, c)" by force
  define r where "r = map_option (\<lambda>a. tn_timestamp (tc_nodes c a)) q"
  have "tm_look k (g_tm_cache st) = (r, c)" by (simp add: tm_look_def s r_def)
  then have c: "tm_lru.coherent_with S c cs" "\<And>v. r = Some v \<Longrightarrow> S k = Some v" "cache_malloc_ok c cs malloc"
    using tm_lru.look_coherent [of S "g_tm_cache st" cs k r c malloc] assms(2,3) by (auto simp: serv_ok_def)
  have spec: "tm_spec m S = (case S k of None \<Rightarrow> (reply_bytes (h\<lparr>ph_status := SYS_USERID_NOFIND\<rparr>) [], S)
      | Some ts \<Rightarrow> (reply_bytes h (to_le 4 ts), S))"
    using assms(4-6) unfolding h_def k_def by (simp add: tm_spec_def Let_def)
  have ok: "dbs_ok C (g_db_vec st)" "stored C (g_db_vec st) = S" using assms(2) by (auto simp: serv_ok_def)
  show ?thesis
  proof (cases q)
    case (Some a)
    then have "S k = Some (tn_timestamp (tc_nodes c a))" using c(2) by (simp add: r_def)
    then show ?thesis using ok c(1) Some s spec
      by (auto simp: answers_def get_timestamp_def Let_def h_def [symmetric] k_def [symmetric] serv_ok_def)
  next
    case None
    obtain u where u: "g_db_vec st ! (k mod length (g_db_vec st)) = Some u" "m_init u"
      "\<And>key v. C (m_pdb u) key = Some v \<Longrightarrow> length v = 4" "S k = map_option le_nat (C (m_pdb u) (to_le 4 k))"
      using dbs_okD [OF ok(1), of k] ok(2) k by metis
    have ne: "g_db_vec st \<noteq> []" using ok(1) by (simp add: dbs_ok_def)
    obtain e v where g: "bd_get db (m_pdb u) (to_le 4 k) = (e, v)" by force
    note get = bdb_get [OF assms(1), of "m_pdb u" "to_le 4 k" v]
    note upd = update_file(1) [OF ok(1) u(1) _ k]
    note unf = answers_def get_timestamp_def Let_def h_def [symmetric] k_def [symmetric] s None
      db_index_def ne u(1,2) uv_get_def g
    consider "e = DB_OK" | "e = DB_NOTFOUND" | "e \<noteq> DB_OK" "e \<noteq> DB_NOTFOUND" by blast
    then show ?thesis
    proof cases
      case 1
      then have v: "C (m_pdb u) (to_le 4 k) = Some v" using get g by simp
      then have l: "length v = 4" by (rule u(3))
      have S: "S k = Some (le_nat v)" using v u(4) by simp
      obtain p c' cs' where p: "tm_cache_insert malloc k (le_nat v) c = Some (p, c')"
          "tm_lru.coherent_with (S(k \<mapsto> le_nat v)) c' cs'"
        using tm_lru.put_coherent [OF c(1,3)] S by blast
      have "S(k \<mapsto> le_nat v) = S" using S by (simp add: fun_upd_idem)
      then show ?thesis using upd [of u] u(2) ok(2) p value_of_record [OF l] l S spec 1
        by (auto simp: unf serv_ok_def)
    next
      case 2
      then have "S k = None" using get g u(4) by simp
      then show ?thesis using upd [of u] u(2) ok(2) c(1) spec 2
        by (auto simp: unf serv_ok_def)
    next
      case 3
      have f: "m_init (snd (fail 0 e u))" "m_pdb (snd (fail 0 e u)) = m_pdb u"
        using u(2) by (simp_all add: fail_def)
      have "\<not> reliable db" using 3 g unfolding reliable_def by (metis fst_conv insert_iff singletonD)
      with upd [of "snd (fail 0 e u)"] f ok(2) c(1) 3 show ?thesis
        by (cases e) (auto simp: unf serv_ok_def db_failed_def)
    qed
  qed
qed

lemma set_answers:
  assumes "bdb_ok db C" "serv_ok C cs S st" "cache_malloc_ok (g_tm_cache st) cs malloc" "malloc \<noteq> None"
    "length m = ph_len (read_header m)" "ph_cmd (read_header m) = TIMESTAMP_SET_CMD_ID"
    "ph_len (read_header m) = 22"
  shows "answers db C S m (set_timestamp db malloc m st)"
proof -
  define h k where "h = read_header m" and "k = ph_userid h"
  define ts where "ts = take 4 (drop header_size m)"
  have k: "k < 4294967296" using user_bound by (simp add: h_def k_def)
  have ts: "length ts = 4" "rd_le 18 4 m = le_nat ts"
    using assms(5,7) by (simp_all add: ts_def header_size_def rd_le_def)
  have spec: "tm_spec m S = (reply_bytes h [], S(k \<mapsto> le_nat ts))"
    using assms(5-7) ts(2) unfolding h_def k_def
    by (simp add: tm_spec_def Let_def TIMESTAMP_SET_CMD_ID_def TIMESTAMP_GET_CMD_ID_def)
  have ok: "dbs_ok C (g_db_vec st)" "stored C (g_db_vec st) = S" "tm_lru.coherent_with S (g_tm_cache st) cs"
    using assms(2) by (auto simp: serv_ok_def)
  obtain u where u: "g_db_vec st ! (k mod length (g_db_vec st)) = Some u" "m_init u"
    using dbs_okD [OF ok(1), of k] by metis
  have ne: "g_db_vec st \<noteq> []" using ok(1) by (simp add: dbs_ok_def)
  obtain rt u' where s: "uv_set db (to_le 4 k) ts None u = (rt, u')" by force
  have set: "does C u (rt, u') (\<lambda>m m'. m' = m(to_le 4 k \<mapsto> ts)) \<and> (rt = -1 \<longrightarrow> \<not> reliable db)"
  proof -
    obtain e v where g: "bd_get db (m_pdb u) (to_le 4 k) = (e, v)" by force
    obtain e' d where p: "bd_put db (m_pdb u) (to_le 4 k) ts False = (e', d)" by force
    consider "e = DB_OK \<or> e = DB_NOTFOUND" "uv_put db (to_le 4 k) ts False u = (rt, u')"
      | "e \<noteq> DB_OK" "e \<noteq> DB_NOTFOUND" "fail 0 e u = (rt, u')"
      using s u(2) g by (cases e) (auto simp: uv_set_def uv_replace_def)
    then show ?thesis
    proof cases
      case 1
      have "does C u (uv_put db (to_le 4 k) ts False u) (\<lambda>m m'. m' = m(to_le 4 k \<mapsto> ts))"
        by (rule does_put [OF assms(1) u(2)]) simp
      moreover have "rt = -1 \<longrightarrow> e' \<noteq> DB_OK" using 1(2) p by (auto simp: uv_put_def)
      ultimately show ?thesis using 1(2) p unfolding reliable_def by (metis fst_conv)
    next
      case 2
      have "\<not> reliable db" using 2 g unfolding reliable_def by (metis fst_conv insert_iff singletonD)
      with 2 show ?thesis using does_fail [of 0 e C u] by metis
    qed
  qed
  note upd = update_file [OF ok(1) u(1) _ k, of u']
  note unf = answers_def set_timestamp_def Let_def h_def [symmetric] k_def [symmetric]
    ts_def [symmetric] db_index_def ne u(1) s
  have i: "m_init u'" using set u(2) by (simp add: does_def)
  show ?thesis
  proof (cases "rt = -1")
    case True
    then have "C (m_pdb u') = C (m_pdb u)" using set by (simp add: does_def)
    with upd(1) [OF i] True set ok show ?thesis
      by (auto simp: unf serv_ok_def db_failed_def)
  next
    case False
    then have "C (m_pdb u') = (C (m_pdb u))(to_le 4 k \<mapsto> ts)" using set by (simp add: does_def)
    note up = upd(2) [OF i this ts(1)]
    obtain p c' cs' where p: "tm_cache_insert malloc k (le_nat ts) (g_tm_cache st) = Some (p, c')"
        "tm_lru.coherent_with (S(k \<mapsto> le_nat ts)) c' cs'"
      using tm_lru.put_coherent [OF ok(3) assms(3)] assms(4) by blast
    from up p ok(2) spec False show ?thesis by (auto simp: unf serv_ok_def)
  qed
qed

section \<open>The properties of the service\<close>


lemma read_header_reply:
  assumes "ph_len h < 4294967296" "ph_seq h < 4294967296" "ph_cmd h < 65536" "ph_status h < 4294967296"
    "ph_userid h < 4294967296"
  shows "read_header (header_bytes h @ body) = h"
  using assms by (simp add: read_header_def header_bytes_def layout)

lemma reply_header:
  assumes "s < 4294967296" "length body \<le> 4"
  shows "read_header (reply_bytes (read_header m\<lparr>ph_status := s\<rparr>) body) =
      read_header m\<lparr>ph_status := s, ph_len := length (reply_bytes (read_header m\<lparr>ph_status := s\<rparr>) body)\<rparr> \<and>
    handle_input (reply_bytes (read_header m\<lparr>ph_status := s\<rparr>) body) =
      int (length (reply_bytes (read_header m\<lparr>ph_status := s\<rparr>) body)) \<and>
    length (reply_bytes (read_header m\<lparr>ph_status := s\<rparr>) body) = 18 + length body"
proof -
  let ?h = "read_header m\<lparr>ph_status := s, ph_len := 18 + length body\<rparr>"
  have l: "length (header_bytes ?h) = 18" by (simp add: header_bytes_def)
  have r: "reply_bytes (read_header m\<lparr>ph_status := s\<rparr>) body = header_bytes ?h @ body"
    by (simp add: reply_bytes_def header_size_def)
  have "read_header (header_bytes ?h @ body) = ?h"
    using assms rd_le_bound [of 4 4 m] rd_le_bound [of 8 2 m] rd_le_bound [of 14 4 m]
    by (intro read_header_reply) (simp_all add: read_header_def)
  moreover have "rd_le 0 4 (header_bytes ?h @ body) = 18 + length body"
    using assms(2) by (simp add: header_bytes_def layout)
  ultimately show ?thesis unfolding r
    using assms(2) l by (simp add: handle_input_def Let_def TM_MAX_BUF_LEN_def)
qed

definition reply_form :: "byte list \<Rightarrow> byte list \<Rightarrow> bool" where
  "reply_form m reply \<longleftrightarrow> (\<exists>s body. reply = reply_bytes (read_header m\<lparr>ph_status := s\<rparr>) body \<and>
     s < 4294967296 \<and> (length body = 0 \<or> length body = 4))"

lemma reply_form_err:
  "s < 4294967296 \<Longrightarrow> reply_form m (reply_bytes (read_header m\<lparr>ph_status := s\<rparr>) [])"
  unfolding reply_form_def by (intro exI [of _ s] exI [of _ "[]"]) simp

lemma reply_form_same:
  assumes "length body = 0 \<or> length body = 4"
  shows "reply_form m (reply_bytes (read_header m) body)"
  using rd_le_bound [of 10 4 m] assms unfolding reply_form_def
  by (intro exI [of _ "ph_status (read_header m)"] exI [of _ body]) (simp add: read_header_def)

lemmas reply_codes = SYS_DB_ERR_def SYS_PKG_ILLEGAL_def SYS_CMDID_NOFIND_def SYS_USERID_NOFIND_def

lemma get_reply_form: "get_timestamp db malloc m st = Some (reply, st') \<Longrightarrow> reply_form m reply"
  unfolding get_timestamp_def Let_def
  by (auto intro: reply_form_err reply_form_same simp: reply_codes split: option.split_asm prod.split_asm if_split_asm)

lemma set_reply_form: "set_timestamp db malloc m st = Some (reply, st') \<Longrightarrow> reply_form m reply"
  unfolding set_timestamp_def Let_def
  by (auto intro: reply_form_err reply_form_same simp: reply_codes split: option.split_asm prod.split_asm if_split_asm)

lemma process_reply_form: "handle_process db malloc m st = Some (reply, st') \<Longrightarrow> reply_form m reply"
  unfolding handle_process_def Let_def
  by (auto intro: reply_form_err get_reply_form set_reply_form simp: reply_codes split: if_split_asm)

text \<open>Every reply is a message of its own: its length field is its length, the framing accepts it, and
  beside the length and the status its header is that of the request.\<close>

lemma tm_reply_header:
  assumes "handle_process db malloc m st = Some (reply, st')"
  shows "\<exists>s. read_header reply = read_header m\<lparr>ph_len := length reply, ph_status := s\<rparr> \<and>
    handle_input reply = int (length reply) \<and> length reply \<in> {18, 22}"
proof -
  obtain s body where r: "reply = reply_bytes (read_header m\<lparr>ph_status := s\<rparr>) body" "s < 4294967296"
      "length body = 0 \<or> length body = 4"
    using process_reply_form [OF assms] unfolding reply_form_def by blast
  then have "length body \<le> 4" by auto
  from reply_header [OF r(2) this, of m] r(1,3) show ?thesis
    by (intro exI [of _ s]) auto
qed

lemma less_exp_256: "n < (256::nat) ^ n"
  by (rule less_le_trans [OF less_exp power_mono]) simp_all

text \<open>However the bytes of a client arrive, they are cut into the same messages; each has at most 4096
  bytes and its length field is its length.\<close>

lemma tm_messages_framed:
  "fst (tm_input.feed [] cs) = fst (frames handle_input (concat cs)) \<and>
   (\<forall>m \<in> set (fst (frames handle_input bs)). 0 < length m \<and> length m \<le> 4096 \<and> rd_le 0 4 m = length m)"
proof -
  have "\<forall>m \<in> set (fst (frames handle_input bs)). 0 < length m \<and> length m \<le> 4096 \<and> rd_le 0 4 m = length m"
  proof (induction bs rule: frames_induct [where h = handle_input])
    case (step bs)
    show ?case
    proof (cases handle_input bs rule: frames_cases)
      case message
      then have h: "handle_input bs = int (rd_le 0 4 bs)" "rd_le 0 4 bs \<le> 4096" "4 \<le> length bs"
        by (auto simp: handle_input_def Let_def TM_MAX_BUF_LEN_def split: if_splits)
      define n where "n = rd_le 0 4 bs"
      have n: "0 < n" "n \<le> length bs" "nat (handle_input bs) = n" using message h by (simp_all add: n_def)
      have "rd_le 0 4 (take n bs) = n"
      proof (cases "4 \<le> n")
        case True
        then show ?thesis by (simp add: n_def rd_le_def)
      next
        case False
        then have "rd_le 0 4 (take n bs) = le_nat (take n (take 4 bs))" by (simp add: rd_le_def min_def)
        also have "\<dots> = n mod 256 ^ n" using le_nat_take [of n "take 4 bs"] by (simp add: n_def rd_le_def)
        also have "\<dots> = n" by (simp add: less_exp_256)
        finally show ?thesis .
      qed
      moreover have "n \<le> 4096" using h(2) by (simp add: n_def)
      moreover have "\<forall>m \<in> set (fst (frames handle_input (drop n bs))).
          0 < length m \<and> length m \<le> 4096 \<and> rd_le 0 4 m = length m"
        using step message n(3) by simp
      ultimately show ?thesis using message(4,5) n by simp
    qed auto
  qed
  moreover have "fst (tm_input.feed [] cs) = fst (frames handle_input (concat cs))"
    using tm_input.feed_frames [of "[]" cs] by simp
  ultimately show ?thesis by blast
qed

section \<open>Start, end, and a service running\<close>

lemma open_dbs_ok:
  assumes "open_dbs l d0 created opened i n vec = Some (0, vec')" "\<forall>u \<in> set vec. u \<noteq> None \<and> m_init (the u)"
    "\<forall>j. i \<le> j \<longrightarrow> j < i + n \<longrightarrow> (\<forall>k v. C (snd (snd (opened j))) k = Some v \<longrightarrow> length v = 4)"
    "\<forall>u \<in> set vec. \<forall>k v. C (m_pdb (the u)) k = Some v \<longrightarrow> length v = 4"
  shows "length vec' = length vec + n \<and>
    (\<forall>u \<in> set vec'. u \<noteq> None \<and> m_init (the u) \<and> (\<forall>k v. C (m_pdb (the u)) k = Some v \<longrightarrow> length v = 4))"
  using assms
proof (induction n arbitrary: i vec)
  case 0
  then show ?case by auto
next
  case (Suc n)
  obtain c o1 where o: "opened i = (c, o1)" by (cases "opened i")
  obtain u where u: "uv_open (l + 11 + digits i) True False c o1 (new_uvalue d0) = Some (0, u)"
      "open_dbs l d0 created opened (Suc i) n (vec @ [Some u]) = Some (0, vec')"
    using Suc.prems(1) o by (auto split: if_splits option.splits)
  then have "m_init u" "m_pdb u = snd o1"
    by (auto simp: uv_open_def new_uvalue_def split: if_splits)
  moreover have "C (snd o1) k = Some v \<Longrightarrow> length v = 4" for k v
    using Suc.prems(3) o by (metis less_add_same_cancel1 order_refl snd_conv zero_less_Suc)
  ultimately have
    "\<forall>u \<in> set (vec @ [Some u]). u \<noteq> None \<and> m_init (the u)"
    "\<forall>u \<in> set (vec @ [Some u]). \<forall>k v. C (m_pdb (the u)) k = Some v \<longrightarrow> length v = 4"
    using Suc.prems(2,4) by auto
  moreover have
    "\<forall>j. Suc i \<le> j \<longrightarrow> j < Suc i + n \<longrightarrow> (\<forall>k v. C (snd (snd (opened j))) k = Some v \<longrightarrow> length v = 4)"
    using Suc.prems(3) by (metis Suc_leD add_Suc add_Suc_right)
  ultimately have pre:
    "\<forall>u \<in> set (vec @ [Some u]). u \<noteq> None \<and> m_init (the u)"
    "\<forall>j. Suc i \<le> j \<longrightarrow> j < Suc i + n \<longrightarrow> (\<forall>k v. C (snd (snd (opened j))) k = Some v \<longrightarrow> length v = 4)"
    "\<forall>u \<in> set (vec @ [Some u]). \<forall>k v. C (m_pdb (the u)) k = Some v \<longrightarrow> length v = 4"
    by simp_all
  from Suc.IH [OF u(2) pre] show ?case by simp
qed


section \<open>Examples\<close>

definition demo_db :: "(byte list \<times> byte list) list \<Rightarrow> (byte list \<times> byte list) list uvalue" where
  "demo_db es = \<lparr>m_pdb = es, m_errno = DB_OK, m_myerrno = 0, m_init = True\<rparr>"

definition demo_serv :: "(byte list \<times> byte list) list tm_serv" where
  "demo_serv = \<lparr>g_db_vec = [Some (demo_db []), Some (demo_db [(to_le 4 7, to_le 4 100)])], g_tm_cache = demo_tm\<rparr>"

definition demo_get :: "nat \<Rightarrow> byte list" where
  "demo_get userid = header_bytes \<lparr>ph_len = 18, ph_seq = 1, ph_cmd = TIMESTAMP_GET_CMD_ID, ph_status = 0, ph_userid = userid\<rparr>"

lemma demo_serv_ok: "serv_ok map_of [65536] (stored map_of (g_db_vec demo_serv)) demo_serv"
proof -
  have "dbs_ok map_of (g_db_vec demo_serv)"
    by (auto simp: dbs_ok_def demo_serv_def demo_db_def less_Suc_eq split: if_splits)
  moreover have "tm_lru.coherent_with S demo_tm [65536]" for S
    using demo_tm_ok(1) by (auto simp: tm_lru.coherent_with_def tm_entries_def agrees_def)
  ultimately show ?thesis by (simp add: serv_ok_def demo_serv_def)
qed

lemma demo_malloc: "cache_malloc_ok demo_tm [65536] (Some 1000000)"
proof -
  have "tc_pool demo_tm = \<lparr>item_size = 48, alloc_size = 409600, total_alloc_item = 8533,
      reuse_ptr = 0, alloc_ptr = 65536, alloc_pool_pos = 0, ref_count = 0, mem = (\<lambda>_. 7)(65536 := 0)\<rparr>"
    "tc_head demo_tm = 8"
    by (simp_all add: demo_tm_def tm_cache_create_def mempool_create_def Let_def round_up_def WORD_SIZE_def
        DEFAULT_ALLOC_SIZE_def node_sz_def)
  then show ?thesis by (simp add: cache_malloc_ok_def fresh_chunk_def head_out_def apart_def)
qed

lemma map_bdb_reliable: "reliable map_bdb"
  by (auto simp: reliable_def map_bdb_def split: option.splits)

lemma demo_get_header:
  "read_header (demo_get 7) =
    \<lparr>ph_len = 18, ph_seq = 1, ph_cmd = TIMESTAMP_GET_CMD_ID, ph_status = 0, ph_userid = 7\<rparr>"
  "length (demo_get 7) = 18"
proof -
  show "read_header (demo_get 7) =
    \<lparr>ph_len = 18, ph_seq = 1, ph_cmd = TIMESTAMP_GET_CMD_ID, ph_status = 0, ph_userid = 7\<rparr>"
    unfolding demo_get_def
    using read_header_reply [of "\<lparr>ph_len = 18, ph_seq = 1, ph_cmd = TIMESTAMP_GET_CMD_ID, ph_status = 0,
      ph_userid = 7\<rparr>" "[]"] by (simp add: TIMESTAMP_GET_CMD_ID_def)
  show "length (demo_get 7) = 18" by (simp add: demo_get_def header_bytes_def)
qed


lemma tm_reply_header_witness:
  "\<exists>reply st' s. handle_process map_bdb None [18, 0, 0, 0, 1, 0, 0, 0, 9, 9, 0, 0, 0, 0, 7, 0, 0, 0] demo_serv =
     Some (reply, st') \<and> length reply = 18 \<and>
     read_header reply = read_header [18, 0, 0, 0, 1, 0, 0, 0, 9, 9, 0, 0, 0, 0, 7, 0, 0, 0]
       \<lparr>ph_len := length reply, ph_status := s\<rparr>"
proof -
  let ?m = "[18, 0, 0, 0, 1, 0, 0, 0, 9, 9, 0, 0, 0, 0, 7, 0, 0, 0] :: byte list"
  have h: "read_header ?m = \<lparr>ph_len = 18, ph_seq = 1, ph_cmd = 2313, ph_status = 0, ph_userid = 7\<rparr>"
    by (simp add: read_header_def rd_le_def)
  have p: "handle_process map_bdb None ?m demo_serv =
      Some (reply_bytes (read_header ?m\<lparr>ph_status := SYS_CMDID_NOFIND\<rparr>) [], demo_serv)"
    unfolding handle_process_def Let_def
    by (simp add: h header_size_def TIMESTAMP_GET_CMD_ID_def TIMESTAMP_SET_CMD_ID_def)
  from tm_reply_header [OF p] obtain s where
    "read_header (reply_bytes (read_header ?m\<lparr>ph_status := SYS_CMDID_NOFIND\<rparr>) []) = read_header ?m
       \<lparr>ph_len := length (reply_bytes (read_header ?m\<lparr>ph_status := SYS_CMDID_NOFIND\<rparr>) []), ph_status := s\<rparr>"
    by blast
  moreover have "length (reply_bytes (read_header ?m\<lparr>ph_status := SYS_CMDID_NOFIND\<rparr>) []) = 18"
    by (simp add: reply_bytes_def header_bytes_def)
  ultimately show ?thesis using p by blast
qed

lemma tm_messages_framed_witness:
  "fst (frames handle_input ([5, 0, 0, 0, 1] @ [0, 0])) = [[5, 0, 0, 0, 1]] \<and>
   fst (tm_input.feed [] [[5, 0], [0, 0, 1, 0], [0]]) = [[5, 0, 0, 0, 1]]"
proof -
  have h: "handle_input [5, 0, 0, 0, 1, 0, 0] = 5" "handle_input [0, 0] = 0"
    by (simp_all add: handle_input_def rd_le_def TM_MAX_BUF_LEN_def)
  have "frames handle_input ([0, 0] :: byte list) = ([], Incomplete [0, 0])"
    by (rule frames_incomplete) (simp add: h)
  then have f: "fst (frames handle_input ([5, 0, 0, 0, 1] @ [0, 0])) = [[5, 0, 0, 0, 1]]"
    using frames_message [of handle_input "[5, 0, 0, 0, 1, 0, 0]"] h(1) by (simp add: RCVBUFMAX_def)
  with conjunct1 [OF tm_messages_framed [of "[[5, 0], [0, 0, 1, 0], [0]]"]] show ?thesis by simp
qed


end
