(* ===== verification/IniFile.thy ===== *)
theory IniFile
  imports Decimal
begin

text \<open>
  Configuration files (\<^verbatim>\<open>lib/ini-file-1.1.1/c_ini_file.cpp\<close>, class \<^verbatim>\<open>c_ini_file\<close>): the file is kept in a
  buffer that is searched and edited in place. The buffer is a map from positions to bytes, so
  that reading what was never written, or outside the buffer, is undefined (\<open>None\<close>). Proved in
  \<^verbatim>\<open>IniDoc\<close>: on files the class itself writes, it implements a list of sections of keys.
\<close>

section \<open>State\<close>

definition MAX_FILE_BUF_SIZE :: int where "MAX_FILE_BUF_SIZE = 1024 * 1024"
definition MAX_INI_FILE_PATH_LEN :: nat where "MAX_INI_FILE_PATH_LEN = 1024 * 4"

datatype ini_errno =
  INI_FILE_E_SUCCESS | INI_FILE_E_PARAMETER | INI_FILE_E_OPEN_FILE | INI_FILE_E_WRITE_FILE
  | INI_FILE_E_BUF_OVERFLOW | INI_FILE_E_NOT_INITED | INI_FILE_E_KEY_NOT_FOUND
  | INI_FILE_E_OUT_OF_MEMORY | INI_FILE_E_ILLEGAL_FORMAT

type_synonym ini_buf = "nat \<Rightarrow> char option"

text \<open>The working buffer is only used within one call; \<open>m_working\<close> tells that it is allocated.\<close>

record c_ini_file =
  m_path :: string
  m_file_buf :: "ini_buf option"
  m_file_size :: int
  m_working :: bool
  m_ini_errno :: ini_errno

definition new_ini_file :: c_ini_file where
  "new_ini_file = \<lparr>m_path = '''', m_file_buf = None, m_file_size = 0, m_working = False,
     m_ini_errno = INI_FILE_E_SUCCESS\<rparr>"

definition set_err :: "ini_errno \<Rightarrow> c_ini_file \<Rightarrow> c_ini_file" where
  "set_err e f = f\<lparr>m_ini_errno := e\<rparr>"

definition get_last_errstr :: "c_ini_file \<Rightarrow> string" where
  "get_last_errstr f =
     (case m_ini_errno f of
        INI_FILE_E_SUCCESS \<Rightarrow> ''Success''
      | INI_FILE_E_PARAMETER \<Rightarrow> ''Parameter error.''
      | INI_FILE_E_OPEN_FILE \<Rightarrow> ''File open fail.''
      | INI_FILE_E_WRITE_FILE \<Rightarrow> ''File write fail.''
      | INI_FILE_E_BUF_OVERFLOW \<Rightarrow> ''Not enough buffer.''
      | INI_FILE_E_NOT_INITED \<Rightarrow> ''Not inited.''
      | INI_FILE_E_KEY_NOT_FOUND \<Rightarrow> ''Key not found.''
      | INI_FILE_E_OUT_OF_MEMORY \<Rightarrow> ''Out of memory.''
      | INI_FILE_E_ILLEGAL_FORMAT \<Rightarrow> ''Illegal ini file format.'')"

section \<open>The buffer\<close>

definition NUL :: char where "NUL = CHR 0x00"

definition fetch :: "ini_buf \<Rightarrow> int \<Rightarrow> char option" where
  "fetch p i = (if 0 \<le> i \<and> i < MAX_FILE_BUF_SIZE then p (nat i) else None)"

definition store :: "ini_buf \<Rightarrow> int \<Rightarrow> char \<Rightarrow> ini_buf option" where
  "store p i c = (if 0 \<le> i \<and> i < MAX_FILE_BUF_SIZE then Some (p(nat i := Some c)) else None)"

lemma fetch_bounds: "fetch p i = Some c \<Longrightarrow> 0 \<le> i \<and> i < MAX_FILE_BUF_SIZE"
  by (simp add: fetch_def split: if_splits)

fun put_chars :: "ini_buf \<Rightarrow> int \<Rightarrow> string \<Rightarrow> ini_buf option" where
  "put_chars p i [] = Some p"
| "put_chars p i (c # cs) = (case store p i c of None \<Rightarrow> None | Some q \<Rightarrow> put_chars q (i + 1) cs)"

text \<open>\<^verbatim>\<open>m_file_buf[idx] = m_file_buf[idx - by]\<close> for the positions of a list.\<close>

fun move_chars :: "int \<Rightarrow> int list \<Rightarrow> ini_buf \<Rightarrow> ini_buf option" where
  "move_chars by [] p = Some p"
| "move_chars by (i # is) p =
     (case fetch p (i - by) of
        None \<Rightarrow> None
      | Some c \<Rightarrow> (case store p i c of None \<Rightarrow> None | Some q \<Rightarrow> move_chars by is q))"

text \<open>\<^verbatim>\<open>while (P (p[i])) i++\<close>.\<close>

function scan :: "(char \<Rightarrow> bool) \<Rightarrow> ini_buf \<Rightarrow> int \<Rightarrow> int option" where
  "scan P p i =
     (case fetch p i of None \<Rightarrow> None | Some c \<Rightarrow> if P c then scan P p (i + 1) else Some i)"
  by pat_completeness auto
termination
  by (relation "measure (\<lambda>(P, p, i). nat (MAX_FILE_BUF_SIZE - i))") (auto dest: fetch_bounds)

declare scan.simps [simp del]

lemma scan_bounds: "scan P p i = Some j \<Longrightarrow> i \<le> j \<and> 0 \<le> i \<and> j < MAX_FILE_BUF_SIZE"
proof (induction P p i rule: scan.induct)
  case (1 P p i)
  then obtain c where c: "fetch p i = Some c"
    by (subst (asm) (2) scan.simps) (auto split: option.splits)
  show ?case
  proof (cases "P c")
    case True
    then have "scan P p (i + 1) = Some j" using "1.prems" c by (subst (asm) scan.simps) simp
    from "1.IH" [OF c True this] fetch_bounds [OF c] show ?thesis by simp
  next
    case False
    then have "i = j" using "1.prems" c by (subst (asm) scan.simps) simp
    with fetch_bounds [OF c] show ?thesis by simp
  qed
qed

section \<open>Finding a key\<close>

definition ini_newline :: "char \<Rightarrow> bool" where
  "ini_newline c \<longleftrightarrow> c = CHR 0x0A \<or> c = CHR 0x0D"

definition end_of_string :: "char \<Rightarrow> bool" where
  "end_of_string c \<longleftrightarrow> c = NUL"

definition is_space :: "char \<Rightarrow> bool" where
  "is_space c \<longleftrightarrow> c = CHR '' '' \<or> c = CHR 0x09"

function trim_left :: "ini_buf \<Rightarrow> int \<Rightarrow> int \<Rightarrow> int option" where
  "trim_left p s e =
     (if s < e then
        (case fetch p s of None \<Rightarrow> None | Some c \<Rightarrow> if is_space c then trim_left p (s + 1) e else Some s)
      else Some s)"
  by pat_completeness auto
termination by (relation "measure (\<lambda>(p, s, e). nat (e - s))") auto

function trim_right :: "ini_buf \<Rightarrow> int \<Rightarrow> int \<Rightarrow> int option" where
  "trim_right p s e =
     (if s < e then
        (case fetch p e of None \<Rightarrow> None | Some c \<Rightarrow> if is_space c then trim_right p s (e - 1) else Some e)
      else Some e)"
  by pat_completeness auto
termination by (relation "measure (\<lambda>(p, s, e). nat (e - s))") auto

declare trim_left.simps [simp del] trim_right.simps [simp del]

definition trim_token :: "ini_buf \<Rightarrow> int \<Rightarrow> int \<Rightarrow> (int \<times> int) option" where
  "trim_token p s e =
     (case trim_left p s e of None \<Rightarrow> None | Some s1 \<Rightarrow> map_option (Pair s1) (trim_right p s1 e))"

text \<open>\<^verbatim>\<open>strncmp (p + s, t, strlen (t)) == 0\<close>.\<close>

fun strn_eq :: "ini_buf \<Rightarrow> int \<Rightarrow> string \<Rightarrow> bool option" where
  "strn_eq p s [] = Some True"
| "strn_eq p s (c # cs) =
     (case fetch p s of None \<Rightarrow> None | Some d \<Rightarrow> if d \<noteq> c then Some False else strn_eq p (s + 1) cs)"

definition token_is :: "ini_buf \<Rightarrow> int \<times> int \<Rightarrow> string \<Rightarrow> bool option" where
  "token_is p tok t =
     (if int (length t) = snd tok - fst tok + 1 then strn_eq p (fst tok) t else Some False)"

text \<open>The first \<^verbatim>\<open>=\<close> after the first character of a line that ends at \<open>i\<close>; a line that begins with one
  has none.\<close>

function find_eq :: "ini_buf \<Rightarrow> int \<Rightarrow> int \<Rightarrow> int option option" where
  "find_eq p j i =
     (if j < i then
        (case fetch p j of
           None \<Rightarrow> None
         | Some c \<Rightarrow>
             if c = CHR ''='' then Some None
             else (case fetch p (j + 1) of
                     None \<Rightarrow> None
                   | Some d \<Rightarrow> if d = CHR ''='' then Some (Some (j + 1)) else find_eq p (j + 1) i))
      else Some None)"
  by pat_completeness auto
termination by (relation "measure (\<lambda>(p, j, i). nat (i - j))") auto

declare find_eq.simps [simp del]

type_synonym key_pos = "(int \<times> int) \<times> (int \<times> int)"

text \<open>One line, from \<open>ns\<close> to its end \<open>i\<close>: where the key and its value are, if it is the key's line.\<close>

definition parse_line :: "ini_buf \<Rightarrow> string \<Rightarrow> int \<Rightarrow> int \<Rightarrow> key_pos option option" where
  "parse_line p key ns i =
     (case fetch p ns of
        None \<Rightarrow> None
      | Some c \<Rightarrow>
          if c = CHR '':'' then Some None
          else (case find_eq p ns i of
                  None \<Rightarrow> None
                | Some None \<Rightarrow> Some None
                | Some (Some j) \<Rightarrow>
                    (case trim_token p ns (j - 1) of
                       None \<Rightarrow> None
                     | Some k \<Rightarrow>
                         (case token_is p k key of
                            None \<Rightarrow> None
                          | Some False \<Rightarrow> Some None
                          | Some True \<Rightarrow>
                              map_option (\<lambda>v. Some (k, v)) (trim_token p (j + 1) (i - 1))))))"

text \<open>The lines of a section, up to the next one (\<open>Inl\<close> where that is) or the key (\<open>Inr\<close>). The last line
  of a file that has no newline is followed by what comes after the end of the string.\<close>

function parse_lines :: "ini_buf \<Rightarrow> string \<Rightarrow> int \<Rightarrow> (int + key_pos) option" where
  "parse_lines p key i =
     (case (fetch p (i - 1), fetch p i) of
        (Some a, Some c) \<Rightarrow>
          if ini_newline a \<and> c = CHR ''['' \<or> end_of_string c then Some (Inl i)
          else (case scan (\<lambda>c. \<not> ini_newline c \<and> \<not> end_of_string c) p i of
                  None \<Rightarrow> None
                | Some e \<Rightarrow>
                    (case parse_line p key i e of
                       None \<Rightarrow> None
                     | Some (Some r) \<Rightarrow> Some (Inr r)
                     | Some None \<Rightarrow> parse_lines p key (e + 1)))
      | _ \<Rightarrow> None)"
  by pat_completeness auto
termination
  by (relation "measure (\<lambda>(p, key, i). nat (MAX_FILE_BUF_SIZE - i))") (auto dest: scan_bounds fetch_bounds)

declare parse_lines.simps [simp del]

lemma parse_lines_bounds: "parse_lines p key i = Some (Inl j) \<Longrightarrow> i \<le> j"
proof (induction p key i rule: parse_lines.induct)
  case (1 p key i)
  obtain a c where ac: "fetch p (i - 1) = Some a" "fetch p i = Some c"
    using "1.prems" by (subst (asm) parse_lines.simps) (auto split: option.splits)
  show ?case
  proof (cases "ini_newline a \<and> c = CHR ''['' \<or> end_of_string c")
    case True
    then show ?thesis using "1.prems" ac by (subst (asm) parse_lines.simps) simp
  next
    case False
    then obtain e where e: "scan (\<lambda>c. \<not> ini_newline c \<and> \<not> end_of_string c) p i = Some e"
      "parse_line p key i e = Some None" "parse_lines p key (e + 1) = Some (Inl j)"
      using "1.prems" ac by (subst (asm) parse_lines.simps) (auto split: option.splits)
    have "e + 1 \<le> j" by (rule "1.IH" [OF refl ac False e(1,2) refl e(3)])
    with scan_bounds [OF e(1)] show ?thesis by simp
  qed
qed

text \<open>A section whose bracket is at \<open>i\<close>: the position to go on from, or the key. \<open>sec\<close> is \<^verbatim>\<open>(sec_s, sec_e)\<close>
  so far.\<close>

definition parse_section ::
  "ini_buf \<Rightarrow> string \<Rightarrow> string \<Rightarrow> int \<Rightarrow> int \<times> int \<Rightarrow> ((int \<times> int) \<times> (int + key_pos)) option" where
  "parse_section p sect key i sec =
     (case scan (\<lambda>c. c \<noteq> CHR '']'' \<and> \<not> end_of_string c) p (i + 1) of
        None \<Rightarrow> None
      | Some e \<Rightarrow>
          (case trim_token p (i + 1) (e - 1) of
             None \<Rightarrow> None
           | Some t \<Rightarrow>
               (case token_is p t sect of
                  None \<Rightarrow> None
                | Some False \<Rightarrow> Some (sec, Inl e)
                | Some True \<Rightarrow>
                    (case scan c_isspace p (e + 1) of
                       None \<Rightarrow> None
                     | Some i2 \<Rightarrow> map_option (Pair (i + 1, i2)) (parse_lines p key i2)))))"

lemma parse_section_bounds: "parse_section p sect key i sec = Some (s, Inl j) \<Longrightarrow> i < j"
  by (auto simp: parse_section_def split: option.splits bool.splits dest!: scan_bounds parse_lines_bounds)

text \<open>The loop over the characters of the file. White space at the end of the file takes it past the end
  of the string.\<close>

function parse_from ::
  "ini_buf \<Rightarrow> string \<Rightarrow> string \<Rightarrow> int \<Rightarrow> int \<times> int \<Rightarrow> ((int \<times> int) \<times> key_pos option) option" where
  "parse_from p sect key i sec =
     (case fetch p i of
        None \<Rightarrow> None
      | Some c \<Rightarrow>
          if end_of_string c then Some (sec, None)
          else if i = 0 \<or> (case fetch p (i - 1) of None \<Rightarrow> False | Some a \<Rightarrow> ini_newline a) then
            (case scan c_isspace p i of
               None \<Rightarrow> None
             | Some i1 \<Rightarrow>
                 (case fetch p i1 of
                    None \<Rightarrow> None
                  | Some d \<Rightarrow>
                      if d = CHR ''['' then
                        (case parse_section p sect key i1 sec of
                           None \<Rightarrow> None
                         | Some (s, Inr r) \<Rightarrow> Some (s, Some r)
                         | Some (s, Inl j) \<Rightarrow> parse_from p sect key j s)
                      else parse_from p sect key (i1 + 1) sec))
          else parse_from p sect key (i + 1) sec)"
  by pat_completeness auto
termination
  by (relation "measure (\<lambda>(p, sect, key, i, sec). nat (MAX_FILE_BUF_SIZE - i))")
    (auto dest!: scan_bounds parse_section_bounds dest: fetch_bounds)

declare parse_from.simps [simp del]

definition parse_file :: "ini_buf \<Rightarrow> string \<Rightarrow> string \<Rightarrow> ((int \<times> int) \<times> key_pos option) option" where
  "parse_file p sect key = parse_from p sect key 0 (-1, -1)"

section \<open>Loading a file\<close>

text \<open>\<^verbatim>\<open>load_ini_file\<close>: a file that cannot be opened (\<open>None\<close>) is an empty one; a byte 255 reads as the end.\<close>

definition load_ini_file :: "string option \<Rightarrow> c_ini_file \<Rightarrow> (int \<times> c_ini_file) option" where
  "load_ini_file content f =
     (case m_file_buf f of
        None \<Rightarrow> None
      | Some b \<Rightarrow>
          (case content of
             None \<Rightarrow> Some (0, f\<lparr>m_file_buf := Some (b(0 := Some NUL)), m_file_size := 0\<rparr>)
           | Some t0 \<Rightarrow>
               let t = takeWhile (\<lambda>c. c \<noteq> CHR 0xFF) t0
               in if int (length t) \<ge> MAX_FILE_BUF_SIZE then
                    map_option (\<lambda>q. (-1, set_err INI_FILE_E_BUF_OVERFLOW (f\<lparr>m_file_buf := Some q\<rparr>)))
                      (put_chars b 0 (take (nat MAX_FILE_BUF_SIZE) t))
                  else
                    map_option (\<lambda>q. (0, f\<lparr>m_file_buf := Some q, m_file_size := int (length t)\<rparr>))
                      (put_chars b 0 (t @ [NUL]))))"

text \<open>A path of just the maximal length does not fit into \<^verbatim>\<open>m_path\<close> with its end: undefined. \<open>ok1\<close> and \<open>ok2\<close>
  tell whether there is memory.\<close>

definition ini_init :: "string \<Rightarrow> bool \<Rightarrow> bool \<Rightarrow> string option \<Rightarrow> c_ini_file \<Rightarrow> (int \<times> c_ini_file) option" where
  "ini_init path ok1 ok2 content f =
     (if path = [] \<or> length path > MAX_INI_FILE_PATH_LEN then Some (-1, set_err INI_FILE_E_PARAMETER f)
      else if m_file_buf f = None \<and> \<not> ok1 then Some (-1, set_err INI_FILE_E_OUT_OF_MEMORY f)
      else
        let f1 = (if m_file_buf f = None then f\<lparr>m_file_buf := Some (\<lambda>_. None)\<rparr> else f)
        in if \<not> m_working f1 \<and> \<not> ok2 then Some (-1, set_err INI_FILE_E_OUT_OF_MEMORY f1)
           else
             (case load_ini_file content (f1\<lparr>m_working := True\<rparr>) of
                None \<Rightarrow> None
              | Some (r, f2) \<Rightarrow>
                  if r \<noteq> 0 then Some (-1, f2)
                  else if length path = MAX_INI_FILE_PATH_LEN then None
                  else Some (0, set_err INI_FILE_E_SUCCESS (f2\<lparr>m_path := path\<rparr>))))"

definition ini_uninit :: "c_ini_file \<Rightarrow> int \<times> c_ini_file" where
  "ini_uninit f = (0, set_err INI_FILE_E_SUCCESS (f\<lparr>m_file_buf := None, m_working := False\<rparr>))"

section \<open>Reading and writing a value\<close>

fun copy_out :: "ini_buf \<Rightarrow> int \<Rightarrow> nat \<Rightarrow> string option" where
  "copy_out p i 0 = Some []"
| "copy_out p i (Suc n) =
     (case fetch p i of None \<Rightarrow> None | Some c \<Rightarrow> map_option (Cons c) (copy_out p (i + 1) n))"

text \<open>The value is what is put into the caller's buffer of \<open>bufsize\<close> bytes, without its end; \<^verbatim>\<open>strncpy\<close> of a
  default that fills the buffer leaves it without an end. Null strings count as empty ones.\<close>

definition read_string ::
  "string \<Rightarrow> string \<Rightarrow> int \<Rightarrow> string option \<Rightarrow> c_ini_file \<Rightarrow> ((int \<times> string option) \<times> c_ini_file) option" where
  "read_string sect key bufsize dflt f =
     (let use_default = (\<lambda>e. case dflt of
            Some d \<Rightarrow> Some ((0, Some (take (nat bufsize) d)), set_err INI_FILE_E_SUCCESS f)
          | None \<Rightarrow> Some ((-1, None), set_err e f))
      in if sect = [] \<or> key = [] \<or> bufsize \<le> 0 then Some ((-1, None), set_err INI_FILE_E_PARAMETER f)
         else case m_file_buf f of
             None \<Rightarrow> use_default INI_FILE_E_NOT_INITED
           | Some p \<Rightarrow>
               (case parse_file p sect key of
                  None \<Rightarrow> None
                | Some (sec, None) \<Rightarrow> use_default INI_FILE_E_KEY_NOT_FOUND
                | Some (sec, Some (k, (vs, ve))) \<Rightarrow>
                    let cpcount = (if bufsize - 1 < ve - vs + 1 then bufsize - 1 else ve - vs + 1)
                    in map_option (\<lambda>v. ((0, Some v), set_err INI_FILE_E_SUCCESS f))
                         (copy_out p vs (nat cpcount))))"

definition read_int :: "string \<Rightarrow> string \<Rightarrow> int \<Rightarrow> c_ini_file \<Rightarrow> (int \<times> c_ini_file) option" where
  "read_int sect key dflt f =
     (case read_string sect key 32 None f of
        None \<Rightarrow> None
      | Some ((r, v), f1) \<Rightarrow>
          if r \<noteq> 0 then Some (dflt, f1)
          else Some (c_atoi (the v), set_err INI_FILE_E_SUCCESS f1))"

text \<open>The ways the text changes; all but the first test the size, one byte too late. The result is the
  buffer, or (\<open>Inl\<close>) that it would overflow.\<close>

definition append_section :: "string \<Rightarrow> string \<Rightarrow> string \<Rightarrow> int \<Rightarrow> ini_buf \<Rightarrow> (unit + ini_buf) option" where
  "append_section sect key v fsize p =
     (if fsize + int (length sect) + int (length key) + int (length v) + 6 > MAX_FILE_BUF_SIZE
      then Some (Inl ())
      else map_option Inr (put_chars p fsize
             (CHR 0x0A # CHR ''['' # sect @ CHR '']'' # CHR 0x0A # key @ CHR ''='' # v @ [CHR 0x0A, NUL])))"

definition insert_line :: "string \<Rightarrow> string \<Rightarrow> int \<Rightarrow> int \<Rightarrow> ini_buf \<Rightarrow> (unit + ini_buf) option" where
  "insert_line key v sec_e fsize p =
     (let append_len = int (length key) + int (length v) + 2
      in if fsize + append_len > MAX_FILE_BUF_SIZE then Some (Inl ())
         else (case move_chars append_len (rev [sec_e + append_len .. fsize + append_len]) p of
                 None \<Rightarrow> None
               | Some q \<Rightarrow> map_option Inr (put_chars q sec_e (key @ CHR ''='' # v @ [CHR 0x0A]))))"

definition replace_value :: "string \<Rightarrow> int \<Rightarrow> int \<Rightarrow> int \<Rightarrow> ini_buf \<Rightarrow> (unit + ini_buf) option" where
  "replace_value v vs ve fsize p =
     (let append_len = int (length v) - ve + vs - 1
      in if fsize + append_len > MAX_FILE_BUF_SIZE then Some (Inl ())
         else (case move_chars append_len
                      (if append_len \<le> 0 then [ve + append_len + 1 .. fsize + append_len]
                       else rev [ve + append_len + 1 .. fsize + append_len]) p of
                 None \<Rightarrow> None
               | Some q \<Rightarrow> map_option Inr (put_chars q vs v)))"

definition edit_buf :: "string \<Rightarrow> string \<Rightarrow> string \<Rightarrow> int \<Rightarrow> ini_buf \<Rightarrow> (unit + ini_buf) option" where
  "edit_buf sect key v fsize p =
     (if fsize = 0 then
        map_option Inr (put_chars p 0
          (CHR ''['' # sect @ CHR '']'' # CHR 0x0A # key @ CHR ''='' # v @ [CHR 0x0A, NUL]))
      else
        (case parse_file p sect key of
           None \<Rightarrow> None
         | Some ((sec_s, sec_e), k) \<Rightarrow>
             if sec_s = -1 then append_section sect key v fsize p
             else (case k of
                     None \<Rightarrow> insert_line key v sec_e fsize p
                   | Some (_, (vs, ve)) \<Rightarrow> replace_value v vs ve fsize p)))"

text \<open>The file is written whole: \<open>opened\<close> and \<open>written\<close> tell whether that went well. The result carries what
  the file then holds.\<close>

definition write_string ::
  "bool \<Rightarrow> bool \<Rightarrow> string \<Rightarrow> string \<Rightarrow> string \<Rightarrow> c_ini_file \<Rightarrow> ((int \<times> string option) \<times> c_ini_file) option" where
  "write_string opened written sect key v f =
     (case m_file_buf f of
        None \<Rightarrow> Some ((-1, None), set_err INI_FILE_E_NOT_INITED f)
      | Some p \<Rightarrow>
          if sect = [] \<or> key = [] \<or> v = [] then Some ((-1, None), set_err INI_FILE_E_PARAMETER f)
          else
            (case edit_buf sect key v (m_file_size f) p of
               None \<Rightarrow> None
             | Some (Inl _) \<Rightarrow> Some ((-1, None), set_err INI_FILE_E_BUF_OVERFLOW f)
             | Some (Inr q) \<Rightarrow>
                 let f1 = f\<lparr>m_file_buf := Some q\<rparr>
                 in if \<not> opened then Some ((-1, None), set_err INI_FILE_E_OPEN_FILE f1)
                    else
                      (case scan (\<lambda>c. c \<noteq> NUL) q 0 of
                         None \<Rightarrow> None
                       | Some n \<Rightarrow>
                           if \<not> written then Some ((-1, None), set_err INI_FILE_E_WRITE_FILE f1)
                           else map_option
                                  (\<lambda>t. ((0, Some t), set_err INI_FILE_E_SUCCESS (f1\<lparr>m_file_size := n\<rparr>)))
                                  (copy_out q 0 (nat n)))))"

definition write_int ::
  "bool \<Rightarrow> bool \<Rightarrow> string \<Rightarrow> string \<Rightarrow> int \<Rightarrow> c_ini_file \<Rightarrow> ((int \<times> string option) \<times> c_ini_file) option" where
  "write_int opened written sect key x f = write_string opened written sect key (sdec x) f"

section \<open>Lists\<close>

text \<open>The text of a list in the working buffer: \<open>Some None\<close> when it does not fit, \<open>None\<close> when only its end
  does not.\<close>

definition fits_working :: "string \<Rightarrow> (string \<Rightarrow> string option option) \<Rightarrow> string option option" where
  "fits_working t k =
     (if int (length t) > MAX_FILE_BUF_SIZE then Some None
      else if int (length t) = MAX_FILE_BUF_SIZE then None else k t)"

fun int_list_text :: "int list \<Rightarrow> char \<Rightarrow> string \<Rightarrow> string option option" where
  "int_list_text [] d acc = Some (Some acc)"
| "int_list_text (x # xs) d acc =
     fits_working (acc @ (if xs = [] then sdec x else sdec x @ [d])) (int_list_text xs d)"

text \<open>Strings are joined with commas, whatever the delimiter.\<close>

fun string_list_text :: "string list \<Rightarrow> string \<Rightarrow> string option option" where
  "string_list_text [] acc = Some (Some acc)"
| "string_list_text (x # xs) acc = fits_working (acc @ CHR '','' # x) (string_list_text xs)"

definition write_list_text ::
  "bool \<Rightarrow> bool \<Rightarrow> string \<Rightarrow> string \<Rightarrow> bool \<Rightarrow> string option option \<Rightarrow> c_ini_file \<Rightarrow>
   ((int \<times> string option) \<times> c_ini_file) option" where
  "write_list_text opened written sect key is_empty t f =
     (if is_empty then Some ((0, None), f)
      else if \<not> m_working f then Some ((-1, None), set_err INI_FILE_E_NOT_INITED f)
      else case t of
          None \<Rightarrow> None
        | Some None \<Rightarrow> Some ((-1, None), set_err INI_FILE_E_BUF_OVERFLOW f)
        | Some (Some s) \<Rightarrow> write_string opened written sect key s f)"

definition write_int_list ::
  "bool \<Rightarrow> bool \<Rightarrow> string \<Rightarrow> string \<Rightarrow> int list \<Rightarrow> char \<Rightarrow> c_ini_file \<Rightarrow>
   ((int \<times> string option) \<times> c_ini_file) option" where
  "write_int_list opened written sect key xs d f =
     write_list_text opened written sect key (xs = []) (int_list_text xs d []) f"

definition write_string_list ::
  "bool \<Rightarrow> bool \<Rightarrow> string \<Rightarrow> string \<Rightarrow> string list \<Rightarrow> char \<Rightarrow> c_ini_file \<Rightarrow>
   ((int \<times> string option) \<times> c_ini_file) option" where
  "write_string_list opened written sect key xs d f =
     write_list_text opened written sect key (xs = []) (fits_working (hd xs) (string_list_text (tl xs))) f"

text \<open>The parts of a text between delimiters, at most \<open>n\<close>.\<close>

fun split_at :: "char \<Rightarrow> nat \<Rightarrow> string \<Rightarrow> string \<Rightarrow> string list" where
  "split_at d 0 cur s = []"
| "split_at d (Suc n) cur [] = [cur]"
| "split_at d (Suc n) cur (c # cs) =
     (if c = d then cur # split_at d n [] cs else split_at d (Suc n) (cur @ [c]) cs)"

definition read_list ::
  "string \<Rightarrow> string \<Rightarrow> nat \<Rightarrow> char \<Rightarrow> (string list \<Rightarrow> 'a list option) \<Rightarrow> c_ini_file \<Rightarrow>
   ((int \<times> 'a list) \<times> c_ini_file) option" where
  "read_list sect key n d convert f =
     (if \<not> m_working f then Some ((-1, []), set_err INI_FILE_E_NOT_INITED f)
      else case read_string sect key MAX_FILE_BUF_SIZE None f of
          None \<Rightarrow> None
        | Some ((r, v), f1) \<Rightarrow>
            if r \<noteq> 0 then Some ((0, []), f1)
            else (case convert (split_at d n [] (the v)) of
                    None \<Rightarrow> Some ((-1, []), set_err INI_FILE_E_BUF_OVERFLOW f1)
                  | Some xs \<Rightarrow> Some ((int (length xs), xs), f1)))"

definition read_int_list ::
  "string \<Rightarrow> string \<Rightarrow> nat \<Rightarrow> char \<Rightarrow> c_ini_file \<Rightarrow> ((int \<times> int list) \<times> c_ini_file) option" where
  "read_int_list sect key n d f = read_list sect key n d (\<lambda>ps. Some (map c_atoi ps)) f"

text \<open>The slots of \<open>list_len\<close> bytes lie one behind the other; a part that fills its slot runs into the
  next one.\<close>

definition read_string_list ::
  "string \<Rightarrow> string \<Rightarrow> nat \<Rightarrow> nat \<Rightarrow> char \<Rightarrow> c_ini_file \<Rightarrow> ((int \<times> string list) \<times> c_ini_file) option" where
  "read_string_list sect key n list_len d f =
     read_list sect key n d (\<lambda>ps. if \<exists>p \<in> set ps. length p > list_len then None else Some ps) f"

section \<open>Bytes as hexadecimal text\<close>

text \<open>A \<^verbatim>\<open>char\<close> is signed: the high digit of a byte from 128 on is negative, and no digit comes out.\<close>

definition hex_char :: "int \<Rightarrow> char" where
  "hex_char d = char_of (nat ((if d > 9 then 65 + d - 10 else 48 + d) mod 256))"

definition byte2hexstr :: "byte \<Rightarrow> string" where
  "byte2hexstr b = [hex_char (sint b div 16), hex_char (sint b mod 16)]"

definition char_in :: "char \<Rightarrow> nat \<Rightarrow> nat \<Rightarrow> bool" where
  "char_in c lo hi \<longleftrightarrow> lo \<le> (of_char c :: nat) \<and> (of_char c :: nat) \<le> hi"

definition is_hex :: "char \<Rightarrow> bool" where
  "is_hex c \<longleftrightarrow> char_in c 48 57 \<or> char_in c 65 70 \<or> char_in c 97 102"

definition hexchar2byte :: "char \<Rightarrow> char \<Rightarrow> byte" where
  "hexchar2byte a b =
     (let x = (of_char a :: int); y = (of_char b :: int)
      in word_of_int ((x + (if x > 64 then 9 else 0)) * 16 + (y + (if y > 64 then 9 else 0)) mod 16))"

definition write_bin ::
  "bool \<Rightarrow> bool \<Rightarrow> string \<Rightarrow> string \<Rightarrow> byte list \<Rightarrow> c_ini_file \<Rightarrow>
   ((int \<times> string option) \<times> c_ini_file) option" where
  "write_bin opened written sect key bs f =
     (if \<not> m_working f then Some ((-1, None), set_err INI_FILE_E_NOT_INITED f)
      else let t = concat (map byte2hexstr bs)
           in if int (length t) \<ge> MAX_FILE_BUF_SIZE then None
              else write_string opened written sect key t f)"

fun hex_bytes :: "string \<Rightarrow> byte list option" where
  "hex_bytes [] = Some []"
| "hex_bytes [a] = (if is_hex a then Some [] else None)"
| "hex_bytes (a # b # cs) =
     (if is_hex a \<and> is_hex b then map_option (Cons (hexchar2byte a b)) (hex_bytes cs) else None)"

definition read_bin ::
  "string \<Rightarrow> string \<Rightarrow> c_ini_file \<Rightarrow> ((int \<times> byte list) \<times> c_ini_file) option" where
  "read_bin sect key f =
     (if \<not> m_working f then Some ((-1, []), set_err INI_FILE_E_NOT_INITED f)
      else case read_string sect key MAX_FILE_BUF_SIZE None f of
          None \<Rightarrow> None
        | Some ((r, v), f1) \<Rightarrow>
            if r \<noteq> 0 then Some ((0, []), f1)
            else (case hex_bytes (the v) of
                    None \<Rightarrow> Some ((-1, []), set_err INI_FILE_E_ILLEGAL_FORMAT f1)
                  | Some bs \<Rightarrow> Some ((int (length bs), bs), f1)))"

end
