(* ===== verification/IniDoc.thy ===== *)
theory IniDoc
  imports IniFile
begin

text \<open>
  What \<^verbatim>\<open>c_ini_file\<close> promises: a file is a list of sections with their keys. The text of such a
  document (\<open>render\<close>) is what the class writes; on it the search finds what the document holds,
  and an edit of the buffer is an edit of the document.
\<close>

section \<open>What the buffer holds\<close>

fun holds_at :: "ini_buf \<Rightarrow> int \<Rightarrow> string \<Rightarrow> bool" where
  "holds_at p i [] = True"
| "holds_at p i (c # s) = (fetch p i = Some c \<and> holds_at p (i + 1) s)"

lemma holds_at_append [simp]:
  "holds_at p i (a @ b) \<longleftrightarrow> holds_at p i a \<and> holds_at p (i + int (length a)) b"
  by (induction a arbitrary: i) (auto simp: ac_simps)

lemma holds_at_nth: "holds_at p i s \<Longrightarrow> k < length s \<Longrightarrow> fetch p (i + int k) = Some (s ! k)"
proof (induction s arbitrary: i k)
  case (Cons c s)
  then show ?case by (cases k) (force simp: ac_simps)+
qed simp

lemma holds_at_iff: "holds_at p i s \<longleftrightarrow> (\<forall>k < length s. fetch p (i + int k) = Some (s ! k))"
proof (induction s arbitrary: i)
  case (Cons c s)
  have "(\<forall>k < length (c # s). fetch p (i + int k) = Some ((c # s) ! k)) \<longleftrightarrow>
      fetch p i = Some c \<and> (\<forall>k < length s. fetch p (i + int (Suc k)) = Some (s ! k))"
    by (auto simp: less_Suc_eq_0_disj)
  with Cons show ?case by (simp add: ac_simps)
qed simp

lemma holds_at_cong:
  "(\<And>k. k < length s \<Longrightarrow> fetch q (i + int k) = fetch p (j + int k)) \<Longrightarrow> holds_at p j s \<Longrightarrow> holds_at q i s"
  by (simp add: holds_at_iff)

lemma holds_at_bounds: "holds_at p i s \<Longrightarrow> s \<noteq> [] \<Longrightarrow> 0 \<le> i \<and> i + int (length s) \<le> MAX_FILE_BUF_SIZE"
proof -
  assume a: "holds_at p i s" "s \<noteq> []"
  then have "fetch p (i + int 0) = Some (s ! 0)" "fetch p (i + int (length s - 1)) = Some (s ! (length s - 1))"
    using holds_at_nth [OF a(1), of 0] holds_at_nth [OF a(1), of "length s - 1"] by simp_all
  with a(2) show ?thesis by (auto dest!: fetch_bounds simp: Suc_le_eq of_nat_diff)
qed

lemma scan_holds:
  "holds_at p i (a @ c # r) \<Longrightarrow> \<forall>x \<in> set a. P x \<Longrightarrow> \<not> P c \<Longrightarrow> scan P p i = Some (i + int (length a))"
proof (induction a arbitrary: i)
  case Nil
  then show ?case by (subst scan.simps) simp
next
  case (Cons x a)
  then show ?case by (subst scan.simps) (simp add: ac_simps)
qed

section \<open>Tokens\<close>

definition plain :: "string \<Rightarrow> bool" where
  "plain s \<longleftrightarrow> (\<forall>c \<in> set s. \<not> ini_newline c \<and> c \<noteq> NUL)"

definition trimmed :: "string \<Rightarrow> bool" where
  "trimmed t \<longleftrightarrow> t = [] \<or> \<not> is_space (hd t) \<and> \<not> is_space (last t)"

lemma trim_holds:
  assumes "holds_at p i t" "trimmed t"
  shows "trim_token p i (i + int (length t) - 1) = Some (i, i + int (length t) - 1)"
proof (cases "length t < 2")
  case True
  then show ?thesis by (simp add: trim_token_def trim_left.simps trim_right.simps)
next
  case False
  then have ne: "t \<noteq> []" by auto
  have "fetch p (i + int 0) = Some (t ! 0)" "fetch p (i + int (length t - 1)) = Some (t ! (length t - 1))"
    using holds_at_nth [OF assms(1), of 0] holds_at_nth [OF assms(1), of "length t - 1"] ne by simp_all
  moreover have "i + int (length t - 1) = i + int (length t) - 1" using ne by (simp add: of_nat_diff Suc_le_eq)
  ultimately have "fetch p i = Some (hd t)" "fetch p (i + int (length t) - 1) = Some (last t)"
    using ne by (simp_all add: hd_conv_nth last_conv_nth add_diff_eq)
  with assms(2) ne show ?thesis
    by (simp add: trim_token_def trim_left.simps [of p i] trim_right.simps [of p i] trimmed_def)
qed

lemma strn_eq_holds: "holds_at p i t \<Longrightarrow> length u = length t \<Longrightarrow> strn_eq p i u = Some (t = u)"
proof (induction t arbitrary: i u)
  case (Cons c t)
  then show ?case by (cases u) auto
qed simp

lemma token_is_holds:
  "holds_at p i t \<Longrightarrow> token_is p (i, i + int (length t) - 1) u = Some (t = u)"
  by (cases "length u = length t") (auto simp: token_is_def strn_eq_holds)

lemma find_eq_holds:
  assumes "holds_at p j (k @ CHR ''='' # r)" "CHR ''='' \<notin> set k" "k \<noteq> []" "j + int (length k) < i"
  shows "find_eq p j i = Some (Some (j + int (length k)))"
  using assms
proof (induction k arbitrary: j)
  case (Cons c k)
  show ?case
  proof (cases k)
    case Nil
    with Cons.prems show ?thesis by (subst find_eq.simps) simp
  next
    case (Cons d k')
    have "find_eq p (j + 1) i = Some (Some (j + 1 + int (length k)))"
      by (rule Cons.IH) (use Cons.prems Cons in \<open>simp_all add: ac_simps\<close>)
    with Cons.prems Cons show ?thesis by (subst find_eq.simps) (auto simp: ac_simps)
  qed
qed simp

section \<open>Lines and sections\<close>

definition wf_key :: "string \<Rightarrow> bool" where
  "wf_key k \<longleftrightarrow> k \<noteq> [] \<and> plain k \<and> CHR ''='' \<notin> set k \<and> hd k \<noteq> CHR '':'' \<and> hd k \<noteq> CHR ''['' \<and>
     \<not> c_isspace (hd k) \<and> trimmed k"

definition wf_value :: "string \<Rightarrow> bool" where
  "wf_value v \<longleftrightarrow> plain v \<and> trimmed v"

definition wf_name :: "string \<Rightarrow> bool" where
  "wf_name s \<longleftrightarrow> s \<noteq> [] \<and> plain s \<and> CHR '']'' \<notin> set s \<and> trimmed s"

definition LF :: char where "LF = CHR 0x0A"

definition line_text :: "string \<times> string \<Rightarrow> string" where
  "line_text e = fst e @ CHR ''='' # snd e @ [LF]"

definition lines_text :: "(string \<times> string) list \<Rightarrow> string" where
  "lines_text kvs = concat (map line_text kvs)"

lemma chars_simps [simp]:
  "ini_newline LF" "LF \<noteq> NUL" "LF \<noteq> CHR ''[''" "\<not> end_of_string LF" "end_of_string NUL"
  "\<not> ini_newline NUL" "LF \<noteq> CHR '':''" "LF \<noteq> CHR ''=''" "c_isspace LF" "\<not> c_isspace (CHR ''['')"
  "\<not> c_isspace NUL" "NUL \<noteq> CHR ''[''" "CHR ''['' \<noteq> NUL" "\<not> end_of_string (CHR ''['')" "NUL \<noteq> LF"
  "\<not> end_of_string (CHR '']'')" "\<not> ini_newline (CHR '']'')" "\<not> ini_newline (CHR ''='')"
  "\<not> end_of_string (CHR ''='')" "CHR ''['' \<noteq> LF"
  by (simp_all add: LF_def NUL_def ini_newline_def end_of_string_def c_isspace_def)

lemma plain_simps [simp]:
  "plain []" "plain (c # s) \<longleftrightarrow> \<not> ini_newline c \<and> c \<noteq> NUL \<and> plain s" "plain (s @ t) \<longleftrightarrow> plain s \<and> plain t"
  by (auto simp: plain_def)

lemma plain_tl: "plain s \<Longrightarrow> plain (tl s)"
  by (cases s) auto

definition line_pos :: "int \<Rightarrow> string \<times> string \<Rightarrow> key_pos" where
  "line_pos i e = ((i, i + int (length (fst e)) - 1),
     (i + int (length (fst e)) + 1, i + int (length (fst e)) + int (length (snd e))))"

lemma parse_line_holds:
  assumes "holds_at p i (line_text e)" "wf_key (fst e)" "wf_value (snd e)"
  shows "parse_line p key i (i + int (length (line_text e)) - 1) =
    Some (if fst e = key then Some (line_pos i e) else None)"
proof -
  obtain k v where e: "e = (k, v)" by (cases e)
  have k: "k \<noteq> []" "CHR ''='' \<notin> set k" "trimmed k" "hd k \<noteq> CHR '':''"
    using assms(2) by (simp_all add: e wf_key_def)
  have h: "holds_at p i (k @ CHR ''='' # v @ [LF])" using assms(1) by (simp add: e line_text_def)
  have f: "fetch p i = Some (hd k)" using h k(1) by (cases k) auto
  let ?j = "i + int (length k)"
  let ?e = "?j + 1 + int (length v)"
  have l: "i + int (length (line_text e)) - 1 = ?e" by (simp add: e line_text_def)
  have "find_eq p i ?e = Some (Some ?j)" using find_eq_holds [OF h k(2,1)] by simp
  moreover have "trim_token p i (?j - 1) = Some (i, ?j - 1)" using trim_holds [OF _ k(3)] h by simp
  moreover have "token_is p (i, ?j - 1) key = Some (k = key)" using token_is_holds h by simp
  moreover have "trim_token p (?j + 1) (?e - 1) = Some (?j + 1, ?e - 1)"
    using trim_holds [of p "?j + 1" v] h assms(3) by (simp add: e wf_value_def algebra_simps)
  ultimately show ?thesis using f k(4) unfolding l
    by (cases "k = key") (simp_all add: parse_line_def line_pos_def e add.assoc)
qed

definition newline_before :: "ini_buf \<Rightarrow> int \<Rightarrow> bool" where
  "newline_before p i \<longleftrightarrow> (\<exists>a. fetch p (i - 1) = Some a \<and> ini_newline a)"

lemma line_ends:
  assumes "holds_at p i (line_text e)"
  shows "newline_before p (i + int (length (line_text e)))"
  using assms by (auto simp: newline_before_def line_text_def algebra_simps)

lemma scan_line:
  assumes "holds_at p i (line_text e)" "wf_key (fst e)" "wf_value (snd e)"
  shows "scan (\<lambda>c. \<not> ini_newline c \<and> \<not> end_of_string c) p i = Some (i + int (length (line_text e)) - 1)"
proof -
  have pl: "plain (fst e @ CHR ''='' # snd e)" using assms(2,3) by (simp add: wf_key_def wf_value_def NUL_def)
  have "holds_at p i ((fst e @ CHR ''='' # snd e) @ LF # [])" using assms(1) by (simp add: line_text_def)
  from scan_holds [OF this] pl show ?thesis
    by (simp add: plain_def line_text_def end_of_string_def)
qed

lemma parse_lines_step:
  assumes "holds_at p i (line_text e)" "wf_key (fst e)" "wf_value (snd e)" "newline_before p i"
  shows "parse_lines p key i =
    (if fst e = key then Some (Inr (line_pos i e)) else parse_lines p key (i + int (length (line_text e))))"
proof -
  obtain a where a: "fetch p (i - 1) = Some a" "ini_newline a" using assms(4) by (auto simp: newline_before_def)
  have k: "fst e \<noteq> []" "plain (fst e)" "hd (fst e) \<noteq> CHR ''[''" using assms(2) by (simp_all add: wf_key_def)
  then obtain c where c: "fetch p i = Some c" "c \<noteq> CHR ''[''" "\<not> end_of_string c"
    using assms(1) by (cases "fst e") (auto simp: line_text_def end_of_string_def)
  show ?thesis
    using a c scan_line [OF assms(1-3)] parse_line_holds [OF assms(1-3), of key]
    by (subst parse_lines.simps) simp
qed

text \<open>What follows a section: nothing, or an empty line and the next one.\<close>

definition next_ok :: "string \<Rightarrow> bool" where
  "next_ok r \<longleftrightarrow> r = [] \<or> (\<exists>r'. r = LF # CHR ''['' # r')"

definition gap :: "string \<Rightarrow> int" where
  "gap r = (if r = [] then 0 else 1)"

lemma parse_lines_end:
  assumes "holds_at p i (r @ [NUL])" "next_ok r" "newline_before p i"
  shows "parse_lines p key i = Some (Inl (i + gap r))"
proof -
  obtain a where a: "fetch p (i - 1) = Some a" "ini_newline a" using assms(3) by (auto simp: newline_before_def)
  show ?thesis
  proof (cases "r = []")
    case True
    with assms(1) a show ?thesis by (subst parse_lines.simps) (simp add: gap_def)
  next
    case False
    then obtain r' where r: "r = LF # CHR ''['' # r'" using assms(2) by (auto simp: next_ok_def)
    then have f: "fetch p i = Some LF" "fetch p (i + 1) = Some (CHR ''['')" using assms(1) by simp_all
    have "scan (\<lambda>c. \<not> ini_newline c \<and> \<not> end_of_string c) p i = Some i" using f by (subst scan.simps) simp
    moreover have "parse_line p key i i = Some None" using f by (simp add: parse_line_def find_eq.simps)
    moreover have "parse_lines p key (i + 1) = Some (Inl (i + 1))" using f by (subst parse_lines.simps) simp
    ultimately show ?thesis using a f False by (subst parse_lines.simps) (simp add: gap_def)
  qed
qed

definition wf_lines :: "(string \<times> string) list \<Rightarrow> bool" where
  "wf_lines kvs \<longleftrightarrow> (\<forall>e \<in> set kvs. wf_key (fst e) \<and> wf_value (snd e))"

lemma wf_lines_simps [simp]:
  "wf_lines []" "wf_lines (e # es) \<longleftrightarrow> wf_key (fst e) \<and> wf_value (snd e) \<and> wf_lines es"
  "wf_lines (as @ bs) \<longleftrightarrow> wf_lines as \<and> wf_lines bs"
  by (auto simp: wf_lines_def)

lemma lines_text_simps [simp]:
  "lines_text [] = []" "lines_text (e # es) = line_text e @ lines_text es"
  "lines_text (as @ bs) = lines_text as @ lines_text bs"
  by (simp_all add: lines_text_def)

lemma parse_lines_skip:
  "holds_at p i (lines_text kvs) \<Longrightarrow> wf_lines kvs \<Longrightarrow> newline_before p i \<Longrightarrow> key \<notin> fst ` set kvs \<Longrightarrow>
   parse_lines p key i = parse_lines p key (i + int (length (lines_text kvs))) \<and>
   newline_before p (i + int (length (lines_text kvs)))"
proof (induction kvs arbitrary: i)
  case (Cons e kvs)
  then have h: "holds_at p i (line_text e)" "wf_key (fst e)" "wf_value (snd e)" by simp_all
  have "parse_lines p key i = parse_lines p key (i + int (length (line_text e)))"
    using parse_lines_step [OF h Cons.prems(3), of key] Cons.prems(4) by auto
  moreover have "newline_before p (i + int (length (line_text e)))" by (rule line_ends [OF h(1)])
  ultimately show ?case using Cons.IH [of "i + int (length (line_text e))"] Cons.prems
    by (simp add: ac_simps)
qed simp

section \<open>Documents\<close>

type_synonym ini_section = "string \<times> (string \<times> string) list"
type_synonym ini_doc = "ini_section list"

definition section_text :: "ini_section \<Rightarrow> string" where
  "section_text x = CHR ''['' # fst x @ CHR '']'' # LF # lines_text (snd x)"

fun rest_text :: "ini_doc \<Rightarrow> string" where
  "rest_text [] = []"
| "rest_text (x # xs) = LF # section_text x @ rest_text xs"

fun render :: "ini_doc \<Rightarrow> string" where
  "render [] = []"
| "render (x # xs) = section_text x @ rest_text xs"

definition wf_section :: "ini_section \<Rightarrow> bool" where
  "wf_section x \<longleftrightarrow> wf_name (fst x) \<and> snd x \<noteq> [] \<and> wf_lines (snd x) \<and> distinct (map fst (snd x))"

definition wf_doc :: "ini_doc \<Rightarrow> bool" where
  "wf_doc doc \<longleftrightarrow> (\<forall>x \<in> set doc. wf_section x) \<and> distinct (map fst doc)"

lemma rest_text_append [simp]: "rest_text (xs @ ys) = rest_text xs @ rest_text ys"
  by (induction xs) auto

lemma next_ok_rest [simp]: "next_ok (rest_text xs)"
  by (cases xs) (auto simp: next_ok_def section_text_def)

text \<open>A section in the buffer whose name is another one, or which is the one looked for.\<close>

lemma section_holds:
  assumes "holds_at p i (section_text x)" "wf_section x"
  shows "scan (\<lambda>c. c \<noteq> CHR '']'' \<and> \<not> end_of_string c) p (i + 1) = Some (i + 1 + int (length (fst x)))"
    "trim_token p (i + 1) (i + 1 + int (length (fst x)) - 1) = Some (i + 1, i + 1 + int (length (fst x)) - 1)"
    "token_is p (i + 1, i + 1 + int (length (fst x)) - 1) sect = Some (fst x = sect)"
    "scan c_isspace p (i + 1 + int (length (fst x)) + 1) = Some (i + int (length (fst x)) + 3)"
    "newline_before p (i + int (length (fst x)) + 3)"
    "holds_at p (i + int (length (fst x)) + 3) (lines_text (snd x))"
proof -
  have h: "holds_at p (i + 1) (fst x @ CHR '']'' # LF # lines_text (snd x))"
    using assms(1) by (simp add: section_text_def)
  have n: "CHR '']'' \<notin> set (fst x)" "plain (fst x)" "trimmed (fst x)"
    using assms(2) by (simp_all add: wf_section_def wf_name_def)
  show "scan (\<lambda>c. c \<noteq> CHR '']'' \<and> \<not> end_of_string c) p (i + 1) = Some (i + 1 + int (length (fst x)))"
    by (rule scan_holds [OF h]) (use n in \<open>auto simp: plain_def end_of_string_def\<close>)
  show "trim_token p (i + 1) (i + 1 + int (length (fst x)) - 1) = Some (i + 1, i + 1 + int (length (fst x)) - 1)"
    by (rule trim_holds) (use h n in auto)
  show "token_is p (i + 1, i + 1 + int (length (fst x)) - 1) sect = Some (fst x = sect)"
    by (rule token_is_holds) (use h in auto)
  obtain e es where e: "snd x = e # es" "wf_key (fst e)"
    using assms(2) by (cases "snd x") (auto simp: wf_section_def)
  obtain c r where c: "fst e = c # r" "\<not> c_isspace c"
    using e(2) by (cases "fst e") (auto simp: wf_key_def)
  let ?j = "i + 1 + int (length (fst x)) + 1"
  have j: "holds_at p ?j ([LF] @ c # [])" using h e(1) c(1) by (simp add: line_text_def algebra_simps)
  then have "scan c_isspace p ?j = Some (?j + 1)" using scan_holds [OF j, of c_isspace] c(2) by simp
  then show "scan c_isspace p ?j = Some (i + int (length (fst x)) + 3)" by (simp add: algebra_simps)
  show "newline_before p (i + int (length (fst x)) + 3)"
    using h by (simp add: newline_before_def algebra_simps)
  show "holds_at p (i + int (length (fst x)) + 3) (lines_text (snd x))"
    using h by (simp add: algebra_simps)
qed

lemma parse_section_other:
  assumes "holds_at p i (section_text x)" "wf_section x" "fst x \<noteq> sect"
  shows "parse_section p sect key i sec = Some (sec, Inl (i + 1 + int (length (fst x))))"
  using section_holds(1,2,3) [OF assms(1,2)] assms(3) by (simp add: parse_section_def)

lemma parse_section_this:
  assumes "holds_at p i (section_text x)" "wf_section x"
  shows "parse_section p (fst x) key i sec =
    map_option (Pair (i + 1, i + int (length (fst x)) + 3)) (parse_lines p key (i + int (length (fst x)) + 3))"
proof -
  note s = section_holds(1,2,4) [OF assms] section_holds(3) [OF assms, of "fst x"]
  show ?thesis using s by (simp add: parse_section_def del: map_option_eq_Some)
qed

section \<open>Going over a section of another name\<close>

definition at_start :: "ini_buf \<Rightarrow> int \<Rightarrow> bool" where
  "at_start p i \<longleftrightarrow> i = 0 \<or> newline_before p i"

lemma parse_from_start:
  assumes "at_start p i" "fetch p i = Some c" "\<not> end_of_string c"
  shows "parse_from p sect key i sec =
    (case scan c_isspace p i of
       None \<Rightarrow> None
     | Some i1 \<Rightarrow>
         (case fetch p i1 of
            None \<Rightarrow> None
          | Some d \<Rightarrow>
              if d = CHR ''['' then
                (case parse_section p sect key i1 sec of
                   None \<Rightarrow> None
                 | Some (s, Inr r) \<Rightarrow> Some (s, Some r)
                 | Some (s, Inl j) \<Rightarrow> parse_from p sect key j s)
              else parse_from p sect key (i1 + 1) sec))"
proof -
  have "i = 0 \<or> (case fetch p (i - 1) of None \<Rightarrow> False | Some a \<Rightarrow> ini_newline a)"
    using assms(1) by (auto simp: at_start_def newline_before_def)
  then show ?thesis using assms(2,3) by (subst parse_from.simps) simp
qed

lemma parse_from_inside:
  assumes "fetch p (i - 1) = Some a" "\<not> ini_newline a" "fetch p i = Some c" "\<not> end_of_string c"
  shows "parse_from p sect key i sec = parse_from p sect key (i + 1) sec"
proof -
  have "i \<noteq> 0" using assms(1) by (auto simp: fetch_def)
  with assms show ?thesis by (subst parse_from.simps) simp
qed

lemma parse_from_plain:
  "holds_at p i s \<Longrightarrow> plain s \<Longrightarrow> fetch p (i - 1) = Some a \<Longrightarrow> \<not> ini_newline a \<Longrightarrow>
   parse_from p sect key i sec = parse_from p sect key (i + int (length s)) sec \<and>
   (\<exists>b. fetch p (i + int (length s) - 1) = Some b \<and> \<not> ini_newline b)"
proof (induction s arbitrary: i a)
  case (Cons c s)
  have "parse_from p sect key i sec = parse_from p sect key (i + 1) sec"
    using Cons.prems by (intro parse_from_inside [of p i a c]) (auto simp: end_of_string_def)
  with Cons.IH [of "i + 1" c] Cons.prems show ?case by (simp add: ac_simps)
qed auto

lemma parse_from_line:
  assumes "holds_at p i (line_text e)" "wf_key (fst e)" "wf_value (snd e)" "at_start p i"
  shows "parse_from p sect key i sec = parse_from p sect key (i + int (length (line_text e))) sec"
proof -
  obtain c r where c: "fst e = c # r" using assms(2) by (cases "fst e") (auto simp: wf_key_def)
  have k: "\<not> c_isspace c" "c \<noteq> CHR ''[''" "\<not> ini_newline c" "c \<noteq> NUL" "plain r" "plain (snd e)"
    using assms(2,3) c by (auto simp: wf_key_def wf_value_def)
  let ?s = "r @ CHR ''='' # snd e"
  have h: "fetch p i = Some c" "holds_at p (i + 1) (?s @ [LF])"
    using assms(1) c by (simp_all add: line_text_def algebra_simps)
  have "scan c_isspace p i = Some i" using h k by (subst scan.simps) simp
  then have "parse_from p sect key i sec = parse_from p sect key (i + 1) sec"
    using parse_from_start [OF assms(4) h(1)] k h(1) by (simp add: end_of_string_def)
  also have "plain ?s" using k by (simp add: NUL_def)
  then have "parse_from p sect key (i + 1) sec = parse_from p sect key (i + 1 + int (length ?s)) sec \<and>
      (\<exists>b. fetch p (i + 1 + int (length ?s) - 1) = Some b \<and> \<not> ini_newline b)"
    using h k by (intro parse_from_plain) auto
  then obtain b where "parse_from p sect key (i + 1) sec = parse_from p sect key (i + 1 + int (length ?s)) sec"
      "fetch p (i + 1 + int (length ?s) - 1) = Some b" "\<not> ini_newline b"
    by blast
  note this(1)
  also have "parse_from p sect key (i + 1 + int (length ?s)) sec = parse_from p sect key (i + 1 + int (length ?s) + 1) sec"
    using \<open>fetch p (i + 1 + int (length ?s) - 1) = Some b\<close> \<open>\<not> ini_newline b\<close> h(2)
    by (intro parse_from_inside [of p _ b LF]) (simp_all add: algebra_simps)
  also have "i + 1 + int (length ?s) + 1 = i + int (length (line_text e))"
    by (simp add: line_text_def c)
  finally show ?thesis .
qed

lemma parse_from_lines:
  "holds_at p i (lines_text kvs) \<Longrightarrow> wf_lines kvs \<Longrightarrow> at_start p i \<Longrightarrow>
   parse_from p sect key i sec = parse_from p sect key (i + int (length (lines_text kvs))) sec \<and>
   at_start p (i + int (length (lines_text kvs)))"
proof (induction kvs arbitrary: i)
  case (Cons e kvs)
  then have h: "holds_at p i (line_text e)" "wf_key (fst e)" "wf_value (snd e)" by simp_all
  have "at_start p (i + int (length (line_text e)))" using line_ends [OF h(1)] by (simp add: at_start_def)
  with Cons.IH [of "i + int (length (line_text e))"] Cons.prems parse_from_line [OF h] show ?case
    by (simp add: ac_simps)
qed simp

lemma parse_from_other:
  assumes "holds_at p i (section_text x)" "wf_section x" "fst x \<noteq> sect" "at_start p i"
  shows "parse_from p sect key i sec = parse_from p sect key (i + int (length (section_text x))) sec \<and>
    at_start p (i + int (length (section_text x)))"
proof -
  have f: "fetch p i = Some (CHR ''['')" using assms(1) by (simp add: section_text_def)
  have n: "fst x \<noteq> []" "plain (fst x)" using assms(2) by (simp_all add: wf_section_def wf_name_def)
  let ?e = "i + 1 + int (length (fst x))"
  have "scan c_isspace p i = Some i" using f by (subst scan.simps) simp
  then have "parse_from p sect key i sec = parse_from p sect key ?e sec"
    using parse_from_start [OF assms(4) f] f parse_section_other [OF assms(1-3)] by simp
  also have f1: "fetch p (?e - 1) = Some (last (fst x))"
    using holds_at_nth [of p "i + 1" "fst x" "length (fst x) - 1"] assms(1) n(1)
    by (simp add: section_text_def last_conv_nth of_nat_diff Suc_le_eq algebra_simps)
  have "\<not> ini_newline (last (fst x))" using n by (simp add: plain_def)
  have f2: "fetch p ?e = Some (CHR '']'')" "fetch p (?e + 1) = Some LF"
    using assms(1) by (simp_all add: section_text_def algebra_simps)
  have "parse_from p sect key ?e sec = parse_from p sect key (?e + 1) sec"
    by (rule parse_from_inside [OF f1 _ f2(1)]) (use n in \<open>simp_all add: plain_def\<close>)
  also have "\<dots> = parse_from p sect key (?e + 1 + 1) sec"
    by (rule parse_from_inside [of _ _ "CHR '']''", OF _ _ f2(2)]) (use f2(1) in \<open>simp_all add: algebra_simps\<close>)
  finally have "parse_from p sect key i sec = parse_from p sect key (?e + 1 + 1) sec" .
  moreover have "?e + 1 + 1 = i + int (length (fst x)) + 3" by simp
  moreover have "wf_lines (snd x)" using assms(2) by (simp add: wf_section_def)
  moreover note section_holds(5,6) [OF assms(1,2)]
  ultimately show ?thesis
    using parse_from_lines [of p "i + int (length (fst x)) + 3" "snd x" sect key sec]
    by (simp add: at_start_def section_text_def algebra_simps)
qed

text \<open>The empty line before a section.\<close>

lemma parse_from_gap:
  assumes "holds_at p i (LF # CHR ''['' # r)" "at_start p i"
  shows "parse_from p sect key i sec = parse_from p sect key (i + 1) sec \<and> at_start p (i + 1)"
proof -
  have f: "fetch p i = Some LF" "fetch p (i + 1) = Some (CHR ''['')" using assms(1) by simp_all
  then have s: "at_start p (i + 1)" by (simp add: at_start_def newline_before_def)
  have "scan c_isspace p i = Some (i + 1)" "scan c_isspace p (i + 1) = Some (i + 1)"
    using scan_holds [of p i "[LF]" "CHR ''[''" r c_isspace] scan_holds [of p "i + 1" "[]" "CHR ''[''" r c_isspace]
      assms(1) by simp_all
  then show ?thesis
    using parse_from_start [OF assms(2) f(1)] parse_from_start [OF s f(2)] f s by simp
qed

section \<open>Finding in a document\<close>

lemma parse_from_others:
  assumes "holds_at p i (rest_text xs)" "\<forall>x \<in> set xs. wf_section x \<and> fst x \<noteq> sect" "at_start p i"
  shows "parse_from p sect key i sec = parse_from p sect key (i + int (length (rest_text xs))) sec \<and>
    at_start p (i + int (length (rest_text xs)))"
  using assms
proof (induction xs arbitrary: i)
  case (Cons x xs)
  have h: "holds_at p i (LF # CHR ''['' # tl (section_text x))" "holds_at p (i + 1) (section_text x)"
    using Cons.prems(1) by (auto simp: section_text_def)
  note g = parse_from_gap [OF h(1) Cons.prems(3)]
  have "parse_from p sect key (i + 1) sec = parse_from p sect key (i + 1 + int (length (section_text x))) sec \<and>
      at_start p (i + 1 + int (length (section_text x)))"
    by (rule parse_from_other [OF h(2)]) (use Cons.prems(2) g in auto)
  with g Cons.IH [of "i + 1 + int (length (section_text x))"] Cons.prems show ?case
    by (simp add: ac_simps)
qed simp

lemma parse_from_end: "fetch p i = Some NUL \<Longrightarrow> parse_from p sect key i sec = Some (sec, None)"
  by (subst parse_from.simps) simp

lemma parse_from_tail:
  assumes "holds_at p i (rest_text xs @ [NUL])" "\<forall>x \<in> set xs. wf_section x \<and> fst x \<noteq> sect" "at_start p i"
  shows "parse_from p sect key (i + gap (rest_text xs)) sec = Some (sec, None)"
proof (cases xs)
  case Nil
  with assms(1) show ?thesis by (simp add: gap_def parse_from_end)
next
  case (Cons y ys)
  have hg: "holds_at p i (LF # CHR ''['' # tl (section_text y))"
    using assms(1) Cons by (simp add: section_text_def)
  have "holds_at p i (rest_text xs)" "fetch p (i + int (length (rest_text xs))) = Some NUL"
    using assms(1) by simp_all
  then have "parse_from p sect key i sec = Some (sec, None)"
    using parse_from_others [OF _ assms(2,3), of key sec] parse_from_end by simp
  with parse_from_gap [OF hg assms(3), of sect key sec] Cons show ?thesis by (simp add: gap_def)
qed

text \<open>The section looked for, at its bracket, with the other sections after it.\<close>

lemma parse_from_this:
  assumes "holds_at p i (section_text x @ rest_text xs @ [NUL])" "wf_section x" "at_start p i"
    "\<forall>y \<in> set xs. wf_section y \<and> fst y \<noteq> fst x"
  shows "key \<notin> fst ` set (snd x) \<Longrightarrow>
      parse_from p (fst x) key i sec = Some ((i + 1, i + int (length (fst x)) + 3), None)"
    and "snd x = as @ e # bs \<Longrightarrow> key \<notin> fst ` set as \<Longrightarrow> key = fst e \<Longrightarrow>
      parse_from p (fst x) key i sec = Some ((i + 1, i + int (length (fst x)) + 3),
        Some (line_pos (i + int (length (fst x)) + 3 + int (length (lines_text as))) e))"
proof -
  have sh: "holds_at p i (section_text x)" using assms(1) by simp
  note sec = section_holds(5,6) [OF sh assms(2)]
  have wl: "wf_lines (snd x)" using assms(2) by (simp add: wf_section_def)
  have f: "fetch p i = Some (CHR ''['')" using sh by (simp add: section_text_def)
  have "scan c_isspace p i = Some i" using f by (subst scan.simps) simp
  then have start: "parse_from p (fst x) key i sec =
      (case parse_lines p key (i + int (length (fst x)) + 3) of
         None \<Rightarrow> None
       | Some (Inr r) \<Rightarrow> Some ((i + 1, i + int (length (fst x)) + 3), Some r)
       | Some (Inl j) \<Rightarrow> parse_from p (fst x) key j (i + 1, i + int (length (fst x)) + 3))"
    using parse_from_start [OF assms(3) f] f parse_section_this [OF sh assms(2)]
    by (auto split: option.splits sum.splits)
  let ?l = "i + int (length (fst x)) + 3"
  show "parse_from p (fst x) key i sec = Some ((i + 1, ?l), None)" if k: "key \<notin> fst ` set (snd x)"
  proof -
    let ?r = "?l + int (length (lines_text (snd x)))"
    have r: "?r = i + int (length (section_text x))" by (simp add: section_text_def)
    have hr: "holds_at p ?r (rest_text xs @ [NUL])" using assms(1) unfolding r by simp
    note skip = parse_lines_skip [OF sec(2) wl sec(1) k]
    have pl: "parse_lines p key ?l = Some (Inl (?r + gap (rest_text xs)))"
      using skip parse_lines_end [OF hr next_ok_rest] by simp
    have "at_start p ?r" using skip by (simp add: at_start_def)
    from parse_from_tail [OF hr assms(4) this]
    have "parse_from p (fst x) key (?r + gap (rest_text xs)) (i + 1, ?l) = Some ((i + 1, ?l), None)" .
    with start pl show ?thesis by simp
  qed
  show "parse_from p (fst x) key i sec = Some ((i + 1, ?l), Some (line_pos (?l + int (length (lines_text as))) e))"
    if k: "snd x = as @ e # bs" "key \<notin> fst ` set as" "key = fst e"
  proof -
    have h: "holds_at p ?l (lines_text as)" "holds_at p (?l + int (length (lines_text as))) (line_text e)"
      using sec(2) k(1) by simp_all
    have w: "wf_lines as" "wf_key (fst e)" "wf_value (snd e)" using wl k(1) by simp_all
    note skip = parse_lines_skip [OF h(1) w(1) sec(1) k(2)]
    from parse_lines_step [OF h(2) w(2,3), of key] skip k(3) start show ?thesis by simp
  qed
qed

text \<open>Where a section begins in the text, behind the sections before it.\<close>

definition section_at :: "ini_doc \<Rightarrow> int" where
  "section_at xs = (if xs = [] then 0 else int (length (render xs)) + 1)"

lemma render_append: "render (xs @ y # ys) =
    render xs @ (if xs = [] then [] else [LF]) @ section_text y @ rest_text ys"
  by (cases xs) auto

lemma parse_upto:
  assumes "holds_at p 0 (render (xs @ y # ys) @ [NUL])" "\<forall>x \<in> set xs. wf_section x \<and> fst x \<noteq> sect"
  shows "parse_from p sect key 0 sec = parse_from p sect key (section_at xs) sec \<and> at_start p (section_at xs) \<and>
    holds_at p (section_at xs) (section_text y @ rest_text ys @ [NUL])"
proof (cases xs)
  case Nil
  with assms(1) show ?thesis by (simp add: section_at_def at_start_def)
next
  case (Cons x xs')
  have h: "holds_at p 0 (section_text x)" "holds_at p (int (length (section_text x))) (rest_text xs')"
      "holds_at p (int (length (render xs))) (LF # section_text y @ rest_text ys @ [NUL])"
    using assms(1) Cons by (simp_all add: ac_simps)
  have x: "wf_section x" "fst x \<noteq> sect" using assms(2) Cons by auto
  have "at_start p 0" by (simp add: at_start_def)
  from parse_from_other [OF h(1) x this, of key sec] have 1:
    "parse_from p sect key 0 sec = parse_from p sect key (int (length (section_text x))) sec"
    "at_start p (int (length (section_text x)))"
    by simp_all
  have "\<forall>x \<in> set xs'. wf_section x \<and> fst x \<noteq> sect" using assms(2) Cons by simp
  from parse_from_others [OF h(2) this 1(2), of key sec] have 2:
    "parse_from p sect key (int (length (section_text x))) sec = parse_from p sect key (int (length (render xs))) sec"
    "at_start p (int (length (render xs)))"
    using Cons by simp_all
  have "holds_at p (int (length (render xs))) (LF # CHR ''['' # tl (section_text y))"
    using h(3) by (simp add: section_text_def)
  from parse_from_gap [OF this 2(2), of sect key sec] 1 2 h(3) Cons show ?thesis
    by (simp add: section_at_def)
qed

lemma parse_absent:
  assumes "holds_at p 0 (render doc @ [NUL])" "wf_doc doc" "sect \<notin> fst ` set doc"
  shows "parse_file p sect key = Some ((-1, -1), None)"
proof (cases doc rule: rev_cases)
  case Nil
  with assms(1) show ?thesis by (simp add: parse_file_def parse_from_end)
next
  case (snoc xs y)
  have h: "holds_at p 0 (render (xs @ y # []) @ [NUL])" using assms(1) snoc by simp
  have w: "\<forall>x \<in> set xs. wf_section x \<and> fst x \<noteq> sect" "wf_section y" "fst y \<noteq> sect"
    using assms(2,3) snoc by (auto simp: wf_doc_def)
  note u = parse_upto [OF h w(1), of key "(-1, -1)"]
  have hy: "holds_at p (section_at xs) (section_text y)" using u by simp
  from parse_from_other [OF hy w(2,3), of key "(-1, -1)"] u show ?thesis
    by (simp add: parse_file_def parse_from_end)
qed

lemma parse_present:
  assumes "holds_at p 0 (render (xs @ (sect, kvs) # ys) @ [NUL])" "wf_doc (xs @ (sect, kvs) # ys)"
  shows "key \<notin> fst ` set kvs \<Longrightarrow> parse_file p sect key =
      Some ((section_at xs + 1, section_at xs + int (length sect) + 3), None)"
    and "kvs = as @ e # bs \<Longrightarrow> key \<notin> fst ` set as \<Longrightarrow> key = fst e \<Longrightarrow> parse_file p sect key =
      Some ((section_at xs + 1, section_at xs + int (length sect) + 3),
        Some (line_pos (section_at xs + int (length sect) + 3 + int (length (lines_text as))) e))"
proof -
  have w: "\<forall>x \<in> set xs. wf_section x \<and> fst x \<noteq> sect" "wf_section (sect, kvs)"
      "\<forall>y \<in> set ys. wf_section y \<and> fst y \<noteq> fst (sect, kvs)"
    using assms(2) by (auto simp: wf_doc_def)
  note u = parse_upto [OF assms(1) w(1), of key "(-1, -1)"]
  have hy: "holds_at p (section_at xs) (section_text (sect, kvs) @ rest_text ys @ [NUL])"
    and at: "at_start p (section_at xs)" using u by simp_all
  note t = parse_from_this(1) [OF hy w(2) at w(3), of key "(-1, -1)"]
    parse_from_this(2) [OF hy w(2) at w(3), of _ _ _ key "(-1, -1)"]
  show "key \<notin> fst ` set kvs \<Longrightarrow> parse_file p sect key =
      Some ((section_at xs + 1, section_at xs + int (length sect) + 3), None)"
    using t(1) u by (simp add: parse_file_def)
  show "kvs = as @ e # bs \<Longrightarrow> key \<notin> fst ` set as \<Longrightarrow> key = fst e \<Longrightarrow> parse_file p sect key =
      Some ((section_at xs + 1, section_at xs + int (length sect) + 3),
        Some (line_pos (section_at xs + int (length sect) + 3 + int (length (lines_text as))) e))"
    using t(2) [of as e bs] u by (simp add: parse_file_def)
qed

section \<open>Editing the buffer\<close>

lemma store_ok: "0 \<le> i \<Longrightarrow> i < MAX_FILE_BUF_SIZE \<Longrightarrow>
  \<exists>q. store p i c = Some q \<and> (\<forall>j. fetch q j = (if j = i then Some c else fetch p j))"
  by (auto simp: store_def fetch_def)

lemma put_chars_ok:
  "0 \<le> i \<Longrightarrow> i + int (length s) \<le> MAX_FILE_BUF_SIZE \<Longrightarrow>
   \<exists>q. put_chars p i s = Some q \<and> holds_at q i s \<and>
     (\<forall>j. j < i \<or> i + int (length s) \<le> j \<longrightarrow> fetch q j = fetch p j)"
proof (induction s arbitrary: i p)
  case (Cons c s)
  obtain q where q: "store p i c = Some q" "\<forall>j. fetch q j = (if j = i then Some c else fetch p j)"
    using store_ok [of i p c] Cons.prems by auto
  obtain r where r: "put_chars q (i + 1) s = Some r" "holds_at r (i + 1) s"
      "\<forall>j. j < i + 1 \<or> i + 1 + int (length s) \<le> j \<longrightarrow> fetch r j = fetch q j"
    using Cons.IH [of "i + 1" q] Cons.prems by auto
  then have "fetch r i = Some c" using q(2) by simp
  with q r show ?case by auto
qed simp

lemma put_chars_overflow:
  "i \<le> MAX_FILE_BUF_SIZE \<Longrightarrow> MAX_FILE_BUF_SIZE < i + int (length s) \<Longrightarrow> put_chars p i s = None"
proof (induction s arbitrary: i p)
  case (Cons c s)
  show ?case
  proof (cases "store p i c")
    case (Some q)
    then have "i + 1 \<le> MAX_FILE_BUF_SIZE" by (auto simp: store_def split: if_splits)
    with Cons Some show ?thesis by simp
  qed simp
qed simp

fun safe_order :: "int \<Rightarrow> int list \<Rightarrow> bool" where
  "safe_order d [] = True"
| "safe_order d (i # ps) = ((\<forall>j \<in> set ps. j - d \<noteq> i \<and> j \<noteq> i) \<and> safe_order d ps)"

lemma move_chars_ok:
  "safe_order d ps \<Longrightarrow> \<forall>i \<in> set ps. 0 \<le> i \<and> i < MAX_FILE_BUF_SIZE \<and> fetch p (i - d) \<noteq> None \<Longrightarrow>
   \<exists>q. move_chars d ps p = Some q \<and> (\<forall>j. fetch q j = (if j \<in> set ps then fetch p (j - d) else fetch p j))"
proof (induction ps arbitrary: p)
  case (Cons i ps)
  obtain c where c: "fetch p (i - d) = Some c" using Cons.prems(2) by auto
  obtain q where q: "store p i c = Some q" "\<forall>j. fetch q j = (if j = i then Some c else fetch p j)"
    using store_ok [of i p c] Cons.prems(2) by auto
  have "\<forall>j \<in> set ps. fetch q (j - d) = fetch p (j - d)" using q(2) Cons.prems(1) by auto
  with Cons.IH [of q] Cons.prems obtain r where r: "move_chars d ps q = Some r"
      "\<forall>j. fetch r j = (if j \<in> set ps then fetch q (j - d) else fetch q j)"
    by auto
  with c q Cons.prems(1) show ?case by (intro exI [of _ r]) auto
qed simp

lemma safe_order_append:
  "safe_order d (xs @ ys) \<longleftrightarrow> safe_order d xs \<and> safe_order d ys \<and>
     (\<forall>i \<in> set xs. \<forall>j \<in> set ys. j - d \<noteq> i \<and> j \<noteq> i)"
  by (induction xs) auto

lemma safe_order_up: "d \<le> 0 \<Longrightarrow> safe_order d [lo .. hi]"
proof (induction "nat (hi - lo + 1)" arbitrary: lo)
  case (Suc n)
  then have "lo \<le> hi" by simp
  with Suc show ?case by (subst upto_rec1) auto
qed simp

lemma safe_order_down: "0 \<le> d \<Longrightarrow> safe_order d (rev [lo .. hi])"
proof (induction "nat (hi - lo + 1)" arbitrary: hi)
  case (Suc n)
  then have "lo \<le> hi" by simp
  with Suc show ?case by (subst upto_rec2) auto
qed simp

lemma copy_out_holds: "holds_at p i s \<Longrightarrow> copy_out p i (length s) = Some s"
  by (induction s arbitrary: i) auto

lemma append_ok:
  assumes "holds_at p 0 (t @ [NUL])" "n = int (length t)" "n + int (length u) < MAX_FILE_BUF_SIZE"
  shows "\<exists>q. put_chars p n (u @ [NUL]) = Some q \<and> holds_at q 0 (t @ u @ [NUL])"
proof -
  obtain q where q: "put_chars p n (u @ [NUL]) = Some q" "holds_at q n (u @ [NUL])"
      "\<forall>j. j < n \<or> n + int (length (u @ [NUL])) \<le> j \<longrightarrow> fetch q j = fetch p j"
    using put_chars_ok [of n "u @ [NUL]" p] assms(2,3) by auto
  have "holds_at q 0 t"
    using assms(1,2) q(3) by (intro holds_at_cong [of t q 0 p 0]) auto
  with q assms(2) show ?thesis by simp
qed

text \<open>Moving the end of the text, and writing between.\<close>

lemma move_ok:
  assumes "holds_at p 0 (a @ old @ b @ [NUL])" "d = int (length u) - int (length old)"
    "lo = int (length a) + int (length u)" "hi = lo + int (length b)" "hi < MAX_FILE_BUF_SIZE"
    "ps = (if d \<le> 0 then [lo .. hi] else rev [lo .. hi])"
  shows "\<exists>q. (case move_chars d ps p of None \<Rightarrow> None | Some q \<Rightarrow> put_chars q (int (length a)) u) = Some q \<and>
    holds_at q 0 (a @ u @ b @ [NUL])"
proof -
  let ?b = "int (length a) + int (length old)"
  have hb: "holds_at p ?b (b @ [NUL])" using assms(1) by (simp add: ac_simps)
  have src: "fetch p (i - d) \<noteq> None" if "lo \<le> i" "i \<le> hi" for i
  proof -
    have "fetch p (?b + int (nat (i - lo))) = Some ((b @ [NUL]) ! nat (i - lo))"
      by (rule holds_at_nth [OF hb]) (use that assms(4) in auto)
    moreover have "?b + int (nat (i - lo)) = i - d" using that assms(2,3) by simp
    ultimately show ?thesis by simp
  qed
  have "safe_order d ps" using assms(6) safe_order_up safe_order_down by auto
  moreover have "set ps = {lo .. hi}" using assms(6) by auto
  ultimately obtain q where q: "move_chars d ps p = Some q"
      "\<forall>j. fetch q j = (if lo \<le> j \<and> j \<le> hi then fetch p (j - d) else fetch p j)"
    using move_chars_ok [of d ps p] src assms(3,5) by auto
  have "holds_at q 0 a"
    using assms(1,3) q(2) by (intro holds_at_cong [of a q 0 p 0]) auto
  moreover have "holds_at q lo (b @ [NUL])"
    using hb q(2) assms(2,3,4) by (intro holds_at_cong [of "b @ [NUL]" q lo p ?b]) (auto simp: ac_simps)
  moreover obtain r where r: "put_chars q (int (length a)) u = Some r" "holds_at r (int (length a)) u"
      "\<forall>j. j < int (length a) \<or> int (length a) + int (length u) \<le> j \<longrightarrow> fetch r j = fetch q j"
    using put_chars_ok [of "int (length a)" u q] assms(3,4,5) by auto
  ultimately have qa: "holds_at q 0 a" "holds_at q lo (b @ [NUL])"
    and r: "put_chars q (int (length a)) u = Some r" "holds_at r (int (length a)) u"
      "\<forall>j. j < int (length a) \<or> int (length a) + int (length u) \<le> j \<longrightarrow> fetch r j = fetch q j"
    by blast+
  have "holds_at r 0 a" by (rule holds_at_cong [OF _ qa(1)]) (use r(3) in auto)
  moreover have "holds_at r lo (b @ [NUL])" by (rule holds_at_cong [OF _ qa(2)]) (use r(3) assms(3) in auto)
  ultimately have "holds_at r 0 a" "holds_at r lo (b @ [NUL])" by simp_all
  with q(1) r assms(3) show ?thesis by (intro exI [of _ r]) (simp add: ac_simps)
qed

lemma insert_line_ok:
  assumes "holds_at p 0 (a @ b @ [NUL])" "int (length (a @ line_text (key, v) @ b)) < MAX_FILE_BUF_SIZE"
  shows "\<exists>q. insert_line key v (int (length a)) (int (length (a @ b))) p = Some (Inr q) \<and>
    holds_at q 0 (a @ line_text (key, v) @ b @ [NUL])"
proof -
  let ?u = "line_text (key, v)"
  let ?lo = "int (length a) + int (length ?u)"
  have u: "int (length ?u) = int (length key) + int (length v) + 2" "?u = key @ CHR ''='' # v @ [LF]"
    by (simp_all add: line_text_def)
  obtain q where q: "(case move_chars (int (length ?u)) (rev [?lo .. ?lo + int (length b)]) p of
      None \<Rightarrow> None | Some q \<Rightarrow> put_chars q (int (length a)) ?u) = Some q" "holds_at q 0 (a @ ?u @ b @ [NUL])"
    using move_ok [of p a "[]" b "int (length ?u)" ?u ?lo "?lo + int (length b)"] assms u(1) by auto
  then obtain r where r: "move_chars (int (length ?u)) (rev [?lo .. ?lo + int (length b)]) p = Some r"
      "put_chars r (int (length a)) ?u = Some q"
    by (auto split: option.splits)
  have "int (length (a @ b)) + int (length ?u) \<le> MAX_FILE_BUF_SIZE" using assms(2) by simp
  moreover have "int (length (a @ b)) + int (length ?u) = ?lo + int (length b)" by simp
  moreover have "LF = CHR 0x0A" by (simp add: LF_def)
  ultimately show ?thesis using q(2) r unfolding insert_line_def Let_def u(1) [symmetric]
    by (simp add: u(2) [symmetric] LF_def [symmetric] ac_simps)
qed

lemma replace_value_ok:
  assumes "holds_at p 0 (a @ old @ b @ [NUL])" "int (length (a @ v @ b)) < MAX_FILE_BUF_SIZE"
  shows "\<exists>q. replace_value v (int (length a)) (int (length a) + int (length old) - 1)
      (int (length (a @ old @ b))) p = Some (Inr q) \<and> holds_at q 0 (a @ v @ b @ [NUL])"
proof -
  let ?by = "int (length v) - int (length old)"
  let ?lo = "int (length a) + int (length v)"
  let ?is = "if ?by \<le> 0 then [?lo .. ?lo + int (length b)] else rev [?lo .. ?lo + int (length b)]"
  obtain q where q: "(case move_chars ?by ?is p of None \<Rightarrow> None | Some q \<Rightarrow> put_chars q (int (length a)) v) = Some q"
      "holds_at q 0 (a @ v @ b @ [NUL])"
    using move_ok [of p a old b ?by v ?lo "?lo + int (length b)" ?is] assms by auto
  have e: "int (length v) - (int (length a) + int (length old) - 1) + int (length a) - 1 = ?by"
    "int (length a) + int (length old) - 1 + ?by + 1 = ?lo"
    "int (length (a @ old @ b)) + ?by = ?lo + int (length b)"
    by simp_all
  have "\<not> ?lo + int (length b) > MAX_FILE_BUF_SIZE" using assms(2) by simp
  then have "replace_value v (int (length a)) (int (length a) + int (length old) - 1) (int (length (a @ old @ b))) p =
      (case move_chars ?by ?is p of None \<Rightarrow> None | Some q \<Rightarrow> map_option Inr (put_chars q (int (length a)) v))"
    unfolding replace_value_def Let_def e by simp
  moreover obtain r where "move_chars ?by ?is p = Some r" "put_chars r (int (length a)) v = Some q"
    using q(1) by (cases "move_chars ?by ?is p") (simp_all only: option.case, simp_all)
  ultimately show ?thesis using q(2) by simp
qed

section \<open>What the class promises\<close>

definition doc_get :: "string \<Rightarrow> string \<Rightarrow> ini_doc \<Rightarrow> string option" where
  "doc_get sect key doc = (case map_of doc sect of None \<Rightarrow> None | Some kvs \<Rightarrow> map_of kvs key)"

fun kv_set :: "string \<Rightarrow> string \<Rightarrow> (string \<times> string) list \<Rightarrow> (string \<times> string) list" where
  "kv_set key v [] = []"
| "kv_set key v (e # es) = (if fst e = key then (key, v) # es else e # kv_set key v es)"

text \<open>A new key comes first in its section, a new section last in the file.\<close>

definition kv_put :: "string \<Rightarrow> string \<Rightarrow> (string \<times> string) list \<Rightarrow> (string \<times> string) list" where
  "kv_put key v kvs = (if key \<in> fst ` set kvs then kv_set key v kvs else (key, v) # kvs)"

fun doc_put :: "string \<Rightarrow> string \<Rightarrow> string \<Rightarrow> ini_doc \<Rightarrow> ini_doc" where
  "doc_put sect key v [] = [(sect, [(key, v)])]"
| "doc_put sect key v (x # xs) =
     (if fst x = sect then (sect, kv_put key v (snd x)) # xs else x # doc_put sect key v xs)"

lemma kv_set_split:
  "key \<notin> fst ` set as \<Longrightarrow> kv_set key v (as @ (key, old) # bs) = as @ (key, v) # bs"
  by (induction as) auto

lemma kv_set_fst: "map fst (kv_set key v kvs) = map fst kvs"
  by (induction kvs) auto

lemma kv_set_get: "key \<in> fst ` set kvs \<Longrightarrow> map_of (kv_set key v kvs) = (map_of kvs)(key \<mapsto> v)"
proof (induction kvs)
  case (Cons e kvs)
  show ?case
  proof (cases "fst e = key")
    case False
    with Cons have "map_of (kv_set key v kvs) = (map_of kvs)(key \<mapsto> v)" by auto
    with False show ?thesis by (cases e) (auto simp: fun_eq_iff)
  qed (cases e, auto simp: fun_eq_iff)
qed simp

lemma kv_put_get: "map_of (kv_put key v kvs) = (map_of kvs)(key \<mapsto> v)"
  by (simp add: kv_put_def kv_set_get)

lemma doc_put_split:
  "sect \<notin> fst ` set xs \<Longrightarrow> doc_put sect key v (xs @ (sect, kvs) # ys) = xs @ (sect, kv_put key v kvs) # ys"
  "sect \<notin> fst ` set xs \<Longrightarrow> doc_put sect key v xs = xs @ [(sect, [(key, v)])]"
  by (induction xs) auto

lemma doc_put_fst: "set (map fst (doc_put sect key v doc)) = insert sect (set (map fst doc))"
  by (induction doc) auto

lemma doc_get_put:
  "doc_get sect key (doc_put sect key v doc) = Some v"
  "s \<noteq> sect \<or> k \<noteq> key \<Longrightarrow> doc_get s k (doc_put sect key v doc) = doc_get s k doc"
  by (induction doc) (auto simp: doc_get_def kv_put_get)

lemma wf_kv_put:
  assumes "wf_lines kvs" "distinct (map fst kvs)" "wf_key key" "wf_value v"
  shows "wf_lines (kv_put key v kvs) \<and> distinct (map fst (kv_put key v kvs)) \<and> kv_put key v kvs \<noteq> []"
proof -
  have "wf_lines kvs \<Longrightarrow> wf_lines (kv_set key v kvs)"
    using assms(3,4) by (induction kvs) auto
  moreover have "kv_set key v kvs = [] \<longleftrightarrow> kvs = []" by (cases kvs) auto
  ultimately show ?thesis using assms by (auto simp: kv_put_def kv_set_fst)
qed

lemma wf_doc_put:
  assumes "wf_doc doc" "wf_name sect" "wf_key key" "wf_value v"
  shows "wf_doc (doc_put sect key v doc)"
  using assms(1)
proof (induction doc)
  case Nil
  then show ?case using assms(2-4) by (simp add: wf_doc_def wf_section_def)
next
  case (Cons x xs)
  then have x: "wf_section x" "wf_doc xs" "fst x \<notin> fst ` set xs" by (auto simp: wf_doc_def)
  show ?case
  proof (cases "fst x = sect")
    case True
    with x assms show ?thesis using wf_kv_put [of "snd x" key v]
      by (auto simp: wf_doc_def wf_section_def)
  next
    case False
    have "fst x \<notin> fst ` set (doc_put sect key v xs)" using doc_put_fst [of sect key v xs] x(3) False by auto
    with Cons.IH [OF x(2)] x(1) False show ?thesis by (simp add: wf_doc_def)
  qed
qed

text \<open>The buffer holds a document.\<close>

definition ini_ok :: "c_ini_file \<Rightarrow> ini_doc \<Rightarrow> bool" where
  "ini_ok f doc \<longleftrightarrow> wf_doc doc \<and> m_file_size f = int (length (render doc)) \<and>
     (\<exists>p. m_file_buf f = Some p \<and> holds_at p 0 (render doc @ [NUL]))"

lemma in_split: "x \<in> fst ` set xs \<Longrightarrow> \<exists>as b bs. xs = as @ (x, b) # bs \<and> x \<notin> fst ` set as"
proof (induction xs)
  case (Cons e xs)
  show ?case
  proof (cases "x = fst e")
    case True
    then have "e # xs = [] @ (x, snd e) # xs \<and> x \<notin> fst ` set []" by simp
    then show ?thesis by blast
  next
    case False
    with Cons obtain as b bs where "xs = as @ (x, b) # bs" "x \<notin> fst ` set as" by auto
    with False have "e # xs = (e # as) @ (x, b) # bs \<and> x \<notin> fst ` set (e # as)" by simp
    then show ?thesis by blast
  qed
qed simp

lemma render_split:
  "render (xs @ (sect, kvs) # ys) =
     render xs @ (if xs = [] then [] else [LF]) @ CHR ''['' # sect @ CHR '']'' # LF # lines_text kvs @ rest_text ys"
  by (simp add: render_append section_text_def)

lemma section_head_length:
  "int (length (render xs @ (if xs = [] then [] else [LF]) @ CHR ''['' # sect @ CHR '']'' # [LF])) =
     section_at xs + int (length sect) + 3"
  by (simp add: section_at_def)

text \<open>The buffer after an edit, when the text fits.\<close>

lemma edit_ok:
  assumes "holds_at p 0 (render doc @ [NUL])" "wf_doc doc" "wf_name sect"
    "int (length (render (doc_put sect key v doc))) < MAX_FILE_BUF_SIZE"
  shows "\<exists>q. edit_buf sect key v (int (length (render doc))) p = Some (Inr q) \<and>
    holds_at q 0 (render (doc_put sect key v doc) @ [NUL])"
proof (cases "doc = []")
  case True
  have t: "render (doc_put sect key v doc) = CHR ''['' # sect @ CHR '']'' # LF # key @ CHR ''='' # v @ [LF]"
    using True by (simp add: section_text_def line_text_def)
  have "int (length (render (doc_put sect key v doc) @ [NUL])) \<le> MAX_FILE_BUF_SIZE" using assms(4) by simp
  from put_chars_ok [OF order_refl, of "render (doc_put sect key v doc) @ [NUL]" p] this
  obtain q where "put_chars p 0 (render (doc_put sect key v doc) @ [NUL]) = Some q"
      "holds_at q 0 (render (doc_put sect key v doc) @ [NUL])" by auto
  then show ?thesis using True t by (simp add: edit_buf_def LF_def)
next
  case ne: False
  then have size: "int (length (render doc)) \<noteq> 0" by (cases doc) (auto simp: section_text_def)
  show ?thesis
  proof (cases "sect \<in> fst ` set doc")
    case False
    let ?u = "LF # section_text (sect, [(key, v)])"
    have t: "render (doc_put sect key v doc) = render doc @ ?u"
      using doc_put_split(2) [OF False, of key v] ne render_append [of doc "(sect, [(key, v)])" "[]"] by simp
    have u: "?u @ [NUL] = CHR 0x0A # CHR ''['' # sect @ CHR '']'' # CHR 0x0A # key @ CHR ''='' # v @ [CHR 0x0A, NUL]"
      by (simp add: section_text_def line_text_def LF_def)
    have l: "int (length (render doc)) + int (length ?u) < MAX_FILE_BUF_SIZE" using assms(4) t by simp
    obtain q where q: "put_chars p (int (length (render doc))) (?u @ [NUL]) = Some q" "holds_at q 0 (render doc @ ?u @ [NUL])"
      using append_ok [OF assms(1) refl l] by blast
    moreover have "\<not> int (length (render doc)) + int (length sect) + int (length key) + int (length v) + 6 > MAX_FILE_BUF_SIZE"
      using l by (simp add: section_text_def line_text_def)
    ultimately have "append_section sect key v (int (length (render doc))) p = Some (Inr q)"
      unfolding append_section_def u [symmetric] by simp
    with q(2) t size show ?thesis
      by (simp add: edit_buf_def parse_absent [OF assms(1,2) False])
  next
    case True
    then obtain xs kvs ys where d: "doc = xs @ (sect, kvs) # ys" "sect \<notin> fst ` set xs"
      using in_split [OF True] by blast
    note pres = parse_present [OF assms(1,2) [unfolded d(1)]]
    let ?h = "render xs @ (if xs = [] then [] else [LF]) @ CHR ''['' # sect @ CHR '']'' # [LF]"
    have hl: "section_at xs + int (length sect) + 3 = int (length ?h)" by (rule section_head_length [symmetric])
    have rd: "render doc = ?h @ lines_text kvs @ rest_text ys" by (simp add: d(1) render_split)
    have dp: "render (doc_put sect key v doc) = ?h @ lines_text (kv_put key v kvs) @ rest_text ys"
      by (simp add: d doc_put_split(1) render_split)
    have s1: "section_at xs + 1 \<noteq> -1" by (simp add: section_at_def)
    show ?thesis
    proof (cases "key \<in> fst ` set kvs")
      case False
      have "holds_at p 0 (?h @ (lines_text kvs @ rest_text ys) @ [NUL])" using assms(1) rd by simp
      moreover have t: "render (doc_put sect key v doc) = ?h @ line_text (key, v) @ lines_text kvs @ rest_text ys"
        using dp False by (simp add: kv_put_def)
      ultimately obtain q where q: "insert_line key v (int (length ?h)) (int (length (?h @ lines_text kvs @ rest_text ys))) p = Some (Inr q)"
          "holds_at q 0 (?h @ line_text (key, v) @ (lines_text kvs @ rest_text ys) @ [NUL])"
        using insert_line_ok [of p ?h "lines_text kvs @ rest_text ys" key v] assms(4) by auto
      define H where "H = int (length ?h)"
      have "parse_file p sect key = Some ((section_at xs + 1, H), None)"
        using pres(1) [OF False] unfolding hl H_def by simp
      then have e: "edit_buf sect key v (int (length (render doc))) p =
          insert_line key v H (int (length (render doc))) p"
        using size s1 unfolding edit_buf_def by (simp del: length_append)
      have "edit_buf sect key v (int (length (render doc))) p = Some (Inr q)"
        unfolding e unfolding H_def rd by (rule q(1))
      moreover have "holds_at q 0 (render (doc_put sect key v doc) @ [NUL])"
        using q(2) unfolding t by (simp only: append_assoc)
      ultimately show ?thesis by blast
    next
      case True
      then obtain as old bs where k: "kvs = as @ (key, old) # bs" "key \<notin> fst ` set as" using in_split [OF True] by blast
      let ?a = "?h @ lines_text as @ key @ [CHR ''='']" and ?b = "LF # lines_text bs @ rest_text ys"
      have "holds_at p 0 (?a @ old @ ?b @ [NUL])" using assms(1) rd k(1) by (simp add: line_text_def)
      moreover have t: "render (doc_put sect key v doc) = ?a @ v @ ?b"
        using dp True k by (simp add: kv_put_def kv_set_split line_text_def)
      ultimately obtain q where q: "replace_value v (int (length ?a)) (int (length ?a) + int (length old) - 1)
            (int (length (?a @ old @ ?b))) p = Some (Inr q)" "holds_at q 0 (?a @ v @ ?b @ [NUL])"
        using replace_value_ok [of p ?a old ?b v] assms(4) by auto
      have rd': "render doc = ?a @ old @ ?b" using rd k(1) by (simp add: line_text_def)
      define H L where "H = int (length ?h)" and "L = int (length (lines_text as))"
      have A: "int (length ?a) = H + L + int (length key) + 1" by (simp add: H_def L_def)
      have "parse_file p sect key = Some ((section_at xs + 1, H), Some (line_pos (H + L) (key, old)))"
        using pres(2) [OF k] unfolding hl H_def L_def by simp
      moreover have "line_pos (H + L) (key, old) = ((H + L, H + L + int (length key) - 1),
          (int (length ?a), int (length ?a) + int (length old) - 1))"
        unfolding A by (simp add: line_pos_def)
      ultimately have e: "edit_buf sect key v (int (length (render doc))) p =
          replace_value v (int (length ?a)) (int (length ?a) + int (length old) - 1) (int (length (render doc))) p"
        using size s1 unfolding edit_buf_def by (simp del: length_append)
      have "edit_buf sect key v (int (length (render doc))) p = Some (Inr q)"
        unfolding e unfolding rd' by (rule q(1))
      moreover have "holds_at q 0 (render (doc_put sect key v doc) @ [NUL])"
        using q(2) unfolding t by (simp only: append_assoc)
      ultimately show ?thesis by blast
    qed
  qed
qed

end
