(* ===== verification/IniClass.thy ===== *)
theory IniClass
  imports IniDoc
begin

text \<open>
  What users of \<^verbatim>\<open>c_ini_file\<close> rely on: writing a value changes the document and the file alike, reading
  finds it again, and numbers, lists and bytes survive the way through text.
\<close>

section \<open>Writing and reading a value\<close>

lemma plain_nul: "plain s \<Longrightarrow> NUL \<notin> set s"
  by (auto simp: plain_def)

lemma nul_chars [simp]: "NUL \<noteq> CHR ''[''" "NUL \<noteq> CHR '']''" "NUL \<noteq> CHR ''=''" "NUL \<noteq> LF"
  by (simp_all add: NUL_def LF_def)

lemma plain_lines: "wf_lines kvs \<Longrightarrow> NUL \<notin> set (lines_text kvs)"
  by (induction kvs) (simp_all add: line_text_def plain_nul wf_key_def wf_value_def)

lemma no_nul_section: "wf_section x \<Longrightarrow> NUL \<notin> set (section_text x)"
  by (simp add: section_text_def wf_section_def wf_name_def plain_nul plain_lines)

lemma no_nul_rest: "\<forall>x \<in> set xs. wf_section x \<Longrightarrow> NUL \<notin> set (rest_text xs)"
  by (induction xs) (auto simp: no_nul_section)

lemma no_nul_render: "wf_doc doc \<Longrightarrow> NUL \<notin> set (render doc)"
  by (cases doc) (auto simp: wf_doc_def no_nul_section no_nul_rest)

definition ini_value :: "string \<Rightarrow> bool" where
  "ini_value v \<longleftrightarrow> wf_value v \<and> v \<noteq> []"

definition ini_room :: "string \<Rightarrow> string \<Rightarrow> string \<Rightarrow> ini_doc \<Rightarrow> bool" where
  "ini_room sect key v doc \<longleftrightarrow> int (length (render (doc_put sect key v doc))) < MAX_FILE_BUF_SIZE"

lemma write_string_ok:
  assumes "ini_ok f doc" "wf_name sect" "wf_key key" "ini_value v" "ini_room sect key v doc"
  shows "\<exists>q. write_string True True sect key v f = Some ((0, Some (render (doc_put sect key v doc))),
      set_err INI_FILE_E_SUCCESS (f\<lparr>m_file_buf := Some q, m_file_size := int (length (render (doc_put sect key v doc)))\<rparr>))
    \<and> ini_ok (set_err INI_FILE_E_SUCCESS (f\<lparr>m_file_buf := Some q,
        m_file_size := int (length (render (doc_put sect key v doc)))\<rparr>)) (doc_put sect key v doc)"
proof -
  let ?t = "render (doc_put sect key v doc)"
  obtain p where p: "m_file_buf f = Some p" "holds_at p 0 (render doc @ [NUL])"
      "wf_doc doc" "m_file_size f = int (length (render doc))"
    using assms(1) by (auto simp: ini_ok_def)
  obtain q where q: "edit_buf sect key v (int (length (render doc))) p = Some (Inr q)" "holds_at q 0 (?t @ [NUL])"
    using edit_ok [OF p(2,3) assms(2)] assms(5) by (auto simp: ini_room_def)
  have ne: "sect \<noteq> []" "key \<noteq> []" "v \<noteq> []" "wf_value v"
    using assms(2-4) by (auto simp: wf_name_def wf_key_def ini_value_def)
  have w: "wf_doc (doc_put sect key v doc)" by (rule wf_doc_put [OF p(3) assms(2,3) ne(4)])
  have sc: "scan (\<lambda>c. c \<noteq> NUL) q 0 = Some (int (length ?t))"
    using scan_holds [of q 0 ?t NUL "[]" "\<lambda>c. c \<noteq> NUL"] q(2) no_nul_render [OF w] by (metis add_0)
  have "copy_out q 0 (length ?t) = Some ?t" using q(2) copy_out_holds [of q 0 ?t] by simp
  with sc q p(1,4) ne w show ?thesis
    by (intro exI [of _ q]) (simp add: write_string_def ini_ok_def set_err_def)
qed

lemma read_string_found:
  assumes "ini_ok f doc" "sect \<noteq> []" "key \<noteq> []" "0 < bufsize" "doc_get sect key doc = Some v"
  shows "read_string sect key bufsize dflt f =
    Some ((0, Some (take (nat (bufsize - 1)) v)), set_err INI_FILE_E_SUCCESS f)"
proof -
  obtain p where p: "m_file_buf f = Some p" "holds_at p 0 (render doc @ [NUL])" "wf_doc doc"
    using assms(1) by (auto simp: ini_ok_def)
  obtain kvs where kvs: "map_of doc sect = Some kvs" "map_of kvs key = Some v"
    using assms(5) by (auto simp: doc_get_def split: option.splits)
  have "sect \<in> fst ` set doc" "key \<in> fst ` set kvs" using kvs by (force dest: map_of_SomeD)+
  from in_split [OF this(1)] in_split [OF this(2)]
  obtain xs k' ys as v' bs where d0: "doc = xs @ (sect, k') # ys" "sect \<notin> fst ` set xs"
      and k0: "kvs = as @ (key, v') # bs" "key \<notin> fst ` set as" by blast
  have "map_of xs sect = None" "map_of as key = None" using d0(2) k0(2) by (auto simp: map_of_eq_None_iff)
  with kvs d0(1) k0(1) have e: "k' = kvs" "v' = v" by (auto simp: map_add_def)
  note d = d0 [unfolded e] and k = k0 [unfolded e]
  let ?h = "render xs @ (if xs = [] then [] else [LF]) @ CHR ''['' # sect @ CHR '']'' # [LF]"
  let ?a = "?h @ lines_text as @ key @ [CHR ''='']"
  define i where "i = int (length ?a)"
  have t: "render doc = ?a @ v @ LF # lines_text bs @ rest_text ys"
    by (simp add: d(1) k(1) render_split line_text_def)
  let ?r = "v @ LF # lines_text bs @ rest_text ys @ [NUL]"
  have "holds_at p 0 (?a @ ?r)" using p(2) unfolding t by (simp only: append_assoc append_Cons)
  then have "holds_at p (0 + int (length ?a)) ?r" by (rule holds_at_append [THEN iffD1, THEN conjunct2])
  then have hv: "holds_at p i v" unfolding i_def [symmetric] by simp
  have i: "section_at xs + int (length sect) + 3 + int (length (lines_text as)) + int (length key) + 1 = i"
    using section_head_length [of xs sect] by (simp add: i_def)
  have j: "section_at xs + int (length sect) + 3 + int (length (lines_text as)) + int (length key) = i - 1"
    using i by simp
  obtain s kp where r: "parse_file p sect key = Some (s, Some (kp, (i, i + int (length v) - 1)))"
    using parse_present(2) [OF p(2,3) [unfolded d(1)] k] unfolding line_pos_def fst_conv snd_conv j
    by (simp add: algebra_simps)
  define n where "n = (if bufsize - 1 < int (length v) then bufsize - 1 else int (length v))"
  have n: "nat n = min (nat (bufsize - 1)) (length v)" using assms(4) by (auto simp: n_def min_def nat_le_iff)
  have "holds_at p i (take (nat n) v @ drop (nat n) v)" using hv by simp
  then have "holds_at p i (take (nat n) v)" by (rule holds_at_append [THEN iffD1, THEN conjunct1])
  moreover have "length (take (nat n) v) = nat n" using n by simp
  ultimately have "copy_out p i (nat n) = Some (take (nat n) v)" using copy_out_holds by metis
  moreover have "take (nat n) v = take (nat (bufsize - 1)) v" using n by (simp add: min_def)
  moreover have "(if bufsize - 1 < i + int (length v) - 1 - i + 1 then bufsize - 1 else i + int (length v) - 1 - i + 1) = n"
    by (simp add: n_def)
  ultimately show ?thesis using r p(1) assms(2-4) unfolding read_string_def by (simp add: Let_def del: if_splits)
qed

lemma read_string_missing:
  assumes "ini_ok f doc" "sect \<noteq> []" "key \<noteq> []" "0 < bufsize" "doc_get sect key doc = None"
  shows "read_string sect key bufsize dflt f =
    Some (case dflt of Some d \<Rightarrow> ((0, Some (take (nat bufsize) d)), set_err INI_FILE_E_SUCCESS f)
          | None \<Rightarrow> ((-1, None), set_err INI_FILE_E_KEY_NOT_FOUND f))"
proof -
  obtain p where p: "m_file_buf f = Some p" "holds_at p 0 (render doc @ [NUL])" "wf_doc doc"
    using assms(1) by (auto simp: ini_ok_def)
  have "\<exists>s. parse_file p sect key = Some (s, None)"
  proof (cases "sect \<in> fst ` set doc")
    case False
    then show ?thesis using parse_absent [OF p(2,3)] by blast
  next
    case True
    then obtain xs kvs ys where d: "doc = xs @ (sect, kvs) # ys" "sect \<notin> fst ` set xs"
      using in_split [OF True] by blast
    then have "map_of xs sect = None" by (simp add: map_of_eq_None_iff)
    with d(1) assms(5) have "key \<notin> fst ` set kvs"
      by (simp add: doc_get_def map_add_def map_of_eq_None_iff)
    then show ?thesis using parse_present(1) [OF p(2,3) [unfolded d(1)]] by blast
  qed
  with p(1) assms(2-4) show ?thesis by (auto simp: read_string_def split: option.splits)
qed

text \<open>A file that is loaded, for instance one the class wrote.\<close>

lemma ini_init_ok:
  assumes "wf_doc doc" "CHR 0xFF \<notin> set (render doc)" "int (length (render doc)) < MAX_FILE_BUF_SIZE"
    "path \<noteq> []" "length path < MAX_INI_FILE_PATH_LEN"
  shows "\<exists>f'. ini_init path True True (Some (render doc)) f = Some (0, f') \<and> ini_ok f' doc \<and> m_working f'"
proof -
  let ?t = "render doc"
  have t: "takeWhile (\<lambda>c. c \<noteq> CHR 0xFF) ?t = ?t" using assms(2) by (auto simp: takeWhile_eq_all_conv)
  define b where "b = (case m_file_buf f of None \<Rightarrow> (\<lambda>_. None) | Some b \<Rightarrow> b)"
  obtain q where q: "put_chars b 0 (?t @ [NUL]) = Some q" "holds_at q 0 (?t @ [NUL])"
    using put_chars_ok [of 0 "?t @ [NUL]" b] assms(3) by auto
  have "(if m_file_buf f = None then f\<lparr>m_file_buf := Some (\<lambda>_. None)\<rparr> else f)\<lparr>m_working := True\<rparr> =
      f\<lparr>m_file_buf := Some b, m_working := True\<rparr>"
    by (cases f; cases "m_file_buf f") (simp_all add: b_def)
  moreover have "load_ini_file (Some ?t) (f\<lparr>m_file_buf := Some b, m_working := True\<rparr>) =
      Some (0, f\<lparr>m_file_buf := Some q, m_working := True, m_file_size := int (length ?t)\<rparr>)"
    using q(1) assms(3) by (simp add: load_ini_file_def t Let_def del: takeWhile_eq_all_conv)
  ultimately show ?thesis using assms q(2)
    by (simp add: ini_init_def ini_ok_def set_err_def)
qed

section \<open>Coded values\<close>

text \<open>A place that keeps texts: what is put there is got back, and so is every coded value.\<close>

locale text_store =
  fixes put :: "string \<Rightarrow> 's \<Rightarrow> 's option" and get :: "'s \<Rightarrow> string option" and fits :: "string \<Rightarrow> 's \<Rightarrow> bool"
  assumes get_put: "fits v s \<Longrightarrow> \<exists>t. put v s = Some t \<and> get t = Some v"
begin

lemma coded:
  assumes "decode (encode x) = Some x" "fits (encode x) s"
  shows "\<exists>t. put (encode x) s = Some t \<and> Option.bind (get t) decode = Some x"
  using get_put [OF assms(2)] assms(1) by auto

end

definition ini_put :: "string \<Rightarrow> string \<Rightarrow> string \<Rightarrow> c_ini_file \<Rightarrow> c_ini_file option" where
  "ini_put sect key v f =
     (case write_string True True sect key v f of
        None \<Rightarrow> None | Some ((r, _), f') \<Rightarrow> if r = 0 then Some f' else None)"

definition ini_get :: "string \<Rightarrow> string \<Rightarrow> c_ini_file \<Rightarrow> string option" where
  "ini_get sect key f =
     (case read_string sect key MAX_FILE_BUF_SIZE None f of
        None \<Rightarrow> None | Some ((r, v), _) \<Rightarrow> if r = 0 then v else None)"

definition ini_fits :: "string \<Rightarrow> string \<Rightarrow> string \<Rightarrow> c_ini_file \<Rightarrow> bool" where
  "ini_fits sect key v f \<longleftrightarrow> wf_name sect \<and> wf_key key \<and> ini_value v \<and>
     (\<exists>doc. ini_ok f doc \<and> ini_room sect key v doc)"

lemma length_lines_put: "length v + 2 \<le> length (lines_text (kv_put key v kvs))"
proof (cases "key \<in> fst ` set kvs")
  case True
  then have "length v + 2 \<le> length (lines_text (kv_set key v kvs))"
    by (induction kvs) (force simp: line_text_def)+
  with True show ?thesis by (simp add: kv_put_def)
qed (simp add: kv_put_def line_text_def)

lemma length_rest_put: "length v + 2 \<le> length (rest_text (doc_put sect key v doc))"
proof (induction doc)
  case (Cons x xs)
  then show ?case using length_lines_put [of v key "snd x"] by (simp add: section_text_def)
qed (simp add: section_text_def line_text_def)

lemma length_render_put: "length v + 2 \<le> length (render (doc_put sect key v doc))"
proof (cases doc)
  case (Cons x xs)
  then show ?thesis using length_rest_put [of v sect key xs] length_lines_put [of v key "snd x"]
    by (simp add: section_text_def)
qed (simp add: section_text_def line_text_def)

lemma ini_get_put:
  assumes "ini_fits sect key v f"
  shows "\<exists>f'. ini_put sect key v f = Some f' \<and> ini_get sect key f' = Some v"
proof -
  obtain doc where d: "ini_ok f doc" "ini_room sect key v doc" "wf_name sect" "wf_key key" "ini_value v"
    using assms by (auto simp: ini_fits_def)
  obtain f' where f: "write_string True True sect key v f = Some ((0, Some (render (doc_put sect key v doc))), f')"
      "ini_ok f' (doc_put sect key v doc)"
    using write_string_ok [OF d(1,3-5,2)] by blast
  have "length v < nat (MAX_FILE_BUF_SIZE - 1)"
    using d(2) length_render_put [of v sect key doc] by (simp add: ini_room_def)
  moreover have "sect \<noteq> []" "key \<noteq> []" using d(3,4) by (auto simp: wf_name_def wf_key_def)
  ultimately show ?thesis
    using f read_string_found [OF f(2), of sect key MAX_FILE_BUF_SIZE v None]
    by (simp add: ini_put_def ini_get_def doc_get_put(1))
qed

interpretation ini_value: text_store "ini_put sect key" "ini_get sect key" "ini_fits sect key" for sect key
  by unfold_locales (rule ini_get_put)

text \<open>Numbers and lists of numbers.\<close>

definition int32 :: "int \<Rightarrow> bool" where
  "int32 x \<longleftrightarrow> - 2147483648 \<le> x \<and> x < 2147483648"

fun joined :: "char \<Rightarrow> int list \<Rightarrow> string" where
  "joined d [] = []"
| "joined d (x # xs) = sdec x @ (if xs = [] then [] else d # joined d xs)"

lemma int_list_text_joined:
  "int (length (acc @ joined d xs)) < MAX_FILE_BUF_SIZE \<Longrightarrow> int_list_text xs d acc = Some (Some (acc @ joined d xs))"
proof (induction xs arbitrary: acc)
  case (Cons x xs)
  then show ?case by (cases "xs = []") (simp_all add: fits_working_def)
qed simp

definition separator :: "char \<Rightarrow> bool" where
  "separator d \<longleftrightarrow> \<not> is_digit d \<and> d \<noteq> CHR ''-'' \<and> \<not> ini_newline d \<and> d \<noteq> NUL"

lemma sdec_no_sep: "separator d \<Longrightarrow> d \<notin> set (sdec x)"
  by (auto simp: separator_def dest: sdec_chars)

lemma split_at_end: "d \<notin> set s \<Longrightarrow> split_at d (Suc n) cur s = [cur @ s]"
  by (induction s arbitrary: cur) auto

lemma split_at_sep: "d \<notin> set s \<Longrightarrow> split_at d (Suc n) cur (s @ d # t) = (cur @ s) # split_at d n [] t"
  by (induction s arbitrary: cur) auto

lemma split_joined:
  "separator d \<Longrightarrow> xs \<noteq> [] \<Longrightarrow> split_at d n [] (joined d xs) = take n (map sdec xs)"
proof (induction xs arbitrary: n)
  case (Cons x xs)
  show ?case
  proof (cases n)
    case 0
    then show ?thesis by simp
  next
    case (Suc m)
    then show ?thesis using Cons sdec_no_sep [of d x]
      by (cases "xs = []") (simp_all add: split_at_end split_at_sep)
  qed
qed simp

lemma atoi_sdec: "int32 x \<Longrightarrow> c_atoi (sdec x) = x"
  using c_atoi_sdec [of "[]" x] by (simp add: int32_def)

lemma digit_char: "is_digit c \<Longrightarrow> \<not> ini_newline c \<and> c \<noteq> NUL \<and> \<not> is_space c"
  by (auto simp: is_digit_def ini_newline_def NUL_def is_space_def)

lemma sdec_char: "c \<in> set (sdec x) \<Longrightarrow> \<not> ini_newline c \<and> c \<noteq> NUL \<and> \<not> is_space c"
  using sdec_chars [of c x] digit_char [of c] by (auto simp: ini_newline_def NUL_def is_space_def)

lemma sdec_plain: "plain (sdec x)"
  unfolding plain_def using sdec_char by blast

lemma joined_plain: "separator d \<Longrightarrow> plain (joined d xs)"
  by (induction xs) (simp_all add: separator_def sdec_plain)

lemma joined_hd: "xs \<noteq> [] \<Longrightarrow> joined d xs \<noteq> [] \<and> \<not> is_space (hd (joined d xs))"
  using sdec_nonempty [of "hd xs"] sdec_char [of "hd (sdec (hd xs))" "hd xs"] by (cases xs) auto

lemma joined_last: "xs \<noteq> [] \<Longrightarrow> \<not> is_space (last (joined d xs))"
proof (induction xs)
  case (Cons x xs)
  show ?case
  proof (cases "xs = []")
    case True
    then show ?thesis using sdec_nonempty [of x] sdec_char [of "last (sdec x)" x] by simp
  next
    case False
    then have "last (joined d (x # xs)) = last (joined d xs)" using joined_hd [of xs d] by simp
    with Cons.IH [OF False] show ?thesis by simp
  qed
qed simp

lemma joined_value: "separator d \<Longrightarrow> xs \<noteq> [] \<Longrightarrow> ini_value (joined d xs)"
  by (simp add: ini_value_def wf_value_def trimmed_def joined_plain joined_hd joined_last)

text \<open>Bytes below 128.\<close>

lemma hex_digit:
  assumes "0 \<le> d" "d < 16"
  shows "is_hex (hex_char d)" "(of_char (hex_char d) :: int) = (if d > 9 then 55 + d else 48 + d)"
    "\<not> ini_newline (hex_char d) \<and> hex_char d \<noteq> NUL \<and> \<not> is_space (hex_char d)"
proof -
  define m where "m = nat (if d > 9 then 55 + d else 48 + d)"
  have c: "hex_char d = char_of m" using assms by (simp add: hex_char_def m_def mod_pos_pos_trivial)
  have m: "m < 256" using assms by (auto simp: m_def nat_less_iff)
  then have n: "(of_char (hex_char d) :: nat) = m" by (simp add: c)
  have "(of_char (hex_char d) :: int) = int (of_char (hex_char d) :: nat)"
    by (rule of_nat_of_char [symmetric])
  also have "\<dots> = (if d > 9 then 55 + d else 48 + d)" using n assms by (simp add: m_def)
  finally show "(of_char (hex_char d) :: int) = (if d > 9 then 55 + d else 48 + d)" .
  show "is_hex (hex_char d)" using n assms by (auto simp: is_hex_def char_in_def m_def)
  show "\<not> ini_newline (hex_char d) \<and> hex_char d \<noteq> NUL \<and> \<not> is_space (hex_char d)"
    using n assms by (auto simp: ini_newline_def NUL_def is_space_def m_def split: if_splits)
qed

lemma hex_pair:
  assumes "0 \<le> h" "h < 16" "0 \<le> l" "l < 16"
  shows "hexchar2byte (hex_char h) (hex_char l) = word_of_int (h * 16 + l)"
proof -
  define x where "x = (if h > 9 then 64 + h else 48 + h)"
  define y where "y = (if l > 9 then 64 + l else 48 + l)"
  have d: "d + (if d > 64 then 9 else 0) = (if e > 9 then 64 + e else 48 + e)"
    if "d = (if e > 9 then 55 + e else 48 + e)" "e < 16" for d e :: int using that by simp
  have "hexchar2byte (hex_char h) (hex_char l) = word_of_int (x * 16 + y mod 16)"
    using d [OF hex_digit(2) [OF assms(1,2)] assms(2)] d [OF hex_digit(2) [OF assms(3,4)] assms(4)]
    unfolding hexchar2byte_def Let_def x_def y_def by (simp only:)
  moreover have "y mod 16 = l"
  proof (cases "9 < l")
    case True
    then have "y mod 16 = (l + 4 * 16) mod 16" by (simp add: y_def add.commute)
    then show ?thesis using assms(3,4) by (simp only: mod_mult_self1 mod_pos_pos_trivial)
  next
    case False
    then have "y mod 16 = (l + 3 * 16) mod 16" by (simp add: y_def add.commute)
    then show ?thesis using assms(3,4) by (simp only: mod_mult_self1 mod_pos_pos_trivial)
  qed
  moreover have "(word_of_int (x * 16 + l) :: byte) = word_of_int (h * 16 + l)"
  proof (cases "9 < h")
    case True
    then have "x * 16 + l = h * 16 + l + 4 * 256" by (simp add: x_def)
    then show ?thesis by (simp only: of_int_add of_int_mult) simp
  next
    case False
    then have "x * 16 + l = h * 16 + l + 3 * 256" by (simp add: x_def)
    then show ?thesis by (simp only: of_int_add of_int_mult) simp
  qed
  ultimately show ?thesis by simp
qed

lemma hex_byte:
  assumes "unat (b :: byte) < 128"
  shows "hex_bytes (byte2hexstr b) = Some [b] \<and>
    (\<forall>c \<in> set (byte2hexstr b). \<not> ini_newline c \<and> c \<noteq> NUL \<and> \<not> is_space c)"
proof -
  have "uint b = int (unat b)" by simp
  with assms have u: "uint b < 128" by linarith
  have "- (2 ^ 7) \<le> uint b" by (rule order_trans [OF _ uint_ge_0]) simp
  moreover have "uint b < 2 ^ 7" using u by simp
  ultimately have lo: "- (2 ^ 7) \<le> uint b" and hi: "uint b < 2 ^ 7" by blast+
  from signed_take_bit_int_eq_self [OF lo hi] have s: "sint b = uint b" "uint b < 128"
    using u by (simp_all add: sint_uint)
  have h: "0 \<le> sint b div 16" "sint b div 16 < 16" "0 \<le> sint b mod 16" "sint b mod 16 < 16"
    using s uint_ge_0 [of b] pos_imp_zdiv_nonneg_iff [of 16 "uint b"] by auto
  have "sint b div 16 * 16 + sint b mod 16 = uint b" using s by simp
  then have "hexchar2byte (hex_char (sint b div 16)) (hex_char (sint b mod 16)) = b"
    using hex_pair [OF h] by simp
  then show ?thesis using hex_digit(1,3) [OF h(1,2)] hex_digit(1,3) [OF h(3,4)]
    by (simp add: byte2hexstr_def)
qed

lemma hex_bytes_two: "hex_bytes [a, c] = Some [b] \<Longrightarrow> hex_bytes (a # c # cs) = map_option (Cons b) (hex_bytes cs)"
  by (auto split: if_splits)

lemma hex_all_bytes: "\<forall>b \<in> set bs. unat b < 128 \<Longrightarrow> hex_bytes (concat (map byte2hexstr bs)) = Some bs"
proof (induction bs)
  case (Cons b bs)
  have "hex_bytes [hex_char (sint b div 16), hex_char (sint b mod 16)] = Some [b]"
    using hex_byte [of b] Cons.prems by (simp add: byte2hexstr_def del: hex_bytes.simps)
  from hex_bytes_two [OF this] Cons show ?case by (simp add: byte2hexstr_def del: hex_bytes.simps)
qed simp

lemma hex_value: "\<forall>b \<in> set bs. unat b < 128 \<Longrightarrow> bs \<noteq> [] \<Longrightarrow> ini_value (concat (map byte2hexstr bs))"
proof -
  assume a: "\<forall>b \<in> set bs. unat b < 128" "bs \<noteq> []"
  have c: "\<forall>c \<in> set (concat (map byte2hexstr bs)). \<not> ini_newline c \<and> c \<noteq> NUL \<and> \<not> is_space c"
    using a(1) hex_byte by auto
  have "concat (map byte2hexstr bs) \<noteq> []" using a(2) by (cases bs) (auto simp: byte2hexstr_def)
  moreover from this c have "\<not> is_space (hd (concat (map byte2hexstr bs)))" "\<not> is_space (last (concat (map byte2hexstr bs)))"
    using hd_in_set last_in_set by blast+
  ultimately show ?thesis using c unfolding ini_value_def wf_value_def plain_def trimmed_def by blast
qed

section \<open>The size of the text\<close>

text \<open>How the buffer is edited, and how much longer the text gets.\<close>

lemma edit_shape:
  fixes sect key v :: string
  assumes "holds_at p 0 (render doc @ [NUL])" "wf_doc doc" "doc \<noteq> []"
  defines "n \<equiv> int (length (render doc))" and "m \<equiv> int (length (render (doc_put sect key v doc)))"
  shows "edit_buf sect key v n p = append_section sect key v n p \<and>
      m = n + int (length sect) + int (length key) + int (length v) + 6 \<or>
    (\<exists>i. edit_buf sect key v n p = insert_line key v i n p \<and> i \<le> n \<and> m = n + int (length key) + int (length v) + 2) \<or>
    (\<exists>i j. edit_buf sect key v n p = replace_value v i j n p \<and> j < n \<and> m = n + (int (length v) - j + i - 1))"
proof -
  have size: "n \<noteq> 0" using assms(3) by (cases doc) (auto simp: section_text_def n_def)
  show ?thesis
  proof (cases "sect \<in> fst ` set doc")
    case False
    have "m = n + int (length sect) + int (length key) + int (length v) + 6"
      using doc_put_split(2) [OF False, of key v] assms(3) render_append [of doc "(sect, [(key, v)])" "[]"]
      by (simp add: m_def n_def section_text_def line_text_def)
    then show ?thesis using size by (simp add: edit_buf_def parse_absent [OF assms(1,2) False])
  next
    case True
    then obtain xs kvs ys where d: "doc = xs @ (sect, kvs) # ys" "sect \<notin> fst ` set xs"
      using in_split [OF True] by blast
    note pres = parse_present [OF assms(1,2) [unfolded d(1)]]
    define h where "h = section_at xs + int (length sect) + 3"
    have hl: "int (length (render xs @ (if xs = [] then [] else [LF]) @ CHR ''['' # sect @ CHR '']'' # [LF])) = h"
      unfolding h_def by (rule section_head_length)
    have n: "n = h + int (length (lines_text kvs)) + int (length (rest_text ys))"
      unfolding hl [symmetric] by (simp add: n_def d(1) render_split)
    have m: "m = h + int (length (lines_text (kv_put key v kvs))) + int (length (rest_text ys))"
      unfolding hl [symmetric] by (simp add: m_def d doc_put_split(1) render_split)
    have s1: "section_at xs + 1 \<noteq> -1" by (simp add: section_at_def)
    show ?thesis
    proof (cases "key \<in> fst ` set kvs")
      case False
      then have "edit_buf sect key v n p = insert_line key v h n p"
        using pres(1) [OF False] size s1 by (simp add: edit_buf_def h_def)
      moreover have "m = n + int (length key) + int (length v) + 2" "h \<le> n"
        using m n False by (simp_all add: kv_put_def line_text_def)
      ultimately show ?thesis by blast
    next
      case True
      then obtain as old bs where k: "kvs = as @ (key, old) # bs" "key \<notin> fst ` set as"
        using in_split [OF True] by blast
      define i where "i = h + int (length (lines_text as)) + int (length key) + 1"
      define j where "j = i + int (length old) - 1"
      obtain s kp where "parse_file p sect key = Some ((section_at xs + 1, s), Some (kp, (i, j)))"
        using pres(2) [OF k] unfolding line_pos_def h_def [symmetric] i_def j_def by (simp add: algebra_simps)
      then have "edit_buf sect key v n p = replace_value v i j n p"
        using size s1 by (simp add: edit_buf_def)
      moreover have "m = n + (int (length v) - j + i - 1)" "j < n"
        using m n True k by (simp_all add: kv_put_def kv_set_split line_text_def i_def j_def)
      ultimately show ?thesis by blast
    qed
  qed
qed

lemma move_chars_overflow: "ps \<noteq> [] \<Longrightarrow> \<not> hd ps < MAX_FILE_BUF_SIZE \<Longrightarrow> move_chars d ps p = None"
  by (cases ps) (auto simp: store_def split: option.splits)

lemma rev_upto_hd: "a \<le> b \<Longrightarrow> rev [a..b] \<noteq> [] \<and> hd (rev [a..b]) = b"
  by (simp add: upto_rec2)

lemma edit_too_long:
  assumes "holds_at p 0 (render doc @ [NUL])" "wf_doc doc" "doc \<noteq> []"
    "int (length (render (doc_put sect key v doc))) > MAX_FILE_BUF_SIZE"
  shows "edit_buf sect key v (int (length (render doc))) p = Some (Inl ())"
  using edit_shape [OF assms(1-3), of sect key v] assms(4)
  by (auto simp: append_section_def insert_line_def replace_value_def Let_def)

lemma edit_one_too_long:
  assumes "holds_at p 0 (render doc @ [NUL])" "wf_doc doc" "doc \<noteq> []"
    "int (length (render (doc_put sect key v doc))) = MAX_FILE_BUF_SIZE"
  shows "edit_buf sect key v (int (length (render doc))) p = None"
proof -
  define n where "n = int (length (render doc))"
  have n: "0 \<le> n" "n < MAX_FILE_BUF_SIZE" using holds_at_bounds [OF assms(1)] by (simp_all add: n_def)
  note shape = edit_shape [OF assms(1-3), of sect key v, folded n_def, unfolded assms(4)]
  have app: "append_section sect key v n p = None"
    if "MAX_FILE_BUF_SIZE = n + int (length sect) + int (length key) + int (length v) + 6"
  proof -
    have "put_chars p n (CHR 0x0A # CHR ''['' # sect @ CHR '']'' # CHR 0x0A # key @ CHR ''='' # v @ [CHR 0x0A, NUL]) = None"
      by (rule put_chars_overflow) (use n that in simp_all)
    with that show ?thesis by (simp add: append_section_def)
  qed
  have ins: "insert_line key v i n p = None"
    if "i \<le> n" "MAX_FILE_BUF_SIZE = n + int (length key) + int (length v) + 2" for i
  proof -
    define l where "l = int (length key) + int (length v) + 2"
    have "move_chars l (rev [i + l .. n + l]) p = None"
      by (rule move_chars_overflow) (use rev_upto_hd [of "i + l" "n + l"] that in \<open>simp_all add: l_def\<close>)
    with that show ?thesis by (simp add: insert_line_def l_def Let_def)
  qed
  have rep: "replace_value v i j n p = None"
    if "j < n" "MAX_FILE_BUF_SIZE = n + (int (length v) - j + i - 1)" for i j
  proof -
    define l where "l = int (length v) - j + i - 1"
    have "l > 0" "n + l = MAX_FILE_BUF_SIZE" using that(2) n by (simp_all add: l_def)
    moreover have "move_chars l (rev [j + l + 1 .. n + l]) p = None"
      by (rule move_chars_overflow) (use rev_upto_hd [of "j + l + 1" "n + l"] that in \<open>simp_all add: l_def\<close>)
    ultimately show ?thesis unfolding replace_value_def l_def [symmetric] by (simp add: Let_def)
  qed
  show ?thesis unfolding n_def [symmetric] using shape app ins rep by auto
qed

lemma write_string_working: "write_string ok1 ok2 sect key v f = Some (r, f') \<Longrightarrow> m_working f' = m_working f"
  by (auto simp: write_string_def set_err_def Let_def split: option.splits if_splits sum.splits)

lemma write_read_text:
  assumes "ini_ok f doc" "m_working f" "wf_name sect" "wf_key key" "ini_value v" "ini_room sect key v doc"
  shows "\<exists>t f' f''. write_string True True sect key v f = Some ((0, t), f') \<and> m_working f' \<and>
    read_string sect key MAX_FILE_BUF_SIZE None f' = Some ((0, Some v), f'')"
proof -
  have "ini_fits sect key v f" using assms by (auto simp: ini_fits_def)
  from ini_value.get_put [OF this] obtain f' where p: "ini_put sect key v f = Some f'" "ini_get sect key f' = Some v"
    by blast
  from p(1) obtain t where w: "write_string True True sect key v f = Some ((0, t), f')"
    by (auto simp: ini_put_def split: option.splits if_splits)
  moreover from p(2) obtain f'' where "read_string sect key MAX_FILE_BUF_SIZE None f' = Some ((0, Some v), f'')"
    by (auto simp: ini_get_def split: option.splits if_splits)
  ultimately show ?thesis using write_string_working [OF w] assms(2) by blast
qed

section \<open>Properties\<close>

definition ini_start :: c_ini_file where
  "ini_start = new_ini_file\<lparr>m_file_buf := Some (\<lambda>_. Some NUL), m_working := True\<rparr>"

lemma ini_start_ok: "ini_ok ini_start []"
  by (simp add: ini_ok_def ini_start_def new_ini_file_def wf_doc_def fetch_def MAX_FILE_BUF_SIZE_def)

lemma doc_get_nil [simp]: "doc_get s k [] = None"
  by (simp add: doc_get_def)

lemma room_small: "length v < 1000 \<Longrightarrow> length sect < 1000 \<Longrightarrow> length key < 1000 \<Longrightarrow> ini_room sect key v []"
  by (simp add: ini_room_def section_text_def line_text_def MAX_FILE_BUF_SIZE_def)

lemma ini_names: "wf_name ''a''" "wf_key ''k''" "ini_value ''1''" "ini_value ''2''" "wf_name ''b''"
  by (simp_all add: wf_name_def wf_key_def ini_value_def wf_value_def plain_def trimmed_def ini_newline_def
      NUL_def is_space_def c_isspace_def)

text \<open>C13: Writing a value is a change of the document: whatever well-formed document the buffer holds,
  \<^verbatim>\<open>write_string\<close> succeeds when there is room, the file it writes is the text of the changed
  document, and the buffer holds that document. Every other value stays as it is.\<close>

theorem ini_write_refines:
  assumes "ini_ok f doc" "wf_name sect" "wf_key key" "ini_value v" "ini_room sect key v doc"
  shows "\<exists>f' doc'. write_string True True sect key v f = Some ((0, Some (render doc')), f') \<and> ini_ok f' doc' \<and>
    (\<forall>s k. doc_get s k doc' = (if s = sect \<and> k = key then Some v else doc_get s k doc))"
proof -
  have "\<forall>s k. doc_get s k (doc_put sect key v doc) = (if s = sect \<and> k = key then Some v else doc_get s k doc)"
    by (auto simp: doc_get_put(1) intro: doc_get_put(2))
  with write_string_ok [OF assms] show ?thesis by blast
qed

theorem ini_write_refines_witness:
  "\<exists>f' doc'. write_string True True ''a'' ''k'' ''1'' ini_start = Some ((0, Some (render doc')), f') \<and> ini_ok f' doc' \<and>
    (\<forall>s k. doc_get s k doc' = (if s = ''a'' \<and> k = ''k'' then Some ''1'' else None))"
  by (rule ini_write_refines [OF ini_start_ok ini_names(1-3) room_small, unfolded doc_get_nil]) simp_all

text \<open>C15: Reading looks the document up: a value comes cut to the caller's buffer less one byte; a key that
  is not there gives the default, or the error \<^verbatim>\<open>INI_FILE_E_KEY_NOT_FOUND\<close> when there is none; the file
  and its buffer stay as they are.\<close>

theorem ini_read_finds:
  assumes "ini_ok f doc" "sect \<noteq> []" "key \<noteq> []" "0 < bufsize"
  shows "read_string sect key bufsize dflt f = Some
    (case doc_get sect key doc of
       Some v \<Rightarrow> ((0, Some (take (nat (bufsize - 1)) v)), set_err INI_FILE_E_SUCCESS f)
     | None \<Rightarrow> (case dflt of
           Some d \<Rightarrow> ((0, Some (take (nat bufsize) d)), set_err INI_FILE_E_SUCCESS f)
         | None \<Rightarrow> ((-1, None), set_err INI_FILE_E_KEY_NOT_FOUND f)))"
  using read_string_found [OF assms] read_string_missing [OF assms] by (cases "doc_get sect key doc") simp_all

theorem ini_read_finds_witness:
  "read_string ''a'' ''k'' 32 None ini_start = Some ((-1, None), set_err INI_FILE_E_KEY_NOT_FOUND ini_start)"
  using ini_read_finds [OF ini_start_ok, of "''a''" "''k''" 32 None] by simp

text \<open>A value outlives the object: what \<^verbatim>\<open>write_string\<close> puts into the file is read back from an object
  that is initialised with that file, as long as no byte of the file is 255 (which the loader takes for the
  end of the file).\<close>

lemma ini_restart_round_trip:
  assumes "ini_ok f doc" "wf_name sect" "wf_key key" "ini_value v" "ini_room sect key v doc"
    "CHR 0xFF \<notin> set (render (doc_put sect key v doc))" "path \<noteq> []" "length path < MAX_INI_FILE_PATH_LEN"
  shows "\<exists>t f' f''. write_string True True sect key v f = Some ((0, Some t), f') \<and>
    ini_init path True True (Some t) new_ini_file = Some (0, f'') \<and>
    read_string sect key MAX_FILE_BUF_SIZE None f'' = Some ((0, Some v), set_err INI_FILE_E_SUCCESS f'')"
proof -
  let ?d = "doc_put sect key v doc"
  obtain f' where f': "write_string True True sect key v f = Some ((0, Some (render ?d)), f')" "ini_ok f' ?d"
    using write_string_ok [OF assms(1-5)] by blast
  have l: "int (length (render ?d)) < MAX_FILE_BUF_SIZE" using assms(5) by (simp add: ini_room_def)
  from f'(2) have w: "wf_doc ?d" by (simp add: ini_ok_def)
  obtain f'' where f'': "ini_init path True True (Some (render ?d)) new_ini_file = Some (0, f'')" "ini_ok f'' ?d"
    using ini_init_ok [OF w assms(6) l assms(7,8)] by blast
  have "sect \<noteq> []" "key \<noteq> []" using assms(2,3) by (auto simp: wf_name_def wf_key_def)
  moreover have "length v < nat (MAX_FILE_BUF_SIZE - 1)" using l length_render_put [of v sect key doc] by simp
  ultimately have "read_string sect key MAX_FILE_BUF_SIZE None f'' = Some ((0, Some v), set_err INI_FILE_E_SUCCESS f'')"
    using read_string_found [OF f''(2), of sect key MAX_FILE_BUF_SIZE v None] by (simp add: doc_get_put(1))
  with f'(1) f''(1) show ?thesis by blast
qed

lemma ini_restart_round_trip_witness:
  "\<exists>t f' f''. write_string True True ''a'' ''k'' ''1'' ini_start = Some ((0, Some t), f') \<and>
    ini_init ''p'' True True (Some t) new_ini_file = Some (0, f'') \<and>
    read_string ''a'' ''k'' MAX_FILE_BUF_SIZE None f'' = Some ((0, Some ''1''), set_err INI_FILE_E_SUCCESS f'')"
  by (rule ini_restart_round_trip [OF ini_start_ok ini_names(1-3) room_small])
    (simp_all add: section_text_def line_text_def LF_def MAX_INI_FILE_PATH_LEN_def)

text \<open>Lists of 32-bit numbers and byte strings come back as they were written, through decimal and
  hexadecimal text: the numbers with any separator that no number contains, the bytes as long as none is
  above 127.\<close>

lemma ini_coded_round_trip:
  assumes "ini_ok f doc" "m_working f" "wf_name sect" "wf_key key"
    "separator d" "xs \<noteq> []" "\<forall>x \<in> set xs. int32 x" "length xs \<le> n" "ini_room sect key (joined d xs) doc"
    "bs \<noteq> []" "\<forall>b \<in> set bs. unat b < 128" "ini_room sect key (concat (map byte2hexstr bs)) doc"
  shows "(\<exists>t f' f''. write_int_list True True sect key xs d f = Some ((0, t), f') \<and>
      read_int_list sect key n d f' = Some ((int (length xs), xs), f'')) \<and>
    (\<exists>t f' f''. write_bin True True sect key bs f = Some ((0, t), f') \<and>
      read_bin sect key f' = Some ((int (length bs), bs), f''))"
proof
  let ?v = "joined d xs"
  obtain t f' f'' where w: "write_string True True sect key ?v f = Some ((0, t), f')" "m_working f'"
      "read_string sect key MAX_FILE_BUF_SIZE None f' = Some ((0, Some ?v), f'')"
    using write_read_text [OF assms(1-4) joined_value [OF assms(5,6)] assms(9)] by blast
  have "int (length ?v) < MAX_FILE_BUF_SIZE"
    using assms(9) length_render_put [of ?v sect key doc] by (simp add: ini_room_def)
  then have "write_int_list True True sect key xs d f = Some ((0, t), f')"
    using w(1) assms(2,6) int_list_text_joined [of "[]" d xs] by (simp add: write_int_list_def write_list_text_def)
  moreover have "map (c_atoi \<circ> sdec) xs = xs" using assms(7) by (simp add: atoi_sdec map_idI)
  then have "read_int_list sect key n d f' = Some ((int (length xs), xs), f'')"
    using w(2,3) split_joined [OF assms(5,6), of n] assms(8)
    by (simp add: read_int_list_def read_list_def)
  ultimately show "\<exists>t f' f''. write_int_list True True sect key xs d f = Some ((0, t), f') \<and>
      read_int_list sect key n d f' = Some ((int (length xs), xs), f'')" by blast
next
  let ?v = "concat (map byte2hexstr bs)"
  obtain t f' f'' where w: "write_string True True sect key ?v f = Some ((0, t), f')" "m_working f'"
      "read_string sect key MAX_FILE_BUF_SIZE None f' = Some ((0, Some ?v), f'')"
    using write_read_text [OF assms(1-4) hex_value [OF assms(11,10)] assms(12)] by blast
  have "int (length ?v) < MAX_FILE_BUF_SIZE"
    using assms(12) length_render_put [of ?v sect key doc] by (simp add: ini_room_def)
  then have "write_bin True True sect key bs f = Some ((0, t), f')"
    using w(1) assms(2) unfolding write_bin_def by (simp add: Let_def)
  moreover have "read_bin sect key f' = Some ((int (length bs), bs), f'')"
    using w(2,3) hex_all_bytes [OF assms(11)] by (simp add: read_bin_def)
  ultimately show "\<exists>t f' f''. write_bin True True sect key bs f = Some ((0, t), f') \<and>
      read_bin sect key f' = Some ((int (length bs), bs), f'')" by blast
qed

lemma ini_coded_round_trip_witness:
  "(\<exists>t f' f''. write_int_list True True ''a'' ''k'' [1, - 20] (CHR '';'') ini_start = Some ((0, t), f') \<and>
      read_int_list ''a'' ''k'' 5 (CHR '';'') f' = Some ((2, [1, - 20]), f'')) \<and>
    (\<exists>t f' f''. write_bin True True ''a'' ''k'' [0x7F] ini_start = Some ((0, t), f') \<and>
      read_bin ''a'' ''k'' f' = Some ((1, [0x7F]), f''))"
proof -
  have s: "separator (CHR '';'')"
    by (simp add: separator_def is_digit_def ini_newline_def NUL_def)
  have v: "length (joined (CHR '';'') [1, - 20]) < 1000" "length (concat (map byte2hexstr [0x7F])) < 1000"
    by (simp_all add: sdec_def dec.simps byte2hexstr_def)
  show ?thesis
    using ini_coded_round_trip [OF ini_start_ok _ ini_names(1,2) s, of "[1, - 20]" 5 "[0x7F]"] room_small [OF v(1)] room_small [OF v(2)]
    by (simp add: ini_start_def int32_def)
qed

text \<open>The size tests of \<^verbatim>\<open>write_string\<close> are off by one: a change that would make the text longer than
  the buffer is refused and leaves the file as it was, but one that would make it fill the buffer
  passes the test, and the byte behind the buffer is written (\<open>None\<close>).\<close>

lemma ini_size_test_off_by_one:
  assumes "ini_ok f doc" "doc \<noteq> []" "sect \<noteq> []" "key \<noteq> []" "v \<noteq> []"
    "int (length (render (doc_put sect key v doc))) \<ge> MAX_FILE_BUF_SIZE"
  shows "write_string opened written sect key v f =
    (if int (length (render (doc_put sect key v doc))) = MAX_FILE_BUF_SIZE then None
     else Some ((-1, None), set_err INI_FILE_E_BUF_OVERFLOW f))"
proof -
  obtain p where p: "m_file_buf f = Some p" "holds_at p 0 (render doc @ [NUL])"
      "wf_doc doc" "m_file_size f = int (length (render doc))"
    using assms(1) by (auto simp: ini_ok_def)
  then show ?thesis
    using assms edit_too_long [OF p(2,3) assms(2)] edit_one_too_long [OF p(2,3) assms(2)]
    by (auto simp: write_string_def)
qed

lemma ini_size_test_off_by_one_witness:
  "\<exists>f doc v. ini_ok f doc \<and> write_string True True ''a'' ''k'' v f = None"
proof -
  obtain f where f: "ini_ok f [(''a'', [(''k'', ''1'')])]"
    using write_string_ok [OF ini_start_ok ini_names(1-3) room_small] by (auto simp: kv_put_def)
  define v where "v = replicate 1048569 (CHR ''1'')"
  have v: "length v = 1048569" by (simp add: v_def)
  then have "v \<noteq> []" by (metis list.size(3) zero_neq_numeral)
  moreover have "int (length (render (doc_put ''a'' ''k'' v [(''a'', [(''k'', ''1'')])]))) = MAX_FILE_BUF_SIZE"
    using v by (simp add: kv_put_def section_text_def line_text_def MAX_FILE_BUF_SIZE_def)
  ultimately have "write_string True True ''a'' ''k'' v f = None"
    using ini_size_test_off_by_one [OF f, of "''a''" "''k''" v True True] by simp
  with f show ?thesis by blast
qed

text \<open>Nothing but white space in a file takes the search past the end of the text: the loop steps over
  the final zero byte, and what follows was never written (\<open>None\<close>).\<close>

theorem ini_blank_file_overrun:
  assumes "s \<noteq> []" "\<forall>c \<in> set s. c_isspace c" "int (length s) < MAX_FILE_BUF_SIZE" "path \<noteq> []"
    "length path < MAX_INI_FILE_PATH_LEN" "sect \<noteq> []" "key \<noteq> []" "0 < bufsize"
  shows "\<exists>f. ini_init path True True (Some s) new_ini_file = Some (0, f) \<and>
    read_string sect key bufsize dflt f = None"
proof -
  obtain q where q: "put_chars (\<lambda>_. None) 0 (s @ [NUL]) = Some q" "holds_at q 0 (s @ [NUL])"
      "\<forall>j. j < 0 \<or> int (length (s @ [NUL])) \<le> j \<longrightarrow> fetch q j = fetch (\<lambda>_. None) j"
    using put_chars_ok [of 0 "s @ [NUL]" "\<lambda>_. None"] assms(3) by auto
  have "CHR 0xFF \<notin> set s" using assms(2) by (auto simp: c_isspace_def)
  then have t: "takeWhile (\<lambda>c. c \<noteq> CHR 0xFF) s = s" by (auto simp: takeWhile_eq_all_conv)
  obtain f where f: "ini_init path True True (Some s) new_ini_file = Some (0, f)" "m_file_buf f = Some q"
    using assms q(1) by (simp add: ini_init_def load_ini_file_def new_ini_file_def t set_err_def del: takeWhile_eq_all_conv)
  obtain c r where s: "s = c # r" using assms(1) by (cases s) auto
  have c: "fetch q 0 = Some c" "c \<noteq> NUL" using q(2) s assms(2) by auto
  have "scan c_isspace q 0 = Some (int (length s))"
    using scan_holds [of q 0 s NUL "[]" c_isspace] q(2) assms(2) by simp
  moreover have "fetch q (int (length s)) = Some NUL" using q(2) by simp
  moreover have "fetch q (int (length s) + 1) = None" using q(3) by (simp add: fetch_def)
  then have "parse_from q sect key (int (length s) + 1) (-1, -1) = None" by (subst parse_from.simps) simp
  ultimately have "parse_file q sect key = None"
    using c by (simp add: parse_file_def parse_from.simps [of q sect key 0] end_of_string_def)
  with f assms(6-8) show ?thesis by (auto simp: read_string_def)
qed

theorem ini_blank_file_overrun_witness:
  "\<exists>f. ini_init ''p'' True True (Some [LF]) new_ini_file = Some (0, f) \<and> read_string ''a'' ''k'' 32 None f = None"
  by (rule ini_blank_file_overrun) (simp_all add: MAX_FILE_BUF_SIZE_def MAX_INI_FILE_PATH_LEN_def)

end
