(* ===== verification/CText.thy ===== *)
theory CText
  imports Decimal "HOL-Library.Sublist"
begin

text \<open>
  Text as the C library makes it: \<^verbatim>\<open>snprintf\<close> on the conversions the storage service uses, and
  the bytes of a message as characters. A conversion without an argument of its kind, or one the
  service does not use, is undefined (\<open>None\<close>). Proved: the texts of two lists of arguments differ,
  because the arguments can be read back from the text.
\<close>

section \<open>Bytes and characters\<close>

definition chars :: "byte list \<Rightarrow> string" where
  "chars bs = map (\<lambda>b. char_of (unat b)) bs"

definition bytes :: "string \<Rightarrow> byte list" where
  "bytes s = map (\<lambda>c. word_of_nat (of_char c)) s"

lemma length_chars [simp]: "length (chars bs) = length bs" "length (bytes s) = length s"
  by (simp_all add: chars_def bytes_def)

lemma bytes_chars [simp]: "bytes (chars bs) = bs"
proof -
  have "(word_of_nat (of_char (char_of (unat b) :: char)) :: byte) = b" for b :: byte
  proof -
    have "unat b < 256" using unsigned_less [of b] by simp
    then have e: "(of_char (char_of (unat b) :: char) :: nat) = unat b" by simp
    show ?thesis unfolding e by simp
  qed
  then show ?thesis by (simp add: chars_def bytes_def map_idI)
qed

lemma chars_bytes [simp]: "chars (bytes s) = s"
proof -
  have "(char_of (unat (word_of_nat (of_char c) :: byte)) :: char) = c" for c
    by (simp add: unat_of_nat)
  then show ?thesis by (simp add: chars_def bytes_def map_idI)
qed

lemma chars_inj: "chars a = chars b \<Longrightarrow> a = b"
  by (metis bytes_chars)

text \<open>What a function on C strings sees of a text: all before the first zero byte.\<close>

definition c_str :: "byte list \<Rightarrow> byte list" where
  "c_str bs = takeWhile (\<lambda>b. b \<noteq> 0) bs"

lemma c_str_id: "0 \<notin> set bs \<Longrightarrow> c_str bs = bs"
  by (auto simp: c_str_def takeWhile_eq_all_conv)

section \<open>Hexadecimal\<close>

definition xdigit :: "nat \<Rightarrow> char" where
  "xdigit d = char_of (if d < 10 then 48 + d else 87 + d)"

fun hex :: "nat \<Rightarrow> string" where
  "hex n = (if n < 16 then [xdigit n] else hex (n div 16) @ [xdigit (n mod 16)])"

declare hex.simps [simp del]

definition is_xdigit :: "char \<Rightarrow> bool" where
  "is_xdigit c \<longleftrightarrow> is_digit c \<or> 97 \<le> (of_char c :: nat) \<and> (of_char c :: nat) \<le> 102"

definition xvalue :: "char \<Rightarrow> nat" where
  "xvalue c = (if is_digit c then of_char c - 48 else of_char c - 87)"

definition hex_value :: "string \<Rightarrow> nat" where
  "hex_value s = foldl (\<lambda>n c. n * 16 + xvalue c) 0 s"

lemma xdigit_ok: "d < 16 \<Longrightarrow> is_xdigit (xdigit d) \<and> xvalue (xdigit d) = d"
proof -
  assume "d < 16"
  then have "(of_char (xdigit d) :: nat) = (if d < 10 then 48 + d else 87 + d)"
    by (simp add: xdigit_def)
  with \<open>d < 16\<close> show ?thesis by (simp add: is_xdigit_def is_digit_def xvalue_def)
qed

lemma hex_digits_ok: "c \<in> set (hex n) \<Longrightarrow> is_xdigit c"
proof (induction n rule: hex.induct)
  case (1 n)
  then show ?case by (subst (asm) hex.simps) (auto simp: xdigit_ok split: if_splits)
qed

lemma hex_value_hex: "hex_value (hex n) = n"
proof (induction n rule: hex.induct)
  case (1 n)
  then show ?case by (subst hex.simps) (auto simp: hex_value_def xdigit_ok)
qed

lemma hex_inj: "hex a = hex b \<Longrightarrow> a = b"
  by (metis hex_value_hex)

lemma hex_nonempty: "hex n \<noteq> []"
  by (subst hex.simps) simp

lemma length_hex: "n < 16 ^ k \<Longrightarrow> 0 < k \<Longrightarrow> length (hex n) \<le> k"
proof (induction k arbitrary: n)
  case (Suc k)
  show ?case
  proof (cases "n < 16")
    case True
    then show ?thesis by (subst hex.simps) simp
  next
    case False
    then have "0 < k" "n div 16 < 16 ^ k" using Suc.prems(1) by (cases k; simp)+
    with Suc.IH [of "n div 16"] False show ?thesis by (subst hex.simps) simp
  qed
qed simp

section \<open>snprintf\<close>

datatype c_arg = N nat | S string
datatype conv = Dec | Hex | Str

text \<open>The conversion after a percent sign, and what follows it.\<close>

definition conv :: "string \<Rightarrow> (conv \<times> string) option" where
  "conv f =
     (if prefix ''u'' f \<or> prefix ''d'' f then Some (Dec, drop 1 f)
      else if prefix ''lu'' f then Some (Dec, drop 2 f)
      else if prefix ''x'' f then Some (Hex, drop 1 f)
      else if prefix ''lx'' f then Some (Hex, drop 2 f)
      else if prefix ''s'' f then Some (Str, drop 1 f)
      else None)"

definition put_arg :: "conv \<Rightarrow> c_arg \<Rightarrow> string option" where
  "put_arg k a =
     (case (k, a) of
        (Dec, N n) \<Rightarrow> Some (dec n) | (Hex, N n) \<Rightarrow> Some (hex n) | (Str, S s) \<Rightarrow> Some s
      | _ \<Rightarrow> None)"

lemma conv_length: "conv f = Some (k, r) \<Longrightarrow> length r < length f"
  by (cases f) (auto simp: conv_def split: if_splits)

function c_format :: "string \<Rightarrow> c_arg list \<Rightarrow> string option" where
  "c_format [] args = Some []"
| "c_format (c # f) args =
     (if c \<noteq> CHR ''%'' then map_option (Cons c) (c_format f args)
      else case (conv f, args) of
          (Some (k, r), a # as) \<Rightarrow>
            (case put_arg k a of None \<Rightarrow> None | Some s \<Rightarrow> map_option ((@) s) (c_format r as))
        | _ \<Rightarrow> None)"
  by pat_completeness auto
termination
  by (relation "measure (\<lambda>(f, args). length f)") (auto dest!: conv_length [OF sym])

lemma conv_simps [simp]:
  "conv (CHR ''u'' # r) = Some (Dec, r)" "conv (CHR ''d'' # r) = Some (Dec, r)"
  "conv (CHR ''l'' # CHR ''u'' # r) = Some (Dec, r)" "conv (CHR ''x'' # r) = Some (Hex, r)"
  "conv (CHR ''l'' # CHR ''x'' # r) = Some (Hex, r)" "conv (CHR ''s'' # r) = Some (Str, r)"
  by (simp_all add: conv_def)

lemma put_arg_simps [simp]:
  "put_arg Dec (N n) = Some (dec n)" "put_arg Hex (N n) = Some (hex n)" "put_arg Str (S s) = Some s"
  by (simp_all add: put_arg_def)

section \<open>Reading a text back\<close>

abbreviation quote :: char where "quote \<equiv> CHR 0x27"
abbreviation bslash :: char where "bslash \<equiv> CHR 0x5C"

text \<open>The inside of a quoted string of SQL: up to the first quote that no backslash precedes.\<close>

fun scan_quoted :: "string \<Rightarrow> string \<times> string" where
  "scan_quoted [] = ([], [])"
| "scan_quoted [c] = (if c = quote then ([], [c]) else ([c], []))"
| "scan_quoted (c # d # t) =
     (if c = quote then ([], c # d # t)
      else if c = bslash then (let (a, b) = scan_quoted t in (c # d # a, b))
      else (let (a, b) = scan_quoted (d # t) in (c # a, b)))"

fun quotable :: "string \<Rightarrow> bool" where
  "quotable [] = True"
| "quotable [c] = (c \<noteq> quote \<and> c \<noteq> bslash)"
| "quotable (c # d # t) = (c \<noteq> quote \<and> (if c = bslash then quotable t else quotable (d # t)))"

lemma scan_quote [simp]: "scan_quoted (quote # u) = ([], quote # u)"
  by (cases u) auto

lemma scan_quotable: "quotable s \<Longrightarrow> scan_quoted (s @ quote # u) = (s, quote # u)"
  by (induction s rule: quotable.induct) (auto split: if_splits)

definition split_arg :: "conv \<Rightarrow> string \<Rightarrow> string \<Rightarrow> c_arg \<times> string" where
  "split_arg k r t =
     (case k of
        Dec \<Rightarrow> (N (dec_value (takeWhile is_digit t)), dropWhile is_digit t)
      | Hex \<Rightarrow> (N (hex_value (takeWhile is_xdigit t)), dropWhile is_xdigit t)
      | Str \<Rightarrow>
          if r = [] then (S t, [])
          else if hd r = quote then (case scan_quoted t of (a, b) \<Rightarrow> (S a, b))
          else (S (takeWhile (\<lambda>c. c \<noteq> hd r) t), dropWhile (\<lambda>c. c \<noteq> hd r) t))"

function c_scan :: "string \<Rightarrow> string \<Rightarrow> c_arg list option" where
  "c_scan [] t = (if t = [] then Some [] else None)"
| "c_scan (c # f) t =
     (if c \<noteq> CHR ''%'' then (case t of [] \<Rightarrow> None | d # u \<Rightarrow> if d = c then c_scan f u else None)
      else case conv f of
          None \<Rightarrow> None
        | Some (k, r) \<Rightarrow> (case split_arg k r t of (a, u) \<Rightarrow> map_option (Cons a) (c_scan r u)))"
  by pat_completeness auto
termination
  by (relation "measure (\<lambda>(f, t). length f)") (auto dest!: conv_length [OF sym] conv_length)

text \<open>An argument that can be told from what follows it.\<close>

definition arg_clean :: "conv \<Rightarrow> string \<Rightarrow> c_arg \<Rightarrow> bool" where
  "arg_clean k r a =
     (case (k, a) of
        (Dec, N n) \<Rightarrow> r = [] \<or> \<not> is_digit (hd r) \<and> hd r \<noteq> CHR ''%''
      | (Hex, N n) \<Rightarrow> r = [] \<or> \<not> is_xdigit (hd r) \<and> hd r \<noteq> CHR ''%''
      | (Str, S s) \<Rightarrow> r = [] \<or> hd r \<noteq> CHR ''%'' \<and> (if hd r = quote then quotable s else hd r \<notin> set s)
      | _ \<Rightarrow> False)"

function c_clean :: "string \<Rightarrow> c_arg list \<Rightarrow> bool" where
  "c_clean [] args = (args = [])"
| "c_clean (c # f) args =
     (if c \<noteq> CHR ''%'' then c_clean f args
      else case (conv f, args) of
          (Some (k, r), a # as) \<Rightarrow> arg_clean k r a \<and> c_clean r as
        | _ \<Rightarrow> False)"
  by pat_completeness auto
termination
  by (relation "measure (\<lambda>(f, args). length f)") (auto dest!: conv_length [OF sym])

lemma c_format_hd:
  assumes "c_format r as = Some t" "r = [] \<or> hd r \<noteq> CHR ''%''"
  obtains "r = []" "t = []" | u where "r \<noteq> []" "t = hd r # u"
proof (cases r)
  case Nil
  with assms that show ?thesis by simp
next
  case (Cons c f)
  with assms that(2) show ?thesis by (cases "c_format f as") auto
qed

lemma split_arg_put:
  assumes "put_arg k a = Some s" "arg_clean k r a" "c_format r as = Some t"
  shows "split_arg k r (s @ t) = (a, t)"
proof -
  have d: "takeWhile P (s @ t) = s \<and> dropWhile P (s @ t) = t"
    if "\<forall>c \<in> set s. P c" "t = [] \<or> \<not> P (hd t)" for P
    using that by (cases t) (auto simp: takeWhile_append2 dropWhile_append2)
  consider n where "k = Dec" "a = N n" "s = dec n" | n where "k = Hex" "a = N n" "s = hex n"
    | "k = Str" "a = S s"
    using assms(1) by (auto simp: put_arg_def split: conv.splits c_arg.splits)
  then show ?thesis
  proof cases
    case (1 n)
    then have "t = [] \<or> \<not> is_digit (hd t)"
      using assms(2,3) by (auto simp: arg_clean_def elim: c_format_hd)
    with d [of is_digit] dec_digits [of _ n] 1 show ?thesis by (simp add: split_arg_def dec_value_dec)
  next
    case (2 n)
    then have "t = [] \<or> \<not> is_xdigit (hd t)"
      using assms(2,3) by (auto simp: arg_clean_def elim: c_format_hd)
    with d [of is_xdigit] hex_digits_ok [of _ n] 2 show ?thesis by (simp add: split_arg_def hex_value_hex)
  next
    case 3
    show ?thesis
    proof (cases "r = []")
      case True
      with 3 assms(3) show ?thesis by (simp add: split_arg_def)
    next
      case False
      then have c: "hd r \<noteq> CHR ''%''" "if hd r = quote then quotable s else hd r \<notin> set s"
        using 3 assms(2) by (auto simp: arg_clean_def)
      then obtain u where t: "t = hd r # u" using assms(3) False by (auto elim: c_format_hd)
      show ?thesis
      proof (cases "hd r = quote")
        case True
        with 3 c t False show ?thesis by (simp add: split_arg_def scan_quotable)
      next
        case F: False
        with c have "\<forall>x \<in> set s. x \<noteq> hd r" by auto
        with d [of "\<lambda>x. x \<noteq> hd r"] t F 3 False show ?thesis by (simp add: split_arg_def)
      qed
    qed
  qed
qed

lemma c_scan_format: "c_format f args = Some t \<Longrightarrow> c_clean f args \<Longrightarrow> c_scan f t = Some args"
proof (induction f args arbitrary: t rule: c_format.induct)
  case (2 c f args)
  show ?case
  proof (cases "c = CHR ''%''")
    case False
    with 2 show ?thesis by auto
  next
    case True
    then obtain k r a as where k: "conv f = Some (k, r)" "args = a # as" "arg_clean k r a" "c_clean r as"
      using "2.prems"(2) by (cases "conv f"; cases args) auto
    then obtain s u where s: "put_arg k a = Some s" "c_format r as = Some u" "t = s @ u"
      using "2.prems"(1) True by (auto split: option.splits)
    have "c_scan r u = Some as"
      by (rule "2.IH"(2) [OF _ refl]) (use True k s in auto)
    with True k s split_arg_put [OF s(1) k(3) s(2)] show ?thesis by simp
  qed
qed simp

end
