(* ===== verification/FeedsDb.thy ===== *)
theory FeedsDb
  imports CText FeedId
begin

text \<open>
  The feeds of the storage service in MySQL (\<^verbatim>\<open>feed/storage-serv/src/feeds_database.cpp\<close>): the text
  of every statement, as \<^verbatim>\<open>snprintf\<close> makes it, and what is done with its result. MySQL is a
  parameter. Buffers of the caller are given by their size; what would be written behind one is
  undefined (\<open>None\<close>).
\<close>

section \<open>MySQL\<close>

text \<open>\<^verbatim>\<open>i_mysql_iface\<close>: the number of rows (negative for an error) and the rows of a query, the number
  of rows an update changed, and the escaping of data. \<open>sq_conn\<close> tells whether the database of that
  number can be reached.\<close>

record 'd mysql =
  sq_conn :: "nat \<Rightarrow> 'd \<Rightarrow> bool"
  sq_select :: "string \<Rightarrow> 'd \<Rightarrow> (int \<times> string list list) \<times> 'd"
  sq_exec :: "string \<Rightarrow> 'd \<Rightarrow> int \<times> 'd"
  sq_escape :: "byte list \<Rightarrow> string"

definition get_dbid :: "nat \<Rightarrow> nat" where "get_dbid mimi = mimi mod 10000 div 100"
definition get_tid :: "nat \<Rightarrow> nat" where "get_tid mimi = mimi mod 100"

definition get_db_conn :: "'d mysql \<Rightarrow> nat \<Rightarrow> 'd \<Rightarrow> bool" where
  "get_db_conn sq mimi d = sq_conn sq (get_dbid mimi) d"

text \<open>\<open>names\<close> are the names of the databases in the configuration.\<close>

definition get_table_name :: "(nat \<Rightarrow> string) \<Rightarrow> nat \<Rightarrow> string" where
  "get_table_name names mimi = names (get_dbid mimi) @ ''.t_newsfeed_'' @ dec (get_tid mimi)"

definition SQL_MAX_SZ :: nat where "SQL_MAX_SZ = 1024 * 1024"
definition sql_buf_max :: nat where "sql_buf_max = SQL_MAX_SZ - 1"
definition GET2_LIMIT :: nat where "GET2_LIMIT = 10"

text \<open>The statements have fixed formats, so \<^verbatim>\<open>snprintf\<close> is defined on them.\<close>

definition sprintf :: "string \<Rightarrow> c_arg list \<Rightarrow> string" where
  "sprintf f args = (case c_format f args of Some t \<Rightarrow> t | None \<Rightarrow> [])"

definition fits_sql :: "string \<Rightarrow> bool" where
  "fits_sql t \<longleftrightarrow> length t < sql_buf_max"

definition id_args :: "feedid \<Rightarrow> c_arg list" where
  "id_args f = [N (fid_mimi f), N (fid_cmd_id f), N (fid_app_id f), N (fid_timestamp f), N (fid_magic f)]"

section \<open>Statements that change the tables\<close>

definition insert_fmt :: string where
  "insert_fmt = ''insert into %s (user_id, cmd_id, app_id, timestamp, magic, data) values (%u, %u, %u, %u, %lu, '' @
     quote # ''%s'' @ quote # '')''"

definition update_fmt :: string where
  "update_fmt = ''update %s set user_id=%u, cmd_id=%u, app_id=%u, timestamp=%u, magic=%lu, data = '' @
     quote # ''%s'' @ quote # '' where user_id=%u and cmd_id=%u and app_id=%u and timestamp=%u and magic=%lu;''"

definition delete_fmt :: string where
  "delete_fmt = ''delete from %s  where user_id=%u and cmd_id=%u and app_id=%u and timestamp=%u and magic=%lu;''"

definition delete2_fmt :: string where
  "delete2_fmt = ''delete from %s  where user_id=%u and cmd_id=%u and app_id=%u and magic=%lu;''"

definition insert_sql :: "(nat \<Rightarrow> string) \<Rightarrow> feedid \<Rightarrow> string \<Rightarrow> string" where
  "insert_sql names f data =
     sprintf insert_fmt (S (get_table_name names (fid_mimi f)) # id_args f @ [S data])"

definition update_sql :: "(nat \<Rightarrow> string) \<Rightarrow> feedid \<Rightarrow> feedid \<Rightarrow> string \<Rightarrow> string" where
  "update_sql names old new data =
     sprintf update_fmt (S (get_table_name names (fid_mimi new)) # id_args new @ S data # id_args old)"

definition delete_sql :: "(nat \<Rightarrow> string) \<Rightarrow> feedid \<Rightarrow> string" where
  "delete_sql names f = sprintf delete_fmt (S (get_table_name names (fid_mimi f)) # id_args f)"

definition delete2_sql :: "(nat \<Rightarrow> string) \<Rightarrow> nat \<Rightarrow> nat \<Rightarrow> nat \<Rightarrow> nat \<Rightarrow> string" where
  "delete2_sql names mimi cmd app magic =
     sprintf delete2_fmt [S (get_table_name names mimi), N mimi, N cmd, N app, N magic]"

definition db_insert :: "'d mysql \<Rightarrow> (nat \<Rightarrow> string) \<Rightarrow> feedid \<Rightarrow> string \<Rightarrow> 'd \<Rightarrow> int \<times> 'd" where
  "db_insert sq names f data d =
     (let t = insert_sql names f data
      in if \<not> fits_sql t then (-1, d)
         else case sq_exec sq t d of (n, d') \<Rightarrow> (if n \<le> 0 then -1 else 0, d'))"

definition db_update2 :: "'d mysql \<Rightarrow> (nat \<Rightarrow> string) \<Rightarrow> feedid \<Rightarrow> feedid \<Rightarrow> string \<Rightarrow> 'd \<Rightarrow> int \<times> 'd" where
  "db_update2 sq names old new data d =
     (let t = update_sql names old new data
      in if \<not> fits_sql t then (-1, d)
         else case sq_exec sq t d of (n, d') \<Rightarrow> (if n < 0 then -1 else 0, d'))"

definition db_del :: "'d mysql \<Rightarrow> (nat \<Rightarrow> string) \<Rightarrow> feedid \<Rightarrow> 'd \<Rightarrow> int \<times> 'd" where
  "db_del sq names f d =
     (let t = delete_sql names f
      in if \<not> fits_sql t then (-1, d)
         else case sq_exec sq t d of (n, d') \<Rightarrow> (if n < 0 then -1 else 0, d'))"

fun db_dels :: "'d mysql \<Rightarrow> (nat \<Rightarrow> string) \<Rightarrow> feedid list \<Rightarrow> 'd \<Rightarrow> int \<times> 'd" where
  "db_dels sq names [] d = (0, d)"
| "db_dels sq names (f # fs) d =
     (case db_del sq names f d of
        (r, d1) \<Rightarrow> (case db_dels sq names fs d1 of (n, d2) \<Rightarrow> (if r = 0 then n + 1 else n, d2)))"

definition db_del2 ::
  "'d mysql \<Rightarrow> (nat \<Rightarrow> string) \<Rightarrow> nat \<Rightarrow> nat \<Rightarrow> nat \<Rightarrow> nat \<Rightarrow> 'd \<Rightarrow> int \<times> 'd" where
  "db_del2 sq names mimi cmd app magic d =
     (let t = delete2_sql names mimi cmd app magic
      in if \<not> fits_sql t then (-1, d)
         else case sq_exec sq t d of (n, d') \<Rightarrow> (if n < 0 then -1 else 0, d'))"

section \<open>Feeds in the answer\<close>

definition feed_hsz :: nat where "feed_hsz = 26"

definition feed_pkg :: "feedid \<Rightarrow> byte list \<Rightarrow> byte list" where
  "feed_pkg f data = to_le 4 (feed_hsz + length data) @ wr_feedid f @ data"

text \<open>\<^verbatim>\<open>strtoul\<close> on a number that MySQL wrote.\<close>

definition strtou :: "string \<Rightarrow> nat" where
  "strtou s = min (dec_value (takeWhile is_digit s)) (2 ^ 64 - 1)"

definition row_id :: "string list \<Rightarrow> feedid" where
  "row_id r =
     \<lparr>fid_mimi = strtou (r ! 0) mod 2 ^ 32, fid_cmd_id = strtou (r ! 1) mod 2 ^ 16,
      fid_app_id = strtou (r ! 2) mod 2 ^ 32, fid_timestamp = strtou (r ! 3) mod 2 ^ 32,
      fid_magic = strtou (r ! 4)\<rparr>"

text \<open>A row with too few fields is read past its end.\<close>

definition build_feed :: "string list \<Rightarrow> bool \<Rightarrow> byte list option" where
  "build_feed r withdata =
     (if length r < (if withdata then 6 else 5) then None
      else Some (feed_pkg (row_id r) (if withdata then c_str (bytes (r ! 5)) else [])))"

fun build_feeds :: "string list list \<Rightarrow> bool \<Rightarrow> byte list option" where
  "build_feeds [] withdata = Some []"
| "build_feeds (r # rs) withdata =
     (case build_feed r withdata of
        None \<Rightarrow> None
      | Some p \<Rightarrow> map_option ((@) p) (build_feeds rs withdata))"

text \<open>The feeds are put one behind the other without a look at the size of the buffer.\<close>

definition get_feedspkg ::
  "'d mysql \<Rightarrow> nat \<Rightarrow> string \<Rightarrow> bool \<Rightarrow> 'd \<Rightarrow> ((int \<times> byte list) \<times> 'd) option" where
  "get_feedspkg sq buflen t withdata d =
     (case sq_select sq t d of
        ((n, rows), d') \<Rightarrow>
          if n > 0 then
            (case build_feeds (take (nat n) rows) withdata of
               None \<Rightarrow> None
             | Some b \<Rightarrow> if length b > buflen then None else Some ((n, b), d'))
          else Some ((n, []), d'))"

section \<open>Queries for given feeds\<close>

definition select_fmt :: string where
  "select_fmt = ''select user_id, cmd_id, app_id, timestamp, magic, data from %s where (user_id=%u and cmd_id=%u and app_id=%u and timestamp=%u and magic=%lu)''"

definition select2_fmt :: string where
  "select2_fmt = ''select user_id, cmd_id, app_id, timestamp, magic, data from %s where user_id=%u and cmd_id=%u and app_id=%u and magic=%lu order by timestamp desc limit %d;''"

definition exists_fmt :: string where
  "exists_fmt = ''select user_id from %s where user_id=%u and cmd_id=%u and app_id=%u and timestamp=%u and magic=%lu;''"

definition feedids_fmt :: string where
  "feedids_fmt = ''select user_id, cmd_id, app_id, timestamp, magic from %s where user_id=%u and cmd_id=%u and app_id=%u and magic=%lu;''"

definition key_data_fmt :: string where
  "key_data_fmt = ''select user_id,data from db_newsfeed_%d.t_newsfeed_%d where user_id=%u and cmd_id=%u and app_id=%u and timestamp=%u and magic=%lu;''"

definition key_fmt :: string where
  "key_fmt = ''select id from db_newsfeed_%d.t_newsfeed_%d where user_id=%u and cmd_id=%u and app_id=%u and timestamp=%u and magic=%lu;''"

definition select_sql :: "(nat \<Rightarrow> string) \<Rightarrow> feedid \<Rightarrow> string" where
  "select_sql names f = sprintf select_fmt (S (get_table_name names (fid_mimi f)) # id_args f)"

definition select2_sql :: "(nat \<Rightarrow> string) \<Rightarrow> nat \<Rightarrow> nat \<Rightarrow> nat \<Rightarrow> nat \<Rightarrow> string" where
  "select2_sql names mimi cmd app magic =
     sprintf select2_fmt [S (get_table_name names mimi), N mimi, N cmd, N app, N magic, N GET2_LIMIT]"

definition exists_sql :: "(nat \<Rightarrow> string) \<Rightarrow> feedid \<Rightarrow> string" where
  "exists_sql names f = sprintf exists_fmt (S (get_table_name names (fid_mimi f)) # id_args f)"

definition feedids_sql :: "(nat \<Rightarrow> string) \<Rightarrow> nat \<Rightarrow> nat \<Rightarrow> nat \<Rightarrow> nat \<Rightarrow> string" where
  "feedids_sql names mimi cmd app magic =
     sprintf feedids_fmt [S (get_table_name names mimi), N mimi, N cmd, N app, N magic]"

definition key_data_sql :: "feedid \<Rightarrow> string" where
  "key_data_sql f = sprintf key_data_fmt (N (get_dbid (fid_mimi f)) # N (get_tid (fid_mimi f)) # id_args f)"

definition key_sql :: "feedid \<Rightarrow> string" where
  "key_sql f = sprintf key_fmt (N (get_dbid (fid_mimi f)) # N (get_tid (fid_mimi f)) # id_args f)"

definition db_get_pkg ::
  "'d mysql \<Rightarrow> (nat \<Rightarrow> string) \<Rightarrow> nat \<Rightarrow> feedid \<Rightarrow> 'd \<Rightarrow> ((int \<times> byte list) \<times> 'd) option" where
  "db_get_pkg sq names buflen f d =
     (let t = select_sql names f
      in if \<not> fits_sql t then Some ((-1, []), d) else get_feedspkg sq buflen t True d)"

definition db_gets2_pkg ::
  "'d mysql \<Rightarrow> (nat \<Rightarrow> string) \<Rightarrow> nat \<Rightarrow> nat \<Rightarrow> nat \<Rightarrow> nat \<Rightarrow> nat \<Rightarrow> 'd \<Rightarrow> ((int \<times> byte list) \<times> 'd) option" where
  "db_gets2_pkg sq names buflen mimi cmd app magic d =
     get_feedspkg sq buflen (select2_sql names mimi cmd app magic) True d"

text \<open>An error of the database counts as not there, a statement that does not fit as there.\<close>

definition check_existed :: "'d mysql \<Rightarrow> (nat \<Rightarrow> string) \<Rightarrow> feedid \<Rightarrow> 'd \<Rightarrow> bool \<times> 'd" where
  "check_existed sq names f d =
     (let t = exists_sql names f
      in if \<not> fits_sql t then (True, d)
         else case sq_select sq t d of ((n, rows), d') \<Rightarrow> (if n < 0 then False else n \<noteq> 0, d'))"

definition MAX_FEEDID_NUM :: nat where "MAX_FEEDID_NUM = 100"

text \<open>The list of the caller has room for \<^verbatim>\<open>MAX_FEEDID_NUM\<close> feeds.\<close>

definition get_feedids ::
  "'d mysql \<Rightarrow> (nat \<Rightarrow> string) \<Rightarrow> nat \<Rightarrow> nat \<Rightarrow> nat \<Rightarrow> nat \<Rightarrow> 'd \<Rightarrow> ((int \<times> feedid list) \<times> 'd) option" where
  "get_feedids sq names mimi cmd app magic d =
     (let t = feedids_sql names mimi cmd app magic
      in if \<not> fits_sql t then Some ((-1, []), d)
         else case sq_select sq t d of
             ((n, rows), d') \<Rightarrow>
               if n \<le> 0 then Some ((n, []), d')
               else if nat n > MAX_FEEDID_NUM \<or> nat n > length rows \<or> (\<exists>r \<in> set (take (nat n) rows). length r < 5)
               then None
               else Some ((n, map row_id (take (nat n) rows)), d'))"

section \<open>Feeds with their keys\<close>

definition feedkey_bytes :: "nat \<Rightarrow> nat \<Rightarrow> byte list" where
  "feedkey_bytes mimi key_id =
     to_le 1 (get_dbid mimi) @ to_le 1 (get_tid mimi) @ [0xFF, 0] @ to_le 4 key_id"

definition key_pkg_hsz :: nat where "key_pkg_hsz = 34"

definition key_pkg :: "byte list \<Rightarrow> feedid \<Rightarrow> byte list \<Rightarrow> byte list" where
  "key_pkg k f data = to_le 4 (key_pkg_hsz + length data) @ k @ wr_feedid f @ data"

text \<open>\<^verbatim>\<open>feedid_list_t\<close>: the ids in use, each with where it was found (0: nowhere yet).\<close>

type_synonym feedid_list = "(feedid \<times> nat) list"

definition F_NONE :: nat where "F_NONE = 0"
definition F_MEM :: nat where "F_MEM = 2"
definition F_DB :: nat where "F_DB = 4"

text \<open>The length of a feed is written before it is known to fit. A database that cannot be reached ends
  the loop, an error of a query does not.\<close>

fun db_gets_key_pkg ::
  "'d mysql \<Rightarrow> nat \<Rightarrow> feedid_list \<Rightarrow> 'd \<Rightarrow> ((int \<times> byte list \<times> feedid_list) \<times> 'd) option" where
  "db_gets_key_pkg sq buflen [] d = Some ((0, [], []), d)"
| "db_gets_key_pkg sq buflen ((f, flag) # fs) d =
     (let skip = (\<lambda>d'. map_option (\<lambda>((n, b, ff), d2). ((n, b, (f, flag) # ff), d2)) (db_gets_key_pkg sq buflen fs d'))
      in if flag \<noteq> F_NONE then skip d
         else if \<not> get_db_conn sq (fid_mimi f) d then Some ((0, [], (f, flag) # fs), d)
         else
           (case sq_select sq (key_data_sql f) d of
              ((n, rows), d') \<Rightarrow>
                if n \<le> 0 then skip d'
                else (case rows of
                    (a # b # r) # rs \<Rightarrow>
                      let p = key_pkg (feedkey_bytes (fid_mimi f) (strtou a)) f (c_str (bytes b))
                      in if buflen < 4 then None
                         else if length p \<ge> buflen then Some ((0, [], (f, flag) # fs), d')
                         else map_option (\<lambda>((n, b, ff), d2). ((n + 1, p @ b, (f, F_DB) # ff), d2))
                                (db_gets_key_pkg sq (buflen - length p) fs d')
                  | _ \<Rightarrow> None)))"

definition db_get_key :: "'d mysql \<Rightarrow> feedid \<Rightarrow> 'd \<Rightarrow> ((int \<times> byte list option) \<times> 'd) option" where
  "db_get_key sq f d =
     (if \<not> get_db_conn sq (fid_mimi f) d then Some ((-1, None), d)
      else case sq_select sq (key_sql f) d of
          ((n, rows), d') \<Rightarrow>
            if n \<le> 0 then Some ((-1, None), d')
            else (case rows of
                (a # r) # rs \<Rightarrow> Some ((0, Some (feedkey_bytes (fid_mimi f) (strtou a))), d')
              | _ \<Rightarrow> None))"

section \<open>Lists of feeds by time\<close>

text \<open>The text made from the first format is the format of the second text. \<open>None\<close>: the name of the
  database contains a percent sign that is no conversion the arguments fit.\<close>

definition nidx_presql ::
  "(nat \<Rightarrow> string) \<Rightarrow> nat \<Rightarrow> nat \<Rightarrow> nat \<Rightarrow> bool \<Rightarrow> bool \<Rightarrow> bool \<Rightarrow> string option" where
  "nidx_presql names mimi cmd app use_cmd use_app with_data =
     (let t = sprintf ''select user_id, cmd_id, app_id, timestamp, magic %s from %s where user_id=%u %s %s ''
            [S (if with_data then '', data'' else '' ''), S (get_table_name names mimi), N mimi,
             S (if use_cmd then ''and cmd_id = %u'' else '' ''), S (if use_app then ''and app_id = %u'' else '' '')]
      in if \<not> use_cmd \<and> \<not> use_app then Some t
         else c_format t ((if use_cmd then [N cmd] else []) @ (if use_app then [N app] else [])))"

definition flag_bit :: "nat \<Rightarrow> nat \<Rightarrow> bool" where
  "flag_bit flag k \<longleftrightarrow> odd (flag div 2 ^ k)"

definition nindex_sql ::
  "(nat \<Rightarrow> string) \<Rightarrow> nat \<Rightarrow> nat \<Rightarrow> nat \<Rightarrow> nat \<Rightarrow> nat \<Rightarrow> nat \<Rightarrow> nat \<Rightarrow> string option" where
  "nindex_sql names mimi flag cmd app start after before =
     (case nidx_presql names mimi cmd app (flag_bit flag 0) (flag_bit flag 1) (flag_bit flag 2) of
        None \<Rightarrow> None
      | Some pre \<Rightarrow>
          if before > 0 \<and> after = 0 then
            c_format (pre @ '' and timestamp <= %u order by timestamp desc limit %u;'') [N start, N before]
          else if after > 0 \<and> before = 0 then
            map_option (\<lambda>t. sprintf ''select * from (%s'' [S t])
              (c_format (pre @ '' and timestamp >= %u order by timestamp limit %u) tmp order by timestamp desc;'')
                [N start, N after])
          else
            (case (c_format (pre @ '' and timestamp <= %u order by timestamp desc limit %u'') [N start, N before],
                   c_format (pre @ '' and timestamp >= %u order by timestamp asc limit %u'') [N start, N after]) of
               (Some b, Some a) \<Rightarrow> Some (sprintf ''(%s) union (%s) order by timestamp desc;'' [S b, S a])
             | _ \<Rightarrow> None))"

definition db_get_nindexs ::
  "'d mysql \<Rightarrow> (nat \<Rightarrow> string) \<Rightarrow> nat \<Rightarrow> nat \<Rightarrow> nat \<Rightarrow> nat \<Rightarrow> nat \<Rightarrow> nat \<Rightarrow> nat \<Rightarrow> nat \<Rightarrow> 'd \<Rightarrow>
   ((int \<times> byte list) \<times> 'd) option" where
  "db_get_nindexs sq names buflen mimi flag cmd app start after before d =
     (if before = 0 \<and> after = 0 then Some ((0, []), d)
      else case nindex_sql names mimi flag cmd app start after before of
          None \<Rightarrow> None
        | Some t \<Rightarrow>
            if \<not> fits_sql t then Some ((-1, []), d)
            else get_feedspkg sq buflen t (flag_bit flag 2) d)"

definition span_sql ::
  "(nat \<Rightarrow> string) \<Rightarrow> nat \<Rightarrow> nat \<Rightarrow> nat \<Rightarrow> nat \<Rightarrow> nat \<Rightarrow> nat \<Rightarrow> string option" where
  "span_sql names mimi flag cmd app start stop =
     (case nidx_presql names mimi cmd app (flag_bit flag 0) (flag_bit flag 1) (flag_bit flag 2) of
        None \<Rightarrow> None
      | Some pre \<Rightarrow>
          c_format (pre @ '' and timestamp between %u and %u order by timestamp desc;'') [N start, N stop])"

definition db_get_spanindexs ::
  "'d mysql \<Rightarrow> (nat \<Rightarrow> string) \<Rightarrow> nat \<Rightarrow> nat \<Rightarrow> nat \<Rightarrow> nat \<Rightarrow> nat \<Rightarrow> nat \<Rightarrow> nat \<Rightarrow> 'd \<Rightarrow>
   ((int \<times> byte list) \<times> 'd) option" where
  "db_get_spanindexs sq names buflen mimi flag cmd app start stop d =
     (case span_sql names mimi flag cmd app start stop of
        None \<Rightarrow> None
      | Some t \<Rightarrow>
          if \<not> fits_sql t then Some ((-1, []), d)
          else get_feedspkg sq buflen t (flag_bit flag 2) d)"

end
