(* ===== verification/FeedsTable.thy ===== *)
theory FeedsTable
  imports FeedsDb
begin

text \<open>
  The tables of feeds as one list of rows: what the storage service relies on when it sends a
  statement to MySQL (\<open>mysql_ok\<close>: an error changes nothing, everything else does what the statement
  says), and what follows for the operations of \<^verbatim>\<open>FeedsDb\<close>. A list of rows that reads the statements back
  from their texts is such a database. Proved of the texts: data cannot leave its quotes.
\<close>

section \<open>Rows\<close>

type_synonym feed_row = "feedid \<times> byte list"

text \<open>Data that a column of type \<^verbatim>\<open>text\<close> keeps as it is, whatever its character set.\<close>

definition text_ok :: "byte list \<Rightarrow> bool" where
  "text_ok bs \<longleftrightarrow> length bs \<le> 65535 \<and> (\<forall>b \<in> set bs. 0 < b \<and> b < 128)"

lemma text_ok_c_str: "text_ok bs \<Longrightarrow> c_str bs = bs"
  by (rule c_str_id) (auto simp: text_ok_def)

definition id_row :: "feedid \<Rightarrow> string list" where
  "id_row f = [dec (fid_mimi f), dec (fid_cmd_id f), dec (fid_app_id f), dec (fid_timestamp f), dec (fid_magic f)]"

definition data_row :: "feed_row \<Rightarrow> string list" where
  "data_row x = id_row (fst x) @ [chars (snd x)]"

definition key_row :: "feed_row \<Rightarrow> string list" where
  "key_row x = [dec (fid_mimi (fst x)), chars (snd x)]"

definition has_id :: "feedid \<Rightarrow> feed_row \<Rightarrow> bool" where
  "has_id f x \<longleftrightarrow> fst x = f"

definition has_key :: "nat \<Rightarrow> nat \<Rightarrow> nat \<Rightarrow> nat \<Rightarrow> feed_row \<Rightarrow> bool" where
  "has_key mimi cmd app magic x \<longleftrightarrow>
     fid_mimi (fst x) = mimi \<and> fid_cmd_id (fst x) = cmd \<and> fid_app_id (fst x) = app \<and> fid_magic (fst x) = magic"

definition renew :: "feedid \<Rightarrow> feedid \<Rightarrow> byte list \<Rightarrow> feed_row \<Rightarrow> feed_row" where
  "renew old new bs x = (if has_id old x then (new, bs) else x)"

definition rows_ok :: "feed_row list \<Rightarrow> bool" where
  "rows_ok rs \<longleftrightarrow> (\<forall>x \<in> set rs. feedid_ok (fst x) \<and> text_ok (snd x))"

lemma strtou_dec: "n < 2 ^ 64 \<Longrightarrow> strtou (dec n) = n"
  unfolding strtou_def takeWhile_dec [of "[]" n, OF disjI1, OF refl, unfolded append_Nil2] dec_value_dec by simp

lemma row_id_row: "feedid_ok f \<Longrightarrow> row_id (id_row f @ r) = f"
  by (cases f) (simp add: row_id_def id_row_def feedid_ok_def strtou_dec)

lemma build_feed_row: "feedid_ok (fst x) \<Longrightarrow> text_ok (snd x) \<Longrightarrow> build_feed (data_row x) True = Some (feed_pkg (fst x) (snd x))"
  using row_id_row [of "fst x" "[chars (snd x)]"]
  by (simp add: build_feed_def data_row_def id_row_def text_ok_c_str)

lemma build_feeds_rows: "rows_ok rs \<Longrightarrow> build_feeds (map data_row rs) True = Some (concat (map (\<lambda>x. feed_pkg (fst x) (snd x)) rs))"
  by (induction rs) (simp_all add: rows_ok_def build_feed_row)

section \<open>What is relied on\<close>

definition changes_by ::
  "'d mysql \<Rightarrow> ('d \<Rightarrow> 'r) \<Rightarrow> string \<Rightarrow> ('r \<Rightarrow> 'r) \<Rightarrow> bool" where
  "changes_by sq R t upd \<longleftrightarrow>
     (\<forall>d. (case sq_exec sq t d of (n, d') \<Rightarrow> n < 0 \<and> R d' = R d \<or> 0 \<le> n \<and> R d' = upd (R d)))"

definition answers ::
  "'d mysql \<Rightarrow> ('d \<Rightarrow> 'r) \<Rightarrow> string \<Rightarrow> ('r \<Rightarrow> string list list \<Rightarrow> bool) \<Rightarrow> bool" where
  "answers sq R t ok \<longleftrightarrow>
     (\<forall>d. (case sq_select sq t d of
         ((n, rows), d') \<Rightarrow> R d' = R d \<and> (n < 0 \<or> n = int (length rows) \<and> ok (R d) rows)))"

definition mysql_ok :: "'d mysql \<Rightarrow> (nat \<Rightarrow> string) \<Rightarrow> ('d \<Rightarrow> feed_row list) \<Rightarrow> bool" where
  "mysql_ok sq names R \<longleftrightarrow>
     (\<forall>f bs. feedid_ok f \<longrightarrow> text_ok bs \<longrightarrow>
        changes_by sq R (insert_sql names f (sq_escape sq bs)) (\<lambda>rs. rs @ [(f, bs)]) \<and>
        (\<forall>d. fst (sq_exec sq (insert_sql names f (sq_escape sq bs)) d) \<noteq> 0)) \<and>
     (\<forall>old new bs. feedid_ok old \<longrightarrow> feedid_ok new \<longrightarrow> fid_mimi old = fid_mimi new \<longrightarrow> text_ok bs \<longrightarrow>
        changes_by sq R (update_sql names old new (sq_escape sq bs)) (map (renew old new bs))) \<and>
     (\<forall>f. feedid_ok f \<longrightarrow> changes_by sq R (delete_sql names f) (filter (\<lambda>x. \<not> has_id f x))) \<and>
     (\<forall>mimi cmd app magic.
        changes_by sq R (delete2_sql names mimi cmd app magic) (filter (\<lambda>x. \<not> has_key mimi cmd app magic x))) \<and>
     (\<forall>f. feedid_ok f \<longrightarrow>
        answers sq R (exists_sql names f) (\<lambda>rs rows. length rows = length (filter (has_id f) rs)) \<and>
        answers sq R (select_sql names f) (\<lambda>rs rows. rows = map data_row (filter (has_id f) rs))) \<and>
     (\<forall>mimi cmd app magic.
        answers sq R (feedids_sql names mimi cmd app magic)
          (\<lambda>rs rows. rows = map (id_row \<circ> fst) (filter (has_key mimi cmd app magic) rs)) \<and>
        answers sq R (select2_sql names mimi cmd app magic)
          (\<lambda>rs rows. \<exists>ys. rows = map data_row ys \<and> set ys \<subseteq> set (filter (has_key mimi cmd app magic) rs))) \<and>
     (\<forall>f. feedid_ok f \<longrightarrow> names (get_dbid (fid_mimi f)) = ''db_newsfeed_'' @ dec (get_dbid (fid_mimi f)) \<longrightarrow>
        answers sq R (key_data_sql f) (\<lambda>rs rows. rows = map key_row (filter (has_id f) rs))) \<and>
     (\<forall>t d. prefix ''select '' t \<or> prefix ''(select '' t \<longrightarrow> R (snd (sq_select sq t d)) = R d) \<and>
     (\<forall>bs. length (sq_escape sq bs) \<le> 2 * length bs + 1)"

text \<open>A database whose queries do not fail, and one without any errors.\<close>

definition selects_up :: "'d mysql \<Rightarrow> bool" where
  "selects_up sq \<longleftrightarrow> (\<forall>t d. 0 \<le> fst (fst (sq_select sq t d)))"

definition mysql_up :: "'d mysql \<Rightarrow> bool" where
  "mysql_up sq \<longleftrightarrow> (\<forall>k d. sq_conn sq k d) \<and> (\<forall>t d. 0 \<le> fst (sq_exec sq t d)) \<and> selects_up sq"

section \<open>The operations on rows\<close>

lemma changes_byD:
  "changes_by sq R t upd \<Longrightarrow> sq_exec sq t d = (n, d') \<Longrightarrow> n < 0 \<and> R d' = R d \<or> 0 \<le> n \<and> R d' = upd (R d)"
  by (auto simp: changes_by_def split: prod.splits)

lemma answersD:
  "answers sq R t ok \<Longrightarrow> sq_select sq t d = ((n, rows), d') \<Longrightarrow>
   R d' = R d \<and> (n < 0 \<or> n = int (length rows) \<and> ok (R d) rows)"
  by (force simp: answers_def split: prod.splits)

lemma db_insert_rows:
  assumes "mysql_ok sq names R" "feedid_ok f" "text_ok bs" "db_insert sq names f (sq_escape sq bs) d = (r, d')"
  shows "r = 0 \<and> R d' = R d @ [(f, bs)] \<or>
    r = -1 \<and> R d' = R d \<and> \<not> (mysql_up sq \<and> fits_sql (insert_sql names f (sq_escape sq bs)))"
proof -
  let ?t = "insert_sql names f (sq_escape sq bs)"
  obtain n e where e: "sq_exec sq ?t d = (n, e)" by (cases "sq_exec sq ?t d") auto
  have l: "changes_by sq R ?t (\<lambda>rs. rs @ [(f, bs)])" "fst (sq_exec sq ?t d) \<noteq> 0"
    using assms(1-3) unfolding mysql_ok_def by blast+
  have u: "mysql_up sq \<Longrightarrow> 0 \<le> n" using e unfolding mysql_up_def by (metis fst_conv)
  from changes_byD [OF l(1) e] l(2) e u assms(4) show ?thesis
    by (auto simp: db_insert_def Let_def split: if_splits)
qed

lemma db_change_rows:
  assumes "changes_by sq R t upd" "sq_exec sq t d = (n, d')"
  shows "0 \<le> n \<and> R d' = upd (R d) \<or> n < 0 \<and> R d' = R d \<and> \<not> mysql_up sq"
proof -
  have "mysql_up sq \<Longrightarrow> 0 \<le> n" using assms(2) unfolding mysql_up_def by (metis fst_conv)
  with changes_byD [OF assms] show ?thesis by auto
qed

lemma db_update_rows:
  assumes "mysql_ok sq names R" "feedid_ok old" "feedid_ok new" "fid_mimi old = fid_mimi new" "text_ok bs"
    "db_update2 sq names old new (sq_escape sq bs) d = (r, d')"
  shows "r = 0 \<and> R d' = map (renew old new bs) (R d) \<or>
    r = -1 \<and> R d' = R d \<and> \<not> (mysql_up sq \<and> fits_sql (update_sql names old new (sq_escape sq bs)))"
proof -
  let ?t = "update_sql names old new (sq_escape sq bs)"
  obtain n e where e: "sq_exec sq ?t d = (n, e)" by (cases "sq_exec sq ?t d") auto
  have "changes_by sq R ?t (map (renew old new bs))" using assms(1-5) unfolding mysql_ok_def by blast
  from db_change_rows [OF this e] e assms(6) show ?thesis
    by (auto simp: db_update2_def Let_def split: if_splits)
qed

lemma db_del_rows:
  assumes "mysql_ok sq names R" "feedid_ok f" "db_del sq names f d = (r, d')"
  shows "r = 0 \<and> R d' = filter (\<lambda>x. \<not> has_id f x) (R d) \<or>
    r = -1 \<and> R d' = R d \<and> \<not> (mysql_up sq \<and> fits_sql (delete_sql names f))"
proof -
  let ?t = "delete_sql names f"
  obtain n e where e: "sq_exec sq ?t d = (n, e)" by (cases "sq_exec sq ?t d") auto
  have "changes_by sq R ?t (filter (\<lambda>x. \<not> has_id f x))" using assms(1,2) unfolding mysql_ok_def by blast
  from db_change_rows [OF this e] e assms(3) show ?thesis
    by (auto simp: db_del_def Let_def split: if_splits)
qed

lemma db_del2_rows:
  assumes "mysql_ok sq names R" "db_del2 sq names mimi cmd app magic d = (r, d')"
  shows "r = 0 \<and> R d' = filter (\<lambda>x. \<not> has_key mimi cmd app magic x) (R d) \<or>
    r = -1 \<and> R d' = R d \<and> \<not> (mysql_up sq \<and> fits_sql (delete2_sql names mimi cmd app magic))"
proof -
  let ?t = "delete2_sql names mimi cmd app magic"
  obtain n e where e: "sq_exec sq ?t d = (n, e)" by (cases "sq_exec sq ?t d") auto
  have "changes_by sq R ?t (filter (\<lambda>x. \<not> has_key mimi cmd app magic x))"
    using assms(1) unfolding mysql_ok_def by blast
  from db_change_rows [OF this e] e assms(2) show ?thesis
    by (auto simp: db_del2_def Let_def split: if_splits)
qed

lemma check_existed_rows:
  assumes "mysql_ok sq names R" "feedid_ok f" "check_existed sq names f d = (b, d')" "fits_sql (exists_sql names f)"
  shows "R d' = R d \<and> (b \<longrightarrow> (\<exists>x \<in> set (R d). has_id f x)) \<and>
    (selects_up sq \<longrightarrow> (b \<longleftrightarrow> (\<exists>x \<in> set (R d). has_id f x)))"
proof -
  let ?t = "exists_sql names f"
  obtain n rows e where e: "sq_select sq ?t d = ((n, rows), e)" by (cases "sq_select sq ?t d") auto
  have "answers sq R ?t (\<lambda>rs rows. length rows = length (filter (has_id f) rs))"
    using assms(1,2) unfolding mysql_ok_def by blast
  from answersD [OF this e] have a: "R e = R d" "n < 0 \<or> n = int (length (filter (has_id f) (R d)))" by auto
  have b: "b = (if n < 0 then False else n \<noteq> 0)" "d' = e"
    using assms(3,4) e by (auto simp: check_existed_def Let_def)
  have u: "selects_up sq \<Longrightarrow> 0 \<le> n" using e unfolding selects_up_def by (metis fst_conv)
  show ?thesis using a b u by (auto simp: filter_empty_conv split: if_splits)
qed

lemma db_get_pkg_rows:
  assumes "mysql_ok sq names R" "feedid_ok f" "rows_ok (R d)" "db_get_pkg sq names buflen f d = Some ((n, b), d')"
  shows "R d' = R d \<and> (n < 0 \<and> b = [] \<and> \<not> (selects_up sq \<and> fits_sql (select_sql names f)) \<or>
    n = int (length (filter (has_id f) (R d))) \<and>
    b = concat (map (\<lambda>x. feed_pkg f (snd x)) (filter (has_id f) (R d))))"
proof (cases "fits_sql (select_sql names f)")
  case False
  with assms(4) show ?thesis by (simp add: db_get_pkg_def)
next
  case True
  let ?t = "select_sql names f"
  let ?rs = "filter (has_id f) (R d)"
  obtain m rows e where e: "sq_select sq ?t d = ((m, rows), e)" by (cases "sq_select sq ?t d") auto
  have "answers sq R ?t (\<lambda>rs rows. rows = map data_row (filter (has_id f) rs))"
    using assms(1,2) unfolding mysql_ok_def by blast
  from answersD [OF this e] have a: "R e = R d" "m < 0 \<or> m = int (length rows) \<and> rows = map data_row ?rs" by auto
  have u: "selects_up sq \<Longrightarrow> 0 \<le> m" using e unfolding selects_up_def by (metis fst_conv)
  have g: "get_feedspkg sq buflen ?t True d = Some ((n, b), d')" using assms(4) True by (simp add: db_get_pkg_def)
  have "map (\<lambda>x. feed_pkg (fst x) (snd x)) ?rs = map (\<lambda>x. feed_pkg f (snd x)) ?rs"
    by (rule map_cong) (auto simp: has_id_def)
  moreover have "rows_ok ?rs" using assms(3) by (auto simp: rows_ok_def)
  ultimately have bf: "build_feeds (map data_row ?rs) True = Some (concat (map (\<lambda>x. feed_pkg f (snd x)) ?rs))"
    using build_feeds_rows [of ?rs] by (simp only:)
  show ?thesis
  proof (cases "m > 0")
    case True
    with a(2) have m: "m = int (length ?rs)" "rows = map data_row ?rs" by auto
    then have "take (nat m) rows = map data_row ?rs" by simp
    with g e True bf have "n = m" "b = concat (map (\<lambda>x. feed_pkg f (snd x)) ?rs)" "d' = e"
      by (auto simp: get_feedspkg_def split: if_splits)
    with a(1) m show ?thesis by simp
  next
    case False
    with g e have nb: "n = m" "b = []" "d' = e" by (auto simp: get_feedspkg_def)
    show ?thesis
    proof (cases "m < 0")
      case True
      with nb a(1) u show ?thesis by auto
    next
      case F: False
      then have "m = int (length ?rs)" using a(2) by auto
      then have "length ?rs = 0" using False by simp
      then have "?rs = []" by (rule length_0_conv [THEN iffD1])
      with nb a(1) \<open>m = int (length ?rs)\<close> show ?thesis by (simp only: list.map concat.simps) simp
    qed
  qed
qed

lemma get_feedids_rows:
  assumes "mysql_ok sq names R" "rows_ok (R d)" "get_feedids sq names mimi cmd app magic d = Some ((n, fs), d')"
  shows "R d' = R d \<and> (n < 0 \<and> fs = [] \<and> \<not> (selects_up sq \<and> fits_sql (feedids_sql names mimi cmd app magic)) \<or>
    fs = map fst (filter (has_key mimi cmd app magic) (R d)) \<and> n = int (length fs))"
proof (cases "fits_sql (feedids_sql names mimi cmd app magic)")
  case False
  with assms(3) show ?thesis by (simp add: get_feedids_def)
next
  case True
  let ?t = "feedids_sql names mimi cmd app magic"
  let ?rs = "filter (has_key mimi cmd app magic) (R d)"
  obtain m rows e where e: "sq_select sq ?t d = ((m, rows), e)" by (cases "sq_select sq ?t d") auto
  have "answers sq R ?t (\<lambda>rs rows. rows = map (id_row \<circ> fst) (filter (has_key mimi cmd app magic) rs))"
    using assms(1) unfolding mysql_ok_def by blast
  from answersD [OF this e] have a: "R e = R d" "m < 0 \<or> m = int (length rows) \<and> rows = map (id_row \<circ> fst) ?rs" by auto
  have u: "selects_up sq \<Longrightarrow> 0 \<le> m" using e unfolding selects_up_def by (metis fst_conv)
  show ?thesis
  proof (cases "m \<le> 0")
    case True
    with assms(3) e \<open>fits_sql ?t\<close> have "n = m" "fs = []" "d' = e" by (auto simp: get_feedids_def Let_def)
    with a u True show ?thesis by auto
  next
    case False
    then have m: "m = int (length ?rs)" "rows = map (id_row \<circ> fst) ?rs" using a(2) by auto
    have "map row_id (take (nat m) rows) = map fst ?rs"
      using assms(2) row_id_row [of _ "[]"] unfolding m by (auto simp: rows_ok_def)
    with assms(3) e \<open>fits_sql ?t\<close> False m a(1) show ?thesis
      by (auto simp: get_feedids_def Let_def split: if_splits)
  qed
qed

lemma db_gets2_pkg_rows:
  assumes "mysql_ok sq names R" "rows_ok (R d)"
    "db_gets2_pkg sq names buflen mimi cmd app magic d = Some ((n, b), d')"
  shows "R d' = R d \<and> (n < 0 \<and> b = [] \<or>
    (\<exists>ys. set ys \<subseteq> set (R d) \<and> n = int (length ys) \<and> b = concat (map (\<lambda>x. feed_pkg (fst x) (snd x)) ys)))"
proof -
  let ?t = "select2_sql names mimi cmd app magic"
  obtain m rows e where e: "sq_select sq ?t d = ((m, rows), e)" by (cases "sq_select sq ?t d") auto
  have "answers sq R ?t
      (\<lambda>rs rows. \<exists>ys. rows = map data_row ys \<and> set ys \<subseteq> set (filter (has_key mimi cmd app magic) rs))"
    using assms(1) unfolding mysql_ok_def by blast
  from answersD [OF this e] have a: "R e = R d" "m < 0 \<or> (\<exists>ys. m = int (length rows) \<and> rows = map data_row ys \<and> set ys \<subseteq> set (R d))"
    by auto
  have g: "get_feedspkg sq buflen ?t True d = Some ((n, b), d')" using assms(3) by (simp add: db_gets2_pkg_def)
  show ?thesis
  proof (cases "m > 0")
    case True
    with a(2) obtain ys where m: "m = int (length ys)" "rows = map data_row ys" "set ys \<subseteq> set (R d)" by auto
    then have "rows_ok ys" "take (nat m) rows = map data_row ys" using assms(2) by (auto simp: rows_ok_def)
    with g e True build_feeds_rows [of ys]
    have "n = m" "b = concat (map (\<lambda>x. feed_pkg (fst x) (snd x)) ys)" "d' = e"
      by (auto simp: get_feedspkg_def split: if_splits)
    with a(1) m show ?thesis by blast
  next
    case False
    with g e have "n = m" "b = []" "d' = e" by (auto simp: get_feedspkg_def)
    moreover from this False have "n < 0 \<or> n = int (length ([] :: feed_row list))" by auto
    ultimately show ?thesis using a(1) by auto
  qed
qed

section \<open>The texts of the statements\<close>

text \<open>Names of databases are words, and fit their field in the configuration.\<close>

definition names_ok :: "(nat \<Rightarrow> string) \<Rightarrow> bool" where
  "names_ok names \<longleftrightarrow> (\<forall>k. CHR '' '' \<notin> set (names k) \<and> CHR ''%'' \<notin> set (names k) \<and> length (names k) < 100)"

lemma table_name_ok: "names_ok names \<Longrightarrow> CHR '' '' \<notin> set (get_table_name names mimi)"
  using dec_digits [of "CHR '' ''" "get_tid mimi"] by (auto simp: names_ok_def get_table_name_def is_digit_def)

lemmas fmt_defs = insert_fmt_def update_fmt_def delete_fmt_def delete2_fmt_def select_fmt_def select2_fmt_def
  exists_fmt_def feedids_fmt_def

lemma sprintf_scan: "c_format f args = Some t \<Longrightarrow> c_clean f args \<Longrightarrow> c_scan f (sprintf f args) = Some args"
  by (simp add: sprintf_def c_scan_format)

lemma insert_text:
  assumes "names_ok names" "quotable data"
  shows "c_scan insert_fmt (insert_sql names f data) =
    Some (S (get_table_name names (fid_mimi f)) # id_args f @ [S data])"
  unfolding insert_sql_def
  by (rule sprintf_scan)
    (use table_name_ok [OF assms(1)] assms(2) in
      \<open>simp_all add: insert_fmt_def id_args_def arg_clean_def is_digit_def\<close>)

lemma update_text:
  assumes "names_ok names" "quotable data"
  shows "c_scan update_fmt (update_sql names old new data) =
    Some (S (get_table_name names (fid_mimi new)) # id_args new @ S data # id_args old)"
  unfolding update_sql_def
  by (rule sprintf_scan)
    (use table_name_ok [OF assms(1)] assms(2) in
      \<open>simp_all add: update_fmt_def id_args_def arg_clean_def is_digit_def\<close>)

lemma delete_text:
  assumes "names_ok names"
  shows "c_scan delete_fmt (delete_sql names f) = Some (S (get_table_name names (fid_mimi f)) # id_args f)"
    and "c_scan delete2_fmt (delete2_sql names mimi cmd app magic) =
      Some [S (get_table_name names mimi), N mimi, N cmd, N app, N magic]"
  unfolding delete_sql_def delete2_sql_def
  by (rule sprintf_scan;
    use table_name_ok [OF assms(1)] in
      \<open>simp add: delete_fmt_def delete2_fmt_def id_args_def arg_clean_def is_digit_def\<close>)+

lemma query_text:
  assumes "names_ok names"
  shows "c_scan exists_fmt (exists_sql names f) = Some (S (get_table_name names (fid_mimi f)) # id_args f)"
    and "c_scan select_fmt (select_sql names f) = Some (S (get_table_name names (fid_mimi f)) # id_args f)"
    and "c_scan feedids_fmt (feedids_sql names mimi cmd app magic) =
      Some [S (get_table_name names mimi), N mimi, N cmd, N app, N magic]"
    and "c_scan select2_fmt (select2_sql names mimi cmd app magic) =
      Some [S (get_table_name names mimi), N mimi, N cmd, N app, N magic, N GET2_LIMIT]"
  unfolding exists_sql_def select_sql_def feedids_sql_def select2_sql_def
  by (rule sprintf_scan;
    use table_name_ok [OF assms(1)] in
      \<open>simp add: exists_fmt_def select_fmt_def feedids_fmt_def select2_fmt_def id_args_def arg_clean_def is_digit_def\<close>)+

lemma key_data_text:
  "c_scan key_data_fmt (key_data_sql f) = Some (N (get_dbid (fid_mimi f)) # N (get_tid (fid_mimi f)) # id_args f)"
  unfolding key_data_sql_def
  by (rule sprintf_scan) (simp_all add: key_data_fmt_def id_args_def arg_clean_def is_digit_def)

text \<open>A text of one statement is none of another.\<close>

lemma split_dec: "\<not> is_digit c \<Longrightarrow> split_arg Dec r (dec n @ c # u) = (N n, c # u)"
  using split_arg_put [of Dec "N n" "dec n" "[c]" "[]" "[c]"] dec_digits [of _ n]
  by (auto simp: split_arg_def dec_value_dec takeWhile_append2 dropWhile_append2)

lemma split_str: "c \<noteq> quote \<Longrightarrow> c \<notin> set s \<Longrightarrow> split_arg Str (c # r) (s @ c # u) = (S s, c # u)"
proof -
  assume a: "c \<noteq> quote" "c \<notin> set s"
  then have "\<And>x. x \<in> set s \<Longrightarrow> x \<noteq> c" by auto
  with a(1) show ?thesis by (simp add: split_arg_def takeWhile_append2 dropWhile_append2)
qed

lemma change_texts_differ:
  assumes "names_ok names"
  shows "c_scan insert_fmt (update_sql names old new data) = None"
    and "c_scan insert_fmt (delete_sql names f) = None"
    and "c_scan insert_fmt (delete2_sql names mimi cmd app magic) = None"
    and "c_scan update_fmt (delete_sql names f) = None"
    and "c_scan update_fmt (delete2_sql names mimi cmd app magic) = None"
    and "c_scan delete_fmt (delete2_sql names mimi cmd app magic) = None"
  using table_name_ok [OF assms]
  by (simp_all add: fmt_defs sprintf_def update_sql_def delete_sql_def delete2_sql_def id_args_def split_dec split_str is_digit_def)

lemma query_texts_differ:
  assumes "names_ok names"
  shows "c_scan exists_fmt (select_sql names f) = None"
    and "c_scan exists_fmt (feedids_sql names mimi cmd app magic) = None"
    and "c_scan exists_fmt (select2_sql names mimi cmd app magic) = None"
    and "c_scan select_fmt (feedids_sql names mimi cmd app magic) = None"
    and "c_scan select_fmt (select2_sql names mimi cmd app magic) = None"
    and "c_scan feedids_fmt (select2_sql names mimi cmd app magic) = None"
    and "c_scan exists_fmt (key_data_sql f) = None"
    and "c_scan select_fmt (key_data_sql f) = None"
    and "c_scan feedids_fmt (key_data_sql f) = None"
    and "c_scan select2_fmt (key_data_sql f) = None"
  using table_name_ok [OF assms]
  by (simp_all add: fmt_defs key_data_fmt_def key_data_sql_def sprintf_def exists_sql_def select_sql_def feedids_sql_def select2_sql_def id_args_def
      split_dec split_str is_digit_def)

section \<open>A database that reads the statements\<close>

fun escape :: "string \<Rightarrow> string" where
  "escape [] = []"
| "escape (c # s) =
     (if c = CHR 0x00 then [bslash, CHR ''0''] else if c = bslash \<or> c = quote then [bslash, c] else [c]) @ escape s"

fun unescape :: "string \<Rightarrow> string" where
  "unescape [] = []"
| "unescape [c] = [c]"
| "unescape (c # d # s) =
     (if c = bslash then (if d = CHR ''0'' then CHR 0x00 else d) # unescape s else c # unescape (d # s))"

lemma quotable_cons: "c \<noteq> quote \<Longrightarrow> c \<noteq> bslash \<Longrightarrow> quotable s \<Longrightarrow> quotable (c # s)"
  by (cases s) auto

lemma quotable_escape: "quotable (escape s)"
  by (induction s) (auto intro: quotable_cons)

lemma length_escape: "length (escape s) \<le> 2 * length s"
  by (induction s) auto

lemma unescape_cons: "c \<noteq> bslash \<Longrightarrow> unescape (c # s) = c # unescape s"
  by (cases s) auto

lemma unescape_escape: "unescape (escape s) = s"
  by (induction s) (auto simp: unescape_cons)

definition arg_id :: "c_arg list \<Rightarrow> feedid option" where
  "arg_id as =
     (case as of
        [N a, N b, N c, N e, N m] \<Rightarrow>
          Some \<lparr>fid_mimi = a, fid_cmd_id = b, fid_app_id = c, fid_timestamp = e, fid_magic = m\<rparr>
      | _ \<Rightarrow> None)"

definition scan_data :: "string \<Rightarrow> string \<Rightarrow> (feedid \<times> byte list \<times> c_arg list) option" where
  "scan_data fmt t =
     (case c_scan fmt t of
        Some (T # N a # N b # N c # N e # N m # S x # r) \<Rightarrow>
          Some (\<lparr>fid_mimi = a, fid_cmd_id = b, fid_app_id = c, fid_timestamp = e, fid_magic = m\<rparr>, bytes (unescape x), r)
      | _ \<Rightarrow> None)"

definition scan_id :: "string \<Rightarrow> string \<Rightarrow> feedid option" where
  "scan_id fmt t = (case c_scan fmt t of Some (T # as) \<Rightarrow> arg_id as | _ \<Rightarrow> None)"

definition scan_id2 :: "string \<Rightarrow> string \<Rightarrow> feedid option" where
  "scan_id2 fmt t = (case c_scan fmt t of Some (T # T' # as) \<Rightarrow> arg_id as | _ \<Rightarrow> None)"

definition scan_key :: "string \<Rightarrow> string \<Rightarrow> (feed_row \<Rightarrow> bool) option" where
  "scan_key fmt t =
     (case c_scan fmt t of
        Some (T # N a # N b # N c # N m # r) \<Rightarrow> Some (has_key a b c m) | _ \<Rightarrow> None)"

definition rows_exec :: "string \<Rightarrow> feed_row list \<Rightarrow> int \<times> feed_row list" where
  "rows_exec t rs =
     (case scan_data insert_fmt t of
        Some (f, bs, r) \<Rightarrow> (1, rs @ [(f, bs)])
      | None \<Rightarrow>
     (case scan_data update_fmt t of
        Some (new, bs, as) \<Rightarrow> (0, (case arg_id as of Some old \<Rightarrow> map (renew old new bs) rs | None \<Rightarrow> rs))
      | None \<Rightarrow>
     (case scan_id delete_fmt t of
        Some f \<Rightarrow> (0, filter (\<lambda>x. \<not> has_id f x) rs)
      | None \<Rightarrow>
     (case scan_key delete2_fmt t of
        Some P \<Rightarrow> (0, filter (\<lambda>x. \<not> P x) rs)
      | None \<Rightarrow> (0, rs)))))"

definition counted :: "string list list \<Rightarrow> feed_row list \<Rightarrow> (int \<times> string list list) \<times> feed_row list" where
  "counted rows rs = ((int (length rows), rows), rs)"

definition rows_select :: "string \<Rightarrow> feed_row list \<Rightarrow> (int \<times> string list list) \<times> feed_row list" where
  "rows_select t rs =
     (case scan_id exists_fmt t of
        Some f \<Rightarrow> counted (map (\<lambda>x. [dec (fid_mimi f)]) (filter (has_id f) rs)) rs
      | None \<Rightarrow>
     (case scan_id select_fmt t of
        Some f \<Rightarrow> counted (map data_row (filter (has_id f) rs)) rs
      | None \<Rightarrow>
     (case scan_key feedids_fmt t of
        Some P \<Rightarrow> counted (map (id_row \<circ> fst) (filter P rs)) rs
      | None \<Rightarrow>
     (case scan_key select2_fmt t of
        Some P \<Rightarrow> counted (map data_row (take GET2_LIMIT (filter P rs))) rs
      | None \<Rightarrow>
     (case scan_id2 key_data_fmt t of
        Some f \<Rightarrow> counted (map key_row (filter (has_id f) rs)) rs
      | None \<Rightarrow> counted [] rs)))))"

definition rows_mysql :: "feed_row list mysql" where
  "rows_mysql =
     \<lparr>sq_conn = (\<lambda>k d. True), sq_select = rows_select, sq_exec = rows_exec, sq_escape = (\<lambda>bs. escape (chars bs))\<rparr>"

lemma arg_id_args [simp]: "arg_id (id_args f) = Some f"
  by (simp add: arg_id_def id_args_def)

lemma feedid_eta [simp]: "fid_mimi f = m \<Longrightarrow>
    \<lparr>fid_mimi = m, fid_cmd_id = fid_cmd_id f, fid_app_id = fid_app_id f, fid_timestamp = fid_timestamp f,
     fid_magic = fid_magic f\<rparr> = f"
  by (cases f) auto

lemma rows_mysql_ok:
  assumes "names_ok names"
  shows "mysql_ok rows_mysql names (\<lambda>rs. rs)" "mysql_up rows_mysql"
proof -
  have q: "quotable (escape (chars bs))" for bs by (rule quotable_escape)
  note texts = insert_text [OF assms q] update_text [OF assms q] delete_text [OF assms] query_text [OF assms]
    change_texts_differ [OF assms] query_texts_differ [OF assms]
  note scans = scan_data_def scan_id_def scan_key_def texts unescape_escape
  have "changes_by rows_mysql (\<lambda>rs. rs) (insert_sql names f (escape (chars bs))) (\<lambda>rs. rs @ [(f, bs)])"
    "\<forall>d. fst (rows_exec (insert_sql names f (escape (chars bs))) d) \<noteq> 0"
    "changes_by rows_mysql (\<lambda>rs. rs) (update_sql names old f (escape (chars bs))) (map (renew old f bs))"
    "changes_by rows_mysql (\<lambda>rs. rs) (delete_sql names f) (filter (\<lambda>x. \<not> has_id f x))"
    "changes_by rows_mysql (\<lambda>rs. rs) (delete2_sql names mimi cmd app magic) (filter (\<lambda>x. \<not> has_key mimi cmd app magic x))"
    for f old bs mimi cmd app magic
    by (simp_all add: changes_by_def rows_mysql_def rows_exec_def scans)
      (simp_all add: id_args_def arg_id_def unescape_escape)
  moreover have "answers rows_mysql (\<lambda>rs. rs) (exists_sql names f) (\<lambda>rs rows. length rows = length (filter (has_id f) rs))"
    "answers rows_mysql (\<lambda>rs. rs) (select_sql names f) (\<lambda>rs rows. rows = map data_row (filter (has_id f) rs))"
    "answers rows_mysql (\<lambda>rs. rs) (feedids_sql names mimi cmd app magic)
       (\<lambda>rs rows. rows = map (id_row \<circ> fst) (filter (has_key mimi cmd app magic) rs))"
    for f mimi cmd app magic
    by (simp_all add: answers_def rows_mysql_def rows_select_def scans counted_def)
  moreover have "answers rows_mysql (\<lambda>rs. rs) (select2_sql names mimi cmd app magic)
       (\<lambda>rs rows. \<exists>ys. rows = map data_row ys \<and> set ys \<subseteq> set (filter (has_key mimi cmd app magic) rs))"
    for mimi cmd app magic
    using set_take_subset by (fastforce simp: answers_def rows_mysql_def rows_select_def scans counted_def)
  moreover have "answers rows_mysql (\<lambda>rs. rs) (key_data_sql f) (\<lambda>rs rows. rows = map key_row (filter (has_id f) rs))" for f
    by (simp add: answers_def rows_mysql_def rows_select_def scans scan_id2_def key_data_text counted_def)
  moreover have "snd (rows_select t d) = d" for t d
    by (simp add: rows_select_def counted_def split: option.splits)
  moreover have "length (escape (chars bs)) \<le> 2 * length bs + 1" for bs
    using length_escape [of "chars bs"] by simp
  ultimately show "mysql_ok rows_mysql names (\<lambda>rs. rs)"
    unfolding mysql_ok_def by (simp add: rows_mysql_def)
  have "0 \<le> fst (rows_exec t d)" for t d
    by (simp add: rows_exec_def split: option.splits)
  moreover have "0 \<le> fst (fst (rows_select t d))" for t d
    by (simp add: rows_select_def counted_def split: option.splits)
  ultimately show "mysql_up rows_mysql" by (simp add: mysql_up_def selects_up_def rows_mysql_def)
qed

end
