(* ===== verification/FeedsStore.thy ===== *)
theory FeedsStore
  imports FeedsMemc
begin

text \<open>
  The operations on feeds of the storage service (\<^verbatim>\<open>feed/storage-serv/src/feeds_store.cpp\<close>): each reads
  its packages from the request, changes the tables and the cache, and gives the response that is sent.
  \<open>None\<close> is undefined behaviour: a package that says it is longer than the request, data that does not
  fit its buffer once escaped, a database that cannot be reached where the code goes on without it. The
  value an operation returns beside the response is only logged, and not modelled.
\<close>

section \<open>Requests and responses\<close>

record ('d, 'm) store_env =
  se_sql :: "'d mysql"
  se_mem :: "'m memc"
  se_names :: "nat \<Rightarrow> string"
  se_stars :: "nat set"

definition MAX_PACKAGE_LEN :: nat where "MAX_PACKAGE_LEN = 1024 * 1024"
definition MAX_FEEDDATA_SZ :: nat where "MAX_FEEDDATA_SZ = 1024 * 1024"
definition MAX_ALLOW_UNITS :: nat where "MAX_ALLOW_UNITS = 100"
definition req_hsz :: nat where "req_hsz = 8"
definition res_hsz :: nat where "res_hsz = 8"
definition stat_pkg_len :: nat where "stat_pkg_len = 24"

definition RES_OP_SUCCESS :: nat where "RES_OP_SUCCESS = 0"
definition RES_OP_ERROR :: nat where "RES_OP_ERROR = 1"
definition RES_OP_FEEDID_DUP :: nat where "RES_OP_FEEDID_DUP = 2"
definition RES_OP_ERR_UNITS :: nat where "RES_OP_ERR_UNITS = 3"
definition RES_OP_ERR_FEEDID :: nat where "RES_OP_ERR_FEEDID = 4"
definition RES_OP_ERR_REQUEST :: nat where "RES_OP_ERR_REQUEST = 5"

lemmas res_codes = RES_OP_SUCCESS_def RES_OP_ERROR_def RES_OP_FEEDID_DUP_def RES_OP_ERR_UNITS_def
  RES_OP_ERR_FEEDID_def RES_OP_ERR_REQUEST_def

definition store_response :: "nat \<Rightarrow> nat \<Rightarrow> byte list \<Rightarrow> byte list" where
  "store_response ret units body = to_le 4 (res_hsz + length body) @ to_le 2 ret @ to_le 2 units @ body"

definition build_simple_msg :: "nat \<Rightarrow> byte list" where
  "build_simple_msg ret = store_response ret 0 []"

text \<open>The feed at an offset of the request, and the data of a package with a header of \<open>h\<close> bytes.\<close>

definition feedid_at :: "nat \<Rightarrow> byte list \<Rightarrow> feedid option" where
  "feedid_at off m = (if off + feedid_sz \<le> length m then Some (rd_feedid (drop off m)) else None)"

definition pkg_data :: "nat \<Rightarrow> byte list \<Rightarrow> byte list option" where
  "pkg_data h m =
     (let len = rd_le req_hsz 4 m
      in if len < h \<or> length m < req_hsz + len then None
         else Some (take (len - h) (drop (req_hsz + h) m)))"

definition escaped :: "'d mysql \<Rightarrow> byte list \<Rightarrow> string option" where
  "escaped sq bs = (if length (sq_escape sq bs) < MAX_FEEDDATA_SZ then Some (sq_escape sq bs) else None)"

definition feedid_equal :: "feedid \<Rightarrow> feedid \<Rightarrow> bool" where
  "feedid_equal a b \<longleftrightarrow>
     fid_mimi a = fid_mimi b \<and> fid_cmd_id a = fid_cmd_id b \<and> fid_app_id a = fid_app_id b \<and>
     fid_timestamp a = fid_timestamp b \<and> fid_magic a = fid_magic b"

type_synonym ('d, 'm) store_result = "(byte list \<times> 'd \<times> 'm) option"

abbreviation simple :: "nat \<Rightarrow> 'd \<times> 'm \<Rightarrow> ('d, 'm) store_result" where
  "simple ret st \<equiv> Some (build_simple_msg ret, st)"

section \<open>insert, update, update2, set\<close>

definition insert_pkg_sz :: nat where "insert_pkg_sz = 26"
definition update2_pkg_sz :: nat where "update2_pkg_sz = 48"

definition store_insert ::
  "('d, 'm) store_env \<Rightarrow> nat \<Rightarrow> byte list \<Rightarrow> 'd \<times> 'm \<Rightarrow> ('d, 'm) store_result" where
  "store_insert env units m st =
     (let sq = se_sql env
      in if units \<noteq> 1 then simple RES_OP_ERR_UNITS st
         else case feedid_at 12 m of
             None \<Rightarrow> None
           | Some f \<Rightarrow>
               if \<not> get_db_conn sq (fid_mimi f) (fst st) then simple RES_OP_ERROR st
               else (case check_existed sq (se_names env) f (fst st) of
                   (True, d1) \<Rightarrow> simple RES_OP_FEEDID_DUP (d1, snd st)
                 | (False, d1) \<Rightarrow>
                     (case Option.bind (pkg_data insert_pkg_sz m) (escaped sq) of
                        None \<Rightarrow> None
                      | Some e \<Rightarrow>
                          (case db_insert sq (se_names env) f e d1 of
                             (r, d2) \<Rightarrow> simple (if r \<noteq> 0 then RES_OP_ERROR else RES_OP_SUCCESS) (d2, snd st)))))"

text \<open>Without a database \<^verbatim>\<open>update\<close> and \<^verbatim>\<open>update2\<close> go on with a null pointer.\<close>

definition store_update ::
  "('d, 'm) store_env \<Rightarrow> nat \<Rightarrow> byte list \<Rightarrow> 'd \<times> 'm \<Rightarrow> ('d, 'm) store_result" where
  "store_update env units m st =
     (let sq = se_sql env; mm = se_mem env
      in if units \<noteq> 1 then simple RES_OP_ERR_UNITS st
         else case feedid_at 12 m of
             None \<Rightarrow> None
           | Some f \<Rightarrow>
               if \<not> get_db_conn sq (fid_mimi f) (fst st) then None
               else (case check_existed sq (se_names env) f (fst st) of
                   (False, d1) \<Rightarrow> simple RES_OP_ERR_FEEDID (d1, snd st)
                 | (True, d1) \<Rightarrow>
                     (case pkg_data insert_pkg_sz m of
                        None \<Rightarrow> None
                      | Some bs \<Rightarrow>
                          (case escaped sq bs of
                             None \<Rightarrow> None
                           | Some e \<Rightarrow>
                               (case db_update2 sq (se_names env) f f e d1 of
                                  (r, d2) \<Rightarrow>
                                    if r \<noteq> 0 then simple RES_OP_ERROR (d2, snd st)
                                    else simple RES_OP_SUCCESS
                                      (d2, if mm_handle mm (snd st) then snd (memc_replace mm f bs (snd st)) else snd st))))))"

definition store_update2 ::
  "('d, 'm) store_env \<Rightarrow> nat \<Rightarrow> byte list \<Rightarrow> 'd \<times> 'm \<Rightarrow> ('d, 'm) store_result" where
  "store_update2 env units m st =
     (let sq = se_sql env; mm = se_mem env
      in if units \<noteq> 1 then simple RES_OP_ERR_UNITS st
         else case (feedid_at 12 m, feedid_at 34 m) of
             (Some old, Some new) \<Rightarrow>
               if fid_mimi old \<noteq> fid_mimi new then simple RES_OP_ERR_REQUEST st
               else if \<not> get_db_conn sq (fid_mimi new) (fst st) then None
               else (case check_existed sq (se_names env) new (fst st) of
                   (b, d1) \<Rightarrow>
                     if \<not> feedid_equal new old \<and> b then simple RES_OP_FEEDID_DUP (d1, snd st)
                     else (case pkg_data update2_pkg_sz m of
                        None \<Rightarrow> None
                      | Some bs \<Rightarrow>
                          (case escaped sq bs of
                             None \<Rightarrow> None
                           | Some e \<Rightarrow>
                               (case db_update2 sq (se_names env) old new e d1 of
                                  (r, d2) \<Rightarrow>
                                    if r \<noteq> 0 then simple RES_OP_ERROR (d2, snd st)
                                    else if \<not> mm_handle mm (snd st) then simple RES_OP_SUCCESS (d2, snd st)
                                    else (case memc_get mm MAX_PACKAGE_LEN old (snd st) of
                                        None \<Rightarrow> None
                                      | Some (g, _) \<Rightarrow>
                                          simple RES_OP_SUCCESS
                                            (d2, if g = 0 then snd (memc_add mm (se_stars env) new bs (snd (memc_del mm old (snd st))))
                                                 else snd st))))))
           | _ \<Rightarrow> None)"

definition store_set ::
  "('d, 'm) store_env \<Rightarrow> nat \<Rightarrow> byte list \<Rightarrow> 'd \<times> 'm \<Rightarrow> ('d, 'm) store_result" where
  "store_set env units m st =
     (let sq = se_sql env; mm = se_mem env
      in if units \<noteq> 1 then simple RES_OP_ERR_UNITS st
         else case (feedid_at 12 m, feedid_at 34 m) of
             (Some old, Some new) \<Rightarrow>
               if \<not> get_db_conn sq (fid_mimi old) (fst st) then simple RES_OP_ERROR st
               else if fid_mimi old \<noteq> fid_mimi new then simple RES_OP_ERR_REQUEST st
               else (case pkg_data update2_pkg_sz m of
                   None \<Rightarrow> None
                 | Some bs \<Rightarrow>
                     (case escaped sq bs of
                        None \<Rightarrow> None
                      | Some e \<Rightarrow>
                          (case check_existed sq (se_names env) old (fst st) of
                             (b, d1) \<Rightarrow>
                               (case (if b then db_update2 sq (se_names env) old new e d1
                                      else db_insert sq (se_names env) new e d1) of
                                  (r, d2) \<Rightarrow>
                                    if r \<noteq> 0 then simple RES_OP_ERROR (d2, snd st)
                                    else simple RES_OP_SUCCESS
                                      (d2, if \<not> mm_handle mm (snd st) then snd st
                                           else if b \<and> \<not> feedid_equal new old
                                           then snd (memc_add mm (se_stars env) new bs (snd (memc_del mm old (snd st))))
                                           else snd (memc_set mm (se_stars env) new bs (snd st)))))))
           | _ \<Rightarrow> None)"

section \<open>del, del2\<close>

definition put_at :: "nat \<Rightarrow> byte list \<Rightarrow> byte list \<Rightarrow> byte list" where
  "put_at off bs buf = take off buf @ bs @ drop (off + length bs) buf"

definition build_stat_pkg :: "feedid \<Rightarrow> nat \<Rightarrow> byte list" where
  "build_stat_pkg f status = wr_feedid f @ to_le 2 status"

text \<open>The offset of the status of a feed grows by its number times the size of a status, so that the
  third one comes where the fourth belongs, and so on; what was in the buffer shows between them.\<close>

fun del_batch ::
  "('d, 'm) store_env \<Rightarrow> nat \<Rightarrow> nat \<Rightarrow> feedid list \<Rightarrow> byte list \<Rightarrow> bool \<Rightarrow> 'd \<times> 'm \<Rightarrow>
   (byte list \<times> bool \<times> 'd \<times> 'm) option" where
  "del_batch env i off [] buf anyfail st = Some (buf, anyfail, st)"
| "del_batch env i off (f # fs) buf anyfail st =
     (let off' = off + i * stat_pkg_len; m1 = snd (memc_del (se_mem env) f (snd st));
          go = (\<lambda>status fail d'. del_batch env (i + 1) off' fs (put_at off' (build_stat_pkg f status) buf)
                  (anyfail \<or> fail) (d', m1))
      in if \<not> mm_handle (se_mem env) (snd st) then None
         else if \<not> get_db_conn (se_sql env) (fid_mimi f) (fst st) then go RES_OP_ERROR True (fst st)
         else (case db_del (se_sql env) (se_names env) f (fst st) of
             (r, d') \<Rightarrow> if r \<noteq> 0 then go RES_OP_ERROR True d' else go RES_OP_SUCCESS False d'))"

fun feedids_at :: "nat \<Rightarrow> nat \<Rightarrow> byte list \<Rightarrow> feedid list option" where
  "feedids_at off 0 m = Some []"
| "feedids_at off (Suc n) m =
     (case feedid_at off m of
        None \<Rightarrow> None
      | Some f \<Rightarrow> map_option (Cons f) (feedids_at (off + feedid_sz) n m))"

text \<open>\<open>old\<close> is what the send buffer held before.\<close>

definition store_del ::
  "('d, 'm) store_env \<Rightarrow> byte list \<Rightarrow> nat \<Rightarrow> byte list \<Rightarrow> 'd \<times> 'm \<Rightarrow> ('d, 'm) store_result" where
  "store_del env old units m st =
     (let sq = se_sql env; mm = se_mem env
      in case feedids_at req_hsz units m of
          None \<Rightarrow> None
        | Some [f] \<Rightarrow>
            (let m1 = (if mm_handle mm (snd st) then snd (memc_del mm f (snd st)) else snd st)
             in if \<not> get_db_conn sq (fid_mimi f) (fst st) then simple RES_OP_ERROR (fst st, m1)
                else (case db_del sq (se_names env) f (fst st) of
                    (r, d') \<Rightarrow> simple (if r \<noteq> 0 then RES_OP_ERROR else RES_OP_SUCCESS) (d', m1)))
        | Some fs \<Rightarrow>
            (case del_batch env 0 res_hsz fs old False st of
               None \<Rightarrow> None
             | Some (buf, anyfail, st') \<Rightarrow>
                 Some (store_response (if anyfail then RES_OP_ERROR else RES_OP_SUCCESS) units
                         (take (units * stat_pkg_len) (drop res_hsz buf)), st')))"

definition get2_pkg_sz :: nat where "get2_pkg_sz = 18"

definition del2_at :: "nat \<Rightarrow> byte list \<Rightarrow> (nat \<times> nat \<times> nat \<times> nat) option" where
  "del2_at off m =
     (if off + get2_pkg_sz \<le> length m
      then Some (rd_le off 4 m, rd_le (off + 4) 2 m, rd_le (off + 6) 4 m, rd_le (off + 10) 8 m) else None)"

fun memc_del_all :: "'m memc \<Rightarrow> feedid list \<Rightarrow> 'm \<Rightarrow> 'm" where
  "memc_del_all mm [] m = m"
| "memc_del_all mm (f # fs) m = memc_del_all mm fs (snd (memc_del mm f m))"

definition store_del2 ::
  "('d, 'm) store_env \<Rightarrow> nat \<Rightarrow> byte list \<Rightarrow> 'd \<times> 'm \<Rightarrow> ('d, 'm) store_result" where
  "store_del2 env units m st =
     (let sq = se_sql env; mm = se_mem env
      in if units \<noteq> 1 then simple RES_OP_ERR_UNITS st
         else case del2_at req_hsz m of
             None \<Rightarrow> None
           | Some (mimi, cmd, app, magic) \<Rightarrow>
               if \<not> get_db_conn sq mimi (fst st) then simple RES_OP_ERROR st
               else (case get_feedids sq (se_names env) mimi cmd app magic (fst st) of
                   None \<Rightarrow> None
                 | Some ((n, fs), d1) \<Rightarrow>
                     if n = 0 then simple RES_OP_SUCCESS (d1, snd st)
                     else
                       (let m1 = (if n > 0 \<and> mm_handle mm (snd st) then memc_del_all mm fs (snd st) else snd st)
                        in case db_del2 sq (se_names env) mimi cmd app magic d1 of
                            (r, d2) \<Rightarrow> simple (if r \<noteq> 0 then RES_OP_ERROR else RES_OP_SUCCESS) (d2, m1))))"

section \<open>get_pkgs, get2_pkgs, get_key_pkgs\<close>

text \<open>The first package of some bytes: its feed, its data, and its length.\<close>

definition first_pkg :: "nat \<Rightarrow> byte list \<Rightarrow> feedid \<times> byte list \<times> nat" where
  "first_pkg hsz b =
     (let len = rd_le 0 4 b in (rd_feedid (drop (hsz - feedid_sz) b), take (len - hsz) (drop hsz b), len))"

text \<open>The feeds still to be found are asked for one by one. A feed that was found is put into memcached,
  also when there is no handle.\<close>

fun get_db_pkgs ::
  "('d, 'm) store_env \<Rightarrow> nat \<Rightarrow> feedid_list \<Rightarrow> 'd \<times> 'm \<Rightarrow> ((int \<times> byte list) \<times> 'd \<times> 'm) option" where
  "get_db_pkgs env room [] st = Some ((0, []), st)"
| "get_db_pkgs env room ((f, flag) # fs) st =
     (let sq = se_sql env; mm = se_mem env
      in if flag \<noteq> F_NONE \<or> \<not> get_db_conn sq (fid_mimi f) (fst st) then get_db_pkgs env room fs st
         else (case db_get_pkg sq (se_names env) room f (fst st) of
             None \<Rightarrow> None
           | Some ((n, b), d1) \<Rightarrow>
               if n \<le> 0 then get_db_pkgs env room fs (d1, snd st)
               else if \<not> mm_handle mm (snd st) then None
               else
                 (case first_pkg feed_hsz b of
                    (g, v, len) \<Rightarrow>
                      (case get_db_pkgs env (room - length b) fs (d1, snd (memc_set mm (se_stars env) g v (snd st))) of
                         None \<Rightarrow> None
                       | Some ((k, b2), st') \<Rightarrow> Some ((n + k, b @ b2), st')))))"

definition store_get_pkgs ::
  "('d, 'm) store_env \<Rightarrow> nat \<Rightarrow> byte list \<Rightarrow> 'd \<times> 'm \<Rightarrow> ('d, 'm) store_result" where
  "store_get_pkgs env units m st =
     (let sq = se_sql env; mm = se_mem env; room = MAX_PACKAGE_LEN - res_hsz
      in case feedids_at req_hsz units m of
          None \<Rightarrow> None
        | Some ids \<Rightarrow>
            (let fs = map (\<lambda>f. (f, F_NONE)) ids
             in case (if mm_handle mm (snd st) then memc_gets mm room fs (snd st) else (Some (0, []), fs)) of
                 (got, fs1) \<Rightarrow>
                   (let rows = (case got of Some (n, b) \<Rightarrow> n | None \<Rightarrow> -1);
                        mem = (case got of Some (n, b) \<Rightarrow> (n, b) | None \<Rightarrow> (0, []))
                    in case (if rows < int units then get_db_pkgs env (room - length (snd mem)) fs1 st
                             else Some ((0, []), st)) of
                        None \<Rightarrow> None
                      | Some ((k, b), st') \<Rightarrow>
                          Some (store_response RES_OP_SUCCESS (nat (fst mem + k)) (snd mem @ b), st'))))"

text \<open>Packages one behind the other, each put into memcached.\<close>

fun cache_pkgs :: "'m memc \<Rightarrow> nat set \<Rightarrow> nat \<Rightarrow> byte list \<Rightarrow> 'm \<Rightarrow> 'm" where
  "cache_pkgs mm stars 0 b m = m"
| "cache_pkgs mm stars (Suc n) b m =
     (case first_pkg feed_hsz b of
        (g, v, len) \<Rightarrow> cache_pkgs mm stars n (drop len b) (snd (memc_set mm stars g v m)))"

text \<open>Without memcached the place for the next feeds does not move, and they overwrite the last ones; the
  length of the answer grows all the same. \<open>idx\<close> is that place, \<open>len\<close> the length so far.\<close>

fun get2_loop ::
  "('d, 'm) store_env \<Rightarrow> nat \<Rightarrow> nat \<Rightarrow> nat \<Rightarrow> nat \<Rightarrow> byte list \<Rightarrow> nat \<Rightarrow> byte list \<Rightarrow> 'd \<times> 'm \<Rightarrow>
   ((nat \<times> nat \<times> byte list) option \<times> 'd \<times> 'm) option" where
  "get2_loop env 0 off idx len buf tot m st = Some (Some (tot, len, buf), st)"
| "get2_loop env (Suc n) off idx len buf tot m st =
     (let sq = se_sql env; mm = se_mem env
      in case del2_at off m of
          None \<Rightarrow> None
        | Some (mimi, cmd, app, magic) \<Rightarrow>
            if \<not> get_db_conn sq mimi (fst st) then Some (None, st)
            else (case db_gets2_pkg sq (se_names env) (MAX_PACKAGE_LEN - idx) mimi cmd app magic (fst st) of
                None \<Rightarrow> None
              | Some ((k, b), d1) \<Rightarrow>
                  if k < 0 \<or> len + length b > MAX_PACKAGE_LEN then Some (None, d1, snd st)
                  else if mm_handle mm (snd st) then
                    get2_loop env n (off + get2_pkg_sz) (idx + length b) (len + length b) (put_at idx b buf)
                      (tot + nat k) m (d1, cache_pkgs mm (se_stars env) (nat k) b (snd st))
                  else
                    get2_loop env n (off + get2_pkg_sz) idx (len + length b) (put_at idx b buf)
                      (tot + nat k) m (d1, snd st)))"

definition store_get2_pkgs ::
  "('d, 'm) store_env \<Rightarrow> byte list \<Rightarrow> nat \<Rightarrow> byte list \<Rightarrow> 'd \<times> 'm \<Rightarrow> ('d, 'm) store_result" where
  "store_get2_pkgs env old units m st =
     (case get2_loop env units req_hsz res_hsz res_hsz old 0 m st of
        None \<Rightarrow> None
      | Some (None, st') \<Rightarrow> simple RES_OP_ERROR st'
      | Some (Some (tot, len, buf), st') \<Rightarrow>
          Some (store_response RES_OP_SUCCESS tot (take (len - res_hsz) (drop res_hsz buf)), st'))"

fun cache_key_pkgs :: "'m memc \<Rightarrow> nat set \<Rightarrow> nat \<Rightarrow> byte list \<Rightarrow> 'm \<Rightarrow> 'm" where
  "cache_key_pkgs mm stars 0 b m = m"
| "cache_key_pkgs mm stars (Suc n) b m =
     (case first_pkg key_pkg_hsz b of
        (g, v, len) \<Rightarrow>
          cache_key_pkgs mm stars n (drop len b)
            (snd (memc_set_key mm g (take 8 (drop 4 b)) (snd (memc_set mm stars g v m)))))"

definition store_get_key_pkgs ::
  "('d, 'm) store_env \<Rightarrow> byte list \<Rightarrow> nat \<Rightarrow> byte list \<Rightarrow> 'd \<times> 'm \<Rightarrow> ('d, 'm) store_result" where
  "store_get_key_pkgs env old units m st =
     (let sq = se_sql env; mm = se_mem env; room = MAX_PACKAGE_LEN - res_hsz
      in case feedids_at req_hsz units m of
          None \<Rightarrow> None
        | Some ids \<Rightarrow>
            (let fs = map (\<lambda>f. (f, F_NONE)) ids
             in case (if mm_handle mm (snd st) then memc_gets_key_pkg sq mm (drop res_hsz old) fs st
                      else Some ((0, [], fs), st)) of
                 None \<Rightarrow> None
               | Some ((n, b, fs1), st1) \<Rightarrow>
                   if n = int units then Some (store_response RES_OP_SUCCESS (nat n) b, st1)
                   else
                     (case db_gets_key_pkg sq (room - length b) fs1 (fst st1) of
                        None \<Rightarrow> None
                      | Some ((k, b2, fs2), d2) \<Rightarrow>
                          Some (store_response RES_OP_SUCCESS (nat (max n 0 + k)) (b @ b2),
                            d2, if mm_handle mm (snd st1)
                                then cache_key_pkgs mm (se_stars env) (nat k) b2 (snd st1) else snd st1))))"

section \<open>get_nindexs, get_spanindexs\<close>

definition index_pkg_sz :: nat where "index_pkg_sz = 20"

definition index_at :: "nat \<Rightarrow> byte list \<Rightarrow> (nat \<times> nat \<times> nat \<times> nat \<times> nat) option" where
  "index_at off m =
     (if off + index_pkg_sz \<le> length m
      then Some (rd_le off 4 m, rd_le (off + 4) 2 m, rd_le (off + 6) 2 m, rd_le (off + 8) 4 m, rd_le (off + 12) 4 m)
      else None)"

definition verify_time :: "nat \<Rightarrow> nat \<Rightarrow> nat" where
  "verify_time now t = (if t = 0 then now mod 2 ^ 32 else t)"

text \<open>One package after the other, each behind the feeds of the last; the first error is the answer.\<close>

fun index_loop ::
  "('d, 'm) store_env \<Rightarrow> (nat \<Rightarrow> nat \<Rightarrow> 'd \<Rightarrow> (nat option \<times> (int \<times> byte list) \<times> 'd) option) \<Rightarrow> nat \<Rightarrow> nat \<Rightarrow> nat \<Rightarrow>
   byte list \<Rightarrow> 'd \<times> 'm \<Rightarrow> ('d, 'm) store_result" where
  "index_loop env one 0 off tot b st = Some (store_response RES_OP_SUCCESS tot b, st)"
| "index_loop env one (Suc n) off tot b st =
     (case one off (MAX_PACKAGE_LEN - (res_hsz + length b)) (fst st) of
        None \<Rightarrow> None
      | Some (Some e, r, d') \<Rightarrow> simple e (d', snd st)
      | Some (None, (k, b2), d') \<Rightarrow>
          if k < 0 then simple RES_OP_ERROR (d', snd st)
          else index_loop env one n (off + index_pkg_sz) (tot + nat k) (b @ b2) (d', snd st))"

definition nindex_one ::
  "('d, 'm) store_env \<Rightarrow> nat \<Rightarrow> byte list \<Rightarrow> nat \<Rightarrow> nat \<Rightarrow> 'd \<Rightarrow> (nat option \<times> (int \<times> byte list) \<times> 'd) option" where
  "nindex_one env now m off room d =
     (case index_at off m of
        None \<Rightarrow> None
      | Some (mimi, flag, cmd, app, start) \<Rightarrow>
          if \<not> get_db_conn (se_sql env) mimi d then Some (Some RES_OP_ERROR, (0, []), d)
          else map_option (\<lambda>((k, b), d'). (None, (k, b), d'))
                 (db_get_nindexs (se_sql env) (se_names env) room mimi flag cmd app (verify_time now start)
                    (rd_le (off + 18) 2 m) (rd_le (off + 16) 2 m) d))"

definition store_get_nindexs ::
  "('d, 'm) store_env \<Rightarrow> nat \<Rightarrow> nat \<Rightarrow> byte list \<Rightarrow> 'd \<times> 'm \<Rightarrow> ('d, 'm) store_result" where
  "store_get_nindexs env now units m st = index_loop env (nindex_one env now m) units req_hsz 0 [] st"

definition spanindex_one ::
  "('d, 'm) store_env \<Rightarrow> nat \<Rightarrow> byte list \<Rightarrow> nat \<Rightarrow> nat \<Rightarrow> 'd \<Rightarrow> (nat option \<times> (int \<times> byte list) \<times> 'd) option" where
  "spanindex_one env now m off room d =
     (case index_at off m of
        None \<Rightarrow> None
      | Some (mimi, flag, cmd, app, start) \<Rightarrow>
          let stop = verify_time now (rd_le (off + 16) 4 m)
          in if \<not> get_db_conn (se_sql env) mimi d then Some (Some RES_OP_ERROR, (0, []), d)
             else if start > stop then Some (Some RES_OP_ERR_REQUEST, (0, []), d)
             else map_option (\<lambda>((k, b), d'). (None, (k, b), d'))
                    (db_get_spanindexs (se_sql env) (se_names env) room mimi flag cmd app start stop d))"

definition store_get_spanindexs ::
  "('d, 'm) store_env \<Rightarrow> nat \<Rightarrow> nat \<Rightarrow> byte list \<Rightarrow> 'd \<times> 'm \<Rightarrow> ('d, 'm) store_result" where
  "store_get_spanindexs env now units m st = index_loop env (spanindex_one env now m) units req_hsz 0 [] st"

end
