(* ===== verification/CacheTable.thy ===== *)
theory CacheTable
  imports Main
begin

text \<open>
  A table cached in memcached: what is stored under the key of a row is the value of that row, flagged
  with its owner. The feeds and the passive feeds of the storage service are two such tables in one cache.
\<close>

type_synonym 'v cache_map = "string \<Rightarrow> ('v \<times> nat) option"

definition caches ::
  "('k \<Rightarrow> string) \<Rightarrow> ('k \<Rightarrow> bool) \<Rightarrow> ('k \<Rightarrow> nat) \<Rightarrow> ('k \<times> 'v) set \<Rightarrow> 'v cache_map \<Rightarrow> bool" where
  "caches key ok owner V M \<longleftrightarrow>
     (\<forall>f v fl. ok f \<longrightarrow> M (key f) = Some (v, fl) \<longrightarrow> fl = owner f \<and> (f, v) \<in> V)"

text \<open>The cache holds less than \<open>F\<close> under the keys of the table.\<close>

definition below :: "('k \<Rightarrow> string) \<Rightarrow> ('k \<Rightarrow> bool) \<Rightarrow> 'v cache_map \<Rightarrow> 'v cache_map \<Rightarrow> bool" where
  "below key ok M F \<longleftrightarrow> (\<forall>f. ok f \<longrightarrow> M (key f) = None \<or> M (key f) = F (key f))"

lemma below_refl: "below key ok M M"
  by (simp add: below_def)

lemma below_trans: "below key ok M F \<Longrightarrow> below key ok F G \<Longrightarrow> below key ok M G"
  unfolding below_def by metis

lemma below_map_le: "map_le M F \<Longrightarrow> below key ok M F"
  unfolding below_def map_le_def by (metis domIff)

lemma below_other: "map_le M (F(k := x)) \<Longrightarrow> (\<And>f. ok f \<Longrightarrow> key f \<noteq> k) \<Longrightarrow> below key ok M F"
  using below_map_le [of M "F(k := x)" key ok] by (auto simp: below_def)

lemma caches_hit:
  "caches key ok owner V M \<Longrightarrow> ok f \<Longrightarrow> M (key f) = Some (v, fl) \<Longrightarrow> fl = owner f \<and> (f, v) \<in> V"
  by (simp add: caches_def)

lemma caches_below: "caches key ok owner V F \<Longrightarrow> below key ok M F \<Longrightarrow> caches key ok owner V M"
  unfolding caches_def below_def by (metis option.distinct(1))

lemma caches_mono: "caches key ok owner V M \<Longrightarrow> V \<subseteq> W \<Longrightarrow> caches key ok owner W M"
  unfolding caches_def by blast

locale cached_table =
  fixes key :: "'k \<Rightarrow> string" and ok :: "'k \<Rightarrow> bool" and owner :: "'k \<Rightarrow> nat"
  assumes key_inj: "ok f \<Longrightarrow> ok g \<Longrightarrow> key f = key g \<Longrightarrow> f = g"
begin

text \<open>The rows of \<open>f\<close> change, and the cache forgets it or takes its new value.\<close>

lemma change:
  assumes "caches key ok owner V M" "map_le M' F" "ok f"
    "\<And>g v. g \<noteq> f \<Longrightarrow> (g, v) \<in> V \<Longrightarrow> (g, v) \<in> V'"
    "\<And>k. k \<noteq> key f \<Longrightarrow> F k = M k"
    "\<And>v fl. F (key f) = Some (v, fl) \<Longrightarrow> fl = owner f \<and> (f, v) \<in> V'"
  shows "caches key ok owner V' M'"
proof (rule caches_below [OF _ below_map_le [OF assms(2)]])
  have "fl = owner g \<and> (g, v) \<in> V'" if g: "ok g" "F (key g) = Some (v, fl)" for g v fl
  proof (cases "g = f")
    case True
    with assms(6) g(2) show ?thesis by simp
  next
    case False
    then have "key g \<noteq> key f" using key_inj g(1) assms(3) by blast
    with assms(5) g(2) have "M (key g) = Some (v, fl)" by simp
    with caches_hit [OF assms(1) g(1)] assms(4) False show ?thesis by simp
  qed
  then show "caches key ok owner V' F" by (simp add: caches_def)
qed

lemma store:
  assumes "caches key ok owner V M" "ok f" "(f, v) \<in> V" "map_le M' (M(key f \<mapsto> (v, owner f)))"
  shows "caches key ok owner V M'"
  by (rule change [OF assms(1,4,2)]) (use assms(3) in auto)

lemma forget_one:
  assumes "caches key ok owner V M" "map_le M' (M(key f := None))" "ok f"
    "\<And>g v. g \<noteq> f \<Longrightarrow> (g, v) \<in> V \<Longrightarrow> (g, v) \<in> V'"
  shows "caches key ok owner V' M'"
  by (rule change [OF assms]) auto

lemma replace:
  assumes "caches key ok owner V M"
    "map_le M' (if M (key f) = None then M else M(key f \<mapsto> (w, owner f)))" "ok f"
    "\<And>g v. g \<noteq> f \<Longrightarrow> (g, v) \<in> V \<Longrightarrow> (g, v) \<in> V'" "\<And>v. (f, v) \<in> V \<Longrightarrow> (f, w) \<in> V'"
  shows "caches key ok owner V' M'"
proof (rule change [OF assms(1-4)])
  fix v fl
  assume k: "(if M (key f) = None then M else M(key f \<mapsto> (w, owner f))) (key f) = Some (v, fl)"
  then obtain v0 fl0 where c: "M (key f) = Some (v0, fl0)" by (cases "M (key f)") auto
  then have "(f, v0) \<in> V" using caches_hit [OF assms(1,3)] by simp
  with k c assms(5) show "fl = owner f \<and> (f, v) \<in> V'" by auto
qed auto

end

end
