(* ===== verification/StoreSpec.thy ===== *)
theory StoreSpec
  imports FeedsStore CacheTable
begin

text \<open>
  What the storage service promises: its operations are operations on a list of rows (\<open>spec_\<close>
  definitions), and what memcached holds is never anything but data of rows of the tables
  (\<open>store_inv\<close>). memcached is a map that may forget what it holds at any time (\<open>memc_ok\<close>).
\<close>

section \<open>Sizes of the statements\<close>

lemma dec_short: "n < 2 ^ 32 \<Longrightarrow> length (dec n) \<le> 10" "n < 2 ^ 16 \<Longrightarrow> length (dec n) \<le> 5"
  "n < 2 ^ 64 \<Longrightarrow> length (dec n) \<le> 20"
  by (rule length_dec; simp)+

lemma table_name_short: "names_ok names \<Longrightarrow> length (get_table_name names mimi) < 120"
proof -
  assume a: "names_ok names"
  have "length (dec (get_tid mimi)) \<le> 2" by (rule length_dec) (simp_all add: get_tid_def)
  moreover have "length (names (get_dbid mimi)) < 100" using a by (simp add: names_ok_def)
  ultimately show ?thesis by (simp add: get_table_name_def)
qed

lemma id_short:
  assumes "feedid_ok f"
  shows "length (dec (fid_mimi f)) \<le> 10" "length (dec (fid_cmd_id f)) \<le> 5" "length (dec (fid_app_id f)) \<le> 10"
    "length (dec (fid_timestamp f)) \<le> 10" "length (dec (fid_magic f)) \<le> 20"
  using assms dec_short by (auto simp: feedid_ok_def)

lemma query_fits:
  assumes "names_ok names" "feedid_ok f"
  shows "fits_sql (exists_sql names f)" "fits_sql (select_sql names f)"
  using table_name_short [OF assms(1), of "fid_mimi f"] id_short [OF assms(2)]
  by (simp_all add: fits_sql_def sql_buf_max_def SQL_MAX_SZ_def exists_sql_def select_sql_def sprintf_def
      exists_fmt_def select_fmt_def id_args_def)

lemma change_fits:
  assumes "names_ok names" "feedid_ok f" "feedid_ok g" "length data < 200000"
  shows "fits_sql (insert_sql names f data)" "fits_sql (update_sql names f g data)" "fits_sql (delete_sql names f)"
  using table_name_short [OF assms(1), of "fid_mimi f"] table_name_short [OF assms(1), of "fid_mimi g"]
    id_short [OF assms(2)] id_short [OF assms(3)] assms(4)
  by (simp_all add: fits_sql_def sql_buf_max_def SQL_MAX_SZ_def insert_sql_def update_sql_def delete_sql_def sprintf_def
      insert_fmt_def update_fmt_def delete_fmt_def id_args_def)

lemma key_fits:
  assumes "names_ok names" "mimi < 2 ^ 32" "cmd < 2 ^ 16" "app < 2 ^ 32" "magic < 2 ^ 64"
  shows "fits_sql (feedids_sql names mimi cmd app magic)" "fits_sql (delete2_sql names mimi cmd app magic)"
  using table_name_short [OF assms(1), of mimi] dec_short(1) [OF assms(2)] dec_short(2) [OF assms(3)]
    dec_short(1) [OF assms(4)] dec_short(3) [OF assms(5)]
  by (simp_all add: fits_sql_def sql_buf_max_def SQL_MAX_SZ_def feedids_sql_def delete2_sql_def sprintf_def
      feedids_fmt_def delete2_fmt_def)

section \<open>Keys of memcached\<close>

lemma hex_short: "n < 2 ^ 32 \<Longrightarrow> length (hex n) \<le> 8" "n < 2 ^ 16 \<Longrightarrow> length (hex n) \<le> 4"
  "n < 2 ^ 64 \<Longrightarrow> length (hex n) \<le> 16"
  by (rule length_hex; simp)+

lemma feedkey_text:
  assumes "feedid_ok f"
  shows "generate_feedkey f = sprintf ''%x_%x_%x_%x_%lx'' (id_args f)"
    "generate_keykey f = sprintf ''key_%x_%x_%x_%x_%lx'' (id_args f)"
proof -
  have "length (hex (fid_mimi f)) \<le> 8" "length (hex (fid_cmd_id f)) \<le> 4" "length (hex (fid_app_id f)) \<le> 8"
    "length (hex (fid_timestamp f)) \<le> 8" "length (hex (fid_magic f)) \<le> 16"
    using assms hex_short by (auto simp: feedid_ok_def)
  then show "generate_feedkey f = sprintf ''%x_%x_%x_%x_%lx'' (id_args f)"
    "generate_keykey f = sprintf ''key_%x_%x_%x_%x_%lx'' (id_args f)"
    by (simp_all add: generate_feedkey_def generate_keykey_def MEM_FEEDKEY_MAX_def sprintf_def id_args_def)
qed

lemma feedkey_scan:
  assumes "feedid_ok f"
  shows "c_scan ''%x_%x_%x_%x_%lx'' (generate_feedkey f) = Some (id_args f)"
  unfolding feedkey_text [OF assms]
  by (rule sprintf_scan) (simp_all add: id_args_def arg_clean_def is_xdigit_def is_digit_def)

lemma id_args_inj: "id_args f = id_args g \<Longrightarrow> f = g"
  by (cases f; cases g) (simp add: id_args_def)

lemma feedkey_inj: "feedid_ok f \<Longrightarrow> feedid_ok g \<Longrightarrow> generate_feedkey f = generate_feedkey g \<Longrightarrow> f = g"
  using feedkey_scan [of f] feedkey_scan [of g] id_args_inj by simp

lemma keykey_differs:
  assumes "feedid_ok f" "feedid_ok g"
  shows "generate_keykey g \<noteq> generate_feedkey f"
proof -
  obtain c r where c: "hex (fid_mimi f) = c # r" using hex_nonempty [of "fid_mimi f"] by (cases "hex (fid_mimi f)") auto
  then have "is_xdigit c" using hex_digits_ok [of c "fid_mimi f"] by simp
  then have "c \<noteq> CHR ''k''" by (auto simp: is_xdigit_def is_digit_def)
  with c show ?thesis by (simp add: feedkey_text assms sprintf_def id_args_def)
qed

section \<open>What is relied on of memcached\<close>

type_synonym memc_map = "byte list cache_map"

text \<open>\<open>C\<close> is what memcached holds. No request for it fails, but it may forget.\<close>

definition memc_ok :: "'m memc \<Rightarrow> ('m \<Rightarrow> memc_map) \<Rightarrow> bool" where
  "memc_ok mm C \<longleftrightarrow>
     (\<forall>m. mm_handle mm m) \<and>
     (\<forall>m k. mm_get mm m k = C m k) \<and>
     (\<forall>m ks rs. mm_mget mm m ks = Some rs \<longrightarrow>
        (\<forall>x \<in> set rs. fst x \<in> set ks \<and> (\<exists>fl. C m (fst x) = Some (snd x, fl))) \<and>
        (distinct ks \<longrightarrow> distinct (map fst rs))) \<and>
     (\<forall>k v e fl m. map_le (C (snd (mm_set mm k v e fl m))) ((C m)(k \<mapsto> (v, fl)))) \<and>
     (\<forall>k v e fl m. map_le (C (snd (mm_add mm k v e fl m))) (if C m k = None then (C m)(k \<mapsto> (v, fl)) else C m)) \<and>
     (\<forall>k v e fl m. map_le (C (snd (mm_replace mm k v e fl m))) (if C m k = None then C m else (C m)(k \<mapsto> (v, fl)))) \<and>
     (\<forall>k m. map_le (C (snd (mm_delete mm k m))) ((C m)(k := None)))"

lemma memc_okD:
  assumes "memc_ok mm C"
  shows "mm_handle mm m" "mm_get mm m k = C m k"
    "map_le (C (snd (mm_set mm k v e fl m))) ((C m)(k \<mapsto> (v, fl)))"
    "map_le (C (snd (mm_add mm k v e fl m))) (if C m k = None then (C m)(k \<mapsto> (v, fl)) else C m)"
    "map_le (C (snd (mm_replace mm k v e fl m))) (if C m k = None then C m else (C m)(k \<mapsto> (v, fl)))"
    "map_le (C (snd (mm_delete mm k m))) ((C m)(k := None))"
  using assms by (simp_all add: memc_ok_def)

lemma memc_ok_mget:
  assumes "memc_ok mm C" "mm_mget mm m ks = Some rs"
  shows "\<forall>x \<in> set rs. fst x \<in> set ks \<and> (\<exists>fl. C m (fst x) = Some (snd x, fl))"
    and "distinct ks \<Longrightarrow> distinct (map fst rs)"
proof -
  have "(\<forall>x \<in> set rs. fst x \<in> set ks \<and> (\<exists>fl. C m (fst x) = Some (snd x, fl))) \<and>
      (distinct ks \<longrightarrow> distinct (map fst rs))"
    using assms by (simp add: memc_ok_def)
  then show "\<forall>x \<in> set rs. fst x \<in> set ks \<and> (\<exists>fl. C m (fst x) = Some (snd x, fl))"
    "distinct ks \<Longrightarrow> distinct (map fst rs)" by blast+
qed

text \<open>A map that forgets nothing.\<close>

definition map_memc :: "memc_map memc" where
  "map_memc =
     \<lparr>mm_handle = (\<lambda>m. True), mm_get = (\<lambda>m k. m k),
      mm_mget = (\<lambda>m ks. Some (map (\<lambda>k. (k, fst (the (m k)))) (filter (\<lambda>k. m k \<noteq> None) ks))),
      mm_set = (\<lambda>k v e fl m. (True, m(k \<mapsto> (v, fl)))),
      mm_add = (\<lambda>k v e fl m. if m k = None then (True, m(k \<mapsto> (v, fl))) else (False, m)),
      mm_replace = (\<lambda>k v e fl m. if m k = None then (False, m) else (True, m(k \<mapsto> (v, fl)))),
      mm_delete = (\<lambda>k m. (m k \<noteq> None, m(k := None)))\<rparr>"

lemma map_memc_ok: "memc_ok map_memc (\<lambda>m. m)"
  unfolding memc_ok_def map_memc_def
  by (auto simp: distinct_map comp_def inj_on_def)

section \<open>The invariant\<close>

interpretation feeds: cached_table generate_feedkey feedid_ok fid_mimi
  by unfold_locales (rule feedkey_inj)

definition store_inv :: "('d \<Rightarrow> feed_row list) \<Rightarrow> ('m \<Rightarrow> memc_map) \<Rightarrow> 'd \<times> 'm \<Rightarrow> bool" where
  "store_inv R C st \<longleftrightarrow>
     rows_ok (R (fst st)) \<and> caches generate_feedkey feedid_ok fid_mimi (set (R (fst st))) (C (snd st))"

lemma store_inv_hit:
  "store_inv R C st \<Longrightarrow> feedid_ok f \<Longrightarrow> C (snd st) (generate_feedkey f) = Some (v, fl) \<Longrightarrow>
   fl = fid_mimi f \<and> (f, v) \<in> set (R (fst st))"
  by (auto simp: store_inv_def dest: caches_hit)

lemma store_inv_db: "store_inv R C (d, m) \<Longrightarrow> R d' = R d \<Longrightarrow> store_inv R C (d', m)"
  by (simp add: store_inv_def)

lemma rows_ok_renew: "rows_ok rs \<Longrightarrow> feedid_ok new \<Longrightarrow> text_ok bs \<Longrightarrow> rows_ok (map (renew old new bs) rs)"
  by (auto simp: rows_ok_def renew_def)

lemma renew_other: "(g, v) \<in> set rs \<Longrightarrow> g \<noteq> old \<Longrightarrow> (g, v) \<in> set (map (renew old new bs) rs)"
  by (force simp: renew_def has_id_def)

lemma renew_this: "(old, v) \<in> set rs \<Longrightarrow> (new, bs) \<in> set (map (renew old new bs) rs)"
  by (force simp: renew_def has_id_def)

section \<open>Each operation keeps the invariant\<close>

definition store_world :: "('d, 'm) store_env \<Rightarrow> ('d \<Rightarrow> feed_row list) \<Rightarrow> ('m \<Rightarrow> memc_map) \<Rightarrow> bool" where
  "store_world env R C \<longleftrightarrow>
     mysql_ok (se_sql env) (se_names env) R \<and> names_ok (se_names env) \<and> selects_up (se_sql env) \<and>
     memc_ok (se_mem env) C"

lemma store_worldD:
  assumes "store_world env R C"
  shows "mysql_ok (se_sql env) (se_names env) R" "names_ok (se_names env)" "selects_up (se_sql env)"
    "memc_ok (se_mem env) C" "mm_handle (se_mem env) m"
  using assms memc_okD(1) by (auto simp: store_world_def)

text \<open>What an operation on one key leaves of the cache.\<close>

lemma memc_ops_le:
  assumes "memc_ok mm C"
  shows "map_le (C (snd (memc_set mm stars f v m))) ((C m)(generate_feedkey f \<mapsto> (v, fid_mimi f)))"
    "map_le (C (snd (memc_add mm stars f v m)))
      (if C m (generate_feedkey f) = None then (C m)(generate_feedkey f \<mapsto> (v, fid_mimi f)) else C m)"
    "map_le (C (snd (memc_replace mm f v m)))
      (if C m (generate_feedkey f) = None then C m else (C m)(generate_feedkey f \<mapsto> (v, fid_mimi f)))"
    "map_le (C (snd (memc_del mm f m))) ((C m)(generate_feedkey f := None))"
    "map_le (C (snd (memc_set_key mm f v m))) ((C m)(generate_keykey f \<mapsto> (v, fid_mimi f)))"
  using memc_okD(3-6) [OF assms]
  by (simp_all add: memc_set_def memc_add_def memc_replace_def memc_del_def memc_set_key_def case_prod_beta)

lemma memc_set_inv:
  assumes "memc_ok mm C" "store_inv R C (d, m)" "(f, v) \<in> set (R d)" "feedid_ok f"
  shows "store_inv R C (d, snd (memc_set mm stars f v m))"
  using assms(2) feeds.store [OF _ assms(4,3) memc_ops_le(1) [OF assms(1)]] by (simp add: store_inv_def)

text \<open>The rows of a feed change, and the cache forgets it or takes the new data.\<close>

lemma cached_rows_change:
  assumes "store_inv R C (d, m)" "rows_ok (R d')" "map_le (C m') F" "feedid_ok f"
    "\<And>g v. g \<noteq> f \<Longrightarrow> (g, v) \<in> set (R d) \<Longrightarrow> (g, v) \<in> set (R d')"
    "\<And>k. k \<noteq> generate_feedkey f \<Longrightarrow> F k = C m k"
    "\<And>v fl. F (generate_feedkey f) = Some (v, fl) \<Longrightarrow> fl = fid_mimi f \<and> (f, v) \<in> set (R d')"
  shows "store_inv R C (d', m')"
  using assms(1,2) feeds.change [OF _ assms(3-7), of "set (R d)"] by (simp add: store_inv_def)

lemma feedid_at_ok: "feedid_at off m = Some f \<Longrightarrow> feedid_ok f"
  by (auto simp: feedid_at_def rd_feedid_ok split: if_splits)

text \<open>The data of a request that the tables can keep.\<close>

definition data_ok :: "nat \<Rightarrow> byte list \<Rightarrow> bool" where
  "data_ok h m \<longleftrightarrow> (case pkg_data h m of Some bs \<Rightarrow> text_ok bs | None \<Rightarrow> True)"

lemma escaped_eq: "escaped sq bs = Some e \<Longrightarrow> e = sq_escape sq bs"
  by (simp add: escaped_def split: if_splits)

lemma rows_ok_snoc: "rows_ok rs \<Longrightarrow> feedid_ok f \<Longrightarrow> text_ok bs \<Longrightarrow> rows_ok (rs @ [(f, bs)])"
  by (simp add: rows_ok_def)

text \<open>What each operation does to the rows, and answers.\<close>

definition spec_insert :: "feedid \<Rightarrow> byte list \<Rightarrow> feed_row list \<Rightarrow> nat \<times> feed_row list" where
  "spec_insert f bs rs =
     (if \<exists>x \<in> set rs. has_id f x then (RES_OP_FEEDID_DUP, rs) else (RES_OP_SUCCESS, rs @ [(f, bs)]))"

definition spec_update :: "feedid \<Rightarrow> byte list \<Rightarrow> feed_row list \<Rightarrow> nat \<times> feed_row list" where
  "spec_update f bs rs =
     (if \<exists>x \<in> set rs. has_id f x then (RES_OP_SUCCESS, map (renew f f bs) rs) else (RES_OP_ERR_FEEDID, rs))"

definition spec_update2 :: "feedid \<Rightarrow> feedid \<Rightarrow> byte list \<Rightarrow> feed_row list \<Rightarrow> nat \<times> feed_row list" where
  "spec_update2 old new bs rs =
     (if fid_mimi old \<noteq> fid_mimi new then (RES_OP_ERR_REQUEST, rs)
      else if new \<noteq> old \<and> (\<exists>x \<in> set rs. has_id new x) then (RES_OP_FEEDID_DUP, rs)
      else (RES_OP_SUCCESS, map (renew old new bs) rs))"

definition spec_set :: "feedid \<Rightarrow> feedid \<Rightarrow> byte list \<Rightarrow> feed_row list \<Rightarrow> nat \<times> feed_row list" where
  "spec_set old new bs rs =
     (if fid_mimi old \<noteq> fid_mimi new then (RES_OP_ERR_REQUEST, rs)
      else (RES_OP_SUCCESS,
        if \<exists>x \<in> set rs. has_id old x then map (renew old new bs) rs else rs @ [(new, bs)]))"

definition spec_del :: "feedid \<Rightarrow> feed_row list \<Rightarrow> nat \<times> feed_row list" where
  "spec_del f rs = (RES_OP_SUCCESS, filter (\<lambda>x. \<not> has_id f x) rs)"

definition spec_del2 :: "nat \<times> nat \<times> nat \<times> nat \<Rightarrow> feed_row list \<Rightarrow> nat \<times> feed_row list" where
  "spec_del2 k rs =
     (case k of (mimi, cmd, app, magic) \<Rightarrow> (RES_OP_SUCCESS, filter (\<lambda>x. \<not> has_key mimi cmd app magic x) rs))"

text \<open>An operation answers as \<open>spec\<close> says and changes the rows accordingly, or the database fails and the
  answer is an error that changes none; the invariant stays either way.\<close>

definition serves ::
  "('d, 'm) store_env \<Rightarrow> ('d \<times> 'm \<Rightarrow> bool) \<Rightarrow> ('d \<Rightarrow> 'r) \<Rightarrow> 'd \<Rightarrow> ('r \<Rightarrow> nat \<times> 'r) \<Rightarrow> byte list \<times> 'd \<times> 'm \<Rightarrow> bool" where
  "serves env I R d spec r \<longleftrightarrow>
     I (snd r) \<and>
     (\<exists>ret. fst r = build_simple_msg ret \<and>
        ((ret, R (fst (snd r))) = spec (R d) \<or>
         ret = RES_OP_ERROR \<and> R (fst (snd r)) = R d \<and> \<not> mysql_up (se_sql env)))"

lemma servesI:
  "I (d', m') \<Longrightarrow>
   (ret, R d') = spec (R d) \<or> ret = RES_OP_ERROR \<and> R d' = R d \<and> \<not> mysql_up (se_sql env) \<Longrightarrow>
   serves env I R d spec (build_simple_msg ret, d', m')"
  by (auto simp: serves_def)

lemma servesI':
  "I (d', m') \<Longrightarrow> spec (R d) = (ret, R d') \<Longrightarrow> serves env I R d spec (build_simple_msg ret, d', m')"
  by (auto simp: serves_def)

lemma text_ok_fits:
  assumes "mysql_ok sq names R" "names_ok names" "feedid_ok f" "feedid_ok g" "text_ok bs"
  shows "fits_sql (insert_sql names f (sq_escape sq bs))" "fits_sql (update_sql names f g (sq_escape sq bs))"
proof -
  have "length (sq_escape sq bs) \<le> 2 * length bs + 1" using assms(1) by (simp add: mysql_ok_def)
  with assms(5) have "length (sq_escape sq bs) < 200000" by (simp add: text_ok_def)
  from change_fits [OF assms(2-4) this]
  show "fits_sql (insert_sql names f (sq_escape sq bs))" "fits_sql (update_sql names f g (sq_escape sq bs))" by auto
qed

lemma no_conn: "\<not> get_db_conn sq mimi d \<Longrightarrow> \<not> mysql_up sq"
  by (auto simp: mysql_up_def get_db_conn_def)

lemmas change_rows = db_insert_rows db_update_rows db_del_rows db_del2_rows

lemma check_rows:
  assumes "store_world env R C" "feedid_ok f" "check_existed (se_sql env) (se_names env) f d = (b, d1)"
  shows "R d1 = R d" "b \<longleftrightarrow> (\<exists>x \<in> set (R d). has_id f x)"
proof -
  note W = store_worldD [OF assms(1)]
  from check_existed_rows [OF W(1) assms(2,3) query_fits(1) [OF W(2) assms(2)]] W(3)
  show "R d1 = R d" "b \<longleftrightarrow> (\<exists>x \<in> set (R d). has_id f x)" by blast+
qed

lemma store_insert_serves:
  assumes w: "store_world env R C" and i: "store_inv R C (d, m)" and t: "data_ok insert_pkg_sz msg"
    and op: "store_insert env 1 msg (d, m) = Some r" and f: "feedid_at 12 msg = Some f"
  shows "serves env (store_inv R C) R d (spec_insert f (the (pkg_data insert_pkg_sz msg))) r"
proof -
  note W = store_worldD [OF w]
  let ?sq = "se_sql env" and ?n = "se_names env"
  have fo: "feedid_ok f" using f by (rule feedid_at_ok)
  obtain b d1 where b: "check_existed ?sq ?n f d = (b, d1)" by fastforce
  note r1 = check_rows [OF w fo b]
  consider "\<not> get_db_conn ?sq (fid_mimi f) d" "r = (build_simple_msg RES_OP_ERROR, d, m)"
    | "b" "r = (build_simple_msg RES_OP_FEEDID_DUP, d1, m)"
    | bs q d2 where "\<not> b" "pkg_data insert_pkg_sz msg = Some bs" "db_insert ?sq ?n f (sq_escape ?sq bs) d1 = (q, d2)"
        "r = (build_simple_msg (if q \<noteq> 0 then RES_OP_ERROR else RES_OP_SUCCESS), d2, m)"
    using op f b by (auto simp: store_insert_def Let_def bind_eq_Some_conv dest!: escaped_eq split: option.splits if_splits prod.splits bool.splits)
  then show ?thesis
  proof cases
    case 1
    with no_conn [OF 1(1)] i show ?thesis by (auto intro!: servesI)
  next
    case 2
    with r1(2) have "spec_insert f bs (R d) = (RES_OP_FEEDID_DUP, R d1)" for bs
      using r1(1) by (simp add: spec_insert_def)
    with 2 store_inv_db [OF i r1(1)] show ?thesis by (auto intro!: servesI')
  next
    case (3 bs q d2)
    have bt: "text_ok bs" using t 3(2) by (simp add: data_ok_def)
    from db_insert_rows [OF W(1) fo bt 3(3)] text_ok_fits(1) [OF W(1,2) fo fo bt] r1
    have c: "q = 0 \<and> R d2 = R d @ [(f, bs)] \<or> q = -1 \<and> R d2 = R d \<and> \<not> mysql_up ?sq" by auto
    then have "store_inv R C (d2, m)" using i rows_ok_snoc [OF _ fo bt, of "R d"]
      by (auto simp: store_inv_def intro: caches_mono [OF _ subset_insertI])
    moreover have "spec_insert f bs (R d) = (RES_OP_SUCCESS, R d @ [(f, bs)])"
      using r1(2) 3(1) by (simp add: spec_insert_def)
    ultimately show ?thesis using c 3 by (auto intro!: servesI)
  qed
qed

lemma store_update_serves:
  assumes w: "store_world env R C" and i: "store_inv R C (d, m)" and t: "data_ok insert_pkg_sz msg"
    and op: "store_update env 1 msg (d, m) = Some r" and f: "feedid_at 12 msg = Some f"
  shows "serves env (store_inv R C) R d (spec_update f (the (pkg_data insert_pkg_sz msg))) r"
proof -
  note W = store_worldD [OF w]
  let ?sq = "se_sql env" and ?n = "se_names env"
  have fo: "feedid_ok f" using f by (rule feedid_at_ok)
  obtain b d1 where b: "check_existed ?sq ?n f d = (b, d1)" by fastforce
  note r1 = check_rows [OF w fo b]
  consider "\<not> b" "r = (build_simple_msg RES_OP_ERR_FEEDID, d1, m)"
    | bs q d2 where "b" "pkg_data insert_pkg_sz msg = Some bs" "db_update2 ?sq ?n f f (sq_escape ?sq bs) d1 = (q, d2)"
        "r = (if q \<noteq> 0 then (build_simple_msg RES_OP_ERROR, d2, m)
              else (build_simple_msg RES_OP_SUCCESS, d2, snd (memc_replace (se_mem env) f bs m)))"
    using op f b W(5)
    by (auto simp: store_update_def Let_def dest!: escaped_eq split: option.splits if_splits prod.splits bool.splits)
  then show ?thesis
  proof cases
    case 1
    with r1(2) have "spec_update f bs (R d) = (RES_OP_ERR_FEEDID, R d1)" for bs
      using r1(1) by (simp add: spec_update_def)
    with 1 store_inv_db [OF i r1(1)] show ?thesis by (auto intro!: servesI')
  next
    case (2 bs q d2)
    have bt: "text_ok bs" using t 2(2) by (simp add: data_ok_def)
    from db_update_rows [OF W(1) fo fo refl bt 2(3)] text_ok_fits(2) [OF W(1,2) fo fo bt] r1
    have c: "q = 0 \<and> R d2 = map (renew f f bs) (R d) \<or> q = -1 \<and> R d2 = R d \<and> \<not> mysql_up ?sq" by auto
    show ?thesis
    proof (cases "q = 0")
      case False
      with c 2 store_inv_db [OF i, of d2] show ?thesis by (auto intro!: servesI)
    next
      case True
      with c have r2: "R d2 = map (renew f f bs) (R d)" by simp
      let ?k = "generate_feedkey f"
      have "store_inv R C (d2, snd (memc_replace (se_mem env) f bs m))"
      proof (rule cached_rows_change [OF i _ memc_ops_le(3) [OF W(4)] fo])
        show "rows_ok (R d2)" using i r2 rows_ok_renew [OF _ fo bt] by (simp add: store_inv_def)
        show "(g, v) \<in> set (R d2)" if "g \<noteq> f" "(g, v) \<in> set (R d)" for g v
          unfolding r2 using renew_other that by blast
        show "fl = fid_mimi f \<and> (f, v) \<in> set (R d2)"
          if k: "(if C m ?k = None then C m else (C m)(?k \<mapsto> (bs, fid_mimi f))) ?k = Some (v, fl)" for v fl
        proof -
          obtain v0 fl0 where c0: "C m ?k = Some (v0, fl0)" using k by (cases "C m ?k") auto
          then have "(f, v0) \<in> set (R d)" using store_inv_hit [OF i fo] by simp
          with k c0 show ?thesis unfolding r2 using renew_this by (auto split: if_splits)
        qed
      qed auto
      moreover have "spec_update f bs (R d) = (RES_OP_SUCCESS, R d2)"
        using r1(2) 2(1) r2 by (simp add: spec_update_def)
      ultimately show ?thesis using True 2 by (auto intro!: servesI')
    qed
  qed
qed

text \<open>The cache after a feed got another id: the old key is deleted, the new one added unless it is there.\<close>

lemma renamed_inv:
  assumes w: "store_world env R C" and i: "store_inv R C (d, m)" and "feedid_ok old" "feedid_ok new" "text_ok bs"
    and r: "R d2 = map (renew old new bs) (R d)" "\<exists>x \<in> set (R d). has_id old x"
  shows "store_inv R C (d2, snd (memc_add (se_mem env) stars new bs (snd (memc_del (se_mem env) old m))))"
proof -
  note W = store_worldD [OF w]
  let ?mm = "se_mem env" and ?ko = "generate_feedkey old" and ?kn = "generate_feedkey new"
  let ?m1 = "snd (memc_del ?mm old m)" and ?m2 = "snd (memc_add ?mm stars new bs (snd (memc_del ?mm old m)))"
  have new: "(new, bs) \<in> set (R d2)" using r renew_this [of old] by (auto simp: has_id_def)
  have ro: "rows_ok (R d2)" using i r(1) rows_ok_renew [OF _ assms(4,5)] by (simp add: store_inv_def)
  have i1: "store_inv R C (d2, ?m1)"
  proof (rule cached_rows_change [OF i ro memc_ops_le(4) [OF W(4)] assms(3)])
    show "(g, v) \<in> set (R d2)" if "g \<noteq> old" "(g, v) \<in> set (R d)" for g v
      unfolding r(1) using renew_other that by blast
  qed simp_all
  show ?thesis
  proof (rule cached_rows_change [OF i1 ro memc_ops_le(2) [OF W(4)] assms(4)])
    show "fl = fid_mimi new \<and> (new, v) \<in> set (R d2)"
      if k: "(if C ?m1 ?kn = None then (C ?m1)(?kn \<mapsto> (bs, fid_mimi new)) else C ?m1) ?kn = Some (v, fl)" for v fl
      using k new store_inv_hit [OF i1 assms(4), of v fl] by (auto split: if_splits)
  qed auto
qed

lemma uncached_rows:
  assumes "store_inv R C (d, m)" "feedid_ok old" "C m (generate_feedkey old) = None" "rows_ok (R d2)"
    "R d2 = map (renew old new bs) (R d)"
  shows "store_inv R C (d2, m)"
proof (rule cached_rows_change [OF assms(1,4) map_le_refl assms(2)])
  show "(g, v) \<in> set (R d2)" if "g \<noteq> old" "(g, v) \<in> set (R d)" for g v
    unfolding assms(5) using renew_other that by blast
qed (simp_all add: assms(3))

lemma store_update2_serves:
  assumes w: "store_world env R C" and i: "store_inv R C (d, m)" and t: "data_ok update2_pkg_sz msg"
    and op: "store_update2 env 1 msg (d, m) = Some r" and f: "feedid_at 12 msg = Some old" "feedid_at 34 msg = Some new"
  shows "serves env (store_inv R C) R d (spec_update2 old new (the (pkg_data update2_pkg_sz msg))) r"
proof -
  note W = store_worldD [OF w]
  let ?sq = "se_sql env" and ?n = "se_names env" and ?mm = "se_mem env"
  have fo: "feedid_ok old" "feedid_ok new" using f feedid_at_ok by blast+
  have eq: "feedid_equal new old \<longleftrightarrow> new = old" by (cases old; cases new) (auto simp: feedid_equal_def)
  obtain b d1 where b: "check_existed ?sq ?n new d = (b, d1)" by fastforce
  note r1 = check_rows [OF w fo(2) b]
  consider "fid_mimi old \<noteq> fid_mimi new" "r = (build_simple_msg RES_OP_ERR_REQUEST, d, m)"
    | "fid_mimi old = fid_mimi new" "new \<noteq> old" "b" "r = (build_simple_msg RES_OP_FEEDID_DUP, d1, m)"
    | bs q d2 where "fid_mimi old = fid_mimi new" "\<not> (new \<noteq> old \<and> b)" "pkg_data update2_pkg_sz msg = Some bs"
        "db_update2 ?sq ?n old new (sq_escape ?sq bs) d1 = (q, d2)" "q \<noteq> 0" "r = (build_simple_msg RES_OP_ERROR, d2, m)"
    | bs d2 g p where "fid_mimi old = fid_mimi new" "\<not> (new \<noteq> old \<and> b)" "pkg_data update2_pkg_sz msg = Some bs"
        "db_update2 ?sq ?n old new (sq_escape ?sq bs) d1 = (0, d2)" "memc_get ?mm MAX_PACKAGE_LEN old m = Some (g, p)"
        "r = (build_simple_msg RES_OP_SUCCESS, d2,
           if g = 0 then snd (memc_add ?mm (se_stars env) new bs (snd (memc_del ?mm old m))) else m)"
    using op f b W(5) eq
    by (auto simp: store_update2_def Let_def dest!: escaped_eq split: option.splits if_splits prod.splits)
  then show ?thesis
  proof cases
    case 1
    with i show ?thesis by (auto intro!: servesI' simp: spec_update2_def)
  next
    case 2
    with r1(2) have "spec_update2 old new bs (R d) = (RES_OP_FEEDID_DUP, R d1)" for bs
      using r1(1) by (simp add: spec_update2_def)
    with 2 store_inv_db [OF i r1(1)] show ?thesis by (auto intro!: servesI')
  next
    case (3 bs q d2)
    have bt: "text_ok bs" using t 3(3) by (simp add: data_ok_def)
    from db_update_rows [OF W(1) fo 3(1) bt 3(4)] text_ok_fits(2) [OF W(1,2) fo bt] r1 3(5)
    have c: "q = -1" "R d2 = R d" "\<not> mysql_up ?sq" by auto
    with 3 store_inv_db [OF i, of d2] show ?thesis by (auto intro!: servesI)
  next
    case (4 bs d2 g p)
    have bt: "text_ok bs" using t 4(3) by (simp add: data_ok_def)
    from db_update_rows [OF W(1) fo 4(1) bt 4(4)] r1(1) have r2: "R d2 = map (renew old new bs) (R d)" by auto
    have ro: "rows_ok (R d2)" using i r2 rows_ok_renew [OF _ fo(2) bt] by (simp add: store_inv_def)
    have "store_inv R C (d2, if g = 0 then snd (memc_add ?mm (se_stars env) new bs (snd (memc_del ?mm old m))) else m)"
    proof (cases "C m (generate_feedkey old)")
      case None
      then have "g = -1" using 4(5) memc_okD(2) [OF W(4)] by (simp add: memc_get_def)
      with uncached_rows [OF i fo(1) None ro r2] show ?thesis by simp
    next
      case (Some x)
      obtain v fl where x: "x = (v, fl)" by (cases x)
      with store_inv_hit [OF i fo(1), of v fl] Some have h: "fl = fid_mimi old" "(old, v) \<in> set (R d)" by simp_all
      then have "g = 0" using 4(5) memc_okD(2) [OF W(4)] Some x by (simp add: memc_get_def split: if_splits)
      moreover have "\<exists>x \<in> set (R d). has_id old x"
        using h(2) by (intro bexI [of _ "(old, v)"]) (simp_all add: has_id_def)
      ultimately show ?thesis using renamed_inv [OF w i fo bt r2] by simp
    qed
    moreover have "\<not> (new \<noteq> old \<and> (\<exists>x \<in> set (R d). has_id new x))" using 4(2) r1(2) by blast
    then have "spec_update2 old new bs (R d) = (RES_OP_SUCCESS, R d2)"
      unfolding spec_update2_def using 4(1) r2 by (simp only: if_False) simp
    ultimately show ?thesis using 4 by (auto intro!: servesI')
  qed
qed

lemma store_set_serves:
  assumes w: "store_world env R C" and i: "store_inv R C (d, m)" and t: "data_ok update2_pkg_sz msg"
    and op: "store_set env 1 msg (d, m) = Some r" and f: "feedid_at 12 msg = Some old" "feedid_at 34 msg = Some new"
  shows "serves env (store_inv R C) R d (spec_set old new (the (pkg_data update2_pkg_sz msg))) r"
proof -
  note W = store_worldD [OF w]
  let ?sq = "se_sql env" and ?n = "se_names env" and ?mm = "se_mem env"
  have fo: "feedid_ok old" "feedid_ok new" using f feedid_at_ok by blast+
  have eq: "feedid_equal new old \<longleftrightarrow> new = old" by (cases old; cases new) (auto simp: feedid_equal_def)
  obtain b d1 where b: "check_existed ?sq ?n old d = (b, d1)" by fastforce
  note r1 = check_rows [OF w fo(1) b]
  define chg where "chg bs = (if b then db_update2 ?sq ?n old new (sq_escape ?sq bs) d1
    else db_insert ?sq ?n new (sq_escape ?sq bs) d1)" for bs
  define kept where "kept bs = (if b \<and> new \<noteq> old then snd (memc_add ?mm (se_stars env) new bs (snd (memc_del ?mm old m)))
    else snd (memc_set ?mm (se_stars env) new bs m))" for bs
  have step: "store_set env 1 msg (d, m) =
    (if \<not> get_db_conn ?sq (fid_mimi old) d then simple RES_OP_ERROR (d, m)
     else if fid_mimi old \<noteq> fid_mimi new then simple RES_OP_ERR_REQUEST (d, m)
     else (case pkg_data update2_pkg_sz msg of
         None \<Rightarrow> None
       | Some bs \<Rightarrow> if escaped ?sq bs = None then None
           else (case chg bs of (q, d2) \<Rightarrow>
             if q \<noteq> 0 then simple RES_OP_ERROR (d2, m) else simple RES_OP_SUCCESS (d2, kept bs))))"
  proof (cases "pkg_data update2_pkg_sz msg")
    case (Some bs)
    then show ?thesis
    proof (cases "escaped ?sq bs")
      case (Some e)
      note e = escaped_eq [OF Some]
      with Some \<open>pkg_data update2_pkg_sz msg = Some bs\<close> show ?thesis
        unfolding store_set_def chg_def kept_def Let_def eq [symmetric]
        by (cases b) (simp_all add: f b W(5) split: prod.split)
    qed (simp add: store_set_def Let_def f)
  qed (simp add: store_set_def Let_def f)
  consider "\<not> get_db_conn ?sq (fid_mimi old) d" "r = (build_simple_msg RES_OP_ERROR, d, m)"
    | "fid_mimi old \<noteq> fid_mimi new" "r = (build_simple_msg RES_OP_ERR_REQUEST, d, m)"
    | bs q d2 where "fid_mimi old = fid_mimi new" "pkg_data update2_pkg_sz msg = Some bs"
        "chg bs = (q, d2)" "q \<noteq> 0" "r = (build_simple_msg RES_OP_ERROR, d2, m)"
    | bs d2 where "fid_mimi old = fid_mimi new" "pkg_data update2_pkg_sz msg = Some bs" "chg bs = (0, d2)"
        "r = (build_simple_msg RES_OP_SUCCESS, d2, kept bs)"
    using op [unfolded step] by (auto split: option.splits if_splits prod.splits)
  then show ?thesis
  proof cases
    case 1
    with no_conn [OF 1(1)] i show ?thesis by (auto intro!: servesI)
  next
    case 2
    with i show ?thesis by (auto intro!: servesI' simp: spec_set_def)
  next
    case (3 bs q d2)
    have bt: "text_ok bs" using t 3(2) by (simp add: data_ok_def)
    have c: "R d2 = R d \<and> \<not> mysql_up ?sq"
    proof (cases b)
      case True
      with 3(3) have "db_update2 ?sq ?n old new (sq_escape ?sq bs) d1 = (q, d2)" by (simp add: chg_def)
      from db_update_rows [OF W(1) fo 3(1) bt this] text_ok_fits(2) [OF W(1,2) fo bt] r1 3(4) show ?thesis by auto
    next
      case False
      with 3(3) have "db_insert ?sq ?n new (sq_escape ?sq bs) d1 = (q, d2)" by (simp add: chg_def)
      from db_insert_rows [OF W(1) fo(2) bt this] text_ok_fits(1) [OF W(1,2) fo(2,2) bt] r1 3(4) show ?thesis by auto
    qed
    with 3 store_inv_db [OF i, of d2] show ?thesis by (auto intro!: servesI)
  next
    case (4 bs d2)
    have bt: "text_ok bs" using t 4(2) by (simp add: data_ok_def)
    define rs where "rs = (if b then map (renew old new bs) (R d) else R d @ [(new, bs)])"
    have r2: "R d2 = rs"
      using db_update_rows [OF W(1) fo 4(1) bt, of d1 0 d2] db_insert_rows [OF W(1) fo(2) bt, of d1 0 d2] 4(3) r1(1)
      by (auto simp: chg_def rs_def)
    have ro: "rows_ok (R d2)"
      using i r2 rows_ok_renew [OF _ fo(2) bt] rows_ok_snoc [OF _ fo(2) bt] by (auto simp: rs_def store_inv_def)
    have nw: "(new, bs) \<in> set (R d2)"
      using r1(2) renew_this [of old _ "R d" new bs] unfolding r2 rs_def by (auto simp: has_id_def)
    have "store_inv R C (d2, kept bs)"
    proof (cases "b \<and> new \<noteq> old")
      case True
      with renamed_inv [OF w i fo bt, of d2 "se_stars env"] r2 r1(2) show ?thesis by (simp add: rs_def kept_def)
    next
      case False
      have "store_inv R C (d2, snd (memc_set ?mm (se_stars env) new bs m))"
      proof (rule cached_rows_change [OF i ro memc_ops_le(1) [OF W(4)] fo(2)])
        show "(g, v) \<in> set (R d2)" if "g \<noteq> new" "(g, v) \<in> set (R d)" for g v
          using that renew_other [of g v "R d" old new bs] False unfolding r2 rs_def by auto
      qed (use nw in auto)
      with False show ?thesis by (simp add: kept_def del: de_Morgan_conj)
    qed
    moreover have "spec_set old new bs (R d) = (RES_OP_SUCCESS, R d2)"
      unfolding spec_set_def r2 rs_def r1(2) using 4(1) by simp
    ultimately show ?thesis using 4 by (auto intro!: servesI')
  qed
qed

end
