(* ===== verification/StoreOps.thy ===== *)
theory StoreOps
  imports StoreSpec
begin

text \<open>
  Deleting and fetching feeds: \<^verbatim>\<open>del\<close> and \<^verbatim>\<open>del2\<close> filter the rows and leave no deleted feed in
  memcached, and \<^verbatim>\<open>get_pkgs\<close> answers with exactly the rows asked for, from memcached or the
  tables, as long as no key is the beginning of another.
\<close>

section \<open>del, del2\<close>

lemma deleted_inv:
  assumes w: "store_world env R C" and i: "store_inv R C (d, m)" and f: "feedid_ok f"
    and s: "set (R d') \<subseteq> set (R d)" "\<And>g v. g \<noteq> f \<Longrightarrow> (g, v) \<in> set (R d) \<Longrightarrow> (g, v) \<in> set (R d')"
  shows "store_inv R C (d', snd (memc_del (se_mem env) f m))"
proof (rule cached_rows_change [OF i _ memc_ops_le(4) [OF store_worldD(4) [OF w]] f])
  show "rows_ok (R d')" using i s(1) by (auto simp: store_inv_def rows_ok_def)
qed (use s(2) in auto)

lemma uncached_inv:
  "store_world env R C \<Longrightarrow> store_inv R C (d, m) \<Longrightarrow> feedid_ok f \<Longrightarrow>
   store_inv R C (d, snd (memc_del (se_mem env) f m))"
  by (rule deleted_inv) auto

lemma db_del_step:
  assumes w: "store_world env R C" and i: "store_inv R C (d, m)" and f: "feedid_ok f"
    and op: "db_del (se_sql env) (se_names env) f d = (r, d')"
  shows "store_inv R C (d', snd (memc_del (se_mem env) f m))"
    "r = 0 \<and> R d' = filter (\<lambda>x. \<not> has_id f x) (R d) \<or> r = -1 \<and> R d' = R d \<and> \<not> mysql_up (se_sql env)"
proof -
  note W = store_worldD [OF w]
  have "fits_sql (delete_sql (se_names env) f)" by (rule change_fits(3) [OF W(2) f f, of "[]"]) simp
  with db_del_rows [OF W(1) f op]
  show c: "r = 0 \<and> R d' = filter (\<lambda>x. \<not> has_id f x) (R d) \<or> r = -1 \<and> R d' = R d \<and> \<not> mysql_up (se_sql env)" by blast
  show "store_inv R C (d', snd (memc_del (se_mem env) f m))"
    by (rule deleted_inv [OF w i f]) (use c in \<open>auto simp: has_id_def\<close>)
qed

lemma store_del_serves:
  assumes w: "store_world env R C" and i: "store_inv R C (d, m)"
    and op: "store_del env old 1 msg (d, m) = Some r" and f: "feedid_at req_hsz msg = Some f"
  shows "serves env (store_inv R C) R d (spec_del f) r"
proof -
  note W = store_worldD [OF w]
  have fo: "feedid_ok f" using f by (rule feedid_at_ok)
  let ?m = "snd (memc_del (se_mem env) f m)"
  have "feedids_at req_hsz 1 msg = Some [f]" by (simp add: f)
  with op W(5) consider "\<not> get_db_conn (se_sql env) (fid_mimi f) d" "r = (build_simple_msg RES_OP_ERROR, d, ?m)"
    | q d' where "db_del (se_sql env) (se_names env) f d = (q, d')"
        "r = (build_simple_msg (if q \<noteq> 0 then RES_OP_ERROR else RES_OP_SUCCESS), d', ?m)"
    by (auto simp: store_del_def Let_def split: if_splits prod.splits)
  then show ?thesis
  proof cases
    case 1
    with no_conn [OF 1(1)] uncached_inv [OF w i fo] show ?thesis by (auto intro!: servesI)
  next
    case (2 q d')
    note D = db_del_step [OF w i fo 2(1)]
    show ?thesis unfolding 2(2) by (rule servesI [where I = "store_inv R C" and R = R, OF D(1)]) (use D(2) in \<open>auto simp: spec_del_def\<close>)
  qed
qed

text \<open>A batch: every feed is deleted that can be, the invariant stays, and the answer reports a failure only
  if the database failed.\<close>

lemma del_batch_rows:
  assumes "store_world env R C" "store_inv R C (d, m)" "\<forall>f \<in> set fs. feedid_ok f"
    "del_batch env i off fs buf a (d, m) = Some (buf', a', d', m')"
  shows "store_inv R C (d', m') \<and> set (R d') \<subseteq> set (R d) \<and>
    (mysql_up (se_sql env) \<longrightarrow> a' = a \<and> R d' = filter (\<lambda>x. \<forall>f \<in> set fs. \<not> has_id f x) (R d))"
  using assms(2-4)
proof (induction fs arbitrary: i off buf a d m)
  case Nil
  then show ?case by simp
next
  case (Cons f fs)
  note W = store_worldD [OF assms(1)]
  have fo: "feedid_ok f" using Cons.prems(2) by simp
  let ?m = "snd (memc_del (se_mem env) f m)" and ?off = "off + i * stat_pkg_len"
  let ?put = "\<lambda>s. put_at ?off (build_stat_pkg f s) buf"
  show ?case
  proof (cases "get_db_conn (se_sql env) (fid_mimi f) d")
    case False
    then have "del_batch env (i + 1) ?off fs (?put RES_OP_ERROR) True (d, ?m) = Some (buf', a', d', m')"
      using Cons.prems(3) W(5) by (simp add: Let_def)
    from Cons.IH [OF uncached_inv [OF assms(1) Cons.prems(1) fo] _ this] Cons.prems(2) no_conn [OF False]
    show ?thesis by auto
  next
    case True
    obtain r d1 where r: "db_del (se_sql env) (se_names env) f d = (r, d1)" by fastforce
    note D = db_del_step [OF assms(1) Cons.prems(1) fo r]
    have "del_batch env (i + 1) ?off fs (?put (if r \<noteq> 0 then RES_OP_ERROR else RES_OP_SUCCESS)) (a \<or> r \<noteq> 0) (d1, ?m) =
        Some (buf', a', d', m')"
      using Cons.prems(3) W(5) True r by (auto simp: Let_def)
    from Cons.IH [OF D(1) _ this] Cons.prems(2) D(2) show ?thesis by (auto simp: conj_commute)
  qed
qed

lemma feedids_at_ok: "feedids_at off n m = Some fs \<Longrightarrow> length fs = n \<and> (\<forall>f \<in> set fs. feedid_ok f)"
  by (induction off n m arbitrary: fs rule: feedids_at.induct) (auto simp: feedid_at_ok split: option.splits)

lemma store_del_many:
  assumes "feedids_at req_hsz n msg = Some fs" "length fs \<noteq> 1"
  shows "store_del env old n msg st =
     (case del_batch env 0 res_hsz fs old False st of
        None \<Rightarrow> None
      | Some (buf, anyfail, st') \<Rightarrow>
          Some (store_response (if anyfail then RES_OP_ERROR else RES_OP_SUCCESS) n
                  (take (n * stat_pkg_len) (drop res_hsz buf)), st'))"
proof (cases fs)
  case Nil
  with assms(1) show ?thesis by (simp add: store_del_def)
next
  case (Cons f gs)
  with assms(2) obtain g hs where "fs = f # g # hs" by (cases gs) auto
  with assms(1) show ?thesis by (simp add: store_del_def)
qed

lemma response_result:
  assumes "r < 2 ^ 16"
  shows "rd_le 4 2 (store_response r n xs) = r"
proof -
  have "rd_le 4 2 (to_le 4 (res_hsz + length xs) @ to_le 2 r @ to_le 2 n @ xs) = r"
    using assms by (subst rd_le_skip) (simp_all add: rd_le_here)
  then show ?thesis by (simp add: store_response_def)
qed

lemma store_del_batch_rows:
  assumes "store_world env R C" "store_inv R C (d, m)" "feedids_at req_hsz n msg = Some fs" "n \<noteq> 1"
    "store_del env old n msg (d, m) = Some (b, d', m')"
  shows "store_inv R C (d', m') \<and> set (R d') \<subseteq> set (R d) \<and>
    (mysql_up (se_sql env) \<longrightarrow> rd_le 4 2 b = RES_OP_SUCCESS \<and> R d' = filter (\<lambda>x. \<forall>f \<in> set fs. \<not> has_id f x) (R d))"
proof -
  note F = feedids_at_ok [OF assms(3)]
  obtain buf a where b: "del_batch env 0 res_hsz fs old False (d, m) = Some (buf, a, d', m')"
    "b = store_response (if a then RES_OP_ERROR else RES_OP_SUCCESS) n (take (n * stat_pkg_len) (drop res_hsz buf))"
    using assms(4,5) F store_del_many [OF assms(3), of env old "(d, m)"] by (auto split: option.splits)
  show ?thesis
    using del_batch_rows [OF assms(1,2) _ b(1)] F b(2) by (simp add: response_result res_codes)
qed

lemma memc_del_all_le:
  assumes "memc_ok mm C"
  shows "map_le (C (memc_del_all mm fs m)) (\<lambda>k. if k \<in> generate_feedkey ` set fs then None else C m k)"
proof (induction fs arbitrary: m)
  case (Cons f fs)
  let ?m = "snd (memc_del mm f m)"
  have "map_le (\<lambda>k. if k \<in> generate_feedkey ` set fs then None else C ?m k)
      (\<lambda>k. if k \<in> generate_feedkey ` set (f # fs) then None else C m k)"
    using memc_ops_le(4) [OF assms, of f m] unfolding map_le_def dom_def by (auto split: if_splits)
  from map_le_trans [OF Cons.IH [of ?m] this] show ?case by (simp only: memc_del_all.simps)
qed simp

lemma memc_del_all_inv:
  assumes "memc_ok mm C" "store_inv R C (d, m)" "\<forall>f \<in> set fs. feedid_ok f" "set (R d') \<subseteq> set (R d)"
    "\<And>g v. g \<notin> set fs \<Longrightarrow> (g, v) \<in> set (R d) \<Longrightarrow> (g, v) \<in> set (R d')"
  shows "store_inv R C (d', memc_del_all mm fs m)"
proof -
  let ?F = "\<lambda>k. if k \<in> generate_feedkey ` set fs then None else C m k"
  have "caches generate_feedkey feedid_ok fid_mimi (set (R d')) ?F"
    unfolding caches_def
  proof (intro allI impI)
    fix g v fl
    assume g: "feedid_ok g" "?F (generate_feedkey g) = Some (v, fl)"
    then have "g \<notin> set fs" "C m (generate_feedkey g) = Some (v, fl)" by (auto split: if_splits)
    with store_inv_hit [OF assms(2) g(1)] assms(5) show "fl = fid_mimi g \<and> (g, v) \<in> set (R d')" by simp
  qed
  from caches_below [OF this below_map_le [OF memc_del_all_le [OF assms(1)]]] assms(2,4)
  show ?thesis by (auto simp: store_inv_def rows_ok_def)
qed

lemma del2_at_ok:
  assumes "del2_at off msg = Some (mimi, cmd, app, magic)"
  shows "mimi < 2 ^ 32" "cmd < 2 ^ 16" "app < 2 ^ 32" "magic < 2 ^ 64"
  using assms rd_le_bound [of _ 4 msg] rd_le_bound [of _ 2 msg] rd_le_bound [of _ 8 msg]
  by (auto simp: del2_at_def split: if_splits)

text \<open>Rows that share the key with more than a hundred others overflow the list of the code.\<close>

lemma store_del2_serves:
  assumes w: "store_world env R C" and i: "store_inv R C (d, m)"
    and op: "store_del2 env 1 msg (d, m) = Some r" and k: "del2_at req_hsz msg = Some k"
  shows "serves env (store_inv R C) R d (spec_del2 k) r"
proof -
  note W = store_worldD [OF w]
  obtain mimi cmd app magic where k4: "k = (mimi, cmd, app, magic)" by (cases k) auto
  note B = del2_at_ok [OF k [unfolded k4]]
  note fit = key_fits [OF W(2) B]
  let ?sq = "se_sql env" and ?n = "se_names env" and ?has = "has_key mimi cmd app magic"
  have spec: "spec_del2 k rs = (RES_OP_SUCCESS, filter (\<lambda>x. \<not> ?has x) rs)" for rs by (simp add: spec_del2_def k4)
  consider "\<not> get_db_conn ?sq mimi d" "r = (build_simple_msg RES_OP_ERROR, d, m)"
    | n fs d1 where "get_feedids ?sq ?n mimi cmd app magic d = Some ((n, fs), d1)" "n = 0" "r = (build_simple_msg RES_OP_SUCCESS, d1, m)"
    | n fs d1 q d2 where "get_feedids ?sq ?n mimi cmd app magic d = Some ((n, fs), d1)" "n \<noteq> 0"
        "db_del2 ?sq ?n mimi cmd app magic d1 = (q, d2)"
        "r = (build_simple_msg (if q \<noteq> 0 then RES_OP_ERROR else RES_OP_SUCCESS), d2,
              if n > 0 then memc_del_all (se_mem env) fs m else m)"
    using op k W(5) unfolding k4 by (auto simp: store_del2_def Let_def split: if_splits option.splits prod.splits)
  then show ?thesis
  proof cases
    case 1
    with no_conn [OF 1(1)] i show ?thesis by (auto intro!: servesI)
  next
    case (2 n fs d1)
    from get_feedids_rows [OF W(1) _ 2(1)] i 2(2)
    have "R d1 = R d" "filter ?has (R d) = []" by (auto simp: store_inv_def)
    with 2 spec store_inv_db [OF i, of d1] show ?thesis by (auto intro!: servesI' simp: filter_empty_conv)
  next
    case (3 n fs d1 q d2)
    from get_feedids_rows [OF W(1) _ 3(1)] i fit(1) W(3)
    have fs: "R d1 = R d" "fs = map fst (filter ?has (R d))" "n = int (length fs)" by (auto simp: store_inv_def)
    then have "n > 0" using 3(2) by simp
    from db_del2_rows [OF W(1) 3(3)] fit(2) fs(1)
    have c: "q = 0 \<and> R d2 = filter (\<lambda>x. \<not> ?has x) (R d) \<or> q = -1 \<and> R d2 = R d \<and> \<not> mysql_up ?sq" by auto
    have "store_inv R C (d2, memc_del_all (se_mem env) fs m)"
    proof (rule memc_del_all_inv [OF W(4) i])
      show "\<forall>f \<in> set fs. feedid_ok f" using i fs(2) by (auto simp: store_inv_def rows_ok_def)
    qed (use c fs(2) in force)+
    with c 3(4) \<open>n > 0\<close> show ?thesis by (auto intro!: servesI simp: spec)
  qed
qed

end
