(* ===== verification/StoreGet.thy ===== *)
theory StoreGet
  imports StoreOps "HOL-Library.Multiset"
begin

text \<open>
  Fetching feeds (\<^verbatim>\<open>feeds_store::get_pkgs\<close>): the answer is exactly the rows asked for, found in memcached or
  in the tables, if no key is the beginning of another; what goes wrong if one is.
\<close>

definition pkgs :: "feed_row list \<Rightarrow> byte list" where
  "pkgs xs = concat (map (\<lambda>x. feed_pkg (fst x) (snd x)) xs)"

lemma pkgs_simps [simp]:
  "pkgs [] = []" "pkgs (x # xs) = feed_pkg (fst x) (snd x) @ pkgs xs" "pkgs (xs @ ys) = pkgs xs @ pkgs ys"
  by (simp_all add: pkgs_def)

lemma length_feed_pkg [simp]: "length (feed_pkg f v) = feed_hsz + length v"
  by (simp add: feed_pkg_def feed_hsz_def feedid_sz_def)

lemma length_pkgs: "length (pkgs xs) = (\<Sum>x \<in># mset xs. feed_hsz + length (snd x))"
  by (induction xs) simp_all

section \<open>Keys that are told apart\<close>

definition keys_apart :: "feedid list \<Rightarrow> bool" where
  "keys_apart ids \<longleftrightarrow>
     (\<forall>f \<in> set ids. \<forall>g \<in> set ids. prefix (generate_feedkey f) (generate_feedkey g) \<longrightarrow> f = g)"

text \<open>The list of ids, those of \<open>F\<close> marked as found.\<close>

definition marked :: "'k set \<Rightarrow> 'k list \<Rightarrow> ('k \<times> nat) list" where
  "marked F ids = map (\<lambda>f. (f, if f \<in> F then F_MEM else F_NONE)) ids"

lemma marked_simps [simp]:
  "marked F [] = []" "marked F (f # ids) = (f, if f \<in> F then F_MEM else F_NONE) # marked F ids"
  by (simp_all add: marked_def)

lemma marked_cong: "(\<And>f. f \<in> set ids \<Longrightarrow> f \<in> F \<longleftrightarrow> f \<in> G) \<Longrightarrow> marked F ids = marked G ids"
  by (simp add: marked_def)

lemma match_key_apart:
  assumes "f \<in> set ids" "distinct ids" "keys_apart ids"
  shows "match_key (generate_feedkey f) (marked F ids) = Some (f, marked (insert f F) ids)"
  using assms
proof (induction ids)
  case (Cons g ids)
  have p: "prefix (generate_feedkey f) (generate_feedkey g) \<longleftrightarrow> f = g"
    using Cons.prems(1,3) by (auto simp: keys_apart_def)
  show ?case
  proof (cases "f = g")
    case True
    then have "marked (insert f F) ids = marked F ids" using Cons.prems(2) by (intro marked_cong) auto
    with True show ?thesis by simp
  next
    case False
    with Cons.prems have "match_key (generate_feedkey f) (marked F ids) = Some (f, marked (insert f F) ids)"
      by (intro Cons.IH) (simp_all add: keys_apart_def)
    with False p show ?thesis by simp
  qed
qed simp

lemma fetch_pkgs_apart:
  assumes "distinct ids" "keys_apart ids" "fst ` set xs \<subseteq> set ids" "length (pkgs xs) \<le> room"
  shows "fetch_pkgs room (map (\<lambda>x. (generate_feedkey (fst x), snd x)) xs) (marked F ids) =
    (Some (int (length xs), pkgs xs), marked (F \<union> fst ` set xs) ids)"
  using assms(3,4)
proof (induction xs arbitrary: room F)
  case (Cons x xs)
  have "fetch_pkgs (room - length (feed_pkg (fst x) (snd x)))
      (map (\<lambda>x. (generate_feedkey (fst x), snd x)) xs) (marked (insert (fst x) F) ids) =
      (Some (int (length xs), pkgs xs), marked (insert (fst x) F \<union> fst ` set xs) ids)"
    using Cons.prems by (intro Cons.IH) simp_all
  with Cons.prems match_key_apart [OF _ assms(1,2), of "fst x" F] show ?case by (simp add: Let_def)
qed simp

lemma pick_images: "\<forall>x \<in> set rs. \<exists>y. x = g y \<and> P y \<Longrightarrow> \<exists>ys. rs = map g ys \<and> (\<forall>y \<in> set ys. P y)"
proof (induction rs)
  case (Cons x rs)
  then obtain ys where ys: "rs = map g ys" "\<forall>y \<in> set ys. P y" by auto
  from Cons.prems obtain y where y: "x = g y" "P y" by auto
  from ys y show ?case by (intro exI [of _ "y # ys"]) simp
qed simp

text \<open>What a fetch of many keys finds: rows of the feeds asked for, none twice.\<close>

lemma mget_rows:
  assumes w: "store_world env R C" and i: "store_inv R C (d, m)" and ids: "\<forall>f \<in> set ids. feedid_ok f" "distinct ids"
    and g: "mm_mget (se_mem env) m (map (\<lambda>x. generate_feedkey (fst x)) (marked {} ids)) = Some rs"
  obtains xs where "rs = map (\<lambda>x. (generate_feedkey (fst x), snd x)) xs" "set xs \<subseteq> set (R d)"
    "fst ` set xs \<subseteq> set ids" "distinct (map fst xs)"
proof -
  have ks: "map (\<lambda>x. generate_feedkey (fst x)) (marked {} ids) = map generate_feedkey ids"
    by (simp add: marked_def comp_def)
  have inj: "inj_on generate_feedkey (set ids)" using feedkey_inj ids(1) by (auto intro: inj_onI)
  note M = memc_ok_mget [OF store_worldD(4) [OF w] g [unfolded ks]]
  have "\<exists>y. x = (generate_feedkey (fst y), snd y) \<and> fst y \<in> set ids \<and> y \<in> set (R d)" if x: "x \<in> set rs" for x
  proof -
    obtain f fl where f: "f \<in> set ids" "fst x = generate_feedkey f" "C m (fst x) = Some (snd x, fl)"
      using M(1) x by fastforce
    with store_inv_hit [OF i, of f "snd x" fl] ids(1) have "(f, snd x) \<in> set (R d)" by simp
    with f show ?thesis by (intro exI [of _ "(f, snd x)"]) (simp add: prod_eq_iff)
  qed
  then have "\<forall>x \<in> set rs. \<exists>y. x = (generate_feedkey (fst y), snd y) \<and> (fst y \<in> set ids \<and> y \<in> set (R d))" by blast
  from pick_images [OF this] obtain xs where xs: "rs = map (\<lambda>x. (generate_feedkey (fst x), snd x)) xs"
    "\<forall>y \<in> set xs. fst y \<in> set ids \<and> y \<in> set (R d)" by (elim exE conjE)
  have "distinct (map generate_feedkey ids)" using ids(2) inj by (simp add: distinct_map)
  then have "distinct (map fst rs)" using M(2) by simp
  then have "distinct (map generate_feedkey (map fst xs))" by (simp add: xs(1) comp_def)
  then have "distinct (map fst xs)" by (simp only: distinct_map)
  then show ?thesis by (intro that [OF xs(1)]) (use xs(2) in auto)
qed

section \<open>Rows of the tables\<close>

lemma db_get_pkg_found:
  assumes w: "store_world env R C" and r: "rows_ok (R d)" and f: "feedid_ok f"
    and room: "length (pkgs (filter (\<lambda>x. fst x = f) (R d))) \<le> room"
  obtains d' where "db_get_pkg (se_sql env) (se_names env) room f d =
      Some ((int (length (filter (\<lambda>x. fst x = f) (R d))), pkgs (filter (\<lambda>x. fst x = f) (R d))), d')" "R d' = R d"
proof -
  note W = store_worldD [OF w]
  let ?sq = "se_sql env" and ?t = "select_sql (se_names env) f" and ?rs = "filter (\<lambda>x. fst x = f) (R d)"
  have hid: "has_id f = (\<lambda>x. fst x = f)" by (simp add: has_id_def fun_eq_iff)
  have fit: "fits_sql ?t" by (rule query_fits(2) [OF W(2) f])
  obtain n rows e where e: "sq_select ?sq ?t d = ((n, rows), e)" by (cases "sq_select ?sq ?t d") auto
  have "0 \<le> n" using e W(3) unfolding selects_up_def by (metis fst_conv)
  moreover have "answers ?sq R ?t (\<lambda>rs rows. rows = map data_row (filter (has_id f) rs))"
    using W(1) f unfolding mysql_ok_def by blast
  then have "answers ?sq R ?t (\<lambda>rs rows. rows = map data_row (filter (\<lambda>x. fst x = f) rs))" by (simp only: hid)
  from answersD [OF this e] have "R e = R d" "n < 0 \<or> n = int (length rows) \<and> rows = map data_row ?rs" by auto
  ultimately have a: "R e = R d" "n = int (length ?rs)" "rows = map data_row ?rs" by auto
  have "rows_ok ?rs" using r by (auto simp: rows_ok_def)
  then have b: "build_feeds rows True = Some (pkgs ?rs)" by (simp add: a(3) build_feeds_rows pkgs_def)
  have "db_get_pkg ?sq (se_names env) room f d = Some ((n, pkgs ?rs), e)"
  proof (cases "n > 0")
    case True
    have "take (nat n) rows = rows" by (simp add: a(2,3))
    with True room b e fit show ?thesis by (simp add: db_get_pkg_def get_feedspkg_def)
  next
    case False
    then have "?rs = []" using a(2) by (simp only: length_0_conv [symmetric])
    then have "pkgs ?rs = []" by (simp only: pkgs_simps)
    with False e fit show ?thesis by (simp add: db_get_pkg_def get_feedspkg_def)
  qed
  with a show ?thesis by (intro that [of e]) simp_all
qed

lemma first_pkg_row:
  assumes "feedid_ok f" "length v < 2 ^ 16"
  shows "first_pkg feed_hsz (feed_pkg f v @ b) = (f, v, feed_hsz + length v)"
proof -
  let ?p = "to_le 4 (feed_hsz + length v) @ wr_feedid f @ v @ b"
  have "rd_le 0 4 ?p = feed_hsz + length v" using assms(2) by (simp add: rd_le_here feed_hsz_def)
  moreover have "drop (feed_hsz - feedid_sz) ?p = wr_feedid f @ v @ b" by (simp add: feed_hsz_def feedid_sz_def)
  moreover have "drop feed_hsz ?p = v @ b" by (simp add: feed_hsz_def feedid_sz_def)
  ultimately show ?thesis using assms(1) by (simp add: first_pkg_def feed_pkg_def rd_wr_feedid)
qed

text \<open>The rows of the ids that were not found yet.\<close>

definition asked :: "'k set \<Rightarrow> 'k list \<Rightarrow> ('k \<times> 'v) list \<Rightarrow> ('k \<times> 'v) list" where
  "asked F ids rs = concat (map (\<lambda>f. filter (\<lambda>x. fst x = f) rs) (filter (\<lambda>f. f \<notin> F) ids))"

lemma asked_simps [simp]:
  "asked F [] rs = []"
  "asked F (f # ids) rs = (if f \<in> F then asked F ids rs else filter (\<lambda>x. fst x = f) rs @ asked F ids rs)"
  by (simp_all add: asked_def)

lemma get_db_pkgs_rows:
  assumes w: "store_world env R C" "mysql_up (se_sql env)"
    and "store_inv R C (d, m)" "\<forall>f \<in> set ids. feedid_ok f" "length (pkgs (asked F ids (R d))) \<le> room"
  shows "\<exists>d' m'. get_db_pkgs env room (marked F ids) (d, m) =
      Some ((int (length (asked F ids (R d))), pkgs (asked F ids (R d))), d', m') \<and>
    R d' = R d \<and> store_inv R C (d', m')"
  using assms(3-5)
proof (induction ids arbitrary: room d m)
  case Nil
  then show ?case by simp
next
  case (Cons f ids)
  note W = store_worldD [OF w(1)]
  have conn: "get_db_conn (se_sql env) (fid_mimi f) d" using w(2) by (simp add: get_db_conn_def mysql_up_def)
  have ro: "rows_ok (R d)" using Cons.prems(1) by (simp add: store_inv_def)
  show ?case
  proof (cases "f \<in> F")
    case True
    with Cons.IH [OF Cons.prems(1)] Cons.prems show ?thesis by (simp add: F_MEM_def F_NONE_def Let_def)
  next
    case False
    let ?rs = "filter (\<lambda>x. fst x = f) (R d)"
    have fo: "feedid_ok f" using Cons.prems(2) by simp
    have room: "length (pkgs ?rs) \<le> room" "length (pkgs (asked F ids (R d))) \<le> room - length (pkgs ?rs)"
      using Cons.prems(3) False by simp_all
    from db_get_pkg_found [OF w(1) ro fo room(1)] obtain d1 where
      d1: "db_get_pkg (se_sql env) (se_names env) room f d = Some ((int (length ?rs), pkgs ?rs), d1)" "R d1 = R d"
      by blast
    have i1: "store_inv R C (d1, m)" by (rule store_inv_db [OF Cons.prems(1) d1(2)])
    show ?thesis
    proof (cases ?rs)
      case Nil
      then have "get_db_pkgs env room (marked F (f # ids)) (d, m) = get_db_pkgs env room (marked F ids) (d1, m)"
        using d1(1) conn False by (simp add: Let_def)
      with Cons.IH [OF i1, of room] Cons.prems(2) room(2) d1(2) Nil False show ?thesis by simp
    next
      case (Cons x xs)
      have "x \<in> set ?rs" unfolding Cons by simp
      then have x: "x \<in> set (R d)" "fst x = f" by (simp_all add: has_id_def)
      then have "length (snd x) < 2 ^ 16" using ro by (auto simp: rows_ok_def text_ok_def)
      then have p: "first_pkg feed_hsz (pkgs ?rs) = (f, snd x, feed_hsz + length (snd x))"
        unfolding Cons using first_pkg_row [OF fo] x(2) by simp
      let ?m1 = "snd (memc_set (se_mem env) (se_stars env) f (snd x) m)"
      have i2: "store_inv R C (d1, ?m1)"
        using x d1(2) by (intro memc_set_inv [OF W(4) i1 _ fo]) (cases x; simp)
      have n: "int (length ?rs) > 0" unfolding Cons by simp
      have "get_db_pkgs env room (marked F (f # ids)) (d, m) =
          (case get_db_pkgs env (room - length (pkgs ?rs)) (marked F ids) (d1, ?m1) of
             None \<Rightarrow> None | Some ((k, b2), st') \<Rightarrow> Some ((int (length ?rs) + k, pkgs ?rs @ b2), st'))"
        using d1(1) conn False n p W(5) by (simp add: Let_def F_NONE_def)
      moreover from Cons.IH [OF i2, of "room - length (pkgs ?rs)"] Cons.prems(2) room(2) d1(2)
      obtain d' m' where "get_db_pkgs env (room - length (pkgs ?rs)) (marked F ids) (d1, ?m1) =
          Some ((int (length (asked F ids (R d))), pkgs (asked F ids (R d))), d', m')"
        "R d' = R d" "store_inv R C (d', m')" by auto
      ultimately show ?thesis using False by simp
    qed
  qed
qed

section \<open>The answer\<close>

lemma set_asked: "set (asked F ids rs) = {x \<in> set rs. fst x \<in> set ids \<and> fst x \<notin> F}"
  by (induction ids) auto

lemma distinct_asked: "distinct ids \<Longrightarrow> distinct rs \<Longrightarrow> distinct (asked F ids rs)"
proof (induction ids)
  case (Cons f ids)
  have "set (filter (\<lambda>x. fst x = f) rs) \<inter> set (asked F ids rs) = {}"
    using Cons.prems(1) by (auto simp: set_asked)
  with Cons show ?case by simp
qed simp

text \<open>What memcached had and the tables had together are the rows asked for.\<close>

lemma found_rows:
  assumes "distinct ids" "distinct (map fst rs)" "set xs \<subseteq> set rs" "fst ` set xs \<subseteq> set ids" "distinct (map fst xs)"
  shows "mset (xs @ asked (fst ` set xs) ids rs) = mset (filter (\<lambda>x. fst x \<in> set ids) rs)"
proof -
  have d: "distinct rs" "distinct xs" using assms(2,5) by (simp_all add: distinct_map)
  have same: "(f, w) \<in> set xs" if "(f, w) \<in> set rs" "(f, v) \<in> set xs" for f v w
    using eq_key_imp_eq_value [OF assms(2) that(1), of v] that(2) assms(3) by auto
  have "set (xs @ asked (fst ` set xs) ids rs) = set (filter (\<lambda>x. fst x \<in> set ids) rs)"
    using assms(3,4) by (auto simp: set_asked intro: same)
  moreover have "distinct (xs @ asked (fst ` set xs) ids rs)"
    using distinct_asked [OF assms(1) d(1)] d(2) by (auto simp: set_asked)
  moreover have "distinct (filter (\<lambda>x. fst x \<in> set ids) rs)" using d(1) by simp
  ultimately show ?thesis using set_eq_iff_mset_eq_distinct by blast
qed

lemma store_get_pkgs_found:
  assumes w: "store_world env R C" "mysql_up (se_sql env)" and i: "store_inv R C (d, m)"
    and ids: "feedids_at req_hsz n msg = Some ids" "distinct ids" "keys_apart ids"
    and rs: "distinct (map fst (R d))" "length (pkgs (filter (\<lambda>x. fst x \<in> set ids) (R d))) \<le> MAX_PACKAGE_LEN - res_hsz"
  shows "\<exists>xs d' m'. store_get_pkgs env n msg (d, m) = Some (store_response RES_OP_SUCCESS (length xs) (pkgs xs), d', m') \<and>
    mset xs = mset (filter (\<lambda>x. fst x \<in> set ids) (R d)) \<and> R d' = R d \<and> store_inv R C (d', m')"
proof -
  note W = store_worldD [OF w(1)]
  note F = feedids_at_ok [OF ids(1)]
  let ?room = "MAX_PACKAGE_LEN - res_hsz"
  obtain xs rows where got: "set xs \<subseteq> set (R d)" "fst ` set xs \<subseteq> set ids" "distinct (map fst xs)"
      "rows = int (length xs) \<or> xs = [] \<and> rows = -1"
      "length (pkgs xs) \<le> ?room \<Longrightarrow> memc_gets (se_mem env) ?room (marked {} ids) m =
        (if rows < 0 then None else Some (rows, pkgs xs), marked (fst ` set xs) ids)"
  proof (cases "mm_mget (se_mem env) m (map (\<lambda>x. generate_feedkey (fst x)) (marked {} ids))")
    case None
    then show ?thesis by (intro that [of "[]" "-1"]) (simp_all add: memc_gets_def)
  next
    case (Some rs)
    from mget_rows [OF w(1) i conjunct2 [OF F] ids(2) Some] obtain xs where
      xs: "rs = map (\<lambda>x. (generate_feedkey (fst x), snd x)) xs" "set xs \<subseteq> set (R d)"
        "fst ` set xs \<subseteq> set ids" "distinct (map fst xs)" .
    from fetch_pkgs_apart [OF ids(2,3) xs(3), of ?room "{}"] Some xs
    show ?thesis by (intro that [of xs "int (length xs)"]) (simp_all add: memc_gets_def)
  qed
  let ?ys = "asked (fst ` set xs) ids (R d)"
  have all: "mset (xs @ ?ys) = mset (filter (\<lambda>x. fst x \<in> set ids) (R d))"
    by (rule found_rows [OF ids(2) rs(1) got(1-3)])
  then have "length (pkgs (xs @ ?ys)) \<le> ?room" using rs(2) by (simp only: length_pkgs)
  then have room: "length (pkgs xs) \<le> ?room" "length (pkgs ?ys) \<le> ?room - length (pkgs xs)" by simp_all
  note mem = got(5) [OF room(1)]
  have step: "store_get_pkgs env n msg (d, m) =
      (case (if rows < int n then get_db_pkgs env (?room - length (pkgs xs)) (marked (fst ` set xs) ids) (d, m)
             else Some ((0, []), d, m)) of
         None \<Rightarrow> None
       | Some ((k, b), st') \<Rightarrow> Some (store_response RES_OP_SUCCESS (nat (int (length xs) + k)) (pkgs xs @ b), st'))"
    using mem got(4) W(5) by (auto simp: store_get_pkgs_def Let_def ids(1) marked_def split: option.split)
  show ?thesis
  proof (cases "rows < int n")
    case True
    from get_db_pkgs_rows [OF w i conjunct2 [OF F] room(2)] obtain d' m' where
      "get_db_pkgs env (?room - length (pkgs xs)) (marked (fst ` set xs) ids) (d, m) =
        Some ((int (length ?ys), pkgs ?ys), d', m')" "R d' = R d" "store_inv R C (d', m')" by blast
    with step True all show ?thesis by (intro exI [of _ "xs @ ?ys"]) (simp add: nat_int_add)
  next
    case False
    have "card (fst ` set xs) = length xs" using distinct_card [OF got(3)] by simp
    moreover have "card (set ids) = n" using distinct_card [OF ids(2)] F by simp
    ultimately have "card (set ids) \<le> card (fst ` set xs)" using False got(4) by auto
    then have "fst ` set xs = set ids" by (intro card_seteq [OF _ got(2)]) simp_all
    then have "set ?ys = {}" by (auto simp: set_asked)
    with step False all i show ?thesis by (intro exI [of _ xs]) simp
  qed
qed

end
