(* ===== verification/PfeedsDb.thy ===== *)
theory PfeedsDb
  imports FeedsDb
begin

text \<open>
  The passive feeds of the storage service in MySQL (\<^verbatim>\<open>feed/storage-serv/src/pfeeds_database.cpp\<close>),
  on the tables of the user the feed is for. Statements are cut at the size of their buffer without a
  look at it.
\<close>

section \<open>Passive feeds\<close>

record pfeedid =
  pf_src :: feedid
  pf_sender :: nat
  pf_target :: nat
  pf_magic :: nat

text \<open>\<^verbatim>\<open>pfeed_pkg_t\<close>: the feed, the time of its last activity and its data.\<close>

type_synonym pfeed = "pfeedid \<times> nat \<times> byte list"

definition pfeedid_sz :: nat where "pfeedid_sz = 34"
definition P_FEED_HEAD_SZ :: nat where "P_FEED_HEAD_SZ = 42"
definition pkey_hsz :: nat where "pkey_hsz = 50"

definition rd_pfeedid :: "byte list \<Rightarrow> pfeedid" where
  "rd_pfeedid bs =
     \<lparr>pf_src = rd_feedid bs, pf_sender = rd_le 22 4 bs, pf_target = rd_le 26 4 bs, pf_magic = rd_le 30 4 bs\<rparr>"

definition wr_pfeedid :: "pfeedid \<Rightarrow> byte list" where
  "wr_pfeedid f = wr_feedid (pf_src f) @ to_le 4 (pf_sender f) @ to_le 4 (pf_target f) @ to_le 4 (pf_magic f)"

definition pfeedid_ok :: "pfeedid \<Rightarrow> bool" where
  "pfeedid_ok f \<longleftrightarrow> feedid_ok (pf_src f) \<and> pf_sender f < 2 ^ 32 \<and> pf_target f < 2 ^ 32 \<and> pf_magic f < 2 ^ 32"

definition pfeedid_equal :: "pfeedid \<Rightarrow> pfeedid \<Rightarrow> bool" where
  "pfeedid_equal a b \<longleftrightarrow>
     fid_mimi (pf_src a) = fid_mimi (pf_src b) \<and> fid_cmd_id (pf_src a) = fid_cmd_id (pf_src b) \<and>
     fid_app_id (pf_src a) = fid_app_id (pf_src b) \<and> fid_timestamp (pf_src a) = fid_timestamp (pf_src b) \<and>
     fid_magic (pf_src a) = fid_magic (pf_src b) \<and>
     pf_sender a = pf_sender b \<and> pf_target a = pf_target b \<and> pf_magic a = pf_magic b"

lemma length_wr_pfeedid [simp]: "length (wr_pfeedid f) = pfeedid_sz"
  by (simp add: wr_pfeedid_def pfeedid_sz_def feedid_sz_def)

lemma rd_wr_pfeedid: "pfeedid_ok f \<Longrightarrow> rd_pfeedid (wr_pfeedid f @ r) = f"
  by (cases f) (simp add: rd_pfeedid_def wr_pfeedid_def pfeedid_ok_def layout rd_wr_feedid feedid_sz_def)

lemma rd_pfeedid_ok: "pfeedid_ok (rd_pfeedid bs)"
  using rd_le_bound [of 22 4 bs] rd_le_bound [of 26 4 bs] rd_le_bound [of 30 4 bs]
  by (simp add: pfeedid_ok_def rd_pfeedid_def rd_feedid_ok)

lemma pfeedid_equal_iff: "pfeedid_equal a b \<longleftrightarrow> a = b"
  by (cases a; cases b; cases "pf_src a"; cases "pf_src b") (auto simp: pfeedid_equal_def)

definition pfeed_pkg :: "pfeed \<Rightarrow> byte list" where
  "pfeed_pkg x =
     (case x of (f, act, data) \<Rightarrow> to_le 4 (P_FEED_HEAD_SZ + length data) @ wr_pfeedid f @ to_le 4 act @ data)"

definition pfeed_key_pkg :: "byte list \<Rightarrow> pfeed \<Rightarrow> byte list" where
  "pfeed_key_pkg k x =
     (case x of (f, act, data) \<Rightarrow> to_le 4 (pkey_hsz + length data) @ k @ wr_pfeedid f @ to_le 4 act @ data)"

section \<open>Statements\<close>

text \<open>What \<^verbatim>\<open>snprintf\<close> leaves of a statement in \<^verbatim>\<open>sql_buf\<close>.\<close>

definition sql_cut :: "string \<Rightarrow> string" where
  "sql_cut t = take (sql_buf_max - 1) t"

definition table_args :: "nat \<Rightarrow> c_arg list" where
  "table_args dis = [N (get_dbid dis), N (get_tid dis)]"

definition pid_args :: "pfeedid \<Rightarrow> c_arg list" where
  "pid_args f = id_args (pf_src f) @ [N (pf_sender f), N (pf_target f), N (pf_magic f)]"

definition pinsert_fmt :: string where
  "pinsert_fmt = ''insert into db_newsfeed_%d.t_pass_newsfeed_%d (user_id,cmd_id,app_id,timestamp,magic,sender_id,target_id,p_magic,active_time,data) values (%u,%u,%u,%u,%lu,%u,%u,%u,%u,'' @
     quote # ''%s'' @ quote # '');''"

definition pupdate_fmt :: string where
  "pupdate_fmt = ''update db_newsfeed_%d.t_pass_newsfeed_%d set user_id=%u,cmd_id=%u,app_id=%u,timestamp=%u,magic=%lu,sender_id=%u,target_id=%u,p_magic=%u,active_time=%u,data='' @
     quote # ''%s'' @ quote # '' where user_id=%u and cmd_id=%u and app_id=%u and timestamp=%u and magic=%lu and sender_id=%u and target_id=%u and p_magic=%u''"

definition pwhere_fmt :: string where
  "pwhere_fmt = ''where user_id=%u and cmd_id=%u and app_id=%u and timestamp=%u and magic=%lu and sender_id=%u and target_id=%u and p_magic=%u''"

definition pdelete_fmt :: string where
  "pdelete_fmt = ''delete from db_newsfeed_%d.t_pass_newsfeed_%d '' @ pwhere_fmt"

definition pexists_fmt :: string where
  "pexists_fmt = ''select target_id from db_newsfeed_%d.t_pass_newsfeed_%d '' @ pwhere_fmt"

definition pselect_fmt :: string where
  "pselect_fmt = ''select user_id,cmd_id,app_id,timestamp,magic,sender_id,target_id,p_magic,active_time,data from db_newsfeed_%d.t_pass_newsfeed_%d '' @ pwhere_fmt"

definition pkey_data_fmt :: string where
  "pkey_data_fmt = ''select user_id, active_time, data from db_newsfeed_%d.t_pass_newsfeed_%d '' @ pwhere_fmt"

definition pkey_fmt :: string where
  "pkey_fmt = ''select id from db_newsfeed_%d.t_pass_newsfeed_%d '' @ pwhere_fmt @ '';''"

definition pinsert_sql :: "pfeedid \<Rightarrow> nat \<Rightarrow> string \<Rightarrow> string" where
  "pinsert_sql f act data = sprintf pinsert_fmt (table_args (pf_target f) @ pid_args f @ [N act, S data])"

definition pupdate_sql :: "pfeedid \<Rightarrow> pfeedid \<Rightarrow> nat \<Rightarrow> string \<Rightarrow> string" where
  "pupdate_sql old new act data =
     sprintf pupdate_fmt (table_args (pf_target new) @ pid_args new @ N act # S data # pid_args old)"

definition psql :: "string \<Rightarrow> pfeedid \<Rightarrow> string" where
  "psql fmt f = sprintf fmt (table_args (pf_target f) @ pid_args f)"

section \<open>insert, update, del, check_existed\<close>

text \<open>The data is escaped into a buffer of \<^verbatim>\<open>SQL_MAX_SZ\<close> bytes before its length is looked at.\<close>

definition with_escaped ::
  "'d mysql \<Rightarrow> byte list \<Rightarrow> (string \<Rightarrow> int \<times> 'd) \<Rightarrow> 'd \<Rightarrow> (int \<times> 'd) option" where
  "with_escaped sq data go d =
     (let e = sq_escape sq data
      in if length e \<ge> SQL_MAX_SZ then None
         else if length e \<ge> sql_buf_max then Some (-1, d)
         else Some (go e))"

definition pdb_insert :: "'d mysql \<Rightarrow> pfeed \<Rightarrow> 'd \<Rightarrow> (int \<times> 'd) option" where
  "pdb_insert sq x d =
     (case x of (f, act, data) \<Rightarrow>
        with_escaped sq data
          (\<lambda>e. case sq_exec sq (sql_cut (pinsert_sql f act e)) d of (n, d') \<Rightarrow> (if n \<le> 0 then -1 else 0, d')) d)"

definition pdb_update :: "'d mysql \<Rightarrow> pfeedid \<Rightarrow> pfeed \<Rightarrow> 'd \<Rightarrow> (int \<times> 'd) option" where
  "pdb_update sq old x d =
     (case x of (f, act, data) \<Rightarrow>
        if \<not> pfeedid_equal old f then Some (-1, d)
        else with_escaped sq data
          (\<lambda>e. case sq_exec sq (sql_cut (pupdate_sql old f act e)) d of (n, d') \<Rightarrow> (if n < 0 then -1 else 0, d')) d)"

definition pdb_del :: "'d mysql \<Rightarrow> pfeedid \<Rightarrow> 'd \<Rightarrow> int \<times> 'd" where
  "pdb_del sq f d =
     (case sq_exec sq (sql_cut (psql pdelete_fmt f)) d of (n, d') \<Rightarrow> (if n < 0 then -1 else 0, d'))"

definition pdb_check_existed :: "'d mysql \<Rightarrow> pfeedid \<Rightarrow> 'd \<Rightarrow> bool \<times> 'd" where
  "pdb_check_existed sq f d =
     (case sq_select sq (sql_cut (psql pexists_fmt f)) d of ((n, rows), d') \<Rightarrow> (n \<ge> 1, d'))"

section \<open>Fetching\<close>

text \<open>A row as a feed. A row with too few fields is read past its end.\<close>

definition prow_feed :: "bool \<Rightarrow> string list \<Rightarrow> pfeed option" where
  "prow_feed withdata r =
     (if length r < (if withdata then 10 else 9) then None
      else Some (\<lparr>pf_src = row_id r, pf_sender = strtou (r ! 5) mod 2 ^ 32, pf_target = strtou (r ! 6) mod 2 ^ 32,
                 pf_magic = strtou (r ! 7) mod 2 ^ 32\<rparr>,
               strtou (r ! 8) mod 2 ^ 32, if withdata then c_str (bytes (r ! 9)) else []))"

text \<open>The packages of rows; what does not fit is written before that is noticed.\<close>

fun build_pfeeds :: "(string list \<Rightarrow> pfeed option) \<Rightarrow> string list list \<Rightarrow> byte list option" where
  "build_pfeeds row [] = Some []"
| "build_pfeeds row (r # rs) =
     (case row r of
        None \<Rightarrow> None
      | Some x \<Rightarrow> map_option ((@) (pfeed_pkg x)) (build_pfeeds row rs))"

definition pdb_rows ::
  "'d mysql \<Rightarrow> (string list \<Rightarrow> pfeed option) \<Rightarrow> nat \<Rightarrow> string \<Rightarrow> 'd \<Rightarrow> ((int \<times> byte list) \<times> 'd) option" where
  "pdb_rows sq row room t d =
     (case sq_select sq t d of
        ((n, rows), d') \<Rightarrow>
          if n \<le> 0 then Some ((n, []), d')
          else if nat n > length rows then None
          else (case build_pfeeds row (take (nat n) rows) of
              None \<Rightarrow> None
            | Some b \<Rightarrow> if length b > room then None else Some ((n, b), d')))"

type_synonym pfeedid_list = "(pfeedid \<times> nat) list"

fun pdb_get_pkgs :: "'d mysql \<Rightarrow> nat \<Rightarrow> pfeedid_list \<Rightarrow> 'd \<Rightarrow> ((int \<times> byte list) option \<times> 'd) option" where
  "pdb_get_pkgs sq room [] d = Some (Some (0, []), d)"
| "pdb_get_pkgs sq room ((f, flag) # fs) d =
     (if flag \<noteq> F_NONE then pdb_get_pkgs sq room fs d
      else if \<not> get_db_conn sq (pf_target f) d then Some (None, d)
      else (case pdb_rows sq (prow_feed True) room (sql_cut (psql pselect_fmt f)) d of
          None \<Rightarrow> None
        | Some ((n, b), d1) \<Rightarrow>
            if n < 0 then Some (None, d1)
            else (case pdb_get_pkgs sq (room - length b) fs d1 of
                Some (Some (k, b2), d2) \<Rightarrow> Some (Some (n + k, b @ b2), d2)
              | r \<Rightarrow> r)))"

definition pfeedkey_bytes :: "nat \<Rightarrow> nat \<Rightarrow> byte list" where
  "pfeedkey_bytes dis key_id = to_le 1 (get_dbid dis) @ [0xFF] @ to_le 1 (get_tid dis) @ [0] @ to_le 4 key_id"

text \<open>The user of the feed is taken for the number of its row. What does not fit ends the fetch.\<close>

fun pdb_get_key_pkgs :: "'d mysql \<Rightarrow> nat \<Rightarrow> pfeedid_list \<Rightarrow> 'd \<Rightarrow> ((int \<times> byte list) option \<times> 'd) option" where
  "pdb_get_key_pkgs sq room [] d = Some (Some (0, []), d)"
| "pdb_get_key_pkgs sq room ((f, flag) # fs) d =
     (if flag \<noteq> F_NONE then pdb_get_key_pkgs sq room fs d
      else if \<not> get_db_conn sq (pf_target f) d then Some (None, d)
      else (case sq_select sq (sql_cut (psql pkey_data_fmt f)) d of
          ((n, rows), d1) \<Rightarrow>
            if n < 0 then Some (None, d1)
            else if n = 0 then pdb_get_key_pkgs sq room fs d1
            else (case rows of
                (a # b # c # r) # rs \<Rightarrow>
                  let p = pfeed_key_pkg (pfeedkey_bytes (pf_target f) (strtou a)) (f, strtou b mod 2 ^ 32, c_str (bytes c))
                  in if length p > room then Some (Some (0, []), d1)
                     else (case pdb_get_key_pkgs sq (room - length p) fs d1 of
                         Some (Some (k, b2), d2) \<Rightarrow> Some (Some (k + 1, p @ b2), d2)
                       | r \<Rightarrow> r)
              | _ \<Rightarrow> None)))"

definition pdb_get_key :: "'d mysql \<Rightarrow> pfeedid \<Rightarrow> 'd \<Rightarrow> ((int \<times> byte list option) \<times> 'd) option" where
  "pdb_get_key sq f d =
     (if \<not> get_db_conn sq (pf_target f) d then Some ((-1, None), d)
      else case sq_select sq (sql_cut (psql pkey_fmt f)) d of
          ((n, rows), d') \<Rightarrow>
            if n \<le> 0 then Some ((-1, None), d')
            else (case rows of
                (a # r) # rs \<Rightarrow> Some ((0, Some (pfeedkey_bytes (pf_target f) (strtou a))), d')
              | _ \<Rightarrow> None))"

section \<open>Lists by user, command and time\<close>

record pindex =
  px_flag :: nat
  px_mimi :: nat
  px_cmd_id :: nat
  px_app_id :: nat
  px_start :: nat
  px_prev :: nat

text \<open>The flags and the database are those of the first package for all of them.\<close>

definition pindex_sql :: "pindex \<Rightarrow> nat \<Rightarrow> pindex \<Rightarrow> string" where
  "pindex_sql first now p =
     sprintf ''select user_id,cmd_id,app_id,timestamp,magic,sender_id,target_id,p_magic,active_time %sfrom db_newsfeed_%d.t_pass_newsfeed_%d where target_id=%u''
       (S (if flag_bit (px_flag first) 2 then '',data '' else '' '') # table_args (px_mimi first) @ [N (px_mimi p)]) @
     (if flag_bit (px_flag first) 0 then sprintf '' and cmd_id = %u'' [N (px_cmd_id p)] else []) @
     (if flag_bit (px_flag first) 1 then sprintf '' and app_id = %u'' [N (px_app_id p)] else []) @
     sprintf '' and active_time < %u order by target_id, active_time desc limit %u;''
       [N (if px_start p = 0 then now mod 2 ^ 32 else px_start p), N (px_prev p)]"

text \<open>A package that is not in the request (\<open>None\<close>) is read when its turn comes.\<close>

fun pdb_get_indexs ::
  "'d mysql \<Rightarrow> nat \<Rightarrow> nat \<Rightarrow> pindex \<Rightarrow> pindex option list \<Rightarrow> 'd \<Rightarrow> ((int \<times> byte list) option \<times> 'd) option" where
  "pdb_get_indexs sq now room first [] d = Some (Some (0, []), d)"
| "pdb_get_indexs sq now room first (None # ps) d = None"
| "pdb_get_indexs sq now room first (Some p # ps) d =
     (if \<not> get_db_conn sq (px_mimi first) d then Some (None, d)
      else (case pdb_rows sq (prow_feed (flag_bit (px_flag first) 2)) room (pindex_sql first now p) d of
          None \<Rightarrow> None
        | Some ((n, b), d1) \<Rightarrow>
            if n < 0 then Some (None, d1)
            else (case pdb_get_indexs sq now (room - length b) first ps d1 of
                Some (Some (k, b2), d2) \<Rightarrow> Some (Some (n + k, b @ b2), d2)
              | r \<Rightarrow> r)))"

record pby_cmd =
  pc_flag :: nat
  pc_mimi :: nat
  pc_cmd_id :: nat
  pc_app_id :: nat
  pc_target :: nat

definition pby_cmd_sql :: "pby_cmd \<Rightarrow> string" where
  "pby_cmd_sql p =
     sprintf ''select app_id,timestamp,magic,p_magic,active_time %sfrom db_newsfeed_%d.t_pass_newsfeed_%d where target_id=%u and user_id=%u''
       (S (if flag_bit (pc_flag p) 2 then '',data '' else '' '') # table_args (pc_target p) @ [N (pc_target p), N (pc_mimi p)]) @
     (if flag_bit (pc_flag p) 0 then sprintf '' and cmd_id = %u'' [N (pc_cmd_id p)] else []) @
     (if flag_bit (pc_flag p) 1 then sprintf '' and app_id = %u'' [N (pc_app_id p)] else []) @
     (if flag_bit (pc_flag p) 3 then '' order by timestamp desc limit 1'' else [])"

text \<open>The command and the users of the feeds are those of the request, also when it did not ask for the
  command.\<close>

definition pby_cmd_row :: "pby_cmd \<Rightarrow> string list \<Rightarrow> pfeed option" where
  "pby_cmd_row p r =
     (if length r < (if flag_bit (pc_flag p) 2 then 6 else 5) then None
      else Some (\<lparr>pf_src = \<lparr>fid_mimi = pc_mimi p, fid_cmd_id = pc_cmd_id p, fid_app_id = strtou (r ! 0) mod 2 ^ 32,
                    fid_timestamp = strtou (r ! 1) mod 2 ^ 32, fid_magic = strtou (r ! 2)\<rparr>,
                  pf_sender = pc_mimi p, pf_target = pc_target p, pf_magic = strtou (r ! 3) mod 2 ^ 32\<rparr>,
               strtou (r ! 4) mod 2 ^ 32, if flag_bit (pc_flag p) 2 then c_str (bytes (r ! 5)) else []))"

definition pdb_get_by_cmd :: "'d mysql \<Rightarrow> nat \<Rightarrow> pby_cmd \<Rightarrow> 'd \<Rightarrow> ((int \<times> byte list) \<times> 'd) option" where
  "pdb_get_by_cmd sq room p d =
     (if \<not> get_db_conn sq (pc_target p) d then Some ((-1, []), d)
      else pdb_rows sq (pby_cmd_row p) room (pby_cmd_sql p) d)"

definition pcount_fmt :: string where
  "pcount_fmt = ''select count(*) from db_newsfeed_%d.t_pass_newsfeed_%d where target_id = %u and cmd_id = %u and app_id = %u''"

definition pcount_sql :: "nat \<Rightarrow> nat \<Rightarrow> nat \<Rightarrow> string" where
  "pcount_sql mimi cmd app = sprintf pcount_fmt (table_args mimi @ [N mimi, N cmd, N app])"

definition pdb_get_count :: "'d mysql \<Rightarrow> nat \<Rightarrow> nat \<Rightarrow> nat \<Rightarrow> 'd \<Rightarrow> ((int \<times> byte list) \<times> 'd) option" where
  "pdb_get_count sq mimi cmd app d =
     (if \<not> get_db_conn sq mimi d then Some ((-1, []), d)
      else case sq_select sq (pcount_sql mimi cmd app) d of
          ((n, rows), d') \<Rightarrow>
            if n < 0 then Some ((-1, []), d')
            else if n \<noteq> 1 then Some ((0, []), d')
            else (case rows of
                (a # r) # rs \<Rightarrow> Some ((1, to_le 4 (strtou a)), d')
              | _ \<Rightarrow> None))"

end
