(* ===== verification/PfeedsMemc.thy ===== *)
theory PfeedsMemc
  imports FeedsMemc PfeedsDb
begin

text \<open>
  The passive feeds of the storage service in memcached
  (\<^verbatim>\<open>feed/storage-serv/src/pfeeds_memcached.cpp\<close>). A value is the time of the last activity, four
  bytes, and the data.
\<close>

definition TIMESTAMP_SIZE :: nat where "TIMESTAMP_SIZE = 4"

definition gen_pfid_memkey :: "pfeedid \<Rightarrow> string" where
  "gen_pfid_memkey f = take (MEM_FEEDKEY_MAX - 2) (sprintf ''%x_%x_%x_%x_%lx_%x_%x_%x'' (pid_args f))"

definition pgenerate_keykey :: "pfeedid \<Rightarrow> string" where
  "pgenerate_keykey f = take (MEM_FEEDKEY_MAX - 2) (sprintf ''key_%x_%x_%x_%x_%lx_%x_%x_%x'' (pid_args f))"

definition pvalue :: "nat \<Rightarrow> byte list \<Rightarrow> byte list" where
  "pvalue act data = to_le TIMESTAMP_SIZE act @ data"

definition pmemc_add :: "'m memc \<Rightarrow> pfeed \<Rightarrow> 'm \<Rightarrow> int \<times> 'm" where
  "pmemc_add mm x m =
     (case x of (f, act, data) \<Rightarrow>
        (case mm_add mm (gen_pfid_memkey f) (pvalue act data) EXPIRE_TIME (pf_target f) m of
           (ok, m') \<Rightarrow> (if ok then 0 else -1, m')))"

definition pmemc_set :: "'m memc \<Rightarrow> pfeedid \<Rightarrow> byte list \<Rightarrow> 'm \<Rightarrow> int \<times> 'm" where
  "pmemc_set mm f v m =
     (case mm_set mm (gen_pfid_memkey f) v EXPIRE_TIME (pf_target f) m of (ok, m') \<Rightarrow> (if ok then 0 else -1, m'))"

definition pmemc_replace :: "'m memc \<Rightarrow> pfeedid \<Rightarrow> pfeed \<Rightarrow> 'm \<Rightarrow> int \<times> 'm" where
  "pmemc_replace mm old x m =
     (case x of (f, act, data) \<Rightarrow>
        (case (if pfeedid_equal old f then (True, m) else mm_delete mm (gen_pfid_memkey old) m) of
           (False, m1) \<Rightarrow> (-1, m1)
         | (True, m1) \<Rightarrow>
             (case mm_replace mm (gen_pfid_memkey f) (pvalue act data) EXPIRE_TIME (pf_target f) m1 of
                (ok, m') \<Rightarrow> (if ok then 0 else -1, m'))))"

definition pmemc_del :: "'m memc \<Rightarrow> pfeedid \<Rightarrow> 'm \<Rightarrow> int \<times> 'm" where
  "pmemc_del mm f m = (case mm_delete mm (gen_pfid_memkey f) m of (ok, m') \<Rightarrow> (if ok then 0 else -1, m'))"

definition pmemc_check_existed :: "'m memc \<Rightarrow> pfeedid \<Rightarrow> 'm \<Rightarrow> bool" where
  "pmemc_check_existed mm f m \<longleftrightarrow> mm_get mm m (gen_pfid_memkey f) \<noteq> None"

section \<open>Fetching\<close>

text \<open>The feed a fetched key belongs to; other than for feeds, the whole key is compared.\<close>

fun pmatch_key :: "string \<Rightarrow> pfeedid_list \<Rightarrow> (pfeedid \<times> pfeedid_list) option" where
  "pmatch_key k [] = None"
| "pmatch_key k ((f, flag) # fs) =
     (if k = gen_pfid_memkey f then Some (f, (f, F_MEM) # fs)
      else map_option (\<lambda>(g, fs'). (g, (f, flag) # fs')) (pmatch_key k fs))"

text \<open>A value shorter than its time is read past its end. A package that fills the room is an error, one
  that does not fit is written behind it. The list comes back marked, also after an error.\<close>

fun pfetch_pkgs ::
  "nat \<Rightarrow> (string \<times> byte list) list \<Rightarrow> pfeedid_list \<Rightarrow> ((int \<times> byte list) option \<times> pfeedid_list) option" where
  "pfetch_pkgs room [] fs = Some (Some (0, []), fs)"
| "pfetch_pkgs room ((k, v) # rs) fs =
     (case pmatch_key k fs of
        None \<Rightarrow> pfetch_pkgs room rs fs
      | Some (f, fs') \<Rightarrow>
          let p = pfeed_pkg (f, rd_le 0 4 v, drop TIMESTAMP_SIZE v)
          in if length v < TIMESTAMP_SIZE \<or> length p > room then None
             else if length p = room then Some (None, fs')
             else map_option (\<lambda>(r, fs2). (map_option (\<lambda>(n, b). (n + 1, p @ b)) r, fs2))
                    (pfetch_pkgs (room - length p) rs fs'))"

definition pmemc_get_pkgs ::
  "'m memc \<Rightarrow> nat \<Rightarrow> pfeedid list \<Rightarrow> 'm \<Rightarrow> ((int \<times> byte list) option \<times> pfeedid_list) option" where
  "pmemc_get_pkgs mm room ids m =
     (let fs = map (\<lambda>f. (f, F_NONE)) ids
      in case mm_mget mm m (map gen_pfid_memkey ids) of
          None \<Rightarrow> Some (None, fs)
        | Some rs \<Rightarrow> pfetch_pkgs room rs fs)"

section \<open>Feeds with their keys\<close>

definition pmemc_set_key :: "'m memc \<Rightarrow> pfeedid \<Rightarrow> byte list \<Rightarrow> 'm \<Rightarrow> int \<times> 'm" where
  "pmemc_set_key mm f key m =
     (case mm_set mm (pgenerate_keykey f) key EXPIRE_TIME (pf_target f) m of (ok, m') \<Rightarrow> (if ok then 0 else -1, m'))"

definition pmemc_get_key ::
  "'d mysql \<Rightarrow> 'm memc \<Rightarrow> pfeedid \<Rightarrow> 'd \<times> 'm \<Rightarrow> (byte list option \<times> 'd \<times> 'm) option" where
  "pmemc_get_key sq mm f st =
     (let cached = (case mm_get mm (snd st) (pgenerate_keykey f) of
            Some (v, flags) \<Rightarrow> if length v = 8 then Some v else None
          | None \<Rightarrow> None)
      in case cached of
          Some v \<Rightarrow> Some (Some v, st)
        | None \<Rightarrow>
            (case pdb_get_key sq f (fst st) of
               None \<Rightarrow> None
             | Some ((r, None), d') \<Rightarrow> Some (None, d', snd st)
             | Some ((r, Some k), d') \<Rightarrow> Some (Some k, d', snd (pmemc_set_key mm f k (snd st)))))"

text \<open>Packages that do not fit are only logged.\<close>

fun pfetch_items ::
  "nat \<Rightarrow> (string \<times> byte list) list \<Rightarrow> pfeedid_list \<Rightarrow> (pfeed list \<times> pfeedid_list) option" where
  "pfetch_items room [] fs = Some ([], fs)"
| "pfetch_items room ((k, v) # rs) fs =
     (case pmatch_key k fs of
        None \<Rightarrow> pfetch_items room rs fs
      | Some (f, fs') \<Rightarrow>
          let data = drop TIMESTAMP_SIZE v; n = pkey_hsz + length data
          in if length v < TIMESTAMP_SIZE \<or> n > room then None
             else map_option (\<lambda>(xs, fs2). ((f, rd_le 0 4 v, data) # xs, fs2)) (pfetch_items (room - n) rs fs'))"

text \<open>The keys are put in afterwards; the place of a key that was not found keeps what the buffer \<open>old\<close>
  held.\<close>

fun pput_keys ::
  "'d mysql \<Rightarrow> 'm memc \<Rightarrow> byte list \<Rightarrow> pfeed list \<Rightarrow> 'd \<times> 'm \<Rightarrow> (byte list \<times> 'd \<times> 'm) option" where
  "pput_keys sq mm old [] st = Some ([], st)"
| "pput_keys sq mm old ((f, act, data) # xs) st =
     (case pmemc_get_key sq mm f st of
        None \<Rightarrow> None
      | Some (k, st1) \<Rightarrow>
          map_option
            (\<lambda>(b, st2). (pfeed_key_pkg (case k of Some k \<Rightarrow> k | None \<Rightarrow> take 8 (drop 4 old)) (f, act, data) @ b, st2))
            (pput_keys sq mm (drop (pkey_hsz + length data) old) xs st1))"

definition pmemc_get_key_pkgs ::
  "'d mysql \<Rightarrow> 'm memc \<Rightarrow> byte list \<Rightarrow> pfeedid list \<Rightarrow> 'd \<times> 'm \<Rightarrow>
   (((int \<times> byte list) option \<times> pfeedid_list) \<times> 'd \<times> 'm) option" where
  "pmemc_get_key_pkgs sq mm old ids st =
     (let fs = map (\<lambda>f. (f, F_NONE)) ids
      in case mm_mget mm (snd st) (map gen_pfid_memkey ids) of
          None \<Rightarrow> Some ((None, fs), st)
        | Some rs \<Rightarrow>
            (case pfetch_items (length old) rs fs of
               None \<Rightarrow> None
             | Some (xs, fs') \<Rightarrow>
                 map_option (\<lambda>(b, st'). ((Some (int (length xs), b), fs'), st')) (pput_keys sq mm old xs st)))"

end
