(* ===== verification/PfeedsStore.thy ===== *)
theory PfeedsStore
  imports FeedsStore PfeedsMemc
begin

text \<open>
  The operations on passive feeds of the storage service (the functions of
  \<^verbatim>\<open>feed/storage-serv/src/feeds_store.cpp\<close> with \<^verbatim>\<open>_p\<close> in their names), as for feeds.
\<close>

section \<open>Packages\<close>

definition pfeedid_at :: "nat \<Rightarrow> byte list \<Rightarrow> pfeedid option" where
  "pfeedid_at off m = (if off + pfeedid_sz \<le> length m then Some (rd_pfeedid (drop off m)) else None)"

text \<open>A feed in the request; its length is taken from the request and not looked at.\<close>

definition pfeed_at :: "nat \<Rightarrow> byte list \<Rightarrow> pfeed option" where
  "pfeed_at off m =
     (let len = rd_le off 4 m
      in if length m < off + P_FEED_HEAD_SZ \<or> len < P_FEED_HEAD_SZ \<or> length m < off + len then None
         else Some (rd_pfeedid (drop (off + 4) m), rd_le (off + 38) 4 m,
                    take (len - P_FEED_HEAD_SZ) (drop (off + P_FEED_HEAD_SZ) m)))"

fun pfeedids_at :: "nat \<Rightarrow> nat \<Rightarrow> byte list \<Rightarrow> pfeedid list option" where
  "pfeedids_at off 0 m = Some []"
| "pfeedids_at off (Suc n) m =
     (case pfeedid_at off m of
        None \<Rightarrow> None
      | Some f \<Rightarrow> map_option (Cons f) (pfeedids_at (off + pfeedid_sz) n m))"

section \<open>insert_p, update_p, del_p\<close>

definition store_insert_p ::
  "('d, 'm) store_env \<Rightarrow> nat \<Rightarrow> byte list \<Rightarrow> 'd \<times> 'm \<Rightarrow> ('d, 'm) store_result" where
  "store_insert_p env units m st =
     (let sq = se_sql env
      in if units \<noteq> 1 then simple RES_OP_ERR_UNITS st
         else case pfeedid_at 12 m of
             None \<Rightarrow> None
           | Some f \<Rightarrow>
               if \<not> get_db_conn sq (pf_target f) (fst st) then simple RES_OP_ERROR st
               else (case pdb_check_existed sq f (fst st) of
                   (True, d1) \<Rightarrow> simple RES_OP_FEEDID_DUP (d1, snd st)
                 | (False, d1) \<Rightarrow>
                     (case Option.bind (pfeed_at req_hsz m) (\<lambda>x. pdb_insert sq x d1) of
                        None \<Rightarrow> None
                      | Some (r, d2) \<Rightarrow> simple (if r \<noteq> 0 then RES_OP_ERROR else RES_OP_SUCCESS) (d2, snd st))))"

definition store_update_p ::
  "('d, 'm) store_env \<Rightarrow> nat \<Rightarrow> byte list \<Rightarrow> 'd \<times> 'm \<Rightarrow> ('d, 'm) store_result" where
  "store_update_p env units m st =
     (let sq = se_sql env; mm = se_mem env; feed = req_hsz + pfeedid_sz
      in if units \<noteq> 1 then simple RES_OP_ERR_UNITS st
         else case (pfeedid_at req_hsz m, pfeedid_at (feed + 4) m) of
             (Some old, Some new) \<Rightarrow>
               if \<not> get_db_conn sq (pf_target new) (fst st) then simple RES_OP_ERROR st
               else if \<not> pfeedid_equal old new then simple RES_OP_ERROR st
               else (case pfeed_at feed m of
                   None \<Rightarrow> None
                 | Some x \<Rightarrow>
                     (case pdb_update sq old x (fst st) of
                        None \<Rightarrow> None
                      | Some (r, d1) \<Rightarrow>
                          if r \<noteq> 0 then simple RES_OP_ERROR (d1, snd st)
                          else simple RES_OP_SUCCESS
                            (d1, if mm_handle mm (snd st) then snd (pmemc_replace mm old x (snd st)) else snd st)))
           | _ \<Rightarrow> None)"

definition store_del_p ::
  "('d, 'm) store_env \<Rightarrow> nat \<Rightarrow> byte list \<Rightarrow> 'd \<times> 'm \<Rightarrow> ('d, 'm) store_result" where
  "store_del_p env units m st =
     (let sq = se_sql env; mm = se_mem env
      in if units \<noteq> 1 then simple RES_OP_ERR_UNITS st
         else case pfeedid_at req_hsz m of
             None \<Rightarrow> None
           | Some f \<Rightarrow>
               if \<not> get_db_conn sq (pf_target f) (fst st) then simple RES_OP_ERROR st
               else (case pdb_del sq f (fst st) of
                   (r, d1) \<Rightarrow>
                     if r \<noteq> 0 then simple RES_OP_ERROR (d1, snd st)
                     else simple RES_OP_SUCCESS
                       (d1, if mm_handle mm (snd st) then snd (pmemc_del mm f (snd st)) else snd st)))"

section \<open>get_p_pkgs, get_p_key_pkgs\<close>

text \<open>Packages one behind the other, each put into memcached with its time.\<close>

fun cache_pfeeds :: "'m memc \<Rightarrow> nat \<Rightarrow> byte list \<Rightarrow> 'm \<Rightarrow> 'm" where
  "cache_pfeeds mm 0 b m = m"
| "cache_pfeeds mm (Suc n) b m =
     (let len = rd_le 0 4 b
      in cache_pfeeds mm n (drop len b)
           (snd (pmemc_set mm (rd_pfeedid (drop 4 b)) (take (len - P_FEED_HEAD_SZ + TIMESTAMP_SIZE) (drop 38 b)) m)))"

definition store_get_p_pkgs ::
  "('d, 'm) store_env \<Rightarrow> nat \<Rightarrow> byte list \<Rightarrow> 'd \<times> 'm \<Rightarrow> ('d, 'm) store_result" where
  "store_get_p_pkgs env units m st =
     (let sq = se_sql env; mm = se_mem env; room = MAX_PACKAGE_LEN - res_hsz
      in case pfeedids_at req_hsz units m of
          None \<Rightarrow> None
        | Some ids \<Rightarrow>
            (let fs = map (\<lambda>f. (f, F_NONE)) ids
             in case (if mm_handle mm (snd st) then pmemc_get_pkgs mm room ids (snd st) else Some (Some (0, []), fs)) of
                 None \<Rightarrow> None
               | Some (got, fs1) \<Rightarrow>
                   (let mem = (case got of Some r \<Rightarrow> r | None \<Rightarrow> (0, []));
                        fs2 = (case got of Some r \<Rightarrow> fs1 | None \<Rightarrow> fs)
                    in if fst mem = int units then Some (store_response RES_OP_SUCCESS (nat (fst mem)) (snd mem), st)
                       else (case pdb_get_pkgs sq (room - length (snd mem)) fs2 (fst st) of
                           None \<Rightarrow> None
                         | Some (None, d1) \<Rightarrow> simple RES_OP_ERROR (d1, snd st)
                         | Some (Some (k, b), d1) \<Rightarrow>
                             Some (store_response RES_OP_SUCCESS (nat (fst mem + k)) (snd mem @ b),
                               d1, if mm_handle mm (snd st) then cache_pfeeds mm (nat k) b (snd st) else snd st)))))"

fun cache_pkeys :: "'m memc \<Rightarrow> nat \<Rightarrow> byte list \<Rightarrow> 'm \<Rightarrow> 'm" where
  "cache_pkeys mm 0 b m = m"
| "cache_pkeys mm (Suc n) b m =
     (let len = rd_le 0 4 b; f = rd_pfeedid (drop 12 b)
      in cache_pkeys mm n (drop len b)
           (snd (pmemc_set_key mm f (take 8 (drop 4 b))
             (snd (pmemc_set mm f (take (len - pkey_hsz + TIMESTAMP_SIZE) (drop 46 b)) m)))))"

definition store_get_p_key_pkgs ::
  "('d, 'm) store_env \<Rightarrow> byte list \<Rightarrow> nat \<Rightarrow> byte list \<Rightarrow> 'd \<times> 'm \<Rightarrow> ('d, 'm) store_result" where
  "store_get_p_key_pkgs env old units m st =
     (let sq = se_sql env; mm = se_mem env; room = MAX_PACKAGE_LEN - res_hsz
      in case pfeedids_at req_hsz units m of
          None \<Rightarrow> None
        | Some ids \<Rightarrow>
            (let fs = map (\<lambda>f. (f, F_NONE)) ids
             in case (if mm_handle mm (snd st) then pmemc_get_key_pkgs sq mm (drop res_hsz old) ids st
                      else Some ((Some (0, []), fs), st)) of
                 None \<Rightarrow> None
               | Some ((got, fs1), st1) \<Rightarrow>
                   (let mem = (case got of Some r \<Rightarrow> r | None \<Rightarrow> (0, []))
                    in if fst mem = int units then Some (store_response RES_OP_SUCCESS (nat (fst mem)) (snd mem), st1)
                       else (case pdb_get_key_pkgs sq (room - length (snd mem)) fs1 (fst st1) of
                           None \<Rightarrow> None
                         | Some (None, d2) \<Rightarrow> simple RES_OP_ERROR (d2, snd st1)
                         | Some (Some (k, b), d2) \<Rightarrow>
                             Some (store_response RES_OP_SUCCESS (nat (fst mem + k)) (snd mem @ b),
                               d2, if mm_handle mm (snd st1) then cache_pkeys mm (nat k) b (snd st1) else snd st1)))))"

section \<open>get_p_nindexs, get_p_feedid_by_cmdid_pkgs, get_p_feedcnt\<close>

definition pindex_sz :: nat where "pindex_sz = 20"

definition pindex_at :: "nat \<Rightarrow> byte list \<Rightarrow> pindex option" where
  "pindex_at off m =
     (if off + pindex_sz \<le> length m
      then Some \<lparr>px_flag = rd_le off 2 m, px_mimi = rd_le (off + 2) 4 m, px_cmd_id = rd_le (off + 6) 2 m,
                 px_app_id = rd_le (off + 8) 4 m, px_start = rd_le (off + 12) 4 m, px_prev = rd_le (off + 16) 4 m\<rparr>
      else None)"

definition store_get_p_nindexs ::
  "('d, 'm) store_env \<Rightarrow> nat \<Rightarrow> nat \<Rightarrow> byte list \<Rightarrow> 'd \<times> 'm \<Rightarrow> ('d, 'm) store_result" where
  "store_get_p_nindexs env now units m st =
     (let ps = map (\<lambda>i. pindex_at (req_hsz + i * pindex_sz) m) [0..<units]
      in if units > MAX_ALLOW_UNITS then simple RES_OP_ERROR st
         else case ps of
             [] \<Rightarrow> Some (store_response RES_OP_SUCCESS 0 [], st)
           | None # _ \<Rightarrow> None
           | Some first # _ \<Rightarrow>
               (case pdb_get_indexs (se_sql env) now (MAX_PACKAGE_LEN - res_hsz) first ps (fst st) of
                  None \<Rightarrow> None
                | Some (None, d1) \<Rightarrow> simple RES_OP_ERROR (d1, snd st)
                | Some (Some (k, b), d1) \<Rightarrow> Some (store_response RES_OP_SUCCESS (nat k) b, d1, snd st)))"

definition pby_cmd_at :: "nat \<Rightarrow> byte list \<Rightarrow> pby_cmd option" where
  "pby_cmd_at off m =
     (if off + 16 \<le> length m
      then Some \<lparr>pc_flag = rd_le off 2 m, pc_mimi = rd_le (off + 2) 4 m, pc_cmd_id = rd_le (off + 6) 2 m,
                 pc_app_id = rd_le (off + 8) 4 m, pc_target = rd_le (off + 12) 4 m\<rparr>
      else None)"

text \<open>The rows or the error of a fetch as a response.\<close>

definition rows_response :: "(int \<times> byte list) \<times> 'd \<Rightarrow> 'm \<Rightarrow> byte list \<times> 'd \<times> 'm" where
  "rows_response r m =
     (case r of ((n, b), d1) \<Rightarrow>
        (if n < 0 then build_simple_msg RES_OP_ERROR else store_response RES_OP_SUCCESS (nat n) b, d1, m))"

definition store_get_p_by_cmd ::
  "('d, 'm) store_env \<Rightarrow> nat \<Rightarrow> byte list \<Rightarrow> 'd \<times> 'm \<Rightarrow> ('d, 'm) store_result" where
  "store_get_p_by_cmd env units m st =
     (if units \<noteq> 1 then simple RES_OP_ERR_UNITS st
      else case pby_cmd_at req_hsz m of
          None \<Rightarrow> None
        | Some p \<Rightarrow>
            map_option (\<lambda>r. rows_response r (snd st))
              (pdb_get_by_cmd (se_sql env) (MAX_PACKAGE_LEN - res_hsz) p (fst st)))"

definition store_get_p_feedcnt ::
  "('d, 'm) store_env \<Rightarrow> nat \<Rightarrow> byte list \<Rightarrow> 'd \<times> 'm \<Rightarrow> ('d, 'm) store_result" where
  "store_get_p_feedcnt env units m st =
     (if units \<noteq> 1 then simple RES_OP_ERR_UNITS st
      else if length m < req_hsz + 10 then None
      else map_option (\<lambda>r. rows_response r (snd st))
             (pdb_get_count (se_sql env) (rd_le req_hsz 4 m) (rd_le (req_hsz + 4) 2 m) (rd_le (req_hsz + 6) 4 m) (fst st)))"

end
