(* ===== verification/PstoreSpec.thy ===== *)
theory PstoreSpec
  imports PfeedsStore StoreSpec
begin

text \<open>
  What the storage service promises for passive feeds: \<^verbatim>\<open>insert_p\<close>, \<^verbatim>\<open>update_p\<close> and \<^verbatim>\<open>del_p\<close> are
  operations on the rows of the tables, and memcached holds nothing but values of rows.
\<close>

section \<open>Rows and statements\<close>

definition prow_ok :: "pfeed \<Rightarrow> bool" where
  "prow_ok x \<longleftrightarrow> pfeedid_ok (fst x) \<and> fst (snd x) < 2 ^ 32 \<and> text_ok (snd (snd x))"

definition prow_row :: "pfeed \<Rightarrow> string list" where
  "prow_row x =
     (case x of (f, act, bs) \<Rightarrow>
        id_row (pf_src f) @ [dec (pf_sender f), dec (pf_target f), dec (pf_magic f), dec act, chars bs])"

definition prenew :: "pfeed \<Rightarrow> pfeed \<Rightarrow> pfeed" where
  "prenew x y = (if fst y = fst x then x else y)"

lemma prow_feed_row:
  assumes "prow_ok x"
  shows "prow_feed True (prow_row x) = Some x"
proof -
  obtain f act bs where x: "x = (f, act, bs)" by (cases x) auto
  have i: "row_id (prow_row x) = pf_src f"
    using assms row_id_row [of "pf_src f"] by (simp add: x prow_row_def prow_ok_def pfeedid_ok_def)
  have b: "strtou (dec n) mod 4294967296 = n" if "n < 4294967296" for n using that by (simp add: strtou_dec)
  have "prow_row x ! 5 = dec (pf_sender f)" "prow_row x ! 6 = dec (pf_target f)" "prow_row x ! 7 = dec (pf_magic f)"
    "prow_row x ! 8 = dec act" "prow_row x ! 9 = chars bs" "length (prow_row x) = 10"
    by (simp_all add: x prow_row_def id_row_def nth_append)
  with i assms show ?thesis
    by (cases f) (simp add: prow_feed_def x prow_ok_def pfeedid_ok_def b text_ok_c_str)
qed

lemma build_prows:
  "\<forall>x \<in> set ps. prow_ok x \<Longrightarrow>
   build_pfeeds (prow_feed True) (map prow_row ps) = Some (concat (map pfeed_pkg ps))"
  by (induction ps) (simp_all add: prow_feed_row)

definition pmysql_ok :: "'d mysql \<Rightarrow> ('d \<Rightarrow> pfeed list) \<Rightarrow> bool" where
  "pmysql_ok sq P \<longleftrightarrow>
     (\<forall>f act bs. prow_ok (f, act, bs) \<longrightarrow>
        changes_by sq P (pinsert_sql f act (sq_escape sq bs)) (\<lambda>ps. ps @ [(f, act, bs)]) \<and>
        (\<forall>d. fst (sq_exec sq (pinsert_sql f act (sq_escape sq bs)) d) \<noteq> 0) \<and>
        changes_by sq P (pupdate_sql f f act (sq_escape sq bs)) (map (prenew (f, act, bs)))) \<and>
     (\<forall>f. pfeedid_ok f \<longrightarrow>
        changes_by sq P (psql pdelete_fmt f) (filter (\<lambda>x. fst x \<noteq> f)) \<and>
        answers sq P (psql pexists_fmt f) (\<lambda>ps rows. length rows = length (filter (\<lambda>x. fst x = f) ps)) \<and>
        answers sq P (psql pselect_fmt f) (\<lambda>ps rows. rows = map prow_row (filter (\<lambda>x. fst x = f) ps))) \<and>
     (\<forall>bs. length (sq_escape sq bs) \<le> 2 * length bs + 1)"

lemma pmysql_okD:
  assumes "pmysql_ok sq P"
  shows "prow_ok (f, act, bs) \<Longrightarrow>
      changes_by sq P (pinsert_sql f act (sq_escape sq bs)) (\<lambda>ps. ps @ [(f, act, bs)])"
    "prow_ok (f, act, bs) \<Longrightarrow> fst (sq_exec sq (pinsert_sql f act (sq_escape sq bs)) d) \<noteq> 0"
    "prow_ok (f, act, bs) \<Longrightarrow>
      changes_by sq P (pupdate_sql f f act (sq_escape sq bs)) (map (prenew (f, act, bs)))"
    "pfeedid_ok f \<Longrightarrow> changes_by sq P (psql pdelete_fmt f) (filter (\<lambda>x. fst x \<noteq> f))"
    "pfeedid_ok f \<Longrightarrow>
      answers sq P (psql pexists_fmt f) (\<lambda>ps rows. length rows = length (filter (\<lambda>x. fst x = f) ps))"
    "pfeedid_ok f \<Longrightarrow>
      answers sq P (psql pselect_fmt f) (\<lambda>ps rows. rows = map prow_row (filter (\<lambda>x. fst x = f) ps))"
    "length (sq_escape sq bs) \<le> 2 * length bs + 1"
  using assms unfolding pmysql_ok_def by blast+

section \<open>Statements fit their buffer\<close>

text \<open>A text is no longer than its format and its arguments.\<close>

definition arg_size :: "c_arg \<Rightarrow> nat" where
  "arg_size a = (case a of N n \<Rightarrow> 20 | S s \<Rightarrow> length s)"

definition arg_fits :: "c_arg \<Rightarrow> bool" where
  "arg_fits a \<longleftrightarrow> (case a of N n \<Rightarrow> n < 2 ^ 64 | S s \<Rightarrow> True)"

lemma length_put_arg:
  assumes "put_arg k a = Some t" "arg_fits a"
  shows "length t \<le> arg_size a"
proof (cases a)
  case (N n)
  then have "length (dec n) \<le> 20" "length (hex n) \<le> 16" using assms(2) dec_short(3) hex_short(3) by (simp_all add: arg_fits_def)
  with N assms(1) show ?thesis by (auto simp: put_arg_def arg_size_def split: conv.splits)
next
  case (S s)
  with assms(1) show ?thesis by (auto simp: put_arg_def arg_size_def split: conv.splits)
qed

lemma length_format:
  "c_format f args = Some t \<Longrightarrow> \<forall>a \<in> set args. arg_fits a \<Longrightarrow> length t \<le> length f + sum_list (map arg_size args)"
proof (induction f args arbitrary: t rule: c_format.induct)
  case (2 c f args)
  show ?case
  proof (cases "c = CHR ''%''")
    case False
    with 2 show ?thesis by force
  next
    case True
    with 2(3) obtain k r a as s u where c: "conv f = Some (k, r)" "args = a # as" "put_arg k a = Some s"
      "c_format r as = Some u" "t = s @ u"
      by (auto split: option.splits list.splits)
    have "length u \<le> length r + sum_list (map arg_size as)" using 2(2) c True 2(4) by simp
    moreover have "length s \<le> arg_size a" using length_put_arg c 2(4) by simp
    moreover have "length r < length f" using conv_length c(1) by simp
    ultimately show ?thesis using c by simp
  qed
qed simp

lemma length_sprintf:
  "\<forall>a \<in> set args. arg_fits a \<Longrightarrow> length (sprintf f args) \<le> length f + sum_list (map arg_size args)"
  using length_format by (auto simp: sprintf_def split: option.splits)

lemma sql_cut_id: "length t < sql_buf_max \<Longrightarrow> sql_cut t = t"
  by (simp add: sql_cut_def)

lemma pid_args_fit:
  assumes "pfeedid_ok f"
  shows "\<forall>a \<in> set (table_args (pf_target f) @ pid_args f). arg_fits a"
    "sum_list (map arg_size (table_args (pf_target f) @ pid_args f)) = 200"
proof -
  have "get_dbid (pf_target f) < 100" "get_tid (pf_target f) < 100" by (auto simp: get_dbid_def get_tid_def)
  with assms show "\<forall>a \<in> set (table_args (pf_target f) @ pid_args f). arg_fits a"
    by (simp add: table_args_def pid_args_def id_args_def arg_fits_def pfeedid_ok_def feedid_ok_def)
  show "sum_list (map arg_size (table_args (pf_target f) @ pid_args f)) = 200"
    by (simp add: table_args_def pid_args_def id_args_def arg_size_def)
qed

lemma psql_fits:
  assumes "pfeedid_ok f"
  shows "sql_cut (psql pdelete_fmt f) = psql pdelete_fmt f" "sql_cut (psql pexists_fmt f) = psql pexists_fmt f"
    "sql_cut (psql pselect_fmt f) = psql pselect_fmt f"
  using length_sprintf [OF pid_args_fit(1) [OF assms], of pdelete_fmt]
    length_sprintf [OF pid_args_fit(1) [OF assms], of pexists_fmt]
    length_sprintf [OF pid_args_fit(1) [OF assms], of pselect_fmt]
  unfolding pid_args_fit(2) [OF assms]
  by (auto intro!: sql_cut_id simp: psql_def pdelete_fmt_def pexists_fmt_def pselect_fmt_def pwhere_fmt_def
      sql_buf_max_def SQL_MAX_SZ_def)

lemma pchange_fits:
  assumes "pfeedid_ok f" "act < 2 ^ 32" "length e < 200000"
  shows "sql_cut (pinsert_sql f act e) = pinsert_sql f act e" "sql_cut (pupdate_sql f f act e) = pupdate_sql f f act e"
proof -
  have fit: "\<forall>a \<in> set (table_args (pf_target f) @ pid_args f @ [N act, S e]). arg_fits a"
    "\<forall>a \<in> set (table_args (pf_target f) @ pid_args f @ N act # S e # pid_args f). arg_fits a"
    using pid_args_fit(1) [OF assms(1)] assms(2) by (auto simp: arg_fits_def)
  have size: "sum_list (map arg_size (table_args (pf_target f) @ pid_args f @ [N act, S e])) < 210000"
    "sum_list (map arg_size (table_args (pf_target f) @ pid_args f @ N act # S e # pid_args f)) < 210000"
    using assms(3) by (simp_all add: table_args_def pid_args_def id_args_def arg_size_def)
  show "sql_cut (pinsert_sql f act e) = pinsert_sql f act e"
    using length_sprintf [OF fit(1), of pinsert_fmt] size(1)
    by (auto intro!: sql_cut_id simp: pinsert_sql_def pinsert_fmt_def sql_buf_max_def SQL_MAX_SZ_def)
  show "sql_cut (pupdate_sql f f act e) = pupdate_sql f f act e"
    using length_sprintf [OF fit(2), of pupdate_fmt] size(2)
    by (auto intro!: sql_cut_id simp: pupdate_sql_def pupdate_fmt_def sql_buf_max_def SQL_MAX_SZ_def)
qed

section \<open>Keys of memcached\<close>

definition pkey_fmt4 :: string where "pkey_fmt4 = ''%x_%x_%x_%x_%lx_%x_%x_%x''"

lemma pid_hex_short:
  assumes "pfeedid_ok f"
  shows "length (hex (fid_mimi (pf_src f))) \<le> 8" "length (hex (fid_cmd_id (pf_src f))) \<le> 4"
    "length (hex (fid_app_id (pf_src f))) \<le> 8" "length (hex (fid_timestamp (pf_src f))) \<le> 8"
    "length (hex (fid_magic (pf_src f))) \<le> 16" "length (hex (pf_sender f)) \<le> 8"
    "length (hex (pf_target f)) \<le> 8" "length (hex (pf_magic f)) \<le> 8"
  using assms hex_short by (auto simp: pfeedid_ok_def feedid_ok_def)

lemma pkey_text:
  assumes "pfeedid_ok f"
  shows "gen_pfid_memkey f = sprintf pkey_fmt4 (pid_args f)"
    "pgenerate_keykey f = sprintf (''key_'' @ pkey_fmt4) (pid_args f)"
  using pid_hex_short [OF assms]
  by (simp_all add: gen_pfid_memkey_def pgenerate_keykey_def MEM_FEEDKEY_MAX_def sprintf_def pid_args_def id_args_def pkey_fmt4_def)

lemma pkey_scan:
  assumes "pfeedid_ok f"
  shows "c_scan pkey_fmt4 (gen_pfid_memkey f) = Some (pid_args f)"
  unfolding pkey_text [OF assms] pkey_fmt4_def
  by (rule sprintf_scan) (simp_all add: pid_args_def id_args_def arg_clean_def is_xdigit_def is_digit_def)

lemma pid_args_inj: "pid_args f = pid_args g \<Longrightarrow> f = g"
  by (cases f; cases g; cases "pf_src f"; cases "pf_src g") (auto simp: pid_args_def id_args_def)

lemma pkey_inj: "pfeedid_ok f \<Longrightarrow> pfeedid_ok g \<Longrightarrow> gen_pfid_memkey f = gen_pfid_memkey g \<Longrightarrow> f = g"
  using pkey_scan [of f] pkey_scan [of g] pid_args_inj by simp

interpretation pfeeds: cached_table gen_pfid_memkey pfeedid_ok pf_target
  by unfold_locales (rule pkey_inj)

text \<open>The keys of feeds and of passive feeds differ in the number of their parts.\<close>

lemma hex_no_line: "CHR ''_'' \<notin> set (hex n)"
  using hex_digits_ok [of "CHR ''_''" n] by (auto simp: is_xdigit_def is_digit_def)

lemma count_hex: "count_list (hex n) CHR ''_'' = 0"
  using hex_no_line by (simp add: count_list_0_iff)

lemma pkey_differs:
  assumes "feedid_ok f" "pfeedid_ok g"
  shows "gen_pfid_memkey g \<noteq> generate_feedkey f"
proof -
  have "count_list (generate_feedkey f) CHR ''_'' = 4" "count_list (gen_pfid_memkey g) CHR ''_'' = 7"
    by (simp_all add: feedkey_text [OF assms(1)] pkey_text [OF assms(2)] sprintf_def id_args_def pid_args_def
        pkey_fmt4_def count_hex)
  then show ?thesis by auto
qed

section \<open>The invariant\<close>

definition pvals :: "pfeed list \<Rightarrow> (pfeedid \<times> byte list) set" where
  "pvals ps = (\<lambda>x. (fst x, pvalue (fst (snd x)) (snd (snd x)))) ` set ps"

definition pstore_inv :: "('d \<Rightarrow> pfeed list) \<Rightarrow> ('m \<Rightarrow> memc_map) \<Rightarrow> 'd \<times> 'm \<Rightarrow> bool" where
  "pstore_inv P C st \<longleftrightarrow>
     (\<forall>x \<in> set (P (fst st)). prow_ok x) \<and>
     caches gen_pfid_memkey pfeedid_ok pf_target (pvals (P (fst st))) (C (snd st))"

lemma pstore_inv_db: "pstore_inv P C (d, m) \<Longrightarrow> P d' = P d \<Longrightarrow> pstore_inv P C (d', m)"
  by (simp add: pstore_inv_def)

definition pstore_world :: "('d, 'm) store_env \<Rightarrow> ('d \<Rightarrow> pfeed list) \<Rightarrow> ('m \<Rightarrow> memc_map) \<Rightarrow> bool" where
  "pstore_world env P C \<longleftrightarrow> pmysql_ok (se_sql env) P \<and> selects_up (se_sql env) \<and> memc_ok (se_mem env) C"

lemma pstore_worldD:
  assumes "pstore_world env P C"
  shows "pmysql_ok (se_sql env) P" "selects_up (se_sql env)" "memc_ok (se_mem env) C" "mm_handle (se_mem env) m"
  using assms memc_okD(1) by (auto simp: pstore_world_def)

section \<open>The operations on rows\<close>

definition pspec_insert :: "pfeed \<Rightarrow> pfeed list \<Rightarrow> nat \<times> pfeed list" where
  "pspec_insert x ps =
     (if \<exists>y \<in> set ps. fst y = fst x then (RES_OP_FEEDID_DUP, ps) else (RES_OP_SUCCESS, ps @ [x]))"

definition pspec_update :: "pfeedid \<Rightarrow> pfeed \<Rightarrow> pfeed list \<Rightarrow> nat \<times> pfeed list" where
  "pspec_update old x ps = (if old = fst x then (RES_OP_SUCCESS, map (prenew x) ps) else (RES_OP_ERROR, ps))"

definition pspec_del :: "pfeedid \<Rightarrow> pfeed list \<Rightarrow> nat \<times> pfeed list" where
  "pspec_del f ps = (RES_OP_SUCCESS, filter (\<lambda>x. fst x \<noteq> f) ps)"

lemma with_escaped_text:
  assumes "pmysql_ok sq P" "text_ok bs"
  shows "with_escaped sq bs go d = Some (go (sq_escape sq bs))" "length (sq_escape sq bs) < 200000"
proof -
  show l: "length (sq_escape sq bs) < 200000"
    using pmysql_okD(7) [OF assms(1), of bs] assms(2) by (simp add: text_ok_def)
  then show "with_escaped sq bs go d = Some (go (sq_escape sq bs))"
    by (simp add: with_escaped_def SQL_MAX_SZ_def sql_buf_max_def Let_def)
qed

lemma pdb_insert_rows:
  assumes "pmysql_ok sq P" "prow_ok x"
  obtains r d' where "pdb_insert sq x d = Some (r, d')"
    "r = 0 \<and> P d' = P d @ [x] \<or> r = -1 \<and> P d' = P d \<and> \<not> mysql_up sq"
proof -
  obtain f act bs where x: "x = (f, act, bs)" by (cases x) auto
  have ok: "pfeedid_ok f" "act < 2 ^ 32" "text_ok bs" using assms(2) by (simp_all add: x prow_ok_def)
  let ?t = "pinsert_sql f act (sq_escape sq bs)"
  note E = with_escaped_text [OF assms(1) ok(3)]
  obtain n e where e: "sq_exec sq ?t d = (n, e)" by (cases "sq_exec sq ?t d") auto
  have "n \<noteq> 0" using pmysql_okD(2) [OF assms(1) assms(2) [unfolded x], of d] e by simp
  with db_change_rows [OF pmysql_okD(1) [OF assms(1) assms(2) [unfolded x]] e]
  show ?thesis
    using e E(1) pchange_fits(1) [OF ok(1,2) E(2)]
    by (intro that [of "if n \<le> 0 then -1 else 0" e]) (auto simp: pdb_insert_def x)
qed

lemma pdb_update_rows:
  assumes "pmysql_ok sq P" "prow_ok x"
  obtains r d' where "pdb_update sq (fst x) x d = Some (r, d')"
    "r = 0 \<and> P d' = map (prenew x) (P d) \<or> r = -1 \<and> P d' = P d \<and> \<not> mysql_up sq"
proof -
  obtain f act bs where x: "x = (f, act, bs)" by (cases x) auto
  have ok: "pfeedid_ok f" "act < 2 ^ 32" "text_ok bs" using assms(2) by (simp_all add: x prow_ok_def)
  let ?t = "pupdate_sql f f act (sq_escape sq bs)"
  note E = with_escaped_text [OF assms(1) ok(3)]
  obtain n e where e: "sq_exec sq ?t d = (n, e)" by (cases "sq_exec sq ?t d") auto
  from db_change_rows [OF pmysql_okD(3) [OF assms(1) assms(2) [unfolded x]] e]
  show ?thesis
    using e E(1) pchange_fits(2) [OF ok(1,2) E(2)]
    by (intro that [of "if n < 0 then -1 else 0" e]) (auto simp: pdb_update_def x pfeedid_equal_iff)
qed

lemma pdb_del_rows:
  assumes "pmysql_ok sq P" "pfeedid_ok f" "pdb_del sq f d = (r, d')"
  shows "r = 0 \<and> P d' = filter (\<lambda>x. fst x \<noteq> f) (P d) \<or> r = -1 \<and> P d' = P d \<and> \<not> mysql_up sq"
proof -
  obtain n e where e: "sq_exec sq (psql pdelete_fmt f) d = (n, e)" by (cases "sq_exec sq (psql pdelete_fmt f) d") auto
  from db_change_rows [OF pmysql_okD(4) [OF assms(1,2)] e] e assms(3) psql_fits(1) [OF assms(2)]
  show ?thesis by (auto simp: pdb_del_def split: if_splits)
qed

lemma pdb_check_rows:
  assumes "pmysql_ok sq P" "selects_up sq" "pfeedid_ok f" "pdb_check_existed sq f d = (b, d')"
  shows "P d' = P d" "b \<longleftrightarrow> (\<exists>y \<in> set (P d). fst y = f)"
proof -
  obtain n rows e where e: "sq_select sq (psql pexists_fmt f) d = ((n, rows), e)"
    by (cases "sq_select sq (psql pexists_fmt f) d") auto
  have "0 \<le> n" using e assms(2) unfolding selects_up_def by (metis fst_conv)
  with answersD [OF pmysql_okD(5) [OF assms(1,3)] e]
  have a: "P e = P d" "n = int (length (filter (\<lambda>x. fst x = f) (P d)))" by auto
  have "b = (n \<ge> 1)" "d' = e" using assms(4) e psql_fits(2) [OF assms(3)] by (auto simp: pdb_check_existed_def)
  with a show "P d' = P d" "b \<longleftrightarrow> (\<exists>y \<in> set (P d). fst y = f)"
    by (auto simp: filter_empty_conv Suc_le_eq)
qed

lemma pfeed_at_ok:
  assumes "pfeed_at off m = Some x"
  shows "pfeedid_at (off + 4) m = Some (fst x)" "pfeedid_ok (fst x)" "fst (snd x) < 2 ^ 32"
  using assms rd_le_bound [of "off + 38" 4 m]
  by (auto simp: pfeed_at_def pfeedid_at_def Let_def pfeedid_sz_def P_FEED_HEAD_SZ_def rd_pfeedid_ok split: if_splits)

lemma store_insert_p_serves:
  assumes w: "pstore_world env P C" and i: "pstore_inv P C (d, m)"
    and x: "pfeed_at req_hsz msg = Some x" "text_ok (snd (snd x))"
  shows "\<exists>r. store_insert_p env 1 msg (d, m) = Some r \<and> serves env (pstore_inv P C) P d (pspec_insert x) r"
proof -
  note W = pstore_worldD [OF w]
  let ?sq = "se_sql env"
  have at: "pfeedid_at 12 msg = Some (fst x)" and ok: "prow_ok x"
    using pfeed_at_ok [OF x(1)] x(2) by (simp_all add: req_hsz_def prow_ok_def)
  have fo: "pfeedid_ok (fst x)" using ok by (simp add: prow_ok_def)
  obtain b d1 where b: "pdb_check_existed ?sq (fst x) d = (b, d1)" by fastforce
  note c = pdb_check_rows [OF W(1,2) fo b]
  obtain r d2 where r: "pdb_insert ?sq x d1 = Some (r, d2)"
    "r = 0 \<and> P d2 = P d1 @ [x] \<or> r = -1 \<and> P d2 = P d1 \<and> \<not> mysql_up ?sq"
    using pdb_insert_rows [OF W(1) ok] by blast
  note step = store_insert_p_def Let_def at
  consider "\<not> get_db_conn ?sq (pf_target (fst x)) d" | "get_db_conn ?sq (pf_target (fst x)) d" "b"
    | "get_db_conn ?sq (pf_target (fst x)) d" "\<not> b" by blast
  then show ?thesis
  proof cases
    case 1
    with no_conn [OF 1] i show ?thesis
      by (intro exI [of _ "(build_simple_msg RES_OP_ERROR, d, m)"]) (auto simp: step intro!: servesI)
  next
    case 2
    then have "pspec_insert x (P d) = (RES_OP_FEEDID_DUP, P d1)" using c by (simp add: pspec_insert_def)
    with 2 b pstore_inv_db [OF i c(1)] show ?thesis
      by (intro exI [of _ "(build_simple_msg RES_OP_FEEDID_DUP, d1, m)"]) (auto simp: step intro!: servesI')
  next
    case 3
    have "pstore_inv P C (d2, m)"
      using i r(2) c(1) ok by (auto simp: pstore_inv_def pvals_def intro: caches_mono [OF _ subset_insertI])
    moreover have "pspec_insert x (P d) = (RES_OP_SUCCESS, P d @ [x])" using 3(2) c(2) by (simp add: pspec_insert_def)
    ultimately show ?thesis using 3 b r c(1) x(1)
      by (intro exI [of _ "(build_simple_msg (if r \<noteq> 0 then RES_OP_ERROR else RES_OP_SUCCESS), d2, m)"])
        (auto simp: step intro!: servesI)
  qed
qed

lemma pvals_others:
  "\<forall>y. fst y \<noteq> f \<longrightarrow> y \<in> set ps \<longrightarrow> y \<in> set qs \<Longrightarrow> g \<noteq> f \<Longrightarrow> (g, v) \<in> pvals ps \<Longrightarrow> (g, v) \<in> pvals qs"
  by (force simp: pvals_def)

lemma pmemc_replace_le:
  assumes "memc_ok mm C"
  shows "map_le (C (snd (pmemc_replace mm (fst x) x m)))
    (if C m (gen_pfid_memkey (fst x)) = None then C m
     else (C m)(gen_pfid_memkey (fst x) \<mapsto> (pvalue (fst (snd x)) (snd (snd x)), pf_target (fst x))))"
  using memc_okD(5) [OF assms, of "gen_pfid_memkey (fst x)" "pvalue (fst (snd x)) (snd (snd x))" EXPIRE_TIME
    "pf_target (fst x)" m]
  by (cases x) (simp add: pmemc_replace_def pfeedid_equal_iff case_prod_beta)

lemma pmemc_del_le: "memc_ok mm C \<Longrightarrow> map_le (C (snd (pmemc_del mm f m))) ((C m)(gen_pfid_memkey f := None))"
  using memc_okD(6) by (simp add: pmemc_del_def case_prod_beta)

lemma store_update_p_serves:
  assumes w: "pstore_world env P C" and i: "pstore_inv P C (d, m)"
    and old: "pfeedid_at req_hsz msg = Some old" and x: "pfeed_at (req_hsz + pfeedid_sz) msg = Some x" "text_ok (snd (snd x))"
  shows "\<exists>r. store_update_p env 1 msg (d, m) = Some r \<and> serves env (pstore_inv P C) P d (pspec_update old x) r"
proof -
  note W = pstore_worldD [OF w]
  let ?sq = "se_sql env"
  have at: "pfeedid_at (req_hsz + pfeedid_sz + 4) msg = Some (fst x)" and ok: "prow_ok x"
    using pfeed_at_ok [OF x(1)] x(2) by (simp_all add: prow_ok_def)
  have fo: "pfeedid_ok (fst x)" using ok by (simp add: prow_ok_def)
  note step = store_update_p_def Let_def at old pfeedid_equal_iff
  consider "\<not> get_db_conn ?sq (pf_target (fst x)) d" | "get_db_conn ?sq (pf_target (fst x)) d" "old \<noteq> fst x"
    | "get_db_conn ?sq (pf_target (fst x)) d" "old = fst x" by blast
  then show ?thesis
  proof cases
    case 1
    with no_conn [OF 1] i show ?thesis
      by (intro exI [of _ "(build_simple_msg RES_OP_ERROR, d, m)"]) (auto simp: step intro!: servesI)
  next
    case 2
    with i show ?thesis
      by (intro exI [of _ "(build_simple_msg RES_OP_ERROR, d, m)"]) (auto simp: step pspec_update_def intro!: servesI')
  next
    case 3
    obtain r d2 where r: "pdb_update ?sq (fst x) x d = Some (r, d2)"
      "r = 0 \<and> P d2 = map (prenew x) (P d) \<or> r = -1 \<and> P d2 = P d \<and> \<not> mysql_up ?sq"
      using pdb_update_rows [OF W(1) ok] by blast
    show ?thesis
    proof (cases "r = 0")
      case False
      with 3 r x(1) pstore_inv_db [OF i, of d2] show ?thesis
        by (intro exI [of _ "(build_simple_msg RES_OP_ERROR, d2, m)"]) (auto simp: step intro!: servesI)
    next
      case True
      with r(2) have p: "P d2 = map (prenew x) (P d)" by simp
      let ?m = "snd (pmemc_replace (se_mem env) (fst x) x m)"
      have "caches gen_pfid_memkey pfeedid_ok pf_target (pvals (P d2)) (C ?m)"
      proof (rule pfeeds.replace [OF _ pmemc_replace_le [OF W(3)] fo])
        show "caches gen_pfid_memkey pfeedid_ok pf_target (pvals (P d)) (C m)" using i by (simp add: pstore_inv_def)
        show "(g, v) \<in> pvals (P d2)" if "g \<noteq> fst x" "(g, v) \<in> pvals (P d)" for g v
          using that(1,2) unfolding p by (rule pvals_others [rotated]) (force simp: prenew_def)
        show "(fst x, pvalue (fst (snd x)) (snd (snd x))) \<in> pvals (P d2)" if v: "(fst x, v) \<in> pvals (P d)" for v
        proof -
          obtain y where "y \<in> set (P d)" "fst y = fst x" using v by (auto simp: pvals_def)
          then have "x \<in> set (P d2)" unfolding p by (force simp: prenew_def)
          then show ?thesis by (auto simp: pvals_def)
        qed
      qed
      then have "pstore_inv P C (d2, ?m)" using i ok p by (auto simp: pstore_inv_def prenew_def)
      then have "serves env (pstore_inv P C) P d (pspec_update old x) (build_simple_msg RES_OP_SUCCESS, d2, ?m)"
        by (rule servesI' [where I = "pstore_inv P C" and R = P]) (simp add: pspec_update_def 3(2) p)
      moreover have "store_update_p env 1 msg (d, m) = Some (build_simple_msg RES_OP_SUCCESS, d2, ?m)"
        using 3 True r(1) x(1) W(4) by (simp add: step)
      ultimately show ?thesis by blast
    qed
  qed
qed

lemma store_del_p_serves:
  assumes w: "pstore_world env P C" and i: "pstore_inv P C (d, m)" and f: "pfeedid_at req_hsz msg = Some f"
  shows "\<exists>r. store_del_p env 1 msg (d, m) = Some r \<and> serves env (pstore_inv P C) P d (pspec_del f) r"
proof -
  note W = pstore_worldD [OF w]
  let ?sq = "se_sql env" and ?m = "snd (pmemc_del (se_mem env) f m)"
  have fo: "pfeedid_ok f" using f by (auto simp: pfeedid_at_def rd_pfeedid_ok split: if_splits)
  obtain r d2 where r: "pdb_del ?sq f d = (r, d2)" by fastforce
  note c = pdb_del_rows [OF W(1) fo r]
  note step = store_del_p_def Let_def f
  consider "\<not> get_db_conn ?sq (pf_target f) d" | "get_db_conn ?sq (pf_target f) d" "r \<noteq> 0"
    | "get_db_conn ?sq (pf_target f) d" "r = 0" by blast
  then show ?thesis
  proof cases
    case 1
    with no_conn [OF 1] i show ?thesis
      by (intro exI [of _ "(build_simple_msg RES_OP_ERROR, d, m)"]) (auto simp: step intro!: servesI)
  next
    case 2
    with c r pstore_inv_db [OF i, of d2] show ?thesis
      by (intro exI [of _ "(build_simple_msg RES_OP_ERROR, d2, m)"]) (auto simp: step intro!: servesI)
  next
    case 3
    with c have p: "P d2 = filter (\<lambda>x. fst x \<noteq> f) (P d)" by simp
    have "caches gen_pfid_memkey pfeedid_ok pf_target (pvals (P d2)) (C ?m)"
    proof (rule pfeeds.forget_one [OF _ pmemc_del_le [OF W(3)] fo])
      show "caches gen_pfid_memkey pfeedid_ok pf_target (pvals (P d)) (C m)" using i by (simp add: pstore_inv_def)
      show "(g, v) \<in> pvals (P d2)" if "g \<noteq> f" "(g, v) \<in> pvals (P d)" for g v
        using that(1,2) unfolding p by (rule pvals_others [rotated]) auto
    qed
    then have "pstore_inv P C (d2, ?m)" using i by (auto simp: pstore_inv_def p)
    then have "serves env (pstore_inv P C) P d (pspec_del f) (build_simple_msg RES_OP_SUCCESS, d2, ?m)"
      by (rule servesI' [where I = "pstore_inv P C" and R = P]) (simp add: pspec_del_def p)
    moreover have "store_del_p env 1 msg (d, m) = Some (build_simple_msg RES_OP_SUCCESS, d2, ?m)"
      using 3 r W(4) by (simp add: step)
    ultimately show ?thesis by blast
  qed
qed

end
