(* ===== verification/PstoreGet.thy ===== *)
theory PstoreGet
  imports StoreGet PstoreSpec
begin

text \<open>
  Fetching passive feeds (\<^verbatim>\<open>feeds_store::get_p_pkgs\<close>): the answer is exactly the rows asked for, from
  memcached or the tables, and what came from the tables is cached.
\<close>

definition ppkgs :: "pfeed list \<Rightarrow> byte list" where
  "ppkgs xs = concat (map pfeed_pkg xs)"

lemma ppkgs_simps [simp]:
  "ppkgs [] = []" "ppkgs (x # xs) = pfeed_pkg x @ ppkgs xs" "ppkgs (xs @ ys) = ppkgs xs @ ppkgs ys"
  by (simp_all add: ppkgs_def)

lemma length_pfeed_pkg [simp]: "length (pfeed_pkg x) = P_FEED_HEAD_SZ + length (snd (snd x))"
  by (cases x) (simp add: pfeed_pkg_def P_FEED_HEAD_SZ_def pfeedid_sz_def)

lemma length_ppkgs: "length (ppkgs xs) = (\<Sum>x \<in># mset xs. P_FEED_HEAD_SZ + length (snd (snd x)))"
  by (induction xs) simp_all

section \<open>memcached\<close>

lemma pmatch_key_marked:
  assumes "f \<in> set ids" "distinct ids" "\<forall>g \<in> set ids. pfeedid_ok g"
  shows "pmatch_key (gen_pfid_memkey f) (marked F ids) = Some (f, marked (insert f F) ids)"
  using assms
proof (induction ids)
  case (Cons g ids)
  show ?case
  proof (cases "f = g")
    case True
    then have "marked (insert f F) ids = marked F ids" using Cons.prems(2) by (intro marked_cong) auto
    with True show ?thesis by simp
  next
    case False
    then have "gen_pfid_memkey f \<noteq> gen_pfid_memkey g" using pkey_inj Cons.prems(1,3) by auto
    with False Cons show ?thesis by simp
  qed
qed simp

definition pitem :: "pfeed \<Rightarrow> string \<times> byte list" where
  "pitem x = (gen_pfid_memkey (fst x), pvalue (fst (snd x)) (snd (snd x)))"

lemma pitem_triple: "pitem (f, act, bs) = (gen_pfid_memkey f, pvalue act bs)"
  by (simp add: pitem_def)

lemma pvalue_parts:
  assumes "act < 2 ^ 32"
  shows "rd_le 0 4 (pvalue act bs) = act" "drop TIMESTAMP_SIZE (pvalue act bs) = bs"
    "length (pvalue act bs) = TIMESTAMP_SIZE + length bs"
  using assms by (simp_all add: pvalue_def TIMESTAMP_SIZE_def rd_le_here)

lemma pfetch_pkgs_rows:
  assumes "distinct ids" "\<forall>g \<in> set ids. pfeedid_ok g" "\<forall>x \<in> set xs. fst x \<in> set ids \<and> prow_ok x" "length (ppkgs xs) < room"
  shows "pfetch_pkgs room (map pitem xs) (marked F ids) =
    Some (Some (int (length xs), ppkgs xs), marked (F \<union> fst ` set xs) ids)"
  using assms(3,4)
proof (induction xs arbitrary: room F)
  case (Cons x xs)
  obtain f act bs where x: "x = (f, act, bs)" by (cases x) auto
  have act: "act < 2 ^ 32" using Cons.prems(1) by (simp add: x prow_ok_def)
  have "pfetch_pkgs (room - length (pfeed_pkg x)) (map pitem xs) (marked (insert f F) ids) =
      Some (Some (int (length xs), ppkgs xs), marked (insert f F \<union> fst ` set xs) ids)"
    using Cons.prems by (intro Cons.IH) simp_all
  with Cons.prems(1,2) pmatch_key_marked [OF _ assms(1,2), of f F] pvalue_parts [OF act, of bs]
  show ?case by (simp add: x pitem_triple Let_def)
qed simp

lemma pmget_rows:
  assumes w: "pstore_world env P C" and i: "pstore_inv P C (d, m)" and ids: "\<forall>f \<in> set ids. pfeedid_ok f" "distinct ids"
    and g: "mm_mget (se_mem env) m (map gen_pfid_memkey ids) = Some rs"
  obtains xs where "rs = map pitem xs" "set xs \<subseteq> set (P d)" "fst ` set xs \<subseteq> set ids" "distinct (map fst xs)"
proof -
  have inj: "inj_on gen_pfid_memkey (set ids)" using pkey_inj ids(1) by (auto intro: inj_onI)
  note M = memc_ok_mget [OF pstore_worldD(3) [OF w] g]
  have "\<exists>y. x = pitem y \<and> (fst y \<in> set ids \<and> y \<in> set (P d))" if x: "x \<in> set rs" for x
  proof -
    obtain f fl where f: "f \<in> set ids" "fst x = gen_pfid_memkey f" "C m (fst x) = Some (snd x, fl)"
      using M(1) x by fastforce
    have "caches gen_pfid_memkey pfeedid_ok pf_target (pvals (P d)) (C m)" using i by (simp add: pstore_inv_def)
    from caches_hit [OF this, of f "snd x" fl] f ids(1) have "(f, snd x) \<in> pvals (P d)" by simp
    then obtain y where "y \<in> set (P d)" "f = fst y" "snd x = pvalue (fst (snd y)) (snd (snd y))"
      by (auto simp: pvals_def)
    with f show ?thesis by (intro exI [of _ y]) (simp add: prod_eq_iff pitem_def)
  qed
  then have "\<forall>x \<in> set rs. \<exists>y. x = pitem y \<and> (fst y \<in> set ids \<and> y \<in> set (P d))" by blast
  from pick_images [OF this] obtain xs where xs: "rs = map pitem xs"
    "\<forall>y \<in> set xs. fst y \<in> set ids \<and> y \<in> set (P d)" by (elim exE conjE)
  have "distinct (map gen_pfid_memkey ids)" using ids(2) inj by (simp add: distinct_map)
  then have "distinct (map fst rs)" using M(2) by simp
  then have "distinct (map gen_pfid_memkey (map fst xs))" by (simp add: xs(1) comp_def pitem_def)
  then have "distinct (map fst xs)" by (simp only: distinct_map)
  then show ?thesis by (intro that [OF xs(1)]) (use xs(2) in auto)
qed

section \<open>The tables\<close>

lemma pdb_rows_found:
  assumes w: "pstore_world env P C" and p: "\<forall>x \<in> set (P d). prow_ok x" and f: "pfeedid_ok f"
    and room: "length (ppkgs (filter (\<lambda>x. fst x = f) (P d))) \<le> room"
  obtains d' where "pdb_rows (se_sql env) (prow_feed True) room (sql_cut (psql pselect_fmt f)) d =
      Some ((int (length (filter (\<lambda>x. fst x = f) (P d))), ppkgs (filter (\<lambda>x. fst x = f) (P d))), d')" "P d' = P d"
proof -
  note W = pstore_worldD [OF w]
  let ?sq = "se_sql env" and ?t = "psql pselect_fmt f" and ?ps = "filter (\<lambda>x. fst x = f) (P d)"
  obtain n rows e where e: "sq_select ?sq ?t d = ((n, rows), e)" by (cases "sq_select ?sq ?t d") auto
  have "0 \<le> n" using e W(2) unfolding selects_up_def by (metis fst_conv)
  with answersD [OF pmysql_okD(6) [OF W(1) f] e]
  have a: "P e = P d" "n = int (length ?ps)" "rows = map prow_row ?ps" by auto
  have "\<forall>x \<in> set ?ps. prow_ok x" using p by simp
  then have b: "build_pfeeds (prow_feed True) rows = Some (ppkgs ?ps)" by (simp only: a(3) build_prows ppkgs_def)
  have "pdb_rows ?sq (prow_feed True) room ?t d = Some ((n, ppkgs ?ps), e)"
  proof (cases "n > 0")
    case True
    have "take (nat n) rows = rows" "nat n = length rows" by (simp_all add: a(2,3))
    with True room b e show ?thesis by (simp add: pdb_rows_def)
  next
    case False
    then have "?ps = []" using a(2) by (simp only: length_0_conv [symmetric])
    then have "ppkgs ?ps = []" by (simp only: ppkgs_simps)
    with False e show ?thesis by (simp add: pdb_rows_def)
  qed
  with a psql_fits(3) [OF f] show ?thesis by (intro that [of e]) simp_all
qed

lemma pdb_get_pkgs_rows:
  assumes w: "pstore_world env P C" "mysql_up (se_sql env)"
    and "\<forall>x \<in> set (P d). prow_ok x" "\<forall>f \<in> set ids. pfeedid_ok f" "length (ppkgs (asked F ids (P d))) \<le> room"
  shows "\<exists>d'. pdb_get_pkgs (se_sql env) room (marked F ids) d =
      Some (Some (int (length (asked F ids (P d))), ppkgs (asked F ids (P d))), d') \<and> P d' = P d"
  using assms(3-5)
proof (induction ids arbitrary: room d)
  case Nil
  then show ?case by simp
next
  case (Cons f ids)
  have conn: "get_db_conn (se_sql env) (pf_target f) d" using w(2) by (simp add: get_db_conn_def mysql_up_def)
  show ?case
  proof (cases "f \<in> F")
    case True
    with Cons.IH [OF Cons.prems(1)] Cons.prems show ?thesis by (simp add: F_MEM_def F_NONE_def)
  next
    case False
    let ?ps = "filter (\<lambda>x. fst x = f) (P d)"
    have fo: "pfeedid_ok f" using Cons.prems(2) by simp
    have room: "length (ppkgs ?ps) \<le> room" "length (ppkgs (asked F ids (P d))) \<le> room - length (ppkgs ?ps)"
      using Cons.prems(3) False by simp_all
    from pdb_rows_found [OF w(1) Cons.prems(1) fo room(1)] obtain d1 where
      d1: "pdb_rows (se_sql env) (prow_feed True) room (sql_cut (psql pselect_fmt f)) d =
        Some ((int (length ?ps), ppkgs ?ps), d1)" "P d1 = P d" by blast
    from Cons.IH [of d1 "room - length (ppkgs ?ps)"] Cons.prems(1,2) room(2) d1(2) obtain d' where
      "pdb_get_pkgs (se_sql env) (room - length (ppkgs ?ps)) (marked F ids) d1 =
        Some (Some (int (length (asked F ids (P d))), ppkgs (asked F ids (P d))), d')" "P d' = P d" by auto
    with d1(1) conn False show ?thesis by simp
  qed
qed

section \<open>Caching what was fetched\<close>

lemma cache_pfeeds_step:
  assumes "prow_ok x"
  shows "cache_pfeeds mm (Suc n) (pfeed_pkg x @ b) m =
    cache_pfeeds mm n b (snd (pmemc_set mm (fst x) (pvalue (fst (snd x)) (snd (snd x))) m))"
proof -
  obtain f act bs where x: "x = (f, act, bs)" by (cases x) auto
  let ?b = "to_le 4 (P_FEED_HEAD_SZ + length bs) @ wr_pfeedid f @ to_le 4 act @ bs @ b"
  have "length bs < 2 ^ 16" using assms by (simp add: x prow_ok_def text_ok_def)
  then have "rd_le 0 4 ?b = P_FEED_HEAD_SZ + length bs" by (simp add: rd_le_here P_FEED_HEAD_SZ_def)
  moreover have "rd_pfeedid (drop 4 ?b) = f" using assms by (simp add: x prow_ok_def rd_wr_pfeedid)
  moreover have "drop (P_FEED_HEAD_SZ + length bs) ?b = b" by (simp add: P_FEED_HEAD_SZ_def pfeedid_sz_def)
  moreover have "take (length bs + TIMESTAMP_SIZE) (drop 38 ?b) = pvalue act bs"
    by (simp add: TIMESTAMP_SIZE_def pfeedid_sz_def pvalue_def)
  ultimately show ?thesis by (simp add: x pfeed_pkg_def Let_def)
qed

lemma pmemc_set_inv:
  assumes "memc_ok mm C" "pstore_inv P C (d, m)" "x \<in> set (P d)"
  shows "pstore_inv P C (d, snd (pmemc_set mm (fst x) (pvalue (fst (snd x)) (snd (snd x))) m))"
proof -
  have ok: "pfeedid_ok (fst x)" using assms(2,3) by (auto simp: pstore_inv_def prow_ok_def)
  have "map_le (C (snd (pmemc_set mm (fst x) (pvalue (fst (snd x)) (snd (snd x))) m)))
      ((C m)(gen_pfid_memkey (fst x) \<mapsto> (pvalue (fst (snd x)) (snd (snd x)), pf_target (fst x))))"
    using memc_okD(3) [OF assms(1)] by (simp add: pmemc_set_def case_prod_beta)
  from pfeeds.store [OF _ ok _ this] assms(2,3) show ?thesis by (auto simp: pstore_inv_def pvals_def)
qed

lemma cache_pfeeds_inv:
  assumes "memc_ok mm C" "pstore_inv P C (d, m)" "set ys \<subseteq> set (P d)"
  shows "pstore_inv P C (d, cache_pfeeds mm (length ys) (ppkgs ys) m)"
  using assms(2,3)
proof (induction ys arbitrary: m)
  case (Cons y ys)
  have "prow_ok y" using Cons.prems by (auto simp: pstore_inv_def)
  from cache_pfeeds_step [OF this, of mm "length ys" "ppkgs ys" m] Cons.IH [OF pmemc_set_inv [OF assms(1) Cons.prems(1), of y]] Cons.prems(2)
  show ?case by simp
qed simp

section \<open>The answer\<close>

lemma pfeedids_at_ok: "pfeedids_at off n m = Some fs \<Longrightarrow> length fs = n \<and> (\<forall>f \<in> set fs. pfeedid_ok f)"
  by (induction off n m arbitrary: fs rule: pfeedids_at.induct)
    (auto simp: pfeedid_at_def rd_pfeedid_ok split: option.splits if_splits)

lemma store_get_p_pkgs_found:
  assumes w: "pstore_world env P C" "mysql_up (se_sql env)" and i: "pstore_inv P C (d, m)"
    and ids: "pfeedids_at req_hsz n msg = Some ids" "distinct ids"
    and rs: "distinct (map fst (P d))" "length (ppkgs (filter (\<lambda>x. fst x \<in> set ids) (P d))) < MAX_PACKAGE_LEN - res_hsz"
  shows "\<exists>xs d' m'. store_get_p_pkgs env n msg (d, m) =
      Some (store_response RES_OP_SUCCESS (length xs) (ppkgs xs), d', m') \<and>
    mset xs = mset (filter (\<lambda>x. fst x \<in> set ids) (P d)) \<and> P d' = P d \<and> pstore_inv P C (d', m')"
proof -
  note W = pstore_worldD [OF w(1)]
  note F = pfeedids_at_ok [OF ids(1)]
  let ?room = "MAX_PACKAGE_LEN - res_hsz"
  have pr: "\<forall>x \<in> set (P d). prow_ok x" using i by (simp add: pstore_inv_def)
  have m0: "map (\<lambda>f. (f, F_NONE)) ids = marked {} ids" by (simp add: marked_def)
  obtain xs got where got: "set xs \<subseteq> set (P d)" "fst ` set xs \<subseteq> set ids" "distinct (map fst xs)"
      "got = Some (int (length xs), ppkgs xs) \<or> got = None \<and> xs = []"
      "length (ppkgs xs) < ?room \<Longrightarrow>
        pmemc_get_pkgs (se_mem env) ?room ids m = Some (got, marked (fst ` set xs) ids)"
  proof (cases "mm_mget (se_mem env) m (map gen_pfid_memkey ids)")
    case None
    then show ?thesis by (intro that [of "[]" None]) (simp_all add: pmemc_get_pkgs_def Let_def m0)
  next
    case (Some rs)
    from pmget_rows [OF w(1) i conjunct2 [OF F] ids(2) Some] obtain xs where
      xs: "rs = map pitem xs" "set xs \<subseteq> set (P d)" "fst ` set xs \<subseteq> set ids" "distinct (map fst xs)" .
    have "\<forall>x \<in> set xs. fst x \<in> set ids \<and> prow_ok x" using xs(2,3) pr by auto
    from pfetch_pkgs_rows [OF ids(2) conjunct2 [OF F] this, of ?room "{}"] Some xs
    show ?thesis by (intro that [of xs "Some (int (length xs), ppkgs xs)"]) (simp_all add: pmemc_get_pkgs_def Let_def m0)
  qed
  let ?ys = "asked (fst ` set xs) ids (P d)"
  have all: "mset (xs @ ?ys) = mset (filter (\<lambda>x. fst x \<in> set ids) (P d))"
    by (rule found_rows [OF ids(2) rs(1) got(1-3)])
  then have "length (ppkgs (xs @ ?ys)) < ?room" using rs(2) by (simp only: length_ppkgs)
  then have room: "length (ppkgs xs) < ?room" "length (ppkgs ?ys) \<le> ?room - length (ppkgs xs)" by simp_all
  note mem = got(5) [OF room(1)]
  have step: "store_get_p_pkgs env n msg (d, m) =
      (if int (length xs) = int n then Some (store_response RES_OP_SUCCESS (length xs) (ppkgs xs), d, m)
       else (case pdb_get_pkgs (se_sql env) (?room - length (ppkgs xs)) (marked (fst ` set xs) ids) d of
         None \<Rightarrow> None
       | Some (None, d1) \<Rightarrow> simple RES_OP_ERROR (d1, m)
       | Some (Some (k, b), d1) \<Rightarrow>
           Some (store_response RES_OP_SUCCESS (nat (int (length xs) + k)) (ppkgs xs @ b),
             d1, cache_pfeeds (se_mem env) (nat k) b m)))"
    using mem got(4) W(4)
    by (auto simp: store_get_p_pkgs_def Let_def ids(1) m0 split: option.split)
  show ?thesis
  proof (cases "length xs = n")
    case False
    from pdb_get_pkgs_rows [OF w pr conjunct2 [OF F] room(2)] obtain d' where d':
      "pdb_get_pkgs (se_sql env) (?room - length (ppkgs xs)) (marked (fst ` set xs) ids) d =
        Some (Some (int (length ?ys), ppkgs ?ys), d')" "P d' = P d" by blast
    have "set ?ys \<subseteq> set (P d')" using d'(2) by (auto simp: set_asked)
    from cache_pfeeds_inv [OF W(3) pstore_inv_db [OF i d'(2)] this] step False all d'
    show ?thesis by (intro exI [of _ "xs @ ?ys"]) (simp add: nat_int_add)
  next
    case True
    have "card (fst ` set xs) = length xs" using distinct_card [OF got(3)] by simp
    moreover have "card (set ids) = n" using distinct_card [OF ids(2)] F by simp
    ultimately have "fst ` set xs = set ids" using True by (intro card_subset_eq [OF _ got(2)]) simp_all
    then have "set ?ys = {}" by (auto simp: set_asked)
    with step True all i show ?thesis by (intro exI [of _ xs]) simp
  qed
qed

end
