(* ===== verification/StorageFrame.thy ===== *)
theory StorageFrame
  imports StoreGet PstoreGet
begin

text \<open>
  Feeds and passive feeds are apart: an operation on the one changes neither the rows nor what memcached
  holds of the other, except that memcached may forget.
\<close>

definition frame ::
  "('k \<Rightarrow> string) \<Rightarrow> ('k \<Rightarrow> bool) \<Rightarrow> ('d \<Rightarrow> 'r) \<Rightarrow> ('m \<Rightarrow> memc_map) \<Rightarrow> 'd \<times> 'm \<Rightarrow> 'd \<times> 'm \<Rightarrow> bool" where
  "frame key ok T C st st' \<longleftrightarrow>
     T (fst st') = T (fst st) \<and> below key ok (C (snd st')) (C (snd st))"

abbreviation pframe :: "('d \<Rightarrow> 'r) \<Rightarrow> ('m \<Rightarrow> memc_map) \<Rightarrow> 'd \<times> 'm \<Rightarrow> 'd \<times> 'm \<Rightarrow> bool" where
  "pframe \<equiv> frame gen_pfid_memkey pfeedid_ok"

abbreviation fframe :: "('d \<Rightarrow> 'r) \<Rightarrow> ('m \<Rightarrow> memc_map) \<Rightarrow> 'd \<times> 'm \<Rightarrow> 'd \<times> 'm \<Rightarrow> bool" where
  "fframe \<equiv> frame generate_feedkey feedid_ok"

text \<open>The statements on one kind of tables leave the other kind as it is.\<close>

definition tables_apart ::
  "'d mysql \<Rightarrow> (nat \<Rightarrow> string) \<Rightarrow> ('d \<Rightarrow> feed_row list) \<Rightarrow> ('d \<Rightarrow> pfeed list) \<Rightarrow> bool" where
  "tables_apart sq names R P \<longleftrightarrow>
     (\<forall>f bs d. feedid_ok f \<longrightarrow> text_ok bs \<longrightarrow> P (snd (sq_exec sq (insert_sql names f (sq_escape sq bs)) d)) = P d) \<and>
     (\<forall>f g bs d. feedid_ok f \<longrightarrow> feedid_ok g \<longrightarrow> fid_mimi f = fid_mimi g \<longrightarrow> text_ok bs \<longrightarrow>
        P (snd (sq_exec sq (update_sql names f g (sq_escape sq bs)) d)) = P d) \<and>
     (\<forall>f d. feedid_ok f \<longrightarrow> P (snd (sq_exec sq (delete_sql names f) d)) = P d) \<and>
     (\<forall>mimi cmd app magic d. P (snd (sq_exec sq (delete2_sql names mimi cmd app magic) d)) = P d) \<and>
     (\<forall>f act bs d. prow_ok (f, act, bs) \<longrightarrow>
        R (snd (sq_exec sq (pinsert_sql f act (sq_escape sq bs)) d)) = R d \<and>
        R (snd (sq_exec sq (pupdate_sql f f act (sq_escape sq bs)) d)) = R d) \<and>
     (\<forall>f d. pfeedid_ok f \<longrightarrow> R (snd (sq_exec sq (psql pdelete_fmt f) d)) = R d) \<and>
     (\<forall>t d. prefix ''select '' t \<longrightarrow> R (snd (sq_select sq t d)) = R d \<and> P (snd (sq_select sq t d)) = P d)"

lemma tables_apartD:
  assumes "tables_apart sq names R P"
  shows "feedid_ok f \<Longrightarrow> text_ok bs \<Longrightarrow> P (snd (sq_exec sq (insert_sql names f (sq_escape sq bs)) d)) = P d"
    "feedid_ok f \<Longrightarrow> feedid_ok g \<Longrightarrow> fid_mimi f = fid_mimi g \<Longrightarrow> text_ok bs \<Longrightarrow>
      P (snd (sq_exec sq (update_sql names f g (sq_escape sq bs)) d)) = P d"
    "feedid_ok f \<Longrightarrow> P (snd (sq_exec sq (delete_sql names f) d)) = P d"
    "P (snd (sq_exec sq (delete2_sql names mimi cmd app magic) d)) = P d"
    "prow_ok (g', act, bs) \<Longrightarrow> R (snd (sq_exec sq (pinsert_sql g' act (sq_escape sq bs)) d)) = R d"
    "prow_ok (g', act, bs) \<Longrightarrow> R (snd (sq_exec sq (pupdate_sql g' g' act (sq_escape sq bs)) d)) = R d"
    "pfeedid_ok g' \<Longrightarrow> R (snd (sq_exec sq (psql pdelete_fmt g') d)) = R d"
    "prefix ''select '' t \<Longrightarrow> R (snd (sq_select sq t d)) = R d"
    "prefix ''select '' t \<Longrightarrow> P (snd (sq_select sq t d)) = P d"
  using assms by (simp_all add: tables_apart_def)

lemma query_selects:
  "prefix ''select '' (exists_sql names f)" "prefix ''select '' (feedids_sql names mimi cmd app magic)"
  "prefix ''select '' (psql pexists_fmt g)"
  by (simp_all add: exists_sql_def feedids_sql_def psql_def sprintf_def exists_fmt_def feedids_fmt_def
      pexists_fmt_def pwhere_fmt_def id_args_def pid_args_def table_args_def)

section \<open>Operations on feeds\<close>

lemma row_id_ok: "feedid_ok (row_id r)"
  by (simp add: row_id_def feedid_ok_def strtou_def less_imp_le min_def)

lemma db_frames:
  assumes "tables_apart sq names R P"
  shows "db_insert sq names f (sq_escape sq bs) d = (q, d') \<Longrightarrow> feedid_ok f \<Longrightarrow> text_ok bs \<Longrightarrow> P d' = P d"
    "db_update2 sq names f g (sq_escape sq bs) d = (q, d') \<Longrightarrow> feedid_ok f \<Longrightarrow> feedid_ok g \<Longrightarrow>
      fid_mimi f = fid_mimi g \<Longrightarrow> text_ok bs \<Longrightarrow> P d' = P d"
    "db_del sq names f d = (q, d') \<Longrightarrow> feedid_ok f \<Longrightarrow> P d' = P d"
    "db_del2 sq names mimi cmd app magic d = (q, d') \<Longrightarrow> P d' = P d"
    "check_existed sq names f d = (ex, d') \<Longrightarrow> P d' = P d"
proof -
  note T = tables_apartD [OF assms] and F = query_selects
  show "db_insert sq names f (sq_escape sq bs) d = (q, d') \<Longrightarrow> feedid_ok f \<Longrightarrow> text_ok bs \<Longrightarrow> P d' = P d"
    using T(1) [of f bs d] by (auto simp: db_insert_def Let_def split: if_splits prod.splits)
  show "db_update2 sq names f g (sq_escape sq bs) d = (q, d') \<Longrightarrow> feedid_ok f \<Longrightarrow> feedid_ok g \<Longrightarrow>
      fid_mimi f = fid_mimi g \<Longrightarrow> text_ok bs \<Longrightarrow> P d' = P d"
    using T(2) [of f g bs d] by (auto simp: db_update2_def Let_def split: if_splits prod.splits)
  show "db_del sq names f d = (q, d') \<Longrightarrow> feedid_ok f \<Longrightarrow> P d' = P d"
    using T(3) [of f d] by (auto simp: db_del_def Let_def split: if_splits prod.splits)
  show "db_del2 sq names mimi cmd app magic d = (q, d') \<Longrightarrow> P d' = P d"
    using T(4) [of mimi cmd app magic d] by (auto simp: db_del2_def Let_def split: if_splits prod.splits)
  show "check_existed sq names f d = (ex, d') \<Longrightarrow> P d' = P d"
    using T(9) [OF F(1), of names f d] by (auto simp: check_existed_def Let_def split: if_splits prod.splits)
qed

lemma get_feedids_frame:
  assumes "tables_apart sq names R P" "get_feedids sq names mimi cmd app magic d = Some (x, d')"
  shows "P d' = P d"
proof -
  have "d' = d \<or> d' = snd (sq_select sq (feedids_sql names mimi cmd app magic) d)"
    using assms(2) by (auto simp: get_feedids_def Let_def split: if_splits prod.splits)
  with tables_apartD(9) [OF assms(1) query_selects(2)] show ?thesis by auto
qed

lemma memc_frames:
  assumes "memc_ok mm C" "feedid_ok f"
  shows "below gen_pfid_memkey pfeedid_ok (C (snd (memc_set mm stars f v m))) (C m)"
    "below gen_pfid_memkey pfeedid_ok (C (snd (memc_add mm stars f v m))) (C m)"
    "below gen_pfid_memkey pfeedid_ok (C (snd (memc_replace mm f v m))) (C m)"
    "below gen_pfid_memkey pfeedid_ok (C (snd (memc_del mm f m))) (C m)"
proof -
  note L = memc_ops_le [OF assms(1)]
  have o: "below gen_pfid_memkey pfeedid_ok M (C m)" if "map_le M ((C m)(generate_feedkey f := x))" for M x
    by (rule below_other [OF that]) (rule pkey_differs [OF assms(2)])
  show "below gen_pfid_memkey pfeedid_ok (C (snd (memc_set mm stars f v m))) (C m)"
    by (rule o [OF L(1)])
  show "below gen_pfid_memkey pfeedid_ok (C (snd (memc_del mm f m))) (C m)"
    by (rule o [OF L(4)])
  have u: "below gen_pfid_memkey pfeedid_ok M (C m)"
    if "map_le M (if b then (C m)(generate_feedkey f \<mapsto> x) else C m)" for M b x
    using that o below_map_le by (cases b) auto
  show "below gen_pfid_memkey pfeedid_ok (C (snd (memc_add mm stars f v m))) (C m)" by (rule u [OF L(2)])
  show "below gen_pfid_memkey pfeedid_ok (C (snd (memc_replace mm f v m))) (C m)"
    using L(3) [of f v m] o below_map_le by (cases "C m (generate_feedkey f)") auto
qed

lemma memc_del_all_frame:
  assumes "memc_ok mm C" "\<forall>f \<in> set fs. feedid_ok f"
  shows "below gen_pfid_memkey pfeedid_ok (C (memc_del_all mm fs m)) (C m)"
  using assms(2)
proof (induction fs arbitrary: m)
  case (Cons f fs)
  from below_trans [OF Cons.IH memc_frames(4) [OF assms(1), of f m]] Cons.prems show ?case by simp
qed (simp add: below_refl)

lemma store_insert_frame:
  assumes "tables_apart (se_sql env) (se_names env) R P" "data_ok insert_pkg_sz msg"
    "store_insert env 1 msg (d, m) = Some (b, d', m')"
  shows "pframe P C (d, m) (d', m')"
  using assms(2,3)
  by (auto simp: store_insert_def Let_def bind_eq_Some_conv data_ok_def frame_def below_refl
      dest!: escaped_eq db_frames(5) [OF assms(1)] split: option.splits if_splits prod.splits bool.splits;
      metis db_frames(1) [OF assms(1)] feedid_at_ok)

lemma store_update_frame:
  assumes "tables_apart (se_sql env) (se_names env) R P" "memc_ok (se_mem env) C" "data_ok insert_pkg_sz msg"
    "store_update env 1 msg (d, m) = Some (b, d', m')"
  shows "pframe P C (d, m) (d', m')"
  using assms(3,4)
  by (auto simp: store_update_def Let_def data_ok_def frame_def below_refl
      dest!: escaped_eq db_frames(5) [OF assms(1)] split: option.splits if_splits prod.splits bool.splits;
      metis db_frames(2) [OF assms(1)] feedid_at_ok memc_frames(3) [OF assms(2)])

lemma store_del_frame:
  assumes "tables_apart (se_sql env) (se_names env) R P" "memc_ok (se_mem env) C"
    "store_del env old 1 msg (d, m) = Some (b, d', m')" "feedid_at req_hsz msg = Some f"
  shows "pframe P C (d, m) (d', m')"
proof -
  have "feedids_at req_hsz 1 msg = Some [f]" by (simp add: assms(4))
  with assms(3) show ?thesis
    using memc_frames(4) [OF assms(2) feedid_at_ok [OF assms(4)]] db_frames(3) [OF assms(1) _ feedid_at_ok [OF assms(4)]]
    by (auto simp: store_del_def Let_def frame_def below_refl split: if_splits prod.splits)
qed

lemma renamed_frame:
  assumes "memc_ok mm C" "feedid_ok f" "feedid_ok g"
  shows "below gen_pfid_memkey pfeedid_ok (C (snd (memc_add mm stars g v (snd (memc_del mm f m))))) (C m)"
  by (rule below_trans [OF memc_frames(2) [OF assms(1,3)] memc_frames(4) [OF assms(1,2)]])

lemma store_update2_frame:
  assumes t: "tables_apart (se_sql env) (se_names env) R P" and c: "memc_ok (se_mem env) C"
    and d: "data_ok update2_pkg_sz msg" and op: "store_update2 env 1 msg (d, m) = Some (b, d', m')"
  shows "pframe P C (d, m) (d', m')"
  using op d
  by (auto simp: store_update2_def Let_def data_ok_def frame_def below_refl
      dest!: escaped_eq db_frames(5) [OF t] split: option.splits if_splits prod.splits;
      metis db_frames(2) [OF t] feedid_at_ok renamed_frame [OF c])

lemma store_set_frame:
  assumes t: "tables_apart (se_sql env) (se_names env) R P" and c: "memc_ok (se_mem env) C"
    and d: "data_ok update2_pkg_sz msg" and op: "store_set env 1 msg (d, m) = Some (b, d', m')"
  shows "pframe P C (d, m) (d', m')"
  using op d
  by (auto simp: store_set_def Let_def data_ok_def frame_def below_refl
      dest!: escaped_eq db_frames(5) [OF t] split: option.splits if_splits prod.splits;
      metis db_frames(1,2) [OF t] feedid_at_ok renamed_frame [OF c] memc_frames(1) [OF c])

lemma store_del2_frame:
  assumes t: "tables_apart (se_sql env) (se_names env) R P" and c: "memc_ok (se_mem env) C"
    and op: "store_del2 env 1 msg (d, m) = Some (b, d', m')"
  shows "pframe P C (d, m) (d', m')"
proof -
  have ids: "\<forall>f \<in> set fs. feedid_ok f"
    if "get_feedids sq names mimi cmd app magic e = Some ((n, fs), e')" for sq :: "'a mysql" and names mimi cmd app magic e n fs e'
    using that by (auto simp: get_feedids_def Let_def row_id_ok split: if_splits prod.splits)
  show ?thesis
    using op
    by (auto simp: store_del2_def Let_def frame_def below_refl split: option.splits if_splits prod.splits;
      metis get_feedids_frame [OF t] db_frames(4) [OF t] memc_del_all_frame [OF c] ids)
qed

section \<open>Operations on passive feeds\<close>

lemma pdb_frames:
  assumes "tables_apart sq names R P" "pmysql_ok sq P"
  shows "pdb_insert sq x d = Some (q, d') \<Longrightarrow> prow_ok x \<Longrightarrow> R d' = R d"
    "pdb_update sq (fst x) x d = Some (q, d') \<Longrightarrow> prow_ok x \<Longrightarrow> R d' = R d"
    "pdb_del sq f d = (q, d') \<Longrightarrow> pfeedid_ok f \<Longrightarrow> R d' = R d"
    "pdb_check_existed sq f d = (ex, d') \<Longrightarrow> pfeedid_ok f \<Longrightarrow> R d' = R d"
proof -
  note T = tables_apartD [OF assms(1)]
  obtain g act bs where x: "x = (g, act, bs)" by (cases x) auto
  have ok: "pfeedid_ok g" "act < 2 ^ 32" "text_ok bs" if "prow_ok x" using that by (simp_all add: x prow_ok_def)
  show "R d' = R d" if "pdb_insert sq x d = Some (q, d')" "prow_ok x"
    using that(1) with_escaped_text [OF assms(2) ok(3) [OF that(2)]] T(5) [of g act bs d] that(2)
      pchange_fits(1) [OF ok(1,2) [OF that(2)], of "sq_escape sq bs"]
    by (auto simp: pdb_insert_def x split: prod.splits)
  show "R d' = R d" if "pdb_update sq (fst x) x d = Some (q, d')" "prow_ok x"
    using that(1) with_escaped_text [OF assms(2) ok(3) [OF that(2)]] T(6) [of g act bs d] that(2)
      pchange_fits(2) [OF ok(1,2) [OF that(2)], of "sq_escape sq bs"]
    by (auto simp: pdb_update_def x pfeedid_equal_iff split: prod.splits)
  show "R d' = R d" if "pdb_del sq f d = (q, d')" "pfeedid_ok f"
    using that T(7) [of f d] psql_fits(1) [OF that(2)] by (auto simp: pdb_del_def split: prod.splits)
  show "R d' = R d" if "pdb_check_existed sq f d = (ex, d')" "pfeedid_ok f"
    using that T(8) [OF query_selects(3), of f d] psql_fits(2) [OF that(2)]
    by (auto simp: pdb_check_existed_def split: prod.splits)
qed

lemma pmemc_frames:
  assumes "memc_ok mm C" "pfeedid_ok (fst x)"
  shows "below generate_feedkey feedid_ok (C (snd (pmemc_replace mm (fst x) x m))) (C m)"
    "below generate_feedkey feedid_ok (C (snd (pmemc_del mm (fst x) m))) (C m)"
proof -
  have o: "below generate_feedkey feedid_ok M (C m)" if "map_le M ((C m)(gen_pfid_memkey (fst x) := z))" for M z
    by (rule below_other [OF that]) (use pkey_differs [OF _ assms(2)] in metis)
  show "below generate_feedkey feedid_ok (C (snd (pmemc_del mm (fst x) m))) (C m)"
    by (rule o [OF pmemc_del_le [OF assms(1)]])
  show "below generate_feedkey feedid_ok (C (snd (pmemc_replace mm (fst x) x m))) (C m)"
    using pmemc_replace_le [OF assms(1), of x m] o below_map_le
    by (cases "C m (gen_pfid_memkey (fst x))") auto
qed

lemma store_insert_p_frame:
  assumes t: "tables_apart (se_sql env) (se_names env) R P" and p: "pmysql_ok (se_sql env) P"
    and x: "pfeed_at req_hsz msg = Some x" "prow_ok x" and op: "store_insert_p env 1 msg (d, m) = Some (b, d', m')"
  shows "fframe R C (d, m) (d', m')"
proof -
  have at: "pfeedid_at 12 msg = Some (fst x)" using pfeed_at_ok(1) [OF x(1)] by (simp add: req_hsz_def)
  have "pfeedid_ok (fst x)" using x(2) by (simp add: prow_ok_def)
  with op show ?thesis
    by (auto simp: store_insert_p_def Let_def at x frame_def below_refl split: option.splits if_splits prod.splits bool.splits;
      metis pdb_frames(1,4) [OF t p] x(2))
qed

lemma store_update_p_frame:
  assumes t: "tables_apart (se_sql env) (se_names env) R P" and p: "pmysql_ok (se_sql env) P"
    and c: "memc_ok (se_mem env) C" and old: "pfeedid_at req_hsz msg = Some old"
    and x: "pfeed_at (req_hsz + pfeedid_sz) msg = Some x" "prow_ok x"
    and op: "store_update_p env 1 msg (d, m) = Some (b, d', m')"
  shows "fframe R C (d, m) (d', m')"
proof -
  have at: "pfeedid_at (req_hsz + pfeedid_sz + 4) msg = Some (fst x)" using pfeed_at_ok(1) [OF x(1)] by simp
  have "pfeedid_ok (fst x)" using x(2) by (simp add: prow_ok_def)
  note M = pmemc_frames(1) [OF c this, of m]
  have "\<forall>q e. pdb_update (se_sql env) old x d = Some (q, e) \<longrightarrow> old = fst x \<longrightarrow> R e = R d"
    using pdb_frames(2) [OF t p _ x(2)] by blast
  with op M show ?thesis
    by (auto simp: store_update_p_def Let_def at old x pfeedid_equal_iff frame_def below_refl
      split: option.splits if_splits prod.splits)
qed

lemma store_del_p_frame:
  assumes t: "tables_apart (se_sql env) (se_names env) R P" and p: "pmysql_ok (se_sql env) P"
    and c: "memc_ok (se_mem env) C" and f: "pfeedid_at req_hsz msg = Some f"
    and op: "store_del_p env 1 msg (d, m) = Some (b, d', m')"
  shows "fframe R C (d, m) (d', m')"
proof -
  have fo: "pfeedid_ok f" using f by (auto simp: pfeedid_at_def rd_pfeedid_ok split: if_splits)
  have "below generate_feedkey feedid_ok (C (snd (pmemc_del (se_mem env) f m))) (C m)"
    using pmemc_frames(2) [OF c, of "(f, 0, [])"] fo by simp
  with op pdb_frames(3) [OF t p _ fo] show ?thesis
    by (auto simp: store_del_p_def Let_def f frame_def below_refl split: option.splits if_splits prod.splits)
qed

end
