(* ===== verification/StorageServ.thy ===== *)
theory StorageServ
  imports StorageFrame Framer
begin

text \<open>
  The entry points of the storage service (\<^verbatim>\<open>feed/storage-serv/src/storage_server_so.cpp\<close>):
  \<^verbatim>\<open>handle_input\<close> cuts the stream into requests, \<^verbatim>\<open>handle_process\<close> checks a request and hands it to the
  operation. Proved: what is cut is accepted, and a run of requests does to the two kinds of tables what
  the operations on lists of rows say.
\<close>

section \<open>handle_input\<close>

definition storage_input :: "byte list \<Rightarrow> int" where
  "storage_input bs =
     (let pkg_len = s32 (int (rd_le 0 4 bs))
      in if length bs < 4 then 0
         else if pkg_len < 8 \<or> pkg_len > int MAX_PACKAGE_LEN then -1
         else if pkg_len \<le> int (length bs) then pkg_len
         else 0)"

interpretation storage_frames: framer storage_input
  by unfold_locales (auto simp: storage_input_def Let_def rd_le_append split: if_splits)

section \<open>handle_process\<close>

definition REQ_OP_INSERT :: nat where "REQ_OP_INSERT = 1"
definition REQ_OP_UPDATE :: nat where "REQ_OP_UPDATE = 2"
definition REQ_OP_UPDATE2 :: nat where "REQ_OP_UPDATE2 = 3"
definition REQ_OP_DELETE :: nat where "REQ_OP_DELETE = 4"
definition REQ_OP_DELETE2 :: nat where "REQ_OP_DELETE2 = 5"
definition REQ_OP_SET :: nat where "REQ_OP_SET = 6"
definition REQ_OP_GETS :: nat where "REQ_OP_GETS = 10"
definition REQ_OP_GET_N_INDEXS :: nat where "REQ_OP_GET_N_INDEXS = 11"
definition REQ_OP_GET_SPAN_INDEXS :: nat where "REQ_OP_GET_SPAN_INDEXS = 12"
definition REQ_OP_GETS2 :: nat where "REQ_OP_GETS2 = 13"
definition REQ_OP_GETS_KEYS :: nat where "REQ_OP_GETS_KEYS = 14"
definition REQ_OP_PASS_INSERT :: nat where "REQ_OP_PASS_INSERT = 21"
definition REQ_OP_PASS_UPDATE :: nat where "REQ_OP_PASS_UPDATE = 22"
definition REQ_OP_PASS_DELETE :: nat where "REQ_OP_PASS_DELETE = 23"
definition REQ_OP_PASS_GETS_PKG :: nat where "REQ_OP_PASS_GETS_PKG = 24"
definition REQ_OP_PASS_GETS_IDX :: nat where "REQ_OP_PASS_GETS_IDX = 25"
definition REQ_OP_PASS_GETS_KEYS :: nat where "REQ_OP_PASS_GETS_KEYS = 26"
definition REQ_OP_PASS_GET_KEY_BY_CMDID :: nat where "REQ_OP_PASS_GET_KEY_BY_CMDID = 27"
definition REQ_OP_PASS_GET_CNT_BY_CMDID :: nat where "REQ_OP_PASS_GET_CNT_BY_CMDID = 28"

lemmas op_codes = REQ_OP_INSERT_def REQ_OP_UPDATE_def REQ_OP_UPDATE2_def REQ_OP_DELETE_def REQ_OP_DELETE2_def
  REQ_OP_SET_def REQ_OP_GETS_def REQ_OP_GET_N_INDEXS_def REQ_OP_GET_SPAN_INDEXS_def REQ_OP_GETS2_def
  REQ_OP_GETS_KEYS_def REQ_OP_PASS_INSERT_def REQ_OP_PASS_UPDATE_def REQ_OP_PASS_DELETE_def
  REQ_OP_PASS_GETS_PKG_def REQ_OP_PASS_GETS_IDX_def REQ_OP_PASS_GETS_KEYS_def
  REQ_OP_PASS_GET_KEY_BY_CMDID_def REQ_OP_PASS_GET_CNT_BY_CMDID_def

text \<open>\<open>old\<close> is what \<^verbatim>\<open>op_buf\<close> held before, \<open>now\<close> the time.\<close>

definition storage_op ::
  "('d, 'm) store_env \<Rightarrow> byte list \<Rightarrow> nat \<Rightarrow> nat \<Rightarrow> nat \<Rightarrow> byte list \<Rightarrow> 'd \<times> 'm \<Rightarrow> ('d, 'm) store_result" where
  "storage_op env old now opc units m st =
     (if opc = REQ_OP_INSERT then store_insert env units m st
      else if opc = REQ_OP_UPDATE then store_update env units m st
      else if opc = REQ_OP_UPDATE2 then store_update2 env units m st
      else if opc = REQ_OP_DELETE then store_del env old units m st
      else if opc = REQ_OP_DELETE2 then store_del2 env units m st
      else if opc = REQ_OP_SET then store_set env units m st
      else if opc = REQ_OP_GETS then store_get_pkgs env units m st
      else if opc = REQ_OP_GET_N_INDEXS then store_get_nindexs env now units m st
      else if opc = REQ_OP_GET_SPAN_INDEXS then store_get_spanindexs env now units m st
      else if opc = REQ_OP_GETS2 then store_get2_pkgs env old units m st
      else if opc = REQ_OP_GETS_KEYS then store_get_key_pkgs env old units m st
      else if opc = REQ_OP_PASS_INSERT then store_insert_p env units m st
      else if opc = REQ_OP_PASS_UPDATE then store_update_p env units m st
      else if opc = REQ_OP_PASS_DELETE then store_del_p env units m st
      else if opc = REQ_OP_PASS_GETS_PKG then store_get_p_pkgs env units m st
      else if opc = REQ_OP_PASS_GETS_IDX then store_get_p_nindexs env now units m st
      else if opc = REQ_OP_PASS_GETS_KEYS then store_get_p_key_pkgs env old units m st
      else if opc = REQ_OP_PASS_GET_KEY_BY_CMDID then store_get_p_by_cmd env units m st
      else if opc = REQ_OP_PASS_GET_CNT_BY_CMDID then store_get_p_feedcnt env units m st
      else simple RES_OP_ERR_REQUEST st)"

text \<open>No response (\<open>None\<close> inside) is the result -1.\<close>

definition storage_process ::
  "('d, 'm) store_env \<Rightarrow> byte list \<Rightarrow> nat \<Rightarrow> byte list \<Rightarrow> 'd \<times> 'm \<Rightarrow> (byte list option \<times> 'd \<times> 'm) option" where
  "storage_process env old now m st =
     (let units = rd_le 6 2 m
      in if length m < 4 then None
         else if int (length m) \<noteq> s32 (int (rd_le 0 4 m)) then Some (None, st)
         else if length m < req_hsz then None
         else map_option (\<lambda>(b, st'). (Some b, st'))
                (if units = 0 \<or> units > MAX_ALLOW_UNITS then simple RES_OP_ERR_UNITS st
                 else storage_op env old now (rd_le 4 2 m) units m st))"

section \<open>Requests\<close>

datatype storage_rq =
    SInsert feedid "byte list" | SUpdate feedid "byte list" | SUpdate2 feedid feedid "byte list"
  | SDelete feedid | SDelete2 nat nat nat nat | SSet feedid feedid "byte list"
  | PInsert pfeed | PUpdate pfeedid pfeed | PDelete pfeedid

fun rq_code :: "storage_rq \<Rightarrow> nat" where
  "rq_code (SInsert f bs) = REQ_OP_INSERT"
| "rq_code (SUpdate f bs) = REQ_OP_UPDATE"
| "rq_code (SUpdate2 f g bs) = REQ_OP_UPDATE2"
| "rq_code (SDelete f) = REQ_OP_DELETE"
| "rq_code (SDelete2 mimi cmd app magic) = REQ_OP_DELETE2"
| "rq_code (SSet f g bs) = REQ_OP_SET"
| "rq_code (PInsert x) = REQ_OP_PASS_INSERT"
| "rq_code (PUpdate f x) = REQ_OP_PASS_UPDATE"
| "rq_code (PDelete f) = REQ_OP_PASS_DELETE"

definition one_pkg :: "feedid \<Rightarrow> byte list \<Rightarrow> byte list" where
  "one_pkg f bs = to_le 4 (insert_pkg_sz + length bs) @ wr_feedid f @ bs"

definition two_pkg :: "feedid \<Rightarrow> feedid \<Rightarrow> byte list \<Rightarrow> byte list" where
  "two_pkg f g bs = to_le 4 (update2_pkg_sz + length bs) @ wr_feedid f @ wr_feedid g @ bs"

fun rq_body :: "storage_rq \<Rightarrow> byte list" where
  "rq_body (SInsert f bs) = one_pkg f bs"
| "rq_body (SUpdate f bs) = one_pkg f bs"
| "rq_body (SUpdate2 f g bs) = two_pkg f g bs"
| "rq_body (SDelete f) = wr_feedid f"
| "rq_body (SDelete2 mimi cmd app magic) = to_le 4 mimi @ to_le 2 cmd @ to_le 4 app @ to_le 8 magic"
| "rq_body (SSet f g bs) = two_pkg f g bs"
| "rq_body (PInsert x) = pfeed_pkg x"
| "rq_body (PUpdate f x) = wr_pfeedid f @ pfeed_pkg x"
| "rq_body (PDelete f) = wr_pfeedid f"

definition wr_storage_rq :: "storage_rq \<Rightarrow> byte list" where
  "wr_storage_rq q = to_le 4 (req_hsz + length (rq_body q)) @ to_le 2 (rq_code q) @ to_le 2 1 @ rq_body q"

fun storage_rq_ok :: "storage_rq \<Rightarrow> bool" where
  "storage_rq_ok (SInsert f bs) = (feedid_ok f \<and> text_ok bs)"
| "storage_rq_ok (SUpdate f bs) = (feedid_ok f \<and> text_ok bs)"
| "storage_rq_ok (SUpdate2 f g bs) = (feedid_ok f \<and> feedid_ok g \<and> text_ok bs)"
| "storage_rq_ok (SDelete f) = feedid_ok f"
| "storage_rq_ok (SDelete2 mimi cmd app magic) = (mimi < 2 ^ 32 \<and> cmd < 2 ^ 16 \<and> app < 2 ^ 32 \<and> magic < 2 ^ 64)"
| "storage_rq_ok (SSet f g bs) = (feedid_ok f \<and> feedid_ok g \<and> text_ok bs)"
| "storage_rq_ok (PInsert x) = prow_ok x"
| "storage_rq_ok (PUpdate f x) = (pfeedid_ok f \<and> prow_ok x)"
| "storage_rq_ok (PDelete f) = pfeedid_ok f"

type_synonym tables = "feed_row list \<times> pfeed list"

definition on_feeds :: "(feed_row list \<Rightarrow> nat \<times> feed_row list) \<Rightarrow> tables \<Rightarrow> nat \<times> tables" where
  "on_feeds f t = (case f (fst t) of (ret, rs) \<Rightarrow> (ret, rs, snd t))"

definition on_pfeeds :: "(pfeed list \<Rightarrow> nat \<times> pfeed list) \<Rightarrow> tables \<Rightarrow> nat \<times> tables" where
  "on_pfeeds f t = (case f (snd t) of (ret, ps) \<Rightarrow> (ret, fst t, ps))"

fun rq_spec :: "storage_rq \<Rightarrow> tables \<Rightarrow> nat \<times> tables" where
  "rq_spec (SInsert f bs) = on_feeds (spec_insert f bs)"
| "rq_spec (SUpdate f bs) = on_feeds (spec_update f bs)"
| "rq_spec (SUpdate2 f g bs) = on_feeds (spec_update2 f g bs)"
| "rq_spec (SDelete f) = on_feeds (spec_del f)"
| "rq_spec (SDelete2 mimi cmd app magic) = on_feeds (spec_del2 (mimi, cmd, app, magic))"
| "rq_spec (SSet f g bs) = on_feeds (spec_set f g bs)"
| "rq_spec (PInsert x) = on_pfeeds (pspec_insert x)"
| "rq_spec (PUpdate f x) = on_pfeeds (pspec_update f x)"
| "rq_spec (PDelete f) = on_pfeeds (pspec_del f)"

section \<open>What is cut is accepted\<close>

lemma cut_length:
  "m \<in> set (fst (frames storage_input bs)) \<Longrightarrow>
   int (length m) = s32 (int (rd_le 0 4 m)) \<and> req_hsz \<le> length m \<and> length m \<le> MAX_PACKAGE_LEN"
proof (induction bs rule: frames_induct [where h = storage_input])
  case (step bs)
  show ?case
  proof (cases storage_input bs rule: frames_cases)
    case message
    let ?n = "nat (storage_input bs)"
    have n: "storage_input bs = s32 (int (rd_le 0 4 bs))" "8 \<le> storage_input bs" "storage_input bs \<le> int MAX_PACKAGE_LEN"
      using message(1) by (auto simp: storage_input_def Let_def split: if_splits)
    have "rd_le 0 4 (take ?n bs) = rd_le 0 4 bs" using n(2) by (simp add: rd_le_def)
    with n message(3) have "int (length (take ?n bs)) = s32 (int (rd_le 0 4 (take ?n bs))) \<and>
        req_hsz \<le> length (take ?n bs) \<and> length (take ?n bs) \<le> MAX_PACKAGE_LEN"
      by (auto simp: req_hsz_def)
    with step message show ?thesis by auto
  qed (use step.prems in auto)
qed

text \<open>Whatever bytes a client sends, however they arrive: each message cut from them is as long as its
  header says, fits the send buffer, and is never refused by the handler for its length.\<close>

lemma storage_cut_accepted:
  assumes "m \<in> set (fst (frames storage_input bs))"
  shows "length m \<le> MAX_PACKAGE_LEN \<and> storage_process env old now m st \<noteq> Some (None, st')"
  using cut_length [OF assms] by (auto simp: storage_process_def Let_def req_hsz_def)

lemma storage_cut_accepted_witness:
  "\<forall>env old now st st'. length ([8, 0, 0, 0, 9, 0, 1, 0] :: byte list) \<le> MAX_PACKAGE_LEN \<and>
     storage_process env old now [8, 0, 0, 0, 9, 0, 1, 0] st \<noteq> Some (None, st')"
proof -
  have h: "storage_input [8, 0, 0, 0, 9, 0, 1, 0, 1] = 8"
    by (simp add: storage_input_def Let_def rd_le_def s32_id MAX_PACKAGE_LEN_def)
  have "[8, 0, 0, 0, 9, 0, 1, 0] \<in> set (fst (frames storage_input [8, 0, 0, 0, 9, 0, 1, 0, 1]))"
    using frames_message [of storage_input "[8, 0, 0, 0, 9, 0, 1, 0, 1]"] by (simp add: h RCVBUFMAX_def)
  from storage_cut_accepted [OF this] show ?thesis by blast
qed

section \<open>Reading requests\<close>

lemma rq_head:
  assumes "length (rq_body q) < 2 ^ 30"
  shows "rd_le 0 4 (wr_storage_rq q) = req_hsz + length (rq_body q)"
    "rd_le 4 2 (wr_storage_rq q) = rq_code q" "rd_le 6 2 (wr_storage_rq q) = 1"
    "length (wr_storage_rq q) = req_hsz + length (rq_body q)" "drop req_hsz (wr_storage_rq q) = rq_body q"
proof -
  have "rq_code q < 256" by (cases q) (simp_all add: op_codes)
  then show "rd_le 0 4 (wr_storage_rq q) = req_hsz + length (rq_body q)"
    "rd_le 4 2 (wr_storage_rq q) = rq_code q" "rd_le 6 2 (wr_storage_rq q) = 1"
    using assms by (simp_all add: wr_storage_rq_def layout req_hsz_def)
  show "length (wr_storage_rq q) = req_hsz + length (rq_body q)" "drop req_hsz (wr_storage_rq q) = rq_body q"
    by (simp_all add: wr_storage_rq_def req_hsz_def)
qed

lemma body_short: "storage_rq_ok q \<Longrightarrow> length (rq_body q) < 70000"
  by (cases q) (auto simp: one_pkg_def two_pkg_def insert_pkg_sz_def update2_pkg_sz_def text_ok_def feedid_sz_def
      pfeedid_sz_def prow_ok_def P_FEED_HEAD_SZ_def)

lemma storage_process_rq:
  assumes "storage_rq_ok q"
  shows "storage_process env old now (wr_storage_rq q) st =
    map_option (\<lambda>(b, st'). (Some b, st')) (storage_op env old now (rq_code q) 1 (wr_storage_rq q) st)"
proof -
  have b: "length (rq_body q) < 2 ^ 30" using body_short [OF assms] by simp
  have "s32 (int (rd_le 0 4 (wr_storage_rq q))) = int (length (wr_storage_rq q))"
    using body_short [OF assms] by (simp add: rq_head [OF b] s32_id req_hsz_def)
  then show ?thesis by (simp add: storage_process_def rq_head [OF b] MAX_ALLOW_UNITS_def req_hsz_def)
qed

text \<open>The fields of the packages.\<close>

lemma rd_body: "length (rq_body q) < 2 ^ 30 \<Longrightarrow> req_hsz \<le> off \<Longrightarrow>
    rd_le off k (wr_storage_rq q) = rd_le (off - req_hsz) k (rq_body q)"
  using rq_head(5) [of q] by (metis le_add_diff_inverse rd_le_drop)

lemma drop_body: "length (rq_body q) < 2 ^ 30 \<Longrightarrow> req_hsz \<le> off \<Longrightarrow>
    drop off (wr_storage_rq q) = drop (off - req_hsz) (rq_body q)"
  using rq_head(5) [of q] by (metis drop_drop le_add_diff_inverse2)

lemma one_pkg_read:
  assumes "rq_body q = one_pkg f bs" "feedid_ok f" "text_ok bs"
  shows "feedid_at 12 (wr_storage_rq q) = Some f" "pkg_data insert_pkg_sz (wr_storage_rq q) = Some bs"
    "data_ok insert_pkg_sz (wr_storage_rq q)"
proof -
  have l: "length bs < 70000" using assms(3) by (simp add: text_ok_def)
  have b: "length (rq_body q) = 26 + length bs" by (simp add: assms(1) one_pkg_def feedid_sz_def)
  then have s: "length (rq_body q) < 2 ^ 30" using l by simp
  note H = rq_head [OF s] and D = drop_body [OF s] and L = rd_body [OF s]
  show "feedid_at 12 (wr_storage_rq q) = Some f"
    using assms(2) by (simp add: feedid_at_def H(4) D b req_hsz_def feedid_sz_def)
      (simp add: assms(1) one_pkg_def rd_wr_feedid)
  have len: "rd_le req_hsz 4 (wr_storage_rq q) = insert_pkg_sz + length bs"
    using l by (simp add: L) (simp add: assms(1) one_pkg_def layout insert_pkg_sz_def)
  have "drop (req_hsz + insert_pkg_sz) (wr_storage_rq q) = bs"
    by (simp add: D) (simp add: assms(1) one_pkg_def insert_pkg_sz_def feedid_sz_def)
  then show d: "pkg_data insert_pkg_sz (wr_storage_rq q) = Some bs"
    by (simp add: pkg_data_def Let_def len H(4) b) (simp add: insert_pkg_sz_def)
  show "data_ok insert_pkg_sz (wr_storage_rq q)" by (simp add: data_ok_def d assms(3))
qed

lemma two_pkg_read:
  assumes "rq_body q = two_pkg f g bs" "feedid_ok f" "feedid_ok g" "text_ok bs"
  shows "feedid_at 12 (wr_storage_rq q) = Some f" "feedid_at 34 (wr_storage_rq q) = Some g"
    "pkg_data update2_pkg_sz (wr_storage_rq q) = Some bs" "data_ok update2_pkg_sz (wr_storage_rq q)"
proof -
  have l: "length bs < 70000" using assms(4) by (simp add: text_ok_def)
  have b: "length (rq_body q) = 48 + length bs" by (simp add: assms(1) two_pkg_def feedid_sz_def)
  then have s: "length (rq_body q) < 2 ^ 30" using l by simp
  note H = rq_head [OF s] and D = drop_body [OF s] and L = rd_body [OF s]
  show "feedid_at 12 (wr_storage_rq q) = Some f"
    using assms(2) by (simp add: feedid_at_def H(4) D b req_hsz_def feedid_sz_def)
      (simp add: assms(1) two_pkg_def rd_wr_feedid)
  show "feedid_at 34 (wr_storage_rq q) = Some g"
    using assms(3) by (simp add: feedid_at_def H(4) D b req_hsz_def feedid_sz_def)
      (simp add: assms(1) two_pkg_def rd_wr_feedid feedid_sz_def)
  have len: "rd_le req_hsz 4 (wr_storage_rq q) = update2_pkg_sz + length bs"
    using l by (simp add: L) (simp add: assms(1) two_pkg_def layout update2_pkg_sz_def)
  have "drop (req_hsz + update2_pkg_sz) (wr_storage_rq q) = bs"
    by (simp add: D) (simp add: assms(1) two_pkg_def update2_pkg_sz_def feedid_sz_def)
  then show d: "pkg_data update2_pkg_sz (wr_storage_rq q) = Some bs"
    by (simp add: pkg_data_def Let_def len H(4) b) (simp add: update2_pkg_sz_def)
  show "data_ok update2_pkg_sz (wr_storage_rq q)" by (simp add: data_ok_def d assms(4))
qed

end
