(* ===== verification/StorageRun.thy ===== *)
theory StorageRun
  imports StorageServ StoreOps
begin

text \<open>
  Runs of the storage service. Proved: a request that changes the tables is answered as its operation on
  the lists of rows says, or with an error that changes nothing when the database fails; a stream of such
  requests is cut and answered one by one.
\<close>

section \<open>Reading the other requests\<close>

lemma delete_read:
  assumes "feedid_ok f"
  shows "feedid_at req_hsz (wr_storage_rq (SDelete f)) = Some f"
proof -
  have s: "length (rq_body (SDelete f)) < 2 ^ 30" by (simp add: feedid_sz_def)
  show ?thesis using rq_head(4,5) [OF s] rd_wr_feedid [OF assms, of "[]"] by (simp add: feedid_at_def)
qed

lemma delete2_read:
  assumes "mimi < 2 ^ 32" "cmd < 2 ^ 16" "app < 2 ^ 32" "magic < 2 ^ 64"
  shows "del2_at req_hsz (wr_storage_rq (SDelete2 mimi cmd app magic)) = Some (mimi, cmd, app, magic)"
proof -
  let ?q = "SDelete2 mimi cmd app magic"
  have s: "length (rq_body ?q) < 2 ^ 30" by simp
  show ?thesis
    using assms rd_body [OF s] rq_head(4) [OF s] by (simp add: del2_at_def req_hsz_def get2_pkg_sz_def layout)
qed

lemma pfeed_pkg_read:
  assumes "prow_ok x" "drop off m = pfeed_pkg x" "off \<le> length m"
  shows "pfeed_at off m = Some x"
proof -
  obtain f act bs where x: "x = (f, act, bs)" by (cases x) auto
  have ok: "pfeedid_ok f" "act < 2 ^ 32" "length bs < 70000" using assms(1) by (auto simp: x prow_ok_def text_ok_def)
  have l: "length m = off + (P_FEED_HEAD_SZ + length bs)"
    using assms(2,3) by (metis add.commute le_add_diff_inverse2 length_drop length_pfeed_pkg snd_conv x)
  have r: "rd_le (off + k) n m = rd_le k n (pfeed_pkg x)" for k n using assms(2) by (metis rd_le_drop)
  have d: "drop (off + k) m = drop k (pfeed_pkg x)" for k using assms(2) by (metis add.commute drop_drop)
  have "rd_le off 4 m = P_FEED_HEAD_SZ + length bs"
    using r [of 0 4] ok by (simp add: x pfeed_pkg_def layout P_FEED_HEAD_SZ_def)
  then show ?thesis
    using ok by (simp add: pfeed_at_def Let_def l r d)
      (simp add: x pfeed_pkg_def layout P_FEED_HEAD_SZ_def rd_wr_pfeedid pfeedid_sz_def)
qed

lemma pinsert_read: "prow_ok x \<Longrightarrow> pfeed_at req_hsz (wr_storage_rq (PInsert x)) = Some x"
  using rq_head(4,5) [of "PInsert x"] body_short [of "PInsert x"]
  by (intro pfeed_pkg_read) simp_all

lemma pid_read:
  assumes "pfeedid_ok f" "rq_body q = wr_pfeedid f @ r" "length (rq_body q) < 2 ^ 30"
  shows "pfeedid_at req_hsz (wr_storage_rq q) = Some f"
  using rq_head(4,5) [OF assms(3)] assms(1,2) by (simp add: pfeedid_at_def rd_wr_pfeedid)

lemma pupdate_read:
  assumes "pfeedid_ok f" "prow_ok x"
  shows "pfeedid_at req_hsz (wr_storage_rq (PUpdate f x)) = Some f"
    "pfeed_at (req_hsz + pfeedid_sz) (wr_storage_rq (PUpdate f x)) = Some x"
proof -
  have s: "length (rq_body (PUpdate f x)) < 2 ^ 30" using body_short [of "PUpdate f x"] assms by simp
  show "pfeedid_at req_hsz (wr_storage_rq (PUpdate f x)) = Some f" by (rule pid_read [OF assms(1) _ s]) simp
  show "pfeed_at (req_hsz + pfeedid_sz) (wr_storage_rq (PUpdate f x)) = Some x"
    by (rule pfeed_pkg_read [OF assms(2)]) (simp_all add: drop_body [OF s] rq_head(4) [OF s])
qed

section \<open>The state\<close>

definition storage_world ::
  "('d, 'm) store_env \<Rightarrow> ('d \<Rightarrow> feed_row list) \<Rightarrow> ('d \<Rightarrow> pfeed list) \<Rightarrow> ('m \<Rightarrow> memc_map) \<Rightarrow> bool" where
  "storage_world env R P C \<longleftrightarrow>
     store_world env R C \<and> pstore_world env P C \<and> tables_apart (se_sql env) (se_names env) R P \<and>
     (\<forall>k d. sq_conn (se_sql env) k d)"

definition storage_inv ::
  "('d \<Rightarrow> feed_row list) \<Rightarrow> ('d \<Rightarrow> pfeed list) \<Rightarrow> ('m \<Rightarrow> memc_map) \<Rightarrow> 'd \<times> 'm \<Rightarrow> bool" where
  "storage_inv R P C st \<longleftrightarrow> store_inv R C st \<and> pstore_inv P C st"

abbreviation both :: "('d \<Rightarrow> feed_row list) \<Rightarrow> ('d \<Rightarrow> pfeed list) \<Rightarrow> 'd \<Rightarrow> tables" where
  "both R P \<equiv> \<lambda>d. (R d, P d)"

lemma storage_worldD:
  assumes "storage_world env R P C"
  shows "store_world env R C" "pstore_world env P C" "tables_apart (se_sql env) (se_names env) R P"
    "get_db_conn (se_sql env) mimi d" "memc_ok (se_mem env) C" "mm_handle (se_mem env) m"
    "mysql_ok (se_sql env) (se_names env) R"
  using assms store_worldD [of env R C] by (auto simp: storage_world_def get_db_conn_def)

text \<open>What is served on one kind of tables, and leaves the other kind, is served on both.\<close>

lemma serves_feeds:
  assumes "serves env (store_inv R C) R d spec (b, d', m')" "pframe P C (d, m) (d', m')" "pstore_inv P C (d, m)"
  shows "serves env (storage_inv R P C) (both R P) d (on_feeds spec) (b, d', m')"
proof -
  have "pstore_inv P C (d', m')" using assms(2,3) caches_below by (auto simp: pstore_inv_def frame_def)
  with assms(1,2) show ?thesis
    by (auto simp: serves_def storage_inv_def frame_def on_feeds_def split: prod.splits)
qed

lemma serves_pfeeds:
  assumes "serves env (pstore_inv P C) P d spec (b, d', m')" "fframe R C (d, m) (d', m')" "store_inv R C (d, m)"
  shows "serves env (storage_inv R P C) (both R P) d (on_pfeeds spec) (b, d', m')"
proof -
  have "store_inv R C (d', m')" using assms(2,3) caches_below by (auto simp: store_inv_def frame_def)
  with assms(1,2) show ?thesis
    by (auto simp: serves_def storage_inv_def frame_def on_pfeeds_def split: prod.splits)
qed

section \<open>The operations return\<close>

lemma text_escaped:
  assumes "mysql_ok sq names R" "text_ok bs"
  shows "escaped sq bs = Some (sq_escape sq bs)"
proof -
  have "length (sq_escape sq bs) \<le> 2 * length bs + 1" using assms(1) by (simp add: mysql_ok_def)
  with assms(2) show ?thesis by (simp add: escaped_def text_ok_def MAX_FEEDDATA_SZ_def)
qed

lemma store_insert_returns:
  assumes "storage_world env R P C" "feedid_at 12 msg = Some f" "pkg_data insert_pkg_sz msg = Some bs" "text_ok bs"
  shows "\<exists>b d' m'. store_insert env 1 msg (d, m) = Some (b, d', m')"
  using storage_worldD(4) [OF assms(1)] text_escaped [OF storage_worldD(7) [OF assms(1)] assms(4)] assms(2,3)
  by (auto simp: store_insert_def Let_def split: prod.split bool.split)

lemma store_update_returns:
  assumes "storage_world env R P C" "feedid_at 12 msg = Some f" "pkg_data insert_pkg_sz msg = Some bs" "text_ok bs"
  shows "\<exists>b d' m'. store_update env 1 msg (d, m) = Some (b, d', m')"
  using storage_worldD(4) [OF assms(1)] text_escaped [OF storage_worldD(7) [OF assms(1)] assms(4)] assms(2,3)
  by (auto simp: store_update_def Let_def split: prod.split bool.split)

lemma cached_small:
  assumes "storage_world env R P C" "store_inv R C (d, m)" "feedid_ok f"
  shows "memc_get (se_mem env) MAX_PACKAGE_LEN f m \<noteq> None"
proof -
  have "length v < 70000" if "C m (generate_feedkey f) = Some (v, fl)" for v fl
    using store_inv_hit [OF assms(2,3)] that assms(2) by (fastforce simp: store_inv_def rows_ok_def text_ok_def)
  then show ?thesis
    using memc_okD(2) [OF storage_worldD(5) [OF assms(1)]]
    by (fastforce simp: memc_get_def MAX_PACKAGE_LEN_def feed_hsz_def split: option.splits)
qed

lemma store_update2_returns:
  assumes "storage_world env R P C" "store_inv R C (d, m)" "feedid_at 12 msg = Some f" "feedid_at 34 msg = Some g"
    "pkg_data update2_pkg_sz msg = Some bs" "text_ok bs"
  shows "\<exists>b d' m'. store_update2 env 1 msg (d, m) = Some (b, d', m')"
proof -
  obtain x where x: "memc_get (se_mem env) MAX_PACKAGE_LEN f m = Some x"
    using cached_small [OF assms(1,2) feedid_at_ok [OF assms(3)]] by auto
  show ?thesis
    using storage_worldD(4,6) [OF assms(1)] text_escaped [OF storage_worldD(7) [OF assms(1)] assms(6)] assms(3-5) x
    by (auto simp: store_update2_def Let_def split: prod.split)
qed

lemma store_set_returns:
  assumes "storage_world env R P C" "feedid_at 12 msg = Some f" "feedid_at 34 msg = Some g"
    "pkg_data update2_pkg_sz msg = Some bs" "text_ok bs"
  shows "\<exists>b d' m'. store_set env 1 msg (d, m) = Some (b, d', m')"
  using storage_worldD(4,6) [OF assms(1)] text_escaped [OF storage_worldD(7) [OF assms(1)] assms(5)] assms(2-4)
  by (auto simp: store_set_def Let_def split: prod.split)

lemma store_del_returns:
  assumes "storage_world env R P C" "feedid_at req_hsz msg = Some f"
  shows "\<exists>b d' m'. store_del env old 1 msg (d, m) = Some (b, d', m')"
proof -
  have "feedids_at req_hsz 1 msg = Some [f]" by (simp add: assms(2))
  with storage_worldD(4,6) [OF assms(1)] show ?thesis by (auto simp: store_del_def Let_def split: prod.split)
qed

text \<open>A key of at most a hundred rows.\<close>

lemma store_del2_returns:
  assumes w: "storage_world env R P C" and i: "store_inv R C (d, m)"
    and k: "del2_at req_hsz msg = Some (mimi, cmd, app, magic)"
    and n: "length (filter (has_key mimi cmd app magic) (R d)) \<le> MAX_FEEDID_NUM"
  shows "\<exists>b d' m'. store_del2 env 1 msg (d, m) = Some (b, d', m')"
proof -
  let ?t = "feedids_sql (se_names env) mimi cmd app magic"
  let ?rs = "filter (has_key mimi cmd app magic) (R d)"
  note W = storage_worldD [OF w]
  obtain q rows e where e: "sq_select (se_sql env) ?t d = ((q, rows), e)"
    by (cases "sq_select (se_sql env) ?t d") auto
  have "answers (se_sql env) R ?t (\<lambda>rs rows. rows = map (id_row \<circ> fst) (filter (has_key mimi cmd app magic) rs))"
    using W(7) unfolding mysql_ok_def by blast
  from answersD [OF this e] have a: "q < 0 \<or> q = int (length ?rs) \<and> rows = map (id_row \<circ> fst) ?rs" by auto
  have "get_feedids (se_sql env) (se_names env) mimi cmd app magic d \<noteq> None"
  proof (cases "q \<le> 0")
    case False
    with a have q: "q = int (length ?rs)" "rows = map (id_row \<circ> fst) ?rs" by auto
    have "\<not> (\<exists>r \<in> set (take (nat q) rows). length r < 5)" unfolding q by (auto simp: id_row_def)
    with n e q show ?thesis by (auto simp: get_feedids_def Let_def)
  qed (use e in \<open>auto simp: get_feedids_def Let_def\<close>)
  then show ?thesis using W(4,6) k by (auto simp: store_del2_def Let_def split: prod.split)
qed

section \<open>One request\<close>

text \<open>A request by key reaches a hundred rows at most.\<close>

fun rq_room :: "storage_rq \<Rightarrow> tables \<Rightarrow> bool" where
  "rq_room (SDelete2 mimi cmd app magic) t = (length (filter (has_key mimi cmd app magic) (fst t)) \<le> MAX_FEEDID_NUM)"
| "rq_room _ t = True"

text \<open>The operation of a request returns, and does what it should.\<close>

definition op_serves ::
  "('d, 'm) store_env \<Rightarrow> ('d \<Rightarrow> feed_row list) \<Rightarrow> ('d \<Rightarrow> pfeed list) \<Rightarrow> ('m \<Rightarrow> memc_map) \<Rightarrow> 'd \<Rightarrow>
   (tables \<Rightarrow> nat \<times> tables) \<Rightarrow> ('d, 'm) store_result \<Rightarrow> bool" where
  "op_serves env R P C d spec r \<longleftrightarrow> (\<exists>x. r = Some x \<and> serves env (storage_inv R P C) (both R P) d spec x)"

lemma op_serves_feeds:
  assumes "\<exists>b d' m'. r = Some (b, d', m')" "storage_inv R P C (d, m)"
    "\<And>x. r = Some x \<Longrightarrow> serves env (store_inv R C) R d spec x"
    "\<And>b d' m'. r = Some (b, d', m') \<Longrightarrow> pframe P C (d, m) (d', m')"
  shows "op_serves env R P C d (on_feeds spec) r"
proof -
  obtain b d' m' where r: "r = Some (b, d', m')" using assms(1) by blast
  from serves_feeds [OF assms(3) [OF r] assms(4) [OF r]] assms(2) r show ?thesis
    by (simp add: op_serves_def storage_inv_def)
qed

lemma op_serves_pfeeds:
  assumes "\<exists>x. r = Some x \<and> serves env (pstore_inv P C) P d spec x" "storage_inv R P C (d, m)"
    "\<And>b d' m'. r = Some (b, d', m') \<Longrightarrow> fframe R C (d, m) (d', m')"
  shows "op_serves env R P C d (on_pfeeds spec) r"
proof -
  obtain b d' m' where r: "r = Some (b, d', m')" "serves env (pstore_inv P C) P d spec (b, d', m')"
    using assms(1) by (metis prod_cases3)
  from serves_pfeeds [OF r(2) assms(3) [OF r(1)]] assms(2) r(1) show ?thesis
    by (simp add: op_serves_def storage_inv_def)
qed

text \<open>The operations on feeds.\<close>

lemma one_pkg_served:
  assumes w: "storage_world env R P C" and i: "storage_inv R P C (d, m)" and ok: "feedid_ok f" "text_ok bs"
    and q: "rq_body q = one_pkg f bs"
  shows "op_serves env R P C d (on_feeds (spec_insert f bs)) (store_insert env 1 (wr_storage_rq q) (d, m))"
    "op_serves env R P C d (on_feeds (spec_update f bs)) (store_update env 1 (wr_storage_rq q) (d, m))"
proof -
  note W = storage_worldD [OF w] and rd = one_pkg_read [OF q ok]
  have i2: "store_inv R C (d, m)" using i by (simp add: storage_inv_def)
  show "op_serves env R P C d (on_feeds (spec_insert f bs)) (store_insert env 1 (wr_storage_rq q) (d, m))"
    using store_insert_serves [OF W(1) i2 rd(3) _ rd(1)] rd(2)
    by (intro op_serves_feeds [OF store_insert_returns [OF w rd(1,2) ok(2)] i] store_insert_frame [OF W(3) rd(3)]) simp_all
  show "op_serves env R P C d (on_feeds (spec_update f bs)) (store_update env 1 (wr_storage_rq q) (d, m))"
    using store_update_serves [OF W(1) i2 rd(3) _ rd(1)] rd(2)
    by (intro op_serves_feeds [OF store_update_returns [OF w rd(1,2) ok(2)] i] store_update_frame [OF W(3,5) rd(3)]) simp_all
qed

lemma two_pkg_served:
  assumes w: "storage_world env R P C" and i: "storage_inv R P C (d, m)" and ok: "feedid_ok f" "feedid_ok g" "text_ok bs"
    and q: "rq_body q = two_pkg f g bs"
  shows "op_serves env R P C d (on_feeds (spec_update2 f g bs)) (store_update2 env 1 (wr_storage_rq q) (d, m))"
    "op_serves env R P C d (on_feeds (spec_set f g bs)) (store_set env 1 (wr_storage_rq q) (d, m))"
proof -
  note W = storage_worldD [OF w] and rd = two_pkg_read [OF q ok]
  have i2: "store_inv R C (d, m)" using i by (simp add: storage_inv_def)
  show "op_serves env R P C d (on_feeds (spec_update2 f g bs)) (store_update2 env 1 (wr_storage_rq q) (d, m))"
    using store_update2_serves [OF W(1) i2 rd(4) _ rd(1,2)] rd(3)
    by (intro op_serves_feeds [OF store_update2_returns [OF w i2 rd(1-3) ok(3)] i] store_update2_frame [OF W(3,5) rd(4)]) simp_all
  show "op_serves env R P C d (on_feeds (spec_set f g bs)) (store_set env 1 (wr_storage_rq q) (d, m))"
    using store_set_serves [OF W(1) i2 rd(4) _ rd(1,2)] rd(3)
    by (intro op_serves_feeds [OF store_set_returns [OF w rd(1-3) ok(3)] i] store_set_frame [OF W(3,5) rd(4)]) simp_all
qed

lemma deletes_served:
  assumes w: "storage_world env R P C" and i: "storage_inv R P C (d, m)"
  shows "feedid_at req_hsz msg = Some f \<Longrightarrow>
      op_serves env R P C d (on_feeds (spec_del f)) (store_del env old 1 msg (d, m))"
    "del2_at req_hsz msg = Some (mimi, cmd, app, magic) \<Longrightarrow>
      length (filter (has_key mimi cmd app magic) (R d)) \<le> MAX_FEEDID_NUM \<Longrightarrow>
      op_serves env R P C d (on_feeds (spec_del2 (mimi, cmd, app, magic))) (store_del2 env 1 msg (d, m))"
proof -
  note W = storage_worldD [OF w]
  have i2: "store_inv R C (d, m)" using i by (simp add: storage_inv_def)
  show "op_serves env R P C d (on_feeds (spec_del f)) (store_del env old 1 msg (d, m))"
    if rd: "feedid_at req_hsz msg = Some f"
    using store_del_serves [OF W(1) i2 _ rd]
    by (intro op_serves_feeds [OF store_del_returns [OF w rd] i] store_del_frame [OF W(3,5) _ rd]) simp_all
  show "op_serves env R P C d (on_feeds (spec_del2 (mimi, cmd, app, magic))) (store_del2 env 1 msg (d, m))"
    if rd: "del2_at req_hsz msg = Some (mimi, cmd, app, magic)" and
      n: "length (filter (has_key mimi cmd app magic) (R d)) \<le> MAX_FEEDID_NUM"
    using store_del2_serves [OF W(1) i2 _ rd]
    by (intro op_serves_feeds [OF store_del2_returns [OF w i2 rd n] i] store_del2_frame [OF W(3,5)]) simp_all
qed

text \<open>The operations on passive feeds.\<close>

lemma passive_served:
  assumes w: "storage_world env R P C" and i: "storage_inv R P C (d, m)"
  shows "pfeed_at req_hsz msg = Some x \<Longrightarrow> prow_ok x \<Longrightarrow>
      op_serves env R P C d (on_pfeeds (pspec_insert x)) (store_insert_p env 1 msg (d, m))"
    "pfeedid_at req_hsz msg = Some f \<Longrightarrow> pfeed_at (req_hsz + pfeedid_sz) msg = Some x \<Longrightarrow> prow_ok x \<Longrightarrow>
      op_serves env R P C d (on_pfeeds (pspec_update f x)) (store_update_p env 1 msg (d, m))"
    "pfeedid_at req_hsz msg = Some f \<Longrightarrow>
      op_serves env R P C d (on_pfeeds (pspec_del f)) (store_del_p env 1 msg (d, m))"
proof -
  note W = storage_worldD [OF w]
  note p = pstore_worldD(1) [OF W(2)]
  have i2: "pstore_inv P C (d, m)" using i by (simp add: storage_inv_def)
  show "op_serves env R P C d (on_pfeeds (pspec_insert x)) (store_insert_p env 1 msg (d, m))"
    if rd: "pfeed_at req_hsz msg = Some x" and ok: "prow_ok x"
    using store_insert_p_serves [OF W(2) i2 rd] ok
    by (intro op_serves_pfeeds [OF _ i] store_insert_p_frame [OF W(3) p rd ok]) (auto simp: prow_ok_def)
  show "op_serves env R P C d (on_pfeeds (pspec_update f x)) (store_update_p env 1 msg (d, m))"
    if rd: "pfeedid_at req_hsz msg = Some f" "pfeed_at (req_hsz + pfeedid_sz) msg = Some x" and ok: "prow_ok x"
    using store_update_p_serves [OF W(2) i2 rd] ok
    by (intro op_serves_pfeeds [OF _ i] store_update_p_frame [OF W(3) p W(5) rd ok]) (auto simp: prow_ok_def)
  show "op_serves env R P C d (on_pfeeds (pspec_del f)) (store_del_p env 1 msg (d, m))"
    if rd: "pfeedid_at req_hsz msg = Some f"
    using store_del_p_serves [OF W(2) i2 rd]
    by (intro op_serves_pfeeds [OF _ i] store_del_p_frame [OF W(3) p W(5) rd]) simp_all
qed

lemma storage_op_serves:
  assumes w: "storage_world env R P C" and i: "storage_inv R P C (d, m)" and ok: "storage_rq_ok q"
    and room: "rq_room q (R d, P d)"
  shows "op_serves env R P C d (rq_spec q) (storage_op env old now (rq_code q) 1 (wr_storage_rq q) (d, m))"
proof (cases q)
  case (PDelete f)
  have "pfeedid_at req_hsz (wr_storage_rq (PDelete f)) = Some f"
    using ok body_short [OF ok] by (intro pid_read [where r = "[]"]) (simp_all add: PDelete)
  from passive_served(3) [OF w i this] show ?thesis by (simp add: PDelete storage_op_def op_codes)
qed (use ok room one_pkg_served [OF w i] two_pkg_served [OF w i] delete_read delete2_read deletes_served [OF w i]
      pinsert_read pupdate_read passive_served [OF w i] in \<open>simp_all add: storage_op_def op_codes\<close>)

section \<open>Runs\<close>

text \<open>The messages in the order they are handled, each with what the send buffer held and the time.\<close>

fun storage_run ::
  "('d, 'm) store_env \<Rightarrow> ((byte list \<times> nat) \<times> byte list) list \<Rightarrow> 'd \<times> 'm \<Rightarrow>
   (byte list option list \<times> 'd \<times> 'm) option" where
  "storage_run env [] st = Some ([], st)"
| "storage_run env (((old, now), m) # ms) st =
     (case storage_process env old now m st of
        None \<Rightarrow> None
      | Some (b, st') \<Rightarrow> map_option (\<lambda>(bs, st''). (b # bs, st'')) (storage_run env ms st'))"

fun rqs_spec :: "storage_rq list \<Rightarrow> tables \<Rightarrow> nat list \<times> tables" where
  "rqs_spec [] t = ([], t)"
| "rqs_spec (q # qs) t =
     (case rq_spec q t of (ret, t') \<Rightarrow> (case rqs_spec qs t' of (rets, t'') \<Rightarrow> (ret # rets, t'')))"

fun rqs_room :: "storage_rq list \<Rightarrow> tables \<Rightarrow> bool" where
  "rqs_room [] t = True"
| "rqs_room (q # qs) t = (rq_room q t \<and> rqs_room qs (snd (rq_spec q t)))"

lemma rq_cut:
  assumes "storage_rq_ok q"
  shows "storage_input (wr_storage_rq q @ bs) = int (length (wr_storage_rq q))"
proof -
  have b: "length (rq_body q) < 70000" by (rule body_short [OF assms])
  have h: "rd_le 0 4 (wr_storage_rq q @ bs) = req_hsz + length (rq_body q)"
    "length (wr_storage_rq q) = req_hsz + length (rq_body q)"
    using b rq_head(1,4) [of q] by (simp_all add: rd_le_append req_hsz_def)
  show ?thesis using b by (simp add: storage_input_def Let_def h s32_id req_hsz_def MAX_PACKAGE_LEN_def)
qed

lemma rqs_framed:
  "\<forall>q \<in> set qs. storage_rq_ok q \<Longrightarrow>
   frames storage_input (concat (map wr_storage_rq qs)) = (map wr_storage_rq qs, Incomplete [])"
proof (induction qs)
  case (Cons q qs)
  let ?bs = "concat (map wr_storage_rq qs)"
  have n: "storage_input (wr_storage_rq q @ ?bs) = int (length (wr_storage_rq q))"
    using rq_cut Cons.prems by simp
  have "0 < length (wr_storage_rq q)" "length (wr_storage_rq q) \<le> 80000"
    using body_short [of q] rq_head(4) [of q] Cons.prems by (simp_all add: req_hsz_def)
  with n frames_message [of storage_input "wr_storage_rq q @ ?bs"] Cons show ?case by (simp add: RCVBUFMAX_def)
qed simp

lemma storage_run_spec:
  assumes "storage_world env R P C" "mysql_up (se_sql env)"
  shows "storage_inv R P C (d, m) \<Longrightarrow> \<forall>q \<in> set qs. storage_rq_ok q \<Longrightarrow> rqs_room qs (R d, P d) \<Longrightarrow>
    length ctx = length qs \<Longrightarrow>
    \<exists>d' m'. storage_run env (zip ctx (map wr_storage_rq qs)) (d, m) =
        Some (map (Some \<circ> build_simple_msg) (fst (rqs_spec qs (R d, P d))), d', m') \<and>
      (R d', P d') = snd (rqs_spec qs (R d, P d)) \<and> storage_inv R P C (d', m')"
proof (induction qs arbitrary: d m ctx)
  case (Cons q qs)
  obtain old now ctx' where c: "ctx = (old, now) # ctx'" "length ctx' = length qs"
    using Cons.prems(4) by (cases ctx) auto
  obtain x where x: "storage_op env old now (rq_code q) 1 (wr_storage_rq q) (d, m) = Some x"
    "serves env (storage_inv R P C) (both R P) d (rq_spec q) x"
    using storage_op_serves [OF assms(1) Cons.prems(1), of q old now] Cons.prems(2,3) by (auto simp: op_serves_def)
  then obtain ret d1 m1 where r: "x = (build_simple_msg ret, d1, m1)" "storage_inv R P C (d1, m1)"
    "(ret, R d1, P d1) = rq_spec q (R d, P d)"
    using assms(2) by (cases x) (auto simp: serves_def)
  have room: "rqs_room qs (R d1, P d1)" using Cons.prems(3) by (simp flip: r(3))
  from Cons.IH [OF r(2) _ room c(2)] Cons.prems(2) obtain d' m' where
    "storage_run env (zip ctx' (map wr_storage_rq qs)) (d1, m1) =
        Some (map (Some \<circ> build_simple_msg) (fst (rqs_spec qs (R d1, P d1))), d', m')"
    "(R d', P d') = snd (rqs_spec qs (R d1, P d1))" "storage_inv R P C (d', m')" by auto
  then show ?case
    using Cons.prems(2) x(1) r(1)
    by (intro exI [of _ d'] exI [of _ m']) (simp add: c(1) storage_process_rq comp_def split: prod.split flip: r(3))
qed simp

end
