(* ===== verification/StorageTables.thy ===== *)
theory StorageTables
  imports StorageFrame
begin

text \<open>
  The statements of the storage service read back: each statement on passive feeds gives its arguments, and
  no statement on the one kind of tables reads as one on the other.
\<close>

section \<open>Statements on passive feeds\<close>

definition pscan :: "string \<Rightarrow> string \<Rightarrow> (pfeedid \<times> c_arg list) option" where
  "pscan fmt t =
     (case c_scan fmt t of
        Some (T # T' # N a # N b # N c # N e # N m # N s # N g # N p # r) \<Rightarrow>
          Some (\<lparr>pf_src = \<lparr>fid_mimi = a, fid_cmd_id = b, fid_app_id = c, fid_timestamp = e, fid_magic = m\<rparr>,
                 pf_sender = s, pf_target = g, pf_magic = p\<rparr>, r)
      | _ \<Rightarrow> None)"

definition pscan_data :: "string \<Rightarrow> string \<Rightarrow> pfeed option" where
  "pscan_data fmt t =
     (case pscan fmt t of Some (f, N act # S x # r) \<Rightarrow> Some (f, act, bytes (unescape x)) | _ \<Rightarrow> None)"

definition prows_exec :: "string \<Rightarrow> pfeed list \<Rightarrow> int \<times> pfeed list" where
  "prows_exec t ps =
     (case pscan_data pinsert_fmt t of
        Some x \<Rightarrow> (1, ps @ [x])
      | None \<Rightarrow>
     (case pscan_data pupdate_fmt t of
        Some x \<Rightarrow> (0, map (prenew x) ps)
      | None \<Rightarrow>
     (case pscan pdelete_fmt t of
        Some (f, r) \<Rightarrow> (0, filter (\<lambda>x. fst x \<noteq> f) ps)
      | None \<Rightarrow> (0, ps))))"

definition prows_select :: "string \<Rightarrow> pfeed list \<Rightarrow> string list list" where
  "prows_select t ps =
     (case pscan pexists_fmt t of
        Some (f, r) \<Rightarrow> map (\<lambda>x. [dec (pf_target f)]) (filter (\<lambda>x. fst x = f) ps)
      | None \<Rightarrow>
     (case pscan pselect_fmt t of
        Some (f, r) \<Rightarrow> map prow_row (filter (\<lambda>x. fst x = f) ps)
      | None \<Rightarrow> []))"

lemmas pfmt_defs = pinsert_fmt_def pupdate_fmt_def pdelete_fmt_def pexists_fmt_def pselect_fmt_def pwhere_fmt_def

lemma pchange_text:
  assumes "quotable data"
  shows "c_scan pinsert_fmt (pinsert_sql f act data) = Some (table_args (pf_target f) @ pid_args f @ [N act, S data])"
    "c_scan pupdate_fmt (pupdate_sql old f act data) =
      Some (table_args (pf_target f) @ pid_args f @ N act # S data # pid_args old)"
  unfolding pinsert_sql_def pupdate_sql_def
  by (rule sprintf_scan;
    use assms in \<open>simp add: pfmt_defs table_args_def pid_args_def id_args_def arg_clean_def is_digit_def\<close>)+

lemma psql_text:
  "c_scan pdelete_fmt (psql pdelete_fmt f) = Some (table_args (pf_target f) @ pid_args f)"
  "c_scan pexists_fmt (psql pexists_fmt f) = Some (table_args (pf_target f) @ pid_args f)"
  "c_scan pselect_fmt (psql pselect_fmt f) = Some (table_args (pf_target f) @ pid_args f)"
  unfolding psql_def
  by (rule sprintf_scan;
    simp add: pfmt_defs table_args_def pid_args_def id_args_def arg_clean_def is_digit_def)+

section \<open>A statement is of one kind\<close>

definition std_names :: "nat \<Rightarrow> string" where
  "std_names k = ''db_newsfeed_'' @ dec (k mod 100)"

lemma std_names_ok: "names_ok std_names"
proof -
  have "length (std_names k) < 100" for k using dec_short(1) [of "k mod 100"] mod_less_divisor [of 100 k]
    by (simp add: std_names_def del: mod_less_divisor)
  then show ?thesis
    using dec_digits [of "CHR '' ''"] dec_digits [of "CHR ''%''"] by (auto simp: names_ok_def std_names_def is_digit_def)
qed

lemma std_names_id: "std_names (get_dbid mimi) = ''db_newsfeed_'' @ dec (get_dbid mimi)"
  by (simp add: std_names_def get_dbid_def)

lemmas kinds = fmt_defs pfmt_defs key_data_fmt_def sprintf_def split_dec split_str is_digit_def id_args_def pid_args_def
  table_args_def

lemma drop_dec: "\<not> is_digit c \<Longrightarrow> dropWhile (\<lambda>x. x \<noteq> c) (dec n @ u) = dropWhile (\<lambda>x. x \<noteq> c) u"
  using dec_digits [of _ n] by (subst dropWhile_append2) auto

lemma split_word:
  "c \<noteq> quote \<Longrightarrow> split_arg Str (c # r) t = (S (takeWhile (\<lambda>x. x \<noteq> c) t), dropWhile (\<lambda>x. x \<noteq> c) t)"
  by (simp add: split_arg_def)

lemma passive_no_feed:
  "c_scan insert_fmt (pinsert_sql f act data) = None" "c_scan update_fmt (pinsert_sql f act data) = None"
  "c_scan delete_fmt (pinsert_sql f act data) = None" "c_scan delete2_fmt (pinsert_sql f act data) = None"
  "c_scan insert_fmt (pupdate_sql old f act data) = None" "c_scan update_fmt (pupdate_sql old f act data) = None"
  "c_scan delete_fmt (pupdate_sql old f act data) = None" "c_scan delete2_fmt (pupdate_sql old f act data) = None"
  "c_scan insert_fmt (psql pdelete_fmt f) = None" "c_scan update_fmt (psql pdelete_fmt f) = None"
  "c_scan delete_fmt (psql pdelete_fmt f) = None" "c_scan delete2_fmt (psql pdelete_fmt f) = None"
  by (simp_all add: kinds pinsert_sql_def pupdate_sql_def psql_def split_word drop_dec)

lemma feed_no_passive:
  "c_scan pinsert_fmt (insert_sql std_names f data) = None" "c_scan pinsert_fmt (update_sql std_names old f data) = None"
  "c_scan pinsert_fmt (delete_sql std_names f) = None" "c_scan pinsert_fmt (delete2_sql std_names mimi cmd app magic) = None"
  "c_scan pupdate_fmt (insert_sql std_names f data) = None" "c_scan pupdate_fmt (update_sql std_names old f data) = None"
  "c_scan pupdate_fmt (delete_sql std_names f) = None" "c_scan pupdate_fmt (delete2_sql std_names mimi cmd app magic) = None"
  "c_scan pdelete_fmt (insert_sql std_names f data) = None" "c_scan pdelete_fmt (update_sql std_names old f data) = None"
  "c_scan pdelete_fmt (delete_sql std_names f) = None" "c_scan pdelete_fmt (delete2_sql std_names mimi cmd app magic) = None"
  by (simp_all add: kinds insert_sql_def update_sql_def delete_sql_def delete2_sql_def get_table_name_def std_names_def)

lemma passive_no_query:
  "c_scan exists_fmt (psql pexists_fmt f) = None" "c_scan select_fmt (psql pexists_fmt f) = None"
  "c_scan feedids_fmt (psql pexists_fmt f) = None" "c_scan select2_fmt (psql pexists_fmt f) = None"
  "c_scan key_data_fmt (psql pexists_fmt f) = None"
  "c_scan exists_fmt (psql pselect_fmt f) = None" "c_scan select_fmt (psql pselect_fmt f) = None"
  "c_scan feedids_fmt (psql pselect_fmt f) = None" "c_scan select2_fmt (psql pselect_fmt f) = None"
  "c_scan key_data_fmt (psql pselect_fmt f) = None"
  by (simp_all add: kinds psql_def split_word drop_dec)

lemma query_no_passive:
  "c_scan pexists_fmt (exists_sql std_names f) = None" "c_scan pexists_fmt (select_sql std_names f) = None"
  "c_scan pexists_fmt (feedids_sql std_names mimi cmd app magic) = None"
  "c_scan pexists_fmt (select2_sql std_names mimi cmd app magic) = None" "c_scan pexists_fmt (key_data_sql f) = None"
  "c_scan pselect_fmt (exists_sql std_names f) = None" "c_scan pselect_fmt (select_sql std_names f) = None"
  "c_scan pselect_fmt (feedids_sql std_names mimi cmd app magic) = None"
  "c_scan pselect_fmt (select2_sql std_names mimi cmd app magic) = None" "c_scan pselect_fmt (key_data_sql f) = None"
  by (simp_all add: kinds exists_sql_def select_sql_def feedids_sql_def select2_sql_def key_data_sql_def
      get_table_name_def std_names_def)

end
