(* ===== verification/StorageProps.thy ===== *)
theory StorageProps
  imports StorageRun StorageTables
begin

text \<open>
  The properties of the storage service, each at a concrete database: one that reads the statements and keeps
  the rows of both kinds of tables, which is all that is relied on of MySQL, with a map for memcached.
\<close>

section \<open>The database\<close>

definition tables_exec :: "string \<Rightarrow> tables \<Rightarrow> int \<times> tables" where
  "tables_exec t d =
     (case (rows_exec t (fst d), prows_exec t (snd d)) of ((n, rs), (k, ps)) \<Rightarrow> (max n k, rs, ps))"

definition tables_select :: "string \<Rightarrow> tables \<Rightarrow> (int \<times> string list list) \<times> tables" where
  "tables_select t d =
     (let rows = snd (fst (rows_select t (fst d))) @ prows_select t (snd d) in ((int (length rows), rows), d))"

definition tables_mysql :: "tables mysql" where
  "tables_mysql =
     \<lparr>sq_conn = (\<lambda>k d. True), sq_select = tables_select, sq_exec = tables_exec, sq_escape = (\<lambda>bs. escape (chars bs))\<rparr>"

lemma rows_exec_pos: "0 \<le> fst (rows_exec t rs)" "0 \<le> fst (prows_exec t ps)"
  by (simp_all add: rows_exec_def prows_exec_def split: option.split prod.split)

lemma rows_select_count: "\<exists>rows. rows_select t rs = ((int (length rows), rows), rs)"
  by (simp add: rows_select_def counted_def split: option.split)

lemma tables_mysql_up: "mysql_up tables_mysql"
  using rows_exec_pos
  by (auto simp: mysql_up_def selects_up_def tables_mysql_def tables_exec_def tables_select_def Let_def split: prod.split)
    (smt (verit) fst_conv max_def)

text \<open>What a statement does to the one kind of tables where it says nothing of the other.\<close>

lemma exec_feeds:
  assumes "changes_by rows_mysql (\<lambda>rs. rs) t upd" "\<And>ps. prows_exec t ps = (0, ps)"
  shows "changes_by tables_mysql fst t upd" "snd (snd (tables_exec t d)) = snd d"
    "fst (tables_exec t d) = fst (rows_exec t (fst d))"
proof -
  have r: "tables_exec t d = (fst (rows_exec t (fst d)), snd (rows_exec t (fst d)), snd d)" for d
    using assms(2) rows_exec_pos(1) [of t "fst d"] by (auto simp: tables_exec_def max_def split: prod.split)
  show "snd (snd (tables_exec t d)) = snd d" "fst (tables_exec t d) = fst (rows_exec t (fst d))" by (simp_all add: r)
  show "changes_by tables_mysql fst t upd"
    using assms(1) by (auto simp: changes_by_def tables_mysql_def rows_mysql_def r split: prod.splits)
qed

lemma exec_passive:
  assumes "\<And>ps. prows_exec t ps = (n, upd ps)" "\<And>rs. rows_exec t rs = (0, rs)" "0 \<le> n"
  shows "changes_by tables_mysql snd t upd" "fst (snd (tables_exec t d)) = fst d" "fst (tables_exec t d) = n"
  using assms by (simp_all add: changes_by_def tables_mysql_def tables_exec_def max_def)

lemma select_feeds:
  assumes "answers rows_mysql (\<lambda>rs. rs) t ok" "\<And>ps. prows_select t ps = []"
  shows "answers tables_mysql fst t ok"
proof -
  have "ok rs (snd (fst (rows_select t rs)))" for rs
  proof -
    obtain rows where r: "rows_select t rs = ((int (length rows), rows), rs)" using rows_select_count by blast
    then have "sq_select rows_mysql t rs = ((int (length rows), rows), rs)" by (simp add: rows_mysql_def)
    from answersD [OF assms(1) this] r show ?thesis by simp
  qed
  then show ?thesis by (simp add: answers_def tables_mysql_def tables_select_def Let_def assms(2))
qed

lemma select_passive:
  assumes "\<And>ps. ok ps (prows_select t ps)" "\<And>rs. rows_select t rs = ((0, []), rs)"
  shows "answers tables_mysql snd t ok"
  using assms by (simp add: answers_def tables_mysql_def tables_select_def Let_def)

lemma feed_texts_alone:
  "prows_exec (insert_sql std_names f data) ps = (0, ps)" "prows_exec (update_sql std_names old f data) ps = (0, ps)"
  "prows_exec (delete_sql std_names f) ps = (0, ps)" "prows_exec (delete2_sql std_names mimi cmd app magic) ps = (0, ps)"
  "prows_select (exists_sql std_names f) ps = []" "prows_select (select_sql std_names f) ps = []"
  "prows_select (feedids_sql std_names mimi cmd app magic) ps = []"
  "prows_select (select2_sql std_names mimi cmd app magic) ps = []" "prows_select (key_data_sql f) ps = []"
  by (simp_all add: prows_exec_def prows_select_def pscan_data_def pscan_def feed_no_passive query_no_passive)

lemma passive_texts_alone:
  "rows_exec (pinsert_sql f act data) rs = (0, rs)" "rows_exec (pupdate_sql old f act data) rs = (0, rs)"
  "rows_exec (psql pdelete_fmt f) rs = (0, rs)"
  "rows_select (psql pexists_fmt f) rs = ((0, []), rs)" "rows_select (psql pselect_fmt f) rs = ((0, []), rs)"
  by (simp_all add: rows_exec_def rows_select_def counted_def scan_data_def scan_id_def scan_id2_def scan_key_def
      passive_no_feed passive_no_query)

lemma pscan_text:
  "c_scan fmt t = Some (table_args dis @ pid_args f @ r) \<Longrightarrow> pscan fmt t = Some (f, r)"
  by (cases f) (simp add: pscan_def table_args_def pid_args_def id_args_def)

lemma psql_reads:
  "pscan pdelete_fmt (psql pdelete_fmt f) = Some (f, [])" "pscan pexists_fmt (psql pexists_fmt f) = Some (f, [])"
  "pscan pselect_fmt (psql pselect_fmt f) = Some (f, [])"
  using psql_text [of f] pscan_text [of _ _ "pf_target f" f "[]"] by simp_all

lemma passive_texts_differ:
  "pscan pinsert_fmt (pupdate_sql old f act data) = None" "pscan pinsert_fmt (psql pdelete_fmt f) = None"
  "pscan pupdate_fmt (psql pdelete_fmt f) = None" "pscan pexists_fmt (psql pselect_fmt f) = None"
  by (simp_all add: pscan_def kinds pupdate_sql_def psql_def)

lemma passive_texts_read:
  "prows_exec (pinsert_sql f act (escape (chars bs))) ps = (1, ps @ [(f, act, bs)])"
  "prows_exec (pupdate_sql old f act (escape (chars bs))) ps = (0, map (prenew (f, act, bs)) ps)"
  "prows_exec (psql pdelete_fmt f) ps = (0, filter (\<lambda>x. fst x \<noteq> f) ps)"
  "prows_select (psql pexists_fmt f) ps = map (\<lambda>x. [dec (pf_target f)]) (filter (\<lambda>x. fst x = f) ps)"
  "prows_select (psql pselect_fmt f) ps = map prow_row (filter (\<lambda>x. fst x = f) ps)"
  by (simp_all add: prows_exec_def prows_select_def pscan_data_def pscan_text [OF pchange_text(1) [OF quotable_escape]]
      pscan_text [OF pchange_text(2) [OF quotable_escape]] psql_reads unescape_escape
      passive_texts_differ)

lemma tables_escape [simp]: "sq_escape tables_mysql = (\<lambda>bs. escape (chars bs))" "sq_escape rows_mysql = (\<lambda>bs. escape (chars bs))"
  "sq_exec tables_mysql = tables_exec" "sq_select tables_mysql = tables_select"
  by (simp_all add: tables_mysql_def rows_mysql_def)

lemma tables_mysql_ok: "mysql_ok tables_mysql std_names fst"
proof -
  note R = rows_mysql_ok(1) [OF std_names_ok, unfolded mysql_ok_def]
  have "fst (tables_exec (insert_sql std_names f (escape (chars bs))) d) = 1" for f bs d
    using insert_text [OF std_names_ok quotable_escape, of f "chars bs"]
    by (simp add: tables_exec_def feed_texts_alone rows_exec_def scan_data_def id_args_def)
  then show ?thesis
    unfolding mysql_ok_def
    by (intro conjI allI impI exec_feeds(1) select_feeds)
      (use R in \<open>simp_all add: feed_texts_alone tables_select_def Let_def\<close>)
qed

lemma tables_pmysql_ok: "pmysql_ok tables_mysql snd"
proof -
  have e: "length (escape (chars bs)) \<le> 2 * length bs + 1" for bs using length_escape [of "chars bs"] by simp
  show ?thesis
    unfolding pmysql_ok_def
    by (intro conjI allI impI exec_passive(1) select_passive)
      (simp_all add: passive_texts_alone passive_texts_read tables_exec_def, use e in simp_all)
qed

lemma tables_mysql_apart: "tables_apart tables_mysql std_names fst snd"
  by (simp add: tables_apart_def tables_exec_def tables_select_def feed_texts_alone passive_texts_alone Let_def
      case_prod_beta)

definition tables_env :: "(tables, memc_map) store_env" where
  "tables_env = \<lparr>se_sql = tables_mysql, se_mem = map_memc, se_names = std_names, se_stars = {}\<rparr>"

lemma tables_storage_world: "storage_world tables_env fst snd (\<lambda>m. m)" "mysql_up (se_sql tables_env)"
  "storage_inv fst snd (\<lambda>m. m) (([], []), Map.empty)"
  using tables_mysql_ok tables_pmysql_ok tables_mysql_apart tables_mysql_up map_memc_ok std_names_ok
  by (simp_all add: storage_world_def store_world_def pstore_world_def tables_env_def mysql_up_def storage_inv_def
      store_inv_def pstore_inv_def rows_ok_def caches_def)

section \<open>Requests\<close>


definition some_feed :: "nat \<Rightarrow> feedid" where
  "some_feed k = \<lparr>fid_mimi = 50001, fid_cmd_id = 7001, fid_app_id = 1, fid_timestamp = 1300000000, fid_magic = k\<rparr>"

definition some_pfeed :: pfeed where
  "some_pfeed = (\<lparr>pf_src = some_feed 0, pf_sender = 5, pf_target = 6, pf_magic = 7\<rparr>, 1300000000, [104, 105])"

lemmas some_defs = some_feed_def some_pfeed_def prow_ok_def pfeedid_ok_def feedid_ok_def text_ok_def

lemmas spec_defs = on_feeds_def on_pfeeds_def spec_insert_def spec_update_def spec_update2_def spec_del2_def spec_set_def
  spec_del_def pspec_insert_def pspec_update_def pspec_del_def has_id_def has_key_def renew_def prenew_def




section \<open>Fetching\<close>

text \<open>A request that is a list of identifiers.\<close>

definition wr_ids :: "nat \<Rightarrow> feedid list \<Rightarrow> byte list" where
  "wr_ids opc ids =
     to_le 4 (req_hsz + length ids * feedid_sz) @ to_le 2 opc @ to_le 2 (length ids) @ concat (map wr_feedid ids)"

definition ids_ok :: "feedid list \<Rightarrow> bool" where
  "ids_ok ids \<longleftrightarrow> (\<forall>f \<in> set ids. feedid_ok f) \<and> 0 < length ids \<and> length ids \<le> MAX_ALLOW_UNITS"

lemma feedids_at_wr:
  "\<forall>f \<in> set ids. feedid_ok f \<Longrightarrow> drop off m = concat (map wr_feedid ids) \<Longrightarrow> off \<le> length m \<Longrightarrow>
   feedids_at off (length ids) m = Some ids"
proof (induction ids arbitrary: off)
  case (Cons f ids)
  have l: "length m = off + length (concat (map wr_feedid (f # ids)))"
    using Cons.prems(2,3) by (metis le_add_diff_inverse length_drop)
  have d: "drop (off + feedid_sz) m = concat (map wr_feedid ids)"
    using arg_cong [OF Cons.prems(2), of "drop feedid_sz"] by (simp add: add.commute)
  have "feedids_at (off + feedid_sz) (length ids) m = Some ids"
    using Cons.prems(1) d l by (intro Cons.IH) simp_all
  then show ?case using Cons.prems l by (simp add: feedid_at_def rd_wr_feedid)
qed simp

lemma wr_ids_process:
  assumes "ids_ok ids" "opc < 2 ^ 16"
  shows "storage_process env old now (wr_ids opc ids) st =
      map_option (\<lambda>(b, st'). (Some b, st')) (storage_op env old now opc (length ids) (wr_ids opc ids) st)"
    "feedids_at req_hsz (length ids) (wr_ids opc ids) = Some ids"
proof -
  have n: "length ids \<le> 100" "0 < length ids" using assms(1) by (simp_all add: ids_ok_def MAX_ALLOW_UNITS_def)
  have l: "length (concat (map wr_feedid ids)) = length ids * feedid_sz" by (induction ids) simp_all
  then have h: "length (wr_ids opc ids) = req_hsz + length ids * feedid_sz" "drop req_hsz (wr_ids opc ids) = concat (map wr_feedid ids)"
    by (simp_all add: wr_ids_def req_hsz_def)
  have r: "rd_le 0 4 (wr_ids opc ids) = req_hsz + length ids * feedid_sz" "rd_le 4 2 (wr_ids opc ids) = opc"
    "rd_le 6 2 (wr_ids opc ids) = length ids"
    using n assms(2) by (simp_all add: wr_ids_def layout req_hsz_def feedid_sz_def)
  have "s32 (int (req_hsz + length ids * feedid_sz)) = int (req_hsz + length ids * feedid_sz)"
    using n by (simp add: s32_id req_hsz_def feedid_sz_def)
  then show "storage_process env old now (wr_ids opc ids) st =
      map_option (\<lambda>(b, st'). (Some b, st')) (storage_op env old now opc (length ids) (wr_ids opc ids) st)"
    using n by (simp add: storage_process_def r h req_hsz_def MAX_ALLOW_UNITS_def)
  show "feedids_at req_hsz (length ids) (wr_ids opc ids) = Some ids"
    using assms(1) by (intro feedids_at_wr) (simp_all add: h ids_ok_def)
qed

lemma gets_op: "storage_op env old now REQ_OP_GETS = store_get_pkgs env" "REQ_OP_GETS < 2 ^ 16"
  by (simp_all add: storage_op_def op_codes fun_eq_iff)


definition some_rows :: "feed_row list" where
  "some_rows = [(some_feed 0, [104, 105]), (some_feed 2, [1]), (some_feed 1, [7])]"

lemma some_cached:
  "store_inv fst (\<lambda>m. m) ((some_rows, []), snd (memc_set map_memc {} (some_feed 1) [7] Map.empty))"
  by (rule memc_set_inv [OF map_memc_ok])
    (simp_all add: store_inv_def caches_def rows_ok_def some_rows_def some_defs)

lemma some_keys:
  "\<not> prefix (generate_feedkey (some_feed 0)) (generate_feedkey (some_feed 1))"
  "\<not> prefix (generate_feedkey (some_feed 1)) (generate_feedkey (some_feed 0))"
proof -
  have h: "hex 0 = ''0''" "hex (Suc 0) = ''1''" by code_simp+
  have k: "generate_feedkey (some_feed k) = sprintf ''%x_%x_%x_%x_%lx'' (id_args (some_feed k))" if "k < 10" for k
    using that by (intro feedkey_text) (simp add: some_defs)
  have k: "generate_feedkey (some_feed 0) = sprintf ''%x_%x_%x_%x_%lx'' (id_args (some_feed 0))"
    "generate_feedkey (some_feed 1) = sprintf ''%x_%x_%x_%x_%lx'' (id_args (some_feed 1))" by (simp_all add: k)
  show "\<not> prefix (generate_feedkey (some_feed 0)) (generate_feedkey (some_feed 1))"
    "\<not> prefix (generate_feedkey (some_feed 1)) (generate_feedkey (some_feed 0))"
    unfolding k by (simp_all add: sprintf_def id_args_def some_feed_def h)
qed


end
