(* ===== verification/StorageFaults.thy ===== *)
theory StorageFaults
  imports StorageProps
begin

text \<open>
  Requests the storage service answers wrongly, and with what: feeds whose keys begin with one another, and
  deletes of three feeds and more.
\<close>

section \<open>Keys that begin with one another\<close>

text \<open>C29: When the key of feed \<open>f\<close> begins the key of \<open>g\<close>, and memcached has \<open>f\<close> and not \<open>g\<close>, a request for
  the two is answered with the data of \<open>f\<close> as that of \<open>g\<close> (and with \<open>f\<close> itself, from the database); the
  database is never asked for \<open>g\<close>, whether it has it or not.\<close>

theorem storage_gets_mislabels:
  assumes w: "store_world env R C" "mysql_up (se_sql env)" and i: "store_inv R C (d, m)"
    and fg: "feedid_ok f" "feedid_ok g" "f \<noteq> g" "prefix (generate_feedkey f) (generate_feedkey g)"
    and row: "filter (\<lambda>x. fst x = f) (R d) = [(f, v)]"
    and mem: "mm_mget (se_mem env) m [generate_feedkey g, generate_feedkey f] = Some [(generate_feedkey f, v)]"
  shows "\<exists>d' m'. storage_process env old now (wr_ids REQ_OP_GETS [g, f]) (d, m) =
    Some (Some (store_response RES_OP_SUCCESS 2 (feed_pkg g v @ feed_pkg f v)), d', m')"
proof -
  let ?room = "MAX_PACKAGE_LEN - res_hsz"
  have ids: "ids_ok [g, f]" using fg by (simp add: ids_ok_def MAX_ALLOW_UNITS_def)
  note P = wr_ids_process [OF ids gets_op(2)]
  have "(f, v) \<in> set (filter (\<lambda>x. fst x = f) (R d))" by (simp add: row)
  then have "length v < 70000" using i by (auto simp: store_inv_def rows_ok_def text_ok_def)
  then have len: "length (feed_pkg g v) \<le> ?room" "length (feed_pkg f v) \<le> ?room - length (feed_pkg g v)"
    by (simp_all add: feed_hsz_def MAX_PACKAGE_LEN_def res_hsz_def)
  have got: "memc_gets (se_mem env) ?room [(g, F_NONE), (f, F_NONE)] m =
      (Some (1, feed_pkg g v), marked {g} [g, f])"
    using mem fg(3,4) len(1) by (simp add: memc_gets_def Let_def)
  have asked: "asked {g} [g, f] (R d) = [(f, v)]" using row fg(3) by simp
  have two: "\<forall>x \<in> set [g, f]. feedid_ok x" using fg by simp
  have p: "pkgs [(f, v)] = feed_pkg f v" "length [(f, v)] = 1" by simp_all
  obtain d' m' where db: "get_db_pkgs env (?room - length (feed_pkg g v)) (marked {g} [g, f]) (d, m) =
      Some ((1, feed_pkg f v), d', m')"
    using get_db_pkgs_rows [OF w i two, of "{g}", unfolded asked p, OF len(2)] unfolding of_nat_1 by blast
  have "feedids_at req_hsz (Suc (Suc 0)) (wr_ids REQ_OP_GETS [g, f]) = Some [g, f]" using P(2) by simp
  then have "store_get_pkgs env 2 (wr_ids REQ_OP_GETS [g, f]) (d, m) =
      Some (store_response RES_OP_SUCCESS 2 (feed_pkg g v @ feed_pkg f v), d', m')"
    using got db store_worldD(5) [OF w(1)] by (simp add: store_get_pkgs_def Let_def numeral_2_eq_2 del: get_db_pkgs.simps marked_simps)
  then show ?thesis by (simp add: P(1) gets_op(1) numeral_2_eq_2)
qed

lemma some_prefix: "prefix (generate_feedkey (some_feed 1)) (generate_feedkey (some_feed 16))"
proof -
  have h: "hex (Suc 0) = ''1''" "hex 16 = ''10''" by code_simp+
  have k: "generate_feedkey (some_feed k) = sprintf ''%x_%x_%x_%x_%lx'' (id_args (some_feed k))" if "k < 100" for k
    using that by (intro feedkey_text) (simp add: some_defs)
  have k: "generate_feedkey (some_feed 1) = sprintf ''%x_%x_%x_%x_%lx'' (id_args (some_feed 1))"
    "generate_feedkey (some_feed 16) = sprintf ''%x_%x_%x_%x_%lx'' (id_args (some_feed 16))" by (simp_all add: k)
  show ?thesis unfolding k by (simp add: sprintf_def id_args_def some_feed_def h)
qed

lemma storage_gets_mislabels_witness:
  "\<exists>d' m'. storage_process tables_env [] 0 (wr_ids REQ_OP_GETS [some_feed 16, some_feed 1])
      ((some_rows, []), snd (memc_set map_memc {} (some_feed 1) [7] Map.empty)) =
    Some (Some (store_response RES_OP_SUCCESS 2 (feed_pkg (some_feed 16) [7] @ feed_pkg (some_feed 1) [7])), d', m')"
proof (rule storage_gets_mislabels [OF _ tables_storage_world(2) some_cached])
  show "store_world tables_env fst (\<lambda>m. m)" using tables_storage_world(1) by (simp add: storage_world_def)
  show "filter (\<lambda>x. fst x = some_feed 1) (fst (some_rows, [])) = [(some_feed 1, [7])]"
    by (simp add: some_rows_def some_feed_def)
  have "generate_feedkey (some_feed 16) \<noteq> generate_feedkey (some_feed 1)"
    using feedkey_inj [of "some_feed 16" "some_feed 1"] by (auto simp: some_defs)
  then show "mm_mget (se_mem tables_env) (snd (memc_set map_memc {} (some_feed 1) [7] Map.empty))
      [generate_feedkey (some_feed 16), generate_feedkey (some_feed 1)] = Some [(generate_feedkey (some_feed 1), [7])]"
    by (simp add: tables_env_def memc_set_def map_memc_def)
qed (use some_prefix in \<open>simp_all add: some_defs\<close>)

section \<open>Deletes of three feeds and more\<close>

lemma del_batch_step:
  assumes "store_world env R C" "mysql_up (se_sql env)" "store_inv R C (d, m)" "feedid_ok f"
  shows "\<exists>d' m'. store_inv R C (d', m') \<and> R d' = filter (\<lambda>x. \<not> has_id f x) (R d) \<and>
    (\<forall>i off fs buf a. del_batch env i off (f # fs) buf a (d, m) =
      del_batch env (i + 1) (off + i * stat_pkg_len) fs
        (put_at (off + i * stat_pkg_len) (build_stat_pkg f RES_OP_SUCCESS) buf) a (d', m'))"
proof -
  obtain r d' where r: "db_del (se_sql env) (se_names env) f d = (r, d')" by fastforce
  note D = db_del_step [OF assms(1,3,4) r]
  have "get_db_conn (se_sql env) (fid_mimi f) d" using assms(2) by (simp add: get_db_conn_def mysql_up_def)
  with D assms(2) r store_worldD(5) [OF assms(1)] show ?thesis
    by (intro exI [of _ d'] exI [of _ "snd (memc_del (se_mem env) f m)"]) (auto simp: Let_def)
qed

text \<open>A request to delete three feeds deletes them, but the answer has the status of the first two only:
  in the place of the third is what the send buffer held before, which may be of another client's answer.\<close>

lemma storage_del3_status_lost:
  assumes w: "store_world env R C" "mysql_up (se_sql env)" and i: "store_inv R C (d, m)"
    and ids: "feedid_ok f" "feedid_ok g" "feedid_ok h" and old: "length old = MAX_PACKAGE_LEN"
  shows "\<exists>d' m'. storage_process env old now (wr_ids REQ_OP_DELETE [f, g, h]) (d, m) =
      Some (Some (store_response RES_OP_SUCCESS 3
        (build_stat_pkg f RES_OP_SUCCESS @ build_stat_pkg g RES_OP_SUCCESS @ take stat_pkg_len (drop 56 old))), d', m') \<and>
    R d' = filter (\<lambda>x. \<not> has_id f x \<and> \<not> has_id g x \<and> \<not> has_id h x) (R d)"
proof -
  have o: "ids_ok [f, g, h]" using ids by (simp add: ids_ok_def MAX_ALLOW_UNITS_def)
  have c: "REQ_OP_DELETE < 2 ^ 16" by (simp add: op_codes)
  note P = wr_ids_process [OF o c]
  obtain d1 m1 where 1: "store_inv R C (d1, m1)" "R d1 = filter (\<lambda>x. \<not> has_id f x) (R d)"
    and s1: "\<forall>i off fs buf a. del_batch env i off (f # fs) buf a (d, m) = del_batch env (i + 1) (off + i * stat_pkg_len) fs
        (put_at (off + i * stat_pkg_len) (build_stat_pkg f RES_OP_SUCCESS) buf) a (d1, m1)"
    using del_batch_step [OF w i ids(1)] by (elim exE conjE)
  obtain d2 m2 where 2: "store_inv R C (d2, m2)" "R d2 = filter (\<lambda>x. \<not> has_id g x) (R d1)"
    and s2: "\<forall>i off fs buf a. del_batch env i off (g # fs) buf a (d1, m1) = del_batch env (i + 1) (off + i * stat_pkg_len) fs
        (put_at (off + i * stat_pkg_len) (build_stat_pkg g RES_OP_SUCCESS) buf) a (d2, m2)"
    using del_batch_step [OF w 1(1) ids(2)] by (elim exE conjE)
  obtain d3 m3 where "store_inv R C (d3, m3)" and 3: "R d3 = filter (\<lambda>x. \<not> has_id h x) (R d2)"
    and s3: "\<forall>i off fs buf a. del_batch env i off (h # fs) buf a (d2, m2) = del_batch env (i + 1) (off + i * stat_pkg_len) fs
        (put_at (off + i * stat_pkg_len) (build_stat_pkg h RES_OP_SUCCESS) buf) a (d3, m3)"
    using del_batch_step [OF w 2(1) ids(3)] by (elim exE conjE)
  let ?f = "build_stat_pkg f RES_OP_SUCCESS" and ?g = "build_stat_pkg g RES_OP_SUCCESS" and ?h = "build_stat_pkg h RES_OP_SUCCESS"
  let ?buf = "put_at 80 ?h (put_at 32 ?g (put_at 8 ?f old))"
  have sz: "length (build_stat_pkg x s) = 24" for x s by (simp add: build_stat_pkg_def feedid_sz_def)
  have "del_batch env 0 res_hsz [f, g, h] old False (d, m) = Some (?buf, False, d3, m3)"
    unfolding s1 [rule_format] s2 [rule_format] s3 [rule_format] del_batch.simps(1) by (simp add: res_hsz_def stat_pkg_len_def)
  then have "store_del env old 3 (wr_ids REQ_OP_DELETE [f, g, h]) (d, m) =
      Some (store_response RES_OP_SUCCESS 3 (take 72 (drop 8 ?buf)), d3, m3)"
    using store_del_many [OF P(2), of env old "(d, m)"] by (simp add: res_hsz_def stat_pkg_len_def numeral_3_eq_3)
  moreover have "take 72 (drop 8 ?buf) = ?f @ ?g @ take stat_pkg_len (drop 56 old)"
    using old by (simp add: put_at_def sz stat_pkg_len_def MAX_PACKAGE_LEN_def min_def)
  moreover have "storage_op env old now REQ_OP_DELETE = store_del env old" by (simp add: storage_op_def op_codes fun_eq_iff)
  ultimately show ?thesis using P(1) [of env old now "(d, m)"] 1(2) 2(2) 3
    by (intro exI [of _ d3] exI [of _ m3]) (simp add: numeral_3_eq_3)
qed

lemma storage_del3_status_lost_witness:
  "\<exists>d' m'. storage_process tables_env (replicate MAX_PACKAGE_LEN 7) 0
        (wr_ids REQ_OP_DELETE [some_feed 0, some_feed 1, some_feed 2])
        ((some_rows, []), snd (memc_set map_memc {} (some_feed 1) [7] Map.empty)) =
      Some (Some (store_response RES_OP_SUCCESS 3
        (build_stat_pkg (some_feed 0) RES_OP_SUCCESS @ build_stat_pkg (some_feed 1) RES_OP_SUCCESS @ replicate 24 7)), d', m') \<and>
    fst d' = []"
proof -
  have w: "store_world tables_env fst (\<lambda>m. m)" using tables_storage_world(1) by (simp add: storage_world_def)
  have ids: "feedid_ok (some_feed 0)" "feedid_ok (some_feed 1)" "feedid_ok (some_feed 2)" by (simp_all add: some_defs)
  have t: "take stat_pkg_len (drop 56 (replicate MAX_PACKAGE_LEN 7)) = replicate 24 (7 :: byte)"
    by (simp add: stat_pkg_len_def MAX_PACKAGE_LEN_def)
  have f: "filter (\<lambda>x. \<not> has_id (some_feed 0) x \<and> \<not> has_id (some_feed 1) x \<and> \<not> has_id (some_feed 2) x) some_rows = []"
    by (simp add: some_rows_def has_id_def)
  show ?thesis
    using storage_del3_status_lost [OF w tables_storage_world(2) some_cached ids length_replicate, of 7 0]
    unfolding t fst_conv f .
qed

end
