(* ===== verification/CacheNet.thy ===== *)
theory CacheNet
  imports Prelude "HOL-Library.AList"
begin

text \<open>
  The network process of the cache service (\<^verbatim>\<open>feed/cache_serv/src/net-proc/net_proc.cpp\<close>, class
  \<^verbatim>\<open>c_net_proc\<close>): it cuts what clients send into messages, puts feeds into the request queue of a worker by
  the user they are of, lets each task that asks take one worker, and sends what the workers answer. The
  network library and the ring queues are parameters; \<^verbatim>\<open>MSG_LEN\<close>, \<^verbatim>\<open>CMD_ID\<close> and \<^verbatim>\<open>SUB_CMD\<close> are read as
  the fields \<^verbatim>\<open>length\<close>, \<^verbatim>\<open>cmd_id\<close> and \<^verbatim>\<open>sub_cmd\<close> that the structures of \<^verbatim>\<open>proto.h\<close> have there (the header that defines the
  macros is not in the repository; \<^verbatim>\<open>work_proc.cpp\<close> uses them and the fields for the same bytes). \<open>None\<close> is undefined behaviour, or a loop that does not end.
\<close>

section \<open>State\<close>

text \<open>\<open>ce_max\<close> is \<^verbatim>\<open>MAX_BUF_LEN\<close>. A push gives the bytes pushed, a pop the bytes popped (0: none), a send the
  bytes the network took (-1: failed).\<close>

record ('q, 'w) cache_env =
  ce_max :: nat
  ce_push :: "byte list \<Rightarrow> 'q \<Rightarrow> int \<times> 'q"
  ce_pop :: "nat \<Rightarrow> 'q \<Rightarrow> (int \<times> byte list) \<times> 'q"
  ce_send :: "nat \<Rightarrow> byte list \<Rightarrow> 'w \<Rightarrow> int \<times> 'w"
  ce_close :: "nat \<Rightarrow> 'w \<Rightarrow> 'w"

text \<open>\<open>cc_recv\<close> is the whole receive buffer, \<open>cc_used\<close> the bytes of it in use; of the send buffer only
  the bytes in use are kept.\<close>

record cache_conn =
  cc_recv :: "byte list"
  cc_used :: nat
  cc_send :: "byte list"

text \<open>The maps are in the order of their keys. \<open>cn_flags\<close> are the \<^verbatim>\<open>used_flag\<close>s of the request queues, whose number
  is \<^verbatim>\<open>m_work_proc_count\<close>.\<close>

record ('q, 'w) cache_net =
  cn_conns :: "(nat \<times> cache_conn) list"
  cn_tasks :: "(nat \<times> nat) list"
  cn_flags :: "bool list"
  cn_req :: "'q list"
  cn_resp :: "'q list"
  cn_io :: 'w

definition SYSTEM_MSG :: nat where "SYSTEM_MSG = 0xFFFF"
definition CONN_REQUEST :: nat where "CONN_REQUEST = 1"
definition FEED_REQUEST :: nat where "FEED_REQUEST = 2"

definition msg_len :: "byte list \<Rightarrow> nat" where "msg_len b = rd_le 0 2 b"
definition cmd_id :: "byte list \<Rightarrow> nat" where "cmd_id b = rd_le 2 2 b"
definition sub_cmd :: "byte list \<Rightarrow> nat" where "sub_cmd b = rd_le 4 2 b"

definition poke :: "nat \<Rightarrow> byte list \<Rightarrow> byte list \<Rightarrow> byte list" where
  "poke off bs mem = take off mem @ bs @ drop (off + length bs) mem"

definition set_len :: "nat \<Rightarrow> byte list \<Rightarrow> byte list" where
  "set_len n b = poke 0 (to_le 2 n) b"

abbreviation set_conn :: "nat \<Rightarrow> cache_conn \<Rightarrow> ('q, 'w) cache_net \<Rightarrow> ('q, 'w) cache_net" where
  "set_conn c k st \<equiv> st\<lparr>cn_conns := AList.update c k (cn_conns st)\<rparr>"

section \<open>Sending\<close>

definition net_send ::
  "('q, 'w) cache_env \<Rightarrow> nat \<Rightarrow> byte list \<Rightarrow> ('q, 'w) cache_net \<Rightarrow> bool \<times> ('q, 'w) cache_net" where
  "net_send env c data st =
     (if data = [] then (True, st)
      else case map_of (cn_conns st) c of
          None \<Rightarrow> (False, st)
        | Some k \<Rightarrow>
            (let direct = (cc_send k = []);
                 (n, w) = (if direct then ce_send env c data (cn_io st) else (0, cn_io st));
                 st1 = st\<lparr>cn_io := w\<rparr>; rest = drop (nat n) data
             in if direct \<and> n = -1 then (False, st1)
                else if length rest > ce_max env - length (cc_send k) then (False, st1)
                else (True, set_conn c (k\<lparr>cc_send := cc_send k @ rest\<rparr>) st1)))"

text \<open>One send that fails ends the loop, and with it the process.\<close>

fun flush_conns ::
  "('q, 'w) cache_env \<Rightarrow> (nat \<times> cache_conn) list \<Rightarrow> ('q, 'w) cache_net \<Rightarrow> bool \<times> ('q, 'w) cache_net" where
  "flush_conns env [] st = (True, st)"
| "flush_conns env ((c, k) # ks) st =
     (if cc_send k = [] then flush_conns env ks st
      else case ce_send env c (cc_send k) (cn_io st) of
          (n, w) \<Rightarrow>
            if n = -1 then (False, st\<lparr>cn_io := ce_close env c w\<rparr>)
            else flush_conns env ks (set_conn c (k\<lparr>cc_send := drop (nat n) (cc_send k)\<rparr>) (st\<lparr>cn_io := w\<rparr>)))"

definition send_response_buffer ::
  "('q, 'w) cache_env \<Rightarrow> ('q, 'w) cache_net \<Rightarrow> bool \<times> ('q, 'w) cache_net" where
  "send_response_buffer env st = flush_conns env (cn_conns st) st"

section \<open>Requests\<close>

text \<open>What a request puts into the response buffer to be sent, or \<open>None\<close> for the result -1.\<close>

definition deal_task_conn_request ::
  "nat \<Rightarrow> ('q, 'w) cache_net \<Rightarrow> byte list option \<times> ('q, 'w) cache_net" where
  "deal_task_conn_request c st =
     (let n = length (cn_req st); i = length (takeWhile (\<lambda>f. f) (cn_flags st))
      in if length (cn_tasks st) = n then (Some (to_le 2 4 @ to_le 2 0xFFFF), st)
         else if length (cn_tasks st) > n then (None, st)
         else if i \<ge> n then (Some [], st)
         else if map_of (cn_tasks st) c \<noteq> None then (None, st)
         else (Some (to_le 2 4 @ to_le 2 c),
               st\<lparr>cn_tasks := insort_key fst (c, i) (cn_tasks st), cn_flags := (cn_flags st)[i := True]\<rparr>))"

text \<open>A message with the connection it came from behind it, as it is put into a request queue.\<close>

definition request_block :: "nat \<Rightarrow> byte list \<Rightarrow> nat \<Rightarrow> byte list option" where
  "request_block mx b c =
     (let len = msg_len b;
          b1 = poke len (to_le 4 c) (poke 0 (take len b) (replicate mx 0));
          n = (msg_len b1 + 4) mod 65536
      in if mx < len + 4 \<or> mx < n then None else Some (take n (set_len n b1)))"

definition deal_task_feed_request ::
  "('q, 'w) cache_env \<Rightarrow> byte list \<Rightarrow> nat \<Rightarrow> ('q, 'w) cache_net \<Rightarrow>
   (byte list option \<times> ('q, 'w) cache_net) option" where
  "deal_task_feed_request env b c st =
     (let task_id = rd_le 6 2 b
      in if task_id \<noteq> c then Some (None, st)
         else case map_of (cn_tasks st) task_id of
             None \<Rightarrow> Some (None, st)
           | Some i \<Rightarrow>
               (case request_block (ce_max env) b c of
                  None \<Rightarrow> None
                | Some blk \<Rightarrow>
                    (case ce_push env blk (cn_req st ! i) of
                       (n, q) \<Rightarrow> Some (if n \<noteq> int (length blk) then None else Some [], st\<lparr>cn_req := (cn_req st)[i := q]\<rparr>))))"

definition deal_task_request ::
  "('q, 'w) cache_env \<Rightarrow> byte list \<Rightarrow> nat \<Rightarrow> ('q, 'w) cache_net \<Rightarrow>
   (byte list option \<times> ('q, 'w) cache_net) option" where
  "deal_task_request env b c st =
     (if sub_cmd b = CONN_REQUEST then Some (deal_task_conn_request c st)
      else if sub_cmd b = FEED_REQUEST then deal_task_feed_request env b c st
      else Some (None, st))"

definition so_response :: "nat \<Rightarrow> byte list" where
  "so_response result = to_le 2 4 @ to_le 2 result"

definition deal_so_request ::
  "('q, 'w) cache_env \<Rightarrow> byte list \<Rightarrow> nat \<Rightarrow> ('q, 'w) cache_net \<Rightarrow>
   (byte list option \<times> ('q, 'w) cache_net) option" where
  "deal_so_request env b c st =
     (let i = rd_le 4 4 b mod length (cn_req st)
      in case request_block (ce_max env) b c of
           None \<Rightarrow> None
         | Some blk \<Rightarrow>
             (case ce_push env blk (cn_req st ! i) of
                (n, q) \<Rightarrow>
                  Some (Some (so_response (if n \<noteq> int (length blk) then 0xFFFF else 0)), st\<lparr>cn_req := (cn_req st)[i := q]\<rparr>)))"

definition deal_request_msg ::
  "('q, 'w) cache_env \<Rightarrow> byte list \<Rightarrow> nat \<Rightarrow> ('q, 'w) cache_net \<Rightarrow> (bool \<times> ('q, 'w) cache_net) option" where
  "deal_request_msg env b c st =
     (if cn_req st = [] then
        Some (if map_of (cn_conns st) c = None then (False, st) else (True, st\<lparr>cn_io := ce_close env c (cn_io st)\<rparr>))
      else case (if cmd_id b = SYSTEM_MSG then deal_task_request env b c st else deal_so_request env b c st) of
          None \<Rightarrow> None
        | Some (None, st1) \<Rightarrow> Some (False, st1)
        | Some (Some reply, st1) \<Rightarrow> Some (net_send env c reply st1))"

section \<open>Receiving\<close>

text \<open>The message at the start of the buffer goes, and what follows it moves to the start.\<close>

definition consume :: "cache_conn \<Rightarrow> cache_conn" where
  "consume k =
     (let n = msg_len (cc_recv k)
      in k\<lparr>cc_used := cc_used k - n, cc_recv := drop n (cc_recv k) @ drop (length (cc_recv k) - n) (cc_recv k)\<rparr>)"

partial_function (option) deal_loop ::
  "('q, 'w) cache_env \<Rightarrow> nat \<Rightarrow> ('q, 'w) cache_net \<Rightarrow> (bool \<times> ('q, 'w) cache_net) option" where
  "deal_loop env c st =
     (case map_of (cn_conns st) c of
        None \<Rightarrow> None
      | Some k \<Rightarrow>
          if cc_used k < 2 \<or> cc_used k < msg_len (cc_recv k) then Some (True, st)
          else Option.bind (deal_request_msg env (cc_recv k) c st) (\<lambda>(ok, st1).
            if \<not> ok then Some (False, st1)
            else Option.bind (map_of (cn_conns st1) c) (\<lambda>k1. deal_loop env c (set_conn c (consume k1) st1))))"

partial_function (option) recv_loop ::
  "('q, 'w) cache_env \<Rightarrow> nat \<Rightarrow> byte list \<Rightarrow> ('q, 'w) cache_net \<Rightarrow> (bool \<times> ('q, 'w) cache_net) option" where
  "recv_loop env c data st =
     (if data = [] then Some (True, st)
      else case map_of (cn_conns st) c of
          None \<Rightarrow> None
        | Some k \<Rightarrow>
            (let move = min (ce_max env - cc_used k) (length data);
                 k1 = k\<lparr>cc_recv := poke (cc_used k) (take move data) (cc_recv k), cc_used := cc_used k + move\<rparr>;
                 st1 = set_conn c k1 st
             in if cc_used k1 \<ge> 2 \<and> (msg_len (cc_recv k1) > ce_max env - 4 \<or> msg_len (cc_recv k1) = 0)
                then Some (False, st1)
                else Option.bind (deal_loop env c st1) (\<lambda>(ok, st2).
                  if \<not> ok then Some (False, st2) else recv_loop env c (drop move data) st2)))"

definition on_recv_data ::
  "('q, 'w) cache_env \<Rightarrow> nat \<Rightarrow> byte list \<Rightarrow> ('q, 'w) cache_net \<Rightarrow> (bool \<times> ('q, 'w) cache_net) option" where
  "on_recv_data env c data st =
     (if map_of (cn_conns st) c = None then Some (False, st) else recv_loop env c data st)"

section \<open>Connections\<close>

definition on_new_connection ::
  "('q, 'w) cache_env \<Rightarrow> nat \<Rightarrow> ('q, 'w) cache_net \<Rightarrow> bool \<times> ('q, 'w) cache_net" where
  "on_new_connection env c st =
     (if map_of (cn_conns st) c \<noteq> None then (False, st)
      else (True, st\<lparr>cn_conns := insort_key fst
              (c, \<lparr>cc_recv = take (ce_max env) (of_char CHR ''0'' # replicate (ce_max env - 1) 0), cc_used = 0, cc_send = []\<rparr>)
              (cn_conns st)\<rparr>))"

definition on_connection_closed :: "nat \<Rightarrow> ('q, 'w) cache_net \<Rightarrow> bool \<times> ('q, 'w) cache_net" where
  "on_connection_closed c st =
     (if map_of (cn_conns st) c = None then (False, st)
      else (True, st\<lparr>cn_flags := (case map_of (cn_tasks st) c of
                          Some i \<Rightarrow> (cn_flags st)[i := False] | None \<Rightarrow> cn_flags st),
                     cn_conns := AList.delete c (cn_conns st), cn_tasks := AList.delete c (cn_tasks st)\<rparr>))"

section \<open>Responses of the workers\<close>

text \<open>One response: \<open>Inl False\<close> when the queue is empty, \<open>Inl True\<close> when it fails, else what was popped is sent.\<close>

definition respond_one ::
  "('q, 'w) cache_env \<Rightarrow> nat \<Rightarrow> ('q, 'w) cache_net \<Rightarrow> (bool option \<times> ('q, 'w) cache_net) option" where
  "respond_one env i st =
     (case ce_pop env (ce_max env) (cn_resp st ! i) of
        ((n, bs), q) \<Rightarrow>
          (let st1 = st\<lparr>cn_resp := (cn_resp st)[i := q]\<rparr>; b = poke 0 bs (replicate (ce_max env) 0);
               len = (msg_len b + 65532) mod 65536
           in if n = 0 then Some (Some False, st1)
              else if n = -1 then Some (Some True, st1)
              else if ce_max env < length bs \<or> ce_max env < len + 4 then None
              else (case net_send env (rd_le len 4 (set_len len b)) (take len (set_len len b)) st1 of
                  (ok, st2) \<Rightarrow>
                    Some (None, if ok then st2 else st2\<lparr>cn_io := ce_close env (rd_le len 4 (set_len len b)) (cn_io st2)\<rparr>))))"

partial_function (option) respond_queue ::
  "('q, 'w) cache_env \<Rightarrow> nat \<Rightarrow> ('q, 'w) cache_net \<Rightarrow> (bool \<times> ('q, 'w) cache_net) option" where
  "respond_queue env i st =
     Option.bind (respond_one env i st) (\<lambda>(r, st1).
       case r of Some failed \<Rightarrow> Some (\<not> failed, st1) | None \<Rightarrow> respond_queue env i st1)"

fun respond_queues ::
  "('q, 'w) cache_env \<Rightarrow> nat list \<Rightarrow> ('q, 'w) cache_net \<Rightarrow> (bool \<times> ('q, 'w) cache_net) option" where
  "respond_queues env [] st = Some (True, st)"
| "respond_queues env (i # is) st =
     Option.bind (respond_queue env i st) (\<lambda>(ok, st1). if ok then respond_queues env is st1 else Some (False, st1))"

definition deal_response_msg ::
  "('q, 'w) cache_env \<Rightarrow> ('q, 'w) cache_net \<Rightarrow> (bool \<times> ('q, 'w) cache_net) option" where
  "deal_response_msg env st = respond_queues env [0..<length (cn_resp st)] st"

section \<open>The process\<close>

text \<open>What the process starts with: a pair of queues for each worker, no connection and no task.\<close>

definition net_init :: "'q list \<Rightarrow> 'q list \<Rightarrow> 'w \<Rightarrow> ('q, 'w) cache_net" where
  "net_init req resp w =
     \<lparr>cn_conns = [], cn_tasks = [], cn_flags = replicate (length req) False, cn_req = req, cn_resp = resp, cn_io = w\<rparr>"

text \<open>The end of a turn of the main loop, behind the network events: what the workers answer is dealt with and
  the send buffers are flushed. The process ends when the result is \<open>False\<close>.\<close>

definition net_turn :: "('q, 'w) cache_env \<Rightarrow> ('q, 'w) cache_net \<Rightarrow> (bool \<times> ('q, 'w) cache_net) option" where
  "net_turn env st = Option.bind (deal_response_msg env st) (\<lambda>(_, st1). Some (send_response_buffer env st1))"

end
