(* ===== verification/CacheTasks.thy ===== *)
theory CacheTasks
  imports CacheNet "HOL-Library.Multiset"
begin

text \<open>
  Which task has which worker: the map of tasks gives no worker to two connections, the flags of the request queues
  say which workers are taken, and every task has an open connection. All of it holds in every state the network
  process can be in, whatever its clients send and in whatever order they connect and leave.
\<close>

section \<open>Connections\<close>

definition conn_ok :: "nat \<Rightarrow> cache_conn \<Rightarrow> bool" where
  "conn_ok M k \<longleftrightarrow> length (cc_recv k) = M \<and> cc_used k \<le> M \<and> length (cc_send k) \<le> M"

lemma length_poke [simp]: "off + length bs \<le> length mem \<Longrightarrow> length (poke off bs mem) = length mem"
  by (simp add: poke_def)

lemma conn_ok_consume: "conn_ok M k \<Longrightarrow> conn_ok M (consume k)"
  by (auto simp: conn_ok_def consume_def Let_def)

lemma set_update: "distinct (map fst kvs) \<Longrightarrow> (d, v) \<in> set (AList.update c w kvs) \<longleftrightarrow> (if d = c then v = w else (d, v) \<in> set kvs)"
  by (induction kvs) (auto split: if_splits simp: image_iff)

lemma update_same_keys: "c \<in> fst ` set kvs \<Longrightarrow> map fst (AList.update c w kvs) = map fst kvs"
  by (simp add: update_keys image_def)

definition conns_ok :: "nat \<Rightarrow> (nat \<times> cache_conn) list \<Rightarrow> bool" where
  "conns_ok M cs \<longleftrightarrow> distinct (map fst cs) \<and> (\<forall>(c, k) \<in> set cs. conn_ok M k)"

lemma conns_ok_lookup: "conns_ok M cs \<Longrightarrow> map_of cs c = Some k \<Longrightarrow> conn_ok M k"
  by (auto simp: conns_ok_def dest: map_of_SomeD)

lemma conns_ok_update: "conns_ok M cs \<Longrightarrow> conn_ok M k \<Longrightarrow> conns_ok M (AList.update c k cs)"
  by (auto simp: conns_ok_def set_update distinct_update split: if_splits)

section \<open>Tasks\<close>

definition tasks_ok :: "(nat \<times> nat) list \<Rightarrow> bool list \<Rightarrow> bool" where
  "tasks_ok ts fs \<longleftrightarrow> distinct (map fst ts) \<and> distinct (map snd ts) \<and> snd ` set ts = {i. i < length fs \<and> fs ! i}"

lemma tasks_count: "tasks_ok ts fs \<Longrightarrow> length ts = length (filter (\<lambda>f. f) fs)"
proof -
  assume ok: "tasks_ok ts fs"
  have "length ts = card (set (map snd ts))" using ok by (metis tasks_ok_def distinct_card length_map)
  also have "\<dots> = card {i. i < length fs \<and> fs ! i}" using ok by (simp add: tasks_ok_def)
  finally show ?thesis by (simp add: length_filter_conv_card)
qed

definition cache_inv :: "nat \<Rightarrow> ('q, 'w) cache_net \<Rightarrow> bool" where
  "cache_inv M st \<longleftrightarrow> length (cn_flags st) = length (cn_req st) \<and> length (cn_resp st) = length (cn_req st) \<and>
     conns_ok M (cn_conns st) \<and> tasks_ok (cn_tasks st) (cn_flags st) \<and>
     fst ` set (cn_tasks st) \<subseteq> fst ` set (cn_conns st)"


text \<open>The lists of connections before and after a step: the same connections, all of them sound.\<close>

definition same_conns :: "nat \<Rightarrow> ('q, 'w) cache_net \<Rightarrow> ('q, 'w) cache_net \<Rightarrow> bool" where
  "same_conns M st st' \<longleftrightarrow> map fst (cn_conns st') = map fst (cn_conns st) \<and> conns_ok M (cn_conns st')"

named_theorems cache_frame \<open>the parts of the network process a step leaves alone\<close>

lemma update_found: "map_of xs c = Some v \<Longrightarrow> map fst (AList.update c w xs) = map fst xs"
  by (rule update_same_keys) (metis domI dom_map_of_conv_image_fst)

lemma set_conn_same:
  "conns_ok M (cn_conns st) \<Longrightarrow> map_of (cn_conns st) c = Some k0 \<Longrightarrow> conn_ok M k \<Longrightarrow> same_conns M st (set_conn c k st)"
  by (simp add: same_conns_def conns_ok_update update_found)

lemma same_connsI: "conns_ok M (cn_conns st) \<Longrightarrow> cn_conns st' = cn_conns st \<Longrightarrow> same_conns M st st'"
  by (simp add: same_conns_def)

lemma same_conns_trans: "same_conns M st st1 \<Longrightarrow> same_conns M st1 st2 \<Longrightarrow> same_conns M st st2"
  by (simp add: same_conns_def)

text \<open>Sending changes the send buffer of the connection and the network at most.\<close>

lemma net_send_changes:
  assumes "net_send env c d st = (ok, st')"
  shows "\<exists>w. st' = st\<lparr>cn_io := w\<rparr> \<or> (\<exists>k s. map_of (cn_conns st) c = Some k \<and>
    (length (cc_send k) \<le> ce_max env \<longrightarrow> length s \<le> ce_max env) \<and> st' = set_conn c (k\<lparr>cc_send := s\<rparr>) (st\<lparr>cn_io := w\<rparr>))"
proof (cases "d = [] \<or> map_of (cn_conns st) c = None")
  case True
  then have "st' = st\<lparr>cn_io := cn_io st\<rparr>" using assms by (auto simp: net_send_def split: option.splits if_splits)
  then show ?thesis by blast
next
  case False
  then obtain k where k: "map_of (cn_conns st) c = Some k" "d \<noteq> []" by auto
  obtain n w where nw: "(if cc_send k = [] then ce_send env c d (cn_io st) else (0, cn_io st)) = (n, w)" by fastforce
  from assms have "st' = st\<lparr>cn_io := w\<rparr> \<or> (length (drop (nat n) d) \<le> ce_max env - length (cc_send k) \<and>
      st' = set_conn c (k\<lparr>cc_send := cc_send k @ drop (nat n) d\<rparr>) (st\<lparr>cn_io := w\<rparr>))"
    unfolding net_send_def Let_def by (simp add: k nw split: if_splits)
  moreover have "length (drop (nat n) d) \<le> ce_max env - length (cc_send k) \<Longrightarrow> length (cc_send k) \<le> ce_max env \<Longrightarrow>
      length (cc_send k @ drop (nat n) d) \<le> ce_max env" by simp
  ultimately show ?thesis using k(1) by blast
qed

lemma net_send_same:
  assumes "conns_ok (ce_max env) (cn_conns st)" "net_send env c d st = (ok, st')"
  shows "same_conns (ce_max env) st st'"
  using net_send_changes [OF assms(2)]
proof (elim exE disjE conjE)
  fix w k t
  assume "map_of (cn_conns st) c = Some k" "length (cc_send k) \<le> ce_max env \<longrightarrow> length t \<le> ce_max env"
    "st' = set_conn c (k\<lparr>cc_send := t\<rparr>) (st\<lparr>cn_io := w\<rparr>)"
  then show ?thesis
    using conns_ok_lookup [OF assms(1)] by (auto simp: conn_ok_def same_conns_def update_found intro!: conns_ok_update assms(1))
qed (simp add: same_connsI assms(1))

lemma net_send_frame [cache_frame]: "net_send env c d st = (ok, st') \<Longrightarrow>
    cn_tasks st' = cn_tasks st \<and> cn_flags st' = cn_flags st \<and> cn_req st' = cn_req st \<and> cn_resp st' = cn_resp st"
  using net_send_changes [of env c d st ok st'] by auto

lemma cache_inv_keep:
  assumes "cache_inv M st" "same_conns M st st'"
    and "cn_tasks st' = cn_tasks st \<and> cn_flags st' = cn_flags st \<and> length (cn_req st') = length (cn_req st) \<and>
         length (cn_resp st') = length (cn_resp st)"
  shows "cache_inv M st'"
proof -
  have "fst ` set (cn_conns st') = fst ` set (cn_conns st)" using assms(2) by (metis list.set_map same_conns_def)
  with assms show ?thesis by (simp add: cache_inv_def same_conns_def)
qed

section \<open>Requests\<close>

lemma tasks_ok_add:
  assumes "tasks_ok ts fs" "i < length fs" "\<not> fs ! i" "map_of ts c = None"
  shows "tasks_ok (insort_key fst (c, i) ts) (fs[i := True])"
proof -
  have "mset (insort_key fst (c, i) ts) = mset ((c, i) # ts)" by simp
  then have p: "mset (map f (insort_key fst (c, i) ts)) = mset (f (c, i) # map f ts)" for f :: "nat \<times> nat \<Rightarrow> nat"
    by (metis mset_map list.simps(9))
  have d: "distinct (map f (insort_key fst (c, i) ts)) \<longleftrightarrow> distinct (f (c, i) # map f ts)" for f :: "nat \<times> nat \<Rightarrow> nat"
    using mset_eq_imp_distinct_iff [OF p] .
  have "set (insort_key fst (c, i) ts) = insert (c, i) (set ts)" by (rule set_insort_key)
  moreover have "i \<notin> snd ` set ts" using assms by (auto simp: tasks_ok_def)
  ultimately show ?thesis using assms
    by (auto simp: tasks_ok_def d map_of_eq_None_iff nth_list_update)
qed

lemma conn_request_keeps:
  assumes "cache_inv M st" "c \<in> fst ` set (cn_conns st)" "deal_task_conn_request c st = (r, st')"
  shows "cache_inv M st' \<and> cn_conns st' = cn_conns st \<and> cn_req st' = cn_req st \<and> cn_resp st' = cn_resp st"
proof (cases "st' = st")
  case False
  let ?i = "length (takeWhile (\<lambda>f. f) (cn_flags st))"
  from False assms(3) have "?i < length (cn_req st)" "map_of (cn_tasks st) c = None"
    and st': "st' = st\<lparr>cn_tasks := insort_key fst (c, ?i) (cn_tasks st), cn_flags := (cn_flags st)[?i := True]\<rparr>"
    by (auto simp: deal_task_conn_request_def Let_def split: if_splits)
  then have "tasks_ok (cn_tasks st') (cn_flags st')"
    using assms(1) nth_length_takeWhile [of "\<lambda>f. f" "cn_flags st"]
    by (auto simp: cache_inv_def intro!: tasks_ok_add)
  with assms st' show ?thesis by (auto simp: cache_inv_def set_insort_key)
qed (use assms in simp)

lemma feed_request_keeps:
  "deal_task_feed_request env b c st = Some (r, st') \<Longrightarrow> \<exists>q. st' = st\<lparr>cn_req := q\<rparr> \<and> length q = length (cn_req st)"
  by (auto simp: deal_task_feed_request_def Let_def split: if_splits option.splits prod.splits intro: exI [of _ "cn_req st"])

lemma so_request_keeps:
  "deal_so_request env b c st = Some (r, st') \<Longrightarrow> \<exists>q. st' = st\<lparr>cn_req := q\<rparr> \<and> length q = length (cn_req st)"
  by (auto simp: deal_so_request_def Let_def split: option.splits prod.splits)

text \<open>A step keeps the invariant and the connections there are.\<close>

definition cache_keeps :: "nat \<Rightarrow> ('q, 'w) cache_net \<Rightarrow> ('q, 'w) cache_net \<Rightarrow> bool" where
  "cache_keeps M st st' \<longleftrightarrow> cache_inv M st' \<and> map fst (cn_conns st') = map fst (cn_conns st)"

lemma cache_keepsI:
  "cache_inv M st \<Longrightarrow> same_conns M st st' \<Longrightarrow>
   cn_tasks st' = cn_tasks st \<and> cn_flags st' = cn_flags st \<and> length (cn_req st') = length (cn_req st) \<and>
     length (cn_resp st') = length (cn_resp st) \<Longrightarrow> cache_keeps M st st'"
  using cache_inv_keep [of M st st'] by (simp add: cache_keeps_def same_conns_def)

lemma cache_keeps_refl: "cache_inv M st \<Longrightarrow> cache_keeps M st st"
  by (simp add: cache_keeps_def)

lemma cache_keeps_trans: "cache_keeps M st st1 \<Longrightarrow> cache_keeps M st1 st2 \<Longrightarrow> cache_keeps M st st2"
  by (simp add: cache_keeps_def)

lemma cache_keeps_io: "cache_inv M st \<Longrightarrow> cache_keeps M st (st\<lparr>cn_io := w\<rparr>)"
  by (rule cache_keepsI) (simp_all add: cache_inv_def same_conns_def)

lemma cache_keeps_req: "cache_inv M st \<Longrightarrow> length q = length (cn_req st) \<Longrightarrow> cache_keeps M st (st\<lparr>cn_req := q\<rparr>)"
  by (rule cache_keepsI) (simp_all add: cache_inv_def same_conns_def)

lemma cache_keeps_resp: "cache_inv M st \<Longrightarrow> length q = length (cn_resp st) \<Longrightarrow> cache_keeps M st (st\<lparr>cn_resp := q\<rparr>)"
  by (rule cache_keepsI) (simp_all add: cache_inv_def same_conns_def)

lemma cache_keeps_set_conn:
  "cache_inv M st \<Longrightarrow> map_of (cn_conns st) c = Some k0 \<Longrightarrow> conn_ok M k \<Longrightarrow> cache_keeps M st (set_conn c k st)"
  by (rule cache_keepsI) (auto simp: cache_inv_def intro: set_conn_same)

lemma net_send_keeps:
  assumes "cache_inv (ce_max env) st" "net_send env c d st = (ok, st')"
  shows "cache_keeps (ce_max env) st st'"
  using assms(1) net_send_same [OF _ assms(2)] net_send_frame [OF assms(2)]
  by (intro cache_keepsI) (auto simp: cache_inv_def)

lemma deal_task_request_keeps:
  assumes "cache_inv M st" "map_of (cn_conns st) c \<noteq> None" "deal_task_request env b c st = Some (r, st')"
  shows "cache_keeps M st st'"
proof -
  have c: "c \<in> fst ` set (cn_conns st)" using assms(2) by (simp add: map_of_eq_None_iff)
  consider "deal_task_conn_request c st = (r, st')" | "deal_task_feed_request env b c st = Some (r, st')" | "st' = st"
    using assms(3) by (auto simp: deal_task_request_def split: if_splits)
  then show ?thesis
  proof cases
    case 1
    show ?thesis using conn_request_keeps [OF assms(1) c 1] by (simp add: cache_keeps_def)
  next
    case 2
    show ?thesis using feed_request_keeps [OF 2] cache_keeps_req [OF assms(1)] by auto
  qed (use assms in \<open>simp add: cache_keeps_refl\<close>)
qed

lemma deal_request_msg_keeps:
  assumes inv: "cache_inv (ce_max env) st" and c: "map_of (cn_conns st) c \<noteq> None"
    and deal: "deal_request_msg env b c st = Some (ok, st')"
  shows "cache_keeps (ce_max env) st st'"
proof (cases "cn_req st = []")
  case True
  with deal c inv show ?thesis by (auto simp: deal_request_msg_def cache_keeps_io)
next
  case False
  let ?d = "if cmd_id b = SYSTEM_MSG then deal_task_request env b c st else deal_so_request env b c st"
  from deal False obtain r st1 where d: "?d = Some (r, st1)"
    and r: "(r = None \<and> st' = st1) \<or> (\<exists>m. r = Some m \<and> net_send env c m st1 = (ok, st'))"
    unfolding deal_request_msg_def by (auto split: option.splits)
  have k: "cache_keeps (ce_max env) st st1"
    using d deal_task_request_keeps [OF inv c] so_request_keeps [of env b c st r st1] cache_keeps_req [OF inv]
    by (auto split: if_splits)
  from r show ?thesis
  proof (elim disjE exE conjE)
    fix m assume "net_send env c m st1 = (ok, st')"
    then show ?thesis using k net_send_keeps [of env st1 c m ok st'] by (meson cache_keeps_def cache_keeps_trans)
  qed (use k in simp)
qed

section \<open>Receiving\<close>

lemma deal_loop_keeps:
  assumes "deal_loop env c st = Some r"
  shows "cache_inv (ce_max env) st \<longrightarrow> cache_keeps (ce_max env) st (snd r)"
proof (rule deal_loop.raw_induct [OF _ assms], intro impI)
  fix loop and env :: "('q, 'w) cache_env" and c st and r :: "bool \<times> ('q, 'w) cache_net"
  assume IH: "\<And>env c st r. loop env c st = Some r \<Longrightarrow> cache_inv (ce_max env) st \<longrightarrow> cache_keeps (ce_max env) st (snd r)"
    and step: "(case map_of (cn_conns st) c of None \<Rightarrow> None | Some k \<Rightarrow>
        if cc_used k < 2 \<or> cc_used k < msg_len (cc_recv k) then Some (True, st)
        else Option.bind (deal_request_msg env (cc_recv k) c st) (\<lambda>(ok, st1).
          if \<not> ok then Some (False, st1)
          else Option.bind (map_of (cn_conns st1) c) (\<lambda>k1. loop env c (set_conn c (consume k1) st1)))) = Some r"
    and inv: "cache_inv (ce_max env) st"
  from step obtain k where k: "map_of (cn_conns st) c = Some k" by (auto split: option.splits)
  show "cache_keeps (ce_max env) st (snd r)"
  proof (cases "cc_used k < 2 \<or> cc_used k < msg_len (cc_recv k)")
    case True
    then show ?thesis using step k inv by (auto simp: cache_keeps_refl)
  next
    case False
    with step k obtain ok st1 where d: "deal_request_msg env (cc_recv k) c st = Some (ok, st1)"
      by (auto split: bind_splits)
    have k1: "cache_keeps (ce_max env) st st1" using deal_request_msg_keeps [OF inv _ d] k by simp
    show ?thesis
    proof (cases ok)
      case True
      with step k False d obtain k2 where k2: "map_of (cn_conns st1) c = Some k2"
        and rec: "loop env c (set_conn c (consume k2) st1) = Some r" by (auto split: bind_splits)
      have "cache_keeps (ce_max env) st1 (set_conn c (consume k2) st1)"
        using k1 k2 by (intro cache_keeps_set_conn [OF _ k2] conn_ok_consume)
          (auto simp: cache_keeps_def cache_inv_def intro: conns_ok_lookup)
      then show ?thesis using IH [OF rec] k1 by (meson cache_keeps_def cache_keeps_trans)
    next
      case False
      with step k \<open>\<not> (cc_used k < 2 \<or> cc_used k < msg_len (cc_recv k))\<close> d k1 show ?thesis by auto
    qed
  qed
qed

lemma conn_ok_receive:
  "conn_ok M k \<Longrightarrow> mv = min (M - cc_used k) (length data) \<Longrightarrow>
   conn_ok M (k\<lparr>cc_recv := poke (cc_used k) (take mv data) (cc_recv k), cc_used := cc_used k + mv\<rparr>)"
  by (auto simp: conn_ok_def)

text \<open>What one round of the receiving loop puts into the buffer of the connection.\<close>

definition receive :: "nat \<Rightarrow> byte list \<Rightarrow> cache_conn \<Rightarrow> cache_conn" where
  "receive mv data k = k\<lparr>cc_recv := poke (cc_used k) (take mv data) (cc_recv k), cc_used := cc_used k + mv\<rparr>"

lemma recv_loop_keeps:
  assumes "recv_loop env c data st = Some r"
  shows "cache_inv (ce_max env) st \<longrightarrow> cache_keeps (ce_max env) st (snd r)"
proof (rule recv_loop.raw_induct [OF _ assms], intro impI)
  fix loop and env :: "('q, 'w) cache_env" and c and data :: "byte list" and st and r :: "bool \<times> ('q, 'w) cache_net"
  let ?mv = "\<lambda>k. min (ce_max env - cc_used k) (length data)"
  assume IH: "\<And>env c data st r. loop env c data st = Some r \<Longrightarrow> cache_inv (ce_max env) st \<longrightarrow> cache_keeps (ce_max env) st (snd r)"
    and step: "(if data = [] then Some (True, st)
      else case map_of (cn_conns st) c of None \<Rightarrow> None | Some k \<Rightarrow>
        (let move = ?mv k; k1 = k\<lparr>cc_recv := poke (cc_used k) (take move data) (cc_recv k), cc_used := cc_used k + move\<rparr>;
             st1 = set_conn c k1 st
         in if 2 \<le> cc_used k1 \<and> (ce_max env - 4 < msg_len (cc_recv k1) \<or> msg_len (cc_recv k1) = 0) then Some (False, st1)
            else Option.bind (deal_loop env c st1) (\<lambda>(ok, st2).
              if \<not> ok then Some (False, st2) else loop env c (drop move data) st2))) = Some r"
    and inv: "cache_inv (ce_max env) st"
  show "cache_keeps (ce_max env) st (snd r)"
  proof (cases "data = []")
    case False
    with step obtain k where k: "map_of (cn_conns st) c = Some k" by (auto split: option.splits)
    let ?st1 = "set_conn c (receive (?mv k) data k) st"
    have st1: "cache_keeps (ce_max env) st ?st1"
      unfolding receive_def using conns_ok_lookup [OF _ k, of "ce_max env"] inv
      by (intro cache_keeps_set_conn [OF inv k] conn_ok_receive) (simp_all add: cache_inv_def)
    have "r = (False, ?st1) \<or> (\<exists>ok st2. deal_loop env c ?st1 = Some (ok, st2) \<and>
        (if ok then loop env c (drop (?mv k) data) st2 = Some r else r = (False, st2)))"
    proof (cases "2 \<le> cc_used (receive (?mv k) data k) \<and> (ce_max env - 4 < msg_len (cc_recv (receive (?mv k) data k)) \<or>
        msg_len (cc_recv (receive (?mv k) data k)) = 0)")
      case bad: True
      show ?thesis using step False k bad by (simp add: Let_def receive_def [symmetric])
    next
      case good: False
      from step False k good have "Option.bind (deal_loop env c ?st1) (\<lambda>(ok, st2).
          if \<not> ok then Some (False, st2) else loop env c (drop (?mv k) data) st2) = Some r"
        by (simp add: Let_def receive_def [symmetric])
      then obtain ok st2 where "deal_loop env c ?st1 = Some (ok, st2)"
        "(if \<not> ok then Some (False, st2) else loop env c (drop (?mv k) data) st2) = Some r"
        by (auto simp only: bind_eq_Some_conv split_paired_Ex prod.case)
      then show ?thesis by (intro disjI2 exI conjI) (assumption, cases ok, simp_all)
    qed
    then show ?thesis
    proof (elim disjE exE conjE)
      fix ok st2 assume d: "deal_loop env c ?st1 = Some (ok, st2)"
        and rest: "if ok then loop env c (drop (?mv k) data) st2 = Some r else r = (False, st2)"
      have st2: "cache_keeps (ce_max env) st st2"
        using deal_loop_keeps [OF d] st1 by (auto simp: cache_keeps_def intro: cache_keeps_trans)
      show ?thesis
      proof (cases ok)
        case True
        then show ?thesis using rest IH [of env c "drop (?mv k) data" st2 r] st2
          by (auto simp: cache_keeps_def)
      qed (use rest st2 in simp)
    qed (use st1 in simp)
  qed (use step inv in \<open>auto simp: cache_keeps_refl\<close>)
qed

lemma on_recv_data_keeps:
  "on_recv_data env c data st = Some r \<Longrightarrow> cache_inv (ce_max env) st \<Longrightarrow> cache_keeps (ce_max env) st (snd r)"
  using recv_loop_keeps [of env c data st r] by (auto simp: on_recv_data_def cache_keeps_refl split: if_splits)

section \<open>Connections that come and go\<close>

lemma on_new_connection_inv:
  assumes "cache_inv (ce_max env) st" "0 < ce_max env"
  shows "cache_inv (ce_max env) (snd (on_new_connection env c st))"
proof (cases "map_of (cn_conns st) c = None")
  case True
  let ?k = "\<lparr>cc_recv = take (ce_max env) (of_char CHR ''0'' # replicate (ce_max env - 1) 0), cc_used = 0, cc_send = []\<rparr>"
  have "mset (map fst (insort_key fst (c, ?k) (cn_conns st))) = mset (c # map fst (cn_conns st))" by simp
  then have "distinct (map fst (insort_key fst (c, ?k) (cn_conns st)))"
    using mset_eq_imp_distinct_iff True assms(1) by (metis cache_inv_def conns_ok_def distinct.simps(2) map_of_eq_None_iff set_map)
  moreover have "conn_ok (ce_max env) ?k" using assms(2) by (simp add: conn_ok_def)
  ultimately show ?thesis using True assms(1)
    by (auto simp: on_new_connection_def cache_inv_def conns_ok_def set_insort_key)
qed (use assms(1) in \<open>auto simp: on_new_connection_def\<close>)

lemma set_delete: "set (AList.delete c xs) = {(d, v). (d, v) \<in> set xs \<and> d \<noteq> c}"
  by (auto simp: AList.delete_eq)

lemma distinct_delete_snd: "distinct (map snd xs) \<Longrightarrow> distinct (map snd (AList.delete c xs))"
  by (induction xs) (auto simp: AList.delete_eq)

lemma tasks_ok_delete:
  assumes ok: "tasks_ok ts fs"
  shows "tasks_ok (AList.delete c ts) (case map_of ts c of Some i \<Rightarrow> fs[i := False] | None \<Rightarrow> fs)"
proof (cases "map_of ts c")
  case None
  then have "AList.delete c ts = ts" by (auto simp: map_of_eq_None_iff delete_id)
  with ok None show ?thesis by simp
next
  case (Some i)
  have inj: "d = c" if "(d, i) \<in> set ts" for d
  proof -
    have "inj_on snd (set ts)" using ok by (simp add: tasks_ok_def distinct_map)
    then have "(d, i) = (c, i)" using that map_of_SomeD [OF Some] by (intro inj_onD [of snd "set ts"]) simp_all
    then show ?thesis by simp
  qed
  have one: "j = i" if "(c, j) \<in> set ts" for j
    using ok Some that by (auto simp: tasks_ok_def dest: map_of_is_SomeI)
  have "snd ` set (AList.delete c ts) = snd ` set ts - {i}"
  proof (intro equalityI subsetI)
    fix j assume "j \<in> snd ` set (AList.delete c ts)"
    then obtain d where "(d, j) \<in> set ts" "d \<noteq> c" by (auto simp: set_delete)
    then show "j \<in> snd ` set ts - {i}" using inj by (auto simp: rev_image_eqI)
  next
    fix j assume "j \<in> snd ` set ts - {i}"
    then obtain d where "(d, j) \<in> set ts" "j \<noteq> i" by auto
    then have "(d, j) \<in> set (AList.delete c ts)" using one by (auto simp: set_delete)
    then show "j \<in> snd ` set (AList.delete c ts)" by (auto simp: rev_image_eqI)
  qed
  moreover have "i \<in> snd ` set ts" using map_of_SomeD [OF Some] by (rule rev_image_eqI) simp
  ultimately show ?thesis using ok Some
    by (auto simp: tasks_ok_def distinct_delete distinct_delete_snd nth_list_update split: if_splits)
qed

lemma on_connection_closed_inv:
  assumes "cache_inv M st"
  shows "cache_inv M (snd (on_connection_closed c st))"
proof -
  have "tasks_ok (AList.delete c (cn_tasks st)) (case map_of (cn_tasks st) c of Some i \<Rightarrow> (cn_flags st)[i := False] | None \<Rightarrow> cn_flags st)"
    using assms by (simp add: cache_inv_def tasks_ok_delete)
  moreover have "conns_ok M (AList.delete c (cn_conns st))"
    using assms by (auto simp: cache_inv_def conns_ok_def distinct_delete set_delete)
  moreover have "fst ` set (AList.delete c (cn_tasks st)) \<subseteq> fst ` set (AList.delete c (cn_conns st))"
    using assms by (force simp: cache_inv_def set_delete)
  ultimately show ?thesis using assms
    by (auto simp: on_connection_closed_def cache_inv_def split: option.splits)
qed

section \<open>Responses and the send buffers\<close>

lemma respond_one_keeps:
  assumes inv: "cache_inv (ce_max env) st" and one: "respond_one env i st = Some (r, st')"
  shows "cache_keeps (ce_max env) st st'"
proof -
  obtain n bs q where pop: "ce_pop env (ce_max env) (cn_resp st ! i) = ((n, bs), q)" by (metis prod.exhaust)
  let ?st1 = "st\<lparr>cn_resp := (cn_resp st)[i := q]\<rparr>"
  have k1: "cache_keeps (ce_max env) st ?st1" using inv by (simp add: cache_keeps_resp)
  from one pop consider "st' = ?st1"
    | c d ok st2 where "net_send env c d ?st1 = (ok, st2)" "st' = (if ok then st2 else st2\<lparr>cn_io := ce_close env c (cn_io st2)\<rparr>)"
    unfolding respond_one_def Let_def by (auto split: if_splits prod.splits)
  then show ?thesis
  proof cases
    case (2 c d ok st2)
    have k2: "cache_keeps (ce_max env) ?st1 st2" using k1 by (intro net_send_keeps [OF _ 2(1)]) (simp add: cache_keeps_def)
    then have "cache_keeps (ce_max env) st2 st'" using 2(2) by (auto simp: cache_keeps_def intro: cache_keeps_io [unfolded cache_keeps_def, THEN conjunct1])
    with k1 k2 show ?thesis by (meson cache_keeps_trans)
  qed (use k1 in simp)
qed

lemma respond_queue_keeps:
  assumes "respond_queue env i st = Some r"
  shows "cache_inv (ce_max env) st \<longrightarrow> cache_keeps (ce_max env) st (snd r)"
proof (rule respond_queue.raw_induct [OF _ assms], intro impI)
  fix loop and env :: "('q, 'w) cache_env" and i st and r :: "bool \<times> ('q, 'w) cache_net"
  assume IH: "\<And>env i st r. loop env i st = Some r \<Longrightarrow> cache_inv (ce_max env) st \<longrightarrow> cache_keeps (ce_max env) st (snd r)"
    and step: "Option.bind (respond_one env i st) (\<lambda>(r, st1).
       case r of Some failed \<Rightarrow> Some (\<not> failed, st1) | None \<Rightarrow> loop env i st1) = Some r"
    and inv: "cache_inv (ce_max env) st"
  from step obtain x st1 where one: "respond_one env i st = Some (x, st1)" by (auto split: bind_splits)
  note k = respond_one_keeps [OF inv one]
  show "cache_keeps (ce_max env) st (snd r)"
  proof (cases x)
    case None
    with step one have "loop env i st1 = Some r" by simp
    then show ?thesis using IH k by (meson cache_keeps_def cache_keeps_trans)
  qed (use step one k in auto)
qed

lemma respond_queues_keeps:
  "respond_queues env is st = Some r \<Longrightarrow> cache_inv (ce_max env) st \<Longrightarrow> cache_keeps (ce_max env) st (snd r)"
proof (induction "is" arbitrary: st)
  case (Cons i "is")
  then obtain ok st1 where q: "respond_queue env i st = Some (ok, st1)" by (auto split: bind_splits)
  have k: "cache_keeps (ce_max env) st st1" using respond_queue_keeps [OF q] Cons.prems(2) by simp
  with Cons q show ?case by (auto simp: cache_keeps_def split: if_splits intro: cache_keeps_trans)
qed (auto simp: cache_keeps_refl)

lemma flush_conns_keeps:
  "flush_conns env ks st = (ok, st') \<Longrightarrow> cache_inv (ce_max env) st \<Longrightarrow>
   \<forall>(c, k) \<in> set ks. conn_ok (ce_max env) k \<and> c \<in> fst ` set (cn_conns st) \<Longrightarrow> cache_keeps (ce_max env) st st'"
proof (induction env ks st rule: flush_conns.induct)
  case (2 env c k ks st)
  obtain n w where nw: "ce_send env c (cc_send k) (cn_io st) = (n, w)" by fastforce
  let ?k = "k\<lparr>cc_send := drop (nat n) (cc_send k)\<rparr>" and ?io = "st\<lparr>cn_io := w\<rparr>"
  obtain k0 where k0: "map_of (cn_conns ?io) c = Some k0" using "2.prems"(3) by (auto dest: weak_map_of_SomeI)
  have io: "cache_keeps (ce_max env) st ?io" using "2.prems"(2) by (rule cache_keeps_io)
  have "conn_ok (ce_max env) ?k" using "2.prems"(3) by (auto simp: conn_ok_def)
  then have k1: "cache_keeps (ce_max env) st (set_conn c ?k ?io)"
    using io cache_keeps_set_conn [OF _ k0, of "ce_max env" ?k] by (simp add: cache_keeps_def)
  show ?case
  proof (cases "cc_send k = []")
    case True
    then show ?thesis using 2 by simp
  next
    case send: False
    show ?thesis
    proof (cases "n = -1")
      case True
      then show ?thesis using "2.prems" send nw cache_keeps_io by auto
    next
      case False
      have keys: "fst ` set (cn_conns (set_conn c ?k ?io)) = fst ` set (cn_conns st)"
        using k1 by (metis cache_keeps_def list.set_map)
      have "flush_conns env ks (set_conn c ?k ?io) = (ok, st')" using "2.prems"(1) send nw False by simp
      then have "cache_keeps (ce_max env) (set_conn c ?k ?io) st'"
        using "2.prems"(3) k1 keys by (intro "2.IH"(2) [OF send nw [symmetric] False]) (auto simp: cache_keeps_def)
      with k1 show ?thesis by (rule cache_keeps_trans)
    qed
  qed
qed (simp add: cache_keeps_refl)

lemma net_turn_inv:
  assumes "net_turn env st = Some r" "cache_inv (ce_max env) st"
  shows "cache_inv (ce_max env) (snd r)"
proof -
  obtain ok st1 where d: "deal_response_msg env st = Some (ok, st1)" and r: "r = send_response_buffer env st1"
    using assms(1) by (auto simp: net_turn_def split: bind_splits)
  have st1: "cache_inv (ce_max env) st1"
    using respond_queues_keeps [OF d [unfolded deal_response_msg_def] assms(2)] by (simp add: cache_keeps_def)
  then have "\<forall>(c, k) \<in> set (cn_conns st1). conn_ok (ce_max env) k \<and> c \<in> fst ` set (cn_conns st1)"
    by (auto simp: cache_inv_def conns_ok_def rev_image_eqI)
  then show ?thesis using flush_conns_keeps [of env "cn_conns st1" st1 "fst r" "snd r"] st1 r
    by (simp add: send_response_buffer_def cache_keeps_def)
qed

section \<open>Every state the process can be in\<close>

inductive cache_reach :: "('q, 'w) cache_env \<Rightarrow> ('q, 'w) cache_net \<Rightarrow> bool" for env where
  start: "length req = length resp \<Longrightarrow> cache_reach env (net_init req resp w)"
| connected: "cache_reach env st \<Longrightarrow> cache_reach env (snd (on_new_connection env c st))"
| received: "cache_reach env st \<Longrightarrow> on_recv_data env c data st = Some r \<Longrightarrow> cache_reach env (snd r)"
| closed: "cache_reach env st \<Longrightarrow> cache_reach env (snd (on_connection_closed c st))"
| turn: "cache_reach env st \<Longrightarrow> net_turn env st = Some r \<Longrightarrow> cache_reach env (snd r)"

lemma cache_reach_inv:
  assumes "cache_reach env st" "0 < ce_max env"
  shows "cache_inv (ce_max env) st"
  using assms
proof induction
  case (start req resp w)
  then show ?case by (auto simp: net_init_def cache_inv_def conns_ok_def tasks_ok_def)
next
  case (received st c data r)
  then show ?case using on_recv_data_keeps [of env c data st r] by (simp add: cache_keeps_def)
qed (auto intro: on_new_connection_inv on_connection_closed_inv net_turn_inv)

end
