(* ===== verification/CacheFrame.thy ===== *)
theory CacheFrame
  imports CacheTasks
begin

text \<open>
  How the network process cuts what a client sends into messages: however the network hands the bytes over, the
  messages dealt with are the ones the client sent, one after the other, and what is left over stays in the buffer.
\<close>

section \<open>Messages\<close>

text \<open>A message as \<^verbatim>\<open>proto.h\<close> has it, long enough for the fields that are read of it.\<close>

definition whole_msg :: "nat \<Rightarrow> byte list \<Rightarrow> bool" where
  "whole_msg M m \<longleftrightarrow> msg_len m = length m \<and> length m + 4 \<le> M \<and>
     (if cmd_id m = SYSTEM_MSG \<and> sub_cmd m = CONN_REQUEST then 6 else 8) \<le> length m"

text \<open>The start of a message that is not all there yet.\<close>

definition part_msg :: "nat \<Rightarrow> byte list \<Rightarrow> bool" where
  "part_msg M t \<longleftrightarrow> length t < 2 \<or> (length t < msg_len t \<and> msg_len t + 4 \<le> M)"

lemma whole_msg_size: "whole_msg M m \<Longrightarrow> 6 \<le> length m"
  by (auto simp: whole_msg_def split: if_splits)

lemma msg_len_append: "2 \<le> length m \<Longrightarrow> msg_len (m @ r) = msg_len m"
  by (simp add: msg_len_def rd_le_append)

lemma msg_len_take: "2 \<le> n \<Longrightarrow> msg_len (take n b) = msg_len b"
  by (simp add: msg_len_def rd_le_def min_def)

lemma msg_len_to_le: "n < 65536 \<Longrightarrow> msg_len (to_le 2 n @ r) = n"
  by (simp add: msg_len_def layout)

lemma cut_stream:
  assumes "B @ r = concat ms @ t" "\<forall>m \<in> set ms. whole_msg M m" "part_msg M t"
  shows "\<exists>ms1 ms2 u. ms = ms1 @ ms2 \<and> B = concat ms1 @ u \<and> u @ r = concat ms2 @ t \<and> part_msg M u"
  using assms
proof (induction ms arbitrary: B)
  case Nil
  have "part_msg M B"
  proof (cases "length B < 2")
    case False
    with Nil have "msg_len t = msg_len B" "length B \<le> length t" using msg_len_append [of B r] by auto
    with Nil False show ?thesis by (auto simp: part_msg_def)
  qed (simp add: part_msg_def)
  with Nil show ?case by simp
next
  case (Cons m ms)
  have m: "whole_msg M m" using Cons.prems(2) by simp
  show ?case
  proof (cases "length m \<le> length B")
    case True
    have "take (length m) (B @ r) = m" using Cons.prems(1) by simp
    with True have tm: "take (length m) B = m" by simp
    define B' where "B' = drop (length m) B"
    have B: "B = m @ B'" using append_take_drop_id [of "length m" B] unfolding tm B'_def by (rule sym)
    then have "B' @ r = concat ms @ t" using Cons.prems(1) by simp
    then obtain ms1 ms2 u where "ms = ms1 @ ms2" "B' = concat ms1 @ u" "u @ r = concat ms2 @ t" "part_msg M u"
      using Cons.IH [of B'] Cons.prems(2,3) by auto
    then show ?thesis using B by (intro exI [of _ "m # ms1"] exI [of _ ms2] exI [of _ u]) simp
  next
    case False
    have "B = take (length B) (B @ r)" by simp
    also have "\<dots> = take (length B) m" unfolding Cons.prems(1) using False by simp
    finally have B: "B = take (length B) m" .
    then have "part_msg M B"
      using False m msg_len_take [of "length B" m] by (auto simp: part_msg_def whole_msg_def)
    then show ?thesis using Cons.prems(1) by (intro exI [of _ "[]"] exI [of _ "m # ms"] exI [of _ B]) simp
  qed
qed

text \<open>The length test of the receiving loop passes at every point of such a stream.\<close>

lemma stream_len_ok:
  assumes "B @ r = concat ms @ t" "\<forall>m \<in> set ms. whole_msg M m" "part_msg M t" "2 \<le> length B"
  shows "0 < msg_len B \<and> msg_len B + 4 \<le> M"
proof (cases ms)
  case Nil
  then have "msg_len B = msg_len t" "2 \<le> length t" using assms msg_len_append [of B r] by auto
  with assms(3) show ?thesis by (auto simp: part_msg_def)
next
  case (Cons m ms')
  then have "msg_len B = msg_len m" "whole_msg M m"
    using assms msg_len_append [of B r] msg_len_append [of m "concat ms' @ t"] whole_msg_size [of M m] by auto
  with whole_msg_size [of M m] show ?thesis by (auto simp: whole_msg_def)
qed

section \<open>A message and what follows it in the buffer\<close>

lemma poke_append: "length p = off \<Longrightarrow> poke off bs (p @ r) = p @ bs @ drop (length bs) r"
  by (simp add: poke_def)

lemma poke_0: "poke 0 bs mem = bs @ drop (length bs) mem"
  by (simp add: poke_def)

lemma request_block_whole:
  assumes "msg_len b = n" "n \<le> length b" "2 \<le> n" "n + 4 \<le> M" "M < 65536"
  shows "request_block M b c = Some (to_le 2 (n + 4) @ take (n - 2) (drop 2 b) @ to_le 4 c)"
proof -
  let ?m = "take n b"
  have m: "length ?m = n" using assms(2) by simp
  have b1: "poke n (to_le 4 c) (poke 0 ?m (replicate M 0)) = ?m @ to_le 4 c @ replicate (M - (n + 4)) 0"
    using m assms(4) by (simp add: poke_0 poke_append)
  have l: "msg_len (?m @ to_le 4 c @ replicate (M - (n + 4)) 0) = n"
    using msg_len_append [of ?m] msg_len_take [of n b] m assms(1,3) by simp
  have "take (n + 4) (set_len (n + 4) (?m @ to_le 4 c @ replicate (M - (n + 4)) 0)) = to_le 2 (n + 4) @ drop 2 ?m @ to_le 4 c"
    using m assms(3) by (simp add: set_len_def poke_0)
  then show ?thesis using assms b1 l by (simp add: request_block_def Let_def drop_take)
qed

section \<open>The buffers apart from the rest\<close>

text \<open>The state without the receive buffers, and the receive buffer of one connection.\<close>

definition blank_conn :: "cache_conn \<Rightarrow> cache_conn" where
  "blank_conn k = k\<lparr>cc_recv := [], cc_used := 0\<rparr>"

definition blank :: "('q, 'w) cache_net \<Rightarrow> ('q, 'w) cache_net" where
  "blank st = st\<lparr>cn_conns := map (apsnd blank_conn) (cn_conns st)\<rparr>"

definition recv_buf :: "('q, 'w) cache_net \<Rightarrow> nat \<Rightarrow> (byte list \<times> nat) option" where
  "recv_buf st c = map_option (\<lambda>k. (cc_recv k, cc_used k)) (map_of (cn_conns st) c)"

definition pending :: "('q, 'w) cache_net \<Rightarrow> nat \<Rightarrow> byte list" where
  "pending st c = (case recv_buf st c of Some (b, n) \<Rightarrow> take n b | None \<Rightarrow> [])"

lemma map_of_apsnd [simp]: "map_of (map (apsnd f) xs) c = map_option f (map_of xs c)"
  by (induction xs) auto

lemma blank_update: "map (apsnd f) (AList.update c k xs) = AList.update c (f k) (map (apsnd f) xs)"
  by (induction xs) auto

lemma blank_sel [simp]: "cn_conns (blank st) = map (apsnd blank_conn) (cn_conns st)" "cn_tasks (blank st) = cn_tasks st"
  "cn_flags (blank st) = cn_flags st" "cn_req (blank st) = cn_req st" "cn_resp (blank st) = cn_resp st" "cn_io (blank st) = cn_io st"
  by (simp_all add: blank_def)

lemma blank_upd [simp]:
  "blank (st\<lparr>cn_tasks := t\<rparr>) = blank st\<lparr>cn_tasks := t\<rparr>" "blank (st\<lparr>cn_flags := f\<rparr>) = blank st\<lparr>cn_flags := f\<rparr>"
  "blank (st\<lparr>cn_req := q\<rparr>) = blank st\<lparr>cn_req := q\<rparr>" "blank (st\<lparr>cn_io := w\<rparr>) = blank st\<lparr>cn_io := w\<rparr>"
  "blank (st\<lparr>cn_conns := cs\<rparr>) = blank st\<lparr>cn_conns := map (apsnd blank_conn) cs\<rparr>"
  by (simp_all add: blank_def)

lemma blank_conn_sel [simp]: "cc_send (blank_conn k) = cc_send k" "blank_conn (k\<lparr>cc_send := s\<rparr>) = blank_conn k\<lparr>cc_send := s\<rparr>"
  "blank_conn (k\<lparr>cc_recv := b, cc_used := n\<rparr>) = blank_conn k"
  by (simp_all add: blank_conn_def)

lemma update_present: "map_of xs c = Some k \<Longrightarrow> AList.update c k xs = xs"
  by (induction xs) (auto split: if_splits)

lemma blank_set_conn_same:
  "map_of (cn_conns st) c = Some k \<Longrightarrow> blank_conn k' = blank_conn k \<Longrightarrow> blank (set_conn c k' st) = blank st"
  by (simp add: blank_update update_present)

text \<open>Dealing with a message neither reads nor changes the receive buffers.\<close>

lemma net_send_blank: "net_send env c d (blank st) = apsnd blank (net_send env c d st)"
  by (simp add: net_send_def Let_def blank_update split: option.split prod.split)

lemma conn_request_blank: "deal_task_conn_request c (blank st) = apsnd blank (deal_task_conn_request c st)"
  by (simp add: deal_task_conn_request_def Let_def)

lemma feed_request_blank:
  "deal_task_feed_request env b c (blank st) = map_option (apsnd blank) (deal_task_feed_request env b c st)"
  by (simp add: deal_task_feed_request_def Let_def split: option.split prod.split)

lemma so_request_blank: "deal_so_request env b c (blank st) = map_option (apsnd blank) (deal_so_request env b c st)"
  by (simp add: deal_so_request_def Let_def split: option.split prod.split)

lemma task_request_blank: "deal_task_request env b c (blank st) = map_option (apsnd blank) (deal_task_request env b c st)"
  by (simp add: deal_task_request_def conn_request_blank feed_request_blank)

lemma deal_request_msg_blank:
  "deal_request_msg env b c (blank st) = map_option (apsnd blank) (deal_request_msg env b c st)"
  unfolding deal_request_msg_def
  by (simp add: task_request_blank so_request_blank net_send_blank split: option.split)

lemma recv_buf_set_conn:
  "recv_buf (set_conn c k st) d = (if d = c then Some (cc_recv k, cc_used k) else recv_buf st d)"
  by (simp add: recv_buf_def update_conv')

lemma net_send_recv_buf: "net_send env c d st = (ok, st') \<Longrightarrow> recv_buf st' = recv_buf st"
proof (rule ext)
  fix e assume "net_send env c d st = (ok, st')"
  then show "recv_buf st' e = recv_buf st e"
    using net_send_changes [of env c d st ok st'] by (auto simp: recv_buf_def update_conv')
qed

lemma deal_request_msg_recv_buf:
  assumes "deal_request_msg env b c st = Some (ok, st')"
  shows "recv_buf st' = recv_buf st"
proof -
  have tr: "cn_conns st1 = cn_conns st" if "deal_task_request env b c st = Some (r, st1)" for r st1
    using that feed_request_keeps [of env b c st r st1]
    by (auto simp: deal_task_request_def deal_task_conn_request_def Let_def split: if_splits)
  have so: "cn_conns st1 = cn_conns st" if "deal_so_request env b c st = Some (r, st1)" for r st1
    using so_request_keeps [OF that] by auto
  have io: "recv_buf (st\<lparr>cn_io := w\<rparr>) = recv_buf st" for w by (simp add: recv_buf_def fun_eq_iff)
  have same: "recv_buf st1 = recv_buf st" if "cn_conns st1 = cn_conns st" for st1 by (simp add: recv_buf_def fun_eq_iff that)
  show ?thesis using assms unfolding deal_request_msg_def
    by (auto split: if_splits option.splits dest!: net_send_recv_buf tr so same simp: io)
qed

lemma request_block_append:
  "2 \<le> length m \<Longrightarrow> msg_len m = length m \<Longrightarrow> request_block M (m @ r) c = request_block M m c"
  by (simp add: request_block_def msg_len_append)

lemma deal_request_msg_append:
  assumes "whole_msg M m"
  shows "deal_request_msg env (m @ r) c st = deal_request_msg env m c st"
proof -
  have m: "6 \<le> length m" "msg_len m = length m" using whole_msg_size [OF assms] assms by (auto simp: whole_msg_def)
  have f: "cmd_id (m @ r) = cmd_id m" "sub_cmd (m @ r) = sub_cmd m" using m by (simp_all add: cmd_id_def sub_cmd_def rd_le_append)
  have blk: "request_block k (m @ r) c = request_block k m c" for k using m by (intro request_block_append) simp_all
  have "deal_task_feed_request env (m @ r) c st = deal_task_feed_request env m c st" if "8 \<le> length m"
    unfolding deal_task_feed_request_def blk using that by (simp add: rd_le_append)
  then have "deal_task_request env (m @ r) c st = deal_task_request env m c st" if "cmd_id m = SYSTEM_MSG"
    using assms that f by (auto simp: deal_task_request_def whole_msg_def)
  moreover have "deal_so_request env (m @ r) c st = deal_so_request env m c st" if "cmd_id m \<noteq> SYSTEM_MSG"
    using assms that by (simp add: deal_so_request_def blk rd_le_append whole_msg_def)
  ultimately show ?thesis by (simp add: deal_request_msg_def f)
qed

lemma deal_request_msg_total:
  assumes "whole_msg (ce_max env) m" "ce_max env < 65536"
  shows "deal_request_msg env m c st \<noteq> None"
proof -
  have m: "6 \<le> length m" "msg_len m = length m" "length m + 4 \<le> ce_max env"
    using whole_msg_size [OF assms(1)] assms(1) by (auto simp: whole_msg_def)
  have "request_block (ce_max env) m c \<noteq> None" using m assms(2) by (simp add: request_block_whole)
  then show ?thesis
    by (auto simp: deal_request_msg_def deal_task_request_def deal_task_feed_request_def deal_so_request_def Let_def split: option.splits prod.splits)
qed

section \<open>Dealing with a stream\<close>

text \<open>The messages of a client dealt with one by one.\<close>

fun deal_all :: "('q, 'w) cache_env \<Rightarrow> nat \<Rightarrow> byte list list \<Rightarrow> ('q, 'w) cache_net \<Rightarrow> (bool \<times> ('q, 'w) cache_net) option" where
  "deal_all env c [] st = Some (True, st)"
| "deal_all env c (m # ms) st =
     Option.bind (deal_request_msg env m c st) (\<lambda>(ok, st1). if ok then deal_all env c ms st1 else Some (False, st1))"

lemma deal_all_append:
  "deal_all env c (ms @ ms') st = Option.bind (deal_all env c ms st) (\<lambda>(ok, st1). if ok then deal_all env c ms' st1 else Some (False, st1))"
  by (induction ms arbitrary: st) (auto simp: split: Option.bind_split)

text \<open>What a step of the receiving side comes to: the rest of the state as after \<open>deal_all\<close>, and \<open>t\<close> left over.\<close>

definition dealt ::
  "nat \<Rightarrow> nat \<Rightarrow> byte list \<Rightarrow> ('q, 'w) cache_net \<Rightarrow> (bool \<times> ('q, 'w) cache_net) option \<Rightarrow>
   (bool \<times> ('q, 'w) cache_net) option \<Rightarrow> bool" where
  "dealt M c t st x y \<longleftrightarrow> (case y of None \<Rightarrow> x = None
     | Some (ok, b) \<Rightarrow> \<exists>st'. x = Some (ok, st') \<and> blank st' = b \<and> (\<forall>d. d \<noteq> c \<longrightarrow> recv_buf st' d = recv_buf st d) \<and>
         (ok \<longrightarrow> (\<exists>buf. recv_buf st' c = Some (buf, length t) \<and> length buf = M \<and> take (length t) buf = t)))"

lemma dealtE:
  assumes "dealt M c t st x y"
  shows "(x = None \<and> y = None) \<or> (\<exists>ok st'. x = Some (ok, st') \<and> y = Some (ok, blank st') \<and>
    (\<forall>d. d \<noteq> c \<longrightarrow> recv_buf st' d = recv_buf st d) \<and>
    (ok \<longrightarrow> (\<exists>buf. recv_buf st' c = Some (buf, length t) \<and> length buf = M \<and> take (length t) buf = t)))"
  using assms by (auto simp: dealt_def split: option.splits)

lemma dealt_frame:
  "dealt M c t st1 x y \<Longrightarrow> \<forall>d. d \<noteq> c \<longrightarrow> recv_buf st1 d = recv_buf st d \<Longrightarrow> dealt M c t st x y"
  by (auto simp: dealt_def split: option.splits)

lemma deal_loop_stream:
  assumes "recv_buf st c = Some (buf, n)" "length buf = M" "n \<le> M" "take n buf = concat ms @ t"
    "\<forall>m \<in> set ms. whole_msg M m" "part_msg M t"
  shows "dealt M c t st (deal_loop env c st) (deal_all env c ms (blank st))"
  using assms
proof (induction ms arbitrary: st buf n)
  case Nil
  then obtain k where k: "map_of (cn_conns st) c = Some k" "cc_recv k = buf" "cc_used k = n" by (auto simp: recv_buf_def)
  have n: "n = length t" using Nil.prems(2-4) by (metis append_Nil concat.simps(1) length_take min.absorb2)
  have "n < 2 \<or> n < msg_len buf"
    using Nil.prems(4,6) n msg_len_take [of n buf] by (cases "n < 2") (auto simp: part_msg_def)
  then have "deal_loop env c st = Some (True, st)" using k by (simp add: deal_loop.simps)
  then show ?case using Nil.prems n by (simp add: dealt_def)
next
  case (Cons m ms)
  obtain k where k: "map_of (cn_conns st) c = Some k" "cc_recv k = buf" "cc_used k = n" using Cons.prems(1) by (auto simp: recv_buf_def)
  have m: "whole_msg M m" "6 \<le> length m" "msg_len m = length m" using Cons.prems(5) whole_msg_size by (auto simp: whole_msg_def)
  define R where "R = concat ms @ t"
  have tk: "take n buf = m @ R" using Cons.prems(4) by (simp add: R_def)
  have n: "n = length m + length R" using arg_cong [OF tk, of length] Cons.prems(2,3) by simp
  define rest where "rest = drop (length m) buf"
  have buf: "buf = m @ rest"
  proof -
    have "take (length m) buf = m" using arg_cong [OF tk, of "take (length m)"] n by (simp add: min_def)
    then show ?thesis using append_take_drop_id [of "length m" buf] by (simp add: rest_def)
  qed
  have len: "msg_len buf = length m" using m buf msg_len_append by simp
  have deal: "deal_request_msg env buf c s = deal_request_msg env m c s" for s
    using deal_request_msg_append [OF m(1)] buf by simp
  show ?case
  proof (cases "deal_request_msg env m c st")
    case None
    then have "deal_loop env c st = None" using k n m len by (subst deal_loop.simps) (simp add: deal)
    then show ?thesis using None by (simp add: dealt_def deal_request_msg_blank)
  next
    case (Some p)
    obtain ok st1 where p: "p = (ok, st1)" by fastforce
    have same: "recv_buf st1 = recv_buf st" using deal_request_msg_recv_buf Some p by blast
    show ?thesis
    proof (cases ok)
      case False
      then have "deal_loop env c st = Some (False, st1)" using k n m len Some p by (subst deal_loop.simps) (simp add: deal)
      then show ?thesis using Some p False same by (simp add: dealt_def deal_request_msg_blank)
    next
      case True
      from same Cons.prems(1) have "recv_buf st1 c = Some (buf, n)" by simp
      then obtain k1 where k1: "map_of (cn_conns st1) c = Some k1" "cc_recv k1 = buf" "cc_used k1 = n" by (auto simp: recv_buf_def)
      define st2 where "st2 = set_conn c (consume k1) st1"
      define buf2 where "buf2 = rest @ drop (M - length m) buf"
      have b2: "recv_buf st2 c = Some (buf2, length R)" "length buf2 = M" "take (length R) buf2 = R"
      proof -
        have R: "take (length R) rest = R" "length R \<le> length rest"
          using tk Cons.prems(2,3) n unfolding buf by simp_all
        then show "recv_buf st2 c = Some (buf2, length R)" "take (length R) buf2 = R"
          using k1 len n Cons.prems(2) by (simp_all add: st2_def buf2_def recv_buf_set_conn consume_def Let_def rest_def [symmetric])
        show "length buf2 = M" using Cons.prems(2,3) n by (simp add: buf2_def rest_def)
      qed
      have other: "\<forall>d. d \<noteq> c \<longrightarrow> recv_buf st2 d = recv_buf st d" by (simp add: st2_def recv_buf_set_conn same)
      have bl: "blank st2 = blank st1" unfolding st2_def by (rule blank_set_conn_same [OF k1(1)]) (simp add: blank_conn_def consume_def Let_def)
      have "dealt M c t st2 (deal_loop env c st2) (deal_all env c ms (blank st2))"
        using Cons.IH [OF b2(1,2)] b2(3) n Cons.prems(3,5,6) by (simp add: R_def)
      moreover have "deal_loop env c st = deal_loop env c st2"
        using k n m len Some p True k1 by (subst deal_loop.simps) (simp add: deal st2_def)
      moreover have "deal_all env c (m # ms) (blank st) = deal_all env c ms (blank st1)"
        using Some p True by (simp add: deal_request_msg_blank)
      ultimately show ?thesis using other by (auto simp: bl intro: dealt_frame)
    qed
  qed
qed

lemma part_msg_fits: "part_msg M t \<Longrightarrow> 2 \<le> M \<Longrightarrow> length t < M"
  by (auto simp: part_msg_def)

lemma part_msg_no_whole:
  assumes "part_msg M (concat ms @ t)" "\<forall>m \<in> set ms. whole_msg M m"
  shows "ms = []"
proof (cases ms)
  case (Cons m ms')
  then have "whole_msg M m" using assms(2) by simp
  then have "msg_len (concat ms @ t) = length m" "2 \<le> length m"
    using Cons msg_len_append [of m "concat ms' @ t"] whole_msg_size [of M m] by (auto simp: whole_msg_def)
  then show ?thesis using assms(1) Cons by (simp add: part_msg_def)
qed

lemma recv_loop_unfold:
  assumes "data \<noteq> []" "map_of (cn_conns st) c = Some k" "mv = min (ce_max env - cc_used k) (length data)"
  shows "recv_loop env c data st =
    (if 2 \<le> cc_used (receive mv data k) \<and>
         (ce_max env - 4 < msg_len (cc_recv (receive mv data k)) \<or> msg_len (cc_recv (receive mv data k)) = 0)
     then Some (False, set_conn c (receive mv data k) st)
     else Option.bind (deal_loop env c (set_conn c (receive mv data k) st)) (\<lambda>(ok, st2).
       if \<not> ok then Some (False, st2) else recv_loop env c (drop mv data) st2))"
  unfolding assms(3) using assms(1,2) by (subst recv_loop.simps) (simp add: Let_def receive_def split del: if_split cong: if_cong)

lemma recv_loop_stream:
  assumes "recv_buf st c = Some (buf, n)" "length buf = M" "n \<le> M" "part_msg M (take n buf)"
    "take n buf @ data = concat ms @ t" "\<forall>m \<in> set ms. whole_msg M m" "part_msg M t" "M = ce_max env" "2 \<le> M"
  shows "dealt M c t st (recv_loop env c data st) (deal_all env c ms (blank st))"
  using assms
proof (induction "length data" arbitrary: data ms st buf n rule: less_induct)
  case less
  show ?case
  proof (cases "data = []")
    case True
    then have "ms = []" using less.prems part_msg_no_whole by (metis append_Nil2)
    then have "n = length t" using True less.prems(2,3,5) by (metis append_Nil append_Nil2 concat.simps(1) length_take min.absorb2)
    then show ?thesis using True \<open>ms = []\<close> less.prems by (simp add: dealt_def recv_loop.simps)
  next
    case False
    obtain k where k: "map_of (cn_conns st) c = Some k" "cc_recv k = buf" "cc_used k = n" using less.prems(1) by (auto simp: recv_buf_def)
    define mv where "mv = min (M - n) (length data)"
    have "n < M" using part_msg_fits [OF less.prems(4,9)] less.prems(2,3) by simp
    then have mv: "0 < mv" "mv \<le> length data" "mv \<le> M - n" using False by (auto simp: mv_def)
    define B where "B = take n buf @ take mv data"
    define st1 where "st1 = set_conn c (receive mv data k) st"
    define buf1 where "buf1 = cc_recv (receive mv data k)"
    have b1: "recv_buf st1 c = Some (buf1, n + mv)" "length buf1 = M" "take (n + mv) buf1 = B" "n + mv \<le> M"
      using k mv less.prems(2,3) by (auto simp: st1_def buf1_def B_def recv_buf_set_conn receive_def poke_def)
    have other1: "\<forall>d. d \<noteq> c \<longrightarrow> recv_buf st1 d = recv_buf st d" by (simp add: st1_def recv_buf_set_conn)
    have bl: "blank st1 = blank st" unfolding st1_def
      by (rule blank_set_conn_same [OF k(1)]) (simp add: blank_conn_def receive_def)
    have stream: "B @ drop mv data = concat ms @ t" using less.prems(5) by (simp add: B_def)
    then obtain ms1 ms2 u where cut: "ms = ms1 @ ms2" "B = concat ms1 @ u" "u @ drop mv data = concat ms2 @ t" "part_msg M u"
      using cut_stream [OF stream less.prems(6,7)] by blast
    have good: "\<not> (2 \<le> n + mv \<and> (M - 4 < msg_len buf1 \<or> msg_len buf1 = 0))"
    proof (cases "2 \<le> n + mv")
      case True
      moreover have "length B = n + mv" using b1 by (metis length_take min.absorb2)
      ultimately have "0 < msg_len B \<and> msg_len B + 4 \<le> M" using stream_len_ok [OF stream less.prems(6,7)] by simp
      moreover have "msg_len B = msg_len buf1" using b1(3) msg_len_take [OF True, of buf1] by simp
      ultimately show ?thesis by auto
    qed simp
    have unf: "recv_loop env c data st = Option.bind (deal_loop env c st1) (\<lambda>(ok, st2).
        if \<not> ok then Some (False, st2) else recv_loop env c (drop mv data) st2)"
    proof -
      have "cc_used (receive mv data k) = n + mv" "cc_recv (receive mv data k) = buf1" using k by (simp_all add: receive_def buf1_def)
      moreover have "mv = min (ce_max env - cc_used k) (length data)" using less.prems(8) k(3) by (simp add: mv_def)
      ultimately show ?thesis using good less.prems(8) recv_loop_unfold [OF False k(1), of mv env]
        by (auto simp: st1_def)
    qed
    have d1: "dealt M c u st1 (deal_loop env c st1) (deal_all env c ms1 (blank st))"
      using deal_loop_stream [OF b1(1,2,4)] b1(3) cut less.prems(6) by (simp add: bl)
    have split: "deal_all env c ms (blank st) = Option.bind (deal_all env c ms1 (blank st))
        (\<lambda>(ok, s). if ok then deal_all env c ms2 s else Some (False, s))" by (simp add: cut(1) deal_all_append)
    from dealtE [OF d1] show ?thesis
    proof (elim disjE exE conjE)
      assume "deal_loop env c st1 = None" "deal_all env c ms1 (blank st) = None"
      then show ?thesis by (simp add: unf split dealt_def)
    next
      fix ok st2
      assume d: "deal_loop env c st1 = Some (ok, st2)" "deal_all env c ms1 (blank st) = Some (ok, blank st2)"
        and other2: "\<forall>d. d \<noteq> c \<longrightarrow> recv_buf st2 d = recv_buf st1 d"
        and left: "ok \<longrightarrow> (\<exists>buf. recv_buf st2 c = Some (buf, length u) \<and> length buf = M \<and> take (length u) buf = u)"
      show ?thesis
      proof (cases ok)
        case False
        then show ?thesis using d other1 other2 by (simp add: unf split dealt_def)
      next
        case True
        then obtain buf2 where b2: "recv_buf st2 c = Some (buf2, length u)" "length buf2 = M" "take (length u) buf2 = u"
          using left by blast
        have "dealt M c t st2 (recv_loop env c (drop mv data) st2) (deal_all env c ms2 (blank st2))"
          using less.hyps [OF _ b2(1,2), of "drop mv data" ms2] b2(3) mv False cut part_msg_fits [OF cut(4) less.prems(9)] less.prems(6-9)
          by auto
        then show ?thesis using d True other1 other2 by (auto simp: unf split intro: dealt_frame)
      qed
    qed
  qed
qed

section \<open>Empty messages\<close>

text \<open>A network that takes all it is given from connection \<open>c\<close>, and a request that is not of a task.\<close>

definition takes_all :: "('q, 'w) cache_env \<Rightarrow> nat \<Rightarrow> bool" where
  "takes_all env c \<longleftrightarrow> (\<forall>b w. fst (ce_send env c b w) = int (length b))"

lemma net_send_direct:
  assumes "takes_all env c" "map_of (cn_conns st) c = Some k" "cc_send k = []"
  shows "\<exists>w. net_send env c b st = (True, st\<lparr>cn_io := w\<rparr>)"
proof (cases "b = []")
  case True
  then have "net_send env c b st = (True, st\<lparr>cn_io := cn_io st\<rparr>)" by (simp add: net_send_def)
  then show ?thesis by blast
next
  case False
  obtain n w where send: "ce_send env c b (cn_io st) = (n, w)" by fastforce
  then have n: "n = int (length b)" using assms(1) by (metis takes_all_def fst_conv)
  have "k\<lparr>cc_send := []\<rparr> = k" using assms(3) by simp
  then have "AList.update c (k\<lparr>cc_send := []\<rparr>) (cn_conns st) = cn_conns st" using assms(2) by (simp add: update_present)
  then have "net_send env c b st = (True, st\<lparr>cn_io := w\<rparr>)"
    using False assms(2,3) send n by (simp add: net_send_def Let_def)
  then show ?thesis by blast
qed

lemma so_deal_goes_on:
  assumes "takes_all env c" "map_of (cn_conns st) c = Some k" "cc_send k = []" "cmd_id b \<noteq> SYSTEM_MSG" "cn_req st \<noteq> []"
    and deal: "deal_request_msg env b c st = Some (ok, st1)"
  shows "ok \<and> map_of (cn_conns st1) c = Some k \<and> cn_req st1 \<noteq> []"
proof -
  from deal assms(4,5) obtain r st2 where so: "deal_so_request env b c st = Some (Some r, st2)"
    and send: "net_send env c r st2 = (ok, st1)"
    by (auto simp: deal_request_msg_def deal_so_request_def Let_def split: option.splits prod.splits)
  from so_request_keeps [OF so] obtain q where st2: "st2 = st\<lparr>cn_req := q\<rparr>" "length q = length (cn_req st)" by blast
  with net_send_direct [OF assms(1), of st2 k r] assms(2,3) obtain w where "net_send env c r st2 = (True, st2\<lparr>cn_io := w\<rparr>)"
    by auto
  with send st2 assms(2,5) show ?thesis by auto
qed

definition stuck :: "('q, 'w) cache_env \<Rightarrow> nat \<Rightarrow> ('q, 'w) cache_net \<Rightarrow> bool" where
  "stuck env c st \<longleftrightarrow> takes_all env c \<and> cn_req st \<noteq> [] \<and> (\<exists>k. map_of (cn_conns st) c = Some k \<and> 2 \<le> cc_used k \<and>
     msg_len (cc_recv k) = 0 \<and> cmd_id (cc_recv k) \<noteq> SYSTEM_MSG \<and> cc_send k = [])"

lemma deal_loop_stuck: "deal_loop env c st = Some r \<Longrightarrow> \<not> stuck env c st"
proof (erule deal_loop.raw_induct [rotated], rule notI)
  fix loop and env :: "('q, 'w) cache_env" and c st and r :: "bool \<times> ('q, 'w) cache_net"
  assume IH: "\<And>env c st r. loop env c st = Some r \<Longrightarrow> \<not> stuck env c st"
    and step: "(case map_of (cn_conns st) c of None \<Rightarrow> None | Some k \<Rightarrow>
        if cc_used k < 2 \<or> cc_used k < msg_len (cc_recv k) then Some (True, st)
        else Option.bind (deal_request_msg env (cc_recv k) c st) (\<lambda>(ok, st1).
          if \<not> ok then Some (False, st1)
          else Option.bind (map_of (cn_conns st1) c) (\<lambda>k1. loop env c (set_conn c (consume k1) st1)))) = Some r"
    and st: "stuck env c st"
  from st obtain k where k: "map_of (cn_conns st) c = Some k" "2 \<le> cc_used k" "msg_len (cc_recv k) = 0"
    "cmd_id (cc_recv k) \<noteq> SYSTEM_MSG" "cc_send k = []" and "takes_all env c" "cn_req st \<noteq> []" by (auto simp: stuck_def)
  note next_ok = so_deal_goes_on [OF \<open>takes_all env c\<close> k(1,5,4) \<open>cn_req st \<noteq> []\<close>]
  from step k obtain ok st1 where d: "deal_request_msg env (cc_recv k) c st = Some (ok, st1)"
    by (cases "deal_request_msg env (cc_recv k) c st") auto
  with step k next_ok [OF d] have "loop env c (set_conn c (consume k) st1) = Some r" by simp
  moreover have "consume k = k" using k by (simp add: consume_def)
  ultimately show False using IH [of env c "set_conn c (consume k) st1" r] next_ok [OF d] k \<open>takes_all env c\<close>
    by (simp add: stuck_def update_conv')
qed

lemma fresh_len: "msg_len (poke 0 (m @ r) buf) = msg_len m" if "2 \<le> length m"
  using that by (simp add: poke_0 msg_len_append)

end
