(* ===== verification/CacheWork.thy ===== *)
theory CacheWork
  imports CacheNet
begin

text \<open>
  A worker process of the cache service (\<^verbatim>\<open>feed/cache_serv/src/work-proc/work_proc.cpp\<close>, class
  \<^verbatim>\<open>c_work_proc\<close>): it puts the feeds it is asked to keep into its cache queue and takes one out for each request of a
  task. The cache queue, in memory and a database, is a parameter.
\<close>

text \<open>A push gives a positive number when it kept the message, a pop the length of the oldest message (0:
  none, negative: failed).\<close>

record 'c cache_queue =
  cq_push :: "byte list \<Rightarrow> 'c \<Rightarrow> int \<times> 'c"
  cq_pop :: "nat \<Rightarrow> 'c \<Rightarrow> (int \<times> byte list) \<times> 'c"

definition feed_response_sz :: nat where "feed_response_sz = 13"

text \<open>The responses are what is pushed into the response queue, \<open>None\<close> the result -1.\<close>

definition work_task_request ::
  "nat \<Rightarrow> 'c cache_queue \<Rightarrow> byte list \<Rightarrow> 'c \<Rightarrow> (byte list option \<times> 'c) option" where
  "work_task_request mx cq conn cache =
     (case cq_pop cq mx cache of
        ((n, bs), cache') \<Rightarrow>
          (let b = (if n > 0 then poke 0 bs (replicate mx 0)
                    else poke 0 (to_le 2 feed_response_sz @ to_le 2 0xFFFF) (replicate mx 0));
               len = msg_len b; b1 = poke len conn b; total = (msg_len b1 + 4) mod 65536
           in if n < 0 then Some (None, cache')
              else if mx < length bs \<or> mx < len + 4 \<or> mx < total then None
              else Some (Some (take total (set_len total b1)), cache')))"

definition work_so_request ::
  "'c cache_queue \<Rightarrow> byte list \<Rightarrow> 'c \<Rightarrow> bool \<times> 'c" where
  "work_so_request cq m cache = (case cq_push cq m cache of (n, cache') \<Rightarrow> (n > 0, cache'))"

text \<open>One turn of the worker: the result is 0 or -1. What comes before the connection is the message again, its
  length as it was.\<close>

definition work_request ::
  "('q, 'w) cache_env \<Rightarrow> 'c cache_queue \<Rightarrow> 'q \<Rightarrow> 'q \<Rightarrow> 'c \<Rightarrow> (bool \<times> 'q \<times> 'q \<times> 'c) option" where
  "work_request env cq req resp cache =
     (case ce_pop env (ce_max env) req of
        ((n, bs), req') \<Rightarrow>
          (let mx = ce_max env; b0 = poke 0 bs (replicate mx 0); len = (msg_len b0 + 65532) mod 65536; b = set_len len b0
           in if n = 0 then Some (True, req', resp, cache)
              else if n < 0 then Some (False, req', resp, cache)
              else if mx < length bs \<or> mx < len + 4 then None
              else if cmd_id b = SYSTEM_MSG then
                (case work_task_request mx cq (take 4 (drop len b)) cache of
                   None \<Rightarrow> None
                 | Some (None, cache') \<Rightarrow> Some (False, req', resp, cache')
                 | Some (Some r, cache') \<Rightarrow>
                     (case ce_push env r resp of
                        (k, resp') \<Rightarrow> Some (r = [] \<or> k = int (length r), req', if r = [] then resp else resp', cache')))
              else (case work_so_request cq (take len b) cache of
                  (ok, cache') \<Rightarrow> Some (ok, req', resp, cache'))))"

end
