(* ===== verification/CacheProps.thy ===== *)
theory CacheProps
  imports CacheFrame CacheWork
begin

text \<open>
  What holds of the network process of the cache service: which task has which worker, what it makes of the bytes
  clients send, and where it hangs.
\<close>

section \<open>A sample\<close>

text \<open>Rings that hold what they are given and a network that takes everything and writes it down; a task, an
  feed of user 5 and the connection 7.\<close>

definition log_env :: "nat \<Rightarrow> (byte list list, (nat \<times> byte list) list) cache_env" where
  "log_env M = \<lparr>ce_max = M, ce_push = (\<lambda>b q. (int (length b), q @ [b])),
     ce_pop = (\<lambda>n q. case q of [] \<Rightarrow> ((0, []), []) | b # r \<Rightarrow> ((int (length b), b), r)),
     ce_send = (\<lambda>c b w. (int (length b), w @ [(c, b)])), ce_close = (\<lambda>c w. w)\<rparr>"

definition two_workers :: "(byte list list, (nat \<times> byte list) list) cache_net" where
  "two_workers = snd (on_new_connection (log_env 32) 7 (net_init [[], []] [[], []] []))"

definition task_asks :: "byte list" where "task_asks = [6, 0, 255, 255, 1, 0]"
definition some_msg :: "byte list" where "some_msg = [9, 0, 2, 0, 5, 0, 0, 0, 1]"

lemma two_workers_reach: "cache_reach (log_env 32) two_workers"
  unfolding two_workers_def by (intro cache_reach.connected cache_reach.start) simp

lemma log_env_max [simp]: "ce_max (log_env M) = M"
  by (simp add: log_env_def)

lemma log_env_takes_all: "takes_all (log_env M) c"
  by (simp add: takes_all_def log_env_def)

lemma sample_msgs: "whole_msg 32 task_asks" "whole_msg 32 some_msg" "cmd_id some_msg \<noteq> SYSTEM_MSG"
  by (simp_all add: whole_msg_def task_asks_def some_msg_def msg_len_def cmd_id_def sub_cmd_def rd_le_def SYSTEM_MSG_def
      CONN_REQUEST_def)

lemma sample_start: "map_of (cn_conns two_workers) 7 \<noteq> None" "pending two_workers 7 = []" "cn_req two_workers = [[], []]"
  "map_of (cn_tasks two_workers) 7 = None"
  by (simp_all add: two_workers_def on_new_connection_def net_init_def pending_def recv_buf_def)

lemma sample_blank: "blank two_workers = \<lparr>cn_conns = [(7, \<lparr>cc_recv = [], cc_used = 0, cc_send = []\<rparr>)], cn_tasks = [],
    cn_flags = [False, False], cn_req = [[], []], cn_resp = [[], []], cn_io = []\<rparr>"
  by (simp add: two_workers_def on_new_connection_def net_init_def blank_def blank_conn_def numeral_eq_Suc)

lemma to_le_few: "to_le 2 n = [word_of_nat (n mod 256), word_of_nat (n div 256 mod 256)]"
  "to_le 4 n = [word_of_nat (n mod 256), word_of_nat (n div 256 mod 256), word_of_nat (n div 256 div 256 mod 256),
     word_of_nat (n div 256 div 256 div 256 mod 256)]"
proof -
  have "2 = Suc (Suc 0)" "4 = Suc (Suc (Suc (Suc 0)))" by simp_all
  then show "to_le 2 n = [word_of_nat (n mod 256), word_of_nat (n div 256 mod 256)]"
    "to_le 4 n = [word_of_nat (n mod 256), word_of_nat (n div 256 mod 256), word_of_nat (n div 256 div 256 mod 256),
     word_of_nat (n div 256 div 256 div 256 mod 256)]"
    by (simp_all only: to_le.simps)
qed

lemma sample_block: "request_block 32 some_msg 7 = Some [13, 0, 2, 0, 5, 0, 0, 0, 1, 7, 0, 0, 0]"
  by (subst request_block_whole [of _ 9]) (simp_all add: some_msg_def msg_len_def rd_le_def to_le_few)

lemma sample_fields: "cmd_id some_msg = 2" "rd_le 4 4 some_msg = 5" "cmd_id task_asks = SYSTEM_MSG" "sub_cmd task_asks = CONN_REQUEST"
  by (simp_all add: some_msg_def task_asks_def cmd_id_def sub_cmd_def rd_le_def SYSTEM_MSG_def CONN_REQUEST_def)

lemma sample_deals: "deal_all (log_env 32) 7 [some_msg, task_asks] (blank two_workers) = Some (True,
    \<lparr>cn_conns = [(7, \<lparr>cc_recv = [], cc_used = 0, cc_send = []\<rparr>)], cn_tasks = [(7, 0)], cn_flags = [True, False],
     cn_req = [[], [[13, 0, 2, 0, 5, 0, 0, 0, 1, 7, 0, 0, 0]]], cn_resp = [[], []], cn_io = [(7, [4, 0, 0, 0]), (7, [4, 0, 7, 0])]\<rparr>)"
  by (simp add: sample_blank deal_request_msg_def sample_fields deal_so_request_def deal_task_request_def sample_block
      deal_task_conn_request_def log_env_def net_send_def so_response_def SYSTEM_MSG_def Let_def to_le_few
      numeral_2_eq_2 [symmetric])

section \<open>Receiving\<close>

text \<open>C7: however the network cuts what a client sends, the messages dealt with are those the client sent, each
  once and in their order, up to the first that fails; then the result is the one of dealing with it. What is left of
  the last message stays in the buffer of the connection, and the buffers of the other connections are as they
  were. The receiving loops end.\<close>

theorem cache_recv_frames:
  assumes reach: "cache_reach env st" and env: "2 \<le> ce_max env" "ce_max env < 65536"
    and conn: "map_of (cn_conns st) c \<noteq> None" "part_msg (ce_max env) (pending st c)"
    and stream: "pending st c @ data = concat ms @ t" "\<forall>m \<in> set ms. whole_msg (ce_max env) m" "part_msg (ce_max env) t"
  shows "\<exists>ok st'. on_recv_data env c data st = Some (ok, st') \<and> deal_all env c ms (blank st) = Some (ok, blank st') \<and>
    (ok \<longrightarrow> pending st' c = t) \<and> (\<forall>d. d \<noteq> c \<longrightarrow> pending st' d = pending st d)"
proof -
  obtain k where k: "map_of (cn_conns st) c = Some k" using conn(1) by auto
  have buf: "recv_buf st c = Some (cc_recv k, cc_used k)" by (simp add: recv_buf_def k)
  have ok: "conn_ok (ce_max env) k" using cache_reach_inv [OF reach] env(1) conns_ok_lookup [OF _ k] by (simp add: cache_inv_def)
  have p: "pending st c = take (cc_used k) (cc_recv k)" by (simp add: pending_def buf)
  have d: "dealt (ce_max env) c t st (recv_loop env c data st) (deal_all env c ms (blank st))"
    using recv_loop_stream [OF buf] ok conn(2) stream env(1) by (simp add: conn_ok_def p)
  have "deal_all env c ms s \<noteq> None" for s
    using stream(2) by (induction ms arbitrary: s) (auto simp: deal_request_msg_total env(2) split: bind_splits)
  then obtain ok st' where st': "recv_loop env c data st = Some (ok, st')" "deal_all env c ms (blank st) = Some (ok, blank st')"
    "\<forall>d. d \<noteq> c \<longrightarrow> recv_buf st' d = recv_buf st d"
    "ok \<longrightarrow> (\<exists>buf. recv_buf st' c = Some (buf, length t) \<and> length buf = ce_max env \<and> take (length t) buf = t)"
    using dealtE [OF d] by blast
  have "on_recv_data env c data st = Some (ok, st')" using conn(1) st'(1) by (auto simp: on_recv_data_def)
  moreover have "ok \<longrightarrow> pending st' c = t" using st'(4) by (auto simp: pending_def)
  ultimately show ?thesis using st'(2,3) by (simp add: pending_def)
qed

theorem cache_recv_frames_witness:
  "\<exists>st'. on_recv_data (log_env 32) 7 (some_msg @ task_asks @ [6]) two_workers = Some (True, st') \<and> pending st' 7 = [6] \<and>
     cn_tasks st' = [(7, 0)] \<and> length (cn_req st' ! 1) = 1"
proof -
  have "\<exists>ok st'. on_recv_data (log_env 32) 7 (some_msg @ task_asks @ [6]) two_workers = Some (ok, st') \<and>
      deal_all (log_env 32) 7 [some_msg, task_asks] (blank two_workers) = Some (ok, blank st') \<and>
      (ok \<longrightarrow> pending st' 7 = [6]) \<and> (\<forall>d. d \<noteq> 7 \<longrightarrow> pending st' d = pending two_workers d)"
    using cache_recv_frames [OF two_workers_reach, of 7 "some_msg @ task_asks @ [6]" "[some_msg, task_asks]" "[6]"] sample_start sample_msgs
    by (simp add: part_msg_def)
  then obtain ok st' where st': "on_recv_data (log_env 32) 7 (some_msg @ task_asks @ [6]) two_workers = Some (ok, st')"
    "deal_all (log_env 32) 7 [some_msg, task_asks] (blank two_workers) = Some (ok, blank st')" "ok \<longrightarrow> pending st' 7 = [6]"
    by blast
  have ok: "ok" and b: "cn_tasks (blank st') = [(7, 0)] \<and> length (cn_req (blank st') ! 1) = 1"
    using st'(2) unfolding sample_deals option.inject prod.inject by (auto dest!: sym [of _ "blank st'"] simp del: blank_sel)
  with st' show ?thesis by auto
qed



section \<open>Tasks and workers\<close>

text \<open>C21: in every state the network process can reach, whatever its clients send and in whatever order they
  connect, ask and leave, no worker serves two tasks, a worker is flagged as taken exactly when it serves one, and
  every task has an open connection.\<close>

theorem cache_tasks_apart:
  assumes "cache_reach env st" "0 < ce_max env"
  shows "(\<forall>c d i. map_of (cn_tasks st) c = Some i \<and> map_of (cn_tasks st) d = Some i \<longrightarrow> c = d) \<and>
    (\<forall>i < length (cn_req st). cn_flags st ! i = (\<exists>c. map_of (cn_tasks st) c = Some i)) \<and>
    (\<forall>c i. map_of (cn_tasks st) c = Some i \<longrightarrow> i < length (cn_req st) \<and> map_of (cn_conns st) c \<noteq> None)"
proof -
  have inv: "cache_inv (ce_max env) st" using cache_reach_inv [OF assms] .
  then have ts: "distinct (map fst (cn_tasks st))" "inj_on snd (set (cn_tasks st))"
    "snd ` set (cn_tasks st) = {i. i < length (cn_flags st) \<and> cn_flags st ! i}"
    and len: "length (cn_flags st) = length (cn_req st)" and sub: "fst ` set (cn_tasks st) \<subseteq> fst ` set (cn_conns st)"
    by (simp_all add: cache_inv_def tasks_ok_def distinct_map)
  have look: "map_of (cn_tasks st) c = Some i \<longleftrightarrow> (c, i) \<in> set (cn_tasks st)" for c i
    using ts(1) by (simp add: map_of_eq_Some_iff)
  have mem: "(\<exists>c. map_of (cn_tasks st) c = Some i) \<longleftrightarrow> i < length (cn_req st) \<and> cn_flags st ! i" for i
  proof -
    have "(\<exists>c. (c, i) \<in> set (cn_tasks st)) \<longleftrightarrow> i \<in> snd ` set (cn_tasks st)" by force
    then show ?thesis using ts(3) len by (simp add: look)
  qed
  have "c = d" if "(c, i) \<in> set (cn_tasks st)" "(d, i) \<in> set (cn_tasks st)" for c d i
    using inj_onD [OF ts(2) _ that] by simp
  moreover have "map_of (cn_conns st) c \<noteq> None" if "(c, i) \<in> set (cn_tasks st)" for c i
  proof -
    have "c \<in> fst ` set (cn_tasks st)" using that by force
    then show ?thesis using subsetD [OF sub] by (simp add: map_of_eq_None_iff)
  qed
  moreover have "i < length (cn_req st)" if "(c, i) \<in> set (cn_tasks st)" for c i using mem [of i] that by (auto simp: look)
  moreover have "cn_flags st ! i = (\<exists>c. map_of (cn_tasks st) c = Some i)" if "i < length (cn_req st)" for i
    using mem [of i] that by simp
  ultimately show ?thesis by (simp add: look) blast
qed

definition one_task :: "(byte list list, (nat \<times> byte list) list) cache_net" where
  "one_task = snd (the (on_recv_data (log_env 32) 7 task_asks two_workers))"

lemma one_task_reach: "cache_reach (log_env 32) one_task" and one_task_state: "cn_tasks one_task = [(7, 0)]" "cn_req one_task = [[], []]"
  "cn_flags one_task = [True, False]"
proof -
  have "dealt 32 7 [] two_workers (recv_loop (log_env 32) 7 task_asks two_workers) (deal_all (log_env 32) 7 [task_asks] (blank two_workers))"
    by (rule recv_loop_stream [of _ _ "of_char CHR ''0'' # replicate 31 0" 0])
      (use sample_msgs in \<open>simp_all add: two_workers_def on_new_connection_def net_init_def recv_buf_def part_msg_def\<close>)
  moreover have "deal_all (log_env 32) 7 [task_asks] (blank two_workers) = Some (True,
    \<lparr>cn_conns = [(7, \<lparr>cc_recv = [], cc_used = 0, cc_send = []\<rparr>)], cn_tasks = [(7, 0)], cn_flags = [True, False],
     cn_req = [[], []], cn_resp = [[], []], cn_io = [(7, [4, 0, 7, 0])]\<rparr>)"
    by (simp add: sample_blank deal_request_msg_def sample_fields deal_task_request_def
        deal_task_conn_request_def log_env_def net_send_def Let_def to_le_few)
  ultimately obtain st' where st': "recv_loop (log_env 32) 7 task_asks two_workers = Some (True, st')"
    "blank st' = \<lparr>cn_conns = [(7, \<lparr>cc_recv = [], cc_used = 0, cc_send = []\<rparr>)], cn_tasks = [(7, 0)], cn_flags = [True, False],
     cn_req = [[], []], cn_resp = [[], []], cn_io = [(7, [4, 0, 7, 0])]\<rparr>"
    using dealtE [of 32 7 "[]" two_workers] by (metis option.distinct(1) option.inject prod.inject)
  then have recv: "on_recv_data (log_env 32) 7 task_asks two_workers = Some (True, st')" using sample_start by (auto simp: on_recv_data_def)
  show "cache_reach (log_env 32) one_task"
    using cache_reach.received [OF two_workers_reach recv] by (simp add: one_task_def recv)
  show "cn_tasks one_task = [(7, 0)]" "cn_req one_task = [[], []]" "cn_flags one_task = [True, False]"
    using arg_cong [OF st'(2), of cn_tasks] arg_cong [OF st'(2), of cn_req] arg_cong [OF st'(2), of cn_flags]
    by (simp_all add: one_task_def recv)
qed

theorem cache_tasks_apart_witness: "map_of (cn_conns one_task) 7 \<noteq> None \<and> cn_flags one_task = [True, False] \<and> cn_tasks one_task = [(7, 0)]"
proof -
  have "\<forall>c i. map_of (cn_tasks one_task) c = Some i \<longrightarrow> i < length (cn_req one_task) \<and> map_of (cn_conns one_task) c \<noteq> None"
    by (rule cache_tasks_apart [OF one_task_reach, THEN conjunct2, THEN conjunct2]) simp
  then show ?thesis by (simp add: one_task_state)
qed

lemma map_of_insort_new: "map_of xs c = None \<Longrightarrow> map_of (insort_key fst (c, i) xs) = (map_of xs)(c \<mapsto> i)"
  by (induction xs) (auto simp: fun_eq_iff split: if_splits)

text \<open>A connection that asks for a worker gets the first that is free, and is refused with task 0xFFFF only when
  every worker is taken; the two results the code has behind "more tasks than workers" are never reached.\<close>

lemma cache_task_granted:
  assumes "cache_reach env st" "0 < ce_max env" "map_of (cn_tasks st) c = None"
  shows "if \<forall>i < length (cn_req st). cn_flags st ! i
    then deal_task_conn_request c st = (Some (to_le 2 4 @ to_le 2 0xFFFF), st)
    else \<exists>i st'. deal_task_conn_request c st = (Some (to_le 2 4 @ to_le 2 c), st') \<and> i < length (cn_req st) \<and>
      \<not> cn_flags st ! i \<and> (\<forall>j < i. cn_flags st ! j) \<and> map_of (cn_tasks st') = (map_of (cn_tasks st))(c \<mapsto> i) \<and>
      cn_flags st' = (cn_flags st)[i := True] \<and> cn_conns st' = cn_conns st \<and> cn_req st' = cn_req st"
proof -
  let ?n = "length (cn_req st)" and ?i = "length (takeWhile (\<lambda>f. f) (cn_flags st))"
  have inv: "cache_inv (ce_max env) st" using cache_reach_inv [OF assms(1,2)] .
  then have len: "length (cn_flags st) = ?n" by (simp add: cache_inv_def)
  have count: "length (cn_tasks st) = length (filter (\<lambda>f. f) (cn_flags st))"
    using inv tasks_count by (auto simp: cache_inv_def)
  have all: "length (cn_tasks st) = ?n \<longleftrightarrow> (\<forall>i < ?n. cn_flags st ! i)"
    unfolding count len [symmetric] by (metis (mono_tags, lifting) all_nth_imp_all_set filter_id_conv length_filter_less nat_less_le nth_mem)
  have le: "length (cn_tasks st) \<le> ?n" unfolding count len [symmetric] by (rule length_filter_le)
  show ?thesis
  proof (cases "\<forall>i < ?n. cn_flags st ! i")
    case False
    then have i: "?i < ?n" using len
      by (metis (no_types, lifting) le_neq_implies_less length_takeWhile_le nth_mem set_takeWhileD takeWhile_nth length_takeWhile_le)
    have free: "\<not> cn_flags st ! ?i" using i len nth_length_takeWhile [of "\<lambda>f. f" "cn_flags st"] by simp
    have first: "\<forall>j < ?i. cn_flags st ! j" by (metis nth_mem set_takeWhileD takeWhile_nth)
    let ?st' = "st\<lparr>cn_tasks := insort_key fst (c, ?i) (cn_tasks st), cn_flags := (cn_flags st)[?i := True]\<rparr>"
    have "deal_task_conn_request c st = (Some (to_le 2 4 @ to_le 2 c), ?st')"
    proof -
      have "length (cn_tasks st) < ?n" using False all le by (auto simp: le_less)
      then show ?thesis using i assms(3) by (simp add: deal_task_conn_request_def Let_def)
    qed
    moreover have "map_of (insort_key fst (c, ?i) (cn_tasks st)) = (map_of (cn_tasks st))(c \<mapsto> ?i)"
      using assms(3) by (rule map_of_insort_new)
    ultimately show ?thesis using False i free first
      by (subst if_not_P) (auto intro!: exI [of _ ?i])
  qed (use all in \<open>simp add: deal_task_conn_request_def\<close>)
qed

lemma cache_task_granted_witness:
  "\<exists>st'. deal_task_conn_request 9 one_task = (Some (to_le 2 4 @ to_le 2 9), st') \<and> map_of (cn_tasks st') 9 = Some 1"
proof -
  have no: "\<not> (\<forall>i < length (cn_req one_task). cn_flags one_task ! i)" by (auto simp: one_task_state intro!: exI [of _ 1])
  have "map_of (cn_tasks one_task) 9 = None" by (simp add: one_task_state)
  from cache_task_granted [OF one_task_reach _ this, unfolded if_not_P [OF no]] obtain i st'
    where st': "deal_task_conn_request 9 one_task = (Some (to_le 2 4 @ to_le 2 9), st')" "i < length (cn_req one_task)"
      "\<not> cn_flags one_task ! i" "map_of (cn_tasks st') = (map_of (cn_tasks one_task))(9 \<mapsto> i)" by auto
  then have "i = 1" by (auto simp: one_task_state less_Suc_eq)
  then show ?thesis using st'(1,4) by simp
qed

end
