(* ===== verification/CachePipe.thy ===== *)
theory CachePipe
  imports CacheProps
begin

text \<open>
  The way of a feed through the cache service: from the client into the request queue of a worker, from there into
  its cache, with the next request of the task into the response queue, and from there to the task. Whatever the
  order in which the network process and the workers take their turns, the feeds of a worker come out in the order
  in which the clients were told that they are taken, each of them once.
\<close>

section \<open>What the service relies on\<close>

text \<open>A ring queue: \<open>R\<close> are the blocks in it. It takes a block as a whole or not at all, and gives the oldest.\<close>

definition ring_ok :: "('q, 'w) cache_env \<Rightarrow> ('q \<Rightarrow> byte list list) \<Rightarrow> bool" where
  "ring_ok env R \<longleftrightarrow>
     (\<forall>b q n q'. ce_push env b q = (n, q') \<longrightarrow> R q' = (if n = int (length b) then R q @ [b] else R q)) \<and>
     (\<forall>k q n bs q'. ce_pop env k q = ((n, bs), q') \<longrightarrow>
        (case R q of [] \<Rightarrow> n \<in> {0, -1} \<and> R q' = []
         | b # r \<Rightarrow> (n = int (length b) \<and> bs = b \<and> R q' = r) \<or> (n = -1 \<and> R q' = R q)))"

text \<open>A cache queue: \<open>C\<close> are the messages in it, the oldest first.\<close>

definition cache_ok :: "'c cache_queue \<Rightarrow> ('c \<Rightarrow> byte list list) \<Rightarrow> bool" where
  "cache_ok cq C \<longleftrightarrow>
     (\<forall>m c n c'. cq_push cq m c = (n, c') \<longrightarrow> C c' = (if n > 0 then C c @ [m] else C c)) \<and>
     (\<forall>k c n bs c'. cq_pop cq k c = ((n, bs), c') \<longrightarrow>
        (case C c of [] \<Rightarrow> n \<le> 0 \<and> C c' = []
         | m # r \<Rightarrow> (n = int (length m) \<and> bs = m \<and> C c' = r) \<or> (n < 0 \<and> C c' = C c)))"

section \<open>Blocks\<close>

text \<open>A block of a ring is a message, longer by the connection behind it.\<close>

definition block_of :: "byte list \<Rightarrow> byte list \<Rightarrow> byte list" where
  "block_of m conn = to_le 2 (length m + 4) @ drop 2 m @ conn"

definition msg_of :: "byte list \<Rightarrow> byte list" where
  "msg_of blk = set_len (length blk - 4) (take (length blk - 4) blk)"

definition carries :: "byte list \<Rightarrow> bool" where
  "carries blk \<longleftrightarrow> cmd_id blk \<noteq> SYSTEM_MSG"

definition block_ok :: "nat \<Rightarrow> byte list \<Rightarrow> bool" where
  "block_ok M blk \<longleftrightarrow> msg_len blk = length blk \<and> 10 \<le> length blk \<and> length blk \<le> M"

definition feed_ok :: "nat \<Rightarrow> byte list \<Rightarrow> bool" where
  "feed_ok M m \<longleftrightarrow> msg_len m = length m \<and> 6 \<le> length m \<and> length m + 4 \<le> M \<and> carries m"

lemma set_len_msg: "msg_len m = length m \<Longrightarrow> 2 \<le> length m \<Longrightarrow> to_le 2 (length m) @ drop 2 m = m"
proof -
  assume m: "msg_len m = length m" "2 \<le> length m"
  have "to_le (length (take 2 m)) (le_nat (take 2 m)) = take 2 m" by (rule to_le_le_nat)
  with m have "to_le 2 (length m) = take 2 m" by (simp add: msg_len_def rd_le_def)
  then show ?thesis by simp
qed

lemma msg_of_block_of: "msg_len m = length m \<Longrightarrow> 6 \<le> length m \<Longrightarrow> length conn = 4 \<Longrightarrow> msg_of (block_of m conn) = m"
  using set_len_msg [of m] by (simp add: msg_of_def block_of_def set_len_def poke_0)

lemma cmd_id_block_of: "4 \<le> length m \<Longrightarrow> cmd_id (block_of m conn) = cmd_id m"
  by (simp add: cmd_id_def block_of_def rd_le_def)

lemma block_of_ok:
  "6 \<le> length m \<Longrightarrow> length m + 4 \<le> M \<Longrightarrow> M < 65536 \<Longrightarrow> length conn = 4 \<Longrightarrow> block_ok M (block_of m conn)"
  by (simp add: block_ok_def block_of_def msg_len_to_le)

lemma msg_of_ok:
  assumes "block_ok M b" "M < 65536"
  shows "msg_len (msg_of b) = length (msg_of b) \<and> length (msg_of b) = length b - 4 \<and> cmd_id (msg_of b) = cmd_id b"
  using assms by (auto simp: block_ok_def msg_of_def set_len_def poke_0 msg_len_to_le cmd_id_def rd_le_def drop_take min_def)

lemma request_block_whole_msg:
  "whole_msg M m \<Longrightarrow> M < 65536 \<Longrightarrow> request_block M m c = Some (block_of m (to_le 4 c))"
  using request_block_whole [of m "length m" M c] whole_msg_size [of M m]
  by (auto simp: whole_msg_def block_of_def)

section \<open>A worker\<close>

text \<open>What is on its way through a worker, the oldest first.\<close>

definition flow :: "byte list list \<Rightarrow> byte list list" where
  "flow blks = map msg_of (filter carries blks)"

lemma flow_simps [simp]: "flow [] = []" "flow (b # bs) = (if carries b then msg_of b # flow bs else flow bs)"
  "flow (bs @ bs') = flow bs @ flow bs'"
  by (simp_all add: flow_def)

text \<open>Both processes clear the buffer, take a block into it and read the connection from behind the message.\<close>

lemma taken_block:
  assumes "block_ok M b" "M < 65536" and len: "len = (msg_len (poke 0 b (replicate M 0)) + 65532) mod 65536"
  shows "len = length b - 4 \<and> cmd_id (set_len len (poke 0 b (replicate M 0))) = cmd_id b \<and>
    take len (set_len len (poke 0 b (replicate M 0))) = msg_of b \<and>
    take 4 (drop len (set_len len (poke 0 b (replicate M 0)))) = drop (length b - 4) b"
proof -
  have b: "msg_len b = length b" "10 \<le> length b" "length b \<le> M" using assms(1) by (simp_all add: block_ok_def)
  have p: "poke 0 b (replicate M 0) = b @ replicate (M - length b) 0" by (simp add: poke_0)
  have l: "len = length b - 4"
  proof -
    have "msg_len (poke 0 b (replicate M 0)) = length b" using b by (simp add: p msg_len_append)
    moreover have e: "length b + 65532 = (length b - 4) + 65536" using b by simp
    have "length b - 4 < 65536" using b assms(2) by simp
    then have "(length b + 65532) mod 65536 = length b - 4" unfolding e by (simp only: mod_add_self2 mod_less)
    ultimately show ?thesis by (simp add: len)
  qed
  have s: "set_len len (poke 0 b (replicate M 0)) = to_le 2 len @ drop 2 b @ replicate (M - length b) 0"
    using b by (simp add: set_len_def p poke_0)
  have "cmd_id (to_le 2 len @ drop 2 b @ r) = cmd_id b" for r using b by (simp add: cmd_id_def rd_le_def)
  moreover have "take len (to_le 2 len @ drop 2 b @ r) = msg_of b" for r
    using b l by (simp add: msg_of_def set_len_def poke_0 drop_take min_def)
  moreover have "take 4 (drop len (to_le 2 len @ drop 2 b @ r)) = drop (length b - 4) b" for r
  proof -
    have "drop len (to_le 2 len @ drop 2 b @ r) = drop (len - 2) (drop 2 b @ r)" using b l by simp
    also have "\<dots> = drop len b @ r"
    proof -
      have "Suc (Suc (length b - 6)) = length b - 4" using b by simp
      then show ?thesis using b l by simp
    qed
    finally show ?thesis using b l by simp
  qed
  ultimately show ?thesis unfolding s using l by blast
qed

lemma response_block:
  assumes "msg_len m = length m" "6 \<le> length m" "length m + 4 \<le> M" "M < 65536" "length conn = 4"
  shows "take (length m + 4) (set_len (length m + 4) (poke (length m) conn (poke 0 m (replicate M 0)))) = block_of m conn \<and>
    msg_len (poke (length m) conn (poke 0 m (replicate M 0))) = length m \<and> msg_len (poke 0 m (replicate M 0)) = length m"
  using assms by (simp add: poke_0 poke_append set_len_def block_of_def msg_len_append)

definition no_feed :: "byte list" where
  "no_feed = to_le 2 feed_response_sz @ to_le 2 0xFFFF @ replicate 9 0"

lemma work_task_request_feed:
  assumes cq: "cache_ok cq C" and M: "17 \<le> M" "M < 65536" and feeds: "\<forall>m \<in> set (C c). feed_ok M m" and conn: "length conn = 4"
    and work: "work_task_request M cq conn c = Some (Some r, c')"
  shows "(C c = [] \<and> C c' = [] \<and> r = block_of no_feed conn) \<or> (\<exists>m. C c = m # C c' \<and> r = block_of m conn)"
proof -
  obtain n bs c1 where pop: "cq_pop cq M c = ((n, bs), c1)" by (metis prod.exhaust)
  have n: "0 \<le> n" "c' = c1" using work by (auto simp: work_task_request_def pop Let_def split: if_splits)
  from cq pop have law: "case C c of [] \<Rightarrow> n \<le> 0 \<and> C c1 = []
      | m # r \<Rightarrow> (n = int (length m) \<and> bs = m \<and> C c1 = r) \<or> (n < 0 \<and> C c1 = C c)" unfolding cache_ok_def by blast
  show ?thesis
  proof (cases "C c")
    case Nil
    with law n have "n = 0" "C c1 = []" by auto
    have "poke 0 (to_le 2 feed_response_sz @ to_le 2 0xFFFF) (replicate M 0) = poke 0 no_feed (replicate M 0)"
    proof -
      have "replicate (M - 4) (0 :: byte) = replicate 9 0 @ replicate (M - 13) 0" using M by (simp add: replicate_add [symmetric])
      then show ?thesis by (simp add: poke_0 no_feed_def feed_response_sz_def)
    qed
    moreover have "msg_len no_feed = length no_feed" "length no_feed = 13"
      by (simp_all add: no_feed_def feed_response_sz_def msg_len_to_le)
    ultimately have "r = block_of no_feed conn"
      using work pop \<open>n = 0\<close> response_block [of no_feed M conn] M conn
      by (auto simp: work_task_request_def Let_def split: if_splits)
    then show ?thesis using Nil n \<open>C c1 = []\<close> by simp
  next
    case (Cons m ms)
    with law n have m: "n = int (length m)" "bs = m" "C c1 = ms" by auto
    have "feed_ok M m" using feeds Cons by simp
    then have "r = block_of m conn" using work pop m response_block [of m M conn] M conn
      by (auto simp: work_task_request_def Let_def feed_ok_def split: if_splits)
    then show ?thesis using Cons m n by simp
  qed
qed

text \<open>A turn of a worker that ends with the result 0 neither loses a feed nor changes their order.\<close>

definition pipe_ok :: "nat \<Rightarrow> byte list list \<Rightarrow> byte list list \<Rightarrow> byte list list \<Rightarrow> bool" where
  "pipe_ok M resps feeds reqs \<longleftrightarrow> (\<forall>b \<in> set resps. block_ok M b) \<and> (\<forall>m \<in> set feeds. feed_ok M m) \<and> (\<forall>b \<in> set reqs. block_ok M b)"

lemma length_no_feed [simp]: "length no_feed = 13"
  by (simp add: no_feed_def)

lemma carries_no_feed: "\<not> carries (block_of no_feed conn)"
  by (simp add: carries_def cmd_id_block_of) (simp add: no_feed_def cmd_id_def rd_le_def le_nat_to_le SYSTEM_MSG_def)

lemma work_request_flow:
  assumes ring: "ring_ok env R" and cq: "cache_ok cq C" and M: "17 \<le> ce_max env" "ce_max env < 65536"
    and ok: "pipe_ok (ce_max env) (R resp) (C c) (R req)"
    and work: "work_request env cq req resp c = Some (True, req', resp', c')"
  shows "pipe_ok (ce_max env) (R resp') (C c') (R req') \<and>
    flow (R resp') @ C c' @ flow (R req') = flow (R resp) @ C c @ flow (R req)"
proof -
  let ?M = "ce_max env"
  obtain n bs q where pop: "ce_pop env ?M req = ((n, bs), q)" by (metis prod.exhaust)
  from ring pop have law: "case R req of [] \<Rightarrow> n \<in> {0, -1} \<and> R q = []
      | b # r \<Rightarrow> (n = int (length b) \<and> bs = b \<and> R q = r) \<or> (n = -1 \<and> R q = R req)" unfolding ring_ok_def by blast
  have "n \<noteq> -1" using work pop by (auto simp: work_request_def Let_def)
  show ?thesis
  proof (cases "R req")
    case Nil
    with law \<open>n \<noteq> -1\<close> have "n = 0" "R q = []" by auto
    then show ?thesis using work pop ok Nil by (auto simp: work_request_def Let_def)
  next
    case (Cons b r)
    with law \<open>n \<noteq> -1\<close> have b: "n = int (length b)" "bs = b" "R q = r" by auto
    have blk: "block_ok ?M b" and rest: "pipe_ok ?M (R resp) (C c) r" using ok Cons by (simp_all add: pipe_ok_def)
    have n: "n > 0" "length b \<le> ?M" "10 \<le> length b" using blk b by (auto simp: block_ok_def)
    define len where "len = (msg_len (poke 0 b (replicate ?M 0)) + 65532) mod 65536"
    let ?b = "set_len len (poke 0 b (replicate ?M 0))"
    note tb = taken_block [OF blk M(2) len_def]
    have len: "len + 4 \<le> ?M" using conjunct1 [OF tb] n by simp
    have cmd_b: "cmd_id ?b = cmd_id b" using tb by blast
    have m_b: "take len ?b = msg_of b" using tb by blast
    have conn_b: "take 4 (drop len ?b) = drop (length b - 4) b" using tb by blast
    note taken = len cmd_b m_b conn_b
    show ?thesis
    proof (cases "carries b")
      case True
      with cmd_b have cmd: "cmd_id ?b \<noteq> SYSTEM_MSG" by (simp add: carries_def)
      obtain k c1 where push: "cq_push cq (msg_of b) c = (k, c1)" by fastforce
      have "req' = q \<and> resp' = resp \<and> c' = c1 \<and> k > 0"
        using work pop b n cmd taken push
        by (auto simp: work_request_def Let_def len_def [symmetric] work_so_request_def split: if_splits)
      moreover have "C c1 = (if k > 0 then C c @ [msg_of b] else C c)" using cq push unfolding cache_ok_def by blast
      moreover have "feed_ok ?M (msg_of b)" using msg_of_ok [OF blk M(2)] n True by (auto simp: feed_ok_def carries_def)
      ultimately show ?thesis using rest b Cons True by (auto simp: pipe_ok_def)
    next
      case False
      with cmd_b have cmd: "cmd_id ?b = SYSTEM_MSG" by (simp add: carries_def)
      define conn where "conn = drop (length b - 4) b"
      have conn: "length conn = 4" using n by (simp add: conn_def)
      obtain a c1 where task: "work_task_request ?M cq conn c = Some (a, c1)"
        using work pop b n cmd taken
        by (auto simp: work_request_def Let_def len_def [symmetric] conn_def [symmetric] split: if_splits option.splits)
      have "a \<noteq> None" using work pop b n cmd taken task
        by (auto simp: work_request_def Let_def len_def [symmetric] conn_def [symmetric] split: if_splits option.splits)
      then obtain x where x: "a = Some x" by blast
      obtain k rs where push: "ce_push env x resp = (k, rs)" by fastforce
      have feeds: "\<forall>m \<in> set (C c). feed_ok ?M m" using rest by (simp add: pipe_ok_def)
      have form: "(C c = [] \<and> C c1 = [] \<and> x = block_of no_feed conn) \<or> (\<exists>m. C c = m # C c1 \<and> x = block_of m conn)"
        using work_task_request_feed [OF cq M feeds conn] task x by simp
      have len13: "length no_feed = 13" by (simp add: no_feed_def)
      have good: "block_ok ?M x"
        using form feeds M conn len13 by (auto simp: feed_ok_def intro!: block_of_ok)
      then have "x \<noteq> []" by (auto simp: block_ok_def)
      then have st: "req' = q \<and> resp' = rs \<and> c' = c1 \<and> k = int (length x)"
        using work pop b n cmd taken task x push
        by (auto simp: work_request_def Let_def len_def [symmetric] conn_def [symmetric] split: if_splits)
      have "R rs = (if k = int (length x) then R resp @ [x] else R resp)" using ring push unfolding ring_ok_def by blast
      with st have R: "R resp' = R resp @ [x]" by simp
      show ?thesis using form
      proof (elim disjE exE conjE)
        assume "C c = []" "C c1 = []" "x = block_of no_feed conn"
        then show ?thesis using st R rest good b Cons False carries_no_feed by (simp add: pipe_ok_def)
      next
        fix m assume m: "C c = m # C c1" "x = block_of m conn"
        then have f: "feed_ok ?M m" using feeds by simp
        then have "carries x" "msg_of x = m"
          using m(2) conn by (simp_all add: feed_ok_def carries_def cmd_id_block_of msg_of_block_of)
        then show ?thesis using st R rest good b Cons False m(1) by (simp add: pipe_ok_def)
      qed
    qed
  qed
qed

section \<open>The network process\<close>

text \<open>The messages the client is told are taken, with the worker that has them now, and the ones handed to be sent.\<close>

definition accepted :: "('q, 'w) cache_env \<Rightarrow> byte list \<Rightarrow> nat \<Rightarrow> ('q, 'w) cache_net \<Rightarrow> (nat \<times> byte list) list" where
  "accepted env m c net =
     (if cn_req net \<noteq> [] \<and> carries m \<and> map_option fst (deal_so_request env m c net) = Some (Some (so_response 0))
      then [(rd_le 4 4 m mod length (cn_req net), m)] else [])"

definition handed :: "('q, 'w) cache_env \<Rightarrow> nat \<Rightarrow> ('q, 'w) cache_net \<Rightarrow> (nat \<times> byte list) list" where
  "handed env i net = (case ce_pop env (ce_max env) (cn_resp net ! i) of
     ((n, bs), q) \<Rightarrow> if n > 0 \<and> carries bs then [(i, msg_of bs)] else [])"

definition of_worker :: "nat \<Rightarrow> (nat \<times> byte list) list \<Rightarrow> byte list list" where
  "of_worker i log = map snd (filter (\<lambda>(j, m). j = i) log)"

lemma of_worker_simps [simp]: "of_worker i [] = []" "of_worker i (a @ b) = of_worker i a @ of_worker i b"
  "of_worker i [(j, m)] = (if j = i then [m] else [])"
  by (simp_all add: of_worker_def)

lemma push_flow:
  assumes "ring_ok env R" "ce_push env b q = (n, q')" "block_ok M b" "\<forall>x \<in> set (R q). block_ok M x"
  shows "(\<forall>x \<in> set (R q'). block_ok M x) \<and>
    flow (R q') = flow (R q) @ (if n = int (length b) \<and> carries b then [msg_of b] else [])"
proof -
  have "R q' = (if n = int (length b) then R q @ [b] else R q)" using assms(1,2) unfolding ring_ok_def by blast
  with assms(3,4) show ?thesis by auto
qed

lemma task_request_pushes:
  assumes "deal_task_request env m c net = Some (r, st1)" "request_block (ce_max env) m c = Some blk"
  shows "(cn_req st1 = cn_req net \<and> cn_resp st1 = cn_resp net) \<or>
    (\<exists>j n q. ce_push env blk (cn_req net ! j) = (n, q) \<and> st1 = net\<lparr>cn_req := (cn_req net)[j := q]\<rparr>)"
proof -
  have conn: "deal_task_conn_request c net = (r, st1) \<Longrightarrow> cn_req st1 = cn_req net \<and> cn_resp st1 = cn_resp net"
    by (auto simp: deal_task_conn_request_def Let_def split: if_splits)
  have feed: "deal_task_feed_request env m c net = Some (r, st1) \<Longrightarrow> st1 = net \<or>
      (\<exists>j n q. ce_push env blk (cn_req net ! j) = (n, q) \<and> st1 = net\<lparr>cn_req := (cn_req net)[j := q]\<rparr>)"
    using assms(2) by (auto simp: deal_task_feed_request_def Let_def split: if_splits option.splits prod.splits)
  show ?thesis using assms(1) conn feed unfolding deal_task_request_def by (auto split: if_splits)
qed

lemma request_flow:
  assumes ring: "ring_ok env R" and M: "ce_max env < 65536" and m: "whole_msg (ce_max env) m"
    and ok: "\<forall>i < length (cn_req net). \<forall>b \<in> set (R (cn_req net ! i)). block_ok (ce_max env) b"
    and deal: "deal_request_msg env m c net = Some (good, net')"
  shows "length (cn_req net') = length (cn_req net) \<and> cn_resp net' = cn_resp net \<and>
    (\<forall>i < length (cn_req net). (\<forall>b \<in> set (R (cn_req net' ! i)). block_ok (ce_max env) b) \<and>
       flow (R (cn_req net' ! i)) = flow (R (cn_req net ! i)) @ of_worker i (accepted env m c net))"
proof -
  have size: "6 \<le> length m" "length m + 4 \<le> ce_max env" "msg_len m = length m"
    using whole_msg_size [OF m] m by (auto simp: whole_msg_def)
  define blk where "blk = block_of m (to_le 4 c)"
  have blk: "request_block (ce_max env) m c = Some blk" using request_block_whole_msg [OF m M] by (simp add: blk_def)
  have blk_ok: "block_ok (ce_max env) blk" "carries blk = carries m" "msg_of blk = m"
    using size M by (simp_all add: blk_def block_of_ok carries_def cmd_id_block_of msg_of_block_of)
  have same: "?thesis" if "cn_req net' = cn_req net" "cn_resp net' = cn_resp net" "accepted env m c net = []"
    using that ok by simp
  have push: "?thesis" if q: "ce_push env blk (cn_req net ! j) = (n, q)" "cn_req net' = (cn_req net)[j := q]" "cn_resp net' = cn_resp net"
      "accepted env m c net = (if n = int (length blk) \<and> carries m then [(j, m)] else [])" for j n q
  proof (intro conjI allI impI)
    fix i assume i: "i < length (cn_req net)"
    have at: "cn_req net' ! i = (if i = j then q else cn_req net ! i)" using i q(2) by (cases "j < length (cn_req net)") auto
    have i_ok: "\<forall>b \<in> set (R (cn_req net ! i)). block_ok (ce_max env) b" using ok i by blast
    have acc: "of_worker i (accepted env m c net) = (if i = j \<and> n = int (length blk) \<and> carries m then [m] else [])"
      by (simp add: q(4))
    have "(\<forall>b \<in> set (R (cn_req net' ! i)). block_ok (ce_max env) b) \<and>
       flow (R (cn_req net' ! i)) = flow (R (cn_req net ! i)) @ of_worker i (accepted env m c net)"
    proof (cases "i = j")
      case True
      then show ?thesis using push_flow [OF ring q(1) blk_ok(1)] i_ok at acc blk_ok(2,3) by simp
    qed (use at acc i_ok in simp)
    then show "\<forall>b \<in> set (R (cn_req net' ! i)). block_ok (ce_max env) b"
      "flow (R (cn_req net' ! i)) = flow (R (cn_req net ! i)) @ of_worker i (accepted env m c net)" by simp_all
  qed (simp_all add: q(2,3))
  show ?thesis
  proof (cases "cn_req net = []")
    case True
    then show ?thesis using deal same by (auto simp: deal_request_msg_def accepted_def split: if_splits)
  next
    case False
    let ?d = "if cmd_id m = SYSTEM_MSG then deal_task_request env m c net else deal_so_request env m c net"
    from deal False obtain r st1 where d: "?d = Some (r, st1)" unfolding deal_request_msg_def by (auto split: option.splits)
    have st1: "cn_req net' = cn_req st1" "cn_resp net' = cn_resp st1"
    proof -
      have "(case r of None \<Rightarrow> Some (False, st1) | Some m \<Rightarrow> Some (net_send env c m st1)) = Some (good, net')"
        using deal False d by (simp add: deal_request_msg_def)
      then show "cn_req net' = cn_req st1" "cn_resp net' = cn_resp st1" by (auto split: option.splits dest!: net_send_frame)
    qed
    show ?thesis
    proof (cases "carries m")
      case True
      let ?j = "rd_le 4 4 m mod length (cn_req net)"
      obtain n q where q: "ce_push env blk (cn_req net ! ?j) = (n, q)" by fastforce
      have "so_response 0 \<noteq> so_response 0xFFFF"
        using to_le_inj [of 2 0 "0xFFFF"] by (auto simp: so_response_def)
      then have "accepted env m c net = (if n = int (length blk) \<and> carries m then [(?j, m)] else [])"
        using True False by (simp add: accepted_def deal_so_request_def Let_def blk q)
      moreover have "st1 = net\<lparr>cn_req := (cn_req net)[?j := q]\<rparr>"
        using d True by (simp add: carries_def deal_so_request_def Let_def blk q)
      ultimately show ?thesis using push [OF q] st1 by simp
    next
      case sys: False
      then have acc: "accepted env m c net = []" by (simp add: accepted_def)
      have d': "deal_task_request env m c net = Some (r, st1)" using d sys by (simp add: carries_def)
      consider "cn_req st1 = cn_req net \<and> cn_resp st1 = cn_resp net"
        | j n q where "ce_push env blk (cn_req net ! j) = (n, q)" "st1 = net\<lparr>cn_req := (cn_req net)[j := q]\<rparr>"
        using task_request_pushes [OF d' blk] by blast
      then show ?thesis
      proof cases
        case 1
        then show ?thesis using same st1 acc by simp
      next
        case (2 j n q)
        then show ?thesis using push [OF 2(1)] st1 acc sys by simp
      qed
    qed
  qed
qed

lemma respond_one_pops:
  assumes "respond_one env i net = Some (r, net')" "ce_pop env (ce_max env) (cn_resp net ! i) = ((n, bs), q)"
  shows "cn_req net' = cn_req net \<and> cn_resp net' = (cn_resp net)[i := q]"
  using assms unfolding respond_one_def Let_def
  by (auto split: if_splits prod.splits dest!: net_send_frame)

text \<open>A block that is popped is sent, as the message it holds, to the connection behind it.\<close>

lemma respond_one_sends:
  assumes pop: "ce_pop env (ce_max env) (cn_resp net ! i) = ((int (length b), b), q)"
    and b: "block_ok (ce_max env) b" "ce_max env < 65536"
    and send: "net_send env (le_nat (drop (length b - 4) b)) (msg_of b) (net\<lparr>cn_resp := (cn_resp net)[i := q]\<rparr>) = (ok, net1)"
  shows "respond_one env i net = Some (None,
    if ok then net1 else net1\<lparr>cn_io := ce_close env (le_nat (drop (length b - 4) b)) (cn_io net1)\<rparr>)"
proof -
  define len where "len = (msg_len (poke 0 b (replicate (ce_max env) 0)) + 65532) mod 65536"
  let ?b = "set_len len (poke 0 b (replicate (ce_max env) 0))"
  note tb = taken_block [OF b len_def]
  have size: "10 \<le> length b" "length b \<le> ce_max env" using b(1) by (simp_all add: block_ok_def)
  have "len + 4 \<le> ce_max env" using conjunct1 [OF tb] size by simp
  moreover have "rd_le len 4 ?b = le_nat (drop (length b - 4) b)"
  proof -
    have "take 4 (drop len ?b) = drop (length b - 4) b" using tb by blast
    then show ?thesis by (simp only: rd_le_def)
  qed
  moreover have "take len ?b = msg_of b" using tb by blast
  moreover have "int (length b) \<noteq> 0" "int (length b) \<noteq> -1" using size by auto
  ultimately show ?thesis
    using pop size send unfolding respond_one_def by (simp add: Let_def len_def [symmetric] pop)
qed

section \<open>The service\<close>

text \<open>The network process and the workers, each with its cache, take turns in any order: messages come from any
  connection, connections come and go, a worker takes a turn, the network process takes a response. What happens in
  one such step is taken from the code; the feeds taken and handed on are written down.\<close>

inductive cache_step ::
  "('q, 'w) cache_env \<Rightarrow> 'c cache_queue \<Rightarrow> ('q, 'w) cache_net \<times> 'c list \<Rightarrow> (nat \<times> byte list) list \<Rightarrow> (nat \<times> byte list) list \<Rightarrow>
   ('q, 'w) cache_net \<times> 'c list \<Rightarrow> bool" for env cq where
  request: "whole_msg (ce_max env) m \<Longrightarrow> deal_request_msg env m c net = Some (ok, net') \<Longrightarrow>
     cache_step env cq (net, cs) (accepted env m c net) [] (net', cs)"
| work: "i < length cs \<Longrightarrow> work_request env cq (cn_req net ! i) (cn_resp net ! i) (cs ! i) = Some (True, req, resp, c) \<Longrightarrow>
     cache_step env cq (net, cs) [] [] (net\<lparr>cn_req := (cn_req net)[i := req], cn_resp := (cn_resp net)[i := resp]\<rparr>, cs[i := c])"
| respond: "i < length (cn_resp net) \<Longrightarrow> respond_one env i net = Some (r, net') \<Longrightarrow>
     cache_step env cq (net, cs) [] (handed env i net) (net', cs)"
| connected: "cache_step env cq (net, cs) [] [] (snd (on_new_connection env c net), cs)"
| closed: "cache_step env cq (net, cs) [] [] (snd (on_connection_closed c net), cs)"
| flushed: "cache_step env cq (net, cs) [] [] (snd (send_response_buffer env net), cs)"

inductive cache_run ::
  "('q, 'w) cache_env \<Rightarrow> 'c cache_queue \<Rightarrow> ('q, 'w) cache_net \<times> 'c list \<Rightarrow> (nat \<times> byte list) list \<Rightarrow> (nat \<times> byte list) list \<Rightarrow>
   ('q, 'w) cache_net \<times> 'c list \<Rightarrow> bool" for env cq where
  start: "cache_run env cq s [] [] s"
| step: "cache_run env cq s ins outs s1 \<Longrightarrow> cache_step env cq s1 i out s2 \<Longrightarrow> cache_run env cq s (ins @ i) (outs @ out) s2"

inductive_cases cache_stepE: "cache_step env cq s i out s'"

definition on_the_way :: "('q \<Rightarrow> byte list list) \<Rightarrow> ('c \<Rightarrow> byte list list) \<Rightarrow> nat \<Rightarrow> ('q, 'w) cache_net \<times> 'c list \<Rightarrow> byte list list" where
  "on_the_way R C i s = flow (R (cn_resp (fst s) ! i)) @ C (snd s ! i) @ flow (R (cn_req (fst s) ! i))"

definition pipes_ok ::
  "nat \<Rightarrow> ('q \<Rightarrow> byte list list) \<Rightarrow> ('c \<Rightarrow> byte list list) \<Rightarrow> ('q, 'w) cache_net \<times> 'c list \<Rightarrow> bool" where
  "pipes_ok M R C s \<longleftrightarrow> length (cn_resp (fst s)) = length (cn_req (fst s)) \<and> length (snd s) = length (cn_req (fst s)) \<and>
     (\<forall>i < length (cn_req (fst s)). pipe_ok M (R (cn_resp (fst s) ! i)) (C (snd s ! i)) (R (cn_req (fst s) ! i)))"

lemma flush_conns_rings: "flush_conns env ks st = (ok, st') \<Longrightarrow> cn_req st' = cn_req st \<and> cn_resp st' = cn_resp st"
  by (induction env ks st rule: flush_conns.induct) (auto split: if_splits prod.splits)

lemma cache_step_flow:
  assumes ring: "ring_ok env R" and cq: "cache_ok cq C" and M: "17 \<le> ce_max env" "ce_max env < 65536"
    and step: "cache_step env cq s ins outs s'" and ok: "pipes_ok (ce_max env) R C s"
  shows "pipes_ok (ce_max env) R C s' \<and> length (cn_req (fst s')) = length (cn_req (fst s)) \<and>
    (\<forall>i < length (cn_req (fst s)). on_the_way R C i s @ of_worker i ins = of_worker i outs @ on_the_way R C i s')"
  using step ok
proof (cases rule: cache_step.cases)
  case (request m c net good net' cs)
  have "\<forall>i < length (cn_req net). \<forall>b \<in> set (R (cn_req net ! i)). block_ok (ce_max env) b"
    using ok request by (auto simp: pipes_ok_def pipe_ok_def)
  from request_flow [OF ring M(2) request(5) this request(6)] ok show ?thesis
    by (auto simp: request(1-4) pipes_ok_def pipe_ok_def on_the_way_def)
next
  case (work i cs net req resp c)
  then have n: "i < length (cn_req net)" "length (cn_resp net) = length (cn_req net)" "length cs = length (cn_req net)"
    and p: "pipe_ok (ce_max env) (R (cn_resp net ! i)) (C (cs ! i)) (R (cn_req net ! i))"
    using ok by (auto simp: pipes_ok_def)
  from work_request_flow [OF ring cq M p work(6)]
  have w: "pipe_ok (ce_max env) (R resp) (C c) (R req)"
    "flow (R resp) @ C c @ flow (R req) = flow (R (cn_resp net ! i)) @ C (cs ! i) @ flow (R (cn_req net ! i))" by simp_all
  then show ?thesis using ok n by (simp add: work(1-4) pipes_ok_def on_the_way_def nth_list_update)
next
  case (respond i net r net' cs)
  obtain n bs q where pop: "ce_pop env (ce_max env) (cn_resp net ! i) = ((n, bs), q)" by (metis prod.exhaust)
  from ring pop have law: "case R (cn_resp net ! i) of [] \<Rightarrow> n \<in> {0, -1} \<and> R q = []
      | b # r \<Rightarrow> (n = int (length b) \<and> bs = b \<and> R q = r) \<or> (n = -1 \<and> R q = R (cn_resp net ! i))"
    unfolding ring_ok_def by blast
  have nn: "cn_req net' = cn_req net" "cn_resp net' = (cn_resp net)[i := q]" using respond_one_pops [OF respond(6) pop] by auto
  have len: "length (cn_resp net) = length (cn_req net)" and p: "\<forall>b \<in> set (R (cn_resp net ! i)). block_ok (ce_max env) b"
    using ok respond by (auto simp: pipes_ok_def pipe_ok_def)
  have "flow (R (cn_resp net ! i)) = of_worker i (handed env i net) @ flow (R q) \<and> (\<forall>b \<in> set (R q). block_ok (ce_max env) b)"
    using law pop p by (cases "R (cn_resp net ! i)") (auto simp: handed_def block_ok_def)
  moreover have "of_worker j (handed env i net) = []" if "j \<noteq> i" for j
    using that by (auto simp: handed_def pop)
  ultimately show ?thesis using ok len respond(5)
    by (auto simp: respond(1-4) nn pipes_ok_def pipe_ok_def on_the_way_def nth_list_update)
next
  case (connected net cs c)
  then show ?thesis using ok by (auto simp: on_new_connection_def pipes_ok_def on_the_way_def)
next
  case (closed net cs c)
  then show ?thesis using ok by (auto simp: on_connection_closed_def pipes_ok_def on_the_way_def)
next
  case (flushed net cs)
  then show ?thesis using ok flush_conns_rings [of env "cn_conns net" net "fst (send_response_buffer env net)" "snd (send_response_buffer env net)"]
    by (auto simp: send_response_buffer_def pipes_ok_def on_the_way_def)
qed

lemma cache_run_flow:
  assumes ring: "ring_ok env R" and cq: "cache_ok cq C" and M: "17 \<le> ce_max env" "ce_max env < 65536"
    and run: "cache_run env cq s ins outs s'" and ok: "pipes_ok (ce_max env) R C s"
  shows "pipes_ok (ce_max env) R C s' \<and> length (cn_req (fst s')) = length (cn_req (fst s)) \<and>
    (\<forall>i < length (cn_req (fst s)). on_the_way R C i s @ of_worker i ins = of_worker i outs @ on_the_way R C i s')"
  using run ok
proof induction
  case (step s ins outs s1 i out s2)
  then have a: "pipes_ok (ce_max env) R C s1" "length (cn_req (fst s1)) = length (cn_req (fst s))"
    "\<forall>j < length (cn_req (fst s)). on_the_way R C j s @ of_worker j ins = of_worker j outs @ on_the_way R C j s1" by simp_all
  from cache_step_flow [OF ring cq M step.hyps(2) a(1)] have b: "pipes_ok (ce_max env) R C s2"
    "length (cn_req (fst s2)) = length (cn_req (fst s))"
    "\<forall>j < length (cn_req (fst s)). on_the_way R C j s1 @ of_worker j i = of_worker j out @ on_the_way R C j s2"
    using a(2) by simp_all
  have "on_the_way R C j s @ of_worker j (ins @ i) = of_worker j (outs @ out) @ on_the_way R C j s2"
    if j: "j < length (cn_req (fst s))" for j
  proof -
    have "on_the_way R C j s @ of_worker j (ins @ i) = (on_the_way R C j s @ of_worker j ins) @ of_worker j i" by simp
    also have "\<dots> = of_worker j outs @ on_the_way R C j s1 @ of_worker j i" using a(3) j by simp
    also have "\<dots> = of_worker j (outs @ out) @ on_the_way R C j s2" using b(3) j by simp
    finally show ?thesis .
  qed
  with b show ?case by blast
qed simp


text \<open>The sample with caches that are lists: a feed of user 5 is taken for worker 1.\<close>

definition list_cache :: "byte list list cache_queue" where
  "list_cache = \<lparr>cq_push = (\<lambda>m c. (1, c @ [m])), cq_pop = (\<lambda>n c. case c of [] \<Rightarrow> ((0, []), []) | m # r \<Rightarrow> ((int (length m), m), r))\<rparr>"

lemma log_ring_ok: "ring_ok (log_env M) (\<lambda>q. q)"
  by (auto simp: ring_ok_def log_env_def split: list.splits)

lemma list_cache_ok: "cache_ok list_cache (\<lambda>c. c)"
  by (auto simp: cache_ok_def list_cache_def split: list.splits)

lemma sample_so: "deal_so_request (log_env 32) some_msg 7 two_workers =
    Some (Some (so_response 0), two_workers\<lparr>cn_req := [[], [block_of some_msg (to_le 4 7)]]\<rparr>)"
proof -
  have "request_block 32 some_msg 7 = Some (block_of some_msg (to_le 4 7))" using sample_msgs by (simp add: request_block_whole_msg)
  then show ?thesis by (simp add: deal_so_request_def sample_fields sample_start Let_def numeral_2_eq_2 [symmetric]) (simp add: log_env_def)
qed


section \<open>A feed that is lost\<close>

text \<open>The cache gives a feed away before there is room for it: where the response queue does not take the block,
  the turn of the worker fails, and the feed is neither in the cache any more nor in the response queue.\<close>

lemma full_response_queue_loses_feed:
  assumes pop: "ce_pop env (ce_max env) req = ((int (length b), b), req1)" "block_ok (ce_max env) b" "\<not> carries b" "ce_max env < 65536"
    and cache: "cache_ok cq C" "C c = m # ms" "\<forall>m \<in> set (C c). feed_ok (ce_max env) m" "17 \<le> ce_max env"
    and full: "\<forall>x. fst (ce_push env x resp) = 0" and work: "work_request env cq req resp c = Some (ok, req', resp', c')"
    and popped: "fst (fst (cq_pop cq (ce_max env) c)) > 0"
  shows "\<not> ok \<and> C c' = ms \<and> resp' = snd (ce_push env (block_of m (drop (length b - 4) b)) resp)"
proof -
  let ?M = "ce_max env"
  define len where "len = (msg_len (poke 0 b (replicate ?M 0)) + 65532) mod 65536"
  let ?b = "set_len len (poke 0 b (replicate ?M 0))"
  define conn where "conn = drop (length b - 4) b"
  note tb = taken_block [OF pop(2,4) len_def]
  have n: "int (length b) > 0" "length b \<le> ?M" "10 \<le> length b" using pop(2) by (auto simp: block_ok_def)
  have len: "len + 4 \<le> ?M" using conjunct1 [OF tb] n by simp
  have "cmd_id ?b = cmd_id b" using tb by blast
  also have "cmd_id b = SYSTEM_MSG" using pop(3) by (simp add: carries_def)
  finally have cmd: "cmd_id ?b = SYSTEM_MSG" .
  have conn_b: "take 4 (drop len ?b) = conn" unfolding conn_def using tb by blast
  have "length conn = 4" using n by (simp add: conn_def)
  obtain a c1 where task: "work_task_request ?M cq conn c = Some (a, c1)"
    using work pop(1) n cmd len conn_b
    by (auto simp: work_request_def Let_def len_def [symmetric] split: if_splits option.splits)
  have "a \<noteq> None" using task popped by (auto simp: work_task_request_def Let_def split: prod.splits if_splits)
  then obtain x where x: "a = Some x" by blast
  with work_task_request_feed [OF cache(1,4) pop(4) cache(3) \<open>length conn = 4\<close>, of x c1] task cache(2)
  have form: "C c1 = ms" "x = block_of m conn" by auto
  then have "x \<noteq> []" using \<open>length conn = 4\<close> by (auto simp: block_of_def)
  obtain k rs where push: "ce_push env x resp = (k, rs)" by fastforce
  with full have "k = 0" by (metis fst_conv)
  then have "ok = False \<and> resp' = rs \<and> c' = c1"
    using work pop(1) n cmd len conn_b task x push \<open>x \<noteq> []\<close>
    by (auto simp: work_request_def Let_def len_def [symmetric] split: if_splits)
  with form push show ?thesis by (simp add: conn_def)
qed

end
