(* ===== verification/AsyncShmq.thy ===== *)
theory AsyncShmq
  imports Channel
begin

text \<open>
  The queues in shared memory of the asynchronous server framework (\<^verbatim>\<open>async_server/src/shmq.cpp\<close>,
  \<^verbatim>\<open>shmq.h\<close>): a ring of bytes between two processes, in which a header and the data behind it may wrap around the
  end of the memory, and a list of blocks that wait, in the memory of the process that pushes, for room in the
  ring. \<open>None\<close> is a copy that leaves the memory it is made in or from. Whether \<^verbatim>\<open>malloc\<close> and \<^verbatim>\<open>realloc\<close> find
  memory is an argument.
\<close>

section \<open>Blocks and rings\<close>

text \<open>\<^verbatim>\<open>shm_block_t\<close>: the fields as they lie in memory, with three bytes of padding, which nothing reads.\<close>

record shm_block_t =
  sb_fd :: nat
  sb_id :: nat
  sb_len :: nat
  sb_type :: nat

definition CLOSE_BLOCK :: nat where "CLOSE_BLOCK = 1"
definition LOGIN_BLOCK :: nat where "LOGIN_BLOCK = 2"
definition PROTO_BLOCK :: nat where "PROTO_BLOCK = 3"

definition block_sz :: nat where "block_sz = 16"

definition block_bytes :: "shm_block_t \<Rightarrow> byte list" where
  "block_bytes sb = to_le 4 (sb_fd sb) @ to_le 4 (sb_id sb) @ to_le 4 (sb_len sb) @ to_le 4 (sb_type sb)"

definition rd_block :: "byte list \<Rightarrow> shm_block_t" where
  "rd_block b = \<lparr>sb_fd = rd_le 0 4 b, sb_id = rd_le 4 4 b, sb_len = rd_le 8 4 b, sb_type = rd_le 12 1 b\<rparr>"

text \<open>\<open>sq_base\<close> is the memory behind the head, of \<open>sq_size\<close> bytes; \<open>sq_waiting\<close> is \<^verbatim>\<open>push_list\<close>, \<open>sq_pull_len\<close> the size
  of the buffer a block is read into, \<open>sq_pipe\<close> counts the bytes in
  the pipe that wakes the reader, and \<open>sq_idle\<close> is \<^verbatim>\<open>head->idle\<close>.\<close>

record shm_queue_t =
  sq_base :: "byte list"
  sq_size :: nat
  sq_w :: nat
  sq_r :: nat
  sq_pull_len :: nat
  sq_waiting :: "(shm_block_t \<times> byte list) list"
  sq_pipe :: nat
  sq_idle :: bool

definition w32 :: "nat \<Rightarrow> nat" where "w32 n = n mod 4294967296"

definition put :: "nat \<Rightarrow> byte list \<Rightarrow> byte list \<Rightarrow> byte list option" where
  "put pos bs mem = (if pos + length bs \<le> length mem then Some (take pos mem @ bs @ drop (pos + length bs) mem) else None)"

definition get :: "nat \<Rightarrow> nat \<Rightarrow> byte list \<Rightarrow> byte list option" where
  "get pos n mem = (if pos + n \<le> length mem then Some (take n (drop pos mem)) else None)"

text \<open>Writing and reading at a position of the ring, around its end where need be, with the position behind.\<close>

definition put_ring :: "nat \<Rightarrow> nat \<Rightarrow> byte list \<Rightarrow> byte list \<Rightarrow> (byte list \<times> nat) option" where
  "put_ring sz pos bs mem =
     (if w32 (pos + length bs) \<le> sz then map_option (\<lambda>mem1. (mem1, w32 (pos + length bs))) (put pos bs mem)
      else let n = sz - pos
           in Option.bind (put pos (take n bs) mem) (\<lambda>mem1.
              map_option (\<lambda>mem2. (mem2, length bs - n)) (put 0 (drop n bs) mem1)))"

definition get_ring :: "nat \<Rightarrow> nat \<Rightarrow> nat \<Rightarrow> byte list \<Rightarrow> (byte list \<times> nat) option" where
  "get_ring sz pos len mem =
     (if w32 (pos + len) \<le> sz then map_option (\<lambda>bs. (bs, w32 (pos + len))) (get pos len mem)
      else let n = sz - pos
           in Option.bind (get pos n mem) (\<lambda>a. map_option (\<lambda>b. (a @ b, len - n)) (get 0 (len - n) mem)))"

definition skip_ring :: "nat \<Rightarrow> nat \<Rightarrow> nat \<Rightarrow> nat" where
  "skip_ring sz pos len = (if w32 (pos + len) \<le> sz then w32 (pos + len) else len - (sz - pos))"

text \<open>The results of the code: 0, 1 (no room, or no block) and -1.\<close>

definition shmq_push :: "shm_block_t \<Rightarrow> byte list \<Rightarrow> shm_queue_t \<Rightarrow> (int \<times> shm_queue_t) option" where
  "shmq_push sb buf q =
     (let total_len = w32 (sb_len sb + block_sz); w = sq_w q; r = sq_r q;
          s = (if w \<ge> r then sq_size q - w + r else r - w)
      in if s < w32 (total_len + 1) then Some (1, q)
         else Option.bind (put_ring (sq_size q) w (block_bytes sb) (sq_base q)) (\<lambda>(m1, pos).
              if length buf < sb_len sb then None
              else Option.bind (put_ring (sq_size q) pos (take (sb_len sb) buf) m1) (\<lambda>(m2, pos2).
                Some (0, q\<lparr>sq_base := m2, sq_w := pos2\<rparr>))))"

definition shmq_pull :: "bool \<Rightarrow> shm_queue_t \<Rightarrow> (int \<times> (shm_block_t \<times> byte list) option \<times> shm_queue_t) option" where
  "shmq_pull mem q =
     (let w = sq_w q; r = sq_r q; s = (if w \<ge> r then w - r else sq_size q - r + w)
      in if s = 0 then Some (1, None, q)
         else Option.bind (get_ring (sq_size q) r block_sz (sq_base q)) (\<lambda>(hd, pos).
           let sb = rd_block hd
           in if sb_len sb = 0 then Some (0, Some (sb, []), q\<lparr>sq_r := pos\<rparr>)
              else if sb_len sb > sq_pull_len q \<and> \<not> mem then
                Some (-1, None, q\<lparr>sq_r := skip_ring (sq_size q) pos (sb_len sb)\<rparr>)
              else Option.bind (get_ring (sq_size q) pos (sb_len sb) (sq_base q)) (\<lambda>(buf, pos2).
                Some (0, Some (sb, buf), q\<lparr>sq_pull_len := max (sq_pull_len q) (sb_len sb), sq_r := pos2\<rparr>))))"

text \<open>A ring that was just made, of \<open>sz\<close> bytes with the head.\<close>

definition shmq_start :: "nat \<Rightarrow> shm_queue_t" where
  "shmq_start sz = \<lparr>sq_base = replicate (sz - 16) 0, sq_size = sz - 16, sq_w = 0, sq_r = 0, sq_pull_len = 8192,
     sq_waiting = [], sq_pipe = 0, sq_idle = False\<rparr>"

section \<open>Blocks that wait\<close>

text \<open>The pipe, which does not block: it takes 65536 bytes, and a byte written to a full pipe is gone. The reader
  takes up to 1024 at once.\<close>

definition PIPE_BUF_SIZE :: nat where "PIPE_BUF_SIZE = 65536"

definition write_pipe :: "shm_queue_t \<Rightarrow> shm_queue_t" where "write_pipe q = q\<lparr>sq_pipe := min PIPE_BUF_SIZE (sq_pipe q + 1)\<rparr>"

definition pruge_pipe :: "shm_queue_t \<Rightarrow> shm_queue_t" where "pruge_pipe q = q\<lparr>sq_pipe := sq_pipe q - 1024\<rparr>"

text \<open>\<open>pruge_list\<close> takes the blocks that wait as they were; the queue keeps those still waiting.\<close>

fun pruge_list :: "(shm_block_t \<times> byte list) list \<Rightarrow> shm_queue_t \<Rightarrow> (int \<times> shm_queue_t) option" where
  "pruge_list [] q = Some (0, q\<lparr>sq_waiting := []\<rparr>)"
| "pruge_list ((sb, buf) # bs) q =
     Option.bind (shmq_push sb buf q) (\<lambda>(r, q1).
       if r = 0 then pruge_list bs (write_pipe q1) else Some (-1, q1\<lparr>sq_waiting := (sb, buf) # bs\<rparr>))"

definition pruge :: "shm_queue_t \<Rightarrow> (int \<times> shm_queue_t) option" where
  "pruge q = pruge_list (sq_waiting q) q"

definition queue_push :: "bool \<Rightarrow> shm_block_t \<Rightarrow> byte list \<Rightarrow> bool \<Rightarrow> shm_queue_t \<Rightarrow> (int \<times> shm_queue_t) option" where
  "queue_push mem sb buf safe q =
     Option.bind (pruge q) (\<lambda>(ret, q1).
       if sb_len sb \<ge> sq_size q1 then Some (-1, q1)
       else Option.bind (if ret = 0 then shmq_push sb buf q1 else Some (1, q1)) (\<lambda>(r, q2).
         if r = 0 then Some (0, write_pipe q2)
         else if \<not> safe then Some (ret, q2)
         else if \<not> mem then Some (-1, q2)
         else if length buf < sb_len sb then None
         else Some (0, q2\<lparr>sq_waiting := sq_waiting q2 @ [(sb, take (sb_len sb) buf)]\<rparr>)))"

section \<open>The queues of all workers\<close>

text \<open>\<^verbatim>\<open>g_shm_queue_mgr\<close>: the queues into and out of each worker; \<open>None\<close> also where there is no such channel.\<close>

record shm_queue_mgr_t =
  recv_queue :: "shm_queue_t list"
  send_queue :: "shm_queue_t list"

definition shmq_init :: "nat \<Rightarrow> nat \<Rightarrow> shm_queue_mgr_t option" where
  "shmq_init ch sz =
     (if sz < 16 then None
      else Some \<lparr>recv_queue = replicate ch (shmq_start sz), send_queue = replicate ch (shmq_start sz)\<rparr>)"

definition recv_push :: "bool \<Rightarrow> nat \<Rightarrow> shm_block_t \<Rightarrow> byte list \<Rightarrow> bool \<Rightarrow> shm_queue_mgr_t \<Rightarrow> (int \<times> shm_queue_mgr_t) option" where
  "recv_push mem ch sb buf safe g =
     (if ch \<ge> length (recv_queue g) then None
      else map_option (\<lambda>(r, q). (r, g\<lparr>recv_queue := (recv_queue g)[ch := q]\<rparr>)) (queue_push mem sb buf safe (recv_queue g ! ch)))"

definition send_push :: "bool \<Rightarrow> nat \<Rightarrow> shm_block_t \<Rightarrow> byte list \<Rightarrow> bool \<Rightarrow> shm_queue_mgr_t \<Rightarrow> (int \<times> shm_queue_mgr_t) option" where
  "send_push mem ch sb buf safe g =
     (if ch \<ge> length (send_queue g) then None
      else map_option (\<lambda>(r, q). (r, g\<lparr>send_queue := (send_queue g)[ch := q]\<rparr>)) (queue_push mem sb buf safe (send_queue g ! ch)))"

definition recv_pull ::
  "bool \<Rightarrow> nat \<Rightarrow> shm_queue_mgr_t \<Rightarrow> (int \<times> (shm_block_t \<times> byte list) option \<times> shm_queue_mgr_t) option" where
  "recv_pull mem ch g =
     (if ch \<ge> length (recv_queue g) then None
      else map_option (\<lambda>(r, b, q). (r, b, g\<lparr>recv_queue := (recv_queue g)[ch := q]\<rparr>)) (shmq_pull mem (recv_queue g ! ch)))"

definition send_pull ::
  "bool \<Rightarrow> nat \<Rightarrow> shm_queue_mgr_t \<Rightarrow> (int \<times> (shm_block_t \<times> byte list) option \<times> shm_queue_mgr_t) option" where
  "send_pull mem ch g =
     (if ch \<ge> length (send_queue g) then None
      else map_option (\<lambda>(r, b, q). (r, b, g\<lparr>send_queue := (send_queue g)[ch := q]\<rparr>)) (shmq_pull mem (send_queue g ! ch)))"

definition pruge_recv :: "nat \<Rightarrow> shm_queue_mgr_t \<Rightarrow> (int \<times> shm_queue_mgr_t) option" where
  "pruge_recv ch g =
     (if ch \<ge> length (recv_queue g) then None
      else map_option (\<lambda>(r, q). (r, g\<lparr>recv_queue := (recv_queue g)[ch := q]\<rparr>)) (pruge (recv_queue g ! ch)))"

definition pruge_send :: "nat \<Rightarrow> shm_queue_mgr_t \<Rightarrow> (int \<times> shm_queue_mgr_t) option" where
  "pruge_send ch g =
     (if ch \<ge> length (send_queue g) then None
      else map_option (\<lambda>(r, q). (r, g\<lparr>send_queue := (send_queue g)[ch := q]\<rparr>)) (pruge (send_queue g ! ch)))"

section \<open>What lies in a ring\<close>

text \<open>The bytes from the reading position to the writing position.\<close>

definition between :: "nat \<Rightarrow> nat \<Rightarrow> byte list \<Rightarrow> byte list" where
  "between r w mem = (if r \<le> w then take (w - r) (drop r mem) else drop r mem @ take w mem)"

lemma w32_id: "n < 4294967296 \<Longrightarrow> w32 n = n"
  by (simp add: w32_def)

lemma length_put: "put pos bs mem = Some m \<Longrightarrow> length m = length mem"
  by (auto simp: put_def split: if_splits)

lemma put_ring_between:
  assumes "length mem = sz" "w \<le> sz" "r \<le> sz" "length (between r w mem) + length bs < sz" "sz \<le> 2147483600"
  shows "\<exists>mem' w'. put_ring sz w bs mem = Some (mem', w') \<and> length mem' = sz \<and> w' \<le> sz \<and>
    between r w' mem' = between r w mem @ bs"
proof (cases "r \<le> w")
  case True
  define A V F where "A = take r mem" and "V = take (w - r) (drop r mem)" and "F = drop w mem"
  have mem: "mem = A @ V @ F" using True assms(2)
    by (simp add: A_def V_def F_def) (metis append_take_drop_id drop_drop le_add_diff_inverse2)
  have len: "length A = r" "length V = w - r" "length F = sz - w" using True assms(1-3) by (simp_all add: A_def V_def F_def)
  have view: "between r w mem = V" using True by (simp add: between_def V_def)
  show ?thesis
  proof (cases "w + length bs \<le> sz")
    case fits: True
    define m' where "m' = A @ V @ bs @ drop (length bs) F"
    have "put_ring sz w bs mem = Some (m', w + length bs)"
      using fits len True assms(1,5) by (simp add: put_ring_def put_def w32_id mem m'_def)
    moreover have "between r (w + length bs) m' = V @ bs" using True len by (simp add: between_def m'_def)
    moreover have "length m' = sz" using len fits True assms(2) by (simp add: m'_def)
    ultimately show ?thesis using fits view by auto
  next
    case wraps: False
    let ?n = "sz - w"
    have k: "length bs - ?n < r" "?n < length bs" using wraps assms(2,4) view len True by auto
    define m' where "m' = drop ?n bs @ drop (length bs - ?n) A @ V @ take ?n bs"
    have "\<not> w32 (w + length bs) \<le> sz" using wraps assms(2,4,5) by (simp add: w32_id)
    moreover have "put w (take ?n bs) mem = Some (A @ V @ take ?n bs)"
      using len True k assms(1,2) by (simp add: put_def mem)
    moreover have "put 0 (drop ?n bs) (A @ V @ take ?n bs) = Some m'"
      using len k by (simp add: put_def m'_def)
    ultimately have "put_ring sz w bs mem = Some (m', length bs - ?n)" by (simp add: put_ring_def Let_def)
    moreover have "length m' = sz" using len k True assms(2) by (simp add: m'_def)
    moreover have "between r (length bs - ?n) m' = V @ bs"
      using len k by (simp add: between_def m'_def)
    ultimately show ?thesis using k assms(3) view by auto
  qed
next
  case False
  define A F V where "A = take w mem" and "F = take (r - w) (drop w mem)" and "V = drop r mem"
  have mem: "mem = A @ F @ V" using False
    by (simp add: A_def V_def F_def) (metis append_take_drop_id drop_drop le_add_diff_inverse2 nat_le_linear)
  have len: "length A = w" "length F = r - w" "length V = sz - r" using False assms(1-3) by (simp_all add: A_def V_def F_def)
  have view: "between r w mem = V @ A" using False by (simp add: between_def V_def A_def)
  have k: "w + length bs < r" using assms(4,3) view len by simp
  define m' where "m' = A @ bs @ drop (length bs) F @ V"
  have "put_ring sz w bs mem = Some (m', w + length bs)"
    using k len assms(1,3,5) by (simp add: put_ring_def put_def w32_id mem m'_def)
  moreover have "length m' = sz" using len k assms(3) by (simp add: m'_def)
  moreover have "between r (w + length bs) m' = V @ A @ bs" using k len by (simp add: between_def m'_def)
  ultimately show ?thesis using k assms(3) view by auto
qed

lemma get_ring_between:
  assumes "length mem = sz" "w \<le> sz" "r \<le> sz" "n \<le> length (between r w mem)" "length (between r w mem) < sz" "sz \<le> 2147483600"
  shows "\<exists>r'. get_ring sz r n mem = Some (take n (between r w mem), r') \<and> skip_ring sz r n = r' \<and> r' \<le> sz \<and>
    between r' w mem = drop n (between r w mem)"
proof (cases "r \<le> w")
  case True
  then have n: "r + n \<le> w" using assms(1,2,4) by (simp add: between_def)
  then have "get_ring sz r n mem = Some (take n (drop r mem), r + n)"
    using assms(1,2,6) by (simp add: get_ring_def get_def w32_id)
  moreover have "skip_ring sz r n = r + n" using n assms(2,6) by (simp add: skip_ring_def w32_id)
  moreover have "between (r + n) w mem = drop n (between r w mem)"
    using n True by (simp add: between_def drop_take add.commute)
  ultimately show ?thesis using n True assms(2) by (simp add: between_def min_def)
next
  case False
  then have n: "n \<le> sz - r + w" "w < r" using assms(1-4) by (simp_all add: between_def)
  show ?thesis
  proof (cases "r + n \<le> sz")
    case fits: True
    then have "get_ring sz r n mem = Some (take n (drop r mem), r + n)" "skip_ring sz r n = r + n"
      using assms(1,6) by (simp_all add: get_ring_def get_def w32_id skip_ring_def)
    moreover have "between (r + n) w mem = drop n (between r w mem)" using n fits assms(1) by (simp add: between_def add.commute)
    ultimately show ?thesis using n fits assms(1) by (simp add: between_def)
  next
    case wraps: False
    let ?k = "sz - r"
    have "\<not> w32 (r + n) \<le> sz" using wraps n assms(2,3,6) by (simp add: w32_id)
    moreover have "get r ?k mem = Some (drop r mem)" "get 0 (n - ?k) mem = Some (take (n - ?k) mem)"
      using assms(1-3) n by (simp_all add: get_def)
    ultimately have "get_ring sz r n mem = Some (drop r mem @ take (n - ?k) mem, n - ?k)" "skip_ring sz r n = n - ?k"
      by (simp_all add: get_ring_def Let_def skip_ring_def)
    moreover have "between (n - ?k) w mem = drop n (between r w mem)" 
    proof -
      have le: "n - ?k \<le> w" "\<not> r \<le> w" using n assms(3) by simp_all
      show ?thesis unfolding between_def if_P [OF le(1)] if_not_P [OF le(2)]
        using n wraps assms(1,3) by (simp add: drop_take)
    qed
    moreover have "take n (between r w mem) = drop r mem @ take (n - ?k) mem"
    proof -
      have "take (n - ?k) (take w mem) = take (n - ?k) mem" using n assms(3) by (auto simp: min_def)
      then show ?thesis using n wraps assms(1,3) by (simp add: between_def)
    qed
    ultimately show ?thesis using n wraps assms(2,3) by simp
  qed
qed

text \<open>A block as it lies in the ring, and a ring that holds the blocks \<open>bs\<close>, the oldest first.\<close>

definition raw_block :: "shm_block_t \<times> byte list \<Rightarrow> byte list" where
  "raw_block b = block_bytes (fst b) @ snd b"

definition block_ok :: "shm_block_t \<times> byte list \<Rightarrow> bool" where
  "block_ok b \<longleftrightarrow> length (snd b) = sb_len (fst b) \<and> sb_fd (fst b) < 4294967296 \<and> sb_id (fst b) < 4294967296 \<and>
     sb_len (fst b) < 4294967296 \<and> sb_type (fst b) < 256"

definition ring_holds :: "shm_queue_t \<Rightarrow> (shm_block_t \<times> byte list) list \<Rightarrow> bool" where
  "ring_holds q bs \<longleftrightarrow> length (sq_base q) = sq_size q \<and> sq_w q \<le> sq_size q \<and> sq_r q \<le> sq_size q \<and> sq_size q \<le> 2147483600 \<and>
     between (sq_r q) (sq_w q) (sq_base q) = concat (map raw_block bs) \<and> length (concat (map raw_block bs)) < sq_size q \<and>
     (\<forall>b \<in> set bs. block_ok b)"

lemma length_block_bytes [simp]: "length (block_bytes sb) = 16"
  by (simp add: block_bytes_def)

lemma length_raw_block: "block_ok b \<Longrightarrow> length (raw_block b) = sb_len (fst b) + 16"
  by (simp add: raw_block_def block_ok_def)

lemma rd_block_bytes:
  assumes "block_ok (sb, buf)"
  shows "rd_block (block_bytes sb) = sb"
proof -
  have "rd_le 12 1 (block_bytes sb) = sb_type sb"
    using assms by (simp add: block_bytes_def block_ok_def layout) (simp add: rd_le_def le_nat_take le_nat_to_le)
  then show ?thesis using assms by (simp add: rd_block_def block_bytes_def block_ok_def layout)
qed

text \<open>How many bytes are free, as the code computes it.\<close>

lemma ring_free:
  assumes "ring_holds q bs"
  shows "(if sq_w q \<ge> sq_r q then sq_size q - sq_w q + sq_r q else sq_r q - sq_w q) =
    sq_size q - length (concat (map raw_block bs))"
    and "(if sq_w q \<ge> sq_r q then sq_w q - sq_r q else sq_size q - sq_r q + sq_w q) = length (concat (map raw_block bs))"
  using assms unfolding ring_holds_def between_def
  by (auto dest!: arg_cong [of _ _ length] split: if_splits simp: min_def)

lemma shmq_push_full:
  assumes "ring_holds q bs" "block_ok (sb, buf)" "sb_len sb < sq_size q"
    "length (concat (map raw_block bs)) + sb_len sb + 16 \<ge> sq_size q"
  shows "shmq_push sb buf q = Some (1, q)"
proof -
  have "sq_size q \<le> 2147483600" "length (concat (map raw_block bs)) < sq_size q" using assms(1) by (simp_all add: ring_holds_def)
  then show ?thesis using assms(3,4) unfolding shmq_push_def Let_def ring_free(1) [OF assms(1)]
    by (auto simp: w32_id block_sz_def)
qed

lemma shmq_push_fits:
  assumes "ring_holds q bs" "block_ok (sb, buf)" "length (concat (map raw_block bs)) + sb_len sb + 16 < sq_size q"
  shows "\<exists>m w. shmq_push sb buf q = Some (0, q\<lparr>sq_base := m, sq_w := w\<rparr>) \<and> ring_holds (q\<lparr>sq_base := m, sq_w := w\<rparr>) (bs @ [(sb, buf)])"
proof -
  let ?u = "length (concat (map raw_block bs))"
  have q: "length (sq_base q) = sq_size q" "sq_w q \<le> sq_size q" "sq_r q \<le> sq_size q" "sq_size q \<le> 2147483600"
    "between (sq_r q) (sq_w q) (sq_base q) = concat (map raw_block bs)" "?u < sq_size q" "\<forall>b \<in> set bs. block_ok b"
    using assms(1) by (simp_all add: ring_holds_def)
  have buf: "length buf = sb_len sb" using assms(2) by (simp add: block_ok_def)
  obtain m1 w1 where h: "put_ring (sq_size q) (sq_w q) (block_bytes sb) (sq_base q) = Some (m1, w1)" "length m1 = sq_size q"
    "w1 \<le> sq_size q" "between (sq_r q) w1 m1 = concat (map raw_block bs) @ block_bytes sb"
    using put_ring_between [OF q(1,2,3) _ q(4), of "block_bytes sb"] q(5) assms(3) by auto
  obtain m2 w2 where d: "put_ring (sq_size q) w1 buf m1 = Some (m2, w2)" "length m2 = sq_size q" "w2 \<le> sq_size q"
    "between (sq_r q) w2 m2 = concat (map raw_block bs) @ block_bytes sb @ buf"
    using put_ring_between [OF h(2,3) q(3) _ q(4), of buf] h(4) buf assms(3) by auto
  have "shmq_push sb buf q = Some (0, q\<lparr>sq_base := m2, sq_w := w2\<rparr>)"
    using assms(3) q(4) h(1) d(1) buf unfolding shmq_push_def Let_def ring_free(1) [OF assms(1)]
    by (simp add: w32_id block_sz_def)
  moreover have "ring_holds (q\<lparr>sq_base := m2, sq_w := w2\<rparr>) (bs @ [(sb, buf)])"
    using q d buf assms(2,3) by (simp add: ring_holds_def raw_block_def)
  ultimately show ?thesis by blast
qed

lemma shmq_pull_Nil: "ring_holds q [] \<Longrightarrow> shmq_pull mem q = Some (1, None, q)"
  using ring_free(2) [of q "[]"] by (simp add: shmq_pull_def Let_def)

text \<open>The oldest block comes out; without memory for its data it is skipped.\<close>

lemma shmq_pull_Cons:
  assumes "ring_holds q ((sb, buf) # bs)"
  shows "\<exists>r n. ring_holds (q\<lparr>sq_r := r, sq_pull_len := n\<rparr>) bs \<and> (shmq_pull mem q = Some (0, Some (sb, buf), q\<lparr>sq_r := r, sq_pull_len := n\<rparr>) \<or>
      \<not> mem \<and> sb_len sb > sq_pull_len q \<and> shmq_pull mem q = Some (-1, None, q\<lparr>sq_r := r, sq_pull_len := n\<rparr>))"
proof -
  let ?rest = "concat (map raw_block bs)"
  have ok: "block_ok (sb, buf)" and buf: "length buf = sb_len sb" using assms by (simp_all add: ring_holds_def block_ok_def)
  have q: "length (sq_base q) = sq_size q" "sq_w q \<le> sq_size q" "sq_r q \<le> sq_size q" "sq_size q \<le> 2147483600"
    "between (sq_r q) (sq_w q) (sq_base q) = block_bytes sb @ buf @ ?rest" "length (block_bytes sb @ buf @ ?rest) < sq_size q"
    "\<forall>b \<in> set bs. block_ok b" using assms by (simp_all add: ring_holds_def raw_block_def)
  obtain r1 where h: "get_ring (sq_size q) (sq_r q) 16 (sq_base q) = Some (block_bytes sb, r1)" "r1 \<le> sq_size q"
    "between r1 (sq_w q) (sq_base q) = buf @ ?rest"
    using get_ring_between [OF q(1,2,3) _ _ q(4), of 16] q(5,6) by auto
  obtain r2 where d: "get_ring (sq_size q) r1 (sb_len sb) (sq_base q) = Some (buf, r2)" "skip_ring (sq_size q) r1 (sb_len sb) = r2"
    "r2 \<le> sq_size q" "between r2 (sq_w q) (sq_base q) = ?rest"
    using get_ring_between [OF q(1,2) h(2) _ _ q(4), of "sb_len sb"] h(3) q(6) buf by auto
  have some: "(if sq_w q \<ge> sq_r q then sq_w q - sq_r q else sq_size q - sq_r q + sq_w q) \<noteq> 0"
    using ring_free(2) [OF assms] by (simp add: raw_block_def)
  have "r1 = r2" if "sb_len sb = 0" using d(1) that h(2) q(4) by (simp add: get_ring_def get_def w32_id)
  then have "shmq_pull mem q = (if sb_len sb = 0 then Some (0, Some (sb, []), q\<lparr>sq_r := r2\<rparr>)
      else if sb_len sb > sq_pull_len q \<and> \<not> mem then Some (-1, None, q\<lparr>sq_r := r2\<rparr>)
      else Some (0, Some (sb, buf), q\<lparr>sq_pull_len := max (sq_pull_len q) (sb_len sb), sq_r := r2\<rparr>))"
    using h(1) d(1,2) some rd_block_bytes [OF ok] unfolding shmq_pull_def Let_def by (simp add: block_sz_def)
  moreover have "ring_holds (q\<lparr>sq_r := r2, sq_pull_len := n\<rparr>) bs" for n using q d by (simp add: ring_holds_def)
  moreover have "sb_len sb = 0 \<Longrightarrow> buf = []" using buf by simp
  ultimately show ?thesis
    by (intro exI [of _ r2] exI [of _ "if sb_len sb = 0 \<or> (sb_len sb > sq_pull_len q \<and> \<not> mem) then sq_pull_len q
      else max (sq_pull_len q) (sb_len sb)"]) auto
qed

text \<open>The ring alone is a channel between the two processes.\<close>

definition ring_push :: "shm_queue_t \<Rightarrow> shm_block_t \<times> byte list \<Rightarrow> bool \<times> shm_queue_t" where
  "ring_push q b = (case shmq_push (fst b) (snd b) q of Some (r, q') \<Rightarrow> (r = 0, q') | None \<Rightarrow> (False, q))"

definition ring_pull :: "shm_queue_t \<Rightarrow> (shm_block_t \<times> byte list) option \<times> shm_queue_t" where
  "ring_pull q = (case shmq_pull True q of Some (r, b, q') \<Rightarrow> (b, q') | None \<Rightarrow> (None, q))"

lemma shmq_push_cases:
  assumes "ring_holds q bs" "block_ok (sb, buf)" "sb_len sb < sq_size q"
  shows "(shmq_push sb buf q = Some (1, q) \<and> length (concat (map raw_block bs)) + sb_len sb + 16 \<ge> sq_size q) \<or>
    (\<exists>m w. shmq_push sb buf q = Some (0, q\<lparr>sq_base := m, sq_w := w\<rparr>) \<and> ring_holds (q\<lparr>sq_base := m, sq_w := w\<rparr>) (bs @ [(sb, buf)]))"
  using shmq_push_full [OF assms] shmq_push_fits [OF assms(1,2)] by fastforce

interpretation async_ring: channel ring_push ring_pull "\<lambda>q bs. ring_holds q bs \<and> sq_size q = n" "\<lambda>b. block_ok b \<and> sb_len (fst b) < n"
  for n
proof (unfold_locales, goal_cases)
  case (1 q xs x q')
  then show ?case using shmq_push_cases [of q xs "fst x" "snd x"] by (auto simp: ring_push_def)
next
  case (2 q xs x q')
  then show ?case using shmq_push_cases [of q xs "fst x" "snd x"] by (auto simp: ring_push_def)
next
  case (3 q)
  then show ?case using shmq_pull_Nil [of q True] by (auto simp: ring_pull_def)
next
  case (4 q x xs)
  then show ?case using shmq_pull_Cons [of q "fst x" "snd x" xs True] by (fastforce simp: ring_pull_def)
qed

section \<open>The queue with the blocks that wait\<close>

definition fits_queue :: "shm_queue_t \<Rightarrow> shm_block_t \<times> byte list \<Rightarrow> bool" where
  "fits_queue q b \<longleftrightarrow> block_ok b \<and> sb_len (fst b) < sq_size q"

definition queue_holds :: "shm_queue_t \<Rightarrow> (shm_block_t \<times> byte list) list \<Rightarrow> bool" where
  "queue_holds q bs \<longleftrightarrow> ring_holds q bs \<and> (\<forall>b \<in> set (sq_waiting q). fits_queue q b)"

lemma ring_holds_waiting [simp]: "ring_holds (q\<lparr>sq_waiting := ws\<rparr>) bs = ring_holds q bs" "ring_holds (write_pipe q) bs = ring_holds q bs"
  "sq_size (write_pipe q) = sq_size q" "sq_waiting (write_pipe q) = sq_waiting q"
  by (simp_all add: ring_holds_def write_pipe_def)

lemma pruge_list_holds:
  assumes "ring_holds q bs" "\<forall>b \<in> set ws. fits_queue q b"
  shows "\<exists>ret q' ws1. pruge_list ws q = Some (ret, q') \<and> ws = ws1 @ sq_waiting q' \<and> ring_holds q' (bs @ ws1) \<and>
    sq_size q' = sq_size q \<and> ret = (if sq_waiting q' = [] then 0 else -1)"
  using assms
proof (induction ws arbitrary: q bs)
  case (Cons b ws)
  obtain sb buf where b: "b = (sb, buf)" by fastforce
  have ok: "block_ok (sb, buf)" "sb_len sb < sq_size q" using Cons.prems(2) b by (simp_all add: fits_queue_def)
  from shmq_push_cases [OF Cons.prems(1) ok] show ?case
  proof (elim disjE exE conjE)
    assume "shmq_push sb buf q = Some (1, q)"
    then show ?thesis using Cons.prems(1) b by (auto intro!: exI [of _ "[]"])
  next
    fix m w
    let ?q = "write_pipe (q\<lparr>sq_base := m, sq_w := w\<rparr>)"
    assume push: "shmq_push sb buf q = Some (0, q\<lparr>sq_base := m, sq_w := w\<rparr>)"
      "ring_holds (q\<lparr>sq_base := m, sq_w := w\<rparr>) (bs @ [(sb, buf)])"
    have "\<forall>b \<in> set ws. fits_queue ?q b" using Cons.prems(2) by (simp add: fits_queue_def)
    moreover have "ring_holds ?q (bs @ [(sb, buf)])" using push(2) by simp
    ultimately have "\<exists>ret q' ws1. pruge_list ws ?q = Some (ret, q') \<and> ws = ws1 @ sq_waiting q' \<and>
      ring_holds q' ((bs @ [(sb, buf)]) @ ws1) \<and> sq_size q' = sq_size ?q \<and> ret = (if sq_waiting q' = [] then 0 else -1)"
      by (rule Cons.IH [rotated])
    then obtain ret q' ws1 where "pruge_list ws ?q = Some (ret, q')" "ws = ws1 @ sq_waiting q'"
      "ring_holds q' ((bs @ [(sb, buf)]) @ ws1)" "sq_size q' = sq_size q" "ret = (if sq_waiting q' = [] then 0 else -1)"
      by (elim exE conjE) simp
    then show ?thesis using push(1) b by (intro exI [of _ ret] exI [of _ q'] exI [of _ "b # ws1"]) simp
  qed
qed simp

lemma pruge_holds:
  assumes "queue_holds q bs"
  shows "\<exists>ret q' ws1. pruge q = Some (ret, q') \<and> sq_waiting q = ws1 @ sq_waiting q' \<and> queue_holds q' (bs @ ws1) \<and>
    sq_size q' = sq_size q \<and> ret = (if sq_waiting q' = [] then 0 else -1)"
proof -
  from assms have "ring_holds q bs" "\<forall>b \<in> set (sq_waiting q). fits_queue q b" by (simp_all add: queue_holds_def)
  from pruge_list_holds [OF this] obtain ret q' ws1 where r: "pruge q = Some (ret, q')" "sq_waiting q = ws1 @ sq_waiting q'"
    "ring_holds q' (bs @ ws1)" "sq_size q' = sq_size q" "ret = (if sq_waiting q' = [] then 0 else -1)"
    unfolding pruge_def by blast
  moreover have "queue_holds q' (bs @ ws1)" using assms r by (auto simp: queue_holds_def fits_queue_def)
  ultimately show ?thesis by blast
qed

text \<open>A push appends the block, to the ring or to those that wait, or leaves everything as it was, in which case it
  may all the same return 0 when it is not safe.\<close>

lemma queue_push_holds:
  assumes q: "queue_holds q bs" and ok: "block_ok (sb, buf)"
  shows "\<exists>ret q' bs'. queue_push mem sb buf safe q = Some (ret, q') \<and> queue_holds q' bs' \<and> sq_size q' = sq_size q \<and>
    ((ret = 0 \<and> bs' @ sq_waiting q' = bs @ sq_waiting q @ [(sb, buf)]) \<or>
     (bs' @ sq_waiting q' = bs @ sq_waiting q \<and> (ret = -1 \<or> ret = 0 \<and> \<not> safe)))"
proof -
  from pruge_holds [OF q] obtain ret q1 ws1 where p: "pruge q = Some (ret, q1)" "sq_waiting q = ws1 @ sq_waiting q1"
    "queue_holds q1 (bs @ ws1)" "sq_size q1 = sq_size q" "ret = (if sq_waiting q1 = [] then 0 else -1)" by blast
  show ?thesis
  proof (cases "sb_len sb \<ge> sq_size q1")
    case True
    then show ?thesis using p by (intro exI [of _ "-1"] exI [of _ q1] exI [of _ "bs @ ws1"]) (simp add: queue_push_def)
  next
    case fits: False
    have buf: "length buf = sb_len sb" using ok by (simp add: block_ok_def)
    have not_now: "?thesis" if "(if ret = 0 then shmq_push sb buf q1 else Some (1, q1)) = Some (1, q1)"
    proof -
      have r: "queue_push mem sb buf safe q = (if \<not> safe then Some (ret, q1) else if \<not> mem then Some (-1, q1)
          else Some (0, q1\<lparr>sq_waiting := sq_waiting q1 @ [(sb, buf)]\<rparr>))"
        using p(1) fits buf that by (simp add: queue_push_def)
      have w: "queue_holds (q1\<lparr>sq_waiting := sq_waiting q1 @ [(sb, buf)]\<rparr>) (bs @ ws1)"
        using p(3) fits ok by (auto simp: queue_holds_def fits_queue_def)
      show ?thesis
      proof (cases "safe \<and> mem")
        case True
        then show ?thesis using r w p by (intro exI [of _ 0] exI [of _ "q1\<lparr>sq_waiting := sq_waiting q1 @ [(sb, buf)]\<rparr>"] exI [of _ "bs @ ws1"]) simp
      next
        case False
        then show ?thesis using r p
          by (intro exI [of _ "if safe then -1 else ret"] exI [of _ q1] exI [of _ "bs @ ws1"]) auto
      qed
    qed
    show ?thesis
    proof (cases "ret = 0")
      case False
      then show ?thesis using not_now by simp
    next
      case True
      then have none: "sq_waiting q1 = []" using p(5) by (simp split: if_splits)
      have "ring_holds q1 (bs @ ws1)" "sb_len sb < sq_size q1" using p(3) fits by (simp_all add: queue_holds_def)
      from shmq_push_cases [OF this(1) ok this(2)] show ?thesis
      proof (elim disjE exE conjE)
        fix m w
        assume "shmq_push sb buf q1 = Some (0, q1\<lparr>sq_base := m, sq_w := w\<rparr>)"
          "ring_holds (q1\<lparr>sq_base := m, sq_w := w\<rparr>) ((bs @ ws1) @ [(sb, buf)])"
        then show ?thesis using True p(1,2,4) fits none
          by (intro exI [of _ 0] exI [of _ "write_pipe (q1\<lparr>sq_base := m, sq_w := w\<rparr>)"] exI [of _ "bs @ ws1 @ [(sb, buf)]"])
            (simp add: queue_push_def queue_holds_def)
      qed (use not_now True in simp_all)
    qed
  qed
qed

section \<open>Runs\<close>

text \<open>What the two processes do to a queue, in any order: pushes, pulls with or without memory, and taking up the
  blocks that wait. A run gives the blocks whose push returned 0 and the blocks pulled.\<close>

datatype queue_op = Push bool shm_block_t "byte list" bool | Pull bool | Pruge

fun queue_step ::
  "queue_op \<Rightarrow> shm_queue_t \<Rightarrow> ((shm_block_t \<times> byte list) list \<times> (shm_block_t \<times> byte list) list \<times> shm_queue_t) option" where
  "queue_step (Push mem sb buf safe) q =
     map_option (\<lambda>(r, q1). (if r = 0 then [(sb, buf)] else [], [], q1)) (queue_push mem sb buf safe q)"
| "queue_step (Pull mem) q =
     map_option (\<lambda>(r, b, q1). ([], case b of Some x \<Rightarrow> [x] | None \<Rightarrow> [], q1)) (shmq_pull mem q)"
| "queue_step Pruge q = map_option (\<lambda>(r, q1). ([], [], q1)) (pruge q)"

fun queue_run ::
  "queue_op list \<Rightarrow> shm_queue_t \<Rightarrow> ((shm_block_t \<times> byte list) list \<times> (shm_block_t \<times> byte list) list \<times> shm_queue_t) option" where
  "queue_run [] q = Some ([], [], q)"
| "queue_run (x # xs) q =
     Option.bind (queue_step x q) (\<lambda>(ins, outs, q1).
       map_option (\<lambda>(ins', outs', q2). (ins @ ins', outs @ outs', q2)) (queue_run xs q1))"

text \<open>Pushes of sound blocks that are to be kept, pulls that have memory.\<close>

fun op_ok :: "queue_op \<Rightarrow> bool" where
  "op_ok (Push mem sb buf safe) = (block_ok (sb, buf) \<and> safe)"
| "op_ok (Pull mem) = mem"
| "op_ok Pruge = True"

lemma ring_holds_pull [simp]: "queue_holds (q\<lparr>sq_r := r, sq_pull_len := n\<rparr>) bs \<longleftrightarrow>
    ring_holds (q\<lparr>sq_r := r, sq_pull_len := n\<rparr>) bs \<and> (\<forall>b \<in> set (sq_waiting q). fits_queue q b)"
  by (simp add: queue_holds_def fits_queue_def)

lemma pull_holds:
  assumes "queue_holds q bs"
  shows "\<exists>r b q' bs'. shmq_pull True q = Some (r, b, q') \<and> queue_holds q' bs' \<and> sq_waiting q' = sq_waiting q \<and> sq_size q' = sq_size q \<and>
    bs = (case b of Some x \<Rightarrow> [x] | None \<Rightarrow> []) @ bs'"
proof (cases bs)
  case Nil
  then have "shmq_pull True q = Some (1, None, q)" using assms shmq_pull_Nil by (simp add: queue_holds_def)
  then show ?thesis using assms Nil by auto
next
  case (Cons x xs)
  then have "ring_holds q ((fst x, snd x) # xs)" using assms by (simp add: queue_holds_def)
  from shmq_pull_Cons [OF this, of True] obtain r n where
    "ring_holds (q\<lparr>sq_r := r, sq_pull_len := n\<rparr>) xs" "shmq_pull True q = Some (0, Some x, q\<lparr>sq_r := r, sq_pull_len := n\<rparr>)" by auto
  then show ?thesis using assms Cons
    by (intro exI [of _ 0] exI [of _ "Some x"] exI [of _ "q\<lparr>sq_r := r, sq_pull_len := n\<rparr>"] exI [of _ xs]) (simp add: queue_holds_def fits_queue_def)
qed

lemma queue_step_fifo:
  assumes q: "queue_holds q bs" and ok: "op_ok x"
  shows "\<exists>ins outs q' bs'. queue_step x q = Some (ins, outs, q') \<and> queue_holds q' bs' \<and>
    bs @ sq_waiting q @ ins = outs @ bs' @ sq_waiting q'"
proof (cases x)
  case (Push mem sb buf safe)
  then have "safe" "block_ok (sb, buf)" using ok by simp_all
  from queue_push_holds [OF q this(2), of mem safe] \<open>safe\<close> obtain ret q' bs' where
    p: "queue_push mem sb buf safe q = Some (ret, q')" "queue_holds q' bs'"
    "(ret = 0 \<and> bs' @ sq_waiting q' = bs @ sq_waiting q @ [(sb, buf)]) \<or> (ret = -1 \<and> bs' @ sq_waiting q' = bs @ sq_waiting q)" by auto
  then show ?thesis using Push by (cases "ret = 0") auto
next
  case (Pull mem)
  then have "mem" using ok by simp
  from pull_holds [OF q] obtain r b q' bs' where "shmq_pull True q = Some (r, b, q')" "queue_holds q' bs'"
    "sq_waiting q' = sq_waiting q" "bs = (case b of Some x \<Rightarrow> [x] | None \<Rightarrow> []) @ bs'" by blast
  then show ?thesis using Pull \<open>mem\<close> by auto
next
  case Pruge
  from pruge_holds [OF q] obtain ret q' ws1 where "pruge q = Some (ret, q')" "sq_waiting q = ws1 @ sq_waiting q'"
    "queue_holds q' (bs @ ws1)" by blast
  then show ?thesis using Pruge by auto
qed

lemma queue_run_fifo:
  "queue_holds q bs \<Longrightarrow> \<forall>x \<in> set xs. op_ok x \<Longrightarrow> \<exists>ins outs q' bs'. queue_run xs q = Some (ins, outs, q') \<and> queue_holds q' bs' \<and>
    bs @ sq_waiting q @ ins = outs @ bs' @ sq_waiting q'"
proof (induction xs arbitrary: q bs)
  case (Cons x xs)
  from queue_step_fifo [OF Cons.prems(1), of x] Cons.prems(2) obtain i1 o1 q1 b1 where
    s: "queue_step x q = Some (i1, o1, q1)" "queue_holds q1 b1" "bs @ sq_waiting q @ i1 = o1 @ b1 @ sq_waiting q1" by auto
  from Cons.IH [OF s(2)] Cons.prems(2) obtain i2 o2 q2 b2 where
    r: "queue_run xs q1 = Some (i2, o2, q2)" "queue_holds q2 b2" "b1 @ sq_waiting q1 @ i2 = o2 @ b2 @ sq_waiting q2" by auto
  have "bs @ sq_waiting q @ i1 @ i2 = o1 @ o2 @ b2 @ sq_waiting q2"
    using arg_cong [OF s(3), of "\<lambda>l. l @ i2"] r(3) by simp
  then show ?case using s(1) r(1,2) by auto
qed auto

lemma shmq_start_holds: "16 < sz \<Longrightarrow> sz \<le> 2147483600 \<Longrightarrow> queue_holds (shmq_start sz) []"
  by (simp add: queue_holds_def ring_holds_def shmq_start_def between_def)


text \<open>A push that is not to wait returns 0 when the ring has no room and no block waits: the caller is told that
  the block is taken, and it is gone.\<close>

lemma async_unsafe_push_lies:
  assumes "ring_holds q bs" "sq_waiting q = []" "block_ok (sb, buf)" "sb_len sb < sq_size q"
    "length (concat (map raw_block bs)) + sb_len sb + 16 \<ge> sq_size q"
  shows "queue_push mem sb buf False q = Some (0, q)"
proof -
  have "pruge q = Some (0, q)" using assms(2) by (simp add: pruge_def)
  then show ?thesis using shmq_push_full [OF assms(1,3,4,5)] assms(4) by (simp add: queue_push_def)
qed

text \<open>A block that cannot go into the ring at all holds up all that wait behind it.\<close>

definition too_big :: "shm_queue_t \<Rightarrow> shm_block_t \<times> byte list \<Rightarrow> bool" where
  "too_big q b \<longleftrightarrow> fits_queue q b \<and> sb_len (fst b) + 16 \<ge> sq_size q"

lemma too_big_full: "queue_holds q bs \<Longrightarrow> too_big q (sb, buf) \<Longrightarrow> shmq_push sb buf q = Some (1, q)"
  by (rule shmq_push_full [of q bs]) (auto simp: queue_holds_def too_big_def fits_queue_def)

lemma stuck_pruge: "queue_holds q bs \<Longrightarrow> sq_waiting q = b # ws \<Longrightarrow> too_big q b \<Longrightarrow> pruge q = Some (-1, q)"
  using too_big_full [of q bs "fst b" "snd b"] by (cases b) (simp add: pruge_def)

lemma stuck_step:
  assumes q: "queue_holds q bs" "sq_waiting q = b # ws" "too_big q b"
    and run: "queue_step x q = Some (ins, outs, q')" and ok: "op_ok x"
  shows "\<exists>bs' ws'. queue_holds q' bs' \<and> sq_waiting q' = b # ws' \<and> too_big q' b \<and> bs = outs @ bs'"
proof (cases x)
  case (Push mem sb buf safe)
  then have "safe" "block_ok (sb, buf)" using ok by simp_all
  then have "length buf = sb_len sb" by (simp add: block_ok_def)
  then have "queue_push mem sb buf safe q = (if sb_len sb \<ge> sq_size q \<or> \<not> mem then Some (-1, q)
      else Some (0, q\<lparr>sq_waiting := sq_waiting q @ [(sb, buf)]\<rparr>))"
    using stuck_pruge [OF q] \<open>safe\<close> by (simp add: queue_push_def)
  moreover have "queue_holds (q\<lparr>sq_waiting := sq_waiting q @ [(sb, buf)]\<rparr>) bs" if "\<not> sb_len sb \<ge> sq_size q"
    using q(1) that \<open>block_ok (sb, buf)\<close> by (auto simp: queue_holds_def fits_queue_def)
  ultimately show ?thesis using run Push q by (auto simp: too_big_def fits_queue_def split: if_splits)
next
  case (Pull mem)
  then have "mem" using ok by simp
  from pull_holds [OF q(1)] obtain r y q1 bs' where "shmq_pull True q = Some (r, y, q1)" "queue_holds q1 bs'"
    "sq_waiting q1 = sq_waiting q" "sq_size q1 = sq_size q" "bs = (case y of Some x \<Rightarrow> [x] | None \<Rightarrow> []) @ bs'" by blast
  then show ?thesis using run Pull \<open>mem\<close> q by (auto simp: too_big_def fits_queue_def)
next
  case Pruge
  then show ?thesis using run stuck_pruge [OF q] q by auto
qed

text \<open>A push that waits takes any block shorter than the ring, also one that does not fit into it with its
  header. From then on nothing that is pushed reaches the reader: it only gets the blocks that were in the ring
  before, and every block behind is told to be taken and waits for ever.\<close>

lemma async_big_block_blocks:
  assumes "queue_holds q bs" "sq_waiting q = b # ws" "too_big q b" "\<forall>x \<in> set xs. op_ok x" "queue_run xs q = Some (ins, outs, q')"
  shows "\<exists>bs' ws'. bs = outs @ bs' \<and> sq_waiting q' = b # ws'"
  using assms
proof (induction xs arbitrary: q bs ws ins outs)
  case (Cons x xs)
  from Cons.prems(5) obtain i1 o1 q1 i2 o2 where s: "queue_step x q = Some (i1, o1, q1)" "queue_run xs q1 = Some (i2, o2, q')"
    "outs = o1 @ o2" by (auto split: bind_splits)
  from stuck_step [OF Cons.prems(1,2,3) s(1)] Cons.prems(4) obtain b1 w1 where
    "queue_holds q1 b1" "sq_waiting q1 = b # w1" "too_big q1 b" "bs = o1 @ b1" by auto
  with Cons.IH [OF this(1,2,3) _ s(2)] Cons.prems(4) s(3) show ?case by auto
qed auto

text \<open>Samples: a ring of 40 bytes, blocks of 6 bytes for connection 3.\<close>

definition some_block :: "nat \<Rightarrow> shm_block_t" where "some_block n = \<lparr>sb_fd = 3, sb_id = 1, sb_len = n, sb_type = PROTO_BLOCK\<rparr>"

lemma some_block_ok: "n < 4294967296 \<Longrightarrow> block_ok (some_block n, replicate n 7)"
  by (simp add: block_ok_def some_block_def PROTO_BLOCK_def)

lemma some_block_len [simp]: "sb_len (some_block n) = n"
  by (simp add: some_block_def)

lemma shmq_start_sz [simp]: "sq_size (shmq_start n) = n - 16" "sq_waiting (shmq_start n) = []"
  by (simp_all add: shmq_start_def)


lemma async_unsafe_push_lies_witness:
  "queue_push True (some_block 32) (replicate 32 7) False (shmq_start 56) = Some (0, shmq_start 56)"
proof -
  have "ring_holds (shmq_start 56) []" using shmq_start_holds [of 56] by (simp add: queue_holds_def)
  then show ?thesis by (rule async_unsafe_push_lies) (simp_all add: some_block_ok) 
qed

lemma async_big_block_blocks_witness:
  "\<exists>q ins outs q'. queue_push True (some_block 32) (replicate 32 7) True (shmq_start 56) = Some (0, q) \<and>
     queue_run [Push True (some_block 6) (replicate 6 7) True, Pull True] q = Some (ins, outs, q') \<and> outs = [] \<and>
     hd (sq_waiting q') = (some_block 32, replicate 32 7)"
proof -
  let ?b = "(some_block 32, replicate 32 7)" and ?xs = "[Push True (some_block 6) (replicate 6 7) True, Pull True]"
  let ?q = "(shmq_start 56)\<lparr>sq_waiting := [?b]\<rparr>"
  have start: "queue_holds (shmq_start 56) []" by (rule shmq_start_holds) simp_all
  then have q: "queue_holds ?q []" by (simp add: queue_holds_def fits_queue_def some_block_ok)
  have big: "too_big ?q ?b" "too_big (shmq_start 56) ?b" by (simp_all add: too_big_def fits_queue_def some_block_ok)
  have "pruge (shmq_start 56) = Some (0, shmq_start 56)" by (simp add: pruge_def shmq_start_def)
  then have push: "queue_push True (some_block 32) (replicate 32 7) True (shmq_start 56) = Some (0, ?q)"
    using too_big_full [OF start big(2)] by (simp add: queue_push_def)
  from queue_run_fifo [OF q, of ?xs] obtain ins outs q' where run: "queue_run ?xs ?q = Some (ins, outs, q')"
    by (auto simp: some_block_ok)
  have "\<exists>bs' ws'. [] = outs @ bs' \<and> sq_waiting q' = ?b # ws'"
    by (rule async_big_block_blocks [OF q _ big(1) _ run]) (simp_all add: some_block_ok)
  then show ?thesis using push run by auto
qed

end
