(* ===== verification/AsyncLink.thy ===== *)
theory AsyncLink
  imports AsyncShmq Framer
begin

text \<open>
  The connections of the asynchronous server framework: \<^verbatim>\<open>c_tcp_socket\<close> (\<^verbatim>\<open>async_server/src/tcp_socket.cpp\<close>) for
  clients and \<^verbatim>\<open>c_tcp_linker\<close> (\<^verbatim>\<open>tcp_linker.cpp\<close>) for other servers. The two share the code that cuts what is
  received into packages and the code that sends, and differ in what is done with a package. The network, the
  functions of the plugin, the memory allocator and what \<^verbatim>\<open>memcpy\<close> does to overlapping areas are parameters.
\<close>

section \<open>State\<close>

text \<open>The receiving side: \<open>li_buf\<close> is the whole receive buffer with \<open>li_pos\<close> bytes in use. The sending side: \<open>lo_send\<close>
  holds the data of each buffer of the send list, of whose first \<open>lo_send_pos\<close> bytes are sent; its length is
  \<^verbatim>\<open>m_send_list_size\<close>.\<close>

record link_in =
  li_buf :: "byte list"
  li_pos :: nat

record link_out =
  lo_closed :: bool
  lo_send_pos :: nat
  lo_send :: "byte list list"

definition in_start :: link_in where "in_start = \<lparr>li_buf = replicate 4096 0, li_pos = 0\<rparr>"
definition out_start :: link_out where "out_start = \<lparr>lo_closed = False, lo_send_pos = 0, lo_send = []\<rparr>"

section \<open>Receiving\<close>

text \<open>\<open>re_len\<close> is \<^verbatim>\<open>get_pkg_len_cli\<close> or \<^verbatim>\<open>get_pkg_len_ser\<close>, \<open>re_max\<close> is \<^verbatim>\<open>g_max_pkg_len\<close>; \<open>re_mem\<close> says whether \<^verbatim>\<open>realloc\<close> finds
  memory, and \<open>re_copy\<close> gives the memory after its \<open>n\<close> bytes from \<open>pos\<close> on are copied to its start with \<^verbatim>\<open>memcpy\<close>. The
  state \<open>'s\<close> is everything but the receiving side.\<close>

record 's recv_env =
  re_len :: "byte list \<Rightarrow> int"
  re_max :: nat
  re_mem :: "'s \<Rightarrow> bool \<times> 's"
  re_copy :: "nat \<Rightarrow> nat \<Rightarrow> byte list \<Rightarrow> byte list"

text \<open>What a call of \<^verbatim>\<open>recv\<close> comes to.\<close>

datatype received = Bytes "byte list" | Peer_closed | Try_again | Recv_failed

text \<open>\<^verbatim>\<open>MOVE\<close>: what is left goes to the start of the buffer.\<close>

definition move :: "'s recv_env \<Rightarrow> nat \<Rightarrow> link_in \<Rightarrow> link_in" where
  "move env pos k =
     (if pos = 0 then k else \<lparr>li_buf = re_copy env pos (li_pos k - pos) (li_buf k), li_pos = li_pos k - pos\<rparr>)"

text \<open>\<^verbatim>\<open>READ\<close>. What is done with a package may end the call with a result; \<open>None\<close> is undefined behaviour in it, or a
  package that ends behind the bytes received.\<close>

type_synonym 's deal = "byte list \<Rightarrow> 's \<Rightarrow> (bool option \<times> 's) option"

function read_pkgs :: "'s recv_env \<Rightarrow> 's deal \<Rightarrow> nat \<Rightarrow> link_in \<Rightarrow> 's \<Rightarrow> (bool \<times> link_in \<times> 's) option" where
  "read_pkgs env deal pos k s =
     (let data = drop pos (take (li_pos k) (li_buf k)); len = nat (u32 (re_len env data))
      in if len > re_max env then Some (False, k, s)
         else if len = 0 then Some (if pos = 0 \<and> li_pos k = length (li_buf k) then (False, k, s) else (True, move env pos k, s))
         else if pos = 0 \<and> len > length (li_buf k) then
           (case re_mem env s of (ok, s1) \<Rightarrow>
              Some (if ok then (True, k\<lparr>li_buf := li_buf k @ replicate (len - length (li_buf k)) 0\<rparr>, s1) else (False, k, s1)))
         else if w32 (len + pos) \<le> li_pos k then
           (if len + pos > li_pos k then None
            else Option.bind (deal (take len data) s) (\<lambda>(r, s1).
              case r of Some b \<Rightarrow> Some (b, k, s1)
              | None \<Rightarrow> if pos + len < li_pos k then read_pkgs env deal (pos + len) k s1
                       else Some (True, move env (pos + len) k, s1)))
         else Some (True, move env pos k, s))"
  by pat_completeness auto
termination
  by (relation "measure (\<lambda>(env, deal, pos, k, s). li_pos k - pos)") auto

declare read_pkgs.simps [simp del]

text \<open>\<open>closed\<close> reads \<^verbatim>\<open>m_is_closed\<close>; \<open>None\<close> also where \<^verbatim>\<open>recv\<close> would give more than it was asked for, or nothing.\<close>

definition handle_input :: "'s recv_env \<Rightarrow> 's deal \<Rightarrow> ('s \<Rightarrow> bool) \<Rightarrow> received \<Rightarrow> link_in \<Rightarrow> 's \<Rightarrow> (bool \<times> link_in \<times> 's) option" where
  "handle_input env deal closed got k s =
     (case got of
        Bytes bs \<Rightarrow>
          if bs = [] \<or> length bs > length (li_buf k) - li_pos k then None
          else if closed s then Some (True, \<lparr>li_buf = take (li_pos k) (li_buf k) @ bs @ drop (li_pos k + length bs) (li_buf k), li_pos = 0\<rparr>, s)
          else read_pkgs env deal 0 \<lparr>li_buf = take (li_pos k) (li_buf k) @ bs @ drop (li_pos k + length bs) (li_buf k),
                                    li_pos = li_pos k + length bs\<rparr> s
      | Peer_closed \<Rightarrow> Some (False, k, s)
      | Try_again \<Rightarrow> Some (True, k, s)
      | Recv_failed \<Rightarrow> Some (False, k, s))"

text \<open>The reference: the packages of a stream, cut with a length that is too great taken for an error.\<close>

definition pkg_len :: "'s recv_env \<Rightarrow> byte list \<Rightarrow> int" where
  "pkg_len env bs = (if nat (u32 (re_len env bs)) > re_max env then -1 else u32 (re_len env bs))"

fun deal_pkgs :: "'s deal \<Rightarrow> byte list list \<Rightarrow> 's \<Rightarrow> (bool option \<times> 's) option" where
  "deal_pkgs deal [] s = Some (None, s)"
| "deal_pkgs deal (p # ps) s = Option.bind (deal p s) (\<lambda>(r, s1).
     case r of Some b \<Rightarrow> Some (Some b, s1) | None \<Rightarrow> deal_pkgs deal ps s1)"

text \<open>\<^verbatim>\<open>memcpy\<close> is relied on to copy the bytes also where the areas overlap.\<close>

definition copy_ok :: "'s recv_env \<Rightarrow> bool" where
  "copy_ok env \<longleftrightarrow> (\<forall>pos n mem. pos + n \<le> length mem \<longrightarrow>
     length (re_copy env pos n mem) = length mem \<and> take n (re_copy env pos n mem) = take n (drop pos mem))"

definition li_pending :: "link_in \<Rightarrow> byte list" where "li_pending k = take (li_pos k) (li_buf k)"

definition in_ok :: "link_in \<Rightarrow> bool" where "in_ok k \<longleftrightarrow> li_pos k \<le> length (li_buf k) \<and> length (li_buf k) < 2147483648"

section \<open>One call\<close>

text \<open>What is done when no further package can be cut at \<open>p\<close>.\<close>

definition leave :: "'s recv_env \<Rightarrow> nat \<Rightarrow> link_in \<Rightarrow> 's \<Rightarrow> bool \<times> link_in \<times> 's" where
  "leave env p k s =
     (let len = nat (u32 (re_len env (take (li_pos k) (li_buf k))))
      in if p \<noteq> 0 then (True, move env p k, s)
         else if len = 0 then (li_pos k \<noteq> length (li_buf k), k, s)
         else if len > length (li_buf k) then
           (case re_mem env s of (ok, s1) \<Rightarrow>
              if ok then (True, k\<lparr>li_buf := li_buf k @ replicate (len - length (li_buf k)) 0\<rparr>, s1) else (False, k, s1))
         else (True, k, s))"

lemma u32_range: "0 \<le> u32 n" "u32 n < 4294967296"
  by (simp_all add: u32_def)

lemma pkg_len_iff:
  assumes "int (re_max env) \<le> RCVBUFMAX"
  shows "pkg_len env bs < 0 \<or> pkg_len env bs > RCVBUFMAX \<longleftrightarrow> nat (u32 (re_len env bs)) > re_max env"
    and "nat (u32 (re_len env bs)) \<le> re_max env \<Longrightarrow> pkg_len env bs = int (nat (u32 (re_len env bs)))"
  using assms u32_range [of "re_len env bs"] by (auto simp: pkg_len_def)

lemma move_0 [simp]: "move env 0 k = k"
  by (simp add: move_def)

lemma read_pkgs_frames:
  assumes "pos < li_pos k" "li_pos k \<le> length (li_buf k)" "length (li_buf k) < 2147483648" "int (re_max env) \<le> RCVBUFMAX"
  shows "read_pkgs env deal pos k s =
    Option.bind (deal_pkgs deal (fst (frames (pkg_len env) (drop pos (take (li_pos k) (li_buf k))))) s) (\<lambda>(r, s1).
      case r of Some b \<Rightarrow> Some (b, k, s1)
      | None \<Rightarrow> Some (case snd (frames (pkg_len env) (drop pos (take (li_pos k) (li_buf k)))) of
          Rejected rest \<Rightarrow> (False, k, s1)
        | Incomplete rest \<Rightarrow> leave env (li_pos k - length rest) k s1))"
  using assms(1)
proof (induction "li_pos k - pos" arbitrary: pos s rule: less_induct)
  case less
  define data where "data = drop pos (take (li_pos k) (li_buf k))"
  define len where "len = nat (u32 (re_len env data))"
  let ?h = "pkg_len env"
  have data: "data \<noteq> []" "length data = li_pos k - pos" using less.prems assms(2) by (auto simp: data_def)
  have max: "re_max env \<le> 8388608" using assms(4) by (simp add: RCVBUFMAX_def)
  note rd = read_pkgs.simps [of env deal pos k s, folded data_def, unfolded Let_def, folded len_def]
  show ?case
  proof (cases "len > re_max env")
    case True
    then have "frames ?h data = ([], Rejected data)"
      using pkg_len_iff(1) [OF assms(4), of data] by (intro frames_rejected data(1)) (simp add: len_def)
    then show ?thesis using True rd by (simp add: data_def [symmetric])
  next
    case False
    then have h: "?h data = int len" using pkg_len_iff(2) [OF assms(4), of data] by (simp add: len_def)
    show ?thesis
    proof (cases "len \<noteq> 0 \<and> len \<le> length data")
      case True
      have le: "len + pos \<le> li_pos k" using True data(2) less.prems by linarith
      then have w: "w32 (len + pos) = len + pos" using assms(2,3) by (intro w32_id) linarith
      have nofit: "\<not> (pos = 0 \<and> length (li_buf k) < len)" using le assms(2) by simp
      have fr: "frames ?h data = (take len data # fst (frames ?h (drop len data)), snd (frames ?h (drop len data)))"
        using frames_message [of ?h data] True h False max by (simp add: RCVBUFMAX_def)
      have drop: "drop len data = drop (pos + len) (take (li_pos k) (li_buf k))" by (simp add: data_def add.commute)
      have rd1: "read_pkgs env deal pos k s = Option.bind (deal (take len data) s) (\<lambda>(r, s1).
              case r of Some b \<Rightarrow> Some (b, k, s1)
              | None \<Rightarrow> if pos + len < li_pos k then read_pkgs env deal (pos + len) k s1
                       else Some (True, move env (pos + len) k, s1))"
        unfolding rd using False True w le nofit by auto
      show ?thesis
      proof (cases "pos + len < li_pos k")
        case more: True
        have IH: "read_pkgs env deal (pos + len) k s1 =
          Option.bind (deal_pkgs deal (fst (frames ?h (drop len data))) s1) (\<lambda>(r, s1).
            case r of Some b \<Rightarrow> Some (b, k, s1)
            | None \<Rightarrow> Some (case snd (frames ?h (drop len data)) of
                Rejected rest \<Rightarrow> (False, k, s1)
              | Incomplete rest \<Rightarrow> leave env (li_pos k - length rest) k s1))" for s1
          unfolding drop by (rule less.hyps) (use True more in auto)
        show ?thesis unfolding rd1 data_def [symmetric] fr
          using more by (auto simp: IH intro!: bind_option_cong split: option.split)
      next
        case False
        then have "pos + len = li_pos k" "drop len data = []" using le data(2) by auto
        moreover have "leave env (li_pos k) k s1 = (True, move env (li_pos k) k, s1)" for s1
          using True le by (simp add: leave_def)
        ultimately show ?thesis unfolding rd1 data_def [symmetric] fr
          by (auto intro!: bind_option_cong split: option.split)
      qed
    next
      case rest: False
      then have "frames ?h data = ([], Incomplete data)"
        using h False max by (intro frames_incomplete) (auto simp: RCVBUFMAX_def)
      moreover have "read_pkgs env deal pos k s = Some (leave env (li_pos k - length data) k s)"
      proof -
        have at: "li_pos k - length data = pos" using data(2) less.prems by simp
        have whole: "pos = 0 \<Longrightarrow> take (li_pos k) (li_buf k) = data" by (simp add: data_def)
        have "\<not> w32 (len + pos) \<le> li_pos k" if "len \<noteq> 0"
          using rest that data(2) less.prems assms(2,3) False max by (subst w32_id) auto
        then show ?thesis unfolding rd at
          using False whole by (auto simp: leave_def len_def [symmetric] Let_def split: prod.split)
      qed
      ultimately show ?thesis by (simp add: data_def [symmetric])
    qed
  qed
qed

section \<open>All calls\<close>

text \<open>The network holds \<open>bs\<close>; each call of \<^verbatim>\<open>recv\<close> gives some of it, at most \<open>n\<close> bytes and at most what it is asked for. The
  result also has the bytes that are still in the network.\<close>

fun recv_all :: "'s recv_env \<Rightarrow> 's deal \<Rightarrow> ('s \<Rightarrow> bool) \<Rightarrow> nat list \<Rightarrow> byte list \<Rightarrow> link_in \<Rightarrow> 's \<Rightarrow>
    (bool \<times> byte list \<times> link_in \<times> 's) option" where
  "recv_all env deal closed [] bs k s = Some (True, bs, k, s)"
| "recv_all env deal closed (n # ns) bs k s =
     (if bs = [] then Some (True, bs, k, s)
      else let c = min n (length (li_buf k) - li_pos k)
           in Option.bind (handle_input env deal closed (Bytes (take c bs)) k s) (\<lambda>(b, k1, s1).
                if b then recv_all env deal closed ns (drop c bs) k1 s1 else Some (False, drop c bs, k1, s1)))"

text \<open>What the code relies on: \<^verbatim>\<open>get_pkg_len_cli\<close> gives a length that more bytes do not change, and gives one
  when the buffer of 4096 bytes is full; there is memory; no length above 8 MB is allowed.\<close>

definition env_ok :: "'s recv_env \<Rightarrow> bool" where
  "env_ok env \<longleftrightarrow> framer (pkg_len env) \<and> copy_ok env \<and> int (re_max env) \<le> RCVBUFMAX \<and>
     (\<forall>bs. 4096 \<le> length bs \<longrightarrow> u32 (re_len env bs) \<noteq> 0) \<and> (\<forall>s. re_mem env s = (True, s))"

definition link_ok :: "'s recv_env \<Rightarrow> link_in \<Rightarrow> bool" where
  "link_ok env k \<longleftrightarrow> in_ok k \<and> 4096 \<le> length (li_buf k) \<and> li_pos k < length (li_buf k) \<and>
     frames (pkg_len env) (li_pending k) = ([], Incomplete (li_pending k))"

lemma link_ok_start [simp]: "link_ok env in_start" "li_pending in_start = []"
  by (simp_all add: link_ok_def in_ok_def in_start_def li_pending_def)

lemma frames_rest_suffix:
  "snd (frames h bs) = Incomplete rest \<Longrightarrow> length rest \<le> length bs \<and> drop (length bs - length rest) bs = rest"
  using frames_concat [of h bs] by (metis append_eq_conv_conj frame_end.sel(1) length_append le_add2 add_diff_cancel_right')

lemma leave_ok:
  assumes env: "env_ok env" and k: "in_ok k" "4096 \<le> length (li_buf k)" "0 < li_pos k"
    and inc: "snd (frames (pkg_len env) (li_pending k)) = Incomplete rest"
  shows "\<exists>k1. leave env (li_pos k - length rest) k s = (True, k1, s) \<and> link_ok env k1 \<and> li_pending k1 = rest"
proof -
  have len: "length (li_pending k) = li_pos k" using k(1) by (simp add: li_pending_def in_ok_def)
  note suf = frames_rest_suffix [OF inc, unfolded len]
  have idem: "frames (pkg_len env) rest = ([], Incomplete rest)" using inc by (rule frames_incomplete_idem)
  show ?thesis
  proof (cases "li_pos k - length rest = 0")
    case False
    let ?p = "li_pos k - length rest"
    have "length rest + ?p \<le> length (li_buf k)" using suf k(1) by (simp add: in_ok_def)
    then have "length (re_copy env ?p (length rest) (li_buf k)) = length (li_buf k)"
      "take (length rest) (re_copy env ?p (length rest) (li_buf k)) = take (length rest) (drop ?p (li_buf k))"
      using env by (simp_all add: env_ok_def copy_ok_def add.commute)
    moreover have "take (length rest) (drop ?p (li_buf k)) = rest"
      using suf by (metis diff_diff_cancel drop_take li_pending_def)
    ultimately show ?thesis using False suf k idem
      by (auto simp: leave_def Let_def move_def link_ok_def li_pending_def in_ok_def)
  next
    case True
    then have rest: "rest = li_pending k" using suf by simp
    let ?len = "nat (u32 (re_len env (li_pending k)))"
    have ne: "li_pending k \<noteq> []" using len k(3) by auto
    have notbad: "\<not> pkg_len env (li_pending k) < 0" "\<not> pkg_len env (li_pending k) > RCVBUFMAX"
      using inc frames_rejected [OF ne, of "pkg_len env"] by auto
    then have h: "pkg_len env (li_pending k) = int ?len" "?len \<le> re_max env"
      using pkg_len_iff [of env "li_pending k"] env by (auto simp: env_ok_def)
    have more: "?len \<noteq> 0 \<Longrightarrow> li_pos k < ?len"
    proof (rule ccontr)
      assume "?len \<noteq> 0" "\<not> li_pos k < ?len"
      with frames_message [of "pkg_len env" "li_pending k"] h notbad len
      have "frames (pkg_len env) (li_pending k) = (take ?len (li_pending k) # fst (frames (pkg_len env) (drop ?len (li_pending k))),
          snd (frames (pkg_len env) (drop ?len (li_pending k))))" by simp
      then have "fst (frames (pkg_len env) (li_pending k)) \<noteq> []" by simp
      then show False using idem rest by simp
    qed
    have full: "?len = 0 \<Longrightarrow> li_pos k < 4096"
      using env len unfolding env_ok_def by (metis h(1) nat_eq_iff2 not_less of_nat_0 u32_range(1) nat_0_iff order_antisym)
    have mem: "re_mem env s = (True, s)" and max: "re_max env \<le> 8388608" using env by (simp_all add: env_ok_def RCVBUFMAX_def)
    show ?thesis
    proof (cases "?len > length (li_buf k)")
      case big: True
      let ?k1 = "k\<lparr>li_buf := li_buf k @ replicate (?len - length (li_buf k)) 0\<rparr>"
      have "leave env (li_pos k - length rest) k s = (True, ?k1, s)" "li_pending ?k1 = rest"
        using True big mem rest k(1) by (auto simp: leave_def Let_def li_pending_def in_ok_def)
      then show ?thesis using big h(2) max k idem
        by (intro exI [of _ ?k1]) (auto simp: link_ok_def in_ok_def)
    next
      case False
      then have room: "li_pos k < length (li_buf k)" using more full k(2) by (cases "?len = 0") linarith+
      then have "leave env (li_pos k - length rest) k s = (True, k, s)"
        using True False by (auto simp: leave_def Let_def li_pending_def)
      with room show ?thesis using k idem rest by (auto simp: link_ok_def)
    qed
  qed
qed

lemma deal_pkgs_append:
  "deal_pkgs deal (ps @ qs) s = Option.bind (deal_pkgs deal ps s) (\<lambda>(r, s1).
     case r of Some b \<Rightarrow> Some (Some b, s1) | None \<Rightarrow> deal_pkgs deal qs s1)"
proof (induction ps arbitrary: s)
  case (Cons p ps)
  show ?case
  proof (cases "deal p s")
    case (Some x)
    then show ?thesis using Cons by (cases x; cases "fst x") auto
  qed simp
qed simp

lemma deal_pkgs_total: "deal_pkgs (\<lambda>p s. Some (None, d p s)) ps s = Some (None, fold d ps s)"
  by (induction ps arbitrary: s) simp_all

lemma deal_pkgs_splitE:
  assumes "deal_pkgs deal (ps @ qs) s = Some (None, s2)"
  obtains s1 where "deal_pkgs deal ps s = Some (None, s1)" "deal_pkgs deal qs s1 = Some (None, s2)"
  using assms by (auto simp: deal_pkgs_append split: bind_splits option.splits)

lemma handle_input_ok:
  assumes env: "env_ok env" and k: "link_ok env k" and bs: "bs \<noteq> []" "length bs \<le> length (li_buf k) - li_pos k" and "\<not> closed s"
    and deal: "deal_pkgs deal (fst (frames (pkg_len env) (li_pending k @ bs))) s = Some (None, s1)"
  shows "\<exists>k1. handle_input env deal closed (Bytes bs) k s =
      Some (case snd (frames (pkg_len env) (li_pending k @ bs)) of Incomplete rest \<Rightarrow> (True, k1, s1) | Rejected rest \<Rightarrow> (False, k1, s1)) \<and>
    (\<forall>rest. snd (frames (pkg_len env) (li_pending k @ bs)) = Incomplete rest \<longrightarrow> link_ok env k1 \<and> li_pending k1 = rest)"
proof -
  let ?k = "\<lparr>li_buf = take (li_pos k) (li_buf k) @ bs @ drop (li_pos k + length bs) (li_buf k), li_pos = li_pos k + length bs\<rparr>"
  let ?fr = "frames (pkg_len env) (li_pending k @ bs)"
  have pend: "take (li_pos ?k) (li_buf ?k) = li_pending k @ bs" and ok: "in_ok ?k" "4096 \<le> length (li_buf ?k)" "0 < li_pos ?k"
    using k bs by (auto simp: link_ok_def in_ok_def li_pending_def)
  have "handle_input env deal closed (Bytes bs) k s = read_pkgs env deal 0 ?k s"
    using bs assms(5) by (simp add: handle_input_def)
  also have "\<dots> = Some (case snd ?fr of Rejected rest \<Rightarrow> (False, ?k, s1)
      | Incomplete rest \<Rightarrow> leave env (li_pos ?k - length rest) ?k s1)"
    by (subst read_pkgs_frames) (use ok env in \<open>simp_all only: pend drop_0 deal in_ok_def env_ok_def bind.simps prod.case option.case\<close>)
  finally have *: "handle_input env deal closed (Bytes bs) k s = \<dots>" .
  show ?thesis
  proof (cases "snd ?fr")
    case (Incomplete rest)
    then have "snd (frames (pkg_len env) (li_pending ?k)) = Incomplete rest" using pend by (simp only: li_pending_def)
    from leave_ok [OF env ok this] show ?thesis using * Incomplete by (metis frame_end.inject(1) frame_end.simps(5))
  qed (use * in simp)
qed

lemma recv_all_ok:
  assumes env: "env_ok env" and opened: "\<forall>s. \<not> closed s"
  shows "link_ok env k \<Longrightarrow> 0 \<notin> set ns \<Longrightarrow> length bs \<le> length ns \<Longrightarrow>
    deal_pkgs deal (fst (frames (pkg_len env) (li_pending k @ bs))) s = Some (None, s1) \<Longrightarrow>
    \<exists>left k1. recv_all env deal closed ns bs k s =
      Some (case snd (frames (pkg_len env) (li_pending k @ bs)) of Incomplete r \<Rightarrow> (True, [], k1, s1) | Rejected r \<Rightarrow> (False, left, k1, s1)) \<and>
    (\<forall>r. snd (frames (pkg_len env) (li_pending k @ bs)) = Incomplete r \<longrightarrow> li_pending k1 = r)"
proof (induction ns arbitrary: bs k s)
  case Nil
  then show ?case by (auto simp: link_ok_def)
next
  case (Cons n ns)
  have fr: "framer (pkg_len env)" using env by (simp add: env_ok_def)
  show ?case
  proof (cases "bs = []")
    case True
    then show ?thesis using Cons.prems(1,4) by (auto simp: link_ok_def)
  next
    case False
    define c where "c = min n (length (li_buf k) - li_pos k)"
    have c: "take c bs \<noteq> []" "length (take c bs) \<le> length (li_buf k) - li_pos k"
      using False Cons.prems(1,2) by (auto simp: c_def link_ok_def)
    have less: "length (drop c bs) \<le> length ns" using c(1) Cons.prems(3) False by (cases c) auto
    let ?fr = "frames (pkg_len env) (li_pending k @ take c bs)"
    have rec: "recv_all env deal closed (n # ns) bs k s =
      Option.bind (handle_input env deal closed (Bytes (take c bs)) k s) (\<lambda>(b, k1, s1).
        if b then recv_all env deal closed ns (drop c bs) k1 s1 else Some (False, drop c bs, k1, s1))"
      using False by (simp add: c_def [symmetric] Let_def)
    show ?thesis
    proof (cases "snd ?fr")
      case (Incomplete r)
      from framer.frames_append [OF fr Incomplete, of "drop c bs"]
      have app: "frames (pkg_len env) (li_pending k @ bs) =
          (fst ?fr @ fst (frames (pkg_len env) (r @ drop c bs)), snd (frames (pkg_len env) (r @ drop c bs)))" by simp
      from deal_pkgs_splitE [OF Cons.prems(4) [unfolded app fst_conv]] obtain s2 where
        d: "deal_pkgs deal (fst ?fr) s = Some (None, s2)" "deal_pkgs deal (fst (frames (pkg_len env) (r @ drop c bs))) s2 = Some (None, s1)" .
      from handle_input_ok [where closed = closed, OF env Cons.prems(1) c opened [rule_format, of s] d(1)] Incomplete obtain k1 where
        step: "handle_input env deal closed (Bytes (take c bs)) k s = Some (True, k1, s2)" and k1: "link_ok env k1" and r: "li_pending k1 = r"
        by auto
      from Cons.IH [OF k1 _ less, unfolded r, OF _ d(2)] Cons.prems(2) show ?thesis
        unfolding rec step app snd_conv bind.simps prod.case if_True by simp
    next
      case (Rejected r)
      from framer.frames_rejected_append [OF fr Rejected, of "drop c bs"]
      have app: "frames (pkg_len env) (li_pending k @ bs) = (fst ?fr, Rejected (r @ drop c bs))" by simp
      from handle_input_ok [where closed = closed, OF env Cons.prems(1) c opened [rule_format, of s] Cons.prems(4) [unfolded app fst_conv]] Rejected
      show ?thesis unfolding rec app by auto
    qed
  qed
qed

text \<open>The packages a connection deals with do not depend on how the bytes were cut by the network: after calls
  that have taken all bytes, what was dealt with is what is cut from the whole stream, in order, and the
  rest is kept; a length that is not allowed ends the connection after the packages before it.\<close>

lemma recv_all_packages:
  assumes "env_ok env" "\<forall>s. \<not> closed s" "0 \<notin> set ns" "length bs \<le> length ns"
  shows "\<exists>left k. recv_all env (\<lambda>p s. Some (None, d p s)) closed ns bs in_start s =
      Some (case snd (frames (pkg_len env) bs) of
        Incomplete r \<Rightarrow> (True, [], k, fold d (fst (frames (pkg_len env) bs)) s)
      | Rejected r \<Rightarrow> (False, left, k, fold d (fst (frames (pkg_len env) bs)) s)) \<and>
    (\<forall>r. snd (frames (pkg_len env) bs) = Incomplete r \<longrightarrow> li_pending k = r)"
  using recv_all_ok [OF assms(1,2) link_ok_start(1) assms(3,4) deal_pkgs_total] unfolding link_ok_start append_Nil .

text \<open>A sample: the first byte of a package is its length.\<close>

definition byte_len :: "byte list \<Rightarrow> int" where
  "byte_len bs = (case bs of [] \<Rightarrow> 0 | b # _ \<Rightarrow> if b = 0 then -1 else int (unat b))"

definition byte_env :: "'s recv_env" where
  "byte_env = \<lparr>re_len = byte_len, re_max = 4096, re_mem = (\<lambda>s. (True, s)),
     re_copy = (\<lambda>pos n mem. take n (drop pos mem) @ drop n mem)\<rparr>"

lemma byte_env_ok: "env_ok (byte_env :: 's recv_env)"
proof -
  have u0: "u32 0 = 0" "u32 (- 1) = 4294967295" by (simp_all add: u32_def)
  have "u32 (int (unat b)) = int (unat b)" for b :: byte
    using unsigned_less [of b, where 'a = int] by (simp add: u32_def del: unsigned_less)
  moreover have "framer (pkg_len (byte_env :: 's recv_env))"
    by unfold_locales (auto simp: u0 pkg_len_def byte_env_def byte_len_def split: list.splits)
  ultimately show ?thesis
    by (auto simp: env_ok_def byte_env_def copy_ok_def byte_len_def RCVBUFMAX_def u32_def uint_0_iff split: list.splits)
qed

lemma recv_all_packages_witness:
  "\<exists>k. recv_all byte_env (\<lambda>p s. Some (None, s @ [p])) (\<lambda>s. False) [1, 2, 1, 1, 1, 1] [2, 7, 3, 8, 9, 5] in_start [] =
     Some (True, [], k, [[2, 7], [3, 8, 9]]) \<and> li_pending k = [5]"
proof -
  have fr: "frames (pkg_len (byte_env :: byte list list recv_env)) [2, 7, 3, 8, 9, 5] = ([[2, 7], [3, 8, 9]], Incomplete [5])"
    by (simp add: frames.simps pkg_len_def byte_env_def byte_len_def RCVBUFMAX_def u32_def)
  show ?thesis
    using recv_all_packages [of "byte_env :: byte list list recv_env" "\<lambda>s. False" "[1, 2, 1, 1, 1, 1]" "[2, 7, 3, 8, 9, 5]" "\<lambda>p s. s @ [p]" "[]",
        OF byte_env_ok, unfolded fr] by simp
qed

end
