(* ===== verification/AsyncSend.thy ===== *)
theory AsyncSend
  imports AsyncLink "HOL-Library.Sublist"
begin

text \<open>
  The sending side of a connection of the asynchronous server framework: \<^verbatim>\<open>send_pkg\<close>, \<^verbatim>\<open>handle_output\<close> and \<^verbatim>\<open>shut\<close> of
  \<^verbatim>\<open>c_tcp_socket\<close> and \<^verbatim>\<open>c_tcp_linker\<close>, which differ in the limit on the number of buffers. What the network takes,
  whether there is memory for a buffer and whether \<^verbatim>\<open>epoll_ctl\<close> succeeds are answers of the environment.
\<close>

section \<open>Buffers\<close>

text \<open>\<^verbatim>\<open>BUF_LEN\<close>: 8192 bytes less the head of a buffer.\<close>

definition BUF_LEN :: nat where "BUF_LEN = 8188"
definition MAX_SEND_LIST_SIZE :: nat where "MAX_SEND_LIST_SIZE = 1024"

datatype sent = Took nat | Took_none | Send_again | Send_failed

record 'e send_env =
  se_send :: "byte list \<Rightarrow> 'e \<Rightarrow> sent \<times> 'e"
  se_mem :: "'e \<Rightarrow> bool \<times> 'e"
  se_ctl :: "'e \<Rightarrow> bool \<times> 'e"

text \<open>What is still to be sent.\<close>

definition lo_pending :: "link_out \<Rightarrow> byte list" where
  "lo_pending k = drop (lo_send_pos k) (concat (lo_send k))"

text \<open>The data goes into the last buffer and into new ones; the flag says whether there was memory for all of it.\<close>

function fill :: "'e send_env \<Rightarrow> byte list \<Rightarrow> byte list list \<Rightarrow> 'e \<Rightarrow> bool \<times> byte list list \<times> 'e" where
  "fill env data bufs e =
     (let room = BUF_LEN - length (last bufs); n = (if room \<ge> length data then length data else room);
          bufs1 = butlast bufs @ [last bufs @ take n data]
      in if n < length data then
           (case se_mem env e of (ok, e1) \<Rightarrow>
              if ok then fill env (drop n data) (bufs1 @ [[]]) e1 else (False, bufs1, e1))
         else (True, bufs1, e))"
  by pat_completeness auto
termination
  by (relation "measure (\<lambda>(env, data, bufs, e). 2 * length data + (if length (last bufs) \<ge> BUF_LEN then 1 else 0))")
    (auto simp: BUF_LEN_def split: if_splits)

function new_bufs :: "'e send_env \<Rightarrow> byte list \<Rightarrow> byte list list \<Rightarrow> 'e \<Rightarrow> bool \<times> byte list list \<times> 'e" where
  "new_bufs env data bufs e =
     (case se_mem env e of (ok, e1) \<Rightarrow>
        if \<not> ok then (False, bufs, e1)
        else let n = (if BUF_LEN > length data then length data else BUF_LEN); bufs1 = bufs @ [take n data]
             in if n = length data then (True, bufs1, e1) else new_bufs env (drop n data) bufs1 e1)"
  by pat_completeness auto
termination
  by (relation "measure (\<lambda>(env, data, bufs, e). length data)") (auto simp: BUF_LEN_def split: if_splits)

declare fill.simps [simp del] new_bufs.simps [simp del]

section \<open>The operations\<close>

text \<open>\<^verbatim>\<open>send_pkg\<close>: the flag is false where \<^verbatim>\<open>handle_error\<close> is called, the bytes are those the network takes, and \<open>None\<close> is a
  \<^verbatim>\<open>send\<close> that takes more than it is given, or nothing, where the code looks at an \<^verbatim>\<open>errno\<close> it does not set.
  The limit on the number of buffers is that of \<^verbatim>\<open>c_tcp_socket\<close>; \<^verbatim>\<open>c_tcp_linker\<close> has none.\<close>

definition send_pkg :: "nat option \<Rightarrow> 'e send_env \<Rightarrow> byte list \<Rightarrow> link_out \<Rightarrow> 'e \<Rightarrow> (bool \<times> byte list \<times> link_out \<times> 'e) option" where
  "send_pkg limit env data k e =
     (if lo_send k \<noteq> [] then
        (if (case limit of Some n \<Rightarrow> length (lo_send k) \<ge> n | None \<Rightarrow> False) then Some (True, [], k, e)
         else case fill env data (lo_send k) e of (ok, bufs, e1) \<Rightarrow> Some (ok, [], k\<lparr>lo_send := bufs\<rparr>, e1))
      else
        let queue = (\<lambda>p e1. case new_bufs env (drop p data) [] e1 of (ok, bufs, e2) \<Rightarrow>
              if ok then (case se_ctl env e2 of (ok2, e3) \<Rightarrow> Some (ok2, take p data, k\<lparr>lo_send := bufs\<rparr>, e3))
              else Some (False, take p data, k\<lparr>lo_send := bufs\<rparr>, e2))
        in (case se_send env data e of (r, e1) \<Rightarrow>
             case r of
               Took n \<Rightarrow> if n = 0 \<or> n > length data then None
                         else if n = length data then Some (True, data, k, e1)
                         else queue n e1
             | Took_none \<Rightarrow> None
             | Send_again \<Rightarrow> queue 0 e1
             | Send_failed \<Rightarrow> Some (False, [], k, e1)))"

text \<open>The loop of \<^verbatim>\<open>handle_output\<close>, with a result where it returns, and \<^verbatim>\<open>handle_output\<close>.\<close>

function out_loop :: "'e send_env \<Rightarrow> link_out \<Rightarrow> 'e \<Rightarrow> (bool option \<times> byte list \<times> link_out \<times> 'e) option" where
  "out_loop env k e =
     (case lo_send k of
        [] \<Rightarrow> Some (None, [], k, e)
      | buf # bufs \<Rightarrow>
          (case se_send env (drop (lo_send_pos k) buf) e of (r, e1) \<Rightarrow>
             case r of
               Took n \<Rightarrow>
                 if n = 0 \<or> n > length buf - lo_send_pos k then None
                 else map_option (\<lambda>(b, bs, k1, e2). (b, take n (drop (lo_send_pos k) buf) @ bs, k1, e2))
                   (out_loop env (if lo_send_pos k + n = length buf then k\<lparr>lo_send := bufs, lo_send_pos := 0\<rparr>
                                  else k\<lparr>lo_send_pos := lo_send_pos k + n\<rparr>) e1)
             | Took_none \<Rightarrow> Some (Some False, [], k, e1)
             | Send_again \<Rightarrow> Some (Some True, [], k, e1)
             | Send_failed \<Rightarrow> Some (Some False, [], k, e1)))"
  by pat_completeness auto
termination
  by (relation "measures [\<lambda>(env, k, e). length (lo_send k), \<lambda>(env, k, e). length (hd (lo_send k)) - lo_send_pos k]") auto

declare out_loop.simps [simp del]

definition handle_output :: "'e send_env \<Rightarrow> link_out \<Rightarrow> 'e \<Rightarrow> (bool \<times> byte list \<times> link_out \<times> 'e) option" where
  "handle_output env k e =
     map_option (\<lambda>(b, bs, k1, e1).
       case b of Some r \<Rightarrow> (r, bs, k1, e1)
       | None \<Rightarrow> if lo_closed k1 then (False, bs, k1, e1) else (case se_ctl env e1 of (ok, e2) \<Rightarrow> (ok, bs, k1, e2)))
     (out_loop env k e)"

text \<open>\<^verbatim>\<open>shut\<close>: true where the connection stays until all is sent.\<close>

definition shut :: "link_out \<Rightarrow> bool \<times> link_out" where
  "shut k = (if lo_send k \<noteq> [] then (True, k\<lparr>lo_closed := True\<rparr>) else (False, k))"

section \<open>Nothing is lost or changed\<close>

text \<open>No buffer is empty or overfull.\<close>

definition full_ok :: "byte list list \<Rightarrow> bool" where
  "full_ok bufs \<longleftrightarrow> (\<forall>b \<in> set bufs. b \<noteq> [] \<and> length b \<le> BUF_LEN)"

text \<open>The first buffer is not sent in whole.\<close>

definition out_ok :: "link_out \<Rightarrow> bool" where
  "out_ok k \<longleftrightarrow> full_ok (lo_send k) \<and>
     (case lo_send k of [] \<Rightarrow> lo_send_pos k = 0 | b # _ \<Rightarrow> lo_send_pos k < length b)"

lemma BUF_LEN_pos [simp]: "0 < BUF_LEN"
  by (simp add: BUF_LEN_def)

lemma full_ok_simps [simp]: "full_ok []" "full_ok (b # bufs) \<longleftrightarrow> b \<noteq> [] \<and> length b \<le> BUF_LEN \<and> full_ok bufs"
  "full_ok (bufs @ bufs') \<longleftrightarrow> full_ok bufs \<and> full_ok bufs'"
  by (auto simp: full_ok_def)

lemma fill_ok:
  "data \<noteq> [] \<Longrightarrow> bufs \<noteq> [] \<Longrightarrow> full_ok (butlast bufs) \<Longrightarrow> length (last bufs) \<le> BUF_LEN \<Longrightarrow>
   fill env data bufs e = (ok, bufs1, e1) \<Longrightarrow>
   \<exists>more ext tl. concat bufs1 = concat bufs @ more \<and> prefix more data \<and> (ok \<longrightarrow> more = data \<and> full_ok bufs1) \<and>
     bufs1 = butlast bufs @ (last bufs @ ext) # tl"
proof (induction env data bufs e arbitrary: ok bufs1 e1 rule: fill.induct)
  case (1 env data bufs e)
  define n where "n = (if BUF_LEN - length (last bufs) \<ge> length data then length data else BUF_LEN - length (last bufs))"
  define mid where "mid = butlast bufs @ [last bufs @ take n data]"
  note eq = fill.simps [of env data bufs e, unfolded Let_def, folded n_def, folded mid_def]
  have cat: "concat mid = concat bufs @ take n data"
    using 1(3) by (simp add: mid_def) (metis append_butlast_last_id concat.simps concat_append append_Nil2 append_assoc)
  have mid_eq: "mid = butlast bufs @ (last bufs @ take n data) # []" by (simp add: mid_def)
  have short: "length (last bufs @ take n data) \<le> BUF_LEN" "last bufs @ take n data \<noteq> []"
    using 1(2,5) by (auto simp: n_def split: if_splits)
  then have mid: "full_ok mid" using 1(4) by (simp add: mid_def)
  show ?case
  proof (cases "n < length data")
    case False
    then have "ok" "bufs1 = mid" "take n data = data" using 1(6) eq by auto
    then show ?thesis using cat mid by (auto simp: mid_def)
  next
    case True
    obtain m e2 where m: "se_mem env e = (m, e2)" by fastforce
    show ?thesis
    proof (cases m)
      case False
      then have "\<not> ok" "bufs1 = mid"
        using 1(6) True m eq by simp_all
      then show ?thesis using cat take_is_prefix [of n data] mid_eq by blast
    next
      case mem: True
      then have rec: "fill env (drop n data) (mid @ [[]]) e2 = (ok, bufs1, e1)"
        using 1(6) True m eq by simp
      from 1(1) [OF refl n_def mid_def True m [symmetric] mem _ _ _ _ rec]
      have "\<exists>more ext tl. concat bufs1 = concat (mid @ [[]]) @ more \<and> prefix more (drop n data) \<and> (ok \<longrightarrow> more = drop n data \<and> full_ok bufs1) \<and>
         bufs1 = butlast (mid @ [[]]) @ (last (mid @ [[]]) @ ext) # tl" using True mid by simp
      moreover have "concat (mid @ [[]]) = concat mid" "butlast (mid @ [[]]) = mid" "last (mid @ [[]]) @ ext = ext" for ext :: "byte list"
        by simp_all
      ultimately obtain more ext tl where r: "concat bufs1 = concat mid @ more" "prefix more (drop n data)" "ok \<longrightarrow> more = drop n data \<and> full_ok bufs1"
        "bufs1 = mid @ ext # tl" by metis
      have "prefix (take n data @ more) data" using r(2) by (metis append_take_drop_id same_prefix_prefix)
      moreover have "concat bufs1 = concat bufs @ (take n data @ more)" using r(1) cat by simp
      moreover have "bufs1 = butlast bufs @ (last bufs @ take n data) # (ext # tl)" using r(4) by (simp add: mid_def)
      ultimately show ?thesis using r(3) append_take_drop_id [of n data] by metis
    qed
  qed
qed

lemma new_bufs_ok:
  "data \<noteq> [] \<Longrightarrow> full_ok bufs \<Longrightarrow> new_bufs env data bufs e = (ok, bufs1, e1) \<Longrightarrow>
   \<exists>more. concat bufs1 = concat bufs @ more \<and> prefix more data \<and> full_ok bufs1 \<and> (ok \<longrightarrow> more = data)"
proof (induction env data bufs e arbitrary: ok bufs1 e1 rule: new_bufs.induct)
  case (1 env data bufs e)
  define n where "n = (if BUF_LEN > length data then length data else BUF_LEN)"
  obtain m e2 where m: "se_mem env e = (m, e2)" by fastforce
  note eq = new_bufs.simps [of env data bufs e, unfolded m Let_def, folded n_def]
  have mid: "full_ok (bufs @ [take n data])" using 1(2,3) by (auto simp: n_def)
  show ?case
  proof (cases m)
    case False
    then show ?thesis using 1(3,4) eq by simp
  next
    case mem: True
    show ?thesis
    proof (cases "n = length data")
      case True
      then show ?thesis using 1(4) eq mem mid by auto
    next
      case False
      then have "drop n data \<noteq> []" by (simp add: n_def split: if_splits)
      moreover have "new_bufs env (drop n data) (bufs @ [take n data]) e2 = (ok, bufs1, e1)" using 1(4) eq mem False by simp
      ultimately obtain more where r: "concat bufs1 = concat (bufs @ [take n data]) @ more" "prefix more (drop n data)" "full_ok bufs1" "ok \<longrightarrow> more = drop n data"
        using 1(1) [OF m [symmetric] _ n_def refl False _ mid] mem by blast
      have "prefix (take n data @ more) data" using r(2) by (metis append_take_drop_id same_prefix_prefix)
      then show ?thesis using r by (intro exI [of _ "take n data @ more"]) auto
    qed
  qed
qed

text \<open>What the system promises of \<^verbatim>\<open>send\<close>: of data that is not empty it takes some or gives an error.\<close>

definition se_ok :: "'e send_env \<Rightarrow> bool" where
  "se_ok env \<longleftrightarrow> (\<forall>data e. data \<noteq> [] \<longrightarrow>
     (case fst (se_send env data e) of Took n \<Rightarrow> 0 < n \<and> n \<le> length data | Took_none \<Rightarrow> False | _ \<Rightarrow> True))"

lemma se_okD:
  assumes "se_ok env" "data \<noteq> []" "se_send env data e = (r, e1)"
  shows "r = Took n \<Longrightarrow> 0 < n \<and> n \<le> length data" "r \<noteq> Took_none"
  using assms(1) [unfolded se_ok_def, rule_format, OF assms(2), of e] assms(3) by auto

text \<open>The network may fail.\<close>

definition refuses :: "'e send_env \<Rightarrow> bool" where
  "refuses env \<longleftrightarrow> (\<exists>data e. fst (se_send env data e) = Send_failed)"

lemma out_loop_ok:
  "se_ok env \<Longrightarrow> out_ok k \<Longrightarrow> \<exists>b bs k1 e1. out_loop env k e = Some (b, bs, k1, e1) \<and> bs @ lo_pending k1 = lo_pending k \<and> out_ok k1 \<and>
    lo_closed k1 = lo_closed k \<and> (b = None \<longrightarrow> lo_send k1 = []) \<and> (b \<noteq> None \<longrightarrow> lo_send k1 \<noteq> []) \<and>
    (b = Some False \<longrightarrow> refuses env)"
proof (induction env k e rule: out_loop.induct)
  case (1 env k e)
  show ?case
  proof (cases "lo_send k")
    case Nil
    then show ?thesis using 1(3) by (auto simp: out_loop.simps [of env k e])
  next
    case (Cons buf bufs)
    then have at: "lo_send_pos k < length buf" using 1(3) by (simp add: out_ok_def)
    let ?data = "drop (lo_send_pos k) buf"
    obtain r e1 where r: "se_send env ?data e = (r, e1)" by fastforce
    show ?thesis
    proof (cases r)
      case (Took n)
      have n: "0 < n" "n \<le> length buf - lo_send_pos k" using se_okD(1) [OF 1(2) _ r Took] at by simp_all
      let ?k = "if lo_send_pos k + n = length buf then k\<lparr>lo_send := bufs, lo_send_pos := 0\<rparr> else k\<lparr>lo_send_pos := lo_send_pos k + n\<rparr>"
      have k: "out_ok ?k" "lo_closed ?k = lo_closed k"
        using 1(3) Cons n by (auto simp: out_ok_def split: list.splits)
      have bounds: "\<not> (n = 0 \<or> length buf - lo_send_pos k < n)" using n by simp
      have pend: "take n ?data @ lo_pending ?k = lo_pending k"
      proof -
        have "take n ?data @ drop (lo_send_pos k + n) buf = ?data" by (metis add.commute append_take_drop_id drop_drop)
        then show ?thesis using Cons n at by (auto simp: lo_pending_def)
      qed
      from 1(1) [OF Cons r [symmetric] Took bounds 1(2) k(1)] obtain b bs k1 e2 where
        "out_loop env ?k e1 = Some (b, bs, k1, e2)" "bs @ lo_pending k1 = lo_pending ?k" "out_ok k1" "lo_closed k1 = lo_closed ?k"
        "b = None \<longrightarrow> lo_send k1 = []" "b \<noteq> None \<longrightarrow> lo_send k1 \<noteq> []" "b = Some False \<longrightarrow> refuses env" by blast
      moreover have "out_loop env k e = map_option (\<lambda>(b, bs, k1, e2). (b, take n ?data @ bs, k1, e2)) (out_loop env ?k e1)"
        using Cons r Took n by (subst out_loop.simps) simp
      ultimately show ?thesis using k(2) pend by simp
    next
      case Took_none
      then show ?thesis using se_okD(2) [OF 1(2) _ r] at by simp
    next
      case Send_again
      then show ?thesis using Cons r 1(3) by (auto simp: out_loop.simps [of env k e])
    next
      case Send_failed
      then have "refuses env" using r unfolding refuses_def by (metis fst_conv)
      then show ?thesis using Cons r 1(3) Send_failed by (auto simp: out_loop.simps [of env k e])
    qed
  qed
qed

lemma handle_output_ok:
  assumes "se_ok env" "out_ok k"
  shows "\<exists>b bs k1 e1. handle_output env k e = Some (b, bs, k1, e1) \<and> bs @ lo_pending k1 = lo_pending k \<and> out_ok k1 \<and>
    lo_closed k1 = lo_closed k"
proof -
  from out_loop_ok [OF assms, of e] obtain b bs k1 e1 where
    "out_loop env k e = Some (b, bs, k1, e1)" "bs @ lo_pending k1 = lo_pending k" "out_ok k1" "lo_closed k1 = lo_closed k" by blast
  then show ?thesis by (cases b; cases "se_ctl env e1") (auto simp: handle_output_def)
qed

text \<open>Whether \<^verbatim>\<open>send_pkg\<close> takes the data.\<close>

definition drops :: "nat option \<Rightarrow> link_out \<Rightarrow> bool" where
  "drops limit k \<longleftrightarrow> lo_send k \<noteq> [] \<and> (case limit of Some n \<Rightarrow> length (lo_send k) \<ge> n | None \<Rightarrow> False)"

lemma pending_grow: "out_ok k \<Longrightarrow> concat bufs = concat (lo_send k) @ ext \<Longrightarrow> lo_pending (k\<lparr>lo_send := bufs\<rparr>) = lo_pending k @ ext"
  by (auto simp: lo_pending_def out_ok_def split: list.splits)

lemma send_pkg_ok:
  assumes env: "se_ok env" and k: "out_ok k" and data: "data \<noteq> []"
  shows "\<exists>ok bs k1 e1. send_pkg limit env data k e = Some (ok, bs, k1, e1) \<and> lo_closed k1 = lo_closed k \<and>
    prefix (bs @ lo_pending k1) (lo_pending k @ (if drops limit k then [] else data)) \<and>
    (ok \<longrightarrow> out_ok k1 \<and> bs @ lo_pending k1 = lo_pending k @ (if drops limit k then [] else data))"
proof (cases "lo_send k")
  case (Cons b bufs)
  show ?thesis
  proof (cases "drops limit k")
    case True
    then show ?thesis using Cons k by (auto simp: send_pkg_def drops_def)
  next
    case False
    obtain ok bufs1 e1 where f: "fill env data (lo_send k) e = (ok, bufs1, e1)" by (metis prod_cases3)
    have full: "full_ok (butlast (lo_send k))" "length (last (lo_send k)) \<le> BUF_LEN" "lo_send k \<noteq> []"
      using k Cons unfolding out_ok_def full_ok_def by (auto dest: in_set_butlastD)
    from fill_ok [OF data full(3,1,2) f] obtain more ext tl where m: "concat bufs1 = concat (lo_send k) @ more" "prefix more data"
      "ok \<longrightarrow> more = data \<and> full_ok bufs1" "bufs1 = butlast (lo_send k) @ (last (lo_send k) @ ext) # tl" by blast
    have "send_pkg limit env data k e = Some (ok, [], k\<lparr>lo_send := bufs1\<rparr>, e1)"
      using False Cons f by (auto simp: send_pkg_def drops_def)
    moreover have "ok \<longrightarrow> out_ok (k\<lparr>lo_send := bufs1\<rparr>)"
      using m(3,4) k Cons by (cases bufs) (auto simp: out_ok_def)
    ultimately show ?thesis using False m(2,3) pending_grow [OF k m(1)] by auto
  qed
next
  case Nil
  then have pos: "lo_send_pos k = 0" and nodrop: "\<not> drops limit k" and pend: "lo_pending k = []"
    using k by (auto simp: out_ok_def drops_def lo_pending_def)
  define queue where "queue = (\<lambda>p e1. case new_bufs env (drop p data) [] e1 of (ok, bufs, e2) \<Rightarrow>
    if ok then (case se_ctl env e2 of (ok2, e3) \<Rightarrow> Some (ok2, take p data, k\<lparr>lo_send := bufs\<rparr>, e3))
    else Some (False, take p data, k\<lparr>lo_send := bufs\<rparr>, e2))"
  have queue: "\<exists>ok k1 e2. queue n e1 = Some (ok, take n data, k1, e2) \<and> lo_closed k1 = lo_closed k \<and>
      prefix (take n data @ lo_pending k1) data \<and> (ok \<longrightarrow> out_ok k1 \<and> take n data @ lo_pending k1 = data)" if n: "n < length data" for n e1
  proof -
    obtain ok bufs e2 where b: "new_bufs env (drop n data) [] e1 = (ok, bufs, e2)" by (metis prod_cases3)
    from new_bufs_ok [OF _ _ b] n have m: "prefix (concat bufs) (drop n data)" "full_ok bufs" "ok \<longrightarrow> concat bufs = drop n data" by auto
    have "prefix (take n data @ concat bufs) data" using m(1) by (metis append_take_drop_id same_prefix_prefix)
    moreover have "ok \<longrightarrow> out_ok (k\<lparr>lo_send := bufs\<rparr>)" using m(2) pos n m(3) by (cases bufs) (auto simp: out_ok_def)
    ultimately show ?thesis using b m(3) pos
      by (cases "se_ctl env e2") (auto simp: queue_def lo_pending_def)
  qed
  obtain r e1 where r: "se_send env data e = (r, e1)" by fastforce
  have send: "send_pkg limit env data k e = (case r of
      Took n \<Rightarrow> if n = 0 \<or> n > length data then None else if n = length data then Some (True, data, k, e1) else queue n e1
    | Took_none \<Rightarrow> None | Send_again \<Rightarrow> queue 0 e1 | Send_failed \<Rightarrow> Some (False, [], k, e1))"
    unfolding queue_def using Nil r by (simp add: send_pkg_def Let_def)
  show ?thesis
  proof (cases r)
    case (Took n)
    then have n: "0 < n" "n \<le> length data" using se_okD(1) [OF env data r] by simp_all
    show ?thesis
    proof (cases "n = length data")
      case True
      then show ?thesis using send Took n k pend nodrop by auto
    next
      case False
      then show ?thesis using send Took n queue [of n e1] pend nodrop by auto
    qed
  next
    case Took_none
    then show ?thesis using se_okD(2) [OF env data r] by simp
  next
    case Send_again
    then show ?thesis using send queue [of 0 e1] data pend nodrop by auto
  next
    case Send_failed
    then show ?thesis using send pend nodrop by auto
  qed
qed

text \<open>Where nothing fails, \<^verbatim>\<open>send_pkg\<close> does not end the connection.\<close>

definition never_fails :: "'e send_env \<Rightarrow> bool" where
  "never_fails env \<longleftrightarrow> \<not> refuses env \<and> (\<forall>e. fst (se_mem env e) \<and> fst (se_ctl env e))"

lemma never_failsD:
  assumes "never_fails env"
  shows "se_mem env e = (b, e1) \<Longrightarrow> b" "se_ctl env e = (b, e1) \<Longrightarrow> b" "se_send env data e \<noteq> (Send_failed, e1)"
  using assms unfolding never_fails_def refuses_def by (metis fst_conv)+

lemma fill_alive: "never_fails env \<Longrightarrow> fill env data bufs e = (ok, bufs1, e1) \<Longrightarrow> ok"
proof (induction env data bufs e arbitrary: ok bufs1 e1 rule: fill.induct)
  case (1 env data bufs e)
  obtain m e2 where m: "se_mem env e = (m, e2)" by fastforce
  with never_failsD(1) [OF 1(2)] have "m" by blast
  with 1(1) [OF refl refl refl _ m [symmetric] this 1(2)] 1(3) m show ?case
    by (auto simp: fill.simps [of env data bufs e] Let_def split: if_splits)
qed

lemma new_bufs_alive: "never_fails env \<Longrightarrow> new_bufs env data bufs e = (ok, bufs1, e1) \<Longrightarrow> ok"
proof (induction env data bufs e arbitrary: ok bufs1 e1 rule: new_bufs.induct)
  case (1 env data bufs e)
  obtain m e2 where m: "se_mem env e = (m, e2)" by fastforce
  with never_failsD(1) [OF 1(2)] have "m" by blast
  with 1 m show ?case by (auto simp: new_bufs.simps [of env data bufs e] Let_def split: if_splits)
qed

lemma send_pkg_alive:
  assumes "never_fails env" "send_pkg limit env data k e = Some (ok, bs, k1, e1)"
  shows "ok"
  using assms never_failsD [OF assms(1)]
  by (auto simp: send_pkg_def Let_def dest: fill_alive new_bufs_alive split: if_splits prod.splits sent.splits option.splits)

section \<open>Runs\<close>

text \<open>The calls on a connection until one of them ends it. The result says whether it still stands, what the network
  has taken and what \<^verbatim>\<open>send_pkg\<close> was given and did not drop.\<close>

datatype out_op = Send_pkg "byte list" | Writable | Shut

fun out_step :: "nat option \<Rightarrow> 'e send_env \<Rightarrow> out_op \<Rightarrow> link_out \<Rightarrow> 'e \<Rightarrow> (bool \<times> byte list \<times> byte list \<times> link_out \<times> 'e) option" where
  "out_step limit env (Send_pkg data) k e =
     map_option (\<lambda>(ok, bs, k1, e1). (ok, bs, if drops limit k then [] else data, k1, e1)) (send_pkg limit env data k e)"
| "out_step limit env Writable k e = map_option (\<lambda>(ok, bs, k1, e1). (ok, bs, [], k1, e1)) (handle_output env k e)"
| "out_step limit env Shut k e = (case shut k of (ok, k1) \<Rightarrow> Some (ok, [], [], k1, e))"

fun out_run :: "nat option \<Rightarrow> 'e send_env \<Rightarrow> out_op list \<Rightarrow> link_out \<Rightarrow> 'e \<Rightarrow> (bool \<times> byte list \<times> byte list \<times> link_out \<times> 'e) option" where
  "out_run limit env [] k e = Some (True, [], [], k, e)"
| "out_run limit env (x # xs) k e =
     Option.bind (out_step limit env x k e) (\<lambda>(ok, bs, acc, k1, e1).
       if ok then map_option (\<lambda>(ok', bs', acc', k2, e2). (ok', bs @ bs', acc @ acc', k2, e2)) (out_run limit env xs k1 e1)
       else Some (False, bs, acc, k1, e1))"

lemma out_step_ok:
  assumes "se_ok env" "out_ok k" "x \<noteq> Send_pkg []"
  shows "\<exists>ok bs acc k1 e1. out_step limit env x k e = Some (ok, bs, acc, k1, e1) \<and> prefix (bs @ lo_pending k1) (lo_pending k @ acc) \<and>
    (ok \<longrightarrow> out_ok k1 \<and> bs @ lo_pending k1 = lo_pending k @ acc)"
proof (cases x)
  case (Send_pkg data)
  with assms(3) have "data \<noteq> []" by simp
  from send_pkg_ok [OF assms(1,2) this, of limit e] show ?thesis using Send_pkg by auto
next
  case Writable
  from handle_output_ok [OF assms(1,2), of e] show ?thesis using Writable by auto
next
  case Shut
  then show ?thesis using assms(2) by (cases "lo_send k") (auto simp: shut_def out_ok_def lo_pending_def)
qed

lemma out_run_ok:
  assumes "se_ok env"
  shows "out_ok k \<Longrightarrow> Send_pkg [] \<notin> set xs \<Longrightarrow>
    \<exists>ok bs acc k1 e1. out_run limit env xs k e = Some (ok, bs, acc, k1, e1) \<and> prefix bs (lo_pending k @ acc) \<and>
      (ok \<longrightarrow> bs @ lo_pending k1 = lo_pending k @ acc)"
proof (induction xs arbitrary: k e)
  case (Cons x xs)
  from out_step_ok [OF assms Cons.prems(1), of x limit e] Cons.prems(2) obtain ok bs acc k1 e1 where
    s: "out_step limit env x k e = Some (ok, bs, acc, k1, e1)" "prefix (bs @ lo_pending k1) (lo_pending k @ acc)"
      "ok \<longrightarrow> out_ok k1 \<and> bs @ lo_pending k1 = lo_pending k @ acc" by auto
  show ?case
  proof (cases ok)
    case True
    with Cons.IH [of k1 e1] Cons.prems(2) s(3) obtain ok' bs' acc' k2 e2 where
      r: "out_run limit env xs k1 e1 = Some (ok', bs', acc', k2, e2)" "prefix bs' (lo_pending k1 @ acc')"
        "ok' \<longrightarrow> bs' @ lo_pending k2 = lo_pending k1 @ acc'" by auto
    have all: "bs @ (lo_pending k1 @ acc') = lo_pending k @ (acc @ acc')" using s(3) True by (metis append_assoc)
    then have "prefix (bs @ bs') (lo_pending k @ acc @ acc')" using r(2) by (metis same_prefix_prefix)
    then show ?thesis using s(1) True r(1,3) all by auto
  next
    case False
    then show ?thesis using s(1,2) append_prefixD by auto
  qed
qed auto


text \<open>A connection that is shut with data in its buffers is closed when the network has taken all of it, and not
  before, unless the network fails.\<close>

lemma shut_flushes:
  assumes "se_ok env" "\<not> refuses env" "out_ok k" "lo_send k \<noteq> []"
  shows "\<exists>bs k1 e1. shut k = (True, k\<lparr>lo_closed := True\<rparr>) \<and>
    handle_output env (k\<lparr>lo_closed := True\<rparr>) e = Some (lo_send k1 \<noteq> [], bs, k1, e1) \<and> bs @ lo_pending k1 = lo_pending k"
proof -
  have "out_ok (k\<lparr>lo_closed := True\<rparr>)" "lo_pending (k\<lparr>lo_closed := True\<rparr>) = lo_pending k"
    using assms(3) by (auto simp: out_ok_def lo_pending_def split: list.splits)
  with out_loop_ok [OF assms(1), of "k\<lparr>lo_closed := True\<rparr>" e] obtain b bs k1 e1 where
    o: "out_loop env (k\<lparr>lo_closed := True\<rparr>) e = Some (b, bs, k1, e1)" "bs @ lo_pending k1 = lo_pending k"
      "lo_closed k1" "b = None \<longrightarrow> lo_send k1 = []" "b \<noteq> None \<longrightarrow> lo_send k1 \<noteq> []" "b = Some False \<longrightarrow> refuses env" by auto
  then show ?thesis using assms(2,4)
    by (cases b) (auto simp: handle_output_def shut_def)
qed

text \<open>A sample: how many bytes each \<^verbatim>\<open>send\<close> takes, 0 where it is to be tried again.\<close>

definition slow_net :: "nat list send_env" where
  "slow_net = \<lparr>se_send = (\<lambda>data e. case e of [] \<Rightarrow> (Send_again, []) | n # ns \<Rightarrow>
       (if n = 0 then Send_again else if data = [] then Took_none else Took (min n (length data)), ns)),
     se_mem = (\<lambda>e. (True, e)), se_ctl = (\<lambda>e. (True, e))\<rparr>"

lemma slow_net_ok: "se_ok slow_net" "\<not> refuses slow_net"
  by (auto simp: se_ok_def refuses_def slow_net_def split: list.splits)

definition slow_run :: "out_op list" where
  "slow_run = [Send_pkg [1, 2, 3, 4], Send_pkg [5, 6], Writable, Shut, Writable]"

lemma slow_run_result: "out_run (Some 1024) slow_net slow_run out_start [1, 2, 0, 3] =
    Some (False, [1, 2, 3, 4, 5, 6], [1, 2, 3, 4, 5, 6], \<lparr>lo_closed = True, lo_send_pos = 0, lo_send = []\<rparr>, [])"
  by (simp add: slow_run_def slow_net_def out_start_def send_pkg_def handle_output_def shut_def drops_def BUF_LEN_def
      fill.simps new_bufs.simps out_loop.simps Let_def)


lemma shut_flushes_witness:
  "\<exists>bs k1 e1. handle_output slow_net \<lparr>lo_closed = True, lo_send_pos = 1, lo_send = [[1, 2], [3]]\<rparr> [1, 0] = Some (lo_send k1 \<noteq> [], bs, k1, e1) \<and>
    bs @ lo_pending k1 = [2, 3]"
proof -
  let ?k = "\<lparr>lo_closed = False, lo_send_pos = 1, lo_send = [[1, 2], [3]]\<rparr>"
  have "out_ok ?k" "lo_send ?k \<noteq> []" by (simp_all add: out_ok_def BUF_LEN_def)
  from shut_flushes [OF slow_net_ok this, of "[1, 0]"] show ?thesis by (simp add: lo_pending_def)
qed

end
