(* ===== verification/AsyncWork.thy ===== *)
theory AsyncWork
  imports AsyncShmq
begin

text \<open>
  The worker process of the asynchronous server framework: \<^verbatim>\<open>c_revent\<close> (\<^verbatim>\<open>async_server/src/shm_revent.cpp\<close>), which takes
  the blocks of its ring and calls the plugin, what the plugin calls to answer (\<^verbatim>\<open>net.cpp\<close>), and how the pipe wakes
  it. The functions of the plugin are parameters.
\<close>

section \<open>State\<close>

text \<open>\<open>wk_flags\<close> is \<^verbatim>\<open>g_link_flags\<close>, as long as \<^verbatim>\<open>g_max_connect\<close>; \<open>wk_plugin\<close> is what the plugin keeps.\<close>

record 'p work =
  wk_mgr :: shm_queue_mgr_t
  wk_flags :: "nat list"
  wk_plugin :: 'p

text \<open>The functions of the plugin; the second and third may be missing. \<open>None\<close> is undefined behaviour in them.\<close>

record 'p work_plugin =
  proc_pkg_cli :: "nat \<Rightarrow> byte list \<Rightarrow> 'p work \<Rightarrow> 'p work option"
  link_up_cli :: "(nat \<Rightarrow> nat \<Rightarrow> 'p work \<Rightarrow> 'p work option) option"
  link_down_cli :: "(nat \<Rightarrow> 'p work \<Rightarrow> 'p work option) option"

section \<open>Answering\<close>

definition net_send_cli :: "bool \<Rightarrow> nat \<Rightarrow> nat \<Rightarrow> byte list \<Rightarrow> 'p work \<Rightarrow> (int \<times> 'p work) option" where
  "net_send_cli mem ch fd buf w =
     (if fd \<ge> length (wk_flags w) \<or> wk_flags w ! fd = 0 \<or> buf = [] then Some (-1, w)
      else map_option (\<lambda>(r, g). (int (length buf), w\<lparr>wk_mgr := g\<rparr>))
        (send_push mem ch \<lparr>sb_fd = fd, sb_id = wk_flags w ! fd, sb_len = length buf, sb_type = PROTO_BLOCK\<rparr> buf True (wk_mgr w)))"

definition net_close_cli :: "bool \<Rightarrow> nat \<Rightarrow> nat \<Rightarrow> 'p work \<Rightarrow> 'p work option" where
  "net_close_cli mem ch fd w =
     (if fd \<ge> length (wk_flags w) \<or> wk_flags w ! fd = 0 then Some w
      else map_option (\<lambda>(r, g). w\<lparr>wk_mgr := g, wk_flags := (wk_flags w)[fd := 0]\<rparr>)
        (send_push mem ch \<lparr>sb_fd = fd, sb_id = wk_flags w ! fd, sb_len = 0, sb_type = CLOSE_BLOCK\<rparr> [] True (wk_mgr w)))"

section \<open>Taking the blocks\<close>

text \<open>One block. A login has the address of the client, of four bytes, for data.\<close>

definition do_block :: "'p work_plugin \<Rightarrow> shm_block_t \<Rightarrow> byte list \<Rightarrow> 'p work \<Rightarrow> 'p work option" where
  "do_block pl sb buf w =
     (let fd = sb_fd sb; w1 = w\<lparr>wk_flags := (wk_flags w)[fd := sb_id sb]\<rparr>
      in if sb_type sb = PROTO_BLOCK then
           (if fd \<ge> length (wk_flags w) then None else proc_pkg_cli pl fd buf w1)
         else if sb_type sb = CLOSE_BLOCK then
           (if fd \<ge> length (wk_flags w) then None
            else if wk_flags w ! fd \<noteq> 0 then
              map_option (\<lambda>w2. w2\<lparr>wk_flags := (wk_flags w2)[fd := 0]\<rparr>)
                (case link_down_cli pl of Some f \<Rightarrow> f fd w | None \<Rightarrow> Some w)
            else Some w)
         else if sb_type sb = LOGIN_BLOCK then
           (if fd \<ge> length (wk_flags w) then None
            else case link_up_cli pl of
                Some f \<Rightarrow> if length buf < 4 then None else f fd (rd_le 0 4 buf) w1
              | None \<Rightarrow> Some w1)
         else Some w)"

definition set_idle :: "bool \<Rightarrow> nat \<Rightarrow> shm_queue_mgr_t \<Rightarrow> shm_queue_mgr_t" where
  "set_idle b ch g = g\<lparr>recv_queue := (recv_queue g)[ch := (recv_queue g ! ch)\<lparr>sq_idle := b\<rparr>]\<rparr>"

fun take_blocks :: "'p work_plugin \<Rightarrow> bool \<Rightarrow> nat \<Rightarrow> nat \<Rightarrow> 'p work \<Rightarrow> 'p work option" where
  "take_blocks pl mem ch 0 w = Some w"
| "take_blocks pl mem ch (Suc n) w =
     Option.bind (recv_pull mem ch (wk_mgr w)) (\<lambda>(r, b, g).
       case b of
         Some (sb, buf) \<Rightarrow>
           Option.bind (do_block pl sb buf (w\<lparr>wk_mgr := set_idle False ch g\<rparr>)) (take_blocks pl mem ch n)
       | None \<Rightarrow> Some (w\<lparr>wk_mgr := g\<rparr>))"

text \<open>\<^verbatim>\<open>handle_input\<close>, at most 1024 blocks.\<close>

definition revent_input :: "'p work_plugin \<Rightarrow> bool \<Rightarrow> nat \<Rightarrow> 'p work \<Rightarrow> 'p work option" where
  "revent_input pl mem ch w =
     (let g = wk_mgr w
      in if ch \<ge> length (recv_queue g) then None
         else map_option (\<lambda>w1. w1\<lparr>wk_mgr := set_idle True ch (wk_mgr w1)\<rparr>)
           (take_blocks pl mem ch 1024 (w\<lparr>wk_mgr := g\<lparr>recv_queue := (recv_queue g)[ch := pruge_pipe (recv_queue g ! ch)]\<rparr>\<rparr>)))"

section \<open>Choosing a worker\<close>

text \<open>\<^verbatim>\<open>get_idle_work_idx_conn\<close> with \<open>prev\<close> for \<^verbatim>\<open>g_last_idle_idx\<close>: its result is the new one.\<close>

fun seek_idle :: "nat \<Rightarrow> shm_queue_t list \<Rightarrow> nat \<Rightarrow> nat option" where
  "seek_idle 0 qs i = None"
| "seek_idle (Suc n) qs i =
     (let j = (i + 1) mod length qs in if sq_idle (qs ! j) then Some j else seek_idle n qs j)"

definition get_idle_work_idx_conn :: "shm_queue_mgr_t \<Rightarrow> nat \<Rightarrow> nat option" where
  "get_idle_work_idx_conn g prev =
     (let n = length (recv_queue g)
      in if n = 0 then None
         else case seek_idle n (recv_queue g) prev of Some j \<Rightarrow> Some j | None \<Rightarrow> Some ((prev + 1) mod n))"

section \<open>Lemmas on the search\<close>

lemma seek_idle_None: "seek_idle n qs i = None \<longleftrightarrow> (\<forall>k \<in> {1..n}. \<not> sq_idle (qs ! ((i + k) mod length qs)))"
proof (induction n arbitrary: i)
  case (Suc n)
  have "(\<forall>k \<in> {1..Suc n}. P (i + k)) \<longleftrightarrow> P (i + 1) \<and> (\<forall>k \<in> {1..n}. P (i + 1 + k))" for P
  proof (intro iffI conjI ballI)
    fix k assume p: "P (i + 1) \<and> (\<forall>k \<in> {1..n}. P (i + 1 + k))" and k: "k \<in> {1..Suc n}"
    show "P (i + k)"
    proof (cases "k = 1")
      case False
      then have "k - 1 \<in> {1..n}" "i + 1 + (k - 1) = i + k" using k by auto
      then show ?thesis using p by metis
    qed (use p in simp)
  next
    assume p: "\<forall>k \<in> {1..Suc n}. P (i + k)"
    show "P (i + 1)" using p [rule_format, of 1] by simp
    show "P (i + 1 + k)" if "k \<in> {1..n}" for k using p [rule_format, of "Suc k"] that by simp
  qed
  from this [of "\<lambda>m. \<not> sq_idle (qs ! (m mod length qs))"] show ?case
    by (simp add: Suc.IH Let_def mod_simps)
qed simp

lemma seek_idle_Some:
  "seek_idle n qs i = Some j \<Longrightarrow> \<exists>k \<in> {1..n}. j = (i + k) mod length qs \<and> sq_idle (qs ! j) \<and>
     (\<forall>m \<in> {1..<k}. \<not> sq_idle (qs ! ((i + m) mod length qs)))"
proof (induction n arbitrary: i)
  case (Suc n)
  show ?case
  proof (cases "sq_idle (qs ! ((i + 1) mod length qs))")
    case True
    then show ?thesis using Suc.prems by (intro bexI [of _ 1]) (auto simp: Let_def)
  next
    case False
    with Suc.prems have "seek_idle n qs ((i + 1) mod length qs) = Some j" by (simp add: Let_def)
    from Suc.IH [OF this] obtain k where k: "k \<in> {1..n}" "j = ((i + 1) mod length qs + k) mod length qs" "sq_idle (qs ! j)"
      "\<forall>m \<in> {1..<k}. \<not> sq_idle (qs ! (((i + 1) mod length qs + m) mod length qs))" by auto
    have "\<not> sq_idle (qs ! ((i + m) mod length qs))" if "m \<in> {1..<Suc k}" for m
    proof (cases "m = 1")
      case False
      with that obtain m' where "m = Suc m'" "m' \<in> {1..<k}" by (cases m) auto
      then show ?thesis using k(4) by (simp add: mod_simps)
    qed (use \<open>\<not> sq_idle (qs ! ((i + 1) mod length qs))\<close> in simp)
    then show ?thesis using k(1-3) by (intro bexI [of _ "Suc k"]) (simp_all add: mod_simps)
  qed
qed simp

lemma idle_work_ok:
  assumes "recv_queue g \<noteq> []"
  shows "\<exists>j. get_idle_work_idx_conn g prev = Some j \<and> j < length (recv_queue g) \<and>
    ((\<exists>q \<in> set (recv_queue g). sq_idle q) \<longrightarrow> sq_idle (recv_queue g ! j))"
proof (cases "seek_idle (length (recv_queue g)) (recv_queue g) prev")
  case (Some j)
  from seek_idle_Some [OF this] have "sq_idle (recv_queue g ! j)" "j < length (recv_queue g)" using assms by auto
  then show ?thesis using Some assms by (simp add: get_idle_work_idx_conn_def Let_def)
next
  case None
  let ?n = "length (recv_queue g)"
  have "\<not> sq_idle (recv_queue g ! j)" if "j < ?n" for j
  proof -
    have r: "prev mod ?n < ?n" using assms by simp
    define k where "k = (if prev mod ?n < j then j - prev mod ?n else j + ?n - prev mod ?n)"
    have k: "k \<in> {1..?n}" "prev mod ?n + k = j \<or> prev mod ?n + k = j + ?n" using r that by (auto simp: k_def)
    have "(prev + k) mod ?n = (prev mod ?n + k) mod ?n" by (simp add: mod_simps)
    also have "\<dots> = j" using k(2) that by (metis mod_add_self2 mod_less)
    finally show ?thesis using None k(1) unfolding seek_idle_None by blast
  qed
  then show ?thesis using None assms by (auto simp: get_idle_work_idx_conn_def Let_def in_set_conv_nth)
qed

section \<open>The pipe wakes the reader\<close>

text \<open>The two processes at one ring, in any order. The reader waits, or is taking blocks after it was woken: it still
  takes at most so many. It has memory for the blocks.\<close>

datatype reader = Idle | Taking nat

inductive ring_step :: "shm_queue_t \<times> reader \<Rightarrow> shm_queue_t \<times> reader \<Rightarrow> bool" where
  push: "block_ok (sb, buf) \<Longrightarrow> queue_push mem sb buf safe q = Some (r, q1) \<Longrightarrow> ring_step (q, m) (q1, m)"
| pruge: "pruge q = Some (r, q1) \<Longrightarrow> ring_step (q, m) (q1, m)"
| wake: "0 < sq_pipe q \<Longrightarrow> ring_step (q, Idle) (pruge_pipe q, Taking 1024)"
| take_one: "shmq_pull True q = Some (r, Some b, q1) \<Longrightarrow> ring_step (q, Taking (Suc n)) (q1, Taking n)"
| none_left: "shmq_pull True q = Some (r, None, q1) \<Longrightarrow> ring_step (q, Taking (Suc n)) (q1, Idle)"
| enough: "ring_step (q, Taking 0) (q, Idle)"

inductive_cases ring_stepE: "ring_step (q, m) (q', m')"

text \<open>A ring of at most one megabyte holds fewer blocks than the pipe takes bytes.\<close>

definition covered :: "nat \<Rightarrow> shm_queue_t \<Rightarrow> bool" where
  "covered n q \<longleftrightarrow> sq_size q \<le> 1048576 \<and> (\<exists>bs. queue_holds q bs \<and> length bs \<le> sq_pipe q + n)"

lemma few_blocks:
  assumes "ring_holds q bs" "sq_size q \<le> 1048576"
  shows "length bs < PIPE_BUF_SIZE"
proof -
  have "16 * length xs \<le> length (concat (map raw_block xs))" for xs :: "(shm_block_t \<times> byte list) list"
    by (induction xs) (auto simp: raw_block_def)
  from this [of bs] show ?thesis using assms by (simp add: ring_holds_def PIPE_BUF_SIZE_def)
qed

lemma pushed_covered:
  assumes "ring_holds q (bs @ [b])" "sq_size q \<le> 1048576" "length bs \<le> sq_pipe q + n"
  shows "length (bs @ [b]) \<le> sq_pipe (write_pipe q) + n"
  using few_blocks [OF assms(1,2)] assms(3) by (simp add: write_pipe_def)

lemma pruge_list_covered:
  assumes "ring_holds q bs" "\<forall>b \<in> set ws. fits_queue q b" "length bs \<le> sq_pipe q + n" "sq_size q \<le> 1048576"
    "pruge_list ws q = Some (ret, q1)"
  shows "covered n q1 \<and> sq_size q1 = sq_size q"
  using assms
proof (induction ws arbitrary: q bs)
  case Nil
  then show ?case by (auto simp: covered_def queue_holds_def)
next
  case (Cons b ws)
  obtain sb buf where b: "b = (sb, buf)" by fastforce
  from Cons.prems(2) b have "block_ok (sb, buf)" "sb_len sb < sq_size q" by (simp_all add: fits_queue_def)
  from shmq_push_cases [OF Cons.prems(1) this] show ?case
  proof (elim disjE exE conjE)
    assume "shmq_push sb buf q = Some (1, q)"
    then have "q1 = q\<lparr>sq_waiting := b # ws\<rparr>" using Cons.prems(5) b by simp
    then show ?thesis using Cons.prems(1-4) by (auto simp: covered_def queue_holds_def fits_queue_def)
  next
    fix m w
    let ?q = "q\<lparr>sq_base := m, sq_w := w\<rparr>"
    assume p: "shmq_push sb buf q = Some (0, ?q)" "ring_holds ?q (bs @ [(sb, buf)])"
    then have "pruge_list ws (write_pipe ?q) = Some (ret, q1)" using Cons.prems(5) b by simp
    moreover have "length (bs @ [(sb, buf)]) \<le> sq_pipe (write_pipe ?q) + n"
      using p(2) Cons.prems(3,4) by (intro pushed_covered) simp_all
    ultimately show ?thesis
      using Cons.IH [of "write_pipe ?q" "bs @ [(sb, buf)]"] p(2) Cons.prems(2,4) by (simp add: fits_queue_def)
  qed
qed

lemma pruge_covered:
  assumes "covered n q" "pruge q = Some (ret, q1)"
  shows "covered n q1 \<and> sq_size q1 = sq_size q"
proof -
  from assms(1) obtain bs where "queue_holds q bs" "length bs \<le> sq_pipe q + n" "sq_size q \<le> 1048576" by (auto simp: covered_def)
  then show ?thesis using pruge_list_covered [of q bs "sq_waiting q" n ret q1] assms(2) by (simp add: queue_holds_def pruge_def)
qed

lemma push_covered:
  assumes "covered n q" "block_ok (sb, buf)" "queue_push mem sb buf safe q = Some (ret, q1)"
  shows "covered n q1"
proof -
  obtain r q2 where p: "pruge q = Some (r, q2)" using assms(3) by (cases "pruge q") (auto simp: queue_push_def)
  from pruge_covered [OF assms(1) p] have c: "covered n q2" by simp
  then obtain bs where bs: "queue_holds q2 bs" "length bs \<le> sq_pipe q2 + n" "sq_size q2 \<le> 1048576" by (auto simp: covered_def)
  show ?thesis
  proof (cases "sb_len sb \<ge> sq_size q2")
    case True
    then show ?thesis using assms(3) p c by (simp add: queue_push_def)
  next
    case False
    then have fits: "fits_queue q2 (sb, buf)" using assms(2) by (simp add: fits_queue_def)
    have wait: "covered n (q2\<lparr>sq_waiting := sq_waiting q2 @ [(sb, buf)]\<rparr>)"
      using bs fits by (auto simp: covered_def queue_holds_def fits_queue_def)
    have len: "length buf = sb_len sb" using assms(2) by (simp add: block_ok_def)
    have "shmq_push sb buf q2 = Some (1, q2) \<or> (\<exists>m w. shmq_push sb buf q2 = Some (0, q2\<lparr>sq_base := m, sq_w := w\<rparr>) \<and>
        ring_holds (q2\<lparr>sq_base := m, sq_w := w\<rparr>) (bs @ [(sb, buf)]))"
      using shmq_push_cases [of q2 bs sb buf] bs(1) assms(2) False by (auto simp: queue_holds_def)
    then show ?thesis
    proof (elim disjE exE conjE)
      assume "shmq_push sb buf q2 = Some (1, q2)"
      then show ?thesis using assms(3) p False wait c len by (auto simp: queue_push_def split: if_splits)
    next
      fix m w
      let ?q = "q2\<lparr>sq_base := m, sq_w := w\<rparr>"
      assume s: "shmq_push sb buf q2 = Some (0, ?q)" "ring_holds ?q (bs @ [(sb, buf)])"
      have "length (bs @ [(sb, buf)]) \<le> sq_pipe (write_pipe ?q) + n" using s(2) bs(2,3) by (intro pushed_covered) simp_all
      then have "covered n (write_pipe ?q)"
        using s(2) bs(1,3) unfolding covered_def queue_holds_def fits_queue_def by (intro conjI exI [of _ "bs @ [(sb, buf)]"]) simp_all
      then show ?thesis using assms(3) p False wait c len s(1) by (auto simp: queue_push_def split: if_splits)
    qed
  qed
qed

definition reader_covered :: "shm_queue_t \<times> reader \<Rightarrow> bool" where
  "reader_covered s = covered (case snd s of Idle \<Rightarrow> 0 | Taking n \<Rightarrow> n) (fst s)"

lemma ring_step_covered:
  assumes "ring_step s s'" "reader_covered s"
  shows "reader_covered s'"
  using assms
proof (induction rule: ring_step.induct)
  case (push sb buf mem safe q r q1 m)
  then show ?case using push_covered unfolding reader_covered_def fst_conv snd_conv by blast
next
  case (pruge q r q1 m)
  then show ?case using pruge_covered unfolding reader_covered_def fst_conv snd_conv by blast
next
  case (wake q)
  then show ?case by (auto simp: reader_covered_def covered_def pruge_pipe_def queue_holds_def ring_holds_def fits_queue_def)
next
  case (take_one q r b q1 n)
  then obtain bs where bs: "queue_holds q bs" "length bs \<le> sq_pipe q + Suc n" "sq_size q \<le> 1048576"
    by (auto simp: reader_covered_def covered_def)
  then obtain x xs where "bs = x # xs" using take_one.hyps shmq_pull_Nil [of q True] by (cases bs) (auto simp: queue_holds_def)
  moreover from this have "ring_holds q ((fst x, snd x) # xs)" using bs(1) by (simp add: queue_holds_def)
  from shmq_pull_Cons [OF this, of True] obtain p m where
    "ring_holds (q\<lparr>sq_r := p, sq_pull_len := m\<rparr>) xs" "shmq_pull True q = Some (0, Some x, q\<lparr>sq_r := p, sq_pull_len := m\<rparr>)" by auto
  moreover have "queue_holds (q\<lparr>sq_r := p, sq_pull_len := m\<rparr>) xs" using bs(1) calculation by (auto simp: queue_holds_def fits_queue_def)
  ultimately have "q1 = q\<lparr>sq_r := p, sq_pull_len := m\<rparr>" "queue_holds q1 xs" "length xs \<le> sq_pipe q1 + n"
    using bs(2) take_one.hyps by simp_all
  then show ?case using bs(3) by (auto simp: reader_covered_def covered_def)
next
  case (none_left q r q1 n)
  then obtain bs where bs: "queue_holds q bs" "sq_size q \<le> 1048576" by (auto simp: reader_covered_def covered_def)
  then have "bs = []"
  proof (cases bs)
    case (Cons x xs)
    then have "ring_holds q ((fst x, snd x) # xs)" using bs(1) by (simp add: queue_holds_def)
    from shmq_pull_Cons [OF this, of True] none_left.hyps show ?thesis by auto
  qed
  then have "q1 = q" using shmq_pull_Nil [of q True] none_left.hyps bs(1) by (simp add: queue_holds_def)
  then show ?case using bs \<open>bs = []\<close> by (auto simp: reader_covered_def covered_def intro!: exI [of _ "[]"])
next
  case (enough q)
  then show ?case by (simp add: reader_covered_def)
qed

text \<open>C22: however the pushes of one process and the reads of the other come in turn, the reader never sleeps on
  blocks: whenever it waits and the ring is not empty, there is a byte in the pipe, so it is woken. This is for
  rings of up to a megabyte and the head; a larger ring may hold more blocks than the pipe has room for bytes.\<close>

theorem async_no_lost_wakeup:
  assumes "ring_step\<^sup>*\<^sup>* (shmq_start sz, Idle) (q, Idle)" "16 < sz" "sz \<le> 1048592"
  shows "\<exists>bs. ring_holds q bs \<and> (bs \<noteq> [] \<longrightarrow> 0 < sq_pipe q)"
proof -
  have "reader_covered (shmq_start sz, Idle)"
    using shmq_start_holds [of sz] assms(2,3) by (auto simp: reader_covered_def covered_def)
  with assms(1) have "reader_covered (q, Idle)" by induction (auto intro: ring_step_covered)
  then obtain bs where "queue_holds q bs" "length bs \<le> sq_pipe q" by (auto simp: reader_covered_def covered_def)
  then show ?thesis by (intro exI [of _ bs]) (cases bs; simp add: queue_holds_def)
qed

theorem async_no_lost_wakeup_witness:
  "\<exists>q bs. queue_push True (some_block 6) (replicate 6 7) True (shmq_start 56) = Some (0, q) \<and> ring_holds q bs \<and>
     (bs \<noteq> [] \<longrightarrow> 0 < sq_pipe q)"
proof -
  have start: "ring_holds (shmq_start 56) []" using shmq_start_holds [of 56] by (simp add: queue_holds_def)
  have "pruge (shmq_start 56) = Some (0, shmq_start 56)" by (simp add: pruge_def shmq_start_def)
  with shmq_push_fits [OF start some_block_ok [of 6]] obtain q where
    push: "queue_push True (some_block 6) (replicate 6 7) True (shmq_start 56) = Some (0, q)" by (auto simp: queue_push_def)
  then have "ring_step (shmq_start 56, Idle) (q, Idle)" by (intro ring_step.push) (simp_all add: some_block_ok)
  from async_no_lost_wakeup [OF r_into_rtranclp [of ring_step, OF this]] push show ?thesis by auto
qed

section \<open>What the plugin is told\<close>

datatype event = Proc nat "byte list" | Up nat nat | Down nat

fun told :: "nat list \<Rightarrow> (shm_block_t \<times> byte list) list \<Rightarrow> event list" where
  "told fl [] = []"
| "told fl ((sb, buf) # bs) =
     (if sb_type sb = PROTO_BLOCK then Proc (sb_fd sb) buf # told (fl[sb_fd sb := sb_id sb]) bs
      else if sb_type sb = CLOSE_BLOCK then
        (if fl ! sb_fd sb \<noteq> 0 then Down (sb_fd sb) # told (fl[sb_fd sb := 0]) bs else told fl bs)
      else if sb_type sb = LOGIN_BLOCK then Up (sb_fd sb) (rd_le 0 4 buf) # told (fl[sb_fd sb := sb_id sb]) bs
      else told fl bs)"

text \<open>A plugin that may send but does not close connections: what it keeps changes with each event as \<open>f\<close> says, as long
  as the process is sound for it, which does not depend on the queues it reads and on who is connected.\<close>

definition keeps :: "('p work \<Rightarrow> bool) \<Rightarrow> ('p work \<Rightarrow> 'p work option) \<Rightarrow> ('p \<Rightarrow> 'p) \<Rightarrow> bool" where
  "keeps I h f \<longleftrightarrow> (\<forall>w. I w \<longrightarrow>
     (\<exists>w1. h w = Some w1 \<and> recv_queue (wk_mgr w1) = recv_queue (wk_mgr w) \<and> wk_flags w1 = wk_flags w \<and>
        wk_plugin w1 = f (wk_plugin w) \<and> I w1))"

definition plugin_ok :: "('p work \<Rightarrow> bool) \<Rightarrow> 'p work_plugin \<Rightarrow> (event \<Rightarrow> 'p \<Rightarrow> 'p) \<Rightarrow> bool" where
  "plugin_ok I pl f \<longleftrightarrow>
     (\<forall>w g. I w \<and> send_queue g = send_queue (wk_mgr w) \<longrightarrow> I (w\<lparr>wk_mgr := g\<rparr>)) \<and>
     (\<forall>w fd id. I w \<and> id < 4294967296 \<longrightarrow> I (w\<lparr>wk_flags := (wk_flags w)[fd := id]\<rparr>)) \<and>
     (\<forall>fd buf. keeps I (proc_pkg_cli pl fd buf) (f (Proc fd buf))) \<and>
     (\<forall>fd ip. keeps I (\<lambda>w. case link_up_cli pl of Some h \<Rightarrow> h fd ip w | None \<Rightarrow> Some w) (f (Up fd ip))) \<and>
     (\<forall>fd. keeps I (\<lambda>w. case link_down_cli pl of Some h \<Rightarrow> h fd w | None \<Rightarrow> Some w) (f (Down fd)))"

definition for_worker :: "nat \<Rightarrow> shm_block_t \<times> byte list \<Rightarrow> bool" where
  "for_worker n b \<longleftrightarrow> sb_fd (fst b) < n \<and> sb_id (fst b) < 4294967296 \<and> (sb_type (fst b) = LOGIN_BLOCK \<longrightarrow> 4 \<le> length (snd b))"

lemma block_types [simp]: "PROTO_BLOCK \<noteq> CLOSE_BLOCK" "PROTO_BLOCK \<noteq> LOGIN_BLOCK" "CLOSE_BLOCK \<noteq> LOGIN_BLOCK"
  "CLOSE_BLOCK \<noteq> PROTO_BLOCK" "LOGIN_BLOCK \<noteq> PROTO_BLOCK" "LOGIN_BLOCK \<noteq> CLOSE_BLOCK"
  by (simp_all add: PROTO_BLOCK_def CLOSE_BLOCK_def LOGIN_BLOCK_def)

lemma keepsE:
  assumes "keeps I h f" "I w"
  obtains w1 where "h w = Some w1" "recv_queue (wk_mgr w1) = recv_queue (wk_mgr w)" "wk_flags w1 = wk_flags w"
    "wk_plugin w1 = f (wk_plugin w)" "I w1"
  using assms unfolding keeps_def by blast

lemma do_block_told:
  assumes pl: "plugin_ok I pl f" and I: "I w" and b: "for_worker (length (wk_flags w)) (sb, buf)"
  shows "\<exists>w1. do_block pl sb buf w = Some w1 \<and> recv_queue (wk_mgr w1) = recv_queue (wk_mgr w) \<and> length (wk_flags w1) = length (wk_flags w) \<and>
    I w1 \<and>
    (\<forall>bs. fold f (told (wk_flags w1) bs) (wk_plugin w1) = fold f (told (wk_flags w) ((sb, buf) # bs)) (wk_plugin w))"
proof -
  let ?w = "w\<lparr>wk_flags := (wk_flags w)[sb_fd sb := sb_id sb]\<rparr>"
  have fd: "sb_fd sb < length (wk_flags w)" using b by (simp add: for_worker_def)
  have I1: "I ?w" and I0: "\<And>w2. I w2 \<Longrightarrow> I (w2\<lparr>wk_flags := (wk_flags w2)[sb_fd sb := 0]\<rparr>)"
    using pl I b unfolding plugin_ok_def for_worker_def by simp_all
  have I2: "I w1 \<Longrightarrow> wk_flags w1 = wk_flags w \<Longrightarrow> I (w1\<lparr>wk_flags := (wk_flags w)[sb_fd sb := 0]\<rparr>)" for w1
    using I0 by metis
  consider "sb_type sb = PROTO_BLOCK" | "sb_type sb = CLOSE_BLOCK" "wk_flags w ! sb_fd sb \<noteq> 0" | "sb_type sb = CLOSE_BLOCK" "wk_flags w ! sb_fd sb = 0"
    | "sb_type sb = LOGIN_BLOCK" | "sb_type sb \<noteq> PROTO_BLOCK" "sb_type sb \<noteq> CLOSE_BLOCK" "sb_type sb \<noteq> LOGIN_BLOCK" by blast
  then show ?thesis
  proof cases
    case 1
    from pl have K: "keeps I (proc_pkg_cli pl (sb_fd sb) buf) (f (Proc (sb_fd sb) buf))" by (simp add: plugin_ok_def)
    show ?thesis by (rule keepsE [OF K I1]) (use 1 fd in \<open>simp add: do_block_def\<close>)
  next
    case 2
    from pl have K: "keeps I (\<lambda>w. case link_down_cli pl of Some h \<Rightarrow> h (sb_fd sb) w | None \<Rightarrow> Some w) (f (Down (sb_fd sb)))" by (simp add: plugin_ok_def)
    show ?thesis by (rule keepsE [OF K I]) (use 2 fd I2 in \<open>simp add: do_block_def\<close>)
  next
    case 3
    then show ?thesis using I fd by (simp add: do_block_def)
  next
    case 4
    then have len: "\<not> length buf < 4" using b by (simp add: for_worker_def)
    from pl have K: "keeps I (\<lambda>w. case link_up_cli pl of Some h \<Rightarrow> h (sb_fd sb) (rd_le 0 4 buf) w | None \<Rightarrow> Some w) (f (Up (sb_fd sb) (rd_le 0 4 buf)))"
      by (simp add: plugin_ok_def)
    show ?thesis by (rule keepsE [OF K I1]) (use 4 fd len in \<open>auto simp: do_block_def split: option.splits\<close>)
  next
    case 5
    then show ?thesis using I by (simp add: do_block_def)
  qed
qed

lemma set_idle_simps [simp]: "send_queue (set_idle b ch g) = send_queue g" "length (recv_queue (set_idle b ch g)) = length (recv_queue g)"
  "ch < length (recv_queue g) \<Longrightarrow> recv_queue (set_idle b ch g) ! ch = (recv_queue g ! ch)\<lparr>sq_idle := b\<rparr>"
  by (simp_all add: set_idle_def)

lemma queue_holds_idle [simp]: "queue_holds (q\<lparr>sq_idle := b\<rparr>) bs = queue_holds q bs" "queue_holds (pruge_pipe q) bs = queue_holds q bs"
  by (auto simp: queue_holds_def ring_holds_def fits_queue_def pruge_pipe_def)

lemma take_blocks_told:
  assumes pl: "plugin_ok I pl f"
  shows "ch < length (recv_queue (wk_mgr w)) \<Longrightarrow> queue_holds (recv_queue (wk_mgr w) ! ch) bs \<Longrightarrow> I w \<Longrightarrow>
    \<forall>b \<in> set bs. for_worker (length (wk_flags w)) b \<Longrightarrow>
    \<exists>w1. take_blocks pl True ch n w = Some w1 \<and> ch < length (recv_queue (wk_mgr w1)) \<and> queue_holds (recv_queue (wk_mgr w1) ! ch) (drop n bs) \<and>
      wk_plugin w1 = fold f (told (wk_flags w) (take n bs)) (wk_plugin w)"
proof (induction n arbitrary: w bs)
  case 0
  then show ?case by simp
next
  case (Suc n)
  let ?g = "wk_mgr w"
  from pull_holds [OF Suc.prems(2)] obtain r b q bs' where p: "shmq_pull True (recv_queue ?g ! ch) = Some (r, b, q)" "queue_holds q bs'"
    "bs = (case b of Some x \<Rightarrow> [x] | None \<Rightarrow> []) @ bs'" by blast
  let ?g1 = "?g\<lparr>recv_queue := (recv_queue ?g)[ch := q]\<rparr>"
  have pull: "recv_pull True ch ?g = Some (r, b, ?g1)" using p(1) Suc.prems(1) by (simp add: recv_pull_def)
  show ?case
  proof (cases b)
    case None
    from None p(1) have "bs = []"
    proof (cases bs)
      case (Cons x xs)
      then have "ring_holds (recv_queue ?g ! ch) ((fst x, snd x) # xs)" using Suc.prems(2) by (simp add: queue_holds_def)
      from shmq_pull_Cons [OF this, of True] p(1) None show ?thesis by auto
    qed
    then show ?thesis using None pull p(2,3) Suc.prems(1) by simp
  next
    case (Some x)
    obtain sb buf where x: "x = (sb, buf)" by fastforce
    have bs: "bs = (sb, buf) # bs'" using p(3) Some x by simp
    let ?w = "w\<lparr>wk_mgr := set_idle False ch ?g1\<rparr>"
    have "I ?w" using pl Suc.prems(3) unfolding plugin_ok_def by simp
    moreover have "for_worker (length (wk_flags ?w)) (sb, buf)" using Suc.prems(4) bs by simp
    ultimately obtain w1 where w1: "do_block pl sb buf ?w = Some w1" "recv_queue (wk_mgr w1) = recv_queue (wk_mgr ?w)"
      "length (wk_flags w1) = length (wk_flags w)" "I w1"
      "\<And>bs. fold f (told (wk_flags w1) bs) (wk_plugin w1) = fold f (told (wk_flags w) ((sb, buf) # bs)) (wk_plugin w)"
      using do_block_told [OF pl, of ?w sb buf] by auto
    have "take_blocks pl True ch (Suc n) w = take_blocks pl True ch n w1" using pull Some x w1(1) by simp
    moreover have "ch < length (recv_queue (wk_mgr w1))" "queue_holds (recv_queue (wk_mgr w1) ! ch) bs'"
      "\<forall>b \<in> set bs'. for_worker (length (wk_flags w1)) b"
      using w1(2,3) Suc.prems(1,4) p(2) bs by simp_all
    ultimately show ?thesis using Suc.IH [of w1 bs'] w1(4,5) unfolding bs by (simp del: told.simps)
  qed
qed

text \<open>One call of the worker tells the plugin, in order, what the first 1024 blocks of its ring say: each package with
  its connection, each login, and each close of a connection that it knows; the others stay in the ring.\<close>

lemma revent_input_told:
  assumes "plugin_ok I pl f" "ch < length (recv_queue (wk_mgr w))" "queue_holds (recv_queue (wk_mgr w) ! ch) bs"
    "I w" "\<forall>b \<in> set bs. for_worker (length (wk_flags w)) b"
  shows "\<exists>w1. revent_input pl True ch w = Some w1 \<and> queue_holds (recv_queue (wk_mgr w1) ! ch) (drop 1024 bs) \<and>
    wk_plugin w1 = fold f (told (wk_flags w) (take 1024 bs)) (wk_plugin w)"
proof -
  let ?w = "w\<lparr>wk_mgr := (wk_mgr w)\<lparr>recv_queue := (recv_queue (wk_mgr w))[ch := pruge_pipe (recv_queue (wk_mgr w) ! ch)]\<rparr>\<rparr>"
  have "I ?w" using assms(1,4) unfolding plugin_ok_def by simp
  with take_blocks_told [OF assms(1), of ch ?w bs 1024] assms(2,3,5) obtain w1 where
    "take_blocks pl True ch 1024 ?w = Some w1" "ch < length (recv_queue (wk_mgr w1))" "queue_holds (recv_queue (wk_mgr w1) ! ch) (drop 1024 bs)"
    "wk_plugin w1 = fold f (told (wk_flags w) (take 1024 bs)) (wk_plugin w)" by auto
  then show ?thesis using assms(2) by (auto simp: revent_input_def Let_def)
qed

text \<open>A sample: a plugin that counts, and sends each package back to its client.\<close>

definition echo_plugin :: "nat \<Rightarrow> nat work_plugin" where
  "echo_plugin ch = \<lparr>proc_pkg_cli = (\<lambda>fd buf w. map_option (\<lambda>(r, w1). w1\<lparr>wk_plugin := wk_plugin w1 + length buf\<rparr>) (net_send_cli True ch fd buf w)),
     link_up_cli = None, link_down_cli = None\<rparr>"

definition echo_ok :: "nat \<Rightarrow> nat work \<Rightarrow> bool" where
  "echo_ok ch w \<longleftrightarrow> length (wk_flags w) \<le> 4294967296 \<and> (\<forall>n \<in> set (wk_flags w). n < 4294967296) \<and>
     ch < length (send_queue (wk_mgr w)) \<and> (\<exists>bs. queue_holds (send_queue (wk_mgr w) ! ch) bs)"

lemma queue_push_any:
  assumes "queue_holds q bs" "fd < 4294967296" "n < 4294967296"
  shows "\<exists>r q1 bs1. queue_push True \<lparr>sb_fd = fd, sb_id = n, sb_len = length buf, sb_type = PROTO_BLOCK\<rparr> buf True q = Some (r, q1) \<and> queue_holds q1 bs1"
proof (cases "length buf < 4294967296")
  case True
  with assms(2,3) have "block_ok (\<lparr>sb_fd = fd, sb_id = n, sb_len = length buf, sb_type = PROTO_BLOCK\<rparr>, buf)"
    by (simp add: block_ok_def PROTO_BLOCK_def)
  from queue_push_holds [OF assms(1) this] show ?thesis by blast
next
  case False
  from pruge_holds [OF assms(1)] obtain r q1 ws1 where p: "pruge q = Some (r, q1)" "queue_holds q1 (bs @ ws1)" by blast
  then have "sq_size q1 \<le> length buf" using False by (simp add: queue_holds_def ring_holds_def)
  then show ?thesis using p by (auto simp: queue_push_def)
qed

lemma net_send_cli_ok:
  assumes "echo_ok ch w"
  shows "\<exists>r g. net_send_cli True ch fd buf w = Some (r, w\<lparr>wk_mgr := g\<rparr>) \<and> recv_queue g = recv_queue (wk_mgr w) \<and>
    ch < length (send_queue g) \<and> (\<exists>bs. queue_holds (send_queue g ! ch) bs)"
proof (cases "fd \<ge> length (wk_flags w) \<or> wk_flags w ! fd = 0 \<or> buf = []")
  case True
  then show ?thesis using assms by (intro exI [of _ "-1"] exI [of _ "wk_mgr w"]) (auto simp: net_send_cli_def echo_ok_def)
next
  case False
  then have "fd < 4294967296" "wk_flags w ! fd < 4294967296" using assms by (auto simp: echo_ok_def)
  moreover from assms obtain bs where "queue_holds (send_queue (wk_mgr w) ! ch) bs" "ch < length (send_queue (wk_mgr w))" by (auto simp: echo_ok_def)
  ultimately obtain r q1 bs1 where
    "queue_push True \<lparr>sb_fd = fd, sb_id = wk_flags w ! fd, sb_len = length buf, sb_type = PROTO_BLOCK\<rparr> buf True (send_queue (wk_mgr w) ! ch) = Some (r, q1)"
    "queue_holds q1 bs1" "ch < length (send_queue (wk_mgr w))" using queue_push_any by blast
  then show ?thesis using False
    by (intro exI [of _ "int (length buf)"] exI [of _ "(wk_mgr w)\<lparr>send_queue := (send_queue (wk_mgr w))[ch := q1]\<rparr>"])
      (auto simp: net_send_cli_def send_push_def)
qed

lemma echo_plugin_ok: "plugin_ok (echo_ok ch) (echo_plugin ch) (\<lambda>e n. case e of Proc fd buf \<Rightarrow> n + length buf | _ \<Rightarrow> n)"
proof -
  have "keeps (echo_ok ch) (proc_pkg_cli (echo_plugin ch) fd buf) (\<lambda>n. n + length buf)" for fd buf
    unfolding keeps_def
  proof (intro allI impI)
    fix w assume w: "echo_ok ch w"
    from net_send_cli_ok [OF w, of fd buf] obtain r g where
      "net_send_cli True ch fd buf w = Some (r, w\<lparr>wk_mgr := g\<rparr>)" "recv_queue g = recv_queue (wk_mgr w)"
      "ch < length (send_queue g)" "\<exists>bs. queue_holds (send_queue g ! ch) bs" by blast
    then show "\<exists>w1. proc_pkg_cli (echo_plugin ch) fd buf w = Some w1 \<and> recv_queue (wk_mgr w1) = recv_queue (wk_mgr w) \<and>
        wk_flags w1 = wk_flags w \<and> wk_plugin w1 = wk_plugin w + length buf \<and> echo_ok ch w1"
      using w by (simp add: echo_plugin_def echo_ok_def)
  qed
  then show ?thesis
    by (auto simp: plugin_ok_def echo_plugin_def keeps_def echo_ok_def dest: set_update_subset_insert [THEN subsetD])
qed

definition echo_start :: "nat work" where
  "echo_start = \<lparr>wk_mgr = \<lparr>recv_queue = [(shmq_start 56)], send_queue = [(shmq_start 56)]\<rparr>, wk_flags = replicate 8 0, wk_plugin = 0\<rparr>"

lemma worker_told_example:
  "\<exists>q w1. queue_push True (some_block 6) (replicate 6 7) True (shmq_start 56) = Some (0, q) \<and>
     revent_input (echo_plugin 0) True 0 (echo_start\<lparr>wk_mgr := \<lparr>recv_queue = [q], send_queue = [shmq_start 56]\<rparr>\<rparr>) = Some w1 \<and> wk_plugin w1 = 6"
proof -
  have start: "ring_holds (shmq_start 56) []" using shmq_start_holds [of 56] by (simp add: queue_holds_def)
  have "pruge (shmq_start 56) = Some (0, shmq_start 56)" by (simp add: pruge_def shmq_start_def)
  with shmq_push_fits [OF start some_block_ok [of 6]] obtain q where
    push: "queue_push True (some_block 6) (replicate 6 7) True (shmq_start 56) = Some (0, q)"
      and q: "queue_holds q [(some_block 6, replicate 6 7)]" by (auto simp: queue_push_def queue_holds_def)
  let ?w = "echo_start\<lparr>wk_mgr := \<lparr>recv_queue = [q], send_queue = [shmq_start 56]\<rparr>\<rparr>"
  have "echo_ok 0 ?w" using shmq_start_holds [of 56] by (auto simp: echo_ok_def echo_start_def)
  from revent_input_told [OF echo_plugin_ok _ _ this, of 0 "[(some_block 6, replicate 6 7)]"] push q show ?thesis
    by (auto simp: for_worker_def some_block_def echo_start_def)
qed

end
