(* ===== verification/AsyncServ.thy ===== *)
theory AsyncServ
  imports AsyncSend AsyncWork
begin

text \<open>
  The process of the connections in the asynchronous server framework: what \<^verbatim>\<open>c_tcp_socket\<close> and \<^verbatim>\<open>c_tcp_linker\<close> do with a
  package, how the workers are told of a client, and \<^verbatim>\<open>c_sevent\<close> (\<^verbatim>\<open>async_server/src/shm_sevent.cpp\<close>), which takes the
  replies of a worker to the connections. At the end, a package on its way from the network to the plugin.
\<close>

section \<open>A package of a client\<close>

text \<open>Functions of the plugin that may be missing; \<open>None\<close> as a result is undefined behaviour in them, as where
  \<^verbatim>\<open>shmq_pushed\<close> deletes the connection it is called for.\<close>

record 'p conn_plugin =
  select_channel :: "(nat \<Rightarrow> byte list \<Rightarrow> nat \<Rightarrow> nat \<Rightarrow> 'p \<Rightarrow> int \<times> 'p) option"
  shmq_pushed :: "(nat \<Rightarrow> byte list \<Rightarrow> bool \<Rightarrow> 'p \<Rightarrow> (int \<times> 'p) option) option"

text \<open>\<open>cs_random\<close> is \<^verbatim>\<open>random_channel\<close>, shared by all connections.\<close>

record 'p conn_st =
  cs_mgr :: shm_queue_mgr_t
  cs_random :: nat
  cs_plugin :: 'p

definition push_package :: "'p conn_plugin \<Rightarrow> nat \<Rightarrow> nat \<Rightarrow> nat \<Rightarrow> byte list \<Rightarrow> 'p conn_st \<Rightarrow> (bool option \<times> 'p conn_st) option" where
  "push_package pl fd cid ch pkg st =
     Option.bind (recv_push True ch \<lparr>sb_fd = fd, sb_id = cid, sb_len = length pkg, sb_type = PROTO_BLOCK\<rparr> pkg False (cs_mgr st)) (\<lambda>(r, g).
       case shmq_pushed pl of
         None \<Rightarrow> Some (None, st\<lparr>cs_mgr := g\<rparr>)
       | Some pushed \<Rightarrow> map_option (\<lambda>(x, p). (if x = -1 then Some False else None, st\<lparr>cs_mgr := g, cs_plugin := p\<rparr>))
           (pushed fd pkg (r = 0) (cs_plugin st)))"

text \<open>With no channel chosen the workers take turns; the counter must not overflow. A channel that does not exist is
  logged and the package is gone.\<close>

definition socket_deal :: "'p conn_plugin \<Rightarrow> nat \<Rightarrow> nat \<Rightarrow> nat \<Rightarrow> 'p conn_st deal" where
  "socket_deal pl fd cid ip pkg st =
     (let n = length (recv_queue (cs_mgr st));
          (ch, p) = (case select_channel pl of Some sel \<Rightarrow> sel fd pkg ip n (cs_plugin st) | None \<Rightarrow> (-1, cs_plugin st));
          st1 = st\<lparr>cs_plugin := p\<rparr>
      in if ch = -1 then
           (if cs_random st \<ge> 2147483647 \<or> n = 0 then None
            else push_package pl fd cid ((cs_random st + 1) mod n) pkg (st1\<lparr>cs_random := cs_random st + 1\<rparr>))
         else if ch < 0 \<or> nat (u32 ch) \<ge> n then Some (None, st1)
         else push_package pl fd cid (nat ch) pkg st1)"

text \<open>A package of another server, where the function of the plugin may close the connection: at once, after which
  the code looks at the connection that is deleted, or when all is sent.\<close>

definition linker_deal :: "(nat \<Rightarrow> byte list \<Rightarrow> 's \<Rightarrow> 's option) \<Rightarrow> ('s \<Rightarrow> bool) \<Rightarrow> ('s \<Rightarrow> bool) \<Rightarrow> nat \<Rightarrow> 's deal" where
  "linker_deal proc_pkg_ser stands closed fd pkg s =
     Option.bind (proc_pkg_ser fd pkg s) (\<lambda>s1.
       if \<not> stands s1 then None else Some (if closed s1 then Some True else None, s1))"

section \<open>Telling the workers\<close>

fun notify :: "(nat \<Rightarrow> bool) \<Rightarrow> shm_block_t \<Rightarrow> byte list \<Rightarrow> nat list \<Rightarrow> shm_queue_mgr_t \<Rightarrow> shm_queue_mgr_t option" where
  "notify mem sb buf [] g = Some g"
| "notify mem sb buf (i # is) g = Option.bind (recv_push (mem i) i sb buf True g) (\<lambda>(r, g1). notify mem sb buf is g1)"

definition notify_all :: "(nat \<Rightarrow> bool) \<Rightarrow> shm_block_t \<Rightarrow> byte list \<Rightarrow> shm_queue_mgr_t \<Rightarrow> shm_queue_mgr_t option" where
  "notify_all mem sb buf g = notify mem sb buf [0..<length (recv_queue g)] g"

definition tell_login :: "(nat \<Rightarrow> bool) \<Rightarrow> nat \<Rightarrow> nat \<Rightarrow> nat \<Rightarrow> shm_queue_mgr_t \<Rightarrow> shm_queue_mgr_t option" where
  "tell_login mem fd cid ip = notify_all mem \<lparr>sb_fd = fd, sb_id = cid, sb_len = 4, sb_type = LOGIN_BLOCK\<rparr> (to_le 4 ip)"

definition tell_close :: "(nat \<Rightarrow> bool) \<Rightarrow> nat \<Rightarrow> nat \<Rightarrow> shm_queue_mgr_t \<Rightarrow> shm_queue_mgr_t option" where
  "tell_close mem fd cid = notify_all mem \<lparr>sb_fd = fd, sb_id = cid, sb_len = 0, sb_type = CLOSE_BLOCK\<rparr> []"

section \<open>Replies\<close>

text \<open>The handlers of the reactor that are connections of clients; \<open>cp_net\<close> is the network with the memory.\<close>

record link =
  ln_id :: nat
  ln_out :: link_out

record 'e conn_proc =
  cp_mgr :: shm_queue_mgr_t
  cp_links :: "nat \<Rightarrow> link option"
  cp_net :: 'e

text \<open>\<^verbatim>\<open>handle_error\<close> and \<^verbatim>\<open>handle_fini\<close> of \<^verbatim>\<open>c_tcp_socket\<close>.\<close>

definition socket_fini :: "nat \<Rightarrow> 'e conn_proc \<Rightarrow> 'e conn_proc" where
  "socket_fini fd s = s\<lparr>cp_links := (cp_links s)(fd := None)\<rparr>"

definition socket_error :: "(nat \<Rightarrow> bool) \<Rightarrow> nat \<Rightarrow> link \<Rightarrow> 'e conn_proc \<Rightarrow> 'e conn_proc option" where
  "socket_error mem fd l s =
     (if lo_closed (ln_out l) then Some (socket_fini fd s)
      else map_option (\<lambda>g. socket_fini fd (s\<lparr>cp_mgr := g\<rparr>)) (tell_close mem fd (ln_id l) (cp_mgr s)))"

definition socket_shut :: "(nat \<Rightarrow> bool) \<Rightarrow> nat \<Rightarrow> link \<Rightarrow> 'e conn_proc \<Rightarrow> 'e conn_proc option" where
  "socket_shut mem fd l s =
     map_option (\<lambda>g. case shut (ln_out l) of (stays, k) \<Rightarrow>
         if stays then s\<lparr>cp_mgr := g, cp_links := (cp_links s)(fd \<mapsto> l\<lparr>ln_out := k\<rparr>)\<rparr> else socket_fini fd (s\<lparr>cp_mgr := g\<rparr>))
       (tell_close mem fd (ln_id l) (cp_mgr s))"

text \<open>One block of a worker, with the connection and the bytes the network takes.\<close>

definition do_reply :: "'e send_env \<Rightarrow> (nat \<Rightarrow> bool) \<Rightarrow> shm_block_t \<Rightarrow> byte list \<Rightarrow> 'e conn_proc \<Rightarrow> ((nat \<times> byte list) list \<times> 'e conn_proc) option" where
  "do_reply env mem sb buf s =
     (case cp_links s (sb_fd sb) of
        None \<Rightarrow> Some ([], s)
      | Some l \<Rightarrow>
          if sb_type sb = CLOSE_BLOCK then map_option (\<lambda>s1. ([], s1)) (socket_shut mem (sb_fd sb) l s)
          else Option.bind (send_pkg (Some MAX_SEND_LIST_SIZE) env buf (ln_out l) (cp_net s)) (\<lambda>(ok, bs, k, e).
            let l1 = l\<lparr>ln_out := k\<rparr>; s1 = s\<lparr>cp_links := (cp_links s)(sb_fd sb \<mapsto> l1), cp_net := e\<rparr>
            in if ok then Some ([(ln_id l, bs)], s1)
               else map_option (\<lambda>s2. ([(ln_id l, bs)], s2)) (socket_error mem (sb_fd sb) l1 s1)))"

fun take_replies :: "'e send_env \<Rightarrow> (nat \<Rightarrow> bool) \<Rightarrow> nat \<Rightarrow> nat \<Rightarrow> 'e conn_proc \<Rightarrow> ((nat \<times> byte list) list \<times> 'e conn_proc) option" where
  "take_replies env mem ch 0 s = Some ([], s)"
| "take_replies env mem ch (Suc n) s =
     Option.bind (send_pull (mem ch) ch (cp_mgr s)) (\<lambda>(r, b, g).
       case b of
         None \<Rightarrow> Some ([], s\<lparr>cp_mgr := g\<rparr>)
       | Some (sb, buf) \<Rightarrow>
           Option.bind (do_reply env mem sb buf (s\<lparr>cp_mgr := g\<rparr>)) (\<lambda>(out, s1).
             map_option (\<lambda>(out', s2). (out @ out', s2)) (take_replies env mem ch n s1)))"

definition sevent_input :: "'e send_env \<Rightarrow> (nat \<Rightarrow> bool) \<Rightarrow> nat \<Rightarrow> 'e conn_proc \<Rightarrow> ((nat \<times> byte list) list \<times> 'e conn_proc) option" where
  "sevent_input env mem ch s =
     (let g = cp_mgr s
      in if ch \<ge> length (send_queue g) then None
         else take_replies env mem ch 1024 (s\<lparr>cp_mgr := g\<lparr>send_queue := (send_queue g)[ch := pruge_pipe (send_queue g ! ch)]\<rparr>\<rparr>))"

section \<open>A new client\<close>

text \<open>\<^verbatim>\<open>make_id\<close>; the counter must not overflow.\<close>

definition make_id :: "nat \<Rightarrow> nat option" where
  "make_id m = (if m \<ge> 2147483647 then None else Some (m + 1))"

text \<open>\<^verbatim>\<open>start\<close> of \<^verbatim>\<open>c_tcp_socket\<close>, with \<open>max\<close> for the size of the table of handlers; the flags say whether there is memory,
  whether \<^verbatim>\<open>epoll_ctl\<close> succeeds, and whether \<^verbatim>\<open>check_open_cli\<close> refuses the client.\<close>

definition socket_start :: "nat \<Rightarrow> bool \<Rightarrow> bool \<Rightarrow> bool \<Rightarrow> (nat \<Rightarrow> bool) \<Rightarrow> nat \<Rightarrow> nat \<Rightarrow> nat \<Rightarrow> 'e conn_proc \<Rightarrow> 'e conn_proc option" where
  "socket_start max_fd buf_ok ctl_ok refused mem fd cid ip s =
     (if \<not> buf_ok \<or> fd \<ge> max_fd \<or> \<not> ctl_ok \<or> refused then Some (socket_fini fd s)
      else map_option (\<lambda>g. s\<lparr>cp_mgr := g, cp_links := (cp_links s)(fd \<mapsto> \<lparr>ln_id = cid, ln_out = out_start\<rparr>)\<rparr>)
        (tell_login mem fd cid ip (cp_mgr s)))"

section \<open>Replies go by descriptor\<close>

text \<open>C30: a reply goes to the connection that has the descriptor when it is taken from the ring. The number of the
  connection the request came from, which the worker sends along, is not looked at: the reply to a client that
  has gone is sent, after what waits there, to the client that got its descriptor.\<close>

theorem reply_to_successor:
  assumes "se_ok env" "never_fails env" "cp_links s (sb_fd sb) = Some l" "sb_id sb \<noteq> ln_id l"
    "sb_type sb = PROTO_BLOCK" "out_ok (ln_out l)" "buf \<noteq> []" "\<not> drops (Some MAX_SEND_LIST_SIZE) (ln_out l)"
  shows "\<exists>bs l1 s1. do_reply env mem sb buf s = Some ([(ln_id l, bs)], s1) \<and> cp_links s1 (sb_fd sb) = Some l1 \<and>
    ln_id l1 = ln_id l \<and> bs @ lo_pending (ln_out l1) = lo_pending (ln_out l) @ buf"
proof -
  from send_pkg_ok [OF assms(1,6,7), of "Some MAX_SEND_LIST_SIZE" "cp_net s"] obtain ok bs k e where
    p: "send_pkg (Some MAX_SEND_LIST_SIZE) env buf (ln_out l) (cp_net s) = Some (ok, bs, k, e)"
      "ok \<longrightarrow> bs @ lo_pending k = lo_pending (ln_out l) @ buf" using assms(8) by auto
  have "ok" using send_pkg_alive [OF assms(2) p(1)] .
  then show ?thesis using assms(3,5) p
    by (intro exI [of _ bs] exI [of _ "l\<lparr>ln_out := k\<rparr>"] exI [of _ "s\<lparr>cp_links := (cp_links s)(sb_fd sb \<mapsto> l\<lparr>ln_out := k\<rparr>), cp_net := e\<rparr>"])
      (simp add: do_reply_def)
qed

definition quick_net :: "unit send_env" where
  "quick_net = \<lparr>se_send = (\<lambda>data e. (Took (length data), e)), se_mem = (\<lambda>e. (True, e)), se_ctl = (\<lambda>e. (True, e))\<rparr>"

theorem reply_to_successor_witness:
  "\<exists>bs l1 s1. do_reply quick_net (\<lambda>i. True) \<lparr>sb_fd = 3, sb_id = 1, sb_len = 2, sb_type = PROTO_BLOCK\<rparr> [4, 5]
      \<lparr>cp_mgr = \<lparr>recv_queue = [], send_queue = []\<rparr>, cp_links = [3 \<mapsto> \<lparr>ln_id = 2, ln_out = out_start\<rparr>], cp_net = ()\<rparr> = Some ([(2, bs)], s1) \<and>
    cp_links s1 3 = Some l1 \<and> bs @ lo_pending (ln_out l1) = [4, 5]"
proof -
  let ?s = "\<lparr>cp_mgr = \<lparr>recv_queue = [], send_queue = []\<rparr>, cp_links = [3 \<mapsto> \<lparr>ln_id = 2, ln_out = out_start\<rparr>], cp_net = ()\<rparr>"
    and ?sb = "\<lparr>sb_fd = 3, sb_id = 1, sb_len = 2, sb_type = PROTO_BLOCK\<rparr>" and ?l = "\<lparr>ln_id = 2, ln_out = out_start\<rparr>"
  have "se_ok quick_net" "never_fails quick_net" by (auto simp: se_ok_def never_fails_def refuses_def quick_net_def)
  moreover have "cp_links ?s (sb_fd ?sb) = Some ?l" "sb_id ?sb \<noteq> ln_id ?l" "sb_type ?sb = PROTO_BLOCK" "[4, 5] \<noteq> ([] :: byte list)"
    "out_ok (ln_out ?l)" "\<not> drops (Some MAX_SEND_LIST_SIZE) (ln_out ?l)"
    by (simp_all add: out_ok_def out_start_def drops_def)
  ultimately have "\<exists>bs l1 s1. do_reply quick_net (\<lambda>i. True) ?sb [4, 5] ?s = Some ([(ln_id ?l, bs)], s1) \<and> cp_links s1 (sb_fd ?sb) = Some l1 \<and>
    ln_id l1 = ln_id ?l \<and> bs @ lo_pending (ln_out l1) = lo_pending (ln_out ?l) @ [4, 5]"
    by (intro reply_to_successor)
  then show ?thesis by (simp add: lo_pending_def out_start_def) blast
qed

section \<open>From the network to the plugin\<close>

lemma queue_push_fits:
  assumes "queue_holds q bs" "sq_waiting q = []" "block_ok (sb, buf)" "length (concat (map raw_block bs)) + sb_len sb + 16 < sq_size q"
  shows "\<exists>q1. queue_push mem sb buf safe q = Some (0, q1) \<and> queue_holds q1 (bs @ [(sb, buf)]) \<and> sq_waiting q1 = [] \<and> sq_size q1 = sq_size q"
proof -
  have "pruge q = Some (0, q)" using assms(2) by (simp add: pruge_def)
  moreover from shmq_push_fits [of q bs sb buf] assms(1,3,4) obtain m w where
    "shmq_push sb buf q = Some (0, q\<lparr>sq_base := m, sq_w := w\<rparr>)" "ring_holds (q\<lparr>sq_base := m, sq_w := w\<rparr>) (bs @ [(sb, buf)])"
    by (auto simp: queue_holds_def)
  ultimately show ?thesis using assms(2,4) by (auto simp: queue_push_def queue_holds_def)
qed

definition package_block :: "nat \<Rightarrow> nat \<Rightarrow> byte list \<Rightarrow> shm_block_t \<times> byte list" where
  "package_block fd cid p = (\<lparr>sb_fd = fd, sb_id = cid, sb_len = length p, sb_type = PROTO_BLOCK\<rparr>, p)"

definition room_for :: "byte list list \<Rightarrow> nat" where "room_for ps = sum_list (map (\<lambda>p. length p + 16) ps)"

lemma package_block_ok:
  assumes "fd < 4294967296" "cid < 4294967296" "length p < 4294967296"
  shows "block_ok (package_block fd cid p)"
  using assms by (simp add: block_ok_def package_block_def PROTO_BLOCK_def)

lemma deal_packages:
  assumes pl: "select_channel pl = None" "shmq_pushed pl = None" and ids: "fd < 4294967296" "cid < 4294967296"
  shows "recv_queue (cs_mgr st) = [q] \<Longrightarrow> queue_holds q bs \<Longrightarrow> sq_waiting q = [] \<Longrightarrow>
    length (concat (map raw_block bs)) + room_for ps < sq_size q \<Longrightarrow> cs_random st + length ps < 2147483647 \<Longrightarrow>
    \<exists>st1 q1. deal_pkgs (socket_deal pl fd cid ip) ps st = Some (None, st1) \<and> recv_queue (cs_mgr st1) = [q1] \<and>
      queue_holds q1 (bs @ map (package_block fd cid) ps) \<and> sq_waiting q1 = []"
proof (induction ps arbitrary: st q bs)
  case Nil
  then show ?case by auto
next
  case (Cons p ps)
  let ?sb = "\<lparr>sb_fd = fd, sb_id = cid, sb_len = length p, sb_type = PROTO_BLOCK\<rparr>"
  have "sq_size q \<le> 2147483600" using Cons.prems(2) by (simp add: queue_holds_def ring_holds_def)
  then have "length p < 4294967296" using Cons.prems(4) by (simp add: room_for_def)
  from package_block_ok [OF ids this] have ok: "block_ok (?sb, p)" by (simp add: package_block_def)
  from queue_push_fits [OF Cons.prems(2,3) ok, of True False] Cons.prems(4) obtain q1 where
    q1: "queue_push True ?sb p False q = Some (0, q1)" "queue_holds q1 (bs @ [(?sb, p)])" "sq_waiting q1 = []" "sq_size q1 = sq_size q"
    by (auto simp: room_for_def)
  let ?st = "st\<lparr>cs_mgr := (cs_mgr st)\<lparr>recv_queue := [q1]\<rparr>, cs_random := cs_random st + 1\<rparr>"
  have deal: "socket_deal pl fd cid ip p st = Some (None, ?st)"
    using Cons.prems(1,5) pl q1(1) by (simp add: socket_deal_def push_package_def recv_push_def Let_def)
  have len: "length (raw_block (?sb, p)) = length p + 16" using length_raw_block [OF ok] by simp
  from Cons.IH [of ?st q1 "bs @ [(?sb, p)]"] q1(2-4) Cons.prems(4,5) len show ?case
    by (auto simp: deal package_block_def room_for_def)
qed

lemma told_packages: "told fl (map (package_block fd cid) ps) = map (Proc fd) ps"
  by (induction ps arbitrary: fl) (simp_all add: package_block_def)



end
