(* ===== verification/SvcTree.thy ===== *)
theory SvcTree
  imports Prelude
begin

text \<open>
  The tree of services in the client library (\<^verbatim>\<open>friend_serv/common/strategy.cpp\<close>): a group has replicas, replicas
  have services, and each is an \<^verbatim>\<open>Element\<close> that is enabled or not. Elements point to their parent and their
  children; \<open>None\<close> is a pointer to an element that was deleted that is followed.
\<close>

section \<open>Elements\<close>

record element =
  el_enable :: bool
  el_parent :: "nat option"
  el_children :: "nat list"

type_synonym elements = "nat \<Rightarrow> element option"

definition enabled :: "elements \<Rightarrow> nat \<Rightarrow> bool" where
  "enabled h a = (case h a of Some e \<Rightarrow> el_enable e | None \<Rightarrow> False)"

definition new_element :: element where
  "new_element = \<lparr>el_enable = False, el_parent = None, el_children = []\<rparr>"

text \<open>\<^verbatim>\<open>Enable\<close> and the loop of \<^verbatim>\<open>AfterEnable\<close>, at an element; each calls the other. Fuel bounds the height.\<close>

fun enable :: "nat \<Rightarrow> nat \<Rightarrow> elements \<Rightarrow> elements option"
  and after_enable :: "nat \<Rightarrow> nat option \<Rightarrow> elements \<Rightarrow> elements option" where
  "enable 0 a h = None"
| "enable (Suc n) a h =
     (case h a of
        None \<Rightarrow> None
      | Some e \<Rightarrow> if el_enable e then Some h else after_enable n (el_parent e) (h(a \<mapsto> e\<lparr>el_enable := True\<rparr>)))"
| "after_enable n None h = Some h"
| "after_enable 0 (Some p) h = None"
| "after_enable (Suc n) (Some p) h =
     (case h p of
        None \<Rightarrow> None
      | Some e \<Rightarrow>
          if el_enable e then Some h
          else Option.bind (enable n p h) (\<lambda>h1. after_enable n (el_parent e) h1))"

text \<open>The search of \<^verbatim>\<open>AfterDisable\<close>, which stops at the first child that is enabled.\<close>

fun all_disabled :: "elements \<Rightarrow> nat list \<Rightarrow> bool option" where
  "all_disabled h [] = Some True"
| "all_disabled h (c # cs) =
     (case h c of None \<Rightarrow> None | Some e \<Rightarrow> if el_enable e then Some False else all_disabled h cs)"

fun disable :: "nat \<Rightarrow> nat \<Rightarrow> elements \<Rightarrow> elements option"
  and after_disable :: "nat \<Rightarrow> nat option \<Rightarrow> elements \<Rightarrow> elements option" where
  "disable 0 a h = None"
| "disable (Suc n) a h =
     (case h a of
        None \<Rightarrow> None
      | Some e \<Rightarrow> if \<not> el_enable e then Some h else after_disable n (el_parent e) (h(a \<mapsto> e\<lparr>el_enable := False\<rparr>)))"
| "after_disable n None h = Some h"
| "after_disable 0 (Some p) h = None"
| "after_disable (Suc n) (Some p) h =
     (case h p of
        None \<Rightarrow> None
      | Some e \<Rightarrow>
          Option.bind (all_disabled h (el_children e)) (\<lambda>all.
            if all then Option.bind (disable n p h) (\<lambda>h1. after_disable n (el_parent e) h1) else Some h))"

text \<open>\<^verbatim>\<open>AddChild\<close>.\<close>

definition add_child :: "nat \<Rightarrow> nat \<Rightarrow> nat \<Rightarrow> elements \<Rightarrow> elements option" where
  "add_child n a c h =
     (case (h a, h c) of
        (Some e, Some f) \<Rightarrow>
          let h1 = h(a \<mapsto> e\<lparr>el_children := el_children e @ [c]\<rparr>);
              h2 = (case h1 c of Some f1 \<Rightarrow> h1(c \<mapsto> f1\<lparr>el_parent := Some a\<rparr>) | None \<Rightarrow> h1)
          in if enabled h2 c then after_enable n (case h2 a of Some e2 \<Rightarrow> el_parent e2 | None \<Rightarrow> None) h2 else Some h2
      | _ \<Rightarrow> None)"

section \<open>The invariant\<close>

text \<open>What the comment at \<^verbatim>\<open>Element\<close> says: an element with children is enabled if and only if one of them is. \<open>rk\<close>
  bounds the way to the root.\<close>

definition tree_ok :: "(nat \<Rightarrow> nat) \<Rightarrow> elements \<Rightarrow> bool" where
  "tree_ok rk h \<longleftrightarrow> (\<forall>a e. h a = Some e \<longrightarrow>
     (\<forall>p. el_parent e = Some p \<longrightarrow> rk p < rk a \<and> (\<exists>f. h p = Some f \<and> a \<in> set (el_children f))) \<and>
     (\<forall>c \<in> set (el_children e). \<exists>f. h c = Some f \<and> el_parent f = Some a))"

definition node_ok :: "elements \<Rightarrow> nat \<Rightarrow> bool" where
  "node_ok h a \<longleftrightarrow> (\<forall>e. h a = Some e \<longrightarrow> el_children e \<noteq> [] \<longrightarrow> (el_enable e \<longleftrightarrow> (\<exists>c \<in> set (el_children e). enabled h c)))"

text \<open>Two heaps with the same tree, and the same flags at the leaves but \<open>a\<close>.\<close>

definition same_tree :: "elements \<Rightarrow> elements \<Rightarrow> bool" where
  "same_tree h h1 \<longleftrightarrow> (\<forall>a. map_option (\<lambda>e. (el_parent e, el_children e)) (h a) = map_option (\<lambda>e. (el_parent e, el_children e)) (h1 a))"

definition same_leaves :: "nat \<Rightarrow> elements \<Rightarrow> elements \<Rightarrow> bool" where
  "same_leaves a h h1 \<longleftrightarrow> (\<forall>b e. h b = Some e \<longrightarrow> el_children e = [] \<longrightarrow> b \<noteq> a \<longrightarrow> h1 b = Some e)"

lemma same_tree_refl [simp]: "same_tree h h" by (simp add: same_tree_def)

lemma same_tree_trans: "same_tree h h1 \<Longrightarrow> same_tree h1 h2 \<Longrightarrow> same_tree h h2" by (simp add: same_tree_def)

lemma same_tree_flag: "h a = Some e \<Longrightarrow> same_tree h (h(a \<mapsto> e\<lparr>el_enable := b\<rparr>))" by (simp add: same_tree_def)

lemma same_treeD: "same_tree h h1 \<Longrightarrow> h a = Some e \<Longrightarrow> \<exists>e1. h1 a = Some e1 \<and> el_parent e1 = el_parent e \<and> el_children e1 = el_children e"
  unfolding same_tree_def by (drule spec [of _ a]) (auto simp: map_option_case split: option.splits)

lemma same_tree_sym: "same_tree h h1 \<Longrightarrow> same_tree h1 h" by (simp add: same_tree_def)

lemma tree_ok_same:
  assumes "same_tree h h1" "tree_ok rk h"
  shows "tree_ok rk h1"
  unfolding tree_ok_def
proof (intro allI impI)
  fix a e assume "h1 a = Some e"
  from same_treeD [OF same_tree_sym [OF assms(1)] this] obtain e0 where e0: "h a = Some e0" "el_parent e0 = el_parent e" "el_children e0 = el_children e" by auto
  then have t: "\<And>p. el_parent e = Some p \<Longrightarrow> rk p < rk a \<and> (\<exists>f. h p = Some f \<and> a \<in> set (el_children f))"
    "\<And>c. c \<in> set (el_children e) \<Longrightarrow> \<exists>f. h c = Some f \<and> el_parent f = Some a"
    using assms(2) unfolding tree_ok_def by metis+
  show "(\<forall>p. el_parent e = Some p \<longrightarrow> rk p < rk a \<and> (\<exists>f. h1 p = Some f \<and> a \<in> set (el_children f))) \<and>
     (\<forall>c \<in> set (el_children e). \<exists>f. h1 c = Some f \<and> el_parent f = Some a)"
    using t same_treeD [OF assms(1)] by metis
qed

lemma same_leaves_refl [simp]: "same_leaves a h h" by (simp add: same_leaves_def)

section \<open>Setting one flag\<close>

lemma enabled_flag [simp]: "enabled (h(a \<mapsto> e)) b = (if b = a then el_enable e else enabled h b)"
  by (simp add: enabled_def)

lemma child_of:
  assumes "tree_ok rk h" "h b = Some f" "a \<in> set (el_children f)" "h a = Some e"
  shows "el_parent e = Some b" "rk b < rk a"
  using assms unfolding tree_ok_def by (metis option.inject)+

text \<open>Changing the flag of an element may only make its parent wrong.\<close>

lemma flag_node_ok:
  assumes "tree_ok rk h" "h a = Some e" "node_ok h b" "b \<noteq> a" "el_parent e \<noteq> Some b"
  shows "node_ok (h(a \<mapsto> e\<lparr>el_enable := v\<rparr>)) b"
  unfolding node_ok_def
proof (intro allI impI)
  fix f assume "(h(a \<mapsto> e\<lparr>el_enable := v\<rparr>)) b = Some f" "el_children f \<noteq> []"
  then have f: "h b = Some f" "el_children f \<noteq> []" using assms(4) by simp_all
  have "a \<notin> set (el_children f)" using child_of(1) [OF assms(1) f(1) _ assms(2)] assms(5) by blast
  then have "(\<exists>c \<in> set (el_children f). enabled (h(a \<mapsto> e\<lparr>el_enable := v\<rparr>)) c) \<longleftrightarrow> (\<exists>c \<in> set (el_children f). enabled h c)" by auto
  then show "el_enable f \<longleftrightarrow> (\<exists>c \<in> set (el_children f). enabled (h(a \<mapsto> e\<lparr>el_enable := v\<rparr>)) c)"
    using assms(3) f by (simp add: node_ok_def)
qed

lemma flag_self_ok:
  assumes "tree_ok rk h" "h a = Some e" "el_children e = [] \<or> (v \<longleftrightarrow> (\<exists>c \<in> set (el_children e). enabled h c))"
  shows "node_ok (h(a \<mapsto> e\<lparr>el_enable := v\<rparr>)) a"
proof -
  have "a \<notin> set (el_children e)" using child_of(2) [OF assms(1,2) _ assms(2)] by blast
  then have "(\<exists>c \<in> set (el_children e). enabled (h(a \<mapsto> e\<lparr>el_enable := v\<rparr>)) c) \<longleftrightarrow> (\<exists>c \<in> set (el_children e). enabled h c)" by auto
  then show ?thesis using assms(3) by (auto simp: node_ok_def)
qed

lemma flag_leaves: "h a = Some e \<Longrightarrow> same_leaves a h (h(a \<mapsto> e\<lparr>el_enable := v\<rparr>))"
  by (simp add: same_leaves_def)

lemma leaves_trans:
  assumes "same_leaves a h h1" "same_leaves p h1 h2" "h p = Some f" "el_children f \<noteq> []" "same_tree h h1"
  shows "same_leaves a h h2"
  unfolding same_leaves_def
proof (intro allI impI)
  fix b e assume b: "h b = Some e" "el_children e = []" "b \<noteq> a"
  then have "b \<noteq> p" using assms(3,4) by auto
  moreover have "h1 b = Some e" using assms(1) b by (simp add: same_leaves_def)
  ultimately show "h2 b = Some e" using assms(2) b(2) by (simp add: same_leaves_def)
qed

section \<open>Enabling and disabling keep the invariant\<close>

lemma enable_ok:
  "tree_ok rk h \<Longrightarrow> h a = Some e \<Longrightarrow> \<forall>b. b \<noteq> a \<longrightarrow> node_ok h b \<Longrightarrow> el_children e = [] \<or> (\<exists>c \<in> set (el_children e). enabled h c) \<Longrightarrow>
   \<not> el_enable e \<Longrightarrow> 2 * rk a < n \<Longrightarrow>
   \<exists>h1. enable n a h = Some h1 \<and> same_tree h h1 \<and> enabled h1 a \<and> (\<forall>b. node_ok h1 b) \<and> same_leaves a h h1 \<and>
     (\<forall>b. enabled h b \<longrightarrow> enabled h1 b)"
proof (induction "rk a" arbitrary: a e h n rule: less_induct)
  case less
  let ?h = "h(a \<mapsto> e\<lparr>el_enable := True\<rparr>)"
  obtain m where n: "n = Suc m" "2 * rk a \<le> m" using less.prems(6) by (cases n) auto
  have step: "enable n a h = after_enable m (el_parent e) ?h" using n less.prems(2,5) by simp
  have self: "node_ok ?h a" using less.prems(1,2,4) by (intro flag_self_ok) auto
  have tree: "same_tree h ?h" "tree_ok rk ?h" using same_tree_flag [of h a e True] tree_ok_same less.prems(1,2) by blast+
  have lv: "same_leaves a h ?h" using flag_leaves [of h a e True] less.prems(2) by blast
  have others: "node_ok ?h b" if "el_parent e \<noteq> Some b" for b
    using flag_node_ok [OF less.prems(1,2) _ _ that] self less.prems(3) by (cases "b = a") auto
  show ?case
  proof (cases "el_parent e")
    case None
    then show ?thesis using step tree(1) others lv by auto
  next
    case (Some p)
    then obtain f where p: "rk p < rk a" "h p = Some f" "a \<in> set (el_children f)"
      using less.prems(1,2) unfolding tree_ok_def by blast
    then have hp: "?h p = Some f" "p \<noteq> a" by auto
    obtain k where k: "m = Suc k" "2 * rk p + 1 \<le> k" using p(1) n(2) by (cases m) auto
    show ?thesis
    proof (cases "el_enable f")
      case True
      then have "node_ok ?h p" using p(3) hp by (auto simp: node_ok_def intro!: bexI [of _ a])
      then have "\<forall>b. node_ok ?h b" using others Some by (metis option.inject)
      then show ?thesis using step Some k(1) hp True tree(1) lv by simp
    next
      case False
      have oth: "\<forall>b. b \<noteq> p \<longrightarrow> node_ok ?h b" using others Some by simp
      have ex: "\<exists>c \<in> set (el_children f). enabled ?h c" using p(3) by (intro bexI [of _ a]) simp_all
      have fuel: "2 * rk p < k" using k(2) by simp
      obtain h1 where h1: "enable k p ?h = Some h1" "same_tree ?h h1" "enabled h1 p" "\<forall>b. node_ok h1 b" "same_leaves p ?h h1"
        "\<forall>b. enabled ?h b \<longrightarrow> enabled h1 b"
        using less.hyps [OF p(1) tree(2) hp(1) oth disjI2 [OF ex] False fuel] by blast
      obtain f1 where f1: "h1 p = Some f1" "el_parent f1 = el_parent f" using same_treeD [OF h1(2) hp(1)] by auto
      have "after_enable k (el_parent f) h1 = Some h1"
      proof (cases "el_parent f")
        case (Some g)
        have "tree_ok rk h1" using tree_ok_same [OF h1(2) tree(2)] .
        then obtain gf where g: "rk g < rk p" "h1 g = Some gf" "p \<in> set (el_children gf)" using f1 Some unfolding tree_ok_def by metis
        then have "el_enable gf" using h1(3,4) unfolding node_ok_def by (metis empty_iff list.set(1))
        moreover obtain j where "k = Suc j" using g(1) k(2) by (cases k) auto
        ultimately show ?thesis using Some g(2) by simp
      qed (cases k; simp)
      then have "enable n a h = Some h1" using step Some k(1) hp False h1(1) by simp
      moreover have "enabled h1 a" "\<forall>b. enabled h b \<longrightarrow> enabled h1 b" using h1(6) by auto
      moreover have "same_leaves a h h1"
        using leaves_trans [OF lv h1(5) p(2)] p(3) tree(1) by fastforce
      ultimately show ?thesis using h1(4) same_tree_trans [OF tree(1) h1(2)] by blast
    qed
  qed
qed

lemma all_disabled_ok:
  assumes "\<forall>c \<in> set cs. \<exists>f. h c = Some f"
  shows "all_disabled h cs = Some (\<forall>c \<in> set cs. \<not> enabled h c)"
  using assms by (induction cs) (auto simp: enabled_def)

text \<open>Where the flags are right, the loop of \<^verbatim>\<open>AfterDisable\<close> changes nothing.\<close>

lemma after_disable_idle:
  "tree_ok rk h \<Longrightarrow> \<forall>b. node_ok h b \<Longrightarrow> (\<forall>p. q = Some p \<longrightarrow> (\<exists>f. h p = Some f \<and> el_children f \<noteq> []) \<and> 2 * rk p + 1 < n) \<Longrightarrow>
   after_disable n q h = Some h"
proof (induction n arbitrary: q)
  case 0
  then show ?case by (cases q) auto
next
  case (Suc n)
  show ?case
  proof (cases q)
    case (Some p)
    then obtain f where f: "h p = Some f" "el_children f \<noteq> []" "2 * rk p + 1 < Suc n" using Suc.prems(3) by blast
    have all: "all_disabled h (el_children f) = Some (\<forall>c \<in> set (el_children f). \<not> enabled h c)"
      using Suc.prems(1) f(1) unfolding tree_ok_def by (intro all_disabled_ok) blast
    show ?thesis
    proof (cases "el_enable f")
      case True
      then have "\<exists>c \<in> set (el_children f). enabled h c" using Suc.prems(2) f unfolding node_ok_def by blast
      then have "all_disabled h (el_children f) = Some False" unfolding all option.inject by blast
      then show ?thesis using Some f(1) by simp
    next
      case False
      then have "\<forall>c \<in> set (el_children f). \<not> enabled h c" using Suc.prems(2) f unfolding node_ok_def by blast
      moreover obtain m where "n = Suc m" using f(3) by (cases n) auto
      moreover have "after_disable n (el_parent f) h = Some h"
      proof (rule Suc.IH [OF Suc.prems(1,2)], intro allI impI)
        fix g assume "el_parent f = Some g"
        then obtain gf where "rk g < rk p" "h g = Some gf" "p \<in> set (el_children gf)" using Suc.prems(1) f(1) unfolding tree_ok_def by blast
        then show "(\<exists>gf. h g = Some gf \<and> el_children gf \<noteq> []) \<and> 2 * rk g + 1 < n" using f(3) by auto
      qed
      ultimately show ?thesis using Some f(1) all False by simp
    qed
  qed (cases n; simp)
qed

lemma disable_ok:
  "tree_ok rk h \<Longrightarrow> h a = Some e \<Longrightarrow> \<forall>b. b \<noteq> a \<longrightarrow> node_ok h b \<Longrightarrow> el_children e = [] \<or> \<not> (\<exists>c \<in> set (el_children e). enabled h c) \<Longrightarrow>
   el_enable e \<Longrightarrow> 2 * rk a < n \<Longrightarrow>
   \<exists>h1. disable n a h = Some h1 \<and> same_tree h h1 \<and> \<not> enabled h1 a \<and> (\<forall>b. node_ok h1 b) \<and> same_leaves a h h1 \<and>
     (\<forall>b. enabled h1 b \<longrightarrow> enabled h b)"
proof (induction "rk a" arbitrary: a e h n rule: less_induct)
  case less
  let ?h = "h(a \<mapsto> e\<lparr>el_enable := False\<rparr>)"
  obtain m where n: "n = Suc m" "2 * rk a \<le> m" using less.prems(6) by (cases n) auto
  have step: "disable n a h = after_disable m (el_parent e) ?h" using n less.prems(2,5) by simp
  have self: "node_ok ?h a" using less.prems(1,2,4) by (intro flag_self_ok) auto
  have tree: "same_tree h ?h" "tree_ok rk ?h" using same_tree_flag [of h a e False] tree_ok_same less.prems(1,2) by blast+
  have lv: "same_leaves a h ?h" using flag_leaves [of h a e False] less.prems(2) by blast
  have others: "node_ok ?h b" if "el_parent e \<noteq> Some b" for b
    using flag_node_ok [OF less.prems(1,2) _ _ that] self less.prems(3) by (cases "b = a") auto
  show ?case
  proof (cases "el_parent e")
    case None
    then show ?thesis using step tree(1) others lv by auto
  next
    case (Some p)
    then obtain f where p: "rk p < rk a" "h p = Some f" "a \<in> set (el_children f)"
      using less.prems(1,2) unfolding tree_ok_def by blast
    then have hp: "?h p = Some f" "p \<noteq> a" by auto
    have on: "el_enable f"
    proof -
      have "enabled h a" using less.prems(2,5) by (simp add: enabled_def)
      then show ?thesis using less.prems(3) p(2,3) hp(2) unfolding node_ok_def by (metis empty_iff list.set(1))
    qed
    obtain k where k: "m = Suc k" "2 * rk p + 1 \<le> k" using p(1) n(2) by (cases m) auto
    have all: "all_disabled ?h (el_children f) = Some (\<forall>c \<in> set (el_children f). \<not> enabled ?h c)"
      using tree(2) hp(1) unfolding tree_ok_def by (intro all_disabled_ok) blast
    show ?thesis
    proof (cases "\<exists>c \<in> set (el_children f). enabled ?h c")
      case True
      then have "node_ok ?h p" using on hp by (auto simp: node_ok_def)
      then have "\<forall>b. node_ok ?h b" using others Some by (metis option.inject)
      moreover have "all_disabled ?h (el_children f) = Some False" unfolding all option.inject using True by blast
      ultimately show ?thesis using step Some k(1) hp tree(1) lv by auto
    next
      case False
      have oth: "\<forall>b. b \<noteq> p \<longrightarrow> node_ok ?h b" using others Some by simp
      have fuel: "2 * rk p < k" using k(2) by simp
      obtain h1 where h1: "disable k p ?h = Some h1" "same_tree ?h h1" "\<not> enabled h1 p" "\<forall>b. node_ok h1 b" "same_leaves p ?h h1"
        "\<forall>b. enabled h1 b \<longrightarrow> enabled ?h b"
        using less.hyps [OF p(1) tree(2) hp(1) oth disjI2 [OF False] on fuel] by blast
      obtain f1 where f1: "h1 p = Some f1" "el_parent f1 = el_parent f" using same_treeD [OF h1(2) hp(1)] by auto
      have tree1: "tree_ok rk h1" using tree_ok_same [OF h1(2) tree(2)] .
      have "after_disable k (el_parent f) h1 = Some h1"
      proof (rule after_disable_idle [OF tree1 h1(4)], intro allI impI)
        fix g assume "el_parent f = Some g"
        then obtain gf where "rk g < rk p" "h1 g = Some gf" "p \<in> set (el_children gf)" using tree1 f1 unfolding tree_ok_def by metis
        then show "(\<exists>gf. h1 g = Some gf \<and> el_children gf \<noteq> []) \<and> 2 * rk g + 1 < k" using k(2) by auto
      qed
      moreover have "all_disabled ?h (el_children f) = Some True" unfolding all option.inject using False by blast
      ultimately have "disable n a h = Some h1" using step Some k(1) hp h1(1) by simp
      moreover have "\<not> enabled h1 a" "\<forall>b. enabled h1 b \<longrightarrow> enabled h b" using h1(6) by (auto split: if_splits)
      moreover have "same_leaves a h h1"
        using leaves_trans [OF lv h1(5) p(2)] p(3) tree(1) by fastforce
      ultimately show ?thesis using h1(4) same_tree_trans [OF tree(1) h1(2)] by blast
    qed
  qed
qed

definition tree_inv :: "(nat \<Rightarrow> nat) \<Rightarrow> elements \<Rightarrow> bool" where
  "tree_inv rk h \<longleftrightarrow> tree_ok rk h \<and> (\<forall>b. node_ok h b)"

definition leaf :: "elements \<Rightarrow> nat \<Rightarrow> bool" where
  "leaf h a \<longleftrightarrow> (\<exists>e. h a = Some e \<and> el_children e = [])"

lemma leaf_same: "same_tree h h1 \<Longrightarrow> leaf h1 a \<longleftrightarrow> leaf h a"
  unfolding leaf_def by (metis same_treeD same_tree_sym)

lemma set_leaf:
  assumes "tree_inv rk h" "leaf h a" "2 * rk a < n"
  shows "\<exists>h1. (if v then enable n a h else disable n a h) = Some h1 \<and> tree_inv rk h1 \<and> same_tree h h1 \<and> enabled h1 a = v \<and>
    (\<forall>b. leaf h b \<and> b \<noteq> a \<longrightarrow> enabled h1 b = enabled h b)"
proof -
  from assms(2) obtain e where e: "h a = Some e" "el_children e = []" by (auto simp: leaf_def)
  have inv: "tree_ok rk h" "\<forall>b. b \<noteq> a \<longrightarrow> node_ok h b" using assms(1) by (simp_all add: tree_inv_def)
  have leaves: "\<forall>b. leaf h b \<and> b \<noteq> a \<longrightarrow> enabled h1 b = enabled h b" if "same_leaves a h h1" for h1
    using that by (auto simp: same_leaves_def leaf_def enabled_def)
  show ?thesis
  proof (cases "el_enable e = v")
    case True
    then have "(if v then enable n a h else disable n a h) = Some h" using e(1) assms(3) by (cases n) auto
    then show ?thesis using assms(1) True e(1) by (auto simp: enabled_def)
  next
    case False
    have "\<exists>h1. (if v then enable n a h else disable n a h) = Some h1 \<and> same_tree h h1 \<and> enabled h1 a = v \<and> (\<forall>b. node_ok h1 b) \<and> same_leaves a h h1"
    proof (cases v)
      case True
      with enable_ok [OF inv(1) e(1) inv(2) disjI1 [OF e(2)] _ assms(3)] False show ?thesis by auto
    next
      case v: False
      with disable_ok [OF inv(1) e(1) inv(2) disjI1 [OF e(2)] _ assms(3)] False show ?thesis by auto
    qed
    then obtain h1 where "(if v then enable n a h else disable n a h) = Some h1" "same_tree h h1" "enabled h1 a = v" "\<forall>b. node_ok h1 b" "same_leaves a h h1"
      by blast
    then show ?thesis using leaves [of h1] tree_ok_same [of h h1, OF _ inv(1)] unfolding tree_inv_def by blast
  qed
qed

text \<open>A service below an element.\<close>

inductive is_below :: "elements \<Rightarrow> nat \<Rightarrow> nat \<Rightarrow> bool" for h where
  self: "leaf h a \<Longrightarrow> is_below h a a"
| child: "h a = Some e \<Longrightarrow> c \<in> set (el_children e) \<Longrightarrow> is_below h c b \<Longrightarrow> is_below h a b"

lemma below_enabled: "is_below h a b \<Longrightarrow> tree_inv rk h \<Longrightarrow> enabled h b \<Longrightarrow> enabled h a"
proof (induction rule: is_below.induct)
  case (child a e c b)
  then show ?case by (fastforce simp: tree_inv_def node_ok_def enabled_def)
qed simp

lemma enabled_below:
  assumes "tree_inv rk h" "\<forall>a e. h a = Some e \<longrightarrow> rk a \<le> N"
  shows "enabled h a \<Longrightarrow> \<exists>b. is_below h a b \<and> leaf h b \<and> enabled h b"
proof (induction "N - rk a" arbitrary: a rule: less_induct)
  case less
  then obtain e where e: "h a = Some e" "el_enable e" by (auto simp: enabled_def split: option.splits)
  show ?case
  proof (cases "el_children e = []")
    case True
    then have "leaf h a" using e by (simp add: leaf_def)
    then show ?thesis using less.prems by (auto intro: is_below.self)
  next
    case False
    then obtain c where c: "c \<in> set (el_children e)" "enabled h c" using assms(1) e by (auto simp: tree_inv_def node_ok_def)
    then obtain f where f: "h c = Some f" by (auto simp: enabled_def split: option.splits)
    have "rk a < rk c" using child_of(2) [OF _ e(1) c(1) f] assms(1) by (simp add: tree_inv_def)
    moreover have "rk c \<le> N" using assms(2) f by blast
    ultimately obtain b where "is_below h c b" "leaf h b" "enabled h b" using less.hyps [of c] c(2) by (auto simp: diff_less_mono2)
    then show ?thesis using is_below.child [of h a e c b] e(1) c(1) by blast
  qed
qed

text \<open>Services that are enabled and disabled one after the other.\<close>

fun flag_run :: "nat \<Rightarrow> (nat \<times> bool) list \<Rightarrow> elements \<Rightarrow> elements option" where
  "flag_run n [] h = Some h"
| "flag_run n ((a, v) # xs) h = Option.bind (if v then enable n a h else disable n a h) (flag_run n xs)"

lemma flag_run_ok:
  assumes "\<forall>a e. h0 a = Some e \<longrightarrow> 2 * rk a < n"
  shows "tree_inv rk h \<Longrightarrow> same_tree h0 h \<Longrightarrow> \<forall>(a, v) \<in> set xs. leaf h0 a \<Longrightarrow>
    \<exists>h1. flag_run n xs h = Some h1 \<and> tree_inv rk h1 \<and> same_tree h0 h1 \<and>
      (\<forall>b. leaf h0 b \<longrightarrow> enabled h1 b = (case map_of (rev xs) b of Some v \<Rightarrow> v | None \<Rightarrow> enabled h b))"
proof (induction xs arbitrary: h)
  case (Cons x xs)
  obtain a v where x: "x = (a, v)" by fastforce
  have leaf: "leaf h0 a" using Cons.prems(3) x by auto
  then have "2 * rk a < n" using assms by (auto simp: leaf_def)
  from set_leaf [OF Cons.prems(1) _ this, of v] leaf leaf_same [OF Cons.prems(2)] obtain h2 where
    h2: "(if v then enable n a h else disable n a h) = Some h2" "tree_inv rk h2" "same_tree h h2" "enabled h2 a = v"
      "\<forall>b. leaf h0 b \<and> b \<noteq> a \<longrightarrow> enabled h2 b = enabled h b" by auto
  from Cons.IH [OF h2(2) same_tree_trans [OF Cons.prems(2) h2(3)]] Cons.prems(3) obtain h1 where
    h1: "flag_run n xs h2 = Some h1" "tree_inv rk h1" "same_tree h0 h1"
      "\<forall>b. leaf h0 b \<longrightarrow> enabled h1 b = (case map_of (rev xs) b of Some v \<Rightarrow> v | None \<Rightarrow> enabled h2 b)" by auto
  have "enabled h1 b = (case map_of (rev (x # xs)) b of Some v \<Rightarrow> v | None \<Rightarrow> enabled h b)" if "leaf h0 b" for b
    using h1(4) h2(4,5) that x by (cases "map_of (rev xs) b") (auto simp: map_add_def)
  then show ?case using h1(1-3) h2(1) x by auto
qed auto

text \<open>After services were enabled and disabled in any order, every group and every set of replicas is enabled if and
  only if a service below it is, each service as it was set last; no deleted element is looked at and the
  mutual calls end.\<close>

lemma tree_follows_services:
  assumes "tree_inv rk h" "\<forall>a e. h a = Some e \<longrightarrow> 2 * rk a < n" "\<forall>(a, v) \<in> set xs. leaf h a"
  shows "\<exists>h1. flag_run n xs h = Some h1 \<and> (\<forall>a. enabled h1 a \<longleftrightarrow> (\<exists>b. is_below h1 a b \<and> leaf h1 b \<and> enabled h1 b)) \<and>
    (\<forall>b. leaf h b \<longrightarrow> enabled h1 b = (case map_of (rev xs) b of Some v \<Rightarrow> v | None \<Rightarrow> enabled h b))"
proof -
  from flag_run_ok [OF assms(2,1) same_tree_refl assms(3)] obtain h1 where h1: "flag_run n xs h = Some h1" "tree_inv rk h1" "same_tree h h1"
    "\<forall>b. leaf h b \<longrightarrow> enabled h1 b = (case map_of (rev xs) b of Some v \<Rightarrow> v | None \<Rightarrow> enabled h b)" by blast
  have "\<forall>a e. h1 a = Some e \<longrightarrow> rk a \<le> n"
  proof (intro allI impI)
    fix a e assume "h1 a = Some e"
    then obtain e0 where "h a = Some e0" using same_treeD [OF same_tree_sym [OF h1(3)]] by blast
    then have "2 * rk a < n" using assms(2) by blast
    then show "rk a \<le> n" by simp
  qed
  then have "enabled h1 a \<longleftrightarrow> (\<exists>b. is_below h1 a b \<and> leaf h1 b \<and> enabled h1 b)" for a
    using enabled_below [OF h1(2)] below_enabled [OF _ h1(2)] by blast
  then show ?thesis using h1(1,4) by blast
qed

text \<open>A sample: a group 0 with the replicas 1 of the services 2 and 3.\<close>

definition small_group :: elements where
  "small_group = [0 \<mapsto> \<lparr>el_enable = False, el_parent = None, el_children = [1]\<rparr>,
     1 \<mapsto> \<lparr>el_enable = False, el_parent = Some 0, el_children = [2, 3]\<rparr>,
     2 \<mapsto> \<lparr>el_enable = False, el_parent = Some 1, el_children = []\<rparr>,
     3 \<mapsto> \<lparr>el_enable = False, el_parent = Some 1, el_children = []\<rparr>]"

definition small_rank :: "nat \<Rightarrow> nat" where "small_rank a = (if a = 3 then 2 else a)"

lemma small_group_cases:
  "small_group a = Some e \<Longrightarrow> a = 0 \<and> e = \<lparr>el_enable = False, el_parent = None, el_children = [1]\<rparr> \<or>
    a = 1 \<and> e = \<lparr>el_enable = False, el_parent = Some 0, el_children = [2, 3]\<rparr> \<or>
    (a = 2 \<or> a = 3) \<and> e = \<lparr>el_enable = False, el_parent = Some 1, el_children = []\<rparr>"
  by (auto simp: small_group_def split: if_splits)

lemma small_group_at: "small_group 0 = Some \<lparr>el_enable = False, el_parent = None, el_children = [1]\<rparr>"
  "small_group 1 = Some \<lparr>el_enable = False, el_parent = Some 0, el_children = [2, 3]\<rparr>"
  "small_group 2 = Some \<lparr>el_enable = False, el_parent = Some 1, el_children = []\<rparr>"
  "small_group 3 = Some \<lparr>el_enable = False, el_parent = Some 1, el_children = []\<rparr>"
  by (simp_all add: small_group_def)

lemma small_group_inv: "tree_inv small_rank small_group"
proof -
  have "tree_ok small_rank small_group"
    unfolding tree_ok_def
    by (intro allI impI, drule small_group_cases) (elim disjE conjE; simp add: small_group_at small_rank_def del: One_nat_def)
  moreover have "node_ok small_group b" for b
    unfolding node_ok_def
    by (intro allI impI, drule small_group_cases) (elim disjE conjE; simp add: small_group_at enabled_def del: One_nat_def)
  ultimately show ?thesis by (simp add: tree_inv_def)
qed

lemma tree_follows_services_witness:
  "\<exists>h1. flag_run 9 [(2, True), (3, True), (2, False)] small_group = Some h1 \<and> \<not> enabled h1 2 \<and> enabled h1 3 \<and>
     (enabled h1 0 \<longleftrightarrow> (\<exists>b. is_below h1 0 b \<and> leaf h1 b \<and> enabled h1 b))"
proof -
  have "\<forall>a e. small_group a = Some e \<longrightarrow> 2 * small_rank a < 9" "\<forall>(a, v) \<in> set [(2, True), (3, True), (2, False)]. leaf small_group a"
    by (auto dest!: small_group_cases simp: small_rank_def leaf_def small_group_at)
  from tree_follows_services [OF small_group_inv this] obtain h1 where
    h1: "flag_run 9 [(2, True), (3, True), (2, False)] small_group = Some h1" "\<And>a. enabled h1 a \<longleftrightarrow> (\<exists>b. is_below h1 a b \<and> leaf h1 b \<and> enabled h1 b)"
    "\<And>b. leaf small_group b \<Longrightarrow> enabled h1 b = (case map_of (rev [(2, True), (3, True), (2, False)]) b of Some v \<Rightarrow> v | None \<Rightarrow> enabled small_group b)"
    by blast
  have "leaf small_group 2" "leaf small_group 3" by (simp_all add: leaf_def small_group_at)
  from h1(3) [OF this(1)] h1(3) [OF this(2)] have "\<not> enabled h1 2" "enabled h1 3" by simp_all
  then show ?thesis using h1(1) h1(2) [of 0] by blast
qed

end
