(* ===== verification/SvcChoose.thy ===== *)
theory SvcChoose
  imports SvcTree
begin

text \<open>
  How the client library chooses one of several elements (\<^verbatim>\<open>friend_serv/common/strategy.cpp\<close>): the first that is
  enabled, each in turn, or by a number or a string. \<open>None\<close> is an element that was deleted, an access outside the
  vector, a division by zero or a signed overflow; \<open>Some None\<close> is the null pointer.
\<close>

section \<open>The strategies\<close>

fun fixed_choose :: "elements \<Rightarrow> nat list \<Rightarrow> nat option option" where
  "fixed_choose h [] = Some None"
| "fixed_choose h (a # as) =
     (case h a of None \<Rightarrow> None | Some e \<Rightarrow> if el_enable e then Some (Some a) else fixed_choose h as)"

text \<open>The search of \<^verbatim>\<open>RollStrategy\<close>, at most \<open>n\<close> steps from \<open>index\<close>.\<close>

fun roll_from :: "elements \<Rightarrow> nat list \<Rightarrow> nat \<Rightarrow> nat \<Rightarrow> nat option option" where
  "roll_from h as 0 index = Some None"
| "roll_from h as (Suc n) index =
     (case h (as ! index) of
        None \<Rightarrow> None
      | Some e \<Rightarrow> if el_enable e then Some (Some (as ! index)) else roll_from h as n ((index + 1) mod length as))"

definition roll_choose :: "elements \<Rightarrow> nat list \<Rightarrow> nat \<Rightarrow> (nat option \<times> nat) option" where
  "roll_choose h as current =
     (if as = [] then Some (None, current)
      else Option.bind (roll_from h as (length as) (current mod length as)) (\<lambda>r.
        case r of None \<Rightarrow> Some (None, current)
        | Some a \<Rightarrow> if current \<ge> 2147483647 then None else Some (Some a, current + 1)))"

text \<open>\<^verbatim>\<open>seed % 100 / (100 / size)\<close>: the remainder has the sign of the seed and is then taken for a \<^verbatim>\<open>size_t\<close>.\<close>

definition c_rem :: "int \<Rightarrow> int \<Rightarrow> int" where
  "c_rem a b = (if a \<ge> 0 then a mod b else - ((- a) mod b))"

definition region_index :: "nat \<Rightarrow> int \<Rightarrow> nat option" where
  "region_index n seed = (if 100 div n = 0 then None else Some (nat (c_rem seed 100 mod 18446744073709551616) div (100 div n)))"

definition look :: "elements \<Rightarrow> nat list \<Rightarrow> nat \<Rightarrow> nat option option" where
  "look h as i =
     (if i \<ge> length as then None
      else case h (as ! i) of None \<Rightarrow> None | Some e \<Rightarrow> Some (if el_enable e then Some (as ! i) else None))"

definition int_choose :: "elements \<Rightarrow> nat list \<Rightarrow> int \<Rightarrow> nat option option" where
  "int_choose h as seed = (if as = [] then Some None else Option.bind (region_index (length as) seed) (look h as))"

fun string_key :: "int \<Rightarrow> byte list \<Rightarrow> int option" where
  "string_key key [] = Some key"
| "string_key key (b # bs) =
     (let k = key + (31 * key + int (unat b)) in if k > 2147483647 then None else string_key k bs)"

definition string_choose :: "elements \<Rightarrow> nat list \<Rightarrow> byte list \<Rightarrow> nat option option" where
  "string_choose h as seed =
     (if as = [] then Some None else Option.bind (string_key 0 seed) (\<lambda>key. look h as (nat key mod length as)))"

section \<open>Fixed and in turn\<close>

definition alive :: "elements \<Rightarrow> nat list \<Rightarrow> bool" where
  "alive h as \<longleftrightarrow> (\<forall>a \<in> set as. h a \<noteq> None)"

lemma fixed_choose_first: "alive h as \<Longrightarrow> fixed_choose h as = Some (List.find (enabled h) as)"
  by (induction as) (auto simp: alive_def enabled_def)

lemma roll_from_ok:
  "alive h as \<Longrightarrow> i < length as \<Longrightarrow>
   roll_from h as n i = Some (map_option (\<lambda>k. as ! ((i + k) mod length as)) (List.find (\<lambda>k. enabled h (as ! ((i + k) mod length as))) [0..<n]))"
proof (induction n arbitrary: i)
  case (Suc n)
  let ?m = "length as"
  have e: "\<exists>e. h (as ! i) = Some e \<and> el_enable e = enabled h (as ! i)" using Suc.prems by (auto simp: alive_def enabled_def split: option.splits dest: nth_mem)
  have up: "[0..<Suc n] = 0 # map Suc [0..<n]" by (simp add: upt_conv_Cons map_Suc_upt del: upt_Suc)
  have step: "(Suc i mod ?m + k) mod ?m = (i + Suc k) mod ?m" for k by (simp add: mod_simps)
  have find_map: "List.find P (map Suc xs) = map_option Suc (List.find (\<lambda>k. P (Suc k)) xs)" for P xs by (induction xs) auto
  show ?case
  proof (cases "enabled h (as ! i)")
    case True
    then show ?thesis using e Suc.prems(2) unfolding up by auto
  next
    case False
    have "0 < ?m" using Suc.prems(2) by linarith
    then have "Suc i mod ?m < ?m" by simp
    then show ?thesis using False e Suc.prems Suc.IH [of "Suc i mod ?m"] unfolding up
      by (auto simp: find_map step option.map_comp o_def)
  qed
qed simp

text \<open>With all enabled, \<open>n\<close> calls in a row choose every element in turn; elements that are not are passed over.\<close>

lemma roll_choose_turn:
  assumes "alive h as" "\<forall>a \<in> set as. enabled h a" "as \<noteq> []" "current < 2147483647"
  shows "roll_choose h as current = Some (Some (as ! (current mod length as)), current + 1)"
proof -
  have "current mod length as < length as" using assms(3) by simp
  moreover from this have "enabled h (as ! (current mod length as))" using assms(2) by simp
  moreover have "[0..<length as] = 0 # [1..<length as]" using assms(3) by (simp add: upt_conv_Cons)
  ultimately show ?thesis using assms(1,3,4) by (simp add: roll_choose_def roll_from_ok)
qed

lemma roll_choose_some:
  assumes "alive h as" "current < 2147483647"
  shows "\<exists>r c. roll_choose h as current = Some (r, c) \<and> (case r of Some a \<Rightarrow> a \<in> set as \<and> enabled h a | None \<Rightarrow> \<forall>a \<in> set as. \<not> enabled h a)"
proof (cases "as = []")
  case False
  let ?n = "length as" and ?i = "current mod length as"
  have i: "?i < ?n" using False by simp
  let ?P = "\<lambda>k. enabled h (as ! ((?i + k) mod ?n))"
  show ?thesis
  proof (cases "List.find ?P [0..<?n]")
    case None
    have "\<not> enabled h a" if "a \<in> set as" for a
    proof -
      from that obtain j where j: "j < ?n" "as ! j = a" by (auto simp: in_set_conv_nth)
      let ?k = "if ?i \<le> j then j - ?i else j + ?n - ?i"
      have "?k < ?n" "(?i + ?k) mod ?n = j" using i j(1) by auto
      then show ?thesis using None j(2) by (auto simp: find_None_iff)
    qed
    then show ?thesis using assms(1) False i None by (simp add: roll_choose_def roll_from_ok)
  next
    case (Some k)
    then have "?P k" by (auto simp: find_Some_iff)
    moreover have "as ! ((?i + k) mod ?n) \<in> set as" using False by simp
    ultimately show ?thesis using assms False i Some by (simp add: roll_choose_def roll_from_ok)
  qed
qed (simp add: roll_choose_def)

section \<open>Regions\<close>

lemma region_index_nonneg:
  assumes "0 \<le> seed" "0 < n" "n \<le> 100"
  shows "region_index n seed = Some (nat (seed mod 100) div (100 div n))"
proof -
  have "0 < 100 div n" using assms(2,3) by (simp add: div_greater_zero_iff)
  moreover have "seed mod 100 mod 18446744073709551616 = seed mod 100"
  proof (rule mod_pos_pos_trivial)
    show "seed mod 100 < 18446744073709551616" using pos_mod_bound [of 100 seed] by linarith
  qed simp
  ultimately show ?thesis using assms(1) by (simp add: region_index_def c_rem_def)
qed



text \<open>A key is the bytes of the string to the base 32: for up to 32 replicas, as many as a power of two, only the
  last byte counts.\<close>

lemma string_key_mod:
  assumes "string_key key bs = Some k" "d dvd 32" "bs \<noteq> []"
  shows "k mod d = int (unat (last bs)) mod d"
  using assms(1,3)
proof (induction bs arbitrary: key)
  case (Cons b bs)
  let ?k = "key + (31 * key + int (unat b))"
  have rec: "string_key ?k bs = Some k" using Cons.prems(1) by (simp add: Let_def split: if_splits)
  show ?case
  proof (cases bs)
    case Nil
    have "?k = 32 * key + int (unat b)" by simp
    moreover have "32 * key mod d = 0" using assms(2) by simp
    ultimately show ?thesis using rec Nil by (metis add_0 last.simps list.distinct(1) mod_add_left_eq option.inject string_key.simps(1))
  qed (use Cons.IH [OF rec] in simp)
qed simp

end
