(* ===== verification/SvcClient.thy ===== *)
theory SvcClient
  imports SvcTree
begin

text \<open>
  Services with a blocking connection in the client library: \<^verbatim>\<open>TcpClient\<close> (\<^verbatim>\<open>friend_serv/common/tcp_client.cpp\<close>),
  \<^verbatim>\<open>SyncService\<close> and the set of services to be connected again (\<^verbatim>\<open>service.cpp\<close>). The answers of the network are
  arguments.
\<close>

section \<open>Sending and receiving\<close>

datatype sent_io = Sent nat | Sent_again | Sent_intr | Sent_fail

text \<open>The loop of \<^verbatim>\<open>Send\<close>: the result, and whether the connection is closed. \<open>None\<close> is a call that has not returned
  with these answers, or a \<^verbatim>\<open>send\<close> that takes more than it is given.\<close>

fun send_loop :: "nat \<Rightarrow> nat \<Rightarrow> sent_io list \<Rightarrow> (int \<times> bool) option" where
  "send_loop len sent [] = None"
| "send_loop len sent (Sent r # es) =
     (if sent + r > len then None else if sent + r = len then Some (int len, False) else send_loop len (sent + r) es)"
| "send_loop len sent (Sent_again # es) = (if sent = 0 then Some (0, False) else Some (-1, True))"
| "send_loop len sent (Sent_intr # es) = send_loop len sent es"
| "send_loop len sent (Sent_fail # es) = Some (-1, True)"

definition tc_send :: "bool \<Rightarrow> nat \<Rightarrow> sent_io list \<Rightarrow> (int \<times> bool) option" where
  "tc_send opened len es = (if len = 0 then Some (-2, False) else if \<not> opened then Some (-1, False) else send_loop len 0 es)"

datatype recv_io = Got "byte list" | Got_eof | Got_again | Got_intr | Got_fail

text \<open>The loop of \<^verbatim>\<open>Recv\<close>: also the bytes that were written to the buffer, and the answers that are left.\<close>

fun recv_bytes :: "nat \<Rightarrow> byte list \<Rightarrow> recv_io list \<Rightarrow> (int \<times> bool \<times> byte list \<times> recv_io list) option" where
  "recv_bytes len acc [] = None"
| "recv_bytes len acc (Got bs # es) =
     (if bs = [] \<or> length acc + length bs > len then None
      else if length acc + length bs = len then Some (int len, False, acc @ bs, es)
      else recv_bytes len (acc @ bs) es)"
| "recv_bytes len acc (Got_eof # es) = Some (-1, True, acc, es)"
| "recv_bytes len acc (Got_again # es) = Some (if acc = [] then 0 else -1, acc \<noteq> [], acc, es)"
| "recv_bytes len acc (Got_intr # es) = recv_bytes len acc es"
| "recv_bytes len acc (Got_fail # es) = Some (-1, True, acc, es)"

definition tc_recv :: "bool \<Rightarrow> nat \<Rightarrow> recv_io list \<Rightarrow> (int \<times> bool \<times> byte list \<times> recv_io list) option" where
  "tc_recv opened len es =
     (if len = 0 then Some (-2, False, [], es) else if \<not> opened then Some (-1, False, [], es) else recv_bytes len [] es)"

section \<open>Services\<close>

text \<open>\<open>sv_open\<close> says which services have a descriptor. \<open>sv_reinit\<close> is \<^verbatim>\<open>reinit_set\<close>: its nodes by the pointer they hold,
  each with a number of its own, as a node that is erased and inserted again is another one.\<close>

record services =
  sv_heap :: elements
  sv_open :: "nat \<Rightarrow> bool"
  sv_reinit :: "(nat \<times> nat) list"
  sv_next :: nat

fun node_insert :: "nat \<Rightarrow> nat \<Rightarrow> (nat \<times> nat) list \<Rightarrow> (nat \<times> nat) list" where
  "node_insert a k [] = [(a, k)]"
| "node_insert a k ((b, j) # xs) =
     (if a < b then (a, k) # (b, j) # xs else if a = b then (b, j) # xs else (b, j) # node_insert a k xs)"

definition set_to_reinit :: "nat \<Rightarrow> services \<Rightarrow> services" where
  "set_to_reinit a w = w\<lparr>sv_reinit := node_insert a (sv_next w) (sv_reinit w), sv_next := sv_next w + 1\<rparr>"

definition cancel_from_reinit :: "nat \<Rightarrow> services \<Rightarrow> services" where
  "cancel_from_reinit a w = w\<lparr>sv_reinit := filter (\<lambda>x. fst x \<noteq> a) (sv_reinit w)\<rparr>"

record host =
  ho_timeout :: int
  ho_forbidden :: bool

datatype connected = Conn_ok | Conn_error | Conn_bad

definition sync_shut :: "nat \<Rightarrow> nat \<Rightarrow> services \<Rightarrow> services option" where
  "sync_shut n a w =
     map_option (\<lambda>h. cancel_from_reinit a (w\<lparr>sv_heap := h, sv_open := (sv_open w)(a := False)\<rparr>)) (disable n a (sv_heap w))"

definition sync_init :: "nat \<Rightarrow> host \<Rightarrow> connected \<Rightarrow> nat \<Rightarrow> services \<Rightarrow> (bool \<times> services) option" where
  "sync_init n ho conn a w =
     (case sv_heap w a of
        None \<Rightarrow> None
      | Some e \<Rightarrow>
          if el_enable e \<or> ho_timeout ho \<le> 0 \<or> ho_timeout ho > 10000 then map_option (\<lambda>w1. (False, w1)) (sync_shut n a w)
          else if ho_forbidden ho then map_option (\<lambda>w1. (True, w1)) (sync_shut n a w)
          else (case (if sv_open w a then Conn_ok else conn) of
              Conn_bad \<Rightarrow> Some (False, w)
            | Conn_error \<Rightarrow> map_option (\<lambda>w1. (True, set_to_reinit a w1)) (sync_shut n a w)
            | Conn_ok \<Rightarrow> map_option (\<lambda>h. (True, cancel_from_reinit a (w\<lparr>sv_heap := h, sv_open := (sv_open w)(a := True)\<rparr>)))
                (enable n a (sv_heap w))))"

definition sync_reinit :: "nat \<Rightarrow> host \<Rightarrow> connected \<Rightarrow> nat \<Rightarrow> services \<Rightarrow> (bool \<times> services) option" where
  "sync_reinit n ho conn a w = Option.bind (sync_shut n a w) (sync_init n ho conn a)"

text \<open>\<^verbatim>\<open>SendAndRecv\<close> with a reply that has its length in its first four bytes; the result also has what was written to
  the buffer for the reply.\<close>

definition failed :: "nat \<Rightarrow> nat \<Rightarrow> byte list \<Rightarrow> services \<Rightarrow> (bool \<times> byte list \<times> services) option" where
  "failed n a out w = map_option (\<lambda>w1. (False, out, set_to_reinit a w1)) (sync_shut n a w)"

definition close_if :: "bool \<Rightarrow> nat \<Rightarrow> services \<Rightarrow> services" where
  "close_if c a w = (if c then w\<lparr>sv_open := (sv_open w)(a := False)\<rparr> else w)"

definition send_and_recv :: "nat \<Rightarrow> sent_io list \<Rightarrow> recv_io list \<Rightarrow> nat \<Rightarrow> nat \<Rightarrow> nat \<Rightarrow> services \<Rightarrow> (bool \<times> byte list \<times> services) option" where
  "send_and_recv n es rs a len cap w =
     (if cap < 8 then Some (False, [], w)
      else Option.bind (tc_send (sv_open w a) len es) (\<lambda>(r, c).
        let w1 = close_if c a w
        in if r \<noteq> int len then failed n a [] w1
           else Option.bind (tc_recv (sv_open w1 a) 4 rs) (\<lambda>(r2, c2, hd, rs2).
             let w2 = close_if c2 a w1; plen = rd_le 0 4 hd
             in if r2 \<noteq> 4 then failed n a hd w2
                else if plen < 8 \<or> plen > cap then failed n a hd w2
                else Option.bind (tc_recv (sv_open w2 a) (plen - 4) rs2) (\<lambda>(r3, c3, tl, rs3).
                  let w3 = close_if c3 a w2
                  in if r3 \<noteq> int (plen - 4) then failed n a (hd @ tl) w3 else Some (True, hd @ tl, w3)))))"

section \<open>The timer\<close>

text \<open>\<^verbatim>\<open>ProcessReInit\<close>: the step of the iterator to the next node needs the node it is at.\<close>

datatype reinit_result = Done services | Invalid_iterator | Bad_pointer

fun node_after :: "nat \<Rightarrow> (nat \<times> nat) list \<Rightarrow> (nat \<times> nat) option" where
  "node_after a [] = None"
| "node_after a (x # xs) = (if a < fst x then Some x else node_after a xs)"

fun process_from :: "nat \<Rightarrow> (nat \<Rightarrow> host) \<Rightarrow> (nat \<Rightarrow> connected) \<Rightarrow> nat \<Rightarrow> (nat \<times> nat) option \<Rightarrow> services \<Rightarrow> reinit_result" where
  "process_from n hosts conn k None w = Done w"
| "process_from n hosts conn 0 (Some x) w = Done w"
| "process_from n hosts conn (Suc k) (Some x) w =
     (case sync_reinit n (hosts (fst x)) (conn (fst x)) (fst x) w of
        None \<Rightarrow> Bad_pointer
      | Some (b, w1) \<Rightarrow>
          if x \<notin> set (sv_reinit w1) then Invalid_iterator
          else process_from n hosts conn k (node_after (fst x) (sv_reinit w1)) w1)"

definition process_reinit :: "nat \<Rightarrow> (nat \<Rightarrow> host) \<Rightarrow> (nat \<Rightarrow> connected) \<Rightarrow> nat \<Rightarrow> services \<Rightarrow> reinit_result" where
  "process_reinit n hosts conn k w = process_from n hosts conn k (case sv_reinit w of [] \<Rightarrow> None | x # xs \<Rightarrow> Some x) w"

section \<open>An exchange\<close>

definition gotten :: "recv_io list \<Rightarrow> byte list" where
  "gotten rs = concat (map (\<lambda>r. case r of Got bs \<Rightarrow> bs | _ \<Rightarrow> []) rs)"

lemma recv_bytes_ok:
  "recv_bytes len acc rs = Some (r, c, out, rs1) \<Longrightarrow> length acc < len \<Longrightarrow>
   length out \<le> len \<and> (r = int len \<longrightarrow> length out = len \<and> \<not> c \<and> out @ gotten rs1 = acc @ gotten rs) \<and> r < int len + 1"
proof (induction len acc rs rule: recv_bytes.induct)
  case (2 len acc bs es)
  then show ?case by (auto simp: gotten_def split: if_splits)
qed (auto simp: gotten_def split: if_splits)

lemma tc_recv_ok:
  assumes "tc_recv opened len rs = Some (r, c, out, rs1)" "0 < len"
  shows "length out \<le> len" "r = int len \<Longrightarrow> length out = len \<and> \<not> c \<and> out @ gotten rs1 = gotten rs \<and> opened"
  using assms recv_bytes_ok [of len "[]" rs r c out rs1] by (auto simp: tc_recv_def split: if_splits)

definition services_ok :: "(nat \<Rightarrow> nat) \<Rightarrow> nat \<Rightarrow> services \<Rightarrow> bool" where
  "services_ok rk n w \<longleftrightarrow> tree_inv rk (sv_heap w) \<and> (\<forall>a e. sv_heap w a = Some e \<longrightarrow> 2 * rk a < n) \<and>
     (\<forall>x \<in> set (sv_reinit w). leaf (sv_heap w) (fst x) \<and> snd x < sv_next w)"

lemma node_insert_set:
  "\<exists>j. (a, j) \<in> set (node_insert a k xs) \<and> (j = k \<or> (a, j) \<in> set xs)" "set (node_insert a k xs) \<subseteq> insert (a, k) (set xs)"
  by (induction xs) (auto split: if_splits)

lemma set_to_reinit_ok:
  assumes "services_ok rk n w" "leaf (sv_heap w) a"
  shows "services_ok rk n (set_to_reinit a w)" "\<exists>j. (a, j) \<in> set (sv_reinit (set_to_reinit a w))"
  using assms node_insert_set [of a "sv_next w" "sv_reinit w"]
  by (fastforce simp: services_ok_def set_to_reinit_def)+

lemma sync_shut_ok:
  assumes "services_ok rk n w" "leaf (sv_heap w) a"
  shows "\<exists>w1. sync_shut n a w = Some w1 \<and> services_ok rk n w1 \<and> same_tree (sv_heap w) (sv_heap w1) \<and> \<not> enabled (sv_heap w1) a \<and>
    \<not> sv_open w1 a \<and> sv_reinit w1 = filter (\<lambda>x. fst x \<noteq> a) (sv_reinit w) \<and> sv_next w1 = sv_next w \<and>
    (\<forall>b. leaf (sv_heap w) b \<and> b \<noteq> a \<longrightarrow> enabled (sv_heap w1) b = enabled (sv_heap w) b)"
proof -
  from assms have "tree_inv rk (sv_heap w)" "2 * rk a < n" by (auto simp: services_ok_def leaf_def)
  from set_leaf [OF this(1) assms(2) this(2), of False] obtain h1 where
    h1: "disable n a (sv_heap w) = Some h1" "tree_inv rk h1" "same_tree (sv_heap w) h1" "\<not> enabled h1 a"
      "\<forall>b. leaf (sv_heap w) b \<and> b \<noteq> a \<longrightarrow> enabled h1 b = enabled (sv_heap w) b" by auto
  have "2 * rk b < n" if "h1 b = Some e" for b e
    using same_treeD [OF same_tree_sym [OF h1(3)] that] assms(1) by (auto simp: services_ok_def)
  moreover have "leaf h1 b \<longleftrightarrow> leaf (sv_heap w) b" for b using leaf_same [OF h1(3)] .
  ultimately show ?thesis using h1 assms(1) by (auto simp: sync_shut_def cancel_from_reinit_def services_ok_def)
qed

lemma close_if_simps [simp]: "sv_heap (close_if c a w) = sv_heap w" "sv_reinit (close_if c a w) = sv_reinit w" "sv_next (close_if c a w) = sv_next w"
  "services_ok rk n (close_if c a w) = services_ok rk n w" "sv_open (close_if c a w) a = (sv_open w a \<and> \<not> c)"
  by (simp_all add: close_if_def services_ok_def)

lemma failed_ok:
  assumes "services_ok rk n w" "leaf (sv_heap w) a" "failed n a out w = Some (b, out1, w1)"
  shows "\<not> b \<and> out1 = out \<and> services_ok rk n w1 \<and> \<not> sv_open w1 a \<and> \<not> enabled (sv_heap w1) a \<and> (\<exists>j. (a, j) \<in> set (sv_reinit w1))"
proof -
  from sync_shut_ok [OF assms(1,2)] obtain w2 where w2: "sync_shut n a w = Some w2" "services_ok rk n w2" "same_tree (sv_heap w) (sv_heap w2)"
    "\<not> enabled (sv_heap w2) a" "\<not> sv_open w2 a" by blast
  have "leaf (sv_heap w2) a" using leaf_same [OF w2(3)] assms(2) by blast
  from set_to_reinit_ok [OF w2(2) this] show ?thesis using assms(3) w2 by (auto simp: failed_def set_to_reinit_def)
qed

lemma failed_total:
  assumes "services_ok rk n w" "leaf (sv_heap w) a"
  shows "failed n a out w \<noteq> None"
  using sync_shut_ok [OF assms] by (auto simp: failed_def)


section \<open>The set and its iterator\<close>

lemma sync_init_gone:
  assumes "services_ok rk n w" "leaf (sv_heap w) a" "\<forall>x \<in> set (sv_reinit w). fst x \<noteq> a" "\<not> enabled (sv_heap w) a"
  shows "\<exists>b w1. sync_init n ho conn a w = Some (b, w1) \<and> (\<forall>x \<in> set (sv_reinit w1). fst x = a \<longrightarrow> snd x = sv_next w)"
proof -
  from assms(2,4) obtain e where e: "sv_heap w a = Some e" "\<not> el_enable e" by (auto simp: leaf_def enabled_def)
  from sync_shut_ok [OF assms(1,2)] obtain w2 where w2: "sync_shut n a w = Some w2" "sv_reinit w2 = filter (\<lambda>x. fst x \<noteq> a) (sv_reinit w)"
    "sv_next w2 = sv_next w" by blast
  from assms(1,2) have "tree_inv rk (sv_heap w)" "2 * rk a < n" by (auto simp: services_ok_def leaf_def)
  from set_leaf [OF this(1) assms(2) this(2), of True] obtain h where h: "enable n a (sv_heap w) = Some h" by auto
  have again: "\<forall>x \<in> set (sv_reinit (set_to_reinit a w2)). fst x = a \<longrightarrow> snd x = sv_next w"
    using node_insert_set(2) [of a "sv_next w2" "sv_reinit w2"] w2(2,3) by (fastforce simp: set_to_reinit_def)
  have cancel: "sync_init n ho conn a w = Some (b, w1) \<Longrightarrow> sv_reinit w1 = sv_reinit w \<or> sv_reinit w1 = filter (\<lambda>x. fst x \<noteq> a) (sv_reinit w) \<or>
      w1 = set_to_reinit a w2" for b w1
    using e w2 h by (auto simp: sync_init_def cancel_from_reinit_def split: if_splits connected.splits)
  have "sync_init n ho conn a w \<noteq> None" using e w2(1) h by (auto simp: sync_init_def split: connected.splits)
  then obtain b w1 where i: "sync_init n ho conn a w = Some (b, w1)" by auto
  from cancel [OF this] have "\<forall>x \<in> set (sv_reinit w1). fst x = a \<longrightarrow> snd x = sv_next w"
  proof (elim disjE)
    assume "sv_reinit w1 = sv_reinit w"
    then show ?thesis using assms(3) by auto
  next
    assume "sv_reinit w1 = filter (\<lambda>x. fst x \<noteq> a) (sv_reinit w)"
    then show ?thesis by auto
  next
    assume "w1 = set_to_reinit a w2"
    then show ?thesis using again by blast
  qed
  then show ?thesis using i by blast
qed

text \<open>C35: as soon as one service is to be connected again, the timer uses an iterator that is no longer valid: whatever
  comes of the connection, \<^verbatim>\<open>ReInit\<close> takes the service out of the set, and with it the node the loop is at.\<close>

theorem reinit_loses_iterator:
  assumes "services_ok rk n w" "sv_reinit w = x # xs" "0 < k"
  shows "process_reinit n hosts conn k w = Invalid_iterator"
proof -
  let ?a = "fst x"
  have x: "leaf (sv_heap w) ?a" "snd x < sv_next w" using assms(1,2) by (auto simp: services_ok_def)
  from sync_shut_ok [OF assms(1) x(1)] obtain w2 where w2: "sync_shut n ?a w = Some w2" "services_ok rk n w2" "same_tree (sv_heap w) (sv_heap w2)"
    "\<not> enabled (sv_heap w2) ?a" "sv_reinit w2 = filter (\<lambda>y. fst y \<noteq> ?a) (sv_reinit w)" "sv_next w2 = sv_next w" by blast
  have "leaf (sv_heap w2) ?a" using leaf_same [OF w2(3)] x(1) by blast
  from sync_init_gone [OF w2(2) this _ w2(4)] w2(5) obtain b w1 where
    i: "sync_init n (hosts ?a) (conn ?a) ?a w2 = Some (b, w1)" "\<forall>y \<in> set (sv_reinit w1). fst y = ?a \<longrightarrow> snd y = sv_next w2" by fastforce
  have "x \<notin> set (sv_reinit w1)" using i(2) x(2) w2(6) by auto
  moreover obtain j where "k = Suc j" using assms(3) by (cases k) auto
  ultimately show ?thesis using assms(2) w2(1) i(1) by (simp add: process_reinit_def sync_reinit_def)
qed

text \<open>Samples: one of two services connected, one not.\<close>

definition half_open :: services where
  "half_open = \<lparr>sv_heap = small_group, sv_open = (\<lambda>a. a = 2), sv_reinit = [(3, 0)], sv_next = 1\<rparr>"

lemma half_open_ok: "services_ok small_rank 9 half_open"
proof -
  have "2 * small_rank a < 9" if "small_group a = Some e" for a e using small_group_cases [OF that] by (auto simp: small_rank_def)
  moreover have "leaf small_group 3" by (simp add: leaf_def small_group_at)
  ultimately show ?thesis using small_group_inv by (simp add: services_ok_def half_open_def)
qed

theorem reinit_loses_iterator_witness:
  "process_reinit 9 (\<lambda>a. \<lparr>ho_timeout = 2000, ho_forbidden = False\<rparr>) (\<lambda>a. Conn_error) 5 half_open = Invalid_iterator"
  by (rule reinit_loses_iterator [OF half_open_ok]) (simp_all add: half_open_def)


end
