(* ===== verification/SvcGroup.thy ===== *)
theory SvcGroup
  imports SvcChoose SvcClient
begin

text \<open>
  Replicas and groups of services in the client library, with blocking connections
  (\<^verbatim>\<open>friend_serv/common/service_replicas.cpp\<close>, \<^verbatim>\<open>service_group.cpp\<close>): their start, an exchange through them, and
  their end. What \<^verbatim>\<open>new\<close> and \<^verbatim>\<open>connect\<close> give are arguments; \<open>None\<close> as a whole result is an element that was
  deleted and is used.
\<close>

section \<open>Strategies\<close>

datatype strategy = Fixed_strategy | Roll_strategy nat | Int_region | String_region

definition make_strategy :: "nat \<Rightarrow> strategy option" where
  "make_strategy k = (if k = 1 then Some Fixed_strategy else if k = 2 then Some (Roll_strategy 0) else if k = 3 then Some Int_region
     else if k = 4 then Some String_region else None)"

text \<open>A call of \<^verbatim>\<open>ChooseByNothing\<close> and the like after the \<^verbatim>\<open>dynamic_cast\<close>, which gives null for another strategy.\<close>

definition choose_nothing :: "elements \<Rightarrow> nat list \<Rightarrow> strategy option \<Rightarrow> (nat option \<times> strategy option) option" where
  "choose_nothing h as s =
     (case s of
        Some Fixed_strategy \<Rightarrow> map_option (\<lambda>x. (x, s)) (fixed_choose h as)
      | Some (Roll_strategy c) \<Rightarrow> map_option (\<lambda>(x, c1). (x, Some (Roll_strategy c1))) (roll_choose h as c)
      | _ \<Rightarrow> Some (None, s))"

definition choose_int :: "elements \<Rightarrow> nat list \<Rightarrow> int \<Rightarrow> strategy option \<Rightarrow> (nat option \<times> strategy option) option" where
  "choose_int h as seed s = (if s = Some Int_region then map_option (\<lambda>x. (x, s)) (int_choose h as seed) else Some (None, s))"

definition choose_string :: "elements \<Rightarrow> nat list \<Rightarrow> byte list \<Rightarrow> strategy option \<Rightarrow> (nat option \<times> strategy option) option" where
  "choose_string h as seed s = (if s = Some String_region then map_option (\<lambda>x. (x, s)) (string_choose h as seed) else Some (None, s))"

section \<open>Replicas\<close>

record replicas =
  rp_inited :: bool
  rp_strategy :: "strategy option"
  rp_services :: "nat list"

record replicas_info =
  ri_hosts :: "(host \<times> nat option \<times> connected) list"
  ri_strategy :: nat
  ri_forbidden :: bool
  ri_memory :: bool

text \<open>\<open>ri_hosts\<close> is the vector of hosts with what \<^verbatim>\<open>new\<close> and \<^verbatim>\<open>connect\<close> give for each, \<open>ri_memory\<close> what \<^verbatim>\<open>new\<close> gives for
  the strategy.\<close>

definition new_replicas :: replicas where "new_replicas = \<lparr>rp_inited = False, rp_strategy = None, rp_services = []\<rparr>"

definition delete_service :: "nat \<Rightarrow> nat \<Rightarrow> services \<Rightarrow> services option" where
  "delete_service n a w = map_option (\<lambda>w1. w1\<lparr>sv_heap := (sv_heap w1)(a := None)\<rparr>) (sync_shut n a w)"

fun clear_services :: "nat \<Rightarrow> nat list \<Rightarrow> services \<Rightarrow> services option" where
  "clear_services n [] w = Some w"
| "clear_services n (a # as) w = Option.bind (delete_service n a w) (clear_services n as)"

definition replicas_close :: "nat \<Rightarrow> replicas \<Rightarrow> services \<Rightarrow> (replicas \<times> services) option" where
  "replicas_close n r w = map_option (\<lambda>w1. (new_replicas, w1)) (clear_services n (rp_services r) w)"

text \<open>The loop of \<^verbatim>\<open>Init\<close> over the hosts; \<open>p\<close> is the element of the replicas.\<close>

fun start_services :: "nat \<Rightarrow> nat \<Rightarrow> (host \<times> nat option \<times> connected) list \<Rightarrow> replicas \<Rightarrow> services \<Rightarrow> (bool \<times> replicas \<times> services) option" where
  "start_services n p [] r w = Some (True, r, w)"
| "start_services n p ((ho, None, c) # hs) r w = map_option (\<lambda>(r1, w1). (False, r1, w1)) (replicas_close n r w)"
| "start_services n p ((ho, Some a, c) # hs) r w =
     Option.bind (add_child n p a ((sv_heap w)(a \<mapsto> new_element))) (\<lambda>h.
     Option.bind (sync_init n ho c a (w\<lparr>sv_heap := h, sv_open := (sv_open w)(a := False)\<rparr>)) (\<lambda>(b, w1).
       if b then start_services n p hs (r\<lparr>rp_services := rp_services r @ [a]\<rparr>) w1
       else map_option (\<lambda>(r1, w2). (False, r1, w2)) (replicas_close n r w1)))"

definition replicas_init :: "nat \<Rightarrow> nat \<Rightarrow> replicas_info \<Rightarrow> replicas \<Rightarrow> services \<Rightarrow> (bool \<times> replicas \<times> services) option" where
  "replicas_init n p ri r w =
     (if rp_inited r then Some (False, r, w)
      else if ri_forbidden ri then map_option (\<lambda>(r1, w1). (True, r1, w1)) (replicas_close n r w)
      else if ri_strategy ri \<noteq> 1 \<and> ri_strategy ri \<noteq> 2 then Some (False, r, w)
      else Option.bind (start_services n p (ri_hosts ri) r w) (\<lambda>(b, r1, w1).
        if \<not> b then Some (False, r1, w1)
        else if ri_memory ri then Some (True, r1\<lparr>rp_strategy := make_strategy (ri_strategy ri), rp_inited := True\<rparr>, w1)
        else map_option (\<lambda>(r2, w2). (False, r2, w2)) (replicas_close n r1 w1)))"

text \<open>\<open>x\<close> has what an exchange needs: the answers of the network, the length of the request, the space for the reply.\<close>

type_synonym exchange = "sent_io list \<times> recv_io list \<times> nat \<times> nat"

definition exchange_at :: "nat \<Rightarrow> exchange \<Rightarrow> nat \<Rightarrow> services \<Rightarrow> (bool \<times> byte list \<times> services) option" where
  "exchange_at n x a w = (case x of (es, rs, len, cap) \<Rightarrow> send_and_recv n es rs a len cap w)"

definition replicas_exchange :: "nat \<Rightarrow> exchange \<Rightarrow> replicas \<Rightarrow> services \<Rightarrow> (bool \<times> byte list \<times> replicas \<times> services) option" where
  "replicas_exchange n x r w =
     (if \<not> rp_inited r then Some (False, [], r, w)
      else Option.bind (choose_nothing (sv_heap w) (rp_services r) (rp_strategy r)) (\<lambda>(c, s).
        case c of
          None \<Rightarrow> Some (False, [], r\<lparr>rp_strategy := s\<rparr>, w)
        | Some a \<Rightarrow> map_option (\<lambda>(b, out, w1). (b, out, r\<lparr>rp_strategy := s\<rparr>, w1)) (exchange_at n x a w)))"

section \<open>Groups\<close>

record group =
  gr_inited :: bool
  gr_strategy :: "strategy option"
  gr_replicas :: "nat list"
  gr_objects :: "nat \<Rightarrow> replicas"

record group_info =
  gi_replicas :: "(replicas_info \<times> nat option) list"
  gi_strategy :: nat
  gi_forbidden :: bool
  gi_memory :: bool

text \<open>\<^verbatim>\<open>ClearReplicases\<close>: the destructor of the replicas closes them.\<close>

fun clear_replicas :: "nat \<Rightarrow> nat list \<Rightarrow> (nat \<Rightarrow> replicas) \<Rightarrow> services \<Rightarrow> services option" where
  "clear_replicas n [] rs w = Some w"
| "clear_replicas n (p # ps) rs w =
     Option.bind (replicas_close n (rs p) w) (\<lambda>(r, w1). clear_replicas n ps rs (w1\<lparr>sv_heap := (sv_heap w1)(p := None)\<rparr>))"

definition group_close :: "nat \<Rightarrow> group \<Rightarrow> services \<Rightarrow> (group \<times> services) option" where
  "group_close n g w =
     map_option (\<lambda>w1. (g\<lparr>gr_strategy := None, gr_replicas := [], gr_inited := False\<rparr>, w1)) (clear_replicas n (gr_replicas g) (gr_objects g) w)"

fun start_replicas :: "nat \<Rightarrow> nat \<Rightarrow> (replicas_info \<times> nat option) list \<Rightarrow> group \<Rightarrow> services \<Rightarrow> (bool \<times> group \<times> services) option" where
  "start_replicas n g0 [] g w = Some (True, g, w)"
| "start_replicas n g0 ((ri, None) # rs) g w = map_option (\<lambda>(g1, w1). (False, g1, w1)) (group_close n g w)"
| "start_replicas n g0 ((ri, Some p) # rs) g w =
     Option.bind (add_child n g0 p ((sv_heap w)(p \<mapsto> new_element))) (\<lambda>h.
     Option.bind (replicas_init n p ri new_replicas (w\<lparr>sv_heap := h\<rparr>)) (\<lambda>(b, r, w1).
       if b then start_replicas n g0 rs (g\<lparr>gr_replicas := gr_replicas g @ [p], gr_objects := (gr_objects g)(p := r)\<rparr>) w1
       else map_option (\<lambda>(g1, w2). (False, g1, w2)) (group_close n g w1)))"

text \<open>\<open>allowed\<close> are the strategies the kind of group takes, \<^verbatim>\<open>CheckStrategy\<close>.\<close>

definition group_init :: "nat \<Rightarrow> nat \<Rightarrow> nat list \<Rightarrow> group_info \<Rightarrow> group \<Rightarrow> services \<Rightarrow> (bool \<times> group \<times> services) option" where
  "group_init n g0 allowed gi g w =
     (if gr_inited g then Some (False, g, w)
      else if gi_forbidden gi then map_option (\<lambda>(g1, w1). (True, g1, w1)) (group_close n g w)
      else if gi_strategy gi \<notin> set allowed then Some (False, g, w)
      else Option.bind (start_replicas n g0 (gi_replicas gi) g w) (\<lambda>(b, g1, w1).
        if \<not> b then Some (False, g1, w1)
        else case (if gi_memory gi then make_strategy (gi_strategy gi) else None) of
            None \<Rightarrow> map_option (\<lambda>(g2, w2). (False, g2, w2)) (group_close n g1 w1)
          | Some s \<Rightarrow> Some (True, g1\<lparr>gr_strategy := Some s, gr_inited := True\<rparr>, w1)))"

text \<open>\<^verbatim>\<open>SendAndRecvByNothing\<close>, \<^verbatim>\<open>SendAndRecvByInt\<close>, \<^verbatim>\<open>SendAndRecvByString\<close>, which differ in how they choose.\<close>

definition group_via :: "nat \<Rightarrow> exchange \<Rightarrow> (elements \<Rightarrow> nat list \<Rightarrow> strategy option \<Rightarrow> (nat option \<times> strategy option) option) \<Rightarrow>
    group \<Rightarrow> services \<Rightarrow> (bool \<times> byte list \<times> group \<times> services) option" where
  "group_via n x pick g w =
     (if \<not> gr_inited g then Some (False, [], g, w)
      else Option.bind (pick (sv_heap w) (gr_replicas g) (gr_strategy g)) (\<lambda>(c, s).
        case c of
          None \<Rightarrow> Some (False, [], g\<lparr>gr_strategy := s\<rparr>, w)
        | Some p \<Rightarrow>
            map_option (\<lambda>(b, out, r, w1). (b, out, g\<lparr>gr_strategy := s, gr_objects := (gr_objects g)(p := r)\<rparr>, w1))
              (replicas_exchange n x (gr_objects g p) w)))"

definition group_by_nothing :: "nat \<Rightarrow> exchange \<Rightarrow> group \<Rightarrow> services \<Rightarrow> (bool \<times> byte list \<times> group \<times> services) option" where
  "group_by_nothing n x = group_via n x choose_nothing"

definition group_by_int :: "nat \<Rightarrow> exchange \<Rightarrow> int \<Rightarrow> group \<Rightarrow> services \<Rightarrow> (bool \<times> byte list \<times> group \<times> services) option" where
  "group_by_int n x seed = group_via n x (\<lambda>h as. choose_int h as seed)"

definition group_by_string :: "nat \<Rightarrow> exchange \<Rightarrow> byte list \<Rightarrow> group \<Rightarrow> services \<Rightarrow> (bool \<times> byte list \<times> group \<times> services) option" where
  "group_by_string n x seed = group_via n x (\<lambda>h as. choose_string h as seed)"

section \<open>Start of replicas\<close>

text \<open>A new element under \<open>p\<close>.\<close>

definition with_child :: "nat \<Rightarrow> nat \<Rightarrow> elements \<Rightarrow> elements" where
  "with_child p a h = (case h p of
     Some e \<Rightarrow> h(p \<mapsto> e\<lparr>el_children := el_children e @ [a]\<rparr>, a \<mapsto> \<lparr>el_enable = False, el_parent = Some p, el_children = []\<rparr>)
   | None \<Rightarrow> h)"

lemma add_new_child:
  assumes "h p = Some e" "h a = None"
  shows "add_child n p a (h(a \<mapsto> new_element)) = Some (with_child p a h)"
  using assms by (auto simp: add_child_def with_child_def new_element_def enabled_def fun_upd_twist)

lemma with_child_ok:
  assumes t: "tree_inv rk h" and p: "h p = Some e" and a: "h a = None" and off: "el_children e = [] \<Longrightarrow> \<not> el_enable e"
  shows "tree_inv (rk(a := Suc (rk p))) (with_child p a h)"
proof -
  let ?h = "with_child p a h" and ?rk = "rk(a := Suc (rk p))"
  let ?e = "e\<lparr>el_children := el_children e @ [a]\<rparr>" and ?f = "\<lparr>el_enable = False, el_parent = Some p, el_children = []\<rparr>"
  have pa: "p \<noteq> a" using p a by auto
  have h: "?h = h(p \<mapsto> ?e, a \<mapsto> ?f)" using p by (simp add: with_child_def)
  have ok: "\<And>b f. h b = Some f \<Longrightarrow> (\<forall>q. el_parent f = Some q \<longrightarrow> rk q < rk b \<and> (\<exists>g. h q = Some g \<and> b \<in> set (el_children g))) \<and>
      (\<forall>c \<in> set (el_children f). \<exists>g. h c = Some g \<and> el_parent g = Some b)" using t unfolding tree_inv_def tree_ok_def by blast
  have no_a: "a \<notin> set (el_children f)" if "h b = Some f" for b f using ok [OF that] a by auto
  have par: "?rk q < ?rk b \<and> (\<exists>g. ?h q = Some g \<and> b \<in> set (el_children g))" if "h b = Some f" "el_parent f = Some q" for b f q
  proof -
    from ok [OF that(1)] that(2) obtain g where g: "rk q < rk b" "h q = Some g" "b \<in> set (el_children g)" by blast
    have q: "q \<noteq> a" "b \<noteq> a" using g(2) that(1) a by auto
    show ?thesis using g q p by (cases "q = p") (simp_all add: h)
  qed
  have chd: "\<exists>g. ?h c = Some g \<and> el_parent g = Some b" if "h b = Some f" "c \<in> set (el_children f)" for b f c
  proof -
    from ok [OF that(1)] that(2) obtain g where g: "h c = Some g" "el_parent g = Some b" by blast
    have c: "c \<noteq> a" using g(1) a by auto
    show ?thesis using g c p by (cases "c = p") (simp_all add: h)
  qed
  have "tree_ok ?rk ?h"
    unfolding tree_ok_def
  proof (intro allI impI)
    fix b f assume b: "?h b = Some f"
    have "b = a \<and> f = ?f \<or> b = p \<and> f = ?e \<or> h b = Some f"
      using b by (cases "b = a"; cases "b = p") (simp_all add: h)
    then consider "b = a" "f = ?f" | "b = p" "f = ?e" | "h b = Some f" by blast
    then show "(\<forall>q. el_parent f = Some q \<longrightarrow> ?rk q < ?rk b \<and> (\<exists>g. ?h q = Some g \<and> b \<in> set (el_children g))) \<and>
      (\<forall>c \<in> set (el_children f). \<exists>g. ?h c = Some g \<and> el_parent g = Some b)"
    proof cases
      case 1
      then show ?thesis using pa by (simp add: h)
    next
      case 2
      have "?h a = Some ?f" by (simp add: h)
      then show ?thesis using 2 par [OF p] chd [OF p] by auto
    next
      case 3
      then show ?thesis using par chd by blast
    qed
  qed
  moreover have "node_ok ?h b" for b
    unfolding node_ok_def
  proof (intro allI impI)
    fix f assume b: "?h b = Some f" "el_children f \<noteq> []"
    have en: "enabled ?h c = enabled h c" for c using p a by (auto simp: h enabled_def)
    have nd: "\<And>b f. h b = Some f \<Longrightarrow> el_children f \<noteq> [] \<Longrightarrow> el_enable f \<longleftrightarrow> (\<exists>c \<in> set (el_children f). enabled h c)"
      using t unfolding tree_inv_def node_ok_def by blast
    have "b = p \<and> f = ?e \<or> h b = Some f"
      using b pa by (cases "b = a"; cases "b = p") (auto simp: h)
    then consider "b = p" "f = ?e" | "h b = Some f" by blast
    then show "el_enable f \<longleftrightarrow> (\<exists>c \<in> set (el_children f). enabled ?h c)"
    proof cases
      case 1
      have "\<not> enabled h a" using a by (simp add: enabled_def)
      then show ?thesis using 1 nd [OF p] off by (cases "el_children e = []") (auto simp: en)
    next
      case 2
      then show ?thesis using nd b(2) by (simp add: en)
    qed
  qed
  ultimately show ?thesis by (simp add: tree_inv_def)
qed

lemma sync_init_ok:
  assumes "services_ok rk n w" "leaf (sv_heap w) a" "\<not> enabled (sv_heap w) a" "0 < ho_timeout ho" "ho_timeout ho \<le> 10000" "c \<noteq> Conn_bad" "\<not> sv_open w a"
  shows "\<exists>w1. sync_init n ho c a w = Some (True, w1) \<and> services_ok rk n w1 \<and> same_tree (sv_heap w) (sv_heap w1) \<and>
    (enabled (sv_heap w1) a \<longleftrightarrow> c = Conn_ok \<and> \<not> ho_forbidden ho) \<and> (\<forall>b. leaf (sv_heap w) b \<and> b \<noteq> a \<longrightarrow> enabled (sv_heap w1) b = enabled (sv_heap w) b) \<and>
    fst ` set (sv_reinit w1) \<subseteq> insert a (fst ` set (sv_reinit w)) \<and> (\<forall>b. b \<noteq> a \<longrightarrow> sv_open w1 b = sv_open w b)"
proof -
  from assms(2,3) obtain e where e: "sv_heap w a = Some e" "\<not> el_enable e" by (auto simp: leaf_def enabled_def)
  from sync_shut_ok [OF assms(1,2)] obtain w2 where w2: "sync_shut n a w = Some w2" "services_ok rk n w2" "same_tree (sv_heap w) (sv_heap w2)"
    "\<not> enabled (sv_heap w2) a" "sv_reinit w2 = filter (\<lambda>x. fst x \<noteq> a) (sv_reinit w)"
    "\<forall>b. leaf (sv_heap w) b \<and> b \<noteq> a \<longrightarrow> enabled (sv_heap w2) b = enabled (sv_heap w) b" by blast
  have op: "\<forall>b. b \<noteq> a \<longrightarrow> sv_open w2 b = sv_open w b" using w2(1) by (auto simp: sync_shut_def cancel_from_reinit_def)
  have l2: "leaf (sv_heap w2) a" using leaf_same [OF w2(3)] assms(2) by blast
  have again: "fst ` set (sv_reinit (set_to_reinit a w2)) \<subseteq> insert a (fst ` set (sv_reinit w))"
    using node_insert_set(2) [of a "sv_next w2" "sv_reinit w2"] w2(5) by (auto simp: set_to_reinit_def)
  show ?thesis
  proof (cases "ho_forbidden ho \<or> c = Conn_error")
    case True
    then show ?thesis using e w2 set_to_reinit_ok(1) [OF w2(2) l2] again assms(4-7) op
      by (auto simp: sync_init_def set_to_reinit_def)
  next
    case False
    then have c: "c = Conn_ok" using assms(6) by (cases c) auto
    from assms(1,2) have "tree_inv rk (sv_heap w)" "2 * rk a < n" by (auto simp: services_ok_def leaf_def)
    from set_leaf [OF this(1) assms(2) this(2), of True] obtain h where h: "enable n a (sv_heap w) = Some h" "tree_inv rk h" "same_tree (sv_heap w) h"
      "enabled h a" "\<forall>b. leaf (sv_heap w) b \<and> b \<noteq> a \<longrightarrow> enabled h b = enabled (sv_heap w) b" by auto
    have "2 * rk b < n" if "h b = Some f" for b f
      using same_treeD [OF same_tree_sym [OF h(3)] that] assms(1) by (auto simp: services_ok_def)
    moreover have "leaf h b \<longleftrightarrow> leaf (sv_heap w) b" for b using leaf_same [OF h(3)] .
    ultimately have "services_ok rk n (cancel_from_reinit a (w\<lparr>sv_heap := h, sv_open := (sv_open w)(a := True)\<rparr>))"
      using assms(1) h(2) by (auto simp: services_ok_def cancel_from_reinit_def)
    then show ?thesis using e False c h assms(4-7) by (auto simp: sync_init_def cancel_from_reinit_def)
  qed
qed

text \<open>What the start of the services at \<open>p\<close> leaves as it is.\<close>

definition shape :: "elements \<Rightarrow> nat \<Rightarrow> (nat option \<times> nat list) option" where
  "shape h b = map_option (\<lambda>e. (el_parent e, el_children e)) (h b)"

lemma shape_same: "same_tree h h1 \<Longrightarrow> shape h1 b = shape h b" by (simp add: same_tree_def shape_def)

lemma shape_leaf: "leaf h b \<longleftrightarrow> (\<exists>q. shape h b = Some (q, []))" by (auto simp: leaf_def shape_def)

lemma shape_with_child:
  assumes "h p = Some e" "a \<noteq> p"
  shows "shape (with_child p a h) b = (if b = a then Some (Some p, []) else if b = p then Some (el_parent e, el_children e @ [a]) else shape h b)"
  using assms by (auto simp: shape_def with_child_def)

text \<open>The replicas at \<open>p\<close> have the children \<open>as\<close>.\<close>

definition reps_ok :: "(nat \<Rightarrow> nat) \<Rightarrow> nat \<Rightarrow> nat \<Rightarrow> nat list \<Rightarrow> services \<Rightarrow> bool" where
  "reps_ok rk n p as w \<longleftrightarrow> services_ok rk n w \<and> (\<exists>q. shape (sv_heap w) p = Some (q, as)) \<and> (as = [] \<longrightarrow> \<not> enabled (sv_heap w) p) \<and>
     p \<notin> fst ` set (sv_reinit w) \<and> 2 * Suc (rk p) < n"

lemma reps_ok_child:
  assumes r: "reps_ok rk n p as w" and a: "sv_heap w a = None"
  shows "reps_ok (rk(a := Suc (rk p))) n p (as @ [a]) (w\<lparr>sv_heap := with_child p a (sv_heap w), sv_open := f\<rparr>)"
proof -
  let ?h = "with_child p a (sv_heap w)"
  from r obtain e where e: "sv_heap w p = Some e" "el_children e = as" by (auto simp: reps_ok_def shape_def)
  have ap: "a \<noteq> p" using e(1) a by auto
  have w: "services_ok rk n w" "2 * Suc (rk p) < n" "p \<notin> fst ` set (sv_reinit w)" using r by (simp_all add: reps_ok_def)
  have "tree_inv (rk(a := Suc (rk p))) ?h"
    using with_child_ok [of rk "sv_heap w" p e a, OF _ e(1) a] w(1) r e by (auto simp: services_ok_def reps_ok_def enabled_def)
  moreover have "2 * (rk(a := Suc (rk p))) b < n" if "?h b = Some g" for b g
    using that e(1) w(1,2) by (cases "b = a"; cases "b = p") (auto simp: with_child_def services_ok_def)
  moreover have "leaf ?h (fst x) \<and> snd x < sv_next w" if "x \<in> set (sv_reinit w)" for x
  proof -
    from w(1) that have "leaf (sv_heap w) (fst x)" "snd x < sv_next w" by (auto simp: services_ok_def)
    moreover have "fst x \<noteq> p" using w(3) that by auto
    ultimately show ?thesis using shape_with_child [of "sv_heap w", OF e(1) ap, of "fst x"] by (auto simp: shape_leaf)
  qed
  ultimately have "services_ok (rk(a := Suc (rk p))) n (w\<lparr>sv_heap := ?h, sv_open := f\<rparr>)" unfolding services_ok_def by simp
  then show ?thesis using w(2,3) ap shape_with_child [of "sv_heap w", OF e(1) ap, of p] e(2) by (simp add: reps_ok_def)
qed

definition host_ok :: "host \<Rightarrow> connected \<Rightarrow> bool" where
  "host_ok ho c \<longleftrightarrow> 0 < ho_timeout ho \<and> ho_timeout ho \<le> 10000 \<and> c \<noteq> Conn_bad"

definition comes_up :: "host \<Rightarrow> connected \<Rightarrow> bool" where "comes_up ho c \<longleftrightarrow> c = Conn_ok \<and> \<not> ho_forbidden ho"

definition addrs :: "(host \<times> nat \<times> connected) list \<Rightarrow> nat list" where "addrs hs = map (\<lambda>(ho, a, c). a) hs"

lemma addrs_simps [simp]: "addrs [] = []" "addrs ((ho, a, c) # hs) = a # addrs hs" by (simp_all add: addrs_def)

lemma in_addrs: "(ho, a, c) \<in> set hs \<Longrightarrow> a \<in> set (addrs hs)" by (force simp: addrs_def)

definition given :: "(host \<times> nat \<times> connected) list \<Rightarrow> (host \<times> nat option \<times> connected) list" where
  "given hs = map (\<lambda>(ho, a, c). (ho, Some a, c)) hs"

lemma given_simps [simp]: "given [] = []" "given ((ho, a, c) # hs) = (ho, Some a, c) # given hs" by (simp_all add: given_def)

text \<open>The services \<open>hs\<close> were started at \<open>p\<close>, between \<open>w\<close> and \<open>w1\<close>.\<close>

definition started :: "nat \<Rightarrow> (host \<times> nat \<times> connected) list \<Rightarrow> services \<Rightarrow> services \<Rightarrow> bool" where
  "started p hs w w1 \<longleftrightarrow>
     (\<forall>(ho, a, c) \<in> set hs. enabled (sv_heap w1) a \<longleftrightarrow> comes_up ho c) \<and>
     (\<forall>b. leaf (sv_heap w) b \<and> b \<noteq> p \<longrightarrow> enabled (sv_heap w1) b = enabled (sv_heap w) b) \<and>
     (\<forall>b. b \<noteq> p \<and> b \<notin> set (addrs hs) \<longrightarrow> shape (sv_heap w1) b = shape (sv_heap w) b) \<and>
     (\<forall>a \<in> set (addrs hs). shape (sv_heap w1) a = Some (Some p, [])) \<and>
     map_option fst (shape (sv_heap w1) p) = map_option fst (shape (sv_heap w) p) \<and>
     fst ` set (sv_reinit w1) \<subseteq> set (addrs hs) \<union> fst ` set (sv_reinit w)"

lemma startedD:
  assumes "started p hs w w1"
  shows "(ho, a, c) \<in> set hs \<Longrightarrow> enabled (sv_heap w1) a \<longleftrightarrow> comes_up ho c"
    "leaf (sv_heap w) b \<Longrightarrow> b \<noteq> p \<Longrightarrow> enabled (sv_heap w1) b = enabled (sv_heap w) b"
    "b \<noteq> p \<Longrightarrow> b \<notin> set (addrs hs) \<Longrightarrow> shape (sv_heap w1) b = shape (sv_heap w) b"
    "a \<in> set (addrs hs) \<Longrightarrow> shape (sv_heap w1) a = Some (Some p, [])"
    "map_option fst (shape (sv_heap w1) p) = map_option fst (shape (sv_heap w) p)"
    "fst ` set (sv_reinit w1) \<subseteq> set (addrs hs) \<union> fst ` set (sv_reinit w)"
  using assms unfolding started_def by auto

lemma start_services_ok:
  "reps_ok rk n p (rp_services r) w \<Longrightarrow> \<forall>(ho, a, c) \<in> set hs. host_ok ho c \<and> sv_heap w a = None \<Longrightarrow> distinct (addrs hs) \<Longrightarrow>
   \<exists>rk1 w1. start_services n p (given hs) r w = Some (True, r\<lparr>rp_services := rp_services r @ addrs hs\<rparr>, w1) \<and>
     reps_ok rk1 n p (rp_services r @ addrs hs) w1 \<and> (\<forall>b. sv_heap w b \<noteq> None \<longrightarrow> rk1 b = rk b) \<and> started p hs w w1"
proof (induction hs arbitrary: r w rk)
  case Nil
  then show ?case by (auto simp: started_def intro!: exI [of _ rk])
next
  case (Cons x hs)
  obtain ho a c where x: "x = (ho, a, c)" by (cases x)
  let ?as = "rp_services r" and ?f = "(sv_open w)(a := False)" and ?rk = "rk(a := Suc (rk p))"
  let ?w = "w\<lparr>sv_heap := with_child p a (sv_heap w), sv_open := ?f\<rparr>"
  from Cons.prems(2) x have a: "sv_heap w a = None" "host_ok ho c" by auto
  from Cons.prems(1) obtain e where e: "sv_heap w p = Some e" by (auto simp: reps_ok_def shape_def)
  have ap: "a \<noteq> p" using e a by auto
  note sh = shape_with_child [of "sv_heap w", OF e ap]
  have r1: "reps_ok ?rk n p (?as @ [a]) ?w" using reps_ok_child [OF Cons.prems(1) a(1)] .
  have l: "leaf (sv_heap ?w) a" using sh [of a] by (simp add: shape_leaf)
  have off: "\<not> enabled (sv_heap ?w) a" using e by (simp add: with_child_def)
  have init: "services_ok ?rk n ?w" "0 < ho_timeout ho" "ho_timeout ho \<le> 10000" "c \<noteq> Conn_bad" "\<not> sv_open ?w a"
    using r1 a(2) by (simp_all add: reps_ok_def host_ok_def)
  from sync_init_ok [OF init(1) l off init(2-5)] obtain w1 where w1: "sync_init n ho c a ?w = Some (True, w1)" "services_ok ?rk n w1"
    "same_tree (sv_heap ?w) (sv_heap w1)" "enabled (sv_heap w1) a \<longleftrightarrow> comes_up ho c"
    "\<forall>b. leaf (sv_heap ?w) b \<and> b \<noteq> a \<longrightarrow> enabled (sv_heap w1) b = enabled (sv_heap ?w) b"
    "fst ` set (sv_reinit w1) \<subseteq> insert a (fst ` set (sv_reinit w))" unfolding comes_up_def by auto
  have sh1: "shape (sv_heap w1) b = (if b = a then Some (Some p, []) else if b = p then Some (el_parent e, el_children e @ [a]) else shape (sv_heap w) b)" for b
    using shape_same [OF w1(3), of b] sh [of b] by simp
  have r2: "reps_ok ?rk n p (?as @ [a]) w1" using r1 w1(2,6) shape_same [OF w1(3), of p] ap by (auto simp: reps_ok_def)
  have fresh: "\<forall>(ho, a, c) \<in> set hs. host_ok ho c \<and> sv_heap w1 a = None"
  proof (intro ballI, clarify)
    fix ho' b c' assume b: "(ho', b, c') \<in> set hs"
    then have "sv_heap w b = None" "host_ok ho' c'" "b \<noteq> a" using Cons.prems(2,3) x in_addrs [OF b] by auto
    moreover from this have "b \<noteq> p" using e by auto
    ultimately show "host_ok ho' c' \<and> sv_heap w1 b = None" using sh1 [of b] by (simp add: shape_def)
  qed
  have dist: "distinct (addrs hs)" "a \<notin> set (addrs hs)" using Cons.prems(3) x by auto
  let ?r = "r\<lparr>rp_services := ?as @ [a]\<rparr>"
  have "reps_ok ?rk n p (rp_services ?r) w1" using r2 by simp
  from Cons.IH [OF this fresh dist(1)] obtain rk1 w2 where
    w2: "start_services n p (given hs) ?r w1 = Some (True, ?r\<lparr>rp_services := rp_services ?r @ addrs hs\<rparr>, w2)"
      "reps_ok rk1 n p (rp_services ?r @ addrs hs) w2" "\<forall>b. sv_heap w1 b \<noteq> None \<longrightarrow> rk1 b = ?rk b" "started p hs w1 w2" by blast
  note st = startedD [OF w2(4)]
  have start: "start_services n p (given (x # hs)) r w = Some (True, r\<lparr>rp_services := rp_services r @ addrs (x # hs)\<rparr>, w2)"
    using w2(1) w1(1) add_new_child [of "sv_heap w", OF e a(1)] by (simp add: x)
  have rks: "rk1 b = rk b" if b: "sv_heap w b \<noteq> None" for b
  proof -
    have "b \<noteq> a" using a b by auto
    moreover have "shape (sv_heap w1) b \<noteq> None" using sh1 [of b] b by (simp add: shape_def)
    ultimately show ?thesis using w2(3) by (simp add: shape_def)
  qed
  have la: "leaf (sv_heap w1) a" using sh1 [of a] by (simp add: shape_leaf)
  have ups: "enabled (sv_heap w2) b \<longleftrightarrow> comes_up ho' c'" if "(ho', b, c') \<in> set (x # hs)" for ho' b c'
    using that st(1) st(2) [OF la ap] w1(4) x by auto
  have others: "enabled (sv_heap w2) b = enabled (sv_heap w) b" if "leaf (sv_heap w) b" "b \<noteq> p" for b
  proof -
    have ba: "b \<noteq> a" using that(1) a by (auto simp: leaf_def)
    then have "leaf (sv_heap w1) b" "leaf (sv_heap ?w) b" using that sh1 [of b] sh [of b] by (auto simp: shape_leaf)
    moreover have "enabled (sv_heap ?w) b = enabled (sv_heap w) b" using ba that(2) e by (simp add: with_child_def enabled_def)
    ultimately show ?thesis using st(2) w1(5) that(2) ba by simp
  qed
  have "shape (sv_heap w2) b = shape (sv_heap w) b" if "b \<noteq> p" "b \<notin> set (addrs (x # hs))" for b
    using st(3) [of b] sh1 [of b] that by (simp add: x)
  moreover have "shape (sv_heap w2) b = Some (Some p, [])" if "b \<in> set (addrs (x # hs))" for b
    using st(3) [OF ap dist(2)] st(4) [of b] sh1 [of a] that by (auto simp: x)
  moreover have "map_option fst (shape (sv_heap w2) p) = map_option fst (shape (sv_heap w) p)"
    using st(5) sh1 [of p] ap e by (auto simp: shape_def)
  moreover have "fst ` set (sv_reinit w2) \<subseteq> set (addrs (x # hs)) \<union> fst ` set (sv_reinit w)" using st(6) w1(6) by (auto simp: x)
  ultimately have "started p (x # hs) w w2" using ups others unfolding started_def by blast
  moreover have "reps_ok rk1 n p (rp_services r @ addrs (x # hs)) w2" using w2(2) by (simp add: x)
  ultimately show ?case using start rks by blast
qed

lemma replicas_init_ok:
  assumes "reps_ok rk n p [] w" "\<forall>(ho, a, c) \<in> set hs. host_ok ho c \<and> sv_heap w a = None" "distinct (addrs hs)" "k = 1 \<or> k = 2"
  shows "\<exists>rk1 w1. replicas_init n p \<lparr>ri_hosts = given hs, ri_strategy = k, ri_forbidden = False, ri_memory = True\<rparr> new_replicas w =
      Some (True, \<lparr>rp_inited = True, rp_strategy = make_strategy k, rp_services = addrs hs\<rparr>, w1) \<and>
    reps_ok rk1 n p (addrs hs) w1 \<and> (\<forall>b. sv_heap w b \<noteq> None \<longrightarrow> rk1 b = rk b) \<and> started p hs w w1"
  using start_services_ok [of rk n p new_replicas w hs] assms by (auto simp: new_replicas_def replicas_init_def)

lemma parent_enabled:
  assumes "tree_inv rk h" "shape h p = Some (q, as)" "as \<noteq> []"
  shows "enabled h p \<longleftrightarrow> (\<exists>a \<in> set as. enabled h a)"
proof -
  from assms(2) obtain e where "h p = Some e" "el_children e = as" by (auto simp: shape_def)
  then show ?thesis using assms(1,3) by (auto simp: tree_inv_def node_ok_def enabled_def)
qed

section \<open>The end of replicas\<close>

text \<open>Once a child of \<open>p\<close> was deleted, no other child can be disabled.\<close>

lemma clear_services_rest:
  "sv_heap w p = Some f \<Longrightarrow> el_children f = a0 # cs \<Longrightarrow> sv_heap w a0 = None \<Longrightarrow> p \<notin> set as \<Longrightarrow> distinct as \<Longrightarrow> 2 < n \<Longrightarrow>
   \<forall>a \<in> set as. \<exists>e. sv_heap w a = Some e \<and> el_parent e = Some p \<and> a \<noteq> a0 \<Longrightarrow>
   clear_services n as w = None \<longleftrightarrow> (\<exists>a \<in> set as. enabled (sv_heap w) a)"
proof (induction as arbitrary: w)
  case (Cons a as)
  from Cons.prems(7) obtain e where e: "sv_heap w a = Some e" "el_parent e = Some p" "a \<noteq> a0" by auto
  obtain m where n: "n = Suc (Suc (Suc m))" using Cons.prems(6) by (metis Suc_lessE less_2_cases_iff not_less_eq numeral_2_eq_2 old.nat.exhaust zero_less_Suc less_nat_zero_code)
  have ap: "a \<noteq> p" using Cons.prems(4) by auto
  show ?case
  proof (cases "el_enable e")
    case True
    have "disable n a (sv_heap w) = None" using True e ap Cons.prems(1-3) by (simp add: n)
    then show ?thesis using True e(1) by (simp add: delete_service_def sync_shut_def enabled_def)
  next
    case False
    let ?w = "(cancel_from_reinit a (w\<lparr>sv_open := (sv_open w)(a := False)\<rparr>))\<lparr>sv_heap := (sv_heap w)(a := None)\<rparr>"
    have "delete_service n a w = Some ?w" using False e(1) by (simp add: n delete_service_def sync_shut_def cancel_from_reinit_def)
    moreover have "clear_services n as ?w = None \<longleftrightarrow> (\<exists>b \<in> set as. enabled (sv_heap ?w) b)"
      using Cons.prems ap by (intro Cons.IH) (auto simp: cancel_from_reinit_def)
    moreover have "enabled (sv_heap ?w) b = enabled (sv_heap w) b" if "b \<in> set as" for b using that Cons.prems(5) by (auto simp: enabled_def)
    ultimately show ?thesis using False e(1) by (auto simp: enabled_def)
  qed
qed simp

text \<open>C34: replicas that are closed, or deleted, follow a deleted pointer if and only if a service other than the first is
  connected: the services are deleted one after the other, and the destructor of one that is enabled looks at all children of the
  replicas, of which the first is gone.\<close>

theorem replicas_close_freed:
  assumes "services_ok rk n w" "shape (sv_heap w) p = Some (q, a0 # as)" "\<forall>a \<in> set (a0 # as). leaf (sv_heap w) a" "distinct (a0 # as)" "2 < n"
    and "rp_services r = a0 # as"
  shows "replicas_close n r w = None \<longleftrightarrow> (\<exists>a \<in> set as. enabled (sv_heap w) a)"
proof -
  have tree: "tree_ok rk (sv_heap w)" using assms(1) by (simp add: services_ok_def tree_inv_def)
  from sync_shut_ok [OF assms(1), of a0] assms(3) obtain w1 where w1: "sync_shut n a0 w = Some w1" "same_tree (sv_heap w) (sv_heap w1)"
    "\<forall>b. leaf (sv_heap w) b \<and> b \<noteq> a0 \<longrightarrow> enabled (sv_heap w1) b = enabled (sv_heap w) b" by auto
  let ?w = "w1\<lparr>sv_heap := (sv_heap w1)(a0 := None)\<rparr>"
  from assms(2) obtain e where e: "sv_heap w p = Some e" "el_children e = a0 # as" by (auto simp: shape_def)
  from same_treeD [OF w1(2) e(1)] e(2) obtain f where f: "sv_heap w1 p = Some f" "el_children f = a0 # as" by auto
  have p: "p \<notin> set (a0 # as)" using assms(3) e by (auto simp: leaf_def)
  have chd: "\<forall>a \<in> set as. \<exists>e. sv_heap ?w a = Some e \<and> el_parent e = Some p \<and> a \<noteq> a0"
  proof
    fix a assume a: "a \<in> set as"
    then obtain g where "sv_heap w a = Some g" "el_parent g = Some p" using tree e unfolding tree_ok_def by (metis list.set_intros(2))
    moreover have "a \<noteq> a0" using a assms(4) by auto
    ultimately show "\<exists>e. sv_heap ?w a = Some e \<and> el_parent e = Some p \<and> a \<noteq> a0" using same_treeD [OF w1(2)] by fastforce
  qed
  have "clear_services n as ?w = None \<longleftrightarrow> (\<exists>a \<in> set as. enabled (sv_heap ?w) a)"
    by (rule clear_services_rest [OF _ f(2) _ _ _ assms(5) chd]) (use p f(1) assms(4) in auto)
  moreover have "enabled (sv_heap ?w) a = enabled (sv_heap w) a" if "a \<in> set as" for a
    using that assms(3,4) w1(3) by (auto simp: enabled_def)
  ultimately show ?thesis using assms(6) w1(1) by (auto simp: replicas_close_def delete_service_def)
qed

text \<open>A sample: replicas 0 with the services 1 and 2, both connected.\<close>

definition both_up :: services where
  "both_up = \<lparr>sv_heap = [0 \<mapsto> \<lparr>el_enable = True, el_parent = None, el_children = [1, 2]\<rparr>,
       1 \<mapsto> \<lparr>el_enable = True, el_parent = Some 0, el_children = []\<rparr>, 2 \<mapsto> \<lparr>el_enable = True, el_parent = Some 0, el_children = []\<rparr>],
     sv_open = (\<lambda>a. a \<in> {1, 2}), sv_reinit = [], sv_next = 0\<rparr>"

lemma both_up_ok: "services_ok (\<lambda>a. if a = 0 then 0 else 1) 9 both_up"
proof -
  have "tree_ok (\<lambda>a. if a = 0 then 0 else 1) (sv_heap both_up)" by (simp add: tree_ok_def both_up_def del: One_nat_def)
  moreover have "node_ok (sv_heap both_up) b" for b by (simp add: node_ok_def both_up_def enabled_def del: One_nat_def)
  ultimately show ?thesis by (simp add: services_ok_def tree_inv_def) (simp add: both_up_def)
qed

theorem replicas_close_freed_witness:
  "replicas_close 9 \<lparr>rp_inited = True, rp_strategy = Some Fixed_strategy, rp_services = [1, 2]\<rparr> both_up = None"
proof -
  have "shape (sv_heap both_up) 0 = Some (None, 1 # [2])" "\<forall>a \<in> set (1 # [2]). leaf (sv_heap both_up) a" "enabled (sv_heap both_up) 2"
    by (simp_all add: shape_def leaf_def enabled_def both_up_def del: One_nat_def)
  with replicas_close_freed [OF both_up_ok this(1,2), of "\<lparr>rp_inited = True, rp_strategy = Some Fixed_strategy, rp_services = [1, 2]\<rparr>"]
  show ?thesis by simp
qed

end
