(* ===== verification/SvcServe.thy ===== *)
theory SvcServe
  imports SvcGroup
begin

text \<open>
  Exchanges through a group of services: the start of a whole group, the service an exchange goes to, and that this
  stays so in every run of exchanges. The tree of elements, the strategies, the exchange with one service and
  the start of replicas come together here.
\<close>

section \<open>Choosing\<close>

definition calls_upto :: "nat \<Rightarrow> strategy option \<Rightarrow> bool" where
  "calls_upto k s \<longleftrightarrow> s = Some Fixed_strategy \<or> (\<exists>c \<le> k. s = Some (Roll_strategy c))"

lemma calls_upto_mono: "calls_upto k s \<Longrightarrow> k \<le> l \<Longrightarrow> calls_upto l s" using le_trans unfolding calls_upto_def by blast

lemma calls_upto_make: "k = 1 \<or> k = 2 \<Longrightarrow> calls_upto 0 (make_strategy k)" by (auto simp: calls_upto_def make_strategy_def)

lemma choose_nothing_ok:
  assumes "alive h as" "calls_upto k s" "k < 2147483647"
  shows "\<exists>x s1. choose_nothing h as s = Some (x, s1) \<and> calls_upto (Suc k) s1 \<and>
    (case x of Some a \<Rightarrow> a \<in> set as \<and> enabled h a | None \<Rightarrow> (\<forall>a \<in> set as. \<not> enabled h a) \<and> s1 = s)"
proof (cases "s = Some Fixed_strategy")
  case True
  have "case List.find (enabled h) as of Some a \<Rightarrow> a \<in> set as \<and> enabled h a | None \<Rightarrow> \<forall>a \<in> set as. \<not> enabled h a"
    by (cases "List.find (enabled h) as") (auto dest: find_None_iff [THEN iffD1] find_Some_iff [THEN iffD1])
  then show ?thesis using True fixed_choose_first [OF assms(1)]
    by (auto simp: choose_nothing_def calls_upto_def split: option.splits)
next
  case False
  then obtain c where c: "s = Some (Roll_strategy c)" "c \<le> k" using assms(2) by (auto simp: calls_upto_def)
  then have lt: "c < 2147483647" using assms(3) by simp
  from roll_choose_some [OF assms(1) lt] obtain x c1 where r: "roll_choose h as c = Some (x, c1)"
    "case x of Some a \<Rightarrow> a \<in> set as \<and> enabled h a | None \<Rightarrow> \<forall>a \<in> set as. \<not> enabled h a" by blast
  have "c1 = (case x of Some a \<Rightarrow> c + 1 | None \<Rightarrow> c)" using r(1)
    by (cases "roll_from h as (length as) (c mod length as)") (auto simp: roll_choose_def split: if_splits option.splits)
  then show ?thesis using r c by (auto simp: choose_nothing_def calls_upto_def split: option.splits)
qed

section \<open>What an exchange leaves as it is\<close>

definition only_flag :: "(nat \<Rightarrow> nat) \<Rightarrow> nat \<Rightarrow> nat \<Rightarrow> elements \<Rightarrow> services \<Rightarrow> bool" where
  "only_flag rk n a h w1 \<longleftrightarrow> services_ok rk n w1 \<and> same_tree h (sv_heap w1) \<and> (\<forall>b. leaf h b \<and> b \<noteq> a \<longrightarrow> enabled (sv_heap w1) b = enabled h b)"

lemma only_flag_same: "services_ok rk n w \<Longrightarrow> sv_heap w = h \<Longrightarrow> only_flag rk n a h w" by (auto simp: only_flag_def)

lemma failed_only_flag:
  assumes "failed n a out w = Some (b, out1, w1)" "services_ok rk n w" "leaf (sv_heap w) a"
  shows "only_flag rk n a (sv_heap w) w1"
proof -
  from sync_shut_ok [OF assms(2,3)] obtain w2 where w2: "sync_shut n a w = Some w2" "services_ok rk n w2" "same_tree (sv_heap w) (sv_heap w2)"
    "\<forall>b. leaf (sv_heap w) b \<and> b \<noteq> a \<longrightarrow> enabled (sv_heap w2) b = enabled (sv_heap w) b" by blast
  have "leaf (sv_heap w2) a" using leaf_same [OF w2(3)] assms(3) by blast
  from set_to_reinit_ok(1) [OF w2(2) this] show ?thesis using assms(1) w2 by (auto simp: failed_def only_flag_def set_to_reinit_def)
qed

lemma exchange_only_flag:
  assumes x: "exchange_at n x a w = Some (b, out, w1)" and w: "services_ok rk n w" "leaf (sv_heap w) a"
  shows "only_flag rk n a (sv_heap w) w1"
proof -
  obtain es rs len cap where xx: "x = (es, rs, len, cap)" by (cases x)
  have k: "only_flag rk n a (sv_heap w) v" if "services_ok rk n v" "sv_heap v = sv_heap w" for v using only_flag_same [OF that] .
  have f: "only_flag rk n a (sv_heap w) w1" if "failed n a o1 v = Some (b, out, w1)" "services_ok rk n v" "sv_heap v = sv_heap w" for o1 v
    using failed_only_flag [OF that(1,2)] that(3) w(2) by simp
  show ?thesis
  proof (cases "cap < 8")
    case True
    then show ?thesis using x k [of w] w(1) by (simp add: xx exchange_at_def send_and_recv_def)
  next
    case False
    note x1 = x [unfolded xx exchange_at_def prod.case send_and_recv_def if_not_P [OF False] Let_def]
    from x1 obtain r c where s: "tc_send (sv_open w a) len es = Some (r, c)" by (cases "tc_send (sv_open w a) len es") auto
    let ?v = "close_if c a w"
    note x2 = x1 [unfolded s bind.simps prod.case]
    show ?thesis
    proof (cases "r \<noteq> int len")
      case True
      then show ?thesis using x2 f [of "[]" ?v] w(1) by simp
    next
      case r: False
      note x3 = x2 [unfolded if_not_P [OF r]]
      from x3 obtain r2 c2 hd rs2 where p: "tc_recv (sv_open ?v a) 4 rs = Some (r2, c2, hd, rs2)" by (cases "tc_recv (sv_open ?v a) 4 rs") auto
      let ?v2 = "close_if c2 a ?v"
      note x4 = x3 [unfolded p bind.simps prod.case]
      show ?thesis
      proof (cases "r2 \<noteq> 4 \<or> rd_le 0 4 hd < 8 \<or> rd_le 0 4 hd > cap")
        case True
        then have "failed n a hd ?v2 = Some (b, out, w1)" using x4 by (auto split: if_splits)
        then show ?thesis using f [of hd ?v2] w(1) by simp
      next
        case False
        then have ok: "\<not> r2 \<noteq> 4" "\<not> (rd_le 0 4 hd < 8 \<or> rd_le 0 4 hd > cap)" by auto
        note x5 = x4 [unfolded if_not_P [OF ok(1)] if_not_P [OF ok(2)]]
        from x5 obtain r3 c3 tl rs3 where q: "tc_recv (sv_open ?v2 a) (rd_le 0 4 hd - 4) rs2 = Some (r3, c3, tl, rs3)"
          by (cases "tc_recv (sv_open ?v2 a) (rd_le 0 4 hd - 4) rs2") auto
        show ?thesis using x5 [unfolded q bind.simps prod.case] f [of "hd @ tl" "close_if c3 a ?v2"] k [of "close_if c3 a ?v2"] w(1)
          by (auto split: if_splits)
      qed
    qed
  qed
qed

section \<open>Groups that are well-formed\<close>

text \<open>The replicas \<open>r\<close> at \<open>p\<close>; those without services, because they are forbidden, are never enabled.\<close>

definition reps_at :: "nat \<Rightarrow> nat \<Rightarrow> replicas \<Rightarrow> elements \<Rightarrow> bool" where
  "reps_at k p r h \<longleftrightarrow> (rp_services r = [] \<or> rp_inited r \<and> calls_upto k (rp_strategy r)) \<and> (\<exists>q. shape h p = Some (q, rp_services r)) \<and>
     (rp_services r = [] \<longrightarrow> \<not> enabled h p) \<and> (\<forall>a \<in> set (rp_services r). leaf h a)"

definition group_at :: "nat \<Rightarrow> nat \<Rightarrow> group \<Rightarrow> services \<Rightarrow> bool" where
  "group_at k g0 g w \<longleftrightarrow> (\<forall>p \<in> set (gr_replicas g). reps_at k p (gr_objects g p) (sv_heap w))"

text \<open>An exchange goes to a service that is enabled if there is one, and does nothing otherwise.\<close>

definition gets_through :: "nat \<Rightarrow> exchange \<Rightarrow> group \<Rightarrow> services \<Rightarrow> bool" where
  "gets_through n x g w \<longleftrightarrow>
     (if \<exists>p \<in> set (gr_replicas g). \<exists>a \<in> set (rp_services (gr_objects g p)). enabled (sv_heap w) a then
        \<exists>p \<in> set (gr_replicas g). \<exists>a \<in> set (rp_services (gr_objects g p)). enabled (sv_heap w) a \<and>
          (\<exists>s1 s2. group_by_nothing n x g w =
             map_option (\<lambda>(b, out, w1). (b, out, g\<lparr>gr_strategy := s1, gr_objects := (gr_objects g)(p := (gr_objects g p)\<lparr>rp_strategy := s2\<rparr>)\<rparr>, w1))
               (exchange_at n x a w))
      else group_by_nothing n x g w = Some (False, [], g, w))"

lemma group_step:
  assumes w: "services_ok rk n w" and g: "group_at k g0 g w" "gr_inited g" "calls_upto k (gr_strategy g)" "k < 2147483647"
  shows "gets_through n x g w" and
    "group_by_nothing n x g w = Some (b, out, g1, w1) \<Longrightarrow> services_ok rk n w1 \<and> group_at (Suc k) g0 g1 w1 \<and> gr_inited g1 \<and> calls_upto (Suc k) (gr_strategy g1)"
proof -
  let ?h = "sv_heap w" and ?S = "\<lambda>p. rp_services (gr_objects g p)"
  have at: "\<And>p. p \<in> set (gr_replicas g) \<Longrightarrow> reps_at k p (gr_objects g p) ?h" using g(1) by (simp add: group_at_def)
  then have "alive ?h (gr_replicas g)" by (auto simp: alive_def reps_at_def shape_def)
  from choose_nothing_ok [OF this g(3,4)] obtain x1 s1 where c1: "choose_nothing ?h (gr_replicas g) (gr_strategy g) = Some (x1, s1)" "calls_upto (Suc k) s1"
    "case x1 of Some a \<Rightarrow> a \<in> set (gr_replicas g) \<and> enabled ?h a | None \<Rightarrow> (\<forall>a \<in> set (gr_replicas g). \<not> enabled ?h a) \<and> s1 = gr_strategy g" by blast
  have tree: "tree_inv rk ?h" using w by (simp add: services_ok_def)
  have up: "enabled ?h p \<longleftrightarrow> (\<exists>a \<in> set (?S p). enabled ?h a)" if "p \<in> set (gr_replicas g)" for p
    using at [OF that] parent_enabled [OF tree] by (cases "?S p = []") (auto simp: reps_at_def)
  have later: "group_at (Suc k) g0 (g\<lparr>gr_strategy := s\<rparr>) w" for s
    using at calls_upto_mono [of k _ "Suc k"] by (auto simp: group_at_def reps_at_def)
  let ?g = "\<lambda>p s1 s2. g\<lparr>gr_strategy := s1, gr_objects := (gr_objects g)(p := (gr_objects g p)\<lparr>rp_strategy := s2\<rparr>)\<rparr>"
  have key: "(\<not> (\<exists>p \<in> set (gr_replicas g). \<exists>a \<in> set (?S p). enabled ?h a) \<and> group_by_nothing n x g w = Some (False, [], g, w)) \<or>
      (\<exists>p \<in> set (gr_replicas g). \<exists>a \<in> set (?S p). enabled ?h a \<and> (\<exists>s1 s2. calls_upto (Suc k) s1 \<and> calls_upto (Suc k) s2 \<and>
        group_by_nothing n x g w = map_option (\<lambda>(b, out, w1). (b, out, ?g p s1 s2, w1)) (exchange_at n x a w)))"
  proof (cases x1)
    case None
    then have "group_by_nothing n x g w = Some (False, [], g, w)" using c1 g(2) by (simp add: group_by_nothing_def group_via_def)
    moreover have "\<not> (\<exists>p \<in> set (gr_replicas g). \<exists>a \<in> set (?S p). enabled ?h a)" using c1(3) None up by auto
    ultimately show ?thesis by blast
  next
    case (Some p)
    then have p: "p \<in> set (gr_replicas g)" "enabled ?h p" using c1(3) by auto
    from up [OF p(1)] p(2) obtain a1 where a1: "a1 \<in> set (?S p)" "enabled ?h a1" by blast
    from at [OF p(1)] a1(1) have r: "rp_inited (gr_objects g p)" "calls_upto k (rp_strategy (gr_objects g p))" "alive ?h (?S p)"
      by (auto simp: reps_at_def alive_def leaf_def)
    from choose_nothing_ok [OF r(3,2) g(4)] obtain x2 s2 where c2: "choose_nothing ?h (?S p) (rp_strategy (gr_objects g p)) = Some (x2, s2)" "calls_upto (Suc k) s2"
      "case x2 of Some a \<Rightarrow> a \<in> set (?S p) \<and> enabled ?h a | None \<Rightarrow> (\<forall>a \<in> set (?S p). \<not> enabled ?h a) \<and> s2 = rp_strategy (gr_objects g p)" by blast
    then obtain a where a: "x2 = Some a" "a \<in> set (?S p)" "enabled ?h a" using a1 by (cases x2) auto
    have "group_by_nothing n x g w = map_option (\<lambda>(b, out, w1). (b, out, ?g p s1 s2, w1)) (exchange_at n x a w)"
      using c1(1) Some c2(1) a(1) r(1) g(2)
      by (simp add: group_by_nothing_def group_via_def replicas_exchange_def option.map_comp o_def case_prod_unfold)
    then show ?thesis using p(1) a(2,3) c1(2) c2(2) by blast
  qed
  show "gets_through n x g w" using key unfolding gets_through_def
  proof (elim disjE)
    assume *: "\<exists>p \<in> set (gr_replicas g). \<exists>a \<in> set (?S p). enabled ?h a \<and> (\<exists>s1 s2. calls_upto (Suc k) s1 \<and> calls_upto (Suc k) s2 \<and>
        group_by_nothing n x g w = map_option (\<lambda>(b, out, w1). (b, out, ?g p s1 s2, w1)) (exchange_at n x a w))"
    then have "\<exists>p \<in> set (gr_replicas g). \<exists>a \<in> set (?S p). enabled ?h a" by blast
    then show "if \<exists>p \<in> set (gr_replicas g). \<exists>a \<in> set (?S p). enabled ?h a then
        \<exists>p \<in> set (gr_replicas g). \<exists>a \<in> set (?S p). enabled ?h a \<and> (\<exists>s1 s2.
          group_by_nothing n x g w = map_option (\<lambda>(b, out, w1). (b, out, ?g p s1 s2, w1)) (exchange_at n x a w))
      else group_by_nothing n x g w = Some (False, [], g, w)" using * by (simp only: if_True) blast
  qed simp
  assume y: "group_by_nothing n x g w = Some (b, out, g1, w1)"
  from key show "services_ok rk n w1 \<and> group_at (Suc k) g0 g1 w1 \<and> gr_inited g1 \<and> calls_upto (Suc k) (gr_strategy g1)"
  proof (elim disjE conjE bexE exE)
    assume "group_by_nothing n x g w = Some (False, [], g, w)"
    then show ?thesis using y w g(2) later [of "gr_strategy g"] calls_upto_mono [OF g(3), of "Suc k"] by simp
  next
    fix p a s1 s2 assume p: "p \<in> set (gr_replicas g)" "a \<in> set (?S p)" "enabled ?h a" "calls_upto (Suc k) s1" "calls_upto (Suc k) s2"
      "group_by_nothing n x g w = map_option (\<lambda>(b, out, w1). (b, out, ?g p s1 s2, w1)) (exchange_at n x a w)"
    then have z: "exchange_at n x a w = Some (b, out, w1)" "g1 = ?g p s1 s2" using y by (cases "exchange_at n x a w"; auto split: prod.splits)+
    have la: "leaf ?h a" using at [OF p(1)] p(2) by (simp add: reps_at_def)
    have kp: "services_ok rk n w1" "same_tree ?h (sv_heap w1)" "\<forall>b. leaf ?h b \<and> b \<noteq> a \<longrightarrow> enabled (sv_heap w1) b = enabled ?h b"
      using exchange_only_flag [OF z(1) w la] by (simp_all add: only_flag_def)
    have "reps_at (Suc k) q (gr_objects g1 q) (sv_heap w1)" if q: "q \<in> set (gr_replicas g)" for q
    proof -
      note atq = at [OF q, unfolded reps_at_def]
      have "?S q = [] \<longrightarrow> \<not> enabled (sv_heap w1) q" using atq p(3) kp(3) by (metis shape_leaf)
      moreover have "rp_services (gr_objects g1 q) = ?S q" "rp_inited (gr_objects g1 q) = rp_inited (gr_objects g q)" using z(2) by simp_all
      moreover have "calls_upto k (rp_strategy (gr_objects g q)) \<longrightarrow> calls_upto (Suc k) (rp_strategy (gr_objects g1 q))"
        using z(2) p(5) calls_upto_mono [of k _ "Suc k"] by simp
      ultimately show ?thesis using atq shape_same [OF kp(2), of q] leaf_same [OF kp(2)] by (simp add: reps_at_def) blast
    qed
    then show ?thesis using kp(1) z(2) g(2) p(4) by (simp add: group_at_def)
  qed
qed

section \<open>The start of a group\<close>

text \<open>An item of the configuration: whether the replicas are forbidden, their strategy, the hosts with what is given for
  them, and the element of the replicas.\<close>

type_synonym entry_item = "bool \<times> nat \<times> (host \<times> nat \<times> connected) list \<times> nat"

definition item_info :: "entry_item \<Rightarrow> replicas_info \<times> nat option" where
  "item_info = (\<lambda>(f, k, hs, p). (\<lparr>ri_hosts = given hs, ri_strategy = k, ri_forbidden = f, ri_memory = True\<rparr>, Some p))"

fun item_addrs :: "entry_item list \<Rightarrow> nat list" where
  "item_addrs [] = []"
| "item_addrs ((f, k, hs, p) # its) = p # (if f then [] else addrs hs) @ item_addrs its"

definition item_ok :: "entry_item \<Rightarrow> bool" where
  "item_ok = (\<lambda>(f, k, hs, p). k \<in> {1, 2} \<and> (\<forall>(ho, a, c) \<in> set hs. host_ok ho c))"

definition item_object :: "entry_item \<Rightarrow> replicas" where
  "item_object = (\<lambda>(f, k, hs, p). if f then new_replicas else \<lparr>rp_inited = True, rp_strategy = make_strategy k, rp_services = addrs hs\<rparr>)"

definition item_up :: "elements \<Rightarrow> entry_item \<Rightarrow> bool" where
  "item_up h = (\<lambda>(f, k, hs, p). \<not> f \<longrightarrow> (\<forall>(ho, a, c) \<in> set hs. enabled h a \<longleftrightarrow> comes_up ho c))"

text \<open>One step of the loop: the element of the replicas, then their services.\<close>

lemma start_one:
  assumes w: "reps_ok rk n g0 ps w" "2 * Suc (Suc (rk g0)) < n" and it: "item_ok (f, k, hs, p)"
    and fresh: "\<forall>b \<in> set (item_addrs [(f, k, hs, p)]). sv_heap w b = None" "distinct (item_addrs [(f, k, hs, p)])"
  shows "\<exists>rk1 h w1. add_child n g0 p ((sv_heap w)(p \<mapsto> new_element)) = Some h \<and>
    replicas_init n p (fst (item_info (f, k, hs, p))) new_replicas (w\<lparr>sv_heap := h\<rparr>) = Some (True, item_object (f, k, hs, p), w1) \<and>
    reps_ok rk1 n g0 (ps @ [p]) w1 \<and> rk1 g0 = rk g0 \<and> reps_at 0 p (item_object (f, k, hs, p)) (sv_heap w1) \<and>
    item_up (sv_heap w1) (f, k, hs, p) \<and>
    (\<forall>b. leaf (sv_heap w) b \<and> b \<noteq> g0 \<longrightarrow> enabled (sv_heap w1) b = enabled (sv_heap w) b) \<and>
    (\<forall>b. b \<noteq> g0 \<and> b \<notin> set (item_addrs [(f, k, hs, p)]) \<longrightarrow> shape (sv_heap w1) b = shape (sv_heap w) b)"
proof -
  have p: "sv_heap w p = None" using fresh(1) by simp
  from w(1) obtain e where e: "sv_heap w g0 = Some e" by (auto simp: reps_ok_def shape_def)
  have pg: "p \<noteq> g0" using e p by auto
  let ?h = "with_child g0 p (sv_heap w)" and ?rk = "rk(p := Suc (rk g0))"
  let ?w = "w\<lparr>sv_heap := ?h\<rparr>"
  have add: "add_child n g0 p ((sv_heap w)(p \<mapsto> new_element)) = Some ?h" using add_new_child [of "sv_heap w", OF e p] .
  note sh = shape_with_child [of "sv_heap w", OF e pg]
  have r1: "reps_ok ?rk n g0 (ps @ [p]) ?w" using reps_ok_child [OF w(1) p, of "sv_open w"] by simp
  have off: "\<not> enabled ?h p" using e by (simp add: with_child_def)
  have oth: "enabled ?h b = enabled (sv_heap w) b" if "b \<noteq> p" for b using that e by (simp add: with_child_def enabled_def)
  have lf: "leaf ?h b" if "leaf (sv_heap w) b" "b \<noteq> g0" for b using that sh [of b] by (cases "b = p") (auto simp: shape_leaf)
  have re: "x \<in> fst ` set (sv_reinit w) \<Longrightarrow> sv_heap w x \<noteq> None" for x using w(1) by (auto simp: reps_ok_def services_ok_def leaf_def)
  show ?thesis
  proof (cases f)
    case True
    have "replicas_init n p (fst (item_info (f, k, hs, p))) new_replicas ?w = Some (True, item_object (f, k, hs, p), ?w)"
      using True by (simp add: replicas_init_def item_info_def item_object_def replicas_close_def new_replicas_def)
    moreover have "reps_at 0 p (item_object (f, k, hs, p)) ?h" using True off sh [of p] by (simp add: reps_at_def item_object_def new_replicas_def)
    moreover have "enabled ?h b = enabled (sv_heap w) b" if "leaf (sv_heap w) b" for b
    proof -
      have "b \<noteq> p" using that p by (auto simp: leaf_def)
      then show ?thesis using oth by simp
    qed
    ultimately show ?thesis using add r1 pg sh True
      by (intro exI [of _ ?rk] exI [of _ ?h] exI [of _ ?w]) (simp add: item_up_def)
  next
    case False
    have r2: "reps_ok ?rk n p [] ?w" using r1 sh [of p] off w(2) re [of p] p by (auto simp: reps_ok_def)
    have hs: "\<forall>(ho, a, c) \<in> set hs. host_ok ho c \<and> sv_heap ?w a = None"
    proof (intro ballI, clarify)
      fix ho a c assume a: "(ho, a, c) \<in> set hs"
      then have "sv_heap w a = None" "a \<noteq> p" using fresh False in_addrs [OF a] by auto
      moreover from this have "a \<noteq> g0" using e by auto
      ultimately show "host_ok ho c \<and> sv_heap ?w a = None" using it a e by (auto simp: item_ok_def with_child_def)
    qed
    have ga: "g0 \<notin> set (addrs hs)" "p \<notin> set (addrs hs)" "distinct (addrs hs)" using fresh False e by auto
    have k: "k = 1 \<or> k = 2" using it by (simp add: item_ok_def)
    from replicas_init_ok [OF r2 hs ga(3) k] obtain rk1 w1 where
      w1: "replicas_init n p \<lparr>ri_hosts = given hs, ri_strategy = k, ri_forbidden = False, ri_memory = True\<rparr> new_replicas ?w =
          Some (True, \<lparr>rp_inited = True, rp_strategy = make_strategy k, rp_services = addrs hs\<rparr>, w1)"
        "reps_ok rk1 n p (addrs hs) w1" "\<forall>b. sv_heap ?w b \<noteq> None \<longrightarrow> rk1 b = ?rk b" "started p hs ?w w1" by blast
    note st = startedD [OF w1(4)]
    have g0s: "shape (sv_heap w1) g0 = shape ?h g0" using st(3) [of g0] pg ga(1) by simp
    have "sv_heap ?w g0 \<noteq> None" using sh [of g0] pg by (auto simp: shape_def)
    then have rkg: "rk1 g0 = rk g0" using w1(3) pg by simp
    have "g0 \<notin> fst ` set (sv_reinit w1)" using st(6) ga(1) r1 by (auto simp: reps_ok_def)
    then have R: "reps_ok rk1 n g0 (ps @ [p]) w1" using w1(2) r1 g0s rkg pg w(2) by (simp add: reps_ok_def)
    have "leaf (sv_heap w1) a" if "a \<in> set (addrs hs)" for a using st(4) [OF that] by (simp add: shape_leaf)
    then have A: "reps_at 0 p (item_object (f, k, hs, p)) (sv_heap w1)"
      using w1(2) False calls_upto_make [OF k] by (auto simp: reps_at_def item_object_def reps_ok_def)
    have U: "item_up (sv_heap w1) (f, k, hs, p)" using st(1) by (auto simp: item_up_def)
    have E: "enabled (sv_heap w1) b = enabled (sv_heap w) b" if "leaf (sv_heap w) b" "b \<noteq> g0" for b
    proof -
      have "b \<noteq> p" using that(1) p by (auto simp: leaf_def)
      then show ?thesis using st(2) [of b] lf [OF that] oth [of b] by simp
    qed
    have S: "shape (sv_heap w1) b = shape (sv_heap w) b" if "b \<noteq> g0" "b \<notin> set (item_addrs [(f, k, hs, p)])" for b
      using st(3) [of b] sh [of b] that False by simp
    show ?thesis using add w1(1) R rkg A U E S False
      by (intro exI [of _ rk1] exI [of _ ?h] exI [of _ w1]) (simp add: item_info_def item_object_def)
  qed
qed

lemma item_up_later:
  assumes "item_up h it" "it = (f, k, hs, p)" "\<forall>a \<in> set (addrs hs). \<not> f \<longrightarrow> enabled h1 a = enabled h a"
  shows "item_up h1 it"
  using assms in_addrs by (fastforce simp: item_up_def)

lemma start_replicas_ok:
  "reps_ok rk n g0 (gr_replicas g) w \<Longrightarrow> 2 * Suc (Suc (rk g0)) < n \<Longrightarrow> \<forall>it \<in> set its. item_ok it \<Longrightarrow>
   \<forall>b \<in> set (item_addrs its). sv_heap w b = None \<Longrightarrow> distinct (item_addrs its) \<Longrightarrow> group_at 0 g0 g w \<Longrightarrow>
   \<exists>rk1 g1 w1. start_replicas n g0 (map item_info its) g w = Some (True, g1, w1) \<and> reps_ok rk1 n g0 (gr_replicas g1) w1 \<and> group_at 0 g0 g1 w1 \<and>
     gr_replicas g1 = gr_replicas g @ map (snd \<circ> snd \<circ> snd) its \<and> (\<forall>it \<in> set its. gr_objects g1 (snd (snd (snd it))) = item_object it) \<and>
     (\<forall>q. q \<notin> set (item_addrs its) \<longrightarrow> gr_objects g1 q = gr_objects g q) \<and> (\<forall>it \<in> set its. item_up (sv_heap w1) it) \<and>
     (\<forall>b. leaf (sv_heap w) b \<and> b \<noteq> g0 \<longrightarrow> enabled (sv_heap w1) b = enabled (sv_heap w) b) \<and> gr_inited g1 = gr_inited g"
proof (induction its arbitrary: g w rk)
  case Nil
  then show ?case by auto
next
  case (Cons it its)
  obtain f k hs p where it: "it = (f, k, hs, p)" by (cases it)
  have split: "set (item_addrs (it # its)) = set (item_addrs [it]) \<union> set (item_addrs its)" by (simp add: it)
  have pre: "item_ok (f, k, hs, p)" "\<forall>b \<in> set (item_addrs [(f, k, hs, p)]). sv_heap w b = None" "distinct (item_addrs [(f, k, hs, p)])"
    using Cons.prems(3-5) by (auto simp: it)
  from start_one [OF Cons.prems(1,2) pre] obtain rk1 h w1 where
    w1: "add_child n g0 p ((sv_heap w)(p \<mapsto> new_element)) = Some h"
      "replicas_init n p (fst (item_info it)) new_replicas (w\<lparr>sv_heap := h\<rparr>) = Some (True, item_object it, w1)"
      "reps_ok rk1 n g0 (gr_replicas g @ [p]) w1" "rk1 g0 = rk g0" "reps_at 0 p (item_object it) (sv_heap w1)" "item_up (sv_heap w1) it"
      "\<forall>b. leaf (sv_heap w) b \<and> b \<noteq> g0 \<longrightarrow> enabled (sv_heap w1) b = enabled (sv_heap w) b"
      "\<forall>b. b \<noteq> g0 \<and> b \<notin> set (item_addrs [it]) \<longrightarrow> shape (sv_heap w1) b = shape (sv_heap w) b" unfolding it by blast
  let ?g = "g\<lparr>gr_replicas := gr_replicas g @ [p], gr_objects := (gr_objects g)(p := item_object it)\<rparr>"
  from Cons.prems(1) obtain q0 where sg: "shape (sv_heap w) g0 = Some (q0, gr_replicas g)" by (auto simp: reps_ok_def)
  from w1(3) obtain q1 where sg1: "shape (sv_heap w1) g0 = Some (q1, gr_replicas g @ [p])" by (auto simp: reps_ok_def)
  have gl: "\<not> leaf (sv_heap w1) g0" using sg1 by (simp add: shape_leaf)
  have new: "b \<notin> set (item_addrs (it # its))" if "shape (sv_heap w) b = Some y" for b y using Cons.prems(4) that by (auto simp: shape_def)
  have at: "reps_at 0 q (gr_objects ?g q) (sv_heap w1)" if q: "q \<in> set (gr_replicas g)" for q
  proof -
    from Cons.prems(6) q have r: "reps_at 0 q (gr_objects g q) (sv_heap w)" by (simp add: group_at_def)
    then obtain y where y: "shape (sv_heap w) q = Some (y, rp_services (gr_objects g q))" by (auto simp: reps_at_def)
    have "rk g0 < rk q"
    proof -
      from sg obtain e where "sv_heap w g0 = Some e" "el_children e = gr_replicas g" by (auto simp: shape_def)
      moreover obtain f where "sv_heap w q = Some f" using y by (auto simp: shape_def)
      ultimately show ?thesis using child_of(2) [of rk "sv_heap w" g0 e q f] Cons.prems(1) q by (simp add: reps_ok_def services_ok_def tree_inv_def)
    qed
    then have qg: "q \<noteq> g0" by auto
    have qn: "q \<notin> set (item_addrs [it])" "q \<noteq> p" using new [OF y] split by (auto simp: it)
    have same: "shape (sv_heap w1) q = shape (sv_heap w) q" using w1(8) qg qn by simp
    have "leaf (sv_heap w1) a" if "leaf (sv_heap w) a" for a
    proof -
      from that obtain z where z: "shape (sv_heap w) a = Some (z, [])" by (auto simp: shape_leaf)
      have "a \<noteq> g0" using z sg q by auto
      then show ?thesis using w1(8) new [OF z] split z by (simp add: shape_leaf)
    qed
    moreover have "rp_services (gr_objects g q) = [] \<longrightarrow> \<not> enabled (sv_heap w1) q"
      using r y w1(7) qg by (simp add: reps_at_def shape_leaf)
    ultimately show ?thesis using r same qn(2) by (simp add: reps_at_def)
  qed
  have ga: "group_at 0 g0 ?g w1" unfolding group_at_def
  proof
    fix q assume "q \<in> set (gr_replicas ?g)"
    then consider "q = p" | "q \<in> set (gr_replicas g)" by auto
    then show "reps_at 0 q (gr_objects ?g q) (sv_heap w1)" using at w1(5) by cases simp_all
  qed
  have fresh: "\<forall>b \<in> set (item_addrs its). sv_heap w1 b = None"
  proof
    fix b assume b: "b \<in> set (item_addrs its)"
    then have "sv_heap w b = None" "b \<notin> set (item_addrs [it])" using Cons.prems(4,5) by (auto simp: it)
    moreover from this have "b \<noteq> g0" using sg by (auto simp: shape_def)
    ultimately have "shape (sv_heap w1) b = None" using w1(8) by (metis shape_def option.map(1))
    then show "sv_heap w1 b = None" by (simp add: shape_def)
  qed
  have rest: "reps_ok rk1 n g0 (gr_replicas ?g) w1" "2 * Suc (Suc (rk1 g0)) < n" "\<forall>it \<in> set its. item_ok it" "distinct (item_addrs its)"
    using w1(3,4) Cons.prems(2,3,5) by (auto simp: it)
  from Cons.IH [OF rest(1-3) fresh rest(4) ga] obtain rk2 g2 w2 where
    w2: "start_replicas n g0 (map item_info its) ?g w1 = Some (True, g2, w2)" "reps_ok rk2 n g0 (gr_replicas g2) w2" "group_at 0 g0 g2 w2"
      "gr_replicas g2 = gr_replicas ?g @ map (snd \<circ> snd \<circ> snd) its" "\<forall>it \<in> set its. gr_objects g2 (snd (snd (snd it))) = item_object it"
      "\<forall>q. q \<notin> set (item_addrs its) \<longrightarrow> gr_objects g2 q = gr_objects ?g q" "\<forall>it \<in> set its. item_up (sv_heap w2) it"
      "\<forall>b. leaf (sv_heap w1) b \<and> b \<noteq> g0 \<longrightarrow> enabled (sv_heap w2) b = enabled (sv_heap w1) b" "gr_inited g2 = gr_inited ?g" by blast
  have start: "start_replicas n g0 (map item_info (it # its)) g w = Some (True, g2, w2)"
  proof -
    obtain ri where i: "item_info it = (ri, Some p)" by (simp add: item_info_def it)
    show ?thesis using w1(1,2) w2(1) by (simp add: i)
  qed
  have pn: "p \<notin> set (item_addrs its)" using Cons.prems(5) by (simp add: it)
  have obj: "gr_objects g2 p = item_object it" using w2(6) pn by simp
  have up: "item_up (sv_heap w2) it"
  proof (rule item_up_later [OF w1(6) it], intro ballI impI)
    fix a assume a: "a \<in> set (addrs hs)" "\<not> f"
    then have "leaf (sv_heap w1) a" using w1(5) by (simp add: reps_at_def item_object_def it)
    then show "enabled (sv_heap w2) a = enabled (sv_heap w1) a" using w2(8) gl by metis
  qed
  have leaves: "enabled (sv_heap w2) b = enabled (sv_heap w) b" if b: "leaf (sv_heap w) b" "b \<noteq> g0" for b
  proof -
    from b(1) obtain z where z: "shape (sv_heap w) b = Some (z, [])" by (auto simp: shape_leaf)
    then have "leaf (sv_heap w1) b" using w1(8) new [OF z] split b(2) by (simp add: shape_leaf)
    then show ?thesis using w2(8) w1(7) b by simp
  qed
  have keep: "gr_objects g2 q = gr_objects g q" if "q \<notin> set (item_addrs (it # its))" for q
    using w2(6) that split by (simp add: it)
  have "gr_replicas g2 = gr_replicas g @ map (snd \<circ> snd \<circ> snd) (it # its)" using w2(4) by (simp add: it)
  moreover have "\<forall>j \<in> set (it # its). gr_objects g2 (snd (snd (snd j))) = item_object j" using w2(5) obj by (simp add: it)
  moreover have "\<forall>j \<in> set (it # its). item_up (sv_heap w2) j" using w2(7) up by simp
  moreover have "gr_inited g2 = gr_inited g" using w2(9) by simp
  ultimately show ?case using start w2(2,3) keep leaves by blast
qed

section \<open>A group in use\<close>

fun group_run :: "nat \<Rightarrow> exchange list \<Rightarrow> group \<Rightarrow> services \<Rightarrow> (group \<times> services) option" where
  "group_run n [] g w = Some (g, w)"
| "group_run n (x # xs) g w = Option.bind (group_by_nothing n x g w) (\<lambda>(b, out, g1, w1). group_run n xs g1 w1)"

lemma group_run_serves:
  "services_ok rk n w \<Longrightarrow> group_at k g0 g w \<Longrightarrow> gr_inited g \<Longrightarrow> calls_upto k (gr_strategy g) \<Longrightarrow> k + length xs < 2147483647 \<Longrightarrow>
   group_run n xs g w = Some (g1, w1) \<Longrightarrow> gets_through n x g1 w1"
proof (induction xs arbitrary: k g w)
  case Nil
  then show ?case using group_step(1) [of rk n w k g0 g x] by simp
next
  case (Cons y ys)
  obtain b out g2 w2 where s: "group_by_nothing n y g w = Some (b, out, g2, w2)" "group_run n ys g2 w2 = Some (g1, w1)"
    using Cons.prems(6) by (auto simp: bind_eq_Some_conv)
  have "k < 2147483647" using Cons.prems(5) by simp
  from group_step(2) [OF Cons.prems(1-4) this s(1)] Cons.IH [of w2 "Suc k" g2] Cons.prems(5) s(2) show ?case by simp
qed

definition new_group :: group where
  "new_group = \<lparr>gr_inited = False, gr_strategy = None, gr_replicas = [], gr_objects = (\<lambda>p. new_replicas)\<rparr>"

definition given_group :: "nat \<Rightarrow> entry_item list \<Rightarrow> group_info" where
  "given_group k its = \<lparr>gi_replicas = map item_info its, gi_strategy = k, gi_forbidden = False, gi_memory = True\<rparr>"

text \<open>C11: a group with the strategies fixed or roll, whose hosts have sensible timeouts and addresses, starts, whatever hosts can be
  reached; the services enabled are those that were reached and not forbidden. From then on, after any exchanges with any
  outcome, an exchange goes to a service that is enabled if there is one among all replicas, and otherwise fails without
  touching anything; no deleted or null pointer is followed.\<close>

theorem group_serves:
  assumes g0: "reps_ok rk n g0 [] w" "2 * Suc (Suc (rk g0)) < n" and its: "\<forall>it \<in> set its. item_ok it" "\<forall>b \<in> set (item_addrs its). sv_heap w b = None"
    "distinct (item_addrs its)" and k: "k = 1 \<or> k = 2"
  shows "\<exists>g1 w1. group_init n g0 [1, 2] (given_group k its) new_group w = Some (True, g1, w1) \<and>
    gr_replicas g1 = map (snd \<circ> snd \<circ> snd) its \<and> (\<forall>it \<in> set its. gr_objects g1 (snd (snd (snd it))) = item_object it \<and> item_up (sv_heap w1) it) \<and>
    (\<forall>xs g2 w2. length xs < 2147483647 \<and> group_run n xs g1 w1 = Some (g2, w2) \<longrightarrow> (\<forall>x. gets_through n x g2 w2))"
proof -
  have st: "reps_ok rk n g0 (gr_replicas new_group) w" "group_at 0 g0 new_group w" using g0 by (simp_all add: new_group_def group_at_def)
  from start_replicas_ok [OF st(1) g0(2) its st(2)] obtain rk1 g1 w1 where
    w1: "start_replicas n g0 (map item_info its) new_group w = Some (True, g1, w1)" "reps_ok rk1 n g0 (gr_replicas g1) w1" "group_at 0 g0 g1 w1"
      "gr_replicas g1 = gr_replicas new_group @ map (snd \<circ> snd \<circ> snd) its" "\<forall>it \<in> set its. gr_objects g1 (snd (snd (snd it))) = item_object it"
      "\<forall>it \<in> set its. item_up (sv_heap w1) it" by blast
  from k obtain s where s: "make_strategy k = Some s" "calls_upto 0 (Some s)" using calls_upto_make [OF k] by (auto simp: calls_upto_def make_strategy_def)
  let ?g = "g1\<lparr>gr_strategy := Some s, gr_inited := True\<rparr>"
  have "group_init n g0 [1, 2] (given_group k its) new_group w = Some (True, ?g, w1)"
    using w1(1) s(1) k by (auto simp: group_init_def given_group_def new_group_def)
  moreover have "gets_through n x g2 w2" if "length xs < 2147483647" "group_run n xs ?g w1 = Some (g2, w2)" for xs g2 w2 x
  proof (rule group_run_serves [OF _ _ _ _ _ that(2)])
    show "services_ok rk1 n w1" using w1(2) by (simp add: reps_ok_def)
    show "group_at 0 g0 ?g w1" using w1(3) by (simp add: group_at_def)
  qed (use s(2) that(1) in simp_all)
  then have "\<forall>xs g2 w2. length xs < 2147483647 \<and> group_run n xs ?g w1 = Some (g2, w2) \<longrightarrow> (\<forall>x. gets_through n x g2 w2)" by blast
  moreover have "gr_replicas ?g = map (snd \<circ> snd \<circ> snd) its" using w1(4) by (simp add: new_group_def)
  moreover have "\<forall>it \<in> set its. gr_objects ?g (snd (snd (snd it))) = item_object it \<and> item_up (sv_heap w1) it" using w1(5,6) by simp
  ultimately show ?thesis by blast
qed

text \<open>Samples: a group of two replicas, of which the host of the first cannot be reached.\<close>

definition bare_group :: services where
  "bare_group = \<lparr>sv_heap = [0 \<mapsto> new_element], sv_open = (\<lambda>a. False), sv_reinit = [], sv_next = 0\<rparr>"

lemma bare_group_ok: "reps_ok (\<lambda>a. 0) 9 0 [] bare_group"
  by (simp add: reps_ok_def services_ok_def bare_group_def tree_inv_def tree_ok_def node_ok_def new_element_def shape_def enabled_def)

definition plain_host :: host where "plain_host = \<lparr>ho_timeout = 2000, ho_forbidden = False\<rparr>"

definition two_replicas :: "entry_item list" where
  "two_replicas = [(False, 1, [(plain_host, 2, Conn_error)], 1), (False, 2, [(plain_host, 4, Conn_ok), (plain_host, 5, Conn_error)], 3)]"

theorem group_serves_witness:
  "\<exists>g1 w1. group_init 9 0 [1, 2] (given_group 1 two_replicas) new_group bare_group = Some (True, g1, w1) \<and> \<not> enabled (sv_heap w1) 2 \<and>
    enabled (sv_heap w1) 4 \<and> gets_through 9 ([Sent 5], [Got [8, 0, 0, 0], Got [7, 0, 0, 0]], 5, 64) g1 w1"
proof -
  have its: "\<forall>it \<in> set two_replicas. item_ok it" "\<forall>b \<in> set (item_addrs two_replicas). sv_heap bare_group b = None" "distinct (item_addrs two_replicas)"
    by (simp_all add: two_replicas_def item_ok_def host_ok_def plain_host_def bare_group_def)
  have fuel: "2 * Suc (Suc 0) < (9::nat)" by simp
  from group_serves [OF bare_group_ok fuel its, of 1] obtain g1 w1 where
    g1: "group_init 9 0 [1, 2] (given_group 1 two_replicas) new_group bare_group = Some (True, g1, w1)" "\<forall>it \<in> set two_replicas. item_up (sv_heap w1) it"
      "\<forall>xs g2 w2. length xs < 2147483647 \<and> group_run 9 xs g1 w1 = Some (g2, w2) \<longrightarrow> (\<forall>x. gets_through 9 x g2 w2)" by blast
  have "gets_through 9 x g1 w1" for x using g1(3) [rule_format, of "[]" g1 w1 x] by simp
  moreover have "\<not> enabled (sv_heap w1) 2" "enabled (sv_heap w1) 4" using g1(2) by (simp_all add: two_replicas_def item_up_def comes_up_def plain_host_def)
  ultimately show ?thesis using g1(1) by blast
qed

end
