(* ===== verification/SvcAsync.thy ===== *)
theory SvcAsync
  imports SvcTree
begin

text \<open>
  Services with a connection that does not block in the client library: \<^verbatim>\<open>AsyncService\<close>
  (\<^verbatim>\<open>friend_serv/common/service.cpp\<close>, \<^verbatim>\<open>service.h\<close>), with the map from descriptors to services through which they hear
  of their connection. The network and the clock are arguments; \<open>None\<close> is a null pointer, or an element that was
  deleted, that is followed.
\<close>

section \<open>State and operations\<close>

record async =
  as_fd :: "nat option"
  as_time :: int
  as_connecting :: bool

record host_async =
  ah_timeout :: int
  ah_forbidden :: bool

text \<open>\<open>av_map\<close> is \<^verbatim>\<open>fd_service_map\<close>, whose entries may be null, and \<open>av_reinit\<close> is \<^verbatim>\<open>reinit_set\<close>.\<close>

record asyncs =
  av_heap :: elements
  av_svc :: "nat \<Rightarrow> async"
  av_map :: "nat \<Rightarrow> nat option option"
  av_reinit :: "nat set"

definition set_svc :: "nat \<Rightarrow> async \<Rightarrow> asyncs \<Rightarrow> asyncs" where "set_svc a s w = w\<lparr>av_svc := (av_svc w)(a := s)\<rparr>"

definition forget_fd :: "nat \<Rightarrow> asyncs \<Rightarrow> asyncs" where
  "forget_fd a w = (case as_fd (av_svc w a) of Some fd \<Rightarrow> w\<lparr>av_map := (av_map w)(fd := None)\<rparr> | None \<Rightarrow> w)"

text \<open>\<^verbatim>\<open>Shut\<close> and \<^verbatim>\<open>LinkDown\<close>, which differ in what becomes of the descriptor outside and in the set.\<close>

definition drop_link :: "nat \<Rightarrow> nat \<Rightarrow> asyncs \<Rightarrow> asyncs option" where
  "drop_link n a w =
     map_option (\<lambda>h. set_svc a ((av_svc w a)\<lparr>as_connecting := False, as_fd := None\<rparr>) ((forget_fd a w)\<lparr>av_heap := h\<rparr>)) (disable n a (av_heap w))"

definition async_shut :: "nat \<Rightarrow> nat \<Rightarrow> asyncs \<Rightarrow> asyncs option" where
  "async_shut n a w = map_option (\<lambda>w1. w1\<lparr>av_reinit := av_reinit w1 - {a}\<rparr>) (drop_link n a w)"

definition link_down :: "nat \<Rightarrow> nat \<Rightarrow> asyncs \<Rightarrow> asyncs option" where
  "link_down n a w = map_option (\<lambda>w1. w1\<lparr>av_reinit := insert a (av_reinit w1)\<rparr>) (drop_link n a w)"

definition link_up :: "nat \<Rightarrow> nat \<Rightarrow> asyncs \<Rightarrow> asyncs option" where
  "link_up n a w =
     map_option (\<lambda>h. set_svc a ((av_svc w a)\<lparr>as_connecting := False\<rparr>) (w\<lparr>av_heap := h, av_reinit := av_reinit w - {a}\<rparr>)) (enable n a (av_heap w))"

text \<open>The end of \<^verbatim>\<open>Init\<close>: \<open>fd\<close> is what \<^verbatim>\<open>async_net_connect_ser\<close> gives; the service is not entered if the map has the descriptor.\<close>

definition begin_connect :: "int \<Rightarrow> int \<Rightarrow> nat \<Rightarrow> asyncs \<Rightarrow> bool \<times> asyncs" where
  "begin_connect fd now a w =
     (if fd = -1 then (True, set_svc a ((av_svc w a)\<lparr>as_fd := None, as_connecting := False\<rparr>) (w\<lparr>av_reinit := insert a (av_reinit w)\<rparr>))
      else if fd < 0 then (False, set_svc a ((av_svc w a)\<lparr>as_fd := None, as_connecting := False\<rparr>) (w\<lparr>av_reinit := av_reinit w - {a}\<rparr>))
      else (True, set_svc a \<lparr>as_fd = Some (nat fd), as_time = now, as_connecting = True\<rparr>
        (w\<lparr>av_reinit := insert a (av_reinit w),
           av_map := (case av_map w (nat fd) of None \<Rightarrow> (av_map w)(nat fd \<mapsto> Some a) | Some x \<Rightarrow> av_map w)\<rparr>)))"

definition async_init :: "nat \<Rightarrow> host_async \<Rightarrow> int \<Rightarrow> int \<Rightarrow> nat \<Rightarrow> asyncs \<Rightarrow> (bool \<times> asyncs) option" where
  "async_init n ho now fd a w =
     (case av_heap w a of
        None \<Rightarrow> None
      | Some e \<Rightarrow>
          if el_enable e \<or> ah_timeout ho \<le> 0 \<or> ah_timeout ho > 10000 then map_option (\<lambda>w1. (False, w1)) (async_shut n a w)
          else if ah_forbidden ho then map_option (\<lambda>w1. (True, w1)) (async_shut n a w)
          else if as_connecting (av_svc w a) then
            (if now - as_time (av_svc w a) \<le> ah_timeout ho then Some (True, w)
             else map_option (begin_connect fd now a) (async_shut n a w))
          else Some (begin_connect fd now a w))"

definition async_reinit :: "nat \<Rightarrow> host_async \<Rightarrow> int \<Rightarrow> int \<Rightarrow> nat \<Rightarrow> asyncs \<Rightarrow> (bool \<times> asyncs) option" where
  "async_reinit n ho now fd a w =
     Option.bind (disable n a (av_heap w)) (\<lambda>h.
       let w1 = w\<lparr>av_heap := h\<rparr>
       in Option.bind (if as_connecting (av_svc w1 a) then Some w1 else async_shut n a w1) (async_init n ho now fd a))"

text \<open>\<open>sent\<close> is what \<^verbatim>\<open>net_send_ser\<close> gives.\<close>

definition async_send :: "nat \<Rightarrow> int \<Rightarrow> nat \<Rightarrow> asyncs \<Rightarrow> (bool \<times> asyncs) option" where
  "async_send n sent a w =
     (if sent \<le> 0 then map_option (\<lambda>w1. (False, w1\<lparr>av_reinit := insert a (av_reinit w1)\<rparr>)) (async_shut n a w) else Some (True, w))"

text \<open>\<open>service_at\<close> is \<^verbatim>\<open>fd_service_map[fd]\<close>, which enters a null pointer where there is none. \<^verbatim>\<open>SetServiceConnected\<close> first
  looks at all services of the map, of which \<open>fds\<close> is a list of the descriptors.\<close>

definition service_at :: "nat \<Rightarrow> asyncs \<Rightarrow> nat option \<times> asyncs" where
  "service_at fd w = (case av_map w fd of Some x \<Rightarrow> (x, w) | None \<Rightarrow> (None, w\<lparr>av_map := (av_map w)(fd \<mapsto> None)\<rparr>))"

definition set_connected :: "nat \<Rightarrow> nat list \<Rightarrow> nat \<Rightarrow> asyncs \<Rightarrow> asyncs option" where
  "set_connected n fds fd w =
     (if list_all (\<lambda>f. case av_map w f of Some (Some a) \<Rightarrow> av_heap w a \<noteq> None | Some None \<Rightarrow> False | None \<Rightarrow> True) fds then
        (case service_at fd w of (Some a, w1) \<Rightarrow> link_up n a w1 | (None, w1) \<Rightarrow> Some w1)
      else None)"

definition set_disconnected :: "nat \<Rightarrow> nat \<Rightarrow> asyncs \<Rightarrow> asyncs option" where
  "set_disconnected n fd w = (case service_at fd w of (Some a, w1) \<Rightarrow> link_down n a w1 | (None, w1) \<Rightarrow> Some w1)"

section \<open>The invariant\<close>

text \<open>The map holds exactly the services with a descriptor, and these are on their way or enabled.\<close>

definition map_exact :: "asyncs \<Rightarrow> bool" where
  "map_exact w \<longleftrightarrow> (\<forall>fd. av_map w fd \<noteq> Some None) \<and> (\<forall>fd a. av_map w fd = Some (Some a) \<longleftrightarrow> leaf (av_heap w) a \<and> as_fd (av_svc w a) = Some fd)"

definition link_state :: "asyncs \<Rightarrow> nat \<Rightarrow> bool" where
  "link_state w a \<longleftrightarrow> (if as_fd (av_svc w a) = None then \<not> enabled (av_heap w) a \<and> \<not> as_connecting (av_svc w a)
     else enabled (av_heap w) a \<longleftrightarrow> \<not> as_connecting (av_svc w a))"

text \<open>The service \<open>a\<close> is in the middle of an operation.\<close>

definition asyncs_but :: "(nat \<Rightarrow> nat) \<Rightarrow> nat \<Rightarrow> nat \<Rightarrow> asyncs \<Rightarrow> bool" where
  "asyncs_but rk n a w \<longleftrightarrow> tree_inv rk (av_heap w) \<and> (\<forall>b e. av_heap w b = Some e \<longrightarrow> 2 * rk b < n) \<and> map_exact w \<and>
     (\<forall>b. leaf (av_heap w) b \<and> b \<noteq> a \<longrightarrow> link_state w b)"

definition asyncs_ok :: "(nat \<Rightarrow> nat) \<Rightarrow> nat \<Rightarrow> asyncs \<Rightarrow> bool" where
  "asyncs_ok rk n w \<longleftrightarrow> tree_inv rk (av_heap w) \<and> (\<forall>b e. av_heap w b = Some e \<longrightarrow> 2 * rk b < n) \<and> map_exact w \<and>
     (\<forall>b. leaf (av_heap w) b \<longrightarrow> link_state w b)"

lemma ok_but: "asyncs_ok rk n w \<Longrightarrow> asyncs_but rk n a w" by (simp add: asyncs_ok_def asyncs_but_def)

lemma but_ok: "asyncs_but rk n a w \<Longrightarrow> link_state w a \<Longrightarrow> asyncs_ok rk n w" unfolding asyncs_ok_def asyncs_but_def by blast

lemma asyncs_ok_set [simp]: "asyncs_ok rk n (av_reinit_update f w) = asyncs_ok rk n w" "asyncs_but rk n a (av_reinit_update f w) = asyncs_but rk n a w"
  by (simp_all add: asyncs_ok_def asyncs_but_def map_exact_def link_state_def)

lemma asyncs_ok_cong: "av_heap w = av_heap v \<Longrightarrow> av_svc w = av_svc v \<Longrightarrow> av_map w = av_map v \<Longrightarrow> asyncs_ok rk n w = asyncs_ok rk n v"
  by (simp add: asyncs_ok_def map_exact_def link_state_def)

text \<open>Setting the flag of a service leaves all others as they are.\<close>

lemma set_flag:
  assumes "asyncs_but rk n a w" "leaf (av_heap w) a"
  shows "\<exists>h. (if v then enable n a (av_heap w) else disable n a (av_heap w)) = Some h \<and> asyncs_but rk n a (w\<lparr>av_heap := h\<rparr>) \<and>
    same_tree (av_heap w) h \<and> enabled h a = v"
proof -
  from assms have "tree_inv rk (av_heap w)" "2 * rk a < n" by (auto simp: asyncs_but_def leaf_def)
  from set_leaf [OF this(1) assms(2) this(2), of v] obtain h where
    h: "(if v then enable n a (av_heap w) else disable n a (av_heap w)) = Some h" "tree_inv rk h" "same_tree (av_heap w) h" "enabled h a = v"
      "\<forall>b. leaf (av_heap w) b \<and> b \<noteq> a \<longrightarrow> enabled h b = enabled (av_heap w) b" by blast
  have "2 * rk b < n" if "h b = Some e" for b e
    using same_treeD [OF same_tree_sym [OF h(3)] that] assms(1) by (auto simp: asyncs_but_def)
  moreover have "leaf h b \<longleftrightarrow> leaf (av_heap w) b" for b using leaf_same [OF h(3)] .
  ultimately have "asyncs_but rk n a (w\<lparr>av_heap := h\<rparr>)"
    using assms(1) h(2,5) by (simp add: asyncs_but_def map_exact_def link_state_def)
  then show ?thesis using h(1,3,4) by blast
qed

lemma drop_link_ok:
  assumes "asyncs_but rk n a w" "leaf (av_heap w) a"
  shows "\<exists>w1. drop_link n a w = Some w1 \<and> asyncs_ok rk n w1 \<and> same_tree (av_heap w) (av_heap w1) \<and> as_fd (av_svc w1 a) = None \<and>
    av_reinit w1 = av_reinit w \<and> (\<forall>fd. av_map w1 fd = (if as_fd (av_svc w a) = Some fd then None else av_map w fd))"
proof -
  from set_flag [OF assms, of False] obtain h where h: "disable n a (av_heap w) = Some h" "asyncs_but rk n a (w\<lparr>av_heap := h\<rparr>)"
    "same_tree (av_heap w) h" "\<not> enabled h a" by auto
  let ?w = "set_svc a ((av_svc w a)\<lparr>as_connecting := False, as_fd := None\<rparr>) ((forget_fd a w)\<lparr>av_heap := h\<rparr>)"
  have m: "av_map ?w fd = (if as_fd (av_svc w a) = Some fd then None else av_map w fd)" for fd
    by (simp add: set_svc_def forget_fd_def split: option.splits)
  have s: "av_svc ?w = (av_svc w)(a := (av_svc w a)\<lparr>as_connecting := False, as_fd := None\<rparr>)" "av_heap ?w = h" "av_reinit ?w = av_reinit w"
    by (simp_all add: set_svc_def forget_fd_def split: option.splits)
  have me: "\<And>fd b. av_map w fd = Some (Some b) \<longleftrightarrow> leaf h b \<and> as_fd (av_svc w b) = Some fd" "\<And>fd. av_map w fd \<noteq> Some None"
    using h(2) by (simp_all add: asyncs_but_def map_exact_def)
  have la: "leaf h a" using leaf_same [OF h(3)] assms(2) by blast
  have "av_map ?w fd = Some (Some b) \<longleftrightarrow> leaf (av_heap ?w) b \<and> as_fd (av_svc ?w b) = Some fd" for fd b
    unfolding m s using me(1) [of fd b] me(1) [of fd a] la by auto
  moreover have "av_map ?w fd \<noteq> Some None" for fd unfolding m using me(2) by simp
  ultimately have "map_exact ?w" unfolding map_exact_def by blast
  moreover have "link_state ?w b" if "leaf h b" for b
    using h(2,4) that unfolding asyncs_but_def link_state_def s by (cases "b = a") auto
  ultimately have "asyncs_ok rk n ?w" using h(2) unfolding asyncs_ok_def asyncs_but_def s by simp
  then show ?thesis using h(1,3) m s by (auto simp: drop_link_def)
qed

lemma async_shut_ok:
  assumes "asyncs_but rk n a w" "leaf (av_heap w) a"
  shows "\<exists>w1. async_shut n a w = Some w1 \<and> asyncs_ok rk n w1 \<and> same_tree (av_heap w) (av_heap w1) \<and> as_fd (av_svc w1 a) = None \<and>
    (\<forall>fd. av_map w1 fd = (if as_fd (av_svc w a) = Some fd then None else av_map w fd))"
  using drop_link_ok [OF assms] by (auto simp: async_shut_def)

lemma begin_connect_ok:
  assumes w: "asyncs_ok rk n w" "leaf (av_heap w) a" "as_fd (av_svc w a) = None" and fd: "0 \<le> fd \<longrightarrow> av_map w (nat fd) = None"
  shows "asyncs_ok rk n (snd (begin_connect fd now a w)) \<and> same_tree (av_heap w) (av_heap (snd (begin_connect fd now a w)))"
proof -
  have off: "\<not> enabled (av_heap w) a" using w by (auto simp: asyncs_ok_def link_state_def split: if_splits)
  have me: "\<And>f b. av_map w f = Some (Some b) \<longleftrightarrow> leaf (av_heap w) b \<and> as_fd (av_svc w b) = Some f" "\<And>f. av_map w f \<noteq> Some None"
    using w(1) by (simp_all add: asyncs_ok_def map_exact_def)
  show ?thesis
  proof (cases "fd < 0")
    case True
    let ?s = "(av_svc w)(a := (av_svc w a)\<lparr>as_fd := None, as_connecting := False\<rparr>)"
    have fds: "as_fd (?s b) = as_fd (av_svc w b)" for b using w(3) by simp
    have "asyncs_ok rk n (w\<lparr>av_svc := ?s\<rparr>)"
      using w(1) off unfolding asyncs_ok_def map_exact_def link_state_def by (auto simp: fds w(3))
    then have "asyncs_ok rk n (set_svc a ((av_svc w a)\<lparr>as_fd := None, as_connecting := False\<rparr>) (w\<lparr>av_reinit := r\<rparr>))" for r
      by (rule asyncs_ok_cong [THEN iffD1, rotated -1]) (simp_all add: set_svc_def)
    then show ?thesis using True by (simp add: begin_connect_def) (simp add: set_svc_def)
  next
    case False
    let ?w = "w\<lparr>av_svc := (av_svc w)(a := \<lparr>as_fd = Some (nat fd), as_time = now, as_connecting = True\<rparr>), av_map := (av_map w)(nat fd \<mapsto> Some a)\<rparr>"
    have free: "av_map w (nat fd) = None" using fd False by simp
    have "av_map ?w f = Some (Some b) \<longleftrightarrow> leaf (av_heap ?w) b \<and> as_fd (av_svc ?w b) = Some f" for f b
      using me(1) [of f b] free w(2,3) by auto
    moreover have "av_map ?w f \<noteq> Some None" for f using me(2) by simp
    ultimately have "map_exact ?w" unfolding map_exact_def by blast
    then have "asyncs_ok rk n ?w" using w(1) off by (auto simp: asyncs_ok_def link_state_def)
    then have "asyncs_ok rk n (set_svc a \<lparr>as_fd = Some (nat fd), as_time = now, as_connecting = True\<rparr>
        (w\<lparr>av_reinit := insert a (av_reinit w), av_map := (av_map w)(nat fd \<mapsto> Some a)\<rparr>))"
      by (rule asyncs_ok_cong [THEN iffD1, rotated -1]) (simp_all add: set_svc_def)
    then show ?thesis using False free by (simp add: begin_connect_def) (simp add: set_svc_def)
  qed
qed

lemma async_init_ok:
  assumes w: "asyncs_ok rk n w" "leaf (av_heap w) a" "\<not> as_connecting (av_svc w a) \<longrightarrow> as_fd (av_svc w a) = None"
    and fd: "0 \<le> fd \<longrightarrow> av_map w (nat fd) = None \<or> as_fd (av_svc w a) = Some (nat fd)"
  shows "\<exists>b w1. async_init n ho now fd a w = Some (b, w1) \<and> asyncs_ok rk n w1 \<and> same_tree (av_heap w) (av_heap w1)"
proof -
  from w(2) obtain e where e: "av_heap w a = Some e" by (auto simp: leaf_def)
  from async_shut_ok [OF ok_but [OF w(1)] w(2)] obtain w1 where w1: "async_shut n a w = Some w1" "asyncs_ok rk n w1" "same_tree (av_heap w) (av_heap w1)"
    "as_fd (av_svc w1 a) = None" "\<forall>fd. av_map w1 fd = (if as_fd (av_svc w a) = Some fd then None else av_map w fd)" by blast
  have l1: "leaf (av_heap w1) a" using leaf_same [OF w1(3)] w(2) by blast
  have "0 \<le> fd \<longrightarrow> av_map w1 (nat fd) = None" using fd w1(5) by auto
  note b1 = begin_connect_ok [OF w1(2) l1 w1(4) this, of now]
  show ?thesis
  proof (cases "as_connecting (av_svc w a)")
    case True
    then show ?thesis using e w1(1-3) b1 same_tree_trans [OF w1(3)] w(1)
      by (cases "begin_connect fd now a w1") (auto simp: async_init_def)
  next
    case False
    then have none: "as_fd (av_svc w a) = None" using w(3) by simp
    then have "0 \<le> fd \<longrightarrow> av_map w (nat fd) = None" using fd by simp
    from begin_connect_ok [OF w(1,2) none this, of now] show ?thesis using e w1(1-3) False
      by (cases "begin_connect fd now a w") (auto simp: async_init_def)
  qed
qed

lemma async_reinit_ok:
  assumes w: "asyncs_ok rk n w" "leaf (av_heap w) a" and fd: "0 \<le> fd \<longrightarrow> av_map w (nat fd) = None \<or> as_fd (av_svc w a) = Some (nat fd)"
  shows "\<exists>b w1. async_reinit n ho now fd a w = Some (b, w1) \<and> asyncs_ok rk n w1 \<and> same_tree (av_heap w) (av_heap w1)"
proof -
  from set_flag [OF ok_but [OF w(1)] w(2), of False] obtain h where h: "disable n a (av_heap w) = Some h" "asyncs_but rk n a (w\<lparr>av_heap := h\<rparr>)"
    "same_tree (av_heap w) h" "\<not> enabled h a" by auto
  let ?w = "w\<lparr>av_heap := h\<rparr>"
  have l: "leaf (av_heap ?w) a" using leaf_same [OF h(3)] w(2) by simp
  show ?thesis
  proof (cases "as_connecting (av_svc w a)")
    case True
    then have "link_state ?w a" using w h(4) by (auto simp: asyncs_ok_def link_state_def split: if_splits)
    from async_init_ok [OF but_ok [OF h(2) this] l, of fd ho now] fd True h(1,3) same_tree_trans [OF h(3)] show ?thesis
      by (auto simp: async_reinit_def)
  next
    case False
    from async_shut_ok [OF h(2) l] obtain w1 where w1: "async_shut n a ?w = Some w1" "asyncs_ok rk n w1" "same_tree h (av_heap w1)"
      "as_fd (av_svc w1 a) = None" "\<forall>fd. av_map w1 fd = (if as_fd (av_svc w a) = Some fd then None else av_map w fd)" by auto
    have "leaf (av_heap w1) a" using leaf_same [OF w1(3)] l by simp
    from async_init_ok [OF w1(2) this, of fd ho now] fd w1(4,5) obtain b w2 where
      "async_init n ho now fd a w1 = Some (b, w2)" "asyncs_ok rk n w2" "same_tree (av_heap w1) (av_heap w2)" by fastforce
    then show ?thesis using False h(1) w1(1) same_tree_trans [OF h(3) same_tree_trans [OF w1(3)]] by (auto simp: async_reinit_def)
  qed
qed

lemma link_up_ok:
  assumes w: "asyncs_ok rk n w" "leaf (av_heap w) a" "as_fd (av_svc w a) \<noteq> None"
  shows "\<exists>w1. link_up n a w = Some w1 \<and> asyncs_ok rk n w1 \<and> same_tree (av_heap w) (av_heap w1)"
proof -
  from set_flag [OF ok_but [OF w(1)] w(2), of True] obtain h where h: "enable n a (av_heap w) = Some h" "asyncs_but rk n a (w\<lparr>av_heap := h\<rparr>)"
    "same_tree (av_heap w) h" "enabled h a" by auto
  let ?s = "(av_svc w)(a := (av_svc w a)\<lparr>as_connecting := False\<rparr>)"
  let ?w = "w\<lparr>av_heap := h, av_svc := ?s\<rparr>"
  have fds: "as_fd (?s b) = as_fd (av_svc w b)" for b by simp
  have "map_exact ?w" using h(2) by (simp add: asyncs_but_def map_exact_def fds del: fun_upd_apply)
  moreover have "link_state ?w b" if "leaf h b" for b
    using h(2,4) w(3) that unfolding asyncs_but_def link_state_def by (cases "b = a") auto
  ultimately have "asyncs_ok rk n ?w" using h(2) by (simp add: asyncs_ok_def asyncs_but_def)
  then have "asyncs_ok rk n (set_svc a ((av_svc w a)\<lparr>as_connecting := False\<rparr>) (w\<lparr>av_heap := h, av_reinit := av_reinit w - {a}\<rparr>))"
    by (rule asyncs_ok_cong [THEN iffD1, rotated -1]) (simp_all add: set_svc_def)
  then show ?thesis using h(1,3) by (auto simp: link_up_def) (simp add: set_svc_def)
qed

section \<open>Runs\<close>

text \<open>What happens to the services: the timer tries one again, something is sent, a connection comes up or goes down.\<close>

datatype async_event = Retry nat host_async int int | Send_to nat int | Linked nat "nat list" | Lost nat

definition async_event_step :: "nat \<Rightarrow> async_event \<Rightarrow> asyncs \<Rightarrow> asyncs option" where
  "async_event_step n ev w =
     (case ev of
        Retry a ho now fd \<Rightarrow> map_option snd (async_reinit n ho now fd a w)
      | Send_to a sent \<Rightarrow> map_option snd (async_send n sent a w)
      | Linked fd fds \<Rightarrow> set_connected n fds fd w
      | Lost fd \<Rightarrow> set_disconnected n fd w)"

text \<open>The network gives no descriptor that is in use, and tells only of those it gave and that were not closed.\<close>

definition event_ok :: "asyncs \<Rightarrow> async_event \<Rightarrow> bool" where
  "event_ok w ev \<longleftrightarrow>
     (case ev of
        Retry a ho now fd \<Rightarrow> leaf (av_heap w) a \<and> (0 \<le> fd \<longrightarrow> av_map w (nat fd) = None \<or> as_fd (av_svc w a) = Some (nat fd))
      | Send_to a sent \<Rightarrow> leaf (av_heap w) a
      | Linked fd fds \<Rightarrow> av_map w fd \<noteq> None
      | Lost fd \<Rightarrow> av_map w fd \<noteq> None)"

inductive async_runs :: "nat \<Rightarrow> asyncs \<Rightarrow> asyncs \<Rightarrow> bool" for n where
  start: "async_runs n w w"
| event: "async_runs n w w1 \<Longrightarrow> event_ok w1 ev \<Longrightarrow> async_event_step n ev w1 = Some w2 \<Longrightarrow> async_runs n w w2"

lemma in_map:
  assumes "asyncs_ok rk n w" "av_map w fd \<noteq> None"
  shows "\<exists>a. av_map w fd = Some (Some a) \<and> leaf (av_heap w) a \<and> as_fd (av_svc w a) = Some fd"
proof -
  obtain x where x: "av_map w fd = Some x" using assms(2) by blast
  moreover have "av_map w fd \<noteq> Some None" using assms(1) by (simp add: asyncs_ok_def map_exact_def)
  ultimately obtain a where "av_map w fd = Some (Some a)" by (cases x) auto
  then show ?thesis using assms(1) by (auto simp: asyncs_ok_def map_exact_def)
qed

lemma event_step_ok:
  assumes w: "asyncs_ok rk n w" and ev: "event_ok w ev"
  shows "\<exists>w1. async_event_step n ev w = Some w1 \<and> asyncs_ok rk n w1 \<and> same_tree (av_heap w) (av_heap w1)"
proof (cases ev)
  case (Retry a ho now fd)
  then show ?thesis using async_reinit_ok [OF w, of a fd ho now] ev by (fastforce simp: event_ok_def async_event_step_def)
next
  case (Send_to a sent)
  then show ?thesis using async_shut_ok [OF ok_but [OF w], of a] w ev by (auto simp: event_ok_def async_event_step_def async_send_def)
next
  case (Linked fd fds)
  then obtain a where a: "av_map w fd = Some (Some a)" "leaf (av_heap w) a" "as_fd (av_svc w a) = Some fd"
    using in_map [OF w] ev by (auto simp: event_ok_def)
  have "case av_map w f of Some (Some a) \<Rightarrow> av_heap w a \<noteq> None | Some None \<Rightarrow> False | None \<Rightarrow> True" for f
    using in_map [OF w, of f] by (cases "av_map w f") (auto simp: leaf_def)
  then have "list_all (\<lambda>f. case av_map w f of Some (Some a) \<Rightarrow> av_heap w a \<noteq> None | Some None \<Rightarrow> False | None \<Rightarrow> True) fds"
    by (simp add: list_all_iff)
  then show ?thesis using link_up_ok [OF w a(2)] a(1,3) Linked by (auto simp: async_event_step_def set_connected_def service_at_def)
next
  case (Lost fd)
  then obtain a where a: "av_map w fd = Some (Some a)" "leaf (av_heap w) a"
    using in_map [OF w] ev by (auto simp: event_ok_def)
  from drop_link_ok [OF ok_but [OF w] a(2)] show ?thesis using a(1) Lost
    by (auto simp: async_event_step_def set_disconnected_def service_at_def link_down_def)
qed

lemma async_runs_ok: "async_runs n w w1 \<Longrightarrow> asyncs_ok rk n w \<Longrightarrow> asyncs_ok rk n w1"
  by (induction rule: async_runs.induct) (use event_step_ok in fastforce)+


text \<open>An event for a descriptor the map does not have enters a null pointer, and with it the next connection that
  comes up, of any service, makes the loop of \<^verbatim>\<open>SetServiceConnected\<close> follow it.\<close>

lemma unknown_link_plants_null:
  assumes "av_map w fd = None" "fd \<in> set fds"
  shows "\<exists>w1. async_event_step n (Lost fd) w = Some w1 \<and> async_event_step n (Linked fd2 fds) w1 = None"
proof -
  let ?w = "w\<lparr>av_map := (av_map w)(fd \<mapsto> None)\<rparr>"
  have "async_event_step n (Lost fd) w = Some ?w" using assms(1) by (simp add: async_event_step_def set_disconnected_def service_at_def)
  moreover have "\<not> list_all (\<lambda>f. case av_map ?w f of Some (Some a) \<Rightarrow> av_heap ?w a \<noteq> None | Some None \<Rightarrow> False | None \<Rightarrow> True) fds"
    using assms(2) by (auto simp: list_all_iff intro!: bexI [of _ fd])
  then have "async_event_step n (Linked fd2 fds) ?w = None"
    unfolding async_event_step_def set_connected_def async_event.case by (simp only: if_False)
  ultimately show ?thesis by blast
qed

text \<open>Samples: the two services of the small group, neither connected.\<close>

definition no_links :: asyncs where
  "no_links = \<lparr>av_heap = small_group, av_svc = (\<lambda>a. \<lparr>as_fd = None, as_time = 0, as_connecting = False\<rparr>), av_map = Map.empty, av_reinit = {2, 3}\<rparr>"

lemma no_links_ok: "asyncs_ok small_rank 9 no_links"
proof -
  have "2 * small_rank a < 9" if "small_group a = Some e" for a e using small_group_cases [OF that] by (auto simp: small_rank_def)
  moreover have "\<not> enabled small_group a" for a by (auto simp: enabled_def split: option.splits dest!: small_group_cases)
  ultimately show ?thesis using small_group_inv by (simp add: asyncs_ok_def no_links_def map_exact_def link_state_def)
qed

lemma small_group_off: "disable 9 2 small_group = Some small_group"
proof -
  have "disable (Suc n) 2 small_group = Some small_group" for n by (simp add: small_group_at)
  from this [of 8] show ?thesis by simp
qed

lemma small_group_on: "\<exists>h. enable 9 2 small_group = Some h \<and> enabled h 0"
proof -
  have l: "leaf small_group 2" by (simp add: leaf_def small_group_at)
  from set_leaf [OF small_group_inv l, of 9 True] obtain h where
    h: "enable 9 2 small_group = Some h" "tree_inv small_rank h" "same_tree small_group h" "enabled h 2" by (auto simp: small_rank_def)
  have "is_below h 0 2"
    using same_treeD [OF h(3) small_group_at(1)] same_treeD [OF h(3) small_group_at(2)] leaf_same [OF h(3)] l
    by (auto intro!: is_below.child [of h 0 _ 1] is_below.child [of h 1 _ 2] is_below.self)
  from below_enabled [OF this h(2,4)] show ?thesis using h(1) by blast
qed

definition one_link :: asyncs where
  "one_link = snd (the (async_reinit 9 \<lparr>ah_timeout = 2000, ah_forbidden = False\<rparr> 5 7 2 no_links))"

lemma one_link_at: "async_event_step 9 (Retry 2 \<lparr>ah_timeout = 2000, ah_forbidden = False\<rparr> 5 7) no_links = Some one_link"
  "av_heap one_link = small_group" "av_map one_link = [7 \<mapsto> Some 2]" "av_svc one_link 2 = \<lparr>as_fd = Some 7, as_time = 5, as_connecting = True\<rparr>"
  by (simp_all add: one_link_def async_event_step_def async_reinit_def no_links_def small_group_at small_group_off
      async_shut_def drop_link_def forget_fd_def async_init_def begin_connect_def set_svc_def)


lemma unknown_link_plants_null_witness:
  "\<exists>w1. async_event_step 9 (Lost 5) one_link = Some w1 \<and> async_event_step 9 (Linked 7 [5, 7]) w1 = None"
  by (rule unknown_link_plants_null) (simp_all add: one_link_at)

end
