(* ===== verification/Spec2Isabelle.thy ===== *)
theory Spec2Isabelle
  imports Shmq Framer NetRun NetUdp Worker OutboxServ TmServ IniClass StoreGet StoreOps PstoreGet StorageFaults CachePipe AsyncServ SvcServe SvcAsync
begin

text \<open>
  Verification of the feed backend of MeFan (\<^verbatim>\<open>feed/\<close>): the services that keep what users publish and the
  server framework they run in; of a second server framework, in C++ (\<^verbatim>\<open>async_server/\<close>); and of the client
  library with which services find each other (\<^verbatim>\<open>friend_serv/common\<close>).

  \<^bold>\<open>The program.\<close> A service of the feed backend is a shared object with the entry points
  \<^verbatim>\<open>handle_init\<close>, \<^verbatim>\<open>handle_input\<close>, \<^verbatim>\<open>handle_process\<close> and others, loaded by the server framework
  serverbench (\<^verbatim>\<open>feed/timestamp_serv/lib/serverbench-1.1.0/src\<close>). The connection process of the framework
  accepts connections, cuts what it receives into messages with \<^verbatim>\<open>handle_input\<close> and pushes them into a queue
  in shared memory; a worker process pops them, calls \<^verbatim>\<open>handle_process\<close> and pushes the replies into a
  second queue, from which the connection process sends them. Three services are modelled on top of it: the
  timestamp service (\<^verbatim>\<open>feed/timestamp_serv/src\<close>: a time per user, in key-value files with a cache in
  front), the outbox service (\<^verbatim>\<open>feed/outbox_serv/src\<close>: the newest feeds of a user, in memcached with the
  storage service behind), and the storage service (\<^verbatim>\<open>feed/storage-serv/src\<close>: feeds and passive feeds in
  MySQL with memcached in front). The cache service (\<^verbatim>\<open>feed/cache_serv/src\<close>) is a program of its own: a
  network process takes feeds from clients and puts them, by user, into the request queue of one of several
  workers, each with a cache; a task that has been given a worker fetches its feeds one by one. The
  asynchronous server framework (\<^verbatim>\<open>async_server/src\<close>) has one process with the
  connections, and workers each with a ring of blocks in and one out, with a pipe that wakes the reader. The client
  library keeps groups of replicas of services, chooses one for each request, and connects again those that failed.

  \<^bold>\<open>Conventions.\<close> A C structure is a record, a packed structure on the wire is the list of its bytes read
  with \<open>rd_le\<close> at its offsets, unsigned arithmetic that may wrap is written out (\<open>u16\<close>, \<open>u32\<close>, \<open>s32\<close>, or
  \<open>mod\<close>). Code the repository does not hold is a parameter: sockets, \<^verbatim>\<open>malloc\<close>, MySQL, memcached, the
  key-value library behind \<^verbatim>\<open>c_uvalue\<close>, and the \<^verbatim>\<open>handle_*\<close> functions where the framework is
  modelled. What is relied on of them is a named predicate (\<open>mysql_ok\<close>, \<open>pmysql_ok\<close>, \<open>memc_ok\<close>, \<open>bdb_ok\<close>, and the like) that an
  instance of the development is proved to satisfy. An operation with an option as its result gives \<open>None\<close> where
  the code runs into undefined behaviour (a buffer written past its end, a null pointer followed); theorems that
  an operation returns are theorems that it gives \<open>Some\<close>. Interfaces are locales that are interpreted on the
  models: \<open>framer\<close> (a \<^verbatim>\<open>handle_input\<close> whose answer does not depend on how the bytes arrive), \<open>cached_table\<close>
  (rows cached under keys), \<open>channel\<close> (a bounded queue, given by the rings of both frameworks), and those of the cache of the timestamp service, the lists and the
  coded values of configuration files, each in the theory of its provider.

  \<^bold>\<open>Shared theories.\<close> \<open>Prelude\<close>: machine integers and bytes. \<open>Decimal\<close>, \<open>CText\<close>: numbers as text and
  \<^verbatim>\<open>snprintf\<close>, with a reader that inverts it. \<open>Framer\<close>: the reference cutting of a stream, and that feeding it
  chunk by chunk gives the same messages. \<open>FeedId\<close>: the identifier of a feed.

  \<^bold>\<open>The server framework.\<close> \<open>Shmq\<close> (\<^verbatim>\<open>shmq.c\<close>): the ring of blocks between two processes; every
  interleaving of pushes and pops is a queue, and a block that fits is accepted by an empty ring at the second
  attempt at the latest. \<open>Conn\<close>, \<open>NetIn\<close>, \<open>NetOut\<close>, \<open>NetRun\<close>, \<open>NetUdp\<close> (\<^verbatim>\<open>net.c\<close>, \<^verbatim>\<open>tcp.c\<close>): the table of
  connections, receiving, sending and the event loop as a step relation; in every run the requests handed on are
  what the reference cutting makes of the bytes received, the bytes sent are the replies in their order, and
  no buffer is exceeded. \<open>Worker\<close> (\<^verbatim>\<open>worker.c\<close>): a reply reaches the connection its request came from.

  \<^bold>\<open>The asynchronous server framework.\<close> \<open>Channel\<close>: the interface of a bounded queue. \<open>AsyncShmq\<close> (\<^verbatim>\<open>shmq.cpp\<close>):
  the ring in which headers and data wrap around the end, the list of blocks that wait, and when they wait for
  ever. \<open>AsyncLink\<close>, \<open>AsyncSend\<close> (\<^verbatim>\<open>tcp_socket.cpp\<close>, \<^verbatim>\<open>tcp_linker.cpp\<close>): what is received is cut as the reference
  does it, and what is sent is what was given. \<open>AsyncWork\<close> (\<^verbatim>\<open>shm_revent.cpp\<close>, \<^verbatim>\<open>net.cpp\<close>): the worker, what the
  plugin is told, and that the pipe wakes the worker; \<open>AsyncServ\<close> (\<^verbatim>\<open>tcp_socket.cpp\<close>, \<^verbatim>\<open>shm_sevent.cpp\<close>): the
  process of the connections, a package on its whole way, and a reply that reaches the wrong client.

  \<^bold>\<open>The timestamp service.\<close> \<open>ListHead\<close>, \<open>Rbtree\<close>, \<open>Mempool\<close> (\<^verbatim>\<open>utils/\<close>): circular lists as links in a
  memory, the red-black tree with its rotations and recolouring, the pool. \<open>TmCache\<close> (\<^verbatim>\<open>timestamp_cache.cpp\<close>): the
  cache of bounded size that gives up the entry used least recently, over the three. \<open>Uvalue\<close> (\<^verbatim>\<open>c_uvalue.cpp\<close>):
  key-value files. \<open>TmServ\<close> (\<^verbatim>\<open>server.cpp\<close>, \<^verbatim>\<open>cmd_handler.cpp\<close>): the commands; a run of the service is a
  run of a map from users to times. \<open>IniFile\<close>, \<open>IniDoc\<close>, \<open>IniClass\<close> (\<^verbatim>\<open>c_ini_file.cpp\<close>): configuration
  files edited in place, as documents of sections and keys.

  \<^bold>\<open>The outbox service.\<close> \<open>Box\<close>, \<open>BoxCache\<close>: what the two kinds of boxes share. \<open>Outbox\<close>, \<open>Poutbox\<close>: their
  operations; every cached box stays a view of the newest feeds of its owner. \<open>OutboxServ\<close>
  (\<^verbatim>\<open>outbox_so.cpp\<close>): the entry points.

  \<^bold>\<open>The storage service.\<close> \<open>FeedsDb\<close>, \<open>FeedsMemc\<close>, \<open>FeedsStore\<close> (\<^verbatim>\<open>feeds_database.cpp\<close>,
  \<^verbatim>\<open>feeds_memcached.cpp\<close>, \<^verbatim>\<open>feeds_store.cpp\<close>) and \<open>PfeedsDb\<close>, \<open>PfeedsMemc\<close>, \<open>PfeedsStore\<close>: the statements as
  text, the keys, and the operations on feeds and passive feeds. \<open>FeedsTable\<close> says what is relied on of MySQL:
  a statement, identified by its text, does to one list of rows what it says or fails; the texts are proved to
  tell statements and arguments apart, whatever the data of a feed is. \<open>CacheTable\<close>, \<open>StoreSpec\<close>, \<open>StoreOps\<close>,
  \<open>PstoreSpec\<close>: each operation is an operation on the rows, and memcached holds nothing but values of rows.
  \<open>StoreGet\<close>, \<open>PstoreGet\<close>: fetching gives exactly the rows asked for. \<open>StorageFrame\<close>: the two kinds of tables do
  not disturb each other. \<open>StorageServ\<close>, \<open>StorageRun\<close> (\<^verbatim>\<open>storage_server_so.cpp\<close>): the entry points, and runs of
  requests. \<open>StorageTables\<close>, \<open>StorageProps\<close>: a database that reads the statements, and the properties at it.
  \<open>StorageFaults\<close>: requests that are answered wrongly, and how.

  \<^bold>\<open>The cache service.\<close> \<open>CacheNet\<close> (\<^verbatim>\<open>net-proc/net_proc.cpp\<close>), \<open>CacheWork\<close> (\<^verbatim>\<open>work-proc/work_proc.cpp\<close>): the
  network process with its loops, which may not end, and the turn of a worker. \<open>CacheTasks\<close>: the invariant of
  tasks, workers and connections. \<open>CacheFrame\<close>: the receiving loops against dealing with the messages one by one.
  \<open>CacheProps\<close>: the properties of the network process, and a message that makes it hang. \<open>CachePipe\<close>: the two
  processes together as a step relation in which the feeds of a worker are a queue, and how a feed is lost.

  \<^bold>\<open>The client library.\<close> \<open>SvcTree\<close> (\<^verbatim>\<open>strategy.cpp\<close>): the tree of groups, replicas and services with the flags that
  follow each other upwards, as a heap of elements. \<open>SvcChoose\<close>: the strategies of choice. \<open>SvcClient\<close>
  (\<^verbatim>\<open>tcp_client.cpp\<close>, \<^verbatim>\<open>service.cpp\<close>): services with blocking connections, an exchange, and the timer that connects again
  with an iterator that is no longer valid. \<open>SvcAsync\<close> (\<^verbatim>\<open>service.cpp\<close>, \<^verbatim>\<open>service.h\<close>): services that hear of their
  connections. \<open>SvcGroup\<close> (\<^verbatim>\<open>service_replicas.cpp\<close>, \<^verbatim>\<open>service_group.cpp\<close>): start and end of replicas and groups;
  \<open>SvcServe\<close>: exchanges through a group reach a connected service whenever there is one.

  \<^bold>\<open>Bounds and fuel.\<close> Loops of the sources are structural recursion or functions with a measure (the bytes
  left, the nodes of a tree, the elements of a list); loops over linked memory have as much fuel as there are
  nodes, and the theorems show that they end before it; the calls between parents and children have twice the height of the tree. The sizes of buffers are those of the sources. A feed
  in the statements on MySQL is at most 65535 bytes, what the column holds, none of them zero.

  \<^bold>\<open>Not modelled.\<close> Logging, statistics, signals, process control and daemon code; the start of a service and
  its configuration beyond the configuration files themselves; the client sockets of the outbox service; the
  thin wrapper over the MySQL library. Of \<^verbatim>\<open>async_server/\<close>: the start of the processes, \<^verbatim>\<open>accept\<close> and \<^verbatim>\<open>epoll\<close>, and
  the connections a plugin makes to other servers beyond what they share with those of clients; a pipe is taken
  to hold 65536 bytes. Of the client library: protocol handlers, configuration and log files, and groups with connections
  that do not block. Outside of these: the recommendation service, the proxy of the friend service, the service for
  pictures, and the PHP and Python code, which are other programs. The manifest lists each with
  the reason.
\<close>

end
